(* ===== verification/Vpp_Prelude.thy ===== *)
theory Vpp_Prelude
  imports Complex_Main "HOL-Library.Word" "HOL-Library.Log_Nat"
begin

text \<open>
  Shared vocabulary of the development: the machine integers of \<^verbatim>\<open>vppinfra/types.h\<close> as words,
  the C conversions and shifts the components use, the lemmas that move between words and
  natural numbers, and the collections the component proofs are driven by.
\<close>

unbundle bit_operations_syntax

section \<open>Machine integers\<close>

type_synonym u8 = "8 word"
type_synonym u16 = "16 word"
type_synonym u32 = "32 word"
type_synonym u64 = "64 word"

text \<open>
  \<open>word_nat\<close> collects the rules that turn an operation on words into the operation on the
  natural numbers they denote.
\<close>

named_theorems word_nat

section \<open>C shifts and conversions\<close>

text \<open>
  \<open>(u64) (1 << e)\<close> with the C type \<open>int\<close> for the literal: the 32-bit result is sign-extended, and
  a shift by 32 or more is undefined behaviour (\<open>None\<close>).
\<close>

definition c_int_shl1 :: "nat \<Rightarrow> u64 option" where
  "c_int_shl1 e = (if e < 32 then Some (scast (push_bit e 1 :: u32)) else None)"

text \<open>\<open>__builtin_clz\<close> on a non-zero 32-bit value: the number of leading zero bits.\<close>

definition clz32 :: "u32 \<Rightarrow> nat" where
  "clz32 w = 32 - floorlog 2 (unat w)"

section \<open>From words to natural numbers\<close>

lemma unat_u32_lt: "unat (w :: u32) < 4294967296"
  using unsigned_less [of w] by simp

lemma unat_u64_lt: "unat (w :: u64) < 18446744073709551616"
  using unsigned_less [of w] by simp

lemma unat_u16_lt: "unat (w :: u16) < 65536"
  using unsigned_less [of w] by simp

lemma unat_u8_lt: "unat (w :: u8) < 256"
  using unsigned_less [of w] by simp

lemma unat_ucast_up [word_nat]:
  "LENGTH('a) \<le> LENGTH('b) \<Longrightarrow> unat (ucast (w :: 'a::len word) :: 'b::len word) = unat w"
  by (simp add: unsigned_ucast_eq take_bit_nat_eq_self_iff)
     (meson less_le_trans lift_Suc_mono_le one_le_numeral power_increasing unsigned_less)

lemma unat_ucast_small:
  "unat (w :: 'a::len word) < 2 ^ LENGTH('b) \<Longrightarrow> unat (ucast w :: 'b::len word) = unat w"
  by (simp add: unsigned_ucast_eq take_bit_nat_eq_self_iff)

lemma unat_add_le: "unat ((a :: 'a::len word) + b) \<le> unat a + unat b"
  by (simp add: unat_word_ariths)

lemma unat_mult_le: "unat ((a :: 'a::len word) * b) \<le> unat a * unat b"
  by (simp add: unat_word_ariths)

lemma unat_sub_eq: "(b :: 'a::len word) \<le> a \<Longrightarrow> unat (a - b) = unat a - unat b"
  by (simp add: unat_sub)

lemma ucast_diff_down:
  "LENGTH('b) \<le> LENGTH('a) \<Longrightarrow>
   (ucast ((a :: 'a::len word) - b) :: 'b::len word) = ucast a - ucast b"
  by transfer (metis min.absorb1 take_bit_diff take_bit_take_bit)

lemma ucast_ucast_same:
  "LENGTH('a) \<le> LENGTH('b) \<Longrightarrow>
   (ucast (ucast (w :: 'a::len word) :: 'b::len word) :: 'a word) = w"
  by (rule word_unat_eq_iff [THEN iffD2]) (simp add: unat_ucast_small unat_ucast_up)

lemma unat_push_bit_small:
  "unat (w :: 'a::len word) * 2 ^ n < 2 ^ LENGTH('a) \<Longrightarrow> unat (push_bit n w) = unat w * 2 ^ n"
  by (simp only: unsigned_push_bit_eq) (simp add: push_bit_eq_mult take_bit_nat_eq_self_iff)

lemma unat_push_bit_1: "e < LENGTH('a) \<Longrightarrow> unat (push_bit e (1 :: 'a::len word)) = 2 ^ e"
  by (subst unat_push_bit_small) simp_all

section \<open>Integer division\<close>

lemma div_add_small: "r < (d::nat) \<Longrightarrow> (q * d + r) div d = q"
  by simp

lemma ceil_div: "(0::nat) < d \<Longrightarrow>
    (n + d - 1) div d = (if n div d * d < n then n div d + 1 else n div d)"
proof -
  assume d: "0 < d"
  have n: "n = n div d * d + n mod d" by simp
  show ?thesis
  proof (cases "n mod d = 0")
    case True
    then have eq: "n + d - 1 = n div d * d + (d - 1)" using d n by linarith
    have "(n div d * d + (d - 1)) div d = n div d" by (rule div_add_small) (use d in simp)
    then have "(n + d - 1) div d = n div d" by (simp only: eq)
    then show ?thesis using True n by simp
  next
    case False
    then obtain k where k: "n mod d = Suc k" by (cases "n mod d") auto
    then have "k < d" using d by (metis Suc_lessD mod_less_divisor)
    moreover have "n + d - 1 = (n div d + 1) * d + k" using n k by (simp add: algebra_simps)
    ultimately have "(n + d - 1) div d = n div d + 1" by (metis div_add_small)
    moreover have "n div d * d < n" using n False by linarith
    ultimately show ?thesis by simp
  qed
qed

end
