(* ===== verification/Police.thy ===== *)
theory Police
  imports Vpp_Prelude "HOL-Library.Monad_Syntax"
begin

text \<open>
  The packet policer of \<^verbatim>\<open>vnet/policer/police.h\<close>: the token-bucket state
  \<^verbatim>\<open>policer_read_response_type_st\<close> and the per-packet decision \<^verbatim>\<open>vnet_police_packet\<close>, with all
  additions and subtractions at the widths of the code (64-bit token counts, 32-bit buckets).
  The lemmas give the effect of one packet on both buckets; the properties bound what a run of
  packets may send as conforming or exceeding, and show where the single-rate branch wraps.
\<close>

section \<open>State\<close>

datatype policer_result_e = POLICE_CONFORM | POLICE_EXCEED | POLICE_VIOLATE

record policer_read_response_type_st =
  pol_lock :: u32
  pol_single_rate :: u32
  pol_color_aware :: u32
  pol_scale :: u32
  pol_action :: "u8 list"
  pol_mark_dscp :: "u8 list"
  pol_cir_tokens_per_period :: u32
  pol_pir_tokens_per_period :: u32
  pol_current_limit :: u32
  pol_current_bucket :: u32
  pol_extended_limit :: u32
  pol_extended_bucket :: u32
  pol_last_update_time :: u64

section \<open>Operation\<close>

text \<open>The shift of the length by the scale is undefined in C for a scale of 32 or more: \<open>None\<close>.\<close>

definition vnet_police_packet ::
  "policer_read_response_type_st \<Rightarrow> u32 \<Rightarrow> policer_result_e \<Rightarrow> u64 \<Rightarrow>
   (policer_read_response_type_st \<times> policer_result_e) option" where
  "vnet_police_packet policer packet_length packet_color time =
    (if 32 \<le> pol_scale policer then None else Some
    (let packet_length = push_bit (unat (pol_scale policer)) packet_length;
         n_periods = time - pol_last_update_time policer;
         policer = policer\<lparr>pol_last_update_time := time\<rparr>
     in if pol_single_rate policer \<noteq> 0 then
       (let current_tokens = ucast (pol_current_bucket policer)
              + n_periods * ucast (pol_cir_tokens_per_period policer) :: u64;
            current_tokens = (if ucast (pol_current_limit policer) < current_tokens
              then ucast (pol_current_limit policer) else current_tokens);
            extended_tokens = ucast (pol_extended_bucket policer)
              + n_periods * ucast (pol_cir_tokens_per_period policer) :: u64;
            extended_tokens = (if ucast (pol_extended_limit policer) < extended_tokens
              then ucast (pol_extended_limit policer) else extended_tokens)
        in if (pol_color_aware policer = 0 \<or> packet_color = POLICE_CONFORM)
              \<and> ucast packet_length \<le> current_tokens then
             (policer\<lparr>pol_current_bucket := ucast (current_tokens - ucast packet_length),
                      pol_extended_bucket := ucast (extended_tokens - ucast packet_length)\<rparr>,
              POLICE_CONFORM)
           else if (pol_color_aware policer = 0 \<or> packet_color \<noteq> POLICE_VIOLATE)
              \<and> ucast packet_length \<le> extended_tokens then
             (policer\<lparr>pol_current_bucket := ucast current_tokens,
                      pol_extended_bucket := ucast (extended_tokens - ucast packet_length)\<rparr>,
              POLICE_EXCEED)
           else
             (policer\<lparr>pol_current_bucket := ucast current_tokens,
                      pol_extended_bucket := ucast extended_tokens\<rparr>,
              POLICE_VIOLATE))
     else
       (let current_tokens = ucast (pol_current_bucket policer)
              + n_periods * ucast (pol_cir_tokens_per_period policer) :: u64;
            extended_tokens = ucast (pol_extended_bucket policer)
              + n_periods * ucast (pol_pir_tokens_per_period policer) :: u64;
            current_tokens = (if ucast (pol_current_limit policer) < current_tokens
              then ucast (pol_current_limit policer) else current_tokens);
            extended_tokens = (if ucast (pol_extended_limit policer) < extended_tokens
              then ucast (pol_extended_limit policer) else extended_tokens)
        in if (pol_color_aware policer \<noteq> 0 \<and> packet_color = POLICE_VIOLATE)
              \<or> extended_tokens < ucast packet_length then
             (policer\<lparr>pol_current_bucket := ucast current_tokens,
                      pol_extended_bucket := ucast extended_tokens\<rparr>,
              POLICE_VIOLATE)
           else if (pol_color_aware policer \<noteq> 0 \<and> packet_color = POLICE_EXCEED)
              \<or> current_tokens < ucast packet_length then
             (policer\<lparr>pol_current_bucket := ucast current_tokens,
                      pol_extended_bucket := ucast (extended_tokens - ucast packet_length)\<rparr>,
              POLICE_EXCEED)
           else
             (policer\<lparr>pol_current_bucket := ucast (current_tokens - ucast packet_length),
                      pol_extended_bucket := ucast (extended_tokens - ucast packet_length)\<rparr>,
              POLICE_CONFORM))))"

text \<open>A packet offered to a policer: its length, its incoming colour and the time in periods.\<close>

type_synonym offered = "u32 \<times> policer_result_e \<times> u64"

fun police_run ::
  "policer_read_response_type_st \<Rightarrow> offered list \<Rightarrow>
   (policer_read_response_type_st \<times> policer_result_e list) option" where
  "police_run p [] = Some (p, [])"
| "police_run p ((len, col, t) # pkts) = do {
     (p', r) \<leftarrow> vnet_police_packet p len col t;
     (p'', rs) \<leftarrow> police_run p' pkts;
     Some (p'', r # rs)}"

section \<open>The effect of one packet\<close>

text \<open>
  \<open>refill b n rate cap\<close> is the token count the code compares with: the bucket plus the tokens of
  \<open>n\<close> periods, computed modulo \<open>2^64\<close> and capped at the limit.
\<close>

definition refill :: "u32 \<Rightarrow> u64 \<Rightarrow> u32 \<Rightarrow> u32 \<Rightarrow> u64" where
  "refill b n rate cap =
     (let t = ucast b + n * ucast rate in if ucast cap < t then ucast cap else t)"

definition scaled_length :: "policer_read_response_type_st \<Rightarrow> u32 \<Rightarrow> u32" where
  "scaled_length p len = push_bit (unat (pol_scale p)) len"

lemma refill_le_limit: "unat (refill b n rate cap) \<le> unat cap"
  by (auto simp: refill_def Let_def word_nat word_less_nat_alt)

lemma refill_lt: "unat (refill b n rate cap) < 4294967296"
  using refill_le_limit [of b n rate cap] unat_u32_lt [of cap] by linarith

lemma refill_le_tokens: "unat (refill b n rate cap) \<le> unat b + unat n * unat rate"
proof -
  have "unat (ucast b + n * ucast rate :: u64) \<le> unat b + unat n * unat rate"
    using unat_add_le [of "ucast b :: u64" "n * ucast rate"] unat_mult_le [of n "ucast rate :: u64"]
    by (simp add: word_nat)
  then show ?thesis
    by (auto simp: refill_def Let_def word_nat word_less_nat_alt)
qed

lemma unat_ucast_refill [simp]:
  "unat (ucast (refill b n rate cap) :: u32) = unat (refill b n rate cap)"
  using refill_lt by (simp add: unat_ucast_small)

lemma unat_ucast_refill_sub:
  "ucast (len :: u32) \<le> refill b n rate cap \<Longrightarrow>
   unat (ucast (refill b n rate cap - ucast len) :: u32) = unat (refill b n rate cap) - unat len"
  using refill_lt [of b n rate cap]
  by (subst unat_ucast_small) (auto simp: unat_sub_eq word_nat)

text \<open>The decision of the code, over the refilled token counts.\<close>

definition police_outcome ::
  "policer_read_response_type_st \<Rightarrow> u32 \<Rightarrow> policer_result_e \<Rightarrow> u64 \<Rightarrow> policer_read_response_type_st \<times> policer_result_e" where
  "police_outcome p len col t =
    (let n = t - pol_last_update_time p;
         single = pol_single_rate p \<noteq> 0;
         aware = pol_color_aware p \<noteq> 0;
         cur = refill (pol_current_bucket p) n (pol_cir_tokens_per_period p) (pol_current_limit p);
         ext = refill (pol_extended_bucket p) n
           (if single then pol_cir_tokens_per_period p else pol_pir_tokens_per_period p)
           (pol_extended_limit p);
         l = ucast (scaled_length p len);
         r = (if single then
                (if (\<not> aware \<or> col = POLICE_CONFORM) \<and> l \<le> cur then POLICE_CONFORM
                 else if (\<not> aware \<or> col \<noteq> POLICE_VIOLATE) \<and> l \<le> ext then POLICE_EXCEED
                 else POLICE_VIOLATE)
              else
                (if (aware \<and> col = POLICE_VIOLATE) \<or> ext < l then POLICE_VIOLATE
                 else if (aware \<and> col = POLICE_EXCEED) \<or> cur < l then POLICE_EXCEED
                 else POLICE_CONFORM))
     in (p\<lparr>pol_last_update_time := t,
           pol_current_bucket := ucast (if r = POLICE_CONFORM then cur - l else cur),
           pol_extended_bucket := ucast (if r = POLICE_VIOLATE then ext else ext - l)\<rparr>, r))"

lemma vnet_police_packet_refill:
  "vnet_police_packet p len col t = (if 32 \<le> pol_scale p then None else Some (police_outcome p len col t))"
proof -
  have fold: "(if (ucast cap :: u64) < ucast b + n * ucast rate then ucast cap
      else ucast b + n * ucast rate) = refill b n rate cap" for b n rate cap
    by (simp add: refill_def Let_def)
  have sel: "pol_single_rate (p\<lparr>pol_last_update_time := t\<rparr>) = pol_single_rate p"
    "pol_color_aware (p\<lparr>pol_last_update_time := t\<rparr>) = pol_color_aware p"
    "pol_current_bucket (p\<lparr>pol_last_update_time := t\<rparr>) = pol_current_bucket p"
    "pol_extended_bucket (p\<lparr>pol_last_update_time := t\<rparr>) = pol_extended_bucket p"
    "pol_current_limit (p\<lparr>pol_last_update_time := t\<rparr>) = pol_current_limit p"
    "pol_extended_limit (p\<lparr>pol_last_update_time := t\<rparr>) = pol_extended_limit p"
    "pol_cir_tokens_per_period (p\<lparr>pol_last_update_time := t\<rparr>) = pol_cir_tokens_per_period p"
    "pol_pir_tokens_per_period (p\<lparr>pol_last_update_time := t\<rparr>) = pol_pir_tokens_per_period p"
    by simp_all
  define cur where "cur = refill (pol_current_bucket p) (t - pol_last_update_time p)
    (pol_cir_tokens_per_period p) (pol_current_limit p)"
  define ext where "ext = refill (pol_extended_bucket p) (t - pol_last_update_time p)
    (if pol_single_rate p \<noteq> 0 then pol_cir_tokens_per_period p else pol_pir_tokens_per_period p)
    (pol_extended_limit p)"
  define l where "l = (ucast (push_bit (unat (pol_scale p)) len) :: u64)"
  have ext_eq: "pol_single_rate p \<noteq> 0 \<Longrightarrow> refill (pol_extended_bucket p) (t - pol_last_update_time p)
      (pol_cir_tokens_per_period p) (pol_extended_limit p) = ext"
    "pol_single_rate p = 0 \<Longrightarrow> refill (pol_extended_bucket p) (t - pol_last_update_time p)
      (pol_pir_tokens_per_period p) (pol_extended_limit p) = ext"
    by (simp_all add: ext_def)
  show ?thesis
    unfolding vnet_police_packet_def police_outcome_def Let_def sel fold scaled_length_def
      cur_def [symmetric] ext_def [symmetric] l_def [symmetric]
    by (cases "pol_single_rate p = 0") (simp_all add: ext_eq)
qed

lemma police_outcomeD: "vnet_police_packet p len col t = Some x \<Longrightarrow> police_outcome p len col t = x"
  by (simp add: vnet_police_packet_refill split: if_splits)

lemma vnet_police_packet_actions:
  "vnet_police_packet p len col t = Some (p', r) \<Longrightarrow>
   pol_action p' = pol_action p \<and> pol_mark_dscp p' = pol_mark_dscp p"
  by (auto simp: police_outcome_def Let_def dest!: police_outcomeD)

lemma vnet_police_packet_frame:
  "vnet_police_packet p len col t = Some (p', r) \<Longrightarrow>
   pol_last_update_time p' = t \<and> pol_scale p' = pol_scale p
   \<and> pol_single_rate p' = pol_single_rate p \<and> pol_color_aware p' = pol_color_aware p
   \<and> pol_cir_tokens_per_period p' = pol_cir_tokens_per_period p
   \<and> pol_pir_tokens_per_period p' = pol_pir_tokens_per_period p
   \<and> pol_current_limit p' = pol_current_limit p
   \<and> pol_extended_limit p' = pol_extended_limit p"
  by (auto simp: police_outcome_def Let_def dest!: police_outcomeD)

text \<open>A conforming packet is paid for by the committed bucket, for every kind of policer.\<close>

lemma police_packet_current:
  assumes "vnet_police_packet p len col t = Some (p', r)"
  shows "unat (pol_current_bucket p') \<le> unat (pol_current_limit p)"
    and "unat (pol_current_bucket p')
           + (if r = POLICE_CONFORM then unat (scaled_length p len) else 0)
         \<le> unat (pol_current_bucket p)
           + unat (t - pol_last_update_time p) * unat (pol_cir_tokens_per_period p)"
proof -
  let ?n = "t - pol_last_update_time p"
  let ?cur = "refill (pol_current_bucket p) ?n (pol_cir_tokens_per_period p) (pol_current_limit p)"
  let ?l = "ucast (scaled_length p len) :: u64"
  have b: "pol_current_bucket p' = ucast (if r = POLICE_CONFORM then ?cur - ?l else ?cur)"
    and c: "r = POLICE_CONFORM \<Longrightarrow> ?l \<le> ?cur"
    using police_outcomeD [OF assms] by (auto simp: police_outcome_def Let_def split: if_splits)
  have l: "r = POLICE_CONFORM \<Longrightarrow> unat (scaled_length p len) \<le> unat ?cur"
    using c by (simp add: word_le_nat_alt word_nat)
  have "unat (pol_current_bucket p')
      = unat ?cur - (if r = POLICE_CONFORM then unat (scaled_length p len) else 0)"
    using c by (simp add: b unat_ucast_refill_sub)
  then show "unat (pol_current_bucket p') \<le> unat (pol_current_limit p)"
    and "unat (pol_current_bucket p')
           + (if r = POLICE_CONFORM then unat (scaled_length p len) else 0)
         \<le> unat (pol_current_bucket p)
           + unat ?n * unat (pol_cir_tokens_per_period p)"
    using l refill_le_limit [of "pol_current_bucket p" ?n "pol_cir_tokens_per_period p" "pol_current_limit p"]
      refill_le_tokens [of "pol_current_bucket p" ?n "pol_cir_tokens_per_period p" "pol_current_limit p"]
    by (auto split: if_splits)
qed

text \<open>In a two-rate policer every packet that is not violating is paid for by the excess bucket.\<close>

lemma police_packet_extended:
  assumes "vnet_police_packet p len col t = Some (p', r)" and "pol_single_rate p = 0"
  shows "unat (pol_extended_bucket p') \<le> unat (pol_extended_limit p)"
    and "unat (pol_extended_bucket p')
           + (if r = POLICE_VIOLATE then 0 else unat (scaled_length p len))
         \<le> unat (pol_extended_bucket p)
           + unat (t - pol_last_update_time p) * unat (pol_pir_tokens_per_period p)"
proof -
  let ?n = "t - pol_last_update_time p"
  let ?ext = "refill (pol_extended_bucket p) ?n (pol_pir_tokens_per_period p) (pol_extended_limit p)"
  let ?l = "ucast (scaled_length p len) :: u64"
  have b: "pol_extended_bucket p' = ucast (if r = POLICE_VIOLATE then ?ext else ?ext - ?l)"
    and c: "r \<noteq> POLICE_VIOLATE \<Longrightarrow> ?l \<le> ?ext"
    using police_outcomeD [OF assms(1)] assms(2) by (auto simp: police_outcome_def Let_def not_less split: if_splits)
  have l: "r \<noteq> POLICE_VIOLATE \<Longrightarrow> unat (scaled_length p len) \<le> unat ?ext"
    using c by (simp add: word_le_nat_alt word_nat)
  have "unat (pol_extended_bucket p')
      = unat ?ext - (if r = POLICE_VIOLATE then 0 else unat (scaled_length p len))"
    using c by (simp add: b unat_ucast_refill_sub)
  then show "unat (pol_extended_bucket p') \<le> unat (pol_extended_limit p)"
    and "unat (pol_extended_bucket p')
           + (if r = POLICE_VIOLATE then 0 else unat (scaled_length p len))
         \<le> unat (pol_extended_bucket p)
           + unat ?n * unat (pol_pir_tokens_per_period p)"
    using l refill_le_limit [of "pol_extended_bucket p" ?n "pol_pir_tokens_per_period p" "pol_extended_limit p"]
      refill_le_tokens [of "pol_extended_bucket p" ?n "pol_pir_tokens_per_period p" "pol_extended_limit p"]
    by (auto split: if_splits)
qed

section \<open>Runs of packets\<close>

definition times_ordered :: "policer_read_response_type_st \<Rightarrow> offered list \<Rightarrow> bool" where
  "times_ordered p pkts = sorted (pol_last_update_time p # map (\<lambda>(len, col, t). t) pkts)"

text \<open>
  The bytes of the packets that got one of the colours, and the tokens that the code charges for them.
  They agree, up to the scale, when no scaled length overflows 32 bits.
\<close>

definition sent_bytes :: "policer_result_e set \<Rightarrow> offered list \<Rightarrow> policer_result_e list \<Rightarrow> nat" where
  "sent_bytes colours pkts rs = sum_list (map2 (\<lambda>(len, col, t) r. if r \<in> colours then unat len else 0) pkts rs)"

definition charged ::
  "policer_read_response_type_st \<Rightarrow> policer_result_e set \<Rightarrow> offered list \<Rightarrow> policer_result_e list \<Rightarrow> nat" where
  "charged p colours pkts rs =
     sum_list (map2 (\<lambda>(len, col, t) r. if r \<in> colours then unat (scaled_length p len) else 0) pkts rs)"

lemma charged_simps [simp]:
  "charged p C [] rs = 0"
  "charged p C ((len, col, t) # pkts) (r # rs) =
     (if r \<in> C then unat (scaled_length p len) else 0) + charged p C pkts rs"
  by (simp_all add: charged_def)

lemma charged_cong:
  assumes "pol_scale p' = pol_scale p"
  shows "charged p' C pkts rs = charged p C pkts rs"
  unfolding charged_def scaled_length_def assms ..

definition length_fits :: "policer_read_response_type_st \<Rightarrow> u32 \<Rightarrow> bool" where
  "length_fits p len \<longleftrightarrow> unat len * 2 ^ unat (pol_scale p) < 2 ^ 32"

definition lengths_fit :: "policer_read_response_type_st \<Rightarrow> offered list \<Rightarrow> bool" where
  "lengths_fit p pkts = (\<forall>(len, col, t)\<in>set pkts. length_fits p len)"

lemma unat_scaled_length: "length_fits p len \<Longrightarrow> unat (scaled_length p len) = unat len * 2 ^ unat (pol_scale p)"
  using unat_push_bit_small [of len "unat (pol_scale p)"] by (simp add: length_fits_def scaled_length_def)

lemma charged_eq:
  "lengths_fit p pkts \<Longrightarrow> charged p C pkts rs = 2 ^ unat (pol_scale p) * sent_bytes C pkts rs"
  by (induction pkts rs rule: list_induct2')
    (auto simp: charged_def sent_bytes_def lengths_fit_def unat_scaled_length algebra_simps)

lemma times_ordered_Cons:
  "times_ordered p ((len, col, t) # pkts) \<longleftrightarrow>
     pol_last_update_time p \<le> t \<and> times_ordered (p\<lparr>pol_last_update_time := t\<rparr>) pkts"
  by (auto simp: times_ordered_def)

lemma police_run_Cons:
  assumes "police_run p ((len, col, t) # pkts) = Some (p', rs)"
  obtains q r rs' where "vnet_police_packet p len col t = Some (q, r)"
    and "police_run q pkts = Some (p', rs')" and "rs = r # rs'"
  using assms by (auto simp: bind_eq_Some_conv)

lemma police_run_last:
  "times_ordered p pkts \<Longrightarrow> police_run p pkts = Some (p', rs) \<Longrightarrow>
   unat (pol_last_update_time p) \<le> unat (pol_last_update_time p')"
proof (induction pkts arbitrary: p rs)
  case (Cons a pkts)
  obtain len col t where a: "a = (len, col, t)" by (cases a) auto
  obtain q r rs' where q: "vnet_police_packet p len col t = Some (q, r)" and run: "police_run q pkts = Some (p', rs')"
    using Cons.prems(2) police_run_Cons by (metis a)
  have "times_ordered q pkts" and "pol_last_update_time p \<le> t"
    using Cons.prems(1) vnet_police_packet_frame [OF q]
    by (auto simp: a times_ordered_Cons times_ordered_def)
  with Cons.IH [OF _ run] vnet_police_packet_frame [OF q] show ?case by (simp add: word_le_nat_alt)
qed (simp add: times_ordered_def)

text \<open>
  The budget argument shared by both buckets: if every packet keeps \<open>bucket + charge\<close> below the
  bucket plus the tokens of the elapsed periods, so does a whole run.
\<close>

lemma police_run_budget:
  assumes step: "\<And>p len col t p' r. single = (pol_single_rate p \<noteq> 0) \<Longrightarrow>
      vnet_police_packet p len col t = Some (p', r) \<Longrightarrow>
      unat (bucket p') + (if r \<in> C then unat (scaled_length p len) else 0)
      \<le> unat (bucket p) + unat (t - pol_last_update_time p) * unat (rate p)"
    and rate: "\<And>p len col t p' r. vnet_police_packet p len col t = Some (p', r) \<Longrightarrow> rate p' = rate p"
  shows "single = (pol_single_rate p \<noteq> 0) \<Longrightarrow> times_ordered p pkts \<Longrightarrow>
    police_run p pkts = Some (p', rs) \<Longrightarrow>
    charged p C pkts rs + unat (bucket p')
    \<le> unat (bucket p)
       + (unat (pol_last_update_time p') - unat (pol_last_update_time p)) * unat (rate p)"
proof (induction pkts arbitrary: p rs)
  case (Cons a pkts)
  obtain len col t where a: "a = (len, col, t)" by (cases a) auto
  obtain q r rs' where q: "vnet_police_packet p len col t = Some (q, r)"
    and run: "police_run q pkts = Some (p', rs')" and rs: "rs = r # rs'"
    using Cons.prems(3) police_run_Cons by (metis a)
  note fr = vnet_police_packet_frame [OF q]
  have ord: "times_ordered q pkts" and le: "pol_last_update_time p \<le> t"
    using Cons.prems(2) fr by (auto simp: a times_ordered_Cons times_ordered_def)
  have last: "unat t \<le> unat (pol_last_update_time p')"
    using police_run_last [OF ord run] fr by simp
  have "charged p C pkts rs' + unat (bucket p')
      \<le> unat (bucket q) + (unat (pol_last_update_time p') - unat t) * unat (rate p)"
    using Cons.IH [OF _ ord run] Cons.prems(1) fr rate [OF q] charged_cong [of q p] by simp
  moreover have "unat (bucket q) + (if r \<in> C then unat (scaled_length p len) else 0)
      \<le> unat (bucket p) + (unat t - unat (pol_last_update_time p)) * unat (rate p)"
    using step [OF Cons.prems(1) q] le by (simp add: unat_sub_eq)
  moreover have "(unat t - unat (pol_last_update_time p)) * unat (rate p)
        + (unat (pol_last_update_time p') - unat t) * unat (rate p)
      = (unat (pol_last_update_time p') - unat (pol_last_update_time p)) * unat (rate p)"
    using le last by (simp add: word_le_nat_alt flip: distrib_right)
  ultimately show ?case
    by (simp add: a rs)
qed simp

text \<open>The committed bucket pays for every conforming packet.\<close>

lemma conform_budget:
  assumes "times_ordered p pkts" and "police_run p pkts = Some (p', rs)"
  shows "charged p {POLICE_CONFORM} pkts rs + unat (pol_current_bucket p')
    \<le> unat (pol_current_bucket p)
       + (unat (pol_last_update_time p') - unat (pol_last_update_time p))
         * unat (pol_cir_tokens_per_period p)"
proof (rule police_run_budget [OF _ _ refl assms])
  fix p len col t p' r
  assume v: "vnet_police_packet p len col t = Some (p', r)"
  show "pol_cir_tokens_per_period p' = pol_cir_tokens_per_period p"
    using vnet_police_packet_frame [OF v] by simp
  show "unat (pol_current_bucket p') + (if r \<in> {POLICE_CONFORM} then unat (scaled_length p len) else 0)
      \<le> unat (pol_current_bucket p)
         + unat (t - pol_last_update_time p) * unat (pol_cir_tokens_per_period p)"
    using police_packet_current(2) [OF v] by simp
qed

section \<open>The two-rate three-colour marker\<close>

text \<open>
  The ideal marker on unbounded token counts: buckets are refilled up to their limits, a packet
  that does not fit the peak bucket violates, one that does not fit the committed bucket exceeds.
\<close>

definition trtcm ::
  "nat \<Rightarrow> nat \<Rightarrow> nat \<Rightarrow> nat \<Rightarrow> bool \<Rightarrow> nat \<times> nat \<Rightarrow> nat \<Rightarrow> nat \<Rightarrow> policer_result_e \<Rightarrow>
   (nat \<times> nat) \<times> policer_result_e" where
  "trtcm limc lime cir pir aware b n len col =
    (let c = min limc (fst b + n * cir); e = min lime (snd b + n * pir)
     in if (aware \<and> col = POLICE_VIOLATE) \<or> e < len then ((c, e), POLICE_VIOLATE)
        else if (aware \<and> col = POLICE_EXCEED) \<or> c < len then ((c, e - len), POLICE_EXCEED)
        else ((c - len, e - len), POLICE_CONFORM))"

definition buckets :: "policer_read_response_type_st \<Rightarrow> nat \<times> nat" where
  "buckets p = (unat (pol_current_bucket p), unat (pol_extended_bucket p))"

lemma unat_refill:
  "unat b + unat n * unat rate < 2 ^ 64 \<Longrightarrow>
   unat (refill b n rate cap) = min (unat cap) (unat b + unat n * unat rate)"
  by (auto simp: refill_def Let_def word_nat word_less_nat_alt unat_word_ariths min_def)

section \<open>Properties\<close>

text \<open>
  C2. For any policer and any sequence of packets with non-decreasing times whose scaled lengths fit 32
  bits, the bytes of the packets marked conforming, in tokens of \<open>2^scale\<close> to the byte, plus what is left in
  the committed bucket never exceed the initial bucket plus the committed rate times the elapsed
  periods; 64-bit overflow of the refill cannot create tokens.
\<close>

theorem police_conform_bound:
  assumes "times_ordered p pkts" and "police_run p pkts = Some (p', rs)" and "lengths_fit p pkts"
  shows "2 ^ unat (pol_scale p) * sent_bytes {POLICE_CONFORM} pkts rs + unat (pol_current_bucket p')
    \<le> unat (pol_current_bucket p)
       + (unat (pol_last_update_time p') - unat (pol_last_update_time p))
         * unat (pol_cir_tokens_per_period p)"
  using conform_budget [OF assms(1,2)] charged_eq [OF assms(3)] by simp

text \<open>
  In a two-rate policer the bytes marked conforming or exceeding are bounded in the same way
  by the peak bucket and the peak rate, in the tokens that the code charges.
\<close>

theorem police_excess_bound:
  assumes "pol_single_rate p = 0" and "times_ordered p pkts" and "police_run p pkts = Some (p', rs)"
  shows "charged p {POLICE_CONFORM, POLICE_EXCEED} pkts rs + unat (pol_extended_bucket p')
    \<le> unat (pol_extended_bucket p)
       + (unat (pol_last_update_time p') - unat (pol_last_update_time p))
         * unat (pol_pir_tokens_per_period p)"
proof (rule police_run_budget [where single = False, OF _ _ _ assms(2,3)])
  show "False = (pol_single_rate p \<noteq> 0)" using assms(1) by simp
next
  fix p len col t p' r
  assume v: "vnet_police_packet p len col t = Some (p', r)"
  show "pol_pir_tokens_per_period p' = pol_pir_tokens_per_period p"
    using vnet_police_packet_frame [OF v] by simp
  assume "False = (pol_single_rate p \<noteq> 0)"
  then show "unat (pol_extended_bucket p')
        + (if r \<in> {POLICE_CONFORM, POLICE_EXCEED} then unat (scaled_length p len) else 0)
      \<le> unat (pol_extended_bucket p)
         + unat (t - pol_last_update_time p) * unat (pol_pir_tokens_per_period p)"
    using police_packet_extended(2) [OF v] by (cases r) simp_all
qed

text \<open>
  C3. While the refill of both buckets fits 64 bits and the scaled length of the packet fits 32, the
  two-rate branch computes exactly the ideal two-rate three-colour marker on the length of the packet:
  same colours, same bucket contents.
\<close>

theorem police_two_rate_refines_trtcm:
  assumes "pol_single_rate p = 0"
    and "unat (pol_current_bucket p)
      + unat (t - pol_last_update_time p) * unat (pol_cir_tokens_per_period p) < 2 ^ 64"
    and "unat (pol_extended_bucket p)
      + unat (t - pol_last_update_time p) * unat (pol_pir_tokens_per_period p) < 2 ^ 64"
    and "unat (pol_scale p) < 32" and "unat len * 2 ^ unat (pol_scale p) < 2 ^ 32"
  shows "map_option (map_prod buckets id) (vnet_police_packet p len col t)
    = Some (trtcm (unat (pol_current_limit p)) (unat (pol_extended_limit p))
        (unat (pol_cir_tokens_per_period p)) (unat (pol_pir_tokens_per_period p))
        (pol_color_aware p \<noteq> 0) (buckets p) (unat (t - pol_last_update_time p))
        (unat len * 2 ^ unat (pol_scale p)) col)"
proof -
  let ?n = "t - pol_last_update_time p"
  let ?l = "ucast (scaled_length p len) :: u64"
  define c where "c = refill (pol_current_bucket p) ?n (pol_cir_tokens_per_period p) (pol_current_limit p)"
  define e where "e = refill (pol_extended_bucket p) ?n (pol_pir_tokens_per_period p) (pol_extended_limit p)"
  have l: "unat ?l = unat (scaled_length p len)" by (simp add: word_nat)
  have len: "unat len * 2 ^ unat (pol_scale p) = unat (scaled_length p len)"
    using unat_scaled_length [of p len] assms(5) by (simp add: length_fits_def)
  have sc: "\<not> 32 \<le> pol_scale p" using assms(4) by (simp add: word_le_nat_alt)
  have c: "unat c = min (unat (pol_current_limit p)) (unat (pol_current_bucket p) + unat ?n * unat (pol_cir_tokens_per_period p))"
    unfolding c_def by (rule unat_refill [OF assms(2)])
  have e: "unat e = min (unat (pol_extended_limit p)) (unat (pol_extended_bucket p) + unat ?n * unat (pol_pir_tokens_per_period p))"
    unfolding e_def by (rule unat_refill [OF assms(3)])
  have sub: "?l \<le> c \<Longrightarrow> unat (ucast (c - ?l) :: u32) = unat c - unat (scaled_length p len)"
    "?l \<le> e \<Longrightarrow> unat (ucast (e - ?l) :: u32) = unat e - unat (scaled_length p len)"
    and same: "unat (ucast c :: u32) = unat c" "unat (ucast e :: u32) = unat e"
    unfolding c_def e_def by (rule unat_ucast_refill_sub, assumption)+ (rule unat_ucast_refill)+
  have cmp: "x < ?l \<longleftrightarrow> unat x < unat (scaled_length p len)" for x
    by (simp add: word_less_nat_alt l)
  show ?thesis
    unfolding vnet_police_packet_refill police_outcome_def trtcm_def Let_def len
    using assms(1) sc
    by (simp add: c_def [symmetric] e_def [symmetric] buckets_def c [symmetric] e [symmetric]
        cmp same sub not_less word_le_nat_alt l)
qed

text \<open>
  After every packet the committed bucket is within its limit, and so is the excess bucket
  of a two-rate policer.
\<close>

theorem police_bucket_invariant:
  assumes "vnet_police_packet p len col t = Some (p', r)"
  shows "pol_current_bucket p' \<le> pol_current_limit p'
    \<and> (pol_single_rate p' = 0 \<longrightarrow> pol_extended_bucket p' \<le> pol_extended_limit p')"
  using police_packet_current(1) [OF assms] police_packet_extended(1) [OF assms]
    vnet_police_packet_frame [OF assms]
  by (simp add: word_le_nat_alt)

text \<open>
  The single-rate branch charges a conforming packet to the excess bucket without checking
  that it has the tokens: when the refilled excess bucket is smaller than the packet, the
  32-bit bucket wraps to \<open>2^32\<close> minus the shortfall, and the next refill caps it at the full
  excess burst.
\<close>

theorem police_single_rate_excess_wraps:
  assumes "pol_single_rate p \<noteq> 0"
    and "vnet_police_packet p len col t = Some (p', POLICE_CONFORM)"
    and "ext = unat (refill (pol_extended_bucket p) (t - pol_last_update_time p)
           (pol_cir_tokens_per_period p) (pol_extended_limit p))"
    and "ext < unat (scaled_length p len)"
  shows "unat (pol_extended_bucket p') = 2 ^ 32 - (unat (scaled_length p len) - ext)"
proof -
  define e where "e = refill (pol_extended_bucket p) (t - pol_last_update_time p)
           (pol_cir_tokens_per_period p) (pol_extended_limit p)"
  have b: "pol_extended_bucket p' = ucast (e - ucast (scaled_length p len))"
    using assms(1) police_outcomeD [OF assms(2)] by (auto simp: police_outcome_def Let_def e_def split: if_splits)
  have "pol_extended_bucket p' = ucast e - scaled_length p len"
    unfolding b by (simp add: ucast_diff_down ucast_ucast_same)
  moreover have "unat (ucast e :: u32) = ext"
    unfolding assms(3) e_def by (rule unat_ucast_refill)
  ultimately show ?thesis
    using assms(4) by (simp add: unat_sub_if' word_le_nat_alt)
qed

section \<open>Witnesses\<close>

definition sample_two_rate :: policer_read_response_type_st where
  "sample_two_rate = \<lparr>pol_lock = 0, pol_single_rate = 0, pol_color_aware = 0, pol_scale = 1,
     pol_action = [1, 2, 0], pol_mark_dscp = [0, 10, 0],
     pol_cir_tokens_per_period = 100, pol_pir_tokens_per_period = 200,
     pol_current_limit = 3000, pol_current_bucket = 3000,
     pol_extended_limit = 6000, pol_extended_bucket = 6000, pol_last_update_time = 10\<rparr>"

definition sample_single_rate :: policer_read_response_type_st where
  "sample_single_rate = sample_two_rate\<lparr>pol_single_rate := 1, pol_scale := 0,
     pol_current_bucket := 1000, pol_extended_bucket := 100\<rparr>"

definition sample_packets :: "offered list" where
  "sample_packets = [(1000, POLICE_CONFORM, 10), (1000, POLICE_CONFORM, 12), (3000, POLICE_CONFORM, 13)]"

theorem police_conform_bound_witness:
  "\<exists>p'. times_ordered sample_two_rate sample_packets \<and> lengths_fit sample_two_rate sample_packets
   \<and> police_run sample_two_rate sample_packets = Some (p', [POLICE_CONFORM, POLICE_EXCEED, POLICE_VIOLATE])
   \<and> 2 * sent_bytes {POLICE_CONFORM} sample_packets [POLICE_CONFORM, POLICE_EXCEED, POLICE_VIOLATE]
       + unat (pol_current_bucket p') \<le> 3300"
proof -
  have t: "times_ordered sample_two_rate sample_packets" "lengths_fit sample_two_rate sample_packets"
    by (simp_all add: times_ordered_def lengths_fit_def length_fits_def sample_two_rate_def sample_packets_def)
  have "map_option (\<lambda>(p, rs). (unat (pol_last_update_time p), rs)) (police_run sample_two_rate sample_packets)
      = Some (13, [POLICE_CONFORM, POLICE_EXCEED, POLICE_VIOLATE])" by code_simp
  then obtain p' where r: "police_run sample_two_rate sample_packets = Some (p', [POLICE_CONFORM, POLICE_EXCEED, POLICE_VIOLATE])"
    and l: "unat (pol_last_update_time p') = 13" by auto
  have f: "unat (pol_last_update_time sample_two_rate) = 10" "unat (pol_cir_tokens_per_period sample_two_rate) = 100"
      "unat (pol_current_bucket sample_two_rate) = 3000" "unat (pol_scale sample_two_rate) = 1"
    by code_simp+
  show ?thesis
    using t r police_conform_bound [OF t(1) r t(2)] by (intro exI [of _ p']) (simp add: l f)
qed

theorem police_two_rate_refines_trtcm_witness:
  "pol_single_rate sample_two_rate = 0
   \<and> map_option (map_prod buckets id) (vnet_police_packet sample_two_rate 2000 POLICE_CONFORM 12)
     = Some (trtcm 3000 6000 100 200 False (3000, 6000) 2 4000 POLICE_CONFORM)"
proof -
  have f: "pol_single_rate sample_two_rate = 0"
    "unat (pol_current_bucket sample_two_rate)
      + unat (12 - pol_last_update_time sample_two_rate)
        * unat (pol_cir_tokens_per_period sample_two_rate) < 2 ^ 64"
    "unat (pol_extended_bucket sample_two_rate)
      + unat (12 - pol_last_update_time sample_two_rate)
        * unat (pol_pir_tokens_per_period sample_two_rate) < 2 ^ 64"
    "unat (pol_scale sample_two_rate) < 32" "unat (2000 :: u32) * 2 ^ unat (pol_scale sample_two_rate) < 2 ^ 32"
    by (simp_all add: sample_two_rate_def)
  show ?thesis
    using f(1) police_two_rate_refines_trtcm [OF f, of POLICE_CONFORM]
    by (simp add: sample_two_rate_def buckets_def)
qed

theorem police_single_rate_excess_wraps_witness:
  "\<exists>p'. vnet_police_packet sample_single_rate 500 POLICE_CONFORM 10 = Some (p', POLICE_CONFORM)
   \<and> unat (pol_extended_bucket p') = 2 ^ 32 - 400"
proof -
  have "map_option snd (vnet_police_packet sample_single_rate 500 POLICE_CONFORM 10) = Some POLICE_CONFORM" by code_simp
  then obtain p' where r: "vnet_police_packet sample_single_rate 500 POLICE_CONFORM 10 = Some (p', POLICE_CONFORM)" by auto
  have f: "pol_single_rate sample_single_rate \<noteq> 0"
    "100 = unat (refill (pol_extended_bucket sample_single_rate)
       (10 - pol_last_update_time sample_single_rate)
       (pol_cir_tokens_per_period sample_single_rate) (pol_extended_limit sample_single_rate))"
    "100 < unat (scaled_length sample_single_rate 500)"
    "unat (scaled_length sample_single_rate 500) = 500"
    by code_simp+
  show ?thesis
    using police_single_rate_excess_wraps [OF f(1) r f(2,3)] r f(4) by (intro exI [of _ p']) simp
qed

end
