(* ===== verification/Policer_Xlate.thy ===== *)
theory Policer_Xlate
  imports Police
begin

text \<open>
  The policer configuration translation of \<^verbatim>\<open>vnet/policer/xlate.c\<close> with the types of
  \<^verbatim>\<open>vnet/policer/xlate.h\<close>: rounding, validation, the exponent/mantissa encoding of rates and
  bursts, the conversion of a configuration to hardware parameters and back, and the unit
  conversions between packets per second, kilobits per second, bytes and milliseconds.
  Out-parameters are returned; \<open>None\<close> is C undefined behaviour. The anonymous union \<open>rb\<close> of the
  configuration has the same layout in both of its arms, so one group of fields stands for both.
  The debug and trace macros write to stderr only and are left out.
\<close>

section \<open>Constants and types\<close>

abbreviation (input) EINVAL :: int where "EINVAL \<equiv> 22"

abbreviation (input) SSE2_QOS_POLICER_TYPE_1R2C :: u8 where "SSE2_QOS_POLICER_TYPE_1R2C \<equiv> 0"
abbreviation (input) SSE2_QOS_POLICER_TYPE_1R3C_RFC_2697 :: u8 where "SSE2_QOS_POLICER_TYPE_1R3C_RFC_2697 \<equiv> 1"
abbreviation (input) SSE2_QOS_POLICER_TYPE_2R3C_RFC_2698 :: u8 where "SSE2_QOS_POLICER_TYPE_2R3C_RFC_2698 \<equiv> 2"
abbreviation (input) SSE2_QOS_POLICER_TYPE_2R3C_RFC_4115 :: u8 where "SSE2_QOS_POLICER_TYPE_2R3C_RFC_4115 \<equiv> 3"
abbreviation (input) SSE2_QOS_POLICER_TYPE_2R3C_RFC_MEF5CF1 :: u8 where "SSE2_QOS_POLICER_TYPE_2R3C_RFC_MEF5CF1 \<equiv> 4"

abbreviation (input) SSE2_QOS_ROUND_TO_CLOSEST :: u8 where "SSE2_QOS_ROUND_TO_CLOSEST \<equiv> 0"
abbreviation (input) SSE2_QOS_ROUND_TO_UP :: u8 where "SSE2_QOS_ROUND_TO_UP \<equiv> 1"
abbreviation (input) SSE2_QOS_ROUND_TO_DOWN :: u8 where "SSE2_QOS_ROUND_TO_DOWN \<equiv> 2"

abbreviation (input) SSE2_QOS_RATE_KBPS :: u8 where "SSE2_QOS_RATE_KBPS \<equiv> 0"
abbreviation (input) SSE2_QOS_RATE_PPS :: u8 where "SSE2_QOS_RATE_PPS \<equiv> 1"

abbreviation (input) IPE_RFC_RFC2697 :: u8 where "IPE_RFC_RFC2697 \<equiv> 0"
abbreviation (input) IPE_RFC_RFC2698 :: u8 where "IPE_RFC_RFC2698 \<equiv> 1"
abbreviation (input) IPE_RFC_RFC4115 :: u8 where "IPE_RFC_RFC4115 \<equiv> 2"
abbreviation (input) IPE_RFC_MEF5CF1 :: u8 where "IPE_RFC_MEF5CF1 \<equiv> 3"

text \<open>Widths of the hardware fields: 4-bit rate exponent, 11-bit rate mantissas, 5-bit and 7-bit
  bucket limit exponent and mantissa, 31-bit buckets.\<close>

abbreviation (input) SSE2_QOS_POL_RATE_EXP_MAX :: nat where "SSE2_QOS_POL_RATE_EXP_MAX \<equiv> 15"
abbreviation (input) SSE2_QOS_POL_AVG_RATE_MANT_MAX :: nat where "SSE2_QOS_POL_AVG_RATE_MANT_MAX \<equiv> 2047"
abbreviation (input) SSE2_QOS_POL_AVG_RATE_MAX :: u32 where "SSE2_QOS_POL_AVG_RATE_MAX \<equiv> 67076096"
abbreviation (input) SSE2_QOS_POL_PEAK_RATE_MAX :: u32 where "SSE2_QOS_POL_PEAK_RATE_MAX \<equiv> 67076096"
abbreviation (input) SSE2_QOS_POL_BKT_LIMIT_EXP_MAX :: u16 where "SSE2_QOS_POL_BKT_LIMIT_EXP_MAX \<equiv> 31"
abbreviation (input) SSE2_QOS_POL_BKT_LIMIT_MANT_MAX :: u16 where "SSE2_QOS_POL_BKT_LIMIT_MANT_MAX \<equiv> 127"
abbreviation (input) SSE2_QOS_POL_BKT_MAX :: u32 where "SSE2_QOS_POL_BKT_MAX \<equiv> 2147483648"
abbreviation (input) SSE2_QOS_POL_MIN_BURST_BYTE :: u64 where "SSE2_QOS_POL_MIN_BURST_BYTE \<equiv> 9216"
abbreviation (input) SSE2_QOS_POL_DEF_BURST_BYTE :: u64 where "SSE2_QOS_POL_DEF_BURST_BYTE \<equiv> 100"
abbreviation (input) RATE256 :: u64 where "RATE256 \<equiv> 32014336"
abbreviation (input) RATE128 :: u64 where "RATE128 \<equiv> 16007168"
abbreviation (input) RATE64 :: u64 where "RATE64 \<equiv> 8003584"

record sse2_qos_pol_action_params_st =
  act_action_type :: u8
  act_dscp :: u8

record sse2_qos_pol_cfg_params_st =
  cfg_cir :: u32
  cfg_eir :: u32
  cfg_cb :: u64
  cfg_eb :: u64
  cfg_rate_type :: u8
  cfg_rnd_type :: u8
  cfg_rfc :: u8
  cfg_color_aware :: u8
  cfg_overwrite_bucket :: u8
  cfg_current_bucket :: u32
  cfg_extended_bucket :: u32
  cfg_conform_action :: sse2_qos_pol_action_params_st
  cfg_exceed_action :: sse2_qos_pol_action_params_st
  cfg_violate_action :: sse2_qos_pol_action_params_st

record sse2_qos_pol_hw_params_st =
  hw_rfc :: u8
  hw_allow_negative :: u8
  hw_rate_exp :: u8
  hw_avg_rate_man :: u16
  hw_peak_rate_man :: u16
  hw_comm_bkt_limit_exp :: u8
  hw_comm_bkt_limit_man :: u8
  hw_extd_bkt_limit_exp :: u8
  hw_extd_bkt_limit_man :: u8
  hw_comm_bkt :: u32
  hw_extd_bkt :: u32

definition zero_action :: sse2_qos_pol_action_params_st where
  "zero_action = \<lparr>act_action_type = 0, act_dscp = 0\<rparr>"

definition zero_cfg :: sse2_qos_pol_cfg_params_st where
  "zero_cfg = \<lparr>cfg_cir = 0, cfg_eir = 0, cfg_cb = 0, cfg_eb = 0, cfg_rate_type = 0,
     cfg_rnd_type = 0, cfg_rfc = 0, cfg_color_aware = 0, cfg_overwrite_bucket = 0,
     cfg_current_bucket = 0, cfg_extended_bucket = 0, cfg_conform_action = zero_action,
     cfg_exceed_action = zero_action, cfg_violate_action = zero_action\<rparr>"

definition zero_hw :: sse2_qos_pol_hw_params_st where
  "zero_hw = \<lparr>hw_rfc = 0, hw_allow_negative = 0, hw_rate_exp = 0, hw_avg_rate_man = 0,
     hw_peak_rate_man = 0, hw_comm_bkt_limit_exp = 0, hw_comm_bkt_limit_man = 0,
     hw_extd_bkt_limit_exp = 0, hw_extd_bkt_limit_man = 0, hw_comm_bkt = 0, hw_extd_bkt = 0\<rparr>"

section \<open>Rounding and validation\<close>

text \<open>The return code and \<open>*rounded_value\<close>, which keeps its old value \<open>old\<close> on an error.\<close>

definition sse2_qos_pol_round :: "u64 \<Rightarrow> u64 \<Rightarrow> u64 \<Rightarrow> u8 \<Rightarrow> int \<times> u64" where
  "sse2_qos_pol_round numerator denominator old round_type =
    (if denominator = 0 then (EINVAL, old)
     else if round_type = SSE2_QOS_ROUND_TO_CLOSEST then
       (0, (numerator + drop_bit 1 denominator) div denominator)
     else if round_type = SSE2_QOS_ROUND_TO_UP then
       (let rounded_value = numerator div denominator
        in (0, if rounded_value * denominator < numerator then rounded_value + 1 else rounded_value))
     else if round_type = SSE2_QOS_ROUND_TO_DOWN then (0, numerator div denominator)
     else (EINVAL, old))"

definition sse2_pol_validate_cfg_params :: "sse2_qos_pol_cfg_params_st \<Rightarrow> int" where
  "sse2_pol_validate_cfg_params cfg =
    (if cfg_rfc cfg = SSE2_QOS_POLICER_TYPE_2R3C_RFC_2698 \<and> cfg_eir cfg < cfg_cir cfg then EINVAL
     else let (rc, rnd_value) = sse2_qos_pol_round (ucast (cfg_cir cfg)) 8 0 (cfg_rnd_type cfg)
     in if rc \<noteq> 0 then rc
     else let cir_hw = ucast rnd_value :: u32;
              (rc, rnd_value) = sse2_qos_pol_round (ucast (cfg_eir cfg)) 8 rnd_value (cfg_rnd_type cfg)
     in if rc \<noteq> 0 then rc
     else let eir_hw = ucast rnd_value :: u32
     in if SSE2_QOS_POL_AVG_RATE_MAX < cir_hw then EINVAL
     else if SSE2_QOS_POL_PEAK_RATE_MAX < eir_hw then EINVAL
     else if cfg_cir cfg = 0 \<and> cfg_cb cfg \<noteq> 0 then EINVAL
     else if cfg_eir cfg = 0 \<and> SSE2_QOS_POLICER_TYPE_1R3C_RFC_2697 < cfg_rfc cfg then EINVAL
     else if cfg_eir cfg \<noteq> 0 \<and> cfg_rfc cfg < SSE2_QOS_POLICER_TYPE_2R3C_RFC_2698 then EINVAL
     else if cfg_rfc cfg = SSE2_QOS_POLICER_TYPE_1R2C \<and> cfg_eb cfg \<noteq> 0 then EINVAL
     else 0)"

section \<open>Exponent and mantissa\<close>

text \<open>The search loop: the lowest exponent whose rounded mantissa fits.\<close>

function exp_mant_loop ::
  "u64 \<Rightarrow> u16 \<Rightarrow> u16 \<Rightarrow> u8 \<Rightarrow> u8 \<Rightarrow> u64 \<Rightarrow> (u8 \<times> u64) option" where
  "exp_mant_loop value max_exp_value max_mant_value type temp_exp temp_mant =
    (if unat temp_exp \<le> unat max_exp_value then
       (if temp_mant \<le> ucast max_mant_value then Some (temp_exp, temp_mant)
        else (case c_int_shl1 (unat (temp_exp + 1)) of
            None \<Rightarrow> None
          | Some d \<Rightarrow> exp_mant_loop value max_exp_value max_mant_value type (temp_exp + 1)
              (snd (sse2_qos_pol_round value d 0 type))))
     else Some (temp_exp, temp_mant))"
  by pat_completeness auto
termination
proof (relation "measure (\<lambda>(v, me, mm, ty, e, m). 33 - unat (e + 1))")
  fix temp_exp :: u8 and d
  assume "c_int_shl1 (unat (temp_exp + 1)) = Some d"
  then have "unat (temp_exp + 1) < 32"
    by (simp add: c_int_shl1_def split: if_splits)
  moreover from this have "unat (temp_exp + 1 + 1) = unat (temp_exp + 1) + 1"
    by (auto simp: unat_word_ariths mod_Suc split: if_splits)
  ultimately show "((v, me, mm, ty, temp_exp + 1, m'), (v, me, mm, ty, temp_exp, m))
      \<in> measure (\<lambda>(v, me, mm, ty, e, m). 33 - unat (e + 1))" for v me mm ty m m'
    by simp
qed simp

definition sse2_qos_convert_value_to_exp_mant_fmt ::
  "u64 \<Rightarrow> u16 \<Rightarrow> u16 \<Rightarrow> u8 \<Rightarrow> (u8 \<times> u32) option" where
  "sse2_qos_convert_value_to_exp_mant_fmt value max_exp_value max_mant_value type =
    (case exp_mant_loop value max_exp_value max_mant_value type 0 value of
       None \<Rightarrow> None
     | Some (temp_exp, temp_mant) \<Rightarrow>
         if unat max_exp_value < unat temp_exp then Some (temp_exp - 1, ucast max_mant_value)
         else Some (temp_exp, ucast temp_mant))"

section \<open>Configuration to hardware parameters\<close>

text \<open>The excess rate the hardware is programmed with, by policer type.\<close>

definition pol_eir_kbps :: "sse2_qos_pol_cfg_params_st \<Rightarrow> u32" where
  "pol_eir_kbps cfg =
    (if cfg_rfc cfg = SSE2_QOS_POLICER_TYPE_1R2C then 0
     else if cfg_rfc cfg = SSE2_QOS_POLICER_TYPE_1R3C_RFC_2697 then cfg_cir cfg
     else if cfg_rfc cfg = SSE2_QOS_POLICER_TYPE_2R3C_RFC_4115 then cfg_eir cfg - cfg_cir cfg
     else cfg_eir cfg)"

text \<open>A rate rounded to bytes per tick, bumped to 1 when a non-zero rate rounds to 0.\<close>

definition pol_rate_bump :: "u32 \<Rightarrow> u64 \<Rightarrow> u32" where
  "pol_rate_bump kbps rnd_value =
    (if kbps \<noteq> 0 \<and> (ucast rnd_value :: u32) = 0 then 1 else ucast rnd_value)"

text \<open>The mantissas for the exponent found, both bumped to 1 when a non-zero rate rounds to 0.\<close>

definition pol_finish_rates ::
  "sse2_qos_pol_cfg_params_st \<Rightarrow> u32 \<Rightarrow> u32 \<Rightarrow> u32 \<Rightarrow> u64 \<Rightarrow> u8 \<Rightarrow> u32 \<Rightarrow>
   sse2_qos_pol_hw_params_st \<Rightarrow> int \<times> sse2_qos_pol_hw_params_st" where
  "pol_finish_rates cfg cir_hw eir_hw hi_rate rnd_value xp hi_mant hw =
    (let ty = cfg_rnd_type cfg;
         denom = push_bit (unat xp) 1 :: u64;
         (rc, hw) =
           (if hi_rate = eir_hw then
              (let (rc, rnd_value) = sse2_qos_pol_round (ucast cir_hw) denom rnd_value ty
               in (rc, hw\<lparr>hw_peak_rate_man := ucast hi_mant, hw_avg_rate_man := ucast rnd_value\<rparr>))
            else
              (let (rc, rnd_value) = sse2_qos_pol_round (ucast eir_hw) denom rnd_value ty
               in (rc, hw\<lparr>hw_avg_rate_man := ucast hi_mant, hw_peak_rate_man := ucast rnd_value\<rparr>)))
     in if rc \<noteq> 0 then (rc, hw)
     else let hw = hw\<lparr>hw_rate_exp := xp\<rparr>;
              hw = (if hw_avg_rate_man hw = 0 \<and> cfg_cir cfg \<noteq> 0 then hw\<lparr>hw_avg_rate_man := 1\<rparr> else hw);
              hw = (if hw_peak_rate_man hw = 0 \<and> pol_eir_kbps cfg \<noteq> 0 then hw\<lparr>hw_peak_rate_man := 1\<rparr> else hw)
     in (rc, hw))"

definition sse2_pol_convert_cfg_rates_to_hw ::
  "sse2_qos_pol_cfg_params_st \<Rightarrow> sse2_qos_pol_hw_params_st \<Rightarrow> (int \<times> sse2_qos_pol_hw_params_st) option" where
  "sse2_pol_convert_cfg_rates_to_hw cfg hw =
    (let ty = cfg_rnd_type cfg;
         (rc, rnd_value) = sse2_qos_pol_round (ucast (cfg_cir cfg)) 8 0 ty
     in if rc \<noteq> 0 then Some (rc, hw)
     else let cir_hw = pol_rate_bump (cfg_cir cfg) rnd_value;
              eir_kbps = pol_eir_kbps cfg;
              (rc, rnd_value) = sse2_qos_pol_round (ucast eir_kbps) 8 rnd_value ty
     in if rc \<noteq> 0 then Some (rc, hw)
     else let eir_hw = pol_rate_bump eir_kbps rnd_value;
              hi_rate = (if eir_hw < cir_hw then cir_hw else eir_hw)
     in if cir_hw = 0 \<and> eir_hw = 0
        then Some (pol_finish_rates cfg cir_hw eir_hw hi_rate rnd_value 15 0
               (hw\<lparr>hw_rfc := IPE_RFC_RFC4115, hw_allow_negative := 0\<rparr>))
        else map_option (\<lambda>(xp, hi_mant). pol_finish_rates cfg cir_hw eir_hw hi_rate rnd_value xp hi_mant hw)
               (sse2_qos_convert_value_to_exp_mant_fmt (ucast hi_rate) 15 2047 ty))"

definition sse2_pol_get_bkt_max :: "u64 \<Rightarrow> u64 \<Rightarrow> u64" where
  "sse2_pol_get_bkt_max rate_hw bkt_max =
    (if rate_hw \<le> RATE64 then bkt_max - 1
     else if rate_hw \<le> RATE128 then bkt_max * 2 - 2
     else if rate_hw \<le> RATE256 then bkt_max * 4 - 4
     else bkt_max * 8 - 8)"

definition sse2_pol_get_bkt_value :: "u64 \<Rightarrow> u64 \<Rightarrow> u64" where
  "sse2_pol_get_bkt_value rate_hw byte_value =
    (if rate_hw \<le> RATE64 then byte_value
     else if rate_hw \<le> RATE128 then byte_value div 2
     else if rate_hw \<le> RATE256 then byte_value div 4
     else byte_value div 8)"

text \<open>The burst after the default, the cap and the minimum.\<close>

definition pol_clamp_burst :: "u64 \<Rightarrow> u16 \<Rightarrow> u16 \<Rightarrow> u32 \<Rightarrow> u32 \<Rightarrow> u64" where
  "pol_clamp_burst cfg_burst max_exp_value max_mant_value max_bkt_value rate_hw =
    (let bkt_limit_max = push_bit (unat max_exp_value) (ucast max_mant_value) :: u64;
         bkt_max = sse2_pol_get_bkt_max (ucast rate_hw) (ucast max_bkt_value);
         bkt_max = (if bkt_max < bkt_limit_max then bkt_max else bkt_limit_max);
         cfg_burst = (if cfg_burst = 0 then ucast rate_hw * SSE2_QOS_POL_DEF_BURST_BYTE else cfg_burst);
         cfg_burst = (if bkt_max < cfg_burst then bkt_max else cfg_burst)
     in if cfg_burst < SSE2_QOS_POL_MIN_BURST_BYTE then SSE2_QOS_POL_MIN_BURST_BYTE else cfg_burst)"

definition sse2_pol_rnd_burst_byte_fmt ::
  "u64 \<Rightarrow> u16 \<Rightarrow> u16 \<Rightarrow> u32 \<Rightarrow> u32 \<Rightarrow> (u8 \<times> u32 \<times> u32) option" where
  "sse2_pol_rnd_burst_byte_fmt cfg_burst max_exp_value max_mant_value max_bkt_value rate_hw =
    (case sse2_qos_convert_value_to_exp_mant_fmt
        (pol_clamp_burst cfg_burst max_exp_value max_mant_value max_bkt_value rate_hw)
        max_exp_value max_mant_value SSE2_QOS_ROUND_TO_DOWN of
       None \<Rightarrow> None
     | Some (xp, mant) \<Rightarrow>
         let rnd_burst = push_bit (unat xp) (ucast mant) :: u64;
             temp_bkt_value = sse2_pol_get_bkt_value (ucast rate_hw) rnd_burst
         in Some (xp, mant, ucast temp_bkt_value))"

definition pol_eb_bytes :: "sse2_qos_pol_cfg_params_st \<Rightarrow> u64" where
  "pol_eb_bytes cfg =
    (if cfg_rfc cfg = SSE2_QOS_POLICER_TYPE_1R3C_RFC_2697 then cfg_cb cfg + cfg_eb cfg
     else if cfg_rfc cfg = SSE2_QOS_POLICER_TYPE_2R3C_RFC_4115 then cfg_eb cfg - cfg_cb cfg
     else cfg_eb cfg)"

definition sse2_pol_convert_cfg_burst_to_hw ::
  "sse2_qos_pol_cfg_params_st \<Rightarrow> sse2_qos_pol_hw_params_st \<Rightarrow> (int \<times> sse2_qos_pol_hw_params_st) option" where
  "sse2_pol_convert_cfg_burst_to_hw cfg hw =
    (let rate_hw = push_bit (unat (hw_rate_exp hw)) (ucast (hw_avg_rate_man hw)) :: u32
     in case sse2_pol_rnd_burst_byte_fmt (cfg_cb cfg) SSE2_QOS_POL_BKT_LIMIT_EXP_MAX
          SSE2_QOS_POL_BKT_LIMIT_MANT_MAX SSE2_QOS_POL_BKT_MAX rate_hw of
       None \<Rightarrow> None
     | Some (temp_exp, temp_mant, bkt_value) \<Rightarrow>
         let hw = hw\<lparr>hw_comm_bkt_limit_exp := temp_exp, hw_comm_bkt_limit_man := ucast temp_mant,
                     hw_comm_bkt := bkt_value\<rparr>
         in if cfg_rfc cfg = SSE2_QOS_POLICER_TYPE_1R2C
            then Some (0, hw\<lparr>hw_extd_bkt_limit_exp := 31, hw_extd_bkt_limit_man := 0\<rparr>)
            else let rate_hw = push_bit (unat (hw_rate_exp hw)) (ucast (hw_peak_rate_man hw)) :: u32
            in case sse2_pol_rnd_burst_byte_fmt (pol_eb_bytes cfg) SSE2_QOS_POL_BKT_LIMIT_EXP_MAX
                 SSE2_QOS_POL_BKT_LIMIT_MANT_MAX SSE2_QOS_POL_BKT_MAX rate_hw of
              None \<Rightarrow> None
            | Some (temp_exp, temp_mant, bkt_value) \<Rightarrow>
                Some (0, hw\<lparr>hw_extd_bkt_limit_exp := temp_exp,
                  hw_extd_bkt_limit_man := ucast temp_mant, hw_extd_bkt := bkt_value\<rparr>))"

text \<open>The hardware algorithm for a policer type, \<open>None\<close> for an unknown type.\<close>

definition pol_hw_rfc :: "u8 \<Rightarrow> u8 option" where
  "pol_hw_rfc rfc =
    (if rfc = SSE2_QOS_POLICER_TYPE_1R2C \<or> rfc = SSE2_QOS_POLICER_TYPE_2R3C_RFC_4115
     then Some IPE_RFC_RFC4115
     else if rfc = SSE2_QOS_POLICER_TYPE_1R3C_RFC_2697 then Some IPE_RFC_RFC2697
     else if rfc = SSE2_QOS_POLICER_TYPE_2R3C_RFC_2698 then Some IPE_RFC_RFC2698
     else if rfc = SSE2_QOS_POLICER_TYPE_2R3C_RFC_MEF5CF1 then Some IPE_RFC_MEF5CF1
     else None)"

definition sse2_pol_convert_cfg_to_hw_params ::
  "sse2_qos_pol_cfg_params_st \<Rightarrow> (int \<times> sse2_qos_pol_hw_params_st) option" where
  "sse2_pol_convert_cfg_to_hw_params cfg =
    (let hw = zero_hw\<lparr>hw_allow_negative := 1\<rparr>
     in case pol_hw_rfc (cfg_rfc cfg) of
       None \<Rightarrow> Some (EINVAL, hw)
     | Some rfc \<Rightarrow>
         (case sse2_pol_convert_cfg_rates_to_hw cfg (hw\<lparr>hw_rfc := rfc\<rparr>) of
            None \<Rightarrow> None
          | Some (rc, hw) \<Rightarrow>
              if rc \<noteq> 0 then Some (rc, hw)
              else (case sse2_pol_convert_cfg_burst_to_hw cfg hw of
                  None \<Rightarrow> None
                | Some (rc, hw) \<Rightarrow> if rc \<noteq> 0 then Some (rc, hw) else Some (0, hw))))"

text \<open>A null configuration or result pointer is \<open>None\<close> resp. \<open>False\<close>.\<close>

definition sse2_pol_compute_hw_params ::
  "sse2_qos_pol_cfg_params_st option \<Rightarrow> sse2_qos_pol_hw_params_st option \<Rightarrow>
   (int \<times> sse2_qos_pol_hw_params_st option) option" where
  "sse2_pol_compute_hw_params cfg hw =
    (case (cfg, hw) of
       (Some c, Some h) \<Rightarrow>
         if sse2_pol_validate_cfg_params c \<noteq> 0 then Some (- 1, Some h)
         else (case sse2_pol_convert_cfg_to_hw_params c of
             None \<Rightarrow> None
           | Some (rc, h) \<Rightarrow> if rc \<noteq> 0 then Some (- 1, Some h) else Some (0, Some h))
     | _ \<Rightarrow> Some (- 1, hw))"

section \<open>Unit conversions\<close>

definition sse2_qos_convert_pps_to_kbps :: "u32 \<Rightarrow> u32" where
  "sse2_qos_convert_pps_to_kbps rate_pps =
    ucast (snd (sse2_qos_pol_round (ucast rate_pps * 256 * 8) 1000 0 SSE2_QOS_ROUND_TO_CLOSEST))"

definition sse2_qos_convert_burst_ms_to_bytes :: "u32 \<Rightarrow> u32 \<Rightarrow> u32" where
  "sse2_qos_convert_burst_ms_to_bytes burst_ms rate_kbps =
    ucast (snd (sse2_qos_pol_round (ucast burst_ms * ucast rate_kbps) 8 0 SSE2_QOS_ROUND_TO_CLOSEST))"

definition sse2_qos_convert_kbps_to_pps :: "u32 \<Rightarrow> u32" where
  "sse2_qos_convert_kbps_to_pps rate_kbps =
    ucast (snd (sse2_qos_pol_round (ucast rate_kbps * 1000) (256 * 8) 0 SSE2_QOS_ROUND_TO_CLOSEST))"

definition sse2_qos_convert_burst_bytes_to_ms :: "u64 \<Rightarrow> u32 \<Rightarrow> u32" where
  "sse2_qos_convert_burst_bytes_to_ms burst_bytes rate_kbps =
    ucast (snd (sse2_qos_pol_round (burst_bytes * 8) (ucast rate_kbps) 0 SSE2_QOS_ROUND_TO_CLOSEST))"

section \<open>Hardware parameters to configuration\<close>

definition pol_cfg_rfc :: "sse2_qos_pol_hw_params_st \<Rightarrow> u8 option" where
  "pol_cfg_rfc hw =
    (if hw_rfc hw = IPE_RFC_RFC4115
        \<and> (push_bit (unat (hw_rate_exp hw)) (ucast (hw_peak_rate_man hw)) :: u32) = 0
        \<and> hw_extd_bkt_limit_man hw = 0 then Some SSE2_QOS_POLICER_TYPE_1R2C
     else if hw_rfc hw = IPE_RFC_RFC2697 then Some SSE2_QOS_POLICER_TYPE_1R3C_RFC_2697
     else if hw_rfc hw = IPE_RFC_RFC2698 then Some SSE2_QOS_POLICER_TYPE_2R3C_RFC_2698
     else if hw_rfc hw = IPE_RFC_RFC4115 then Some SSE2_QOS_POLICER_TYPE_2R3C_RFC_4115
     else if hw_rfc hw = IPE_RFC_MEF5CF1 then Some SSE2_QOS_POLICER_TYPE_2R3C_RFC_MEF5CF1
     else None)"

definition sse2_pol_convert_hw_to_cfg_params ::
  "sse2_qos_pol_hw_params_st option \<Rightarrow> sse2_qos_pol_cfg_params_st option \<Rightarrow>
   int \<times> sse2_qos_pol_cfg_params_st option" where
  "sse2_pol_convert_hw_to_cfg_params hwp cfgp =
    (case (hwp, cfgp) of
       (Some hw, Some cfg) \<Rightarrow>
         (case pol_cfg_rfc hw of
            None \<Rightarrow> (EINVAL, Some cfg)
          | Some rfc \<Rightarrow>
              let temp_rate = push_bit (unat (hw_rate_exp hw)) (ucast (hw_avg_rate_man hw)) * 8 * 1000 div 1000 :: u64;
                  cfg = cfg\<lparr>cfg_rfc := rfc, cfg_cir := ucast temp_rate\<rparr>;
                  temp_rate = push_bit (unat (hw_rate_exp hw)) (ucast (hw_peak_rate_man hw)) * 8 * 1000 div 1000 :: u64;
                  cfg = cfg\<lparr>cfg_eir := ucast temp_rate,
                    cfg_cb := push_bit (unat (hw_comm_bkt_limit_exp hw)) (ucast (hw_comm_bkt_limit_man hw)),
                    cfg_eb := push_bit (unat (hw_extd_bkt_limit_exp hw)) (ucast (hw_extd_bkt_limit_man hw))\<rparr>;
                  cfg = (if rfc = SSE2_QOS_POLICER_TYPE_1R3C_RFC_2697 then
                           cfg\<lparr>cfg_eb := cfg_eb cfg - cfg_cb cfg, cfg_eir := 0\<rparr>
                         else if rfc = SSE2_QOS_POLICER_TYPE_2R3C_RFC_4115 then
                           cfg\<lparr>cfg_eir := cfg_eir cfg + cfg_cir cfg, cfg_eb := cfg_eb cfg + cfg_cb cfg\<rparr>
                         else cfg)
              in (0, Some (cfg\<lparr>cfg_rate_type := SSE2_QOS_RATE_KBPS, cfg_overwrite_bucket := 0,
                    cfg_current_bucket := hw_comm_bkt hw, cfg_extended_bucket := hw_extd_bkt hw\<rparr>)))
     | _ \<Rightarrow> (EINVAL, cfgp))"

text \<open>
  The build defines \<open>INTERNAL_SS\<close>, so the conversion of a policer to hardware format only clears
  its result.
\<close>

definition sse2_qos_convert_pol_bucket_to_hw_fmt ::
  "policer_read_response_type_st \<Rightarrow> sse2_qos_pol_hw_params_st" where
  "sse2_qos_convert_pol_bucket_to_hw_fmt bkt = zero_hw"

definition sse2_pol_physical_2_logical ::
  "policer_read_response_type_st option \<Rightarrow> sse2_qos_pol_cfg_params_st \<Rightarrow>
   int \<times> sse2_qos_pol_cfg_params_st" where
  "sse2_pol_physical_2_logical physp cfg =
    (case physp of
       None \<Rightarrow> (- 1, cfg)
     | Some phys \<Rightarrow>
         (case sse2_pol_convert_hw_to_cfg_params
             (Some (sse2_qos_convert_pol_bucket_to_hw_fmt phys)) (Some zero_cfg) of
            (rc, None) \<Rightarrow> (- 1, cfg)
          | (rc, Some kbps_cfg) \<Rightarrow>
              if rc \<noteq> 0 then (- 1, cfg)
              else let rates =
                (if cfg_rate_type cfg = SSE2_QOS_RATE_KBPS then
                   Some (cfg\<lparr>cfg_cir := cfg_cir kbps_cfg, cfg_eir := cfg_eir kbps_cfg,
                     cfg_cb := cfg_cb kbps_cfg, cfg_eb := cfg_eb kbps_cfg\<rparr>)
                 else if cfg_rate_type cfg = SSE2_QOS_RATE_PPS then
                   Some (cfg\<lparr>cfg_cir := sse2_qos_convert_kbps_to_pps (cfg_cir kbps_cfg),
                     cfg_eir := sse2_qos_convert_kbps_to_pps (cfg_eir kbps_cfg),
                     cfg_cb := ucast (sse2_qos_convert_burst_bytes_to_ms (cfg_cb kbps_cfg) (cfg_cir kbps_cfg)),
                     cfg_eb := ucast (sse2_qos_convert_burst_bytes_to_ms (cfg_eb kbps_cfg) (cfg_eir kbps_cfg))\<rparr>)
                 else None)
              in (case rates of
                    None \<Rightarrow> (- 1, cfg)
                  | Some cfg \<Rightarrow>
                      (0, cfg\<lparr>cfg_rnd_type := cfg_rnd_type kbps_cfg, cfg_rfc := cfg_rfc kbps_cfg,
                        cfg_overwrite_bucket := cfg_overwrite_bucket kbps_cfg,
                        cfg_current_bucket := cfg_current_bucket kbps_cfg,
                        cfg_extended_bucket := cfg_extended_bucket kbps_cfg\<rparr>))))"

section \<open>Rounding\<close>

text \<open>The rounded quotient on natural numbers.\<close>

definition rounded :: "u8 \<Rightarrow> nat \<Rightarrow> nat \<Rightarrow> nat" where
  "rounded ty n d =
    (if ty = SSE2_QOS_ROUND_TO_CLOSEST then (n + d div 2) div d
     else if ty = SSE2_QOS_ROUND_TO_UP then (n + d - 1) div d
     else n div d)"

lemma c_int_shl1_small: "e < 31 \<Longrightarrow> c_int_shl1 e = Some (push_bit e 1)"
proof -
  assume e: "e < 31"
  have "scast (push_bit e 1 :: u32) = (push_bit e 1 :: u64)"
    by (rule bit_word_eqI) (use e in \<open>auto simp: bit_simps\<close>)
  then show ?thesis using e by (simp add: c_int_shl1_def)
qed

lemma sse2_qos_pol_round_ok:
  assumes "d \<noteq> 0" and "ty \<le> 2" and "unat n + unat d div 2 < 2 ^ 64"
  shows "fst (sse2_qos_pol_round n d old ty) = 0"
    and "unat (snd (sse2_qos_pol_round n d old ty)) = rounded ty (unat n) (unat d)"
proof -
  have ty: "ty = 0 \<or> ty = 1 \<or> ty = 2"
    using assms(2) by (simp add: word_le_nat_alt word_unat_eq_iff) linarith
  have d: "0 < unat d" using assms(1) by (simp add: unat_gt_0)
  show "fst (sse2_qos_pol_round n d old ty) = 0"
    using ty assms(1) by (auto simp: sse2_qos_pol_round_def Let_def)
  have nd: "unat (n div d * d) = unat n div unat d * unat d"
    using le_less_trans [OF div_times_less_eq_dividend unsigned_less [of n]]
    by (simp add: unat_word_ariths(2) unat_div)
  have suc: "unat n div unat d * unat d < unat n \<Longrightarrow> unat (n div d + 1) = unat n div unat d + 1"
  proof -
    assume "unat n div unat d * unat d < unat n"
    then have "unat n div unat d < unat n"
      using d by (metis le_less_trans mult_le_mono2 nat_mult_1_right Suc_leI One_nat_def)
    then have "unat n div unat d + 1 < 18446744073709551616" using unat_u64_lt [of n] by linarith
    then show ?thesis by (simp add: unat_word_ariths unat_div)
  qed
  have half: "unat (n + drop_bit 1 d) = unat n + unat d div 2"
    using assms(3) by (simp add: unat_word_ariths unat_drop_bit_eq drop_bit_eq_div)
  show "unat (snd (sse2_qos_pol_round n d old ty)) = rounded ty (unat n) (unat d)"
    using ty assms(1) nd suc half ceil_div [OF d, of "unat n"]
    by (auto simp: sse2_qos_pol_round_def rounded_def Let_def unat_div word_less_nat_alt)
qed

lemma sse2_qos_pol_round_error:
  "fst (sse2_qos_pol_round n d old ty) \<noteq> 0 \<longleftrightarrow> d = 0 \<or> 2 < ty"
  "d = 0 \<or> 2 < ty \<Longrightarrow> sse2_qos_pol_round n d old ty = (22, old)"
proof -
  have "2 < ty \<longleftrightarrow> ty \<noteq> 0 \<and> ty \<noteq> 1 \<and> ty \<noteq> 2"
    by (simp add: word_less_nat_alt word_unat_eq_iff) linarith
  then show "fst (sse2_qos_pol_round n d old ty) \<noteq> 0 \<longleftrightarrow> d = 0 \<or> 2 < ty"
    "d = 0 \<or> 2 < ty \<Longrightarrow> sse2_qos_pol_round n d old ty = (22, old)"
    by (auto simp: sse2_qos_pol_round_def Let_def)
qed

lemma rounded_1 [simp]: "rounded ty n 1 = n" "rounded ty n (Suc 0) = n"
  by (simp_all add: rounded_def)

lemma rounded_mono: "m \<le> n \<Longrightarrow> rounded ty m d \<le> rounded ty n d"
  by (auto simp: rounded_def intro!: div_le_mono)

lemma rounded_le: "0 < d \<Longrightarrow> n \<le> k * d \<Longrightarrow> rounded ty n d \<le> k"
proof -
  assume d: "0 < d" and n: "n \<le> k * d"
  have "rounded ty n d \<le> rounded ty (k * d) d" using n by (rule rounded_mono)
  also have "rounded ty (k * d) d = k"
    using d ceil_div [of d "k * d"] by (auto simp: rounded_def div_add1_eq)
  finally show ?thesis .
qed

section \<open>The exponent search\<close>

lemma exp_mant_loop_finds:
  assumes "ty \<le> 2" and "unat v < 2 ^ 63" and "unat e \<le> 30"
    and "unat m = rounded ty (unat v) (2 ^ unat e)"
    and "unat me \<le> 29 \<or> rounded ty (unat v) (2 ^ 30) \<le> unat mm"
    and "unat e \<le> unat me + 1"
  shows "\<exists>e' m'. exp_mant_loop v me mm ty e m = Some (e', m')
    \<and> unat e \<le> unat e' \<and> unat e' \<le> unat me + 1 \<and> unat e' \<le> 30
    \<and> unat m' = rounded ty (unat v) (2 ^ unat e')
    \<and> (unat e' \<le> unat me \<longrightarrow> unat m' \<le> unat mm)
    \<and> (\<forall>k. unat e \<le> k \<longrightarrow> k < unat e' \<longrightarrow> unat mm < rounded ty (unat v) (2 ^ k))"
  using assms
proof (induction v me mm ty e m rule: exp_mant_loop.induct)
  case (1 v me mm ty e m)
  have mm: "unat (ucast mm :: u64) = unat mm" by (simp add: word_nat)
  show ?case
  proof (cases "unat e \<le> unat me \<and> \<not> m \<le> ucast mm")
    case False
    with "1.prems" show ?thesis
      by (subst exp_mant_loop.simps) (auto simp: word_le_nat_alt mm)
  next
    case True
    then have big: "unat mm < rounded ty (unat v) (2 ^ unat e)"
      using "1.prems"(4) by (simp add: word_le_nat_alt mm)
    then have lt: "unat e < 30"
      using True "1.prems"(3,5) by (cases "unat e = 30") auto
    have e1: "unat (e + 1) = unat e + 1"
      using lt by (simp add: unat_word_ariths)
    let ?d = "push_bit (unat e + 1) 1 :: u64"
    have shl: "c_int_shl1 (unat (e + 1)) = Some ?d"
      using lt e1 by (simp add: c_int_shl1_small)
    have d: "unat ?d = 2 ^ (unat e + 1)" by (rule unat_push_bit_1) (use lt in simp)
    then have d0: "?d \<noteq> 0" by (metis power_eq_0_iff unat_0 zero_neq_numeral)
    have "unat ?d \<le> 2 ^ 30" unfolding d by (rule power_increasing) (use lt in auto)
    then have "unat v + unat ?d div 2 < 2 ^ 64" using "1.prems"(2) by simp
    then have "unat (snd (sse2_qos_pol_round v ?d 0 ty)) = rounded ty (unat v) (unat ?d)"
      by (rule sse2_qos_pol_round_ok(2) [OF d0 "1.prems"(1)])
    then have m': "unat (snd (sse2_qos_pol_round v ?d 0 ty)) = rounded ty (unat v) (2 ^ unat (e + 1))"
      by (simp only: d e1)
    have loop: "exp_mant_loop v me mm ty e m
        = exp_mant_loop v me mm ty (e + 1) (snd (sse2_qos_pol_round v ?d 0 ty))"
      using True shl by (subst exp_mant_loop.simps) simp
    from "1.IH" [OF conjunct1 [OF True] conjunct2 [OF True] shl "1.prems"(1,2) _ m' "1.prems"(5)]
    obtain e' r where r: "exp_mant_loop v me mm ty (e + 1) (snd (sse2_qos_pol_round v ?d 0 ty)) = Some (e', r)"
      and b: "unat e + 1 \<le> unat e'" "unat e' \<le> unat me + 1" "unat e' \<le> 30"
        "unat r = rounded ty (unat v) (2 ^ unat e')" "unat e' \<le> unat me \<longrightarrow> unat r \<le> unat mm"
      and k: "\<forall>k. unat e + 1 \<le> k \<longrightarrow> k < unat e' \<longrightarrow> unat mm < rounded ty (unat v) (2 ^ k)"
      using True lt e1 by auto
    have "\<forall>k. unat e \<le> k \<longrightarrow> k < unat e' \<longrightarrow> unat mm < rounded ty (unat v) (2 ^ k)"
      using k big by (metis Suc_eq_plus1 le_neq_implies_less Suc_leI)
    then show ?thesis using loop r b by auto
  qed
qed

text \<open>
  The encoding of a value: the lowest exponent whose mantissa fits, or both at their maximum when
  none does.
\<close>

lemma exp_mant_fmt_encodes:
  assumes "ty \<le> 2" and "unat v < 2 ^ 63"
    and "unat me \<le> 29 \<or> rounded ty (unat v) (2 ^ 30) \<le> unat mm"
  obtains xp m where "sse2_qos_convert_value_to_exp_mant_fmt v me mm ty = Some (xp, m)"
    and "unat xp \<le> unat me" and "unat xp \<le> 30" and "unat m \<le> unat mm"
    and "\<And>k. k < unat xp \<Longrightarrow> unat mm < rounded ty (unat v) (2 ^ k)"
    and "unat m = rounded ty (unat v) (2 ^ unat xp)
       \<or> (unat m = unat mm \<and> unat xp = unat me \<and> unat mm < rounded ty (unat v) (2 ^ unat me))"
proof -
  obtain e' m' where l: "exp_mant_loop v me mm ty 0 v = Some (e', m')"
    and e: "unat e' \<le> unat me + 1" "unat e' \<le> 30" "unat m' = rounded ty (unat v) (2 ^ unat e')"
      "unat e' \<le> unat me \<longrightarrow> unat m' \<le> unat mm"
    and k: "\<And>k. k < unat e' \<Longrightarrow> unat mm < rounded ty (unat v) (2 ^ k)"
    using exp_mant_loop_finds [OF assms(1,2) _ _ assms(3), of 0 v] by auto
  show ?thesis
  proof (cases "unat me < unat e'")
    case True
    then have eq: "unat e' = unat me + 1" using e(1) by simp
    then have x: "unat (e' - 1) = unat me" by (simp add: unat_sub_if' word_le_nat_alt)
    show ?thesis
      by (rule that [of "e' - 1" "ucast mm"])
        (use l True x eq e(2) k in \<open>auto simp: sse2_qos_convert_value_to_exp_mant_fmt_def word_nat\<close>)
  next
    case False
    then have m: "unat m' \<le> unat mm" using e(4) by simp
    then have "unat m' < 65536" by (rule le_less_trans) (rule unat_u16_lt)
    then have u: "unat (ucast m' :: u32) = unat m'" by (simp add: unat_ucast_small)
    show ?thesis
      by (rule that [of e' "ucast m'"])
        (use l False m u e k in \<open>auto simp: sse2_qos_convert_value_to_exp_mant_fmt_def\<close>)
  qed
qed

section \<open>Rates\<close>

lemma type_le_2: "(ty :: u8) \<le> 2 \<longleftrightarrow> \<not> 2 < ty"
  by (simp add: not_less)

lemma rounded_8_le: "rounded ty (unat (r :: u32)) 8 \<le> 536870912"
  by (rule rounded_le) (use unat_u32_lt [of r] in simp_all)

lemma sse2_qos_pol_round_8:
  "ty \<le> 2 \<Longrightarrow> sse2_qos_pol_round (ucast (r :: u32)) 8 old ty = (0, word_of_nat (rounded ty (unat r) 8))"
proof -
  assume ty: "ty \<le> 2"
  have "unat (ucast r :: u64) + unat (8 :: u64) div 2 < 2 ^ 64"
    using unat_u32_lt [of r] by (simp add: word_nat)
  from sse2_qos_pol_round_ok [OF _ ty this, of old]
  have "fst (sse2_qos_pol_round (ucast r) 8 old ty) = 0"
    "unat (snd (sse2_qos_pol_round (ucast r) 8 old ty)) = rounded ty (unat r) 8"
    by (simp_all add: word_nat)
  then show ?thesis
    using rounded_8_le [of ty r]
    by (simp add: prod_eq_iff word_unat_eq_iff unat_of_nat take_bit_nat_eq_self_iff)
qed

text \<open>The rate in bytes per tick the hardware conversion works with.\<close>

definition tick_rate :: "u8 \<Rightarrow> u32 \<Rightarrow> nat" where
  "tick_rate ty kbps =
     (if kbps \<noteq> 0 \<and> rounded ty (unat kbps) 8 = 0 then 1 else rounded ty (unat kbps) 8)"

lemma tick_rate_le: "tick_rate ty kbps \<le> 536870912"
  using rounded_8_le [of ty kbps] by (simp add: tick_rate_def)

lemma tick_rate_0: "tick_rate ty kbps = 0 \<longleftrightarrow> kbps = 0"
  by (auto simp: tick_rate_def rounded_def)

lemma unat_pol_rate_bump:
  "unat (pol_rate_bump kbps (word_of_nat (rounded ty (unat kbps) 8))) = tick_rate ty kbps"
proof -
  have le: "rounded ty (unat kbps) 8 \<le> 536870912" by (rule rounded_8_le)
  then have "unat (word_of_nat (rounded ty (unat kbps) 8) :: u64) = rounded ty (unat kbps) 8"
    by (simp add: unat_of_nat take_bit_nat_eq_self_iff)
  then have "unat (ucast (word_of_nat (rounded ty (unat kbps) 8) :: u64) :: u32) = rounded ty (unat kbps) 8"
    using le by (simp add: unat_ucast_small)
  then show ?thesis
    by (auto simp: pol_rate_bump_def tick_rate_def word_unat_eq_iff [of _ "0 :: u32"])
qed

lemma round_mantissa:
  assumes ty: "ty \<le> 2" and x: "unat (xp :: u8) \<le> 15"
  shows "fst (sse2_qos_pol_round (ucast (r :: u32)) (push_bit (unat xp) 1) old ty) = 0"
    and "unat (snd (sse2_qos_pol_round (ucast r) (push_bit (unat xp) 1) old ty))
      = rounded ty (unat r) (2 ^ unat xp)"
proof -
  let ?d = "push_bit (unat xp) 1 :: u64"
  have d: "unat ?d = 2 ^ unat xp" by (rule unat_push_bit_1) (use x in simp)
  then have d0: "?d \<noteq> 0" by (metis power_eq_0_iff unat_0 zero_neq_numeral)
  have "unat ?d \<le> 2 ^ 15" unfolding d by (rule power_increasing) (use x in auto)
  then have n: "unat (ucast r :: u64) + unat ?d div 2 < 2 ^ 64"
    using unat_u32_lt [of r] by (simp add: word_nat)
  show "fst (sse2_qos_pol_round (ucast r) ?d old ty) = 0"
    by (rule sse2_qos_pol_round_ok(1) [OF d0 ty n])
  show "unat (snd (sse2_qos_pol_round (ucast r) ?d old ty)) = rounded ty (unat r) (2 ^ unat xp)"
    using sse2_qos_pol_round_ok(2) [OF d0 ty n, of old] by (simp only: d) (simp add: word_nat)
qed

text \<open>
  The two mantissas for the rates \<open>hi\<close> (encoded by the search) and \<open>lo \<le> hi\<close> (rounded with the
  exponent found): both fit 11 bits as soon as \<open>lo\<close> is at most \<open>2047 * 2^15\<close>.
\<close>

lemma rate_mantissas:
  assumes ty: "ty \<le> 2" and le: "unat lo \<le> unat hi" and lo: "unat lo \<le> 67076096"
  obtains xp m where
    "sse2_qos_convert_value_to_exp_mant_fmt (ucast (hi :: u32)) 15 2047 ty = Some (xp, m)"
    and "unat xp \<le> 15" and "unat m \<le> 2047"
    and "rounded ty (unat (lo :: u32)) (2 ^ unat xp) \<le> 2047"
proof -
  have hi: "unat (ucast hi :: u64) = unat hi" by (simp add: word_nat)
  then have "unat (ucast hi :: u64) < 2 ^ 63" using unat_u32_lt [of hi] by simp
  then obtain xp m where x: "sse2_qos_convert_value_to_exp_mant_fmt (ucast hi) 15 2047 ty = Some (xp, m)"
    and b: "unat xp \<le> 15" "unat m \<le> 2047"
    and m: "unat m = rounded ty (unat hi) (2 ^ unat xp) \<or> unat xp = 15"
    by (rule exp_mant_fmt_encodes [OF ty, of _ 15 2047]) (auto simp: hi)
  have "rounded ty (unat lo) (2 ^ unat xp) \<le> 2047"
  proof (cases "unat m = rounded ty (unat hi) (2 ^ unat xp)")
    case True
    then show ?thesis using rounded_mono [OF le, of ty "2 ^ unat xp"] b by simp
  next
    case False
    then have "unat xp = 15" using m by simp
    then show ?thesis using lo by (intro rounded_le) auto
  qed
  then show ?thesis using that x b by blast
qed

lemma unat_ucast_mant: "n \<le> 2047 \<Longrightarrow> unat w = n \<Longrightarrow> unat (ucast (w :: 'a::len word) :: u16) = n"
  by (simp add: unat_ucast_small)

text \<open>The record the conversion ends with, for an exponent and two mantissas.\<close>

definition bumped_rates ::
  "sse2_qos_pol_cfg_params_st \<Rightarrow> u8 \<Rightarrow> u16 \<Rightarrow> u16 \<Rightarrow> sse2_qos_pol_hw_params_st \<Rightarrow> sse2_qos_pol_hw_params_st" where
  "bumped_rates cfg xp av pk hw =
     hw\<lparr>hw_rate_exp := xp,
        hw_avg_rate_man := (if av = 0 \<and> cfg_cir cfg \<noteq> 0 then 1 else av),
        hw_peak_rate_man := (if pk = 0 \<and> pol_eir_kbps cfg \<noteq> 0 then 1 else pk)\<rparr>"

lemma finish_peak:
  "sse2_qos_pol_round (ucast c) (push_bit (unat xp) 1) v (cfg_rnd_type cfg) = (0, w) \<Longrightarrow>
   pol_finish_rates cfg c e e v xp m hw = (0, bumped_rates cfg xp (ucast w) (ucast m) hw)"
  by (simp add: pol_finish_rates_def bumped_rates_def Let_def)

lemma finish_avg:
  "sse2_qos_pol_round (ucast e) (push_bit (unat xp) 1) v (cfg_rnd_type cfg) = (0, w) \<Longrightarrow> e < c \<Longrightarrow>
   pol_finish_rates cfg c e c v xp m hw = (0, bumped_rates cfg xp (ucast m) (ucast w) hw)"
  by (auto simp: pol_finish_rates_def bumped_rates_def Let_def)

text \<open>
  The conversion of the rates succeeds for every legal rounding type, and both mantissas and the
  exponent fit their fields when the committed rate is within the hardware range.
\<close>

lemma convert_cfg_rates_ok:
  assumes ty: "cfg_rnd_type cfg \<le> 2" and cir: "rounded (cfg_rnd_type cfg) (unat (cfg_cir cfg)) 8 \<le> 67076096"
  obtains hw' where "sse2_pol_convert_cfg_rates_to_hw cfg hw = Some (0, hw')"
    and "unat (hw_rate_exp hw') \<le> 15"
    and "unat (hw_avg_rate_man hw') \<le> 2047" and "unat (hw_peak_rate_man hw') \<le> 2047"
    and "cfg_cir cfg \<noteq> 0 \<Longrightarrow> hw_avg_rate_man hw' \<noteq> 0"
    and "pol_eir_kbps cfg \<noteq> 0 \<Longrightarrow> hw_peak_rate_man hw' \<noteq> 0"
    and "hw_rfc hw' = hw_rfc hw \<or> hw_rfc hw' = IPE_RFC_RFC4115"
    and "hw_allow_negative hw' = hw_allow_negative hw \<or> hw_allow_negative hw' = 0"
    and "hw_comm_bkt hw' = hw_comm_bkt hw" and "hw_extd_bkt hw' = hw_extd_bkt hw"
proof -
  let ?ty = "cfg_rnd_type cfg"
  define c where "c = pol_rate_bump (cfg_cir cfg) (word_of_nat (rounded ?ty (unat (cfg_cir cfg)) 8))"
  define v :: u64 where "v = word_of_nat (rounded ?ty (unat (pol_eir_kbps cfg)) 8)"
  define e where "e = pol_rate_bump (pol_eir_kbps cfg) v"
  have c: "unat c = tick_rate ?ty (cfg_cir cfg)" and e: "unat e = tick_rate ?ty (pol_eir_kbps cfg)"
    unfolding c_def e_def v_def by (rule unat_pol_rate_bump)+
  have c_le: "unat c \<le> 67076096" using cir by (simp add: c tick_rate_def)
  have c0: "c = 0 \<longleftrightarrow> cfg_cir cfg = 0" and e0: "e = 0 \<longleftrightarrow> pol_eir_kbps cfg = 0"
    by (simp_all add: word_unat_eq_iff [of _ "0 :: u32"] c e tick_rate_0)
  have base: "sse2_pol_convert_cfg_rates_to_hw cfg hw =
      (let hi = (if e < c then c else e)
       in if c = 0 \<and> e = 0
          then Some (pol_finish_rates cfg c e hi v 15 0 (hw\<lparr>hw_rfc := IPE_RFC_RFC4115, hw_allow_negative := 0\<rparr>))
          else map_option (\<lambda>(xp, hi_mant). pol_finish_rates cfg c e hi v xp hi_mant hw)
                 (sse2_qos_convert_value_to_exp_mant_fmt (ucast hi) 15 2047 ?ty))"
    unfolding sse2_pol_convert_cfg_rates_to_hw_def Let_def sse2_qos_pol_round_8 [OF ty] prod.case
      c_def [symmetric] v_def [symmetric] e_def [symmetric] by simp
  consider (zero) "c = 0 \<and> e = 0" | (peak) "\<not> (c = 0 \<and> e = 0)" "\<not> e < c" | (avg) "\<not> (c = 0 \<and> e = 0)" "e < c"
    by blast
  then show ?thesis
  proof cases
    case zero
    have r: "sse2_qos_pol_round 0 (push_bit 15 1) v ?ty = (0, 0)"
      using round_mantissa [OF ty, of 15 0 v]
      by (auto simp: prod_eq_iff word_unat_eq_iff rounded_def)
    have "sse2_pol_convert_cfg_rates_to_hw cfg hw
        = Some (0, bumped_rates cfg 15 0 0 (hw\<lparr>hw_rfc := IPE_RFC_RFC4115, hw_allow_negative := 0\<rparr>))"
      using zero finish_peak [of 0 15 v cfg 0] r by (simp add: base)
    from that [OF this] c0 e0 zero show ?thesis by (simp add: bumped_rates_def)
  next
    case peak
    then have "unat c \<le> unat e" by (simp add: not_less word_le_nat_alt)
    from rate_mantissas [OF ty this c_le] obtain xp m where
      x: "sse2_qos_convert_value_to_exp_mant_fmt (ucast e) 15 2047 ?ty = Some (xp, m)"
      and b: "unat xp \<le> 15" "unat m \<le> 2047" "rounded ?ty (unat c) (2 ^ unat xp) \<le> 2047" .
    obtain w where w: "sse2_qos_pol_round (ucast c) (push_bit (unat xp) 1) v ?ty = (0, w)"
      and uw: "unat (ucast w :: u16) \<le> 2047"
      using round_mantissa [OF ty b(1), of c v] b(3) unat_ucast_mant
      by (metis prod.collapse)
    have um: "unat (ucast m :: u16) \<le> 2047" using unat_ucast_mant [OF b(2) refl] b(2) by simp
    have "sse2_pol_convert_cfg_rates_to_hw cfg hw = Some (0, bumped_rates cfg xp (ucast w) (ucast m) hw)"
      using peak x by (auto simp: base finish_peak [OF w])
    from that [OF this] uw um b show ?thesis by (simp add: bumped_rates_def)
  next
    case avg
    then have "unat e \<le> unat c" by (simp add: word_less_nat_alt)
    from rate_mantissas [OF ty this order_trans [OF this c_le]] obtain xp m where
      x: "sse2_qos_convert_value_to_exp_mant_fmt (ucast c) 15 2047 ?ty = Some (xp, m)"
      and b: "unat xp \<le> 15" "unat m \<le> 2047" "rounded ?ty (unat e) (2 ^ unat xp) \<le> 2047" .
    obtain w where w: "sse2_qos_pol_round (ucast e) (push_bit (unat xp) 1) v ?ty = (0, w)"
      and uw: "unat (ucast w :: u16) \<le> 2047"
      using round_mantissa [OF ty b(1), of e v] b(3) unat_ucast_mant
      by (metis prod.collapse)
    have um: "unat (ucast m :: u16) \<le> 2047" using unat_ucast_mant [OF b(2) refl] b(2) by simp
    have "sse2_pol_convert_cfg_rates_to_hw cfg hw = Some (0, bumped_rates cfg xp (ucast m) (ucast w) hw)"
      using avg x by (auto simp: base finish_avg [OF w])
    from that [OF this] uw um b show ?thesis by (simp add: bumped_rates_def)
  qed
qed

section \<open>Bursts\<close>

lemma clamp_burst_le:
  fixes r :: u32
  defines "unit \<equiv> (if unat r \<le> 8003584 then 1 else if unat r \<le> 16007168 then 2
                    else if unat r \<le> 32014336 then 4 else (8::nat))"
  shows "unat (pol_clamp_burst b 31 127 2147483648 r) \<le> unit * 2147483647"
    and "9216 \<le> unat (pol_clamp_burst b 31 127 2147483648 r)"
    and "\<And>w. unat (sse2_pol_get_bkt_value (ucast r) w) = unat w div unit"
proof -
  have r: "unat (ucast r :: u64) = unat r" by (simp add: word_nat)
  have bm: "unat (sse2_pol_get_bkt_max (ucast r) 2147483648) = unit * 2147483647"
    by (simp add: sse2_pol_get_bkt_max_def word_le_nat_alt r unit_def)
  have unit: "1 \<le> unit" "unit \<le> 8" by (simp_all add: unit_def)
  then show "unat (pol_clamp_burst b 31 127 2147483648 r) \<le> unit * 2147483647"
    by (auto simp: pol_clamp_burst_def Let_def word_less_nat_alt bm)
  show "9216 \<le> unat (pol_clamp_burst b 31 127 2147483648 r)"
    by (auto simp: pol_clamp_burst_def Let_def word_less_nat_alt)
  show "unat (sse2_pol_get_bkt_value (ucast r) w) = unat w div unit" for w
    by (simp add: sse2_pol_get_bkt_value_def word_le_nat_alt r unit_def unat_div)
qed

lemma exponent_minimal:
  assumes "\<And>k. k < x \<Longrightarrow> 2 ^ Suc K - 1 < (v::nat) div 2 ^ k"
  shows "x = 0 \<or> 2 ^ K * 2 ^ x \<le> v"
proof (cases x)
  case (Suc y)
  then have "2 ^ Suc K \<le> v div 2 ^ y" using assms [of y] by simp
  then have "2 ^ Suc K * 2 ^ y \<le> v div 2 ^ y * 2 ^ y" by (rule mult_right_mono) simp
  also have "\<dots> \<le> v" by simp
  finally show ?thesis using Suc by (simp add: algebra_simps)
qed simp

lemma rnd_burst_ok:
  obtains xp m bkt where
    "sse2_pol_rnd_burst_byte_fmt b 31 127 2147483648 r = Some (xp, m, bkt)"
    and "unat xp \<le> 31" and "unat m \<le> 127" and "unat bkt < 2147483648"
    and "unat m * 2 ^ unat xp \<le> unat (pol_clamp_burst b 31 127 2147483648 r)"
    and "unat (pol_clamp_burst b 31 127 2147483648 r) < (unat m + 1) * 2 ^ unat xp"
    and "unat xp = 0 \<or> 64 * 2 ^ unat xp \<le> unat (pol_clamp_burst b 31 127 2147483648 r)"
proof -
  let ?v = "pol_clamp_burst b 31 127 2147483648 r"
  let ?u = "if unat r \<le> 8003584 then 1 else if unat r \<le> 16007168 then 2
            else if unat r \<le> 32014336 then 4 else (8::nat)"
  have le: "unat ?v \<le> ?u * 2147483647" by (rule clamp_burst_le(1))
  then have v: "unat ?v \<le> 17179869176" by (auto split: if_splits)
  then have f: "rounded 2 (unat ?v) (2 ^ 30) \<le> 127" "unat ?v < 2 ^ 63" "\<not> 127 < rounded 2 (unat ?v) (2 ^ 31)"
    by (auto simp: rounded_def)
  obtain xp m where x: "sse2_qos_convert_value_to_exp_mant_fmt ?v 31 127 2 = Some (xp, m)"
    and b: "unat xp \<le> 30" "unat m \<le> 127" "unat m = unat ?v div 2 ^ unat xp"
    and k: "\<And>k. k < unat xp \<Longrightarrow> 127 < unat ?v div 2 ^ k"
    by (rule exp_mant_fmt_encodes [of 2 ?v 31 127]) (use f in \<open>auto simp: rounded_def\<close>)
  have lo: "unat m * 2 ^ unat xp \<le> unat ?v" by (simp add: b(3))
  have hi: "unat ?v < (unat m + 1) * 2 ^ unat xp"
    by (simp add: b(3) dividend_less_times_div mult.commute flip: add_mult_distrib)
  have mn: "unat xp = 0 \<or> 64 * 2 ^ unat xp \<le> unat ?v"
    using exponent_minimal [of "unat xp" 6 "unat ?v"] k by simp
  have pw: "unat (push_bit (unat xp) (ucast m) :: u64) = unat m * 2 ^ unat xp"
    using lo v by (subst unat_push_bit_small) (simp_all add: word_nat)
  let ?k = "sse2_pol_get_bkt_value (ucast r) (push_bit (unat xp) (ucast m))"
  have "unat ?k = unat m * 2 ^ unat xp div ?u" by (simp only: clamp_burst_le(3) pw)
  also have "\<dots> \<le> ?u * 2147483647 div ?u" using lo le by (intro div_le_mono) simp
  finally have bk: "unat ?k \<le> 2147483647" by (auto split: if_splits)
  then have "unat (ucast ?k :: u32) = unat ?k" by (simp add: unat_ucast_small)
  then show ?thesis
    using x b lo hi bk mn by (intro that [of xp m "ucast ?k"]) (auto simp: sse2_pol_rnd_burst_byte_fmt_def)
qed

section \<open>The whole conversion\<close>

text \<open>The configurations the hardware can be programmed with.\<close>

definition pol_cfg_valid :: "sse2_qos_pol_cfg_params_st \<Rightarrow> bool" where
  "pol_cfg_valid cfg \<longleftrightarrow>
     cfg_rnd_type cfg \<le> 2 \<and> cfg_rfc cfg \<le> 4
     \<and> rounded (cfg_rnd_type cfg) (unat (cfg_cir cfg)) 8 \<le> 67076096
     \<and> rounded (cfg_rnd_type cfg) (unat (cfg_eir cfg)) 8 \<le> 67076096
     \<and> (cfg_rfc cfg = SSE2_QOS_POLICER_TYPE_2R3C_RFC_2698 \<longrightarrow> cfg_cir cfg \<le> cfg_eir cfg)
     \<and> (cfg_cir cfg = 0 \<longrightarrow> cfg_cb cfg = 0)
     \<and> (cfg_eir cfg \<noteq> 0 \<longleftrightarrow> 2 \<le> cfg_rfc cfg)
     \<and> (cfg_rfc cfg = SSE2_QOS_POLICER_TYPE_1R2C \<longrightarrow> cfg_eb cfg = 0)"

text \<open>The widths of the hardware descriptor.\<close>

definition hw_fits :: "sse2_qos_pol_hw_params_st \<Rightarrow> bool" where
  "hw_fits hw \<longleftrightarrow>
     hw_rfc hw \<le> 3 \<and> hw_allow_negative hw \<le> 1 \<and> hw_rate_exp hw \<le> 15
     \<and> hw_avg_rate_man hw \<le> 2047 \<and> hw_peak_rate_man hw \<le> 2047
     \<and> hw_comm_bkt_limit_exp hw \<le> 31 \<and> hw_comm_bkt_limit_man hw \<le> 127
     \<and> hw_extd_bkt_limit_exp hw \<le> 31 \<and> hw_extd_bkt_limit_man hw \<le> 127
     \<and> hw_comm_bkt hw < 2147483648 \<and> hw_extd_bkt hw < 2147483648"

lemma u8_small_cases: "(x :: u8) \<le> 4 \<longleftrightarrow> x = 0 \<or> x = 1 \<or> x = 2 \<or> x = 3 \<or> x = 4"
  by (simp add: word_le_nat_alt word_unat_eq_iff) linarith

lemma validate_iff:
  assumes "cfg_rfc cfg \<le> 4"
  shows "sse2_pol_validate_cfg_params cfg = 0 \<longleftrightarrow> pol_cfg_valid cfg"
proof (cases "cfg_rnd_type cfg \<le> 2")
  case True
  have conv: "(67076096 < (ucast (word_of_nat (rounded ty (unat r) 8) :: u64) :: u32))
      = (67076096 < rounded ty (unat r) 8)" for ty and r :: u32
  proof -
    have le: "rounded ty (unat r) 8 \<le> 536870912" by (rule rounded_8_le)
    then have "unat (ucast (word_of_nat (rounded ty (unat r) 8) :: u64) :: u32) = rounded ty (unat r) 8"
      by (subst unat_ucast_small) (simp_all add: unat_of_nat take_bit_nat_eq_self_iff)
    then show ?thesis by (simp add: word_less_nat_alt)
  qed
  have cmp: "1 < cfg_rfc cfg \<longleftrightarrow> 2 \<le> cfg_rfc cfg" "cfg_rfc cfg < 2 \<longleftrightarrow> \<not> 2 \<le> cfg_rfc cfg"
    by (simp_all add: word_less_nat_alt word_le_nat_alt) linarith+
  show ?thesis
    using True assms
    by (auto simp: sse2_pol_validate_cfg_params_def sse2_qos_pol_round_8 [OF True] pol_cfg_valid_def
        Let_def conv cmp not_less)
next
  case False
  then have "2 < cfg_rnd_type cfg" by simp
  then show ?thesis
    by (auto simp: sse2_pol_validate_cfg_params_def sse2_qos_pol_round_error(2) pol_cfg_valid_def)
qed

lemma pol_hw_rfc_iff: "pol_hw_rfc rfc = None \<longleftrightarrow> \<not> rfc \<le> 4"
  "pol_hw_rfc rfc = Some x \<Longrightarrow> x \<le> 3"
  by (auto simp: pol_hw_rfc_def u8_small_cases split: if_splits)

lemma unat_ucast_bkt_man: "unat (m :: u32) \<le> 127 \<Longrightarrow> unat (ucast m :: u8) = unat m"
  by (simp add: unat_ucast_small)

lemma convert_cfg_burst_ok:
  obtains hw' where "sse2_pol_convert_cfg_burst_to_hw cfg hw = Some (0, hw')"
    and "hw_rfc hw' = hw_rfc hw" and "hw_allow_negative hw' = hw_allow_negative hw"
    and "hw_rate_exp hw' = hw_rate_exp hw"
    and "hw_avg_rate_man hw' = hw_avg_rate_man hw" and "hw_peak_rate_man hw' = hw_peak_rate_man hw"
    and "hw_comm_bkt_limit_exp hw' \<le> 31" and "hw_comm_bkt_limit_man hw' \<le> 127"
    and "hw_extd_bkt_limit_exp hw' \<le> 31" and "hw_extd_bkt_limit_man hw' \<le> 127"
    and "hw_comm_bkt hw' < 2147483648" and "hw_extd_bkt hw' < 2147483648 \<or> hw_extd_bkt hw' = hw_extd_bkt hw"
proof -
  let ?rc = "push_bit (unat (hw_rate_exp hw)) (ucast (hw_avg_rate_man hw)) :: u32"
  let ?re = "push_bit (unat (hw_rate_exp hw)) (ucast (hw_peak_rate_man hw)) :: u32"
  obtain x1 m1 b1 where 1: "sse2_pol_rnd_burst_byte_fmt (cfg_cb cfg) 31 127 2147483648 ?rc = Some (x1, m1, b1)"
    "unat x1 \<le> 31" "unat m1 \<le> 127" "unat b1 < 2147483648" by (rule rnd_burst_ok)
  obtain x2 m2 b2 where 2: "sse2_pol_rnd_burst_byte_fmt (pol_eb_bytes cfg) 31 127 2147483648 ?re = Some (x2, m2, b2)"
    "unat x2 \<le> 31" "unat m2 \<le> 127" "unat b2 < 2147483648" by (rule rnd_burst_ok)
  note m = unat_ucast_bkt_man [OF 1(3)] unat_ucast_bkt_man [OF 2(3)]
  let ?h1 = "hw\<lparr>hw_comm_bkt_limit_exp := x1, hw_comm_bkt_limit_man := ucast m1, hw_comm_bkt := b1\<rparr>"
  show ?thesis
  proof (cases "cfg_rfc cfg = 0")
    case True
    then have "sse2_pol_convert_cfg_burst_to_hw cfg hw
        = Some (0, ?h1\<lparr>hw_extd_bkt_limit_exp := 31, hw_extd_bkt_limit_man := 0\<rparr>)"
      using 1 by (simp add: sse2_pol_convert_cfg_burst_to_hw_def Let_def)
    from that [OF this] 1 m show ?thesis by (simp add: word_le_nat_alt word_less_nat_alt)
  next
    case False
    then have "sse2_pol_convert_cfg_burst_to_hw cfg hw
        = Some (0, ?h1\<lparr>hw_extd_bkt_limit_exp := x2, hw_extd_bkt_limit_man := ucast m2, hw_extd_bkt := b2\<rparr>)"
      using 1 2 by (simp add: sse2_pol_convert_cfg_burst_to_hw_def Let_def)
    from that [OF this] 1 2 m show ?thesis by (simp add: word_le_nat_alt word_less_nat_alt)
  qed
qed

lemma convert_cfg_to_hw_ok:
  assumes "pol_cfg_valid cfg"
  obtains hw where "sse2_pol_convert_cfg_to_hw_params cfg = Some (0, hw)" and "hw_fits hw"
proof -
  have v: "cfg_rnd_type cfg \<le> 2" "cfg_rfc cfg \<le> 4"
    "rounded (cfg_rnd_type cfg) (unat (cfg_cir cfg)) 8 \<le> 67076096"
    using assms by (simp_all add: pol_cfg_valid_def)
  then obtain rfc where rfc: "pol_hw_rfc (cfg_rfc cfg) = Some rfc" "rfc \<le> 3"
    using pol_hw_rfc_iff by (metis not_Some_eq)
  obtain h1 where h1: "sse2_pol_convert_cfg_rates_to_hw cfg (zero_hw\<lparr>hw_allow_negative := 1, hw_rfc := rfc\<rparr>) = Some (0, h1)"
    and r: "unat (hw_rate_exp h1) \<le> 15" "unat (hw_avg_rate_man h1) \<le> 2047" "unat (hw_peak_rate_man h1) \<le> 2047"
      "hw_rfc h1 = rfc \<or> hw_rfc h1 = 2" "hw_allow_negative h1 = 1 \<or> hw_allow_negative h1 = 0" "hw_extd_bkt h1 = 0"
    by (rule convert_cfg_rates_ok [OF v(1,3), of "zero_hw\<lparr>hw_allow_negative := 1, hw_rfc := rfc\<rparr>"])
      (simp add: zero_hw_def)
  obtain h2 where h2: "sse2_pol_convert_cfg_burst_to_hw cfg h1 = Some (0, h2)" "hw_fits h2"
    by (rule convert_cfg_burst_ok [of cfg h1])
      (use r rfc(2) in \<open>auto simp: hw_fits_def word_le_nat_alt word_less_nat_alt\<close>)
  have "sse2_pol_convert_cfg_to_hw_params cfg = Some (0, h2)"
    using rfc(1) h1 h2(1) by (simp add: sse2_pol_convert_cfg_to_hw_params_def)
  then show ?thesis using that h2(2) by blast
qed

section \<open>Round trips\<close>

lemma round_closest:
  assumes "d \<noteq> 0" and "unat n + unat d div 2 < 2 ^ 64"
  shows "unat (snd (sse2_qos_pol_round n d old 0)) = (unat n + unat d div 2) div unat d"
  using sse2_qos_pol_round_ok(2) [OF assms(1) _ assms(2), of 0] by (simp add: rounded_def)

lemma round_trip_div:
  assumes "a * p < 8 * k + a div 2 + (1::nat)" and "8 * k + a div 2 < a * p + a"
  shows "(8 * k + a div 2) div a = p"
proof (rule div_nat_eqI)
  show "a * p \<le> 8 * k + a div 2" using assms(1) by simp
  show "8 * k + a div 2 < a * Suc p" using assms(2) by simp
qed

text \<open>The committed rate of a 1R2C policer, rounded down, is the encoded one.\<close>

lemma convert_rates_1r2c:
  assumes ty: "cfg_rnd_type cfg = 2" and rfc: "cfg_rfc cfg = 0"
    and cir: "8 \<le> unat (cfg_cir cfg)" "unat (cfg_cir cfg) div 8 \<le> 67076096"
  obtains xp m where "sse2_pol_convert_cfg_rates_to_hw cfg hw
      = Some (0, hw\<lparr>hw_rate_exp := xp, hw_avg_rate_man := m, hw_peak_rate_man := 0\<rparr>)"
    and "unat xp \<le> 15" and "unat m \<le> 2047"
    and "unat m = unat (cfg_cir cfg) div 8 div 2 ^ unat xp"
    and "unat xp = 0 \<or> 1024 * 2 ^ unat xp \<le> unat (cfg_cir cfg) div 8"
proof -
  let ?V = "unat (cfg_cir cfg) div 8"
  define c where "c = pol_rate_bump (cfg_cir cfg) (word_of_nat (rounded 2 (unat (cfg_cir cfg)) 8))"
  have V: "1 \<le> ?V" using cir(1) by simp
  then have c: "unat c = ?V"
    unfolding c_def unat_pol_rate_bump by (simp add: tick_rate_def rounded_def)
  have c0: "c \<noteq> 0" using c V by (metis not_one_le_zero unat_0)
  have "unat (ucast c :: u64) = ?V" using c by (simp add: word_nat)
  then obtain xp m where x: "sse2_qos_convert_value_to_exp_mant_fmt (ucast c) 15 2047 2 = Some (xp, m)"
    and b: "unat xp \<le> 15" "unat m \<le> 2047"
    and k: "\<And>k. k < unat xp \<Longrightarrow> 2047 < ?V div 2 ^ k" and m: "unat m = ?V div 2 ^ unat xp"
    using cir(2) by - (rule exp_mant_fmt_encodes [of 2 "ucast c" 15 2047], auto simp: rounded_def)
  have eir: "pol_eir_kbps cfg = 0" using rfc by (simp add: pol_eir_kbps_def)
  have e: "pol_rate_bump 0 (word_of_nat (rounded 2 (unat (0::u32)) 8)) = 0"
    by (simp add: pol_rate_bump_def rounded_def)
  have r0: "sse2_qos_pol_round (ucast (0 :: u32)) (push_bit (unat xp) 1) v 2 = (0, 0)" for v
    using round_mantissa [of 2 xp 0 v] b(1)
    by (auto simp: prod_eq_iff word_unat_eq_iff rounded_def)
  have um: "unat (ucast m :: u16) = unat m" using b(2) by (simp add: unat_ucast_mant)
  have mn: "unat xp = 0 \<or> 1024 * 2 ^ unat xp \<le> ?V"
    using exponent_minimal [of "unat xp" 10 ?V] k by simp
  then have "2 ^ unat xp \<le> ?V" using V by auto
  then have "0 < unat m" using m by (simp add: div_greater_zero_iff)
  then have m0: "ucast m \<noteq> (0 :: u16)" using um by (metis less_irrefl unat_0)
  have "sse2_pol_convert_cfg_rates_to_hw cfg hw
      = Some (0, bumped_rates cfg xp (ucast m) 0 hw)"
    unfolding sse2_pol_convert_cfg_rates_to_hw_def Let_def ty eir
      sse2_qos_pol_round_8 [of 2, simplified] prod.case c_def [symmetric] e
    using x c0 r0 finish_avg [of 0 xp _ cfg 0 c] ty
    by (simp add: word_gt_0)
  moreover have "bumped_rates cfg xp (ucast m) 0 hw
      = hw\<lparr>hw_rate_exp := xp, hw_avg_rate_man := ucast m, hw_peak_rate_man := 0\<rparr>"
    using m0 eir by (simp add: bumped_rates_def)
  ultimately show ?thesis
    using that [of "ucast m" xp] b um m mn by simp
qed

lemma rate_error_arith:
  "1024 * p \<le> v \<Longrightarrow> m + 1 \<le> p \<Longrightarrow> r + 1 \<le> 8 \<Longrightarrow> c = 8 * v + r \<Longrightarrow> (8 * m + r) * 1024 < (c :: nat)"
  by (simp add: algebra_simps)

lemma pps_arith:
  "1000 * k \<le> 2048 * p + 500 \<Longrightarrow> 2048 * p + 500 < 1000 * k + 1000 \<Longrightarrow>
   (k * 1000 + 1024) div 2048 = (p :: nat)"
  by (rule div_nat_eqI) simp_all

lemma rate_error:
  assumes "x = 0 \<or> 1024 * 2 ^ x \<le> C div (8::nat)"
  shows "8 * (C div 8 div 2 ^ x * 2 ^ x) \<le> C"
    and "C - 8 * (C div 8 div 2 ^ x * 2 ^ x) < 8
       \<or> (C - 8 * (C div 8 div 2 ^ x * 2 ^ x)) * 1024 < C"
proof -
  let ?V = "C div 8" and ?P = "(2::nat) ^ x"
  have V: "?V = ?V div ?P * ?P + ?V mod ?P" by (rule div_mult_mod_eq [symmetric])
  have C: "C = 8 * ?V + C mod 8" by simp
  show "8 * (?V div ?P * ?P) \<le> C" using V C by linarith
  have d: "C - 8 * (?V div ?P * ?P) = 8 * (?V mod ?P) + C mod 8" using V C by linarith
  show "C - 8 * (?V div ?P * ?P) < 8 \<or> (C - 8 * (?V div ?P * ?P)) * 1024 < C"
  proof (cases "x = 0")
    case True then show ?thesis unfolding d by simp
  next
    case False
    then have "1024 * ?P \<le> ?V" using assms by simp
    moreover have "?V mod ?P + 1 \<le> ?P" by (simp add: Suc_leI)
    moreover have "C mod 8 + 1 \<le> 8" by (simp add: Suc_leI)
    ultimately have "(8 * (?V mod ?P) + C mod 8) * 1024 < C" using C by (rule rate_error_arith)
    then show ?thesis unfolding d by simp
  qed
qed

lemma unat_hw_rate:
  assumes "unat (xp :: u8) \<le> 15" and "unat (m :: u16) \<le> 2047"
  shows "unat (ucast (push_bit (unat xp) (ucast m) * 8 * 1000 div 1000 :: u64) :: u32)
    = 8 * (unat m * 2 ^ unat xp)"
proof -
  have "unat m * 2 ^ unat xp \<le> 2047 * 2 ^ 15"
    using assms by (intro mult_le_mono power_increasing) auto
  then have le: "unat m * 2 ^ unat xp \<le> 67076096" by simp
  let ?w = "push_bit (unat xp) (ucast m) :: u64"
  have w: "unat ?w = unat m * 2 ^ unat xp"
    using le by (subst unat_push_bit_small) (simp_all add: word_nat)
  have "unat (?w * 8 * 1000) = unat ?w * 8000"
    using le unfolding unat_word_ariths(2) w by simp
  then have "unat (?w * 8 * 1000 div 1000) = 8 * unat ?w" by (simp add: unat_div)
  then show ?thesis using le by (subst unat_ucast_small) (simp_all add: w)
qed

section \<open>Properties\<close>

text \<open>
  \<open>sse2_qos_pol_round\<close> returns the quotient rounded to closest, up or down, and fails with
  \<open>EINVAL\<close>, leaving its result untouched, exactly for a zero denominator or an unknown rounding type.
\<close>

theorem pol_round_correct:
  assumes "unat n + unat d div 2 < 2 ^ 64"
  shows "sse2_qos_pol_round n d old ty =
    (if d = 0 \<or> 2 < ty then (EINVAL, old) else (0, word_of_nat (rounded ty (unat n) (unat d))))"
proof (cases "d = 0 \<or> 2 < ty")
  case True
  then show ?thesis by (simp add: sse2_qos_pol_round_error(2))
next
  case False
  then have d: "d \<noteq> 0" "ty \<le> 2" by auto
  have "unat (snd (sse2_qos_pol_round n d old ty)) = rounded ty (unat n) (unat d)"
    by (rule sse2_qos_pol_round_ok(2) [OF d assms])
  then have "snd (sse2_qos_pol_round n d old ty) = word_of_nat (rounded ty (unat n) (unat d))"
    by (metis of_nat_unat ucast_id)
  then show ?thesis
    using False sse2_qos_pol_round_ok(1) [OF d assms, of old] by (simp add: prod_eq_iff)
qed

theorem pol_round_correct_witness:
  "sse2_qos_pol_round 1005 10 7 0 = (0, 101) \<and> sse2_qos_pol_round 1005 10 7 9 = (22, 7)"
  using pol_round_correct [of 1005 10 7 0] pol_round_correct [of 1005 10 7 9]
  by (simp add: rounded_def)

text \<open>
  The exponent/mantissa encoding of a rate or burst terminates without an undefined shift and
  is the best one: the lowest exponent whose rounded mantissa fits, and both fields at their
  maximum when the value is out of range.
\<close>

theorem exp_mant_fmt_best:
  assumes "type \<le> 2" and "unat value < 2 ^ 63" and "unat max_exp_value \<le> 29"
  shows "\<exists>xp mant. sse2_qos_convert_value_to_exp_mant_fmt value max_exp_value max_mant_value type = Some (xp, mant)
    \<and> unat xp \<le> unat max_exp_value \<and> unat mant \<le> unat max_mant_value
    \<and> (\<forall>k < unat xp. unat max_mant_value < rounded type (unat value) (2 ^ k))
    \<and> (unat mant = rounded type (unat value) (2 ^ unat xp)
       \<or> (unat mant = unat max_mant_value \<and> unat xp = unat max_exp_value
          \<and> unat max_mant_value < rounded type (unat value) (2 ^ unat max_exp_value)))"
  by (rule exp_mant_fmt_encodes [OF assms(1,2), of max_exp_value max_mant_value])
    (use assms(3) in auto)

theorem exp_mant_fmt_best_witness:
  "\<exists>xp mant. sse2_qos_convert_value_to_exp_mant_fmt 125000 15 2047 2 = Some (xp, mant)
    \<and> unat xp \<le> 15 \<and> unat mant \<le> 2047
    \<and> (\<forall>k < unat xp. 2047 < rounded 2 125000 (2 ^ k))"
  using exp_mant_fmt_best [of 2 125000 15 2047] by auto

text \<open>
  \<open>sse2_pol_compute_hw_params\<close> never runs into undefined behaviour; it returns 0 exactly for
  the valid configurations, -1 for all others, and the parameters it computes fit the widths of
  the hardware descriptor.
\<close>

theorem pol_compute_hw_params_sound:
  "\<exists>rc hw. sse2_pol_compute_hw_params (Some cfg) (Some old) = Some (rc, Some hw)
    \<and> rc = (if pol_cfg_valid cfg then 0 else - 1) \<and> (pol_cfg_valid cfg \<longrightarrow> hw_fits hw)"
proof (cases "cfg_rfc cfg \<le> 4")
  case True
  show ?thesis
  proof (cases "pol_cfg_valid cfg")
    case True
    then obtain hw where "sse2_pol_convert_cfg_to_hw_params cfg = Some (0, hw)" "hw_fits hw"
      by (rule convert_cfg_to_hw_ok)
    moreover have "sse2_pol_validate_cfg_params cfg = 0"
      using True \<open>cfg_rfc cfg \<le> 4\<close> by (simp add: validate_iff)
    ultimately show ?thesis using True by (simp add: sse2_pol_compute_hw_params_def)
  next
    case False
    then show ?thesis
      using \<open>cfg_rfc cfg \<le> 4\<close> by (simp add: sse2_pol_compute_hw_params_def validate_iff)
  qed
next
  case False
  then have "pol_hw_rfc (cfg_rfc cfg) = None" by (simp add: pol_hw_rfc_iff)
  then show ?thesis
    using False
    by (simp add: sse2_pol_compute_hw_params_def sse2_pol_convert_cfg_to_hw_params_def pol_cfg_valid_def)
qed

definition sample_1r2c :: sse2_qos_pol_cfg_params_st where
  "sample_1r2c = zero_cfg\<lparr>cfg_cir := 1000000, cfg_cb := 200000, cfg_rnd_type := 2\<rparr>"

theorem pol_compute_hw_params_sound_witness:
  "pol_cfg_valid sample_1r2c
   \<and> (\<exists>hw. sse2_pol_compute_hw_params (Some sample_1r2c) (Some zero_hw) = Some (0, Some hw) \<and> hw_fits hw)"
proof -
  have v: "pol_cfg_valid sample_1r2c"
    by (simp add: pol_cfg_valid_def sample_1r2c_def zero_cfg_def rounded_def)
  then show ?thesis
    using pol_compute_hw_params_sound [of sample_1r2c zero_hw] by auto
qed

text \<open>
  Translating a valid 1R2C configuration (rounded down) to hardware parameters and back gives
  a 1R2C configuration with no excess rate and burst, whose rate is below the configured one by
  less than 8 kbps or less than one part in 1024, and whose burst is the clamped configured
  burst up to one part in 64.
\<close>

theorem pol_1r2c_roundtrip:
  assumes "pol_cfg_valid cfg" and "cfg_rfc cfg = SSE2_QOS_POLICER_TYPE_1R2C"
    and "cfg_rnd_type cfg = SSE2_QOS_ROUND_TO_DOWN" and "8 \<le> unat (cfg_cir cfg)"
  shows "\<exists>hw cfg' burst. sse2_pol_convert_cfg_to_hw_params cfg = Some (0, hw)
    \<and> sse2_pol_convert_hw_to_cfg_params (Some hw) (Some zero_cfg) = (0, Some cfg')
    \<and> cfg_rfc cfg' = SSE2_QOS_POLICER_TYPE_1R2C \<and> cfg_eir cfg' = 0 \<and> cfg_eb cfg' = 0
    \<and> unat (cfg_cir cfg') \<le> unat (cfg_cir cfg)
    \<and> (unat (cfg_cir cfg) - unat (cfg_cir cfg') < 8
       \<or> (unat (cfg_cir cfg) - unat (cfg_cir cfg')) * 1024 < unat (cfg_cir cfg))
    \<and> burst = unat (pol_clamp_burst (cfg_cb cfg) 31 127 2147483648
        (push_bit (unat (hw_rate_exp hw)) (ucast (hw_avg_rate_man hw))))
    \<and> unat (cfg_cb cfg') \<le> burst \<and> (burst - unat (cfg_cb cfg')) * 64 \<le> burst"
proof -
  let ?C = "unat (cfg_cir cfg)"
  have "?C div 8 \<le> 67076096" using assms(1,3) by (simp add: pol_cfg_valid_def rounded_def)
  from convert_rates_1r2c [OF assms(3,2,4) this] obtain xp m where
    r: "sse2_pol_convert_cfg_rates_to_hw cfg (zero_hw\<lparr>hw_allow_negative := 1, hw_rfc := 2\<rparr>)
      = Some (0, zero_hw\<lparr>hw_allow_negative := 1, hw_rfc := 2, hw_rate_exp := xp, hw_avg_rate_man := m, hw_peak_rate_man := 0\<rparr>)"
    and b: "unat xp \<le> 15" "unat m \<le> 2047" "unat m = ?C div 8 div 2 ^ unat xp"
      "unat xp = 0 \<or> 1024 * 2 ^ unat xp \<le> ?C div 8" .
  let ?r = "push_bit (unat xp) (ucast m) :: u32"
  let ?b = "unat (pol_clamp_burst (cfg_cb cfg) 31 127 2147483648 ?r)"
  obtain x1 m1 b1 where f: "sse2_pol_rnd_burst_byte_fmt (cfg_cb cfg) 31 127 2147483648 ?r = Some (x1, m1, b1)"
    and g: "unat x1 \<le> 31" "unat m1 \<le> 127" "unat m1 * 2 ^ unat x1 \<le> ?b" "?b < (unat m1 + 1) * 2 ^ unat x1"
      "unat x1 = 0 \<or> 64 * 2 ^ unat x1 \<le> ?b" by (rule rnd_burst_ok)
  have "unat m1 * 2 ^ unat x1 \<le> 127 * 2 ^ 31"
    using g by (intro mult_le_mono power_increasing) auto
  then have cb: "unat (push_bit (unat x1) (ucast (ucast m1 :: u8)) :: u64) = unat m1 * 2 ^ unat x1"
    by (subst unat_push_bit_small) (simp_all add: word_nat unat_ucast_bkt_man [OF g(2)])
  have be: "(?b - unat m1 * 2 ^ unat x1) * 64 \<le> ?b"
    using g(3-5) by (auto simp: algebra_simps)
  let ?hw = "zero_hw\<lparr>hw_allow_negative := 1, hw_rfc := 2, hw_rate_exp := xp, hw_avg_rate_man := m,
    hw_peak_rate_man := 0, hw_comm_bkt_limit_exp := x1, hw_comm_bkt_limit_man := ucast m1,
    hw_comm_bkt := b1, hw_extd_bkt_limit_exp := 31, hw_extd_bkt_limit_man := 0\<rparr>"
  have hw: "sse2_pol_convert_cfg_to_hw_params cfg = Some (0, ?hw)"
    using r f assms(2)
    by (simp add: sse2_pol_convert_cfg_to_hw_params_def pol_hw_rfc_def sse2_pol_convert_cfg_burst_to_hw_def)
  have rfc: "pol_cfg_rfc ?hw = Some 0" by (simp add: pol_cfg_rfc_def)
  note cir = unat_hw_rate [OF b(1,2)]
  show ?thesis
    by (rule exI [of _ ?hw])
      (use hw rfc cir cb be g rate_error [OF b(4)] b(3) in
        \<open>simp add: sse2_pol_convert_hw_to_cfg_params_def Let_def\<close>)
qed

theorem pol_1r2c_roundtrip_witness:
  "pol_cfg_valid sample_1r2c
   \<and> (\<exists>hw cfg'. sse2_pol_convert_cfg_to_hw_params sample_1r2c = Some (0, hw)
       \<and> sse2_pol_convert_hw_to_cfg_params (Some hw) (Some zero_cfg) = (0, Some cfg')
       \<and> cfg_rfc cfg' = 0 \<and> unat (cfg_cir cfg') \<le> 1000000)"
proof -
  have v: "pol_cfg_valid sample_1r2c"
    by (simp add: pol_cfg_valid_def sample_1r2c_def zero_cfg_def rounded_def)
  have f: "cfg_rfc sample_1r2c = 0" "cfg_rnd_type sample_1r2c = 2" "8 \<le> unat (cfg_cir sample_1r2c)"
    "unat (cfg_cir sample_1r2c) = 1000000"
    by (simp_all add: sample_1r2c_def zero_cfg_def)
  show ?thesis
    using v f(4) pol_1r2c_roundtrip [OF v f(1-3)] by auto
qed

text \<open>
  Packets per second survive the conversion to kilobits per second and back, up to the
  largest rate whose kilobits fit 32 bits.
\<close>

theorem pol_pps_roundtrip:
  assumes "unat pps < 2097152000"
  shows "sse2_qos_convert_kbps_to_pps (sse2_qos_convert_pps_to_kbps pps) = pps"
proof -
  let ?k = "(2048 * unat pps + 500) div 1000"
  have p: "unat (2048 * ucast pps :: u64) = 2048 * unat pps"
    using assms by (simp add: unat_word_ariths(2) word_nat)
  have k: "?k < 2 ^ 32" using assms by simp
  have kbps: "unat (sse2_qos_convert_pps_to_kbps pps) = ?k"
    unfolding sse2_qos_convert_pps_to_kbps_def
    using assms k by (subst unat_ucast_small) (simp_all add: round_closest p)
  have q: "unat (ucast (sse2_qos_convert_pps_to_kbps pps) * 1000 :: u64) = ?k * 1000"
    using k by (simp add: unat_word_ariths(2) word_nat kbps)
  have "1000 * ?k \<le> 2048 * unat pps + 500" "2048 * unat pps + 500 < 1000 * ?k + 1000"
    by simp_all
  then have ret: "(?k * 1000 + 1024) div 2048 = unat pps"
    by (rule pps_arith)
  have "unat (sse2_qos_convert_kbps_to_pps (sse2_qos_convert_pps_to_kbps pps)) = unat pps"
    unfolding sse2_qos_convert_kbps_to_pps_def
    using assms k ret by (subst unat_ucast_small) (simp_all add: round_closest q)
  then show ?thesis by (simp add: word_unat_eq_iff)
qed

theorem pol_pps_roundtrip_witness:
  "unat (1000000 :: u32) < 2097152000
   \<and> sse2_qos_convert_kbps_to_pps (sse2_qos_convert_pps_to_kbps 1000000) = 1000000"
  using pol_pps_roundtrip [of 1000000] by simp

text \<open>
  A burst in milliseconds survives the conversion to bytes and back at any rate of at least
  9 kbps, as long as the bytes fit 32 bits.
\<close>

theorem pol_burst_roundtrip:
  assumes "9 \<le> unat kbps" and "unat ms * unat kbps + 4 < 2 ^ 35"
  shows "sse2_qos_convert_burst_bytes_to_ms (ucast (sse2_qos_convert_burst_ms_to_bytes ms kbps)) kbps = ms"
proof -
  let ?n = "unat ms * unat kbps"
  let ?b = "(?n + 4) div 8"
  have n: "unat (ucast ms * ucast kbps :: u64) = ?n"
    using assms(2) by (simp add: unat_word_ariths(2) word_nat)
  have b: "?b < 2 ^ 32" using assms(2) by simp
  have bytes: "unat (sse2_qos_convert_burst_ms_to_bytes ms kbps) = ?b"
    unfolding sse2_qos_convert_burst_ms_to_bytes_def
    using assms(2) b by (subst unat_ucast_small) (simp_all add: round_closest n)
  have m: "unat (ucast (sse2_qos_convert_burst_ms_to_bytes ms kbps) * 8 :: u64) = 8 * ?b"
    using b by (simp add: unat_word_ariths(2) word_nat bytes)
  have k: "ucast kbps \<noteq> (0 :: u64)" "unat (ucast kbps :: u64) = unat kbps"
    using assms(1) by (auto simp: word_unat_eq_iff word_nat)
  have q: "8 * ?b \<le> ?n + 4" "?n + 4 < 8 * ?b + 8" by simp_all
  have ret: "(8 * ?b + unat kbps div 2) div unat kbps = unat ms"
    by (rule round_trip_div) (use q assms(1) in \<open>simp_all add: mult.commute\<close>)
  have "unat (sse2_qos_convert_burst_bytes_to_ms (ucast (sse2_qos_convert_burst_ms_to_bytes ms kbps)) kbps) = unat ms"
    unfolding sse2_qos_convert_burst_bytes_to_ms_def
    using b unat_u32_lt [of kbps] unat_u32_lt [of ms]
    by (subst unat_ucast_small) (simp_all add: round_closest k m ret)
  then show ?thesis by (simp add: word_unat_eq_iff)
qed

theorem pol_burst_roundtrip_witness:
  "sse2_qos_convert_burst_bytes_to_ms (ucast (sse2_qos_convert_burst_ms_to_bytes 200 1000)) 1000 = 200"
  using pol_burst_roundtrip [of 1000 200] by simp

text \<open>
  In the built configuration the conversion of a policer back to a configuration does not
  read the policer: every policer is reported as a 1R3C policer with zero rates and bursts.
\<close>

theorem pol_physical_2_logical_constant:
  "sse2_pol_physical_2_logical (Some phys) cfg =
    (if cfg_rate_type cfg \<le> 1 then
       (0, cfg\<lparr>cfg_cir := 0, cfg_eir := 0, cfg_cb := 0, cfg_eb := 0, cfg_rnd_type := 0,
             cfg_rfc := SSE2_QOS_POLICER_TYPE_1R3C_RFC_2697, cfg_overwrite_bucket := 0,
             cfg_current_bucket := 0, cfg_extended_bucket := 0\<rparr>)
     else (- 1, cfg))"
proof -
  have t: "cfg_rate_type cfg \<le> 1 \<longleftrightarrow> cfg_rate_type cfg = 0 \<or> cfg_rate_type cfg = 1"
    by (simp add: word_le_nat_alt word_unat_eq_iff) linarith
  have z: "sse2_qos_convert_kbps_to_pps 0 = 0" "sse2_qos_convert_burst_bytes_to_ms 0 0 = 0"
    by (simp_all add: sse2_qos_convert_kbps_to_pps_def sse2_qos_convert_burst_bytes_to_ms_def
        sse2_qos_pol_round_def)
  show ?thesis
    by (simp add: sse2_pol_physical_2_logical_def sse2_pol_convert_hw_to_cfg_params_def
        sse2_qos_convert_pol_bucket_to_hw_fmt_def pol_cfg_rfc_def zero_hw_def zero_cfg_def t z)
qed

end
