(* ===== verification/C_F64.thy ===== *)
theory C_F64
  imports Vpp_Prelude
begin

text \<open>
  The part of C's \<open>double\<close> that \<^verbatim>\<open>vnet/policer/xlate.c\<close> computes with: non-negative finite values,
  as pairs of a mantissa and a binary exponent, every result rounded to 53 significant bits, ties
  to even. The exponents that occur there stay far from overflow and underflow. Conversion to
  \<open>u32\<close> truncates; out of range it is undefined behaviour (\<open>None\<close>).
\<close>

section \<open>Definitions\<close>

type_synonym f64 = "nat \<times> int"

definition f64_val :: "f64 \<Rightarrow> real" where
  "f64_val x = real (fst x) * 2 powi (snd x)"

text \<open>Rounding of \<open>n * 2^e\<close>, where \<open>sticky\<close> says that the exact value is a little larger.\<close>

definition f64_round :: "nat \<Rightarrow> bool \<Rightarrow> int \<Rightarrow> f64" where
  "f64_round n sticky e =
    (let l = floorlog 2 n
     in if l \<le> 53 then (n, e)
        else let d = l - 53; q = n div 2 ^ d; r = n mod 2 ^ d;
                 up = (2 ^ (d - 1) < r \<or> (r = 2 ^ (d - 1) \<and> (sticky \<or> odd q)))
             in (if up then q + 1 else q, e + int d))"

definition f64_of_nat :: "nat \<Rightarrow> f64" where
  "f64_of_nat n = f64_round n False 0"

definition f64_div :: "f64 \<Rightarrow> f64 \<Rightarrow> f64" where
  "f64_div x y =
    (let n = fst x * 2 ^ 128
     in f64_round (n div fst y) (n mod fst y \<noteq> 0) (snd x - snd y - 128))"

definition f64_mult :: "f64 \<Rightarrow> f64 \<Rightarrow> f64" where
  "f64_mult x y = f64_round (fst x * fst y) False (snd x + snd y)"

definition f64_floor :: "f64 \<Rightarrow> nat" where
  "f64_floor x = (if 0 \<le> snd x then fst x * 2 ^ nat (snd x) else fst x div 2 ^ nat (- snd x))"

definition f64_to_u32 :: "f64 \<Rightarrow> u32 option" where
  "f64_to_u32 x = (if f64_floor x < 2 ^ 32 then Some (of_nat (f64_floor x)) else None)"

definition f64_less_one :: "f64 \<Rightarrow> bool" where
  "f64_less_one x = (f64_floor x = 0)"

section \<open>Truncation and scaling by powers of two\<close>

lemma f64_floor_eq: "f64_floor x = nat \<lfloor>f64_val x\<rfloor>"
proof (cases "0 \<le> snd x")
  case True
  then have "f64_val x = real (fst x * 2 ^ nat (snd x))"
    by (simp add: f64_val_def power_int_def)
  then show ?thesis using True by (simp only: f64_floor_def if_True floor_of_nat nat_int)
next
  case False
  then have "f64_val x = real (fst x) / real (2 ^ nat (- snd x))"
    by (simp add: f64_val_def power_int_def field_simps)
  then show ?thesis using False
    by (simp add: f64_floor_def floor_divide_of_nat_eq del: of_nat_power)
qed

lemma f64_less_one_iff: "f64_less_one x \<longleftrightarrow> f64_val x < 1"
  by (simp add: f64_less_one_def f64_floor_eq)

lemma f64_val_nonneg [simp]: "0 \<le> f64_val x"
  by (simp add: f64_val_def)

section \<open>Rounding error\<close>

text \<open>Rounding an exact value \<open>v * 2^e\<close>, given as its integer part \<open>n\<close> and whether there is more, is off
  by at most one part in \<open>2^53\<close>.\<close>

lemma f64_round_mant: "fst (f64_round n sticky e) \<le> 2 ^ 53"
proof (cases "floorlog 2 n \<le> 53")
  case True
  have "n < 2 ^ 53"
  proof (cases "n = 0")
    case False
    then have "n < 2 ^ floorlog 2 n" using floorlog_bounds [of n 2] by simp
    also have "\<dots> \<le> 2 ^ 53" using True by (intro power_increasing) auto
    finally show ?thesis .
  qed simp
  then show ?thesis using True by (simp add: f64_round_def)
next
  case False
  let ?d = "floorlog 2 n - 53"
  have "0 < n" using False by (cases "n = 0") (auto simp: floorlog_def)
  then have "n < 2 ^ floorlog 2 n" using floorlog_bounds [of n 2] by simp
  also have "(2::nat) ^ floorlog 2 n = 2 ^ 53 * 2 ^ ?d" using False power_add [of "2::nat" 53 ?d] by simp
  finally have "n div 2 ^ ?d < 2 ^ 53" by (simp add: div_less_iff_less_mult)
  then show ?thesis using False by (auto simp: f64_round_def Let_def)
qed

lemma f64_round_error:
  assumes "real n \<le> v" and "v < real n + 1" and "sticky \<longleftrightarrow> v \<noteq> real n" and "floorlog 2 n \<le> 53 \<Longrightarrow> v = real n"
  shows "\<bar>f64_val (f64_round n sticky e) - v * 2 powi e\<bar> \<le> v * 2 powi e / 2 ^ 53"
proof (cases "floorlog 2 n \<le> 53")
  case True
  have "0 \<le> v" using assms(1) by linarith
  then show ?thesis using True assms(4) by (simp add: f64_round_def f64_val_def)
next
  case False
  let ?l = "floorlog 2 n" 
  define d q r where "d = ?l - 53" and "q = n div 2 ^ d" and "r = n mod 2 ^ d"
  define up where "up = (2 ^ (d - 1) < r \<or> (r = 2 ^ (d - 1) \<and> (sticky \<or> odd q)))"
  have d: "0 < d" "?l = d + 53" using False by (simp_all add: d_def)
  have n: "n = q * 2 ^ d + r" "r < 2 ^ d" unfolding q_def r_def by (simp_all only: div_mult_mod_eq mod_less_divisor zero_less_power zero_less_numeral)
  have p2: "(2::nat) ^ d = 2 * 2 ^ (d - 1)" using d(1) by (cases d) auto
  have pos: "0 < n" using False by (cases "n = 0") (auto simp: floorlog_def)
  then have "2 ^ (?l - 1) \<le> n" using floorlog_bounds [of n 2] by simp
  then have big: "2 ^ 52 * 2 ^ d \<le> n" using d power_add [of "2::nat" 52 d] by (simp add: add.commute)
  let ?h = "2 ^ (d - 1) :: real"
  have pr: "(2::real) ^ d = 2 * ?h" using d(1) by (cases d) auto
  have "real n = real (q * 2 ^ d + r)" using n(1) by (rule arg_cong)
  then have rn1: "real n = real q * (2 * ?h) + real r" by (simp add: pr)
  have "real r < real (2 ^ d)" using n(2) by (simp only: of_nat_less_iff)
  then have rn2: "real r < 2 * ?h" by (simp add: pr)
  note rn = rn1 rn2
  have res: "f64_round n sticky e = (if up then q + 1 else q, e + int d)"
    using False by (simp add: f64_round_def Let_def up_def q_def r_def d_def)
  let ?m = "real (if up then q + 1 else q) * (2 * ?h)"
  have dd: "(2::real) powi (e + int d) = 2 powi e * (2 * ?h)"
    using d(1) by (simp add: power_int_add flip: power_Suc)
  have "f64_val (f64_round n sticky e) - v * 2 powi e = (?m - v) * 2 powi e"
    unfolding res f64_val_def fst_conv snd_conv dd by (simp add: algebra_simps)
  moreover have "\<bar>?m - v\<bar> \<le> ?h"
  proof (cases up)
    case True
    then have "2 ^ (d - 1) \<le> r" by (auto simp: up_def)
    then have "?h \<le> real r" by (metis of_nat_le_iff of_nat_numeral of_nat_power)
    moreover have "real r + 1 \<le> 2 * ?h" using rn(2) n(2) p2 by (metis Suc_leI of_nat_Suc of_nat_le_iff of_nat_mult of_nat_numeral of_nat_power add.commute)
    moreover have "?m = real q * (2 * ?h) + 2 * ?h" using True by (simp add: algebra_simps)
    ultimately show ?thesis using assms(1,2) rn(1) by linarith
  next
    case False
    show ?thesis
    proof (cases "r < 2 ^ (d - 1)")
      case True
      then have "real r + 1 \<le> ?h" by (metis Suc_leI of_nat_Suc of_nat_le_iff of_nat_numeral of_nat_power add.commute)
      moreover have "?m = real q * (2 * ?h)" using False by simp
      ultimately show ?thesis using assms(1,2) rn(1) by linarith
    next
      case ge: False
      then have e: "r = 2 ^ (d - 1)" "\<not> sticky" using False by (auto simp: up_def)
      then have "real r = ?h" "v = real n" using assms(3) by simp_all
      then show ?thesis using False rn(1) by simp
    qed
  qed
  moreover have "?h \<le> v / 2 ^ 53"
  proof -
    have "real (2 ^ 52 * 2 ^ d) \<le> real n" using big by (simp only: of_nat_le_iff)
    then have "2 ^ 53 * ?h \<le> real n" using arg_cong [OF p2, of real] by simp
    then show ?thesis using assms(1) by (simp add: field_simps)
  qed
  ultimately have e: "f64_val (f64_round n sticky e) - v * 2 powi e = (?m - v) * 2 powi e"
    and m: "\<bar>?m - v\<bar> \<le> v / 2 ^ 53" by linarith+
  have "\<bar>(?m - v) * 2 powi e\<bar> = \<bar>?m - v\<bar> * 2 powi e" by (simp only: abs_mult) simp
  also have "\<dots> \<le> v / 2 ^ 53 * 2 powi e" using m by (rule mult_right_mono) simp
  finally show ?thesis unfolding e by simp
qed

text \<open>Integers up to 53 bits, and their multiples by a power of two, are exact.\<close>

lemma f64_round_exact:
  assumes "m < 2 ^ 53"
  shows "f64_val (f64_round (m * 2 ^ k) False e) = real m * 2 ^ k * 2 powi e"
proof (cases "m = 0 \<or> floorlog 2 (m * 2 ^ k) \<le> 53")
  case True
  then show ?thesis by (auto simp: f64_round_def f64_val_def floorlog_def)
next
  case False
  let ?n = "m * 2 ^ k"
  have l: "floorlog 2 ?n = floorlog 2 m + k" using False by (simp add: floorlog_power)
  have "floorlog 2 m \<le> 53" by (rule floorlog_leI) (use assms in auto)
  define d where "d = floorlog 2 ?n - 53"
  have d: "d \<le> k" "0 < d" using l False \<open>floorlog 2 m \<le> 53\<close> by (auto simp: d_def)
  then have n: "?n = (m * 2 ^ (k - d)) * 2 ^ d" by (simp flip: power_add)
  have q: "?n div 2 ^ d = m * 2 ^ (k - d)" and r: "?n mod 2 ^ d = 0" unfolding n by simp_all
  have "f64_round ?n False e = (m * 2 ^ (k - d), e + int d)"
    using False q r by (simp add: f64_round_def Let_def d_def)
  then have "f64_val (f64_round ?n False e) = real m * (2 ^ (k - d) * 2 ^ d) * 2 powi e"
    by (simp add: f64_val_def power_int_add)
  also have "(2::real) ^ (k - d) * 2 ^ d = 2 ^ k" using d by (simp flip: power_add)
  finally show ?thesis .
qed

lemma f64_of_nat_exact: "n < 2 ^ 53 \<Longrightarrow> f64_of_nat n = (n, 0)"
proof -
  assume "n < 2 ^ 53"
  then have "floorlog 2 n \<le> 53" by (intro floorlog_leI) auto
  then show ?thesis by (simp add: f64_of_nat_def f64_round_def)
qed

text \<open>Division of a 53-bit value is off by at most one part in \<open>2^53\<close>.\<close>

lemma f64_div_error:
  assumes "0 < fst y" and "fst y \<le> 2 ^ 53"
  shows "\<bar>f64_val (f64_div x y) - f64_val x / f64_val y\<bar> \<le> f64_val x / f64_val y / 2 ^ 53"
proof -
  let ?n = "fst x * 2 ^ 128"
  define q where "q = ?n div fst y"
  let ?v = "real ?n / real (fst y)"
  have v: "?v * 2 powi (snd x - snd y - 128) = f64_val x / f64_val y"
    by (simp add: f64_val_def power_int_diff power_int_add field_simps)
  have s: "(?n mod fst y \<noteq> 0) \<longleftrightarrow> ?v \<noteq> real q"
  proof -
    have "?v = real q \<longleftrightarrow> real ?n = real (q * fst y)" using assms(1) by (simp add: field_simps)
    also have "\<dots> \<longleftrightarrow> ?n = q * fst y" by (rule of_nat_eq_iff)
    also have "\<dots> \<longleftrightarrow> ?n mod fst y = 0" unfolding q_def by (metis add_cancel_left_right div_mult_mod_eq)
    finally show ?thesis by simp
  qed
  have "f64_div x y = f64_round q (?n mod fst y \<noteq> 0) (snd x - snd y - 128)"
    by (simp add: f64_div_def q_def Let_def)
  moreover have "\<bar>f64_val (f64_round q (?n mod fst y \<noteq> 0) (snd x - snd y - 128)) - ?v * 2 powi (snd x - snd y - 128)\<bar>
      \<le> ?v * 2 powi (snd x - snd y - 128) / 2 ^ 53"
  proof (rule f64_round_error [OF _ _ s])
    have "\<lfloor>?v\<rfloor> = int q" unfolding q_def by (rule floor_divide_of_nat_eq)
    then show "real q \<le> ?v" "?v < real q + 1" using floor_correct [of ?v] by simp_all
    assume l: "floorlog 2 q \<le> 53"
    show "?v = real q"
    proof (cases "fst x = 0")
      case False
      have "2 ^ 75 * fst y \<le> 2 ^ 75 * 2 ^ 53" using assms(2) by simp
      also have "\<dots> \<le> ?n" using False by (simp add: Suc_leI)
      finally have "2 ^ 75 \<le> q" unfolding q_def using assms(1) by (simp add: less_eq_div_iff_mult_less_eq)
      moreover have "q < 2 ^ floorlog 2 q" using floorlog_bounds [of q 2] calculation by (cases "q = 0") auto
      moreover have "(2::nat) ^ floorlog 2 q \<le> 2 ^ 53" using l by (intro power_increasing) auto
      ultimately show ?thesis by simp
    qed (simp add: q_def)
  qed
  ultimately show ?thesis by (simp only: v)
qed

section \<open>Evaluation\<close>

lemma floorlog_eval:
  "floorlog 2 (numeral k) = Suc (floorlog 2 (numeral k div 2))" "floorlog 2 (Suc 0) = 1" "floorlog 2 1 = 1" "floorlog 2 0 = 0"
proof -
  show "floorlog 2 (numeral k) = Suc (floorlog 2 (numeral k div 2))" by (subst compute_floorlog) simp
  show "floorlog 2 (Suc 0) = 1" "floorlog 2 1 = 1" by (subst compute_floorlog, simp)+
  show "floorlog 2 0 = 0" by (simp add: floorlog_def)
qed

lemmas f64_eval = f64_of_nat_def f64_round_def f64_div_def f64_to_u32_def f64_floor_def f64_mult_def
  f64_less_one_def floorlog_eval

end
