(* ===== verification/Policer_X86.thy ===== *)
theory Policer_X86
  imports Policer_Xlate C_F64
begin

text \<open>
  The x86 arm of \<^verbatim>\<open>vnet/policer/xlate.c\<close>, which the build uses: rates are converted to tokens per
  policer period of \<open>2^17\<close> clock ticks, in double arithmetic, and buckets and rates are scaled by
  the largest power of two that fits. The clock frequency \<open>hz\<close> that \<open>get_tsc_hz\<close> measures is an
  argument. \<open>None\<close> is undefined behaviour: a conversion of a double out of the range of \<open>u32\<close>, and
  \<open>__builtin_clz (0)\<close>.
\<close>

section \<open>Operations\<close>

abbreviation (input) POLICER_TICKS_PER_PERIOD :: nat where "POLICER_TICKS_PER_PERIOD \<equiv> 131072"

text \<open>The scaled limits, the rates in tokens per period and the scale; the code always returns 0.\<close>

definition compute_policer_params ::
  "u64 \<Rightarrow> u64 \<Rightarrow> u64 \<Rightarrow> u32 \<Rightarrow> u32 \<Rightarrow> (int \<times> u32 \<times> u32 \<times> u32 \<times> u32 \<times> u32) option" where
  "compute_policer_params hz cir_rate pir_rate current_limit extended_limit =
    (if hz = 0 then None
     else let period = f64_div (f64_of_nat (unat hz)) (f64_of_nat POLICER_TICKS_PER_PERIOD);
              cir = f64_div (f64_of_nat (unat cir_rate)) period;
              pir = f64_div (f64_of_nat (unat pir_rate)) period
     in case (f64_to_u32 cir, f64_to_u32 pir) of
       (Some c, Some p) \<Rightarrow>
         let mx = max current_limit extended_limit;
             mx = max mx (push_bit 10 c);
             mx = max mx (push_bit 10 p)
         in if mx = 0 then None
         else let scale_shift = clz32 mx;
                  scale_amount = push_bit scale_shift 1 :: u32;
                  cir = f64_mult cir (f64_of_nat (unat scale_amount));
                  pir = f64_mult pir (f64_of_nat (unat scale_amount));
                  cir = (if f64_less_one cir then (1, 0) else cir);
                  pir = (if f64_less_one pir then (1, 0) else pir)
         in (case (f64_to_u32 cir, f64_to_u32 pir) of
               (Some c, Some p) \<Rightarrow>
                 Some (0, push_bit scale_shift current_limit, push_bit scale_shift extended_limit,
                       c, p, word_of_nat scale_shift)
             | _ \<Rightarrow> None)
     | _ \<Rightarrow> None)"

definition pol_cap :: "u64 \<Rightarrow> u32" where
  "pol_cap bytes = (if 0xFFFFFFFF < bytes then 0xFFFFFFFF else ucast bytes)"

text \<open>The common end of both arms of \<open>x86_pol_compute_hw_params\<close>: the call of
  \<open>compute_policer_params\<close> and full buckets.\<close>

definition x86_pol_fill ::
  "u64 \<Rightarrow> u64 \<Rightarrow> u64 \<Rightarrow> policer_read_response_type_st \<Rightarrow> (int \<times> policer_read_response_type_st) option" where
  "x86_pol_fill hz cir pir hw =
    (case compute_policer_params hz cir pir (pol_current_limit hw) (pol_extended_limit hw) of
       None \<Rightarrow> None
     | Some (rc, cl, el, c, p, scale) \<Rightarrow>
         let hw = hw\<lparr>pol_current_limit := cl, pol_extended_limit := el, pol_cir_tokens_per_period := c,
                     pol_pir_tokens_per_period := p, pol_scale := scale\<rparr>
         in if rc \<noteq> 0 then Some (- 1, hw)
            else Some (0, hw\<lparr>pol_current_bucket := cl, pol_extended_bucket := el\<rparr>))"

definition x86_pol_compute_hw_params ::
  "u64 \<Rightarrow> sse2_qos_pol_cfg_params_st option \<Rightarrow> policer_read_response_type_st option \<Rightarrow>
   (int \<times> policer_read_response_type_st option) option" where
  "x86_pol_compute_hw_params hz cfg hw =
    (case (cfg, hw) of
       (Some cfg, Some hw) \<Rightarrow>
         let hw = hw\<lparr>pol_last_update_time := 0, pol_current_limit := pol_cap (cfg_cb cfg),
                     pol_extended_limit := pol_cap (cfg_eb cfg)\<rparr>
         in if cfg_cir cfg = 0 \<and> cfg_cb cfg = 0 \<and> cfg_eb cfg = 0 then
              Some (0, Some (hw\<lparr>pol_single_rate := 1, pol_cir_tokens_per_period := 0\<rparr>))
            else if cfg_rfc cfg = SSE2_QOS_POLICER_TYPE_1R2C
                 \<or> cfg_rfc cfg = SSE2_QOS_POLICER_TYPE_1R3C_RFC_2697 then
              (let hw = hw\<lparr>pol_single_rate := 1\<rparr>
               in if cfg_rfc cfg = SSE2_QOS_POLICER_TYPE_1R2C \<and> cfg_eb cfg \<noteq> 0 then Some (- 1, Some hw)
                  else if cfg_cir cfg = 0 \<or> cfg_eir cfg \<noteq> 0 \<or> (cfg_cb cfg = 0 \<and> cfg_eb cfg = 0)
                  then Some (- 1, Some hw)
                  else map_option (map_prod id Some) (x86_pol_fill hz (ucast (cfg_cir cfg) * 125) 0 hw))
            else if cfg_rfc cfg = SSE2_QOS_POLICER_TYPE_2R3C_RFC_2698
                 \<or> cfg_rfc cfg = SSE2_QOS_POLICER_TYPE_2R3C_RFC_4115 then
              (if cfg_cir cfg = 0 \<or> cfg_eir cfg = 0 \<or> cfg_eir cfg < cfg_cir cfg
                  \<or> cfg_cb cfg = 0 \<or> cfg_eb cfg = 0
               then Some (- 1, Some hw)
               else map_option (map_prod id Some)
                 (x86_pol_fill hz (ucast (cfg_cir cfg) * 125) (ucast (cfg_eir cfg) * 125) hw))
            else Some (- 1, Some hw)
     | _ \<Rightarrow> Some (- 1, hw))"

definition zero_policer :: policer_read_response_type_st where
  "zero_policer = \<lparr>pol_lock = 0, pol_single_rate = 0, pol_color_aware = 0, pol_scale = 0,
     pol_action = [0, 0, 0], pol_mark_dscp = [0, 0, 0], pol_cir_tokens_per_period = 0,
     pol_pir_tokens_per_period = 0, pol_current_limit = 0, pol_current_bucket = 0,
     pol_extended_limit = 0, pol_extended_bucket = 0, pol_last_update_time = 0\<rparr>"

text \<open>The rates and bursts in kilobits per second and bytes; \<open>None\<close> for an illegal rate type.\<close>

definition kbps_config :: "sse2_qos_pol_cfg_params_st \<Rightarrow> sse2_qos_pol_cfg_params_st option" where
  "kbps_config cfg =
    (if cfg_rate_type cfg = SSE2_QOS_RATE_KBPS then
       Some (zero_cfg\<lparr>cfg_cir := cfg_cir cfg, cfg_eir := cfg_eir cfg, cfg_cb := cfg_cb cfg, cfg_eb := cfg_eb cfg\<rparr>)
     else if cfg_rate_type cfg = SSE2_QOS_RATE_PPS then
       (let cir = sse2_qos_convert_pps_to_kbps (cfg_cir cfg); eir = sse2_qos_convert_pps_to_kbps (cfg_eir cfg)
        in Some (zero_cfg\<lparr>cfg_cir := cir, cfg_eir := eir,
             cfg_cb := ucast (sse2_qos_convert_burst_ms_to_bytes (ucast (cfg_cb cfg)) cir),
             cfg_eb := ucast (sse2_qos_convert_burst_ms_to_bytes (ucast (cfg_eb cfg)) eir)\<rparr>))
     else None)"

definition sse2_pol_logical_2_physical ::
  "u64 \<Rightarrow> sse2_qos_pol_cfg_params_st option \<Rightarrow> (int \<times> policer_read_response_type_st) option" where
  "sse2_pol_logical_2_physical hz cfg =
    (let phys = zero_policer
     in case cfg of
       None \<Rightarrow> Some (- 1, phys)
     | Some cfg \<Rightarrow>
         (case kbps_config cfg of
            None \<Rightarrow> Some (- 1, phys)
          | Some kbps_cfg \<Rightarrow>
              let kbps_cfg = kbps_cfg\<lparr>cfg_rate_type := SSE2_QOS_RATE_KBPS, cfg_rnd_type := cfg_rnd_type cfg,
                    cfg_rfc := cfg_rfc cfg\<rparr>;
                  phys = phys\<lparr>pol_action := [act_action_type (cfg_conform_action cfg),
                      act_action_type (cfg_exceed_action cfg), act_action_type (cfg_violate_action cfg)],
                    pol_mark_dscp := [act_dscp (cfg_conform_action cfg), act_dscp (cfg_exceed_action cfg),
                      act_dscp (cfg_violate_action cfg)],
                    pol_color_aware := ucast (cfg_color_aware cfg)\<rparr>
              in (case x86_pol_compute_hw_params hz (Some kbps_cfg) (Some phys) of
                    Some (rc, Some phys) \<Rightarrow>
                      if rc = - 1 then Some (rc, phys)
                      else if cfg_overwrite_bucket cfg \<noteq> 0 then
                        Some (0, phys\<lparr>pol_current_bucket := cfg_current_bucket cfg,
                                      pol_extended_bucket := cfg_extended_bucket cfg\<rparr>)
                      else Some (0, phys)
                  | _ \<Rightarrow> None)))"

section \<open>Rates in tokens per period\<close>

text \<open>The exact number of bytes per period, and what is close enough to it after scaling.\<close>

definition bytes_per_period :: "u64 \<Rightarrow> u64 \<Rightarrow> real" where
  "bytes_per_period hz rate = real (unat rate) * 131072 / real (unat hz)"

definition accurate :: "u64 \<Rightarrow> u64 \<Rightarrow> u32 \<Rightarrow> u32 \<Rightarrow> bool" where
  "accurate hz rate tokens scale =
    (1 \<le> unat tokens \<and>
     \<bar>real (unat tokens) - bytes_per_period hz rate * 2 ^ unat scale\<bar>
       \<le> 1 + bytes_per_period hz rate * 2 ^ unat scale / 2 ^ 53)"

lemma period_exact:
  assumes "0 < hz" and "hz < 2 ^ 53"
  shows "f64_val (f64_div (f64_of_nat hz) (f64_of_nat 131072)) = real hz / 131072"
    and "0 < fst (f64_div (f64_of_nat hz) (f64_of_nat 131072))"
    and "fst (f64_div (f64_of_nat hz) (f64_of_nat 131072)) \<le> 2 ^ 53"
proof -
  have h: "f64_of_nat hz = (hz, 0)" "f64_of_nat 131072 = (131072, 0)" using assms(2) by (simp_all add: f64_of_nat_exact)
  have n: "hz * 2 ^ 128 = hz * 2 ^ 111 * 131072" by simp
  have e: "f64_div (f64_of_nat hz) (f64_of_nat 131072) = f64_round (hz * 2 ^ 111) False (- 128)"
    unfolding h f64_div_def Let_def fst_conv snd_conv n by (simp add: mult.commute)
  show "fst (f64_div (f64_of_nat hz) (f64_of_nat 131072)) \<le> 2 ^ 53" unfolding e by (rule f64_round_mant)
  show v: "f64_val (f64_div (f64_of_nat hz) (f64_of_nat 131072)) = real hz / 131072"
    unfolding e f64_round_exact [OF assms(2)] by (simp add: power_int_def field_simps)
  then show "0 < fst (f64_div (f64_of_nat hz) (f64_of_nat 131072))"
    using assms(1) by (auto simp: f64_val_def intro: ccontr)
qed

text \<open>One rate before scaling. The bounds: at least \<open>2^30\<close> ticks per second and at most 100 Gbit/s.\<close>

lemma rate_per_period:
  fixes hz rate :: u64
  assumes "2 ^ 30 \<le> unat hz" and "unat hz < 2 ^ 53" and "unat rate \<le> 12500000000"
  defines "x \<equiv> f64_div (f64_of_nat (unat rate)) (f64_div (f64_of_nat (unat hz)) (f64_of_nat 131072))"
  shows "f64_to_u32 x = Some (word_of_nat (f64_floor x))" and "f64_floor x < 2 ^ 22"
    and "\<bar>f64_val x - bytes_per_period hz rate\<bar> \<le> bytes_per_period hz rate / 2 ^ 53" and "fst x \<le> 2 ^ 53"
proof -
  have hz: "0 < unat hz" using assms(1) by (cases "unat hz = 0") auto
  note p = period_exact [OF hz assms(2)]
  have "f64_of_nat (unat rate) = (unat rate, 0)" using assms(3) by (simp add: f64_of_nat_exact)
  then have r: "f64_val (f64_of_nat (unat rate)) = real (unat rate)" by (simp add: f64_val_def)
  let ?e = "bytes_per_period hz rate"
  have e: "?e = f64_val (f64_of_nat (unat rate)) / f64_val (f64_div (f64_of_nat (unat hz)) (f64_of_nat 131072))"
    unfolding r p(1) bytes_per_period_def by simp
  show err: "\<bar>f64_val x - ?e\<bar> \<le> ?e / 2 ^ 53"
    unfolding e x_def by (rule f64_div_error [OF p(2,3)])
  show "fst x \<le> 2 ^ 53" unfolding x_def f64_div_def Let_def by (rule f64_round_mant)
  have "real (unat rate) \<le> real 12500000000" using assms(3) by (simp only: of_nat_le_iff)
  then have "real (unat rate) * 131072 \<le> 12500000000 * 131072" by linarith
  moreover have "(2::real) ^ 30 \<le> real (unat hz)" using assms(1) by (metis of_nat_le_iff of_nat_numeral of_nat_power)
  ultimately have "?e \<le> 12500000000 * 131072 / 2 ^ 30"
    unfolding bytes_per_period_def by (intro frac_le) simp_all
  moreover have "0 \<le> ?e" unfolding bytes_per_period_def
    by (intro divide_nonneg_nonneg mult_nonneg_nonneg of_nat_0_le_iff) simp
  moreover from this have "?e / 2 ^ 53 \<le> ?e" by simp
  moreover have "f64_val x \<le> ?e + ?e / 2 ^ 53" using err by linarith
  ultimately have "f64_val x \<le> 2 * (12500000000 * 131072 / 2 ^ 30)" by linarith
  then have "f64_val x < 2 ^ 22" by simp
  then have "\<lfloor>f64_val x\<rfloor> < 2 ^ 22" by (simp add: floor_less_iff)
  then show f: "f64_floor x < 2 ^ 22" unfolding f64_floor_eq by (simp add: nat_less_iff)
  then show "f64_to_u32 x = Some (word_of_nat (f64_floor x))" by (simp add: f64_to_u32_def)
qed

lemma f64_mult_pow2:
  assumes "fst x \<le> 2 ^ 53" and "s \<le> 31"
  shows "f64_val (f64_mult x (f64_of_nat (2 ^ s))) = f64_val x * 2 ^ s"
proof -
  have "(2::nat) ^ s < 2 ^ 53" using assms(2) by (intro power_strict_increasing) auto
  then have "f64_of_nat (2 ^ s) = (2 ^ s, 0)" by (rule f64_of_nat_exact)
  then have m: "f64_mult x (f64_of_nat (2 ^ s)) = f64_round (fst x * 2 ^ s) False (snd x)" by (simp add: f64_mult_def)
  show ?thesis
  proof (cases "fst x = 2 ^ 53")
    case True
    have "f64_val (f64_round (2 ^ 52 * 2 ^ Suc s) False (snd x)) = real (2 ^ 52) * 2 ^ Suc s * 2 powi snd x"
      by (rule f64_round_exact) simp
    moreover have "(2::nat) ^ 52 * 2 ^ Suc s = fst x * 2 ^ s" unfolding True by simp
    ultimately show ?thesis unfolding m f64_val_def [of x] True by simp
  next
    case False
    then have "f64_val (f64_round (fst x * 2 ^ s) False (snd x)) = real (fst x) * 2 ^ s * 2 powi snd x"
      using assms(1) by (intro f64_round_exact) simp
    then show ?thesis unfolding m by (simp add: f64_val_def)
  qed
qed

lemma scaled_rate:
  assumes v: "\<bar>f64_val x - e\<bar> \<le> e / 2 ^ 53" and m: "fst x \<le> 2 ^ 53" and s: "s \<le> 31"
    and f: "f64_floor x * 2 ^ s < 2 ^ 22"
  defines "y \<equiv> f64_mult x (f64_of_nat (2 ^ s))"
  shows "\<exists>c. f64_to_u32 (if f64_less_one y then (1, 0) else y) = Some c \<and> 1 \<le> unat c
    \<and> \<bar>real (unat c) - e * 2 ^ s\<bar> \<le> 1 + e * 2 ^ s / 2 ^ 53"
proof -
  have y: "f64_val y = f64_val x * 2 ^ s" unfolding y_def by (rule f64_mult_pow2 [OF m s])
  have "f64_val y - e * 2 ^ s = (f64_val x - e) * 2 ^ s" unfolding y by (simp add: algebra_simps)
  then have "\<bar>f64_val y - e * 2 ^ s\<bar> = \<bar>f64_val x - e\<bar> * 2 ^ s" by (simp add: abs_mult)
  also have "\<dots> \<le> e / 2 ^ 53 * 2 ^ s" using v by (rule mult_right_mono) simp
  finally have err: "\<bar>f64_val y - e * 2 ^ s\<bar> \<le> e * 2 ^ s / 2 ^ 53" by simp
  show ?thesis
  proof (cases "f64_less_one y")
    case True
    have "f64_to_u32 (1, 0) = Some 1" by (simp add: f64_to_u32_def f64_floor_def)
    moreover have "f64_val y < 1" "0 \<le> f64_val y" using True by (simp_all add: f64_less_one_iff)
    then have "\<bar>1 - e * 2 ^ s\<bar> \<le> 1 + e * 2 ^ s / 2 ^ 53" using err by linarith
    ultimately show ?thesis using True by simp
  next
    case False
    have fx: "f64_val x < real (f64_floor x) + 1" unfolding f64_floor_eq
      by (simp add: floor_less_iff [symmetric] of_nat_nat)
    have "real (f64_floor x * 2 ^ s) < 2 ^ 22" using f by (metis of_nat_less_iff of_nat_numeral of_nat_power)
    moreover have "(2::real) ^ s \<le> 2 ^ 31" using s by (intro power_increasing) auto
    moreover have "f64_val x * 2 ^ s < (real (f64_floor x) + 1) * 2 ^ s" using fx by (rule mult_strict_right_mono) simp
    ultimately have "f64_val y < 2 ^ 22 + 2 ^ 31" unfolding y by (simp add: algebra_simps)
    then have "\<lfloor>f64_val y\<rfloor> < 2 ^ 32" by (simp add: floor_less_iff)
    then have lt: "f64_floor y < 2 ^ 32" unfolding f64_floor_eq by (simp add: nat_less_iff)
    have ge: "1 \<le> f64_floor y" using False by (simp add: f64_less_one_def)
    have u: "unat (word_of_nat (f64_floor y) :: u32) = f64_floor y" using lt by (simp add: unat_of_nat)
    have "real (f64_floor y) \<le> f64_val y" "f64_val y < real (f64_floor y) + 1"
      unfolding f64_floor_eq by (simp_all add: floor_less_iff [symmetric] of_nat_nat)
    then have "\<bar>real (f64_floor y) - e * 2 ^ s\<bar> \<le> 1 + e * 2 ^ s / 2 ^ 53" using err by linarith
    moreover have "f64_to_u32 (if f64_less_one y then (1, 0) else y) = Some (word_of_nat (f64_floor y))"
      using False lt by (simp add: f64_to_u32_def)
    ultimately show ?thesis using ge by (intro exI [of _ "word_of_nat (f64_floor y)"]) (simp only: u)
  qed
qed

section \<open>Scaling\<close>

lemma clz32_bound:
  assumes "mx \<noteq> (0 :: u32)"
  shows "clz32 mx \<le> 31" and "unat mx * 2 ^ clz32 mx < 2 ^ 32" and "2 ^ 31 \<le> unat mx * 2 ^ clz32 mx"
proof -
  have pos: "0 < unat mx" using assms by (simp add: unat_gt_0)
  let ?l = "floorlog 2 (unat mx)"
  have b: "2 ^ (?l - 1) \<le> unat mx" "unat mx < 2 ^ ?l" using floorlog_bounds [of "unat mx" 2] pos by auto
  have l1: "1 \<le> ?l" using pos b(2) by (cases "?l") auto
  have l32: "?l \<le> 32" by (rule floorlog_leI) (use unat_u32_lt [of mx] in auto)
  have c: "clz32 mx + ?l = 32" "clz32 mx + (?l - 1) = 31" using l32 l1 by (simp_all add: clz32_def)
  show "clz32 mx \<le> 31" using c(2) by linarith
  have "unat mx * 2 ^ clz32 mx < 2 ^ ?l * 2 ^ clz32 mx" using b(2) by simp
  also have "\<dots> = 2 ^ 32" unfolding power_add [symmetric] by (simp only: c add.commute)
  finally show "unat mx * 2 ^ clz32 mx < 2 ^ 32" .
  have "(2::nat) ^ 31 = 2 ^ (?l - 1) * 2 ^ clz32 mx" unfolding power_add [symmetric] by (simp only: c add.commute)
  also have "\<dots> \<le> unat mx * 2 ^ clz32 mx" using b(1) by simp
  finally show "2 ^ 31 \<le> unat mx * 2 ^ clz32 mx" .
qed

lemma shift_limit:
  assumes "l \<le> mx" and "unat mx * 2 ^ s < 2 ^ 32"
  shows "unat (push_bit s l :: u32) = unat l * 2 ^ s"
proof (rule unat_push_bit_small)
  have "unat l * 2 ^ s \<le> unat mx * 2 ^ s" using assms(1) by (simp add: word_le_nat_alt)
  also note assms(2)
  finally show "unat l * 2 ^ s < 2 ^ LENGTH(32)" by simp
qed

lemma shifted_floor:
  assumes "f < 2 ^ 22" and "push_bit 10 (word_of_nat f :: u32) \<le> mx" and "unat mx * 2 ^ s < 2 ^ 32"
  shows "f * 2 ^ s < 2 ^ 22"
proof -
  have "unat (word_of_nat f :: u32) = f" using assms(1) by (simp add: unat_of_nat)
  then have "unat (push_bit 10 (word_of_nat f :: u32)) = f * 2 ^ 10"
    using assms(1) by (subst unat_push_bit_small) simp_all
  then have "f * 2 ^ 10 \<le> unat mx" using assms(2) by (simp add: word_le_nat_alt)
  then have "f * 2 ^ 10 * 2 ^ s \<le> unat mx * 2 ^ s" by (rule mult_le_mono1)
  then have "f * 2 ^ 10 * 2 ^ s < 2 ^ 32" using assms(3) by linarith
  then show ?thesis by simp
qed

lemma compute_policer_params_ok:
  fixes hz cir pir :: u64
  assumes hz: "2 ^ 30 \<le> unat hz" "unat hz < 2 ^ 53"
    and rates: "unat cir \<le> 12500000000" "unat pir \<le> 12500000000" and limits: "cl \<noteq> 0 \<or> el \<noteq> 0"
  obtains cl' el' c p scale where "compute_policer_params hz cir pir cl el = Some (0, cl', el', c, p, scale)"
    and "unat scale \<le> 31" and "unat cl' = unat cl * 2 ^ unat scale" and "unat el' = unat el * 2 ^ unat scale"
    and "accurate hz cir c scale" and "accurate hz pir p scale"
proof -
  define period where "period = f64_div (f64_of_nat (unat hz)) (f64_of_nat 131072)"
  define x y where "x = f64_div (f64_of_nat (unat cir)) period" and "y = f64_div (f64_of_nat (unat pir)) period"
  note rx = rate_per_period [OF hz rates(1), folded period_def, folded x_def]
  note ry = rate_per_period [OF hz rates(2), folded period_def, folded y_def]
  let ?c = "word_of_nat (f64_floor x) :: u32" and ?p = "word_of_nat (f64_floor y) :: u32"
  define mx where "mx = max (max (max cl el) (push_bit 10 ?c)) (push_bit 10 ?p)"
  have le: "cl \<le> mx" "el \<le> mx" "push_bit 10 ?c \<le> mx" "push_bit 10 ?p \<le> mx"
    unfolding mx_def by (simp_all only: le_max_iff_disj order_refl simp_thms)
  have mx: "mx \<noteq> 0" using limits le(1,2) by (metis word_le_0_iff)
  define s where "s = clz32 mx"
  note b = clz32_bound [OF mx, folded s_def]
  obtain c where c: "f64_to_u32 (if f64_less_one (f64_mult x (f64_of_nat (2 ^ s))) then (1, 0) else f64_mult x (f64_of_nat (2 ^ s))) = Some c"
    "1 \<le> unat c" "\<bar>real (unat c) - bytes_per_period hz cir * 2 ^ s\<bar> \<le> 1 + bytes_per_period hz cir * 2 ^ s / 2 ^ 53"
    using scaled_rate [OF rx(3,4) b(1) shifted_floor [OF rx(2) le(3) b(2)]] by blast
  obtain p where p: "f64_to_u32 (if f64_less_one (f64_mult y (f64_of_nat (2 ^ s))) then (1, 0) else f64_mult y (f64_of_nat (2 ^ s))) = Some p"
    "1 \<le> unat p" "\<bar>real (unat p) - bytes_per_period hz pir * 2 ^ s\<bar> \<le> 1 + bytes_per_period hz pir * 2 ^ s / 2 ^ 53"
    using scaled_rate [OF ry(3,4) b(1) shifted_floor [OF ry(2) le(4) b(2)]] by blast
  have amount: "unat (push_bit s 1 :: u32) = 2 ^ s" using b(1) by (intro unat_push_bit_1) simp
  have us: "unat (word_of_nat s :: u32) = s" using b(1) by (simp add: unat_of_nat)
  have "hz \<noteq> 0" using hz(1) by auto
  then have "compute_policer_params hz cir pir cl el =
      Some (0, push_bit s cl, push_bit s el, c, p, word_of_nat s)"
    unfolding compute_policer_params_def Let_def period_def [symmetric] x_def [symmetric] y_def [symmetric]
      rx(1) ry(1) prod.case option.case mx_def [symmetric] s_def [symmetric] amount c(1) p(1)
    using mx by simp
  then show ?thesis
    by (rule that)
      (use b(1) c p us shift_limit [OF le(1) b(2)] shift_limit [OF le(2) b(2)] in \<open>simp_all add: accurate_def\<close>)
qed

section \<open>Configurations\<close>

text \<open>The configurations that the x86 arm accepts, in kilobits per second and bytes.\<close>

definition x86_always_violate :: "sse2_qos_pol_cfg_params_st \<Rightarrow> bool" where
  "x86_always_violate k = (cfg_cir k = 0 \<and> cfg_cb k = 0 \<and> cfg_eb k = 0)"

definition x86_valid :: "sse2_qos_pol_cfg_params_st \<Rightarrow> bool" where
  "x86_valid k =
    (if cfg_rfc k = 0 then cfg_cir k \<noteq> 0 \<and> cfg_eir k = 0 \<and> cfg_cb k \<noteq> 0 \<and> cfg_eb k = 0
     else if cfg_rfc k = 1 then cfg_cir k \<noteq> 0 \<and> cfg_eir k = 0 \<and> (cfg_cb k \<noteq> 0 \<or> cfg_eb k \<noteq> 0)
     else if cfg_rfc k = 2 \<or> cfg_rfc k = 3
     then cfg_cir k \<noteq> 0 \<and> cfg_cir k \<le> cfg_eir k \<and> cfg_cb k \<noteq> 0 \<and> cfg_eb k \<noteq> 0
     else False)"

text \<open>What the created policer promises for the configuration \<open>k\<close>.\<close>

definition policer_implements ::
  "u64 \<Rightarrow> sse2_qos_pol_cfg_params_st \<Rightarrow> policer_read_response_type_st \<Rightarrow> bool" where
  "policer_implements hz k p =
    (unat (pol_scale p) \<le> 31
     \<and> unat (pol_current_limit p) = min (unat (cfg_cb k)) (2 ^ 32 - 1) * 2 ^ unat (pol_scale p)
     \<and> unat (pol_extended_limit p) = min (unat (cfg_eb k)) (2 ^ 32 - 1) * 2 ^ unat (pol_scale p)
     \<and> accurate hz (ucast (cfg_cir k) * 125) (pol_cir_tokens_per_period p) (pol_scale p)
     \<and> accurate hz (ucast (cfg_eir k) * 125) (pol_pir_tokens_per_period p) (pol_scale p)
     \<and> (pol_single_rate p \<noteq> 0 \<longleftrightarrow> cfg_rfc k \<le> 1)
     \<and> pol_last_update_time p = 0)"

lemma unat_pol_cap: "unat (pol_cap b) = min (unat b) (2 ^ 32 - 1)"
  by (auto simp: pol_cap_def word_less_nat_alt unat_ucast_small min_def)

lemma pol_cap_0: "pol_cap b = 0 \<longleftrightarrow> b = 0"
  unfolding word_unat_eq_iff unat_pol_cap by (simp add: min_def)

lemma unat_rate_125: "unat (ucast (r :: u32) * 125 :: u64) = unat r * 125"
  using unat_u32_lt [of r] by (simp add: unat_word_ariths(2) word_nat)

lemma x86_pol_fill_ok:
  assumes hz: "2 ^ 30 \<le> unat hz" "unat hz < 2 ^ 53"
    and rates: "unat cir \<le> 12500000000" "unat pir \<le> 12500000000"
    and limits: "pol_current_limit hw \<noteq> 0 \<or> pol_extended_limit hw \<noteq> 0"
  obtains p where "x86_pol_fill hz cir pir hw = Some (0, p)"
    and "unat (pol_scale p) \<le> 31"
    and "unat (pol_current_limit p) = unat (pol_current_limit hw) * 2 ^ unat (pol_scale p)"
    and "unat (pol_extended_limit p) = unat (pol_extended_limit hw) * 2 ^ unat (pol_scale p)"
    and "accurate hz cir (pol_cir_tokens_per_period p) (pol_scale p)"
    and "accurate hz pir (pol_pir_tokens_per_period p) (pol_scale p)"
    and "pol_current_bucket p = pol_current_limit p" and "pol_extended_bucket p = pol_extended_limit p"
    and "pol_single_rate p = pol_single_rate hw" and "pol_last_update_time p = pol_last_update_time hw"
    and "pol_color_aware p = pol_color_aware hw" and "pol_action p = pol_action hw"
    and "pol_mark_dscp p = pol_mark_dscp hw"
proof -
  obtain cl el c p scale where
    e: "compute_policer_params hz cir pir (pol_current_limit hw) (pol_extended_limit hw) = Some (0, cl, el, c, p, scale)"
    and f: "unat scale \<le> 31" "unat cl = unat (pol_current_limit hw) * 2 ^ unat scale"
      "unat el = unat (pol_extended_limit hw) * 2 ^ unat scale"
      "accurate hz cir c scale" "accurate hz pir p scale"
    by (rule compute_policer_params_ok [OF hz rates limits])
  let ?p = "hw\<lparr>pol_current_limit := cl, pol_extended_limit := el, pol_cir_tokens_per_period := c,
      pol_pir_tokens_per_period := p, pol_scale := scale, pol_current_bucket := cl, pol_extended_bucket := el\<rparr>"
  have "x86_pol_fill hz cir pir hw = Some (0, ?p)" by (simp add: x86_pol_fill_def e Let_def)
  then show ?thesis by (rule that) (use f in simp_all)
qed

definition always_violates :: "policer_read_response_type_st \<Rightarrow> bool" where
  "always_violates p \<longleftrightarrow> pol_single_rate p \<noteq> 0 \<and> pol_scale p = 0 \<and> pol_current_limit p = 0 \<and> pol_extended_limit p = 0"

lemma always_violates:
  assumes "always_violates p" and "0 < len"
  shows "map_option snd (vnet_police_packet p len col t) = Some POLICE_VIOLATE"
proof -
  have r: "refill b n rate 0 = 0" for b n rate
    using refill_le_limit [of b n rate 0] by (simp add: word_unat_eq_iff)
  have "\<not> ucast len \<le> (0 :: u64)" using assms(2) by (simp add: word_le_nat_alt word_less_nat_alt word_nat)
  then show ?thesis using assms(1)
    by (simp add: vnet_police_packet_refill police_outcome_def always_violates_def Let_def r scaled_length_def)
qed

lemma x86_compute_invalid:
  assumes "\<not> x86_valid k" and "\<not> x86_always_violate k"
  shows "\<exists>p. x86_pol_compute_hw_params hz (Some k) (Some hw) = Some (- 1, Some p)"
  using assms
  by (auto simp: x86_pol_compute_hw_params_def x86_valid_def x86_always_violate_def Let_def not_le
      split: if_splits)

lemma x86_compute_valid:
  assumes hz: "2 ^ 30 \<le> unat hz" "unat hz < 2 ^ 53"
    and rates: "unat (cfg_cir k) \<le> 100000000" "unat (cfg_eir k) \<le> 100000000"
    and valid: "x86_valid k" and hw: "pol_single_rate hw = 0"
  obtains p where "x86_pol_compute_hw_params hz (Some k) (Some hw) = Some (0, Some p)"
    and "policer_implements hz k p"
    and "pol_current_bucket p = pol_current_limit p" and "pol_extended_bucket p = pol_extended_limit p"
    and "pol_color_aware p = pol_color_aware hw" and "pol_action p = pol_action hw"
    and "pol_mark_dscp p = pol_mark_dscp hw"
proof -
  let ?single = "cfg_rfc k = 0 \<or> cfg_rfc k = 1"
  have le1: "cfg_rfc k \<le> 1 \<longleftrightarrow> ?single" by (auto simp: word_le_nat_alt word_unat_eq_iff)
  let ?hw = "hw\<lparr>pol_last_update_time := 0, pol_current_limit := pol_cap (cfg_cb k),
      pol_extended_limit := pol_cap (cfg_eb k), pol_single_rate := if ?single then 1 else 0\<rparr>"
  let ?cir = "ucast (cfg_cir k) * 125 :: u64" and ?pir = "ucast (cfg_eir k) * 125 :: u64"
  have r: "unat ?cir \<le> 12500000000" "unat ?pir \<le> 12500000000"
    using rates by (simp_all add: unat_rate_125)
  have l: "pol_current_limit ?hw \<noteq> 0 \<or> pol_extended_limit ?hw \<noteq> 0"
    using valid by (auto simp: pol_cap_0 x86_valid_def split: if_splits)
  obtain p where e: "x86_pol_fill hz ?cir ?pir ?hw = Some (0, p)"
    and p: "unat (pol_scale p) \<le> 31"
      "unat (pol_current_limit p) = unat (pol_current_limit ?hw) * 2 ^ unat (pol_scale p)"
      "unat (pol_extended_limit p) = unat (pol_extended_limit ?hw) * 2 ^ unat (pol_scale p)"
      "accurate hz ?cir (pol_cir_tokens_per_period p) (pol_scale p)"
      "accurate hz ?pir (pol_pir_tokens_per_period p) (pol_scale p)"
      "pol_current_bucket p = pol_current_limit p" "pol_extended_bucket p = pol_extended_limit p"
      "pol_single_rate p = pol_single_rate ?hw" "pol_last_update_time p = pol_last_update_time ?hw"
      "pol_color_aware p = pol_color_aware ?hw" "pol_action p = pol_action ?hw" "pol_mark_dscp p = pol_mark_dscp ?hw"
    by (rule x86_pol_fill_ok [OF hz r l])
  have "x86_pol_compute_hw_params hz (Some k) (Some hw) = Some (0, Some p)"
  proof (cases ?single)
    case True
    then have "cfg_eir k = 0" using valid by (auto simp: x86_valid_def)
    then have "x86_pol_fill hz ?cir 0 (hw\<lparr>pol_last_update_time := 0, pol_current_limit := pol_cap (cfg_cb k),
      pol_extended_limit := pol_cap (cfg_eb k), pol_single_rate := 1\<rparr>) = Some (0, p)" using e True by simp
    then show ?thesis using valid True by (auto simp: x86_pol_compute_hw_params_def x86_valid_def Let_def)
  next
    case False
    have "?hw = hw\<lparr>pol_last_update_time := 0, pol_current_limit := pol_cap (cfg_cb k),
      pol_extended_limit := pol_cap (cfg_eb k)\<rparr>" using False hw by simp
    then have "x86_pol_fill hz ?cir ?pir (hw\<lparr>pol_last_update_time := 0, pol_current_limit := pol_cap (cfg_cb k),
      pol_extended_limit := pol_cap (cfg_eb k)\<rparr>) = Some (0, p)" using e by simp
    moreover have "cfg_eir k \<noteq> 0" using valid False by (auto simp: x86_valid_def split: if_splits)
    ultimately show ?thesis using valid False
      by (auto simp: x86_pol_compute_hw_params_def x86_valid_def Let_def not_less [symmetric] split: if_splits)
  qed
  then show ?thesis
    by (rule that) (use p le1 in \<open>simp_all add: policer_implements_def unat_pol_cap\<close>)
qed

text \<open>A burst of 1000 bytes at 64 kbit/s on a clock of \<open>2^30\<close> Hz is scaled by \<open>2^22\<close>.\<close>

lemma small_burst_params:
  "compute_policer_params 1073741824 8000 0 1000 0 = Some (0, 4194304000, 0, 4096000, 1, 22)"
  by (simp add: compute_policer_params_def Let_def f64_eval clz32_def)

section \<open>Properties\<close>

text \<open>The configuration that \<open>sse2_pol_logical_2_physical\<close> hands on.\<close>

definition pol_kbps_cfg :: "sse2_qos_pol_cfg_params_st \<Rightarrow> sse2_qos_pol_cfg_params_st option" where
  "pol_kbps_cfg cfg = map_option (\<lambda>k. k\<lparr>cfg_rate_type := SSE2_QOS_RATE_KBPS,
     cfg_rnd_type := cfg_rnd_type cfg, cfg_rfc := cfg_rfc cfg\<rparr>) (kbps_config cfg)"

lemma logical_2_physical_ok:
  assumes "2 ^ 30 \<le> unat hz" and "unat hz < 2 ^ 53" and "pol_kbps_cfg cfg = Some k" and "x86_valid k"
    and "unat (cfg_cir k) \<le> 100000000" and "unat (cfg_eir k) \<le> 100000000"
  shows "\<exists>p. sse2_pol_logical_2_physical hz (Some cfg) = Some (0, p) \<and> policer_implements hz k p
    \<and> pol_action p = map act_action_type [cfg_conform_action cfg, cfg_exceed_action cfg, cfg_violate_action cfg]
    \<and> pol_mark_dscp p = map act_dscp [cfg_conform_action cfg, cfg_exceed_action cfg, cfg_violate_action cfg]
    \<and> pol_color_aware p = ucast (cfg_color_aware cfg)
    \<and> buckets p = (if cfg_overwrite_bucket cfg \<noteq> 0
         then (unat (cfg_current_bucket cfg), unat (cfg_extended_bucket cfg))
         else (unat (pol_current_limit p), unat (pol_extended_limit p)))"
proof -
  let ?phys = "zero_policer\<lparr>pol_action := map act_action_type [cfg_conform_action cfg, cfg_exceed_action cfg, cfg_violate_action cfg],
      pol_mark_dscp := map act_dscp [cfg_conform_action cfg, cfg_exceed_action cfg, cfg_violate_action cfg],
      pol_color_aware := ucast (cfg_color_aware cfg)\<rparr>"
  have s: "pol_single_rate ?phys = 0" by (simp add: zero_policer_def)
  obtain q where q: "x86_pol_compute_hw_params hz (Some k) (Some ?phys) = Some (0, Some q)"
    and i: "policer_implements hz k q"
    and r: "pol_current_bucket q = pol_current_limit q" "pol_extended_bucket q = pol_extended_limit q"
      "pol_color_aware q = pol_color_aware ?phys" "pol_action q = pol_action ?phys" "pol_mark_dscp q = pol_mark_dscp ?phys"
    by (rule x86_compute_valid [OF assms(1,2,5,6,4) s])
  obtain k0 where k0: "kbps_config cfg = Some k0" "k = k0\<lparr>cfg_rate_type := 0, cfg_rnd_type := cfg_rnd_type cfg, cfg_rfc := cfg_rfc cfg\<rparr>"
    using assms(3) by (auto simp: pol_kbps_cfg_def)
  let ?p = "if cfg_overwrite_bucket cfg \<noteq> 0 then q\<lparr>pol_current_bucket := cfg_current_bucket cfg,
      pol_extended_bucket := cfg_extended_bucket cfg\<rparr> else q"
  have "sse2_pol_logical_2_physical hz (Some cfg) = Some (0, ?p)"
    using q unfolding k0(2) sse2_pol_logical_2_physical_def by (simp add: k0(1) Let_def)
  moreover have "policer_implements hz k ?p" using i by (simp add: policer_implements_def)
  ultimately show ?thesis using r by (intro exI [of _ ?p]) (simp add: buckets_def)
qed

text \<open>
  C4. On a clock of at least \<open>2^30\<close> Hz and for rates up to 100 Gbit/s, a valid configuration is
  translated without undefined behaviour to a policer whose limits are the configured bursts
  (capped to 32 bits) times a power of two, exactly, whose tokens per period are the configured
  rates times the same power of two up to one token and the rounding of a double, and whose
  buckets start full unless the configuration overwrites them.
\<close>

theorem pol_logical_2_physical_valid:
  assumes "2 ^ 30 \<le> unat hz" and "unat hz < 2 ^ 53" and "pol_kbps_cfg cfg = Some k" and "x86_valid k"
    and "unat (cfg_cir k) \<le> 100000000" and "unat (cfg_eir k) \<le> 100000000"
  shows "\<exists>p. sse2_pol_logical_2_physical hz (Some cfg) = Some (0, p) \<and> policer_implements hz k p
    \<and> pol_action p = map act_action_type [cfg_conform_action cfg, cfg_exceed_action cfg, cfg_violate_action cfg]
    \<and> pol_mark_dscp p = map act_dscp [cfg_conform_action cfg, cfg_exceed_action cfg, cfg_violate_action cfg]
    \<and> pol_color_aware p = ucast (cfg_color_aware cfg)
    \<and> buckets p = (if cfg_overwrite_bucket cfg \<noteq> 0
         then (unat (cfg_current_bucket cfg), unat (cfg_extended_bucket cfg))
         else (unat (pol_current_limit p), unat (pol_extended_limit p)))"
  by (rule logical_2_physical_ok [OF assms])

definition sample_2r3c :: sse2_qos_pol_cfg_params_st where
  "sample_2r3c = zero_cfg\<lparr>cfg_rfc := 2, cfg_cir := 1000000, cfg_eir := 2000000, cfg_cb := 100000, cfg_eb := 200000\<rparr>"

lemma sample_2r3c_kbps: "pol_kbps_cfg sample_2r3c = Some sample_2r3c" "x86_valid sample_2r3c"
    "unat (cfg_cir sample_2r3c) \<le> 100000000" "unat (cfg_eir sample_2r3c) \<le> 100000000"
    "cfg_overwrite_bucket sample_2r3c = 0"
  by (simp_all add: pol_kbps_cfg_def kbps_config_def sample_2r3c_def zero_cfg_def x86_valid_def)

lemma sample_2r3c_policer:
  obtains p where "sse2_pol_logical_2_physical 2000000000 (Some sample_2r3c) = Some (0, p)"
proof -
  obtain q where "x86_pol_compute_hw_params 2000000000 (Some sample_2r3c) (Some zero_policer) = Some (0, Some q)"
    by (rule x86_compute_valid [OF _ _ sample_2r3c_kbps(3,4,2), of 2000000000 zero_policer]) (simp_all add: zero_policer_def)
  then show ?thesis
    by (intro that [of q]) (simp add: sse2_pol_logical_2_physical_def kbps_config_def sample_2r3c_def zero_cfg_def
        zero_action_def zero_policer_def)
qed

theorem pol_logical_2_physical_valid_witness:
  "pol_kbps_cfg sample_2r3c = Some sample_2r3c \<and> x86_valid sample_2r3c
   \<and> (\<exists>p. sse2_pol_logical_2_physical 2000000000 (Some sample_2r3c) = Some (0, p)
        \<and> policer_implements 2000000000 sample_2r3c p)"
  using pol_logical_2_physical_valid [OF _ _ sample_2r3c_kbps(1-4), of 2000000000] sample_2r3c_kbps by auto

text \<open>
  C39. A configuration that is not valid is rejected with -1, whatever the clock: a missing configuration,
  an unknown rate type, an unsupported policer type, missing or contradictory rates and bursts. The one
  exception is a configuration without a committed rate and without bursts, whatever its excess rate and
  its type: it is accepted, and the policer marks every packet that has a length as violating.
\<close>

theorem pol_logical_2_physical_rejects:
  assumes "\<forall>k. pol_kbps_cfg cfg = Some k \<longrightarrow> \<not> x86_valid k"
  shows "sse2_pol_logical_2_physical hz None = Some (- 1, zero_policer)
    \<and> (\<exists>rv p. sse2_pol_logical_2_physical hz (Some cfg) = Some (rv, p)
      \<and> (if \<exists>k. pol_kbps_cfg cfg = Some k \<and> cfg_cir k = 0 \<and> cfg_cb k = 0 \<and> cfg_eb k = 0
         then rv = 0 \<and> (\<forall>len col t. 0 < len \<longrightarrow> map_option snd (vnet_police_packet p len col t) = Some POLICE_VIOLATE)
         else rv = - 1))"
proof (cases "kbps_config cfg")
  case None
  then show ?thesis by (simp add: sse2_pol_logical_2_physical_def pol_kbps_cfg_def)
next
  case (Some k)
  let ?k = "k\<lparr>cfg_rate_type := 0, cfg_rnd_type := cfg_rnd_type cfg, cfg_rfc := cfg_rfc cfg\<rparr>"
  let ?hw = "zero_policer\<lparr>pol_action := map act_action_type [cfg_conform_action cfg, cfg_exceed_action cfg, cfg_violate_action cfg],
      pol_mark_dscp := map act_dscp [cfg_conform_action cfg, cfg_exceed_action cfg, cfg_violate_action cfg],
      pol_color_aware := ucast (cfg_color_aware cfg)\<rparr>"
  have k: "pol_kbps_cfg cfg = Some ?k" and v: "\<not> x86_valid ?k" using assms Some by (simp_all add: pol_kbps_cfg_def)
  show ?thesis
  proof (cases "x86_always_violate ?k")
    case True
    then have z: "cfg_cir k = 0" "cfg_cb k = 0" "cfg_eb k = 0" by (simp_all add: x86_always_violate_def)
    then obtain p where "sse2_pol_logical_2_physical hz (Some cfg) = Some (0, p)" and "always_violates p"
      by (cases "cfg_overwrite_bucket cfg = 0") (simp_all add: sse2_pol_logical_2_physical_def Some Let_def x86_pol_compute_hw_params_def always_violates_def zero_policer_def pol_cap_def)
    moreover have "sse2_pol_logical_2_physical hz None = Some (- 1, zero_policer)" by (simp add: sse2_pol_logical_2_physical_def)
    ultimately show ?thesis using always_violates k z by simp
  next
    case False
    from x86_compute_invalid [OF v this, of hz ?hw] show ?thesis
      using k False by (auto simp: sse2_pol_logical_2_physical_def Some Let_def x86_always_violate_def)
  qed
qed

theorem pol_logical_2_physical_rejects_witness:
  "\<exists>p. sse2_pol_logical_2_physical 2000000000 (Some (sample_2r3c\<lparr>cfg_eir := 1\<rparr>)) = Some (- 1, p)"
proof -
  have "\<forall>k. pol_kbps_cfg (sample_2r3c\<lparr>cfg_eir := 1\<rparr>) = Some k \<longrightarrow> \<not> x86_valid k"
    by (simp add: pol_kbps_cfg_def kbps_config_def sample_2r3c_def zero_cfg_def x86_valid_def word_le_nat_alt)
  from pol_logical_2_physical_rejects [OF this, of 2000000000] show ?thesis
    by (simp add: pol_kbps_cfg_def kbps_config_def sample_2r3c_def zero_cfg_def)
qed

end
