(* ===== verification/Bitops.thy ===== *)
theory Bitops
  imports Vpp_Prelude
begin

text \<open>
  The population count of \<^verbatim>\<open>vppinfra/bitops.h\<close> on 64-bit words, which adds neighbouring fields of
  one, two, four and more bits in parallel. The lemmas follow the digits of the number through
  the stages and end in the number of set bits.
\<close>

definition count_set_bits :: "u64 \<Rightarrow> u64" where
  "count_set_bits x =
    (let c1 = 0x5555555555555555; c2 = 0x3333333333333333; c3 = 0x0f0f0f0f0f0f0f0f;
         x = x - (drop_bit 1 x AND c1);
         x = (x AND c2) + (drop_bit 2 x AND c2);
         x = (x + drop_bit 4 x) AND c3;
         x = x + drop_bit 8 x;
         x = x + drop_bit 16 x;
         x = x + drop_bit 32 x
     in x AND 127)"

section \<open>Population count\<close>

text \<open>Numbers as their digits in base \<open>B\<close>, lowest first.\<close>

fun val :: "nat \<Rightarrow> nat list \<Rightarrow> nat" where
  "val B [] = 0"
| "val B (d # ds) = d + B * val B ds"

fun evens :: "'a list \<Rightarrow> 'a list" where
  "evens (a # b # xs) = a # evens xs"
| "evens xs = []"

fun odds :: "'a list \<Rightarrow> 'a list" where
  "odds (a # b # xs) = b # odds xs"
| "odds xs = []"

fun pair_sums :: "nat list \<Rightarrow> nat list" where
  "pair_sums (a # b # xs) = (a + b) # pair_sums xs"
| "pair_sums xs = []"

lemma and_digit:
  assumes "a < 2 ^ m" and "c < 2 ^ m"
  shows "(a + 2 ^ m * n) AND (c + 2 ^ m * p) = (a AND c) + 2 ^ m * (n AND p :: nat)"
proof -
  have or: "x + 2 ^ m * y = x OR push_bit m y" if "x < 2 ^ m" for x y :: nat
  proof -
    have "x = take_bit m x" using that by (simp add: take_bit_nat_eq_self)
    then have "x AND push_bit m y = take_bit m x AND push_bit m y" by simp
    also have "\<dots> = 0" by (rule bit_eqI) (auto simp: bit_simps)
    finally have "x AND push_bit m y = 0" .
    then show ?thesis by (simp add: disjunctive_add_eq_or [symmetric] push_bit_eq_mult mult.commute)
  qed
  have "a AND c = take_bit m a AND take_bit m c" using assms by (simp add: take_bit_nat_eq_self)
  then have "a AND c = take_bit m (a AND c)" by (simp only: take_bit_and take_bit_take_bit min.idem)
  then have ac: "a AND c < 2 ^ m" using take_bit_nat_less_exp [of m "a AND c"] by linarith
  have b: "\<not> bit x k" if "x < 2 ^ m" "m \<le> k" for x k :: nat
    using that by (metis bit_take_bit_iff linorder_not_less take_bit_nat_eq_self)
  show ?thesis
    unfolding or [OF assms(1)] or [OF assms(2)] or [OF ac]
    by (rule bit_eqI) (auto simp: bit_simps dest: b [OF assms(1)] b [OF assms(2)])
qed

lemma val_evens_and:
  assumes "B = 2 ^ m" and "0 < m" and "\<forall>d\<in>set ds. d < B" and "length ds = 2 * k"
  shows "val B ds AND val (B * B) (replicate k (B - 1)) = val (B * B) (evens ds)"
  using assms(3,4)
proof (induction ds arbitrary: k rule: evens.induct)
  case (1 a b ds)
  then obtain j where k: "k = Suc j" by (cases k) auto
  have bb: "B * B = 2 ^ (2 * m)" using assms(1) by (simp add: power_add [symmetric] mult_2)
  have lt: "a < B" "b < B" using "1.prems" by auto
  have b1: "b + 1 \<le> B" using lt by simp
  have "a + B * b < B * (b + 1)" using lt by simp
  also have "\<dots> \<le> B * B" using b1 by (rule mult_le_mono2)
  finally have l1: "a + B * b < 2 ^ (2 * m)" unfolding bb .
  have "1 \<le> B" using assms(1) by simp
  then have l2: "B - 1 < 2 ^ (2 * m)" unfolding bb [symmetric] by (metis diff_less le_square less_le_trans less_one not_less zero_less_one)
  have e: "val B (a # b # ds) = (a + B * b) + 2 ^ (2 * m) * val B ds" unfolding bb [symmetric] by (simp add: algebra_simps)
  have "(a + B * b) AND (B - 1) = a"
  proof -
    have "(a + B * b) AND (B - 1) = (a + B * b) mod B"
      unfolding assms(1) mask_eq_exp_minus_1 [symmetric] by (simp only: take_bit_eq_mask [symmetric] take_bit_eq_mod)
    then show ?thesis using lt by simp
  qed
  then show ?case
    using "1.IH" [of j] "1.prems" k and_digit [OF l1 l2, of "val B ds" "val (B * B) (replicate j (B - 1))"]
    unfolding e by (simp add: bb)
qed (use assms(1) in auto)

lemma val_div: "d < B \<Longrightarrow> val B (d # ds) div B = val B ds"
  by simp

lemma evens_snoc: "odd (length es) \<Longrightarrow> evens (es @ [x]) = odds (d # es)"
  by (induction es arbitrary: d rule: evens.induct) auto

lemma val_evens_odds: "even (length ds) \<Longrightarrow> val B ds = val (B * B) (evens ds) + B * val (B * B) (odds ds)"
  by (induction ds rule: evens.induct) (auto simp: algebra_simps)

lemma val_pair_sums: "even (length ds) \<Longrightarrow> val B (evens ds) + val B (odds ds) = val B (pair_sums ds)"
proof (induction ds rule: evens.induct)
  case (1 a b ds)
  then have "B * val B (evens ds) + B * val B (odds ds) = B * val B (pair_sums ds)"
    by (simp add: add_mult_distrib2 [symmetric])
  then show ?case by simp
qed simp_all

lemma pair_sums_bound: "\<forall>d\<in>set ds. d \<le> n \<Longrightarrow> \<forall>d\<in>set (pair_sums ds). d \<le> 2 * n"
  by (induction ds rule: pair_sums.induct) force+

lemma length_pair_sums: "length ds = 2 * k \<Longrightarrow> length (pair_sums ds) = k"
  by (induction ds arbitrary: k rule: pair_sums.induct) (auto, case_tac k, auto)

lemma sum_pair_sums: "even (length ds) \<Longrightarrow> sum_list (pair_sums ds) = sum_list ds"
  by (induction ds rule: pair_sums.induct) auto

lemma val_lt: "\<forall>d\<in>set ds. d < B \<Longrightarrow> val B ds < B ^ length ds"
proof (induction ds)
  case (Cons d ds)
  then have "d < B" "val B ds + 1 \<le> B ^ length ds" by auto
  then have "d + B * val B ds < B * (val B ds + 1)" by simp
  also have "\<dots> \<le> B * B ^ length ds" using \<open>val B ds + 1 \<le> B ^ length ds\<close> by (rule mult_le_mono2)
  finally show ?case by simp
qed simp

lemma val_odds_and:
  assumes "B = 2 ^ m" and "0 < m" and "\<forall>d\<in>set ds. d < B" and "length ds = 2 * k"
  shows "val B ds div B AND val (B * B) (replicate k (B - 1)) = val (B * B) (odds ds)"
proof (cases ds)
  case (Cons d es)
  have B: "0 < B" using assms(1) by simp
  have v: "val B (es @ [0]) = val B es" by (induction es) auto
  have "odd (length es)" using assms(4) unfolding Cons by (metis even_Suc even_mult_iff length_Cons even_numeral)
  then have o: "evens (es @ [0]) = odds (d # es)" by (rule evens_snoc)
  have "val B (es @ [0]) AND val (B * B) (replicate k (B - 1)) = val (B * B) (evens (es @ [0]))"
    by (rule val_evens_and [OF assms(1,2)]) (use assms(3,4) B Cons in auto)
  then show ?thesis using assms(3) unfolding v o Cons by (simp add: val_div)
qed (use assms(4) in simp)

lemma val_replicate: "val B (replicate (numeral n) c) = c + B * val B (replicate (pred_numeral n) c)"
  by (simp add: numeral_eq_Suc)

text \<open>The three masks of the code.\<close>

lemma count_masks:
  "0x5555555555555555 = val (2 * 2) (replicate 32 (2 - 1))"
  "0x3333333333333333 = val (4 * 4) (replicate 16 (4 - 1))"
  "0x0f0f0f0f0f0f0f0f = val (16 * 16) (replicate 8 (16 - 1))"
  by (simp_all add: val_replicate)

lemma digits_bits:
  fixes x :: u64
  defines "bs \<equiv> map (\<lambda>i. of_bool (bit x i) :: nat) [0..<64]"
  shows "unat x = val 2 bs" and "length bs = 64" and "\<forall>d\<in>set bs. d \<le> 1"
    and "sum_list bs = length (filter (bit x) [0..<64])"
proof -
  have h: "horner_sum of_bool (2 :: nat) ps = val 2 (map of_bool ps)" for ps
    by (induction ps) simp_all
  have "unat x < 2 ^ 64" using unat_u64_lt [of x] by simp
  then have "unat x = take_bit 64 (unat x)" by (simp add: take_bit_nat_eq_self)
  also have "\<dots> = horner_sum of_bool 2 (map (bit (unat x)) [0..<64])" by (simp only: horner_sum_bit_eq_take_bit)
  also have "map (bit (unat x)) [0..<64] = map (bit x) [0..<64]" by (rule map_cong) (simp_all add: bit_unsigned_iff del: upt_rec_numeral)
  finally show "unat x = val 2 bs" unfolding h bs_def by (simp only: map_map o_def)
  show "length bs = 64" by (simp add: bs_def)
  show "\<forall>d\<in>set bs. d \<le> 1" by (simp only: bs_def set_map) auto
  show "sum_list bs = length (filter (bit x) [0..<64])"
  proof -
    have "sum_list (map (\<lambda>i. of_bool (P i) :: nat) is) = length (filter P is)" for P and "is" :: "nat list"
      by (induction "is") auto
    then show ?thesis unfolding bs_def .
  qed
qed

text \<open>The four stages, on the number a word denotes.\<close>

lemma count_stage1:
  assumes "unat x = val 2 bs" and "length bs = 64" and "\<forall>d\<in>set bs. d \<le> 1"
  shows "unat (x - (drop_bit 1 x AND 0x5555555555555555) :: u64) = val 4 (pair_sums bs)"
proof -
  have lt: "\<forall>d\<in>set bs. d < 2" using assms(3) by fastforce
  have "unat (drop_bit 1 x AND 0x5555555555555555) = val 2 bs div 2 AND 0x5555555555555555"
    unfolding unsigned_and_eq unat_drop_bit_eq assms(1) by (simp add: drop_bit_eq_div)
  also have "\<dots> = val 4 (odds bs)"
    using val_odds_and [of 2 1 bs 32, OF _ _ lt] assms(2) count_masks(1) by simp
  finally have o: "unat (drop_bit 1 x AND 0x5555555555555555) = val 4 (odds bs)" .
  have x: "unat x = val 4 (evens bs) + 2 * val 4 (odds bs)"
    using val_evens_odds [of bs 2] assms(1,2) by simp
  then have le: "drop_bit 1 x AND 0x5555555555555555 \<le> x" using o by (simp add: word_le_nat_alt)
  show ?thesis unfolding unat_sub_eq [OF le] o x using val_pair_sums [of bs 4] assms(2) by simp
qed

lemma count_stage2:
  assumes "unat x = val 4 ds" and "length ds = 32" and "\<forall>d\<in>set ds. d \<le> 2"
  shows "unat ((x AND 0x3333333333333333) + (drop_bit 2 x AND 0x3333333333333333) :: u64) = val 16 (pair_sums ds)"
proof -
  have lt: "\<forall>d\<in>set ds. d < 4" using assms(3) by fastforce
  have e: "unat (x AND 0x3333333333333333) = val 16 (evens ds)"
    unfolding unsigned_and_eq assms(1) using val_evens_and [of 4 2 ds 16, OF _ _ lt] assms(2) count_masks(2) by simp
  have "unat (drop_bit 2 x AND 0x3333333333333333) = val 4 ds div 4 AND 0x3333333333333333"
    unfolding unsigned_and_eq unat_drop_bit_eq assms(1) by (simp add: drop_bit_eq_div)
  also have "\<dots> = val 16 (odds ds)"
    using val_odds_and [of 4 2 ds 16, OF _ _ lt] assms(2) count_masks(2) by simp
  finally have o: "unat (drop_bit 2 x AND 0x3333333333333333) = val 16 (odds ds)" .
  have b: "\<forall>d\<in>set (pair_sums ds). d < 16" using pair_sums_bound [OF assms(3)] by auto
  have "val 16 (pair_sums ds) < 16 ^ 16" using val_lt [OF b] length_pair_sums [of ds 16] assms(2) by simp
  then show ?thesis unfolding unat_word_ariths(1) e o using val_pair_sums [of ds 16] assms(2) by simp
qed

lemma val_add_shifted:
  "\<forall>d\<in>set ds. d < B \<Longrightarrow> val B ds + val B ds div B = val B (map2 (+) ds (tl ds @ [0]))"
proof -
  have "val B xs + val B ys = val B (map2 (+) xs (ys @ [0]))" if "length xs = Suc (length ys)" for xs ys
    using that
  proof (induction xs arbitrary: ys)
    case (Cons x xs)
    show ?case
    proof (cases ys)
      case (Cons y zs)
      then have "B * val B xs + B * val B zs = B * val B (map2 (+) xs (zs @ [0]))"
        using Cons.IH [of zs] Cons.prems by (simp add: add_mult_distrib2 [symmetric])
      then show ?thesis using Cons by simp
    qed (use Cons.prems in simp)
  qed simp
  note add = this
  assume lt: "\<forall>d\<in>set ds. d < B"
  show ?thesis
  proof (cases ds)
    case (Cons d es)
    then have "val B ds div B = val B es" using lt by (simp add: val_div del: val.simps)
    then show ?thesis using add [of ds es] Cons by (simp del: val.simps)
  qed simp
qed

lemma evens_shifted: "even (length ds) \<Longrightarrow> evens (map2 (+) ds (tl ds @ [0])) = pair_sums ds"
proof (induction ds rule: pair_sums.induct)
  case (1 a b ds)
  then show ?case by (cases ds) auto
qed auto

lemma count_stage3:
  assumes "unat x = val 16 ds" and "length ds = 16" and "\<forall>d\<in>set ds. d \<le> 4"
  shows "unat ((x + drop_bit 4 x) AND 0x0f0f0f0f0f0f0f0f :: u64) = val 256 (pair_sums ds)"
proof -
  let ?es = "map2 (+) ds (tl ds @ [0])"
  have lt: "\<forall>d\<in>set ds. d < 16" using assms(3) by fastforce
  have es: "\<forall>d\<in>set ?es. d < 16"
  proof
    fix d assume "d \<in> set ?es"
    then obtain p q where "(p, q) \<in> set (zip ds (tl ds @ [0]))" "d = p + q" by auto
    moreover from this have "p \<in> set ds" "q \<in> set (tl ds @ [0])" by (meson set_zip_leftD set_zip_rightD)+
    then have "p \<le> 4" "q \<le> 4" using assms(3) by (auto dest: list.set_sel(2) [rotated])
    ultimately show "d < 16" by simp
  qed
  have l: "length ?es = 16" using assms(2) by simp
  have s: "val 16 ds + val 16 ds div 16 = val 16 ?es" by (rule val_add_shifted [OF lt])
  have "val 16 ?es < 16 ^ 16" using val_lt [OF es] l by simp
  then have a: "unat (x + drop_bit 4 x) = val 16 ?es"
    unfolding unat_word_ariths(1) unat_drop_bit_eq assms(1) using s by (simp add: drop_bit_eq_div)
  show ?thesis
    unfolding unsigned_and_eq a using val_evens_and [of 16 4 ?es 8, OF _ _ es] l count_masks(3)
      evens_shifted [of ds] assms(2) by simp
qed

lemma count_stage4:
  assumes "unat x = val 256 es" and "length es = 8" and "\<forall>d\<in>set es. d \<le> 8"
  defines "y \<equiv> x + drop_bit 8 x"
  defines "z \<equiv> y + drop_bit 16 y"
  shows "unat ((z + drop_bit 32 z) AND 127 :: u64) = sum_list es"
proof -
  obtain e0 e1 e2 e3 e4 e5 e6 e7 where es: "es = [e0, e1, e2, e3, e4, e5, e6, e7]"
    using assms(2) by (auto simp: numeral_eq_Suc length_Suc_conv)
  have e: "e0 \<le> 8" "e1 \<le> 8" "e2 \<le> 8" "e3 \<le> 8" "e4 \<le> 8" "e5 \<le> 8" "e6 \<le> 8" "e7 \<le> 8" using assms(3) es by auto
  let ?y = "[e0 + e1, e1 + e2, e2 + e3, e3 + e4, e4 + e5, e5 + e6, e6 + e7, e7]"
  let ?z = "[e0 + e1 + e2 + e3, e1 + e2 + e3 + e4, e2 + e3 + e4 + e5, e3 + e4 + e5 + e6, e4 + e5 + e6 + e7, e5 + e6 + e7, e6 + e7, e7]"
  have lt: "val 256 ds < 18446744073709551616" if "\<forall>d\<in>set ds. d < 256" "length ds = 8" for ds
    using val_lt [OF that(1)] that(2) by simp
  have y1: "val 256 es + val 256 es div 256 = val 256 ?y" unfolding es using e by (subst val_div) simp_all
  have y: "unat y = val 256 ?y"
    unfolding y_def unat_word_ariths(1) unat_drop_bit_eq assms(1)
    using y1 lt [of ?y] e by (simp add: drop_bit_eq_div)
  have "val 256 ?y div 65536 = val 256 ?y div 256 div 256" by (simp add: div_mult2_eq [symmetric])
  also have "\<dots> = val 256 [e2 + e3, e3 + e4, e4 + e5, e5 + e6, e6 + e7, e7]" using e by ((subst val_div, simp)+) (rule refl)
  finally have z1: "val 256 ?y + val 256 ?y div 65536 = val 256 ?z" by simp
  have z: "unat z = val 256 ?z"
    unfolding z_def unat_word_ariths(1) unat_drop_bit_eq y
    using z1 lt [of ?z] e by (simp add: drop_bit_eq_div)
  have "val 256 ?z div 4294967296 = val 256 ?z div 256 div 256 div 256 div 256" by (simp add: div_mult2_eq [symmetric])
  also have "\<dots> = val 256 [e4 + e5 + e6 + e7, e5 + e6 + e7, e6 + e7, e7]" using e by ((subst val_div, simp)+) (rule refl)
  finally have w1: "val 256 ?z + val 256 ?z div 4294967296
      = sum_list es + 256 * val 256 [e1 + e2 + e3 + e4 + e5 + e6 + e7, e2 + e3 + e4 + e5 + e6 + e7, e3 + e4 + e5 + e6 + e7, e4 + e5 + e6 + e7, e5 + e6 + e7, e6 + e7, e7]"
    by (simp add: es)
  let ?w = "[sum_list es, e1 + e2 + e3 + e4 + e5 + e6 + e7, e2 + e3 + e4 + e5 + e6 + e7, e3 + e4 + e5 + e6 + e7, e4 + e5 + e6 + e7, e5 + e6 + e7, e6 + e7, e7]"
  have "val 256 ?w < 18446744073709551616" by (rule lt) (use e es in auto)
  then have "unat (z + drop_bit 32 z) = val 256 ?w"
    unfolding unat_word_ariths(1) unat_drop_bit_eq z using w1 by (simp add: drop_bit_eq_div)
  then have "unat ((z + drop_bit 32 z) AND 127) = val 256 ?w AND mask 7"
    unfolding unsigned_and_eq by (simp add: mask_eq_exp_minus_1)
  also have "\<dots> = val 256 ?w mod 128" by (simp only: take_bit_eq_mask [symmetric] take_bit_eq_mod) simp
  also have "\<dots> = sum_list es mod 128"
  proof -
    have "val 256 (a # ds) mod 128 = a mod 128" for a ds
    proof -
      have "val 256 (a # ds) = a + (2 * val 256 ds) * 128" by simp
      then show ?thesis by (simp only: mod_mult_self1)
    qed
    then show ?thesis .
  qed
  also have "\<dots> = sum_list es" using e es by simp
  finally show ?thesis .
qed

text \<open>The parallel additions compute the number of set bits.\<close>

lemma count_set_bits_eq: "unat (count_set_bits x) = length (filter (bit x) [0..<64])"
proof -
  define bs where "bs = map (\<lambda>i. of_bool (bit x i) :: nat) [0..<64]"
  note b = digits_bits [of x, folded bs_def]
  have l: "length (pair_sums bs) = 32" "length (pair_sums (pair_sums bs)) = 16"
    "length (pair_sums (pair_sums (pair_sums bs))) = 8" using b(2) length_pair_sums by simp_all
  have m: "\<forall>d\<in>set (pair_sums bs). d \<le> 2" "\<forall>d\<in>set (pair_sums (pair_sums bs)). d \<le> 4"
    "\<forall>d\<in>set (pair_sums (pair_sums (pair_sums bs))). d \<le> 8"
    using pair_sums_bound [OF b(3)] pair_sums_bound [of "pair_sums bs" 2] pair_sums_bound [of "pair_sums (pair_sums bs)" 4] by simp_all
  have "unat (count_set_bits x) = sum_list (pair_sums (pair_sums (pair_sums bs)))"
    unfolding count_set_bits_def Let_def
    by (rule count_stage4 [OF count_stage3 [OF count_stage2 [OF count_stage1 [OF b(1-3)] l(1) m(1)] l(2) m(2)] l(3) m(3)])
  also have "\<dots> = sum_list bs" using l b(2) by (simp add: sum_pair_sums)
  finally show ?thesis using b(4) by simp
qed

section \<open>Properties\<close>

text \<open>
  The population count computed with three masks and parallel additions is the number of set
  bits of the word.
\<close>

theorem count_set_bits_correct: "unat (count_set_bits x) = card {i. i < 64 \<and> bit x i}"
proof -
  have "length (filter (bit x) [0..<64]) = card (set (filter (bit x) [0..<64]))"
    by (rule distinct_card [symmetric]) (simp only: distinct_filter distinct_upt)
  also have "set (filter (bit x) [0..<64]) = {i. i < 64 \<and> bit x i}"
    by (simp only: set_filter atLeast_upt [symmetric]) auto
  finally show ?thesis by (simp only: count_set_bits_eq)
qed

end
