(* ===== verification/Bitmap.thy ===== *)
theory Bitmap
  imports Bitops
begin

text \<open>
  The bitmaps of \<^verbatim>\<open>vppinfra/bitmap.h\<close>: vectors of 64-bit words with implied trailing zeros, where
  bit \<open>i\<close> is bit \<open>i mod 64\<close> of word \<open>i div 64\<close>. A bitmap pointer that is null and an empty vector
  behave alike, so both are the empty list. Indices are natural numbers; the value \<open>~0\<close> that some
  operations return is the constant \<open>uword_max\<close>. The lemmas show that every operation is the set
  operation on the set of indices of the one-bits; the interface that clients rely on is the
  locale \<open>index_set\<close>.
\<close>

section \<open>Words\<close>

abbreviation (input) uword_max :: nat where "uword_max \<equiv> 18446744073709551615"

text \<open>\<open>__builtin_ctzll\<close> and \<open>__builtin_clzll\<close>, on non-zero words.\<close>

definition log2_first_set :: "u64 \<Rightarrow> nat" where
  "log2_first_set x = length (takeWhile (\<lambda>n. \<not> bit x n) [0..<64])"

definition count_leading_zeros :: "u64 \<Rightarrow> nat" where
  "count_leading_zeros x = length (takeWhile (\<lambda>n. \<not> bit x (63 - n)) [0..<64])"

definition min_log2 :: "u64 \<Rightarrow> nat" where
  "min_log2 x = 64 - count_leading_zeros x - 1"

definition first_set :: "u64 \<Rightarrow> u64" where
  "first_set x = x AND - x"

text \<open>A shift by 64 or more is undefined behaviour (\<open>None\<close>).\<close>

definition pow2_mask :: "nat \<Rightarrow> u64 option" where
  "pow2_mask n = (if n < 64 then Some (push_bit n 1 - 1) else None)"

section \<open>Operations\<close>

type_synonym clib_bitmap = "u64 list"

definition clib_bitmap_vec_validate :: "clib_bitmap \<Rightarrow> nat \<Rightarrow> clib_bitmap" where
  "clib_bitmap_vec_validate v i = (if i < length v then v else v @ replicate (i + 1 - length v) 0)"

fun clib_bitmap_is_zero :: "clib_bitmap \<Rightarrow> bool" where
  "clib_bitmap_is_zero [] = True"
| "clib_bitmap_is_zero (a # ai) = (if a \<noteq> 0 then False else clib_bitmap_is_zero ai)"

fun bitmap_words_equal :: "clib_bitmap \<Rightarrow> clib_bitmap \<Rightarrow> bool" where
  "bitmap_words_equal (x # a) (y # b) = (if x \<noteq> y then False else bitmap_words_equal a b)"
| "bitmap_words_equal a b = True"

definition clib_bitmap_is_equal :: "clib_bitmap \<Rightarrow> clib_bitmap \<Rightarrow> bool" where
  "clib_bitmap_is_equal a b = (if length a \<noteq> length b then False else bitmap_words_equal a b)"

definition clib_bitmap_remove_trailing_zeros :: "clib_bitmap \<Rightarrow> clib_bitmap" where
  "clib_bitmap_remove_trailing_zeros a = rev (dropWhile (\<lambda>x. x = 0) (rev a))"

text \<open>The bitmap and the old value; only called with \<open>i\<close> inside the vector.\<close>

definition clib_bitmap_set_no_check :: "clib_bitmap \<Rightarrow> nat \<Rightarrow> bool \<Rightarrow> clib_bitmap \<times> bool" where
  "clib_bitmap_set_no_check a i new_value =
    (let i0 = i div 64; i1 = i mod 64; b = push_bit i1 1; ai = a ! i0;
         old_value = (ai AND b \<noteq> 0);
         ai = (ai AND NOT b) OR push_bit i1 (of_bool new_value)
     in (a[i0 := ai], old_value))"

definition clib_bitmap_set :: "clib_bitmap \<Rightarrow> nat \<Rightarrow> bool \<Rightarrow> clib_bitmap" where
  "clib_bitmap_set ai i v =
    (let i0 = i div 64; i1 = i mod 64
     in if \<not> v \<and> length ai \<le> i0 then ai
        else let ai = clib_bitmap_vec_validate ai i0;
                 a = (ai ! i0 AND NOT (push_bit i1 1)) OR push_bit i1 (of_bool v);
                 ai = ai[i0 := a]
             in if a = 0 then clib_bitmap_remove_trailing_zeros ai else ai)"

definition clib_bitmap_get :: "clib_bitmap \<Rightarrow> nat \<Rightarrow> bool" where
  "clib_bitmap_get ai i = (i div 64 < length ai \<and> drop_bit (i mod 64) (ai ! (i div 64)) AND 1 \<noteq> 0)"

text \<open>Up to 64 bits from bit \<open>i\<close> on; \<open>None\<close> is the failed assertion \<open>n_bits <= BITS (result)\<close>.\<close>

definition clib_bitmap_get_multiple :: "clib_bitmap \<Rightarrow> nat \<Rightarrow> nat \<Rightarrow> u64 option" where
  "clib_bitmap_get_multiple bitmap i n_bits =
    (if 64 < n_bits then None
     else let i0 = i div 64; i1 = i mod 64;
              result = (if i0 < length bitmap
                then (let r = drop_bit i1 (bitmap ! i0)
                      in if n_bits < 64 then r AND (push_bit n_bits 1 - 1) else r)
                else 0);
              i0 = i0 + 1
          in if 64 < i1 + n_bits \<and> i0 < length bitmap
             then let n_bits = n_bits - (64 - i1)
                  in Some (result OR push_bit (64 - i1) (bitmap ! i0 AND (push_bit n_bits 1 - 1)))
             else Some result)"

definition clib_bitmap_set_multiple :: "clib_bitmap \<Rightarrow> nat \<Rightarrow> u64 \<Rightarrow> nat \<Rightarrow> clib_bitmap option" where
  "clib_bitmap_set_multiple bitmap i v n_bits =
    (if 64 < n_bits then None
     else let i0 = i div 64; i1 = i mod 64;
              bitmap = clib_bitmap_vec_validate bitmap ((i + n_bits) div 64);
              l = length bitmap;
              m = (if n_bits < 64 then push_bit n_bits 1 - 1 else NOT 0);
              v = v AND m;
              t = (bitmap ! i0 AND NOT (push_bit i1 m)) OR push_bit i1 v;
              bitmap = bitmap[i0 := t];
              i0 = i0 + 1
          in if 64 < i1 + n_bits \<and> i0 < l
             then let t = 64 - i1; v = drop_bit t v; n_bits = n_bits - t;
                      m = push_bit n_bits 1 - 1;
                      t = (bitmap ! i0 AND NOT m) OR v
                  in Some (bitmap[i0 := t])
             else Some bitmap)"

text \<open>The words strictly between the first and the last one of a region.\<close>

fun set_region_words :: "clib_bitmap \<Rightarrow> nat \<Rightarrow> nat \<Rightarrow> u64 \<Rightarrow> clib_bitmap" where
  "set_region_words bitmap a0 0 w = bitmap"
| "set_region_words bitmap a0 (Suc k) w = set_region_words (bitmap[a0 := w]) (a0 + 1) k w"

definition region_put :: "clib_bitmap \<Rightarrow> nat \<Rightarrow> bool \<Rightarrow> u64 \<Rightarrow> clib_bitmap" where
  "region_put bitmap a0 v msk = bitmap[a0 := if v then bitmap ! a0 OR msk else bitmap ! a0 AND NOT msk]"

definition clfib_bitmap_set_region :: "clib_bitmap \<Rightarrow> nat \<Rightarrow> bool \<Rightarrow> nat \<Rightarrow> clib_bitmap option" where
  "clfib_bitmap_set_region bitmap i v n_bits =
    (let a0 = i div 64; a1 = i mod 64; b0 = (i + n_bits) div 64;
         bitmap = clib_bitmap_vec_validate bitmap b0
     in case (if n_bits < 64 then pow2_mask n_bits else Some (NOT 0)) of
          None \<Rightarrow> None
        | Some msk \<Rightarrow>
            let bitmap = region_put bitmap a0 v (push_bit a1 msk);
                bitmap = set_region_words bitmap (a0 + 1) (b0 - (a0 + 1)) (if v then NOT 0 else 0);
                a0 = max (a0 + 1) b0
            in if a0 = b0
               then case pow2_mask (n_bits - (64 - a1)) of
                      None \<Rightarrow> None
                    | Some msk \<Rightarrow> Some (region_put bitmap a0 v msk)
               else Some bitmap)"

text \<open>The iteration macro, as the list of the indices its body runs on: the words in order, and in
  each word the lowest set bit, found by \<open>x & -x\<close> and removed by exclusive or. A word has at most
  64 set bits, which bounds the loop.\<close>

fun bitmap_foreach_word :: "nat \<Rightarrow> nat \<Rightarrow> u64 \<Rightarrow> nat list" where
  "bitmap_foreach_word 0 i a = []"
| "bitmap_foreach_word (Suc n) i a =
    (if a = 0 then []
     else let f = first_set a in (i * 64 + min_log2 f) # bitmap_foreach_word n i (a XOR f))"

fun bitmap_foreach_from :: "nat \<Rightarrow> clib_bitmap \<Rightarrow> nat list" where
  "bitmap_foreach_from i [] = []"
| "bitmap_foreach_from i (a # ai) = bitmap_foreach_word 64 i a @ bitmap_foreach_from (i + 1) ai"

definition clib_bitmap_foreach :: "clib_bitmap \<Rightarrow> nat list" where
  "clib_bitmap_foreach ai = bitmap_foreach_from 0 ai"

fun bitmap_first_set_from :: "nat \<Rightarrow> clib_bitmap \<Rightarrow> nat" where
  "bitmap_first_set_from i [] = uword_max"
| "bitmap_first_set_from i (x # ai) =
    (if x \<noteq> 0 then i * 64 + log2_first_set x else bitmap_first_set_from (i + 1) ai)"

definition clib_bitmap_first_set :: "clib_bitmap \<Rightarrow> nat" where
  "clib_bitmap_first_set ai = bitmap_first_set_from 0 ai"

fun bitmap_last_set_upto :: "clib_bitmap \<Rightarrow> nat \<Rightarrow> nat" where
  "bitmap_last_set_upto ai 0 = uword_max"
| "bitmap_last_set_upto ai (Suc i) =
    (let x = ai ! i
     in if x \<noteq> 0 then (i + 1) * 64 - count_leading_zeros x - 1 else bitmap_last_set_upto ai i)"

definition clib_bitmap_last_set :: "clib_bitmap \<Rightarrow> nat" where
  "clib_bitmap_last_set ai = bitmap_last_set_upto ai (length ai)"

fun bitmap_first_clear_from :: "nat \<Rightarrow> clib_bitmap \<Rightarrow> nat" where
  "bitmap_first_clear_from i [] = i * 64"
| "bitmap_first_clear_from i (a # ai) =
    (let x = NOT a in if x \<noteq> 0 then i * 64 + log2_first_set x else bitmap_first_clear_from (i + 1) ai)"

definition clib_bitmap_first_clear :: "clib_bitmap \<Rightarrow> nat" where
  "clib_bitmap_first_clear ai = bitmap_first_clear_from 0 ai"

fun clib_bitmap_count_set_bits :: "clib_bitmap \<Rightarrow> nat" where
  "clib_bitmap_count_set_bits [] = 0"
| "clib_bitmap_count_set_bits (a # ai) = unat (count_set_bits a) + clib_bitmap_count_set_bits ai"

text \<open>The two-bitmap operations: one loop over the words that also counts the zero words at the
  end, which \<open>and\<close>, \<open>andnot\<close> and \<open>xor\<close> cut off.\<close>

fun bitmap_alu_loop :: "(u64 \<Rightarrow> u64 \<Rightarrow> u64) \<Rightarrow> clib_bitmap \<Rightarrow> clib_bitmap \<Rightarrow> nat \<Rightarrow> clib_bitmap \<times> nat" where
  "bitmap_alu_loop f [] bi n = ([], n)"
| "bitmap_alu_loop f (a # ai) bi n =
    (let b = (case bi of [] \<Rightarrow> 0 | b # _ \<Rightarrow> b); a = f a b;
         (r, n) = bitmap_alu_loop f ai (tl bi) (if a \<noteq> 0 then 0 else n + 1)
     in (a # r, n))"

definition bitmap_alu :: "(u64 \<Rightarrow> u64 \<Rightarrow> u64) \<Rightarrow> bool \<Rightarrow> clib_bitmap \<Rightarrow> clib_bitmap \<Rightarrow> clib_bitmap" where
  "bitmap_alu f check_zero ai bi =
    (let ai = (if bi \<noteq> [] then clib_bitmap_vec_validate ai (length bi - 1) else ai);
         (r, n) = bitmap_alu_loop f ai bi 0
     in if check_zero then take (length r - n) r else r)"

definition clib_bitmap_and :: "clib_bitmap \<Rightarrow> clib_bitmap \<Rightarrow> clib_bitmap" where
  "clib_bitmap_and = bitmap_alu (\<lambda>a b. a AND b) True"

definition clib_bitmap_andnot :: "clib_bitmap \<Rightarrow> clib_bitmap \<Rightarrow> clib_bitmap" where
  "clib_bitmap_andnot = bitmap_alu (\<lambda>a b. a AND NOT b) True"

definition clib_bitmap_or :: "clib_bitmap \<Rightarrow> clib_bitmap \<Rightarrow> clib_bitmap" where
  "clib_bitmap_or = bitmap_alu (\<lambda>a b. a OR b) False"

definition clib_bitmap_xor :: "clib_bitmap \<Rightarrow> clib_bitmap \<Rightarrow> clib_bitmap" where
  "clib_bitmap_xor = bitmap_alu (\<lambda>a b. a XOR b) True"

text \<open>The operations with one bit as second operand.\<close>

definition bitmap_alui :: "(u64 \<Rightarrow> u64 \<Rightarrow> u64) \<Rightarrow> bool \<Rightarrow> clib_bitmap \<Rightarrow> nat \<Rightarrow> clib_bitmap" where
  "bitmap_alui f check_zero ai i =
    (let i0 = i div 64; i1 = i mod 64; ai = clib_bitmap_vec_validate ai i0;
         a = f (ai ! i0) (push_bit i1 1); ai = ai[i0 := a]
     in if check_zero \<and> a = 0 then clib_bitmap_remove_trailing_zeros ai else ai)"

definition clib_bitmap_andi :: "clib_bitmap \<Rightarrow> nat \<Rightarrow> clib_bitmap" where
  "clib_bitmap_andi = bitmap_alui (\<lambda>a b. a AND b) True"

definition clib_bitmap_andnoti :: "clib_bitmap \<Rightarrow> nat \<Rightarrow> clib_bitmap" where
  "clib_bitmap_andnoti = bitmap_alui (\<lambda>a b. a AND NOT b) True"

definition clib_bitmap_ori :: "clib_bitmap \<Rightarrow> nat \<Rightarrow> clib_bitmap" where
  "clib_bitmap_ori = bitmap_alui (\<lambda>a b. a OR b) False"

definition clib_bitmap_xori :: "clib_bitmap \<Rightarrow> nat \<Rightarrow> clib_bitmap" where
  "clib_bitmap_xori = bitmap_alui (\<lambda>a b. a XOR b) True"

text \<open>The search of \<open>next_set\<close> and \<open>next_clear\<close> over the words after the first one.\<close>

fun bitmap_search :: "nat \<Rightarrow> clib_bitmap \<Rightarrow> nat option" where
  "bitmap_search i0 [] = None"
| "bitmap_search i0 (t # ts) =
    (if t \<noteq> 0 then Some (log2_first_set t + i0 * 64) else bitmap_search (i0 + 1) ts)"

definition clib_bitmap_next_set :: "clib_bitmap \<Rightarrow> nat \<Rightarrow> nat" where
  "clib_bitmap_next_set ai i =
    (let i0 = i div 64; i1 = i mod 64
     in if i0 < length ai
        then let t = push_bit i1 (drop_bit i1 (ai ! i0))
             in if t \<noteq> 0 then log2_first_set t + i0 * 64
                else case bitmap_search (i0 + 1) (drop (i0 + 1) ai) of Some r \<Rightarrow> r | None \<Rightarrow> uword_max
        else uword_max)"

definition clib_bitmap_next_clear :: "clib_bitmap \<Rightarrow> nat \<Rightarrow> nat" where
  "clib_bitmap_next_clear ai i =
    (let i0 = i div 64; i1 = i mod 64
     in if i0 < length ai
        then let t = push_bit i1 (drop_bit i1 (NOT (ai ! i0)))
             in if t \<noteq> 0 then log2_first_set t + i0 * 64
                else case bitmap_search (i0 + 1) (map NOT (drop (i0 + 1) ai)) of Some r \<Rightarrow> r | None \<Rightarrow> i
        else i)"

section \<open>Bits of words\<close>

lemma takeWhile_search:
  assumes "\<exists>n<m. P n"
  shows "length (takeWhile (\<lambda>n. \<not> P n) [0..<m]) < m \<and> P (length (takeWhile (\<lambda>n. \<not> P n) [0..<m]))
    \<and> (\<forall>k < length (takeWhile (\<lambda>n. \<not> P n) [0..<m]). \<not> P k)"
proof -
  let ?l = "length (takeWhile (\<lambda>n. \<not> P n) [0..<m])"
  have lt: "?l < m"
  proof (rule ccontr)
    assume "\<not> ?l < m"
    then have "?l = m" using length_takeWhile_le [of "\<lambda>n. \<not> P n" "[0..<m]"] by simp
    then have "takeWhile (\<lambda>n. \<not> P n) [0..<m] = [0..<m]"
      by (subst takeWhile_eq_take) simp
    then have "\<forall>n\<in>set [0..<m]. \<not> P n" by (simp only: takeWhile_eq_all_conv)
    then show False using assms by auto
  qed
  then have "P ([0..<m] ! ?l)" using nth_length_takeWhile [of "\<lambda>n. \<not> P n" "[0..<m]"] by auto
  moreover have "\<not> P k" if "k < ?l" for k
  proof -
    have "takeWhile (\<lambda>n. \<not> P n) [0..<m] ! k \<in> set (takeWhile (\<lambda>n. \<not> P n) [0..<m])"
      using that by (rule nth_mem)
    moreover have "takeWhile (\<lambda>n. \<not> P n) [0..<m] ! k = k"
      using that lt by (simp add: takeWhile_nth)
    ultimately show ?thesis by (metis set_takeWhileD)
  qed
  ultimately show ?thesis using lt by simp
qed

lemma word_nonzero_bit: "x \<noteq> 0 \<longleftrightarrow> (\<exists>n<64. bit (x :: u64) n)"
  by (auto simp: bit_eq_iff bit_imp_le_length)

lemma log2_first_set_least:
  assumes "x \<noteq> 0"
  shows "log2_first_set x < 64" and "bit x (log2_first_set x)"
    and "k < log2_first_set x \<Longrightarrow> \<not> bit x k"
proof -
  have "log2_first_set x < 64 \<and> bit x (log2_first_set x) \<and> (\<forall>k < log2_first_set x. \<not> bit x k)"
    unfolding log2_first_set_def
    by (rule takeWhile_search) (use assms in \<open>simp only: word_nonzero_bit\<close>)
  then show "log2_first_set x < 64" and "bit x (log2_first_set x)"
    and "k < log2_first_set x \<Longrightarrow> \<not> bit x k" by blast+
qed

lemma log2_first_set_eqI:
  assumes "bit x n" and "\<And>k. k < n \<Longrightarrow> \<not> bit x k"
  shows "log2_first_set x = n"
proof -
  have "x \<noteq> 0" using assms(1) by auto
  then show ?thesis using log2_first_set_least [of x] assms by (meson linorder_neqE_nat)
qed

lemma count_leading_zeros_lt: "x \<noteq> 0 \<Longrightarrow> count_leading_zeros x < 64"
proof -
  assume "x \<noteq> 0"
  then obtain n where "n < 64" "bit x n" unfolding word_nonzero_bit by auto
  then have "\<exists>m<64. bit x (63 - m)" by (intro exI [of _ "63 - n"]) auto
  from takeWhile_search [OF this] show ?thesis unfolding count_leading_zeros_def by blast
qed

lemma min_log2_greatest:
  assumes "x \<noteq> 0"
  shows "min_log2 x < 64" and "bit x (min_log2 x)" and "min_log2 x < k \<Longrightarrow> \<not> bit x k"
proof -
  let ?c = "count_leading_zeros x"
  obtain n where n: "n < 64" "bit x n" using assms unfolding word_nonzero_bit by auto
  then have "\<exists>m<64. bit x (63 - m)" by (intro exI [of _ "63 - n"]) auto
  from takeWhile_search [OF this] have c: "?c < 64" "bit x (63 - ?c)" "\<forall>k < ?c. \<not> bit x (63 - k)"
    unfolding count_leading_zeros_def by auto
  have m: "min_log2 x = 63 - ?c" unfolding min_log2_def by simp
  show "min_log2 x < 64" "bit x (min_log2 x)" using c unfolding m by auto
  assume k: "min_log2 x < k"
  show "\<not> bit x k"
  proof
    assume b: "bit x k"
    then have "k < 64" using bit_imp_le_length by force
    moreover have "63 - k < ?c" using k c(1) \<open>k < 64\<close> unfolding m by linarith
    ultimately have "\<not> bit x (63 - (63 - k))" using c(3) by blast
    then show False using b \<open>k < 64\<close> by simp
  qed
qed

lemma bit_shl1_minus_1: "bit (push_bit n 1 - 1 :: u64) k \<longleftrightarrow> k < n \<and> k < 64"
  by (auto simp: push_bit_of_1 mask_eq_exp_minus_1 [symmetric] bit_mask_iff)

lemma bit_shl1: "bit (2 ^ n :: u64) k \<longleftrightarrow> k = n \<and> k < 64"
  by (auto simp: bit_exp_iff)

text \<open>Subtracting one from a word flips its lowest one-bit and the zeros below it.\<close>

lemma bit_minus_one:
  assumes "bit (x :: u64) n" and "\<And>k. k < n \<Longrightarrow> \<not> bit x k"
  shows "bit (x - 1) k \<longleftrightarrow> (if k < n then True else if k = n then False else bit x k)"
proof -
  have n: "n < 64" using assms(1) bit_imp_le_length by force
  let ?h = "x AND NOT (mask (n + 1)) :: u64"
  have "bit x k = bit (?h OR 2 ^ n) k" if "k < 64" for k
    using assms that by (cases k n rule: linorder_cases) (auto simp: bit_simps bit_shl1)
  then have "x = ?h OR 2 ^ n" by (intro bit_word_eqI) simp
  moreover have "?h AND 2 ^ n = 0"
    by (rule bit_word_eqI) (auto simp: bit_simps bit_shl1)
  ultimately have x: "x = ?h + 2 ^ n" by (simp add: disjunctive_add_eq_or)
  have "2 ^ n - 1 = (mask n :: u64)" by (simp add: mask_eq_exp_minus_1)
  then have "x - 1 = ?h + mask n" using x by (metis add_diff_eq)
  also have "\<dots> = ?h OR mask n"
    by (rule disjunctive_add_eq_or) (rule bit_word_eqI, auto simp: bit_simps)
  finally show ?thesis
    using n by (auto simp: bit_simps dest: bit_imp_le_length)
qed

lemma first_set_eq:
  assumes "x \<noteq> 0"
  shows "first_set x = 2 ^ log2_first_set x"
proof (rule bit_eqI)
  fix k
  assume k: "possible_bit TYPE(u64) k"
  note l = log2_first_set_least [OF assms]
  have "bit (- x) k \<longleftrightarrow> \<not> bit (x - 1) k"
    using k by (simp add: minus_eq_not_minus_1 bit_not_iff)
  then show "bit (first_set x) k = bit (2 ^ log2_first_set x :: u64) k"
    using l k unfolding first_set_def bit_minus_one [OF l(2,3)] bit_and_iff bit_shl1 
    by (auto simp: bit_minus_one [OF l(2,3)])
qed

lemma min_log2_shl1: "n < 64 \<Longrightarrow> min_log2 (2 ^ n) = n"
  using min_log2_greatest [of "2 ^ n"] by (auto simp: bit_shl1 word_nonzero_bit)

lemma min_log2_first_set: "x \<noteq> 0 \<Longrightarrow> min_log2 (first_set x) = log2_first_set x"
  by (simp add: first_set_eq min_log2_shl1 log2_first_set_least)

section \<open>The words of a bitmap\<close>

text \<open>\<open>wd ai k\<close> is word \<open>k\<close> with the implied zeros; the operations are described by it.\<close>

definition wd :: "clib_bitmap \<Rightarrow> nat \<Rightarrow> u64" where
  "wd ai k = (if k < length ai then ai ! k else 0)"

definition bits :: "clib_bitmap \<Rightarrow> nat set" where
  "bits ai = {i. clib_bitmap_get ai i}"

definition normal :: "clib_bitmap \<Rightarrow> bool" where
  "normal ai = (ai = [] \<or> last ai \<noteq> 0)"

named_theorems wd_simps

lemma get_iff: "clib_bitmap_get ai i \<longleftrightarrow> bit (wd ai (i div 64)) (i mod 64)"
  by (simp add: clib_bitmap_get_def wd_def and_one_eq bit_iff_odd_drop_bit odd_iff_mod_2_eq_one)

lemma bits_iff: "i \<in> bits ai \<longleftrightarrow> bit (wd ai (i div 64)) (i mod 64)"
  by (simp add: bits_def get_iff)

lemma div_mod_64_eq: "i div 64 = j div 64 \<and> i mod 64 = j mod 64 \<longleftrightarrow> i = (j :: nat)"
  by (metis div_mult_mod_eq)

lemma bits_word: "k < 64 \<Longrightarrow> w * 64 + k \<in> bits ai \<longleftrightarrow> bit (wd ai w) k"
  by (simp add: bits_iff)

lemma wd_empty [wd_simps, simp]: "wd [] k = 0"
  by (simp add: wd_def)

lemma bits_empty [simp]: "bits [] = {}"
  by (auto simp: bits_iff)

lemma length_validate [simp]: "length (clib_bitmap_vec_validate v i) = max (length v) (i + 1)"
  by (auto simp: clib_bitmap_vec_validate_def)

lemma wd_validate [wd_simps, simp]: "wd (clib_bitmap_vec_validate v i) k = wd v k"
  by (auto simp: clib_bitmap_vec_validate_def wd_def nth_append)

lemma nth_validate: "k \<le> i \<Longrightarrow> clib_bitmap_vec_validate v i ! k = wd v k"
  using wd_validate [of v i k] by (auto simp: wd_def simp del: wd_validate split: if_splits)

lemma wd_update [wd_simps]: "i < length ai \<Longrightarrow> wd (ai[i := a]) k = (if k = i then a else wd ai k)"
  by (auto simp: wd_def)

lemma wd_take: "(\<And>j. n \<le> j \<Longrightarrow> j < length r \<Longrightarrow> r ! j = 0) \<Longrightarrow> wd (take n r) k = wd r k"
  by (auto simp: wd_def)

lemma remove_trailing_zeros_snoc [simp]:
  "clib_bitmap_remove_trailing_zeros (a @ [x]) =
    (if x = 0 then clib_bitmap_remove_trailing_zeros a else a @ [x])"
  by (simp add: clib_bitmap_remove_trailing_zeros_def)

lemma wd_remove_trailing_zeros [wd_simps, simp]: "wd (clib_bitmap_remove_trailing_zeros a) k = wd a k"
proof (induction a rule: rev_induct)
  case (snoc x xs)
  have "wd (xs @ [0]) k = wd xs k" by (auto simp: wd_def nth_append)
  then show ?case using snoc by simp
qed (simp add: clib_bitmap_remove_trailing_zeros_def)

lemma normal_remove_trailing_zeros [simp]: "normal (clib_bitmap_remove_trailing_zeros a)"
  by (induction a rule: rev_induct) (simp_all add: normal_def clib_bitmap_remove_trailing_zeros_def)

lemma normal_update:
  assumes "normal ai" and "a \<noteq> 0"
  shows "normal ((clib_bitmap_vec_validate ai i)[i := a])"
proof -
  let ?v = "clib_bitmap_vec_validate ai i"
  have "?v \<noteq> []" by (auto simp flip: length_greater_0_conv)
  then have l: "last (?v[i := a]) = (if i = length ?v - 1 then a else last ?v)"
    by (auto simp: last_conv_nth nth_list_update)
  show ?thesis
  proof (cases "i < length ai")
    case True
    then have "?v = ai" by (simp add: clib_bitmap_vec_validate_def)
    then show ?thesis using assms True l by (auto simp: normal_def)
  next
    case False
    then have "i = length ?v - 1" by simp
    then show ?thesis using assms(2) l by (simp add: normal_def)
  qed
qed

text \<open>A normal bitmap is determined by its words, hence by its set.\<close>

lemma normal_wd_eqI:
  assumes "normal a" "normal b" and "\<And>k. wd a k = wd b k"
  shows "a = b"
proof -
  have le: "length x \<le> length y" if "normal x" "\<And>k. wd x k = wd y k" for x y :: clib_bitmap
  proof (rule ccontr)
    assume n: "\<not> length x \<le> length y"
    then have "x \<noteq> []" by auto
    then have "wd x (length x - 1) \<noteq> 0" using that(1) by (auto simp: normal_def wd_def last_conv_nth)
    moreover have "wd y (length x - 1) = 0" using n by (auto simp: wd_def)
    ultimately show False using that(2) by simp
  qed
  have "length a = length b" using le [of a b] le [of b a] assms by simp
  moreover from this have "a ! i = b ! i" if "i < length a" for i
    using that assms(3) [of i] by (simp add: wd_def)
  ultimately show ?thesis by (rule nth_equalityI)
qed

lemma bits_eq_wd: "bits a = bits b \<longleftrightarrow> (\<forall>k. wd a k = wd b k)"
proof
  assume e: "bits a = bits b"
  have "bit (wd a k) n = bit (wd b k) n" if "n < 64" for k n
    using e bits_word [OF that, of k a] bits_word [OF that, of k b] by simp
  then show "\<forall>k. wd a k = wd b k" by (auto intro!: bit_word_eqI)
qed (auto simp: bits_iff)

section \<open>Updates\<close>

lemma wd_set:
  "wd (clib_bitmap_set ai i v) k =
    (if k = i div 64 then (wd ai k AND NOT (2 ^ (i mod 64))) OR push_bit (i mod 64) (of_bool v) else wd ai k)"
  by (auto simp: clib_bitmap_set_def Let_def wd_simps nth_validate, auto simp: wd_def)

lemma bits_set: "bits (clib_bitmap_set ai i v) = (if v then insert i (bits ai) else bits ai - {i})"
proof -
  have "j \<in> bits (clib_bitmap_set ai i v) \<longleftrightarrow> (if j = i then v else j \<in> bits ai)" for j
    using div_mod_64_eq [of j i]
    by (auto simp: bits_iff wd_set bit_simps bit_shl1 bit_of_bool_iff possible_bit_def)
  then show ?thesis by (auto split: if_splits)
qed

lemma normal_set: "normal ai \<Longrightarrow> normal (clib_bitmap_set ai i v)"
  by (auto simp: clib_bitmap_set_def Let_def intro: normal_update)

lemma wd_alui:
  "wd (bitmap_alui f c ai i) k = (if k = i div 64 then f (wd ai k) (2 ^ (i mod 64)) else wd ai k)"
  by (auto simp: bitmap_alui_def Let_def wd_simps nth_validate)

lemma normal_alui:
  "normal ai \<Longrightarrow> c \<or> f (wd ai (i div 64)) (2 ^ (i mod 64)) \<noteq> 0 \<Longrightarrow> normal (bitmap_alui f c ai i)"
  by (auto simp: bitmap_alui_def Let_def nth_validate intro: normal_update)

lemma bits_ori: "bits (clib_bitmap_ori ai i) = insert i (bits ai)"
proof -
  have "j \<in> bits (clib_bitmap_ori ai i) \<longleftrightarrow> j = i \<or> j \<in> bits ai" for j
    using div_mod_64_eq [of j i] by (auto simp: bits_iff clib_bitmap_ori_def wd_alui bit_simps bit_shl1)
  then show ?thesis by auto
qed

lemma bits_andnoti: "bits (clib_bitmap_andnoti ai i) = bits ai - {i}"
proof -
  have "j \<in> bits (clib_bitmap_andnoti ai i) \<longleftrightarrow> j \<noteq> i \<and> j \<in> bits ai" for j
    using div_mod_64_eq [of j i] by (auto simp: bits_iff clib_bitmap_andnoti_def wd_alui bit_simps bit_shl1)
  then show ?thesis by auto
qed

lemma bits_xori: "bits (clib_bitmap_xori ai i) = (if i \<in> bits ai then bits ai - {i} else insert i (bits ai))"
proof -
  have "j \<in> bits (clib_bitmap_xori ai i) \<longleftrightarrow> (j \<in> bits ai) \<noteq> (j = i)" for j
    using div_mod_64_eq [of j i] by (auto simp: bits_iff clib_bitmap_xori_def wd_alui bit_simps bit_shl1)
  then show ?thesis by auto
qed

lemma normal_ori: "normal ai \<Longrightarrow> normal (clib_bitmap_ori ai i)"
proof -
  have "bit (wd ai (i div 64) OR 2 ^ (i mod 64)) (i mod 64)" by (simp add: bit_simps bit_shl1)
  then have "wd ai (i div 64) OR 2 ^ (i mod 64) \<noteq> 0" by auto
  then show "normal ai \<Longrightarrow> ?thesis" by (simp add: clib_bitmap_ori_def normal_alui)
qed

lemma normal_andnoti: "normal ai \<Longrightarrow> normal (clib_bitmap_andnoti ai i)"
  and normal_xori: "normal ai \<Longrightarrow> normal (clib_bitmap_xori ai i)"
  by (simp_all add: clib_bitmap_andnoti_def clib_bitmap_xori_def normal_alui)

section \<open>Two bitmaps\<close>

lemma length_alu_loop [simp]: "length (fst (bitmap_alu_loop f ai bi n)) = length ai"
  by (induction f ai bi n rule: bitmap_alu_loop.induct) (auto simp: Let_def split: prod.splits)

lemma wd_alu_loop:
  "wd (fst (bitmap_alu_loop f ai bi n)) k = (if k < length ai then f (wd ai k) (wd bi k) else 0)"
proof (induction f ai bi n arbitrary: k rule: bitmap_alu_loop.induct)
  case (2 f a ai bi n)
  have c: "wd (x # xs) k = (case k of 0 \<Rightarrow> x | Suc j \<Rightarrow> wd xs j)" for x xs k
    by (auto simp: wd_def split: nat.splits)
  have t: "wd (tl bi) j = wd bi (Suc j)" for j by (cases bi) (simp_all add: c)
  have h: "(case bi of [] \<Rightarrow> 0 | b # _ \<Rightarrow> b) = wd bi 0" by (cases bi) (simp_all add: c)
  show ?case
    using 2 by (auto simp: Let_def split_beta c t h split: nat.splits)
qed (simp add: wd_def)

text \<open>The counter: as many zero words at the end as were there before and all words are zero.\<close>

lemma alu_loop_zeros:
  "\<exists>m \<le> length ai. snd (bitmap_alu_loop f ai bi n) = (if m = length ai then n + m else m)
    \<and> (\<forall>k < length ai. length ai - m \<le> k \<longrightarrow> fst (bitmap_alu_loop f ai bi n) ! k = 0)
    \<and> (m < length ai \<longrightarrow> fst (bitmap_alu_loop f ai bi n) ! (length ai - m - 1) \<noteq> 0)"
proof (induction ai arbitrary: bi n)
  case (Cons a ai)
  let ?a = "f a (case bi of [] \<Rightarrow> 0 | b # _ \<Rightarrow> b)"
  let ?n = "if ?a \<noteq> 0 then 0 else n + 1"
  obtain m where m: "m \<le> length ai"
    "snd (bitmap_alu_loop f ai (tl bi) ?n) = (if m = length ai then ?n + m else m)"
    "\<forall>k < length ai. length ai - m \<le> k \<longrightarrow> fst (bitmap_alu_loop f ai (tl bi) ?n) ! k = 0"
    "m < length ai \<longrightarrow> fst (bitmap_alu_loop f ai (tl bi) ?n) ! (length ai - m - 1) \<noteq> 0"
    using Cons [of "tl bi" ?n] by blast
  have e: "bitmap_alu_loop f (a # ai) bi n =
    (?a # fst (bitmap_alu_loop f ai (tl bi) ?n), snd (bitmap_alu_loop f ai (tl bi) ?n))"
    by (simp add: Let_def split_beta)
  show ?case
  proof (cases "m = length ai")
    case True
    show ?thesis
    proof (cases "?a = 0")
      case True
      with \<open>m = length ai\<close> m show ?thesis
        unfolding e by (intro exI [of _ "Suc m"]) (auto simp: nth_Cons split: nat.splits)
    next
      case False
      with \<open>m = length ai\<close> m show ?thesis
        unfolding e by (intro exI [of _ m]) (auto simp: nth_Cons split: nat.splits)
    qed
  next
    case False
    then have "length (a # ai) - m = Suc (length ai - m)" "0 < length ai - m" using m(1) by auto
    with False m show ?thesis
      unfolding e by (intro exI [of _ m]) (auto simp: nth_Cons' Suc_le_eq less_Suc_eq_0_disj split: nat.splits)
  qed
qed simp

lemma wd_alu:
  assumes "f 0 0 = 0"
  shows "wd (bitmap_alu f c ai bi) k = f (wd ai k) (wd bi k)" and "c \<Longrightarrow> normal (bitmap_alu f c ai bi)"
proof -
  let ?ai = "if bi \<noteq> [] then clib_bitmap_vec_validate ai (length bi - 1) else ai"
  have l: "length bi \<le> length ?ai" by auto
  obtain m where m: "m \<le> length ?ai"
    "snd (bitmap_alu_loop f ?ai bi 0) = m"
    "\<forall>k < length ?ai. length ?ai - m \<le> k \<longrightarrow> fst (bitmap_alu_loop f ?ai bi 0) ! k = 0"
    "m < length ?ai \<longrightarrow> fst (bitmap_alu_loop f ?ai bi 0) ! (length ?ai - m - 1) \<noteq> 0"
    using alu_loop_zeros [of ?ai f bi 0] by (auto split: if_splits)
  let ?r = "fst (bitmap_alu_loop f ?ai bi 0)"
  have e: "bitmap_alu f c ai bi = (if c then take (length ?ai - m) ?r else ?r)"
    using m(2) by (simp add: bitmap_alu_def Let_def split_beta)
  have v: "wd ?ai k = wd ai k" by simp
  have "wd ?ai k = 0" "wd bi k = 0" if "\<not> k < length ?ai" using that l by (auto simp: wd_def)
  then have w: "wd ?r k = f (wd ai k) (wd bi k)"
    using assms v unfolding wd_alu_loop by metis
  have "wd (take (length ?ai - m) ?r) k = wd ?r k"
    by (rule wd_take) (use m(3) in simp)
  then show "wd (bitmap_alu f c ai bi) k = f (wd ai k) (wd bi k)" unfolding e using w by simp
  show "normal (bitmap_alu f c ai bi)" if c
  proof (cases "m < length ?ai")
    case True
    then have "last (take (length ?ai - m) ?r) = ?r ! (length ?ai - m - 1)"
      by (subst last_conv_nth) (auto simp flip: length_greater_0_conv)
    then show ?thesis using True m(4) that unfolding e by (simp add: normal_def)
  next
    case False
    then show ?thesis using that unfolding e by (simp add: normal_def)
  qed
qed

lemma bits_alu:
  "bits (clib_bitmap_and ai bi) = bits ai \<inter> bits bi"
  "bits (clib_bitmap_andnot ai bi) = bits ai - bits bi"
  "bits (clib_bitmap_or ai bi) = bits ai \<union> bits bi"
  "bits (clib_bitmap_xor ai bi) = (bits ai - bits bi) \<union> (bits bi - bits ai)"
  by (auto simp: set_eq_iff bits_iff clib_bitmap_and_def clib_bitmap_andnot_def clib_bitmap_or_def
      clib_bitmap_xor_def wd_alu bit_simps)

lemma normal_alu:
  "normal (clib_bitmap_and ai bi)" "normal (clib_bitmap_andnot ai bi)" "normal (clib_bitmap_xor ai bi)"
  by (simp_all add: clib_bitmap_and_def clib_bitmap_andnot_def clib_bitmap_xor_def wd_alu(2))

section \<open>Searches\<close>

lemma wd_Cons [simp]: "wd (x # xs) 0 = x" "wd (x # xs) (Suc k) = wd xs k"
  by (auto simp: wd_def)

lemma bit_word_search:
  assumes "t \<noteq> 0"
  shows "bit t (log2_first_set t)" and "log2_first_set t < 64"
    and "\<And>j. j < i0 * 64 + log2_first_set t \<Longrightarrow> i0 * 64 \<le> j \<Longrightarrow> \<not> bit t (j mod 64)"
proof -
  note l = log2_first_set_least [OF assms]
  show "bit t (log2_first_set t)" "log2_first_set t < 64" by (fact l)+
  fix j assume "j < i0 * 64 + log2_first_set t" "i0 * 64 \<le> j"
  then have "j mod 64 < log2_first_set t" using l(1) mod_if [of "j - i0 * 64" 64]
    by (metis add_diff_inverse_nat add_less_cancel_left linorder_not_less mod_less mod_mult_self3 order_less_trans)
  then show "\<not> bit t (j mod 64)" by (rule l(3))
qed

text \<open>\<open>bitmap_search i0 ts\<close> finds the lowest one-bit of the words \<open>ts\<close>, the first of which is word \<open>i0\<close>.\<close>

lemma bitmap_search_Some:
  "bitmap_search i0 ts = Some r \<Longrightarrow>
    i0 * 64 \<le> r \<and> r div 64 - i0 < length ts \<and> bit (ts ! (r div 64 - i0)) (r mod 64)
    \<and> (\<forall>j. i0 * 64 \<le> j \<and> j < r \<longrightarrow> \<not> bit (ts ! (j div 64 - i0)) (j mod 64))"
proof (induction i0 ts rule: bitmap_search.induct)
  case (2 i0 t ts)
  show ?case
  proof (cases "t = 0")
    case True
    then have IH: "(i0 + 1) * 64 \<le> r" "r div 64 - (i0 + 1) < length ts" "bit (ts ! (r div 64 - (i0 + 1))) (r mod 64)"
      "\<And>j. (i0 + 1) * 64 \<le> j \<Longrightarrow> j < r \<Longrightarrow> \<not> bit (ts ! (j div 64 - (i0 + 1))) (j mod 64)"
      using 2 by auto
    have "i0 + 1 \<le> r div 64" using IH(1) by (simp add: less_eq_div_iff_mult_less_eq)
    then have s: "r div 64 - i0 = Suc (r div 64 - (i0 + 1))" by simp
    have "\<not> bit ((t # ts) ! (j div 64 - i0)) (j mod 64)" if "i0 * 64 \<le> j" "j < r" for j
    proof (cases "j div 64 = i0")
      case True
      then show ?thesis using \<open>t = 0\<close> by simp
    next
      case False
      have "i0 \<le> j div 64" using that(1) by (simp add: less_eq_div_iff_mult_less_eq)
      then have "i0 + 1 \<le> j div 64" using False by simp
      moreover from this have "(i0 + 1) * 64 \<le> j" by (simp add: less_eq_div_iff_mult_less_eq)
      moreover from calculation have "j div 64 - i0 = Suc (j div 64 - (i0 + 1))" by simp
      ultimately show ?thesis using IH(4) that(2) by simp
    qed
    then show ?thesis using IH s by simp
  next
    case False
    then have r: "r = i0 * 64 + log2_first_set t" using 2 by simp
    note b = bit_word_search [OF False]
    have "j div 64 = i0" if "i0 * 64 \<le> j" "j \<le> r" for j using that r b(2) by auto
    then show ?thesis using r b by auto
  qed
qed simp

lemma bitmap_search_None: "bitmap_search i0 ts = None \<longleftrightarrow> (\<forall>t\<in>set ts. t = 0)"
  by (induction i0 ts rule: bitmap_search.induct) auto

text \<open>A search from bit \<open>i\<close> on: the first word with its low bits masked off, then the other words.\<close>

definition search_from :: "clib_bitmap \<Rightarrow> nat \<Rightarrow> nat option" where
  "search_from ai i = (if i div 64 < length ai
     then bitmap_search (i div 64) (push_bit (i mod 64) (drop_bit (i mod 64) (ai ! (i div 64))) # drop (i div 64 + 1) ai)
     else None)"

lemma next_set_search: "clib_bitmap_next_set ai i = (case search_from ai i of Some r \<Rightarrow> r | None \<Rightarrow> uword_max)"
  by (auto simp: clib_bitmap_next_set_def search_from_def Let_def)

lemma next_clear_search: "clib_bitmap_next_clear ai i = (case search_from (map NOT ai) i of Some r \<Rightarrow> r | None \<Rightarrow> i)"
  by (auto simp: clib_bitmap_next_clear_def search_from_def Let_def drop_map)

lemma masked_word: "bit (push_bit m (drop_bit m t) :: u64) k \<longleftrightarrow> m \<le> k \<and> bit t k"
  by (auto simp: bit_simps bit_imp_le_length possible_bit_def dest: bit_imp_le_length)

lemma search_from_words:
  fixes ai :: clib_bitmap
  assumes "i div 64 < length ai" and "i div 64 * 64 \<le> j"
  shows "bit ((push_bit (i mod 64) (drop_bit (i mod 64) (ai ! (i div 64))) # drop (i div 64 + 1) ai)
      ! (j div 64 - i div 64)) (j mod 64) \<longleftrightarrow> i \<le> j \<and> bit (ai ! (j div 64)) (j mod 64)"
proof -
  have le: "i div 64 \<le> j div 64" using assms(2) by (simp add: less_eq_div_iff_mult_less_eq)
  show ?thesis
  proof (cases "j div 64 = i div 64")
    case True
    then have "i \<le> j \<longleftrightarrow> i mod 64 \<le> j mod 64" by (metis add_le_cancel_left div_mult_mod_eq)
    then show ?thesis by (simp only: True diff_self_eq_0 nth_Cons_0 masked_word)
  next
    case False
    then obtain d where d: "j div 64 = i div 64 + Suc d" using le by (metis add_Suc_right less_imp_Suc_add nat_less_le)
    have "i \<le> j"
    proof (rule ccontr)
      assume "\<not> i \<le> j"
      then have "j div 64 \<le> i div 64" by (simp add: div_le_mono)
      then show False using d by linarith
    qed
    moreover have "j div 64 - i div 64 = Suc d" using d by linarith
    moreover have "drop (i div 64 + 1) ai ! d = ai ! (j div 64)" using d assms(1) by (simp only: nth_drop) simp
    ultimately show ?thesis by (simp only: nth_Cons_Suc) simp
  qed
qed

lemma search_from_Some:
  assumes "search_from ai i = Some r"
  shows "i \<le> r" and "r div 64 < length ai" and "bit (ai ! (r div 64)) (r mod 64)"
    and "\<And>j. i \<le> j \<Longrightarrow> j < r \<Longrightarrow> \<not> bit (ai ! (j div 64)) (j mod 64)"
proof -
  have i: "i div 64 < length ai" using assms by (auto simp: search_from_def split: if_splits)
  let ?ts = "push_bit (i mod 64) (drop_bit (i mod 64) (ai ! (i div 64))) # drop (i div 64 + 1) ai"
  have "bitmap_search (i div 64) ?ts = Some r" using assms i by (simp add: search_from_def)
  from bitmap_search_Some [OF this]
  have s: "i div 64 * 64 \<le> r" "r div 64 - i div 64 < length ?ts"
    "bit (?ts ! (r div 64 - i div 64)) (r mod 64)"
    "\<And>j. i div 64 * 64 \<le> j \<Longrightarrow> j < r \<Longrightarrow> \<not> bit (?ts ! (j div 64 - i div 64)) (j mod 64)" by auto
  show "i \<le> r" "bit (ai ! (r div 64)) (r mod 64)"
    using s(3) search_from_words [OF i s(1)] by auto
  have "i div 64 \<le> r div 64" using s(1) by (simp add: less_eq_div_iff_mult_less_eq)
  then show "r div 64 < length ai" using s(2) i by simp
  fix j assume j: "i \<le> j" "j < r"
  have "i div 64 * 64 \<le> i" by simp
  then have m: "i div 64 * 64 \<le> j" using j(1) by linarith
  show "\<not> bit (ai ! (j div 64)) (j mod 64)"
    using s(4) [OF m j(2)] search_from_words [OF i m] j(1) by blast
qed

lemma search_from_None:
  assumes "search_from ai i = None" and "i \<le> j" and "j div 64 < length ai"
  shows "\<not> bit (ai ! (j div 64)) (j mod 64)"
proof -
  have i: "i div 64 < length ai" using assms(2,3) by (meson div_le_mono le_less_trans)
  let ?ts = "push_bit (i mod 64) (drop_bit (i mod 64) (ai ! (i div 64))) # drop (i div 64 + 1) ai"
  have "bitmap_search (i div 64) ?ts = None" using assms(1) i by (simp only: search_from_def if_True)
  then have "\<forall>t\<in>set ?ts. t = 0" by (simp only: bitmap_search_None)
  moreover have "j div 64 - i div 64 < length ?ts" using assms(3) by simp
  ultimately have z: "?ts ! (j div 64 - i div 64) = 0" by (meson nth_mem)
  have "i div 64 * 64 \<le> i" by simp
  then have "i div 64 * 64 \<le> j" using assms(2) by linarith
  from search_from_words [OF i this] z assms(2) show ?thesis by simp
qed

lemma first_set_search: "bitmap_first_set_from i ai = (case bitmap_search i ai of Some r \<Rightarrow> r | None \<Rightarrow> uword_max)"
  by (induction i ai rule: bitmap_first_set_from.induct) (auto simp: add.commute)

lemma first_clear_search:
  "bitmap_first_clear_from i ai = (case bitmap_search i (map NOT ai) of Some r \<Rightarrow> r | None \<Rightarrow> (i + length ai) * 64)"
  by (induction i ai rule: bitmap_first_clear_from.induct) (auto simp: Let_def add.commute split: option.splits)

lemma clear_word_bit: "k < length ai \<Longrightarrow> bit (map NOT ai ! k :: u64) (n mod 64) \<longleftrightarrow> \<not> bit (ai ! k) (n mod 64)"
  by (simp add: bit_not_iff)

lemma bit_nth_bits: "i div 64 < length ai \<Longrightarrow> bit (ai ! (i div 64)) (i mod 64) \<longleftrightarrow> i \<in> bits ai"
  by (simp add: bits_iff wd_def)

lemma bits_bound: "i \<in> bits ai \<Longrightarrow> i div 64 < length ai"
  by (auto simp: bits_iff wd_def split: if_splits)

lemma first_set_least:
  "if bits ai = {} then clib_bitmap_first_set ai = uword_max
   else clib_bitmap_first_set ai \<in> bits ai \<and> (\<forall>j\<in>bits ai. clib_bitmap_first_set ai \<le> j)"
proof (cases "bitmap_search 0 ai")
  case None
  then have z: "\<forall>t\<in>set ai. t = 0" by (simp only: bitmap_search_None)
  have "ai ! k = 0" if "k < length ai" for k using z that by simp
  then have "j \<notin> bits ai" for j by (simp add: bits_iff wd_def)
  then have "bits ai = {}" by auto
  then show ?thesis using None by (simp add: clib_bitmap_first_set_def first_set_search)
next
  case (Some r)
  from bitmap_search_Some [OF this]
  have r: "r div 64 < length ai" "bit (ai ! (r div 64)) (r mod 64)"
    "\<And>j. j < r \<Longrightarrow> \<not> bit (ai ! (j div 64)) (j mod 64)" by auto
  have "r \<in> bits ai" using r by (simp add: bit_nth_bits)
  moreover have "r \<le> j" if "j \<in> bits ai" for j
    using r(3) [of j] that bits_bound [OF that] by (auto simp: bit_nth_bits not_less [symmetric])
  ultimately show ?thesis using Some by (auto simp: clib_bitmap_first_set_def first_set_search)
qed

lemma first_clear_least:
  "clib_bitmap_first_clear ai \<notin> bits ai \<and> (\<forall>j < clib_bitmap_first_clear ai. j \<in> bits ai)"
proof (cases "bitmap_search 0 (map NOT ai)")
  case None
  then have z: "\<forall>t\<in>set ai. NOT t = 0" by (simp add: bitmap_search_None)
  have "ai ! k = NOT 0" if "k < length ai" for k
    using z that by (metis bit.double_compl nth_mem)
  then have "j \<in> bits ai" if "j div 64 < length ai" for j
    using that by (simp add: bits_iff wd_def bit_simps)
  then have "j \<in> bits ai" if "j < length ai * 64" for j
    using that by (simp add: div_less_iff_less_mult)
  moreover have "length ai * 64 \<notin> bits ai" using bits_bound by fastforce
  ultimately show ?thesis using None by (simp add: clib_bitmap_first_clear_def first_clear_search)
next
  case (Some r)
  from bitmap_search_Some [OF this]
  have r: "r div 64 < length ai" "bit (map NOT ai ! (r div 64)) (r mod 64)"
    "\<And>j. j < r \<Longrightarrow> \<not> bit (map NOT ai ! (j div 64)) (j mod 64)" by auto
  have "r \<notin> bits ai" using r(1,2) unfolding clear_word_bit [OF r(1)] by (simp add: bit_nth_bits)
  moreover have "j \<in> bits ai" if "j < r" for j
  proof -
    have k: "j div 64 < length ai" using that r(1) by (meson div_le_mono le_less_trans less_imp_le)
    show ?thesis using r(3) [OF that] unfolding clear_word_bit [OF k] by (simp add: bit_nth_bits k)
  qed
  ultimately show ?thesis using Some by (auto simp: clib_bitmap_first_clear_def first_clear_search)
qed

lemma next_set_least:
  "if \<exists>j\<in>bits ai. i \<le> j
   then i \<le> clib_bitmap_next_set ai i \<and> clib_bitmap_next_set ai i \<in> bits ai
     \<and> (\<forall>j\<in>bits ai. i \<le> j \<longrightarrow> clib_bitmap_next_set ai i \<le> j)
   else clib_bitmap_next_set ai i = uword_max"
proof (cases "search_from ai i")
  case None
  then have "\<not> (\<exists>j\<in>bits ai. i \<le> j)"
    using search_from_None [OF None] bits_bound by (auto simp: bit_nth_bits)
  then show ?thesis using None by (simp add: next_set_search)
next
  case (Some r)
  note s = search_from_Some [OF Some]
  have "r \<in> bits ai" using s by (simp add: bit_nth_bits)
  moreover have "r \<le> j" if "j \<in> bits ai" "i \<le> j" for j
    using s(4) [of j] that bits_bound [of j ai] by (auto simp: bit_nth_bits not_less [symmetric])
  ultimately show ?thesis using Some s(1) by (auto simp: next_set_search)
qed

text \<open>The range that the words of a bitmap cover.\<close>

abbreviation (input) covered :: "clib_bitmap \<Rightarrow> nat" where
  "covered ai \<equiv> 64 * length ai"

lemma next_clear_least:
  "if covered ai \<le> i then clib_bitmap_next_clear ai i = i \<and> i \<notin> bits ai
   else if \<exists>j. i \<le> j \<and> j < covered ai \<and> j \<notin> bits ai
   then i \<le> clib_bitmap_next_clear ai i \<and> clib_bitmap_next_clear ai i \<notin> bits ai
     \<and> (\<forall>j. i \<le> j \<and> j < clib_bitmap_next_clear ai i \<longrightarrow> j \<in> bits ai)
   else clib_bitmap_next_clear ai i = i \<and> i \<in> bits ai"
proof (cases "search_from (map NOT ai) i")
  case None
  have b: "j \<in> bits ai" if "i \<le> j" "j < covered ai" for j
  proof -
    have k: "j div 64 < length ai" using that(2) by (simp add: div_less_iff_less_mult)
    then have "\<not> bit (map NOT ai ! (j div 64)) (j mod 64)"
      using search_from_None [OF None that(1)] by simp
    then show ?thesis unfolding clear_word_bit [OF k] by (simp add: bit_nth_bits k)
  qed
  show ?thesis using b bits_bound [of i ai] None by (auto simp: next_clear_search div_less_iff_less_mult)
next
  case (Some r)
  note s = search_from_Some [OF Some]
  have r: "r div 64 < length ai" using s(2) by simp
  have n: "r \<notin> bits ai" using s(3) unfolding clear_word_bit [OF r] by (simp add: bit_nth_bits r)
  have b: "j \<in> bits ai" if "i \<le> j" "j < r" for j
  proof -
    have k: "j div 64 < length ai" using that r by (meson div_le_mono le_less_trans less_imp_le)
    show ?thesis using s(4) [OF that] unfolding clear_word_bit [OF k] by (simp add: bit_nth_bits k)
  qed
  have "r < covered ai" using r by (simp add: div_less_iff_less_mult)
  then show ?thesis using Some s(1) n b by (auto simp: next_clear_search)
qed

lemma bitmap_next_clear_eq:
  shows "i < covered ai \<and> {i..<covered ai} \<subseteq> bits ai \<Longrightarrow> clib_bitmap_next_clear ai i = i"
    and "\<not> (i < covered ai \<and> {i..<covered ai} \<subseteq> bits ai) \<Longrightarrow>
      clib_bitmap_next_clear ai i = (LEAST j. i \<le> j \<and> j \<notin> bits ai)"
proof -
  show "clib_bitmap_next_clear ai i = i" if "i < covered ai \<and> {i..<covered ai} \<subseteq> bits ai"
    using that next_clear_least [of ai i] by (auto split: if_splits)
  assume n: "\<not> (i < covered ai \<and> {i..<covered ai} \<subseteq> bits ai)"
  show "clib_bitmap_next_clear ai i = (LEAST j. i \<le> j \<and> j \<notin> bits ai)"
  proof (rule Least_equality [symmetric])
    show "i \<le> clib_bitmap_next_clear ai i \<and> clib_bitmap_next_clear ai i \<notin> bits ai"
      using next_clear_least [of ai i] n by (auto split: if_splits)
    show "clib_bitmap_next_clear ai i \<le> j" if "i \<le> j \<and> j \<notin> bits ai" for j
      using next_clear_least [of ai i] n that by (auto simp: not_less [symmetric] split: if_splits)
  qed
qed

section \<open>Ranges of bits\<close>

lemma div_mod_add_64:
  fixes i k :: nat
  assumes "k < 64"
  shows "(i + k) div 64 = (if i mod 64 + k < 64 then i div 64 else i div 64 + 1)"
    and "(i + k) mod 64 = (if i mod 64 + k < 64 then i mod 64 + k else i mod 64 + k - 64)"
proof -
  define q r where "q = i div 64" and "r = i mod 64"
  have r: "r < 64" and i: "i = q * 64 + r" by (simp_all add: q_def r_def)
  have d: "(i + k) div 64 = (if r + k < 64 then q else q + 1)"
    using r assms i by (intro div_nat_eqI) auto
  moreover have "(i + k) mod 64 = (if r + k < 64 then r + k else r + k - 64)"
    using d r assms i div_mult_mod_eq [of "i + k" 64] by (auto split: if_splits)
  ultimately show "(i + k) div 64 = (if i mod 64 + k < 64 then i div 64 else i div 64 + 1)"
    and "(i + k) mod 64 = (if i mod 64 + k < 64 then i mod 64 + k else i mod 64 + k - 64)"
    unfolding q_def r_def by blast+
qed

lemma bit_exp_minus_1: "bit (2 ^ n - 1 :: u64) k \<longleftrightarrow> k < n \<and> k < 64"
  using bit_shl1_minus_1 [of n k] by (simp add: push_bit_of_1)

text \<open>Positions \<open>q * 64 + r\<close> and \<open>p * 64 + s\<close> relative to each other.\<close>

lemma range_arith:
  fixes r k n :: nat
  assumes "r < 64"
  shows "64 - r \<le> k \<longleftrightarrow> 64 \<le> r + k" and "64 - r \<le> k \<Longrightarrow> k - (64 - r) = r + k - 64"
    and "64 < r + n \<Longrightarrow> 64 - r \<le> k \<Longrightarrow> k - (64 - r) < n - (64 - r) \<longleftrightarrow> k < n"
  using assms by linarith+

lemma position_arith:
  fixes q r p s n :: nat
  assumes "r < 64" "s < 64" "n \<le> 64" and i: "i = q * 64 + r" and j: "j = p * 64 + s"
  shows "p = q \<Longrightarrow> (i \<le> j \<longleftrightarrow> r \<le> s) \<and> (j < i + n \<longleftrightarrow> s < r + n) \<and> j - i = s - r"
    and "p = q + 1 \<Longrightarrow> i \<le> j \<and> (j < i + n \<longleftrightarrow> 64 < r + n \<and> s < n - (64 - r)) \<and> j - i = 64 - r + s"
    and "p < q \<Longrightarrow> \<not> i \<le> j" and "q + 1 < p \<Longrightarrow> \<not> j < i + n"
  using assms by auto

lemma get_multiple_bits:
  assumes "n \<le> 64"
  shows "\<exists>r. clib_bitmap_get_multiple b i n = Some r \<and> (\<forall>k<64. bit r k \<longleftrightarrow> k < n \<and> i + k \<in> bits b)"
proof -
  let ?i0 = "i div 64" and ?i1 = "i mod 64"
  let ?m = "n - (64 - ?i1)"
  let ?lo = "if n < 64 then drop_bit ?i1 (wd b ?i0) AND (push_bit n 1 - 1) else drop_bit ?i1 (wd b ?i0)"
  let ?hi = "if 64 < ?i1 + n then push_bit (64 - ?i1) (wd b (?i0 + 1) AND (push_bit ?m 1 - 1)) else 0"
  have "clib_bitmap_get_multiple b i n = Some (?lo OR ?hi)"
    using assms by (auto simp: clib_bitmap_get_multiple_def Let_def wd_def)
  moreover have "bit (?lo OR ?hi) k \<longleftrightarrow> k < n \<and> i + k \<in> bits b" if "k < 64" for k
  proof -
    have i1: "?i1 < 64" by simp
    have lo: "bit ?lo k \<longleftrightarrow> k < n \<and> bit (wd b ?i0) (?i1 + k)"
      using assms that by (auto simp: bit_simps bit_exp_minus_1)
    have hi: "bit ?hi k \<longleftrightarrow> 64 \<le> ?i1 + k \<and> k < n \<and> bit (wd b (?i0 + 1)) (?i1 + k - 64)"
    proof (cases "64 < ?i1 + n")
      case True
      have "bit ?hi k \<longleftrightarrow> 64 - ?i1 \<le> k \<and> bit (wd b (?i0 + 1)) (k - (64 - ?i1)) \<and> k - (64 - ?i1) < ?m"
        using True that by (auto simp: bit_simps bit_exp_minus_1 possible_bit_def)
      moreover have "64 - ?i1 \<le> k \<longleftrightarrow> 64 \<le> ?i1 + k" "64 - ?i1 \<le> k \<Longrightarrow> k - (64 - ?i1) = ?i1 + k - 64"
        "64 - ?i1 \<le> k \<Longrightarrow> k - (64 - ?i1) < ?m \<longleftrightarrow> k < n"
        using range_arith(1-3) [OF i1] True by blast+
      ultimately show ?thesis by (simp only: conj_commute conj_left_commute cong: conj_cong)
    qed auto
    have "\<not> bit (wd b ?i0) (?i1 + k)" if "64 \<le> ?i1 + k"
      using that bit_imp_le_length [of "wd b ?i0" "?i1 + k"] by auto
    then show ?thesis
      unfolding bit_or_iff lo hi bits_iff div_mod_add_64 [OF that] by auto
  qed
  ultimately show ?thesis by blast
qed

lemma set_multiple_bits:
  assumes "n \<le> 64"
  shows "\<exists>b'. clib_bitmap_set_multiple b i v n = Some b'
    \<and> (\<forall>j. j \<in> bits b' \<longleftrightarrow> (if i \<le> j \<and> j < i + n then bit v (j - i) else j \<in> bits b))"
proof -
  let ?i0 = "i div 64" and ?i1 = "i mod 64"
  let ?v = "v AND (if n < 64 then push_bit n 1 - 1 else NOT 0)"
  let ?M = "if n < 64 then push_bit n 1 - 1 else NOT 0 :: u64"
  let ?b = "clib_bitmap_vec_validate b ((i + n) div 64)"
  let ?t = "(wd b ?i0 AND NOT (push_bit ?i1 ?M)) OR push_bit ?i1 ?v"
  let ?m = "n - (64 - ?i1)"
  let ?u = "(wd b (?i0 + 1) AND NOT (push_bit ?m 1 - 1)) OR drop_bit (64 - ?i1) ?v"
  let ?b' = "if 64 < ?i1 + n then ?b[?i0 := ?t, ?i0 + 1 := ?u] else ?b[?i0 := ?t]"
  have i1: "?i1 < 64" by simp
  have le: "?i0 \<le> (i + n) div 64" by (simp add: div_le_mono)
  have len: "64 < ?i1 + n \<Longrightarrow> ?i0 + 1 \<le> (i + n) div 64"
  proof -
    assume "64 < ?i1 + n"
    then have "?i0 * 64 + 64 \<le> i + n" using div_mult_mod_eq [of i 64] by linarith
    then show ?thesis by (simp add: less_eq_div_iff_mult_less_eq)
  qed
  have e: "clib_bitmap_set_multiple b i v n = Some ?b'"
    using assms le len by (auto simp: clib_bitmap_set_multiple_def Let_def nth_validate)
  have w: "wd ?b' k = (if k = ?i0 then ?t else if k = ?i0 + 1 \<and> 64 < ?i1 + n then ?u else wd b k)" for k
    using le len by (auto simp: wd_update)
  have M: "bit ?M k \<longleftrightarrow> k < n" if "k < 64" for k
    using that assms by (auto simp: bit_exp_minus_1 bit_simps)
  have V: "bit ?v k \<longleftrightarrow> k < n \<and> bit v k" if "k < 64" for k using M [OF that] by (simp only: bit_and_iff) auto
  have tb: "bit ?t k \<longleftrightarrow> (if ?i1 \<le> k \<and> k < ?i1 + n then bit v (k - ?i1) else bit (wd b ?i0) k)" if "k < 64" for k
    using that M [of "k - ?i1"] V [of "k - ?i1"]
    by (simp only: bit_or_iff bit_and_iff bit_not_iff bit_push_bit_iff possible_bit_def) auto
  have ub: "bit ?u k \<longleftrightarrow> (if k < ?m then bit v (64 - ?i1 + k) else bit (wd b (?i0 + 1)) k)" if "k < 64" "64 < ?i1 + n" for k
  proof (cases "64 - ?i1 + k < 64")
    case True
    then show ?thesis using that V [OF True]
      by (simp only: bit_or_iff bit_and_iff bit_not_iff bit_drop_bit_eq bit_shl1_minus_1 possible_bit_def o_def) auto
  next
    case False
    then have "\<not> bit (drop_bit (64 - ?i1) ?v) k" using bit_imp_le_length [of ?v "64 - ?i1 + k"] by (auto simp: bit_simps)
    then show ?thesis using that False assms
      by (simp only: bit_or_iff bit_and_iff bit_not_iff bit_shl1_minus_1 possible_bit_def) auto
  qed
  have "j \<in> bits ?b' \<longleftrightarrow> (if i \<le> j \<and> j < i + n then bit v (j - i) else j \<in> bits b)" for j
  proof -
    have jm: "j mod 64 < 64" by simp
    note pa = position_arith [OF i1 jm assms div_mult_mod_eq [symmetric] div_mult_mod_eq [symmetric]]
    consider "j div 64 = ?i0" | "j div 64 = ?i0 + 1" | "j div 64 < ?i0" | "?i0 + 1 < j div 64"
      by (metis less_add_one linorder_neqE_nat order_less_le Suc_eq_plus1 not_less_less_Suc_eq)
    then show ?thesis
    proof cases
      case 1
      then show ?thesis unfolding bits_iff w using tb [OF jm] pa(1) by (simp only: if_True refl)
    next
      case 2
      then show ?thesis unfolding bits_iff w using ub [OF jm] pa(2) [OF 2] by auto
    next
      case 3
      then show ?thesis unfolding bits_iff w using pa(3) by auto
    next
      case 4
      then show ?thesis unfolding bits_iff w using pa(4) by auto
    qed
  qed
  then show ?thesis using e by blast
qed

lemma length_set_region_words [simp]: "length (set_region_words b a k w) = length b"
  by (induction b a k w rule: set_region_words.induct) auto

lemma wd_set_region_words:
  "a + k \<le> length b \<Longrightarrow> wd (set_region_words b a k w) x = (if a \<le> x \<and> x < a + k then w else wd b x)"
  by (induction b a k w rule: set_region_words.induct) (auto simp: wd_update)

text \<open>The region operation is defined when the region crosses at most one word boundary.\<close>

lemma region_arith:
  fixes a0 a1 b0 b1 n p s :: nat
  assumes "a0 * 64 + a1 + n = b0 * 64 + b1" "a1 < 64" "b1 < 64" "s < 64"
  shows "b0 = a0 + 1 \<Longrightarrow> n - (64 - a1) = b1" and "a0 + 1 < b0 \<Longrightarrow> 64 \<le> n - (64 - a1)"
    and "p < a0 \<Longrightarrow> \<not> a0 * 64 + a1 \<le> p * 64 + s" and "b0 < p \<Longrightarrow> \<not> p * 64 + s < b0 * 64 + b1"
  using assms by auto

lemma wd_region_put:
  "a < length b \<Longrightarrow> wd (region_put b a v m) k =
    (if k = a then if v then wd b k OR m else wd b k AND NOT m else wd b k)"
  by (auto simp: region_put_def wd_update) (auto simp: wd_def)

lemma length_region_put [simp]: "length (region_put b a v m) = length b"
  by (simp add: region_put_def)

lemma set_region_bits:
  assumes "(i + n) div 64 \<le> i div 64 + 1"
  shows "\<exists>b'. clfib_bitmap_set_region b i v n = Some b'
    \<and> bits b' = (if v then bits b \<union> {i..<i + n} else bits b - {i..<i + n})"
proof -
  define a0 a1 b0 b1 where d: "a0 = i div 64" "a1 = i mod 64" "b0 = (i + n) div 64" "b1 = (i + n) mod 64"
  have i: "i = a0 * 64 + a1" "a1 < 64" and e: "i + n = b0 * 64 + b1" "b1 < 64"
    by (simp_all add: d)
  have le: "a0 \<le> b0" "b0 \<le> a0 + 1" using assms by (simp_all add: d div_le_mono)
  note ra = region_arith [of a0 a1 n b0 b1, OF _ i(2) e(2)]
  have n: "b0 = a0 + 1 \<Longrightarrow> n - (64 - a1) = b1" using ra(1) [of 0] e i by simp
  let ?M = "push_bit a1 (if n < 64 then push_bit n 1 - 1 else NOT 0) :: u64"
  let ?N = "push_bit b1 1 - 1 :: u64"
  let ?v = "clib_bitmap_vec_validate b b0"
  let ?b = "if b0 = a0 then region_put ?v a0 v ?M else region_put (region_put ?v a0 v ?M) b0 v ?N"
  have "b0 = a0 \<or> b0 = a0 + 1" using le by linarith
  then have f: "clfib_bitmap_set_region b i v n = Some ?b"
    using n e(2) by (auto simp: clfib_bitmap_set_region_def Let_def d [symmetric] pow2_mask_def)
  have w: "wd ?b x = (if x = a0 then if v then wd b x OR ?M else wd b x AND NOT ?M
     else if x = b0 then if v then wd b x OR ?N else wd b x AND NOT ?N else wd b x)" for x
    using le by (auto simp: wd_region_put)
  have M: "bit ?M k \<longleftrightarrow> a1 \<le> k \<and> k < a1 + n" if "k < 64" for k
    using that by (auto simp: bit_simps bit_exp_minus_1 possible_bit_def)
  have N: "bit ?N k \<longleftrightarrow> k < b1" if "k < 64" for k using that by (simp only: bit_shl1_minus_1) simp
  have "j \<in> bits ?b \<longleftrightarrow> (if i \<le> j \<and> j < i + n then v else j \<in> bits b)" for j
  proof -
    define p s where "p = j div 64" and "s = j mod 64"
    have j: "j = p * 64 + s" and s: "s < 64" by (simp_all add: p_def s_def)
    have bj: "j \<in> bits c \<longleftrightarrow> bit (wd c p) s" for c by (simp add: bits_iff p_def s_def)
    have put: "bit (if v then x OR m else x AND NOT m) s \<longleftrightarrow> (if bit m s then v else bit x s)" for x m :: u64
      using s by (simp add: bit_simps possible_bit_def)
    consider "p < a0" | "p = a0" | "p = a0 + 1" "b0 = a0 + 1" | "b0 < p" using le by linarith
    then show ?thesis
    proof cases
      case 1
      then have "\<not> i \<le> j" using ra(3) [OF _ s] e i unfolding j by simp
      then show ?thesis unfolding bj w using 1 le by simp
    next
      case 2
      then have "i \<le> j \<and> j < i + n \<longleftrightarrow> a1 \<le> s \<and> s < a1 + n" using i(1) j by auto
      then show ?thesis unfolding bj w using 2 put [of _ ?M] M [OF s] by (simp only: if_True refl)
    next
      case 3
      then have "i \<le> j" "j < i + n \<longleftrightarrow> s < b1" unfolding e(1) unfolding i(1) j using i(2) by auto
      then show ?thesis unfolding bj w using 3 put [of _ ?N] N [OF s] by (simp only: if_True refl) simp
    next
      case 4
      then have "\<not> j < i + n" using ra(4) [OF _ s] e i unfolding j by simp
      then show ?thesis unfolding bj w using 4 le by simp
    qed
  qed
  then have "bits ?b = (if v then bits b \<union> {i..<i + n} else bits b - {i..<i + n})" by (auto split: if_splits)
  with f show ?thesis by blast
qed

lemma set_region_undefined:
  assumes "i div 64 + 1 < (i + n) div 64"
  shows "clfib_bitmap_set_region b i v n = None"
proof -
  have "64 \<le> n - (64 - i mod 64)"
    by (rule region_arith(2) [of "i div 64" "i mod 64" n "(i + n) div 64" "(i + n) mod 64" 0]) (use assms in simp_all)
  then show ?thesis
    using assms by (auto simp: clfib_bitmap_set_region_def Let_def pow2_mask_def max_def split: option.splits)
qed

section \<open>Iteration and counting\<close>

lemma bit_lists_split:
  assumes "l < 64" and "\<And>k. k < l \<Longrightarrow> \<not> P k"
  shows "filter P [0..<64] = (if P l then [l] else []) @ filter P [l + 1..<64]"
proof -
  have "[0..<64] = [0..<l] @ l # [l + 1..<64]"
    using assms(1) upt_add_eq_append [of 0 l "64 - l"] upt_conv_Cons [of l 64] by (simp del: upt_rec_numeral)
  moreover have "filter P [0..<l] = []" using assms(2) by (simp add: filter_empty_conv)
  ultimately show ?thesis by simp
qed

lemma filter_first_set:
  assumes "a \<noteq> 0"
  shows "filter (bit a) [0..<64] = log2_first_set a # filter (bit (a XOR first_set a)) [0..<64]"
proof -
  note l = log2_first_set_least [OF assms]
  let ?l = "log2_first_set a" and ?x = "a XOR first_set a"
  have x: "bit ?x k \<longleftrightarrow> bit a k \<and> k \<noteq> ?l" if "k < 64" for k
    using that l(2) by (auto simp: first_set_eq [OF assms] bit_simps bit_shl1)
  have a: "filter (bit a) [0..<64] = ?l # filter (bit a) [?l + 1..<64]"
    using bit_lists_split [of ?l "bit a"] l by simp
  have "\<not> bit ?x k" if "k < ?l" for k using that l x [of k] by simp
  moreover have "\<not> bit ?x ?l" using x [OF l(1)] by simp
  ultimately have "filter (bit ?x) [0..<64] = filter (bit ?x) [?l + 1..<64]"
    using bit_lists_split [OF l(1), of "bit ?x"] by simp
  also have "\<dots> = filter (bit a) [?l + 1..<64]"
    by (rule filter_cong) (auto simp: x)
  finally show ?thesis using a by simp
qed

lemma foreach_word:
  "length (filter (bit a) [0..<64]) \<le> n \<Longrightarrow>
   bitmap_foreach_word n i a = map (\<lambda>k. i * 64 + k) (filter (bit a) [0..<64])"
proof (induction n arbitrary: a)
  case 0
  then show ?case by simp
next
  case (Suc n)
  show ?case
  proof (cases "a = 0")
    case False
    note f = filter_first_set [OF False]
    have "length (filter (bit (a XOR first_set a)) [0..<64]) \<le> n" using Suc.prems unfolding f by simp
    from Suc.IH [OF this] show ?thesis
      using False min_log2_first_set [OF False] unfolding f
      by (simp only: bitmap_foreach_word.simps Let_def if_False list.map)
  qed (simp add: filter_empty_conv)
qed

lemma foreach_word_64: "bitmap_foreach_word 64 i a = filter (\<lambda>j. bit a (j - i * 64)) [i * 64..<(i + 1) * 64]"
proof -
  have "length (filter (bit a) [0..<64]) \<le> 64" using length_filter_le [of "bit a" "[0..<64]"] by (simp del: upt_rec_numeral)
  then have "bitmap_foreach_word 64 i a = map (\<lambda>k. i * 64 + k) (filter (bit a) [0..<64])" by (rule foreach_word)
  also have "\<dots> = filter (\<lambda>j. bit a (j - i * 64)) (map (\<lambda>k. i * 64 + k) [0..<64])"
    by (simp only: filter_map o_def diff_add_inverse)
  also have "map (\<lambda>k. i * 64 + k) [0..<64] = [i * 64..<(i + 1) * 64]"
    using map_add_upt [of "i * 64" 64] by (simp only: add.commute add_mult_distrib mult_1)
  finally show ?thesis .
qed

lemma foreach_from:
  "bitmap_foreach_from i ai = filter (\<lambda>j. bit (wd ai (j div 64 - i)) (j mod 64)) [i * 64..<(i + length ai) * 64]"
proof (induction ai arbitrary: i)
  case (Cons a ai)
  have "[i * 64..<(i + length (a # ai)) * 64] = [i * 64..<(i + 1) * 64] @ [(i + 1) * 64..<(i + 1 + length ai) * 64]"
    using upt_add_eq_append [of "i * 64" "(i + 1) * 64" "length ai * 64"] by (simp add: add_mult_distrib algebra_simps)
  moreover have "filter (\<lambda>j. bit a (j - i * 64)) [i * 64..<(i + 1) * 64]
      = filter (\<lambda>j. bit (wd (a # ai) (j div 64 - i)) (j mod 64)) [i * 64..<(i + 1) * 64]"
  proof (rule filter_cong [OF refl])
    fix j assume "j \<in> set [i * 64..<(i + 1) * 64]"
    then have "i * 64 \<le> j" "j < i * 64 + 64" by auto
    then obtain k where "j = i * 64 + k" "k < 64" by (metis add_less_cancel_left le_Suc_ex)
    then show "bit a (j - i * 64) = bit (wd (a # ai) (j div 64 - i)) (j mod 64)" by simp
  qed
  moreover have "filter (\<lambda>j. bit (wd ai (j div 64 - (i + 1))) (j mod 64)) [(i + 1) * 64..<(i + 1 + length ai) * 64]
      = filter (\<lambda>j. bit (wd (a # ai) (j div 64 - i)) (j mod 64)) [(i + 1) * 64..<(i + 1 + length ai) * 64]"
  proof (rule filter_cong [OF refl])
    fix j assume "j \<in> set [(i + 1) * 64..<(i + 1 + length ai) * 64]"
    then have "(i + 1) * 64 \<le> j" by simp
    then have "i + 1 \<le> j div 64" by (simp add: less_eq_div_iff_mult_less_eq)
    then have "j div 64 - i = Suc (j div 64 - (i + 1))" by linarith
    then show "bit (wd ai (j div 64 - (i + 1))) (j mod 64) = bit (wd (a # ai) (j div 64 - i)) (j mod 64)" by simp
  qed
  ultimately show ?case
    by (simp only: bitmap_foreach_from.simps foreach_word_64 Cons.IH filter_append)
qed simp

lemma foreach_filter: "clib_bitmap_foreach ai = filter (\<lambda>j. j \<in> bits ai) [0..<64 * length ai]"
  using foreach_from [of 0 ai] by (simp add: clib_bitmap_foreach_def bits_iff mult.commute)

lemma set_foreach: "set (clib_bitmap_foreach ai) = bits ai"
  using bits_bound [of _ ai] by (auto simp: foreach_filter div_less_iff_less_mult mult.commute)

lemma finite_bits [simp]: "finite (bits ai)"
  by (metis set_foreach List.finite_set)

lemma count_foreach_from: "clib_bitmap_count_set_bits ai = length (bitmap_foreach_from i ai)"
proof (induction ai arbitrary: i)
  case (Cons a ai)
  have "length (bitmap_foreach_word 64 i a) = unat (count_set_bits a)"
    using length_filter_le [of "bit a" "[0..<64]"]
    by (subst foreach_word) (simp_all add: count_set_bits_eq del: upt_rec_numeral)
  then show ?case using Cons [of "i + 1"] by simp
qed simp

lemma count_card: "clib_bitmap_count_set_bits ai = card (bits ai)"
proof -
  have "distinct (clib_bitmap_foreach ai)" by (simp add: foreach_filter)
  then show ?thesis
    by (metis count_foreach_from clib_bitmap_foreach_def distinct_card set_foreach)
qed

lemma is_equal_iff: "clib_bitmap_is_equal a b \<longleftrightarrow> a = b"
proof -
  have "length a = length b \<Longrightarrow> bitmap_words_equal a b \<longleftrightarrow> a = b"
    by (induction a b rule: bitmap_words_equal.induct) auto
  then show ?thesis by (auto simp: clib_bitmap_is_equal_def)
qed

lemma last_set_upto:
  "n \<le> length ai \<Longrightarrow>
   (if \<exists>j\<in>bits ai. j < n * 64
    then bitmap_last_set_upto ai n \<in> bits ai \<and> (\<forall>j\<in>bits ai. j < n * 64 \<longrightarrow> j \<le> bitmap_last_set_upto ai n)
    else bitmap_last_set_upto ai n = uword_max)"
proof (induction n)
  case (Suc n)
  have lt: "j < Suc n * 64 \<longleftrightarrow> j < n * 64 \<or> j div 64 = n" for j by auto
  have bn: "j \<in> bits ai \<longleftrightarrow> bit (ai ! n) (j mod 64)" if "j div 64 = n" for j
    using that Suc.prems by (simp add: bits_iff wd_def)
  show ?case
  proof (cases "ai ! n = 0")
    case True
    then have "j \<notin> bits ai" if "j div 64 = n" for j using bn [OF that] by simp
    then have e: "(\<exists>j\<in>bits ai. j < Suc n * 64) \<longleftrightarrow> (\<exists>j\<in>bits ai. j < n * 64)"
      "(\<forall>j\<in>bits ai. j < Suc n * 64 \<longrightarrow> j \<le> m) \<longleftrightarrow> (\<forall>j\<in>bits ai. j < n * 64 \<longrightarrow> j \<le> m)" for m
      using lt by blast+
    have l: "bitmap_last_set_upto ai (Suc n) = bitmap_last_set_upto ai n" using True by simp
    show ?thesis unfolding e l by (rule Suc.IH [OF Suc_leD [OF Suc.prems]])
  next
    case False
    note g = min_log2_greatest [OF False]
    let ?r = "n * 64 + min_log2 (ai ! n)"
    have r: "bitmap_last_set_upto ai (Suc n) = ?r"
    proof -
      have "count_leading_zeros (ai ! n) \<le> 63"
        using count_leading_zeros_lt [OF False] by simp
      then show ?thesis using False by (simp add: Let_def min_log2_def)
    qed
    have "?r div 64 = n" "?r mod 64 = min_log2 (ai ! n)" using g(1) by simp_all
    then have "?r \<in> bits ai" "?r < Suc n * 64" using bn g(2) lt by metis+
    moreover have "j \<le> ?r" if "j \<in> bits ai" "j < Suc n * 64" for j
    proof (cases "j div 64 = n")
      case True
      then have "bit (ai ! n) (j mod 64)" using bn that(1) by blast
      then have "j mod 64 \<le> min_log2 (ai ! n)" using g(3) [of "j mod 64"] by (metis not_le)
      then show ?thesis using True div_mult_mod_eq [of j 64] by linarith
    next
      case False
      then show ?thesis using that(2) lt by (meson le_add1 less_imp_le order_trans)
    qed
    ultimately show ?thesis unfolding r by auto
  qed
qed simp

section \<open>The interface to clients\<close>

text \<open>What a client of bitmaps relies on: a set of indices with membership, insertion and removal.\<close>

locale index_set =
  fixes member :: "'s \<Rightarrow> nat \<Rightarrow> bool" and add :: "'s \<Rightarrow> nat \<Rightarrow> 's" and del :: "'s \<Rightarrow> nat \<Rightarrow> 's" and nil :: 's
  assumes member_nil: "\<not> member nil i"
    and member_add: "member (add s i) j \<longleftrightarrow> j = i \<or> member s j"
    and member_del: "member (del s i) j \<longleftrightarrow> j \<noteq> i \<and> member s j"
begin

definition elems :: "'s \<Rightarrow> nat set" where
  "elems s = {i. member s i}"

lemma elems_nil: "elems nil = {}"
  by (simp add: elems_def member_nil)

lemma elems_add: "elems (add s i) = insert i (elems s)"
  by (auto simp: elems_def member_add)

lemma elems_del: "elems (del s i) = elems s - {i}"
  by (auto simp: elems_def member_del)

lemma elems_add_list: "elems (foldl add s is) = elems s \<union> set is"
  by (induction "is" arbitrary: s) (auto simp: elems_add)

lemma del_add_fresh: "\<not> member s i \<Longrightarrow> elems (del (add s i) i) = elems s"
  by (auto simp: elems_def member_add member_del)

end

interpretation bm: index_set clib_bitmap_get clib_bitmap_ori clib_bitmap_andnoti "[]"
proof
  fix s i j
  show "\<not> clib_bitmap_get [] i" by (simp add: clib_bitmap_get_def)
  show "clib_bitmap_get (clib_bitmap_ori s i) j \<longleftrightarrow> j = i \<or> clib_bitmap_get s j"
    using bits_ori [of s i] by (auto simp: bits_def)
  show "clib_bitmap_get (clib_bitmap_andnoti s i) j \<longleftrightarrow> j \<noteq> i \<and> clib_bitmap_get s j"
    using bits_andnoti [of s i] by (auto simp: bits_def)
qed

lemma bm_elems: "bm.elems = bits"
  by (rule ext) (simp add: bm.elems_def bits_def)

section \<open>Properties\<close>

text \<open>
  The single-bit updates are insertion, removal and toggling on the set of a bitmap, and they
  keep bitmaps normal, that is without zero words at the end.
\<close>

theorem bitmap_updates_refine_sets:
  "bits (clib_bitmap_set ai i v) = (if v then insert i (bits ai) else bits ai - {i})
   \<and> bits (clib_bitmap_ori ai i) = insert i (bits ai)
   \<and> bits (clib_bitmap_andnoti ai i) = bits ai - {i}
   \<and> bits (clib_bitmap_xori ai i) = (if i \<in> bits ai then bits ai - {i} else insert i (bits ai))
   \<and> (normal ai \<longrightarrow> normal (clib_bitmap_set ai i v) \<and> normal (clib_bitmap_ori ai i)
        \<and> normal (clib_bitmap_andnoti ai i) \<and> normal (clib_bitmap_xori ai i))"
  by (simp add: bits_set bits_ori bits_andnoti bits_xori normal_set normal_ori normal_andnoti normal_xori)

theorem bitmap_updates_refine_sets_witness:
  "normal [5] \<and> normal (clib_bitmap_set [5] 70 True) \<and> bits (clib_bitmap_set [5] 70 True) = insert 70 (bits [5])"
proof -
  have "normal [5]" by (simp add: normal_def)
  then show ?thesis using bitmap_updates_refine_sets [of "[5]" 70 True] by simp
qed

text \<open>
  The operations on two bitmaps of any lengths are intersection, difference, union and
  symmetric difference, and those that may clear bits return normal bitmaps.
\<close>

theorem bitmap_alu_refines_sets:
  "bits (clib_bitmap_and ai bi) = bits ai \<inter> bits bi
   \<and> bits (clib_bitmap_andnot ai bi) = bits ai - bits bi
   \<and> bits (clib_bitmap_or ai bi) = bits ai \<union> bits bi
   \<and> bits (clib_bitmap_xor ai bi) = (bits ai - bits bi) \<union> (bits bi - bits ai)
   \<and> normal (clib_bitmap_and ai bi) \<and> normal (clib_bitmap_andnot ai bi) \<and> normal (clib_bitmap_xor ai bi)"
  by (simp add: bits_alu normal_alu)

text \<open>
  Writing up to 64 bits anywhere in a bitmap and reading them back gives the written bits,
  also across a word boundary, and leaves every other bit alone.
\<close>

theorem bitmap_multiple_roundtrip:
  assumes "n \<le> 64"
  shows "\<exists>b'. clib_bitmap_set_multiple b i v n = Some b'
    \<and> clib_bitmap_get_multiple b' i n = Some (take_bit n v)
    \<and> bits b' - {i..<i + n} = bits b - {i..<i + n}"
proof -
  obtain b' where s: "clib_bitmap_set_multiple b i v n = Some b'"
    and b: "\<And>j. j \<in> bits b' \<longleftrightarrow> (if i \<le> j \<and> j < i + n then bit v (j - i) else j \<in> bits b)"
    using set_multiple_bits [OF assms, of b i v] by blast
  obtain r where g: "clib_bitmap_get_multiple b' i n = Some r"
    and r: "\<And>k. k < 64 \<Longrightarrow> bit r k \<longleftrightarrow> k < n \<and> i + k \<in> bits b'"
    using get_multiple_bits [OF assms, of b' i] by blast
  have "r = take_bit n v"
    by (rule bit_word_eqI) (auto simp: bit_take_bit_iff r b)
  moreover have "bits b' - {i..<i + n} = bits b - {i..<i + n}" by (auto simp: b)
  ultimately show ?thesis using s g by blast
qed

theorem bitmap_multiple_roundtrip_witness:
  "\<exists>b'. clib_bitmap_set_multiple [3] 60 0xab 8 = Some b' \<and> clib_bitmap_get_multiple b' 60 8 = Some 0xab"
  using bitmap_multiple_roundtrip [of 8 "[3]" 60 "0xab"] by (auto simp: take_bit_eq_mod)

text \<open>
  Iteration with \<open>clib_bitmap_foreach\<close> visits exactly the set bits, each once and in increasing
  order, and \<open>clib_bitmap_count_set_bits\<close> is their number.
\<close>

theorem bitmap_foreach_sorted:
  "clib_bitmap_foreach ai = sorted_list_of_set (bits ai)
   \<and> clib_bitmap_count_set_bits ai = length (clib_bitmap_foreach ai)"
proof -
  have "sorted (clib_bitmap_foreach ai)" "distinct (clib_bitmap_foreach ai)"
    by (simp_all add: foreach_filter sorted_wrt_filter)
  then have "clib_bitmap_foreach ai = sorted_list_of_set (bits ai)"
    by (metis set_foreach sorted_list_of_set.idem_if_sorted_distinct)
  then show ?thesis by (simp add: count_card)
qed

text \<open>
  The searches return the lowest set bit (\<open>first_set\<close>), the lowest set bit from \<open>i\<close> on
  (\<open>next_set\<close>), the highest set bit (\<open>last_set\<close>), or \<open>~0\<close> when there is none, and the lowest clear bit
  (\<open>first_clear\<close>).
\<close>

theorem bitmap_searches:
  "(if bits ai = {} then clib_bitmap_first_set ai = uword_max \<and> clib_bitmap_last_set ai = uword_max
    else clib_bitmap_first_set ai = Min (bits ai) \<and> clib_bitmap_last_set ai = Max (bits ai))
   \<and> clib_bitmap_next_set ai i =
       (if {j \<in> bits ai. i \<le> j} = {} then uword_max else Min {j \<in> bits ai. i \<le> j})
   \<and> clib_bitmap_first_clear ai = (LEAST j. j \<notin> bits ai)"
proof -
  have f: "bits ai \<noteq> {} \<Longrightarrow> clib_bitmap_first_set ai = Min (bits ai)"
    using first_set_least [of ai] by (intro Min_eqI [symmetric]) auto
  have b: "j < length ai * 64" if "j \<in> bits ai" for j
    using bits_bound [OF that] by (simp add: div_less_iff_less_mult)
  have l: "bits ai \<noteq> {} \<Longrightarrow> clib_bitmap_last_set ai = Max (bits ai)"
    using last_set_upto [of "length ai" ai] b unfolding clib_bitmap_last_set_def
    by (intro Max_eqI [symmetric]) (auto split: if_splits)
  have "bits ai = {} \<Longrightarrow> clib_bitmap_last_set ai = uword_max"
    using last_set_upto [of "length ai" ai] by (simp add: clib_bitmap_last_set_def)
  moreover have "clib_bitmap_next_set ai i =
       (if {j \<in> bits ai. i \<le> j} = {} then uword_max else Min {j \<in> bits ai. i \<le> j})"
  proof (cases "{j \<in> bits ai. i \<le> j} = {}")
    case False
    then have "clib_bitmap_next_set ai i = Min {j \<in> bits ai. i \<le> j}"
      using next_set_least [of ai i] by (intro Min_eqI [symmetric]) (auto split: if_splits)
    then show ?thesis by (simp only: False if_False)
  qed (use next_set_least [of ai i] in auto)
  moreover have "clib_bitmap_first_clear ai = (LEAST j. j \<notin> bits ai)"
    using first_clear_least [of ai] by (intro Least_equality [symmetric]) (auto simp: not_less [symmetric])
  ultimately show ?thesis using f l first_set_least [of ai] by auto
qed

text \<open>
  \<open>clib_bitmap_next_clear\<close> returns the first clear bit at or after \<open>i\<close>, except when all bits from
  \<open>i\<close> to the end of the vector are set: then it returns \<open>i\<close>, which is set.
\<close>

theorem bitmap_next_clear_cases:
  "(if i < covered ai \<and> {i..<covered ai} \<subseteq> bits ai
    then clib_bitmap_next_clear ai i = i \<and> i \<in> bits ai
    else clib_bitmap_next_clear ai i = (LEAST j. i \<le> j \<and> j \<notin> bits ai))"
proof (cases "i < covered ai \<and> {i..<covered ai} \<subseteq> bits ai")
  case True
  then show ?thesis using bitmap_next_clear_eq(1) [OF True] by auto
next
  case False
  then show ?thesis using bitmap_next_clear_eq(2) [OF False] by (simp only: if_False)
qed

text \<open>
  Comparison of bitmaps decides equality of sets on normal bitmaps; a region of bits that
  reaches over at most one word boundary is set or cleared exactly, and a longer region runs into
  an undefined shift.
\<close>

theorem bitmap_equal_and_region:
  "(normal a \<and> normal b \<longrightarrow> clib_bitmap_is_equal a b = (bits a = bits b))
   \<and> (if (i + n) div 64 \<le> i div 64 + 1
      then \<exists>b'. clfib_bitmap_set_region b i v n = Some b'
        \<and> bits b' = (if v then bits b \<union> {i..<i + n} else bits b - {i..<i + n})
      else clfib_bitmap_set_region b i v n = None)"
proof -
  have "clib_bitmap_is_equal a b = (bits a = bits b)" if "normal a" "normal b"
    using normal_wd_eqI [OF that] by (auto simp: is_equal_iff bits_eq_wd)
  moreover have "clfib_bitmap_set_region b i v n = None" if "\<not> (i + n) div 64 \<le> i div 64 + 1"
    by (rule set_region_undefined) (use that in simp)
  ultimately show ?thesis using set_region_bits [of i n b v] by (simp del: One_nat_def)
qed

theorem bitmap_equal_and_region_witness:
  "normal [1] \<and> normal [3] \<and> clib_bitmap_is_equal [1] [3] = (bits [1] = bits [3])
   \<and> (\<exists>b'. clfib_bitmap_set_region [3] 60 True 10 = Some b' \<and> bits b' = bits [3] \<union> {60..<70})"
  using bitmap_equal_and_region [of "[1]" "[3]" 60 10 True] by (simp add: normal_def)

end
