(* ===== verification/Pool.thy ===== *)
theory Pool
  imports Bitmap
begin

text \<open>
  The pools of \<^verbatim>\<open>vppinfra/pool.h\<close>: a vector of elements with a bitmap and a stack of the free
  indices. A null pool and an empty one behave alike. \<open>pool_get\<close> returns an element as its index;
  the contents of a newly appended element are whatever the memory held, an argument of the
  operation, and a reused element keeps its old contents. A failed assertion is \<open>None\<close>. The
  contract that clients rely on is the locale \<open>allocator\<close>.
\<close>

section \<open>State and operations\<close>

record 'a pool =
  pool_vec :: "'a list"
  free_bitmap :: clib_bitmap
  free_indices :: "nat list"

definition pool_null :: "'a pool" where
  "pool_null = \<lparr>pool_vec = [], free_bitmap = [], free_indices = []\<rparr>"

definition pool_validate :: "'a pool \<Rightarrow> bool" where
  "pool_validate p =
    (clib_bitmap_count_set_bits (free_bitmap p) = length (free_indices p)
     \<and> list_all (clib_bitmap_get (free_bitmap p)) (free_indices p))"

definition pool_elts :: "'a pool \<Rightarrow> nat" where
  "pool_elts p = length (pool_vec p) - length (free_indices p)"

definition pool_get :: "'a \<Rightarrow> 'a pool \<Rightarrow> 'a pool \<times> nat" where
  "pool_get memory p =
    (let l = length (free_indices p)
     in if 0 < l
        then let i = free_indices p ! (l - 1)
             in (p\<lparr>free_bitmap := clib_bitmap_andnoti (free_bitmap p) i,
                   free_indices := take (l - 1) (free_indices p)\<rparr>, i)
        else (p\<lparr>pool_vec := pool_vec p @ [memory]\<rparr>, length (pool_vec p)))"

definition pool_is_free_index :: "'a pool \<Rightarrow> nat \<Rightarrow> bool" where
  "pool_is_free_index p i = (if i < length (pool_vec p) then clib_bitmap_get (free_bitmap p) i else True)"

definition pool_put_index :: "'a pool \<Rightarrow> nat \<Rightarrow> 'a pool option" where
  "pool_put_index p i =
    (if \<not> i < length (pool_vec p) \<or> pool_is_free_index p i then None
     else Some (p\<lparr>free_bitmap := clib_bitmap_ori (free_bitmap p) i, free_indices := free_indices p @ [i]\<rparr>))"

definition pool_elt_at_index :: "'a pool \<Rightarrow> nat \<Rightarrow> 'a option" where
  "pool_elt_at_index p i = (if pool_is_free_index p i then None else Some (pool_vec p ! i))"

text \<open>A store through the pointer that \<open>pool_elt_at_index\<close> returns.\<close>

definition pool_store :: "'a pool \<Rightarrow> nat \<Rightarrow> 'a \<Rightarrow> 'a pool" where
  "pool_store p i x = p\<lparr>pool_vec := (pool_vec p)[i := x]\<rparr>"

text \<open>The chunks \<open>(lo, hi)\<close> of used elements that \<open>pool_foreach_region\<close> runs its body on: every set
  bit of the free bitmap ends a chunk, and so does the end of the vector.\<close>

fun pool_region_word :: "nat \<Rightarrow> nat \<Rightarrow> u64 \<Rightarrow> nat \<Rightarrow> (nat \<times> nat) list \<times> nat" where
  "pool_region_word 0 i m lo = ([], lo)"
| "pool_region_word (Suc n) i m lo =
    (if m \<noteq> 0
     then let f = first_set m; hi = i * 64 + min_log2 f; m = m XOR f;
              (chunks, lo') = pool_region_word n i m (hi + 1)
          in (if lo < hi then (lo, hi) # chunks else chunks, lo')
     else ([], lo))"

fun pool_region_words :: "nat \<Rightarrow> clib_bitmap \<Rightarrow> nat \<Rightarrow> nat \<Rightarrow> (nat \<times> nat) list" where
  "pool_region_words i [] len lo = (if lo < len then [(lo, len)] else [])"
| "pool_region_words i (m # b) len lo =
    (let (chunks, lo) = pool_region_word 64 i m lo in chunks @ pool_region_words (i + 1) b len lo)"

definition pool_foreach_region :: "'a pool \<Rightarrow> (nat \<times> nat) list" where
  "pool_foreach_region p = pool_region_words 0 (free_bitmap p) (length (pool_vec p)) 0"

text \<open>The indices that the iterations run their bodies on.\<close>

definition pool_foreach :: "'a pool \<Rightarrow> nat list" where
  "pool_foreach p = concat (map (\<lambda>(lo, hi). [lo..<hi]) (pool_foreach_region p))"

definition pool_foreach_index :: "'a pool \<Rightarrow> nat list" where
  "pool_foreach_index p = filter (\<lambda>i. \<not> pool_is_free_index p i) [0..<length (pool_vec p)]"

definition pool_next_index :: "'a pool \<Rightarrow> nat \<Rightarrow> nat" where
  "pool_next_index p i =
    (let rv = i + 1
     in if rv < length (pool_vec p) then clib_bitmap_next_clear (free_bitmap p) rv else uword_max)"

fun pool_flush_list :: "'a pool \<Rightarrow> nat list \<Rightarrow> 'a pool option" where
  "pool_flush_list p [] = Some p"
| "pool_flush_list p (i # is) =
    (case pool_elt_at_index p i of None \<Rightarrow> None
     | Some _ \<Rightarrow> (case pool_put_index p i of None \<Rightarrow> None | Some p \<Rightarrow> pool_flush_list p is))"

definition pool_flush :: "'a pool \<Rightarrow> 'a pool option" where
  "pool_flush p = pool_flush_list p (pool_foreach p)"

section \<open>The contract of an allocator\<close>

locale allocator =
  fixes inv :: "'p \<Rightarrow> bool" and live :: "'p \<Rightarrow> nat set" and elt :: "'p \<Rightarrow> nat \<Rightarrow> 'a option"
    and get :: "'a \<Rightarrow> 'p \<Rightarrow> 'p \<times> nat" and put :: "'p \<Rightarrow> nat \<Rightarrow> 'p option"
  assumes elt_live: "inv p \<Longrightarrow> elt p i \<noteq> None \<longleftrightarrow> i \<in> live p"
    and get_inv: "inv p \<Longrightarrow> get m p = (p', i) \<Longrightarrow> inv p'"
    and get_fresh: "inv p \<Longrightarrow> get m p = (p', i) \<Longrightarrow> i \<notin> live p"
    and get_live: "inv p \<Longrightarrow> get m p = (p', i) \<Longrightarrow> live p' = insert i (live p)"
    and get_frame: "inv p \<Longrightarrow> get m p = (p', i) \<Longrightarrow> j \<in> live p \<Longrightarrow> elt p' j = elt p j"
    and put_live: "inv p \<Longrightarrow> i \<in> live p \<Longrightarrow>
      \<exists>p'. put p i = Some p' \<and> inv p' \<and> live p' = live p - {i} \<and> (\<forall>j\<in>live p'. elt p' j = elt p j)"
    and put_dead: "inv p \<Longrightarrow> i \<notin> live p \<Longrightarrow> put p i = None"
begin

lemma put_get:
  assumes "inv p" and "get m p = (p', i)"
  shows "\<exists>p''. put p' i = Some p'' \<and> inv p'' \<and> live p'' = live p \<and> (\<forall>j\<in>live p. elt p'' j = elt p j)"
proof -
  have l: "inv p'" "live p' = insert i (live p)" "i \<notin> live p"
    using get_inv [OF assms] get_live [OF assms] get_fresh [OF assms] by auto
  then obtain p'' where "put p' i = Some p''" "inv p''" "live p'' = live p' - {i}" "\<forall>j\<in>live p''. elt p'' j = elt p' j"
    using put_live [of p' i] by auto
  then show ?thesis using l get_frame [OF assms] by auto
qed

lemma put_twice:
  assumes "inv p" and "put p i = Some p'"
  shows "put p' i = None"
proof -
  have "i \<in> live p" using put_dead [OF assms(1)] assms(2) by force
  then have "inv p'" "i \<notin> live p'" using put_live [OF assms(1)] assms(2) by force+
  then show ?thesis by (rule put_dead)
qed

fun puts :: "'p \<Rightarrow> nat list \<Rightarrow> 'p option" where
  "puts p [] = Some p"
| "puts p (i # is) = (case put p i of None \<Rightarrow> None | Some p \<Rightarrow> puts p is)"

lemma puts_live:
  "inv p \<Longrightarrow> distinct is \<Longrightarrow> set is \<subseteq> live p \<Longrightarrow>
   \<exists>p'. puts p is = Some p' \<and> inv p' \<and> live p' = live p - set is"
proof (induction "is" arbitrary: p)
  case (Cons i "is")
  then obtain q where "put p i = Some q" "inv q" "live q = live p - {i}" using put_live [of p i] by auto
  note q = this
  have "distinct is" "set is \<subseteq> live q" using Cons.prems q(3) by auto
  from Cons.IH [OF q(2) this] obtain r where "puts q is = Some r" "inv r" "live r = live q - set is" by blast
  then show ?case using q by auto
qed simp

end

section \<open>Pools are allocators\<close>

definition pool_live :: "'a pool \<Rightarrow> nat set" where
  "pool_live p = {i. \<not> pool_is_free_index p i}"

definition pool_ok :: "'a pool \<Rightarrow> bool" where
  "pool_ok p = (distinct (free_indices p) \<and> set (free_indices p) = bits (free_bitmap p)
     \<and> bits (free_bitmap p) \<subseteq> {..<length (pool_vec p)})"

lemma pool_live_iff: "i \<in> pool_live p \<longleftrightarrow> i < length (pool_vec p) \<and> i \<notin> bits (free_bitmap p)"
  by (auto simp: pool_live_def pool_is_free_index_def bits_def)

lemma pool_is_free_iff: "pool_is_free_index p i \<longleftrightarrow> i \<notin> pool_live p"
  by (simp add: pool_live_def)

lemma pool_ok_null [simp]: "pool_ok pool_null" and pool_live_null [simp]: "pool_live pool_null = {}"
  by (auto simp: pool_ok_def pool_null_def pool_live_iff)

lemma pool_elt_live: "pool_elt_at_index p i = (if i \<in> pool_live p then Some (pool_vec p ! i) else None)"
  by (simp add: pool_elt_at_index_def pool_is_free_iff)

lemma pool_get_cases:
  assumes "pool_ok p" and "pool_get m p = (p', i)"
  obtains (reuse) fs where "free_indices p = fs @ [i]" and "i \<in> bits (free_bitmap p)"
      and "p' = p\<lparr>free_bitmap := clib_bitmap_andnoti (free_bitmap p) i, free_indices := fs\<rparr>"
  | (grow) "free_indices p = []" and "i = length (pool_vec p)" and "p' = p\<lparr>pool_vec := pool_vec p @ [m]\<rparr>"
proof (cases "free_indices p" rule: rev_cases)
  case Nil
  then show ?thesis using grow assms(2) by (auto simp: pool_get_def)
next
  case (snoc fs f)
  then have e: "p' = p\<lparr>free_bitmap := clib_bitmap_andnoti (free_bitmap p) f, free_indices := fs\<rparr>" "i = f"
    using assms(2) by (auto simp: pool_get_def Let_def nth_append)
  have "f \<in> bits (free_bitmap p)" using assms(1) snoc by (auto simp: pool_ok_def)
  then show ?thesis using reuse [of fs] e snoc by simp
qed

lemma pool_get_ok_live:
  assumes "pool_ok p" and "pool_get m p = (p', i)"
  shows "pool_ok p' \<and> i \<notin> pool_live p \<and> pool_live p' = insert i (pool_live p)"
  using assms
proof (cases rule: pool_get_cases)
  case (reuse fs)
  have b: "bits (free_bitmap p) \<subseteq> {..<length (pool_vec p)}" using assms(1) by (simp add: pool_ok_def)
  have "distinct (fs @ [i])" "set (fs @ [i]) = bits (free_bitmap p)" using assms(1) reuse(1) unfolding pool_ok_def by metis+
  then have "distinct fs" "set fs = bits (free_bitmap p) - {i}" by auto
  then have "pool_ok p'" using b unfolding reuse(3) pool_ok_def by (auto simp: bits_andnoti)
  moreover have "pool_live p' = insert i (pool_live p)" using b reuse(2) unfolding reuse(3) set_eq_iff
    by (auto simp: pool_live_iff bits_andnoti)
  ultimately show ?thesis using reuse(2) by (simp add: pool_live_iff)
next
  case grow
  have "bits (free_bitmap p) = {}" using assms(1) grow(1) by (simp add: pool_ok_def)
  then show ?thesis unfolding grow by (auto simp: pool_ok_def pool_live_iff grow(1))
qed

lemmas pool_get_ok = pool_get_ok_live [THEN conjunct1]
  and pool_get_live = pool_get_ok_live [THEN conjunct2]

lemma pool_get_frame:
  assumes "pool_ok p" and "pool_get m p = (p', i)" and "j \<in> pool_live p"
  shows "pool_elt_at_index p' j = pool_elt_at_index p j"
  using assms(1,2)
  by (rule pool_get_cases)
    (use assms(3) pool_get_live [OF assms(1,2)] in \<open>auto simp: pool_elt_live pool_live_iff nth_append\<close>)

lemma pool_put_live:
  assumes "pool_ok p" and "i \<in> pool_live p"
  shows "\<exists>p'. pool_put_index p i = Some p' \<and> pool_ok p' \<and> pool_live p' = pool_live p - {i}
    \<and> (\<forall>j\<in>pool_live p'. pool_elt_at_index p' j = pool_elt_at_index p j)"
proof -
  let ?p = "p\<lparr>free_bitmap := clib_bitmap_ori (free_bitmap p) i, free_indices := free_indices p @ [i]\<rparr>"
  have i: "i < length (pool_vec p)" "i \<notin> bits (free_bitmap p)" using assms(2) by (simp_all add: pool_live_iff)
  have "pool_put_index p i = Some ?p" using i(1) assms(2) by (simp add: pool_put_index_def pool_is_free_iff)
  moreover have "pool_ok ?p" using assms(1) i by (simp add: pool_ok_def bits_ori)
  moreover have "pool_live ?p = pool_live p - {i}" by (auto simp: pool_live_iff bits_ori)
  moreover from this have "\<forall>j\<in>pool_live ?p. pool_elt_at_index ?p j = pool_elt_at_index p j"
    by (simp add: pool_elt_live)
  ultimately show ?thesis by blast
qed

interpretation pools: allocator pool_ok pool_live pool_elt_at_index pool_get pool_put_index
proof
  fix p :: "'a pool" and m p' i j
  assume ok: "pool_ok p"
  show "pool_elt_at_index p i \<noteq> None \<longleftrightarrow> i \<in> pool_live p" by (simp add: pool_elt_live)
  show "pool_put_index p i = None" if "i \<notin> pool_live p" using that by (simp add: pool_put_index_def pool_is_free_iff)
  show "\<exists>p'. pool_put_index p i = Some p' \<and> pool_ok p' \<and> pool_live p' = pool_live p - {i}
    \<and> (\<forall>j\<in>pool_live p'. pool_elt_at_index p' j = pool_elt_at_index p j)" if "i \<in> pool_live p"
    by (rule pool_put_live [OF ok that])
  assume g: "pool_get m p = (p', i)"
  show "pool_ok p'" by (rule pool_get_ok [OF ok g])
  show "i \<notin> pool_live p" "pool_live p' = insert i (pool_live p)" using pool_get_live [OF ok g] by auto
  show "pool_elt_at_index p' j = pool_elt_at_index p j" if "j \<in> pool_live p" by (rule pool_get_frame [OF ok g that])
qed

lemma pool_store_ok [simp]: "pool_ok (pool_store p i x) = pool_ok p"
  by (simp add: pool_ok_def pool_store_def)

lemma pool_store_fields [simp]:
  "free_indices (pool_store p i x) = free_indices p" "free_bitmap (pool_store p i x) = free_bitmap p"
  "length (pool_vec (pool_store p i x)) = length (pool_vec p)"
  by (simp_all add: pool_store_def)

lemma pool_store_live [simp]: "pool_live (pool_store p i x) = pool_live p"
  by (simp add: pool_live_iff set_eq_iff pool_store_def)

lemma pool_store_elt [simp]:
  "pool_elt_at_index (pool_store p i x) j =
    (if j = i \<and> i \<in> pool_live p then Some x else pool_elt_at_index p j)"
  by (cases "i = j") (auto simp: pool_elt_live pool_live_iff pool_store_def)

lemma pool_ok_validate: "pool_ok p \<Longrightarrow> pool_validate p"
  by (auto simp: pool_validate_def pool_ok_def count_card list_all_iff bits_def distinct_card [symmetric])

lemma pool_elts_card: "pool_ok p \<Longrightarrow> pool_elts p = card (pool_live p)"
proof -
  assume ok: "pool_ok p"
  have "pool_live p = {..<length (pool_vec p)} - bits (free_bitmap p)" by (auto simp: pool_live_iff)
  then have "card (pool_live p) = length (pool_vec p) - card (bits (free_bitmap p))"
    using ok by (simp add: pool_ok_def card_Diff_subset)
  then show ?thesis using ok by (simp add: pool_elts_def pool_ok_def distinct_card [symmetric])
qed

section \<open>Iteration\<close>

text \<open>The gaps between the free indices \<open>hs\<close>, from \<open>lo\<close> to \<open>len\<close>.\<close>

fun gaps :: "nat \<Rightarrow> nat list \<Rightarrow> (nat \<times> nat) list" where
  "gaps lo [] = []"
| "gaps lo (h # hs) = (if lo < h then [(lo, h)] else []) @ gaps (h + 1) hs"

fun after :: "nat \<Rightarrow> nat list \<Rightarrow> nat" where
  "after lo [] = lo"
| "after lo (h # hs) = after (h + 1) hs"

lemma region_word_gaps:
  "pool_region_word n i m lo = (gaps lo (bitmap_foreach_word n i m), after lo (bitmap_foreach_word n i m))"
  by (induction n i m lo rule: pool_region_word.induct) (auto simp: Let_def)

lemma gaps_append: "gaps lo (xs @ ys) = gaps lo xs @ gaps (after lo xs) ys"
  by (induction lo xs rule: gaps.induct) auto

lemma region_words_gaps: "pool_region_words i b len lo = gaps lo (bitmap_foreach_from i b @ [len])"
  by (induction i b len lo rule: pool_region_words.induct) (simp_all add: region_word_gaps gaps_append)

lemma concat_gaps:
  "sorted_wrt (<) (hs @ [len]) \<Longrightarrow> (\<And>h. h \<in> set hs \<Longrightarrow> lo \<le> h) \<Longrightarrow> lo \<le> len \<Longrightarrow>
   concat (map (\<lambda>(lo, hi). [lo..<hi]) (gaps lo (hs @ [len]))) = filter (\<lambda>i. i \<notin> set hs) [lo..<len]"
proof (induction hs arbitrary: lo)
  case (Cons h hs)
  have h: "lo \<le> h" "h < len" "\<forall>x\<in>set hs. h < x" using Cons.prems by auto
  have IH: "concat (map (\<lambda>(lo, hi). [lo..<hi]) (gaps (h + 1) (hs @ [len]))) = filter (\<lambda>i. i \<notin> set hs) [h + 1..<len]"
    using Cons.prems h by (intro Cons.IH) auto
  have "[lo..<len] = [lo..<h] @ h # [h + 1..<len]"
    using h(1,2) upt_add_eq_append [of lo h "len - h"] upt_conv_Cons [of h len] by simp
  moreover have "filter (\<lambda>i. i \<notin> set (h # hs)) [lo..<h] = [lo..<h]" using h(3) by (auto simp: filter_id_conv)
  moreover have "filter (\<lambda>i. i \<notin> set (h # hs)) [h + 1..<len] = filter (\<lambda>i. i \<notin> set hs) [h + 1..<len]"
    by (rule filter_cong) auto
  ultimately show ?case using IH by auto
qed auto

lemma pool_foreach_live:
  assumes "pool_ok p"
  shows "pool_foreach p = filter (\<lambda>i. i \<in> pool_live p) [0..<length (pool_vec p)]"
proof -
  let ?hs = "clib_bitmap_foreach (free_bitmap p)"
  have s: "set ?hs = bits (free_bitmap p)" by (rule set_foreach)
  have "sorted_wrt (<) ?hs" by (simp add: foreach_filter sorted_wrt_filter)
  then have "sorted_wrt (<) (?hs @ [length (pool_vec p)])"
    using s assms by (auto simp: sorted_wrt_append pool_ok_def)
  then have "pool_foreach p = filter (\<lambda>i. i \<notin> set ?hs) [0..<length (pool_vec p)]"
    unfolding pool_foreach_def pool_foreach_region_def region_words_gaps
    by (subst concat_gaps) (auto simp: clib_bitmap_foreach_def)
  also have "\<dots> = filter (\<lambda>i. i \<in> pool_live p) [0..<length (pool_vec p)]"
    by (rule filter_cong) (auto simp: s pool_live_iff)
  finally show ?thesis .
qed

lemma set_pool_foreach: "pool_ok p \<Longrightarrow> set (pool_foreach p) = pool_live p"
  by (auto simp: pool_foreach_live pool_live_iff)

lemma pool_flush_puts: "pool_ok p \<Longrightarrow> pool_flush_list p is = pools.puts p is"
proof (induction p "is" rule: pool_flush_list.induct)
  case (2 p i "is")
  show ?case
  proof (cases "i \<in> pool_live p")
    case True
    then obtain q where "pool_put_index p i = Some q" "pool_ok q" using pool_put_live [OF "2.prems"] by blast
    then show ?thesis using 2 True by (auto simp: pool_elt_live)
  next
    case False
    then show ?thesis using pools.put_dead [OF "2.prems"] by (simp add: pool_elt_live)
  qed
qed simp

section \<open>Properties\<close>

text \<open>
  Allocation and release: \<open>pool_get\<close> returns an index that was not in use and leaves every
  element in use as it was; \<open>pool_put\<close> of that index gives back a consistent pool with the same
  elements in use, and a second \<open>pool_put\<close> of it fails the assertion.
\<close>

theorem pool_get_put:
  assumes "pool_ok p" and "pool_get m p = (p', i)"
  shows "pool_ok p' \<and> i \<notin> pool_live p \<and> pool_live p' = insert i (pool_live p)
    \<and> (\<forall>j. j \<in> pool_live p \<longrightarrow> pool_elt_at_index p' j = pool_elt_at_index p j)
    \<and> (\<exists>p''. pool_put_index p' i = Some p'' \<and> pool_ok p'' \<and> pool_live p'' = pool_live p
          \<and> pool_put_index p'' i = None)"
proof -
  have ok: "pool_ok p'" by (rule pools.get_inv [OF assms])
  obtain p'' where p: "pool_put_index p' i = Some p''" "pool_ok p''" "pool_live p'' = pool_live p"
    using pools.put_get [OF assms] by blast
  have "pool_put_index p'' i = None" by (rule pools.put_twice [OF ok p(1)])
  then show ?thesis
    using ok p pools.get_fresh [OF assms] pools.get_live [OF assms] pools.get_frame [OF assms] by blast
qed

definition sample_pool :: "nat pool" where
  "sample_pool = \<lparr>pool_vec = [10, 11, 12], free_bitmap = [2], free_indices = [1]\<rparr>"

lemma sample_pool_bits: "bits [2] = {1}"
proof -
  have "bit (2 :: u64) k \<longleftrightarrow> k = 1" for k using bit_shl1 [of 1 k] by auto
  then have "i \<in> bits [2] \<longleftrightarrow> i div 64 = 0 \<and> i mod 64 = 1" for i by (simp add: bits_iff wd_def)
  moreover have "i div 64 = 0 \<and> i mod 64 = 1 \<longleftrightarrow> i = 1" for i :: nat
    using div_mod_64_eq [of i 1] by simp
  ultimately show ?thesis by blast
qed

lemma sample_pool_ok: "pool_ok sample_pool"
  by (simp add: pool_ok_def sample_pool_def sample_pool_bits)

theorem pool_get_put_witness:
  "pool_ok sample_pool \<and> snd (pool_get 7 sample_pool) \<notin> pool_live sample_pool
   \<and> snd (pool_get 7 sample_pool) = 1"
  using pool_get_put [OF sample_pool_ok prod.collapse [symmetric], of 7] sample_pool_ok
  by (simp add: pool_get_def sample_pool_def Let_def)

text \<open>
  \<open>pool_foreach\<close>, which walks the words of the free bitmap, visits the same indices in the same
  order as the index loop \<open>pool_foreach_index\<close>: exactly the elements in use; \<open>pool_elts\<close> is their
  number, and \<open>pool_flush\<close> runs without a failed assertion and leaves none in use.
\<close>

theorem pool_foreach_flush:
  assumes "pool_ok p"
  shows "pool_foreach p = pool_foreach_index p \<and> set (pool_foreach p) = pool_live p
    \<and> pool_elts p = length (pool_foreach p)
    \<and> (\<exists>p'. pool_flush p = Some p' \<and> pool_ok p' \<and> pool_live p' = {} \<and> pool_elts p' = 0)"
proof -
  have d: "distinct (pool_foreach p)" by (simp add: pool_foreach_live [OF assms])
  note s = set_pool_foreach [OF assms]
  have "pool_elts p = length (pool_foreach p)"
    using d s by (metis distinct_card pool_elts_card [OF assms])
  moreover have "pool_foreach p = pool_foreach_index p"
    by (simp add: pool_foreach_live [OF assms] pool_foreach_index_def pool_is_free_iff)
  moreover obtain p' where "pool_flush p = Some p'" "pool_ok p'" "pool_live p' = {}"
    using pools.puts_live [OF assms d] s by (auto simp: pool_flush_def pool_flush_puts [OF assms])
  ultimately show ?thesis using s pool_elts_card [of p'] by auto
qed

theorem pool_foreach_flush_witness:
  "pool_ok sample_pool \<and> pool_foreach sample_pool = pool_foreach_index sample_pool
   \<and> pool_foreach sample_pool = [0, 2]"
proof -
  have "pool_foreach_index sample_pool = [0, 2]" by code_simp
  then show ?thesis using pool_foreach_flush [OF sample_pool_ok] sample_pool_ok by simp
qed

text \<open>
  \<open>pool_next_index\<close> returns the next index in use, if there is one, except when all bits of the
  free bitmap after \<open>i\<close> are set: then it returns \<open>i + 1\<close>, which is free. When no index in use
  follows it returns the length of the vector, and not \<open>~0\<close>, unless \<open>i\<close> is the last index.
\<close>

theorem pool_next_index_cases:
  assumes "pool_ok p" and "i + 1 < length (pool_vec p)"
  shows "pool_next_index p i =
      (if i + 1 < covered (free_bitmap p) \<and> {i + 1..<covered (free_bitmap p)} \<subseteq> bits (free_bitmap p) then i + 1
       else if \<exists>j. i < j \<and> j \<in> pool_live p then LEAST j. i < j \<and> j \<in> pool_live p
       else length (pool_vec p))
    \<and> (i + 1 < covered (free_bitmap p) \<and> {i + 1..<covered (free_bitmap p)} \<subseteq> bits (free_bitmap p)
        \<longrightarrow> i + 1 \<notin> pool_live p)"
proof -
  let ?fb = "free_bitmap p"
  let ?A = "i + 1 < covered ?fb \<and> {i + 1..<covered ?fb} \<subseteq> bits ?fb"
  have n: "pool_next_index p i = clib_bitmap_next_clear ?fb (i + 1)" using assms(2) by (simp add: pool_next_index_def)
  have b: "bits ?fb \<subseteq> {..<length (pool_vec p)}" using assms(1) by (simp add: pool_ok_def)
  show ?thesis
  proof (cases ?A)
    case True
    then have "i + 1 \<in> bits ?fb" by auto
    then show ?thesis using True bitmap_next_clear_eq(1) [OF True] by (auto simp: n pool_live_iff)
  next
    case False
    note e = bitmap_next_clear_eq(2) [OF False]
    show ?thesis
    proof (cases "\<exists>j. i < j \<and> j \<in> pool_live p")
      case True
      then obtain k where k: "i < k" "k \<in> pool_live p" by blast
      have "(LEAST j. i + 1 \<le> j \<and> j \<notin> bits ?fb) = (LEAST j. i < j \<and> j \<in> pool_live p)" (is "?L = ?R")
      proof (rule Least_equality)
        have r: "i < ?R \<and> ?R \<in> pool_live p" by (rule LeastI_ex) (rule True)
        then show "i + 1 \<le> ?R \<and> ?R \<notin> bits ?fb" by (simp add: pool_live_iff)
        fix y assume y: "i + 1 \<le> y \<and> y \<notin> bits ?fb"
        show "?R \<le> y"
        proof (cases "y < length (pool_vec p)")
          case True
          then show ?thesis using y by (intro Least_le) (simp add: pool_live_iff)
        next
          case False
          then show ?thesis using r by (simp add: pool_live_iff)
        qed
      qed
      then show ?thesis using False True e by (simp only: n if_True if_False) simp
    next
      case none: False
      have "(LEAST j. i + 1 \<le> j \<and> j \<notin> bits ?fb) = length (pool_vec p)"
        by (rule Least_equality) (use none b assms(2) in \<open>auto simp: pool_live_iff not_less [symmetric]\<close>)
      then show ?thesis using False none e by (simp only: n if_True if_False) simp
    qed
  qed
qed

theorem pool_next_index_cases_witness:
  "pool_ok sample_pool \<and> pool_next_index sample_pool 0 = 2"
proof -
  have l: "0 + 1 < length (pool_vec sample_pool)" by (simp add: sample_pool_def)
  note b = sample_pool_bits
  have m: "j \<in> pool_live sample_pool \<longleftrightarrow> j < 3 \<and> j \<noteq> 1" for j by (auto simp: pool_live_iff sample_pool_def b)
  have "(LEAST j. 0 < j \<and> j \<in> pool_live sample_pool) = 2" by (rule Least_equality) (auto simp: m)
  moreover have "\<not> {0 + 1..<covered (free_bitmap sample_pool)} \<subseteq> bits (free_bitmap sample_pool)"
  proof -
    have "2 \<in> {0 + 1..<covered (free_bitmap sample_pool)}" by (simp add: sample_pool_def)
    moreover have "2 \<notin> bits (free_bitmap sample_pool)" by (simp add: sample_pool_def b)
    ultimately show ?thesis by blast
  qed
  moreover have "\<exists>j. 0 < j \<and> j \<in> pool_live sample_pool" by (rule exI [of _ 2]) (simp add: m)
  ultimately show ?thesis using pool_next_index_cases [OF sample_pool_ok l] sample_pool_ok by simp
qed

end
