(* ===== verification/Ip_Checksum.thy ===== *)
theory Ip_Checksum
  imports Vpp_Prelude
begin

text \<open>
  The Internet checksum of \<^verbatim>\<open>vnet/ip/ip_packet.h\<close>, \<^verbatim>\<open>vnet/ip/ip_checksum.c\<close> and
  \<^verbatim>\<open>vnet/ip/ip4_packet.h\<close> on a 64-bit little-endian machine: additions with end-around carry on
  64-bit words, the folding to 16 bits, the checksum of a memory block at a given address, the
  checksum while copying, the update of a checksum for a changed field, and the IPv4 header
  checksum. The lemmas relate them to the one's complement sum of 16-bit words of RFC 1071, which
  is arithmetic modulo 65535.
\<close>

section \<open>Sums\<close>

type_synonym ip_csum_t = u64

definition ip_csum_with_carry :: "ip_csum_t \<Rightarrow> ip_csum_t \<Rightarrow> ip_csum_t" where
  "ip_csum_with_carry sm x = (let t = sm + x in t + of_bool (t < x))"

text \<open>The failed assertion is \<open>None\<close>.\<close>

definition ip_csum_add_even :: "ip_csum_t \<Rightarrow> ip_csum_t \<Rightarrow> ip_csum_t option" where
  "ip_csum_add_even c x =
    (let d = c - x; d = d - of_bool (c < d)
     in if ip_csum_with_carry d x = c then Some d else None)"

definition ip_csum_sub_even :: "ip_csum_t \<Rightarrow> ip_csum_t \<Rightarrow> ip_csum_t" where
  "ip_csum_sub_even c x = ip_csum_with_carry c x"

definition ip_csum_update_inline ::
  "ip_csum_t \<Rightarrow> ip_csum_t \<Rightarrow> ip_csum_t \<Rightarrow> nat \<Rightarrow> nat \<Rightarrow> ip_csum_t option" where
  "ip_csum_update_inline sm old new field_byte_offset field_n_bytes =
    (let odd_field = (field_n_bytes mod 2 \<noteq> 0 \<and> field_byte_offset mod 2 = 1);
         old = (if odd_field then push_bit 8 old else old);
         new = (if odd_field then push_bit 8 new else new)
     in ip_csum_add_even (ip_csum_sub_even sm old) new)"

definition ip_csum_fold :: "ip_csum_t \<Rightarrow> u16" where
  "ip_csum_fold c =
    (let c = (c AND 0xffffffff) + drop_bit 32 c;
         c = (c AND 0xffff) + drop_bit 16 c;
         c = (c AND 0xffff) + drop_bit 16 c;
         c = (c AND 0xffff) + drop_bit 16 c
     in ucast c)"

section \<open>Blocks of memory\<close>

text \<open>The little-endian value of a byte string, and a load of the first \<open>n\<close> bytes.\<close>

fun le_val :: "u8 list \<Rightarrow> nat" where
  "le_val [] = 0"
| "le_val (b # bs) = unat b + 256 * le_val bs"

definition csum_load :: "nat \<Rightarrow> u8 list \<Rightarrow> ip_csum_t" where
  "csum_load n bs = word_of_nat (le_val (take n bs))"

text \<open>The step that aligns the data pointer to twice the size \<open>sz\<close>.\<close>

definition csum_align :: "nat \<Rightarrow> ip_csum_t \<times> nat \<times> u8 list \<Rightarrow> ip_csum_t \<times> nat \<times> u8 list" where
  "csum_align sz = (\<lambda>(sum0, data, bs).
    if sz \<le> length bs \<and> sz < 8 \<and> data mod (2 * sz) \<noteq> 0
    then (sum0 + csum_load sz bs, data + sz, drop sz bs) else (sum0, data, bs))"

fun csum_loop :: "ip_csum_t \<Rightarrow> ip_csum_t \<Rightarrow> u8 list \<Rightarrow> ip_csum_t \<times> ip_csum_t \<times> u8 list" where
  "csum_loop sum0 sum1 bs =
    (if 16 \<le> length bs
     then csum_loop (ip_csum_with_carry sum0 (csum_load 8 bs))
            (ip_csum_with_carry sum1 (csum_load 8 (drop 8 bs))) (drop 16 bs)
     else (sum0, sum1, bs))"

declare csum_loop.simps [simp del]

definition csum_tail :: "nat \<Rightarrow> ip_csum_t \<times> u8 list \<Rightarrow> ip_csum_t \<times> u8 list" where
  "csum_tail sz = (\<lambda>(sum0, bs).
    if sz \<le> length bs then (ip_csum_with_carry sum0 (csum_load sz bs), drop sz bs) else (sum0, bs))"

text \<open>The checksum of the bytes \<open>bs\<close> at address \<open>data\<close>, added to \<open>sum\<close>.\<close>

definition ip_incremental_checksum :: "ip_csum_t \<Rightarrow> nat \<Rightarrow> u8 list \<Rightarrow> ip_csum_t" where
  "ip_incremental_checksum sm data bs =
    (let (sum0, data, bs) = csum_align 4 (csum_align 2 (csum_align 1 (0, data, bs)));
         (sum0, sum1, bs) = csum_loop sum0 sm bs;
         (sum0, bs) = csum_tail 1 (csum_tail 2 (csum_tail 4 (csum_tail 8 (sum0, bs))))
     in ip_csum_with_carry sum0 sum1)"

text \<open>The loops of the copying checksum that take \<open>sz\<close> bytes at a time; \<open>go\<close> is the loop guard on
  the destination address.\<close>

function memcpy_loop :: "nat \<Rightarrow> (nat \<Rightarrow> bool) \<Rightarrow> ip_csum_t \<Rightarrow> nat \<Rightarrow> u8 list \<Rightarrow> u8 list \<Rightarrow>
    ip_csum_t \<times> nat \<times> u8 list \<times> u8 list" where
  "memcpy_loop sz go sum0 dst copied bs =
    (if 0 < sz \<and> sz \<le> length bs \<and> go dst
     then memcpy_loop sz go (ip_csum_with_carry sum0 (csum_load sz bs)) (dst + sz) (copied @ take sz bs) (drop sz bs)
     else (sum0, dst, copied, bs))"
  by pat_completeness auto
termination by (relation "measure (\<lambda>(sz, go, s, d, c, bs). length bs)") auto

declare memcpy_loop.simps [simp del]

fun memcpy_loop2 :: "ip_csum_t \<Rightarrow> ip_csum_t \<Rightarrow> u8 list \<Rightarrow> u8 list \<Rightarrow> ip_csum_t \<times> ip_csum_t \<times> u8 list \<times> u8 list" where
  "memcpy_loop2 sum0 sum1 copied bs =
    (if 16 \<le> length bs
     then memcpy_loop2 (ip_csum_with_carry sum0 (csum_load 8 bs))
            (ip_csum_with_carry sum1 (csum_load 8 (drop 8 bs))) (copied @ take 16 bs) (drop 16 bs)
     else (sum0, sum1, copied, bs))"

declare memcpy_loop2.simps [simp del]

text \<open>The checksum and the bytes written to \<open>dst\<close>.\<close>

definition ip_csum_and_memcpy :: "ip_csum_t \<Rightarrow> nat \<Rightarrow> u8 list \<Rightarrow> ip_csum_t \<times> u8 list" where
  "ip_csum_and_memcpy sm dst src =
    (let (sum0, dst, copied, bs) =
           (if src \<noteq> [] \<and> dst mod 2 = 1
            then (ip_csum_with_carry sm (push_bit 8 (ucast (hd src))), dst + 1, [hd src], tl src)
            else (sm, dst, [], src));
         (sum0, dst, copied, bs) = memcpy_loop 2 (\<lambda>d. d div 2 mod 4 \<noteq> 0) sum0 dst copied bs;
         (sum0, sum1, copied, bs) = memcpy_loop2 sum0 0 copied bs;
         sum0 = ip_csum_with_carry sum0 sum1;
         (sum0, dst, copied, bs) = memcpy_loop 8 (\<lambda>d. True) sum0 dst copied bs;
         (sum0, dst, copied, bs) = memcpy_loop 2 (\<lambda>d. True) sum0 dst copied bs
     in if length bs = 1 then (ip_csum_with_carry sum0 (ucast (hd bs)), copied @ bs) else (sum0, copied))"

section \<open>IPv4 headers\<close>

text \<open>Headers as their bytes in network order. The checksum field is bytes 10 and 11, read and
  written as a little-endian 16-bit value.\<close>

definition ip4_header_bytes :: "u8 list \<Rightarrow> nat" where
  "ip4_header_bytes h = 4 * unat (h ! 0 AND 0xf)"

definition ip4_get_checksum :: "u8 list \<Rightarrow> u16" where
  "ip4_get_checksum h = ucast (h ! 10) OR push_bit 8 (ucast (h ! 11))"

definition ip4_set_checksum :: "u16 \<Rightarrow> u8 list \<Rightarrow> u8 list" where
  "ip4_set_checksum c h = h[10 := ucast c, 11 := ucast (drop_bit 8 c)]"

definition ip4_header_checksum :: "nat \<Rightarrow> u8 list \<Rightarrow> u16" where
  "ip4_header_checksum addr i =
    (let save = ip4_get_checksum i;
         sm = ip_incremental_checksum 0 addr (take (ip4_header_bytes i) (ip4_set_checksum 0 i));
         csum = NOT (ip_csum_fold sm)
     in if csum = 0 \<and> save = 0xffff then save else csum)"

definition ip4_header_checksum_is_valid :: "nat \<Rightarrow> u8 list \<Rightarrow> bool" where
  "ip4_header_checksum_is_valid addr i = (ip4_get_checksum i = ip4_header_checksum addr i)"

section \<open>Arithmetic modulo 65535\<close>

lemma with_carry_cong:
  "unat (ip_csum_with_carry a b) mod (2 ^ 64 - 1) = (unat a + unat b) mod (2 ^ 64 - 1)"
proof (cases "unat a + unat b < 2 ^ 64")
  case True
  then have t: "unat (a + b) = unat a + unat b" by (simp add: unat_word_ariths)
  then have "\<not> a + b < b" by (simp add: word_less_nat_alt)
  then show ?thesis using t by (simp add: ip_csum_with_carry_def Let_def)
next
  case False
  have ab: "unat a < 2 ^ 64" "unat b < 2 ^ 64" using unat_u64_lt [of a] unat_u64_lt [of b] by simp_all
  have t: "unat (a + b) = unat a + unat b - 2 ^ 64"
    using False ab by (simp add: unat_word_ariths mod_if)
  then have l: "a + b < b" using False ab by (simp add: word_less_nat_alt)
  have "unat (a + b + 1) = unat a + unat b - (2 ^ 64 - 1)"
    using t False ab by (simp add: unat_word_ariths(1) [of "a + b" 1])
  then have "unat (ip_csum_with_carry a b) = unat a + unat b - (2 ^ 64 - 1)"
    using l by (simp add: ip_csum_with_carry_def Let_def)
  then show ?thesis using False le_mod_geq [of "2 ^ 64 - 1" "unat a + unat b"] by simp
qed

lemma mod_65535: "(x :: nat) mod (2 ^ 64 - 1) = y mod (2 ^ 64 - 1) \<Longrightarrow> x mod 65535 = y mod 65535"
proof -
  have d: "(65535::nat) dvd 2 ^ 64 - 1" by simp
  assume "x mod (2 ^ 64 - 1) = y mod (2 ^ 64 - 1)"
  then have "x mod (2 ^ 64 - 1) mod 65535 = y mod (2 ^ 64 - 1) mod 65535" by (rule arg_cong)
  then show ?thesis by (simp only: mod_mod_cancel [OF d])
qed

lemma with_carry_65535: "unat (ip_csum_with_carry a b) mod 65535 = (unat a + unat b) mod 65535"
  by (rule mod_65535) (rule with_carry_cong)

lemma mod_add3: "(a + b * 65536 * c) mod 65535 = (a + b * c) mod (65535 :: nat)"
proof -
  have "a + b * 65536 * c = a + b * c + b * c * 65535" by simp
  then show ?thesis by (simp only: mod_mult_self1)
qed

lemma le_val_append: "le_val (xs @ ys) = le_val xs + 256 ^ length xs * le_val ys"
  by (induction xs) (simp_all add: algebra_simps)

lemma le_val_lt: "le_val bs < 256 ^ length bs"
proof (induction bs)
  case (Cons b bs)
  have "unat b \<le> 255" using unat_u8_lt [of b] by simp
  then show ?case using Cons by simp
qed simp

lemma pow_256_even: "256 ^ (2 * k) mod 65535 = (1 mod 65535 :: nat)"
proof -
  have "(256::nat) ^ (2 * k) = 65536 ^ k" by (simp add: power_mult)
  also have "\<dots> mod 65535 = (65536 mod 65535) ^ k mod 65535" by (rule power_mod [symmetric])
  finally show ?thesis by simp
qed

lemma le_val_even_append:
  assumes "even (length xs)"
  shows "le_val (xs @ ys) mod 65535 = (le_val xs + le_val ys) mod 65535"
proof -
  obtain k where k: "length xs = 2 * k" using assms by auto
  have "256 ^ length xs * le_val ys mod 65535 = le_val ys mod 65535"
    using mod_mult_cong [OF pow_256_even [of k] refl, of "le_val ys"] unfolding k by simp
  from mod_add_cong [OF refl this, of "le_val xs"] show ?thesis unfolding le_val_append .
qed

lemma unat_csum_load: "n \<le> 8 \<Longrightarrow> unat (csum_load n bs) = le_val (take n bs)"
proof -
  assume n: "n \<le> 8"
  have "le_val (take n bs) < 256 ^ length (take n bs)" by (rule le_val_lt)
  also have "\<dots> \<le> (256::nat) ^ 8" using n by (intro power_increasing) auto
  finally show ?thesis by (simp add: csum_load_def unat_of_nat)
qed

text \<open>Taking an even number of bytes off the front moves their value into the sm.\<close>

lemma take_even:
  assumes "n \<le> length bs" and "even n"
  shows "(s + le_val (take n bs) + le_val (drop n bs)) mod 65535 = (s + le_val bs) mod 65535"
proof -
  have "even (length (take n bs))" using assms by simp
  from le_val_even_append [OF this, of "drop n bs"]
  have "(le_val (take n bs) + le_val (drop n bs)) mod 65535 = le_val bs mod 65535" by simp
  from mod_add_cong [OF refl this, of s] show ?thesis by (simp only: add.assoc)
qed

section \<open>The checksum of a block\<close>

lemma csum_align_even:
  assumes "csum_align sz (s0, d, bs) = (s0', d', bs')" and "sz = 2 \<or> sz = 4" and "even d"
    and "unat s0 < 2 ^ 62"
  shows "(unat s0' + le_val bs') mod 65535 = (unat s0 + le_val bs) mod 65535" and "even d'"
    and "unat s0' \<le> unat s0 + 2 ^ 32"
proof -
  have l: "unat (csum_load sz bs) \<le> 2 ^ 32"
  proof -
    have "le_val (take sz bs) < 256 ^ length (take sz bs)" by (rule le_val_lt)
    also have "\<dots> \<le> (256::nat) ^ 4" using assms(2) by (intro power_increasing) auto
    finally show ?thesis using assms(2) by (subst unat_csum_load) auto
  qed
  have a: "unat (s0 + csum_load sz bs) = unat s0 + unat (csum_load sz bs)"
    using l assms(4) by (simp add: unat_word_ariths)
  show "(unat s0' + le_val bs') mod 65535 = (unat s0 + le_val bs) mod 65535" and "even d'"
    and "unat s0' \<le> unat s0 + 2 ^ 32"
    using assms a l take_even [of sz bs "unat s0"] unat_csum_load [of sz bs]
    by (auto simp: csum_align_def split: if_splits)
qed

lemma csum_loop_sum:
  "csum_loop s0 s1 bs = (t0, t1, cs) \<Longrightarrow>
   (unat t0 + unat t1 + le_val cs) mod 65535 = (unat s0 + unat s1 + le_val bs) mod 65535"
proof (induction s0 s1 bs rule: csum_loop.induct)
  case (1 s0 s1 bs)
  show ?case
  proof (cases "16 \<le> length bs")
    case True
    let ?a = "csum_load 8 bs" and ?b = "csum_load 8 (drop 8 bs)"
    have "(unat t0 + unat t1 + le_val cs) mod 65535
        = (unat (ip_csum_with_carry s0 ?a) + unat (ip_csum_with_carry s1 ?b) + le_val (drop 16 bs)) mod 65535"
      using 1 True by (simp add: csum_loop.simps [of s0 s1 bs])
    also have "\<dots> = (unat s0 + unat ?a + (unat s1 + unat ?b) + le_val (drop 16 bs)) mod 65535"
      by (rule mod_add_cong [OF mod_add_cong [OF with_carry_65535 with_carry_65535] refl])
    also have "\<dots> = (unat s0 + unat s1 + le_val (take 8 bs) + le_val (take 8 (drop 8 bs)) + le_val (drop 8 (drop 8 bs))) mod 65535"
      by (simp add: unat_csum_load algebra_simps)
    also have "\<dots> = (unat s0 + unat s1 + le_val (take 8 bs) + le_val (drop 8 bs)) mod 65535"
      using True by (intro take_even) simp_all
    also have "\<dots> = (unat s0 + unat s1 + le_val bs) mod 65535"
      using True by (intro take_even) simp_all
    finally show ?thesis .
  next
    case False
    then show ?thesis using 1 by (simp add: csum_loop.simps [of s0 s1 bs])
  qed
qed

lemma csum_loop_short: "csum_loop s0 s1 bs = (t0, t1, cs) \<Longrightarrow> length cs < 16"
  by (induction s0 s1 bs rule: csum_loop.induct) (subst (asm) (2) csum_loop.simps, auto split: if_splits)

lemma csum_tail_even:
  assumes "csum_tail sz (s0, bs) = (s0', bs')" and "sz \<le> 8" and "even sz"
  shows "(unat s0' + le_val bs') mod 65535 = (unat s0 + le_val bs) mod 65535"
proof (cases "sz \<le> length bs")
  case True
  then have "(unat s0' + le_val bs') mod 65535 = (unat (ip_csum_with_carry s0 (csum_load sz bs)) + le_val (drop sz bs)) mod 65535"
    using assms(1) by (auto simp: csum_tail_def)
  also have "\<dots> = (unat s0 + unat (csum_load sz bs) + le_val (drop sz bs)) mod 65535"
    by (rule mod_add_cong [OF with_carry_65535 refl])
  also have "\<dots> = (unat s0 + le_val bs) mod 65535"
    unfolding unat_csum_load [OF assms(2)] by (rule take_even [OF True assms(3)])
  finally show ?thesis .
next
  case False
  then show ?thesis using assms(1) by (auto simp: csum_tail_def)
qed

lemma csum_tail_len: "csum_tail sz (s0, bs) = (s0', bs') \<Longrightarrow> length bs < 2 * sz \<Longrightarrow> length bs' < sz"
  by (auto simp: csum_tail_def split: if_splits)

lemma csum_tail_1:
  assumes "csum_tail 1 (s0, bs) = (s0', bs')" and "length bs < 2"
  shows "unat s0' mod 65535 = (unat s0 + le_val bs) mod 65535"
proof (cases bs)
  case Nil
  then show ?thesis using assms by (simp add: csum_tail_def)
next
  case (Cons b cs)
  then have "s0' = ip_csum_with_carry s0 (csum_load 1 bs)" "take 1 bs = bs" using assms by (auto simp: csum_tail_def)
  then show ?thesis using with_carry_65535 [of s0 "csum_load 1 bs"] unat_csum_load [of 1 bs] by simp
qed

lemma incremental_checksum_from:
  assumes a1: "csum_align 1 (0, data, bs) = (s1, d1, b1)" and ev: "even d1" and small: "unat s1 < 2 ^ 61"
  shows "unat (ip_incremental_checksum sm data bs) mod 65535 = (unat sm + (unat s1 + le_val b1)) mod 65535"
proof -
  obtain s2 d2 b2 where a2: "csum_align 2 (s1, d1, b1) = (s2, d2, b2)" using prod_cases3 by blast
  obtain s4 d4 b4 where a4: "csum_align 4 (s2, d2, b2) = (s4, d4, b4)" using prod_cases3 by blast
  obtain t0 t1 cs where lp: "csum_loop s4 sm b4 = (t0, t1, cs)" using prod_cases3 by blast
  obtain u8 c8 where t8: "csum_tail 8 (t0, cs) = (u8, c8)" by fastforce
  obtain u4 c4 where t4: "csum_tail 4 (u8, c8) = (u4, c4)" by fastforce
  obtain u2 c2 where t2: "csum_tail 2 (u4, c4) = (u2, c2)" by fastforce
  obtain u1 c1 where t1': "csum_tail 1 (u2, c2) = (u1, c1)" by fastforce
  have r: "ip_incremental_checksum sm data bs = ip_csum_with_carry u1 t1"
    unfolding ip_incremental_checksum_def Let_def a1 a2 a4 prod.case lp t8 t4 t2 t1' ..
  have s1: "unat s1 < 2 ^ 62" using small by simp
  note e2 = csum_align_even [OF a2 disjI1 [OF refl] ev s1]
  have s2: "unat s2 < 2 ^ 62" using e2(3) small by simp
  have len: "length c2 < 2"
    using csum_tail_len [OF t2] csum_tail_len [OF t4] csum_tail_len [OF t8] csum_loop_short [OF lp] by simp
  have u: "unat u1 mod 65535 = (unat t0 + le_val cs) mod 65535"
    using csum_tail_1 [OF t1' len] csum_tail_even [OF t2] csum_tail_even [OF t4] csum_tail_even [OF t8] by simp
  have "unat (ip_csum_with_carry u1 t1) mod 65535 = (unat u1 + unat t1) mod 65535" by (rule with_carry_65535)
  also have "\<dots> = (unat t0 + le_val cs + unat t1) mod 65535" by (rule mod_add_cong [OF u refl])
  also have "\<dots> = (unat s4 + unat sm + le_val b4) mod 65535"
    using csum_loop_sum [OF lp] by (simp only: ac_simps)
  also have "\<dots> = (unat sm + (unat s4 + le_val b4)) mod 65535" by (simp only: ac_simps)
  also have "\<dots> = (unat sm + (unat s2 + le_val b2)) mod 65535"
    by (rule mod_add_cong [OF refl csum_align_even(1) [OF a4 _ e2(2) s2]]) simp
  also have "\<dots> = (unat sm + (unat s1 + le_val b1)) mod 65535"
    by (rule mod_add_cong [OF refl e2(1)])
  finally show ?thesis unfolding r .
qed

lemma incremental_checksum_even:
  assumes "even data"
  shows "unat (ip_incremental_checksum sm data bs) mod 65535 = (unat sm + le_val bs) mod 65535"
proof -
  have "csum_align 1 (0, data, bs) = (0, data, bs)" using assms by (simp add: csum_align_def)
  from incremental_checksum_from [OF this assms] show ?thesis by simp
qed

lemma incremental_checksum_odd:
  assumes "odd data"
  shows "unat (ip_incremental_checksum sm data (b # bs)) mod 65535 = (unat sm + (unat b + le_val bs)) mod 65535"
proof -
  have l: "unat (csum_load 1 (b # bs)) = unat b" by (subst unat_csum_load) simp_all
  have "csum_align 1 (0, data, b # bs) = (csum_load 1 (b # bs), data + 1, bs)"
    using assms by (simp add: csum_align_def odd_iff_mod_2_eq_one)
  from incremental_checksum_from [OF this] show ?thesis using assms l unat_u8_lt [of b] by simp
qed

section \<open>Folding\<close>

lemma unat_split_add:
  assumes "k < 64" "0 < k"
  shows "unat ((c AND mask k) + drop_bit k c :: u64) = unat c mod 2 ^ k + unat c div 2 ^ k"
proof -
  have m: "unat (c AND mask k) = unat c mod 2 ^ k"
    unfolding take_bit_eq_mask [symmetric] unsigned_take_bit_eq by (simp add: take_bit_eq_mod)
  have d: "unat (drop_bit k c) = unat c div 2 ^ k"
    unfolding unat_drop_bit_eq by (rule drop_bit_eq_div)
  have "unat c mod 2 ^ k < 2 ^ k" by simp
  moreover have "unat c div 2 ^ k < 2 ^ (64 - k)"
    using unat_u64_lt [of c] assms by (simp add: div_less_iff_less_mult flip: power_add)
  moreover have "(2::nat) ^ k \<le> 2 ^ 63" "(2::nat) ^ (64 - k) \<le> 2 ^ 63" using assms by (intro power_increasing; simp)+
  ultimately have "unat c mod 2 ^ k + unat c div 2 ^ k < 2 ^ 63 + 2 ^ 63" by linarith
  then have "unat c mod 2 ^ k + unat c div 2 ^ k < 2 ^ 64" by simp
  then show ?thesis unfolding unat_word_ariths(1) m d by simp
qed

lemma fold_step_mod: "(n mod 65536 + n div 65536) mod 65535 = n mod (65535 :: nat)"
proof -
  have "n = n mod 65536 + n div 65536 + n div 65536 * 65535" using div_mult_mod_eq [of n 65536] by linarith
  then show ?thesis by (metis mod_mult_self1)
qed

lemma fold_step_mod32: "(n mod 4294967296 + n div 4294967296) mod 65535 = n mod (65535 :: nat)"
proof -
  have "n = n mod 4294967296 + n div 4294967296 + n div 4294967296 * 65537 * 65535"
    using div_mult_mod_eq [of n 4294967296] by linarith
  then show ?thesis by (metis mod_mult_self1)
qed

lemma fold_step_bound:
  fixes n :: nat
  assumes "n < 65536 * m" "0 < m"
  shows "n mod 65536 + n div 65536 \<le> 65535 + (m - 1)"
proof -
  have "n div 65536 \<le> m - 1" using assms by (metis Suc_pred' less_Suc_eq_le less_mult_imp_div_less mult.commute)
  moreover have "n mod 65536 < 65536" by simp
  ultimately show ?thesis by linarith
qed

lemma fold_zero: "n mod m + n div m = 0 \<longleftrightarrow> n = (0 :: nat)"
  by (metis add_is_0 div_mult_mod_eq mult_0 div_0 mod_0)

lemma ip_csum_fold_mod:
  "unat (ip_csum_fold c) mod 65535 = unat c mod 65535" "ip_csum_fold c = 0 \<longleftrightarrow> c = 0"
proof -
  have m: "0xffffffff = (mask 32 :: u64)" "0xffff = (mask 16 :: u64)" by (simp_all add: mask_eq_exp_minus_1)
  define c1 where "c1 = (c AND mask 32) + drop_bit 32 c"
  define c2 where "c2 = (c1 AND mask 16) + drop_bit 16 c1"
  define c3 where "c3 = (c2 AND mask 16) + drop_bit 16 c2"
  define c4 where "c4 = (c3 AND mask 16) + drop_bit 16 c3"
  have f: "ip_csum_fold c = ucast c4" unfolding ip_csum_fold_def Let_def m c4_def c3_def c2_def c1_def ..
  have n1: "unat c1 = unat c mod 4294967296 + unat c div 4294967296" unfolding c1_def by (subst unat_split_add) simp_all
  have n2: "unat c2 = unat c1 mod 65536 + unat c1 div 65536" unfolding c2_def by (subst unat_split_add) simp_all
  have n3: "unat c3 = unat c2 mod 65536 + unat c2 div 65536" unfolding c3_def by (subst unat_split_add) simp_all
  have n4: "unat c4 = unat c3 mod 65536 + unat c3 div 65536" unfolding c4_def by (subst unat_split_add) simp_all
  have "unat c div 4294967296 < 4294967296" using unat_u64_lt [of c] by (simp add: div_less_iff_less_mult)
  moreover have "unat c mod 4294967296 < 4294967296" by simp
  ultimately have b1: "unat c1 < 65536 * 131072" unfolding n1 by linarith
  have "unat c2 \<le> 65535 + (131072 - 1)" unfolding n2 by (rule fold_step_bound [OF b1]) simp
  then have b2: "unat c2 < 65536 * 3" by simp
  have b3: "unat c3 \<le> 65535 + (3 - 1)" unfolding n3 by (rule fold_step_bound [OF b2]) simp
  have b4: "unat c4 < 65536"
  proof (cases "unat c3 < 65536")
    case True then show ?thesis unfolding n4 by simp
  next
    case False
    then have "unat c3 = 65536 \<or> unat c3 = 65537" using b3 by auto
    then show ?thesis unfolding n4 by auto
  qed
  have u: "unat (ip_csum_fold c) = unat c4" unfolding f using b4 by (intro unat_ucast_small) simp
  show "unat (ip_csum_fold c) mod 65535 = unat c mod 65535"
    unfolding u n4 fold_step_mod n3 n2 n1 fold_step_mod32 ..
  have "unat c4 = 0 \<longleftrightarrow> unat c = 0" unfolding n4 fold_zero n3 n2 n1 ..
  then show "ip_csum_fold c = 0 \<longleftrightarrow> c = 0" using u by (metis unat_eq_zero)
qed

text \<open>Two folded sums that agree modulo 65535 agree, unless one of them is zero and the other \<open>0xffff\<close>.\<close>

lemma fold_eqI:
  assumes "unat a mod 65535 = unat b mod 65535" and "a = 0 \<longleftrightarrow> b = 0"
  shows "ip_csum_fold a = ip_csum_fold b"
proof -
  have m: "unat (ip_csum_fold a) mod 65535 = unat (ip_csum_fold b) mod 65535"
    using assms(1) by (simp only: ip_csum_fold_mod(1))
  have z: "ip_csum_fold a = 0 \<longleftrightarrow> ip_csum_fold b = 0" using assms(2) by (simp only: ip_csum_fold_mod(2))
  have mod_cases: "x = (if x mod 65535 = 0 then if x = 0 then 0 else 65535 else x mod 65535)" if "x < 65536" for x :: nat
  proof (cases "x < 65535")
    case True then show ?thesis by simp
  next
    case False
    then have "x = 65535" using that by linarith
    then show ?thesis by simp
  qed
  have "unat (ip_csum_fold a) = unat (ip_csum_fold b)"
    using mod_cases [OF unat_u16_lt [of "ip_csum_fold a"]] mod_cases [OF unat_u16_lt [of "ip_csum_fold b"]] m z
    by (metis unat_eq_zero)
  then show ?thesis by (simp add: word_unat_eq_iff)
qed

section \<open>Copying\<close>

lemma memcpy_loop_sum:
  "memcpy_loop sz go s0 dst cp bs = (s0', dst', cp', bs') \<Longrightarrow> sz \<le> 8 \<Longrightarrow> even sz \<Longrightarrow>
   (unat s0' + le_val bs') mod 65535 = (unat s0 + le_val bs) mod 65535 \<and> cp' @ bs' = cp @ bs
   \<and> ((\<forall>d. go d) \<and> 0 < sz \<longrightarrow> length bs' < sz)"
proof (induction sz go s0 dst cp bs rule: memcpy_loop.induct)
  case (1 sz go s0 dst cp bs)
  show ?case
  proof (cases "0 < sz \<and> sz \<le> length bs \<and> go dst")
    case True
    let ?w = "ip_csum_with_carry s0 (csum_load sz bs)"
    have "memcpy_loop sz go ?w (dst + sz) (cp @ take sz bs) (drop sz bs) = (s0', dst', cp', bs')"
      using "1.prems"(1) True by (subst (asm) memcpy_loop.simps) simp
    note IH = "1.IH" [OF True this "1.prems"(2,3)]
    have "(unat ?w + le_val (drop sz bs)) mod 65535 = (unat s0 + unat (csum_load sz bs) + le_val (drop sz bs)) mod 65535"
      by (rule mod_add_cong [OF with_carry_65535 refl])
    also have "\<dots> = (unat s0 + le_val bs) mod 65535"
      unfolding unat_csum_load [OF "1.prems"(2)] using True "1.prems"(3) by (intro take_even) simp_all
    finally show ?thesis using IH by simp
  next
    case False
    then show ?thesis using "1.prems"(1) by (subst (asm) memcpy_loop.simps) auto
  qed
qed

lemma memcpy_loop2_sum:
  "memcpy_loop2 s0 s1 cp bs = (t0, t1, cp', cs) \<Longrightarrow>
   csum_loop s0 s1 bs = (t0, t1, cs) \<and> cp' @ cs = cp @ bs"
proof (induction s0 s1 cp bs rule: memcpy_loop2.induct)
  case (1 s0 s1 cp bs)
  show ?case
  proof (cases "16 \<le> length bs")
    case True
    then have "memcpy_loop2 (ip_csum_with_carry s0 (csum_load 8 bs)) (ip_csum_with_carry s1 (csum_load 8 (drop 8 bs)))
        (cp @ take 16 bs) (drop 16 bs) = (t0, t1, cp', cs)"
      using "1.prems" by (subst (asm) memcpy_loop2.simps) simp
    from "1.IH" [OF True this] show ?thesis using True by (simp add: csum_loop.simps [of s0 s1 bs])
  next
    case False
    then have "s0 = t0 \<and> s1 = t1 \<and> cp = cp' \<and> bs = cs"
      using "1.prems" by (subst (asm) memcpy_loop2.simps) simp
    then show ?thesis using False by (simp add: csum_loop.simps [of t0 t1 cs])
  qed
qed

lemma memcpy_body:
  assumes "memcpy_loop 2 g s0 dst cp bs = (a0, d0, cp0, b0)" and "memcpy_loop2 a0 0 cp0 b0 = (a1, a1', cp1, b1)"
    and "memcpy_loop 8 (\<lambda>d. True) (ip_csum_with_carry a1 a1') d0 cp1 b1 = (a2, d2, cp2, b2)"
    and "memcpy_loop 2 (\<lambda>d. True) a2 d2 cp2 b2 = (a3, d3, cp3, b3)"
  shows "(unat a3 + le_val b3) mod 65535 = (unat s0 + le_val bs) mod 65535" and "cp3 @ b3 = cp @ bs" and "length b3 < 2"
proof -
  note l0 = memcpy_loop_sum [OF assms(1), simplified] and l1 = memcpy_loop2_sum [OF assms(2)]
    and l2 = memcpy_loop_sum [OF assms(3), simplified] and l3 = memcpy_loop_sum [OF assms(4), simplified]
  have "(unat a3 + le_val b3) mod 65535 = (unat a2 + le_val b2) mod 65535" using l3 by blast
  also have "\<dots> = (unat (ip_csum_with_carry a1 a1') + le_val b1) mod 65535" using l2 by blast
  also have "\<dots> = (unat a1 + unat a1' + le_val b1) mod 65535" by (rule mod_add_cong [OF with_carry_65535 refl])
  also have "\<dots> = (unat a0 + le_val b0) mod 65535" using csum_loop_sum [OF l1 [THEN conjunct1]] by simp
  also have "\<dots> = (unat s0 + le_val bs) mod 65535" using l0 by blast
  finally show "(unat a3 + le_val b3) mod 65535 = (unat s0 + le_val bs) mod 65535" .
  show "cp3 @ b3 = cp @ bs" "length b3 < 2" using l0 l1 l2 l3 by auto
qed

lemma memcpy_last:
  assumes "length b3 < 2"
  shows "unat (if length b3 = 1 then ip_csum_with_carry a3 (ucast (hd b3)) else a3) mod 65535
    = (unat a3 + le_val b3) mod 65535"
proof (cases b3)
  case (Cons b cs)
  then have "b3 = [b]" using assms by simp
  then show ?thesis using with_carry_65535 [of a3 "ucast b"] by (simp add: word_nat)
qed simp

lemma csum_and_memcpy_sum:
  assumes "ip_csum_and_memcpy sm dst src = (r, copied)"
  shows "copied = src"
    and "unat r mod 65535 = (unat sm + (if odd dst then 256 * le_val src else le_val src)) mod 65535"
proof -
  define start where "start = (if src \<noteq> [] \<and> dst mod 2 = 1
     then (ip_csum_with_carry sm (push_bit 8 (ucast (hd src))), dst + 1, [hd src], tl src) else (sm, dst, [], src))"
  obtain s0 d cp bs where st: "start = (s0, d, cp, bs)" using prod_cases4 by blast
  obtain a0 d0 cp0 b0 where l0: "memcpy_loop 2 (\<lambda>d. d div 2 mod 4 \<noteq> 0) s0 d cp bs = (a0, d0, cp0, b0)" using prod_cases4 by blast
  obtain a1 a1' cp1 b1 where l1: "memcpy_loop2 a0 0 cp0 b0 = (a1, a1', cp1, b1)" using prod_cases4 by blast
  obtain a2 d2 cp2 b2 where l2: "memcpy_loop 8 (\<lambda>d. True) (ip_csum_with_carry a1 a1') d0 cp1 b1 = (a2, d2, cp2, b2)" using prod_cases4 by blast
  obtain a3 d3 cp3 b3 where l3: "memcpy_loop 2 (\<lambda>d. True) a2 d2 cp2 b2 = (a3, d3, cp3, b3)" using prod_cases4 by blast
  note b = memcpy_body [OF l0 l1 l2 l3]
  have res: "ip_csum_and_memcpy sm dst src =
      (if length b3 = 1 then (ip_csum_with_carry a3 (ucast (hd b3)), cp3 @ b3) else (a3, cp3))"
    unfolding ip_csum_and_memcpy_def start_def [symmetric] Let_def st prod.case l0 l1 l2 l3 ..
  have r: "r = (if length b3 = 1 then ip_csum_with_carry a3 (ucast (hd b3)) else a3)" and c: "copied = cp3 @ b3"
    using assms b(3) unfolding res by (cases b3; auto split: if_splits)+
  have "cp @ bs = src" using st by (auto simp: start_def split: if_splits)
  then show "copied = src" using b(2) c by simp
  have s: "(unat s0 + le_val bs) mod 65535 = (unat sm + (if odd dst then 256 * le_val src else le_val src)) mod 65535"
  proof (cases "src \<noteq> [] \<and> dst mod 2 = 1")
    case True
    then obtain x xs where src: "src = x # xs" by (cases src) auto
    have e: "s0 = ip_csum_with_carry sm (push_bit 8 (ucast x))" "bs = xs" using st True by (simp_all add: start_def src)
    have x: "unat (push_bit 8 (ucast x) :: u64) = unat x * 256"
      using unat_u8_lt [of x] by (subst unat_push_bit_small) (simp_all add: word_nat)
    have "(unat s0 + le_val bs) mod 65535 = (unat sm + unat (push_bit 8 (ucast x) :: u64) + le_val xs) mod 65535"
      unfolding e by (rule mod_add_cong [OF with_carry_65535 refl])
    also have "\<dots> = (unat sm + unat x * 256 + 1 * 65536 * le_val xs) mod 65535" unfolding x mod_add3 by simp
    also have "\<dots> = (unat sm + 256 * le_val src) mod 65535" by (simp add: src algebra_simps)
    finally show ?thesis using True by (simp add: odd_iff_mod_2_eq_one)
  next
    case False
    then show ?thesis using st by (auto simp: start_def odd_iff_mod_2_eq_one split: if_splits)
  qed
  show "unat r mod 65535 = (unat sm + (if odd dst then 256 * le_val src else le_val src)) mod 65535"
    unfolding r memcpy_last [OF b(3)] b(1) s ..
qed

section \<open>The sum of RFC 1071\<close>

fun rfc1071_sum :: "u8 list \<Rightarrow> nat" where
  "rfc1071_sum [] = 0"
| "rfc1071_sum [a] = unat a"
| "rfc1071_sum (a # b # bs) = unat a + 256 * unat b + rfc1071_sum bs"

lemma le_val_rfc1071: "le_val bs mod 65535 = rfc1071_sum bs mod 65535"
proof (induction bs rule: rfc1071_sum.induct)
  case (3 a b bs)
  have "le_val ([a, b] @ bs) mod 65535 = (le_val [a, b] + le_val bs) mod 65535"
    by (rule le_val_even_append) simp
  also have "\<dots> = (le_val [a, b] + rfc1071_sum bs) mod 65535" using 3 by (rule mod_add_cong [OF refl])
  finally show ?case by simp
qed simp_all

lemma le_val_0: "le_val bs = 0 \<longleftrightarrow> (\<forall>b\<in>set bs. b = 0)"
  by (induction bs) (auto simp: unat_eq_zero)

section \<open>Properties\<close>

text \<open>
  C40. For data at an even address the checksum is the one's complement sum of RFC 1071: modulo
  65535, the 64-bit sum and its folding to 16 bits are the initial sum plus the sum of the 16-bit
  words, whatever the length and the alignment to larger words.
\<close>

theorem checksum_rfc1071:
  assumes "even data"
  shows "unat (ip_csum_fold (ip_incremental_checksum sm data bs)) mod 65535
    = (unat sm + rfc1071_sum bs) mod 65535"
proof -
  have "unat (ip_csum_fold (ip_incremental_checksum sm data bs)) mod 65535 = (unat sm + le_val bs) mod 65535"
    unfolding ip_csum_fold_mod(1) by (rule incremental_checksum_even [OF assms])
  also have "\<dots> = (unat sm + rfc1071_sum bs) mod 65535"
    by (rule mod_add_cong [OF refl le_val_rfc1071])
  finally show ?thesis .
qed

theorem checksum_rfc1071_witness:
  "unat (ip_csum_fold (ip_incremental_checksum 0 4 [1, 2, 3, 4, 5])) mod 65535 = 1545"
  using checksum_rfc1071 [of 4 0 "[1, 2, 3, 4, 5]"] by simp

text \<open>
  Copying while checksumming copies all bytes and, for an even destination, computes the same
  sum; for an odd destination it computes the sum with its bytes swapped.
\<close>

theorem checksum_memcpy:
  "snd (ip_csum_and_memcpy sm dst src) = src
   \<and> unat (ip_csum_fold (fst (ip_csum_and_memcpy sm dst src))) mod 65535
     = (unat sm + (if odd dst then 256 * rfc1071_sum src else rfc1071_sum src)) mod 65535"
proof -
  note m = csum_and_memcpy_sum [OF prod.collapse [symmetric], of sm dst src]
  have "(256 * le_val src) mod 65535 = (256 * rfc1071_sum src) mod 65535"
    by (rule mod_mult_cong [OF refl le_val_rfc1071])
  then have "(if odd dst then 256 * le_val src else le_val src) mod 65535
      = (if odd dst then 256 * rfc1071_sum src else rfc1071_sum src) mod 65535"
    using le_val_rfc1071 by simp
  from mod_add_cong [OF refl this, of "unat sm"] show ?thesis
    using m unfolding ip_csum_fold_mod(1) by simp
qed

text \<open>
  At an odd address the first byte and the words after it are added with the wrong parity:
  the result is the sum of the first byte and of the words of the remaining bytes, which for
  example differs from the checksum of the same bytes at an even address.
\<close>

theorem checksum_odd_address:
  assumes "odd data"
  shows "unat (ip_csum_fold (ip_incremental_checksum sm data (b # bs))) mod 65535
      = (unat sm + unat b + rfc1071_sum bs) mod 65535
    \<and> ip_csum_fold (ip_incremental_checksum 0 data [0, 1]) \<noteq> ip_csum_fold (ip_incremental_checksum 0 (data + 1) [0, 1])"
proof -
  have o: "unat (ip_csum_fold (ip_incremental_checksum s data (b # bs))) mod 65535
      = (unat s + (unat b + rfc1071_sum bs)) mod 65535" for s b bs
  proof -
    have "(unat s + (unat b + le_val bs)) mod 65535 = (unat s + (unat b + rfc1071_sum bs)) mod 65535"
      by (rule mod_add_cong [OF refl mod_add_cong [OF refl le_val_rfc1071]])
    then show ?thesis unfolding ip_csum_fold_mod(1) incremental_checksum_odd [OF assms] .
  qed
  have "unat (ip_csum_fold (ip_incremental_checksum 0 (data + 1) [0, 1])) mod 65535 = 256"
    using incremental_checksum_even [of "data + 1" 0 "[0, 1]"] assms unfolding ip_csum_fold_mod(1) by simp
  moreover have "unat (ip_csum_fold (ip_incremental_checksum 0 data [0, 1])) mod 65535 = 1" using o [of 0 0 "[1]"] by simp
  ultimately have "ip_csum_fold (ip_incremental_checksum 0 data [0, 1]) \<noteq> ip_csum_fold (ip_incremental_checksum 0 (data + 1) [0, 1])"
    by auto
  then show ?thesis using o [of sm b bs] by (simp add: add.assoc)
qed

theorem checksum_odd_address_witness:
  "ip_csum_fold (ip_incremental_checksum 0 3 [0, 1]) \<noteq> ip_csum_fold (ip_incremental_checksum 0 (3 + 1) [0, 1])"
  using checksum_odd_address [of 3 0 0 "[]"] by simp

lemma with_carry_0: "ip_csum_with_carry a b = 0 \<longleftrightarrow> a = 0 \<and> b = 0"
proof
  assume z: "ip_csum_with_carry a b = 0"
  show "a = 0 \<and> b = 0"
  proof (cases "a + b < b")
    case True
    then have "a + b + 1 = 0" using z by (simp add: ip_csum_with_carry_def Let_def)
    then have "a + b = - 1" by (simp add: eq_neg_iff_add_eq_0)
    then show ?thesis using True by (metis not_less word_n1_ge)
  next
    case False
    then have "a + b = 0" using z by (simp add: ip_csum_with_carry_def Let_def)
    then have "b = 0" using False by (metis not_less word_le_0_iff)
    then show ?thesis using \<open>a + b = 0\<close> by simp
  qed
qed (simp add: ip_csum_with_carry_def)

lemma add_even_cases:
  "ip_csum_add_even c x = (if c = 0 \<and> x \<noteq> 0 then None else Some (c - x - of_bool (c < x)))"
proof -
  have d: "c < c - x \<longleftrightarrow> c < x"
    using unat_u64_lt [of x] by (auto simp: word_less_nat_alt unat_sub_if_size word_size)
  show ?thesis
  proof (cases "c < x")
    case True
    have t: "c - x - 1 + x = c - 1" by simp
    show ?thesis
    proof (cases "c = 0")
      case True
      then have "\<not> c - 1 < x" using word_n1_ge [of x] by simp
      then have "ip_csum_with_carry (c - x - 1) x = c - 1" unfolding ip_csum_with_carry_def t Let_def by simp
      then show ?thesis using True \<open>c < x\<close> d by (auto simp: ip_csum_add_even_def Let_def)
    next
      case False
      then have "c - 1 < x" using True by (simp add: word_less_nat_alt unat_minus_one)
      then have "ip_csum_with_carry (c - x - 1) x = c" unfolding ip_csum_with_carry_def t Let_def by simp
      then show ?thesis using False True d by (simp add: ip_csum_add_even_def Let_def)
    qed
  next
    case False
    then have "ip_csum_with_carry (c - x) x = c" by (simp add: ip_csum_with_carry_def Let_def)
    moreover have "x = 0" if "c = 0" using False that by (simp add: word_neq_0_conv [symmetric])
    ultimately show ?thesis using False d by (auto simp: ip_csum_add_even_def Let_def)
  qed
qed

text \<open>
  Updating a checksum for a field that changes from \<open>old\<close> to \<open>new\<close>: the result plus the new
  value is, in one's complement arithmetic, the old sum plus the old value, with both shifted by a
  byte for a one-byte field at an odd offset; the assertion fails exactly when the intermediate
  sum is zero and the new value is not.
\<close>

theorem checksum_update:
  fixes sm old new off n
  defines "shift \<equiv> (\<lambda>v :: u64. if odd n \<and> odd off then push_bit 8 v else v)"
  shows "(case ip_csum_update_inline sm old new off n of
      None \<Rightarrow> sm = 0 \<and> shift old = 0 \<and> shift new \<noteq> 0
    | Some r \<Rightarrow> (unat r + unat (shift new)) mod 65535 = (unat sm + unat (shift old)) mod 65535)"
proof -
  have u: "ip_csum_update_inline sm old new off n = ip_csum_add_even (ip_csum_with_carry sm (shift old)) (shift new)"
    by (simp add: ip_csum_update_inline_def ip_csum_sub_even_def shift_def Let_def odd_iff_mod_2_eq_one)
  let ?c = "ip_csum_with_carry sm (shift old)"
  have c: "unat ?c mod 65535 = (unat sm + unat (shift old)) mod 65535" by (rule with_carry_65535)
  show ?thesis
  proof (cases "ip_csum_add_even ?c (shift new)")
    case None
    then show ?thesis unfolding u by (auto simp: add_even_cases with_carry_0 split: if_splits)
  next
    case (Some r)
    then have "ip_csum_with_carry r (shift new) = ?c" by (auto simp: ip_csum_add_even_def Let_def split: if_splits)
    then have "(unat r + unat (shift new)) mod 65535 = unat ?c mod 65535" by (metis with_carry_65535)
    then show ?thesis using Some c unfolding u by simp
  qed
qed

section \<open>IPv4 header checksum\<close>

lemma le_val_set_checksum:
  assumes "12 \<le> n" and "n \<le> length h"
  shows "le_val (take n (ip4_set_checksum c h)) mod 65535
    = (le_val (take n (ip4_set_checksum 0 h)) + unat c) mod 65535"
proof -
  have split: "take n (ip4_set_checksum c h)
      = take 10 h @ [ucast c, ucast (drop_bit 8 c)] @ take (n - 12) (drop 12 h)" for c
  proof (rule nth_equalityI)
    show "length (take n (ip4_set_checksum c h))
        = length (take 10 h @ [ucast c, ucast (drop_bit 8 c)] @ take (n - 12) (drop 12 h))"
      using assms by (simp add: ip4_set_checksum_def)
    fix i assume "i < length (take n (ip4_set_checksum c h))"
    then show "take n (ip4_set_checksum c h) ! i
        = (take 10 h @ [ucast c, ucast (drop_bit 8 c)] @ take (n - 12) (drop 12 h)) ! i"
      using assms by (auto simp: ip4_set_checksum_def nth_append nth_list_update nth_Cons' )
  qed
  let ?r = "take (n - 12) (drop 12 h)"
  have e: "le_val (take n (ip4_set_checksum c h)) mod 65535
      = (le_val (take 10 h) + (le_val [ucast c, ucast (drop_bit 8 c)] + le_val ?r)) mod 65535" for c :: u16
  proof -
    have "le_val (take 10 h @ [ucast c, ucast (drop_bit 8 c)] @ ?r) mod 65535
        = (le_val (take 10 h) + le_val ([ucast c, ucast (drop_bit 8 c)] @ ?r)) mod 65535"
      using assms by (intro le_val_even_append) simp
    also have "\<dots> = (le_val (take 10 h) + (le_val [ucast c, ucast (drop_bit 8 c)] + le_val ?r)) mod 65535"
      by (rule mod_add_cong [OF refl le_val_even_append]) simp
    finally show ?thesis unfolding split .
  qed
  have "le_val [ucast c, ucast (drop_bit 8 c)] = unat c"
  proof -
    have "unat (ucast c :: u8) = unat c mod 256" by (simp add: unsigned_ucast_eq take_bit_eq_mod)
    moreover have "unat (drop_bit 8 c) = unat c div 256"
      unfolding unat_drop_bit_eq by (simp add: drop_bit_eq_div)
    then have "unat (ucast (drop_bit 8 c) :: u8) = unat c div 256"
      using unat_u16_lt [of c] unat_ucast_small [of "drop_bit 8 c", where 'b = 8]
      by (simp only:) (simp add: div_less_iff_less_mult)
    ultimately show ?thesis by simp
  qed
  moreover have "le_val [ucast (0 :: u16), ucast (drop_bit 8 (0 :: u16))] = 0" by simp
  ultimately show ?thesis
    using e [of c] mod_add_cong [OF e [of 0] refl, of "unat c"]  by (simp add: ac_simps)
qed

lemma unat_not_u16: "unat (NOT (w :: u16)) = 65535 - unat w"
proof -
  have "NOT w = - 1 - w" by (simp add: not_eq_complement minus_diff_commute)
  moreover have "unat (- 1 :: u16) = 65535"
    unfolding unsigned_minus_1_eq_mask by (simp add: mask_eq_exp_minus_1)
  ultimately show ?thesis by (simp add: unat_sub word_n1_ge)
qed

lemma get_set_checksum: "12 \<le> length h \<Longrightarrow> ip4_get_checksum (ip4_set_checksum c h) = c"
proof -
  assume l: "12 \<le> length h"
  have "ip4_get_checksum (ip4_set_checksum c h) = ucast (ucast c :: u8) OR push_bit 8 (ucast (ucast (drop_bit 8 c) :: u8))"
    using l by (simp add: ip4_get_checksum_def ip4_set_checksum_def)
  also have "\<dots> = c" by (rule bit_word_eqI) (auto simp: bit_simps)
  finally show ?thesis .
qed

lemma set_checksum_valid:
  assumes "even addr" and "12 \<le> ip4_header_bytes h" and "ip4_header_bytes h \<le> length h"
  defines "h' \<equiv> ip4_set_checksum (ip4_header_checksum addr h) h"
  shows "ip4_header_checksum_is_valid addr h' \<and> rfc1071_sum (take (ip4_header_bytes h') h') mod 65535 = 0"
proof -
  let ?c = "ip4_header_checksum addr h" and ?n = "ip4_header_bytes h"
  have n: "ip4_header_bytes h' = ?n" using assms(2,3) by (simp add: h'_def ip4_header_bytes_def ip4_set_checksum_def)
  have s0: "ip4_set_checksum 0 h' = ip4_set_checksum 0 h"
    by (simp add: h'_def ip4_set_checksum_def list_update_swap)
  let ?f = "ip_csum_fold (ip_incremental_checksum 0 addr (take ?n (ip4_set_checksum 0 h)))"
  have g: "ip4_get_checksum h' = ?c" using assms(2,3) unfolding h'_def by (intro get_set_checksum) simp
  have c: "?c = (if NOT ?f = 0 \<and> ip4_get_checksum h = 0xffff then 0xffff else NOT ?f)"
    by (simp add: ip4_header_checksum_def Let_def)
  have "ip4_header_checksum addr h' = (if NOT ?f = 0 \<and> ?c = 0xffff then 0xffff else NOT ?f)"
    unfolding ip4_header_checksum_def [of addr h'] Let_def g n s0 by simp
  then have v: "ip4_header_checksum_is_valid addr h'" using g c by (auto simp: ip4_header_checksum_is_valid_def)
  have f: "unat ?f mod 65535 = le_val (take ?n (ip4_set_checksum 0 h)) mod 65535"
    unfolding ip_csum_fold_mod(1) using incremental_checksum_even [OF assms(1), of 0] by simp
  have "unat (NOT ?f) = 65535 - unat ?f" by (rule unat_not_u16)
  then have "unat ?c + unat ?f = 65535 \<or> unat ?c = 65535 \<and> unat ?f = 65535"
    using unat_u16_lt [of ?f] unfolding c by (auto simp: unat_eq_zero)
  then have cf: "(unat ?c + unat ?f) mod 65535 = 0" by auto
  have "rfc1071_sum (take ?n h') mod 65535 = le_val (take ?n h') mod 65535" by (rule le_val_rfc1071 [symmetric])
  also have "\<dots> = (le_val (take ?n (ip4_set_checksum 0 h)) + unat ?c) mod 65535"
    unfolding h'_def by (rule le_val_set_checksum [OF assms(2,3)])
  also have "\<dots> = (unat ?f + unat ?c) mod 65535" by (rule mod_add_cong [OF f [symmetric] refl])
  finally show ?thesis using v cf n by (simp add: add.commute)
qed

text \<open>
  Storing the computed checksum in an IPv4 header makes the header valid: the check accepts
  it, and the one's complement sum of all its words is zero (modulo 65535).
\<close>

theorem ip4_checksum_valid:
  assumes "even addr" and "12 \<le> ip4_header_bytes h" and "ip4_header_bytes h \<le> length h"
  defines "h' \<equiv> ip4_set_checksum (ip4_header_checksum addr h) h"
  shows "ip4_header_checksum_is_valid addr h' \<and> rfc1071_sum (take (ip4_header_bytes h') h') mod 65535 = 0"
  unfolding h'_def by (rule set_checksum_valid [OF assms(1-3)])

definition sample_ip4_header :: "u8 list" where
  "sample_ip4_header = [0x45, 0, 0, 0x54, 0, 0, 0x40, 0, 0x40, 1, 0, 0, 10, 0, 0, 1, 10, 0, 0, 2]"

theorem ip4_checksum_valid_witness:
  "ip4_header_checksum_is_valid 16 (ip4_set_checksum (ip4_header_checksum 16 sample_ip4_header) sample_ip4_header)"
proof -
  have "ip4_header_bytes sample_ip4_header = 20" by (simp add: ip4_header_bytes_def sample_ip4_header_def)
  then show ?thesis using ip4_checksum_valid [of 16 sample_ip4_header] by (simp add: sample_ip4_header_def)
qed

end
