(* ===== verification/Policer_Node.thy ===== *)
theory Policer_Node
  imports Policer_X86 Pool Ip_Checksum
begin

text \<open>
  The policer table of \<^verbatim>\<open>vnet/policer/policer.c\<close> and the packet nodes of
  \<^verbatim>\<open>vnet/policer/node_funcs.c\<close>: named configurations and policers in pools, adding and deleting them,
  the choice of the policer of a packet, the action for its colour, the marking of its DSCP with a
  new IPv4 checksum, and the node loop that takes packets one or two at a time. \<open>None\<close> is a failed
  assertion or an access outside a vector. Names are strings; the copies of the name that the hash
  tables keep or leak are not modelled, nor are packet traces, counters and the frames of the next
  nodes: the node returns every buffer with the next node it goes to, in order.
\<close>

section \<open>The policer table\<close>

record vnet_policer_main_t =
  pm_policers :: "policer_read_response_type_st pool"
  pm_configs :: "sse2_qos_pol_cfg_params_st pool"
  pm_policer_templates :: "policer_read_response_type_st pool"
  pm_policer_config_by_name :: "string \<rightharpoonup> nat"
  pm_policer_index_by_name :: "string \<rightharpoonup> nat"
  pm_policer_index_by_sw_if_index :: "u32 list"

datatype policer_error = No_such_policer_configuration | Policer_already_exists | Config_failed_sanity_check

text \<open>The table and either the error or the index of the new policer, if one was added.\<close>

definition policer_add_del ::
  "u64 \<Rightarrow> vnet_policer_main_t \<Rightarrow> string \<Rightarrow> sse2_qos_pol_cfg_params_st \<Rightarrow> bool \<Rightarrow>
   (vnet_policer_main_t \<times> (policer_error + nat option)) option" where
  "policer_add_del hz pm name cfg is_add =
    (let p = pm_policer_config_by_name pm name
     in if \<not> is_add then
       (if p = None then Some (pm, Inl No_such_policer_configuration)
        else Some (pm\<lparr>pm_policer_config_by_name := (pm_policer_config_by_name pm)(name := None),
                      pm_policer_index_by_name := (pm_policer_index_by_name pm)(name := None)\<rparr>, Inr None))
     else if p \<noteq> None then Some (pm, Inl Policer_already_exists)
     else case sse2_pol_logical_2_physical hz (Some cfg) of
         None \<Rightarrow> None
       | Some (rv, test_policer) \<Rightarrow>
           if rv = 0 then
             let (configs, cp) = pool_get zero_cfg (pm_configs pm);
                 (templates, pp) = pool_get zero_policer (pm_policer_templates pm)
             in if cp \<noteq> pp then None
                else let configs = pool_store configs cp cfg;
                         templates = pool_store templates pp test_policer;
                         by_name = (pm_policer_config_by_name pm)(name \<mapsto> cp);
                         (policers, pidx) = pool_get zero_policer (pm_policers pm);
                         policers = pool_store policers pidx (pool_vec templates ! pp)
                     in Some (pm\<lparr>pm_configs := configs, pm_policer_templates := templates,
                          pm_policer_config_by_name := by_name, pm_policers := policers,
                          pm_policer_index_by_name := (pm_policer_index_by_name pm)(name \<mapsto> pidx)\<rparr>,
                        Inr (Some pidx))
           else Some (pm, Inl Config_failed_sanity_check))"

section \<open>Packets\<close>

abbreviation (input) SSE2_QOS_ACTION_DROP :: u8 where "SSE2_QOS_ACTION_DROP \<equiv> 0"
abbreviation (input) SSE2_QOS_ACTION_TRANSMIT :: u8 where "SSE2_QOS_ACTION_TRANSMIT \<equiv> 1"
abbreviation (input) SSE2_QOS_ACTION_MARK_AND_TRANSMIT :: u8 where "SSE2_QOS_ACTION_MARK_AND_TRANSMIT \<equiv> 2"

datatype vnet_policer_index_t =
  VNET_POLICER_INDEX_BY_SW_IF_INDEX | VNET_POLICER_INDEX_BY_OPAQUE | VNET_POLICER_INDEX_BY_EITHER

datatype vnet_policer_next_t = VNET_POLICER_NEXT_TRANSMIT | VNET_POLICER_NEXT_DROP

text \<open>What the nodes use of a buffer: its length in the chain, its data and their address, and the
  metadata that select the policer.\<close>

record vlib_buffer =
  buf_length_in_chain :: u32
  buf_data :: "u8 list"
  buf_addr :: nat
  buf_sw_if_index :: u32
  buf_policer_index :: u32
  buf_error_drop :: bool

definition load_be16 :: "u8 list \<Rightarrow> nat \<Rightarrow> u16" where
  "load_be16 d i = push_bit 8 (ucast (d ! i)) OR ucast (d ! (i + 1))"

definition load_be32 :: "u8 list \<Rightarrow> nat \<Rightarrow> u32" where
  "load_be32 d i = push_bit 24 (ucast (d ! i)) OR push_bit 16 (ucast (d ! (i + 1)))
     OR push_bit 8 (ucast (d ! (i + 2))) OR ucast (d ! (i + 3))"

definition store_be32 :: "u8 list \<Rightarrow> nat \<Rightarrow> u32 \<Rightarrow> u8 list" where
  "store_be32 d i w = d[i := ucast (drop_bit 24 w), i + 1 := ucast (drop_bit 16 w),
     i + 2 := ucast (drop_bit 8 w), i + 3 := ucast w]"

text \<open>The Ethernet header has 14 bytes, with the type in the last two. The IPv4 type of service is
  the second byte of the header.\<close>

definition vnet_policer_mark :: "vlib_buffer \<Rightarrow> u8 \<Rightarrow> vlib_buffer" where
  "vnet_policer_mark b dscp =
    (let d = buf_data b; type = load_be16 d 12
     in if type = 0x0800 then
          (let ip4h = drop 14 d;
               ip4h = ip4h[1 := (ip4h ! 1 AND 0x03) OR push_bit 2 dscp];
               ip4h = ip4_set_checksum (ip4_header_checksum (buf_addr b + 14) ip4h) ip4h
           in b\<lparr>buf_data := take 14 d @ ip4h\<rparr>)
        else if type = 0x86DD then
          (let w = load_be32 d 14;
               w = w AND 0xf03fffff;
               w = w OR push_bit 22 (ucast dscp)
           in b\<lparr>buf_data := store_be32 d 14 w\<rparr>)
        else b)"

fun colour_index :: "policer_result_e \<Rightarrow> nat" where
  "colour_index POLICE_CONFORM = 0"
| "colour_index POLICE_EXCEED = 1"
| "colour_index POLICE_VIOLATE = 2"

definition vnet_policer_police ::
  "vnet_policer_main_t \<Rightarrow> vlib_buffer \<Rightarrow> u32 \<Rightarrow> u64 \<Rightarrow> policer_result_e \<Rightarrow>
   (vnet_policer_main_t \<times> vlib_buffer \<times> u8) option" where
  "vnet_policer_police pm b policer_index time packet_color =
    (let i = unat policer_index
     in if i < length (pool_vec (pm_policers pm)) then
          case vnet_police_packet (pool_vec (pm_policers pm) ! i) (buf_length_in_chain b) packet_color time of
            None \<Rightarrow> None
          | Some (pol, col) \<Rightarrow>
              let act = pol_action pol ! colour_index col;
                  b = (if act = SSE2_QOS_ACTION_MARK_AND_TRANSMIT
                       then vnet_policer_mark b (pol_mark_dscp pol ! colour_index col) else b)
              in Some (pm\<lparr>pm_policers := pool_store (pm_policers pm) i pol\<rparr>, b, act)
        else None)"

text \<open>The policer of a packet; \<open>None\<close> is an access outside the interface vector.\<close>

definition policer_index_of :: "vnet_policer_main_t \<Rightarrow> vnet_policer_index_t \<Rightarrow> vlib_buffer \<Rightarrow> u32 option" where
  "policer_index_of pm which b =
    (let by_if = (if unat (buf_sw_if_index b) < length (pm_policer_index_by_sw_if_index pm)
                  then Some (pm_policer_index_by_sw_if_index pm ! unat (buf_sw_if_index b)) else None)
     in case which of
          VNET_POLICER_INDEX_BY_SW_IF_INDEX \<Rightarrow> by_if
        | VNET_POLICER_INDEX_BY_OPAQUE \<Rightarrow> Some (buf_policer_index b)
        | VNET_POLICER_INDEX_BY_EITHER \<Rightarrow> if buf_policer_index b \<noteq> - 1 then Some (buf_policer_index b) else by_if)"

text \<open>The buffer and its next node for an action; dropped buffers get the error of the node.\<close>

definition policer_disposition :: "vlib_buffer \<Rightarrow> u8 \<Rightarrow> vlib_buffer \<times> vnet_policer_next_t" where
  "policer_disposition b act =
    (if act = SSE2_QOS_ACTION_DROP then (b\<lparr>buf_error_drop := True\<rparr>, VNET_POLICER_NEXT_DROP)
     else (b, VNET_POLICER_NEXT_TRANSMIT))"

section \<open>The node\<close>

text \<open>The state of the node loop: the table, the buffers still to take, the buffers sent on with
  their next nodes, and the counter of transmitted packets.\<close>

record policer_frame =
  fr_pm :: vnet_policer_main_t
  fr_from :: "vlib_buffer list"
  fr_to :: "(vlib_buffer \<times> vnet_policer_next_t) list"
  fr_transmitted :: nat

definition policer_sent :: "u8 \<Rightarrow> nat" where
  "policer_sent act = (if act = SSE2_QOS_ACTION_DROP then 0 else 1)"

text \<open>One iteration of the loop: a single packet, or two packets when four are left. Which of the
  two applies depends on the room in the next frame, which the loop body refills; both are allowed
  whenever the room may permit them.\<close>

inductive policer_step :: "vnet_policer_index_t \<Rightarrow> u64 \<Rightarrow> policer_frame \<Rightarrow> policer_frame \<Rightarrow> bool"
  for which :: vnet_policer_index_t and time :: u64 where
  single: "\<lbrakk>fr_from s = b0 # rest; policer_index_of (fr_pm s) which b0 = Some pi0;
      vnet_policer_police (fr_pm s) b0 pi0 time POLICE_CONFORM = Some (pm0, b0', act0)\<rbrakk>
    \<Longrightarrow> policer_step which time s
      (s\<lparr>fr_pm := pm0, fr_from := rest, fr_to := fr_to s @ [policer_disposition b0' act0],
         fr_transmitted := fr_transmitted s + policer_sent act0\<rparr>)"
| dual: "\<lbrakk>fr_from s = b0 # b1 # rest; 4 \<le> length (fr_from s);
      policer_index_of (fr_pm s) which b0 = Some pi0; policer_index_of (fr_pm s) which b1 = Some pi1;
      vnet_policer_police (fr_pm s) b0 pi0 time POLICE_CONFORM = Some (pm0, b0', act0);
      vnet_policer_police pm0 b1 pi1 time POLICE_CONFORM = Some (pm1, b1', act1)\<rbrakk>
    \<Longrightarrow> policer_step which time s
      (s\<lparr>fr_pm := pm1, fr_from := rest,
         fr_to := fr_to s @ [policer_disposition b0' act0, policer_disposition b1' act1],
         fr_transmitted := fr_transmitted s + policer_sent act0 + policer_sent act1\<rparr>)"

inductive_cases policer_stepE: "policer_step which time s s'"

text \<open>The reference: all packets of a frame, one after the other.\<close>

fun vnet_policer_packets ::
  "vnet_policer_index_t \<Rightarrow> u64 \<Rightarrow> vnet_policer_main_t \<Rightarrow> vlib_buffer list \<Rightarrow>
   (vnet_policer_main_t \<times> (vlib_buffer \<times> vnet_policer_next_t) list \<times> nat) option" where
  "vnet_policer_packets which time pm [] = Some (pm, [], 0)"
| "vnet_policer_packets which time pm (b # bs) =
    (case policer_index_of pm which b of None \<Rightarrow> None
     | Some pidx \<Rightarrow> (case vnet_policer_police pm b pidx time POLICE_CONFORM of None \<Rightarrow> None
       | Some (pm, b, act) \<Rightarrow> (case vnet_policer_packets which time pm bs of None \<Rightarrow> None
         | Some (pm, out, n) \<Rightarrow> Some (pm, policer_disposition b act # out, policer_sent act + n))))"

section \<open>The table\<close>

text \<open>The invariant: the pools are consistent, configurations and templates grow in step, both hash
  tables know the same names, and different names have different policers in use.\<close>

definition pm_ok :: "vnet_policer_main_t \<Rightarrow> bool" where
  "pm_ok pm =
    (pool_ok (pm_policers pm) \<and> pool_ok (pm_configs pm) \<and> pool_ok (pm_policer_templates pm)
     \<and> free_indices (pm_configs pm) = [] \<and> free_indices (pm_policer_templates pm) = []
     \<and> length (pool_vec (pm_configs pm)) = length (pool_vec (pm_policer_templates pm))
     \<and> dom (pm_policer_config_by_name pm) = dom (pm_policer_index_by_name pm)
     \<and> ran (pm_policer_config_by_name pm) \<subseteq> pool_live (pm_configs pm)
     \<and> ran (pm_policer_index_by_name pm) \<subseteq> pool_live (pm_policers pm)
     \<and> inj_on (pm_policer_index_by_name pm) (dom (pm_policer_index_by_name pm)))"

definition pm_init :: vnet_policer_main_t where
  "pm_init = \<lparr>pm_policers = pool_null, pm_configs = pool_null, pm_policer_templates = pool_null,
     pm_policer_config_by_name = Map.empty, pm_policer_index_by_name = Map.empty,
     pm_policer_index_by_sw_if_index = []\<rparr>"

lemma pm_ok_init: "pm_ok pm_init"
  by (simp add: pm_ok_def pm_init_def) (simp add: pool_null_def)

lemma pool_get_grow:
  "free_indices p = [] \<Longrightarrow> pool_get m p = (p\<lparr>pool_vec := pool_vec p @ [m]\<rparr>, length (pool_vec p))"
  by (simp add: pool_get_def)

lemma ran_fun_upd_None: "ran (m(k := None)) \<subseteq> ran m"
  by (auto simp: ran_def)

lemma inj_on_del: "inj_on m (dom m) \<Longrightarrow> inj_on (m(k := None)) (dom m - {k})"
  by (auto simp: inj_on_def)

lemma inj_on_add: "inj_on m (dom m) \<Longrightarrow> v \<notin> ran m \<Longrightarrow> inj_on (m(k \<mapsto> v)) (dom (m(k \<mapsto> v)))"
  by (auto simp: inj_on_def dom_def ran_def)

lemma policer_del_ok:
  assumes "pm_ok pm"
  shows "pm_ok (pm\<lparr>pm_policer_config_by_name := (pm_policer_config_by_name pm)(name := None),
     pm_policer_index_by_name := (pm_policer_index_by_name pm)(name := None)\<rparr>)"
  using assms ran_fun_upd_None [of "pm_policer_config_by_name pm" name] ran_fun_upd_None [of "pm_policer_index_by_name pm" name]
  by (auto simp: pm_ok_def intro!: inj_on_del)

text \<open>The configuration of a new name: one new element in each of the parallel pools.\<close>

definition new_config ::
    "vnet_policer_main_t \<Rightarrow> string \<Rightarrow> sse2_qos_pol_cfg_params_st \<Rightarrow> policer_read_response_type_st \<Rightarrow> vnet_policer_main_t \<Rightarrow> bool" where
  "new_config pm name cfg p pm' \<longleftrightarrow> (\<exists>c. c \<notin> pool_live (pm_configs pm) \<and> c \<notin> pool_live (pm_policer_templates pm)
     \<and> pm_policer_config_by_name pm' = (pm_policer_config_by_name pm)(name \<mapsto> c)
     \<and> pool_live (pm_configs pm') = insert c (pool_live (pm_configs pm))
     \<and> pool_live (pm_policer_templates pm') = insert c (pool_live (pm_policer_templates pm))
     \<and> pool_elt_at_index (pm_configs pm') c = Some cfg \<and> pool_elt_at_index (pm_policer_templates pm') c = Some p)"

lemma policer_add_ok:
  assumes ok: "pm_ok pm" and fresh: "pm_policer_config_by_name pm name = None"
    and l2p: "sse2_pol_logical_2_physical hz (Some cfg) = Some (0, p)"
  obtains pm' i where "policer_add_del hz pm name cfg True = Some (pm', Inr (Some i))" and "pm_ok pm'"
    and "i \<notin> pool_live (pm_policers pm)" and "pool_live (pm_policers pm') = insert i (pool_live (pm_policers pm))"
    and "pool_elt_at_index (pm_policers pm') i = Some p"
    and "\<And>j. j \<in> pool_live (pm_policers pm) \<Longrightarrow> pool_elt_at_index (pm_policers pm') j = pool_elt_at_index (pm_policers pm) j"
    and "pm_policer_index_by_name pm' = (pm_policer_index_by_name pm)(name \<mapsto> i)"
    and "new_config pm name cfg p pm'"
proof -
  let ?C = "pm_configs pm" and ?T = "pm_policer_templates pm" and ?n = "length (pool_vec (pm_configs pm))"
  have pools: "pool_ok (pm_policers pm)" "pool_ok ?C" "pool_ok ?T" "free_indices ?C = []" "free_indices ?T = []"
    "length (pool_vec ?T) = ?n" using ok by (simp_all add: pm_ok_def)
  let ?C' = "?C\<lparr>pool_vec := pool_vec ?C @ [zero_cfg]\<rparr>" and ?T' = "?T\<lparr>pool_vec := pool_vec ?T @ [zero_policer]\<rparr>"
  have gc: "pool_get zero_cfg ?C = (?C', ?n)" by (rule pool_get_grow [OF pools(4)])
  have gt: "pool_get zero_policer ?T = (?T', ?n)" using pool_get_grow [OF pools(5)] pools(6) by simp
  obtain P i where gp: "pool_get zero_policer (pm_policers pm) = (P, i)" by fastforce
  note g = pools.get_inv [OF pools(1) gp] pools.get_fresh [OF pools(1) gp] pools.get_live [OF pools(1) gp]
    pools.get_frame [OF pools(1) gp]
  note gC = pools.get_inv [OF pools(2) gc] pools.get_live [OF pools(2) gc]
  note gT = pools.get_inv [OF pools(3) gt] pools.get_live [OF pools(3) gt]
  note fresh_ct = pools.get_fresh [OF pools(2) gc] pools.get_fresh [OF pools(3) gt]
  have top: "pool_vec (pool_store ?T' ?n p) ! ?n = p" using pools(6) by (simp add: pool_store_def)
  let ?pm = "pm\<lparr>pm_configs := pool_store ?C' ?n cfg, pm_policer_templates := pool_store ?T' ?n p,
      pm_policer_config_by_name := (pm_policer_config_by_name pm)(name \<mapsto> ?n),
      pm_policers := pool_store P i p, pm_policer_index_by_name := (pm_policer_index_by_name pm)(name \<mapsto> i)\<rparr>"
  have e: "policer_add_del hz pm name cfg True = Some (?pm, Inr (Some i))"
    unfolding policer_add_del_def Let_def gc gt gp l2p option.case prod.case fresh top by simp
  have ran: "ran (pm_policer_config_by_name pm) \<subseteq> pool_live ?C" "ran (pm_policer_index_by_name pm) \<subseteq> pool_live (pm_policers pm)"
    and doms: "dom (pm_policer_config_by_name pm) = dom (pm_policer_index_by_name pm)"
    and inj: "inj_on (pm_policer_index_by_name pm) (dom (pm_policer_index_by_name pm))" using ok by (simp_all add: pm_ok_def)
  have "i \<notin> ran (pm_policer_index_by_name pm)" using ran(2) g(2) by auto
  then have inj': "inj_on ((pm_policer_index_by_name pm)(name \<mapsto> i)) (dom ((pm_policer_index_by_name pm)(name \<mapsto> i)))"
    by (rule inj_on_add [OF inj])
  have nn: "pm_policer_index_by_name pm name = None" using doms fresh by auto
  have okp: "pm_ok ?pm"
    unfolding pm_ok_def using g(1,3) gC gT(1) pools(4-6) ran doms inj' fresh nn
    by (simp add: ran_map_upd) auto
  have "new_config pm name cfg p ?pm" unfolding new_config_def using gC gT fresh_ct pools(6) by (intro exI [of _ ?n]) auto
  then show ?thesis
    by (intro that [OF e okp g(2)]) (use g in auto)
qed

section \<open>The node loop\<close>

lemma police_keeps_interfaces:
  "vnet_policer_police pm b i time col = Some (pm', b', act) \<Longrightarrow>
   pm_policer_index_by_sw_if_index pm' = pm_policer_index_by_sw_if_index pm"
  by (auto simp: vnet_policer_police_def Let_def split: if_splits prod.splits option.splits)

lemma policer_index_of_cong:
  "pm_policer_index_by_sw_if_index pm' = pm_policer_index_by_sw_if_index pm \<Longrightarrow>
   policer_index_of pm' which b = policer_index_of pm which b"
  by (simp add: policer_index_of_def)

text \<open>What is left to do from a state of the loop.\<close>

definition policer_finish where
  "policer_finish which time s =
    map_option (\<lambda>(pm, out, n). (pm, fr_to s @ out, fr_transmitted s + n))
      (vnet_policer_packets which time (fr_pm s) (fr_from s))"

lemma policer_step_finish:
  assumes "policer_step which time s s'"
  shows "policer_finish which time s' = policer_finish which time s"
  using assms
proof (cases rule: policer_step.cases)
  case (single b0 rest pi0 pm0 b0' act0)
  then show ?thesis
    by (cases "vnet_policer_packets which time pm0 rest") (auto simp: policer_finish_def)
next
  case (dual b0 b1 rest pi0 pi1 pm0 b0' act0 pm1 b1' act1)
  have "policer_index_of pm0 which b1 = Some pi1"
    using policer_index_of_cong [OF police_keeps_interfaces [OF dual(6)]] dual(5) by simp
  then show ?thesis using dual
    by (cases "vnet_policer_packets which time pm1 rest") (auto simp: policer_finish_def)
qed

lemma policer_steps_finish:
  "(policer_step which time)\<^sup>*\<^sup>* s t \<Longrightarrow> policer_finish which time t = policer_finish which time s"
  by (induction rule: rtranclp_induct) (simp_all add: policer_step_finish)

lemma policer_packets_run:
  "vnet_policer_packets which time (fr_pm s) (fr_from s) = Some (pm, out, n) \<Longrightarrow>
   (policer_step which time)\<^sup>*\<^sup>* s
     (s\<lparr>fr_pm := pm, fr_from := [], fr_to := fr_to s @ out, fr_transmitted := fr_transmitted s + n\<rparr>)"
proof (induction "fr_from s" arbitrary: s out n)
  case Nil
  then have "vnet_policer_packets which time (fr_pm s) [] = Some (pm, out, n)" "fr_from s = []" by simp_all
  then show ?case by (cases s) simp
next
  case (Cons b bs)
  have f: "fr_from s = b # bs" using Cons.hyps(2) by simp
  obtain i pm1 b' act out' n' where
    e: "policer_index_of (fr_pm s) which b = Some i"
      "vnet_policer_police (fr_pm s) b i time POLICE_CONFORM = Some (pm1, b', act)"
      "vnet_policer_packets which time pm1 bs = Some (pm, out', n')"
      "out = policer_disposition b' act # out'" "n = policer_sent act + n'"
    using Cons.prems unfolding f by (auto split: option.splits)
  let ?s = "s\<lparr>fr_pm := pm1, fr_from := bs, fr_to := fr_to s @ [policer_disposition b' act],
      fr_transmitted := fr_transmitted s + policer_sent act\<rparr>"
  have "policer_step which time s ?s" by (rule policer_step.single [OF f e(1,2)])
  moreover have "(policer_step which time)\<^sup>*\<^sup>* ?s
      (?s\<lparr>fr_pm := pm, fr_from := [], fr_to := fr_to ?s @ out', fr_transmitted := fr_transmitted ?s + n'\<rparr>)"
    using Cons.hyps(1) [of ?s out' n'] e(3) by simp
  ultimately have "(policer_step which time)\<^sup>*\<^sup>* s
      (?s\<lparr>fr_pm := pm, fr_from := [], fr_to := fr_to ?s @ out', fr_transmitted := fr_transmitted ?s + n'\<rparr>)"
    by (rule converse_rtranclp_into_rtranclp)
  then show ?case using e(4,5) by (simp add: add.assoc)
qed

section \<open>A frame for one policer\<close>

definition offered_by :: "u64 \<Rightarrow> vlib_buffer list \<Rightarrow> offered list" where
  "offered_by time bs = map (\<lambda>b. (buf_length_in_chain b, POLICE_CONFORM, time)) bs"

definition next_of :: "policer_read_response_type_st \<Rightarrow> policer_result_e \<Rightarrow> vnet_policer_next_t" where
  "next_of p col = (if pol_action p ! colour_index col = SSE2_QOS_ACTION_DROP
     then VNET_POLICER_NEXT_DROP else VNET_POLICER_NEXT_TRANSMIT)"

lemma next_of_cong: "pol_action p' = pol_action p \<Longrightarrow> next_of p' = next_of p"
  by (rule ext) (simp add: next_of_def)

lemma policer_packets_same:
  assumes "i < length (pool_vec (pm_policers pm))" and "unat (pol_scale (pool_vec (pm_policers pm) ! i)) < 32"
    and "\<forall>b\<in>set bs. map_option unat (policer_index_of pm which b) = Some i"
  shows "\<exists>pm' out n p' rs. vnet_policer_packets which time pm bs = Some (pm', out, n)
    \<and> police_run (pool_vec (pm_policers pm) ! i) (offered_by time bs) = Some (p', rs)
    \<and> pm_policers pm' = pool_store (pm_policers pm) i p'
    \<and> map snd out = map (next_of (pool_vec (pm_policers pm) ! i)) rs
    \<and> n = length (filter (\<lambda>x. x = VNET_POLICER_NEXT_TRANSMIT) (map snd out))"
  using assms
proof (induction bs arbitrary: pm)
  case Nil
  then show ?case by (simp add: offered_by_def pool_store_def)
next
  case (Cons b bs)
  let ?p = "pool_vec (pm_policers pm) ! i"
  obtain q col where q: "vnet_police_packet ?p (buf_length_in_chain b) POLICE_CONFORM time = Some (q, col)"
    using Cons.prems(2) by (cases "police_outcome ?p (buf_length_in_chain b) POLICE_CONFORM time")
      (simp add: vnet_police_packet_refill word_le_nat_alt)
  have act: "pol_action q = pol_action ?p" using vnet_police_packet_actions [OF q] by simp
  let ?act = "pol_action q ! colour_index col"
  let ?b = "if ?act = 2 then vnet_policer_mark b (pol_mark_dscp q ! colour_index col) else b"
  let ?pm = "pm\<lparr>pm_policers := pool_store (pm_policers pm) i q\<rparr>"
  obtain x where x: "policer_index_of pm which b = Some x" "unat x = i" using Cons.prems(3) by auto
  have v: "vnet_policer_police pm b x time POLICE_CONFORM = Some (?pm, ?b, ?act)"
    unfolding vnet_policer_police_def Let_def x(2) q using Cons.prems(1) by simp
  have st: "pool_vec (pm_policers ?pm) ! i = q" using Cons.prems(1) by (simp add: pool_store_def)
  have "i < length (pool_vec (pm_policers ?pm))" using Cons.prems(1) by simp
  moreover have "unat (pol_scale (pool_vec (pm_policers ?pm) ! i)) < 32"
    using Cons.prems(2) vnet_police_packet_frame [OF q] by (simp only: st)
  moreover have "\<forall>b\<in>set bs. map_option unat (policer_index_of ?pm which b) = Some i"
    using Cons.prems(3) policer_index_of_cong [of ?pm pm which] by simp
  ultimately obtain pm' out n p' rs where IH: "vnet_policer_packets which time ?pm bs = Some (pm', out, n)"
    "police_run q (offered_by time bs) = Some (p', rs)" "pm_policers pm' = pool_store (pm_policers ?pm) i p'"
    "map snd out = map (next_of q) rs" "n = length (filter (\<lambda>x. x = VNET_POLICER_NEXT_TRANSMIT) (map snd out))"
    using Cons.IH [of ?pm] unfolding st by blast
  have r: "police_run ?p (offered_by time (b # bs)) = Some (p', col # rs)"
    using IH(2) by (simp add: offered_by_def q)
  have d: "snd (policer_disposition ?b ?act) = next_of ?p col" by (simp add: policer_disposition_def next_of_def act)
  let ?out = "policer_disposition ?b ?act # out"
  have a1: "vnet_policer_packets which time pm (b # bs) = Some (pm', ?out, policer_sent ?act + n)"
    using v IH(1) x(1) by simp
  have a2: "policer_sent ?act + n = length (filter (\<lambda>x. x = VNET_POLICER_NEXT_TRANSMIT) (map snd ?out))"
    using IH(5) by (simp add: policer_sent_def policer_disposition_def)
  have a3: "map snd ?out = map (next_of ?p) (col # rs)" using d IH(4) next_of_cong [OF act] by simp
  have a4: "pm_policers pm' = pool_store (pm_policers pm) i p'" using IH(3) by (simp add: pool_store_def)
  show ?case by (intro exI conjI) (fact a1 r a4 a3 a2)+
qed

section \<open>Marking\<close>

lemma mark_ip4:
  fixes b dscp
  defines "h \<equiv> drop 14 (buf_data b)" and "h' \<equiv> drop 14 (buf_data (vnet_policer_mark b dscp))"
  assumes "load_be16 (buf_data b) 12 = 0x0800" and "even (buf_addr b)"
    and "12 \<le> ip4_header_bytes h" and "ip4_header_bytes h \<le> length h"
  shows "take 14 (buf_data (vnet_policer_mark b dscp)) = take 14 (buf_data b)"
    and "length h' = length h" and "h' ! 1 = (h ! 1 AND 3) OR push_bit 2 dscp"
    and "\<And>i. i \<notin> {1, 10, 11} \<Longrightarrow> h' ! i = h ! i"
    and "ip4_header_checksum_is_valid (buf_addr b + 14) h'"
    and "rfc1071_sum (take (ip4_header_bytes h') h') mod 65535 = 0" and "length (buf_data (vnet_policer_mark b dscp)) = length (buf_data b)"
proof -
  let ?h = "h[1 := (h ! 1 AND 3) OR push_bit 2 dscp]"
  let ?h' = "ip4_set_checksum (ip4_header_checksum (buf_addr b + 14) ?h) ?h"
  have len: "12 \<le> length h" using assms(5,6) by simp
  then have l14: "14 \<le> length (buf_data b)" by (simp add: h_def)
  have m: "buf_data (vnet_policer_mark b dscp) = take 14 (buf_data b) @ ?h'"
    using assms(3) by (simp add: vnet_policer_mark_def Let_def h_def)
  then show "take 14 (buf_data (vnet_policer_mark b dscp)) = take 14 (buf_data b)" using l14 by simp
  have h': "h' = ?h'" unfolding h'_def m using l14 by simp
  show "length h' = length h" unfolding h' by (simp add: ip4_set_checksum_def)
  show "h' ! 1 = (h ! 1 AND 3) OR push_bit 2 dscp" unfolding h' using len by (simp add: ip4_set_checksum_def)
  show "h' ! i = h ! i" if "i \<notin> {1, 10, 11}" for i unfolding h' using that by (simp add: ip4_set_checksum_def)
  have n: "ip4_header_bytes ?h = ip4_header_bytes h" by (simp add: ip4_header_bytes_def)
  show "ip4_header_checksum_is_valid (buf_addr b + 14) h'" "rfc1071_sum (take (ip4_header_bytes h') h') mod 65535 = 0"
    unfolding h' using set_checksum_valid [of "buf_addr b + 14" ?h] assms(4-6) n by simp_all
  show "length (buf_data (vnet_policer_mark b dscp)) = length (buf_data b)"
    unfolding m using l14 by (simp add: h_def ip4_set_checksum_def)
qed

section \<open>Properties\<close>

text \<open>
  C5. Adding a policer under a new name whose configuration is accepted gives a consistent table
  with exactly one new policer, one new configuration and one new template: the name leads to them,
  they hold the configuration and its translation, and all other policers are as before. A known
  name, a rejected configuration and the deletion of an unknown name are reported and change
  nothing. Deleting a name removes it from both hash tables, keeps the table consistent and changes
  nothing else. The assertion on the parallel pools never fails.
\<close>

theorem policer_add_del_correct:
  assumes "pm_ok pm" and "sse2_pol_logical_2_physical hz (Some cfg) = Some (rv, p)"
  shows "\<exists>pm' r. policer_add_del hz pm name cfg is_add = Some (pm', r) \<and> pm_ok pm'
    \<and> (if is_add \<and> pm_policer_config_by_name pm name = None \<and> rv = 0
       then \<exists>i. r = Inr (Some i) \<and> i \<notin> pool_live (pm_policers pm)
         \<and> pool_live (pm_policers pm') = insert i (pool_live (pm_policers pm)) \<and> new_config pm name cfg p pm'
         \<and> pm_policer_index_by_name pm' = (pm_policer_index_by_name pm)(name \<mapsto> i)
         \<and> pool_elt_at_index (pm_policers pm') i = Some p
         \<and> (\<forall>j. j \<in> pool_live (pm_policers pm) \<longrightarrow>
               pool_elt_at_index (pm_policers pm') j = pool_elt_at_index (pm_policers pm) j)
       else if is_add then pm' = pm \<and> r = Inl (if pm_policer_config_by_name pm name \<noteq> None
         then Policer_already_exists else Config_failed_sanity_check)
       else if pm_policer_config_by_name pm name = None
       then pm' = pm \<and> r = Inl No_such_policer_configuration
       else r = Inr None
         \<and> pm' = pm\<lparr>pm_policer_config_by_name := (pm_policer_config_by_name pm)(name := None),
             pm_policer_index_by_name := (pm_policer_index_by_name pm)(name := None)\<rparr>)"
proof (cases "is_add \<and> pm_policer_config_by_name pm name = None \<and> rv = 0")
  case True
  then have "pm_policer_config_by_name pm name = None" "sse2_pol_logical_2_physical hz (Some cfg) = Some (0, p)"
    using assms(2) by auto
  then obtain pm' i where "policer_add_del hz pm name cfg True = Some (pm', Inr (Some i))" "pm_ok pm'"
      "i \<notin> pool_live (pm_policers pm)" "pool_live (pm_policers pm') = insert i (pool_live (pm_policers pm))"
      "new_config pm name cfg p pm'" "pool_elt_at_index (pm_policers pm') i = Some p"
      "\<And>j. j \<in> pool_live (pm_policers pm) \<Longrightarrow> pool_elt_at_index (pm_policers pm') j = pool_elt_at_index (pm_policers pm) j"
      "pm_policer_index_by_name pm' = (pm_policer_index_by_name pm)(name \<mapsto> i)"
    by (metis policer_add_ok [OF assms(1)])
  then show ?thesis using True by (intro exI [of _ pm'] exI [of _ "Inr (Some i)"]) simp
next
  case False
  then show ?thesis
    using assms policer_del_ok [OF assms(1), of name] by (auto simp: policer_add_del_def Let_def)
qed

theorem policer_add_del_correct_witness:
  "\<exists>pm' i p. policer_add_del 2000000000 pm_init ''gold'' sample_2r3c True = Some (pm', Inr (Some i))
    \<and> pm_ok pm' \<and> pool_elt_at_index (pm_policers pm') i = Some p"
proof -
  obtain p where p: "sse2_pol_logical_2_physical 2000000000 (Some sample_2r3c) = Some (0, p)"
    by (rule sample_2r3c_policer)
  have "pm_policer_config_by_name pm_init ''gold'' = None" by (simp add: pm_init_def)
  then show ?thesis using policer_add_del_correct [OF pm_ok_init p, of "''gold''" True] by auto
qed

text \<open>
  C6. The loop of the policer node, however it mixes single and double iterations, does what
  taking the packets one after the other does: the same policers, the same buffers to the same
  next nodes in the same order, the same count; and there is such a run whenever no packet leads
  outside the vectors.
\<close>

theorem policer_node_loop:
  "(policer_step which time)\<^sup>*\<^sup>* \<lparr>fr_pm = pm, fr_from = bs, fr_to = [], fr_transmitted = 0\<rparr>
     \<lparr>fr_pm = pm', fr_from = [], fr_to = out, fr_transmitted = n\<rparr>
   \<longleftrightarrow> vnet_policer_packets which time pm bs = Some (pm', out, n)"
proof
  assume "(policer_step which time)\<^sup>*\<^sup>* \<lparr>fr_pm = pm, fr_from = bs, fr_to = [], fr_transmitted = 0\<rparr>
     \<lparr>fr_pm = pm', fr_from = [], fr_to = out, fr_transmitted = n\<rparr>"
  from policer_steps_finish [OF this] show "vnet_policer_packets which time pm bs = Some (pm', out, n)"
    by (auto simp: policer_finish_def option.map_id)
next
  assume "vnet_policer_packets which time pm bs = Some (pm', out, n)"
  then show "(policer_step which time)\<^sup>*\<^sup>* \<lparr>fr_pm = pm, fr_from = bs, fr_to = [], fr_transmitted = 0\<rparr>
     \<lparr>fr_pm = pm', fr_from = [], fr_to = out, fr_transmitted = n\<rparr>"
    using policer_packets_run [of which time "\<lparr>fr_pm = pm, fr_from = bs, fr_to = [], fr_transmitted = 0\<rparr>"] by simp
qed

text \<open>
  C7. The packets of a frame that all belong to one policer, by their interface, by their opaque data or
  by either, are policed as one run of that policer: its buckets end where the run ends, no other policer
  changes, every packet goes to the drop node exactly if the action for its colour is drop, and the counter
  counts the others.
\<close>

theorem policer_frame_is_run:
  assumes "i < length (pool_vec (pm_policers pm))" and "unat (pol_scale (pool_vec (pm_policers pm) ! i)) < 32"
    and "\<forall>b\<in>set bs. map_option unat (policer_index_of pm which b) = Some i"
  shows "\<exists>pm' out n p' rs. vnet_policer_packets which time pm bs = Some (pm', out, n)
    \<and> police_run (pool_vec (pm_policers pm) ! i) (offered_by time bs) = Some (p', rs)
    \<and> pm_policers pm' = pool_store (pm_policers pm) i p'
    \<and> map snd out = map (next_of (pool_vec (pm_policers pm) ! i)) rs
    \<and> n = length (filter (\<lambda>x. x = VNET_POLICER_NEXT_TRANSMIT) (map snd out))"
  by (rule policer_packets_same [OF assms])

definition sample_pm :: vnet_policer_main_t where
  "sample_pm = pm_init\<lparr>pm_policers := \<lparr>pool_vec = [sample_two_rate], free_bitmap = [], free_indices = []\<rparr>,
     pm_policer_index_by_sw_if_index := [0]\<rparr>"

definition sample_buffer :: vlib_buffer where
  "sample_buffer = \<lparr>buf_length_in_chain = 100,
     buf_data = replicate 12 0 @ [8, 0] @ sample_ip4_header, buf_addr = 128,
     buf_sw_if_index = 0, buf_policer_index = 0, buf_error_drop = False\<rparr>"

theorem policer_frame_is_run_witness:
  "\<exists>pm' out n p' rs. vnet_policer_packets VNET_POLICER_INDEX_BY_SW_IF_INDEX 12 sample_pm [sample_buffer, sample_buffer] = Some (pm', out, n)
    \<and> police_run sample_two_rate (offered_by 12 [sample_buffer, sample_buffer]) = Some (p', rs)
    \<and> map snd out = map (next_of sample_two_rate) rs"
proof -
  have p: "0 < length (pool_vec (pm_policers sample_pm))" "pool_vec (pm_policers sample_pm) ! 0 = sample_two_rate"
    by (simp_all add: sample_pm_def)
  moreover have "unat (pol_scale sample_two_rate) < 32" by (simp add: sample_two_rate_def)
  moreover have "\<forall>b\<in>set [sample_buffer, sample_buffer].
      map_option unat (policer_index_of sample_pm VNET_POLICER_INDEX_BY_SW_IF_INDEX b) = Some 0"
    by (simp add: sample_buffer_def sample_pm_def policer_index_of_def)
  ultimately show ?thesis
    using policer_frame_is_run [of 0 sample_pm "[sample_buffer, sample_buffer]" VNET_POLICER_INDEX_BY_SW_IF_INDEX 12] by auto
qed

text \<open>
  C8. Marking an IPv4 packet sets its DSCP, keeps the two ECN bits, leaves every other byte of the
  packet but the checksum alone, and leaves a header whose checksum is valid: the one's complement sum of
  RFC 1071 over the header is zero, and the code that checks headers accepts it.
\<close>

theorem policer_mark_ip4:
  assumes "load_be16 (buf_data b) 12 = 0x0800" and "even (buf_addr b)"
    and "12 \<le> ip4_header_bytes (drop 14 (buf_data b))"
    and "ip4_header_bytes (drop 14 (buf_data b)) \<le> length (drop 14 (buf_data b))"
  shows "take 14 (buf_data (vnet_policer_mark b dscp)) = take 14 (buf_data b)
    \<and> drop 14 (buf_data (vnet_policer_mark b dscp)) ! 1 = (drop 14 (buf_data b) ! 1 AND 3) OR push_bit 2 dscp
    \<and> (\<forall>i. i \<notin> {1, 10, 11} \<longrightarrow>
         drop 14 (buf_data (vnet_policer_mark b dscp)) ! i = drop 14 (buf_data b) ! i)
    \<and> length (buf_data (vnet_policer_mark b dscp)) = length (buf_data b)
    \<and> rfc1071_sum (take (ip4_header_bytes (drop 14 (buf_data b))) (drop 14 (buf_data (vnet_policer_mark b dscp)))) mod 65535 = 0
    \<and> ip4_header_checksum_is_valid (buf_addr b + 14) (drop 14 (buf_data (vnet_policer_mark b dscp)))"
proof -
  have n: "ip4_header_bytes (drop 14 (buf_data (vnet_policer_mark b dscp))) = ip4_header_bytes (drop 14 (buf_data b))"
    using mark_ip4(4) [OF assms, of 0] by (simp add: ip4_header_bytes_def)
  show ?thesis using mark_ip4(1,3,4,5,7) [OF assms] mark_ip4(6) [OF assms, of dscp] unfolding n by blast
qed

theorem policer_mark_ip4_witness:
  "ip4_header_checksum_is_valid (128 + 14) (drop 14 (buf_data (vnet_policer_mark sample_buffer 46)))"
proof -
  have d: "drop 14 (buf_data sample_buffer) = sample_ip4_header" by (simp add: sample_buffer_def numeral_eq_Suc)
  have l: "load_be16 (buf_data sample_buffer) 12 = 0x0800"
    by (simp add: load_be16_def sample_buffer_def nth_append)
  have n: "ip4_header_bytes sample_ip4_header = 20" by (simp add: ip4_header_bytes_def sample_ip4_header_def)
  have "buf_addr sample_buffer = 128" by (simp add: sample_buffer_def)
  then show ?thesis
    using policer_mark_ip4 [of sample_buffer 46] l d n by (simp add: sample_ip4_header_def)
qed

end
