(* ===== verification/Svm_Fifo.thy ===== *)
theory Svm_Fifo
  imports Pool "HOL-Library.Monad_Syntax"
begin

text \<open>
  The byte fifos of \<^verbatim>\<open>svm/svm_fifo.c\<close> and \<^verbatim>\<open>svm/svm_fifo.h\<close>: a ring of bytes between one producer and
  one consumer, with a list of out-of-order segments ahead of the tail. The state is the record
  \<open>svm_fifo\<close>; a segment is an element of a pool and its links are pool indices. A failed assertion,
  an access outside an array or a remainder by zero is \<open>None\<close>. The value that a function returns is
  paired with the fifo it leaves. The mutex and the condition variable of the structure are not
  used by the operations and are left out.
\<close>

section \<open>State\<close>

abbreviation (input) OOO_SEGMENT_INVALID_INDEX :: u32 where "OOO_SEGMENT_INVALID_INDEX \<equiv> 0xFFFFFFFF"

record ooo_segment =
  seg_next :: u32
  seg_prev :: u32
  seg_fifo_position :: u32
  seg_length :: u32

record svm_fifo =
  fifo_cursize :: u32
  fifo_nitems :: u32
  fifo_head :: u32
  fifo_tail :: u32
  fifo_ooo_segments :: "ooo_segment pool"
  fifo_ooos_list_head :: u32
  fifo_ooos_newest :: u32
  fifo_data :: "u8 list"

text \<open>The fifo in zeroed memory, or the null pointer when the allocation fails.\<close>

definition svm_fifo_create :: "bool \<Rightarrow> u32 \<Rightarrow> svm_fifo option" where
  "svm_fifo_create allocated data_size_in_bytes =
    (if \<not> allocated then None else Some
    \<lparr>fifo_cursize = 0, fifo_nitems = data_size_in_bytes, fifo_head = 0, fifo_tail = 0,
     fifo_ooo_segments = pool_null, fifo_ooos_list_head = OOO_SEGMENT_INVALID_INDEX, fifo_ooos_newest = 0,
     fifo_data = replicate (unat data_size_in_bytes) 0\<rparr>)"

definition svm_fifo_max_dequeue :: "svm_fifo \<Rightarrow> u32" where
  "svm_fifo_max_dequeue f = fifo_cursize f"

definition svm_fifo_max_enqueue :: "svm_fifo \<Rightarrow> u32" where
  "svm_fifo_max_enqueue f = fifo_nitems f - fifo_cursize f"

definition svm_fifo_has_ooo_data :: "svm_fifo \<Rightarrow> bool" where
  "svm_fifo_has_ooo_data f = (fifo_ooos_list_head f \<noteq> OOO_SEGMENT_INVALID_INDEX)"

section \<open>Out-of-order segments\<close>

definition ooo_segment_offset :: "svm_fifo \<Rightarrow> ooo_segment \<Rightarrow> u32" where
  "ooo_segment_offset f s = (fifo_nitems f + seg_fifo_position s - fifo_tail f) mod fifo_nitems f"

definition ooo_segment_end_offset :: "svm_fifo \<Rightarrow> ooo_segment \<Rightarrow> u32" where
  "ooo_segment_end_offset f s =
    (fifo_nitems f + seg_fifo_position s + seg_length s - fifo_tail f) mod fifo_nitems f"

text \<open>Reading and writing the element of the pool behind a segment pointer.\<close>

definition seg_at :: "svm_fifo \<Rightarrow> u32 \<Rightarrow> ooo_segment option" where
  "seg_at f i = pool_elt_at_index (fifo_ooo_segments f) (unat i)"

definition seg_put :: "svm_fifo \<Rightarrow> u32 \<Rightarrow> ooo_segment \<Rightarrow> svm_fifo" where
  "seg_put f i s = f\<lparr>fifo_ooo_segments := pool_store (fifo_ooo_segments f) (unat i) s\<rparr>"

definition ooo_segment_new :: "svm_fifo \<Rightarrow> u32 \<Rightarrow> u32 \<Rightarrow> svm_fifo \<times> u32" where
  "ooo_segment_new f start len =
    (let s = \<lparr>seg_next = OOO_SEGMENT_INVALID_INDEX, seg_prev = OOO_SEGMENT_INVALID_INDEX,
              seg_fifo_position = start, seg_length = len\<rparr>;
         (segments, i) = pool_get s (fifo_ooo_segments f)
     in (f\<lparr>fifo_ooo_segments := pool_store segments i s\<rparr>, word_of_nat i))"

definition ooo_segment_del :: "svm_fifo \<Rightarrow> u32 \<Rightarrow> svm_fifo option" where
  "ooo_segment_del f index = do {
     cur \<leftarrow> seg_at f index;
     f \<leftarrow> (if seg_next cur \<noteq> OOO_SEGMENT_INVALID_INDEX
          then do {next \<leftarrow> seg_at f (seg_next cur); Some (seg_put f (seg_next cur) (next\<lparr>seg_prev := seg_prev cur\<rparr>))}
          else Some f);
     cur \<leftarrow> seg_at f index;
     f \<leftarrow> (if seg_prev cur \<noteq> OOO_SEGMENT_INVALID_INDEX
          then do {prev \<leftarrow> seg_at f (seg_prev cur); Some (seg_put f (seg_prev cur) (prev\<lparr>seg_next := seg_next cur\<rparr>))}
          else Some (f\<lparr>fifo_ooos_list_head := seg_next cur\<rparr>));
     segments \<leftarrow> pool_put_index (fifo_ooo_segments f) (unat index);
     Some (f\<lparr>fifo_ooo_segments := segments\<rparr>)
   }"

text \<open>The search for the first segment that starts after the new one, or the last segment.\<close>

partial_function (option) ooo_find :: "svm_fifo \<Rightarrow> u32 \<Rightarrow> u32 \<Rightarrow> u32 option" where
  "ooo_find f offset i = do {
     s \<leftarrow> seg_at f i;
     if seg_next s \<noteq> OOO_SEGMENT_INVALID_INDEX \<and> ooo_segment_offset f s \<le> offset
     then ooo_find f offset (seg_next s)
     else Some i
   }"

text \<open>The removal of the segments from \<open>it\<close> on that the new one covers completely.\<close>

partial_function (option) ooo_remove_covered ::
    "svm_fifo \<Rightarrow> u32 \<Rightarrow> u32 \<Rightarrow> (svm_fifo \<times> u32) option" where
  "ooo_remove_covered f end_offset it =
    (if it = OOO_SEGMENT_INVALID_INDEX then Some (f, it)
     else do {
       s \<leftarrow> seg_at f it;
       if ooo_segment_end_offset f s < end_offset
       then do {f \<leftarrow> ooo_segment_del f it; ooo_remove_covered f end_offset (seg_next s)}
       else Some (f, it)
     })"

text \<open>A new segment before (after) the segment \<open>s_index\<close>.\<close>

definition ooo_add_before :: "svm_fifo \<Rightarrow> u32 \<Rightarrow> u32 \<Rightarrow> u32 \<Rightarrow> svm_fifo option" where
  "ooo_add_before f position len s_index = do {
     let (f, new_index) = ooo_segment_new f position len;
     s \<leftarrow> seg_at f s_index;
     new_s \<leftarrow> seg_at f new_index;
     (f, new_s) \<leftarrow> (if seg_prev s \<noteq> OOO_SEGMENT_INVALID_INDEX
          then do {
            prev \<leftarrow> seg_at f (seg_prev s);
            Some (seg_put f (seg_prev s) (prev\<lparr>seg_next := new_index\<rparr>), new_s\<lparr>seg_prev := seg_prev s\<rparr>)}
          else Some (f\<lparr>fifo_ooos_list_head := new_index\<rparr>, new_s));
     let f = seg_put f new_index (new_s\<lparr>seg_next := s_index\<rparr>);
     s \<leftarrow> seg_at f s_index;
     Some ((seg_put f s_index (s\<lparr>seg_prev := new_index\<rparr>))\<lparr>fifo_ooos_newest := new_index\<rparr>)
   }"

definition ooo_add_after :: "svm_fifo \<Rightarrow> u32 \<Rightarrow> u32 \<Rightarrow> u32 \<Rightarrow> svm_fifo option" where
  "ooo_add_after f position len s_index = do {
     let (f, new_index) = ooo_segment_new f position len;
     s \<leftarrow> seg_at f s_index;
     new_s \<leftarrow> seg_at f new_index;
     (f, new_s) \<leftarrow> (if seg_next s \<noteq> OOO_SEGMENT_INVALID_INDEX
          then do {
            next \<leftarrow> seg_at f (seg_next s);
            Some (seg_put f (seg_next s) (next\<lparr>seg_prev := new_index\<rparr>), new_s\<lparr>seg_next := seg_next s\<rparr>)}
          else Some (f, new_s));
     let f = seg_put f new_index (new_s\<lparr>seg_prev := s_index\<rparr>);
     s \<leftarrow> seg_at f s_index;
     Some ((seg_put f s_index (s\<lparr>seg_next := new_index\<rparr>))\<lparr>fifo_ooos_newest := new_index\<rparr>)
   }"

text \<open>The new segment reaches the segment \<open>s_index\<close> from the left.\<close>

definition ooo_merge_head :: "svm_fifo \<Rightarrow> u32 \<Rightarrow> u32 \<Rightarrow> u32 \<Rightarrow> u32 \<Rightarrow> u32 \<Rightarrow> svm_fifo option" where
  "ooo_merge_head f position offset end_offset s_eof s_index = do {
     s \<leftarrow> seg_at f s_index;
     f \<leftarrow> (if seg_prev s \<noteq> OOO_SEGMENT_INVALID_INDEX
          then do {
            prev \<leftarrow> seg_at f (seg_prev s);
            if offset \<le> ooo_segment_end_offset f prev
            then ooo_segment_del (seg_put f s_index (s\<lparr>seg_fifo_position := seg_fifo_position prev,
                   seg_length := s_eof - ooo_segment_offset f prev\<rparr>)) (seg_prev s)
            else Some f}
          else let s = s\<lparr>seg_fifo_position := position\<rparr>
               in Some (seg_put f s_index (s\<lparr>seg_length := s_eof - ooo_segment_offset f s\<rparr>)));
     if s_eof < end_offset
     then do {
       s \<leftarrow> seg_at f s_index;
       (f, it) \<leftarrow> ooo_remove_covered f end_offset (seg_next s);
       s \<leftarrow> seg_at f s_index;
       let f = seg_put f s_index (s\<lparr>seg_length := end_offset - ooo_segment_offset f s\<rparr>);
       if it \<noteq> OOO_SEGMENT_INVALID_INDEX
       then do {
         i \<leftarrow> seg_at f it;
         if ooo_segment_offset f i < end_offset
         then do {
           s \<leftarrow> seg_at f s_index;
           ooo_segment_del (seg_put f s_index (s\<lparr>seg_length :=
             seg_length s + (seg_length i - (ooo_segment_offset f i - end_offset))\<rparr>)) it}
         else Some f}
       else Some f}
     else Some f
   }"

definition ooo_segment_add :: "svm_fifo \<Rightarrow> u32 \<Rightarrow> u32 \<Rightarrow> svm_fifo option" where
  "ooo_segment_add f offset len =
    (if fifo_nitems f = 0 then None
     else let position = (fifo_tail f + offset) mod fifo_nitems f; end_offset = offset + len
     in if fifo_ooos_list_head f = OOO_SEGMENT_INVALID_INDEX
        then let (f, i) = ooo_segment_new f position len
             in Some (f\<lparr>fifo_ooos_list_head := i, fifo_ooos_newest := i\<rparr>)
        else do {
          s_index \<leftarrow> ooo_find f offset (fifo_ooos_list_head f);
          s \<leftarrow> seg_at f s_index;
          let s_sof = ooo_segment_offset f s;
          let s_eof = ooo_segment_end_offset f s;
          if end_offset < s_sof then ooo_add_before f position len s_index
          else if s_eof < offset then ooo_add_after f position len s_index
          else do {
            f \<leftarrow> (if offset \<le> s_sof then ooo_merge_head f position offset end_offset s_eof s_index
                 else if s_eof \<le> end_offset
                 then Some (seg_put f s_index (s\<lparr>seg_length := end_offset - ooo_segment_offset f s\<rparr>))
                 else Some f);
            Some (f\<lparr>fifo_ooos_newest := s_index\<rparr>)}
        })"

text \<open>The loop over the segments that the last tail update overlaps; the fifo, the segment and the
  distance of its start behind the tail.\<close>

definition ooo_diff :: "svm_fifo \<Rightarrow> ooo_segment \<Rightarrow> u32" where
  "ooo_diff f s = (fifo_nitems f + fifo_tail f - seg_fifo_position s) mod fifo_nitems f"

partial_function (option) ooo_collect_loop ::
    "svm_fifo \<Rightarrow> u32 \<Rightarrow> u32 \<Rightarrow> u32 \<Rightarrow> (svm_fifo \<times> u32 \<times> u32) option" where
  "ooo_collect_loop f n_bytes_enqueued i diff =
    (if 0 < diff \<and> diff < n_bytes_enqueued
     then do {
       s \<leftarrow> seg_at f i;
       if diff < seg_length s
       then Some (f\<lparr>fifo_tail := (fifo_tail f + (seg_length s - diff)) mod fifo_nitems f\<rparr>, i, diff)
       else if seg_next s \<noteq> OOO_SEGMENT_INVALID_INDEX
       then do {
         s' \<leftarrow> seg_at f (seg_next s);
         let diff = ooo_diff f s';
         f \<leftarrow> ooo_segment_del f i;
         ooo_collect_loop f n_bytes_enqueued (seg_next s) diff}
       else Some (f, i, diff)}
     else Some (f, i, diff))"

definition ooo_segment_try_collect :: "svm_fifo \<Rightarrow> u32 \<Rightarrow> (svm_fifo \<times> u32) option" where
  "ooo_segment_try_collect f n_bytes_enqueued =
    (if fifo_nitems f = 0 then None
     else do {
       s \<leftarrow> seg_at f (fifo_ooos_list_head f);
       (f, i, diff) \<leftarrow> ooo_collect_loop f n_bytes_enqueued (fifo_ooos_list_head f) (ooo_diff f s);
       if diff = 0
       then do {
         s \<leftarrow> seg_at f i;
         let space = fifo_nitems f - fifo_cursize f;
         let bytes = (if seg_length s \<le> space then seg_length s else space);
         f \<leftarrow> ooo_segment_del (f\<lparr>fifo_tail := (fifo_tail f + bytes) mod fifo_nitems f\<rparr>) i;
         Some (f, bytes)}
       else Some (f, 0)
     })"

section \<open>Enqueue and dequeue\<close>

text \<open>\<open>clib_memcpy\<close> to and from the data of the fifo.\<close>

definition data_write :: "u8 list \<Rightarrow> nat \<Rightarrow> u8 list \<Rightarrow> u8 list option" where
  "data_write d i bs =
    (if i + length bs \<le> length d then Some (take i d @ bs @ drop (i + length bs) d) else None)"

definition data_read :: "u8 list \<Rightarrow> nat \<Rightarrow> nat \<Rightarrow> u8 list option" where
  "data_read d i n = (if i + n \<le> length d then Some (take n (drop i d)) else None)"

definition wrap_index :: "u32 \<Rightarrow> u32 \<Rightarrow> u32" where
  "wrap_index nitems i = (if i = nitems then 0 else i)"

text \<open>
  The part of an enqueue after the read of \<open>cursize\<close> and before the atomic addition: copy of the
  data in at most two pieces and advance of the tail, or only the advance for a null pointer.
\<close>

definition enqueue_copy :: "svm_fifo \<Rightarrow> u32 \<Rightarrow> u32 \<Rightarrow> u8 list option \<Rightarrow> (svm_fifo \<times> u32) option" where
  "enqueue_copy f cursize max_bytes copy_from_here =
    (let nitems = fifo_nitems f;
         total = (if nitems - cursize < max_bytes then nitems - cursize else max_bytes)
     in case copy_from_here of
       Some src \<Rightarrow> do {
         let first = (if nitems - fifo_tail f < total then nitems - fifo_tail f else total);
         _ \<leftarrow> (if unat total \<le> length src then Some () else None);
         d \<leftarrow> data_write (fifo_data f) (unat (fifo_tail f)) (take (unat first) src);
         let f = f\<lparr>fifo_data := d, fifo_tail := wrap_index nitems (fifo_tail f + first)\<rparr>;
         let second = total - first;
         f \<leftarrow> (if second \<noteq> 0
              then do {
                d \<leftarrow> data_write (fifo_data f) (unat (fifo_tail f)) (take (unat second) (drop (unat first) src));
                Some (f\<lparr>fifo_data := d, fifo_tail := wrap_index nitems (fifo_tail f + second)\<rparr>)}
              else Some f);
         Some (f, total)}
     | None \<Rightarrow>
         if max_bytes \<le> nitems - cursize \<and> nitems \<noteq> 0
         then Some (f\<lparr>fifo_tail := (fifo_tail f + max_bytes) mod nitems\<rparr>, max_bytes)
         else None)"

definition svm_fifo_enqueue_internal ::
    "svm_fifo \<Rightarrow> u32 \<Rightarrow> u8 list option \<Rightarrow> (svm_fifo \<times> int) option" where
  "svm_fifo_enqueue_internal f max_bytes copy_from_here =
    (if fifo_cursize f = fifo_nitems f then Some (f, - 2)
     else do {
       (f, total) \<leftarrow> enqueue_copy f (fifo_cursize f) max_bytes copy_from_here;
       (f, total) \<leftarrow> (if svm_fifo_has_ooo_data f
            then do {(f, bytes) \<leftarrow> ooo_segment_try_collect f total; Some (f, total + bytes)}
            else Some (f, total));
       Some (f\<lparr>fifo_cursize := fifo_cursize f + total\<rparr>, sint total)
     })"

definition svm_fifo_enqueue_nowait ::
    "svm_fifo \<Rightarrow> u32 \<Rightarrow> u8 list option \<Rightarrow> (svm_fifo \<times> int) option" where
  "svm_fifo_enqueue_nowait = svm_fifo_enqueue_internal"

definition svm_fifo_enqueue_with_offset ::
    "svm_fifo \<Rightarrow> u32 \<Rightarrow> u32 \<Rightarrow> u8 list \<Rightarrow> (svm_fifo \<times> int) option" where
  "svm_fifo_enqueue_with_offset f offset required_bytes src =
    (if \<not> 0 < offset then None
     else if fifo_nitems f - fifo_cursize f < required_bytes + offset then Some (f, - 1)
     else do {
       f \<leftarrow> ooo_segment_add f offset required_bytes;
       let nitems = fifo_nitems f;
       let total = required_bytes;
       let tail_plus_offset = (fifo_tail f + offset) mod nitems;
       let first = (if nitems - tail_plus_offset < total then nitems - tail_plus_offset else total);
       _ \<leftarrow> (if unat total \<le> length src then Some () else None);
       d \<leftarrow> data_write (fifo_data f) (unat tail_plus_offset) (take (unat first) src);
       let f = f\<lparr>fifo_data := d\<rparr>;
       let second = total - first;
       f \<leftarrow> (if second \<noteq> 0
            then do {
              let tail_plus_offset = (tail_plus_offset + first) mod nitems;
              _ \<leftarrow> (if tail_plus_offset = 0 then Some () else None);
              d \<leftarrow> data_write (fifo_data f) (unat tail_plus_offset) (take (unat second) (drop (unat first) src));
              Some (f\<lparr>fifo_data := d\<rparr>)}
            else Some f);
       Some (f, 0)
     })"

text \<open>
  The part of a dequeue between the read of \<open>cursize\<close> and the atomic subtraction. The bytes that
  are copied out are part of the result.
\<close>

definition dequeue_copy :: "svm_fifo \<Rightarrow> u32 \<Rightarrow> u32 \<Rightarrow> bool \<Rightarrow> (svm_fifo \<times> u32 \<times> u8 list) option" where
  "dequeue_copy f cursize max_bytes copy_here =
    (let nitems = fifo_nitems f;
         total = (if cursize < max_bytes then cursize else max_bytes)
     in if copy_here
        then do {
          let first = (if nitems - fifo_head f < total then nitems - fifo_head f else total);
          out1 \<leftarrow> data_read (fifo_data f) (unat (fifo_head f)) (unat first);
          let f = f\<lparr>fifo_head := wrap_index nitems (fifo_head f + first)\<rparr>;
          let second = total - first;
          (f, out2) \<leftarrow> (if second \<noteq> 0
               then do {
                 out2 \<leftarrow> data_read (fifo_data f) (unat (fifo_head f)) (unat second);
                 Some (f\<lparr>fifo_head := wrap_index nitems (fifo_head f + second)\<rparr>, out2)}
               else Some (f, []));
          Some (f, total, out1 @ out2)}
        else if max_bytes \<le> cursize \<and> nitems \<noteq> 0
        then Some (f\<lparr>fifo_head := (fifo_head f + max_bytes) mod nitems\<rparr>, max_bytes, [])
        else None)"

definition svm_fifo_dequeue_nowait ::
    "svm_fifo \<Rightarrow> u32 \<Rightarrow> bool \<Rightarrow> (svm_fifo \<times> int \<times> u8 list) option" where
  "svm_fifo_dequeue_nowait f max_bytes copy_here =
    (if fifo_cursize f = 0 then Some (f, - 2, [])
     else do {
       (f, total, out) \<leftarrow> dequeue_copy f (fifo_cursize f) max_bytes copy_here;
       Some (f\<lparr>fifo_cursize := fifo_cursize f - total\<rparr>, sint total, out)
     })"

definition svm_fifo_peek ::
    "svm_fifo \<Rightarrow> u32 \<Rightarrow> u32 \<Rightarrow> bool \<Rightarrow> (int \<times> u8 list) option" where
  "svm_fifo_peek f offset max_bytes copy_here =
    (if fifo_cursize f = 0 then Some (- 2, [])
     else let total = (if fifo_cursize f < max_bytes then fifo_cursize f else max_bytes)
     in if copy_here
        then do {
          let room = fifo_nitems f - fifo_head f + offset;
          let first = (if room < total then room else total);
          out1 \<leftarrow> data_read (fifo_data f) (unat (fifo_head f + offset)) (unat first);
          let second = total - first;
          out2 \<leftarrow> (if second \<noteq> 0 then data_read (fifo_data f) 0 (unat second) else Some []);
          Some (sint total, out1 @ out2)}
        else Some (sint total, []))"

definition svm_fifo_dequeue_drop :: "svm_fifo \<Rightarrow> u32 \<Rightarrow> svm_fifo \<times> int" where
  "svm_fifo_dequeue_drop f max_bytes =
    (if fifo_cursize f = 0 then (f, - 2)
     else let cursize = fifo_cursize f; nitems = fifo_nitems f;
              total = (if cursize < max_bytes then cursize else max_bytes);
              first = (if nitems - fifo_head f < total then nitems - fifo_head f else total);
              f = f\<lparr>fifo_head := wrap_index nitems (fifo_head f + first)\<rparr>;
              second = total - first;
              f = (if second \<noteq> 0 then f\<lparr>fifo_head := wrap_index nitems (fifo_head f + second)\<rparr> else f)
          in (f\<lparr>fifo_cursize := fifo_cursize f - total\<rparr>, sint total))"

section \<open>The ring\<close>

definition ring_get :: "'a list \<Rightarrow> nat \<Rightarrow> nat \<Rightarrow> 'a list" where
  "ring_get d i k = map (\<lambda>j. d ! ((i + j) mod length d)) [0..<k]"

definition ring_write :: "'a list \<Rightarrow> nat \<Rightarrow> 'a list \<Rightarrow> 'a list" where
  "ring_write d t bs =
    map (\<lambda>m. let j = (m + length d - t) mod length d in if j < length bs then bs ! j else d ! m) [0..<length d]"

lemma length_ring_get [simp]: "length (ring_get d i k) = k"
  by (simp add: ring_get_def)

lemma length_ring_write [simp]: "length (ring_write d t bs) = length d"
  by (simp add: ring_write_def)

lemma ring_write_nth:
  "m < length d \<Longrightarrow> ring_write d t bs ! m =
    (if (m + length d - t) mod length d < length bs then bs ! ((m + length d - t) mod length d) else d ! m)"
  by (simp add: ring_write_def Let_def)

lemma ring_get_nth: "j < k \<Longrightarrow> ring_get d i k ! j = d ! ((i + j) mod length d)"
  by (simp add: ring_get_def)

lemma ring_get_add: "ring_get d i (k + l) = ring_get d i k @ ring_get d ((i + k) mod length d) l"
proof (rule nth_equalityI)
  fix j assume "j < length (ring_get d i (k + l))"
  moreover have "(i + k + (j - k)) mod length d = (i + j) mod length d" if "\<not> j < k" using that by simp
  ultimately show "ring_get d i (k + l) ! j = (ring_get d i k @ ring_get d ((i + k) mod length d) l) ! j"
    by (simp add: ring_get_nth nth_append mod_add_left_eq del: add_diff_assoc2 add_diff_assoc)
qed simp

lemma take_ring_get: "k \<le> l \<Longrightarrow> take k (ring_get d i l) = ring_get d i k"
  by (rule nth_equalityI) (auto simp: ring_get_nth)

lemma drop_ring_get: "k \<le> l \<Longrightarrow> drop k (ring_get d i l) = ring_get d ((i + k) mod length d) (l - k)"
  by (rule nth_equalityI) (auto simp: ring_get_nth mod_simps add.assoc)

text \<open>The distance from \<open>t\<close> to \<open>m\<close> around the ring.\<close>

lemma ring_dist:
  assumes "t < n" and "j < n"
  shows "((t + j) mod n + n - t) mod n = (j :: nat)"
proof (cases "t + j < n")
  case True
  then show ?thesis using assms by simp
next
  case False
  then have "(t + j) mod n = t + j - n" using assms by (metis add_less_mono le_mod_geq mod_less not_less less_diff_conv2 add.commute)
  then show ?thesis using False assms by simp
qed

lemma ring_write_in:
  assumes "t < length d" and "j < length bs" and "length bs \<le> length d"
  shows "ring_write d t bs ! ((t + j) mod length d) = bs ! j"
proof -
  have "(t + j) mod length d < length d" using assms by (intro mod_less_divisor) linarith
  moreover have "((t + j) mod length d + length d - t) mod length d = j" using assms by (intro ring_dist) auto
  ultimately show ?thesis using assms(2) by (simp add: ring_write_def)
qed

lemma ring_write_out:
  assumes "t < length d" and "length bs \<le> j" and "j < length d"
  shows "ring_write d t bs ! ((t + j) mod length d) = d ! ((t + j) mod length d)"
proof -
  have "(t + j) mod length d < length d" using assms by (intro mod_less_divisor) linarith
  moreover have "((t + j) mod length d + length d - t) mod length d = j" using assms by (intro ring_dist) auto
  ultimately show ?thesis using assms(2) by (simp add: ring_write_def)
qed

lemma data_write_ring:
  assumes "t + length bs \<le> length d" and "t < length d"
  shows "data_write d t bs = Some (ring_write d t bs)"
proof -
  have "(take t d @ bs @ drop (t + length bs) d) ! m = ring_write d t bs ! m" if m: "m < length d" for m
  proof (cases "t \<le> m")
    case True
    then have "(m + length d - t) mod length d = m - t" using m by (simp add: mod_if)
    then show ?thesis using True m assms by (auto simp: ring_write_def nth_append)
  next
    case False
    then have "m + length d - t < length d" using m by linarith
    then have "(m + length d - t) mod length d = m + length d - t" by simp
    moreover have "\<not> m + length d - t < length bs" using assms by linarith
    ultimately show ?thesis using False m assms unfolding ring_write_nth [OF m] by (simp add: nth_append)
  qed
  then show ?thesis using assms by (auto simp: data_write_def intro!: nth_equalityI)
qed

lemma data_write_wrap:
  assumes "t < length d" and "length bs \<le> length d" and "f = length d - t" and "f < length bs"
  shows "data_write (ring_write d t (take f bs)) 0 (drop f bs) = Some (ring_write d t bs)"
proof -
  let ?d = "ring_write d t (take f bs)"
  have "(drop f bs @ drop (length bs - f) ?d) ! m = ring_write d t bs ! m" if m: "m < length d" for m
  proof (cases "t \<le> m")
    case True
    then have "(m + length d - t) mod length d = m - t" "m - t < f" using m assms(3) by (simp_all add: mod_if)
    then show ?thesis using True m assms by (auto simp: ring_write_def nth_append)
  next
    case False
    then have "m + length d - t < length d" using m by linarith
    then have e: "(m + length d - t) mod length d = m + length d - t" by simp
    show ?thesis
    proof (cases "m < length bs - f")
      case True
      then have "m + length d - t < length bs" using False assms by linarith
      moreover have "f + m = m + length d - t" using False assms by linarith
      ultimately show ?thesis using True m e assms by (simp add: ring_write_def nth_append)
    next
      case False
      then have "\<not> m + length d - t < length bs" "\<not> m + length d - t < f" using \<open>\<not> t \<le> m\<close> m assms by linarith+
      then show ?thesis using False m e assms by (simp add: ring_write_nth nth_append)
    qed
  qed
  then show ?thesis using assms by (auto simp: data_write_def intro!: nth_equalityI)
qed

lemma data_read_ring:
  assumes "h + k \<le> length d" and "h < length d"
  shows "data_read d h k = Some (ring_get d h k)"
  using assms by (auto simp: data_read_def ring_get_nth intro!: nth_equalityI)

lemma ring_write_Nil [simp]: "ring_write d t [] = d"
  by (simp add: ring_write_def map_nth)

lemma ring_write_offset:
  assumes "t < length d" and "a + length bs \<le> length d" and "a < length d" and "x < length d"
  shows "ring_write d ((t + a) mod length d) bs ! ((t + x) mod length d)
    = (if a \<le> x \<and> x < a + length bs then bs ! (x - a) else d ! ((t + x) mod length d))"
proof -
  let ?p = "(t + a) mod length d"
  have p: "?p < length d" using assms by (intro mod_less_divisor) linarith
  define j where "j = (if a \<le> x then x - a else length d - a + x)"
  have "a + j = (if a \<le> x then x else x + length d)" using assms by (auto simp: j_def)
  moreover have "(?p + j) mod length d = (t + (a + j)) mod length d" by (simp only: mod_add_left_eq add.assoc)
  ultimately have e: "(t + x) mod length d = (?p + j) mod length d" by (auto simp: add.assoc [symmetric])
  have j: "j < length d" using assms by (auto simp: j_def)
  show ?thesis
  proof (cases "a \<le> x \<and> x < a + length bs")
    case True
    then have "j < length bs" "j = x - a" by (auto simp: j_def)
    then show ?thesis using True ring_write_in [OF p, of j bs] assms(2) e by simp
  next
    case False
    then have "length bs \<le> j" using assms by (auto simp: j_def)
    then show ?thesis using False ring_write_out [OF p _ j, of bs] e by auto
  qed
qed

section \<open>Copies into and out of the ring\<close>

text \<open>The ring is well-formed: a size that fits \<open>int\<close>, data of that size, indices inside it.\<close>

definition ring_ok :: "svm_fifo \<Rightarrow> bool" where
  "ring_ok f = (0 < unat (fifo_nitems f) \<and> unat (fifo_nitems f) < 2 ^ 31
     \<and> length (fifo_data f) = unat (fifo_nitems f)
     \<and> unat (fifo_head f) < unat (fifo_nitems f) \<and> unat (fifo_tail f) < unat (fifo_nitems f))"

lemma unat_u32_add: "unat a + unat b < 2 ^ 32 \<Longrightarrow> unat (a + b :: u32) = unat a + unat b"
  by (simp add: unat_word_ariths)

lemma unat_u32_sub: "unat b \<le> unat a \<Longrightarrow> unat (a - b :: u32) = unat a - unat b"
  by (simp add: unat_sub word_le_nat_alt)

lemma unat_u32_min: "unat (if a < b then a else b :: u32) = min (unat a) (unat b)"
  by (auto simp: word_less_nat_alt min_def)

lemma unat_wrap_index:
  assumes "unat i + unat k \<le> unat n" and "unat n < 2 ^ 31" and "0 < unat n"
  shows "unat (wrap_index n (i + k)) = (unat i + unat k) mod unat n"
proof -
  have s: "unat (i + k) = unat i + unat k" by (rule unat_u32_add) (use assms in simp)
  show ?thesis
  proof (cases "unat i + unat k = unat n")
    case True
    then have "i + k = n" using s by (simp add: word_unat_eq_iff)
    then show ?thesis using True by (simp add: wrap_index_def)
  next
    case False
    then have "i + k \<noteq> n" using s by auto
    then show ?thesis using False s assms(1) by (simp add: wrap_index_def)
  qed
qed

lemma unat_mod_index:
  assumes "unat i < unat n" and "unat k \<le> unat n" and "unat n < 2 ^ 31"
  shows "unat ((i + k) mod n :: u32) = (unat i + unat k) mod unat n"
  using assms by (simp add: unat_mod unat_u32_add)

text \<open>Word-level facts about the two pieces of a copy of \<open>total\<close> bytes at the index \<open>i\<close>.\<close>

lemma copy_pieces:
  fixes n i total :: u32
  assumes "unat i < unat n" and "unat total \<le> unat n" and "unat n < 2 ^ 31"
  defines "first \<equiv> if n - i < total then n - i else total"
  shows "unat first = min (unat n - unat i) (unat total)"
    and "unat (total - first) = unat total - min (unat n - unat i) (unat total)"
    and "unat (wrap_index n (i + first)) = (unat i + unat first) mod unat n"
    and "total - first \<noteq> 0 \<Longrightarrow> wrap_index n (i + first) = 0 \<and>
      unat (wrap_index n (wrap_index n (i + first) + (total - first))) = (unat i + unat total) mod unat n"
    and "total - first = 0 \<Longrightarrow> unat first = unat total"
proof -
  have ni: "unat (n - i) = unat n - unat i" using assms(1) by (simp add: unat_u32_sub)
  show f: "unat first = min (unat n - unat i) (unat total)"
    unfolding first_def by (simp only: unat_u32_min ni)
  then show s: "unat (total - first) = unat total - min (unat n - unat i) (unat total)"
    by (simp add: unat_u32_sub)
  show w: "unat (wrap_index n (i + first)) = (unat i + unat first) mod unat n"
    using assms f by (intro unat_wrap_index) auto
  show "unat first = unat total" if "total - first = 0" using that by simp
  assume "total - first \<noteq> 0"
  then have "unat (total - first) \<noteq> 0" by (simp only: unat_eq_0) simp
  then have lt: "unat n - unat i < unat total" using s by linarith
  then have "unat first = unat n - unat i" using f by simp
  then have "unat i + unat first = unat n" using assms(1) by simp
  then have z: "wrap_index n (i + first) = 0" using w by (simp add: unat_eq_0)
  have ss: "unat (total - first) = unat i + unat total - unat n" using s lt assms(1) by simp
  have "unat (wrap_index n (0 + (total - first))) = unat (total - first) mod unat n"
    using unat_wrap_index [of 0 "total - first" n] assms ss by simp
  also have "\<dots> = (unat i + unat total) mod unat n"
    using lt assms(1) unfolding ss by (metis add_diff_inverse_nat le_mod_geq less_diff_conv2 nat_less_le not_less add.commute less_imp_le)
  finally show "wrap_index n (i + first) = 0 \<and>
      unat (wrap_index n (wrap_index n (i + first) + (total - first))) = (unat i + unat total) mod unat n"
    using z by simp
qed

lemma enqueue_copy_ok:
  assumes "ring_ok f" and "unat c \<le> unat (fifo_nitems f)"
    and "k = min (unat (fifo_nitems f) - unat c) (unat max_bytes)" and "k \<le> length src"
  shows "\<exists>f'. enqueue_copy f c max_bytes (Some src) = Some (f', word_of_nat k)
    \<and> f' = f\<lparr>fifo_data := ring_write (fifo_data f) (unat (fifo_tail f)) (take k src), fifo_tail := fifo_tail f'\<rparr>
    \<and> unat (fifo_tail f') = (unat (fifo_tail f) + k) mod unat (fifo_nitems f)"
proof -
  let ?n = "fifo_nitems f" and ?t = "fifo_tail f"
  define total where "total = (if ?n - c < max_bytes then ?n - c else max_bytes)"
  have k: "unat total = k" using assms(2,3) by (simp add: total_def unat_u32_min unat_u32_sub)
  have w: "total = word_of_nat k" by (simp add: k [symmetric])
  have b: "unat ?t < unat ?n" "unat total \<le> unat ?n" "unat ?n < 2 ^ 31" "length (fifo_data f) = unat ?n"
    using assms(1,3) k by (auto simp: ring_ok_def)
  define first where "first = (if ?n - ?t < total then ?n - ?t else total)"
  note p = copy_pieces [OF b(1-3), folded first_def]
  have fs: "length (take (unat first) src) = unat first" using p(1) k assms(4) by simp
  have d1: "data_write (fifo_data f) (unat ?t) (take (unat first) src)
      = Some (ring_write (fifo_data f) (unat ?t) (take (unat first) src))"
    by (rule data_write_ring) (use b p(1) fs in simp_all)
  show ?thesis
  proof (cases "total - first = 0")
    case True
    then have "unat first = k" using p(5) k by simp
    then have "enqueue_copy f c max_bytes (Some src)
        = Some (f\<lparr>fifo_data := ring_write (fifo_data f) (unat ?t) (take k src), fifo_tail := wrap_index ?n (?t + first)\<rparr>, total)"
      unfolding enqueue_copy_def Let_def total_def [symmetric] first_def [symmetric]
      using True d1 k assms(4) by simp
    then show ?thesis using p(3) \<open>unat first = k\<close> w by simp
  next
    case False
    note q = p(4) [OF False]
    have "unat (total - first) \<noteq> 0" using False by (simp only: unat_eq_0) simp
    then have fl: "unat first = unat ?n - unat ?t" "unat first < k" "unat (total - first) = k - unat first"
      using p(1,2) k by auto
    have "data_write (ring_write (fifo_data f) (unat ?t) (take (unat first) (take k src))) 0 (drop (unat first) (take k src))
        = Some (ring_write (fifo_data f) (unat ?t) (take k src))"
      by (rule data_write_wrap) (use b fl k assms(4) in simp_all)
    then have d2: "data_write (ring_write (fifo_data f) (unat ?t) (take (unat first) src)) 0
          (take (k - unat first) (drop (unat first) src)) = Some (ring_write (fifo_data f) (unat ?t) (take k src))"
      using fl by (simp add: drop_take min_absorb1)
    have "enqueue_copy f c max_bytes (Some src)
        = Some (f\<lparr>fifo_data := ring_write (fifo_data f) (unat ?t) (take k src),
                  fifo_tail := wrap_index ?n (wrap_index ?n (?t + first) + (total - first))\<rparr>, total)"
      unfolding enqueue_copy_def Let_def total_def [symmetric] first_def [symmetric]
      using False d1 d2 k assms(4) q fl(3) by simp
    then show ?thesis using q [THEN conjunct2] q [THEN conjunct1] k w by simp
  qed
qed

lemma dequeue_copy_ok:
  assumes "ring_ok f" and "unat c \<le> unat (fifo_nitems f)" and "k = min (unat c) (unat max_bytes)"
  shows "\<exists>f'. dequeue_copy f c max_bytes True = Some (f', word_of_nat k, ring_get (fifo_data f) (unat (fifo_head f)) k)
    \<and> f' = f\<lparr>fifo_head := fifo_head f'\<rparr>
    \<and> unat (fifo_head f') = (unat (fifo_head f) + k) mod unat (fifo_nitems f)"
proof -
  let ?n = "fifo_nitems f" and ?h = "fifo_head f" and ?d = "fifo_data f"
  define total where "total = (if c < max_bytes then c else max_bytes)"
  have k: "unat total = k" using assms(3) by (simp add: total_def unat_u32_min)
  have w: "total = word_of_nat k" by (simp add: k [symmetric])
  have b: "unat ?h < unat ?n" "unat total \<le> unat ?n" "unat ?n < 2 ^ 31" "length ?d = unat ?n"
    using assms k by (auto simp: ring_ok_def)
  define first where "first = (if ?n - ?h < total then ?n - ?h else total)"
  note p = copy_pieces [OF b(1-3), folded first_def]
  have r1: "data_read ?d (unat ?h) (unat first) = Some (ring_get ?d (unat ?h) (unat first))"
    by (rule data_read_ring) (use b p(1) in simp_all)
  show ?thesis
  proof (cases "total - first = 0")
    case True
    then have "unat first = k" using p(5) k by simp
    then have "dequeue_copy f c max_bytes True
        = Some (f\<lparr>fifo_head := wrap_index ?n (?h + first)\<rparr>, total, ring_get ?d (unat ?h) k)"
      unfolding dequeue_copy_def Let_def total_def [symmetric] first_def [symmetric] using True r1 by simp
    then show ?thesis using p(3) \<open>unat first = k\<close> w by simp
  next
    case False
    note q = p(4) [OF False]
    have "unat (total - first) \<noteq> 0" using False by (simp only: unat_eq_0) simp
    then have fl: "unat first = unat ?n - unat ?h" "unat first < k" "unat (total - first) = k - unat first"
      using p(1,2) k by auto
    have "unat ?h + unat first = length ?d" using fl b by simp
    then have "ring_get ?d (unat ?h) (unat first + (k - unat first))
        = ring_get ?d (unat ?h) (unat first) @ ring_get ?d 0 (k - unat first)"
      by (subst ring_get_add) simp
    then have g: "ring_get ?d (unat ?h) k = ring_get ?d (unat ?h) (unat first) @ ring_get ?d 0 (k - unat first)"
      using fl by simp
    have "data_read ?d 0 (k - unat first) = Some (ring_get ?d 0 (k - unat first))"
      by (rule data_read_ring) (use b k in auto)
    then have "dequeue_copy f c max_bytes True
        = Some (f\<lparr>fifo_head := wrap_index ?n (wrap_index ?n (?h + first) + (total - first))\<rparr>, total, ring_get ?d (unat ?h) k)"
      unfolding dequeue_copy_def Let_def total_def [symmetric] first_def [symmetric]
      using False r1 q fl(3) g by simp
    then show ?thesis using q [THEN conjunct2] q [THEN conjunct1] k w by simp
  qed
qed

section \<open>The queue of bytes\<close>

text \<open>A fifo without out-of-order data, and the bytes in it.\<close>

definition fifo_contents :: "svm_fifo \<Rightarrow> u8 list" where
  "fifo_contents f = ring_get (fifo_data f) (unat (fifo_head f)) (unat (fifo_cursize f))"

definition fifo_sized :: "svm_fifo \<Rightarrow> bool" where
  "fifo_sized f = (ring_ok f \<and> unat (fifo_cursize f) \<le> unat (fifo_nitems f)
     \<and> unat (fifo_tail f) = (unat (fifo_head f) + unat (fifo_cursize f)) mod unat (fifo_nitems f))"

definition fifo_ok :: "svm_fifo \<Rightarrow> bool" where
  "fifo_ok f = (fifo_sized f \<and> \<not> svm_fifo_has_ooo_data f)"

lemma unat_word_of_nat: "n < 2 ^ LENGTH('a) \<Longrightarrow> unat (word_of_nat n :: 'a::len word) = n"
  by (simp add: unsigned_of_nat take_bit_nat_eq_self_iff)

lemma sint_small: "unat (w :: u32) < 2 ^ 31 \<Longrightarrow> sint w = int (unat w)"
proof -
  assume "unat w < 2 ^ 31"
  then have "nat (uint w) < 2 ^ 31" by (simp only: unat_eq_nat_uint)
  then have "uint w < int (2 ^ 31)" by (rule nat_less_iff [OF uint_ge_0, THEN iffD1])
  then have u: "uint w < 2 ^ 31" by simp
  have "sint w = signed_take_bit 31 (uint w)" by (simp add: sint_uint)
  also have "\<dots> = uint w" by (rule signed_take_bit_int_eq_self) (use u uint_ge_0 [of w] in linarith)+
  finally show ?thesis by simp
qed

lemma ring_get_write:
  assumes "h < length d" and "k + length bs \<le> length d"
  shows "ring_get (ring_write d ((h + k) mod length d) bs) h (k + length bs) = ring_get d h k @ bs"
proof (rule nth_equalityI)
  fix j assume j: "j < length (ring_get (ring_write d ((h + k) mod length d) bs) h (k + length bs))"
  let ?t = "(h + k) mod length d"
  have t: "?t < length d" using assms by (intro mod_less_divisor) linarith
  show "ring_get (ring_write d ?t bs) h (k + length bs) ! j = (ring_get d h k @ bs) ! j"
  proof (cases "j < k")
    case True
    have e: "(h + j) mod length d = (?t + (length d - k + j)) mod length d"
    proof -
      have "(?t + (length d - k + j)) mod length d = (h + k + (length d - k + j)) mod length d" by (simp only: mod_add_left_eq)
      also have "h + k + (length d - k + j) = h + j + length d" using assms by linarith
      finally show ?thesis by simp
    qed
    have "ring_write d ?t bs ! ((?t + (length d - k + j)) mod length d) = d ! ((?t + (length d - k + j)) mod length d)"
      by (rule ring_write_out) (use t assms True in linarith)+
    then show ?thesis using True e by (simp add: ring_get_nth nth_append)
  next
    case False
    then have "h + k + (j - k) = h + j" by linarith
    then have "(h + j) mod length d = (?t + (j - k)) mod length d" by (metis mod_add_left_eq)
    moreover have "ring_write d ?t bs ! ((?t + (j - k)) mod length d) = bs ! (j - k)"
      by (rule ring_write_in) (use t assms False j in auto)
    ultimately show ?thesis using False j by (simp add: ring_get_nth nth_append)
  qed
qed simp

text \<open>What the parts of an enqueue and of a dequeue do to the fifo.\<close>

lemma fifo_enqueue:
  assumes "fifo_ok f" and "n = min (unat (fifo_nitems f) - unat (fifo_cursize f)) (unat max_bytes)" and "n \<le> length src"
  shows "\<exists>f'. svm_fifo_enqueue_nowait f max_bytes (Some src)
      = Some (f', if fifo_cursize f = fifo_nitems f then - 2 else int n)
    \<and> fifo_ok f' \<and> fifo_nitems f' = fifo_nitems f \<and> fifo_contents f' = fifo_contents f @ take n src"
proof (cases "fifo_cursize f = fifo_nitems f")
  case True
  then show ?thesis using assms by (simp add: svm_fifo_enqueue_nowait_def svm_fifo_enqueue_internal_def)
next
  case False
  let ?n = "unat (fifo_nitems f)" and ?c = "unat (fifo_cursize f)" and ?h = "unat (fifo_head f)"
  have r: "ring_ok f" "?c \<le> ?n" "unat (fifo_tail f) = (?h + ?c) mod ?n" "\<not> svm_fifo_has_ooo_data f"
    using assms(1) by (simp_all add: fifo_ok_def fifo_sized_def)
  obtain f' where f': "enqueue_copy f (fifo_cursize f) max_bytes (Some src) = Some (f', word_of_nat n)"
    "f' = f\<lparr>fifo_data := ring_write (fifo_data f) (unat (fifo_tail f)) (take n src), fifo_tail := fifo_tail f'\<rparr>"
    "unat (fifo_tail f') = (unat (fifo_tail f) + n) mod ?n"
    using enqueue_copy_ok [OF r(1,2) assms(2,3)] by blast
  have fields: "fifo_cursize f' = fifo_cursize f" "fifo_nitems f' = fifo_nitems f" "fifo_head f' = fifo_head f"
    "fifo_ooos_list_head f' = fifo_ooos_list_head f"
    "fifo_data f' = ring_write (fifo_data f) ((?h + ?c) mod ?n) (take n src)"
    using f'(2) r(3) by (metis svm_fifo.select_convs svm_fifo.surjective svm_fifo.update_convs(4,8))+
  have n: "?c + n \<le> ?n" "?n < 2 ^ 31" "length (fifo_data f) = ?n" "?h < ?n" using assms(2) r by (auto simp: ring_ok_def)
  have un: "unat (word_of_nat n :: u32) = n" using n by (simp add: unat_word_of_nat)
  have si: "sint (word_of_nat n :: u32) = int n" using sint_small [of "word_of_nat n"] un n by simp
  let ?f = "f'\<lparr>fifo_cursize := fifo_cursize f' + word_of_nat n\<rparr>"
  have cs: "unat (fifo_cursize ?f) = ?c + n" using un n fields by (simp add: unat_u32_add)
  have e: "svm_fifo_enqueue_nowait f max_bytes (Some src) = Some (?f, int n)"
    using False f'(1) r(4) fields si
    by (simp add: svm_fifo_enqueue_nowait_def svm_fifo_enqueue_internal_def svm_fifo_has_ooo_data_def)
  have t: "unat (fifo_tail ?f) = (?h + (?c + n)) mod ?n" using f'(3) r(3) by (simp add: mod_add_left_eq add.assoc)
  have ok: "fifo_ok ?f"
    using r n fields cs t by (simp add: fifo_ok_def fifo_sized_def ring_ok_def svm_fifo_has_ooo_data_def)
  have "fifo_contents ?f = ring_get (ring_write (fifo_data f) ((?h + ?c) mod ?n) (take n src)) ?h (?c + length (take n src))"
    unfolding fifo_contents_def cs using fields assms(3) by simp
  also have "\<dots> = fifo_contents f @ take n src"
    unfolding fifo_contents_def n(3) [symmetric] by (rule ring_get_write) (use n in simp_all)
  finally show ?thesis using e ok fields False by auto
qed

lemma fifo_dequeue:
  assumes "fifo_sized f"
  shows "\<exists>f'. svm_fifo_dequeue_nowait f max_bytes True
      = Some (f', if fifo_cursize f = 0 then - 2 else int (min (unat (fifo_cursize f)) (unat max_bytes)),
              take (unat max_bytes) (fifo_contents f))
    \<and> fifo_sized f' \<and> fifo_contents f' = drop (unat max_bytes) (fifo_contents f)
    \<and> f' = f\<lparr>fifo_cursize := fifo_cursize f', fifo_head := fifo_head f'\<rparr>"
proof (cases "fifo_cursize f = 0")
  case True
  then show ?thesis using assms by (simp add: svm_fifo_dequeue_nowait_def fifo_contents_def ring_get_def)
next
  case False
  let ?n = "unat (fifo_nitems f)" and ?c = "unat (fifo_cursize f)" and ?h = "unat (fifo_head f)" and ?d = "fifo_data f"
  define k where "k = min ?c (unat max_bytes)"
  have r: "ring_ok f" "?c \<le> ?n" "unat (fifo_tail f) = (?h + ?c) mod ?n" using assms by (simp_all add: fifo_sized_def)
  obtain f' where f': "dequeue_copy f (fifo_cursize f) max_bytes True = Some (f', word_of_nat k, ring_get ?d ?h k)"
    "f' = f\<lparr>fifo_head := fifo_head f'\<rparr>" "unat (fifo_head f') = (?h + k) mod ?n"
    using dequeue_copy_ok [OF r(1,2) k_def] by blast
  have fields: "fifo_cursize f' = fifo_cursize f" "fifo_nitems f' = fifo_nitems f" "fifo_tail f' = fifo_tail f" "fifo_data f' = ?d"
    using f'(2) by (metis svm_fifo.select_convs svm_fifo.surjective svm_fifo.update_convs(3))+
  have n: "?n < 2 ^ 31" "length ?d = ?n" "?h < ?n" "k \<le> ?c" using r by (auto simp: ring_ok_def k_def)
  have un: "unat (word_of_nat k :: u32) = k" using n r(2) by (simp add: unat_word_of_nat)
  have si: "sint (word_of_nat k :: u32) = int k" using sint_small [of "word_of_nat k"] un n r(2) by simp
  let ?f = "f'\<lparr>fifo_cursize := fifo_cursize f' - word_of_nat k\<rparr>"
  have cs: "unat (fifo_cursize ?f) = ?c - k" using un n fields by (simp add: unat_u32_sub)
  have hd: "unat (fifo_head ?f) = (?h + k) mod ?n" using f'(3) by simp
  have e: "svm_fifo_dequeue_nowait f max_bytes True = Some (?f, int k, ring_get ?d ?h k)"
    using False f'(1) si by (simp add: svm_fifo_dequeue_nowait_def)
  have g: "take (unat max_bytes) (fifo_contents f) = ring_get ?d ?h k"
    using n(4) by (auto simp: fifo_contents_def k_def take_ring_get min_def)
  have "drop (unat max_bytes) (fifo_contents f) = drop k (fifo_contents f)" by (simp add: fifo_contents_def k_def min_def)
  then have d: "drop (unat max_bytes) (fifo_contents f) = fifo_contents ?f"
    using n(2,4) fields cs hd by (simp add: fifo_contents_def drop_ring_get)
  have "((?h + k) mod ?n + (?c - k)) mod ?n = (?h + ?c) mod ?n" 
    by (metis add.assoc le_add_diff_inverse mod_add_left_eq n(4))
  then have ok: "fifo_sized ?f"
    using r n fields cs hd by (simp add: fifo_sized_def ring_ok_def)
  have "?f = f\<lparr>fifo_cursize := fifo_cursize ?f, fifo_head := fifo_head ?f\<rparr>" by (subst f'(2)) simp
  then show ?thesis using e g d ok False unfolding k_def [symmetric] by auto
qed

lemma svm_fifo_drop_is_dequeue:
  "svm_fifo_dequeue_nowait f max_bytes True = Some (f', r, out) \<Longrightarrow> svm_fifo_dequeue_drop f max_bytes = (f', r)"
  by (auto simp: svm_fifo_dequeue_nowait_def dequeue_copy_def svm_fifo_dequeue_drop_def Let_def bind_eq_Some_conv
      split: if_splits)

lemma peek_total:
  fixes max_bytes :: u32
  assumes "fifo_sized f"
  defines "tb \<equiv> if fifo_cursize f < max_bytes then fifo_cursize f else max_bytes"
  shows "unat tb = min (unat (fifo_cursize f)) (unat max_bytes)" and "unat tb \<le> unat (fifo_nitems f)"
    and "sint tb = int (unat tb)"
proof -
  show t: "unat tb = min (unat (fifo_cursize f)) (unat max_bytes)" unfolding tb_def by (rule unat_u32_min)
  then show "unat tb \<le> unat (fifo_nitems f)" using assms(1) by (simp add: fifo_sized_def min.coboundedI1)
  then show "sint tb = int (unat tb)" using assms(1) by (intro sint_small) (simp add: fifo_sized_def ring_ok_def)
qed

lemma peek_at_head:
  assumes "fifo_sized f" and "fifo_cursize f \<noteq> 0"
  shows "svm_fifo_peek f 0 max_bytes True
    = Some (int (min (unat (fifo_cursize f)) (unat max_bytes)), take (unat max_bytes) (fifo_contents f))"
proof -
  obtain f' where d: "svm_fifo_dequeue_nowait f max_bytes True
      = Some (f', int (min (unat (fifo_cursize f)) (unat max_bytes)), take (unat max_bytes) (fifo_contents f))"
    using fifo_dequeue [OF assms(1), of max_bytes] assms(2) by auto
  let ?n = "fifo_nitems f" and ?h = "fifo_head f"
  define total where "total = (if fifo_cursize f < max_bytes then fifo_cursize f else max_bytes)"
  define first where "first = (if ?n - ?h < total then ?n - ?h else total)"
  have b: "unat ?h < unat ?n" "unat ?n < 2 ^ 31" using assms(1) by (simp_all add: fifo_sized_def ring_ok_def)
  have w: "total - first \<noteq> 0 \<Longrightarrow> wrap_index ?n (?h + first) = 0"
    using copy_pieces(4) [OF b(1) _ b(2), of total, folded first_def]
      peek_total(2) [OF assms(1), of max_bytes, folded total_def] by blast
  have p: "svm_fifo_peek f 0 max_bytes True = do {
      out1 \<leftarrow> data_read (fifo_data f) (unat ?h) (unat first);
      out2 \<leftarrow> (if total - first \<noteq> 0 then data_read (fifo_data f) 0 (unat (total - first)) else Some []);
      Some (sint total, out1 @ out2)}"
    unfolding svm_fifo_peek_def Let_def total_def [symmetric] using assms(2)
    by (simp only: add_0_right first_def [symmetric] if_False if_True)
  show ?thesis
  proof (cases "total - first = 0")
    case True
    then show ?thesis using d assms(2)
      unfolding p svm_fifo_dequeue_nowait_def dequeue_copy_def Let_def total_def [symmetric] first_def [symmetric]
      by (auto simp: bind_eq_Some_conv)
  next
    case False
    then show ?thesis using d assms(2) w
      unfolding p svm_fifo_dequeue_nowait_def dequeue_copy_def Let_def total_def [symmetric] first_def [symmetric]
      by (clarsimp simp: bind_eq_Some_conv)
  qed
qed

lemma peek_at_offset:
  fixes max_bytes offset :: u32
  assumes "fifo_sized f" and "fifo_cursize f \<noteq> 0" and "0 < unat offset" and "unat offset < 2 ^ 31"
  defines "k \<equiv> min (unat (fifo_cursize f)) (unat max_bytes)" and "i \<equiv> unat (fifo_head f) + unat offset"
  shows "svm_fifo_peek f offset max_bytes True
    = (if i + k \<le> unat (fifo_nitems f) then Some (int k, take k (drop i (fifo_data f))) else None)"
proof -
  let ?n = "fifo_nitems f" and ?h = "fifo_head f" and ?d = "fifo_data f"
  define total where "total = (if fifo_cursize f < max_bytes then fifo_cursize f else max_bytes)"
  note t = peek_total [OF assms(1), of max_bytes, folded total_def]
  have b: "unat ?h < unat ?n" "unat ?n < 2 ^ 31" "length ?d = unat ?n"
    using assms(1) by (simp_all add: fifo_sized_def ring_ok_def)
  define room where "room = ?n - ?h + offset"
  have r: "unat room = unat ?n - unat ?h + unat offset"
    unfolding room_def using b assms(4) by (simp add: unat_u32_add unat_u32_sub)
  have ho: "unat (?h + offset) = i" unfolding i_def by (rule unat_u32_add) (use b assms(4) in simp)
  show ?thesis
  proof (cases "i + k \<le> unat ?n")
    case True
    then have "unat total \<le> unat room" using r t(1) b(1) unfolding i_def k_def by linarith
    then have "\<not> room < total" by (simp add: word_less_nat_alt)
    then show ?thesis
      using True t assms(2) b(3) ho
      unfolding svm_fifo_peek_def Let_def total_def [symmetric] room_def [symmetric]
      by (simp add: data_read_def k_def)
  next
    case False
    have "data_read ?d i (unat (if room < total then room else total)) = None"
      using False r t(1) b assms(3) unfolding unat_u32_min data_read_def by (auto simp: i_def k_def min_def)
    then show ?thesis
      using False assms(2) ho
      unfolding svm_fifo_peek_def Let_def total_def [symmetric] room_def [symmetric] by simp
  qed
qed

section \<open>The contract of a byte queue\<close>

datatype fifo_op = Enq "u8 list" | Deq u32

text \<open>A sequence of operations: the queue, the bytes that were accepted and the bytes taken out.\<close>

fun fifo_ops :: "('f \<Rightarrow> u8 list \<Rightarrow> ('f \<times> nat) option) \<Rightarrow> ('f \<Rightarrow> u32 \<Rightarrow> ('f \<times> u8 list) option) \<Rightarrow>
    'f \<Rightarrow> fifo_op list \<Rightarrow> ('f \<times> u8 list \<times> u8 list) option" where
  "fifo_ops enq deq f [] = Some (f, [], [])"
| "fifo_ops enq deq f (Enq bs # ops) = do {
     (f, n) \<leftarrow> enq f bs;
     (f, inp, out) \<leftarrow> fifo_ops enq deq f ops;
     Some (f, take n bs @ inp, out)}"
| "fifo_ops enq deq f (Deq k # ops) = do {
     (f, bs) \<leftarrow> deq f k;
     (f, inp, out) \<leftarrow> fifo_ops enq deq f ops;
     Some (f, inp, bs @ out)}"

definition op_fits :: "fifo_op \<Rightarrow> bool" where
  "op_fits op = (case op of Enq bs \<Rightarrow> length bs < 2 ^ 32 | Deq k \<Rightarrow> True)"

locale byte_queue =
  fixes inv :: "'f \<Rightarrow> bool" and contents :: "'f \<Rightarrow> u8 list" and room :: "'f \<Rightarrow> nat"
    and enq :: "'f \<Rightarrow> u8 list \<Rightarrow> ('f \<times> nat) option" and deq :: "'f \<Rightarrow> u32 \<Rightarrow> ('f \<times> u8 list) option"
  assumes enq_law: "inv f \<Longrightarrow> length bs < 2 ^ 32 \<Longrightarrow>
      \<exists>f'. enq f bs = Some (f', min (room f) (length bs)) \<and> inv f'
        \<and> contents f' = contents f @ take (room f) bs \<and> room f' = room f - length bs"
    and deq_law: "inv f \<Longrightarrow>
      \<exists>f'. deq f k = Some (f', take (unat k) (contents f)) \<and> inv f'
        \<and> contents f' = drop (unat k) (contents f) \<and> room f' = room f + min (unat k) (length (contents f))"
begin

lemma ops_order:
  assumes "inv f" and "list_all op_fits ops"
  shows "\<exists>f' inp out. fifo_ops enq deq f ops = Some (f', inp, out) \<and> inv f'
    \<and> contents f @ inp = out @ contents f' \<and> room f' + length (contents f') = room f + length (contents f)"
  using assms
proof (induction ops arbitrary: f)
  case (Cons op ops)
  show ?case
  proof (cases op)
    case (Enq bs)
    then have "length bs < 2 ^ 32" using Cons.prems(2) by (simp add: op_fits_def)
    from enq_law [OF Cons.prems(1) this] obtain g where g: "enq f bs = Some (g, min (room f) (length bs))" "inv g"
      "contents g = contents f @ take (room f) bs" "room g = room f - length bs" by blast
    have "list_all op_fits ops" using Cons.prems(2) by simp
    from Cons.IH [OF g(2) this] obtain f' inp out where i: "fifo_ops enq deq g ops = Some (f', inp, out)" "inv f'"
      "contents g @ inp = out @ contents f'" "room f' + length (contents f') = room g + length (contents g)" by blast
    have "take (min (room f) (length bs)) bs = take (room f) bs" by (simp add: min_def)
    then have "fifo_ops enq deq f (op # ops) = Some (f', take (room f) bs @ inp, out)" using g(1) i(1) Enq by simp
    moreover have "contents f @ take (room f) bs @ inp = out @ contents f'" using g(3) i(3) by simp
    moreover have "room f' + length (contents f') = room f + length (contents f)" using g(3,4) i(4) by simp
    ultimately show ?thesis using i(2) by blast
  next
    case (Deq k)
    from deq_law [OF Cons.prems(1), of k] obtain g where g: "deq f k = Some (g, take (unat k) (contents f))" "inv g"
      "contents g = drop (unat k) (contents f)" "room g = room f + min (unat k) (length (contents f))" by blast
    have "list_all op_fits ops" using Cons.prems(2) by simp
    from Cons.IH [OF g(2) this] obtain f' inp out where i: "fifo_ops enq deq g ops = Some (f', inp, out)" "inv f'"
      "contents g @ inp = out @ contents f'" "room f' + length (contents f') = room g + length (contents g)" by blast
    then have "fifo_ops enq deq f (op # ops) = Some (f', inp, take (unat k) (contents f) @ out)" using g(1) Deq by simp
    moreover have "contents f @ inp = (take (unat k) (contents f) @ out) @ contents f'"
      using g(3) i(3) by (metis append.assoc append_take_drop_id)
    moreover have "room f' + length (contents f') = room f + length (contents f)" using g(3,4) i(4) by simp
    ultimately show ?thesis using i(2) by blast
  qed
qed simp

text \<open>Everything written while there is room comes out again, in order.\<close>

lemma ops_roundtrip:
  assumes "inv f" and "contents f = []" and "length bs \<le> room f" and "length bs < 2 ^ 32" and "unat k = length bs"
  shows "\<exists>f'. fifo_ops enq deq f [Enq bs, Deq k] = Some (f', bs, bs) \<and> inv f' \<and> contents f' = []"
proof -
  obtain g where g: "enq f bs = Some (g, min (room f) (length bs))" "inv g" "contents g = contents f @ take (room f) bs"
    using enq_law [OF assms(1,4)] by blast
  obtain f' where f': "deq g k = Some (f', take (unat k) (contents g))" "inv f'" "contents f' = drop (unat k) (contents g)"
    using deq_law [OF g(2), of k] by blast
  then show ?thesis using g assms by simp
qed

end

text \<open>The calls as the users of a fifo make them: a vector of bytes, the bytes read.\<close>

definition fifo_enq :: "svm_fifo \<Rightarrow> u8 list \<Rightarrow> (svm_fifo \<times> nat) option" where
  "fifo_enq f bs = do {
     (f, r) \<leftarrow> svm_fifo_enqueue_nowait f (word_of_nat (length bs)) (Some bs);
     Some (f, nat r)}"

definition fifo_deq :: "svm_fifo \<Rightarrow> u32 \<Rightarrow> (svm_fifo \<times> u8 list) option" where
  "fifo_deq f k = do {
     (f, r, out) \<leftarrow> svm_fifo_dequeue_nowait f k True;
     Some (f, out)}"

definition fifo_room :: "svm_fifo \<Rightarrow> nat" where
  "fifo_room f = unat (svm_fifo_max_enqueue f)"

lemma fifo_room_eq: "fifo_sized f \<Longrightarrow> fifo_room f = unat (fifo_nitems f) - length (fifo_contents f)"
  by (simp add: fifo_room_def svm_fifo_max_enqueue_def fifo_sized_def fifo_contents_def unat_u32_sub)

lemma fifo_ok_contents_le: "fifo_sized f \<Longrightarrow> length (fifo_contents f) \<le> unat (fifo_nitems f)"
  by (simp add: fifo_sized_def fifo_contents_def)

interpretation fifo: byte_queue fifo_ok fifo_contents fifo_room fifo_enq fifo_deq
proof
  fix f :: svm_fifo and bs :: "u8 list" and k :: u32
  assume ok: "fifo_ok f"
  then have s: "fifo_sized f" by (simp add: fifo_ok_def)
  let ?c = "unat (fifo_cursize f)" and ?n = "unat (fifo_nitems f)"
  have c: "length (fifo_contents f) = ?c" "?c \<le> ?n" "fifo_room f = ?n - ?c"
    using s fifo_room_eq [OF s] by (simp_all add: fifo_contents_def fifo_sized_def)
  show "\<exists>f'. fifo_deq f k = Some (f', take (unat k) (fifo_contents f)) \<and> fifo_ok f'
      \<and> fifo_contents f' = drop (unat k) (fifo_contents f) \<and> fifo_room f' = fifo_room f + min (unat k) (length (fifo_contents f))"
  proof -
    obtain f' where f': "svm_fifo_dequeue_nowait f k True
        = Some (f', if fifo_cursize f = 0 then - 2 else int (min ?c (unat k)), take (unat k) (fifo_contents f))"
      "fifo_sized f'" "fifo_contents f' = drop (unat k) (fifo_contents f)"
      "f' = f\<lparr>fifo_cursize := fifo_cursize f', fifo_head := fifo_head f'\<rparr>"
      using fifo_dequeue [OF s, of k] by blast
    have "fifo_ooos_list_head f' = fifo_ooos_list_head f" "fifo_nitems f' = fifo_nitems f"
      by (subst f'(4), simp)+
    then show ?thesis using f' ok c fifo_room_eq [OF f'(2)]
      by (auto simp: fifo_deq_def fifo_ok_def svm_fifo_has_ooo_data_def min_def)
  qed
  assume l: "length bs < 2 ^ 32"
  have u: "unat (word_of_nat (length bs) :: u32) = length bs" using l by (simp add: unat_word_of_nat)
  obtain f' where f': "svm_fifo_enqueue_nowait f (word_of_nat (length bs)) (Some bs)
      = Some (f', if fifo_cursize f = fifo_nitems f then - 2 else int (min (?n - ?c) (length bs)))"
    "fifo_ok f'" "fifo_nitems f' = fifo_nitems f" "fifo_contents f' = fifo_contents f @ take (min (?n - ?c) (length bs)) bs"
    using fifo_enqueue [OF ok refl, of "word_of_nat (length bs)" bs] u by auto
  have t: "take (min (?n - ?c) (length bs)) bs = take (?n - ?c) bs" by (simp add: min_def)
  have e: "fifo_enq f bs = Some (f', min (?n - ?c) (length bs))" using f'(1) by (auto simp: fifo_enq_def)
  have "fifo_sized f'" using f'(2) by (simp add: fifo_ok_def)
  from fifo_room_eq [OF this] have "fifo_room f' = ?n - (?c + min (?n - ?c) (length bs))"
    using f'(3,4) c(1) t by (simp add: min.commute)
  then have "fifo_room f' = fifo_room f - length bs" using c by auto
  then show "\<exists>f'. fifo_enq f bs = Some (f', min (fifo_room f) (length bs)) \<and> fifo_ok f'
      \<and> fifo_contents f' = fifo_contents f @ take (fifo_room f) bs \<and> fifo_room f' = fifo_room f - length bs"
    using e f'(2,4) c(3) t by auto
qed

section \<open>Properties\<close>

text \<open>
  C34. Enqueue, dequeue and drop on a fifo without out-of-order data implement a bounded queue of
  bytes, also where the copy wraps around the end of the ring: no access leaves the data, the
  counts are returned, a full and an empty fifo give -2, and what is taken out is the front of the
  queue.
\<close>

theorem fifo_refines_queue:
  assumes "fifo_ok f" and "length bs < 2 ^ 32"
    and "n = min (unat (fifo_nitems f) - length (fifo_contents f)) (length bs)"
  shows "(\<exists>f'. svm_fifo_enqueue_nowait f (word_of_nat (length bs)) (Some bs)
        = Some (f', if length (fifo_contents f) = unat (fifo_nitems f) then - 2 else int n)
      \<and> fifo_ok f' \<and> fifo_contents f' = fifo_contents f @ take n bs)
    \<and> (\<exists>f'. svm_fifo_dequeue_nowait f m True
        = Some (f', if fifo_contents f = [] then - 2 else int (min (length (fifo_contents f)) (unat m)),
                take (unat m) (fifo_contents f))
      \<and> svm_fifo_dequeue_drop f m = (f', if fifo_contents f = [] then - 2 else int (min (length (fifo_contents f)) (unat m)))
      \<and> fifo_ok f' \<and> fifo_contents f' = drop (unat m) (fifo_contents f))"
proof -
  have s: "fifo_sized f" using assms(1) by (simp add: fifo_ok_def)
  have l: "length (fifo_contents f) = unat (fifo_cursize f)" by (simp add: fifo_contents_def)
  have u: "unat (word_of_nat (length bs) :: u32) = length bs" using assms(2) by (simp add: unat_word_of_nat)
  have e: "\<exists>f'. svm_fifo_enqueue_nowait f (word_of_nat (length bs)) (Some bs)
        = Some (f', if fifo_cursize f = fifo_nitems f then - 2 else int n)
      \<and> fifo_ok f' \<and> fifo_nitems f' = fifo_nitems f \<and> fifo_contents f' = fifo_contents f @ take n bs"
    by (rule fifo_enqueue [OF assms(1)]) (use assms(3) u l in simp_all)
  obtain f' where f': "svm_fifo_dequeue_nowait f m True
      = Some (f', if fifo_cursize f = 0 then - 2 else int (min (unat (fifo_cursize f)) (unat m)), take (unat m) (fifo_contents f))"
    "fifo_sized f'" "fifo_contents f' = drop (unat m) (fifo_contents f)"
    "f' = f\<lparr>fifo_cursize := fifo_cursize f', fifo_head := fifo_head f'\<rparr>"
    using fifo_dequeue [OF s, of m] by blast
  have "fifo_ooos_list_head f' = fifo_ooos_list_head f" by (subst f'(4)) simp
  then have "fifo_ok f'" using f'(2) assms(1) by (simp add: fifo_ok_def svm_fifo_has_ooo_data_def)
  moreover have "fifo_cursize f = 0 \<longleftrightarrow> fifo_contents f = []"
    using l by (metis length_0_conv unat_eq_0)
  moreover have "fifo_cursize f = fifo_nitems f \<longleftrightarrow> length (fifo_contents f) = unat (fifo_nitems f)"
    using l by (simp add: word_unat_eq_iff)
  ultimately show ?thesis
    using e f'(1,3) svm_fifo_drop_is_dequeue [OF f'(1)] l by auto
qed

lemma created_fifo_ok:
  assumes "svm_fifo_create True n = Some f" and "0 < unat n" and "unat n < 2 ^ 31"
  shows "fifo_ok f \<and> fifo_contents f = [] \<and> unat (fifo_nitems f) = unat n"
  using assms
  by (auto simp: svm_fifo_create_def fifo_ok_def fifo_sized_def ring_ok_def svm_fifo_has_ooo_data_def fifo_contents_def ring_get_def)

theorem fifo_refines_queue_witness:
  "\<exists>f f'. svm_fifo_create True 4 = Some f
     \<and> svm_fifo_enqueue_nowait f 6 (Some [1, 2, 3, 4, 5, 6]) = Some (f', 4) \<and> fifo_contents f' = [1, 2, 3, 4]"
proof -
  obtain f where f: "svm_fifo_create True 4 = Some f" by (simp add: svm_fifo_create_def)
  then have ok: "fifo_ok f" "fifo_contents f = []" "unat (fifo_nitems f) = 4" using created_fifo_ok [of 4 f] by simp_all
  have "length [1, 2, 3, 4, 5, 6 :: u8] < 2 ^ 32" by simp
  from fifo_refines_queue [OF ok(1) this refl, of 0] show ?thesis using ok f by auto
qed

text \<open>
  Over any sequence of enqueues and dequeues on a fifo, no call fails, and the bytes taken out
  followed by those still in the fifo are the bytes that were in it followed by those accepted, in
  order; the free space and the contents always add up to the size.
\<close>

theorem fifo_preserves_order:
  assumes "svm_fifo_create True n = Some f" and "0 < unat n" and "unat n < 2 ^ 31" and "list_all op_fits ops"
  shows "\<exists>f' inp out. fifo_ops fifo_enq fifo_deq f ops = Some (f', inp, out) \<and> inp = out @ fifo_contents f'
    \<and> fifo_ok f' \<and> fifo_room f' + length (fifo_contents f') = unat n"
proof -
  have f: "fifo_ok f" "fifo_contents f = []" "unat (fifo_nitems f) = unat n" using created_fifo_ok [OF assms(1-3)] by simp_all
  then have "fifo_room f = unat n" using fifo_room_eq [of f] by (simp add: fifo_ok_def)
  then show ?thesis using fifo.ops_order [OF f(1) assms(4)] f(2) by auto
qed

theorem fifo_preserves_order_witness:
  "\<exists>f f' inp out. svm_fifo_create True 4 = Some f
     \<and> fifo_ops fifo_enq fifo_deq f [Enq [1, 2, 3], Deq 2, Enq [4, 5, 6, 7], Deq 9] = Some (f', inp, out)
     \<and> inp = out @ fifo_contents f'"
proof -
  obtain f where f: "svm_fifo_create True 4 = Some f" by (simp add: svm_fifo_create_def)
  have "list_all op_fits [Enq [1, 2, 3], Deq 2, Enq [4, 5, 6, 7], Deq 9]" by (simp add: op_fits_def)
  from fifo_preserves_order [OF f _ _ this] show ?thesis using f by auto
qed

text \<open>
  Peeking at the head returns the front of the queue. Peeking at a positive offset is right only
  if the bytes from there do not wrap: it then returns as many bytes as a peek at the head would,
  counted from the offset, and otherwise it reads beyond the end of the data.
\<close>

theorem fifo_peek_exact:
  assumes "fifo_sized f" and "fifo_cursize f \<noteq> 0" and "unat offset < 2 ^ 31"
    and "k = min (length (fifo_contents f)) (unat max_bytes)" and "h = unat (fifo_head f) + unat offset"
  shows "svm_fifo_peek f offset max_bytes True
    = (if offset = 0 then Some (int k, take k (fifo_contents f))
       else if h + k \<le> unat (fifo_nitems f) then Some (int k, take k (drop h (fifo_data f)))
       else None)"
proof (cases "offset = 0")
  case True
  have "take (unat max_bytes) (fifo_contents f) = take k (fifo_contents f)" unfolding assms(4) by (simp add: min_def)
  then show ?thesis using peek_at_head [OF assms(1,2), of max_bytes] True assms(4) by (simp add: fifo_contents_def)
next
  case False
  then have "0 < unat offset" by (simp add: unat_gt_0)
  from peek_at_offset [OF assms(1,2) this assms(3), of max_bytes] show ?thesis
    using False assms(4,5) by (simp add: fifo_contents_def)
qed

theorem fifo_peek_exact_witness:
  "\<exists>f f'. svm_fifo_create True 4 = Some f \<and> fifo_enq f [1, 2, 3] = Some (f', 3)
     \<and> svm_fifo_peek f' 1 3 True = Some (3, take 3 (drop 1 (fifo_data f'))) \<and> svm_fifo_peek f' 2 3 True = None"
proof -
  obtain f where f: "svm_fifo_create True 4 = Some f" by (simp add: svm_fifo_create_def)
  then have ok: "fifo_ok f" "fifo_contents f = []" "unat (fifo_nitems f) = 4" using created_fifo_ok [of 4 f] by simp_all
  have h: "fifo_head f = 0" using f by (auto simp: svm_fifo_create_def)
  have c: "enqueue_copy f (fifo_cursize f) 3 (Some [1, 2, 3]) = Some (f1, k) \<Longrightarrow> fifo_head f1 = fifo_head f \<and> fifo_nitems f1 = fifo_nitems f" for f1 k
    by (auto simp: enqueue_copy_def Let_def bind_eq_Some_conv split: if_splits)
  obtain f' where f': "svm_fifo_enqueue_nowait f 3 (Some [1, 2, 3]) = Some (f', int 3)" "fifo_ok f'"
    "fifo_nitems f' = fifo_nitems f" "fifo_contents f' = [1, 2, 3]"
    using fifo_enqueue [OF ok(1) refl, of 3 "[1, 2, 3]"] ok f by (auto simp: svm_fifo_create_def)
  have "\<not> svm_fifo_has_ooo_data f1" if "enqueue_copy f (fifo_cursize f) 3 (Some [1, 2, 3]) = Some (f1, k)" for f1 k
    using that f by (auto simp: enqueue_copy_def Let_def bind_eq_Some_conv svm_fifo_has_ooo_data_def svm_fifo_create_def split: if_splits)
  then have h': "fifo_head f' = 0"
    using f'(1) c h by (auto simp: svm_fifo_enqueue_nowait_def svm_fifo_enqueue_internal_def bind_eq_Some_conv split: if_splits)
  have s: "fifo_sized f'" using f'(2) by (simp add: fifo_ok_def)
  have nz: "fifo_cursize f' \<noteq> 0" using f'(4) by (auto simp: fifo_contents_def ring_get_def)
  have "fifo_enq f [1, 2, 3] = Some (f', 3)" using f'(1) by (simp add: fifo_enq_def)
  moreover have "svm_fifo_peek f' 1 3 True = Some (3, take 3 (drop 1 (fifo_data f')))"
    using fifo_peek_exact [OF s nz _ refl refl, of 1 3] f'(3,4) h' ok(3) by simp (simp only: numeral_3_eq_3)
  moreover have "svm_fifo_peek f' 2 3 True = None"
    using fifo_peek_exact [OF s nz _ refl refl, of 2 3] f'(3,4) h' ok(3) by simp
  ultimately show ?thesis using f by blast
qed

end
