(* ===== verification/Svm_Fifo_Ooo.thy ===== *)
theory Svm_Fifo_Ooo
  imports Svm_Fifo
begin

text \<open>
  The out-of-order segments of a fifo: the doubly linked list in the pool as a list of indices,
  insertion and deletion on it, and the reassembly of bytes that arrive ahead of the tail.
\<close>

section \<open>Links\<close>

text \<open>
  \<open>lseg m p c is q e\<close>: from the index \<open>c\<close>, whose predecessor is \<open>p\<close>, the links in \<open>m\<close> lead through
  the segments \<open>is\<close> to the index \<open>e\<close>, whose predecessor is \<open>q\<close>.
\<close>

fun lseg :: "(u32 \<Rightarrow> ooo_segment option) \<Rightarrow> u32 \<Rightarrow> u32 \<Rightarrow> u32 list \<Rightarrow> u32 \<Rightarrow> u32 \<Rightarrow> bool" where
  "lseg m p c [] q e = (p = q \<and> c = e)"
| "lseg m p c (i # is) q e =
    (c = i \<and> i \<noteq> OOO_SEGMENT_INVALID_INDEX \<and>
     (case m i of None \<Rightarrow> False | Some s \<Rightarrow> seg_prev s = p \<and> lseg m i (seg_next s) is q e))"

lemma lseg_append: "lseg m p c (as @ bs) q e \<longleftrightarrow> (\<exists>p' c'. lseg m p c as p' c' \<and> lseg m p' c' bs q e)"
  by (induction "as" arbitrary: p c) (auto split: option.splits)

lemma lseg_upd [simp]: "i \<notin> set is \<Longrightarrow> lseg (m(i := x)) p c is q e = lseg m p c is q e"
  by (induction "is" arbitrary: p c) (auto split: option.splits)

lemma lseg_cong: "lseg m p c is q e \<Longrightarrow> \<forall>j\<in>set is. m' j = m j \<Longrightarrow> lseg m' p c is q e"
  by (induction "is" arbitrary: p c) (auto split: option.splits)

lemma lseg_dom: "lseg m p c is q e \<Longrightarrow> set is \<subseteq> dom m"
  by (induction "is" arbitrary: p c) (auto split: option.splits)

lemma lseg_valid: "lseg m p c is q e \<Longrightarrow> OOO_SEGMENT_INVALID_INDEX \<notin> set is"
  by (induction "is" arbitrary: p c) (auto split: option.splits)

lemma lseg_snoc:
  "lseg m p c (as @ [a]) q e \<longleftrightarrow> q = a \<and> a \<noteq> OOO_SEGMENT_INVALID_INDEX \<and>
    (\<exists>s. m a = Some s \<and> seg_next s = e \<and> lseg m p c as (seg_prev s) a)"
  by (auto simp: lseg_append split: option.splits)

text \<open>Setting the next index of the last segment, and the previous index of the first one.\<close>

lemma lseg_set_next:
  assumes "lseg m p c (as @ [a]) q e" and "a \<notin> set as" and "m a = Some s"
  shows "lseg (m(a \<mapsto> s\<lparr>seg_next := e'\<rparr>)) p c (as @ [a]) q e'"
  using assms by (simp add: lseg_snoc)

lemma lseg_set_prev:
  assumes "lseg m p c (b # bs) q e" and "b \<notin> set bs" and "m b = Some s"
  shows "lseg (m(b \<mapsto> s\<lparr>seg_prev := p'\<rparr>)) p' c (b # bs) q e"
  using assms by simp

section \<open>Reading and writing segments\<close>

abbreviation segments :: "svm_fifo \<Rightarrow> ooo_segment pool" where "segments \<equiv> fifo_ooo_segments"

lemma seg_at_iff: "seg_at f i = (if unat i \<in> pool_live (segments f) then Some (pool_vec (segments f) ! unat i) else None)"
  by (simp add: seg_at_def pool_elt_live)

lemma pool_vec_store [simp]: "pool_vec (pool_store p i x) = (pool_vec p)[i := x]"
  by (simp add: pool_store_def)

lemma seg_at_put [simp]: "seg_at f i = Some t \<Longrightarrow> seg_at (seg_put f i s) = (seg_at f)(i \<mapsto> s)"
  by (rule ext) (auto simp: seg_at_iff seg_put_def pool_live_iff word_unat_eq_iff split: if_splits)

lemma seg_put_fields [simp]:
  "fifo_cursize (seg_put f i s) = fifo_cursize f" "fifo_nitems (seg_put f i s) = fifo_nitems f"
  "fifo_head (seg_put f i s) = fifo_head f" "fifo_tail (seg_put f i s) = fifo_tail f"
  "fifo_data (seg_put f i s) = fifo_data f" "fifo_ooos_list_head (seg_put f i s) = fifo_ooos_list_head f"
  "fifo_ooos_newest (seg_put f i s) = fifo_ooos_newest f" "pool_ok (segments (seg_put f i s)) = pool_ok (segments f)"
  "length (pool_vec (segments (seg_put f i s))) = length (pool_vec (segments f))"
  by (simp_all add: seg_put_def pool_store_def pool_ok_def)

lemma seg_at_frame [simp]:
  "seg_at (f\<lparr>fifo_ooos_list_head := h\<rparr>) = seg_at f" "seg_at (f\<lparr>fifo_ooos_newest := h\<rparr>) = seg_at f"
  "seg_at (f\<lparr>fifo_tail := h\<rparr>) = seg_at f" "seg_at (f\<lparr>fifo_cursize := h\<rparr>) = seg_at f"
  "seg_at (f\<lparr>fifo_data := d\<rparr>) = seg_at f" "seg_at (f\<lparr>fifo_head := h\<rparr>) = seg_at f"
  by (simp_all add: fun_eq_iff seg_at_def)

lemma seg_new:
  assumes "pool_ok (segments f)" and "length (pool_vec (segments f)) < 2 ^ 32 - 1"
    and "ooo_segment_new f start len = (f', i)"
  shows "seg_at f i = None \<and> i \<noteq> OOO_SEGMENT_INVALID_INDEX \<and> pool_ok (segments f')
    \<and> seg_at f' = (seg_at f)(i \<mapsto> \<lparr>seg_next = OOO_SEGMENT_INVALID_INDEX, seg_prev = OOO_SEGMENT_INVALID_INDEX,
                                 seg_fifo_position = start, seg_length = len\<rparr>)
    \<and> f' = f\<lparr>fifo_ooo_segments := segments f'\<rparr>"
proof -
  let ?s = "\<lparr>seg_next = OOO_SEGMENT_INVALID_INDEX, seg_prev = OOO_SEGMENT_INVALID_INDEX,
    seg_fifo_position = start, seg_length = len\<rparr>"
  obtain p k where g: "pool_get ?s (segments f) = (p, k)" by fastforce
  then have f': "f' = f\<lparr>fifo_ooo_segments := pool_store p k ?s\<rparr>" "i = word_of_nat k"
    using assms(3) by (auto simp: ooo_segment_new_def)
  have ok: "pool_ok p" "k \<notin> pool_live (segments f)" "pool_live p = insert k (pool_live (segments f))"
    using pool_get_ok_live [OF assms(1) g] by simp_all
  have b: "bits (free_bitmap (segments f)) \<subseteq> {..<length (pool_vec (segments f))}"
    using assms(1) by (simp add: pool_ok_def)
  have k: "k < 2 ^ 32 - 1" using assms(1) g
    by (rule pool_get_cases) (use assms(2) b in auto)
  then have u: "unat i = k" using f'(2) by (simp add: unat_word_of_nat)
  then have inv: "i \<noteq> OOO_SEGMENT_INVALID_INDEX" using k by auto
  have kl: "k < length (pool_vec p)" using ok(3) by (metis insertI1 pool_live_iff)
  have "seg_at f' j = ((seg_at f)(i \<mapsto> ?s)) j" for j
  proof (cases "j = i")
    case True
    then show ?thesis using u ok(3) kl by (simp add: seg_at_iff f'(1))
  next
    case False
    then have j: "unat j \<noteq> k" using u by (simp add: word_unat_eq_iff)
    have "pool_elt_at_index p (unat j) = pool_elt_at_index (segments f) (unat j)"
    proof (cases "unat j \<in> pool_live (segments f)")
      case True
      then show ?thesis by (rule pool_get_frame [OF assms(1) g])
    next
      case False
      then show ?thesis using ok(3) j by (simp add: pool_elt_live)
    qed
    then show ?thesis using False j
      by (auto simp: seg_at_def f'(1) pool_elt_live split: if_splits)
  qed
  moreover have "seg_at f i = None" using ok(2) u by (simp add: seg_at_iff)
  ultimately show ?thesis using inv ok(1) f'(1) by auto
qed

lemma seg_pool_put:
  assumes "pool_ok (segments f)" and "seg_at f i = Some s"
  shows "\<exists>p. pool_put_index (segments f) (unat i) = Some p \<and> pool_ok p
    \<and> seg_at (f\<lparr>fifo_ooo_segments := p\<rparr>) = (seg_at f)(i := None)"
proof -
  have l: "unat i \<in> pool_live (segments f)" using assms(2) by (simp add: seg_at_iff split: if_splits)
  obtain p where p: "pool_put_index (segments f) (unat i) = Some p" "pool_ok p"
    "pool_live p = pool_live (segments f) - {unat i}" "\<forall>j\<in>pool_live p. pool_elt_at_index p j = pool_elt_at_index (segments f) j"
    using pool_put_live [OF assms(1) l] by blast
  have "seg_at (f\<lparr>fifo_ooo_segments := p\<rparr>) j = ((seg_at f)(i := None)) j" for j
    using p(3,4) by (cases "unat j \<in> pool_live p") (auto simp: seg_at_def pool_elt_live word_unat_eq_iff)
  then show ?thesis using p(1,2) by auto
qed

section \<open>The list of segments\<close>

definition seg_list :: "svm_fifo \<Rightarrow> u32 list \<Rightarrow> bool" where
  "seg_list f is = ((\<exists>q. lseg (seg_at f) OOO_SEGMENT_INVALID_INDEX (fifo_ooos_list_head f) is q OOO_SEGMENT_INVALID_INDEX)
     \<and> distinct is \<and> pool_ok (segments f) \<and> dom (seg_at f) = set is)"

text \<open>Position and length of a segment, and the parts of a fifo that the segment operations keep.\<close>

definition seg_extent :: "svm_fifo \<Rightarrow> u32 \<Rightarrow> (u32 \<times> u32) option" where
  "seg_extent f i = map_option (\<lambda>s. (seg_fifo_position s, seg_length s)) (seg_at f i)"

definition ring_part :: "svm_fifo \<Rightarrow> u32 \<times> u32 \<times> u32 \<times> u32 \<times> u8 list" where
  "ring_part f = (fifo_cursize f, fifo_nitems f, fifo_head f, fifo_tail f, fifo_data f)"

lemma seg_extent_put:
  "seg_at f i = Some t \<Longrightarrow> seg_extent (seg_put f i s) = (seg_extent f)(i \<mapsto> (seg_fifo_position s, seg_length s))"
  by (rule ext) (auto simp: seg_extent_def)

lemma ring_part_put [simp]: "ring_part (seg_put f i s) = ring_part f"
  by (simp add: ring_part_def)

text \<open>Unlinking a segment from its successor, and from its predecessor.\<close>

lemma unlink_next:
  assumes "lseg (seg_at f) i n bs q OOO_SEGMENT_INVALID_INDEX" and "distinct bs" and "i \<notin> set bs"
  shows "\<exists>f' q'. (if n \<noteq> OOO_SEGMENT_INVALID_INDEX
        then do {next \<leftarrow> seg_at f n; Some (seg_put f n (next\<lparr>seg_prev := p\<rparr>))} else Some f) = Some f'
    \<and> lseg (seg_at f') p n bs q' OOO_SEGMENT_INVALID_INDEX \<and> (\<forall>j. j \<notin> set bs \<longrightarrow> seg_at f' j = seg_at f j)
    \<and> seg_extent f' = seg_extent f \<and> ring_part f' = ring_part f \<and> pool_ok (segments f') = pool_ok (segments f)
    \<and> dom (seg_at f') = dom (seg_at f) \<and> fifo_ooos_list_head f' = fifo_ooos_list_head f"
proof (cases bs)
  case Nil
  then show ?thesis using assms by simp
next
  case (Cons b bs')
  then obtain s where s: "n = b" "b \<noteq> OOO_SEGMENT_INVALID_INDEX" "seg_at f b = Some s"
    using assms(1) by (auto split: option.splits)
  have "lseg ((seg_at f)(b \<mapsto> s\<lparr>seg_prev := p\<rparr>)) p n (b # bs') q OOO_SEGMENT_INVALID_INDEX"
    by (rule lseg_set_prev) (use assms Cons s in auto)
  then show ?thesis using s Cons
    by (auto simp: seg_extent_put seg_extent_def dom_def fun_eq_iff)
qed

lemma unlink_prev:
  assumes "lseg (seg_at f) OOO_SEGMENT_INVALID_INDEX (fifo_ooos_list_head f) as p i" and "distinct as"
  shows "\<exists>f'. (if p \<noteq> OOO_SEGMENT_INVALID_INDEX
        then do {prev \<leftarrow> seg_at f p; Some (seg_put f p (prev\<lparr>seg_next := n\<rparr>))}
        else Some (f\<lparr>fifo_ooos_list_head := n\<rparr>)) = Some f'
    \<and> lseg (seg_at f') OOO_SEGMENT_INVALID_INDEX (fifo_ooos_list_head f') as p n
    \<and> (\<forall>j. j \<notin> set as \<longrightarrow> seg_at f' j = seg_at f j)
    \<and> seg_extent f' = seg_extent f \<and> ring_part f' = ring_part f \<and> pool_ok (segments f') = pool_ok (segments f)
    \<and> dom (seg_at f') = dom (seg_at f)"
proof (cases "as" rule: rev_cases)
  case Nil
  then show ?thesis using assms by (auto simp: seg_extent_def ring_part_def)
next
  case (snoc as' a)
  then obtain s where s: "p = a" "a \<noteq> OOO_SEGMENT_INVALID_INDEX" "seg_at f a = Some s"
    using assms(1) by (auto simp: lseg_snoc)
  have "lseg ((seg_at f)(a \<mapsto> s\<lparr>seg_next := n\<rparr>)) OOO_SEGMENT_INVALID_INDEX (fifo_ooos_list_head f) (as' @ [a]) p n"
    by (rule lseg_set_next) (use assms snoc s in auto)
  then show ?thesis using s snoc
    by (auto simp: seg_extent_put seg_extent_def dom_def fun_eq_iff)
qed

lemma ooo_del:
  assumes "seg_list f (as @ i # bs)"
  shows "\<exists>f'. ooo_segment_del f i = Some f' \<and> seg_list f' (as @ bs) \<and> ring_part f' = ring_part f
    \<and> seg_extent f' = (seg_extent f)(i := None)"
proof -
  let ?I = "OOO_SEGMENT_INVALID_INDEX"
  have d: "distinct (as @ i # bs)" "pool_ok (segments f)" "dom (seg_at f) = set (as @ i # bs)"
    using assms unfolding seg_list_def by blast+
  obtain q s where l: "lseg (seg_at f) ?I (fifo_ooos_list_head f) as (seg_prev s) i" "seg_at f i = Some s"
    "lseg (seg_at f) i (seg_next s) bs q ?I"
    using assms unfolding seg_list_def by (auto simp: lseg_append split: option.splits)
  obtain f1 q1 where f1: "(if seg_next s \<noteq> ?I
        then do {next \<leftarrow> seg_at f (seg_next s); Some (seg_put f (seg_next s) (next\<lparr>seg_prev := seg_prev s\<rparr>))} else Some f) = Some f1"
    "lseg (seg_at f1) (seg_prev s) (seg_next s) bs q1 ?I" "\<forall>j. j \<notin> set bs \<longrightarrow> seg_at f1 j = seg_at f j"
    "seg_extent f1 = seg_extent f" "ring_part f1 = ring_part f" "pool_ok (segments f1)" "dom (seg_at f1) = dom (seg_at f)"
    "fifo_ooos_list_head f1 = fifo_ooos_list_head f"
    using unlink_next [OF l(3), of "seg_prev s"] d by auto
  have i1: "seg_at f1 i = Some s" using f1(3) l(2) d(1) by auto
  have "lseg (seg_at f1) ?I (fifo_ooos_list_head f1) as (seg_prev s) i"
    unfolding f1(8) by (rule lseg_cong [OF l(1)]) (use f1(3) d(1) in auto)
  from unlink_prev [OF this, of "seg_next s"] d(1) obtain f2 where f2: "(if seg_prev s \<noteq> ?I
        then do {prev \<leftarrow> seg_at f1 (seg_prev s); Some (seg_put f1 (seg_prev s) (prev\<lparr>seg_next := seg_next s\<rparr>))}
        else Some (f1\<lparr>fifo_ooos_list_head := seg_next s\<rparr>)) = Some f2"
    "lseg (seg_at f2) ?I (fifo_ooos_list_head f2) as (seg_prev s) (seg_next s)"
    "\<forall>j. j \<notin> set as \<longrightarrow> seg_at f2 j = seg_at f1 j" "seg_extent f2 = seg_extent f1" "ring_part f2 = ring_part f1"
    "pool_ok (segments f2)" "dom (seg_at f2) = dom (seg_at f1)"
    using f1(6) by auto
  have i2: "seg_at f2 i = Some s" using f2(3) i1 d(1) by auto
  obtain p where p: "pool_put_index (segments f2) (unat i) = Some p" "pool_ok p"
    "seg_at (f2\<lparr>fifo_ooo_segments := p\<rparr>) = (seg_at f2)(i := None)"
    using seg_pool_put [OF f2(6) i2] by blast
  have "lseg (seg_at f2) (seg_prev s) (seg_next s) bs q1 ?I"
    by (rule lseg_cong [OF f1(2)]) (use f2(3) d(1) in auto)
  then have "lseg (seg_at f2) ?I (fifo_ooos_list_head f2) (as @ bs) q1 ?I" using f2(2) by (auto simp: lseg_append)
  then have "seg_list (f2\<lparr>fifo_ooo_segments := p\<rparr>) (as @ bs)"
    using p d f1(7) f2(7) unfolding seg_list_def by auto
  moreover have "ooo_segment_del f i = Some (f2\<lparr>fifo_ooo_segments := p\<rparr>)"
    unfolding ooo_segment_del_def using l(2) f1(1) i1 f2(1) p(1) by simp
  moreover have "seg_extent (f2\<lparr>fifo_ooo_segments := p\<rparr>) = (seg_extent f)(i := None)"
    using p(3) f1(4) f2(4) by (auto simp: seg_extent_def fun_eq_iff)
  moreover have "ring_part (f2\<lparr>fifo_ooo_segments := p\<rparr>) = ring_part f" using f1(5) f2(5) by (simp add: ring_part_def)
  ultimately show ?thesis by blast
qed

text \<open>Linking a new segment to the predecessor, or to the successor, of a segment.\<close>

lemma link_prev_pair:
  assumes "seg_prev t = OOO_SEGMENT_INVALID_INDEX"
  shows "(if p \<noteq> OOO_SEGMENT_INVALID_INDEX
      then do {prev \<leftarrow> seg_at f p; Some (seg_put f p (prev\<lparr>seg_next := n\<rparr>), t\<lparr>seg_prev := p\<rparr>)}
      else Some (f\<lparr>fifo_ooos_list_head := n\<rparr>, t))
    = map_option (\<lambda>f'. (f', t\<lparr>seg_prev := p\<rparr>)) (if p \<noteq> OOO_SEGMENT_INVALID_INDEX
        then do {prev \<leftarrow> seg_at f p; Some (seg_put f p (prev\<lparr>seg_next := n\<rparr>))}
        else Some (f\<lparr>fifo_ooos_list_head := n\<rparr>))"
  using assms by (cases t; cases "seg_at f p") auto

lemma link_next_pair:
  assumes "seg_next t = OOO_SEGMENT_INVALID_INDEX"
  shows "(if n \<noteq> OOO_SEGMENT_INVALID_INDEX
      then do {next \<leftarrow> seg_at f n; Some (seg_put f n (next\<lparr>seg_prev := p\<rparr>), t\<lparr>seg_next := n\<rparr>)}
      else Some (f, t))
    = map_option (\<lambda>f'. (f', t\<lparr>seg_next := n\<rparr>)) (if n \<noteq> OOO_SEGMENT_INVALID_INDEX
        then do {next \<leftarrow> seg_at f n; Some (seg_put f n (next\<lparr>seg_prev := p\<rparr>))} else Some f)"
  using assms by (cases t; cases "seg_at f n") auto

lemma seg_list_newest [simp]: "seg_list (f\<lparr>fifo_ooos_newest := i\<rparr>) is = seg_list f is"
  and seg_extent_newest [simp]: "seg_extent (f\<lparr>fifo_ooos_newest := i\<rparr>) = seg_extent f"
  and ring_part_newest [simp]: "ring_part (f\<lparr>fifo_ooos_newest := i\<rparr>) = ring_part f"
  by (simp_all add: seg_list_def seg_extent_def fun_eq_iff ring_part_def)

lemma add_before:
  assumes "seg_list f (as @ x # bs)" and "length (pool_vec (segments f)) < 2 ^ 32 - 1"
  shows "\<exists>f' i. ooo_add_before f position len x = Some f' \<and> seg_list f' (as @ i # x # bs) \<and> ring_part f' = ring_part f
    \<and> seg_extent f' = (seg_extent f)(i \<mapsto> (position, len)) \<and> i \<notin> set (as @ x # bs) \<and> fifo_ooos_newest f' = i"
proof -
  let ?I = "OOO_SEGMENT_INVALID_INDEX"
  let ?t = "\<lparr>seg_next = ?I, seg_prev = ?I, seg_fifo_position = position, seg_length = len\<rparr>"
  have d: "distinct (as @ x # bs)" "pool_ok (segments f)" "dom (seg_at f) = set (as @ x # bs)"
    using assms(1) unfolding seg_list_def by blast+
  obtain q s where l: "lseg (seg_at f) ?I (fifo_ooos_list_head f) as (seg_prev s) x" "seg_at f x = Some s"
    "lseg (seg_at f) x (seg_next s) bs q ?I" "x \<noteq> ?I"
    using assms(1) unfolding seg_list_def by (auto simp: lseg_append split: option.splits)
  obtain f0 i where n: "ooo_segment_new f position len = (f0, i)" by fastforce
  have i: "seg_at f i = None" "i \<noteq> ?I" "pool_ok (segments f0)" "seg_at f0 = (seg_at f)(i \<mapsto> ?t)"
    "f0 = f\<lparr>fifo_ooo_segments := segments f0\<rparr>" using seg_new [OF d(2) assms(2) n] by auto
  have fr: "i \<notin> set (as @ x # bs)" using i(1) d(3) by blast
  then have xi: "x \<noteq> i" "i \<noteq> x" by auto
  have r0: "ring_part f0 = ring_part f" "fifo_ooos_list_head f0 = fifo_ooos_list_head f"
    by (subst i(5), simp add: ring_part_def)+
  have "lseg (seg_at f0) ?I (fifo_ooos_list_head f0) as (seg_prev s) x"
    using l(1) fr r0(2) unfolding i(4) by simp
  from unlink_prev [OF this, of i] d(1) i(3) obtain f1 where f1: "(if seg_prev s \<noteq> ?I
        then do {prev \<leftarrow> seg_at f0 (seg_prev s); Some (seg_put f0 (seg_prev s) (prev\<lparr>seg_next := i\<rparr>))}
        else Some (f0\<lparr>fifo_ooos_list_head := i\<rparr>)) = Some f1"
    "lseg (seg_at f1) ?I (fifo_ooos_list_head f1) as (seg_prev s) i" "\<forall>j. j \<notin> set as \<longrightarrow> seg_at f1 j = seg_at f0 j"
    "seg_extent f1 = seg_extent f0" "ring_part f1 = ring_part f0" "pool_ok (segments f1)" "dom (seg_at f1) = dom (seg_at f0)"
    by auto
  have a1: "seg_at f1 i = Some ?t" "seg_at f1 x = Some s" using f1(3) fr l(2) d(1) i(4) by auto
  let ?f2 = "seg_put f1 i (?t\<lparr>seg_prev := seg_prev s, seg_next := x\<rparr>)"
  have a2: "seg_at ?f2 x = Some s" using a1 fr by auto
  let ?f3 = "seg_put ?f2 x (s\<lparr>seg_prev := i\<rparr>)"
  have m3: "seg_at ?f3 = (seg_at f1)(i \<mapsto> ?t\<lparr>seg_prev := seg_prev s, seg_next := x\<rparr>, x \<mapsto> s\<lparr>seg_prev := i\<rparr>)"
    using a1 a2 by simp
  have e: "ooo_add_before f position len x = Some (?f3\<lparr>fifo_ooos_newest := i\<rparr>)"
    unfolding ooo_add_before_def using n a1 i(4) l(2) xi a2 f1(1) by (simp add: link_prev_pair)
  have "lseg (seg_at ?f3) x (seg_next s) bs q ?I"
    unfolding m3 by (rule lseg_cong [OF l(3)]) (use f1(3) i(4) fr d(1) in auto)
  moreover have "lseg (seg_at ?f3) ?I (fifo_ooos_list_head f1) as (seg_prev s) i"
    unfolding m3 by (rule lseg_cong [OF f1(2)]) (use fr d(1) in auto)
  ultimately have "lseg (seg_at ?f3) ?I (fifo_ooos_list_head ?f3) (as @ i # x # bs) q ?I"
    using l(4) i(2) xi unfolding m3 by (auto simp: lseg_append)
  moreover have "dom (seg_at ?f3) = set (as @ i # x # bs)" using f1(7) i(4) d(3) unfolding m3 by auto
  ultimately have "seg_list ?f3 (as @ i # x # bs)" using d(1) fr f1(6) unfolding seg_list_def by auto
  moreover have "seg_extent ?f3 = (seg_extent f)(i \<mapsto> (position, len))"
  proof -
    have "seg_extent f x = Some (seg_fifo_position s, seg_length s)" using l(2) by (simp add: seg_extent_def)
    then show ?thesis using a1 a2 f1(4) i(4) fr by (auto simp: seg_extent_put seg_extent_def fun_eq_iff)
  qed
  moreover have "ring_part ?f3 = ring_part f" using f1(5) r0(1) by simp
  ultimately show ?thesis using e fr by (intro exI [of _ "?f3\<lparr>fifo_ooos_newest := i\<rparr>"] exI [of _ i]) simp
qed

lemma add_after:
  assumes "seg_list f (as @ x # bs)" and "length (pool_vec (segments f)) < 2 ^ 32 - 1"
  shows "\<exists>f' i. ooo_add_after f position len x = Some f' \<and> seg_list f' (as @ x # i # bs) \<and> ring_part f' = ring_part f
    \<and> seg_extent f' = (seg_extent f)(i \<mapsto> (position, len)) \<and> i \<notin> set (as @ x # bs) \<and> fifo_ooos_newest f' = i"
proof -
  let ?I = "OOO_SEGMENT_INVALID_INDEX"
  let ?t = "\<lparr>seg_next = ?I, seg_prev = ?I, seg_fifo_position = position, seg_length = len\<rparr>"
  have d: "distinct (as @ x # bs)" "pool_ok (segments f)" "dom (seg_at f) = set (as @ x # bs)"
    using assms(1) unfolding seg_list_def by blast+
  obtain q s where l: "lseg (seg_at f) ?I (fifo_ooos_list_head f) as (seg_prev s) x" "seg_at f x = Some s"
    "lseg (seg_at f) x (seg_next s) bs q ?I" "x \<noteq> ?I"
    using assms(1) unfolding seg_list_def by (auto simp: lseg_append split: option.splits)
  obtain f0 i where n: "ooo_segment_new f position len = (f0, i)" by fastforce
  have i: "seg_at f i = None" "i \<noteq> ?I" "pool_ok (segments f0)" "seg_at f0 = (seg_at f)(i \<mapsto> ?t)"
    "f0 = f\<lparr>fifo_ooo_segments := segments f0\<rparr>" using seg_new [OF d(2) assms(2) n] by auto
  have fr: "i \<notin> set (as @ x # bs)" using i(1) d(3) by blast
  then have xi: "x \<noteq> i" "i \<noteq> x" by auto
  have r0: "ring_part f0 = ring_part f" "fifo_ooos_list_head f0 = fifo_ooos_list_head f"
    by (subst i(5), simp add: ring_part_def)+
  have "lseg (seg_at f0) x (seg_next s) bs q ?I" using l(3) fr unfolding i(4) by simp
  from unlink_next [OF this, of i] d(1) i(3) obtain f1 q1 where f1: "(if seg_next s \<noteq> ?I
        then do {next \<leftarrow> seg_at f0 (seg_next s); Some (seg_put f0 (seg_next s) (next\<lparr>seg_prev := i\<rparr>))}
        else Some f0) = Some f1"
    "lseg (seg_at f1) i (seg_next s) bs q1 ?I" "\<forall>j. j \<notin> set bs \<longrightarrow> seg_at f1 j = seg_at f0 j"
    "seg_extent f1 = seg_extent f0" "ring_part f1 = ring_part f0" "pool_ok (segments f1)" "dom (seg_at f1) = dom (seg_at f0)"
    "fifo_ooos_list_head f1 = fifo_ooos_list_head f0"
    by auto
  have a1: "seg_at f1 i = Some ?t" "seg_at f1 x = Some s" using f1(3) fr l(2) d(1) i(4) by auto
  let ?f2 = "seg_put f1 i (?t\<lparr>seg_next := seg_next s, seg_prev := x\<rparr>)"
  have a2: "seg_at ?f2 x = Some s" using a1 fr by auto
  let ?f3 = "seg_put ?f2 x (s\<lparr>seg_next := i\<rparr>)"
  have m3: "seg_at ?f3 = (seg_at f1)(i \<mapsto> ?t\<lparr>seg_next := seg_next s, seg_prev := x\<rparr>, x \<mapsto> s\<lparr>seg_next := i\<rparr>)"
    using a1 a2 by simp
  have e: "ooo_add_after f position len x = Some (?f3\<lparr>fifo_ooos_newest := i\<rparr>)"
    unfolding ooo_add_after_def using n a1 i(4) l(2) xi a2 f1(1) by (simp add: link_next_pair)
  have "lseg (seg_at ?f3) i (seg_next s) bs q1 ?I"
    unfolding m3 by (rule lseg_cong [OF f1(2)]) (use fr d(1) in auto)
  moreover have "lseg (seg_at ?f3) ?I (fifo_ooos_list_head f) as (seg_prev s) x"
    unfolding m3 by (rule lseg_cong [OF l(1)]) (use f1(3) i(4) fr d(1) in auto)
  ultimately have "lseg (seg_at ?f3) ?I (fifo_ooos_list_head ?f3) (as @ x # i # bs) q1 ?I"
    using l(4) i(2) xi f1(8) r0(2) unfolding m3 by (auto simp: lseg_append)
  moreover have "dom (seg_at ?f3) = set (as @ x # i # bs)" using f1(7) i(4) d(3) unfolding m3 by auto
  ultimately have "seg_list ?f3 (as @ x # i # bs)" using d(1) fr f1(6) unfolding seg_list_def by auto
  moreover have "seg_extent ?f3 = (seg_extent f)(i \<mapsto> (position, len))"
  proof -
    have "seg_extent f x = Some (seg_fifo_position s, seg_length s)" using l(2) by (simp add: seg_extent_def)
    then show ?thesis using a1 a2 f1(4) i(4) fr by (auto simp: seg_extent_put seg_extent_def fun_eq_iff)
  qed
  moreover have "ring_part ?f3 = ring_part f" using f1(5) r0(1) by simp
  ultimately show ?thesis using e fr by (intro exI [of _ "?f3\<lparr>fifo_ooos_newest := i\<rparr>"] exI [of _ i]) simp
qed

text \<open>The search stops at a segment that starts after the offset, or at the last one.\<close>

lemma ooo_find_stops:
  assumes "lseg (seg_at f) p c is q OOO_SEGMENT_INVALID_INDEX" and "is \<noteq> []"
  shows "\<exists>as x bs s. is = as @ x # bs \<and> ooo_find f offset c = Some x \<and> seg_at f x = Some s
    \<and> (\<forall>a\<in>set as. \<exists>t. seg_at f a = Some t \<and> ooo_segment_offset f t \<le> offset)
    \<and> (bs = [] \<or> \<not> ooo_segment_offset f s \<le> offset)"
  using assms
proof (induction "is" arbitrary: p c)
  case (Cons i "is")
  then obtain s where s: "c = i" "seg_at f i = Some s" "lseg (seg_at f) i (seg_next s) is q OOO_SEGMENT_INVALID_INDEX"
    by (auto split: option.splits)
  show ?case
  proof (cases "is = [] \<or> \<not> ooo_segment_offset f s \<le> offset")
    case True
    then have "ooo_find f offset c = Some i" using s by (subst ooo_find.simps) auto
    then show ?thesis using True s by (intro exI [of _ "[]"] exI [of _ i] exI [of _ "is"]) auto
  next
    case False
    then have "seg_next s \<noteq> OOO_SEGMENT_INVALID_INDEX" using s(3) by (cases "is") auto
    then have f: "ooo_find f offset c = ooo_find f offset (seg_next s)" using s False by (subst ooo_find.simps) simp
    obtain as x bs t where i: "is = as @ x # bs" "ooo_find f offset (seg_next s) = Some x" "seg_at f x = Some t"
      "\<forall>a\<in>set as. \<exists>t. seg_at f a = Some t \<and> ooo_segment_offset f t \<le> offset" "bs = [] \<or> \<not> ooo_segment_offset f t \<le> offset"
      using Cons.IH [OF s(3)] False by blast
    then show ?thesis using f s(2) False by (intro exI [of _ "i # as"] exI [of _ x] exI [of _ bs]) auto
  qed
qed simp

section \<open>Offsets\<close>

text \<open>The distance of a position from the tail.\<close>

definition fifo_dist :: "svm_fifo \<Rightarrow> u32 \<Rightarrow> nat" where
  "fifo_dist f p = (unat p + unat (fifo_nitems f) - unat (fifo_tail f)) mod unat (fifo_nitems f)"

lemma ring_dist_inverse:
  assumes "t < n" and "p < (n :: nat)"
  shows "(t + (p + n - t) mod n) mod n = p"
proof -
  have "(t + (p + n - t) mod n) mod n = (t + (p + n - t)) mod n" by (simp only: mod_add_right_eq)
  also have "t + (p + n - t) = p + n" using assms by simp
  finally show ?thesis using assms by simp
qed

lemma ring_diff:
  assumes "t < n" and "p < (n :: nat)"
  shows "(n + t - p) mod n = (if (p + n - t) mod n = 0 then 0 else n - (p + n - t) mod n)"
proof (cases "p < t")
  case True
  then obtain k where k: "t = p + k" "0 < k" using less_imp_add_positive by blast
  then obtain m where m: "n = k + m" using assms by (metis less_imp_add_positive add_lessD1 add.commute)
  have "0 < m" "0 < k" using assms k m by simp_all
  have "n + t - p = k + n" "p + n - t = m" using k m by simp_all
  then show ?thesis using m \<open>0 < m\<close> \<open>0 < k\<close> by simp
next
  case False
  then obtain k where k: "p = t + k" using le_Suc_ex not_less by blast
  then obtain m where m: "n = k + m" using assms by (metis less_imp_add_positive add_lessD1 add.commute)
  have "0 < m" using assms k m by simp
  have "n + t - p = m" "p + n - t = k + n" using k m by simp_all
  then show ?thesis using m \<open>0 < m\<close> by simp
qed

lemma fifo_dist_lt: "ring_ok f \<Longrightarrow> fifo_dist f p < unat (fifo_nitems f)"
  by (simp add: fifo_dist_def ring_ok_def)

lemma fifo_dist_pos:
  "ring_ok f \<Longrightarrow> unat p < unat (fifo_nitems f) \<Longrightarrow>
   (unat (fifo_tail f) + fifo_dist f p) mod unat (fifo_nitems f) = unat p"
  unfolding fifo_dist_def by (rule ring_dist_inverse) (simp_all add: ring_ok_def)

lemma fifo_dist_eq:
  "ring_ok f \<Longrightarrow> unat p = (unat (fifo_tail f) + d) mod unat (fifo_nitems f) \<Longrightarrow> d < unat (fifo_nitems f) \<Longrightarrow>
   fifo_dist f p = d"
  unfolding fifo_dist_def by (simp add: ring_dist ring_ok_def)

lemma word_of_nat_diff: "b \<le> a \<Longrightarrow> (word_of_nat (a - b) :: 'a::len word) = word_of_nat a - word_of_nat b"
  by (simp add: of_nat_diff)

lemma unat_segment_offset:
  assumes "ring_ok f" and "unat (seg_fifo_position s) < unat (fifo_nitems f)"
  shows "unat (ooo_segment_offset f s) = fifo_dist f (seg_fifo_position s)"
proof -
  have r: "unat (fifo_nitems f) < 2 ^ 31" "unat (fifo_tail f) < unat (fifo_nitems f)" using assms(1) by (simp_all add: ring_ok_def)
  have "unat (fifo_nitems f + seg_fifo_position s) = unat (fifo_nitems f) + unat (seg_fifo_position s)"
    by (rule unat_u32_add) (use assms(2) r in simp)
  then show ?thesis using r by (simp add: ooo_segment_offset_def fifo_dist_def unat_mod unat_u32_sub add.commute)
qed

lemma unat_segment_end_offset:
  assumes "ring_ok f" and "unat (seg_fifo_position s) < unat (fifo_nitems f)"
    and "fifo_dist f (seg_fifo_position s) + unat (seg_length s) < unat (fifo_nitems f)"
  shows "unat (ooo_segment_end_offset f s) = fifo_dist f (seg_fifo_position s) + unat (seg_length s)"
proof -
  let ?n = "unat (fifo_nitems f)" and ?t = "unat (fifo_tail f)" and ?p = "unat (seg_fifo_position s)" and ?l = "unat (seg_length s)"
  have r: "?n < 2 ^ 31" "?t < ?n" using assms(1) by (simp_all add: ring_ok_def)
  have c: "?p + ?n - ?t < 2 * ?n" using assms(2) r by linarith
  have lt: "?p + ?n - ?t + ?l < 2 ^ 32"
    using assms(3) r c by (cases "?p + ?n - ?t < ?n") (auto simp: fifo_dist_def le_mod_geq)
  have e: "fifo_nitems f + seg_fifo_position s + seg_length s - fifo_tail f = word_of_nat (?p + ?n - ?t + ?l)"
    using r by (simp add: word_of_nat_diff)
  have "unat (fifo_nitems f + seg_fifo_position s + seg_length s - fifo_tail f) = ?p + ?n - ?t + ?l"
    unfolding e by (rule unat_word_of_nat) (use lt in simp)
  then have "unat (ooo_segment_end_offset f s) = (?p + ?n - ?t + ?l) mod ?n"
    by (simp add: ooo_segment_end_offset_def unat_mod)
  also have "\<dots> = (fifo_dist f (seg_fifo_position s) + ?l) mod ?n" unfolding fifo_dist_def by (simp only: mod_add_left_eq)
  finally show ?thesis using assms(3) by simp
qed

lemma unat_ooo_diff:
  assumes "ring_ok f" and "unat (seg_fifo_position s) < unat (fifo_nitems f)"
  shows "unat (ooo_diff f s) = (if fifo_dist f (seg_fifo_position s) = 0 then 0
    else unat (fifo_nitems f) - fifo_dist f (seg_fifo_position s))"
proof -
  let ?n = "unat (fifo_nitems f)" and ?t = "unat (fifo_tail f)" and ?p = "unat (seg_fifo_position s)"
  have r: "?n < 2 ^ 31" "?t < ?n" using assms(1) by (simp_all add: ring_ok_def)
  have "unat (fifo_nitems f + fifo_tail f) = ?n + ?t" by (rule unat_u32_add) (use r in simp)
  then have "unat (ooo_diff f s) = (?n + ?t - ?p) mod ?n" using assms(2) by (simp add: ooo_diff_def unat_mod unat_u32_sub)
  also have "\<dots> = (if fifo_dist f (seg_fifo_position s) = 0 then 0 else ?n - fifo_dist f (seg_fifo_position s))"
    unfolding fifo_dist_def by (rule ring_diff [OF r(2) assms(2)])
  finally show ?thesis .
qed

section \<open>Insertion of a segment\<close>

text \<open>Segments as intervals \<open>(offset, length)\<close>; intervals with gaps between them, in order.\<close>

definition seg_ival :: "svm_fifo \<Rightarrow> u32 \<Rightarrow> nat \<times> nat" where
  "seg_ival f i = (case seg_extent f i of None \<Rightarrow> (0, 0) | Some (p, l) \<Rightarrow> (fifo_dist f p, unat l))"

definition separated :: "(nat \<times> nat) list \<Rightarrow> bool" where
  "separated ivs = sorted_wrt (\<lambda>a b. fst a + snd a < fst b) ivs"

definition clear_of :: "nat \<times> nat \<Rightarrow> (nat \<times> nat) list \<Rightarrow> bool" where
  "clear_of iv ivs = (\<forall>(o', l')\<in>set ivs. fst iv + snd iv < o' \<or> o' + l' < fst iv)"

definition insert_ival :: "nat \<times> nat \<Rightarrow> (nat \<times> nat) list \<Rightarrow> (nat \<times> nat) list" where
  "insert_ival iv ivs = takeWhile (\<lambda>j. fst j \<le> fst iv) ivs @ iv # dropWhile (\<lambda>j. fst j \<le> fst iv) ivs"

definition ooo_ok :: "svm_fifo \<Rightarrow> u32 list \<Rightarrow> bool" where
  "ooo_ok f is = (seg_list f is \<and> ring_ok f
     \<and> (\<forall>i\<in>set is. \<exists>p l. seg_extent f i = Some (p, l) \<and> unat p < unat (fifo_nitems f)
          \<and> fifo_dist f p + unat l < unat (fifo_nitems f))
     \<and> separated (map (seg_ival f) is))"

lemma insert_ival_append:
  assumes "\<forall>a\<in>set as. fst a \<le> fst iv" and "\<forall>b\<in>set bs. fst iv < fst b"
  shows "insert_ival iv (as @ bs) = as @ iv # bs"
proof -
  have "takeWhile (\<lambda>j. fst j \<le> fst iv) (as @ bs) = as" "dropWhile (\<lambda>j. fst j \<le> fst iv) (as @ bs) = bs"
    using assms by (cases bs; force)+
  then show ?thesis by (simp add: insert_ival_def)
qed

lemma separated_append:
  "separated (as @ bs) \<longleftrightarrow> separated as \<and> separated bs \<and> (\<forall>a\<in>set as. \<forall>b\<in>set bs. fst a + snd a < fst b)"
  by (auto simp: separated_def sorted_wrt_append)

lemma separated_Cons: "separated (a # as) \<longleftrightarrow> separated as \<and> (\<forall>b\<in>set as. fst a + snd a < fst b)"
  by (auto simp: separated_def)

lemma separated_insert:
  assumes "separated (as @ bs)" and "\<forall>a\<in>set as. fst a + snd a < fst iv" and "\<forall>b\<in>set bs. fst iv + snd iv < fst b"
  shows "separated (as @ iv # bs)"
  using assms by (auto simp: separated_append separated_Cons)

lemma ring_part_eqs:
  assumes "ring_part f' = ring_part f"
  shows "fifo_nitems f' = fifo_nitems f" "fifo_tail f' = fifo_tail f" "fifo_head f' = fifo_head f"
    "fifo_data f' = fifo_data f" "fifo_cursize f' = fifo_cursize f" "fifo_dist f' = fifo_dist f"
    "ring_ok f' = ring_ok f"
  using assms by (auto simp: ring_part_def fun_eq_iff fifo_dist_def ring_ok_def)

lemma seg_ival_cong:
  assumes "ring_part f' = ring_part f" and "\<forall>i\<in>set is. seg_extent f' i = seg_extent f i"
  shows "map (seg_ival f') is = map (seg_ival f) is"
proof (rule map_cong [OF refl])
  fix i assume "i \<in> set is"
  then have e: "seg_extent f' i = seg_extent f i" using assms(2) by blast
  show "seg_ival f' i = seg_ival f i" unfolding seg_ival_def e ring_part_eqs(6) [OF assms(1)] ..
qed

lemma ooo_ok_extend:
  assumes "ooo_ok f (as @ bs)" and "seg_list f' (as @ i # bs)" and "ring_part f' = ring_part f"
    and "seg_extent f' = (seg_extent f)(i \<mapsto> (p, l))" and "i \<notin> set (as @ bs)"
    and "unat p < unat (fifo_nitems f)" and "fifo_dist f p = d" and "d + unat l < unat (fifo_nitems f)"
    and "\<forall>a\<in>set as. fst (seg_ival f a) + snd (seg_ival f a) < d"
    and "\<forall>b\<in>set bs. d + unat l < fst (seg_ival f b)"
  shows "ooo_ok f' (as @ i # bs) \<and> map (seg_ival f') (as @ i # bs) = insert_ival (d, unat l) (map (seg_ival f) (as @ bs))"
proof -
  have iv: "map (seg_ival f') js = map (seg_ival f) js" if "set js \<subseteq> set (as @ bs)" for js
    by (rule seg_ival_cong [OF assms(3)]) (use that assms(4,5) in auto)
  have i: "seg_ival f' i = (d, unat l)" using assms(4,7) ring_part_eqs(6) [OF assms(3)] by (simp add: seg_ival_def)
  have "separated (map (seg_ival f) as @ map (seg_ival f) bs)" using assms(1) by (simp add: ooo_ok_def)
  then have "separated (map (seg_ival f) as @ (d, unat l) # map (seg_ival f) bs)"
    by (rule separated_insert) (use assms(9,10) in auto)
  then have sep: "separated (map (seg_ival f') (as @ i # bs))" by (simp add: iv i del: map_eq_conv)
  have ins: "insert_ival (d, unat l) (map (seg_ival f) as @ map (seg_ival f) bs) = map (seg_ival f) as @ (d, unat l) # map (seg_ival f) bs"
  proof (rule insert_ival_append)
    show "\<forall>a\<in>set (map (seg_ival f) as). fst a \<le> fst (d, unat l)"
    proof
      fix a assume "a \<in> set (map (seg_ival f) as)"
      then obtain k where "k \<in> set as" "a = seg_ival f k" by auto
      then show "fst a \<le> fst (d, unat l)" using bspec [OF assms(9)] by fastforce
    qed
    show "\<forall>b\<in>set (map (seg_ival f) bs). fst (d, unat l) < fst b"
    proof
      fix b assume "b \<in> set (map (seg_ival f) bs)"
      then obtain k where "k \<in> set bs" "b = seg_ival f k" by auto
      then show "fst (d, unat l) < fst b" using bspec [OF assms(10)] by fastforce
    qed
  qed
  have "\<forall>j\<in>set (as @ i # bs). \<exists>p l. seg_extent f' j = Some (p, l) \<and> unat p < unat (fifo_nitems f')
      \<and> fifo_dist f' p + unat l < unat (fifo_nitems f')"
    using assms(1,4-8) ring_part_eqs [OF assms(3)] by (auto simp: ooo_ok_def)
  then show ?thesis
    using assms(1,2) sep ins ring_part_eqs(7) [OF assms(3)] by (simp add: ooo_ok_def iv i del: map_eq_conv)
qed

lemma seg_list_empty: "seg_list f is \<Longrightarrow> fifo_ooos_list_head f = OOO_SEGMENT_INVALID_INDEX \<longleftrightarrow> is = []"
  by (cases "is") (auto simp: seg_list_def)

lemma ooo_ok_seg:
  assumes "ooo_ok f is" and "i \<in> set is" and "seg_at f i = Some s"
  shows "unat (ooo_segment_offset f s) = fst (seg_ival f i)"
    and "unat (ooo_segment_end_offset f s) = fst (seg_ival f i) + snd (seg_ival f i)"
proof -
  have "unat (seg_fifo_position s) < unat (fifo_nitems f)"
    "fifo_dist f (seg_fifo_position s) + unat (seg_length s) < unat (fifo_nitems f)" "ring_ok f"
    "seg_ival f i = (fifo_dist f (seg_fifo_position s), unat (seg_length s))"
    using assms by (auto simp: ooo_ok_def seg_extent_def seg_ival_def)
  then show "unat (ooo_segment_offset f s) = fst (seg_ival f i)"
    "unat (ooo_segment_end_offset f s) = fst (seg_ival f i) + snd (seg_ival f i)"
    by (simp_all add: unat_segment_offset unat_segment_end_offset)
qed

lemma ooo_add_clear:
  assumes "ooo_ok f is" and "clear_of (unat offset, unat len) (map (seg_ival f) is)"
    and "unat offset + unat len < unat (fifo_nitems f)" and "length (pool_vec (segments f)) < 2 ^ 32 - 1"
  shows "\<exists>f' is'. ooo_segment_add f offset len = Some f' \<and> ooo_ok f' is' \<and> ring_part f' = ring_part f
    \<and> map (seg_ival f') is' = insert_ival (unat offset, unat len) (map (seg_ival f) is)"
proof -
  let ?I = "OOO_SEGMENT_INVALID_INDEX"
  have r: "ring_ok f" "seg_list f is" using assms(1) by (simp_all add: ooo_ok_def)
  have n: "unat (fifo_tail f) < unat (fifo_nitems f)" "unat (fifo_nitems f) < 2 ^ 31" "fifo_nitems f \<noteq> 0"
    using r(1) by (auto simp: ring_ok_def)
  define p where "p = (fifo_tail f + offset) mod fifo_nitems f"
  have p: "unat p = (unat (fifo_tail f) + unat offset) mod unat (fifo_nitems f)"
    unfolding p_def using n assms(3) by (intro unat_mod_index) simp_all
  have pl: "unat p < unat (fifo_nitems f)" using p n by simp
  have pd: "fifo_dist f p = unat offset" by (rule fifo_dist_eq [OF r(1) p]) (use assms(3) in simp)
  have e: "unat (offset + len) = unat offset + unat len" by (rule unat_u32_add) (use assms(3) n in simp)
  show ?thesis
  proof (cases "is = []")
    case True
    obtain f0 i where nw: "ooo_segment_new f p len = (f0, i)" by fastforce
    have i: "seg_at f i = None" "i \<noteq> ?I" "pool_ok (segments f0)"
      "seg_at f0 = (seg_at f)(i \<mapsto> \<lparr>seg_next = ?I, seg_prev = ?I, seg_fifo_position = p, seg_length = len\<rparr>)"
      "f0 = f\<lparr>fifo_ooo_segments := segments f0\<rparr>"
      using seg_new [OF _ assms(4) nw] r(2) by (auto simp: seg_list_def)
    let ?f = "f0\<lparr>fifo_ooos_list_head := i, fifo_ooos_newest := i\<rparr>"
    have h: "fifo_ooos_list_head f = ?I" using seg_list_empty [OF r(2)] True by simp
    have a: "ooo_segment_add f offset len = Some ?f"
      unfolding ooo_segment_add_def Let_def p_def [symmetric] using n h nw by simp
    have "ooo_ok ?f ([] @ i # []) \<and> map (seg_ival ?f) ([] @ i # []) = insert_ival (unat offset, unat len) (map (seg_ival f) ([] @ []))"
    proof (rule ooo_ok_extend [where p = p])
      show "ooo_ok f ([] @ [])" using assms(1) True by simp
      show "seg_list ?f ([] @ i # [])" using r(2) True i(2-4) by (auto simp: seg_list_def)
      show "ring_part ?f = ring_part f" by (subst i(5)) (simp add: ring_part_def)
      show "seg_extent ?f = (seg_extent f)(i \<mapsto> (p, len))" using i(4) by (auto simp: seg_extent_def fun_eq_iff)
    qed (use pl pd assms(3) in simp_all)
    moreover have "ring_part ?f = ring_part f" by (subst i(5)) (simp add: ring_part_def)
    ultimately show ?thesis using a True by (intro exI [of _ ?f] exI [of _ "[i]"]) simp
  next
    case False
    then have h: "fifo_ooos_list_head f \<noteq> ?I" using seg_list_empty [OF r(2)] by simp
    obtain as x bs s where x: "is = as @ x # bs" "ooo_find f offset (fifo_ooos_list_head f) = Some x" "seg_at f x = Some s"
      "\<forall>a\<in>set as. \<exists>t. seg_at f a = Some t \<and> ooo_segment_offset f t \<le> offset" "bs = [] \<or> \<not> ooo_segment_offset f s \<le> offset"
      using r(2) ooo_find_stops [OF _ False, of f _ "fifo_ooos_list_head f" _ offset] unfolding seg_list_def by blast
    have so: "unat (ooo_segment_offset f s) = fst (seg_ival f x)"
      "unat (ooo_segment_end_offset f s) = fst (seg_ival f x) + snd (seg_ival f x)"
      by (rule ooo_ok_seg [OF assms(1) _ x(3)], use x(1) in simp)+
    have cl: "\<forall>i\<in>set is. unat offset + unat len < fst (seg_ival f i) \<or> fst (seg_ival f i) + snd (seg_ival f i) < unat offset"
      using assms(2) by (auto simp: clear_of_def)
    have "fst (seg_ival f a) \<le> unat offset" if mem: "a \<in> set as" for a
    proof -
      obtain t where t: "seg_at f a = Some t" "ooo_segment_offset f t \<le> offset" using bspec [OF x(4) mem] by blast
      have "unat (ooo_segment_offset f t) = fst (seg_ival f a)" by (rule ooo_ok_seg(1) [OF assms(1) _ t(1)]) (use x(1) mem in simp)
      then show ?thesis using t(2) by (simp add: word_le_nat_alt)
    qed
    note below = this
    have lo: "\<forall>a\<in>set as. fst (seg_ival f a) + snd (seg_ival f a) < unat offset"
    proof
      fix a assume a: "a \<in> set as"
      then have "unat offset + unat len < fst (seg_ival f a) \<or> fst (seg_ival f a) + snd (seg_ival f a) < unat offset"
        using cl x(1) by simp
      then show "fst (seg_ival f a) + snd (seg_ival f a) < unat offset" using below [OF a] by linarith
    qed
    have sep: "separated (map (seg_ival f) as @ seg_ival f x # map (seg_ival f) bs)" using assms(1) x(1) by (simp add: ooo_ok_def)
    show ?thesis
    proof (cases "unat offset < fst (seg_ival f x)")
      case True
      have "unat offset + unat len < fst (seg_ival f x) \<or> fst (seg_ival f x) + snd (seg_ival f x) < unat offset"
        using cl x(1) by simp
      then have c: "unat offset + unat len < fst (seg_ival f x)" using True by linarith
      have hi: "\<forall>b\<in>set (x # bs). unat offset + unat len < fst (seg_ival f b)"
        using c sep by (auto simp: separated_append separated_Cons)
      obtain f' i where f': "ooo_add_before f p len x = Some f'" "seg_list f' (as @ i # x # bs)" "ring_part f' = ring_part f"
        "seg_extent f' = (seg_extent f)(i \<mapsto> (p, len))" "i \<notin> set (as @ x # bs)"
        using add_before [of f "as" x bs, OF _ assms(4), of p len] r(2) x(1) by blast
      have "offset + len < ooo_segment_offset f s" using c e so(1) by (simp add: word_less_nat_alt)
      then have "ooo_segment_add f offset len = Some f'"
        unfolding ooo_segment_add_def Let_def p_def [symmetric] using n h x(2,3) f'(1) by simp
      then show ?thesis
        using ooo_ok_extend [OF _ f'(2-5) pl pd assms(3) lo hi] assms(1) x(1) f'(3) by blast
    next
      case False
      have "unat offset + unat len < fst (seg_ival f x) \<or> fst (seg_ival f x) + snd (seg_ival f x) < unat offset"
        using cl x(1) by simp
      then have c: "fst (seg_ival f x) + snd (seg_ival f x) < unat offset" using False by linarith
      have "bs = []" using x(5) False so(1) by (auto simp: word_le_nat_alt)
      obtain f' i where f': "ooo_add_after f p len x = Some f'" "seg_list f' (as @ x # i # bs)" "ring_part f' = ring_part f"
        "seg_extent f' = (seg_extent f)(i \<mapsto> (p, len))" "i \<notin> set (as @ x # bs)"
        using add_after [of f "as" x bs, OF _ assms(4), of p len] r(2) x(1) by blast
      have "\<not> offset + len < ooo_segment_offset f s" "ooo_segment_end_offset f s < offset"
        using c e so by (simp_all add: word_less_nat_alt)
      then have a: "ooo_segment_add f offset len = Some f'"
        unfolding ooo_segment_add_def Let_def p_def [symmetric] using n h x(2,3) f'(1) by simp
      have ok: "ooo_ok f ((as @ [x]) @ [])" and sl: "seg_list f' ((as @ [x]) @ i # [])" and fr: "i \<notin> set ((as @ [x]) @ [])"
        and lo': "\<forall>a\<in>set (as @ [x]). fst (seg_ival f a) + snd (seg_ival f a) < unat offset"
        using assms(1) x(1) f'(2,5) lo c \<open>bs = []\<close> by simp_all
      have "ooo_ok f' ((as @ [x]) @ i # []) \<and> map (seg_ival f') ((as @ [x]) @ i # [])
          = insert_ival (unat offset, unat len) (map (seg_ival f) ((as @ [x]) @ []))"
        by (rule ooo_ok_extend [OF ok sl f'(3,4) fr pl pd assms(3) lo']) simp
      then show ?thesis using a f'(3) x(1) \<open>bs = []\<close> by (intro exI [of _ f'] exI [of _ "as @ [x, i]"]) simp
    qed
  qed
qed

section \<open>Reassembly\<close>

definition covered_by :: "(nat \<times> nat) list \<Rightarrow> nat \<Rightarrow> bool" where
  "covered_by ivs x = (\<exists>iv\<in>set ivs. fst iv \<le> x \<and> x < fst iv + snd iv)"

text \<open>The bytes that wait at offsets ahead of the tail.\<close>

definition fifo_pending :: "svm_fifo \<Rightarrow> u32 list \<Rightarrow> nat \<Rightarrow> u8 option" where
  "fifo_pending f is x =
    (if covered_by (map (seg_ival f) is) x
     then Some (fifo_data f ! ((unat (fifo_tail f) + x) mod unat (fifo_nitems f))) else None)"

definition reasm_ok :: "svm_fifo \<Rightarrow> u32 list \<Rightarrow> bool" where
  "reasm_ok f is = (fifo_sized f \<and> ooo_ok f is
     \<and> (\<forall>i\<in>set is. unat (fifo_cursize f) + fst (seg_ival f i) + snd (seg_ival f i) \<le> unat (fifo_nitems f)))"

lemma set_insert_ival: "set (insert_ival iv ivs) = insert iv (set ivs)"
  unfolding insert_ival_def by (metis Un_insert_right list.simps(15) set_append takeWhile_dropWhile_id)

text \<open>The data that an out-of-order enqueue stores.\<close>

lemma enqueue_with_offset_data:
  assumes "ring_ok f" and "0 < unat offset" and "unat (fifo_cursize f) \<le> unat (fifo_nitems f)"
    and "unat (fifo_cursize f) + unat offset + unat len \<le> unat (fifo_nitems f)" and "unat offset < unat (fifo_nitems f)"
    and "ooo_segment_add f offset len = Some f1" and "ring_part f1 = ring_part f" and "unat len \<le> length src"
  shows "svm_fifo_enqueue_with_offset f offset len src
    = Some (f1\<lparr>fifo_data := ring_write (fifo_data f) ((unat (fifo_tail f) + unat offset) mod unat (fifo_nitems f)) (take (unat len) src)\<rparr>, 0)"
proof -
  let ?n = "fifo_nitems f" and ?d = "fifo_data f"
  have n: "unat ?n < 2 ^ 31" "unat (fifo_tail f) < unat ?n" "length ?d = unat ?n" using assms(1) by (simp_all add: ring_ok_def)
  note r = ring_part_eqs [OF assms(7)]
  have "unat (len + offset) = unat len + unat offset" by (rule unat_u32_add) (use assms(4) n in simp)
  then have fit: "\<not> ?n - fifo_cursize f < len + offset" using assms(3,4) by (simp add: word_less_nat_alt unat_u32_sub)
  have o0: "0 < offset" using assms(2) by (simp add: word_less_nat_alt)
  define tpo where "tpo = (fifo_tail f + offset) mod ?n"
  have t: "unat tpo = (unat (fifo_tail f) + unat offset) mod unat ?n"
    unfolding tpo_def by (rule unat_mod_index) (use n assms(5) in simp_all)
  have tl: "unat tpo < unat ?n" using t n by simp
  define first where "first = (if ?n - tpo < len then ?n - tpo else len)"
  have ll: "unat len \<le> unat ?n" using assms(4) by simp
  note p = copy_pieces [OF tl ll n(1), folded first_def]
  have fs: "length (take (unat first) src) = unat first" using p(1) assms(8) by simp
  have d1: "data_write ?d (unat tpo) (take (unat first) src) = Some (ring_write ?d (unat tpo) (take (unat first) src))"
    by (rule data_write_ring) (use n tl p(1) fs in simp_all)
  have u: "svm_fifo_enqueue_with_offset f offset len src = do {
      d \<leftarrow> data_write ?d (unat tpo) (take (unat first) src);
      f \<leftarrow> (if len - first \<noteq> 0
           then do {
             _ \<leftarrow> (if (tpo + first) mod ?n = 0 then Some () else None);
             d \<leftarrow> data_write d (unat ((tpo + first) mod ?n)) (take (unat (len - first)) (drop (unat first) src));
             Some (f1\<lparr>fifo_data := d\<rparr>)}
           else Some (f1\<lparr>fifo_data := d\<rparr>));
      Some (f, 0)}"
    unfolding svm_fifo_enqueue_with_offset_def Let_def assms(6) Option.bind.simps r
      tpo_def [symmetric] first_def [symmetric]
    using o0 fit assms(8) by (simp only: not_True_eq_False if_True if_False Option.bind.simps) (simp cong: if_cong)
  show ?thesis
  proof (cases "len - first = 0")
    case True
    then have "unat first = unat len" by (rule p(5))
    then show ?thesis unfolding u using d1 True t by simp
  next
    case False
    have "unat (len - first) \<noteq> 0" using False by (simp only: unat_eq_0) simp
    then have fl: "unat first = unat ?n - unat tpo" "unat first < unat len" "unat (len - first) = unat len - unat first"
      using p(1,2) by auto
    have "unat (tpo + first) = unat ?n" using fl tl n by (simp add: unat_u32_add)
    then have z: "(tpo + first) mod ?n = 0" by (simp add: word_unat_eq_iff unat_mod)
    have "data_write (ring_write ?d (unat tpo) (take (unat first) (take (unat len) src))) 0 (drop (unat first) (take (unat len) src))
        = Some (ring_write ?d (unat tpo) (take (unat len) src))"
      by (rule data_write_wrap) (use n tl fl ll assms(8) in simp_all)
    then have d2: "data_write (ring_write ?d (unat tpo) (take (unat first) src)) 0
          (take (unat len - unat first) (drop (unat first) src)) = Some (ring_write ?d (unat tpo) (take (unat len) src))"
      using fl by (simp add: drop_take min_absorb1)
    show ?thesis unfolding u using d1 d2 False t z fl(3) by simp
  qed
qed

lemma seg_ival_data [simp]: "seg_ival (f\<lparr>fifo_data := d\<rparr>) = seg_ival f"
  by (rule ext) (simp add: seg_ival_def seg_extent_def fifo_dist_def split: option.split)

lemma ooo_ok_data: "ooo_ok f is \<Longrightarrow> length d = length (fifo_data f) \<Longrightarrow> ooo_ok (f\<lparr>fifo_data := d\<rparr>) is"
  by (auto simp: ooo_ok_def seg_list_def ring_ok_def seg_extent_def fifo_dist_def)

lemma reasm_covered_lt:
  assumes "reasm_ok f is" and "covered_by (map (seg_ival f) is) x"
  shows "x < unat (fifo_nitems f)"
proof -
  obtain i where i: "i \<in> set is" "x < fst (seg_ival f i) + snd (seg_ival f i)" using assms(2) by (auto simp: covered_by_def)
  then have "unat (fifo_cursize f) + fst (seg_ival f i) + snd (seg_ival f i) \<le> unat (fifo_nitems f)"
    using assms(1) by (simp add: reasm_ok_def)
  then show ?thesis using i(2) by linarith
qed

lemma enqueue_ahead:
  assumes "reasm_ok f is" and "clear_of (unat offset, unat len) (map (seg_ival f) is)" and "0 < unat offset"
    and "unat (fifo_cursize f) + unat offset + unat len \<le> unat (fifo_nitems f)"
    and "unat offset + unat len < unat (fifo_nitems f)"
    and "length (pool_vec (segments f)) < 2 ^ 32 - 1" and "unat len \<le> length src"
  shows "\<exists>f' is'. svm_fifo_enqueue_with_offset f offset len src = Some (f', 0) \<and> reasm_ok f' is'
    \<and> fifo_contents f' = fifo_contents f
    \<and> fifo_pending f' is' = (\<lambda>x. if unat offset \<le> x \<and> x < unat offset + unat len then Some (src ! (x - unat offset))
                                 else fifo_pending f is x)
    \<and> map (seg_ival f') is' = insert_ival (unat offset, unat len) (map (seg_ival f) is)
    \<and> fifo_cursize f' = fifo_cursize f \<and> fifo_nitems f' = fifo_nitems f"
proof -
  let ?n = "unat (fifo_nitems f)" and ?c = "unat (fifo_cursize f)" and ?h = "unat (fifo_head f)" and ?t = "unat (fifo_tail f)"
    and ?o = "unat offset" and ?l = "unat len" and ?d = "fifo_data f"
  have ok: "ooo_ok f is" "ring_ok f" "?c \<le> ?n" "?t = (?h + ?c) mod ?n" using assms(1) by (simp_all add: reasm_ok_def ooo_ok_def fifo_sized_def)
  have n: "length ?d = ?n" "?h < ?n" "?t < ?n" using ok(2) by (simp_all add: ring_ok_def)
  obtain f1 is' where f1: "ooo_segment_add f offset len = Some f1" "ooo_ok f1 is'" "ring_part f1 = ring_part f"
    "map (seg_ival f1) is' = insert_ival (?o, ?l) (map (seg_ival f) is)"
    using ooo_add_clear [OF ok(1) assms(2,5,6)] by blast
  note r = ring_part_eqs [OF f1(3)]
  let ?d' = "ring_write ?d ((?t + ?o) mod ?n) (take ?l src)"
  let ?f = "f1\<lparr>fifo_data := ?d'\<rparr>"
  have e: "svm_fifo_enqueue_with_offset f offset len src = Some (?f, 0)"
    by (rule enqueue_with_offset_data [OF ok(2) assms(3) ok(3) assms(4) _ f1(1,3) assms(7)]) (use assms(5) in simp)
  have w: "?d' ! ((?t + x) mod ?n) = (if ?o \<le> x \<and> x < ?o + ?l then src ! (x - ?o) else ?d ! ((?t + x) mod ?n))" if "x < ?n" for x
    using ring_write_offset [of ?t ?d ?o "take ?l src" x] n assms(5,7) that by auto
  have "ring_get ?d' ?h ?c = ring_get ?d ?h ?c"
  proof (rule nth_equalityI)
    fix j assume "j < length (ring_get ?d' ?h ?c)"
    then have j: "j < ?c" by simp
    have "(?t + ?o) mod ?n = (?h + (?c + ?o)) mod ?n" using ok(4) by (simp add: mod_add_left_eq add.assoc)
    then have "?d' ! ((?h + j) mod ?n) = ?d ! ((?h + j) mod ?n)"
      using ring_write_offset [of ?h ?d "?c + ?o" "take ?l src" j] n j assms(4,5,7) ok(3) by (cases "?l = 0") auto
    then show "ring_get ?d' ?h ?c ! j = ring_get ?d ?h ?c ! j" using j n by (simp add: ring_get_nth)
  qed simp
  then have c: "fifo_contents ?f = fifo_contents f" by (simp add: fifo_contents_def r)
  have iv: "map (seg_ival ?f) is' = insert_ival (?o, ?l) (map (seg_ival f) is)" using f1(4) by simp
  note lt = reasm_covered_lt [OF assms(1)]
  have "fifo_pending ?f is' x = (if ?o \<le> x \<and> x < ?o + ?l then Some (src ! (x - ?o)) else fifo_pending f is x)" for x
  proof -
    have "covered_by (map (seg_ival ?f) is') x \<longleftrightarrow> (?o \<le> x \<and> x < ?o + ?l) \<or> covered_by (map (seg_ival f) is) x"
      unfolding iv by (auto simp: covered_by_def set_insert_ival)
    then show ?thesis using w [of x] lt [of x] assms(5) by (auto simp: fifo_pending_def r)
  qed
  moreover have "reasm_ok ?f is'"
  proof -
    have "\<forall>iv\<in>set (map (seg_ival ?f) is'). ?c + fst iv + snd iv \<le> ?n"
      unfolding iv set_insert_ival using assms(1,4) by (auto simp: reasm_ok_def add.assoc)
    moreover have "fifo_sized ?f" using assms(1) by (simp add: reasm_ok_def fifo_sized_def ring_ok_def r)
    ultimately show ?thesis using ooo_ok_data [OF f1(2), of ?d'] r n by (simp add: reasm_ok_def)
  qed
  ultimately show ?thesis using e c iv r by (intro exI [of _ ?f] exI [of _ is']) auto
qed

lemma ooo_ok_extent:
  "ooo_ok f is \<Longrightarrow> i \<in> set is \<Longrightarrow> \<exists>p l. seg_extent f i = Some (p, l) \<and> unat p < unat (fifo_nitems f)
     \<and> fifo_dist f p + unat l < unat (fifo_nitems f)"
  by (simp add: ooo_ok_def)

text \<open>When the tail advances by \<open>r\<close>, the segments beyond move closer by \<open>r\<close>.\<close>

lemma shift_ival:
  assumes "ooo_ok f is" and "ring_ok f'" and "fifo_nitems f' = fifo_nitems f"
    and "unat (fifo_tail f') = (unat (fifo_tail f) + r) mod unat (fifo_nitems f)"
    and "seg_extent f' i = seg_extent f i" and "i \<in> set is" and "r \<le> fst (seg_ival f i)"
  shows "seg_ival f' i = (fst (seg_ival f i) - r, snd (seg_ival f i))"
proof -
  obtain p l where p: "seg_extent f i = Some (p, l)" "unat p < unat (fifo_nitems f)" using ooo_ok_extent [OF assms(1,6)] by blast
  have ok: "ring_ok f" using assms(1) by (simp add: ooo_ok_def)
  let ?d = "fifo_dist f p" and ?n = "unat (fifo_nitems f)"
  have d: "seg_ival f i = (?d, unat l)" "?d < ?n" using p fifo_dist_lt [OF ok] by (simp_all add: seg_ival_def)
  have "unat p = (unat (fifo_tail f) + (r + (?d - r))) mod ?n" using fifo_dist_pos [OF ok p(2)] assms(7) d(1) by simp
  also have "\<dots> = (unat (fifo_tail f') + (?d - r)) mod unat (fifo_nitems f')"
    unfolding assms(3,4) by (simp only: mod_add_left_eq add.assoc)
  finally have "fifo_dist f' p = ?d - r" by (rule fifo_dist_eq [OF assms(2)]) (use d assms(3) in simp)
  then show ?thesis using p(1) assms(5) d(1) by (simp add: seg_ival_def)
qed

text \<open>The fifo after the tail has moved by \<open>r\<close> to or over the front of the list.\<close>

lemma reasm_advance:
  assumes "reasm_ok f (as @ is)" and "seg_list f' is" and "\<forall>i\<in>set is. seg_extent f' i = seg_extent f i"
    and "\<forall>i\<in>set is. r \<le> fst (seg_ival f i)" and "\<forall>i\<in>set as. fst (seg_ival f i) + snd (seg_ival f i) \<le> r"
    and "fifo_nitems f' = fifo_nitems f" and "fifo_head f' = fifo_head f" and "length (fifo_data f') = length (fifo_data f)"
    and "unat (fifo_tail f') = (unat (fifo_tail f) + r) mod unat (fifo_nitems f)"
    and "unat (fifo_cursize f') = unat (fifo_cursize f) + r" and "unat (fifo_cursize f) + r \<le> unat (fifo_nitems f)"
    and "\<forall>x. r \<le> x \<longrightarrow> x < unat (fifo_nitems f) \<longrightarrow> fifo_data f' ! ((unat (fifo_tail f) + x) mod unat (fifo_nitems f))
           = fifo_data f ! ((unat (fifo_tail f) + x) mod unat (fifo_nitems f))"
  shows "reasm_ok f' is \<and> fifo_pending f' is = (\<lambda>x. fifo_pending f (as @ is) (x + r))"
proof -
  let ?n = "unat (fifo_nitems f)" and ?t = "unat (fifo_tail f)"
  have ok: "ooo_ok f (as @ is)" "fifo_sized f" using assms(1) by (simp_all add: reasm_ok_def)
  have rf: "ring_ok f" "?t = (unat (fifo_head f) + unat (fifo_cursize f)) mod ?n" using ok(2) by (simp_all add: fifo_sized_def)
  have r': "ring_ok f'" using rf(1) assms(6-9) by (simp add: ring_ok_def)
  have sh: "seg_ival f' i = (fst (seg_ival f i) - r, snd (seg_ival f i))" if i: "i \<in> set is" for i
    by (rule shift_ival [OF ok(1) r' assms(6,9)]) (use i assms(3,4) in auto)
  have "fifo_sized f'"
    using r' assms(6,7,9-11) rf(2) by (simp add: fifo_sized_def mod_add_left_eq add.assoc)
  moreover have "ooo_ok f' is"
  proof -
    have "\<exists>p l. seg_extent f' i = Some (p, l) \<and> unat p < unat (fifo_nitems f') \<and> fifo_dist f' p + unat l < unat (fifo_nitems f')"
      if i: "i \<in> set is" for i
    proof -
      obtain p l where p: "seg_extent f i = Some (p, l)" "unat p < ?n" "fifo_dist f p + unat l < ?n"
        using ooo_ok_extent [OF ok(1), of i] i by auto
      then have "fifo_dist f' p = fifo_dist f p - r" using sh [OF i] assms(3) i by (simp add: seg_ival_def)
      then show ?thesis using p assms(3,6) i by auto
    qed
    moreover have "separated (map (seg_ival f') is)"
    proof -
      have "separated (map (seg_ival f) is)" using ok(1) by (simp add: ooo_ok_def separated_append)
      then have "sorted_wrt (\<lambda>i j. fst (seg_ival f i) + snd (seg_ival f i) < fst (seg_ival f j)) is"
        by (simp add: separated_def sorted_wrt_map)
      then have "sorted_wrt (\<lambda>i j. fst (seg_ival f' i) + snd (seg_ival f' i) < fst (seg_ival f' j)) is"
        by (rule sorted_wrt_mono_rel [rotated]) (use sh assms(4) in auto)
      then show ?thesis by (simp add: separated_def sorted_wrt_map)
    qed
    ultimately show ?thesis using assms(2) r' by (simp add: ooo_ok_def)
  qed
  moreover have "\<forall>i\<in>set is. unat (fifo_cursize f') + fst (seg_ival f' i) + snd (seg_ival f' i) \<le> unat (fifo_nitems f')"
    using assms(1,4,6,10) sh by (fastforce simp: reasm_ok_def)
  moreover have "fifo_pending f' is x = fifo_pending f (as @ is) (x + r)" for x
  proof -
    have "covered_by (map (seg_ival f') is) x \<longleftrightarrow> (\<exists>i\<in>set is. fst (seg_ival f i) - r \<le> x \<and> x < fst (seg_ival f i) - r + snd (seg_ival f i))"
      using sh by (auto simp: covered_by_def)
    also have "\<dots> \<longleftrightarrow> (\<exists>i\<in>set is. fst (seg_ival f i) \<le> x + r \<and> x + r < fst (seg_ival f i) + snd (seg_ival f i))"
    proof (rule bex_cong [OF refl])
      fix i assume "i \<in> set is"
      then have "r \<le> fst (seg_ival f i)" using assms(4) by blast
      then show "(fst (seg_ival f i) - r \<le> x \<and> x < fst (seg_ival f i) - r + snd (seg_ival f i))
          = (fst (seg_ival f i) \<le> x + r \<and> x + r < fst (seg_ival f i) + snd (seg_ival f i))" by linarith
    qed
    also have "\<dots> \<longleftrightarrow> covered_by (map (seg_ival f) (as @ is)) (x + r)" using assms(5) by (fastforce simp: covered_by_def)
    finally have c: "covered_by (map (seg_ival f') is) x \<longleftrightarrow> covered_by (map (seg_ival f) (as @ is)) (x + r)" .
    have "(unat (fifo_tail f') + x) mod ?n = (?t + (x + r)) mod ?n"
      unfolding assms(9) by (simp only: mod_add_left_eq add.assoc add.commute [of r])
    then show ?thesis using c assms(6,12) reasm_covered_lt [OF assms(1), of "x + r"] by (auto simp: fifo_pending_def)
  qed
  ultimately show ?thesis by (auto simp: reasm_ok_def)
qed

text \<open>
  An enqueue of \<open>k\<close> bytes that does not reach into the first segment: the segment is collected if
  the bytes end where it starts.
\<close>

lemma try_collect_front:
  assumes "ooo_ok f (i # is)" and "unat k \<le> unat (fifo_nitems f) - fst (seg_ival f i)" and "0 < unat k"
    and "unat (fifo_cursize f) + snd (seg_ival f i) \<le> unat (fifo_nitems f)"
  shows "\<exists>f'. ooo_segment_try_collect f k = Some (f', if fst (seg_ival f i) = 0 then word_of_nat (snd (seg_ival f i)) else 0)
    \<and> (if fst (seg_ival f i) = 0
       then seg_list f' is \<and> seg_extent f' = (seg_extent f)(i := None) \<and> fifo_nitems f' = fifo_nitems f \<and> fifo_head f' = fifo_head f
         \<and> fifo_cursize f' = fifo_cursize f \<and> fifo_data f' = fifo_data f
         \<and> unat (fifo_tail f') = (unat (fifo_tail f) + snd (seg_ival f i)) mod unat (fifo_nitems f)
       else f' = f)"
proof -
  let ?n = "unat (fifo_nitems f)"
  have ok: "ring_ok f" "seg_list f (i # is)" using assms(1) by (simp_all add: ooo_ok_def)
  have n: "fifo_nitems f \<noteq> 0" "?n < 2 ^ 31" "unat (fifo_tail f) < ?n" using ok(1) by (auto simp: ring_ok_def)
  have hd: "fifo_ooos_list_head f = i" using ok(2) by (auto simp: seg_list_def)
  obtain p l where pl: "seg_extent f i = Some (p, l)" "unat p < ?n" "fifo_dist f p + unat l < ?n"
    using ooo_ok_extent [OF assms(1), of i] by auto
  obtain s where s: "seg_at f i = Some s" "seg_fifo_position s = p" "seg_length s = l"
    using pl(1) by (auto simp: seg_extent_def)
  have iv: "seg_ival f i = (fifo_dist f p, unat l)" using pl(1) by (simp add: seg_ival_def)
  have d: "unat (ooo_diff f s) = (if fifo_dist f p = 0 then 0 else ?n - fifo_dist f p)"
    using unat_ooo_diff [OF ok(1), of s] s(2) pl(2) by simp
  show ?thesis
  proof (cases "fifo_dist f p = 0")
    case True
    then have z: "ooo_diff f s = 0" using d by (simp add: unat_eq_0)
    have loop: "ooo_collect_loop f k i 0 = Some (f, i, 0)" by (subst ooo_collect_loop.simps) simp
    have "unat (fifo_nitems f - fifo_cursize f) = ?n - unat (fifo_cursize f)" using assms(4) by (simp add: unat_u32_sub)
    then have le: "l \<le> fifo_nitems f - fifo_cursize f" using assms(4) iv by (simp add: word_le_nat_alt)
    let ?f = "f\<lparr>fifo_tail := (fifo_tail f + l) mod fifo_nitems f\<rparr>"
    have "seg_list ?f ([] @ i # is)" using ok(2) by (simp add: seg_list_def)
    from ooo_del [OF this] obtain f' where f': "ooo_segment_del ?f i = Some f'" "seg_list f' is" "ring_part f' = ring_part ?f"
      "seg_extent f' = (seg_extent ?f)(i := None)" by auto
    have "ooo_segment_try_collect f k = Some (f', l)"
      unfolding ooo_segment_try_collect_def using n(1) hd s z loop le f'(1) by (simp add: Let_def)
    moreover have "unat ((fifo_tail f + l) mod fifo_nitems f) = (unat (fifo_tail f) + unat l) mod ?n"
      by (rule unat_mod_index) (use n pl(3) in simp_all)
    moreover have "seg_extent ?f = seg_extent f" by (simp add: seg_extent_def fun_eq_iff)
    ultimately show ?thesis using True iv f' ring_part_eqs [OF f'(3)] by simp
  next
    case False
    then have dd: "unat (ooo_diff f s) = ?n - fifo_dist f p" using d by simp
    have "0 < ?n - fifo_dist f p" using fifo_dist_lt [OF ok(1), of p] by simp
    then have nz: "ooo_diff f s \<noteq> 0" using dd by (metis less_irrefl unat_eq_0)
    have "\<not> ooo_diff f s < k" using dd assms(2) iv by (simp add: word_less_nat_alt)
    then have "ooo_collect_loop f k i (ooo_diff f s) = Some (f, i, ooo_diff f s)" by (subst ooo_collect_loop.simps) simp
    then have "ooo_segment_try_collect f k = Some (f, 0)"
      unfolding ooo_segment_try_collect_def using n(1) hd s nz by simp
    then show ?thesis using False iv by simp
  qed
qed

lemma ooo_ok_cursize: "ooo_ok (f\<lparr>fifo_cursize := c\<rparr>) is = ooo_ok f is"
  and seg_ival_cursize [simp]: "seg_ival (f\<lparr>fifo_cursize := c\<rparr>) = seg_ival f"
proof -
  show v: "seg_ival (f\<lparr>fifo_cursize := c\<rparr>) = seg_ival f"
    by (rule ext) (simp add: seg_ival_def seg_extent_def fifo_dist_def split: option.split)
  have "seg_extent (f\<lparr>fifo_cursize := c\<rparr>) = seg_extent f" "fifo_dist (f\<lparr>fifo_cursize := c\<rparr>) = fifo_dist f"
    "seg_list (f\<lparr>fifo_cursize := c\<rparr>) is = seg_list f is" "ring_ok (f\<lparr>fifo_cursize := c\<rparr>) = ring_ok f"
    by (simp_all add: fun_eq_iff seg_extent_def fifo_dist_def seg_list_def ring_ok_def)
  then show "ooo_ok (f\<lparr>fifo_cursize := c\<rparr>) is = ooo_ok f is" by (simp add: ooo_ok_def v)
qed

lemma enqueue_reassembles:
  fixes k :: u32
  assumes ok: "reasm_ok f (i # is)" and k0: "0 < unat k" and len: "length src = unat k"
    and room: "unat (fifo_cursize f) + unat k \<le> unat (fifo_nitems f)" and before: "unat k \<le> fst (seg_ival f i)"
  defines "r \<equiv> if unat k = fst (seg_ival f i) then unat k + snd (seg_ival f i) else unat k"
    and "js \<equiv> if unat k = fst (seg_ival f i) then is else i # is"
  shows "\<exists>f'. svm_fifo_enqueue_nowait f k (Some src) = Some (f', int r) \<and> reasm_ok f' js
    \<and> fifo_contents f' = fifo_contents f @ src @ map (\<lambda>x. the (fifo_pending f (i # is) x)) [unat k..<r]
    \<and> fifo_pending f' js = (\<lambda>x. fifo_pending f (i # is) (x + r))"
proof -
  let ?n = "unat (fifo_nitems f)" and ?c = "unat (fifo_cursize f)" and ?h = "unat (fifo_head f)" and ?t = "unat (fifo_tail f)"
    and ?d = "fifo_data f" and ?a = "fst (seg_ival f i)" and ?m = "snd (seg_ival f i)"
  have o: "ooo_ok f (i # is)" "fifo_sized f" "?c + ?a + ?m \<le> ?n" using ok by (auto simp: reasm_ok_def)
  have rg: "ring_ok f" "?c \<le> ?n" "?t = (?h + ?c) mod ?n" "seg_list f (i # is)" using o by (simp_all add: fifo_sized_def ooo_ok_def)
  have n: "?n < 2 ^ 31" "length ?d = ?n" "?h < ?n" "?t < ?n" using rg(1) by (simp_all add: ring_ok_def)
  have sep: "\<forall>j\<in>set is. ?a + ?m < fst (seg_ival f j)" using o(1) by (auto simp: ooo_ok_def separated_Cons)
  have far: "\<forall>j\<in>set (i # is). unat k \<le> fst (seg_ival f j)" using sep before by fastforce
  let ?D = "ring_write ?d ?t src"
  have "unat k = min (?n - ?c) (unat k)" using room by simp
  from enqueue_copy_ok [OF rg(1,2) this, of src] len obtain f1 where f1: "enqueue_copy f (fifo_cursize f) k (Some src) = Some (f1, k)"
    "f1 = f\<lparr>fifo_data := ?D, fifo_tail := fifo_tail f1\<rparr>" "unat (fifo_tail f1) = (?t + unat k) mod ?n" by auto
  define t1 where "t1 = fifo_tail f1"
  have f1': "f1 = f\<lparr>fifo_data := ?D, fifo_tail := t1\<rparr>" "unat t1 = (?t + unat k) mod ?n" using f1(2,3) by (simp_all add: t1_def)
  have D: "?D ! ((?t + x) mod ?n) = ?d ! ((?t + x) mod ?n)" if "unat k \<le> x" "x < ?n" for x
    using ring_write_offset [of ?t ?d 0 src x] n that len k0 room by auto
  let ?f1 = "f1\<lparr>fifo_cursize := fifo_cursize f1 + k\<rparr>"
  have ck: "unat (fifo_cursize f + k) = ?c + unat k" by (rule unat_u32_add) (use room n in simp)
  have s1: "seg_list f1 (i # is)" "seg_extent f1 = seg_extent f" using rg(4) unfolding f1'(1) by (simp_all add: seg_list_def seg_extent_def fun_eq_iff)
  have adv1: "reasm_ok ?f1 (i # is) \<and> fifo_pending ?f1 (i # is) = (\<lambda>x. fifo_pending f ([] @ i # is) (x + unat k))"
  proof (rule reasm_advance)
    show "reasm_ok f ([] @ i # is)" using ok by simp
    show "seg_list ?f1 (i # is)" using s1(1) by (simp add: seg_list_def)
    show "\<forall>j\<in>set (i # is). seg_extent ?f1 j = seg_extent f j" using s1(2) by (simp add: seg_extent_def fun_eq_iff)
  qed (use f1' ck far room D in auto)
  then have "ooo_ok ?f1 (i # is)" by (simp add: reasm_ok_def)
  then have o1: "ooo_ok f1 (i # is)" by (simp only: ooo_ok_cursize)
  have v1: "seg_ival f1 i = (?a - unat k, ?m)"
    by (rule shift_ival [OF o(1)]) (use o1 f1' s1(2) before in \<open>auto simp: ooo_ok_def\<close>)
  have h1: "svm_fifo_has_ooo_data f1"
    using seg_list_empty [OF s1(1)] by (simp add: svm_fifo_has_ooo_data_def)
  have g: "unat k \<le> unat (fifo_nitems f1) - fst (seg_ival f1 i)" "unat (fifo_cursize f1) + snd (seg_ival f1 i) \<le> unat (fifo_nitems f1)"
    using v1 f1'(1) o(3) before by auto
  obtain f2 where f2: "ooo_segment_try_collect f1 k = Some (f2, if ?a - unat k = 0 then word_of_nat ?m else 0)"
    "if ?a - unat k = 0
       then seg_list f2 is \<and> seg_extent f2 = (seg_extent f1)(i := None) \<and> fifo_nitems f2 = fifo_nitems f1 \<and> fifo_head f2 = fifo_head f1
         \<and> fifo_cursize f2 = fifo_cursize f1 \<and> fifo_data f2 = fifo_data f1
         \<and> unat (fifo_tail f2) = (unat (fifo_tail f1) + ?m) mod unat (fifo_nitems f1)
       else f2 = f1"
    using try_collect_front [OF o1 g(1) k0 g(2)] v1 by auto
  have nf: "fifo_cursize f \<noteq> fifo_nitems f" using room k0 by auto
  have enq: "svm_fifo_enqueue_nowait f k (Some src) = Some (f2\<lparr>fifo_cursize := fifo_cursize f2 + tot\<rparr>, sint tot)"
    if "tot = k + (if ?a - unat k = 0 then word_of_nat ?m else 0)" for tot
    unfolding svm_fifo_enqueue_nowait_def svm_fifo_enqueue_internal_def using nf f1(1) h1 f2(1) that by simp
  have cont: "ring_get ?D ?h (?c + (unat k + m)) = fifo_contents f @ src @ map (\<lambda>x. the (fifo_pending f (i # is) x)) [unat k..<unat k + m]"
    if m: "m = 0 \<or> unat k = ?a \<and> m = ?m" for m
  proof -
    have "ring_get ?D ?h (?c + length src + m) = ring_get ?D ?h (?c + length src) @ ring_get ?D ((?h + (?c + unat k)) mod ?n) m"
      using ring_get_add [of ?D ?h "?c + length src" m] n(2) len by simp
    also have "ring_get ?D ?h (?c + length src) = fifo_contents f @ src"
      unfolding fifo_contents_def rg(3) n(2) [symmetric] by (rule ring_get_write) (use n len room in simp_all)
    also have "ring_get ?D ((?h + (?c + unat k)) mod ?n) m = map (\<lambda>x. the (fifo_pending f (i # is) x)) [unat k..<unat k + m]"
    proof (rule nth_equalityI)
      fix j assume "j < length (ring_get ?D ((?h + (?c + unat k)) mod ?n) m)"
      then have j: "j < m" by simp
      then have m': "unat k = ?a" "m = ?m" using m by auto
      have "((?h + (?c + unat k)) mod ?n + j) mod ?n = (?t + (unat k + j)) mod ?n"
        unfolding rg(3) by (simp only: mod_add_left_eq add.assoc)
      moreover have "covered_by (map (seg_ival f) (i # is)) (unat k + j)" using j m' by (auto simp: covered_by_def)
      then have "fifo_pending f (i # is) (unat k + j) = Some (?d ! ((?t + (unat k + j)) mod ?n))" by (simp add: fifo_pending_def)
      moreover have "unat k + j < ?n" using j m' o(3) by linarith
      ultimately show "ring_get ?D ((?h + (?c + unat k)) mod ?n) m ! j = map (\<lambda>x. the (fifo_pending f (i # is) x)) [unat k..<unat k + m] ! j"
        using j D [of "unat k + j"] n(2) by (simp add: ring_get_nth)
    qed simp
    finally show ?thesis using len by (simp add: add.assoc)
  qed
  show ?thesis
  proof (cases "unat k = ?a")
    case False
    then have z: "?a - unat k \<noteq> 0" using before by simp
    then have "f2 = f1" using f2(2) by simp
    then have e: "svm_fifo_enqueue_nowait f k (Some src) = Some (?f1, sint k)" using enq [of k] z by simp
    have "sint k = int (unat k)" using room n by (intro sint_small) simp
    moreover have "fifo_contents ?f1 = fifo_contents f @ src"
      using cont [of 0] ck unfolding f1'(1) fifo_contents_def by simp
    ultimately show ?thesis using e adv1 False by (simp add: r_def js_def)
  next
    case True
    define tot where "tot = k + word_of_nat ?m"
    have um: "unat (word_of_nat ?m :: u32) = ?m" using o(3) n by (simp add: unat_word_of_nat)
    have ut: "unat tot = unat k + ?m" unfolding tot_def using um True o(3) n by (subst unat_u32_add) auto
    have ct: "unat (fifo_cursize f + tot) = ?c + (unat k + ?m)" using ut True o(3) n by (subst unat_u32_add) auto
    have f2': "seg_list f2 is" "seg_extent f2 = (seg_extent f)(i := None)" "fifo_nitems f2 = fifo_nitems f" "fifo_head f2 = fifo_head f"
      "fifo_cursize f2 = fifo_cursize f" "fifo_data f2 = ?D" "unat (fifo_tail f2) = (?t + (unat k + ?m)) mod ?n"
      using f2(2) True s1(2) f1' by (auto simp: mod_add_left_eq add.assoc)
    let ?f2 = "f2\<lparr>fifo_cursize := fifo_cursize f2 + tot\<rparr>"
    have e: "svm_fifo_enqueue_nowait f k (Some src) = Some (?f2, sint tot)" using enq [of tot] True by (simp add: tot_def)
    have "sint tot = int (unat k + ?m)" using ut True o(3) n sint_small [of tot] by simp
    moreover have "fifo_contents ?f2 = fifo_contents f @ src @ map (\<lambda>x. the (fifo_pending f (i # is) x)) [unat k..<unat k + ?m]"
      using cont [of ?m] True ct f2'(3-6) by (simp add: fifo_contents_def)
    moreover have "reasm_ok ?f2 is \<and> fifo_pending ?f2 is = (\<lambda>x. fifo_pending f ([i] @ is) (x + (unat k + ?m)))"
    proof (rule reasm_advance)
      show "reasm_ok f ([i] @ is)" using ok by simp
      show "seg_list ?f2 is" using f2'(1) by (simp add: seg_list_def)
      have "i \<notin> set is" using rg(4) by (simp add: seg_list_def)
      then show "\<forall>j\<in>set is. seg_extent ?f2 j = seg_extent f j" using f2'(2) by (auto simp: seg_extent_def fun_eq_iff)
      show "\<forall>j\<in>set is. unat k + ?m \<le> fst (seg_ival f j)" using sep True by fastforce
    qed (use f2'(3-7) ct True o(3) D in auto)
    ultimately show ?thesis using e True by (simp add: r_def js_def)
  qed
qed

lemma ring_index_inj:
  assumes "(t + x) mod n = (t + y) mod n" and "x < n" and "y < (n :: nat)" and "t < n"
  shows "x = y"
  using assms by (metis ring_dist)

text \<open>An enqueue that ends inside the first segment.\<close>

lemma enqueue_overlaps:
  fixes k :: u32
  assumes ok: "reasm_ok f (i # is)" and len: "length src = unat k"
    and room: "unat (fifo_cursize f) + unat k \<le> unat (fifo_nitems f)"
    and inside: "0 < fst (seg_ival f i)" "fst (seg_ival f i) < unat k" "unat k < fst (seg_ival f i) + snd (seg_ival f i)"
  shows "\<exists>f'. svm_fifo_enqueue_nowait f k (Some src) = Some (f', int (unat k))
    \<and> unat (fifo_cursize f') = unat (fifo_cursize f) + unat k \<and> fifo_head f' = fifo_head f \<and> fifo_nitems f' = fifo_nitems f
    \<and> unat (fifo_tail f') = (unat (fifo_tail f) + (fst (seg_ival f i) + snd (seg_ival f i))) mod unat (fifo_nitems f)
    \<and> seg_list f' (i # is)"
proof -
  let ?n = "unat (fifo_nitems f)" and ?c = "unat (fifo_cursize f)" and ?h = "unat (fifo_head f)" and ?t = "unat (fifo_tail f)"
    and ?d = "fifo_data f" and ?a = "fst (seg_ival f i)" and ?m = "snd (seg_ival f i)"
  have o: "ooo_ok f (i # is)" "fifo_sized f" "?c + ?a + ?m \<le> ?n" using ok by (auto simp: reasm_ok_def)
  have rg: "ring_ok f" "?c \<le> ?n" "?t = (?h + ?c) mod ?n" "seg_list f (i # is)" using o by (simp_all add: fifo_sized_def ooo_ok_def)
  have n: "?n < 2 ^ 31" "length ?d = ?n" "?h < ?n" "?t < ?n" using rg(1) by (simp_all add: ring_ok_def)
  have "unat k = min (?n - ?c) (unat k)" using room by simp
  from enqueue_copy_ok [OF rg(1,2) this, of src] len obtain f1 where f1: "enqueue_copy f (fifo_cursize f) k (Some src) = Some (f1, k)"
    "f1 = f\<lparr>fifo_data := ring_write ?d ?t src, fifo_tail := fifo_tail f1\<rparr>" "unat (fifo_tail f1) = (?t + unat k) mod ?n" by auto
  define t1 where "t1 = fifo_tail f1"
  have f1': "f1 = f\<lparr>fifo_data := ring_write ?d ?t src, fifo_tail := t1\<rparr>" "unat t1 = (?t + unat k) mod ?n"
    using f1(2,3) by (simp_all add: t1_def)
  have r1: "ring_ok f1" using rg(1) f1'(2) n unfolding f1'(1) by (simp add: ring_ok_def)
  have s1: "seg_list f1 (i # is)" using rg(4) unfolding f1'(1) by (simp add: seg_list_def)
  have hd: "fifo_ooos_list_head f1 = i" using s1 by (auto simp: seg_list_def)
  have h1: "svm_fifo_has_ooo_data f1" using seg_list_empty [OF s1] by (simp add: svm_fifo_has_ooo_data_def)
  obtain p l where pl: "seg_extent f i = Some (p, l)" "unat p < ?n" using ooo_ok_extent [OF o(1), of i] by auto
  have iv: "?a = fifo_dist f p" "?m = unat l" using pl(1) by (simp_all add: seg_ival_def)
  obtain s where s: "seg_at f1 i = Some s" "seg_fifo_position s = p" "seg_length s = l"
    using pl(1) unfolding f1'(1) by (auto simp: seg_extent_def)
  let ?x = "?n - (unat k - ?a)"
  have "unat p = (?t + ?a) mod ?n" using fifo_dist_pos [OF rg(1) pl(2)] iv by simp
  also have "\<dots> = (?t + ?a + ?n) mod ?n" by simp
  also have "?t + ?a + ?n = ?t + unat k + ?x" using inside room n by linarith
  also have "(?t + unat k + ?x) mod ?n = (unat (fifo_tail f1) + ?x) mod unat (fifo_nitems f1)"
    using f1' by (simp add: mod_add_left_eq)
  finally have dist: "fifo_dist f1 p = ?x" by (rule fifo_dist_eq [OF r1]) (use inside n f1'(1) in simp)
  have "unat (ooo_diff f1 s) = (if ?x = 0 then 0 else ?n - ?x)"
    using unat_ooo_diff [OF r1, of s] s(2) pl(2) dist f1'(1) by simp
  then have diff: "unat (ooo_diff f1 s) = unat k - ?a" using inside room n by auto
  have cmp: "0 < ooo_diff f1 s" "ooo_diff f1 s < k" "ooo_diff f1 s < l" "ooo_diff f1 s \<noteq> 0"
    using diff inside iv(2) by (auto simp: word_less_nat_alt)
  let ?f2 = "f1\<lparr>fifo_tail := (fifo_tail f1 + (l - ooo_diff f1 s)) mod fifo_nitems f1\<rparr>"
  have "ooo_collect_loop f1 k i (ooo_diff f1 s) = Some (?f2, i, ooo_diff f1 s)"
    by (subst ooo_collect_loop.simps) (use s cmp in simp)
  then have tc: "ooo_segment_try_collect f1 k = Some (?f2, 0)"
    unfolding ooo_segment_try_collect_def using r1 hd s cmp(4) by (auto simp: ring_ok_def)
  have nf: "fifo_cursize f \<noteq> fifo_nitems f" using room inside by auto
  have sk: "sint k = int (unat k)" using room n by (intro sint_small) simp
  have e: "svm_fifo_enqueue_nowait f k (Some src) = Some (?f2\<lparr>fifo_cursize := fifo_cursize ?f2 + k\<rparr>, int (unat k))"
    unfolding svm_fifo_enqueue_nowait_def svm_fifo_enqueue_internal_def using nf f1(1) h1 tc sk by simp
  have ld: "unat (l - ooo_diff f1 s) = ?m + ?a - unat k" using diff inside iv(2) by (subst unat_u32_sub) auto
  have "unat ((t1 + (l - ooo_diff f1 s)) mod fifo_nitems f) = (unat t1 + unat (l - ooo_diff f1 s)) mod ?n"
    by (rule unat_mod_index) (use f1'(2) n ld o(3) inside in auto)
  also have "\<dots> = (?t + (unat k + (?m + ?a - unat k))) mod ?n"
    unfolding f1'(2) ld by (simp only: mod_add_left_eq add.assoc)
  also have "unat k + (?m + ?a - unat k) = ?a + ?m" using inside by linarith
  finally have tl: "unat (fifo_tail ?f2) = (?t + (?a + ?m)) mod ?n"
    using f1'(1) [THEN arg_cong [where f = fifo_nitems]] by (simp add: t1_def)
  have "unat (fifo_cursize f + k) = ?c + unat k" by (rule unat_u32_add) (use room n in simp)
  moreover have "fifo_cursize f1 = fifo_cursize f" "fifo_head f1 = fifo_head f" "fifo_nitems f1 = fifo_nitems f"
    using f1'(1) by simp_all
  moreover have "seg_list (?f2\<lparr>fifo_cursize := fifo_cursize ?f2 + k\<rparr>) (i # is)" using s1 by (simp add: seg_list_def)
  ultimately show ?thesis using e tl by (intro exI [of _ "?f2\<lparr>fifo_cursize := fifo_cursize ?f2 + k\<rparr>"]) simp
qed

section \<open>Properties\<close>

text \<open>
  C35. A segment that arrives ahead of the tail and touches no segment already there is stored
  without a memory error: the bytes in the fifo are the same, the bytes waiting at offsets ahead
  of the tail are those before and the new ones, and the list of segments stays sorted, doubly
  linked and in step with the pool.
\<close>

theorem fifo_enqueue_ahead:
  assumes "reasm_ok f is" and "clear_of (unat offset, unat len) (map (seg_ival f) is)" and "0 < unat offset"
    and "unat (fifo_cursize f) + unat offset + unat len \<le> unat (fifo_nitems f)"
    and "unat offset + unat len < unat (fifo_nitems f)"
    and "length (pool_vec (fifo_ooo_segments f)) < 2 ^ 32 - 1" and "unat len \<le> length src"
  shows "\<exists>f' is'. svm_fifo_enqueue_with_offset f offset len src = Some (f', 0) \<and> reasm_ok f' is'
    \<and> fifo_contents f' = fifo_contents f
    \<and> fifo_pending f' is' = (\<lambda>x. if unat offset \<le> x \<and> x < unat offset + unat len then Some (src ! (x - unat offset))
                                 else fifo_pending f is x)
    \<and> map (seg_ival f') is' = insert_ival (unat offset, unat len) (map (seg_ival f) is)
    \<and> fifo_cursize f' = fifo_cursize f \<and> fifo_nitems f' = fifo_nitems f"
  by (rule enqueue_ahead [OF assms])

definition sample_fifo :: svm_fifo where
  "sample_fifo = the (svm_fifo_create True 16)"

lemma sample_fifo_ok: "reasm_ok sample_fifo []" "fifo_contents sample_fifo = []" "fifo_pending sample_fifo [] = (\<lambda>x. None)"
  "unat (fifo_cursize sample_fifo) = 0" "unat (fifo_nitems sample_fifo) = 16"
  "length (pool_vec (fifo_ooo_segments sample_fifo)) = 0"
  by (simp_all add: sample_fifo_def svm_fifo_create_def reasm_ok_def fifo_sized_def ooo_ok_def ring_ok_def seg_list_def
      separated_def fifo_contents_def ring_get_def fifo_pending_def covered_by_def fun_eq_iff seg_at_iff pool_null_def)
    (auto simp: pool_ok_def pool_live_iff)

lemma sample_ahead:
  obtains f i where "svm_fifo_enqueue_with_offset sample_fifo 4 3 [7, 8, 9] = Some (f, 0)" and "reasm_ok f [i]"
    and "fifo_contents f = []" and "seg_ival f i = (4, 3)" and "unat (fifo_cursize f) = 0" and "unat (fifo_nitems f) = 16"
    and "fifo_pending f [i] = (\<lambda>x. if 4 \<le> x \<and> x < 7 then Some ([7, 8, 9] ! (x - 4)) else None)"
proof -
  have u: "unat (4 :: u32) = 4" "unat (3 :: u32) = 3" by simp_all
  obtain f js where f: "svm_fifo_enqueue_with_offset sample_fifo 4 3 [7, 8, 9] = Some (f, 0)" "reasm_ok f js"
    "fifo_contents f = fifo_contents sample_fifo"
    "fifo_pending f js = (\<lambda>x. if 4 \<le> x \<and> x < 4 + 3 then Some ([7, 8, 9] ! (x - 4)) else fifo_pending sample_fifo [] x)"
    "map (seg_ival f) js = insert_ival (4, 3) (map (seg_ival sample_fifo) [])"
    "fifo_cursize f = fifo_cursize sample_fifo" "fifo_nitems f = fifo_nitems sample_fifo"
    using enqueue_ahead [OF sample_fifo_ok(1), of 4 3 "[7, 8, 9]"] sample_fifo_ok(4-6) unfolding u
    by (auto simp: clear_of_def)
  then obtain i where i: "js = [i]" "seg_ival f i = (4, 3)" by (auto simp: insert_ival_def)
  show ?thesis
    by (rule that [of f i]) (use f i sample_fifo_ok in \<open>auto simp: fun_eq_iff\<close>)
qed

theorem fifo_enqueue_ahead_witness:
  "\<exists>f i. svm_fifo_enqueue_with_offset sample_fifo 4 3 [7, 8, 9] = Some (f, 0) \<and> reasm_ok f [i]
     \<and> seg_ival f i = (4, 3) \<and> fifo_pending f [i] 5 = Some 8"
proof -
  have u: "unat (4 :: u32) = 4" "unat (3 :: u32) = 3" by simp_all
  obtain f js where f: "svm_fifo_enqueue_with_offset sample_fifo 4 3 [7, 8, 9] = Some (f, 0)" "reasm_ok f js"
    "fifo_pending f js = (\<lambda>x. if 4 \<le> x \<and> x < 4 + 3 then Some ([7, 8, 9] ! (x - 4)) else fifo_pending sample_fifo [] x)"
    "map (seg_ival f) js = insert_ival (4, 3) (map (seg_ival sample_fifo) [])"
    using fifo_enqueue_ahead [OF sample_fifo_ok(1), of 4 3 "[7, 8, 9]"] sample_fifo_ok(4-6) unfolding u
    by (auto simp: clear_of_def)
  then obtain i where "js = [i]" "seg_ival f i = (4, 3)" by (auto simp: insert_ival_def)
  then show ?thesis using f by auto
qed

text \<open>
  C36. When the bytes up to the first waiting segment arrive in order, the segment is collected:
  the enqueue returns the count of the new bytes and the collected ones, both are in the fifo in
  order, the segment is gone and the other segments are as far ahead of the stream as before; with
  fewer bytes, nothing is collected. Nothing is lost or duplicated.
\<close>

theorem fifo_reassembles:
  fixes k :: u32
  assumes "reasm_ok f (i # is)" and "0 < unat k" and "length src = unat k"
    and "unat (fifo_cursize f) + unat k \<le> unat (fifo_nitems f)" and "unat k \<le> fst (seg_ival f i)"
    and "r = (if unat k = fst (seg_ival f i) then unat k + snd (seg_ival f i) else unat k)"
    and "js = (if unat k = fst (seg_ival f i) then is else i # is)"
  shows "\<exists>f'. svm_fifo_enqueue_nowait f k (Some src) = Some (f', int r) \<and> reasm_ok f' js
    \<and> fifo_contents f' = fifo_contents f @ src @ map (\<lambda>x. the (fifo_pending f (i # is) x)) [unat k..<r]
    \<and> fifo_pending f' js = (\<lambda>x. fifo_pending f (i # is) (x + r))"
  using enqueue_reassembles [OF assms(1-5)] unfolding assms(6,7) .

theorem fifo_reassembles_witness:
  "\<exists>f f'. svm_fifo_enqueue_with_offset sample_fifo 4 3 [7, 8, 9] = Some (f, 0)
     \<and> svm_fifo_enqueue_nowait f 4 (Some [1, 2, 3, 4]) = Some (f', 7) \<and> fifo_contents f' = [1, 2, 3, 4, 7, 8, 9]"
proof -
  obtain f i where f: "svm_fifo_enqueue_with_offset sample_fifo 4 3 [7, 8, 9] = Some (f, 0)" "reasm_ok f [i]"
    "fifo_contents f = []" "seg_ival f i = (4, 3)" "unat (fifo_cursize f) = 0" "unat (fifo_nitems f) = 16"
    "fifo_pending f [i] = (\<lambda>x. if 4 \<le> x \<and> x < 7 then Some ([7, 8, 9] ! (x - 4)) else None)"
    by (rule sample_ahead)
  have l: "[4..<7] = [4, 5, 6 :: nat]" by (simp add: upt_rec)
  have "\<exists>f'. svm_fifo_enqueue_nowait f 4 (Some [1, 2, 3, 4]) = Some (f', int 7) \<and> reasm_ok f' []
      \<and> fifo_contents f' = fifo_contents f @ [1, 2, 3, 4] @ map (\<lambda>x. the (fifo_pending f [i] x)) [unat (4 :: u32)..<7]
      \<and> fifo_pending f' [] = (\<lambda>x. fifo_pending f [i] (x + 7))"
    by (rule fifo_reassembles [OF f(2)]) (use f in simp_all)
  then show ?thesis using f(1,3) unfolding f(7) by (auto simp: l)
qed

text \<open>
  C37. When in-order bytes end inside the first waiting segment, the fifo is corrupted: the tail
  moves to the end of the segment, but neither the returned count nor the size of the queue
  includes the bytes of the segment beyond the new data, so the tail is no longer where the next
  byte in order belongs; and the segment stays on the list.
\<close>

theorem fifo_overlap_corrupts:
  fixes k :: u32
  assumes "reasm_ok f (i # is)" and "length src = unat k"
    and "unat (fifo_cursize f) + unat k \<le> unat (fifo_nitems f)"
    and "0 < fst (seg_ival f i)" and "fst (seg_ival f i) < unat k" and "unat k < fst (seg_ival f i) + snd (seg_ival f i)"
  shows "\<exists>f'. svm_fifo_enqueue_nowait f k (Some src) = Some (f', int (unat k)) \<and> \<not> fifo_sized f'
    \<and> unat (fifo_cursize f') = unat (fifo_cursize f) + unat k
    \<and> unat (fifo_tail f') = (unat (fifo_tail f) + (fst (seg_ival f i) + snd (seg_ival f i))) mod unat (fifo_nitems f)
    \<and> svm_fifo_has_ooo_data f'"
proof -
  let ?n = "unat (fifo_nitems f)" and ?c = "unat (fifo_cursize f)" and ?h = "unat (fifo_head f)" and ?t = "unat (fifo_tail f)"
    and ?e = "fst (seg_ival f i) + snd (seg_ival f i)"
  obtain f' where f': "svm_fifo_enqueue_nowait f k (Some src) = Some (f', int (unat k))"
    "unat (fifo_cursize f') = ?c + unat k" "fifo_head f' = fifo_head f" "fifo_nitems f' = fifo_nitems f"
    "unat (fifo_tail f') = (?t + ?e) mod ?n" "seg_list f' (i # is)"
    using enqueue_overlaps [OF assms] by blast
  have r: "ring_ok f" "?t = (?h + ?c) mod ?n" and lt: "?e < ?n"
    using assms(1) by (auto simp: reasm_ok_def fifo_sized_def ooo_ok_def seg_ival_def)
  have "\<not> fifo_sized f'"
  proof
    assume "fifo_sized f'"
    then have "(?t + ?e) mod ?n = (?h + (?c + unat k)) mod ?n" using f'(2-5) by (simp add: fifo_sized_def)
    also have "\<dots> = (?t + unat k) mod ?n" unfolding r(2) by (simp only: mod_add_left_eq add.assoc)
    finally have "?e = unat k" by (rule ring_index_inj) (use lt assms(6) r(1) in \<open>auto simp: ring_ok_def\<close>)
    then show False using assms(6) by simp
  qed
  moreover have "svm_fifo_has_ooo_data f'" using seg_list_empty [OF f'(6)] by (simp add: svm_fifo_has_ooo_data_def)
  ultimately show ?thesis using f' by blast
qed

theorem fifo_overlap_corrupts_witness:
  "\<exists>f f'. svm_fifo_enqueue_with_offset sample_fifo 4 3 [7, 8, 9] = Some (f, 0)
     \<and> svm_fifo_enqueue_nowait f 5 (Some [1, 2, 3, 4, 5]) = Some (f', 5) \<and> \<not> fifo_sized f'"
proof -
  obtain f i where f: "svm_fifo_enqueue_with_offset sample_fifo 4 3 [7, 8, 9] = Some (f, 0)" "reasm_ok f [i]"
    "seg_ival f i = (4, 3)" "unat (fifo_cursize f) = 0" "unat (fifo_nitems f) = 16"
    by (rule sample_ahead)
  have u: "unat (5 :: u32) = 5" by simp
  show ?thesis
    using fifo_overlap_corrupts [OF f(2), of "[1, 2, 3, 4, 5]" 5] f unfolding u by auto
qed

end
