(* ===== verification/Svm_Fifo_Threads.thy ===== *)
theory Svm_Fifo_Threads
  imports Svm_Fifo
begin

text \<open>
  A fifo between two threads, without locks: \<open>svm_fifo_enqueue_internal\<close> in one thread and
  \<open>svm_fifo_dequeue_internal2\<close> in the other, interleaved at their accesses to the shared size. An
  enqueue tests \<open>cursize\<close>, reads it, copies and moves the tail, and adds to \<open>cursize\<close> atomically; a
  dequeue tests and reads \<open>cursize\<close>, copies and moves the head, and subtracts atomically. The copy
  of one thread is a single step: the other thread does not access the same bytes of the ring
  meanwhile, which is part of what the invariant shows. The fifo has no out-of-order data.
\<close>

section \<open>The two threads\<close>

datatype producer = P_idle | P_read "u8 list" | P_copy u32 "u8 list" | P_commit u32

datatype consumer = C_idle | C_read u32 | C_copy u32 u32 | C_commit u32

text \<open>The fifo, the control points, and the bytes that have been written and taken out so far.\<close>

record fifo_threads =
  th_fifo :: svm_fifo
  th_prod :: producer
  th_cons :: consumer
  th_sent :: "u8 list"
  th_recv :: "u8 list"

inductive producer_step :: "fifo_threads \<Rightarrow> fifo_threads \<Rightarrow> bool" where
  enq_test: "th_prod s = P_idle \<Longrightarrow> length bs < 2 ^ 32 \<Longrightarrow> fifo_cursize (th_fifo s) \<noteq> fifo_nitems (th_fifo s) \<Longrightarrow>
    producer_step s (s\<lparr>th_prod := P_read bs\<rparr>)"
| enq_read: "th_prod s = P_read bs \<Longrightarrow> producer_step s (s\<lparr>th_prod := P_copy (fifo_cursize (th_fifo s)) bs\<rparr>)"
| enq_copy: "th_prod s = P_copy c bs \<Longrightarrow>
    enqueue_copy (th_fifo s) c (word_of_nat (length bs)) (Some bs) = Some (f, n) \<Longrightarrow>
    producer_step s (s\<lparr>th_fifo := f, th_prod := P_commit n, th_sent := th_sent s @ take (unat n) bs\<rparr>)"
| enq_commit: "th_prod s = P_commit n \<Longrightarrow> f = th_fifo s \<Longrightarrow>
    producer_step s (s\<lparr>th_fifo := f\<lparr>fifo_cursize := fifo_cursize f + n\<rparr>, th_prod := P_idle\<rparr>)"

inductive consumer_step :: "fifo_threads \<Rightarrow> fifo_threads \<Rightarrow> bool" where
  deq_test: "th_cons s = C_idle \<Longrightarrow> fifo_cursize (th_fifo s) \<noteq> 0 \<Longrightarrow> consumer_step s (s\<lparr>th_cons := C_read m\<rparr>)"
| deq_read: "th_cons s = C_read m \<Longrightarrow> consumer_step s (s\<lparr>th_cons := C_copy (fifo_cursize (th_fifo s)) m\<rparr>)"
| deq_copy: "th_cons s = C_copy c m \<Longrightarrow> dequeue_copy (th_fifo s) c m True = Some (f, n, out) \<Longrightarrow>
    consumer_step s (s\<lparr>th_fifo := f, th_cons := C_commit n, th_recv := th_recv s @ out\<rparr>)"
| deq_commit: "th_cons s = C_commit n \<Longrightarrow> f = th_fifo s \<Longrightarrow>
    consumer_step s (s\<lparr>th_fifo := f\<lparr>fifo_cursize := fifo_cursize f - n\<rparr>, th_cons := C_idle\<rparr>)"

text \<open>Either thread takes the next step.\<close>

definition fifo_step :: "fifo_threads \<Rightarrow> fifo_threads \<Rightarrow> bool" where
  "fifo_step s s' \<longleftrightarrow> producer_step s s' \<or> consumer_step s s'"

definition threads_init :: "svm_fifo \<Rightarrow> fifo_threads" where
  "threads_init f = \<lparr>th_fifo = f, th_prod = P_idle, th_cons = C_idle, th_sent = [], th_recv = []\<rparr>"

section \<open>The invariant\<close>

text \<open>
  \<open>cm\<close> and \<open>cr\<close> count the bytes that the two threads have accounted for in the size. What is between
  the last byte taken out and the last byte written is in the ring; the producer has not run into
  bytes that are not yet released.
\<close>

definition ring_holds :: "svm_fifo \<Rightarrow> u8 list \<Rightarrow> u8 list \<Rightarrow> bool" where
  "ring_holds f sent recv =
    (\<forall>k. length recv \<le> k \<longrightarrow> k < length sent \<longrightarrow> fifo_data f ! (k mod unat (fifo_nitems f)) = sent ! k)"

fun prod_ok :: "producer \<Rightarrow> nat \<Rightarrow> nat \<Rightarrow> nat \<Rightarrow> nat \<Rightarrow> bool" where
  "prod_ok P_idle n sent cm cr = (sent = cm)"
| "prod_ok (P_read bs) n sent cm cr = (sent = cm \<and> length bs < 2 ^ 32)"
| "prod_ok (P_copy c bs) n sent cm cr = (sent = cm \<and> length bs < 2 ^ 32 \<and> cm - cr \<le> unat c \<and> unat c \<le> n)"
| "prod_ok (P_commit k) n sent cm cr = (sent = cm + unat k)"

fun cons_ok :: "consumer \<Rightarrow> nat \<Rightarrow> nat \<Rightarrow> nat \<Rightarrow> bool" where
  "cons_ok C_idle recv cm cr = (recv = cr)"
| "cons_ok (C_read m) recv cm cr = (recv = cr)"
| "cons_ok (C_copy c m) recv cm cr = (recv = cr \<and> unat c \<le> cm - cr)"
| "cons_ok (C_commit k) recv cm cr = (recv = cr + unat k)"

definition threads_inv :: "fifo_threads \<Rightarrow> bool" where
  "threads_inv s = (let f = th_fifo s; n = unat (fifo_nitems f); S = length (th_sent s); R = length (th_recv s)
     in ring_ok f \<and> \<not> svm_fifo_has_ooo_data f
      \<and> unat (fifo_tail f) = S mod n \<and> unat (fifo_head f) = R mod n
      \<and> th_recv s = take R (th_sent s) \<and> ring_holds f (th_sent s) (th_recv s)
      \<and> (\<exists>cm cr. unat (fifo_cursize f) = cm - cr \<and> cr \<le> R \<and> R \<le> cm \<and> cm \<le> S \<and> S \<le> cr + n
           \<and> prod_ok (th_prod s) n S cm cr \<and> cons_ok (th_cons s) R cm cr))"

text \<open>Both copies succeed in every state of the invariant, and keep what is in the ring.\<close>

lemma enqueue_copy_threads:
  assumes "ring_ok f" and "unat (fifo_tail f) = length sent mod unat (fifo_nitems f)" and "ring_holds f sent recv"
    and "length recv \<le> length sent" and "unat c \<le> unat (fifo_nitems f)" and "length bs < 2 ^ 32"
    and "length sent + (unat (fifo_nitems f) - unat c) \<le> length recv + unat (fifo_nitems f)"
  shows "\<exists>f' n. enqueue_copy f c (word_of_nat (length bs)) (Some bs) = Some (f', n) \<and> ring_ok f'
    \<and> unat n \<le> unat (fifo_nitems f) - unat c \<and> unat n \<le> length bs
    \<and> unat (fifo_tail f') = (length sent + unat n) mod unat (fifo_nitems f) \<and> fifo_nitems f' = fifo_nitems f
    \<and> fifo_head f' = fifo_head f \<and> fifo_cursize f' = fifo_cursize f \<and> fifo_ooos_list_head f' = fifo_ooos_list_head f
    \<and> ring_holds f' (sent @ take (unat n) bs) recv"
proof -
  let ?n = "unat (fifo_nitems f)" and ?d = "fifo_data f" and ?t = "unat (fifo_tail f)"
  define k where "k = min (?n - unat c) (length bs)"
  have u: "unat (word_of_nat (length bs) :: u32) = length bs" using assms(6) by (simp add: unat_word_of_nat)
  obtain f' where f': "enqueue_copy f c (word_of_nat (length bs)) (Some bs) = Some (f', word_of_nat k)"
    "f' = f\<lparr>fifo_data := ring_write ?d ?t (take k bs), fifo_tail := fifo_tail f'\<rparr>" "unat (fifo_tail f') = (?t + k) mod ?n"
    using enqueue_copy_ok [OF assms(1,5), of k "word_of_nat (length bs)" bs] u by (auto simp: k_def)
  define t' where "t' = fifo_tail f'"
  have e: "f' = f\<lparr>fifo_data := ring_write ?d ?t (take k bs), fifo_tail := t'\<rparr>" "unat t' = (?t + k) mod ?n"
    using f'(2,3) by (simp_all add: t'_def)
  have n: "0 < ?n" "length ?d = ?n" "?t < ?n" "?n < 2 ^ 31" using assms(1) by (simp_all add: ring_ok_def)
  have uk: "unat (word_of_nat k :: u32) = k" by (rule unat_word_of_nat) (use assms(6) in \<open>simp add: k_def min_less_iff_disj\<close>)
  have "ring_write ?d ?t (take k bs) ! (j mod ?n) = (sent @ take k bs) ! j"
    if j: "length recv \<le> j" "j < length sent + k" for j
  proof (cases "k = 0")
    case True
    then show ?thesis using assms(3) j by (simp add: ring_holds_def)
  next
    case False
    let ?r = "length recv mod ?n" and ?a = "length sent - length recv" and ?x = "j - length recv"
    have a: "?a + k \<le> ?n" using assms(4,7) by (simp add: k_def)
    have "?t = (?r + ?a) mod ?n" "j mod ?n = (?r + ?x) mod ?n"
      unfolding assms(2) mod_add_left_eq using assms(4) j by simp_all
    moreover have "ring_write ?d ((?r + ?a) mod length ?d) (take k bs) ! ((?r + ?x) mod length ?d)
        = (if ?a \<le> ?x \<and> ?x < ?a + length (take k bs) then take k bs ! (?x - ?a) else ?d ! ((?r + ?x) mod length ?d))"
    proof (rule ring_write_offset)
      have "length (take k bs) = k" by (simp add: k_def)
      then show "?a + length (take k bs) \<le> length ?d" "?a < length ?d" "?x < length ?d"
        using a j False assms(4) n by linarith+
      show "?r < length ?d" using n by simp
    qed
    ultimately show ?thesis
      using assms(3,4) j n(2) by (auto simp: ring_holds_def nth_append k_def split: if_splits)
  qed
  then have "ring_holds f' (sent @ take k bs) recv" using e(1) by (auto simp: ring_holds_def k_def min_def split: if_splits)
  moreover have "ring_ok f'" using assms(1) e n by (simp add: ring_ok_def)
  moreover have "unat (fifo_tail f') = (length sent + k) mod ?n" using f'(3) assms(2) by (simp add: mod_add_left_eq)
  ultimately show ?thesis using f'(1) uk e(1) by (intro exI [of _ f'] exI [of _ "word_of_nat k"]) (auto simp: k_def)
qed

lemma dequeue_copy_threads:
  assumes "ring_ok f" and "unat (fifo_head f) = length recv mod unat (fifo_nitems f)" and "ring_holds f sent recv"
    and "recv = take (length recv) sent" and "length recv + unat c \<le> length sent" and "unat c \<le> unat (fifo_nitems f)"
  shows "\<exists>f' n out. dequeue_copy f c m True = Some (f', n, out) \<and> ring_ok f' \<and> unat n \<le> unat c \<and> length out = unat n
    \<and> unat (fifo_head f') = (length recv + unat n) mod unat (fifo_nitems f) \<and> fifo_nitems f' = fifo_nitems f
    \<and> fifo_tail f' = fifo_tail f \<and> fifo_cursize f' = fifo_cursize f \<and> fifo_ooos_list_head f' = fifo_ooos_list_head f
    \<and> recv @ out = take (length recv + unat n) sent \<and> fifo_data f' = fifo_data f"
proof -
  let ?n = "unat (fifo_nitems f)" and ?d = "fifo_data f" and ?h = "unat (fifo_head f)"
  define k where "k = min (unat c) (unat m)"
  obtain f' where f': "dequeue_copy f c m True = Some (f', word_of_nat k, ring_get ?d ?h k)"
    "f' = f\<lparr>fifo_head := fifo_head f'\<rparr>" "unat (fifo_head f') = (?h + k) mod ?n"
    using dequeue_copy_ok [OF assms(1,6) k_def] by blast
  define h' where "h' = fifo_head f'"
  have e: "f' = f\<lparr>fifo_head := h'\<rparr>" "unat h' = (?h + k) mod ?n" using f'(2,3) by (simp_all add: h'_def)
  have n: "0 < ?n" "length ?d = ?n" "?h < ?n" "?n < 2 ^ 31" using assms(1) by (simp_all add: ring_ok_def)
  have kc: "k \<le> unat c" by (simp add: k_def)
  have uk: "unat (word_of_nat k :: u32) = k" by (rule unat_word_of_nat) (use kc assms(6) n in simp)
  have "ring_get ?d ?h k = take k (drop (length recv) sent)"
  proof (rule nth_equalityI)
    fix j assume "j < length (ring_get ?d ?h k)"
    then have j: "j < k" by simp
    have "(?h + j) mod ?n = (length recv + j) mod ?n" unfolding assms(2) by (simp only: mod_add_left_eq)
    moreover have "?d ! ((length recv + j) mod ?n) = sent ! (length recv + j)"
      using assms(3,5) j kc by (simp add: ring_holds_def)
    ultimately show "ring_get ?d ?h k ! j = take k (drop (length recv) sent) ! j"
      using j n(2) assms(5) kc by (simp add: ring_get_nth)
  qed (use assms(5) kc in simp)
  then have "recv @ ring_get ?d ?h k = take (length recv + k) sent" using assms(4) by (metis take_add)
  moreover have "ring_ok f'" using assms(1) e n by (simp add: ring_ok_def)
  moreover have "unat (fifo_head f') = (length recv + k) mod ?n" using f'(3) assms(2) by (simp add: mod_add_left_eq)
  ultimately show ?thesis using f'(1) uk e(1) kc by (intro exI [of _ f'] exI [of _ "word_of_nat k"]) auto
qed

lemma ring_holds_mono: "ring_holds f sent recv \<Longrightarrow> length recv \<le> length recv' \<Longrightarrow> ring_holds f sent recv'"
  by (auto simp: ring_holds_def)

lemma ring_holds_cong:
  "fifo_data f' = fifo_data f \<Longrightarrow> fifo_nitems f' = fifo_nitems f \<Longrightarrow> ring_holds f' sent recv = ring_holds f sent recv"
  by (simp add: ring_holds_def)

lemma threads_invI:
  assumes "ring_ok (th_fifo s)" and "\<not> svm_fifo_has_ooo_data (th_fifo s)" and "n = unat (fifo_nitems (th_fifo s))"
    and "unat (fifo_tail (th_fifo s)) = length (th_sent s) mod n" and "unat (fifo_head (th_fifo s)) = length (th_recv s) mod n"
    and "th_recv s = take (length (th_recv s)) (th_sent s)" and "ring_holds (th_fifo s) (th_sent s) (th_recv s)"
    and "unat (fifo_cursize (th_fifo s)) = cm - cr" and "cr \<le> length (th_recv s)" and "length (th_recv s) \<le> cm"
    and "cm \<le> length (th_sent s)" and "length (th_sent s) \<le> cr + n"
    and "prod_ok (th_prod s) n (length (th_sent s)) cm cr" and "cons_ok (th_cons s) (length (th_recv s)) cm cr"
  shows "threads_inv s"
  unfolding threads_inv_def Let_def using assms by blast

lemma producer_step_inv:
  assumes "producer_step s s'" and "threads_inv s"
  shows "threads_inv s'"
proof -
  let ?f = "th_fifo s" and ?S = "th_sent s" and ?R = "th_recv s"
  let ?n = "unat (fifo_nitems ?f)"
  obtain cm cr where i: "ring_ok ?f" "\<not> svm_fifo_has_ooo_data ?f" "unat (fifo_tail ?f) = length ?S mod ?n"
    "unat (fifo_head ?f) = length ?R mod ?n" "?R = take (length ?R) ?S" "ring_holds ?f ?S ?R"
    "unat (fifo_cursize ?f) = cm - cr" "cr \<le> length ?R" "length ?R \<le> cm" "cm \<le> length ?S" "length ?S \<le> cr + ?n"
    "prod_ok (th_prod s) ?n (length ?S) cm cr" "cons_ok (th_cons s) (length ?R) cm cr"
    using assms(2) unfolding threads_inv_def Let_def by blast
  have n: "?n < 2 ^ 31" using i(1) by (simp add: ring_ok_def)
  have cn: "cm - cr \<le> ?n" using i by linarith
  show ?thesis
    using assms(1)
  proof (cases rule: producer_step.cases)
    case (enq_test bs)
    show ?thesis by (rule threads_invI [of _ ?n cm cr]) (use i enq_test in auto)
  next
    case (enq_read bs)
    show ?thesis by (rule threads_invI [of _ ?n cm cr]) (use i enq_read cn in auto)
  next
    case (enq_copy c bs f k)
    have p: "length ?S = cm" "length bs < 2 ^ 32" "cm - cr \<le> unat c" "unat c \<le> ?n" using i(12) enq_copy(2) by simp_all
    have "length ?S + (?n - unat c) \<le> length ?R + ?n" "length ?R \<le> length ?S" using p i(8-10) by linarith+
    with enqueue_copy_threads [OF i(1,3,6) _ p(4,2)] enq_copy(3)
    have f: "ring_ok f" "unat k \<le> ?n - unat c" "unat k \<le> length bs" "unat (fifo_tail f) = (length ?S + unat k) mod ?n"
      "fifo_nitems f = fifo_nitems ?f" "fifo_head f = fifo_head ?f" "fifo_cursize f = fifo_cursize ?f"
      "fifo_ooos_list_head f = fifo_ooos_list_head ?f" "ring_holds f (?S @ take (unat k) bs) ?R" by auto
    have "length ?S + unat k \<le> cr + ?n" using p f(2) i(8,9) by linarith
    then show ?thesis
      unfolding enq_copy(1) by (intro threads_invI [of _ ?n cm cr])
        (use i p(1) f in \<open>auto simp: svm_fifo_has_ooo_data_def take_Cons'\<close>)
  next
    case (enq_commit k f)
    have "length ?S = cm + unat k" using i(12) enq_commit(2) by simp
    moreover from this have "cm - cr + unat k \<le> ?n" using i(8-11) by linarith
    then have "unat (fifo_cursize ?f + k) = cm - cr + unat k" using i(7) n by (subst unat_u32_add) simp_all
    ultimately show ?thesis
      unfolding enq_commit(1,3) by (intro threads_invI [of _ ?n "cm + unat k" cr])
        (use i in \<open>auto simp: svm_fifo_has_ooo_data_def ring_ok_def ring_holds_def elim!: cons_ok.elims\<close>)
  qed
qed

lemma consumer_step_inv:
  assumes "consumer_step s s'" and "threads_inv s"
  shows "threads_inv s'"
proof -
  let ?f = "th_fifo s" and ?S = "th_sent s" and ?R = "th_recv s"
  let ?n = "unat (fifo_nitems ?f)"
  obtain cm cr where i: "ring_ok ?f" "\<not> svm_fifo_has_ooo_data ?f" "unat (fifo_tail ?f) = length ?S mod ?n"
    "unat (fifo_head ?f) = length ?R mod ?n" "?R = take (length ?R) ?S" "ring_holds ?f ?S ?R"
    "unat (fifo_cursize ?f) = cm - cr" "cr \<le> length ?R" "length ?R \<le> cm" "cm \<le> length ?S" "length ?S \<le> cr + ?n"
    "prod_ok (th_prod s) ?n (length ?S) cm cr" "cons_ok (th_cons s) (length ?R) cm cr"
    using assms(2) unfolding threads_inv_def Let_def by blast
  have n: "?n < 2 ^ 31" using i(1) by (simp add: ring_ok_def)
  have cn: "cm - cr \<le> ?n" using i by linarith
  show ?thesis
    using assms(1)
  proof (cases rule: consumer_step.cases)
    case (deq_test m)
    show ?thesis by (rule threads_invI [of _ ?n cm cr]) (use i deq_test in auto)
  next
    case (deq_read m)
    show ?thesis by (rule threads_invI [of _ ?n cm cr]) (use i deq_read in auto)
  next
    case (deq_copy c m f k out)
    have p: "length ?R = cr" "unat c \<le> cm - cr" using i(13) deq_copy(2) by simp_all
    have "length ?R + unat c \<le> length ?S" "unat c \<le> ?n" using p i(8-10) cn by linarith+
    from dequeue_copy_threads [OF i(1,4,6,5) this, of m] deq_copy(3)
    have f: "ring_ok f" "unat k \<le> unat c" "length out = unat k" "unat (fifo_head f) = (length ?R + unat k) mod ?n"
      "fifo_nitems f = fifo_nitems ?f" "fifo_tail f = fifo_tail ?f" "fifo_cursize f = fifo_cursize ?f"
      "fifo_ooos_list_head f = fifo_ooos_list_head ?f" "?R @ out = take (length ?R + unat k) ?S" "fifo_data f = fifo_data ?f" by auto
    have h: "ring_holds f ?S (?R @ out)" using ring_holds_mono [OF i(6), of "?R @ out"] ring_holds_cong [OF f(10,5)] by simp
    show ?thesis
      unfolding deq_copy(1) by (intro threads_invI [of _ ?n cm cr])
        (use i p f h in \<open>auto simp: svm_fifo_has_ooo_data_def\<close>)
  next
    case (deq_commit k f)
    have r: "length ?R = cr + unat k" using i(13) deq_commit(2) by simp
    then have "unat (fifo_cursize ?f - k) = cm - (cr + unat k)" using i(7,9) by (subst unat_u32_sub) simp_all
    then show ?thesis
      unfolding deq_commit(1,3) by (intro threads_invI [of _ ?n cm "cr + unat k"])
        (use i r in \<open>auto simp: svm_fifo_has_ooo_data_def ring_ok_def ring_holds_def elim!: prod_ok.elims\<close>)
  qed
qed

lemma fifo_step_inv: "fifo_step s s' \<Longrightarrow> threads_inv s \<Longrightarrow> threads_inv s'"
  unfolding fifo_step_def using producer_step_inv consumer_step_inv by blast

lemma threads_init_inv:
  assumes "svm_fifo_create True n = Some f" and "0 < unat n" and "unat n < 2 ^ 31"
  shows "threads_inv (threads_init f)"
  by (rule threads_invI [of _ "unat n" 0 0])
    (use assms in \<open>auto simp: threads_init_def svm_fifo_create_def ring_ok_def svm_fifo_has_ooo_data_def ring_holds_def\<close>)

lemma threads_reachable_inv:
  assumes "fifo_step\<^sup>*\<^sup>* (threads_init f) s" and "svm_fifo_create True n = Some f" and "0 < unat n" and "unat n < 2 ^ 31"
  shows "threads_inv s"
  using assms(1)
proof (induction rule: rtranclp_induct)
  case base
  show ?case by (rule threads_init_inv [OF assms(2-4)])
next
  case (step s s')
  then show ?case using fifo_step_inv by blast
qed

section \<open>Properties\<close>

text \<open>
  C32. However the two threads interleave, the bytes taken out are a prefix of the bytes written: no
  byte is lost, duplicated, reordered or overwritten before it is read. When both threads are
  between operations, the fifo holds exactly the bytes written and not yet taken out.
\<close>

theorem fifo_threads_order:
  assumes "svm_fifo_create True n = Some f" and "0 < unat n" and "unat n < 2 ^ 31"
    and "fifo_step\<^sup>*\<^sup>* (threads_init f) s"
  shows "th_recv s = take (length (th_recv s)) (th_sent s)
    \<and> (th_prod s = P_idle \<and> th_cons s = C_idle \<longrightarrow> fifo_contents (th_fifo s) = drop (length (th_recv s)) (th_sent s))"
proof -
  let ?f = "th_fifo s" and ?S = "th_sent s" and ?R = "th_recv s"
  have inv: "threads_inv s" by (rule threads_reachable_inv [OF assms(4,1-3)])
  have "fifo_contents ?f = drop (length ?R) ?S" if idle: "th_prod s = P_idle" "th_cons s = C_idle"
  proof (rule nth_equalityI)
    obtain cm cr where i: "ring_ok ?f" "unat (fifo_head ?f) = length ?R mod unat (fifo_nitems ?f)" "ring_holds ?f ?S ?R"
      "unat (fifo_cursize ?f) = cm - cr" "length ?S = cm" "length ?R = cr"
      using inv idle unfolding threads_inv_def Let_def by auto
    then show "length (fifo_contents ?f) = length (drop (length ?R) ?S)" by (simp add: fifo_contents_def)
    fix j assume "j < length (fifo_contents ?f)"
    then have j: "j < cm - cr" using i(4) by (simp add: fifo_contents_def)
    have l: "length (fifo_data ?f) = unat (fifo_nitems ?f)" using i(1) by (simp add: ring_ok_def)
    have "fifo_contents ?f ! j = fifo_data ?f ! ((length ?R + j) mod unat (fifo_nitems ?f))"
      using j i(2,4) l by (simp add: fifo_contents_def ring_get_nth mod_add_left_eq)
    also have "\<dots> = ?S ! (length ?R + j)" using i(3,5,6) j by (simp add: ring_holds_def)
    finally show "fifo_contents ?f ! j = drop (length ?R) ?S ! j" using j i(5,6) by simp
  qed
  moreover have "?R = take (length ?R) ?S" using inv by (simp add: threads_inv_def Let_def)
  ultimately show ?thesis by blast
qed

text \<open>
  C33. Neither thread ever accesses memory outside the ring or blocks: in every reachable state the
  copy of an enqueue or dequeue that is under way succeeds, and the size stays between zero and the
  capacity.
\<close>

theorem fifo_threads_progress:
  assumes "svm_fifo_create True n = Some f" and "0 < unat n" and "unat n < 2 ^ 31"
    and "fifo_step\<^sup>*\<^sup>* (threads_init f) s"
  shows "(\<forall>c bs. th_prod s = P_copy c bs \<longrightarrow>
        enqueue_copy (th_fifo s) c (word_of_nat (length bs)) (Some bs) \<noteq> None)
    \<and> (\<forall>c m. th_cons s = C_copy c m \<longrightarrow> dequeue_copy (th_fifo s) c m True \<noteq> None)
    \<and> fifo_cursize (th_fifo s) \<le> fifo_nitems (th_fifo s)"
proof -
  let ?f = "th_fifo s" and ?S = "th_sent s" and ?R = "th_recv s"
  let ?n = "unat (fifo_nitems ?f)"
  obtain cm cr where i: "ring_ok ?f" "unat (fifo_tail ?f) = length ?S mod ?n"
    "unat (fifo_head ?f) = length ?R mod ?n" "?R = take (length ?R) ?S" "ring_holds ?f ?S ?R"
    "unat (fifo_cursize ?f) = cm - cr" "cr \<le> length ?R" "length ?R \<le> cm" "cm \<le> length ?S" "length ?S \<le> cr + ?n"
    "prod_ok (th_prod s) ?n (length ?S) cm cr" "cons_ok (th_cons s) (length ?R) cm cr"
    using threads_reachable_inv [OF assms(4,1-3)] unfolding threads_inv_def Let_def by blast
  have cn: "cm - cr \<le> ?n" using i by linarith
  have "enqueue_copy ?f c (word_of_nat (length bs)) (Some bs) \<noteq> None" if "th_prod s = P_copy c bs" for c bs
  proof -
    have p: "length ?S = cm" "length bs < 2 ^ 32" "cm - cr \<le> unat c" "unat c \<le> ?n" using i(11) that by simp_all
    have "length ?S + (?n - unat c) \<le> length ?R + ?n" "length ?R \<le> length ?S" using p i(7-9) by linarith+
    then show ?thesis using enqueue_copy_threads [OF i(1,2,5) _ p(4,2)] by auto
  qed
  moreover have "dequeue_copy ?f c m True \<noteq> None" if "th_cons s = C_copy c m" for c m
  proof -
    have p: "length ?R = cr" "unat c \<le> cm - cr" using i(12) that by simp_all
    have "length ?R + unat c \<le> length ?S" "unat c \<le> ?n" using p i(7-9) cn by linarith+
    then show ?thesis using dequeue_copy_threads [OF i(1,3,5,4), of c m] by auto
  qed
  moreover have "fifo_cursize ?f \<le> fifo_nitems ?f" using i(6) cn by (simp add: word_le_nat_alt)
  ultimately show ?thesis by blast
qed

text \<open>A run up to the copy of three bytes into an empty fifo.\<close>

lemma sample_run:
  obtains f s where "svm_fifo_create True 4 = Some f" and "fifo_step\<^sup>*\<^sup>* (threads_init f) s"
    and "th_prod s = P_copy 0 [1, 2, 3]"
proof -
  obtain f where f: "svm_fifo_create True 4 = Some f" by (simp add: svm_fifo_create_def)
  have z: "fifo_cursize f = 0" "fifo_nitems f = 4" using f by (auto simp: svm_fifo_create_def)
  let ?s1 = "(threads_init f)\<lparr>th_prod := P_read [1, 2, 3]\<rparr>"
  have 1: "fifo_step (threads_init f) ?s1" unfolding fifo_step_def by (rule disjI1, rule enq_test) (use z in \<open>simp_all add: threads_init_def\<close>)
  have "fifo_step ?s1 (?s1\<lparr>th_prod := P_copy (fifo_cursize (th_fifo ?s1)) [1, 2, 3]\<rparr>)" unfolding fifo_step_def by (rule disjI1, rule enq_read) simp
  then have "fifo_step\<^sup>*\<^sup>* (threads_init f) (?s1\<lparr>th_prod := P_copy (fifo_cursize (th_fifo ?s1)) [1, 2, 3]\<rparr>)"
    using 1 by (meson converse_rtranclp_into_rtranclp r_into_rtranclp)
  then show ?thesis using that f z by (simp add: threads_init_def)
qed

theorem fifo_threads_order_witness:
  "\<exists>f s. svm_fifo_create True 4 = Some f \<and> fifo_step\<^sup>*\<^sup>* (threads_init f) s \<and> th_prod s = P_copy 0 [1, 2, 3]
     \<and> th_recv s = take (length (th_recv s)) (th_sent s)"
proof -
  obtain f s where s: "svm_fifo_create True 4 = Some f" "fifo_step\<^sup>*\<^sup>* (threads_init f) s" "th_prod s = P_copy 0 [1, 2, 3]"
    by (rule sample_run)
  then show ?thesis using fifo_threads_order [OF s(1) _ _ s(2)] by auto
qed

theorem fifo_threads_progress_witness:
  "\<exists>f s. svm_fifo_create True 4 = Some f \<and> fifo_step\<^sup>*\<^sup>* (threads_init f) s
     \<and> enqueue_copy (th_fifo s) 0 (word_of_nat (length [1, 2, 3 :: u8])) (Some [1, 2, 3]) \<noteq> None"
proof -
  obtain f s where s: "svm_fifo_create True 4 = Some f" "fifo_step\<^sup>*\<^sup>* (threads_init f) s" "th_prod s = P_copy 0 [1, 2, 3]"
    by (rule sample_run)
  have "enqueue_copy (th_fifo s) 0 (word_of_nat (length [1, 2, 3 :: u8])) (Some [1, 2, 3]) \<noteq> None"
    using fifo_threads_progress [OF s(1) _ _ s(2)] s(3) by auto
  then show ?thesis using s(1,2) by blast
qed

end
