(* ===== verification/C_Loops.thy ===== *)
theory C_Loops
  imports Vpp_Prelude "HOL-Library.Monad_Syntax"
begin

text \<open>
  The counting loops of C over a state that a failed assertion ends, with their proof rules: an
  invariant that every iteration carries to the next index holds at the end, and the loop returns.
\<close>

section \<open>Loops\<close>

text \<open>\<open>for (i = lo; i < hi; i++)\<close>, whose body may end the loop.\<close>

function for_until :: "nat \<Rightarrow> nat \<Rightarrow> (nat \<Rightarrow> 's \<Rightarrow> ('s \<times> bool) option) \<Rightarrow> 's \<Rightarrow> ('s \<times> bool) option" where
  "for_until i hi body s =
    (if i < hi then do {(s, stop) \<leftarrow> body i s; if stop then Some (s, True) else for_until (Suc i) hi body s}
     else Some (s, False))"
  by auto
termination by (relation "measure (\<lambda>(i, hi, body, s). hi - i)") auto

declare for_until.simps [simp del]

function for_range :: "nat \<Rightarrow> nat \<Rightarrow> (nat \<Rightarrow> 's \<Rightarrow> 's option) \<Rightarrow> 's \<Rightarrow> 's option" where
  "for_range i hi body s = (if i < hi then do {s \<leftarrow> body i s; for_range (Suc i) hi body s} else Some s)"
  by auto
termination by (relation "measure (\<lambda>(i, hi, body, s). hi - i)") auto

declare for_range.simps [simp del]

lemma for_range_mono [partial_function_mono]:
  assumes "\<And>i s. mono_option (\<lambda>f. B i s f)"
  shows "mono_option (\<lambda>f. for_range i hi (\<lambda>i s. B i s f) s)"
proof -
  have "mono_option (\<lambda>f. for_range i hi (\<lambda>i s. B i s f) s)" if "n = hi - i" for n
    using that
  proof (induction n arbitrary: i s)
    case 0
    then show ?case by (subst for_range.simps) (simp add: option.const_mono)
  next
    case (Suc n)
    then have "n = hi - Suc i" and i: "i < hi" by auto
    from Suc.IH [OF this(1)] have "mono_option (\<lambda>f. Option.bind (B i s f) (\<lambda>s. for_range (Suc i) hi (\<lambda>i s. B i s f) s))"
      by (intro bind_mono assms)
    then show ?case using i by (subst for_range.simps) simp
  qed
  then show ?thesis by blast
qed

lemma for_range_rule:
  assumes "lo \<le> hi" and "J lo s"
    and "\<And>i s. lo \<le> i \<Longrightarrow> i < hi \<Longrightarrow> J i s \<Longrightarrow> \<exists>s'. body i s = Some s' \<and> J (Suc i) s'"
  shows "\<exists>s'. for_range lo hi body s = Some s' \<and> J hi s'"
  using assms
proof (induction "hi - lo" arbitrary: lo s)
  case 0
  then show ?case by (subst for_range.simps) simp
next
  case (Suc n)
  then have l: "lo < hi" by simp
  with Suc.prems obtain s' where s': "body lo s = Some s'" "J (Suc lo) s'" by blast
  have "\<exists>s''. for_range (Suc lo) hi body s' = Some s'' \<and> J hi s''"
  proof (rule Suc.hyps(1))
    show "n = hi - Suc lo" using Suc.hyps(2) by simp
    show "Suc lo \<le> hi" using l by simp
    show "J (Suc lo) s'" by (rule s'(2))
    show "\<exists>s'. body i s = Some s' \<and> J (Suc i) s'" if "Suc lo \<le> i" "i < hi" "J i s" for i s
      using Suc.prems(3) that by simp
  qed
  then show ?case using l s'(1) by (subst for_range.simps) simp
qed

text \<open>A loop that runs its course establishes \<open>J\<close> at the end, one that is left early \<open>Q\<close>.\<close>

lemma for_until_snoc:
  assumes "for_until lo i body s = Some (s1, False)" and "lo \<le> i" and "body i s1 = Some (s2, False)"
  shows "for_until lo (Suc i) body s = Some (s2, False)"
  using assms
proof (induction "i - lo" arbitrary: lo s)
  case 0
  then have "i = lo" by simp
  with 0 show ?case by (simp add: for_until.simps [of lo lo] for_until.simps [of lo "Suc lo"] for_until.simps [of "Suc lo" "Suc lo"])
next
  case (Suc n)
  then have "lo < i" by simp
  with Suc.prems(1) obtain s' where "body lo s = Some (s', False)" "for_until (Suc lo) i body s' = Some (s1, False)"
    by (auto simp: for_until.simps [of lo i] bind_eq_Some_conv split: if_splits)
  then show ?case using Suc.hyps(1) [of "Suc lo" s'] Suc.hyps(2) Suc.prems(3) \<open>lo < i\<close> by (simp add: for_until.simps [of lo "Suc i"])
qed

lemma for_until_rule:
  assumes "lo \<le> hi" and "J lo s"
    and "\<And>i s. lo \<le> i \<Longrightarrow> i < hi \<Longrightarrow> J i s \<Longrightarrow>
      \<exists>s' stop. body i s = Some (s', stop) \<and> (if stop then Q s' else J (Suc i) s')"
  shows "\<exists>s' stop. for_until lo hi body s = Some (s', stop) \<and> (if stop then Q s' else J hi s')"
  using assms
proof (induction "hi - lo" arbitrary: lo s)
  case 0
  then show ?case by (subst for_until.simps) auto
next
  case (Suc n)
  then have l: "lo < hi" by simp
  with Suc.prems obtain s' stop where s': "body lo s = Some (s', stop)" "if stop then Q s' else J (Suc lo) s'" by blast
  show ?case
  proof (cases stop)
    case True
    then show ?thesis using l s' by (subst for_until.simps) auto
  next
    case False
    have "\<exists>s'' stop. for_until (Suc lo) hi body s' = Some (s'', stop) \<and> (if stop then Q s'' else J hi s'')"
    proof (rule Suc.hyps(1))
      show "n = hi - Suc lo" using Suc.hyps(2) by simp
      show "Suc lo \<le> hi" using l by simp
      show "J (Suc lo) s'" using s'(2) False by simp
      show "\<exists>s' stop. body i s = Some (s', stop) \<and> (if stop then Q s' else J (Suc i) s')"
        if "Suc lo \<le> i" "i < hi" "J i s" for i s
        using Suc.prems(3) that by simp
    qed
    then show ?thesis using l s'(1) False by (subst for_until.simps) simp
  qed
qed

end
