(* ===== verification/Ip4_Mtrie.thy ===== *)
theory Ip4_Mtrie
  imports Pool C_Loops
begin

text \<open>
  The IPv4 forwarding trie of \<^verbatim>\<open>vnet/ip/ip4_mtrie.c\<close> and \<^verbatim>\<open>vnet/ip/ip4_mtrie.h\<close>: four plies of 256
  leaves, each leaf an adjacency index or the index of the next ply in the pool of plies. An
  address is the 32-bit number of its bytes in network order, so byte \<open>i\<close> of \<open>as_u8\<close> is the
  \<open>i\<close>th from the top. A failed assertion, a missing element of the pool and an access outside
  the leaves of a ply are \<open>None\<close>. The pool as a tree, the operations on it and what a walk
  through it finds follow the model.
\<close>

section \<open>Leaves and plies\<close>

type_synonym ip4_address_t = u32

definition as_u8 :: "ip4_address_t \<Rightarrow> nat \<Rightarrow> u8" where
  "as_u8 a i = ucast (drop_bit (24 - 8 * i) a)"

type_synonym ip4_fib_mtrie_leaf_t = u32

abbreviation (input) IP4_FIB_MTRIE_LEAF_EMPTY :: ip4_fib_mtrie_leaf_t where "IP4_FIB_MTRIE_LEAF_EMPTY \<equiv> 1"
abbreviation (input) IP4_FIB_MTRIE_LEAF_ROOT :: ip4_fib_mtrie_leaf_t where "IP4_FIB_MTRIE_LEAF_ROOT \<equiv> 0"

definition ip4_fib_mtrie_leaf_is_empty :: "ip4_fib_mtrie_leaf_t \<Rightarrow> bool" where
  "ip4_fib_mtrie_leaf_is_empty n = (n = IP4_FIB_MTRIE_LEAF_EMPTY)"

definition ip4_fib_mtrie_leaf_is_non_empty :: "ip4_fib_mtrie_leaf_t \<Rightarrow> bool" where
  "ip4_fib_mtrie_leaf_is_non_empty n = (n \<noteq> IP4_FIB_MTRIE_LEAF_EMPTY)"

definition ip4_fib_mtrie_leaf_is_terminal :: "ip4_fib_mtrie_leaf_t \<Rightarrow> bool" where
  "ip4_fib_mtrie_leaf_is_terminal n = (n AND 1 \<noteq> 0)"

definition ip4_fib_mtrie_leaf_get_adj_index :: "ip4_fib_mtrie_leaf_t \<Rightarrow> u32 option" where
  "ip4_fib_mtrie_leaf_get_adj_index n =
    (if ip4_fib_mtrie_leaf_is_terminal n then Some (drop_bit 1 n) else None)"

definition ip4_fib_mtrie_leaf_set_adj_index :: "u32 \<Rightarrow> ip4_fib_mtrie_leaf_t option" where
  "ip4_fib_mtrie_leaf_set_adj_index adj_index =
    (let l = 1 + 2 * adj_index
     in if ip4_fib_mtrie_leaf_get_adj_index l = Some adj_index then Some l else None)"

definition ip4_fib_mtrie_leaf_is_next_ply :: "ip4_fib_mtrie_leaf_t \<Rightarrow> bool" where
  "ip4_fib_mtrie_leaf_is_next_ply n = (n AND 1 = 0)"

definition ip4_fib_mtrie_leaf_get_next_ply_index :: "ip4_fib_mtrie_leaf_t \<Rightarrow> u32 option" where
  "ip4_fib_mtrie_leaf_get_next_ply_index n =
    (if ip4_fib_mtrie_leaf_is_next_ply n then Some (drop_bit 1 n) else None)"

definition ip4_fib_mtrie_leaf_set_next_ply_index :: "u32 \<Rightarrow> ip4_fib_mtrie_leaf_t option" where
  "ip4_fib_mtrie_leaf_set_next_ply_index i =
    (let l = 0 + 2 * i
     in if ip4_fib_mtrie_leaf_get_next_ply_index l = Some i then Some l else None)"

record ip4_fib_mtrie_ply_t =
  leaves :: "ip4_fib_mtrie_leaf_t list"
  dst_address_bits_of_leaves :: "u8 list"
  n_non_empty_leafs :: int

record ip4_fib_mtrie_t =
  ply_pool :: "ip4_fib_mtrie_ply_t pool"
  default_leaf :: ip4_fib_mtrie_leaf_t

definition ply_init :: "ip4_fib_mtrie_leaf_t \<Rightarrow> nat \<Rightarrow> ip4_fib_mtrie_ply_t" where
  "ply_init init prefix_len =
    \<lparr>leaves = replicate 256 init,
     dst_address_bits_of_leaves = replicate 256 (word_of_nat prefix_len),
     n_non_empty_leafs = (if ip4_fib_mtrie_leaf_is_empty init then 0 else 256)\<rparr>"

definition ply_at :: "ip4_fib_mtrie_t \<Rightarrow> nat \<Rightarrow> ip4_fib_mtrie_ply_t option" where
  "ply_at m i = pool_elt_at_index (ply_pool m) i"

definition ply_put :: "ip4_fib_mtrie_t \<Rightarrow> nat \<Rightarrow> ip4_fib_mtrie_ply_t \<Rightarrow> ip4_fib_mtrie_t" where
  "ply_put m i p = m\<lparr>ply_pool := pool_store (ply_pool m) i p\<rparr>"

definition ply_create ::
    "ip4_fib_mtrie_t \<Rightarrow> ip4_fib_mtrie_leaf_t \<Rightarrow> nat \<Rightarrow> (ip4_fib_mtrie_t \<times> ip4_fib_mtrie_leaf_t) option" where
  "ply_create m init_leaf prefix_len =
    (let p = ply_init init_leaf prefix_len;
         (pool, i) = pool_get p (ply_pool m);
         m = ply_put (m\<lparr>ply_pool := pool\<rparr>) i p
     in do {
       l \<leftarrow> ip4_fib_mtrie_leaf_set_next_ply_index (word_of_nat i);
       if i < 2 ^ 32 then Some (m, l) else None
     })"

definition get_next_ply_for_leaf :: "ip4_fib_mtrie_t \<Rightarrow> ip4_fib_mtrie_leaf_t \<Rightarrow> nat option" where
  "get_next_ply_for_leaf m l = do {
     n \<leftarrow> ip4_fib_mtrie_leaf_get_next_ply_index l;
     if n = 0 then None
     else do {_ \<leftarrow> ply_at m (unat n); Some (unat n)}
   }"

text \<open>Leaf \<open>i\<close> of a ply with the prefix length kept for it.\<close>

definition leaf_at :: "ip4_fib_mtrie_ply_t \<Rightarrow> nat \<Rightarrow> (ip4_fib_mtrie_leaf_t \<times> u8) option" where
  "leaf_at p i =
    (if i < length (leaves p) \<and> i < length (dst_address_bits_of_leaves p)
     then Some (leaves p ! i, dst_address_bits_of_leaves p ! i) else None)"

definition leaf_put :: "ip4_fib_mtrie_ply_t \<Rightarrow> nat \<Rightarrow> ip4_fib_mtrie_leaf_t \<Rightarrow> u8 \<Rightarrow> int \<Rightarrow> ip4_fib_mtrie_ply_t" where
  "leaf_put p i l b n =
    p\<lparr>leaves := (leaves p)[i := l], dst_address_bits_of_leaves := (dst_address_bits_of_leaves p)[i := b],
      n_non_empty_leafs := n\<rparr>"

partial_function (option) ply_free :: "ip4_fib_mtrie_t \<Rightarrow> nat \<Rightarrow> ip4_fib_mtrie_t option" where
  "ply_free m p = do {
     m \<leftarrow> for_range 0 256 (\<lambda>i m. do {
       ply \<leftarrow> ply_at m p;
       (l, _) \<leftarrow> leaf_at ply i;
       if ip4_fib_mtrie_leaf_is_next_ply l
       then do {n \<leftarrow> get_next_ply_for_leaf m l; ply_free m n}
       else Some m}) m;
     if p = 0 then Some (ply_put m p (ply_init IP4_FIB_MTRIE_LEAF_EMPTY 0))
     else do {pool \<leftarrow> pool_put_index (ply_pool m) p; Some (m\<lparr>ply_pool := pool\<rparr>)}
   }"

definition ip4_fib_free :: "ip4_fib_mtrie_t \<Rightarrow> ip4_fib_mtrie_t option" where
  "ip4_fib_free m = do {_ \<leftarrow> ply_at m 0; ply_free m 0}"

section \<open>Lookup\<close>

definition ip4_mtrie_lookup_address :: "ip4_fib_mtrie_t \<Rightarrow> ip4_address_t \<Rightarrow> u32 option" where
  "ip4_mtrie_lookup_address m dst = do {
     p \<leftarrow> ply_at m 0;
     (l, _) \<leftarrow> leaf_at p (unat (as_u8 dst 0));
     if ip4_fib_mtrie_leaf_is_terminal l then ip4_fib_mtrie_leaf_get_adj_index l
     else do {
       n \<leftarrow> get_next_ply_for_leaf m l;
       p \<leftarrow> ply_at m n;
       (l, _) \<leftarrow> leaf_at p (unat (as_u8 dst 1));
       if ip4_fib_mtrie_leaf_is_terminal l then ip4_fib_mtrie_leaf_get_adj_index l
       else do {
         n \<leftarrow> get_next_ply_for_leaf m l;
         p \<leftarrow> ply_at m n;
         (l, _) \<leftarrow> leaf_at p (unat (as_u8 dst 2));
         if ip4_fib_mtrie_leaf_is_terminal l then ip4_fib_mtrie_leaf_get_adj_index l
         else do {
           n \<leftarrow> get_next_ply_for_leaf m l;
           p \<leftarrow> ply_at m n;
           (l, _) \<leftarrow> leaf_at p (unat (as_u8 dst 3));
           ip4_fib_mtrie_leaf_get_adj_index l
         }
       }
     }
   }"

text \<open>The step of the forwarding nodes reads the vector of plies without the checks of the pool.\<close>

definition ip4_fib_mtrie_lookup_step ::
    "ip4_fib_mtrie_t \<Rightarrow> ip4_fib_mtrie_leaf_t \<Rightarrow> ip4_address_t \<Rightarrow> nat \<Rightarrow> ip4_fib_mtrie_leaf_t option" where
  "ip4_fib_mtrie_lookup_step m current_leaf dst_address dst_address_byte_index =
    (let current_is_terminal = ip4_fib_mtrie_leaf_is_terminal current_leaf;
         n = (if current_is_terminal then 0 else unat (drop_bit 1 current_leaf))
     in do {
       ply \<leftarrow> (if n < length (pool_vec (ply_pool m)) then Some (pool_vec (ply_pool m) ! n) else None);
       (next_leaf, _) \<leftarrow> leaf_at ply (unat (as_u8 dst_address dst_address_byte_index));
       Some (if current_is_terminal then current_leaf else next_leaf)
     })"

section \<open>Setting and unsetting leaves\<close>

record ip4_fib_mtrie_set_unset_leaf_args_t =
  dst_address :: ip4_address_t
  dst_address_length :: nat
  adj_index :: u32

partial_function (option) set_ply_with_more_specific_leaf ::
    "ip4_fib_mtrie_t \<Rightarrow> nat \<Rightarrow> ip4_fib_mtrie_leaf_t \<Rightarrow> nat \<Rightarrow> ip4_fib_mtrie_t option" where
  "set_ply_with_more_specific_leaf m ply new_leaf new_leaf_dst_address_bits =
    (if \<not> ip4_fib_mtrie_leaf_is_terminal new_leaf \<or> ip4_fib_mtrie_leaf_is_empty new_leaf then None
     else for_range 0 256 (\<lambda>i m. do {
       p \<leftarrow> ply_at m ply;
       (old_leaf, bits) \<leftarrow> leaf_at p i;
       if \<not> ip4_fib_mtrie_leaf_is_terminal old_leaf
       then do {
         sub_ply \<leftarrow> get_next_ply_for_leaf m old_leaf;
         set_ply_with_more_specific_leaf m sub_ply new_leaf new_leaf_dst_address_bits}
       else if unat bits \<le> new_leaf_dst_address_bits
       then Some (ply_put m ply (leaf_put p i new_leaf (word_of_nat new_leaf_dst_address_bits)
         (n_non_empty_leafs p + (if ip4_fib_mtrie_leaf_is_empty old_leaf then 1 else 0))))
       else Some m}) m)"

text \<open>\<open>pow2_mask\<close> for the shifts of at most 31 bits that occur here.\<close>

definition low_mask :: "nat \<Rightarrow> u64" where
  "low_mask x = push_bit x 1 - 1"

text \<open>
  The first argument of \<open>set_leaf\<close> and \<open>unset_leaf\<close> counts the plies left: it is
  \<open>4 - dst_address_byte_index\<close>, and zero is the failed assertion on the byte index.
\<close>

primrec set_leaf ::
    "nat \<Rightarrow> ip4_fib_mtrie_t \<Rightarrow> ip4_fib_mtrie_set_unset_leaf_args_t \<Rightarrow> nat \<Rightarrow> ip4_fib_mtrie_t option" where
  "set_leaf 0 m a old_ply_index = None"
| "set_leaf (Suc plies) m a old_ply_index =
    (if \<not> (0 < dst_address_length a \<and> dst_address_length a \<le> 32) then None
     else let dst_address_byte_index = 3 - plies;
              n_dst_bits_next_plies = int (dst_address_length a) - 8 * (int dst_address_byte_index + 1);
              dst_byte = as_u8 (dst_address a) dst_address_byte_index
     in if n_dst_bits_next_plies \<le> 0
        then let n_dst_bits_this_ply = nat (- n_dst_bits_next_plies)
        in if ucast dst_byte AND low_mask n_dst_bits_this_ply \<noteq> 0 then None
        else for_range (unat dst_byte) (unat dst_byte + 2 ^ n_dst_bits_this_ply) (\<lambda>i m. do {
          old_ply \<leftarrow> ply_at m old_ply_index;
          (old_leaf, bits) \<leftarrow> leaf_at old_ply i;
          if unat bits \<le> dst_address_length a
          then do {
            new_leaf \<leftarrow> ip4_fib_mtrie_leaf_set_adj_index (adj_index a);
            if ip4_fib_mtrie_leaf_is_terminal old_leaf
            then let n = n_non_empty_leafs old_ply + (if ip4_fib_mtrie_leaf_is_empty old_leaf then 1 else 0)
              in if n \<le> 256
                 then Some (ply_put m old_ply_index
                   (leaf_put old_ply i new_leaf (word_of_nat (dst_address_length a)) n))
                 else None
            else do {
              new_ply \<leftarrow> get_next_ply_for_leaf m old_leaf;
              set_ply_with_more_specific_leaf m new_ply new_leaf (dst_address_length a)}}
          else if \<not> ip4_fib_mtrie_leaf_is_terminal old_leaf
          then do {
            new_ply \<leftarrow> get_next_ply_for_leaf m old_leaf;
            set_leaf plies m a new_ply}
          else Some m}) m
        else do {
          old_ply \<leftarrow> ply_at m old_ply_index;
          (old_leaf, bits) \<leftarrow> leaf_at old_ply (unat dst_byte);
          (m, new_ply) \<leftarrow> (if ip4_fib_mtrie_leaf_is_terminal old_leaf
            then do {
              (m, new_leaf) \<leftarrow> ply_create m old_leaf (unat bits);
              new_ply \<leftarrow> get_next_ply_for_leaf m new_leaf;
              old_ply \<leftarrow> ply_at m old_ply_index;
              let n = n_non_empty_leafs old_ply - (if ip4_fib_mtrie_leaf_is_non_empty old_leaf then 1 else 0);
              if n < 0 then None
              else Some (ply_put m old_ply_index (leaf_put old_ply (unat dst_byte) new_leaf 0 (n + 1)), new_ply)}
            else do {new_ply \<leftarrow> get_next_ply_for_leaf m old_leaf; Some (m, new_ply)});
          set_leaf plies m a new_ply
        })"

primrec unset_leaf ::
    "nat \<Rightarrow> ip4_fib_mtrie_t \<Rightarrow> ip4_fib_mtrie_set_unset_leaf_args_t \<Rightarrow> nat \<Rightarrow> (ip4_fib_mtrie_t \<times> bool) option" where
  "unset_leaf 0 m a old_ply = None"
| "unset_leaf (Suc plies) m a old_ply =
    (if \<not> (0 < dst_address_length a \<and> dst_address_length a \<le> 32) then None
     else let dst_address_byte_index = 3 - plies;
              n_dst_bits_next_plies = int (dst_address_length a) - 8 * (int dst_address_byte_index + 1);
              dst_byte = as_u8 (dst_address a) dst_address_byte_index;
              dst_byte = (if n_dst_bits_next_plies < 0
                then dst_byte AND NOT (ucast (low_mask (nat (- n_dst_bits_next_plies)))) else dst_byte);
              n_dst_bits_this_ply = (if n_dst_bits_next_plies \<le> 0 then nat (- n_dst_bits_next_plies) else 0);
              n_dst_bits_this_ply = min 8 n_dst_bits_this_ply
     in do {
       del_leaf \<leftarrow> ip4_fib_mtrie_leaf_set_adj_index (adj_index a);
       for_until (unat dst_byte) (unat dst_byte + 2 ^ n_dst_bits_this_ply) (\<lambda>i m. do {
         ply \<leftarrow> ply_at m old_ply;
         (old_leaf, _) \<leftarrow> leaf_at ply i;
         (m, hit) \<leftarrow> (if old_leaf = del_leaf then Some (m, True)
           else if \<not> ip4_fib_mtrie_leaf_is_terminal old_leaf
           then do {n \<leftarrow> get_next_ply_for_leaf m old_leaf; unset_leaf plies m a n}
           else Some (m, False));
         if hit
         then do {
           ply \<leftarrow> ply_at m old_ply;
           let n = n_non_empty_leafs ply - 1;
           let m = ply_put m old_ply (leaf_put ply i IP4_FIB_MTRIE_LEAF_EMPTY 0 n);
           if ip4_fib_mtrie_leaf_is_empty old_leaf \<or> n < 0 then None
           else if n = 0 \<and> 0 < dst_address_byte_index
           then do {pool \<leftarrow> pool_put_index (ply_pool m) old_ply; Some (m\<lparr>ply_pool := pool\<rparr>, True)}
           else Some (m, False)}
         else Some (m, False)}) m
     })"

definition ip4_mtrie_init :: "ip4_fib_mtrie_t option" where
  "ip4_mtrie_init = do {
     (m, root) \<leftarrow> ply_create \<lparr>ply_pool = pool_null, default_leaf = IP4_FIB_MTRIE_LEAF_EMPTY\<rparr> IP4_FIB_MTRIE_LEAF_EMPTY 0;
     n \<leftarrow> ip4_fib_mtrie_leaf_get_next_ply_index root;
     if n = 0 then Some m else None
   }"

text \<open>The memory of a ply: 256 leaves, 256 prefix lengths and one cache line.\<close>

definition sizeof_ply :: nat where
  "sizeof_ply = 256 * 4 + 256 + 64"

partial_function (option) mtrie_memory_usage :: "ip4_fib_mtrie_t \<Rightarrow> nat option \<Rightarrow> nat option" where
  "mtrie_memory_usage m p =
     (if p = None \<and> pool_is_free_index (ply_pool m) 0 then Some 0
      else for_range 0 256 (\<lambda>i bytes. do {
        ply \<leftarrow> ply_at m (case p of None \<Rightarrow> 0 | Some p \<Rightarrow> p);
        (l, _) \<leftarrow> leaf_at ply i;
        if ip4_fib_mtrie_leaf_is_next_ply l
        then do {n \<leftarrow> get_next_ply_for_leaf m l; b \<leftarrow> mtrie_memory_usage m (Some n); Some (bytes + b)}
        else Some bytes}) sizeof_ply)"

section \<open>The leaves as words\<close>

lemma is_terminal_iff [simp]: "ip4_fib_mtrie_leaf_is_terminal n \<longleftrightarrow> odd n"
  by (simp add: ip4_fib_mtrie_leaf_is_terminal_def and_one_eq odd_iff_mod_2_eq_one)

lemma is_next_ply_iff [simp]: "ip4_fib_mtrie_leaf_is_next_ply n \<longleftrightarrow> even n"
  by (simp add: ip4_fib_mtrie_leaf_is_next_ply_def and_one_eq even_iff_mod_2_eq_zero)

lemma unat_double: "unat (a :: u32) < 2 ^ 31 \<Longrightarrow> unat (2 * a) = 2 * unat a"
  by (subst unat_mult_lem [THEN iffD1]) simp_all

lemma unat_double_1: "unat (a :: u32) < 2 ^ 31 \<Longrightarrow> unat (1 + 2 * a) = 1 + 2 * unat a"
  by (subst unat_add_lem [THEN iffD1]) (simp_all add: unat_double)

lemma drop_double [simp]: "unat (a :: u32) < 2 ^ 31 \<Longrightarrow> drop_bit (Suc 0) (2 * a) = a"
  by (simp add: word_unat_eq_iff drop_bit_Suc unat_div unat_double)

lemma drop_double_1 [simp]: "unat (a :: u32) < 2 ^ 31 \<Longrightarrow> drop_bit (Suc 0) (1 + 2 * a) = a"
  by (simp add: word_unat_eq_iff drop_bit_Suc unat_div unat_double)

lemma set_adj_index [simp]: "unat a < 2 ^ 31 \<Longrightarrow> ip4_fib_mtrie_leaf_set_adj_index a = Some (1 + 2 * a)"
  by (simp add: ip4_fib_mtrie_leaf_set_adj_index_def ip4_fib_mtrie_leaf_get_adj_index_def)

lemma double_1_eq: "unat a < 2 ^ 31 \<Longrightarrow> 1 + 2 * a = (1 :: u32) \<longleftrightarrow> a = 0"
  by (auto simp: word_unat_eq_iff unat_double_1 unat_double)

lemma double_1_inj: "unat a < 2 ^ 31 \<Longrightarrow> unat b < 2 ^ 31 \<Longrightarrow> 1 + 2 * a = 1 + 2 * (b :: u32) \<longleftrightarrow> a = b"
  by (metis drop_double_1)

section \<open>The pool as a tree\<close>

text \<open>
  A slot of a ply is a terminal leaf with its prefix length, or a sub-ply: its index in the pool
  with its 256 slots. \<open>ply_of\<close> is the ply that holds given slots.
\<close>

datatype slot = Term ip4_fib_mtrie_leaf_t u8 | Sub nat "slot list"

fun leaf_of :: "slot \<Rightarrow> ip4_fib_mtrie_leaf_t" where
  "leaf_of (Term l b) = l"
| "leaf_of (Sub q ts) = 2 * word_of_nat q"

fun bits_of :: "slot \<Rightarrow> u8" where
  "bits_of (Term l b) = b"
| "bits_of (Sub q ts) = 0"

fun plies_of :: "slot \<Rightarrow> nat list" where
  "plies_of (Term l b) = []"
| "plies_of (Sub q ts) = q # concat (map plies_of ts)"

abbreviation plies :: "slot list \<Rightarrow> nat list" where
  "plies ts \<equiv> concat (map plies_of ts)"

definition non_empties :: "slot list \<Rightarrow> nat" where
  "non_empties ts = length (filter (\<lambda>t. leaf_of t \<noteq> IP4_FIB_MTRIE_LEAF_EMPTY) ts)"

definition ply_of :: "slot list \<Rightarrow> ip4_fib_mtrie_ply_t" where
  "ply_of ts = \<lparr>leaves = map leaf_of ts, dst_address_bits_of_leaves = map bits_of ts,
     n_non_empty_leafs = int (non_empties ts)\<rparr>"

fun slot_ok :: "(nat \<Rightarrow> ip4_fib_mtrie_ply_t option) \<Rightarrow> nat \<Rightarrow> slot \<Rightarrow> bool" where
  "slot_ok e r (Term l b) \<longleftrightarrow> odd l \<and> (l = IP4_FIB_MTRIE_LEAF_EMPTY \<longrightarrow> b = 0)"
| "slot_ok e r (Sub q ts) \<longleftrightarrow> 0 < r \<and> 0 < q \<and> q < 2 ^ 31 \<and> e q = Some (ply_of ts) \<and> length ts = 256
     \<and> (\<forall>t\<in>set ts. slot_ok e (r - 1) t)"

definition ply_ok :: "(nat \<Rightarrow> ip4_fib_mtrie_ply_t option) \<Rightarrow> nat \<Rightarrow> nat \<Rightarrow> slot list \<Rightarrow> bool" where
  "ply_ok e r q ts \<longleftrightarrow> e q = Some (ply_of ts) \<and> length ts = 256 \<and> (\<forall>t\<in>set ts. slot_ok e r t)"

lemma slot_ok_Sub: "slot_ok e r (Sub q ts) \<longleftrightarrow> 0 < r \<and> 0 < q \<and> q < 2 ^ 31 \<and> ply_ok e (r - 1) q ts"
  by (auto simp: ply_ok_def)

lemma slot_ok_cong: "(\<And>q. q \<in> set (plies_of t) \<Longrightarrow> e' q = e q) \<Longrightarrow> slot_ok e' r t = slot_ok e r t"
proof (induction e r t rule: slot_ok.induct)
  case (2 e r q ts)
  have "slot_ok e' (r - 1) t = slot_ok e (r - 1) t" if "t \<in> set ts" for t
    using "2.IH" [OF that] "2.prems" that by force
  then show ?case using "2.prems" by auto
qed simp

lemma ply_ok_cong: "(\<And>q. q \<in> set (p # plies ts) \<Longrightarrow> e' q = e q) \<Longrightarrow> ply_ok e' r p ts = ply_ok e r p ts"
proof -
  assume a: "\<And>q. q \<in> set (p # plies ts) \<Longrightarrow> e' q = e q"
  then have "slot_ok e' r t = slot_ok e r t" if "t \<in> set ts" for t
    by (rule slot_ok_cong) (use that in auto)
  then show ?thesis using a [of p] by (simp add: ply_ok_def)
qed

lemma leaf_of_Sub_ok:
  assumes "slot_ok e r (Sub q ts)"
  shows "even (leaf_of (Sub q ts))" and "drop_bit (Suc 0) (leaf_of (Sub q ts)) = word_of_nat q"
    and "unat (word_of_nat q :: u32) = q" and "leaf_of (Sub q ts) \<noteq> 1"
proof -
  show u: "unat (word_of_nat q :: u32) = q" using assms by (simp add: unat_of_nat)
  then show "drop_bit (Suc 0) (leaf_of (Sub q ts)) = word_of_nat q" using assms by (simp add: drop_double)
  show "even (leaf_of (Sub q ts))" by simp
  then show "leaf_of (Sub q ts) \<noteq> 1" by (metis odd_one)
qed

lemma leaf_at_ply_of [simp]:
  "leaf_at (ply_of (us @ t # vs)) (length us) = Some (leaf_of t, bits_of t)"
  by (simp add: leaf_at_def ply_of_def nth_append)

lemma non_empties_simps [simp]:
  "non_empties [] = 0"
  "non_empties (t # ts) = (if leaf_of t = IP4_FIB_MTRIE_LEAF_EMPTY then non_empties ts else Suc (non_empties ts))"
  "non_empties (us @ ts) = non_empties us + non_empties ts"
  by (simp_all add: non_empties_def)

lemma non_empties_le: "non_empties ts \<le> length ts"
  by (simp add: non_empties_def)

lemma non_empties_0: "non_empties ts = 0 \<longleftrightarrow> (\<forall>t\<in>set ts. leaf_of t = IP4_FIB_MTRIE_LEAF_EMPTY)"
  by (induction ts) auto

lemma n_non_empty_ply_of [simp]: "n_non_empty_leafs (ply_of ts) = int (non_empties ts)"
  by (simp add: ply_of_def)

lemma leaf_put_ply_of:
  "leaf_of t' = l \<Longrightarrow> bits_of t' = b \<Longrightarrow> n = int (non_empties (us @ t' # vs)) \<Longrightarrow>
   leaf_put (ply_of (us @ t # vs)) (length us) l b n = ply_of (us @ t' # vs)"
  by (auto simp: leaf_put_def ply_of_def list_update_append)

lemma ply_of_same: "leaf_of t' = leaf_of t \<Longrightarrow> bits_of t' = bits_of t \<Longrightarrow> ply_of (us @ t' # vs) = ply_of (us @ t # vs)"
  by (simp add: ply_of_def)

text \<open>What a walk through the plies ends at: the leaf and its prefix length.\<close>

fun walk :: "slot \<Rightarrow> u8 list \<Rightarrow> ip4_fib_mtrie_leaf_t \<times> u8" where
  "walk (Term l b) xs = (l, b)"
| "walk (Sub q ts) (x # xs) = walk (ts ! unat x) xs"
| "walk (Sub q ts) [] = (0, 0)"

section \<open>Changes to the pool\<close>

lemma ply_at_put [simp]: "ply_at m i \<noteq> None \<Longrightarrow> ply_at (ply_put m i p) = (ply_at m)(i \<mapsto> p)"
proof -
  assume "ply_at m i \<noteq> None"
  then have "i \<in> pool_live (ply_pool m)" by (simp add: ply_at_def pool_elt_live split: if_splits)
  then show ?thesis by (auto simp: ply_at_def ply_put_def)
qed

lemma ply_put_fields [simp]:
  "default_leaf (ply_put m i p) = default_leaf m" "pool_ok (ply_pool (ply_put m i p)) = pool_ok (ply_pool m)"
  "pool_live (ply_pool (ply_put m i p)) = pool_live (ply_pool m)"
  "length (pool_vec (ply_pool (ply_put m i p))) = length (pool_vec (ply_pool m))"
  by (simp_all add: ply_put_def)

lemma next_ply_Sub:
  assumes "slot_ok (ply_at m) r (Sub q ts)"
  shows "get_next_ply_for_leaf m (leaf_of (Sub q ts)) = Some q"
proof -
  have "word_of_nat q \<noteq> (0 :: u32)" using assms leaf_of_Sub_ok(3) [OF assms] by force
  then show ?thesis
    using assms leaf_of_Sub_ok [OF assms]
    by (simp add: get_next_ply_for_leaf_def ip4_fib_mtrie_leaf_get_next_ply_index_def del: leaf_of.simps)
qed

definition same_pool :: "ip4_fib_mtrie_t \<Rightarrow> ip4_fib_mtrie_t \<Rightarrow> nat set \<Rightarrow> bool" where
  "same_pool m m' S \<longleftrightarrow> default_leaf m' = default_leaf m \<and> pool_ok (ply_pool m') = pool_ok (ply_pool m)
     \<and> pool_live (ply_pool m') = pool_live (ply_pool m)
     \<and> length (pool_vec (ply_pool m')) = length (pool_vec (ply_pool m))
     \<and> (\<forall>q. q \<notin> S \<longrightarrow> ply_at m' q = ply_at m q)"

lemma same_pool_refl [simp]: "same_pool m m S"
  by (simp add: same_pool_def)

lemma same_pool_trans: "same_pool m m' S \<Longrightarrow> same_pool m' m'' S \<Longrightarrow> same_pool m m'' S"
  by (simp add: same_pool_def)

lemma same_pool_mono: "same_pool m m' S \<Longrightarrow> S \<subseteq> T \<Longrightarrow> same_pool m m' T"
  by (auto simp: same_pool_def)

lemma same_pool_put: "ply_at m p \<noteq> None \<Longrightarrow> p \<in> S \<Longrightarrow> same_pool m (ply_put m p x) S"
  by (auto simp: same_pool_def)

text \<open>A ply stays well formed when one slot changes and the plies below the others do not.\<close>

lemma ply_ok_upd:
  assumes "ply_ok e r p (us @ t # vs)" and "e' p = Some (ply_of (us @ t' # vs))" and "slot_ok e' r t'"
    and "\<And>q. q \<in> set (plies us) \<union> set (plies vs) \<Longrightarrow> e' q = e q"
  shows "ply_ok e' r p (us @ t' # vs)"
proof -
  have "slot_ok e' r s" if "s \<in> set us \<union> set vs" for s
  proof -
    have "slot_ok e' r s = slot_ok e r s" by (rule slot_ok_cong, rule assms(4)) (use that in auto)
    then show ?thesis using assms(1) that by (auto simp: ply_ok_def)
  qed
  then show ?thesis using assms(1-3) by (auto simp: ply_ok_def)
qed

section \<open>Filling slots with a less specific leaf\<close>

fun more_specific :: "ip4_fib_mtrie_leaf_t \<Rightarrow> nat \<Rightarrow> ip4_fib_mtrie_leaf_t \<times> u8 \<Rightarrow> ip4_fib_mtrie_leaf_t \<times> u8" where
  "more_specific new len (l, b) = (if unat b \<le> len then (new, word_of_nat len) else (l, b))"

fun fill :: "ip4_fib_mtrie_leaf_t \<Rightarrow> nat \<Rightarrow> slot \<Rightarrow> slot" where
  "fill new len (Term l b) = (if unat b \<le> len then Term new (word_of_nat len) else Term l b)"
| "fill new len (Sub q ts) = Sub q (map (fill new len) ts)"

lemma plies_of_fill [simp]: "plies_of (fill new len t) = plies_of t"
proof (induction t)
  case (Sub q ts)
  then have "map (plies_of \<circ> fill new len) ts = map plies_of ts" by simp
  then show ?case by (simp del: map_eq_conv)
qed simp

lemma plies_fill [simp]: "plies (map (fill new len) ts) = plies ts"
  by (simp add: comp_def)

lemma fill_loop:
  assumes step: "\<And>us t vs m. ply_ok (ply_at m) r p (us @ t # vs) \<Longrightarrow> distinct (p # plies (us @ t # vs)) \<Longrightarrow>
      \<exists>m'. body (length us) m = Some m' \<and> same_pool m m' (set (p # plies (us @ t # vs)))
        \<and> ply_ok (ply_at m') r p (us @ fill new len t # vs)"
    and "ply_ok (ply_at m) r p (us @ ts @ vs)" and "distinct (p # plies (us @ ts @ vs))"
  shows "\<exists>m'. for_range (length us) (length us + length ts) body m = Some m'
    \<and> same_pool m m' (set (p # plies (us @ ts @ vs))) \<and> ply_ok (ply_at m') r p (us @ map (fill new len) ts @ vs)"
  using assms(2,3)
proof (induction ts arbitrary: us m)
  case Nil
  then show ?case by (subst for_range.simps) simp
next
  case (Cons t ts)
  have "ply_ok (ply_at m) r p (us @ t # ts @ vs)" "distinct (p # plies (us @ t # ts @ vs))"
    using Cons.prems by simp_all
  from step [OF this] obtain m1 where m1: "body (length us) m = Some m1"
    "same_pool m m1 (set (p # plies (us @ t # ts @ vs)))" "ply_ok (ply_at m1) r p (us @ fill new len t # ts @ vs)"
    by blast
  have "ply_ok (ply_at m1) r p ((us @ [fill new len t]) @ ts @ vs)" using m1(3) by simp
  moreover have "distinct (p # plies ((us @ [fill new len t]) @ ts @ vs))" using Cons.prems(2) by simp
  ultimately obtain m2 where m2: "for_range (length (us @ [fill new len t])) (length (us @ [fill new len t]) + length ts) body m1 = Some m2"
    "same_pool m1 m2 (set (p # plies ((us @ [fill new len t]) @ ts @ vs)))"
    "ply_ok (ply_at m2) r p ((us @ [fill new len t]) @ map (fill new len) ts @ vs)"
    using Cons.IH by blast
  have "for_range (length us) (length us + length (t # ts)) body m = Some m2"
    using m1(1) m2(1) by (subst for_range.simps) simp
  moreover have "same_pool m m2 (set (p # plies (us @ (t # ts) @ vs)))"
    using same_pool_trans [OF m1(2)] m2(2) by simp
  ultimately show ?case using m2(3) by auto
qed

lemma fill_term:
  assumes ok: "ply_ok (ply_at m) r p (us @ Term l b # vs)" and d: "distinct (p # plies (us @ Term l b # vs))"
    and new: "odd new" "new \<noteq> IP4_FIB_MTRIE_LEAF_EMPTY" and b: "unat b \<le> len"
    and n: "n = int (non_empties (us @ Term l b # vs)) + (if l = IP4_FIB_MTRIE_LEAF_EMPTY then 1 else 0)"
    and m': "m' = ply_put m p (leaf_put (ply_of (us @ Term l b # vs)) (length us) new (word_of_nat len) n)"
  shows "same_pool m m' (set (p # plies (us @ Term l b # vs)))
    \<and> ply_ok (ply_at m') r p (us @ fill new len (Term l b) # vs)"
proof
  let ?t' = "Term new (word_of_nat len)"
  have at: "ply_at m p = Some (ply_of (us @ Term l b # vs))" using ok by (simp add: ply_ok_def)
  have "n = int (non_empties (us @ ?t' # vs))" using n new by simp
  then have l: "leaf_put (ply_of (us @ Term l b # vs)) (length us) new (word_of_nat len) n = ply_of (us @ ?t' # vs)"
    by (intro leaf_put_ply_of) simp_all
  show "same_pool m m' (set (p # plies (us @ Term l b # vs)))" using at by (simp add: m' same_pool_put)
  have "ply_ok (ply_at m') r p (us @ ?t' # vs)"
    by (rule ply_ok_upd [OF ok]) (use at l d new in \<open>auto simp: m'\<close>)
  then show "ply_ok (ply_at m') r p (us @ fill new len (Term l b) # vs)" using b by simp
qed

lemma fill_sub:
  assumes ok: "ply_ok (ply_at m) r p (us @ Sub q ts # vs)" and d: "distinct (p # plies (us @ Sub q ts # vs))"
    and s: "same_pool m m' (set (q # plies ts))" and ok': "ply_ok (ply_at m') (r - 1) q (map (fill new len) ts)"
  shows "same_pool m m' (set (p # plies (us @ Sub q ts # vs)))
    \<and> ply_ok (ply_at m') r p (us @ fill new len (Sub q ts) # vs)"
proof
  show "same_pool m m' (set (p # plies (us @ Sub q ts # vs)))" by (rule same_pool_mono [OF s]) auto
  have e: "ply_at m' x = ply_at m x" if "x \<notin> set (q # plies ts)" for x using s that by (simp add: same_pool_def)
  have q: "slot_ok (ply_at m) r (Sub q ts)" using ok by (auto simp: ply_ok_def)
  have "p \<notin> set (q # plies ts)" using d by auto
  then have "ply_at m' p = ply_at m p" by (rule e)
  then have p: "ply_at m' p = Some (ply_of (us @ fill new len (Sub q ts) # vs))"
    using ok by (simp add: ply_ok_def ply_of_same [of "Sub q (map (fill new len) ts)" "Sub q ts"])
  show "ply_ok (ply_at m') r p (us @ fill new len (Sub q ts) # vs)"
  proof (rule ply_ok_upd [where e' = "ply_at m'", OF ok p])
    show "slot_ok (ply_at m') r (fill new len (Sub q ts))" using q ok' by (simp add: slot_ok_Sub del: slot_ok.simps)
    show "ply_at m' x = ply_at m x" if "x \<in> set (plies us) \<union> set (plies vs)" for x
      by (rule e) (use d that in auto)
  qed
qed

lemma set_ply_fill:
  assumes "odd new" and "new \<noteq> IP4_FIB_MTRIE_LEAF_EMPTY"
    and "ply_ok (ply_at m) r p ts" and "distinct (p # plies ts)"
  shows "\<exists>m'. set_ply_with_more_specific_leaf m p new len = Some m' \<and> same_pool m m' (set (p # plies ts))
    \<and> ply_ok (ply_at m') r p (map (fill new len) ts)"
  using assms(3,4)
proof (induction r arbitrary: m p ts rule: less_induct)
  case (less r)
  let ?body = "\<lambda>i m. do {
       ply \<leftarrow> ply_at m p;
       (old_leaf, bits) \<leftarrow> leaf_at ply i;
       if \<not> ip4_fib_mtrie_leaf_is_terminal old_leaf
       then do {
         sub_ply \<leftarrow> get_next_ply_for_leaf m old_leaf;
         set_ply_with_more_specific_leaf m sub_ply new len}
       else if unat bits \<le> len
       then Some (ply_put m p (leaf_put ply i new (word_of_nat len)
         (n_non_empty_leafs ply + (if ip4_fib_mtrie_leaf_is_empty old_leaf then 1 else 0))))
       else Some m}"
  have step: "\<exists>m'. ?body (length us) m = Some m' \<and> same_pool m m' (set (p # plies (us @ t # vs)))
      \<and> ply_ok (ply_at m') r p (us @ fill new len t # vs)"
    if ok: "ply_ok (ply_at m) r p (us @ t # vs)" and d: "distinct (p # plies (us @ t # vs))" for us t vs m
  proof -
    have at: "ply_at m p = Some (ply_of (us @ t # vs))" using ok by (simp add: ply_ok_def)
    have t: "slot_ok (ply_at m) r t" using ok by (simp add: ply_ok_def)
    show ?thesis
    proof (cases t)
      case (Term l b)
      show ?thesis
      proof (cases "unat b \<le> len")
        case True
        from fill_term [OF ok [unfolded Term] d [unfolded Term] assms(1,2) True refl refl]
        show ?thesis using at t True Term by (auto simp: ip4_fib_mtrie_leaf_is_empty_def)
      next
        case False
        then show ?thesis using at t ok Term by auto
      qed
    next
      case (Sub q ts')
      have q: "slot_ok (ply_at m) r (Sub q ts')" using t Sub by simp
      then have "r - 1 < r" "ply_ok (ply_at m) (r - 1) q ts'" by (simp_all add: slot_ok_Sub del: slot_ok.simps)
      moreover have "distinct (q # plies ts')" using d Sub by simp
      ultimately obtain m' where m': "set_ply_with_more_specific_leaf m q new len = Some m'"
        "same_pool m m' (set (q # plies ts'))" "ply_ok (ply_at m') (r - 1) q (map (fill new len) ts')"
        using less.IH by blast
      from fill_sub [OF ok [unfolded Sub] d [unfolded Sub] m'(2,3)]
      show ?thesis using at Sub m'(1) next_ply_Sub [OF q] leaf_of_Sub_ok(1) [OF q] by (simp del: leaf_of.simps)
    qed
  qed
  have l: "length ts = 256" using less.prems(1) by (simp add: ply_ok_def)
  have "\<exists>m'. for_range (length ([] :: slot list)) (length ([] :: slot list) + length ts) ?body m = Some m'
      \<and> same_pool m m' (set (p # plies ([] @ ts @ []))) \<and> ply_ok (ply_at m') r p ([] @ map (fill new len) ts @ [])"
    by (rule fill_loop [OF step]) (use less.prems in simp_all)
  then show ?case using assms(1,2) l
    by (subst set_ply_with_more_specific_leaf.simps) (simp add: ip4_fib_mtrie_leaf_is_empty_def)
qed

lemma walk_fill:
  "slot_ok e r t \<Longrightarrow> r \<le> length xs \<Longrightarrow> walk (fill new len t) xs = more_specific new len (walk t xs)"
proof (induction t xs arbitrary: r rule: walk.induct)
  case (2 q ts x xs)
  have "unat x < 256" by (rule unat_u8_lt)
  then have "ts ! unat x \<in> set ts" "unat x < length ts" using "2.prems" by auto
  then show ?case using "2.prems" "2.IH" [of "r - 1"] by auto
qed auto

section \<open>Prefixes\<close>

text \<open>The masks of \<open>ip4_lookup_init\<close>, for addresses in network order.\<close>

definition fib_masks :: "nat \<Rightarrow> u32" where
  "fib_masks i = (if i < 32 then ucast (push_bit (32 - i) (low_mask i)) else - 1)"

lemma bit_low_mask: "x < 64 \<Longrightarrow> bit (low_mask x) j \<longleftrightarrow> j < x"
proof -
  assume "x < 64"
  have "low_mask x = mask x" by (simp add: low_mask_def mask_eq_decr_exp push_bit_eq_mult)
  then show ?thesis using \<open>x < 64\<close> by (auto simp: bit_mask_iff)
qed

lemma bit_fib_masks: "bit (fib_masks n) j \<longleftrightarrow> j < 32 \<and> 32 - n \<le> j"
proof (cases "n < 32")
  case True
  then show ?thesis by (auto simp: fib_masks_def bit_unsigned_iff bit_push_bit_iff bit_low_mask dest: bit_imp_le_length)
qed (auto simp: fib_masks_def bit_1_iff bit_minus_1_iff)

text \<open>An address without bits outside its prefix.\<close>

definition is_prefix :: "ip4_address_t \<Rightarrow> nat \<Rightarrow> bool" where
  "is_prefix a len \<longleftrightarrow> a AND fib_masks len = a"

lemma is_prefix_bit: "is_prefix a len \<Longrightarrow> bit a j \<Longrightarrow> 32 - len \<le> j"
  by (metis is_prefix_def bit_and_iff bit_fib_masks)

lemma is_prefix_and [simp]: "is_prefix (a AND fib_masks len) len"
  by (simp add: is_prefix_def and.assoc)

lemma masks_eq_iff: "x AND fib_masks len = a AND fib_masks len \<longleftrightarrow> (\<forall>j. 32 - len \<le> j \<longrightarrow> j < 32 \<longrightarrow> bit a j = bit x j)"
  by (auto simp: bit_eq_iff bit_and_iff bit_fib_masks)

lemma bit_as_u8: "i < 4 \<Longrightarrow> bit (as_u8 a i) j \<longleftrightarrow> j < 8 \<and> bit a (24 - 8 * i + j)"
  by (simp add: as_u8_def bit_unsigned_iff bit_drop_bit_eq)

fun pmatch :: "nat \<Rightarrow> u8 list \<Rightarrow> u8 list \<Rightarrow> bool" where
  "pmatch n (a # as) (x # xs) \<longleftrightarrow>
    (if 8 < n then a = x \<and> pmatch (n - 8) as xs else drop_bit (8 - n) a = drop_bit (8 - n) x)"
| "pmatch n _ _ \<longleftrightarrow> True"

definition addr_bytes :: "ip4_address_t \<Rightarrow> nat \<Rightarrow> u8 list" where
  "addr_bytes a r = map (as_u8 a) [3 - r..<4]"

lemma addr_bytes_simps [simp]:
  "addr_bytes a 0 = [as_u8 a 3]"
  "r < 3 \<Longrightarrow> addr_bytes a (Suc r) = as_u8 a (2 - r) # addr_bytes a r"
proof -
  show "addr_bytes a 0 = [as_u8 a 3]" by (simp add: addr_bytes_def upt_rec [of 3 4])
  show "r < 3 \<Longrightarrow> addr_bytes a (Suc r) = as_u8 a (2 - r) # addr_bytes a r"
  proof -
    assume "r < 3"
    then have "3 - r = Suc (2 - r)" "2 - r < 4" by auto
    then show ?thesis by (simp add: addr_bytes_def upt_rec [of "2 - r" 4])
  qed
qed

lemma length_addr_bytes [simp]: "r \<le> 3 \<Longrightarrow> length (addr_bytes a r) = Suc r"
  by (simp add: addr_bytes_def)

lemma all_range_shift: "(\<forall>j. lo \<le> j \<longrightarrow> j < hi \<longrightarrow> P (k + j)) \<longleftrightarrow> (\<forall>j. k + lo \<le> j \<longrightarrow> j < k + hi \<longrightarrow> P (j :: nat))"
proof
  assume l: "\<forall>j. lo \<le> j \<longrightarrow> j < hi \<longrightarrow> P (k + j)"
  show "\<forall>j. k + lo \<le> j \<longrightarrow> j < k + hi \<longrightarrow> P j"
  proof (intro allI impI)
    fix j assume "k + lo \<le> j" "j < k + hi"
    then have "lo \<le> j - k" "j - k < hi" "k + (j - k) = j" by auto
    then show "P j" using l by metis
  qed
qed auto

lemma all_range_split:
  "lo \<le> mid \<Longrightarrow> mid \<le> hi \<Longrightarrow> (\<forall>j. lo \<le> j \<longrightarrow> j < hi \<longrightarrow> P j) \<longleftrightarrow>
   (\<forall>j. mid \<le> j \<longrightarrow> j < hi \<longrightarrow> P j) \<and> (\<forall>j. lo \<le> j \<longrightarrow> j < mid \<longrightarrow> P (j :: nat))"
  by (meson less_le_trans not_less order_trans)

lemma drop_bit_u8_eq:
  "drop_bit k (a :: u8) = drop_bit k x \<longleftrightarrow> (\<forall>j. k \<le> j \<longrightarrow> j < 8 \<longrightarrow> bit a j = bit x j)"
proof -
  have "drop_bit k a = drop_bit k x \<longleftrightarrow> (\<forall>j. bit a (k + j) = bit x (k + j))"
    using bit_imp_le_length [of a] bit_imp_le_length [of x] by (auto simp: bit_eq_iff bit_drop_bit_eq) fastforce+
  also have "\<dots> \<longleftrightarrow> (\<forall>j. k \<le> j \<longrightarrow> bit a j = bit x j)"
    by (metis le_Suc_ex le_add1)
  also have "\<dots> \<longleftrightarrow> (\<forall>j. k \<le> j \<longrightarrow> j < 8 \<longrightarrow> bit a j = bit x j)"
    using bit_imp_le_length [of a] bit_imp_le_length [of x] by auto
  finally show ?thesis .
qed

lemma pmatch_bytes:
  "r \<le> 3 \<Longrightarrow> n \<le> 8 * Suc r \<Longrightarrow> pmatch n (addr_bytes a r) (addr_bytes x r) \<longleftrightarrow>
   (\<forall>j. 8 * Suc r - n \<le> j \<longrightarrow> j < 8 * Suc r \<longrightarrow> bit a j = bit x j)"
proof (induction r arbitrary: n)
  case 0
  then show ?case by (simp add: drop_bit_u8_eq bit_as_u8)
next
  case (Suc r)
  have s: "bit (as_u8 y (2 - r)) j \<longleftrightarrow> j < 8 \<and> bit y (8 * Suc r + j)" for y j
  proof -
    have "24 - 8 * (2 - r) = 8 * Suc r" using Suc.prems(1) by (simp add: algebra_simps)
    then show ?thesis using bit_as_u8 [of "2 - r" y j] by simp
  qed
  have b: "drop_bit k (as_u8 a (2 - r)) = drop_bit k (as_u8 x (2 - r)) \<longleftrightarrow>
      (\<forall>j. 8 * Suc r + k \<le> j \<longrightarrow> j < 8 * Suc r + 8 \<longrightarrow> bit a j = bit x j)" for k
    unfolding all_range_shift [of k 8 "\<lambda>j. bit a j = bit x j" "8 * Suc r", symmetric] by (simp add: drop_bit_u8_eq s)
  show ?case
  proof (cases "8 < n")
    case True
    have "pmatch (n - 8) (addr_bytes a r) (addr_bytes x r)
        \<longleftrightarrow> (\<forall>j. 8 * Suc (Suc r) - n \<le> j \<longrightarrow> j < 8 * Suc r \<longrightarrow> bit a j = bit x j)"
      using Suc.IH [of "n - 8"] Suc.prems True by (simp add: algebra_simps)
    then show ?thesis
      using True Suc.prems b [of 0] all_range_split [of "8 * Suc (Suc r) - n" "8 * Suc r" "8 * Suc (Suc r)" "\<lambda>j. bit a j = bit x j"]
      by (simp add: algebra_simps)
  next
    case False
    then show ?thesis using Suc.prems b [of "8 - n"] by (simp add: algebra_simps)
  qed
qed

text \<open>Byte-wise matching along the plies is equality under the mask.\<close>

lemma pmatch_masks: "len \<le> 32 \<Longrightarrow> pmatch len (addr_bytes a 3) (addr_bytes x 3) \<longleftrightarrow> x AND fib_masks len = a AND fib_masks len"
  by (simp add: pmatch_bytes masks_eq_iff del: addr_bytes_simps)

section \<open>Growing and shrinking\<close>

text \<open>
  The plies \<open>S\<close> become the plies \<open>S'\<close>, at most \<open>k\<close> elements are appended to the pool, and
  everything else stays.
\<close>

definition pool_change :: "ip4_fib_mtrie_t \<Rightarrow> ip4_fib_mtrie_t \<Rightarrow> nat set \<Rightarrow> nat set \<Rightarrow> nat \<Rightarrow> bool" where
  "pool_change m m' S S' k \<longleftrightarrow> default_leaf m' = default_leaf m \<and> pool_ok (ply_pool m')
     \<and> pool_live (ply_pool m') = (pool_live (ply_pool m) - S) \<union> S' \<and> S' \<inter> (pool_live (ply_pool m) - S) = {}
     \<and> length (pool_vec (ply_pool m')) \<le> length (pool_vec (ply_pool m)) + k
     \<and> (\<forall>q\<in>pool_live (ply_pool m) - S. ply_at m' q = ply_at m q)"

lemma ply_at_live: "ply_at m q = Some p \<Longrightarrow> q \<in> pool_live (ply_pool m)"
  by (simp add: ply_at_def pool_elt_live split: if_splits)

lemma plies_live: "slot_ok (ply_at m) r t \<Longrightarrow> set (plies_of t) \<subseteq> pool_live (ply_pool m)"
proof (induction "ply_at m" r t rule: slot_ok.induct)
  case (2 r q ts)
  then show ?case using ply_at_live by auto
qed simp

lemma ply_ok_live: "ply_ok (ply_at m) r p ts \<Longrightarrow> set (p # plies ts) \<subseteq> pool_live (ply_pool m)"
  using plies_live ply_at_live by (fastforce simp: ply_ok_def)

lemma same_pool_change:
  "same_pool m m' S \<Longrightarrow> pool_ok (ply_pool m) \<Longrightarrow> S \<subseteq> pool_live (ply_pool m) \<Longrightarrow> pool_change m m' S S k"
  by (auto simp: same_pool_def pool_change_def)

lemma pool_change_mono: "pool_change m m' S S' k \<Longrightarrow> k \<le> k' \<Longrightarrow> pool_change m m' S S' k'"
  by (auto simp: pool_change_def)

lemma pool_change_trans:
  assumes a: "pool_change m m' S S' k" and b: "pool_change m' m'' S' S'' k'"
  shows "pool_change m m'' S S'' (k + k')"
proof -
  have l: "pool_live (ply_pool m') - S' = pool_live (ply_pool m) - S" using a by (auto simp: pool_change_def)
  have "ply_at m'' q = ply_at m q" if "q \<in> pool_live (ply_pool m) - S" for q
    using a b that l by (metis pool_change_def)
  then show ?thesis using a b l by (auto simp: pool_change_def)
qed

lemma pool_change_widen:
  assumes c: "pool_change m m' S S' k" and R: "R \<subseteq> pool_live (ply_pool m) - S"
  shows "pool_change m m' (R \<union> S) (R \<union> S') k"
proof -
  have "pool_live (ply_pool m) - (R \<union> S) \<subseteq> pool_live (ply_pool m) - S" by blast
  then show ?thesis using c R unfolding pool_change_def by blast
qed

text \<open>A change below one slot is a change of the ply above it.\<close>

lemma change_below:
  assumes ok: "ply_ok (ply_at m) r p (us @ Sub q ts # vs)" and d: "distinct (p # plies (us @ Sub q ts # vs))"
    and c: "pool_change m m' (set (q # plies ts)) (set (q # plies ts')) k"
    and ok': "ply_ok (ply_at m') (r - 1) q ts'" and d': "distinct (q # plies ts')"
  shows "pool_change m m' (set (p # plies (us @ Sub q ts # vs))) (set (p # plies (us @ Sub q ts' # vs))) k
    \<and> ply_ok (ply_at m') r p (us @ Sub q ts' # vs) \<and> distinct (p # plies (us @ Sub q ts' # vs))"
proof -
  let ?R = "insert p (set (plies us) \<union> set (plies vs))"
  have live: "set (p # plies (us @ Sub q ts # vs)) \<subseteq> pool_live (ply_pool m)" by (rule ply_ok_live [OF ok])
  have R: "?R \<subseteq> pool_live (ply_pool m) - set (q # plies ts)"
    using live d by auto
  then have e: "ply_at m' x = ply_at m x" if "x \<in> ?R" for x
    using c that by (auto simp: pool_change_def)
  have q: "slot_ok (ply_at m) r (Sub q ts)" using ok by (auto simp: ply_ok_def)
  have p: "ply_at m' p = Some (ply_of (us @ Sub q ts' # vs))"
    using ok e by (simp add: ply_ok_def ply_of_same [of "Sub q ts'" "Sub q ts"])
  have "ply_ok (ply_at m') r p (us @ Sub q ts' # vs)"
  proof (rule ply_ok_upd [where e' = "ply_at m'", OF ok p])
    show "slot_ok (ply_at m') r (Sub q ts')" using q ok' by (simp add: slot_ok_Sub del: slot_ok.simps)
  qed (use e in simp)
  moreover have n: "set (q # plies ts') \<inter> ?R = {}" using c R unfolding pool_change_def by blast
  then have "distinct (p # plies (us @ Sub q ts' # vs))" using d d' by auto
  moreover have "pool_change m m' (set (p # plies (us @ Sub q ts # vs))) (set (p # plies (us @ Sub q ts' # vs))) k"
  proof -
    have "set (p # plies (us @ Sub q x # vs)) = ?R \<union> set (q # plies x)" for x by auto
    then show ?thesis using pool_change_widen [OF c R] by simp
  qed
  ultimately show ?thesis by blast
qed

lemma ply_create_ok:
  assumes "pool_ok (ply_pool m)" and "length (pool_vec (ply_pool m)) < 2 ^ 31"
  obtains m' q where "ply_create m l b = Some (m', 2 * word_of_nat q)" and "q < 2 ^ 31"
    and "q \<notin> pool_live (ply_pool m)" and "pool_change m m' {} {q} 1" and "ply_at m' q = Some (ply_init l b)"
proof -
  obtain pool q where g: "pool_get (ply_init l b) (ply_pool m) = (pool, q)" by fastforce
  note gl = pool_get_ok_live [OF assms(1) g]
  have len: "length (pool_vec pool) \<le> length (pool_vec (ply_pool m)) + 1"
    using assms(1) g by (rule pool_get_cases) auto
  have q: "q < 2 ^ 31"
    using assms(1) g
  proof (rule pool_get_cases)
    assume "q \<in> bits (free_bitmap (ply_pool m))"
    then show ?thesis using assms by (auto simp: pool_ok_def)
  qed (use assms(2) in simp)
  let ?m = "ply_put (m\<lparr>ply_pool := pool\<rparr>) q (ply_init l b)"
  have u: "unat (word_of_nat q :: u32) = q" using q by (simp add: unat_of_nat)
  then have "ip4_fib_mtrie_leaf_set_next_ply_index (word_of_nat q) = Some (2 * word_of_nat q)"
    using q by (simp add: ip4_fib_mtrie_leaf_set_next_ply_index_def ip4_fib_mtrie_leaf_get_next_ply_index_def)
  then have c: "ply_create m l b = Some (?m, 2 * word_of_nat q)" using q by (simp add: ply_create_def g)
  have at: "ply_at (m\<lparr>ply_pool := pool\<rparr>) q \<noteq> None" using gl by (simp add: ply_at_def pool_elt_live)
  have "ply_at ?m x = ply_at m x" if "x \<in> pool_live (ply_pool m)" for x
    using that gl at pool_get_frame [OF assms(1) g that] by (auto simp: ply_at_def)
  then have "pool_change m ?m {} {q} 1" using gl len by (auto simp: pool_change_def)
  with c q gl at show ?thesis by (intro that [of ?m q]) auto
qed

section \<open>Setting a leaf\<close>

text \<open>A terminal slot is replaced by a new ply that holds its leaf in all slots.\<close>

lemma ply_of_replicate: "ply_init l (unat b) = ply_of (replicate 256 (Term l b))"
proof -
  have "int (non_empties (replicate n (Term l b))) = (if l = 1 then 0 else int n)" for n
    by (induction n) auto
  then show ?thesis by (simp add: ply_init_def ply_of_def ip4_fib_mtrie_leaf_is_empty_def)
qed

lemma split_slot:
  assumes "ply_ok (ply_at m) r p (us @ Term l b # vs)" and "distinct (p # plies (us @ Term l b # vs))"
    and "pool_ok (ply_pool m)" and "length (pool_vec (ply_pool m)) < 2 ^ 31" and "0 \<in> pool_live (ply_pool m)" and "0 < r"
  obtains m' q m'' where "ply_create m l (unat b) = Some (m', 2 * word_of_nat q)"
    and "get_next_ply_for_leaf m' (2 * word_of_nat q) = Some q"
    and "ply_at m' p = Some (ply_of (us @ Term l b # vs))"
    and "m'' = ply_put m' p (leaf_put (ply_of (us @ Term l b # vs)) (length us) (2 * word_of_nat q) 0
       (int (non_empties (us @ Term l b # vs)) - (if l = IP4_FIB_MTRIE_LEAF_EMPTY then 0 else 1) + 1))"
    and "pool_change m m'' (set (p # plies (us @ Term l b # vs)))
       (set (p # plies (us @ Sub q (replicate 256 (Term l b)) # vs))) 1"
    and "ply_ok (ply_at m'') r p (us @ Sub q (replicate 256 (Term l b)) # vs)"
    and "distinct (p # plies (us @ Sub q (replicate 256 (Term l b)) # vs))"
proof -
  let ?ts = "replicate 256 (Term l b)"
  obtain m' q where c: "ply_create m l (unat b) = Some (m', 2 * word_of_nat q)" "q < 2 ^ 31"
    "q \<notin> pool_live (ply_pool m)" "pool_change m m' {} {q} 1" "ply_at m' q = Some (ply_init l (unat b))"
    using ply_create_ok [OF assms(3,4)] by blast
  have q0: "0 < q" using c(3) assms(5) by (cases q) auto
  have live: "set (p # plies (us @ Term l b # vs)) \<subseteq> pool_live (ply_pool m)" by (rule ply_ok_live [OF assms(1)])
  have e: "ply_at m' x = ply_at m x" if "x \<in> pool_live (ply_pool m)" for x using c(4) that by (auto simp: pool_change_def)
  have p: "ply_at m' p = Some (ply_of (us @ Term l b # vs))" using assms(1) e live by (auto simp: ply_ok_def)
  have t: "odd l" "l = 1 \<longrightarrow> b = 0" using assms(1) by (auto simp: ply_ok_def)
  have pq: "p \<noteq> q" using live c(3) by auto
  let ?n = "int (non_empties (us @ Term l b # vs)) - (if l = 1 then 0 else 1) + 1"
  let ?m = "ply_put m' p (leaf_put (ply_of (us @ Term l b # vs)) (length us) (2 * word_of_nat q) 0 ?n)"
  have "slot_ok ((ply_at m)(q \<mapsto> ply_of ?ts)) (Suc 0) (Sub q ?ts)" using c(2) q0 t by simp
  note l2 = leaf_of_Sub_ok(4) [OF this]
  have "leaf_put (ply_of (us @ Term l b # vs)) (length us) (2 * word_of_nat q) 0 ?n = ply_of (us @ Sub q ?ts # vs)"
    by (rule leaf_put_ply_of) (use l2 in auto)
  then have at: "ply_at ?m = (ply_at m')(p \<mapsto> ply_of (us @ Sub q ?ts # vs))" using p by simp
  have sq: "slot_ok (ply_at ?m) r (Sub q ?ts)" using at pq c(2,5) q0 t assms(6) by (simp add: ply_of_replicate)
  have "slot_ok (ply_at m') r (Sub q ?ts)" using c(2,5) q0 t assms(6) by (simp add: ply_of_replicate)
  from next_ply_Sub [OF this] have nx: "get_next_ply_for_leaf m' (2 * word_of_nat q) = Some q" by simp
  have ok: "ply_ok (ply_at ?m) r p (us @ Sub q ?ts # vs)"
  proof (rule ply_ok_upd [where e' = "ply_at ?m", OF assms(1) _ sq])
    show "ply_at ?m p = Some (ply_of (us @ Sub q ?ts # vs))" using at by simp
    show "ply_at ?m x = ply_at m x" if "x \<in> set (plies us) \<union> set (plies vs)" for x
      unfolding at using that assms(2) e live by auto
  qed
  have pt: "plies ?ts = []" by simp
  have d: "distinct (p # plies (us @ Sub q ?ts # vs))"
    using assms(2) live c(3) pq pt by auto
  have "pool_change m' ?m (set (p # plies (us @ Sub q ?ts # vs))) (set (p # plies (us @ Sub q ?ts # vs))) 0"
  proof (rule same_pool_change)
    show "same_pool m' ?m (set (p # plies (us @ Sub q ?ts # vs)))" using p by (simp add: same_pool_put)
    show "pool_ok (ply_pool m')" using c(4) by (simp add: pool_change_def)
    show "set (p # plies (us @ Sub q ?ts # vs)) \<subseteq> pool_live (ply_pool m')"
      using ply_ok_live [OF ok] by simp
  qed
  moreover have "pool_change m m' (set (p # plies (us @ Term l b # vs))) (set (p # plies (us @ Sub q ?ts # vs))) 1"
    using c(3,4) live pt by (auto simp: pool_change_def)
  ultimately have "pool_change m ?m (set (p # plies (us @ Term l b # vs))) (set (p # plies (us @ Sub q ?ts # vs))) 1"
    using pool_change_trans [of m m' _ _ 1 ?m _ 0] by simp
  with c(1) nx p ok d show ?thesis by (intro that [of m' q ?m]) auto
qed

lemma div_range: "0 < (d :: nat) \<Longrightarrow> d dvd B \<Longrightarrow> B div d = X div d \<longleftrightarrow> B \<le> X \<and> X < B + d"
proof -
  assume d: "0 < d" "d dvd B"
  then obtain k where B: "B = d * k" by blast
  then have "B div d = k" using d by simp
  moreover have "k = X div d \<longleftrightarrow> d * k \<le> X \<and> X < d * Suc k"
    using d(1) by (metis div_nat_eqI div_times_less_eq_dividend dividend_less_times_div mult.commute mult_Suc_right add.commute)
  ultimately show ?thesis by (simp add: B add.commute)
qed

lemma low_bits_dvd: "(\<And>j. j < k \<Longrightarrow> \<not> bit (b :: u8) j) \<Longrightarrow> 2 ^ k dvd unat b"
proof -
  assume a: "\<And>j. j < k \<Longrightarrow> \<not> bit b j"
  have "take_bit k (unat b) = 0" by (rule bit_eqI) (use a in \<open>auto simp: bit_take_bit_iff bit_unsigned_iff\<close>)
  then show ?thesis by (simp add: take_bit_eq_mod dvd_eq_mod_eq_0)
qed

lemma drop_bit_range:
  assumes "\<And>j. j < k \<Longrightarrow> \<not> bit (b :: u8) j"
  shows "drop_bit k b = drop_bit k x \<longleftrightarrow> unat b \<le> unat x \<and> unat x < unat b + 2 ^ k"
proof -
  have "2 ^ k dvd unat b" by (rule low_bits_dvd [OF assms])
  then have "unat b div 2 ^ k = unat x div 2 ^ k \<longleftrightarrow> unat b \<le> unat x \<and> unat x < unat b + 2 ^ k"
    by (intro div_range) simp_all
  then show ?thesis unfolding word_unat_eq_iff unat_drop_bit_eq by (simp only: drop_bit_eq_div)
qed

lemma low_bits_range: "k \<le> 8 \<Longrightarrow> (\<And>j. j < k \<Longrightarrow> \<not> bit (b :: u8) j) \<Longrightarrow> unat b + 2 ^ k \<le> 256"
proof -
  assume k: "k \<le> 8" and "\<And>j. j < k \<Longrightarrow> \<not> bit b j"
  then have d: "2 ^ k dvd unat b" using low_bits_dvd by blast
  then obtain c where c: "unat b = 2 ^ k * c" by blast
  have e: "256 = 2 ^ k * (2 ^ (8 - k) :: nat)" using k by (simp flip: power_add)
  then have "2 ^ k * c < 2 ^ k * (2 ^ (8 - k) :: nat)" using unat_u8_lt [of b] c by simp
  then have "Suc c \<le> 2 ^ (8 - k)" by (simp only: nat_mult_less_cancel_disj) simp
  then have "2 ^ k * Suc c \<le> 2 ^ k * (2 ^ (8 - k) :: nat)" by (rule mult_le_mono2)
  then show ?thesis using c e by simp
qed

lemma and_mask_low:
  "k < 64 \<Longrightarrow> (\<And>j. j < k \<Longrightarrow> \<not> bit (b :: u8) j) \<Longrightarrow> ucast b AND low_mask k = 0"
  by (rule bit_eqI) (auto simp: bit_and_iff bit_unsigned_iff bit_low_mask)

lemma prefix_low_bits:
  "is_prefix a len \<Longrightarrow> i < 4 \<Longrightarrow> len \<le> 8 * Suc i \<Longrightarrow> j < 8 * Suc i - len \<Longrightarrow> \<not> bit (as_u8 a i) j"
  using is_prefix_bit [of a len "24 - 8 * i + j"] by (auto simp: bit_as_u8)

lemma addr_bytes_Cons:
  "r \<le> 3 \<Longrightarrow> addr_bytes a r = as_u8 a (3 - r) # (if r = 0 then [] else addr_bytes a (r - 1))"
  by (cases r) auto

lemma nth_range:
  "(us @ map f ms @ vs) ! i = (if length us \<le> i \<and> i < length us + length ms then f ((us @ ms @ vs) ! i) else (us @ ms @ vs) ! i)"
  by (auto simp: nth_append)

text \<open>The body of the loop of \<open>set_leaf\<close>.\<close>

definition set_slot :: "nat \<Rightarrow> ip4_fib_mtrie_set_unset_leaf_args_t \<Rightarrow> nat \<Rightarrow> nat \<Rightarrow> ip4_fib_mtrie_t \<Rightarrow> ip4_fib_mtrie_t option" where
  "set_slot r a p = (\<lambda>i m. do {
          old_ply \<leftarrow> ply_at m p;
          (old_leaf, bits) \<leftarrow> leaf_at old_ply i;
          if unat bits \<le> dst_address_length a
          then do {
            new_leaf \<leftarrow> ip4_fib_mtrie_leaf_set_adj_index (adj_index a);
            if ip4_fib_mtrie_leaf_is_terminal old_leaf
            then let n = n_non_empty_leafs old_ply + (if ip4_fib_mtrie_leaf_is_empty old_leaf then 1 else 0)
              in if n \<le> 256
                 then Some (ply_put m p (leaf_put old_ply i new_leaf (word_of_nat (dst_address_length a)) n))
                 else None
            else do {
              new_ply \<leftarrow> get_next_ply_for_leaf m old_leaf;
              set_ply_with_more_specific_leaf m new_ply new_leaf (dst_address_length a)}}
          else if \<not> ip4_fib_mtrie_leaf_is_terminal old_leaf
          then do {
            new_ply \<leftarrow> get_next_ply_for_leaf m old_leaf;
            set_leaf r m a new_ply}
          else Some m})"

lemma set_slot_fill:
  assumes adj: "adj_index a \<noteq> 0" "unat (adj_index a) < 2 ^ 31"
    and ok: "ply_ok (ply_at m) r p (us @ t # vs)" and d: "distinct (p # plies (us @ t # vs))"
  shows "\<exists>m'. set_slot r a p (length us) m = Some m' \<and> same_pool m m' (set (p # plies (us @ t # vs)))
    \<and> ply_ok (ply_at m') r p (us @ fill (1 + 2 * adj_index a) (dst_address_length a) t # vs)"
proof -
  let ?len = "dst_address_length a" and ?new = "1 + 2 * adj_index a"
  have new: "odd ?new" "?new \<noteq> 1" using adj double_1_eq by simp_all
  have at: "ply_at m p = Some (ply_of (us @ t # vs))" using ok by (simp add: ply_ok_def)
  have t: "slot_ok (ply_at m) r t" using ok by (simp add: ply_ok_def)
  show ?thesis
  proof (cases t)
    case (Term l b)
    have "length (us @ t # vs) = 256" using ok by (simp add: ply_ok_def)
    then have "int (non_empties (us @ Term l b # vs)) + (if l = 1 then 1 else 0) \<le> 256"
      using non_empties_le [of us] non_empties_le [of vs] by simp
    then show ?thesis
      using fill_term [OF ok [unfolded Term] d [unfolded Term] new _ refl refl, of ?len] at t ok adj Term
      by (cases "unat b \<le> ?len") (auto simp: set_slot_def ip4_fib_mtrie_leaf_is_empty_def Let_def)
  next
    case (Sub q ts')
    have q: "slot_ok (ply_at m) r (Sub q ts')" using t Sub by simp
    then have "ply_ok (ply_at m) (r - 1) q ts'" by (simp add: slot_ok_Sub del: slot_ok.simps)
    moreover have "distinct (q # plies ts')" using d Sub by simp
    ultimately obtain m' where m': "set_ply_with_more_specific_leaf m q ?new ?len = Some m'"
      "same_pool m m' (set (q # plies ts'))" "ply_ok (ply_at m') (r - 1) q (map (fill ?new ?len) ts')"
      using set_ply_fill [OF new] by blast
    from fill_sub [OF ok [unfolded Sub] d [unfolded Sub] m'(2,3)]
    show ?thesis using at Sub m'(1) next_ply_Sub [OF q] leaf_of_Sub_ok(1) [OF q] adj by (simp add: set_slot_def del: leaf_of.simps)
  qed
qed

text \<open>The ply where the prefix ends: all slots it covers are filled.\<close>

lemma set_leaf_here:
  assumes ok: "ply_ok (ply_at m) r p ts" and d: "distinct (p # plies ts)" and r: "r \<le> 3"
    and len: "8 * (3 - r) < dst_address_length a" "dst_address_length a \<le> 8 * (4 - r)"
    and pre: "is_prefix (dst_address a) (dst_address_length a)" and adj: "adj_index a \<noteq> 0" "unat (adj_index a) < 2 ^ 31"
    and us: "B = unat (as_u8 (dst_address a) (3 - r))" "n = 8 * (4 - r) - dst_address_length a"
      "ts = us @ ms @ vs" "length us = B" "length ms = 2 ^ n"
  shows "\<exists>m'. set_leaf (Suc r) m a p = Some m' \<and> same_pool m m' (set (p # plies ts))
    \<and> ply_ok (ply_at m') r p (us @ map (fill (1 + 2 * adj_index a) (dst_address_length a)) ms @ vs)"
proof -
  let ?len = "dst_address_length a" and ?new = "1 + 2 * adj_index a"
  have low: "\<not> bit (as_u8 (dst_address a) (3 - r)) j" if "j < n" for j
    by (rule prefix_low_bits [OF pre]) (use that len r us(2) in auto)
  have "n \<le> 8" using us(2) len r by auto
  then have mask: "ucast (as_u8 (dst_address a) (3 - r)) AND low_mask n = 0" by (intro and_mask_low low) auto
  have nx: "int ?len - 8 * (int (3 - r) + 1) \<le> 0" "nat (- (int ?len - 8 * (int (3 - r) + 1))) = n"
    using len r us(2) by (auto simp: of_nat_diff)
  have "\<exists>m'. for_range (length us) (length us + length ms) (set_slot r a p) m = Some m'
      \<and> same_pool m m' (set (p # plies (us @ ms @ vs))) \<and> ply_ok (ply_at m') r p (us @ map (fill ?new ?len) ms @ vs)"
    by (rule fill_loop [OF set_slot_fill [OF adj]]) (use ok d us in simp_all)
  moreover have "set_leaf (Suc r) m a p = for_range (length us) (length us + length ms) (set_slot r a p) m"
    unfolding set_leaf.simps Let_def nx(2) set_slot_def using nx(1) mask len r us by simp
  ultimately show ?thesis using us by simp
qed

text \<open>What a change of the leaves under a prefix does to every walk.\<close>

definition walks_change ::
    "nat \<Rightarrow> nat \<Rightarrow> u8 list \<Rightarrow> (ip4_fib_mtrie_leaf_t \<times> u8 \<Rightarrow> ip4_fib_mtrie_leaf_t \<times> u8) \<Rightarrow> slot \<Rightarrow> slot \<Rightarrow> bool" where
  "walks_change k n bs f t t' \<longleftrightarrow>
    (\<forall>xs. length xs = k \<longrightarrow> walk t' xs = (if pmatch n bs xs then f (walk t xs) else walk t xs))"

lemma walks_change_here:
  assumes ok: "ply_ok e r p (us @ ms @ vs)" and r: "r \<le> 3" and n: "n \<le> 8"
    and low: "\<And>j. j < 8 - n \<Longrightarrow> \<not> bit (as_u8 a (3 - r)) j"
    and us: "length us = unat (as_u8 a (3 - r))" "length ms = 2 ^ (8 - n)"
    and f: "\<And>t xs. t \<in> set (us @ ms @ vs) \<Longrightarrow> slot_ok e r t \<Longrightarrow> length xs = r \<Longrightarrow> walk (g t) xs = f (walk t xs)"
  shows "walks_change (Suc r) n (addr_bytes a r) f (Sub p (us @ ms @ vs)) (Sub p (us @ map g ms @ vs))"
  unfolding walks_change_def
proof (intro allI impI)
  fix xs :: "u8 list" assume "length xs = Suc r"
  then obtain x xs' where x: "xs = x # xs'" "length xs' = r" by (cases xs) auto
  let ?ts = "us @ ms @ vs"
  have "unat x < length ?ts" using ok unat_u8_lt [of x] by (simp add: ply_ok_def)
  then have t: "?ts ! unat x \<in> set ?ts" by (rule nth_mem)
  then have s: "slot_ok e r (?ts ! unat x)" using ok unfolding ply_ok_def by blast
  have "pmatch n (addr_bytes a r) xs \<longleftrightarrow> length us \<le> unat x \<and> unat x < length us + length ms"
    using n drop_bit_range [of "8 - n" "as_u8 a (3 - r)" x, OF low] us x by (simp add: addr_bytes_Cons [OF r])
  then show "walk (Sub p (us @ map g ms @ vs)) xs = (if pmatch n (addr_bytes a r) xs then f (walk (Sub p ?ts) xs) else walk (Sub p ?ts) xs)"
    using f [OF t s x(2)] unfolding x(1) walk.simps nth_range [of us g ms vs] by simp
qed

lemma walks_change_below:
  assumes w: "walks_change r (n - 8) (addr_bytes a (r - 1)) f t t'" and r: "r \<le> 3" "0 < r" and n: "8 < n"
    and us: "length us = unat (as_u8 a (3 - r))"
  shows "walks_change (Suc r) n (addr_bytes a r) f (Sub p (us @ t # vs)) (Sub p (us @ t' # vs))"
  unfolding walks_change_def
proof (intro allI impI)
  fix xs :: "u8 list" assume "length xs = Suc r"
  then obtain x xs' where x: "xs = x # xs'" "length xs' = r" by (cases xs) auto
  have p: "pmatch n (addr_bytes a r) xs \<longleftrightarrow> as_u8 a (3 - r) = x \<and> pmatch (n - 8) (addr_bytes a (r - 1)) xs'"
    using n r x by (simp add: addr_bytes_Cons [OF r(1)])
  show "walk (Sub p (us @ t' # vs)) xs = (if pmatch n (addr_bytes a r) xs then f (walk (Sub p (us @ t # vs)) xs) else walk (Sub p (us @ t # vs)) xs)"
  proof (cases "unat x = length us")
    case True
    then have "as_u8 a (3 - r) = x" using us by (simp add: word_unat_eq_iff)
    then show ?thesis using w x True p by (auto simp: walks_change_def)
  next
    case False
    then have "as_u8 a (3 - r) \<noteq> x" using us by auto
    moreover have "(us @ t' # vs) ! unat x = (us @ t # vs) ! unat x" using False by (simp add: nth_append nth_Cons')
    ultimately show ?thesis using p x by simp
  qed
qed

text \<open>The slot a prefix passes through leads to a sub-ply, which is created if there is none.\<close>

lemma set_leaf_descend:
  assumes "pool_ok (ply_pool m)" and ok: "ply_ok (ply_at m) r p (us @ t # vs)" and d: "distinct (p # plies (us @ t # vs))"
    and r: "0 < r" "r \<le> 3" and len: "8 * (4 - r) < dst_address_length a" "dst_address_length a \<le> 32"
    and us: "length us = unat (as_u8 (dst_address a) (3 - r))"
    and v: "length (pool_vec (ply_pool m)) < 2 ^ 31" and z: "0 \<in> pool_live (ply_pool m)"
  obtains m' q ts where "set_leaf (Suc r) m a p = set_leaf r m' a q"
    and "pool_change m m' (set (p # plies (us @ t # vs))) (set (p # plies (us @ Sub q ts # vs))) 1"
    and "ply_ok (ply_at m') r p (us @ Sub q ts # vs)" and "distinct (p # plies (us @ Sub q ts # vs))"
    and "\<And>xs. length xs = r \<Longrightarrow> walk (Sub q ts) xs = walk t xs" and "0 \<in> pool_live (ply_pool m')"
proof -
  have at: "ply_at m p = Some (ply_of (us @ t # vs))" and t: "slot_ok (ply_at m) r t" using ok by (simp_all add: ply_ok_def)
  have nx: "\<not> int (dst_address_length a) - 8 * (int (3 - r) + 1) \<le> 0" using len r by (simp add: of_nat_diff)
  have live: "set (p # plies (us @ t # vs)) \<subseteq> pool_live (ply_pool m)" by (rule ply_ok_live [OF ok])
  show ?thesis
  proof (cases t)
    case (Term l b)
    let ?ts = "replicate 256 (Term l b)"
    obtain m1 q m' where s: "ply_create m l (unat b) = Some (m1, 2 * word_of_nat q)"
      "get_next_ply_for_leaf m1 (2 * word_of_nat q) = Some q" "ply_at m1 p = Some (ply_of (us @ Term l b # vs))"
      "m' = ply_put m1 p (leaf_put (ply_of (us @ Term l b # vs)) (length us) (2 * word_of_nat q) 0
         (int (non_empties (us @ Term l b # vs)) - (if l = 1 then 0 else 1) + 1))"
      "pool_change m m' (set (p # plies (us @ Term l b # vs))) (set (p # plies (us @ Sub q ?ts # vs))) 1"
      "ply_ok (ply_at m') r p (us @ Sub q ?ts # vs)" "distinct (p # plies (us @ Sub q ?ts # vs))"
      by (rule split_slot [OF ok [unfolded Term] d [unfolded Term] assms(1) v z r(1)])
    have "set_leaf (Suc r) m a p = set_leaf r m' a q"
      unfolding set_leaf.simps Let_def using nx len r at t s(1-3) Term
      by (simp add: us [symmetric] s(4) ip4_fib_mtrie_leaf_is_non_empty_def)
    moreover have "walk (Sub q ?ts) xs = walk t xs" if "length xs = r" for xs
      using that r Term by (cases xs) (auto simp: unat_u8_lt)
    moreover have "0 \<in> pool_live (ply_pool m')" using s(5) z by (auto simp: pool_change_def)
    ultimately show ?thesis using s(5-7) Term by (intro that) auto
  next
    case (Sub q ts)
    have q: "slot_ok (ply_at m) r (Sub q ts)" using t Sub by simp
    have "set_leaf (Suc r) m a p = set_leaf r m a q"
      unfolding set_leaf.simps Let_def
      using nx len r at Sub next_ply_Sub [OF q] leaf_of_Sub_ok(1) [OF q] by (simp add: us [symmetric] del: leaf_of.simps)
    moreover have "pool_change m m (set (p # plies (us @ t # vs))) (set (p # plies (us @ t # vs))) 1"
      by (rule same_pool_change) (use assms(1) live in simp_all)
    ultimately show ?thesis using ok d z Sub by (intro that) auto
  qed
qed

theorem set_leaf_ok:
  assumes "pool_ok (ply_pool m)" and "ply_ok (ply_at m) r p ts" and "distinct (p # plies ts)" and "r \<le> 3"
    and "8 * (3 - r) < dst_address_length a" and "dst_address_length a \<le> 32"
    and "is_prefix (dst_address a) (dst_address_length a)"
    and "adj_index a \<noteq> 0" and "unat (adj_index a) < 2 ^ 31"
    and "length (pool_vec (ply_pool m)) + r \<le> 2 ^ 31" and "0 \<in> pool_live (ply_pool m)"
  shows "\<exists>m' ts'. set_leaf (Suc r) m a p = Some m'
    \<and> pool_change m m' (set (p # plies ts)) (set (p # plies ts')) r
    \<and> ply_ok (ply_at m') r p ts' \<and> distinct (p # plies ts')
    \<and> walks_change (Suc r) (dst_address_length a - 8 * (3 - r)) (addr_bytes (dst_address a) r)
        (more_specific (1 + 2 * adj_index a) (dst_address_length a)) (Sub p ts) (Sub p ts')"
  using assms(1-6,10,11)
proof (induction r arbitrary: m p ts rule: less_induct)
  case (less r)
  let ?len = "dst_address_length a" and ?new = "1 + 2 * adj_index a" and ?B = "unat (as_u8 (dst_address a) (3 - r))"
  have l: "length ts = 256" using less.prems(2) by (simp add: ply_ok_def)
  show ?case
  proof (cases "?len \<le> 8 * (4 - r)")
    case True
    define n where "n = 8 * (4 - r) - ?len"
    have n8: "n < 8" using True less.prems(4,5) by (simp add: n_def)
    have low: "\<not> bit (as_u8 (dst_address a) (3 - r)) j" if "j < n" for j
      by (rule prefix_low_bits [OF assms(7)]) (use that True less.prems(4) n_def in auto)
    have B: "?B + 2 ^ n \<le> 256" by (rule low_bits_range) (use n8 low in auto)
    let ?us = "take ?B ts" and ?ms = "take (2 ^ n) (drop ?B ts)" and ?vs = "drop (2 ^ n) (drop ?B ts)"
    have ts: "ts = ?us @ ?ms @ ?vs" by (simp only: append_take_drop_id)
    have len: "length ?us = ?B" "length ?ms = 2 ^ n" using B l by simp_all
    obtain m' where m': "set_leaf (Suc r) m a p = Some m'" "same_pool m m' (set (p # plies ts))"
      "ply_ok (ply_at m') r p (?us @ map (fill ?new ?len) ?ms @ ?vs)"
      using set_leaf_here [OF less.prems(2-5) True assms(7-9) refl n_def ts len] by blast
    let ?ts = "?us @ map (fill ?new ?len) ?ms @ ?vs"
    have pl: "plies ?ts = plies ts"
      using arg_cong [OF ts, of plies] by (simp only: map_append concat_append plies_fill)
    have "walks_change (Suc r) (?len - 8 * (3 - r)) (addr_bytes (dst_address a) r) (more_specific ?new ?len)
        (Sub p (?us @ ?ms @ ?vs)) (Sub p ?ts)"
    proof (rule walks_change_here [OF less.prems(2) [THEN subst [OF ts, of "ply_ok (ply_at m) r p"]]])
      have e: "8 - (?len - 8 * (3 - r)) = n" using True less.prems(4,5) by (simp add: n_def algebra_simps)
      show "r \<le> 3" "?len - 8 * (3 - r) \<le> 8" using True less.prems(4) by auto
      show "\<not> bit (as_u8 (dst_address a) (3 - r)) j" if "j < 8 - (?len - 8 * (3 - r))" for j
        using low that e by simp
      show "length ?us = ?B" "length ?ms = 2 ^ (8 - (?len - 8 * (3 - r)))" using len e by simp_all
      show "walk (fill ?new ?len t) xs = more_specific ?new ?len (walk t xs)" if "slot_ok (ply_at m) r t" "length xs = r" for t xs
        using that by (intro walk_fill) auto
    qed
    then show ?thesis
      using m' pl less.prems(1,3) same_pool_change [OF m'(2) less.prems(1) ply_ok_live [OF less.prems(2)]] ts by metis
  next
    case False
    then have r: "0 < r" using less.prems(6) by (cases r) auto
    have B: "?B < length ts" using l unat_u8_lt by simp
    define us t vs where "us = take ?B ts" and "t = ts ! ?B" and "vs = drop (Suc ?B) ts"
    have ts: "ts = us @ t # vs" and us: "length us = ?B" using B by (simp_all add: us_def t_def vs_def id_take_nth_drop [symmetric])
    have v: "length (pool_vec (ply_pool m)) < 2 ^ 31" using less.prems(7) r by simp
    obtain m1 q ts1 where s: "set_leaf (Suc r) m a p = set_leaf r m1 a q"
      "pool_change m m1 (set (p # plies ts)) (set (p # plies (us @ Sub q ts1 # vs))) 1"
      "ply_ok (ply_at m1) r p (us @ Sub q ts1 # vs)" "distinct (p # plies (us @ Sub q ts1 # vs))"
      "\<And>xs. length xs = r \<Longrightarrow> walk (Sub q ts1) xs = walk t xs" "0 \<in> pool_live (ply_pool m1)"
      using set_leaf_descend [OF less.prems(1) less.prems(2,3) [unfolded ts] r less.prems(4) _ less.prems(6) us v less.prems(8)] False ts
      by (metis not_le)
    have q: "ply_ok (ply_at m1) (r - 1) q ts1"
      using s(3) by (auto simp: ply_ok_def)
    have dq: "distinct (q # plies ts1)" using s(4) by simp
    have v1: "length (pool_vec (ply_pool m1)) + (r - 1) \<le> 2 ^ 31"
    proof -
      have "length (pool_vec (ply_pool m1)) \<le> length (pool_vec (ply_pool m)) + 1" using s(2) unfolding pool_change_def by blast
      then show ?thesis using less.prems(7) r by linarith
    qed
    have ok1: "pool_ok (ply_pool m1)" using s(2) by (simp add: pool_change_def)
    have "r - 1 \<le> 3" "8 * (3 - (r - 1)) < ?len" using False r less.prems(4) by auto
    from less.IH [OF _ ok1 q dq this less.prems(6) v1 s(6)] r obtain m' ts' where m': "set_leaf r m1 a q = Some m'"
      "pool_change m1 m' (set (q # plies ts1)) (set (q # plies ts')) (r - 1)" "ply_ok (ply_at m') (r - 1) q ts'"
      "distinct (q # plies ts')"
      "walks_change r (?len - 8 * (3 - (r - 1))) (addr_bytes (dst_address a) (r - 1)) (more_specific ?new ?len) (Sub q ts1) (Sub q ts')"
      by auto
    from change_below [OF s(3,4) m'(2-4)]
    have c: "pool_change m1 m' (set (p # plies (us @ Sub q ts1 # vs))) (set (p # plies (us @ Sub q ts' # vs))) (r - 1)"
      "ply_ok (ply_at m') r p (us @ Sub q ts' # vs)" "distinct (p # plies (us @ Sub q ts' # vs))" by blast+
    have "pool_change m m' (set (p # plies ts)) (set (p # plies (us @ Sub q ts' # vs))) r"
      using pool_change_trans [OF s(2) c(1)] r by simp
    moreover have "walks_change r (?len - 8 * (3 - r) - 8) (addr_bytes (dst_address a) (r - 1)) (more_specific ?new ?len) t (Sub q ts')"
    proof -
      have "?len - 8 * (3 - (r - 1)) = ?len - 8 * (3 - r) - 8" using r less.prems(4) by simp
      then show ?thesis using m'(5) s(5) by (simp add: walks_change_def)
    qed
    from walks_change_below [OF this less.prems(4) r _ us] False
    have "walks_change (Suc r) (?len - 8 * (3 - r)) (addr_bytes (dst_address a) r) (more_specific ?new ?len)
        (Sub p ts) (Sub p (us @ Sub q ts' # vs))"
      using less.prems(4) by (simp add: ts algebra_simps)
    ultimately show ?thesis using s(1) m'(1) c(2,3) by metis
  qed
qed

section \<open>Unsetting a leaf\<close>

fun clear_leaf :: "ip4_fib_mtrie_leaf_t \<Rightarrow> ip4_fib_mtrie_leaf_t \<times> u8 \<Rightarrow> ip4_fib_mtrie_leaf_t \<times> u8" where
  "clear_leaf del (l, b) = (if l = del then (IP4_FIB_MTRIE_LEAF_EMPTY, 0) else (l, b))"

abbreviation (input) "empty_slot \<equiv> Term IP4_FIB_MTRIE_LEAF_EMPTY 0"

lemma empty_leaf_slot: "slot_ok e r t \<Longrightarrow> leaf_of t = IP4_FIB_MTRIE_LEAF_EMPTY \<Longrightarrow> t = empty_slot"
  using leaf_of_Sub_ok(4) by (cases t) auto

lemma clear_slot:
  assumes "pool_ok (ply_pool m)" and ok: "ply_ok (ply_at m) r p (us @ t # vs)" and d: "distinct (p # plies (us @ t # vs))"
    and c: "pool_change m m1 (set (plies_of t)) {} 0" and t: "leaf_of t \<noteq> IP4_FIB_MTRIE_LEAF_EMPTY"
    and m2: "m2 = ply_put m1 p (leaf_put (ply_of (us @ t # vs)) (length us) IP4_FIB_MTRIE_LEAF_EMPTY 0
       (int (non_empties (us @ t # vs)) - 1))"
  shows "ply_at m1 p = Some (ply_of (us @ t # vs)) \<and> int (non_empties (us @ t # vs)) - 1 = int (non_empties (us @ vs))
    \<and> pool_change m m2 (set (p # plies (us @ t # vs))) (set (p # plies (us @ empty_slot # vs))) 0
    \<and> ply_ok (ply_at m2) r p (us @ empty_slot # vs) \<and> distinct (p # plies (us @ empty_slot # vs))"
proof -
  let ?R = "insert p (set (plies us) \<union> set (plies vs))"
  have live: "set (p # plies (us @ t # vs)) \<subseteq> pool_live (ply_pool m)" by (rule ply_ok_live [OF ok])
  have R: "?R \<subseteq> pool_live (ply_pool m) - set (plies_of t)" using live d by auto
  have e: "ply_at m1 x = ply_at m x" if "x \<in> ?R" for x using c R that unfolding pool_change_def by blast
  have p: "ply_at m1 p = Some (ply_of (us @ t # vs))" using ok e by (simp add: ply_ok_def)
  have n: "int (non_empties (us @ t # vs)) - 1 = int (non_empties (us @ vs))" using t by simp
  have "leaf_put (ply_of (us @ t # vs)) (length us) 1 0 (int (non_empties (us @ t # vs)) - 1) = ply_of (us @ empty_slot # vs)"
    by (rule leaf_put_ply_of) (use n in simp_all)
  then have at: "ply_at m2 = (ply_at m1)(p \<mapsto> ply_of (us @ empty_slot # vs))" using p m2 by simp
  have "ply_ok (ply_at m2) r p (us @ empty_slot # vs)"
  proof (rule ply_ok_upd [where e' = "ply_at m2", OF ok])
    show "ply_at m2 x = ply_at m x" if "x \<in> set (plies us) \<union> set (plies vs)" for x
      unfolding at using that d e by auto
  qed (simp_all add: at)
  moreover have "pool_change m m2 (set (p # plies (us @ t # vs))) (set (p # plies (us @ empty_slot # vs))) 0"
  proof -
    have "pool_change m m1 (?R \<union> set (plies_of t)) (?R \<union> {}) 0" by (rule pool_change_widen [OF c R])
    moreover have "pool_change m1 m2 ?R ?R 0"
    proof (rule same_pool_change)
      show "same_pool m1 m2 ?R" using p by (simp add: m2 same_pool_put)
      show "pool_ok (ply_pool m1)" "?R \<subseteq> pool_live (ply_pool m1)" using c R unfolding pool_change_def by blast+
    qed
    ultimately have "pool_change m m2 (?R \<union> set (plies_of t)) ?R 0" using pool_change_trans [of m m1 _ ?R 0 m2 ?R 0] by simp
    moreover have "set (p # plies (us @ t # vs)) = ?R \<union> set (plies_of t)" "set (p # plies (us @ empty_slot # vs)) = ?R" by auto
    ultimately show ?thesis by simp
  qed
  ultimately show ?thesis using d p n by auto
qed

lemma free_ply:
  assumes c: "pool_change m m2 S (set (p # plies ts)) k" and ok: "ply_ok (ply_at m2) r p ts" and n: "non_empties ts = 0"
  obtains pool where "pool_put_index (ply_pool m2) p = Some pool" and "pool_change m (m2\<lparr>ply_pool := pool\<rparr>) S {} k"
    and "\<forall>t\<in>set ts. t = empty_slot"
proof -
  have ts: "\<forall>t\<in>set ts. t = empty_slot" using n ok empty_leaf_slot by (fastforce simp: non_empties_0 ply_ok_def)
  then have pl: "plies ts = []" by fastforce
  have "pool_ok (ply_pool m2)" "p \<in> pool_live (ply_pool m2)" using c by (simp_all add: pool_change_def)
  from pool_put_live [OF this] obtain pool where pool: "pool_put_index (ply_pool m2) p = Some pool" "pool_ok pool"
    "pool_live pool = pool_live (ply_pool m2) - {p}" "\<forall>j\<in>pool_live pool. pool_elt_at_index pool j = pool_elt_at_index (ply_pool m2) j"
    by blast
  have "length (pool_vec pool) = length (pool_vec (ply_pool m2))"
    using pool(1) by (auto simp: pool_put_index_def split: if_splits)
  moreover have "pool_live pool = pool_live (ply_pool m) - S" using c pool(3) pl by (auto simp: pool_change_def)
  ultimately have "pool_change m (m2\<lparr>ply_pool := pool\<rparr>) S {} k"
    using c pool(2,4) by (auto simp: pool_change_def ply_at_def)
  with pool(1) ts show ?thesis by (intro that)
qed

lemma pmatch_0 [simp]: "pmatch 0 as xs"
  by (cases as; cases xs) simp_all

lemma pmatch_Cons: "pmatch n (b # bs) (x # xs) \<longleftrightarrow> drop_bit (8 - n) b = drop_bit (8 - n) x \<and> pmatch (n - 8) bs xs"
  by simp

text \<open>Changes slot by slot over the slots a prefix covers.\<close>

lemma walks_change_slots:
  assumes B: "\<And>x. drop_bit (8 - n) b = drop_bit (8 - n) x \<longleftrightarrow> B \<le> unat x \<and> unat x < B + k"
    and s: "\<And>i. i < 256 \<Longrightarrow> if B \<le> i \<and> i < B + k then walks_change r (n - 8) bs f (ts ! i) (ts' ! i) else ts' ! i = ts ! i"
  shows "walks_change (Suc r) n (b # bs) f (Sub p ts) (Sub p ts')"
  unfolding walks_change_def
proof (intro allI impI)
  fix xs :: "u8 list" assume "length xs = Suc r"
  then obtain x xs' where x: "xs = x # xs'" "length xs' = r" by (cases xs) auto
  have "unat x < 256" by (rule unat_u8_lt)
  from s [OF this] B [of x]
  show "walk (Sub p ts') xs = (if pmatch n (b # bs) xs then f (walk (Sub p ts) xs) else walk (Sub p ts) xs)"
    using x by (auto simp: walks_change_def pmatch_Cons simp del: pmatch.simps split: if_splits)
qed

text \<open>The plies of a subtree that have no non-empty leaf.\<close>

fun hollow :: "slot \<Rightarrow> nat set" where
  "hollow (Term l b) = {}"
| "hollow (Sub q ts) = (if \<forall>t\<in>set ts. t = empty_slot then {q} else {}) \<union> (\<Union>t\<in>set ts. hollow t)"

lemma hollow_empty [simp]: "hollow empty_slot = {}"
  by simp

lemma hollow_Sub_mono:
  assumes "\<forall>t\<in>set ts'. t = empty_slot \<Longrightarrow> \<forall>t\<in>set ts. t = empty_slot" and "(\<Union>t\<in>set ts'. hollow t) \<subseteq> (\<Union>t\<in>set ts. hollow t)"
  shows "hollow (Sub q ts') \<subseteq> hollow (Sub q ts)"
  using assms by auto

text \<open>How unsetting changes a slot: the leaf is cleared, and no ply is left hollow that was not.\<close>

definition unset_change where
  "unset_change r n bs del t t' \<longleftrightarrow> walks_change r n bs (clear_leaf del) t t' \<and> hollow t' \<subseteq> hollow t"

definition unset_slot_spec ::
    "ip4_fib_mtrie_t \<Rightarrow> nat \<Rightarrow> nat \<Rightarrow> slot list \<Rightarrow> slot \<Rightarrow> slot list \<Rightarrow> nat \<Rightarrow> u8 list \<Rightarrow> ip4_fib_mtrie_leaf_t
     \<Rightarrow> ip4_fib_mtrie_t \<times> bool \<Rightarrow> bool" where
  "unset_slot_spec m r p us t vs n bs del = (\<lambda>(m', stop). \<exists>t'. unset_change r n bs del t t' \<and>
     (if stop then r < 3 \<and> t' = empty_slot \<and> (\<forall>s\<in>set us \<union> set vs. s = empty_slot) \<and> pool_change m m' (set (p # plies (us @ t # vs))) {} 0
      else pool_change m m' (set (p # plies (us @ t # vs))) (set (p # plies (us @ t' # vs))) 0
        \<and> ply_ok (ply_at m') r p (us @ t' # vs) \<and> distinct (p # plies (us @ t' # vs))
        \<and> (r < 3 \<longrightarrow> (\<forall>s\<in>set (us @ t' # vs). s = empty_slot) \<longrightarrow> (\<forall>s\<in>set (us @ t # vs). s = empty_slot))))"

lemma unset_slot_stop:
  assumes "r < 3" and "walks_change r n bs (clear_leaf del) t empty_slot" and "\<forall>s\<in>set us \<union> set vs. s = empty_slot"
    and "pool_change m m' (set (p # plies (us @ t # vs))) {} 0"
  shows "unset_slot_spec m r p us t vs n bs del (m', True)"
proof -
  have "unset_change r n bs del t empty_slot" using assms(2) by (simp add: unset_change_def)
  then show ?thesis unfolding unset_slot_spec_def using assms by (simp only: prod.case if_True) blast
qed

lemma unset_slot_go:
  assumes "unset_change r n bs del t t'"
    and "pool_change m m' (set (p # plies (us @ t # vs))) (set (p # plies (us @ t' # vs))) 0"
    and "ply_ok (ply_at m') r p (us @ t' # vs)" and "distinct (p # plies (us @ t' # vs))"
    and "r < 3 \<Longrightarrow> \<forall>s\<in>set (us @ t' # vs). s = empty_slot \<Longrightarrow> \<forall>s\<in>set (us @ t # vs). s = empty_slot"
  shows "unset_slot_spec m r p us t vs n bs del (m', False)"
  unfolding unset_slot_spec_def using assms by (simp only: prod.case if_False) blast

lemma unset_slot_clear:
  assumes ok: "pool_ok (ply_pool m)" "ply_ok (ply_at m) r p (us @ t # vs)" "distinct (p # plies (us @ t # vs))"
    and c: "pool_change m m1 (set (plies_of t)) {} 0" and t: "leaf_of t \<noteq> IP4_FIB_MTRIE_LEAF_EMPTY"
    and w: "walks_change r n bs (clear_leaf del) t empty_slot"
    and res: "res = do {
           ply \<leftarrow> ply_at m1 p;
           let n = n_non_empty_leafs ply - 1;
           let m = ply_put m1 p (leaf_put ply (length us) IP4_FIB_MTRIE_LEAF_EMPTY 0 n);
           if ip4_fib_mtrie_leaf_is_empty (leaf_of t) \<or> n < 0 then None
           else if n = 0 \<and> 0 < 3 - r
           then do {pool \<leftarrow> pool_put_index (ply_pool m) p; Some (m\<lparr>ply_pool := pool\<rparr>, True)}
           else Some (m, False)}"
  shows "\<exists>x. res = Some x \<and> unset_slot_spec m r p us t vs n bs del x"
proof -
  define m2 where "m2 = ply_put m1 p (leaf_put (ply_of (us @ t # vs)) (length us) 1 0 (int (non_empties (us @ t # vs)) - 1))"
  note s = clear_slot [OF ok c t m2_def]
  have res: "res = (if non_empties (us @ vs) = 0 \<and> 0 < 3 - r
      then do {pool \<leftarrow> pool_put_index (ply_pool m2) p; Some (m2\<lparr>ply_pool := pool\<rparr>, True)} else Some (m2, False))"
    using s t by (simp add: res m2_def ip4_fib_mtrie_leaf_is_empty_def Let_def)
  show ?thesis
  proof (cases "non_empties (us @ vs) = 0 \<and> 0 < 3 - r")
    case True
    have "pool_change m m2 (set (p # plies (us @ t # vs))) (set (p # plies (us @ empty_slot # vs))) 0"
      "ply_ok (ply_at m2) r p (us @ empty_slot # vs)" "non_empties (us @ empty_slot # vs) = 0" using s True by simp_all
    from free_ply [OF this] obtain pool where "pool_put_index (ply_pool m2) p = Some pool"
      "pool_change m (m2\<lparr>ply_pool := pool\<rparr>) (set (p # plies (us @ t # vs))) {} 0" "\<forall>s\<in>set (us @ empty_slot # vs). s = empty_slot"
      by blast
    note f = this
    have "\<forall>s\<in>set us \<union> set vs. s = empty_slot" using f(3) by simp
    from unset_slot_stop [OF _ w this f(2)] True show ?thesis using res f(1) by auto
  next
    case False
    have keep: "\<forall>s\<in>set (us @ t # vs). s = empty_slot" if "r < 3" and e: "\<forall>s\<in>set (us @ empty_slot # vs). s = empty_slot"
    proof -
      have "leaf_of x = 1" if "x \<in> set (us @ vs)" for x
      proof -
        have "x = empty_slot" using e that by auto
        then show ?thesis by simp
      qed
      then have "non_empties (us @ vs) = 0" by (auto simp: non_empties_def filter_empty_conv)
      then show ?thesis using False that(1) by simp
    qed
    have "unset_change r n bs del t empty_slot" using w by (simp add: unset_change_def)
    then have "unset_slot_spec m r p us t vs n bs del (m2, False)"
      by (rule unset_slot_go) (use s keep in blast)+
    then show ?thesis using res False by auto
  qed
qed

text \<open>Walks to the leaf \<open>del\<close> stay below the prefix.\<close>

definition only_below :: "nat \<Rightarrow> nat \<Rightarrow> u8 list \<Rightarrow> ip4_fib_mtrie_leaf_t \<Rightarrow> slot \<Rightarrow> bool" where
  "only_below k n bs del t \<longleftrightarrow> (\<forall>xs. length xs = k \<longrightarrow> fst (walk t xs) = del \<longrightarrow> pmatch n bs xs)"

lemma unset_change_empty: "del \<noteq> IP4_FIB_MTRIE_LEAF_EMPTY \<Longrightarrow> unset_change k n bs del empty_slot empty_slot"
  by (simp add: unset_change_def walks_change_def)

lemma unset_loop:
  assumes step: "\<And>us t vs m. pool_ok (ply_pool m) \<Longrightarrow> ply_ok (ply_at m) r p (us @ t # vs) \<Longrightarrow>
      distinct (p # plies (us @ t # vs)) \<Longrightarrow> only_below r n bs del t \<Longrightarrow>
      \<exists>x. body (length us) m = Some x \<and> unset_slot_spec m r p us t vs n bs del x"
    and del: "del \<noteq> IP4_FIB_MTRIE_LEAF_EMPTY"
    and "pool_ok (ply_pool m)" and "ply_ok (ply_at m) r p (us @ ts @ vs)" and "distinct (p # plies (us @ ts @ vs))"
    and "\<forall>t\<in>set ts. only_below r n bs del t"
  shows "\<exists>m' stop ts'. for_until (length us) (length us + length ts) body m = Some (m', stop)
    \<and> list_all2 (unset_change r n bs del) ts ts'
    \<and> (if stop then r < 3 \<and> (\<forall>s\<in>set (us @ ts' @ vs). s = empty_slot) \<and> pool_change m m' (set (p # plies (us @ ts @ vs))) {} 0
       else pool_change m m' (set (p # plies (us @ ts @ vs))) (set (p # plies (us @ ts' @ vs))) 0
         \<and> ply_ok (ply_at m') r p (us @ ts' @ vs) \<and> distinct (p # plies (us @ ts' @ vs))
         \<and> (r < 3 \<longrightarrow> (\<forall>s\<in>set (us @ ts' @ vs). s = empty_slot) \<longrightarrow> (\<forall>s\<in>set (us @ ts @ vs). s = empty_slot)))"
  using assms(3-)
proof (induction ts arbitrary: us m)
  case Nil
  have "for_until (length us) (length us + length ([] :: slot list)) body m = Some (m, False)"
    by (subst for_until.simps) simp
  moreover have "pool_change m m (set (p # plies (us @ [] @ vs))) (set (p # plies (us @ [] @ vs))) 0"
    by (rule same_pool_change [OF same_pool_refl Nil.prems(1) ply_ok_live [OF Nil.prems(2)]])
  ultimately show ?case using Nil.prems(2,3) by (intro exI [of _ m] exI [of _ False] exI [of _ "[]"]) simp
next
  case (Cons t ts)
  let ?S = "set (p # plies (us @ (t # ts) @ vs))"
  have "ply_ok (ply_at m) r p (us @ t # ts @ vs)" "distinct (p # plies (us @ t # ts @ vs))" "only_below r n bs del t"
    using Cons.prems by simp_all
  from step [OF Cons.prems(1) this] obtain m1 stop where b: "body (length us) m = Some (m1, stop)"
    and "unset_slot_spec m r p us t (ts @ vs) n bs del (m1, stop)" by auto
  then obtain t' where t': "unset_change r n bs del t t'"
    and c: "if stop then r < 3 \<and> t' = empty_slot \<and> (\<forall>s\<in>set us \<union> set (ts @ vs). s = empty_slot) \<and> pool_change m m1 (set (p # plies (us @ t # ts @ vs))) {} 0
      else pool_change m m1 (set (p # plies (us @ t # ts @ vs))) (set (p # plies (us @ t' # ts @ vs))) 0
        \<and> ply_ok (ply_at m1) r p (us @ t' # ts @ vs) \<and> distinct (p # plies (us @ t' # ts @ vs))
        \<and> (r < 3 \<longrightarrow> (\<forall>s\<in>set (us @ t' # ts @ vs). s = empty_slot) \<longrightarrow> (\<forall>s\<in>set (us @ t # ts @ vs). s = empty_slot))"
    unfolding unset_slot_spec_def prod.case by blast
  show ?case
  proof (cases stop)
    case True
    have "for_until (length us) (length us + length (t # ts)) body m = Some (m1, True)"
      using b True by (subst for_until.simps) simp
    moreover have "unset_change r n bs del x x" if "x \<in> set ts" for x
    proof -
      have "x = empty_slot" using c True that by auto
      then show ?thesis using unset_change_empty [OF del] by simp
    qed
    then have "list_all2 (unset_change r n bs del) (t # ts) (t' # ts)"
      using t' by (simp add: list_all2_same)
    moreover have "\<forall>s\<in>set (us @ (t' # ts) @ vs). s = empty_slot" using c True by auto
    moreover have "pool_change m m1 ?S {} 0" "r < 3" using c True by simp_all
    ultimately show ?thesis by (intro exI [of _ m1] exI [of _ True] exI [of _ "t' # ts"]) simp
  next
    case False
    let ?us = "us @ [t']"
    have c: "pool_change m m1 ?S (set (p # plies (?us @ ts @ vs))) 0"
      "ply_ok (ply_at m1) r p (?us @ ts @ vs)" "distinct (p # plies (?us @ ts @ vs))"
      "r < 3 \<longrightarrow> (\<forall>s\<in>set (?us @ ts @ vs). s = empty_slot) \<longrightarrow> (\<forall>s\<in>set (us @ (t # ts) @ vs). s = empty_slot)" using c False by simp_all
    have "pool_ok (ply_pool m1)" using c(1) unfolding pool_change_def by blast
    from Cons.IH [OF this c(2,3)] Cons.prems(4) obtain m' stop' ts' where i:
      "for_until (length ?us) (length ?us + length ts) body m1 = Some (m', stop')"
      "list_all2 (unset_change r n bs del) ts ts'"
      "if stop' then r < 3 \<and> (\<forall>s\<in>set (?us @ ts' @ vs). s = empty_slot) \<and> pool_change m1 m' (set (p # plies (?us @ ts @ vs))) {} 0
       else pool_change m1 m' (set (p # plies (?us @ ts @ vs))) (set (p # plies (?us @ ts' @ vs))) 0
         \<and> ply_ok (ply_at m') r p (?us @ ts' @ vs) \<and> distinct (p # plies (?us @ ts' @ vs))
         \<and> (r < 3 \<longrightarrow> (\<forall>s\<in>set (?us @ ts' @ vs). s = empty_slot) \<longrightarrow> (\<forall>s\<in>set (?us @ ts @ vs). s = empty_slot))"
      by auto
    have "for_until (length us) (length us + length (t # ts)) body m = Some (m', stop')"
      using b False i(1) by (subst for_until.simps) simp
    moreover have "list_all2 (unset_change r n bs del) (t # ts) (t' # ts')" using t' i(2) by simp
    moreover have "if stop' then r < 3 \<and> (\<forall>s\<in>set (us @ (t' # ts') @ vs). s = empty_slot) \<and> pool_change m m' ?S {} 0
       else pool_change m m' ?S (set (p # plies (us @ (t' # ts') @ vs))) 0
         \<and> ply_ok (ply_at m') r p (us @ (t' # ts') @ vs) \<and> distinct (p # plies (us @ (t' # ts') @ vs))
         \<and> (r < 3 \<longrightarrow> (\<forall>s\<in>set (us @ (t' # ts') @ vs). s = empty_slot) \<longrightarrow> (\<forall>s\<in>set (us @ (t # ts) @ vs). s = empty_slot))"
    proof -
      have "pool_change m m' ?S S' 0" if "pool_change m1 m' (set (p # plies (?us @ ts @ vs))) S' 0" for S'
        using pool_change_trans [OF c(1) that] by (simp only: add_0)
      moreover have "?us @ x @ vs = us @ (t' # x) @ vs" for x by simp
      ultimately show ?thesis using i(3) c(4) by (cases stop') (simp only: if_True if_False simp_thms; blast)+
    qed
    ultimately show ?thesis by blast
  qed
qed

text \<open>The slots that \<open>unset_leaf\<close> runs over in one ply.\<close>

lemma unset_range:
  assumes pre: "is_prefix a len" and r: "r \<le> 3" and len: "0 < len" "len \<le> 32"
    and b: "b = (if int len - 8 * (int (3 - r) + 1) < 0
      then as_u8 a (3 - r) AND NOT (ucast (low_mask (nat (- (int len - 8 * (int (3 - r) + 1)))))) else as_u8 a (3 - r))"
    and k: "k = min 8 (if int len - 8 * (int (3 - r) + 1) \<le> 0 then nat (- (int len - 8 * (int (3 - r) + 1))) else 0)"
    and n: "n = len - 8 * (3 - r)"
  shows "k = 8 - n" and "drop_bit (8 - n) (as_u8 a (3 - r)) = drop_bit (8 - n) x \<longleftrightarrow> unat b \<le> unat x \<and> unat x < unat b + 2 ^ k"
    and "unat b + 2 ^ k \<le> 256"
proof -
  define s where "s = 8 * (4 - r) - len"
  have nx: "nat (- (int len - 8 * (int (3 - r) + 1))) = s" "int len - 8 * (int (3 - r) + 1) \<le> 0 \<longleftrightarrow> len \<le> 8 * (4 - r)"
    "int len - 8 * (int (3 - r) + 1) < 0 \<longleftrightarrow> len < 8 * (4 - r)" using r by (auto simp: s_def of_nat_diff)
  show k8: "k = 8 - n" using r len unfolding k n nx by (auto simp: s_def)
  have bb: "bit b j \<longleftrightarrow> bit (as_u8 a (3 - r)) j \<and> k \<le> j" for j
  proof (cases "len < 8 * (4 - r)")
    case True
    have "s < 64" using r by (simp add: s_def)
    then have "bit b j \<longleftrightarrow> bit (as_u8 a (3 - r)) j \<and> s \<le> j"
      unfolding b nx using True by (auto simp: bit_and_iff bit_not_iff bit_unsigned_iff bit_low_mask dest: bit_imp_le_length)
    moreover have "k = min 8 s" unfolding k nx using True by simp
    ultimately show ?thesis by (auto dest: bit_imp_le_length)
  next
    case False
    then have "k = 0" using k8 n r by auto
    then show ?thesis unfolding b nx using False by simp
  qed
  then have low: "\<not> bit b j" if "j < k" for j using that by simp
  have "drop_bit k b = drop_bit k (as_u8 a (3 - r))" by (auto simp: drop_bit_u8_eq bb)
  then show "drop_bit (8 - n) (as_u8 a (3 - r)) = drop_bit (8 - n) x \<longleftrightarrow> unat b \<le> unat x \<and> unat x < unat b + 2 ^ k"
    using drop_bit_range [of k b x, OF low] by (simp add: k8)
  show "unat b + 2 ^ k \<le> 256" by (rule low_bits_range) (use k8 low in auto)
qed

text \<open>The body of the loop of \<open>unset_leaf\<close>.\<close>

definition unset_slot ::
    "nat \<Rightarrow> ip4_fib_mtrie_set_unset_leaf_args_t \<Rightarrow> nat \<Rightarrow> ip4_fib_mtrie_leaf_t \<Rightarrow> nat \<Rightarrow> ip4_fib_mtrie_t \<Rightarrow> (ip4_fib_mtrie_t \<times> bool) option" where
  "unset_slot r a p del = (\<lambda>i m. do {
         ply \<leftarrow> ply_at m p;
         (old_leaf, _) \<leftarrow> leaf_at ply i;
         (m, hit) \<leftarrow> (if old_leaf = del then Some (m, True)
           else if \<not> ip4_fib_mtrie_leaf_is_terminal old_leaf
           then do {n \<leftarrow> get_next_ply_for_leaf m old_leaf; unset_leaf r m a n}
           else Some (m, False));
         if hit
         then do {
           ply \<leftarrow> ply_at m p;
           let n = n_non_empty_leafs ply - 1;
           let m = ply_put m p (leaf_put ply i IP4_FIB_MTRIE_LEAF_EMPTY 0 n);
           if ip4_fib_mtrie_leaf_is_empty old_leaf \<or> n < 0 then None
           else if n = 0 \<and> 0 < 3 - r
           then do {pool \<leftarrow> pool_put_index (ply_pool m) p; Some (m\<lparr>ply_pool := pool\<rparr>, True)}
           else Some (m, False)}
         else Some (m, False)})"

text \<open>What \<open>unset_leaf\<close> does to the ply \<open>p\<close>: it changes the walks and keeps the ply, or it frees it.\<close>

definition unset_ply_spec ::
    "ip4_fib_mtrie_t \<Rightarrow> nat \<Rightarrow> nat \<Rightarrow> slot list \<Rightarrow> nat \<Rightarrow> u8 list \<Rightarrow> ip4_fib_mtrie_leaf_t \<Rightarrow> ip4_fib_mtrie_t \<times> bool \<Rightarrow> bool" where
  "unset_ply_spec m r p ts n bs del = (\<lambda>(m', stop). \<exists>t'. walks_change (Suc r) n bs (clear_leaf del) (Sub p ts) t'
    \<and> distinct (plies_of t') \<and> pool_change m m' (set (p # plies ts)) (set (plies_of t')) 0
    \<and> (if stop then t' = empty_slot \<and> r < 3 else \<exists>ts'. t' = Sub p ts' \<and> ply_ok (ply_at m') r p ts'
        \<and> (\<Union>t\<in>set ts'. hollow t) \<subseteq> (\<Union>t\<in>set ts. hollow t)
        \<and> (r < 3 \<longrightarrow> (\<forall>s\<in>set ts'. s = empty_slot) \<longrightarrow> (\<forall>s\<in>set ts. s = empty_slot))))"

lemma unset_slot_step:
  assumes del: "del \<noteq> IP4_FIB_MTRIE_LEAF_EMPTY" "odd del"
    and below: "\<And>q ts. 0 < r \<Longrightarrow> ply_ok (ply_at m) (r - 1) q ts \<Longrightarrow> distinct (q # plies ts) \<Longrightarrow> only_below r n bs del (Sub q ts) \<Longrightarrow>
      \<exists>x. unset_leaf r m a q = Some x \<and> unset_ply_spec m (r - 1) q ts n bs del x"
    and pool: "pool_ok (ply_pool m)" and ok: "ply_ok (ply_at m) r p (us @ t # vs)"
    and d: "distinct (p # plies (us @ t # vs))" and o: "only_below r n bs del t" and r3: "r \<le> 3"
  shows "\<exists>x. unset_slot r a p del (length us) m = Some x \<and> unset_slot_spec m r p us t vs n bs del x"
proof -
  have at: "ply_at m p = Some (ply_of (us @ t # vs))" and t: "slot_ok (ply_at m) r t" using ok by (simp_all add: ply_ok_def)
  have refl: "pool_change m m S S 0" if "S \<subseteq> pool_live (ply_pool m)" for S
    by (rule same_pool_change) (use pool that in simp_all)
  show ?thesis
  proof (cases t)
    case (Term l b)
    show ?thesis
    proof (cases "l = del")
      case True
      have w: "walks_change r n bs (clear_leaf del) t empty_slot"
        using o Term True by (simp add: walks_change_def only_below_def)
      show ?thesis
        by (rule unset_slot_clear [where ?m1.0 = m, OF pool ok d _ _ w])
           (use refl [of "{}"] Term True del at in \<open>simp_all add: unset_slot_def Let_def\<close>)
    next
      case False
      have "unset_change r n bs del t t" using Term False by (simp add: unset_change_def walks_change_def)
      from unset_slot_go [OF this refl [OF ply_ok_live [OF ok]] ok d]
      show ?thesis using at t Term False by (simp add: unset_slot_def)
    qed
  next
    case (Sub q ts0)
    have q: "slot_ok (ply_at m) r (Sub q ts0)" using t Sub by simp
    then have r: "0 < r" and okq: "ply_ok (ply_at m) (r - 1) q ts0" by (simp_all add: slot_ok_Sub del: slot_ok.simps)
    have dq: "distinct (q # plies ts0)" using d Sub by simp
    obtain m1 stop where i0: "unset_leaf r m a q = Some (m1, stop)" "unset_ply_spec m (r - 1) q ts0 n bs del (m1, stop)"
      using below [OF r okq dq] o Sub by auto
    obtain t' where w: "walks_change r n bs (clear_leaf del) t t'" and i: "distinct (plies_of t')"
      "pool_change m m1 (set (q # plies ts0)) (set (plies_of t')) 0"
      "if stop then t' = empty_slot \<and> r - 1 < 3 else \<exists>ts'. t' = Sub q ts' \<and> ply_ok (ply_at m1) (r - 1) q ts'
        \<and> hollow t' \<subseteq> hollow t"
    proof -
      obtain t' where x: "walks_change (Suc (r - 1)) n bs (clear_leaf del) (Sub q ts0) t'" "distinct (plies_of t')"
        "pool_change m m1 (set (q # plies ts0)) (set (plies_of t')) 0"
        "if stop then t' = empty_slot \<and> r - 1 < 3 else \<exists>ts'. t' = Sub q ts' \<and> ply_ok (ply_at m1) (r - 1) q ts'
          \<and> (\<Union>t\<in>set ts'. hollow t) \<subseteq> (\<Union>t\<in>set ts0. hollow t)
          \<and> (r - 1 < 3 \<longrightarrow> (\<forall>s\<in>set ts'. s = empty_slot) \<longrightarrow> (\<forall>s\<in>set ts0. s = empty_slot))"
        using i0(2) unfolding unset_ply_spec_def prod.case by blast
      have "if stop then t' = empty_slot \<and> r - 1 < 3 else \<exists>ts'. t' = Sub q ts' \<and> ply_ok (ply_at m1) (r - 1) q ts' \<and> hollow t' \<subseteq> hollow t"
      proof (cases stop)
        case False
        then obtain ts' where y: "t' = Sub q ts'" "ply_ok (ply_at m1) (r - 1) q ts'" "(\<Union>t\<in>set ts'. hollow t) \<subseteq> (\<Union>t\<in>set ts0. hollow t)"
          "(\<forall>s\<in>set ts'. s = empty_slot) \<longrightarrow> (\<forall>s\<in>set ts0. s = empty_slot)" using x(4) r r3 by force
        then have "hollow t' \<subseteq> hollow t" unfolding Sub y(1) by (intro hollow_Sub_mono) blast+
        then show ?thesis using y(1,2) False by simp
      qed (use x(4) in simp)
      then show ?thesis using that [of t'] x(1-3) r unfolding Sub by simp
    qed
    have leaf: "even (leaf_of t)" "leaf_of t \<noteq> del" "leaf_of t \<noteq> 1"
      using leaf_of_Sub_ok [OF q] del Sub by (auto simp del: leaf_of.simps)
    have nx: "get_next_ply_for_leaf m (leaf_of t) = Some q" using next_ply_Sub [OF q] Sub by simp
    show ?thesis
    proof (cases stop)
      case True
      show ?thesis
        by (rule unset_slot_clear [where ?m1.0 = m1, OF pool ok d _ leaf(3)])
           (use i0(1) i w True Sub leaf nx at in \<open>simp_all add: unset_slot_def Let_def del: leaf_of.simps\<close>)
    next
      case False
      then obtain ts' where ts': "t' = Sub q ts'" "ply_ok (ply_at m1) (r - 1) q ts'" and "hollow t' \<subseteq> hollow t"
        using i(3) by (auto simp del: hollow.simps)
      then have w': "unset_change r n bs del t t'" using w by (simp add: unset_change_def del: hollow.simps)
      have ne: "\<not> (\<forall>s\<in>set (us @ t' # vs). s = empty_slot)" using ts'(1) by simp
      have "pool_change m m1 (set (q # plies ts0)) (set (q # plies ts')) 0" "distinct (q # plies ts')"
        using i(1,2) ts'(1) by simp_all
      from change_below [OF ok [unfolded Sub] d [unfolded Sub] this(1) ts'(2) this(2)]
      have "unset_slot_spec m r p us t vs n bs del (m1, False)"
        by (intro unset_slot_go [OF w']) (use ne in \<open>simp_all add: Sub ts'(1)\<close>)
      then show ?thesis using i0(1) False leaf nx at by (simp add: unset_slot_def del: leaf_of.simps)
    qed
  qed
qed

theorem unset_leaf_ok:
  assumes "pool_ok (ply_pool m)" and "ply_ok (ply_at m) r p ts" and "distinct (p # plies ts)" and "r \<le> 3"
    and len: "0 < dst_address_length a" "dst_address_length a \<le> 32"
    and pre: "is_prefix (dst_address a) (dst_address_length a)"
    and adj: "adj_index a \<noteq> 0" "unat (adj_index a) < 2 ^ 31"
    and "only_below (Suc r) (dst_address_length a - 8 * (3 - r)) (addr_bytes (dst_address a) r) (1 + 2 * adj_index a) (Sub p ts)"
  shows "\<exists>x. unset_leaf (Suc r) m a p = Some x \<and>
    unset_ply_spec m r p ts (dst_address_length a - 8 * (3 - r)) (addr_bytes (dst_address a) r) (1 + 2 * adj_index a) x"
  using assms(1-4,10)
proof (induction r arbitrary: m p ts rule: less_induct)
  case (less r)
  let ?len = "dst_address_length a" and ?del = "1 + 2 * adj_index a" and ?a = "dst_address a"
  let ?n = "?len - 8 * (3 - r)" and ?bs = "if r = 0 then [] else addr_bytes ?a (r - 1)"
  have del: "?del \<noteq> 1" "odd ?del" using adj double_1_eq by simp_all
  have step: "\<exists>x. unset_slot r a p ?del (length us) m = Some x \<and> unset_slot_spec m r p us t vs (?n - 8) ?bs ?del x"
    if pool: "pool_ok (ply_pool m)" and ok: "ply_ok (ply_at m) r p (us @ t # vs)"
      and d: "distinct (p # plies (us @ t # vs))" and o: "only_below r (?n - 8) ?bs ?del t" for us t vs m
  proof (rule unset_slot_step [OF del _ pool ok d o less.prems(4)])
    fix q ts assume r: "0 < r" and q: "ply_ok (ply_at m) (r - 1) q ts" "distinct (q # plies ts)" "only_below r (?n - 8) ?bs ?del (Sub q ts)"
    have r1: "r - 1 < r" "r - 1 \<le> 3" "Suc (r - 1) = r" "?len - 8 * (3 - (r - 1)) = ?n - 8" using r less.prems(4) by simp_all
    show "\<exists>x. unset_leaf r m a q = Some x \<and> unset_ply_spec m (r - 1) q ts (?n - 8) ?bs ?del x"
      using less.IH [OF r1(1) pool q(1,2) r1(2)] q(3) r unfolding r1(3,4) by simp
  qed
  define b where "b = (if int ?len - 8 * (int (3 - r) + 1) < 0
      then as_u8 ?a (3 - r) AND NOT (ucast (low_mask (nat (- (int ?len - 8 * (int (3 - r) + 1)))))) else as_u8 ?a (3 - r))"
  define k where "k = min 8 (if int ?len - 8 * (int (3 - r) + 1) \<le> 0 then nat (- (int ?len - 8 * (int (3 - r) + 1))) else 0)"
  note rg = unset_range [OF pre less.prems(4) len b_def k_def refl]
  have l: "length ts = 256" using less.prems(2) by (simp add: ply_ok_def)
  define us ms vs where "us = take (unat b) ts" and "ms = take (2 ^ k) (drop (unat b) ts)" and "vs = drop (2 ^ k) (drop (unat b) ts)"
  have ts: "ts = us @ ms @ vs" by (simp only: us_def ms_def vs_def append_take_drop_id)
  have lens: "length us = unat b" "length ms = 2 ^ k" using rg(3) l by (simp_all add: us_def ms_def)
  have bytes: "addr_bytes ?a r = as_u8 ?a (3 - r) # ?bs" by (rule addr_bytes_Cons [OF less.prems(4)])
  have below: "only_below r (?n - 8) ?bs ?del t" if t: "t \<in> set ms" for t
  proof -
    obtain j where "j < length ms" "t = ms ! j" using t by (auto simp: in_set_conv_nth)
    then have j: "j < 2 ^ k" "t = ts ! (unat b + j)" using lens ts by (auto simp: nth_append)
    define x :: u8 where "x = word_of_nat (unat b + j)"
    have x: "unat x = unat b + j" using j(1) rg(3) unfolding x_def unat_of_nat by simp
    then have "drop_bit (8 - ?n) (as_u8 ?a (3 - r)) = drop_bit (8 - ?n) x" using rg(2) [of x] j(1) by simp
    then show ?thesis using less.prems(5) x j(2)
      unfolding only_below_def bytes by (metis (no_types, lifting) length_Cons pmatch_Cons walk.simps(2))
  qed
  have ok: "ply_ok (ply_at m) r p (us @ ms @ vs)" "distinct (p # plies (us @ ms @ vs))" using less.prems(2,3) ts by simp_all
  obtain m' stop ms' where u: "for_until (length us) (length us + length ms) (unset_slot r a p ?del) m = Some (m', stop)"
      "list_all2 (unset_change r (?n - 8) ?bs ?del) ms ms'"
    and c: "if stop then r < 3 \<and> (\<forall>s\<in>set (us @ ms' @ vs). s = empty_slot) \<and> pool_change m m' (set (p # plies (us @ ms @ vs))) {} 0
       else pool_change m m' (set (p # plies (us @ ms @ vs))) (set (p # plies (us @ ms' @ vs))) 0
         \<and> ply_ok (ply_at m') r p (us @ ms' @ vs) \<and> distinct (p # plies (us @ ms' @ vs))
         \<and> (r < 3 \<longrightarrow> (\<forall>s\<in>set (us @ ms' @ vs). s = empty_slot) \<longrightarrow> (\<forall>s\<in>set (us @ ms @ vs). s = empty_slot))"
    using unset_loop [OF step del(1) less.prems(1) ok] below by blast
  have e: "unset_leaf (Suc r) m a p = Some (m', stop)"
    using u(1) len adj unfolding unset_slot_def unset_leaf.simps Let_def b_def [symmetric] k_def [symmetric] lens by simp
  have lm: "length ms' = 2 ^ k" using u(2) lens(2) by (simp add: list_all2_lengthD)
  have w: "walks_change (Suc r) ?n (addr_bytes ?a r) (clear_leaf ?del) (Sub p ts) (Sub p (us @ ms' @ vs))"
    unfolding bytes
  proof (rule walks_change_slots [OF rg(2)])
    fix i :: nat assume "i < 256"
    show "if unat b \<le> i \<and> i < unat b + 2 ^ k
      then walks_change r (?n - 8) ?bs (clear_leaf ?del) (ts ! i) ((us @ ms' @ vs) ! i) else (us @ ms' @ vs) ! i = ts ! i"
      using list_all2_nthD [OF u(2), of "i - unat b"] lens lm by (auto simp: ts nth_append unset_change_def)
  qed
  show ?case
  proof (cases stop)
    case True
    then have all: "\<forall>s\<in>set (us @ ms' @ vs). s = empty_slot" and pc: "pool_change m m' (set (p # plies ts)) {} 0" and "r < 3"
      using c unfolding ts by (simp only: if_True; blast)+
    have "length (us @ ms' @ vs) = 256" using lens lm l ts by simp
    then have "walk (Sub p (us @ ms' @ vs)) xs = walk empty_slot xs" if "length xs = Suc r" for xs
      using that all unat_u8_lt by (cases xs) (metis list.size(3) nat.distinct(1), metis nth_mem walk.simps(1,2))
    then have "walks_change (Suc r) ?n (addr_bytes ?a r) (clear_leaf ?del) (Sub p ts) empty_slot"
      using w by (simp add: walks_change_def)
    then show ?thesis using e pc True \<open>r < 3\<close> by (intro exI [of _ "(m', stop)"]) (simp add: unset_ply_spec_def)
  next
    case False
    have "hollow x' \<subseteq> (\<Union>t\<in>set ms. hollow t)" if "x' \<in> set ms'" for x'
      using list_all2_conv_all_nth [THEN iffD1, OF u(2)] that unfolding unset_change_def in_set_conv_nth by (metis UN_upper nth_mem order_trans)
    then have "(\<Union>t\<in>set (us @ ms' @ vs). hollow t) \<subseteq> (\<Union>t\<in>set ts. hollow t)" unfolding ts by auto
    moreover have "r < 3 \<longrightarrow> (\<forall>s\<in>set (us @ ms' @ vs). s = empty_slot) \<longrightarrow> (\<forall>s\<in>set ts. s = empty_slot)" using c False ts by simp
    moreover have "pool_change m m' (set (p # plies ts)) (set (plies_of (Sub p (us @ ms' @ vs)))) 0"
      "ply_ok (ply_at m') r p (us @ ms' @ vs)" "distinct (plies_of (Sub p (us @ ms' @ vs)))" using c False ts by simp_all
    ultimately have "unset_ply_spec m r p ts ?n (addr_bytes ?a r) ?del (m', False)"
      using w unfolding unset_ply_spec_def prod.case if_False by blast
    moreover have "unset_leaf (Suc r) m a p = Some (m', False)" using e False by (simp del: unset_leaf.simps)
    ultimately show ?thesis by blast
  qed
qed

end
