(* ===== verification/Ip4_Fib.thy ===== *)
theory Ip4_Fib
  imports Ip4_Mtrie
begin

text \<open>
  The whole trie of \<^verbatim>\<open>vnet/ip/ip4_mtrie.c\<close> and the FIB tables of \<^verbatim>\<open>vnet/fib/ip4_fib.c\<close> that use it: route
  changes, the lookup of the forwarding nodes through the trie and the lookup through the hash
  tables, which is the reference for the first. The contract of a forwarding table is the locale
  \<open>route_table\<close>.
\<close>

section \<open>The whole trie\<close>

definition mtrie_rep :: "ip4_fib_mtrie_t \<Rightarrow> slot list \<Rightarrow> bool" where
  "mtrie_rep m ts \<longleftrightarrow> pool_ok (ply_pool m) \<and> ply_ok (ply_at m) 3 0 ts \<and> distinct (0 # plies ts)
     \<and> pool_live (ply_pool m) = set (0 # plies ts)"

text \<open>The leaf and prefix length found for an address.\<close>

definition find_leaf :: "slot list \<Rightarrow> ip4_address_t \<Rightarrow> ip4_fib_mtrie_leaf_t \<times> u8" where
  "find_leaf ts x = walk (Sub 0 ts) (addr_bytes x 3)"

lemma leaf_at_nth: "i < length ts \<Longrightarrow> leaf_at (ply_of ts) i = Some (leaf_of (ts ! i), bits_of (ts ! i))"
  by (simp add: leaf_at_def ply_of_def)

lemma mtrie_init_ok:
  "\<exists>m. ip4_mtrie_init = Some m \<and> mtrie_rep m (replicate 256 empty_slot) \<and> default_leaf m = IP4_FIB_MTRIE_LEAF_EMPTY
     \<and> length (pool_vec (ply_pool m)) = 1"
proof -
  let ?p = "ply_init 1 0"
  let ?pool = "\<lparr>pool_vec = [?p], free_bitmap = [], free_indices = []\<rparr>"
  let ?m = "\<lparr>ply_pool = ?pool, default_leaf = 1\<rparr>"
  have g: "pool_get ?p pool_null = (?pool, 0)" by (simp add: pool_get_def pool_null_def)
  have ok: "pool_ok ?pool" "pool_live ?pool = {0}" using pool_get_ok_live [OF pool_ok_null g] by auto
  have "ip4_mtrie_init = Some ?m"
    by (simp add: ip4_mtrie_init_def ply_create_def g ply_put_def pool_store_def Let_def
        ip4_fib_mtrie_leaf_set_next_ply_index_def ip4_fib_mtrie_leaf_get_next_ply_index_def)
  moreover have "ply_at ?m 0 = Some ?p" using ok by (simp add: ply_at_def pool_elt_live)
  then have "ply_ok (ply_at ?m) 3 0 (replicate 256 empty_slot)"
    using ply_of_replicate [of 1 0] by (simp add: ply_ok_def)
  then have "mtrie_rep ?m (replicate 256 empty_slot)" using ok by (simp add: mtrie_rep_def)
  ultimately show ?thesis by (intro exI [of _ ?m]) simp
qed

lemma four: "(4 :: nat) = Suc 3"
  by simp

lemma bytes_addr: "length xs = Suc 3 \<Longrightarrow> \<exists>x. xs = addr_bytes x 3"
proof -
  assume "length xs = Suc 3"
  then obtain b0 b1 b2 b3 where xs: "xs = [b0, b1, b2, b3]" by (auto simp: numeral_eq_Suc length_Suc_conv)
  define x :: u32 where "x = push_bit 24 (ucast b0) OR push_bit 16 (ucast b1) OR push_bit 8 (ucast b2) OR ucast b3"
  have "as_u8 x 0 = b0" "as_u8 x 1 = b1" "as_u8 x 2 = b2" "as_u8 x 3 = b3"
    by (rule bit_word_eqI; auto simp: bit_as_u8 x_def bit_or_iff bit_push_bit_iff bit_unsigned_iff dest: bit_imp_le_length)+
  then have "addr_bytes x 3 = xs" by (simp add: xs addr_bytes_def upt_rec numeral_2_eq_2 numeral_3_eq_3)
  then show ?thesis by metis
qed

lemma set_leaf_root:
  assumes rep: "mtrie_rep m ts" and len: "0 < dst_address_length a" "dst_address_length a \<le> 32"
    and pre: "is_prefix (dst_address a) (dst_address_length a)" and adj: "adj_index a \<noteq> 0" "unat (adj_index a) < 2 ^ 31"
    and v: "length (pool_vec (ply_pool m)) + 3 \<le> 2 ^ 31"
  obtains m' ts' where "set_leaf 4 m a 0 = Some m'" and "mtrie_rep m' ts'" and "default_leaf m' = default_leaf m"
    and "length (pool_vec (ply_pool m')) \<le> length (pool_vec (ply_pool m)) + 3"
    and "\<And>x. find_leaf ts' x = (if x AND fib_masks (dst_address_length a) = dst_address a
       then more_specific (1 + 2 * adj_index a) (dst_address_length a) (find_leaf ts x) else find_leaf ts x)"
proof -
  have r: "pool_ok (ply_pool m)" "ply_ok (ply_at m) 3 0 ts" "distinct (0 # plies ts)" "pool_live (ply_pool m) = set (0 # plies ts)"
    using rep by (simp_all add: mtrie_rep_def)
  have z: "0 \<in> pool_live (ply_pool m)" using r(4) by simp
  obtain m' ts' where s: "set_leaf (Suc 3) m a 0 = Some m'" "pool_change m m' (set (0 # plies ts)) (set (0 # plies ts')) 3"
    "ply_ok (ply_at m') 3 0 ts'" "distinct (0 # plies ts')"
    "walks_change (Suc 3) (dst_address_length a) (addr_bytes (dst_address a) 3)
        (more_specific (1 + 2 * adj_index a) (dst_address_length a)) (Sub 0 ts) (Sub 0 ts')"
    using set_leaf_ok [OF r(1-3) _ _ len(2) pre adj v z] len(1) by auto
  have "pool_live (ply_pool m') = set (0 # plies ts')" "pool_ok (ply_pool m')" using s(2) unfolding pool_change_def r(4) by blast+
  then have "mtrie_rep m' ts'" using s(3,4) by (simp add: mtrie_rep_def)
  moreover have "find_leaf ts' x = (if x AND fib_masks (dst_address_length a) = dst_address a
       then more_specific (1 + 2 * adj_index a) (dst_address_length a) (find_leaf ts x) else find_leaf ts x)" for x
    using s(5) pmatch_masks [OF len(2), of "dst_address a" x] pre
    by (simp add: walks_change_def find_leaf_def is_prefix_def del: addr_bytes_simps walk.simps)
  moreover have "set_leaf 4 m a 0 = Some m'" using s(1) unfolding four .
  moreover have "default_leaf m' = default_leaf m" "length (pool_vec (ply_pool m')) \<le> length (pool_vec (ply_pool m)) + 3"
    using s(2) unfolding pool_change_def by blast+
  ultimately show ?thesis by (intro that [of m' ts']) blast+
qed

lemma unset_leaf_root:
  assumes rep: "mtrie_rep m ts" and len: "0 < dst_address_length a" "dst_address_length a \<le> 32"
    and pre: "is_prefix (dst_address a) (dst_address_length a)" and adj: "adj_index a \<noteq> 0" "unat (adj_index a) < 2 ^ 31"
    and only: "\<And>x. fst (find_leaf ts x) = 1 + 2 * adj_index a \<Longrightarrow> x AND fib_masks (dst_address_length a) = dst_address a"
  obtains m' ts' where "unset_leaf 4 m a 0 = Some (m', False)" and "mtrie_rep m' ts'" and "default_leaf m' = default_leaf m"
    and "length (pool_vec (ply_pool m')) \<le> length (pool_vec (ply_pool m))"
    and "\<And>x. find_leaf ts' x = clear_leaf (1 + 2 * adj_index a) (find_leaf ts x)"
    and "(\<Union>t\<in>set ts'. hollow t) \<subseteq> (\<Union>t\<in>set ts. hollow t)"
proof -
  let ?del = "1 + 2 * adj_index a" and ?len = "dst_address_length a"
  have r: "pool_ok (ply_pool m)" "ply_ok (ply_at m) 3 0 ts" "distinct (0 # plies ts)" "pool_live (ply_pool m) = set (0 # plies ts)"
    using rep by (simp_all add: mtrie_rep_def)
  have pm: "pmatch ?len (addr_bytes (dst_address a) 3) (addr_bytes x 3) \<longleftrightarrow> x AND fib_masks ?len = dst_address a" for x
    using pmatch_masks [OF len(2), of "dst_address a" x] pre by (simp add: is_prefix_def del: addr_bytes_simps)
  have n: "?len - 8 * (3 - 3) = ?len" by simp
  have "only_below (Suc 3) (?len - 8 * (3 - 3)) (addr_bytes (dst_address a) 3) ?del (Sub 0 ts)"
    unfolding only_below_def n using only pm bytes_addr unfolding find_leaf_def by metis
  from unset_leaf_ok [OF r(1-3) _ len pre adj this] obtain m' stop where s: "unset_leaf (Suc 3) m a 0 = Some (m', stop)"
    "unset_ply_spec m 3 0 ts ?len (addr_bytes (dst_address a) 3) ?del (m', stop)" unfolding n by (metis order_refl surj_pair)
  have "\<not> stop" using s(2) by (cases stop) (simp_all add: unset_ply_spec_def)
  then obtain ts' where ts': "walks_change (Suc 3) ?len (addr_bytes (dst_address a) 3) (clear_leaf ?del) (Sub 0 ts) (Sub 0 ts')"
    "distinct (0 # plies ts')" "pool_change m m' (set (0 # plies ts)) (set (0 # plies ts')) 0" "ply_ok (ply_at m') 3 0 ts'"
    "(\<Union>t\<in>set ts'. hollow t) \<subseteq> (\<Union>t\<in>set ts. hollow t)"
    using s(2) by (auto simp: unset_ply_spec_def simp del: walk.simps hollow.simps)
  have "pool_live (ply_pool m') = set (0 # plies ts')" "pool_ok (ply_pool m')" using ts'(3) unfolding pool_change_def r(4) by blast+
  then have "mtrie_rep m' ts'" using ts'(2,4) by (simp add: mtrie_rep_def)
  moreover have "find_leaf ts' x = clear_leaf ?del (find_leaf ts x)" for x
  proof -
    have "length (addr_bytes x 3) = Suc 3" by simp
    then have "find_leaf ts' x = (if x AND fib_masks ?len = dst_address a then clear_leaf ?del (find_leaf ts x) else find_leaf ts x)"
      using ts'(1) pm [of x] unfolding walks_change_def find_leaf_def by metis
    then show ?thesis using only [of x] by (cases "find_leaf ts x") auto
  qed
  moreover have "unset_leaf 4 m a 0 = Some (m', False)" using s(1) \<open>\<not> stop\<close> unfolding four by (simp del: unset_leaf.simps)
  moreover have "default_leaf m' = default_leaf m" "length (pool_vec (ply_pool m')) \<le> length (pool_vec (ply_pool m)) + 0"
    using ts'(3) unfolding pool_change_def by blast+
  ultimately show ?thesis using ts'(5) by (intro that [of m' ts']) simp_all
qed

section \<open>Lookups\<close>

lemma lookup_step_slot:
  assumes "mtrie_rep m ts" and "slot_ok (ply_at m) r t" and "0 < r" and "r \<le> 3"
  obtains t' where "ip4_fib_mtrie_lookup_step m (leaf_of t) x (4 - r) = Some (leaf_of t')"
    and "slot_ok (ply_at m) (r - 1) t'" and "walk t (addr_bytes x (r - 1)) = walk t' (tl (addr_bytes x (r - 1)))"
proof -
  have vec: "pool_vec (ply_pool m) ! q = p \<and> q < length (pool_vec (ply_pool m))" if "ply_at m q = Some p" for q p
    using that ply_at_live [OF that] by (simp add: ply_at_def pool_elt_live pool_live_iff)
  have root: "ply_at m 0 = Some (ply_of ts)" "length ts = 256" using assms(1) by (simp_all add: mtrie_rep_def ply_ok_def)
  have b: "addr_bytes x (r - 1) = as_u8 x (4 - r) # tl (addr_bytes x (r - 1))"
    using addr_bytes_Cons [of "r - 1" x] assms(3,4) by simp
  have i: "unat (as_u8 x (4 - r)) < 256" by (rule unat_u8_lt)
  show ?thesis
  proof (cases t)
    case (Term l b)
    then have "ip4_fib_mtrie_lookup_step m (leaf_of t) x (4 - r) = Some (leaf_of t)"
      using assms(2) vec [OF root(1)] i root(2) by (simp add: ip4_fib_mtrie_lookup_step_def leaf_at_nth)
    then show ?thesis using assms(2) Term by (intro that [of t]) auto
  next
    case (Sub q us)
    let ?t = "us ! unat (as_u8 x (4 - r))"
    have q: "ply_at m q = Some (ply_of us)" "length us = 256" using assms(2) Sub by simp_all
    have "slot_ok (ply_at m) (r - 1) ?t" using assms(2) Sub i by simp
    moreover have "ip4_fib_mtrie_lookup_step m (leaf_of t) x (4 - r) = Some (leaf_of ?t)"
      using vec [OF q(1)] i q(2) leaf_of_Sub_ok [of "ply_at m" r q us] assms(2) Sub
      by (simp add: ip4_fib_mtrie_lookup_step_def leaf_at_nth del: leaf_of.simps)
    moreover have "walk t (addr_bytes x (r - 1)) = walk ?t (tl (addr_bytes x (r - 1)))" by (subst b) (simp add: Sub)
    ultimately show ?thesis by (intro that)
  qed
qed

lemma tl_addr_bytes: "0 < r \<Longrightarrow> r \<le> 3 \<Longrightarrow> tl (addr_bytes x r) = addr_bytes x (r - 1)"
  by (simp add: addr_bytes_Cons)

lemma lookup_steps:
  assumes rep: "mtrie_rep m ts"
  shows "do {
      leaf \<leftarrow> ip4_fib_mtrie_lookup_step m IP4_FIB_MTRIE_LEAF_ROOT x 0;
      leaf \<leftarrow> ip4_fib_mtrie_lookup_step m leaf x 1;
      leaf \<leftarrow> ip4_fib_mtrie_lookup_step m leaf x 2;
      ip4_fib_mtrie_lookup_step m leaf x 3} = Some (fst (find_leaf ts x))" and "odd (fst (find_leaf ts x))"
proof -
  have root: "ply_at m 0 = Some (ply_of ts)" "length ts = 256" "\<forall>t\<in>set ts. slot_ok (ply_at m) 3 t"
    using rep by (simp_all add: mtrie_rep_def ply_ok_def)
  let ?t = "ts ! unat (as_u8 x 0)"
  have i: "unat (as_u8 x 0) < 256" by (rule unat_u8_lt)
  have s0: "ip4_fib_mtrie_lookup_step m 0 x 0 = Some (leaf_of ?t)"
    using root i ply_at_live [OF root(1)]
    by (simp add: ip4_fib_mtrie_lookup_step_def leaf_at_nth ply_at_def pool_elt_live pool_live_iff)
  have t0: "slot_ok (ply_at m) 3 ?t" using root i by simp
  have w0: "find_leaf ts x = walk ?t (addr_bytes x 2)"
    using addr_bytes_Cons [of 3 x] by (simp add: find_leaf_def numeral_eq_Suc)
  obtain t1 where t1: "ip4_fib_mtrie_lookup_step m (leaf_of ?t) x 1 = Some (leaf_of t1)" "slot_ok (ply_at m) 2 t1"
    "walk ?t (addr_bytes x 2) = walk t1 (addr_bytes x 1)"
    using lookup_step_slot [OF rep t0, of x] tl_addr_bytes [of 2 x] by (auto simp del: addr_bytes_simps)
  obtain t2 where t2: "ip4_fib_mtrie_lookup_step m (leaf_of t1) x 2 = Some (leaf_of t2)" "slot_ok (ply_at m) 1 t2"
    "walk t1 (addr_bytes x 1) = walk t2 (addr_bytes x 0)"
    using lookup_step_slot [OF rep t1(2), of x] tl_addr_bytes [of 1 x] by (auto simp del: addr_bytes_simps)
  obtain t3 where t3: "ip4_fib_mtrie_lookup_step m (leaf_of t2) x 3 = Some (leaf_of t3)" "slot_ok (ply_at m) 0 t3"
    "walk t2 (addr_bytes x 0) = walk t3 []"
    using lookup_step_slot [OF rep t2(2), of x] by auto
  obtain l b where l: "t3 = Term l b" "odd l" using t3(2) by (cases t3) auto
  then show "odd (fst (find_leaf ts x))" using w0 t1(3) t2(3) t3(3) by simp
  show "do {
      leaf \<leftarrow> ip4_fib_mtrie_lookup_step m IP4_FIB_MTRIE_LEAF_ROOT x 0;
      leaf \<leftarrow> ip4_fib_mtrie_lookup_step m leaf x 1;
      leaf \<leftarrow> ip4_fib_mtrie_lookup_step m leaf x 2;
      ip4_fib_mtrie_lookup_step m leaf x 3} = Some (fst (find_leaf ts x))"
    using s0 t1(1) t2(1) t3(1) w0 t1(3) t2(3) t3(3) l by simp
qed

section \<open>FIB tables\<close>

text \<open>
  A table of \<^verbatim>\<open>vnet/ip/ip4.h\<close>: for each prefix length the hash table from prefixes to FIB entries (a
  null table is an empty map), and the trie. \<open>fe_lb\<close> gives the load-balance index that an entry
  contributes, its field \<open>fe_lb.dpoi_index\<close>. The identifiers and the hash configuration of the
  table are left out.
\<close>

record ip4_fib_t =
  fib_entry_by_dst_address :: "nat \<Rightarrow> u32 \<rightharpoonup> u32"
  mtrie :: ip4_fib_mtrie_t

abbreviation (input) INDEX_INVALID :: u32 where "INDEX_INVALID \<equiv> - 1"
abbreviation (input) FIB_NODE_INDEX_INVALID :: u32 where "FIB_NODE_INDEX_INVALID \<equiv> - 1"

text \<open>The search for the next less specific route after a deletion, from length \<open>i\<close> downwards.\<close>

primrec insert_less_specific ::
    "(u32 \<Rightarrow> u32) \<Rightarrow> ip4_fib_t \<Rightarrow> ip4_address_t \<Rightarrow> nat \<Rightarrow> ip4_fib_mtrie_t \<Rightarrow> ip4_fib_mtrie_t option" where
  "insert_less_specific fe_lb fib dst 0 m = Some m"
| "insert_less_specific fe_lb fib dst (Suc n) m =
    (let i = Suc n; key = dst AND fib_masks i
     in case fib_entry_by_dst_address fib i key of
       None \<Rightarrow> insert_less_specific fe_lb fib dst n m
     | Some p \<Rightarrow>
         let lbi = fe_lb p
         in if lbi = INDEX_INVALID then insert_less_specific fe_lb fib dst n m
            else set_leaf 4 m \<lparr>dst_address = key, dst_address_length = i, adj_index = lbi\<rparr> 0)"

definition ip4_fib_mtrie_add_del_route ::
    "(u32 \<Rightarrow> u32) \<Rightarrow> ip4_fib_t \<Rightarrow> ip4_address_t \<Rightarrow> nat \<Rightarrow> u32 \<Rightarrow> bool \<Rightarrow> ip4_fib_t option" where
  "ip4_fib_mtrie_add_del_route fe_lb fib dst len adj is_del =
    (let m = mtrie fib
     in if pool_vec (ply_pool m) = [] \<or> 32 < len then None
     else do {
       root_ply \<leftarrow> ply_at m 0;
       let dst = dst AND fib_masks len;
       let a = \<lparr>dst_address = dst, dst_address_length = len, adj_index = adj\<rparr>;
       if \<not> is_del
       then if len = 0
         then do {l \<leftarrow> ip4_fib_mtrie_leaf_set_adj_index adj; Some (fib\<lparr>mtrie := m\<lparr>default_leaf := l\<rparr>\<rparr>)}
         else do {m \<leftarrow> set_leaf 4 m a 0; Some (fib\<lparr>mtrie := m\<rparr>)}
       else if len = 0
         then Some (fib\<lparr>mtrie := m\<lparr>default_leaf := IP4_FIB_MTRIE_LEAF_EMPTY\<rparr>\<rparr>)
         else do {
           (m, _) \<leftarrow> unset_leaf 4 m a 0;
           m \<leftarrow> insert_less_specific fe_lb fib dst (len - 1) m;
           Some (fib\<lparr>mtrie := m\<rparr>)}
     })"

definition ip4_fib_table_lookup_exact_match :: "ip4_fib_t \<Rightarrow> ip4_address_t \<Rightarrow> nat \<Rightarrow> u32" where
  "ip4_fib_table_lookup_exact_match fib addr len =
    (case fib_entry_by_dst_address fib len (addr AND fib_masks len) of
       Some result \<Rightarrow> result
     | None \<Rightarrow> FIB_NODE_INDEX_INVALID)"

primrec ip4_fib_table_lookup :: "ip4_fib_t \<Rightarrow> ip4_address_t \<Rightarrow> nat \<Rightarrow> u32" where
  "ip4_fib_table_lookup fib addr 0 =
    (case fib_entry_by_dst_address fib 0 (addr AND fib_masks 0) of
       Some result \<Rightarrow> result
     | None \<Rightarrow> FIB_NODE_INDEX_INVALID)"
| "ip4_fib_table_lookup fib addr (Suc mask_len) =
    (case fib_entry_by_dst_address fib (Suc mask_len) (addr AND fib_masks (Suc mask_len)) of
       Some result \<Rightarrow> result
     | None \<Rightarrow> ip4_fib_table_lookup fib addr mask_len)"

definition ip4_fib_table_lookup_lb :: "(u32 \<Rightarrow> u32) \<Rightarrow> ip4_fib_t \<Rightarrow> ip4_address_t \<Rightarrow> u32" where
  "ip4_fib_table_lookup_lb fe_lb fib addr =
    (let fei = ip4_fib_table_lookup fib addr 32
     in if fei \<noteq> FIB_NODE_INDEX_INVALID then fe_lb fei else INDEX_INVALID)"

definition ip4_fib_table_entry_insert :: "ip4_fib_t \<Rightarrow> ip4_address_t \<Rightarrow> nat \<Rightarrow> u32 \<Rightarrow> ip4_fib_t option" where
  "ip4_fib_table_entry_insert fib addr len fib_entry_index =
    (let key = addr AND fib_masks len; h = fib_entry_by_dst_address fib len
     in case h key of
       None \<Rightarrow> Some (fib\<lparr>fib_entry_by_dst_address := (fib_entry_by_dst_address fib)(len := h(key \<mapsto> fib_entry_index))\<rparr>)
     | Some result \<Rightarrow> None)"

definition ip4_fib_table_entry_remove :: "ip4_fib_t \<Rightarrow> ip4_address_t \<Rightarrow> nat \<Rightarrow> ip4_fib_t" where
  "ip4_fib_table_entry_remove fib addr len =
    (let key = addr AND fib_masks len; h = fib_entry_by_dst_address fib len
     in fib\<lparr>fib_entry_by_dst_address := (fib_entry_by_dst_address fib)(len := h(key := None))\<rparr>)"

definition ip4_fib_table_fwding_dpo_update ::
    "(u32 \<Rightarrow> u32) \<Rightarrow> ip4_fib_t \<Rightarrow> ip4_address_t \<Rightarrow> nat \<Rightarrow> u32 \<Rightarrow> ip4_fib_t option" where
  "ip4_fib_table_fwding_dpo_update fe_lb fib addr len dpoi_index =
    ip4_fib_mtrie_add_del_route fe_lb fib addr len dpoi_index False"

definition ip4_fib_table_fwding_dpo_remove ::
    "(u32 \<Rightarrow> u32) \<Rightarrow> ip4_fib_t \<Rightarrow> ip4_address_t \<Rightarrow> nat \<Rightarrow> u32 \<Rightarrow> ip4_fib_t option" where
  "ip4_fib_table_fwding_dpo_remove fe_lb fib addr len dpoi_index =
    ip4_fib_mtrie_add_del_route fe_lb fib addr len dpoi_index True"

definition ip4_fib_forwarding_lookup :: "ip4_fib_t \<Rightarrow> ip4_address_t \<Rightarrow> u32 option" where
  "ip4_fib_forwarding_lookup fib addr = do {
     let m = mtrie fib;
     leaf \<leftarrow> ip4_fib_mtrie_lookup_step m IP4_FIB_MTRIE_LEAF_ROOT addr 0;
     leaf \<leftarrow> ip4_fib_mtrie_lookup_step m leaf addr 1;
     leaf \<leftarrow> ip4_fib_mtrie_lookup_step m leaf addr 2;
     leaf \<leftarrow> ip4_fib_mtrie_lookup_step m leaf addr 3;
     let leaf = (if leaf = IP4_FIB_MTRIE_LEAF_EMPTY then default_leaf m else leaf);
     ip4_fib_mtrie_leaf_get_adj_index leaf
   }"

section \<open>Longest prefix match\<close>

text \<open>The best route of length 1 to \<open>n\<close> for an address, as a leaf with its length.\<close>

primrec best :: "(u32 \<Rightarrow> u32) \<Rightarrow> (nat \<Rightarrow> u32 \<rightharpoonup> u32) \<Rightarrow> ip4_address_t \<Rightarrow> nat \<Rightarrow> ip4_fib_mtrie_leaf_t \<times> u8" where
  "best fe h x 0 = (IP4_FIB_MTRIE_LEAF_EMPTY, 0)"
| "best fe h x (Suc n) =
    (case h (Suc n) (x AND fib_masks (Suc n)) of
       Some e \<Rightarrow> (1 + 2 * fe e, word_of_nat (Suc n))
     | None \<Rightarrow> best fe h x n)"

definition routes_ok :: "(u32 \<Rightarrow> u32) \<Rightarrow> (nat \<Rightarrow> u32 \<rightharpoonup> u32) \<Rightarrow> bool" where
  "routes_ok fe h \<longleftrightarrow> (\<forall>len key e. h len key = Some e \<longrightarrow>
     len \<le> 32 \<and> is_prefix key len \<and> fe e \<noteq> 0 \<and> unat (fe e) < 2 ^ 31 \<and> e \<noteq> FIB_NODE_INDEX_INVALID)"

text \<open>No two routes contribute the same load balance.\<close>

definition lb_unique :: "(u32 \<Rightarrow> u32) \<Rightarrow> (nat \<Rightarrow> u32 \<rightharpoonup> u32) \<Rightarrow> bool" where
  "lb_unique fe h \<longleftrightarrow> (\<forall>len key e len' key' e'. h len key = Some e \<longrightarrow> h len' key' = Some e' \<longrightarrow> fe e = fe e' \<longrightarrow>
     len = len' \<and> key = key')"

lemma unat_len: "n \<le> 32 \<Longrightarrow> unat (word_of_nat n :: u8) = n"
  by (simp add: unat_of_nat)

lemma best_bits: "n \<le> 32 \<Longrightarrow> unat (snd (best fe h x n)) \<le> n"
proof (induction n)
  case (Suc n)
  then show ?case using unat_len [of "Suc n"] by (auto split: option.split simp del: of_nat_Suc simp: le_SucI)
qed simp

lemma best_above:
  assumes "n \<le> 32" and "1 \<le> i" and "i \<le> n" and "h i (x AND fib_masks i) = Some e"
  shows "i \<le> unat (snd (best fe h x n)) \<and> (unat (snd (best fe h x n)) = i \<longrightarrow> best fe h x n = (1 + 2 * fe e, word_of_nat i))"
  using assms
proof (induction n)
  case (Suc n)
  show ?case
  proof (cases "h (Suc n) (x AND fib_masks (Suc n))")
    case None
    then have "i \<le> n" using Suc.prems by (cases "i = Suc n") auto
    then show ?thesis using Suc None by simp
  next
    case (Some e')
    then show ?thesis using Suc.prems unat_len [of "Suc n"] by (auto simp del: of_nat_Suc)
  qed
qed simp

lemma best_cong: "(\<And>i. 1 \<le> i \<Longrightarrow> i \<le> n \<Longrightarrow> h' i (x' AND fib_masks i) = h i (x AND fib_masks i)) \<Longrightarrow> best fe h' x' n = best fe h x n"
proof (induction n)
  case (Suc n)
  have "h' (Suc n) (x' AND fib_masks (Suc n)) = h (Suc n) (x AND fib_masks (Suc n))" by (rule Suc.prems) auto
  moreover have "best fe h' x' n = best fe h x n" by (rule Suc.IH, rule Suc.prems) auto
  ultimately show ?case by (simp split: option.split)
qed simp

lemma best_update:
  assumes h': "h' len = (h len)(key \<mapsto> e)" "\<And>i. i \<noteq> len \<Longrightarrow> h' i = h i"
    and "n \<le> 32" and "1 \<le> len" and "len \<le> n"
  shows "best fe h' x n =
    (if x AND fib_masks len = key then more_specific (1 + 2 * fe e) len (best fe h x n) else best fe h x n)"
  using assms(3-)
proof (induction n)
  case (Suc n)
  show ?case
  proof (cases "len = Suc n")
    case True
    have b: "best fe h' x n = best fe h x n" by (rule best_cong) (use True h'(2) in auto)
    have "more_specific (1 + 2 * fe e) len (best fe h x (Suc n)) = (1 + 2 * fe e, word_of_nat len)"
      using best_bits [of "Suc n" fe h x] Suc.prems(1) True by (cases "best fe h x (Suc n)") (simp del: best.simps)
    then show ?thesis using True h'(1) b by (cases "x AND fib_masks len = key") (simp_all split: option.split)
  next
    case False
    then have i: "best fe h' x n = (if x AND fib_masks len = key then more_specific (1 + 2 * fe e) len (best fe h x n) else best fe h x n)"
      using Suc by simp
    show ?thesis
      using False i h'(2) [of "Suc n"] Suc.prems unat_len [of "Suc n"] by (auto split: option.split simp del: of_nat_Suc)
  qed
qed simp

lemma best_cases:
  "best fe h x n = (IP4_FIB_MTRIE_LEAF_EMPTY, 0) \<and> (\<forall>i. 1 \<le> i \<longrightarrow> i \<le> n \<longrightarrow> h i (x AND fib_masks i) = None)
   \<or> (\<exists>i e. 1 \<le> i \<and> i \<le> n \<and> h i (x AND fib_masks i) = Some e \<and> best fe h x n = (1 + 2 * fe e, word_of_nat i)
        \<and> (\<forall>j. i < j \<longrightarrow> j \<le> n \<longrightarrow> h j (x AND fib_masks j) = None))"
proof (induction n)
  case (Suc n)
  show ?case
  proof (cases "h (Suc n) (x AND fib_masks (Suc n))")
    case None
    then have "best fe h x (Suc n) = best fe h x n" by simp
    moreover have "h j (x AND fib_masks j) = None" if "j \<le> Suc n" "\<not> j \<le> n" for j
      using that None by (cases "j = Suc n") auto
    ultimately show ?thesis using Suc le_SucI by metis
  next
    case (Some e)
    then have "best fe h x (Suc n) = (1 + 2 * fe e, word_of_nat (Suc n))" by simp
    then show ?thesis using Some by (intro disjI2 exI [of _ "Suc n"] exI [of _ e]) (simp del: best.simps)
  qed
qed simp

section \<open>The table and its trie\<close>

definition trie_matches :: "(u32 \<Rightarrow> u32) \<Rightarrow> (nat \<Rightarrow> u32 \<rightharpoonup> u32) \<Rightarrow> ip4_fib_mtrie_t \<Rightarrow> bool" where
  "trie_matches fe h m \<longleftrightarrow> (\<exists>ts. mtrie_rep m ts \<and> (\<forall>x. find_leaf ts x = best fe h x 32))
     \<and> default_leaf m = (case h 0 0 of None \<Rightarrow> IP4_FIB_MTRIE_LEAF_EMPTY | Some e \<Rightarrow> 1 + 2 * fe e)"

definition fib_ok :: "(u32 \<Rightarrow> u32) \<Rightarrow> ip4_fib_t \<Rightarrow> bool" where
  "fib_ok fe fib \<longleftrightarrow> routes_ok fe (fib_entry_by_dst_address fib) \<and> trie_matches fe (fib_entry_by_dst_address fib) (mtrie fib)"

lemma fib_masks_0 [simp]: "x AND fib_masks 0 = 0"
  by (rule bit_word_eqI) (simp add: bit_and_iff bit_fib_masks)

lemma lookup_none:
  "(\<And>i. 1 \<le> i \<Longrightarrow> i \<le> n \<Longrightarrow> fib_entry_by_dst_address fib i (x AND fib_masks i) = None) \<Longrightarrow>
   ip4_fib_table_lookup fib x n = ip4_fib_table_lookup fib x 0"
  by (induction n) simp_all

lemma lookup_some:
  "i \<le> n \<Longrightarrow> fib_entry_by_dst_address fib i (x AND fib_masks i) = Some e \<Longrightarrow>
   (\<And>j. i < j \<Longrightarrow> j \<le> n \<Longrightarrow> fib_entry_by_dst_address fib j (x AND fib_masks j) = None) \<Longrightarrow>
   ip4_fib_table_lookup fib x n = e"
proof (induction n)
  case (Suc n)
  show ?case
  proof (cases "i = Suc n")
    case False
    then have "ip4_fib_table_lookup fib x n = e" using Suc by auto
    then show ?thesis using Suc.prems False by simp
  qed (use Suc.prems in simp)
qed simp

lemma adj_of_leaf: "unat a < 2 ^ 31 \<Longrightarrow> ip4_fib_mtrie_leaf_get_adj_index (1 + 2 * a) = Some a"
  by (simp add: ip4_fib_mtrie_leaf_get_adj_index_def)

lemma lb_valid: "unat (a :: u32) < 2 ^ 31 \<Longrightarrow> a \<noteq> - 1"
  by (auto simp: unsigned_minus_1_eq_mask mask_eq_exp_minus_1)

text \<open>The lookup through the trie and the lookup through the hash tables agree.\<close>

lemma forwarding_lookup_ok:
  assumes "fib_ok fe fib"
  shows "ip4_fib_forwarding_lookup fib x =
    Some (let lbi = ip4_fib_table_lookup_lb fe fib x in if lbi = INDEX_INVALID then 0 else lbi)"
proof -
  let ?h = "fib_entry_by_dst_address fib"
  have ok: "routes_ok fe ?h" and tm: "trie_matches fe ?h (mtrie fib)" using assms by (simp_all add: fib_ok_def)
  obtain ts where ts: "mtrie_rep (mtrie fib) ts" "\<And>x. find_leaf ts x = best fe ?h x 32"
    and d: "default_leaf (mtrie fib) = (case ?h 0 0 of None \<Rightarrow> 1 | Some e \<Rightarrow> 1 + 2 * fe e)"
    using tm by (auto simp: trie_matches_def)
  define l where "l = fst (best fe ?h x 32)"
  have f: "ip4_fib_forwarding_lookup fib x = ip4_fib_mtrie_leaf_get_adj_index (if l = 1 then default_leaf (mtrie fib) else l)"
    using lookup_steps(1) [OF ts(1), of x]
    by (auto simp: ip4_fib_forwarding_lookup_def ts(2) l_def Let_def bind_eq_Some_conv)
  show ?thesis using best_cases [of fe ?h x 32]
  proof (elim disjE exE conjE)
    assume b: "best fe ?h x 32 = (1, 0)" "\<forall>i. 1 \<le> i \<longrightarrow> i \<le> 32 \<longrightarrow> ?h i (x AND fib_masks i) = None"
    have "ip4_fib_table_lookup fib x 32 = ip4_fib_table_lookup fib x 0" by (rule lookup_none) (use b(2) in simp)
    then show ?thesis
      using f b(1) d ok adj_of_leaf [of 0] adj_of_leaf lb_valid
      by (cases "?h 0 0") (auto simp: l_def ip4_fib_table_lookup_lb_def routes_ok_def Let_def)
  next
    fix i e assume b: "1 \<le> i" "i \<le> 32" "?h i (x AND fib_masks i) = Some e" "best fe ?h x 32 = (1 + 2 * fe e, word_of_nat i)"
      "\<forall>j. i < j \<longrightarrow> j \<le> 32 \<longrightarrow> ?h j (x AND fib_masks j) = None"
    have "ip4_fib_table_lookup fib x 32 = e" by (rule lookup_some [OF b(2,3)]) (use b(5) in simp)
    moreover have e: "fe e \<noteq> 0" "unat (fe e) < 2 ^ 31" "e \<noteq> - 1" using ok b(3) unfolding routes_ok_def by blast+
    ultimately show ?thesis
      using f b(4) double_1_eq [OF e(2)] adj_of_leaf [OF e(2)] lb_valid [OF e(2)]
      by (simp add: l_def ip4_fib_table_lookup_lb_def Let_def)
  qed
qed

section \<open>Adding and deleting routes\<close>

text \<open>
  A route is installed in the trie and then entered in the hash table of its length, and deleted
  in the reverse order, as \<^verbatim>\<open>vnet/fib/fib_table.c\<close> does.
\<close>

definition fib_route_add :: "(u32 \<Rightarrow> u32) \<Rightarrow> ip4_fib_t \<Rightarrow> ip4_address_t \<Rightarrow> nat \<Rightarrow> u32 \<Rightarrow> ip4_fib_t option" where
  "fib_route_add fe fib addr len e = do {
     fib \<leftarrow> ip4_fib_table_fwding_dpo_update fe fib addr len (fe e);
     ip4_fib_table_entry_insert fib addr len e
   }"

definition fib_route_del :: "(u32 \<Rightarrow> u32) \<Rightarrow> ip4_fib_t \<Rightarrow> ip4_address_t \<Rightarrow> nat \<Rightarrow> ip4_fib_t option" where
  "fib_route_del fe fib addr len = do {
     fib \<leftarrow> ip4_fib_table_fwding_dpo_remove fe fib addr len (fe (ip4_fib_table_lookup_exact_match fib addr len));
     Some (ip4_fib_table_entry_remove fib addr len)
   }"

lemma masks_and: "j \<le> i \<Longrightarrow> (x AND fib_masks i) AND fib_masks j = x AND fib_masks j"
  by (rule bit_word_eqI) (auto simp: bit_and_iff bit_fib_masks)

lemma route_add_ok:
  assumes fib: "fib_ok fe fib" and h: "h = fib_entry_by_dst_address fib" and key: "key = addr AND fib_masks len"
    and len: "len \<le> 32" and new: "h len key = None"
    and e: "fe e \<noteq> 0" "unat (fe e) < 2 ^ 31" "e \<noteq> FIB_NODE_INDEX_INVALID"
    and v: "length (pool_vec (ply_pool (mtrie fib))) + 3 \<le> 2 ^ 31"
  obtains fib' where "fib_route_add fe fib addr len e = Some fib'" and "fib_ok fe fib'"
    and "fib_entry_by_dst_address fib' = h(len := (h len)(key \<mapsto> e))"
    and "length (pool_vec (ply_pool (mtrie fib'))) \<le> length (pool_vec (ply_pool (mtrie fib))) + 3"
proof -
  let ?m = "mtrie fib" and ?h = "h(len := (h len)(key \<mapsto> e))"
  obtain ts where ts: "mtrie_rep ?m ts" "\<And>x. find_leaf ts x = best fe h x 32"
    and d: "default_leaf ?m = (case h 0 0 of None \<Rightarrow> 1 | Some e \<Rightarrow> 1 + 2 * fe e)"
    using fib by (auto simp: fib_ok_def trie_matches_def h)
  have r: "routes_ok fe ?h" using fib len e unfolding fib_ok_def routes_ok_def h key by (auto split: if_splits)
  have root: "ply_at ?m 0 = Some (ply_of ts)" using ts(1) by (simp add: mtrie_rep_def ply_ok_def)
  have nn: "pool_vec (ply_pool ?m) \<noteq> []" using ply_at_live [OF root] by (auto simp: pool_live_iff)
  show ?thesis
  proof (cases "len = 0")
    case True
    let ?fib = "fib\<lparr>mtrie := ?m\<lparr>default_leaf := 1 + 2 * fe e\<rparr>, fib_entry_by_dst_address := ?h\<rparr>"
    have "fib_route_add fe fib addr len e = Some ?fib"
      using True nn root new e(2)
      by (simp add: fib_route_add_def ip4_fib_table_fwding_dpo_update_def ip4_fib_mtrie_add_del_route_def
          ip4_fib_table_entry_insert_def h key Let_def)
    moreover have "find_leaf ts x = best fe ?h x 32" for x
      unfolding ts(2) by (rule best_cong) (use True in auto)
    then have "trie_matches fe ?h (?m\<lparr>default_leaf := 1 + 2 * fe e\<rparr>)"
      using ts(1) True key unfolding trie_matches_def by (auto simp: mtrie_rep_def ply_at_def [abs_def])
    then have "fib_ok fe ?fib" using r by (simp add: fib_ok_def)
    ultimately show ?thesis by (rule that) simp_all
  next
    case False
    define a where "a = \<lparr>dst_address = key, dst_address_length = len, adj_index = fe e\<rparr>"
    have a: "dst_address a = key" "dst_address_length a = len" "adj_index a = fe e" by (simp_all add: a_def)
    obtain m' ts' where s: "set_leaf 4 ?m a 0 = Some m'" "mtrie_rep m' ts'" "default_leaf m' = default_leaf ?m"
      "length (pool_vec (ply_pool m')) \<le> length (pool_vec (ply_pool ?m)) + 3"
      "\<And>x. find_leaf ts' x = (if x AND fib_masks len = key then more_specific (1 + 2 * fe e) len (find_leaf ts x) else find_leaf ts x)"
    proof (rule set_leaf_root [OF ts(1), of a, unfolded a])
      show "is_prefix key len" by (simp add: key)
    qed (use False len e v in simp_all)
    let ?fib = "fib\<lparr>mtrie := m', fib_entry_by_dst_address := ?h\<rparr>"
    have "fib_route_add fe fib addr len e = Some ?fib"
      using False nn root new e(2) s(1) len
      by (simp add: fib_route_add_def ip4_fib_table_fwding_dpo_update_def ip4_fib_mtrie_add_del_route_def
          ip4_fib_table_entry_insert_def h key Let_def a_def)
    moreover have "find_leaf ts' x = best fe ?h x 32" for x
      using best_update [of ?h len h key e 32 fe x] False len by (simp add: s(5) ts(2))
    then have "trie_matches fe ?h m'" using s(2,3) d False unfolding trie_matches_def by auto
    then have "fib_ok fe ?fib" using r by (simp add: fib_ok_def)
    moreover have "fib_entry_by_dst_address ?fib = ?h" by simp
    moreover have "length (pool_vec (ply_pool (mtrie ?fib))) \<le> length (pool_vec (ply_pool ?m)) + 3" using s(4) by simp
    ultimately show ?thesis by (rule that)
  qed
qed

lemma routes_lb:
  assumes "routes_ok fe h" and "h i key = Some e"
  shows "fe e \<noteq> 0" and "unat (fe e) < 2 ^ 31" and "i \<le> 32" and "is_prefix key i"
  using assms unfolding routes_ok_def by blast+

lemma less_specific_cases:
  assumes ok: "routes_ok fe (fib_entry_by_dst_address fib)"
  shows "insert_less_specific fe fib dst n m = Some m \<and> best fe (fib_entry_by_dst_address fib) dst n = (IP4_FIB_MTRIE_LEAF_EMPTY, 0)
    \<or> (\<exists>i e. 1 \<le> i \<and> i \<le> n \<and> fib_entry_by_dst_address fib i (dst AND fib_masks i) = Some e
        \<and> insert_less_specific fe fib dst n m
            = set_leaf 4 m \<lparr>dst_address = dst AND fib_masks i, dst_address_length = i, adj_index = fe e\<rparr> 0
        \<and> best fe (fib_entry_by_dst_address fib) dst n = (1 + 2 * fe e, word_of_nat i))"
proof (induction n)
  case (Suc n)
  show ?case
  proof (cases "fib_entry_by_dst_address fib (Suc n) (dst AND fib_masks (Suc n))")
    case None
    then have "insert_less_specific fe fib dst (Suc n) m = insert_less_specific fe fib dst n m"
      "best fe (fib_entry_by_dst_address fib) dst (Suc n) = best fe (fib_entry_by_dst_address fib) dst n" by simp_all
    then show ?thesis using Suc le_SucI by metis
  next
    case (Some e)
    have "fe e \<noteq> - 1" by (rule lb_valid [OF routes_lb(2) [OF ok Some]])
    then show ?thesis using Some by (intro disjI2 exI [of _ "Suc n"] exI [of _ e]) (simp add: Let_def)
  qed
qed simp

lemma best_unique:
  assumes "routes_ok fe h" and "lb_unique fe h" and "h len key = Some e" and "fst (best fe h x n) = 1 + 2 * fe e"
  shows "x AND fib_masks len = key" and "best fe h x n = (1 + 2 * fe e, word_of_nat len)"
proof -
  note e = routes_lb [OF assms(1,3)]
  have "fst (best fe h x n) \<noteq> 1" using assms(4) double_1_eq [OF e(2)] e(1) by simp
  then obtain i e' where i: "h i (x AND fib_masks i) = Some e'" "best fe h x n = (1 + 2 * fe e', word_of_nat i)"
    using best_cases [of fe h x n] by auto
  have "fe e' = fe e" using i assms(4) double_1_inj [OF routes_lb(2) [OF assms(1) i(1)] e(2)] by simp
  then have "i = len \<and> x AND fib_masks i = key" using assms(2,3) i(1) unfolding lb_unique_def by blast
  then show "x AND fib_masks len = key" "best fe h x n = (1 + 2 * fe e, word_of_nat len)" using i \<open>fe e' = fe e\<close> by auto
qed

lemma best_del:
  assumes ok: "routes_ok fe h" "lb_unique fe h" "h len key = Some e"
    and h': "h' len = (h len)(key := None)" "\<And>i. i \<noteq> len \<Longrightarrow> h' i = h i"
    and "1 \<le> len" and "len \<le> n"
  shows "best fe h' x n = (if fst (best fe h x n) = 1 + 2 * fe e then best fe h x (len - 1) else best fe h x n)"
  using assms(6-)
proof (induction n)
  case (Suc n)
  have other: "1 + 2 * fe e' \<noteq> 1 + 2 * fe e" if "h (Suc n) (x AND fib_masks (Suc n)) = Some e'" "len \<noteq> Suc n \<or> x AND fib_masks (Suc n) \<noteq> key" for e'
    using that ok double_1_inj [OF routes_lb(2) [OF ok(1) that(1)] routes_lb(2) [OF ok(1,3)]] unfolding lb_unique_def by metis
  show ?case
  proof (cases "len = Suc n")
    case True
    have b: "best fe h' x n = best fe h x n" by (rule best_cong) (use True h'(2) in auto)
    show ?thesis
    proof (cases "x AND fib_masks (Suc n) = key")
      case True
      then show ?thesis using \<open>len = Suc n\<close> h'(1) ok(3) b by simp
    next
      case False
      then show ?thesis using \<open>len = Suc n\<close> h'(1) b other by (auto split: option.split)
    qed
  next
    case False
    then have "best fe h' x n = (if fst (best fe h x n) = 1 + 2 * fe e then best fe h x (len - 1) else best fe h x n)"
      using Suc by simp
    then show ?thesis using False h'(2) [of "Suc n"] other by (auto split: option.split)
  qed
qed simp

text \<open>Clearing the leaves of a route and filling in the next less specific one is deleting the route.\<close>

lemma reinsert_is_delete:
  assumes ok: "routes_ok fe h" "lb_unique fe h" "h len key = Some e"
    and h': "h' len = (h len)(key := None)" "\<And>i. i \<noteq> len \<Longrightarrow> h' i = h i" and len: "1 \<le> len"
    and f1: "f1 = clear_leaf (1 + 2 * fe e) (best fe h x 32)"
    and f2: "best fe h key (len - 1) = (IP4_FIB_MTRIE_LEAF_EMPTY, 0) \<and> f2 = f1
      \<or> (\<exists>i e'. 1 \<le> i \<and> i \<le> len - 1 \<and> h i (key AND fib_masks i) = Some e' \<and> best fe h key (len - 1) = (1 + 2 * fe e', word_of_nat i)
        \<and> f2 = (if x AND fib_masks i = key AND fib_masks i then more_specific (1 + 2 * fe e') i f1 else f1))"
  shows "f2 = best fe h' x 32"
proof -
  let ?del = "1 + 2 * fe e"
  note e = routes_lb [OF ok(1,3)]
  have b: "best fe h' x 32 = (if fst (best fe h x 32) = ?del then best fe h x (len - 1) else best fe h x 32)"
    by (rule best_del [OF ok h' len e(3)])
  show ?thesis
  proof (cases "fst (best fe h x 32) = ?del")
    case True
    have x: "x AND fib_masks len = key" by (rule best_unique(1) [OF ok True])
    have m: "x AND fib_masks j = key AND fib_masks j" if "j \<le> len" for j using masks_and [OF that, of x] x by simp
    have "best fe h x (len - 1) = best fe h key (len - 1)" by (rule best_cong) (use m in simp)
    moreover have "f1 = (1, 0)" using True f1 by (cases "best fe h x 32") simp
    ultimately show ?thesis using b True f2 m by auto
  next
    case False
    then have f1': "f1 = best fe h x 32" using f1 by (cases "best fe h x 32") auto
    have "more_specific (1 + 2 * fe e') i f1 = f1"
      if i: "1 \<le> i" "i \<le> len - 1" "h i (key AND fib_masks i) = Some e'" "x AND fib_masks i = key AND fib_masks i" for i e'
    proof -
      have "h i (x AND fib_masks i) = Some e'" "i \<le> 32" using i e(3) by simp_all
      from best_above [of 32 i h x e' fe, OF order.refl i(1) this(2,1)] show ?thesis
        unfolding f1' by (cases "best fe h x 32") auto
    qed
    then show ?thesis using b False f1' f2 by auto
  qed
qed

lemma less_specific_ok:
  assumes ok: "routes_ok fe (fib_entry_by_dst_address fib)" "lb_unique fe (fib_entry_by_dst_address fib)"
      "fib_entry_by_dst_address fib len key = Some e"
    and len: "1 \<le> len" and rep: "mtrie_rep m ts"
    and f: "\<And>x. find_leaf ts x = clear_leaf (1 + 2 * fe e) (best fe (fib_entry_by_dst_address fib) x 32)"
    and h': "h' = (fib_entry_by_dst_address fib)(len := (fib_entry_by_dst_address fib len)(key := None))"
    and v: "length (pool_vec (ply_pool m)) + 3 \<le> 2 ^ 31"
  obtains m' ts' where "insert_less_specific fe fib key (len - 1) m = Some m'" and "mtrie_rep m' ts'"
    and "default_leaf m' = default_leaf m" and "length (pool_vec (ply_pool m')) \<le> length (pool_vec (ply_pool m)) + 3"
    and "\<And>x. find_leaf ts' x = best fe h' x 32"
proof -
  let ?h = "fib_entry_by_dst_address fib"
  have h'': "h' len = (?h len)(key := None)" "\<And>i. i \<noteq> len \<Longrightarrow> h' i = ?h i" by (simp_all add: h')
  have r: "f2 = best fe h' x 32"
    if f2: "best fe ?h key (len - 1) = (1, 0) \<and> f2 = find_leaf ts x
      \<or> (\<exists>i e'. 1 \<le> i \<and> i \<le> len - 1 \<and> ?h i (key AND fib_masks i) = Some e' \<and> best fe ?h key (len - 1) = (1 + 2 * fe e', word_of_nat i)
        \<and> f2 = (if x AND fib_masks i = key AND fib_masks i then more_specific (1 + 2 * fe e') i (find_leaf ts x) else find_leaf ts x))" for f2 x
    by (rule reinsert_is_delete [OF ok h'' len f f2])
  show ?thesis using less_specific_cases [OF ok(1), of key "len - 1" m]
  proof (elim disjE exE conjE)
    assume n: "insert_less_specific fe fib key (len - 1) m = Some m" "best fe ?h key (len - 1) = (1, 0)"
    have "find_leaf ts x = best fe h' x 32" for x by (rule r, rule disjI1) (use n(2) in blast)
    then show ?thesis using n(1) rep by (intro that [of m ts]) simp_all
  next
    fix i e' assume i: "1 \<le> i" "i \<le> len - 1" "?h i (key AND fib_masks i) = Some e'"
      "insert_less_specific fe fib key (len - 1) m
         = set_leaf 4 m \<lparr>dst_address = key AND fib_masks i, dst_address_length = i, adj_index = fe e'\<rparr> 0"
      "best fe ?h key (len - 1) = (1 + 2 * fe e', word_of_nat i)"
    define a where "a = \<lparr>dst_address = key AND fib_masks i, dst_address_length = i, adj_index = fe e'\<rparr>"
    have a: "dst_address a = key AND fib_masks i" "dst_address_length a = i" "adj_index a = fe e'" by (simp_all add: a_def)
    obtain m' ts' where s: "set_leaf 4 m a 0 = Some m'" "mtrie_rep m' ts'" "default_leaf m' = default_leaf m"
      "length (pool_vec (ply_pool m')) \<le> length (pool_vec (ply_pool m)) + 3"
      "\<And>x. find_leaf ts' x = (if x AND fib_masks i = key AND fib_masks i
         then more_specific (1 + 2 * fe e') i (find_leaf ts x) else find_leaf ts x)"
      by (rule set_leaf_root [OF rep, of a, unfolded a]) (use i(1) v routes_lb [OF ok(1) i(3)] in simp_all)
    have "find_leaf ts' x = best fe h' x 32" for x
      by (rule r, intro disjI2 exI [of _ i] exI [of _ e']) (use i(1,2,3,5) s(5) in simp)
    then show ?thesis using s(1-4) i(4) by (intro that [of m' ts']) (simp_all add: a_def)
  qed
qed

lemma lb_unique_del: "lb_unique fe h \<Longrightarrow> lb_unique fe (h(len := (h len)(key := None)))"
proof -
  have "h l k = Some e" if "(h(len := (h len)(key := None))) l k = Some e" for l k e
    using that by (auto split: if_splits)
  then show "lb_unique fe h \<Longrightarrow> ?thesis" unfolding lb_unique_def by blast
qed

lemma route_del_ok:
  assumes fib: "fib_ok fe fib" and h: "h = fib_entry_by_dst_address fib" and u: "lb_unique fe h"
    and key: "key = addr AND fib_masks len" and e: "h len key = Some e"
    and v: "length (pool_vec (ply_pool (mtrie fib))) + 3 \<le> 2 ^ 31"
  obtains fib' where "fib_route_del fe fib addr len = Some fib'" and "fib_ok fe fib'"
    and "fib_entry_by_dst_address fib' = h(len := (h len)(key := None))"
    and "length (pool_vec (ply_pool (mtrie fib'))) \<le> length (pool_vec (ply_pool (mtrie fib))) + 3"
proof -
  let ?m = "mtrie fib" and ?h = "h(len := (h len)(key := None))"
  obtain ts where ts: "mtrie_rep ?m ts" "\<And>x. find_leaf ts x = best fe h x 32"
    and d: "default_leaf ?m = (case h 0 0 of None \<Rightarrow> 1 | Some e \<Rightarrow> 1 + 2 * fe e)"
    using fib by (auto simp: fib_ok_def trie_matches_def h)
  have ok: "routes_ok fe h" using fib by (simp add: fib_ok_def h)
  then have r: "routes_ok fe ?h" unfolding routes_ok_def by (auto split: if_splits)
  note lb = routes_lb [OF ok e]
  have root: "ply_at ?m 0 = Some (ply_of ts)" using ts(1) by (simp add: mtrie_rep_def ply_ok_def)
  have nn: "pool_vec (ply_pool ?m) \<noteq> []" using ply_at_live [OF root] by (auto simp: pool_live_iff)
  have exact: "ip4_fib_table_lookup_exact_match fib addr len = e"
    using e by (simp add: ip4_fib_table_lookup_exact_match_def h key)
  define a where "a = \<lparr>dst_address = key, dst_address_length = len, adj_index = fe e\<rparr>"
  have a: "dst_address a = key" "dst_address_length a = len" "adj_index a = fe e" by (simp_all add: a_def)
  note defs = fib_route_del_def ip4_fib_table_fwding_dpo_remove_def ip4_fib_mtrie_add_del_route_def ip4_fib_table_entry_remove_def
  show ?thesis
  proof (cases "len = 0")
    case True
    let ?fib = "fib\<lparr>mtrie := ?m\<lparr>default_leaf := 1\<rparr>, fib_entry_by_dst_address := ?h\<rparr>"
    have "fib_route_del fe fib addr len = Some ?fib" using True nn root by (simp add: defs h key Let_def)
    moreover have "find_leaf ts x = best fe ?h x 32" for x
      unfolding ts(2) by (rule best_cong) (use True in auto)
    then have "trie_matches fe ?h (?m\<lparr>default_leaf := 1\<rparr>)"
      using ts(1) True key unfolding trie_matches_def by (auto simp: mtrie_rep_def ply_at_def [abs_def])
    then have "fib_ok fe ?fib" using r by (simp add: fib_ok_def)
    ultimately show ?thesis by (rule that) simp_all
  next
    case False
    obtain m1 ts1 where s: "unset_leaf 4 ?m a 0 = Some (m1, False)" "mtrie_rep m1 ts1" "default_leaf m1 = default_leaf ?m"
      "length (pool_vec (ply_pool m1)) \<le> length (pool_vec (ply_pool ?m))"
      "\<And>x. find_leaf ts1 x = clear_leaf (1 + 2 * fe e) (find_leaf ts x)"
    proof (rule unset_leaf_root [OF ts(1), of a, unfolded a])
      show "x AND fib_masks len = key" if "fst (find_leaf ts x) = 1 + 2 * fe e" for x
        using best_unique(1) [OF ok u e] that by (simp add: ts(2))
    qed (use False lb in simp_all)
    obtain m2 ts2 where s2: "insert_less_specific fe fib key (len - 1) m1 = Some m2" "mtrie_rep m2 ts2" "default_leaf m2 = default_leaf m1"
      "length (pool_vec (ply_pool m2)) \<le> length (pool_vec (ply_pool m1)) + 3" "\<And>x. find_leaf ts2 x = best fe ?h x 32"
    proof (rule less_specific_ok [OF ok [unfolded h] u [unfolded h] e [unfolded h] _ s(2)])
      show "1 \<le> len" using False by simp
      show "find_leaf ts1 x = clear_leaf (1 + 2 * fe e) (best fe (fib_entry_by_dst_address fib) x 32)" for x
        using s(5) ts(2) h by simp
      show "?h = (fib_entry_by_dst_address fib)(len := (fib_entry_by_dst_address fib len)(key := None))" by (simp add: h)
      show "length (pool_vec (ply_pool m1)) + 3 \<le> 2 ^ 31" using v s(4) by linarith
    qed (rule that)
    let ?fib = "fib\<lparr>mtrie := m2, fib_entry_by_dst_address := ?h\<rparr>"
    have "fib_route_del fe fib addr len = Some ?fib"
      using False nn root s(1) s2(1) lb(3) exact by (simp add: defs h key Let_def a_def)
    moreover have "trie_matches fe ?h m2" using s(3) s2(2,3,5) d False unfolding trie_matches_def by auto
    then have "fib_ok fe ?fib" using r by (simp add: fib_ok_def)
    moreover have "fib_entry_by_dst_address ?fib = ?h" by simp
    moreover have "length (pool_vec (ply_pool (mtrie ?fib))) \<le> length (pool_vec (ply_pool ?m)) + 3" using s(4) s2(4) by simp
    ultimately show ?thesis by (rule that)
  qed
qed

section \<open>Lookup by address, memory and release\<close>

lemma visit_slot:
  assumes t: "slot_ok (ply_at m) (Suc r) t"
    and k: "\<And>t. slot_ok (ply_at m) r t \<Longrightarrow> k (leaf_of t) = Some (drop_bit 1 (fst (walk t xs)))"
  shows "(if ip4_fib_mtrie_leaf_is_terminal (leaf_of t) then ip4_fib_mtrie_leaf_get_adj_index (leaf_of t)
    else do {n \<leftarrow> get_next_ply_for_leaf m (leaf_of t); p \<leftarrow> ply_at m n; (l, _) \<leftarrow> leaf_at p (unat b); k l})
    = Some (drop_bit 1 (fst (walk t (b # xs))))"
proof (cases t)
  case (Sub q us)
  have q: "slot_ok (ply_at m) (Suc r) (Sub q us)" using t Sub by simp
  then have us: "ply_at m q = Some (ply_of us)" "unat b < length us" "slot_ok (ply_at m) r (us ! unat b)"
    using unat_u8_lt [of b] by simp_all
  then show ?thesis
    using next_ply_Sub [OF q] leaf_of_Sub_ok(1) [OF q] Sub k [OF us(3)] by (simp add: leaf_at_nth del: leaf_of.simps)
qed (use t in \<open>simp add: ip4_fib_mtrie_leaf_get_adj_index_def\<close>)

lemma lookup_address_ok:
  assumes rep: "mtrie_rep m ts"
  shows "ip4_mtrie_lookup_address m x = Some (drop_bit 1 (fst (find_leaf ts x)))"
proof -
  have root: "ply_at m 0 = Some (ply_of ts)" "length ts = 256" "\<forall>t\<in>set ts. slot_ok (ply_at m) 3 t"
    using rep by (simp_all add: mtrie_rep_def ply_ok_def)
  let ?t = "ts ! unat (as_u8 x 0)"
  have i: "unat (as_u8 x 0) < length ts" using unat_u8_lt root(2) by simp
  have t: "slot_ok (ply_at m) (Suc 2) ?t" using root i by (simp add: numeral_3_eq_3)
  have w: "find_leaf ts x = walk ?t [as_u8 x 1, as_u8 x 2, as_u8 x 3]"
    by (simp add: find_leaf_def numeral_3_eq_3 numeral_2_eq_2)
  have l3: "ip4_fib_mtrie_leaf_get_adj_index (leaf_of t) = Some (drop_bit 1 (fst (walk t [])))" if "slot_ok (ply_at m) 0 t" for t
    using that by (cases t) (simp_all add: ip4_fib_mtrie_leaf_get_adj_index_def)
  note l0 = visit_slot [OF t visit_slot [where r = 1, unfolded Suc_1, OF _ visit_slot [where r = 0, folded One_nat_def, OF _ l3]]]
  show ?thesis
    unfolding ip4_mtrie_lookup_address_def root(1) bind.bind_lunit leaf_at_nth [OF i] prod.case w by (rule l0)
qed

lemma ply_ok_frame:
  assumes "ply_ok (ply_at m) r q ts" and "pool_change m m' S {} 0" and "set (q # plies ts) \<inter> S = {}"
  shows "ply_ok (ply_at m') r q ts"
proof -
  have "ply_at m' x = ply_at m x" if "x \<in> set (q # plies ts)" for x
    using assms that ply_ok_live [OF assms(1)] unfolding pool_change_def by blast
  then show ?thesis using assms(1) ply_ok_cong [of q ts "ply_at m'" "ply_at m" r] by blast
qed

lemma pool_change_union:
  assumes "pool_change m m' S {} 0" and "pool_change m' m'' T {} 0"
  shows "pool_change m m'' (S \<union> T) {} 0"
  using assms by (auto simp: pool_change_def)

lemma free_loop:
  assumes step: "\<And>us t vs m. ts = us @ t # vs \<Longrightarrow> pool_change m0 m (set (plies us)) {} 0 \<Longrightarrow>
      \<exists>m'. body (length us) m = Some m' \<and> pool_change m0 m' (set (plies (us @ [t]))) {} 0"
    and "pool_change m0 m (set (plies us)) {} 0" and "ts = us @ vs"
  shows "\<exists>m'. for_range (length us) (length ts) body m = Some m' \<and> pool_change m0 m' (set (plies ts)) {} 0"
  using assms(2,3)
proof (induction vs arbitrary: us m)
  case Nil
  then show ?case by (subst for_range.simps) simp
next
  case (Cons t vs)
  obtain m1 where m1: "body (length us) m = Some m1" "pool_change m0 m1 (set (plies (us @ [t]))) {} 0"
    using step [OF Cons.prems(2,1)] by blast
  have "ts = (us @ [t]) @ vs" using Cons.prems(2) by simp
  from Cons.IH [OF m1(2) this] obtain m' where "for_range (length (us @ [t])) (length ts) body m1 = Some m'"
    "pool_change m0 m' (set (plies ts)) {} 0" by blast
  moreover have "length us < length ts" using Cons.prems(2) by simp
  ultimately show ?case using m1(1) by (subst for_range.simps) simp
qed

text \<open>\<open>ply_free\<close> gives back the ply and all plies below it, or empties the root.\<close>

lemma ply_free_ok:
  assumes "pool_ok (ply_pool m)" and "ply_ok (ply_at m) r p ts" and "distinct (p # plies ts)"
  shows "\<exists>m1. pool_change m m1 (set (plies ts)) {} 0 \<and> ply_at m1 p = Some (ply_of ts)
    \<and> ply_free m p = (if p = 0 then Some (ply_put m1 p (ply_init IP4_FIB_MTRIE_LEAF_EMPTY 0))
        else do {pool \<leftarrow> pool_put_index (ply_pool m1) p; Some (m1\<lparr>ply_pool := pool\<rparr>)})"
  using assms
proof (induction r arbitrary: m p ts rule: less_induct)
  case (less r)
  let ?body = "\<lambda>i m. do {
       ply \<leftarrow> ply_at m p;
       (l, _) \<leftarrow> leaf_at ply i;
       if ip4_fib_mtrie_leaf_is_next_ply l
       then do {n \<leftarrow> get_next_ply_for_leaf m l; ply_free m n}
       else Some m}"
  have live: "set (p # plies ts) \<subseteq> pool_live (ply_pool m)" by (rule ply_ok_live [OF less.prems(2)])
  have keep: "ply_at m' p = Some (ply_of ts)" if "pool_change m m' S {} 0" "p \<notin> S" for m' S
    using that live less.prems(2) by (auto simp: pool_change_def ply_ok_def)
  have step: "\<exists>m2. ?body (length us) m1 = Some m2 \<and> pool_change m m2 (set (plies (us @ [t]))) {} 0"
    if ts: "ts = us @ t # vs" and c: "pool_change m m1 (set (plies us)) {} 0" for us t vs m1
  proof -
    have at: "ply_at m1 p = Some (ply_of (us @ t # vs))" using keep [OF c] less.prems(3) ts by simp
    have t: "slot_ok (ply_at m) r t" using less.prems(2) ts by (simp add: ply_ok_def)
    show ?thesis
    proof (cases t)
      case (Term l b)
      then show ?thesis using at t c by simp
    next
      case (Sub q us')
      have q: "0 < q" "q < 2 ^ 31" "0 < r" "ply_ok (ply_at m) (r - 1) q us'"
        using t Sub by (simp_all add: slot_ok_Sub del: slot_ok.simps)
      have "set (q # plies us') \<inter> set (plies us) = {}" using less.prems(3) ts Sub by auto
      from ply_ok_frame [OF q(4) c this] have ok1: "ply_ok (ply_at m1) (r - 1) q us'" .
      then have sq: "slot_ok (ply_at m1) r (Sub q us')" using q by (simp add: slot_ok_Sub del: slot_ok.simps)
      have "pool_ok (ply_pool m1)" using c by (simp add: pool_change_def)
      moreover have "distinct (q # plies us')" using less.prems(3) ts Sub by simp
      ultimately obtain m2 where m2: "pool_change m1 m2 (set (plies us')) {} 0" "ply_at m2 q = Some (ply_of us')"
        "ply_free m1 q = do {pool \<leftarrow> pool_put_index (ply_pool m2) q; Some (m2\<lparr>ply_pool := pool\<rparr>)}"
        using less.IH [OF _ _ ok1] q by auto
      have "pool_ok (ply_pool m2)" "q \<in> pool_live (ply_pool m2)" using m2(1) ply_at_live [OF m2(2)] by (simp_all add: pool_change_def)
      from pool_put_live [OF this] obtain pool where pool: "pool_put_index (ply_pool m2) q = Some pool" "pool_ok pool"
        "pool_live pool = pool_live (ply_pool m2) - {q}" "\<forall>j\<in>pool_live pool. pool_elt_at_index pool j = pool_elt_at_index (ply_pool m2) j"
        by blast
      have "length (pool_vec pool) = length (pool_vec (ply_pool m2))"
        using pool(1) by (auto simp: pool_put_index_def split: if_splits)
      then have "pool_change m2 (m2\<lparr>ply_pool := pool\<rparr>) {q} {} 0" using pool by (auto simp: pool_change_def ply_at_def)
      from pool_change_union [OF pool_change_union [OF c m2(1)] this]
      have "pool_change m (m2\<lparr>ply_pool := pool\<rparr>) (set (plies (us @ [t]))) {} 0" by (simp add: Sub Un_commute insert_commute)
      moreover have "ply_free m1 q = Some (m2\<lparr>ply_pool := pool\<rparr>)" using m2(3) pool(1) by simp
      ultimately show ?thesis using at Sub next_ply_Sub [OF sq] leaf_of_Sub_ok(1) [OF sq] by (simp del: leaf_of.simps)
    qed
  qed
  have "pool_change m m (set (plies [])) {} 0" using less.prems(1) by (simp add: pool_change_def)
  have "\<exists>m1. for_range (length ([] :: slot list)) (length ts) ?body m = Some m1 \<and> pool_change m m1 (set (plies ts)) {} 0"
    by (rule free_loop [where us = "[]" and vs = ts and body = ?body]) (erule (1) step, rule \<open>pool_change m m (set (plies [])) {} 0\<close>, simp)
  then obtain m1 where m1: "for_range 0 (length ts) ?body m = Some m1" "pool_change m m1 (set (plies ts)) {} 0" by auto
  have "length ts = 256" using less.prems(2) by (simp add: ply_ok_def)
  then have "ply_free m p = (if p = 0 then Some (ply_put m1 p (ply_init 1 0))
      else do {pool \<leftarrow> pool_put_index (ply_pool m1) p; Some (m1\<lparr>ply_pool := pool\<rparr>)})"
    using m1(1) by (subst ply_free.simps) simp
  moreover have "ply_at m1 p = Some (ply_of ts)" using keep [OF m1(2)] less.prems(3) by simp
  ultimately show ?case using m1(2) by blast
qed

lemma fib_free_ok:
  assumes "mtrie_rep m ts"
  shows "\<exists>m'. ip4_fib_free m = Some m' \<and> mtrie_rep m' (replicate 256 empty_slot) \<and> pool_live (ply_pool m') = {0}"
proof -
  have r: "pool_ok (ply_pool m)" "ply_ok (ply_at m) 3 0 ts" "distinct (0 # plies ts)" "pool_live (ply_pool m) = set (0 # plies ts)"
    using assms by (simp_all add: mtrie_rep_def)
  from ply_free_ok [OF r(1-3)] obtain m1 where m1: "pool_change m m1 (set (plies ts)) {} 0" "ply_at m1 0 = Some (ply_of ts)"
    "ply_free m 0 = Some (ply_put m1 0 (ply_init 1 0))" by auto
  let ?m = "ply_put m1 0 (ply_init 1 0)"
  have "pool_live (ply_pool m1) = {0}" using m1(1) r(3,4) by (auto simp: pool_change_def)
  then have l: "pool_live (ply_pool ?m) = {0}" "pool_ok (ply_pool ?m)" using m1(1) by (simp_all add: pool_change_def)
  have "ply_at ?m 0 = Some (ply_of (replicate 256 empty_slot))" using m1(2) ply_of_replicate [of 1 0] by simp
  then have "mtrie_rep ?m (replicate 256 empty_slot)" using l by (simp add: mtrie_rep_def ply_ok_def)
  then show ?thesis using m1(3) r(2) l by (simp add: ip4_fib_free_def ply_ok_def)
qed

lemma sum_loop:
  assumes "\<And>i s. i < n \<Longrightarrow> body i s = Some (s + f i)"
  shows "k \<le> n \<Longrightarrow> for_range k n body s = Some (s + sum_list (map f [k..<n]) :: nat)"
proof (induction "n - k" arbitrary: k s)
  case 0
  then show ?case by (subst for_range.simps) simp
next
  case (Suc d)
  then have "k < n" "d = n - Suc k" by auto
  then show ?case using Suc.hyps(1) [of "Suc k" "s + f k"] assms [of k s]
    by (subst for_range.simps) (simp add: upt_conv_Cons)
qed

lemma memory_usage_ply:
  assumes "ply_ok (ply_at m) r p ts" and "P = Some p \<or> (P = None \<and> p = 0)"
  shows "mtrie_memory_usage m P = Some (sizeof_ply * length (p # plies ts))"
  using assms
proof (induction r arbitrary: p ts P rule: less_induct)
  case (less r)
  have ts: "length ts = 256" "ply_at m p = Some (ply_of ts)" using less.prems(1) by (simp_all add: ply_ok_def)
  let ?body = "\<lambda>i bytes. do {
        ply \<leftarrow> ply_at m (case P of None \<Rightarrow> 0 | Some p \<Rightarrow> p);
        (l, _) \<leftarrow> leaf_at ply i;
        if ip4_fib_mtrie_leaf_is_next_ply l
        then do {n \<leftarrow> get_next_ply_for_leaf m l; b \<leftarrow> mtrie_memory_usage m (Some n); Some (bytes + b)}
        else Some bytes}"
  have P: "(case P of None \<Rightarrow> 0 | Some p \<Rightarrow> p) = p" using less.prems(2) by auto
  have "?body i s = Some (s + sizeof_ply * length (plies_of (ts ! i)))" if i: "i < 256" for i s
  proof -
    have t: "slot_ok (ply_at m) r (ts ! i)" using less.prems(1) i by (simp add: ply_ok_def)
    show ?thesis
    proof (cases "ts ! i")
      case (Term l b)
      then show ?thesis using P ts i t by (simp add: leaf_at_nth)
    next
      case (Sub q us)
      have q: "slot_ok (ply_at m) r (Sub q us)" using t Sub by simp
      then have "mtrie_memory_usage m (Some q) = Some (sizeof_ply * length (q # plies us))"
        by (intro less.IH [of "r - 1"]) (simp_all add: slot_ok_Sub del: slot_ok.simps)
      then show ?thesis
        using P ts i Sub next_ply_Sub [OF q] leaf_of_Sub_ok(1) [OF q] by (simp add: leaf_at_nth del: leaf_of.simps)
    qed
  qed
  from sum_loop [of 256 ?body, OF this, of 0 sizeof_ply]
  have "for_range 0 256 ?body sizeof_ply = Some (sizeof_ply + sizeof_ply * sum_list (map (\<lambda>i. length (plies_of (ts ! i))) [0..<256]))"
    by (simp add: sum_list_const_mult)
  moreover have "map (\<lambda>i. length (plies_of (ts ! i))) [0..<256] = map (\<lambda>t. length (plies_of t)) ts"
    by (rule nth_equalityI) (simp_all add: ts)
  moreover have "\<not> (P = None \<and> pool_is_free_index (ply_pool m) 0)"
    using less.prems(2) ply_at_live [OF ts(2)] by (auto simp: pool_is_free_iff)
  ultimately show ?case by (subst mtrie_memory_usage.simps) (auto simp: length_concat comp_def)
qed

section \<open>Sequences of route changes\<close>

text \<open>
  The tables alone, as the specification: an added route must be new, and its load balance in
  range and used by no other route; a deleted route must exist.
\<close>

type_synonym route_tables = "nat \<Rightarrow> u32 \<rightharpoonup> u32"

datatype route_op = Route_add ip4_address_t nat u32 | Route_del ip4_address_t nat

definition lb_free :: "(u32 \<Rightarrow> u32) \<Rightarrow> route_tables \<Rightarrow> u32 \<Rightarrow> bool" where
  "lb_free fe h e \<longleftrightarrow> fe e \<noteq> 0 \<and> unat (fe e) < 2 ^ 31 \<and> e \<noteq> FIB_NODE_INDEX_INVALID
     \<and> (\<forall>len key e'. h len key = Some e' \<longrightarrow> fe e' \<noteq> fe e)"

fun table_step :: "(u32 \<Rightarrow> u32) \<Rightarrow> route_tables \<Rightarrow> route_op \<Rightarrow> route_tables option" where
  "table_step fe h (Route_add a len e) =
    (if len \<le> 32 \<and> h len (a AND fib_masks len) = None \<and> lb_free fe h e
     then Some (h(len := (h len)(a AND fib_masks len \<mapsto> e))) else None)"
| "table_step fe h (Route_del a len) =
    (if h len (a AND fib_masks len) \<noteq> None then Some (h(len := (h len)(a AND fib_masks len := None))) else None)"

fun table_run :: "(u32 \<Rightarrow> u32) \<Rightarrow> route_tables \<Rightarrow> route_op list \<Rightarrow> route_tables option" where
  "table_run fe h [] = Some h"
| "table_run fe h (op # ops) = do {h \<leftarrow> table_step fe h op; table_run fe h ops}"

fun route_ops ::
    "('s \<Rightarrow> ip4_address_t \<Rightarrow> nat \<Rightarrow> u32 \<Rightarrow> 's option) \<Rightarrow> ('s \<Rightarrow> ip4_address_t \<Rightarrow> nat \<Rightarrow> 's option) \<Rightarrow>
     's \<Rightarrow> route_op list \<Rightarrow> 's option" where
  "route_ops add del s [] = Some s"
| "route_ops add del s (Route_add a len e # ops) = do {s \<leftarrow> add s a len e; route_ops add del s ops}"
| "route_ops add del s (Route_del a len # ops) = do {s \<leftarrow> del s a len; route_ops add del s ops}"

text \<open>
  What a forwarding table promises: a route change that the tables allow succeeds as long as there
  is memory, and has the effect on the tables. \<open>used\<close> is the memory, in plies.
\<close>

locale route_table =
  fixes fe :: "u32 \<Rightarrow> u32" and ok :: "'s \<Rightarrow> bool" and routes :: "'s \<Rightarrow> route_tables" and used :: "'s \<Rightarrow> nat"
    and add :: "'s \<Rightarrow> ip4_address_t \<Rightarrow> nat \<Rightarrow> u32 \<Rightarrow> 's option" and del :: "'s \<Rightarrow> ip4_address_t \<Rightarrow> nat \<Rightarrow> 's option"
  assumes add_law: "ok s \<Longrightarrow> used s + 3 \<le> 2 ^ 31 \<Longrightarrow> table_step fe (routes s) (Route_add a len e) = Some h \<Longrightarrow>
      \<exists>s'. add s a len e = Some s' \<and> ok s' \<and> routes s' = h \<and> used s' \<le> used s + 3"
    and del_law: "ok s \<Longrightarrow> used s + 3 \<le> 2 ^ 31 \<Longrightarrow> table_step fe (routes s) (Route_del a len) = Some h \<Longrightarrow>
      \<exists>s'. del s a len = Some s' \<and> ok s' \<and> routes s' = h \<and> used s' \<le> used s + 3"
begin

lemma ops_step:
  assumes "ok s" and "used s + 3 \<le> 2 ^ 31" and "table_step fe (routes s) op = Some h"
  obtains s' where "route_ops add del s (op # ops) = route_ops add del s' ops" and "ok s'" and "routes s' = h"
    and "used s' \<le> used s + 3"
proof (cases op)
  case (Route_add a len e)
  then obtain s' where "add s a len e = Some s'" "ok s'" "routes s' = h" "used s' \<le> used s + 3"
    using add_law assms by blast
  then show ?thesis using Route_add that by simp
next
  case (Route_del a len)
  then obtain s' where "del s a len = Some s'" "ok s'" "routes s' = h" "used s' \<le> used s + 3"
    using del_law assms by blast
  then show ?thesis using Route_del that by simp
qed

lemma ops_refine:
  assumes "ok s" and "used s + 3 * length ops \<le> 2 ^ 31" and "table_run fe (routes s) ops = Some h"
  shows "\<exists>s'. route_ops add del s ops = Some s' \<and> ok s' \<and> routes s' = h"
  using assms
proof (induction ops arbitrary: s)
  case (Cons op ops)
  obtain h1 where h1: "table_step fe (routes s) op = Some h1" "table_run fe h1 ops = Some h"
    using Cons.prems(3) by (auto simp: bind_eq_Some_conv)
  have "used s + 3 \<le> 2 ^ 31" using Cons.prems(2) by simp
  from ops_step [OF Cons.prems(1) this h1(1)] obtain s' where s': "route_ops add del s (op # ops) = route_ops add del s' ops"
    "ok s'" "routes s' = h1" "used s' \<le> used s + 3" by metis
  then show ?case using Cons.IH [of s'] Cons.prems(2) h1(2) by simp
qed simp

end

definition fib_inv :: "(u32 \<Rightarrow> u32) \<Rightarrow> ip4_fib_t \<Rightarrow> bool" where
  "fib_inv fe fib \<longleftrightarrow> fib_ok fe fib \<and> lb_unique fe (fib_entry_by_dst_address fib)"

definition fib_plies :: "ip4_fib_t \<Rightarrow> nat" where
  "fib_plies fib = length (pool_vec (ply_pool (mtrie fib)))"

lemma lb_unique_add: "lb_unique fe h \<Longrightarrow> lb_free fe h e \<Longrightarrow> lb_unique fe (h(len := (h len)(key \<mapsto> e)))"
proof -
  assume u: "lb_unique fe h" and f: "lb_free fe h e"
  let ?h = "h(len := (h len)(key \<mapsto> e))"
  have c: "h l k = Some x \<and> fe x \<noteq> fe e \<or> (l = len \<and> k = key \<and> x = e)" if "?h l k = Some x" for l k x
    using that f unfolding lb_free_def by (auto split: if_splits)
  show ?thesis unfolding lb_unique_def
  proof (intro allI impI)
    fix l k x l' k' x' assume "?h l k = Some x" "?h l' k' = Some x'" "fe x = fe x'"
    then show "l = l' \<and> k = k'" using c [of l k x] c [of l' k' x'] u unfolding lb_unique_def by metis
  qed
qed

interpretation fibs: route_table fe "fib_inv fe" fib_entry_by_dst_address fib_plies "fib_route_add fe" "fib_route_del fe" for fe
proof
  fix s a len e h
  assume i: "fib_inv fe s" and v: "fib_plies s + 3 \<le> 2 ^ 31"
  have fib: "fib_ok fe s" and u: "lb_unique fe (fib_entry_by_dst_address s)" using i by (simp_all add: fib_inv_def)
  have v': "length (pool_vec (ply_pool (mtrie s))) + 3 \<le> 2 ^ 31" using v by (simp add: fib_plies_def)
  {
    assume "table_step fe (fib_entry_by_dst_address s) (Route_add a len e) = Some h"
    then have t: "len \<le> 32" "fib_entry_by_dst_address s len (a AND fib_masks len) = None" "lb_free fe (fib_entry_by_dst_address s) e"
      "h = (fib_entry_by_dst_address s)(len := (fib_entry_by_dst_address s len)(a AND fib_masks len \<mapsto> e))"
      by (auto split: if_splits)
    have e: "fe e \<noteq> 0" "unat (fe e) < 2 ^ 31" "e \<noteq> - 1" using t(3) by (simp_all add: lb_free_def)
    show "\<exists>s'. fib_route_add fe s a len e = Some s' \<and> fib_inv fe s' \<and> fib_entry_by_dst_address s' = h \<and> fib_plies s' \<le> fib_plies s + 3"
      by (rule route_add_ok [OF fib refl refl t(1,2) e v']) (use lb_unique_add [OF u t(3)] t(4) in \<open>auto simp: fib_inv_def fib_plies_def\<close>)
  next
    assume "table_step fe (fib_entry_by_dst_address s) (Route_del a len) = Some h"
    then obtain e where t: "fib_entry_by_dst_address s len (a AND fib_masks len) = Some e"
      "h = (fib_entry_by_dst_address s)(len := (fib_entry_by_dst_address s len)(a AND fib_masks len := None))"
      by (auto split: if_splits)
    show "\<exists>s'. fib_route_del fe s a len = Some s' \<and> fib_inv fe s' \<and> fib_entry_by_dst_address s' = h \<and> fib_plies s' \<le> fib_plies s + 3"
      by (rule route_del_ok [OF fib refl u refl t(1) v']) (use lb_unique_del [OF u] t(2) in \<open>auto simp: fib_inv_def fib_plies_def\<close>)
  }
qed

definition fib_init :: "ip4_fib_t option" where
  "fib_init = do {m \<leftarrow> ip4_mtrie_init; Some \<lparr>fib_entry_by_dst_address = \<lambda>len key. None, mtrie = m\<rparr>}"

lemma best_empty: "best fe (\<lambda>len key. None) x n = (IP4_FIB_MTRIE_LEAF_EMPTY, 0)"
  by (induction n) simp_all

lemma fib_init_ok:
  "\<exists>fib. fib_init = Some fib \<and> fib_inv fe fib \<and> fib_entry_by_dst_address fib = (\<lambda>len key. None) \<and> fib_plies fib = 1"
proof -
  obtain m where m: "ip4_mtrie_init = Some m" "mtrie_rep m (replicate 256 empty_slot)" "default_leaf m = 1"
    "length (pool_vec (ply_pool m)) = 1" using mtrie_init_ok by blast
  have "find_leaf (replicate 256 empty_slot) x = (1, 0)" for x
    using unat_u8_lt [of "as_u8 x 0"] addr_bytes_Cons [of 3 x] by (simp add: find_leaf_def)
  then have "trie_matches fe (\<lambda>len key. None) m" using m(2,3) by (auto simp: trie_matches_def best_empty)
  then have "fib_inv fe \<lparr>fib_entry_by_dst_address = \<lambda>len key. None, mtrie = m\<rparr>"
    by (simp add: fib_inv_def fib_ok_def routes_ok_def lb_unique_def)
  then show ?thesis unfolding fib_init_def m(1) using m(4) by (simp add: fib_plies_def)
qed

lemma best_longest:
  "1 \<le> i \<Longrightarrow> i \<le> n \<Longrightarrow> h i (x AND fib_masks i) = Some e \<Longrightarrow>
   (\<And>j. i < j \<Longrightarrow> j \<le> n \<Longrightarrow> h j (x AND fib_masks j) = None) \<Longrightarrow> best fe h x n = (1 + 2 * fe e, word_of_nat i)"
proof (induction n)
  case (Suc n)
  show ?case
  proof (cases "i = Suc n")
    case False
    then have "best fe h x n = (1 + 2 * fe e, word_of_nat i)" using Suc by auto
    then show ?thesis using Suc.prems False by simp
  qed (use Suc.prems in simp)
qed simp

lemma find_leaf_empty: "find_leaf (replicate 256 empty_slot) x = (IP4_FIB_MTRIE_LEAF_EMPTY, 0)"
  using unat_u8_lt [of "as_u8 x 0"] addr_bytes_Cons [of 3 x] by (simp add: find_leaf_def)

section \<open>Load balances that are shared\<close>

lemma shared_lb_lost:
  assumes fib: "fib_ok fe fib" and h: "h = fib_entry_by_dst_address fib" and e: "h len key = Some e" and e': "h len' key' = Some e'"
    and len: "1 \<le> len" "len < len'" and key': "key' AND fib_masks len = key" and fe: "fe e' = fe e"
    and two: "\<And>l k e2. h l k = Some e2 \<Longrightarrow> fe e2 = fe e \<Longrightarrow> (l, k) = (len, key) \<or> (l, k) = (len', key')"
    and none: "\<And>i. i < len \<Longrightarrow> h i (key AND fib_masks i) = None"
    and x: "x AND fib_masks len' = key'" and longest: "\<And>j. len' < j \<Longrightarrow> j \<le> 32 \<Longrightarrow> h j (x AND fib_masks j) = None"
  shows "\<exists>fib'. fib_route_del fe fib key len = Some fib' \<and> ip4_fib_table_lookup_lb fe fib' x = fe e
    \<and> ip4_fib_forwarding_lookup fib' x = Some 0"
proof -
  let ?m = "mtrie fib" and ?del = "1 + 2 * fe e"
  have ok: "routes_ok fe h" using fib by (simp add: fib_ok_def h)
  note lb = routes_lb [OF ok e] and lb' = routes_lb [OF ok e']
  obtain ts where ts: "mtrie_rep ?m ts" "\<And>x. find_leaf ts x = best fe h x 32" and d: "default_leaf ?m = 1"
    using fib none [of 0] len by (auto simp: fib_ok_def trie_matches_def h)
  have kp: "key AND fib_masks len = key" using lb(4) by (simp add: is_prefix_def)
  define a where "a = \<lparr>dst_address = key, dst_address_length = len, adj_index = fe e\<rparr>"
  have a: "dst_address a = key" "dst_address_length a = len" "adj_index a = fe e" by (simp_all add: a_def)
  have below: "y AND fib_masks len = key" if "fst (find_leaf ts y) = ?del" for y
  proof -
    have "fst (best fe h y 32) \<noteq> 1" using that ts(2) double_1_eq [OF lb(2)] lb(1) by simp
    then obtain i e2 where i: "h i (y AND fib_masks i) = Some e2" "best fe h y 32 = (1 + 2 * fe e2, word_of_nat i)"
      using best_cases [of fe h y 32] by auto
    have "fe e2 = fe e" using that ts(2) i double_1_inj [OF routes_lb(2) [OF ok i(1)] lb(2)] by simp
    from two [OF i(1) this] show ?thesis using key' masks_and [of len len' y] len by auto
  qed
  obtain m1 ts1 where s: "unset_leaf 4 ?m a 0 = Some (m1, False)" "mtrie_rep m1 ts1" "default_leaf m1 = default_leaf ?m"
    "length (pool_vec (ply_pool m1)) \<le> length (pool_vec (ply_pool ?m))"
    "\<And>x. find_leaf ts1 x = clear_leaf ?del (find_leaf ts x)"
    by (rule unset_leaf_root [OF ts(1), of a, unfolded a]) (use below lb len in simp_all)
  have ins: "insert_less_specific fe fib key (len - 1) m1 = Some m1"
    using less_specific_cases [of fe fib key "len - 1" m1] ok none len unfolding h [symmetric] by fastforce
  let ?h = "h(len := (h len)(key := None))"
  let ?fib = "fib\<lparr>mtrie := m1, fib_entry_by_dst_address := ?h\<rparr>"
  have root: "ply_at ?m 0 = Some (ply_of ts)" using ts(1) by (simp add: mtrie_rep_def ply_ok_def)
  have nn: "pool_vec (ply_pool ?m) \<noteq> []" using ply_at_live [OF root] by (auto simp: pool_live_iff)
  have "fib_route_del fe fib key len = Some ?fib"
    using len nn root s(1) ins lb(3) e kp
    by (simp add: fib_route_del_def ip4_fib_table_fwding_dpo_remove_def ip4_fib_mtrie_add_del_route_def
        ip4_fib_table_entry_remove_def ip4_fib_table_lookup_exact_match_def h Let_def a_def)
  moreover have "ip4_fib_table_lookup ?fib x 32 = e'"
    by (rule lookup_some [OF lb'(3)]) (use e' x longest len in simp_all)
  then have "ip4_fib_table_lookup_lb fe ?fib x = fe e"
    using fe ok e' by (simp add: ip4_fib_table_lookup_lb_def routes_ok_def)
  moreover have "best fe h x 32 = (1 + 2 * fe e', word_of_nat len')"
    by (rule best_longest) (use e' x longest len lb'(3) in simp_all)
  then have "find_leaf ts1 x = (1, 0)" by (simp add: s(5) ts(2) fe)
  then have "ip4_fib_forwarding_lookup ?fib x = Some 0"
    using lookup_steps(1) [OF s(2), of x] s(3) d adj_of_leaf [of 0]
    by (auto simp: ip4_fib_forwarding_lookup_def Let_def bind_eq_Some_conv)
  ultimately show ?thesis by blast
qed

section \<open>Properties\<close>

text \<open>
  C9. However routes are added and deleted, the four-step lookup of the forwarding nodes in the trie
  (with its default leaf) returns the load balance of the longest match in the hash tables, and
  0 when there is none; every change that the tables allow succeeds, with no failed assertion and
  no access outside a ply.
\<close>

theorem fib_forwarding_is_lookup:
  assumes "table_run fe (\<lambda>len key. None) ops = Some h" and "1 + 3 * length ops \<le> 2 ^ 31"
  shows "\<exists>fib0 fib. fib_init = Some fib0 \<and> route_ops (fib_route_add fe) (fib_route_del fe) fib0 ops = Some fib
    \<and> fib_entry_by_dst_address fib = h
    \<and> (\<forall>x. ip4_fib_forwarding_lookup fib x =
          Some (let lbi = ip4_fib_table_lookup_lb fe fib x in if lbi = INDEX_INVALID then 0 else lbi))"
proof -
  obtain fib0 where f: "fib_init = Some fib0" "fib_inv fe fib0" "fib_entry_by_dst_address fib0 = (\<lambda>len key. None)" "fib_plies fib0 = 1"
    using fib_init_ok by blast
  obtain fib where "route_ops (fib_route_add fe) (fib_route_del fe) fib0 ops = Some fib" "fib_inv fe fib" "fib_entry_by_dst_address fib = h"
    using fibs.ops_refine [OF f(2), of ops h] assms f(3,4) by auto
  then show ?thesis using f(1) forwarding_lookup_ok [of fe fib] by (auto simp: fib_inv_def)
qed

text \<open>A route 10/8, a more specific route 10.1/16 and the deletion of the first.\<close>

definition sample_ops :: "route_op list" where
  "sample_ops = [Route_add 0x0A000000 8 1, Route_add 0x0A010000 16 2, Route_del 0x0A000000 8]"

lemma sample_masks: "fib_masks 8 = 0xFF000000" "fib_masks 16 = 0xFFFF0000"
  by (simp_all add: fib_masks_def low_mask_def)

theorem fib_forwarding_is_lookup_witness:
  "\<exists>fib0 fib. fib_init = Some fib0 \<and> route_ops (fib_route_add id) (fib_route_del id) fib0 sample_ops = Some fib
    \<and> fib_entry_by_dst_address fib 16 0x0A010000 = Some 2 \<and> fib_entry_by_dst_address fib 8 0x0A000000 = None
    \<and> ip4_fib_forwarding_lookup fib 0x0A010203 = Some (let lbi = ip4_fib_table_lookup_lb id fib 0x0A010203 in if lbi = - 1 then 0 else lbi)"
proof -
  let ?h = "((\<lambda>len key. None)(8 := [0x0A000000 \<mapsto> 1], 16 := [0x0A010000 \<mapsto> 2]))(8 := Map.empty) :: route_tables"
  have "table_run id (\<lambda>len key. None) sample_ops = Some ?h"
    by (auto simp: sample_ops_def sample_masks lb_free_def fun_eq_iff split: if_splits)
  from fib_forwarding_is_lookup [OF this] show ?thesis by (auto simp: sample_ops_def)
qed

text \<open>
  C10. Setting the leaf of a prefix in a well-formed trie returns a well-formed trie in which exactly
  the addresses under the prefix whose leaf is not more specific lead to the new leaf.
\<close>

theorem mtrie_set_leaf:
  assumes "mtrie_rep m ts" and "0 < dst_address_length a" and "dst_address_length a \<le> 32"
    and "is_prefix (dst_address a) (dst_address_length a)" and "adj_index a \<noteq> 0" and "unat (adj_index a) < 2 ^ 31"
    and "length (pool_vec (ply_pool m)) + 3 \<le> 2 ^ 31"
  shows "\<exists>m' ts'. set_leaf 4 m a 0 = Some m' \<and> mtrie_rep m' ts'
    \<and> (\<forall>x. find_leaf ts' x =
        (let (l, b) = find_leaf ts x
         in if x AND fib_masks (dst_address_length a) = dst_address a \<and> unat b \<le> dst_address_length a
            then (1 + 2 * adj_index a, word_of_nat (dst_address_length a)) else (l, b)))"
proof -
  obtain m' ts' where s: "set_leaf 4 m a 0 = Some m'" "mtrie_rep m' ts'"
    "\<And>x. find_leaf ts' x = (if x AND fib_masks (dst_address_length a) = dst_address a
       then more_specific (1 + 2 * adj_index a) (dst_address_length a) (find_leaf ts x) else find_leaf ts x)"
    by (rule set_leaf_root [OF assms]) blast
  then show ?thesis by (intro exI [of _ m'] exI [of _ ts']) (auto split: prod.split)
qed

theorem mtrie_set_leaf_witness:
  "\<exists>m m' ts'. ip4_mtrie_init = Some m
    \<and> set_leaf 4 m \<lparr>dst_address = 0x0A000000, dst_address_length = 8, adj_index = 5\<rparr> 0 = Some m'
    \<and> mtrie_rep m' ts' \<and> find_leaf ts' 0x0A010203 = (11, 8) \<and> find_leaf ts' 0x0B010203 = (1, 0)"
proof -
  obtain m where m: "ip4_mtrie_init = Some m" "mtrie_rep m (replicate 256 empty_slot)" "length (pool_vec (ply_pool m)) = 1"
    using mtrie_init_ok by blast
  have e: "find_leaf (replicate 256 empty_slot) x = (1, 0)" for x
    using unat_u8_lt [of "as_u8 x 0"] addr_bytes_Cons [of 3 x] by (simp add: find_leaf_def)
  let ?a = "\<lparr>dst_address = 0x0A000000, dst_address_length = 8, adj_index = 5\<rparr>"
  obtain m' ts' where s: "set_leaf 4 m ?a 0 = Some m'" "mtrie_rep m' ts'"
    "\<forall>x. find_leaf ts' x = (let (l, b) = find_leaf (replicate 256 empty_slot) x
       in if x AND fib_masks (dst_address_length ?a) = dst_address ?a \<and> unat b \<le> dst_address_length ?a
          then (1 + 2 * adj_index ?a, word_of_nat (dst_address_length ?a)) else (l, b))"
    using mtrie_set_leaf [OF m(2), of ?a] m(3) by (auto simp: is_prefix_def sample_masks)
  show ?thesis
    by (intro exI [of _ m] exI [of _ m'] exI [of _ ts'] conjI m(1) s(1,2)) (simp_all add: s(3) e sample_masks)
qed

text \<open>
  C11. Unsetting a leaf that is reached only from below the prefix returns a well-formed trie in which
  the addresses that led to the leaf are empty and all others are as before. The plies it empties are
  given back: the plies in use are those of the trie, and none of them, below the root, has only empty
  leaves unless it had before.
\<close>

theorem mtrie_unset_leaf:
  assumes "mtrie_rep m ts" and "0 < dst_address_length a" and "dst_address_length a \<le> 32"
    and "is_prefix (dst_address a) (dst_address_length a)" and "adj_index a \<noteq> 0" and "unat (adj_index a) < 2 ^ 31"
    and "\<And>x. fst (find_leaf ts x) = 1 + 2 * adj_index a \<Longrightarrow> x AND fib_masks (dst_address_length a) = dst_address a"
  shows "\<exists>m' ts'. unset_leaf 4 m a 0 = Some (m', False) \<and> mtrie_rep m' ts'
    \<and> length (pool_vec (ply_pool m')) \<le> length (pool_vec (ply_pool m))
    \<and> pool_live (ply_pool m') = set (0 # plies ts') \<and> (\<Union>t\<in>set ts'. hollow t) \<subseteq> (\<Union>t\<in>set ts. hollow t)
    \<and> (\<forall>x. find_leaf ts' x = (if fst (find_leaf ts x) = 1 + 2 * adj_index a then (IP4_FIB_MTRIE_LEAF_EMPTY, 0) else find_leaf ts x))"
proof -
  obtain m' ts' where s: "unset_leaf 4 m a 0 = Some (m', False)" "mtrie_rep m' ts'" "default_leaf m' = default_leaf m"
    "length (pool_vec (ply_pool m')) \<le> length (pool_vec (ply_pool m))"
    "\<And>x. find_leaf ts' x = clear_leaf (1 + 2 * adj_index a) (find_leaf ts x)" "(\<Union>t\<in>set ts'. hollow t) \<subseteq> (\<Union>t\<in>set ts. hollow t)"
  proof (rule unset_leaf_root [OF assms(1-6)])
    show "x AND fib_masks (dst_address_length a) = dst_address a" if "fst (find_leaf ts x) = 1 + 2 * adj_index a" for x
      by (rule assms(7) [OF that])
  qed (rule that)
  have "clear_leaf d y = (if fst y = d then (1, 0) else y)" for d y by (cases y) simp
  moreover have "pool_live (ply_pool m') = set (0 # plies ts')" using s(2) by (simp add: mtrie_rep_def)
  ultimately show ?thesis using s(1,2,4,5,6) by (intro exI [of _ m'] exI [of _ ts']) simp
qed

theorem mtrie_unset_leaf_witness:
  "\<exists>m m1 ts1 m' ts'. ip4_mtrie_init = Some m
    \<and> set_leaf 4 m \<lparr>dst_address = 0x0A000000, dst_address_length = 8, adj_index = 5\<rparr> 0 = Some m1 \<and> mtrie_rep m1 ts1
    \<and> unset_leaf 4 m1 \<lparr>dst_address = 0x0A000000, dst_address_length = 8, adj_index = 5\<rparr> 0 = Some (m', False)
    \<and> mtrie_rep m' ts' \<and> find_leaf ts1 0x0A010203 = (11, 8) \<and> find_leaf ts' 0x0A010203 = (1, 0)"
proof -
  let ?a = "\<lparr>dst_address = 0x0A000000, dst_address_length = 8, adj_index = 5\<rparr>"
  obtain m where m: "ip4_mtrie_init = Some m" "mtrie_rep m (replicate 256 empty_slot)" "length (pool_vec (ply_pool m)) = 1"
    using mtrie_init_ok by blast
  have a: "is_prefix (dst_address ?a) (dst_address_length ?a)" by (simp add: is_prefix_def sample_masks)
  obtain m1 ts1 where s: "set_leaf 4 m ?a 0 = Some m1" "mtrie_rep m1 ts1" "default_leaf m1 = default_leaf m"
    "length (pool_vec (ply_pool m1)) \<le> length (pool_vec (ply_pool m)) + 3"
    "\<And>x. find_leaf ts1 x = (if x AND fib_masks (dst_address_length ?a) = dst_address ?a
       then more_specific (1 + 2 * adj_index ?a) (dst_address_length ?a) (find_leaf (replicate 256 empty_slot) x)
       else find_leaf (replicate 256 empty_slot) x)"
    by (rule set_leaf_root [OF m(2) _ _ a]) (simp_all add: m(3))
  have f: "find_leaf ts1 x = (if x AND fib_masks 8 = 0x0A000000 then (11, 8) else (1, 0))" for x
    using s(5) [of x] by (simp add: find_leaf_empty)
  have "x AND fib_masks (dst_address_length ?a) = dst_address ?a" if "fst (find_leaf ts1 x) = 1 + 2 * adj_index ?a" for x
    using that by (simp add: f split: if_splits)
  then obtain m' ts' where u: "unset_leaf 4 m1 ?a 0 = Some (m', False)" "mtrie_rep m' ts'"
    "\<And>x. find_leaf ts' x = (if fst (find_leaf ts1 x) = 1 + 2 * adj_index ?a then (1, 0) else find_leaf ts1 x)"
    using mtrie_unset_leaf [OF s(2) _ _ a] by auto
  show ?thesis
    by (intro exI [of _ m] exI [of _ m1] exI [of _ ts1] exI [of _ m'] exI [of _ ts'] conjI m(1) s(1,2) u(1,2))
       (simp_all add: f u(3) sample_masks)
qed

text \<open>
  C12. The load balances must be distinct: when a route and a more specific one under it share one,
  deleting the less specific route also clears the leaves of the other, and the forwarding nodes
  no longer find the route that the hash tables still hold.
\<close>

theorem fib_shared_lb_lost:
  assumes "fib_ok fe fib" and "h = fib_entry_by_dst_address fib" and "h len key = Some e" and "h len' key' = Some e'"
    and "1 \<le> len" and "len < len'" and "key' AND fib_masks len = key" and "fe e' = fe e"
    and "\<And>l k e2. h l k = Some e2 \<Longrightarrow> fe e2 = fe e \<Longrightarrow> (l, k) = (len, key) \<or> (l, k) = (len', key')"
    and "\<And>i. i < len \<Longrightarrow> h i (key AND fib_masks i) = None"
    and "x AND fib_masks len' = key'" and "\<And>j. len' < j \<Longrightarrow> j \<le> 32 \<Longrightarrow> h j (x AND fib_masks j) = None"
  shows "\<exists>fib'. fib_route_del fe fib key len = Some fib' \<and> ip4_fib_table_lookup_lb fe fib' x = fe e
    \<and> ip4_fib_forwarding_lookup fib' x = Some 0"
  by (rule shared_lb_lost [OF assms])

theorem fib_shared_lb_lost_witness:
  "\<exists>fib fib'. fib_entry_by_dst_address fib 16 0x0A010000 = Some 2
    \<and> fib_route_del (\<lambda>e. 7) fib 0x0A000000 8 = Some fib' \<and> ip4_fib_table_lookup_lb (\<lambda>e. 7) fib' 0x0A010203 = 7
    \<and> ip4_fib_forwarding_lookup fib' 0x0A010203 = Some 0"
proof -
  let ?fe = "\<lambda>e :: u32. 7 :: u32"
  obtain fib0 where f0: "fib_init = Some fib0" "fib_inv ?fe fib0" "fib_entry_by_dst_address fib0 = (\<lambda>len key. None)" "fib_plies fib0 = 1"
    using fib_init_ok by blast
  have ok0: "fib_ok ?fe fib0" using f0(2) by (simp add: fib_inv_def)
  obtain fib1 where f1: "fib_ok ?fe fib1" "fib_entry_by_dst_address fib1 = (\<lambda>len key. None)(8 := [0x0A000000 \<mapsto> 1])" "fib_plies fib1 \<le> 4"
    using route_add_ok [where len = 8 and addr = "0x0A000000" and e = 1, OF ok0 refl refl] f0(3,4) by (auto simp: fib_plies_def sample_masks)
  obtain fib where f: "fib_ok ?fe fib"
      "fib_entry_by_dst_address fib = (\<lambda>len key. None)(8 := [0x0A000000 \<mapsto> 1], 16 := [0x0A010000 \<mapsto> 2])"
    using route_add_ok [where len = 16 and addr = "0x0A010000" and e = 2, OF f1(1) refl refl] f1(2,3) by (auto simp: fib_plies_def sample_masks)
  have "\<exists>fib'. fib_route_del ?fe fib 0x0A000000 8 = Some fib' \<and> ip4_fib_table_lookup_lb ?fe fib' 0x0A010203 = ?fe 1
      \<and> ip4_fib_forwarding_lookup fib' 0x0A010203 = Some 0"
    by (rule fib_shared_lb_lost [OF f(1) refl, of 8 _ 1 16 "0x0A010000" 2])
       (auto simp: f(2) sample_masks split: if_splits)
  then obtain fib' where "fib_route_del ?fe fib 0x0A000000 8 = Some fib'" "ip4_fib_table_lookup_lb ?fe fib' 0x0A010203 = 7"
    "ip4_fib_forwarding_lookup fib' 0x0A010203 = Some 0" by blast
  then show ?thesis using f(2) by (intro exI [of _ fib] exI [of _ fib']) simp
qed

text \<open>
  \<open>ip4_fib_free\<close> returns on every well-formed trie, gives back all plies but the root and leaves
  an empty trie; \<open>mtrie_memory_usage\<close> is the size of a ply times the number of plies in use.
\<close>

theorem mtrie_release:
  assumes "mtrie_rep m ts"
  shows "(\<exists>m'. ip4_fib_free m = Some m' \<and> mtrie_rep m' (replicate 256 (Term 1 0)) \<and> pool_elts (ply_pool m') = 1)
    \<and> mtrie_memory_usage m None = Some (sizeof_ply * pool_elts (ply_pool m))"
proof
  obtain m' where "ip4_fib_free m = Some m'" "mtrie_rep m' (replicate 256 empty_slot)" "pool_live (ply_pool m') = {0}"
    using fib_free_ok [OF assms] by blast
  then show "\<exists>m'. ip4_fib_free m = Some m' \<and> mtrie_rep m' (replicate 256 (Term 1 0)) \<and> pool_elts (ply_pool m') = 1"
    by (intro exI [of _ m']) (simp add: mtrie_rep_def pool_elts_card)
  have "pool_elts (ply_pool m) = length (0 # plies ts)"
    using assms unfolding mtrie_rep_def by (metis distinct_card pool_elts_card)
  moreover have "mtrie_memory_usage m None = Some (sizeof_ply * length (0 # plies ts))"
    by (rule memory_usage_ply [of m 3]) (use assms in \<open>simp_all add: mtrie_rep_def\<close>)
  ultimately show "mtrie_memory_usage m None = Some (sizeof_ply * pool_elts (ply_pool m))" by simp
qed

theorem mtrie_release_witness:
  "\<exists>m m'. ip4_mtrie_init = Some m \<and> ip4_fib_free m = Some m' \<and> pool_elts (ply_pool m') = 1
    \<and> mtrie_memory_usage m None = Some 1344"
proof -
  obtain m where m: "ip4_mtrie_init = Some m" "mtrie_rep m (replicate 256 empty_slot)"
    using mtrie_init_ok by blast
  have "pool_live (ply_pool m) = {0}" using m(2) by (simp add: mtrie_rep_def)
  then have "pool_elts (ply_pool m) = 1" using m(2) by (simp add: mtrie_rep_def pool_elts_card)
  then show ?thesis using m(1) mtrie_release [OF m(2)] by (auto simp: sizeof_ply_def)
qed

text \<open>
  \<open>ip4_mtrie_lookup_address\<close> agrees with the lookup of the forwarding nodes for every address with
  a route of its own, but does not look at the default route: it returns 0 for all others.
\<close>

theorem mtrie_lookup_address:
  assumes "fib_ok fe fib"
  shows "ip4_mtrie_lookup_address (mtrie fib) x =
    (if \<exists>i e. 1 \<le> i \<and> i \<le> 32 \<and> fib_entry_by_dst_address fib i (x AND fib_masks i) = Some e
     then ip4_fib_forwarding_lookup fib x else Some 0)"
proof -
  let ?h = "fib_entry_by_dst_address fib"
  have ok: "routes_ok fe ?h" using assms by (simp add: fib_ok_def)
  obtain ts where ts: "mtrie_rep (mtrie fib) ts" "\<And>x. find_leaf ts x = best fe ?h x 32"
    using assms by (auto simp: fib_ok_def trie_matches_def)
  have l: "ip4_mtrie_lookup_address (mtrie fib) x = Some (drop_bit 1 (fst (best fe ?h x 32)))"
    using lookup_address_ok [OF ts(1)] ts(2) by simp
  show ?thesis using best_cases [of fe ?h x 32]
  proof (elim disjE exE conjE)
    assume "best fe ?h x 32 = (1, 0)" "\<forall>i. 1 \<le> i \<longrightarrow> i \<le> 32 \<longrightarrow> ?h i (x AND fib_masks i) = None"
    then show ?thesis using l by auto
  next
    fix i e assume b: "1 \<le> i" "i \<le> 32" "?h i (x AND fib_masks i) = Some e" "best fe ?h x 32 = (1 + 2 * fe e, word_of_nat i)"
      "\<forall>j. i < j \<longrightarrow> j \<le> 32 \<longrightarrow> ?h j (x AND fib_masks j) = None"
    have "ip4_fib_table_lookup fib x 32 = e" by (rule lookup_some [OF b(2,3)]) (use b(5) in simp)
    moreover have "e \<noteq> - 1" using ok b(3) unfolding routes_ok_def by blast
    ultimately have "ip4_fib_forwarding_lookup fib x = Some (fe e)"
      using forwarding_lookup_ok [OF assms, of x] lb_valid [OF routes_lb(2) [OF ok b(3)]]
      by (simp add: ip4_fib_table_lookup_lb_def Let_def)
    moreover have "ip4_mtrie_lookup_address (mtrie fib) x = Some (fe e)"
      using l b(4) drop_double_1 [OF routes_lb(2) [OF ok b(3)]] by simp
    ultimately show ?thesis using b(1-3) by auto
  qed
qed

theorem mtrie_lookup_address_witness:
  "\<exists>fib. fib_entry_by_dst_address fib 0 0 = Some 1 \<and> ip4_mtrie_lookup_address (mtrie fib) 0x0A010203 = Some 0
    \<and> ip4_fib_forwarding_lookup fib 0x0A010203 = Some 1"
proof -
  obtain fib0 where f0: "fib_init = Some fib0" "fib_inv id fib0" "fib_entry_by_dst_address fib0 = (\<lambda>len key. None)" "fib_plies fib0 = 1"
    using fib_init_ok by blast
  have ok0: "fib_ok id fib0" using f0(2) by (simp add: fib_inv_def)
  obtain fib where f: "fib_ok id fib" "fib_entry_by_dst_address fib = (\<lambda>len key. None)(0 := [0 \<mapsto> 1])"
    using route_add_ok [where len = 0 and addr = 0 and e = 1, OF ok0 refl refl] f0(3,4) by (auto simp: fib_plies_def)
  have "ip4_fib_table_lookup fib 0x0A010203 32 = ip4_fib_table_lookup fib 0x0A010203 0" by (rule lookup_none) (simp add: f(2))
  then have "ip4_fib_forwarding_lookup fib 0x0A010203 = Some 1"
    using forwarding_lookup_ok [OF f(1), of "0x0A010203"] by (simp add: ip4_fib_table_lookup_lb_def f(2))
  moreover have "ip4_mtrie_lookup_address (mtrie fib) 0x0A010203 = Some 0"
    using mtrie_lookup_address [OF f(1), of "0x0A010203"] by (simp add: f(2))
  ultimately show ?thesis using f(2) by (intro exI [of _ fib]) simp
qed

end
