(* ===== verification/Vpp_Dlist.thy ===== *)
theory Vpp_Dlist
  imports Pool C_Loops
begin

text \<open>
  The doubly linked lists of \<^verbatim>\<open>vppinfra/dlist.h\<close>, whose links are 32-bit pool indices, and the theory
  of index-linked lists that the timer wheels share with them: a segment of cells whose next and
  previous links agree, insertion at both ends, removal, and what a change elsewhere leaves alone.
  A failed assertion is \<open>None\<close>. The contract of a double-ended list is the locale \<open>index_deque\<close>.
\<close>

section \<open>Segments of linked cells\<close>

text \<open>\<open>seg nx pv a xs b\<close>: the next links lead from \<open>a\<close> through \<open>xs\<close> to \<open>b\<close>, the previous links back.\<close>

fun seg :: "('i \<Rightarrow> 'i) \<Rightarrow> ('i \<Rightarrow> 'i) \<Rightarrow> 'i \<Rightarrow> 'i list \<Rightarrow> 'i \<Rightarrow> bool" where
  "seg nx pv a [] b = (nx a = b \<and> pv b = a)"
| "seg nx pv a (x # xs) b = (nx a = x \<and> pv x = a \<and> seg nx pv x xs b)"

lemma seg_append: "seg nx pv a (xs @ y # ys) b \<longleftrightarrow> seg nx pv a xs y \<and> seg nx pv y ys b"
  by (induction xs arbitrary: a) auto

lemma seg_rev: "seg nx pv a xs b \<longleftrightarrow> seg pv nx b (rev xs) a"
  by (induction xs arbitrary: a) (auto simp: seg_append)

lemma seg_cong:
  "(\<And>x. x \<in> set (a # xs) \<Longrightarrow> nx x = nx' x) \<Longrightarrow> (\<And>x. x \<in> set (b # xs) \<Longrightarrow> pv x = pv' x) \<Longrightarrow>
   seg nx pv a xs b \<longleftrightarrow> seg nx' pv' a xs b"
  by (induction xs arbitrary: a) auto

lemma seg_nx: "seg nx pv a xs b \<Longrightarrow> nx a = hd (xs @ [b])"
  by (cases xs) auto

lemma seg_pv: "seg nx pv a xs b \<Longrightarrow> pv b = last (a # xs)"
  by (induction xs arbitrary: a) auto

text \<open>A ring is a segment from its head back to it.\<close>

definition ring :: "('i \<Rightarrow> 'i) \<Rightarrow> ('i \<Rightarrow> 'i) \<Rightarrow> 'i \<Rightarrow> 'i list \<Rightarrow> bool" where
  "ring nx pv h xs = (distinct (h # xs) \<and> seg nx pv h xs h)"

lemma ring_cong:
  "(\<And>x. x \<in> set (h # xs) \<Longrightarrow> nx x = nx' x \<and> pv x = pv' x) \<Longrightarrow> ring nx pv h xs \<longleftrightarrow> ring nx' pv' h xs"
  unfolding ring_def by (intro conj_cong refl seg_cong) auto

lemma ring_rev: "ring nx pv h xs \<longleftrightarrow> ring pv nx h (rev xs)"
  unfolding ring_def by (subst seg_rev) simp

lemma ring_nx: "ring nx pv h xs \<Longrightarrow> nx h = hd (xs @ [h])"
  unfolding ring_def by (auto dest: seg_nx)

lemma ring_pv: "ring nx pv h xs \<Longrightarrow> pv h = last (h # xs)"
  unfolding ring_def by (auto dest: seg_pv)

lemma ring_empty [simp]: "ring nx pv h [] \<longleftrightarrow> nx h = h \<and> pv h = h"
  by (simp add: ring_def)

lemma ring_empty_iff: "ring nx pv h xs \<Longrightarrow> nx h = h \<longleftrightarrow> xs = []"
  by (cases xs) (auto simp: ring_def)

lemma ring_insert_first:
  assumes "ring nx pv h xs" and "i \<notin> set (h # xs)"
  shows "ring (nx(i := nx h, h := i)) (pv(i := h, nx h := i)) h (i # xs)"
proof (cases xs)
  case Nil
  then show ?thesis using assms by (simp add: ring_def)
next
  case (Cons x ys)
  then have s: "distinct (h # x # ys)" "nx h = x" "seg nx pv x ys h" "i \<notin> set (h # x # ys)"
    using assms by (auto simp: ring_def)
  have "seg (nx(i := nx h, h := i)) (pv(i := h, nx h := i)) x ys h"
    using s by (intro seg_cong [THEN iffD1, OF _ _ s(3)]) auto
  then show ?thesis using s Cons by (auto simp: ring_def)
qed

lemma ring_insert_last:
  assumes "ring nx pv h xs" and "i \<notin> set (h # xs)"
  shows "ring (nx(i := h, pv h := i)) (pv(i := pv h, h := i)) h (xs @ [i])"
  using ring_insert_first [of pv nx h "rev xs" i] assms by (simp add: ring_rev [of nx] ring_rev [of "nx(_ := _, _ := _)"])

lemma ring_remove:
  assumes "ring nx pv h (us @ i # vs)"
  shows "ring (nx(pv i := nx i, i := a)) (pv(nx i := pv i, i := b)) h (us @ vs)"
proof -
  have d: "distinct (h # us @ i # vs)" and s: "seg nx pv h us i" "seg nx pv i vs h"
    using assms by (auto simp: ring_def seg_append)
  let ?n = "nx(pv i := nx i, i := a)" and ?p = "pv(nx i := pv i, i := b)"
  show ?thesis
  proof (cases us rule: rev_cases)
    case Nil
    then have pi: "pv i = h" using s(1) by simp
    show ?thesis
    proof (cases vs)
      case (Cons v ws)
      then have "nx i = v" "seg nx pv v ws h" using s(2) by auto
      moreover have "seg ?n ?p v ws h"
        using d Nil Cons calculation pi by (intro seg_cong [THEN iffD1, OF _ _ calculation(2)]) auto
      ultimately show ?thesis using d Nil Cons pi by (auto simp: ring_def)
    qed (use s d Nil pi in \<open>auto simp: ring_def\<close>)
  next
    case (snoc ws u)
    then have u: "pv i = u" "seg nx pv h ws u" using s(1) by (auto simp: seg_append)
    show ?thesis
    proof (cases vs)
      case V: Nil
      have ni: "nx i = h" using s(2) V by simp
      have "seg ?n ?p h ws u" using d snoc V u ni by (intro seg_cong [THEN iffD1, OF _ _ u(2)]) auto
      then show ?thesis using d snoc V u ni by (auto simp: ring_def seg_append)
    next
      case (Cons v xs)
      then have v: "nx i = v" "seg nx pv v xs h" using s(2) by auto
      have "seg ?n ?p h ws u" using d snoc Cons u v by (intro seg_cong [THEN iffD1, OF _ _ u(2)]) auto
      moreover have "seg ?n ?p v xs h" using d snoc Cons u v by (intro seg_cong [THEN iffD1, OF _ _ v(2)]) auto
      ultimately show ?thesis using d snoc Cons u v by (auto simp: ring_def seg_append)
    qed
  qed
qed

section \<open>Cells of a pool\<close>

text \<open>The element that a 32-bit index names, and a store to fields of it through a pointer.\<close>

definition cell :: "'a pool \<Rightarrow> u32 \<Rightarrow> 'a" where
  "cell p i = pool_vec p ! unat i"

abbreviation live_cell :: "'a pool \<Rightarrow> u32 \<Rightarrow> bool" where
  "live_cell p i \<equiv> unat i \<in> pool_live p"

definition elt_at :: "'a pool \<Rightarrow> u32 \<Rightarrow> 'a option" where
  "elt_at p i = pool_elt_at_index p (unat i)"

definition elt_update :: "'a pool \<Rightarrow> u32 \<Rightarrow> ('a \<Rightarrow> 'a) \<Rightarrow> 'a pool option" where
  "elt_update p i f = do {e \<leftarrow> elt_at p i; Some (pool_store p (unat i) (f e))}"

lemma elt_at_eq: "elt_at p i = (if live_cell p i then Some (cell p i) else None)"
  by (simp add: elt_at_def pool_elt_live cell_def)

lemma elt_update_eq: "elt_update p i f = (if live_cell p i then Some (pool_store p (unat i) (f (cell p i))) else None)"
  by (simp add: elt_update_def elt_at_eq)

lemma cell_store: "live_cell p i \<Longrightarrow> cell (pool_store p (unat i) x) = (cell p)(i := x)"
  by (auto simp: fun_eq_iff cell_def pool_store_def pool_live_iff nth_list_update word_unat_eq_iff)

lemmas cells = elt_at_eq elt_update_eq cell_store

section \<open>The lists of dlist.h\<close>

record dlist_elt_t =
  dl_next :: u32
  dl_prev :: u32
  dl_value :: u32

definition clib_dlist_init :: "dlist_elt_t pool \<Rightarrow> u32 \<Rightarrow> dlist_elt_t pool option" where
  "clib_dlist_init pool index = elt_update pool index (\<lambda>_. \<lparr>dl_next = - 1, dl_prev = - 1, dl_value = - 1\<rparr>)"

definition clib_dlist_addtail :: "dlist_elt_t pool \<Rightarrow> u32 \<Rightarrow> u32 \<Rightarrow> dlist_elt_t pool option" where
  "clib_dlist_addtail pool head_index new_index = do {
     head \<leftarrow> elt_at pool head_index;
     if dl_value head \<noteq> - 1 then None
     else do {
       _ \<leftarrow> elt_at pool new_index;
       if dl_next head = - 1
       then do {
         pool \<leftarrow> elt_update pool head_index (\<lambda>head. head\<lparr>dl_next := new_index, dl_prev := new_index\<rparr>);
         elt_update pool new_index (\<lambda>new. new\<lparr>dl_next := head_index, dl_prev := head_index\<rparr>)}
       else do {
         let old_last_index = dl_prev head;
         old_last \<leftarrow> elt_at pool old_last_index;
         pool \<leftarrow> elt_update pool new_index (\<lambda>new. new\<lparr>dl_next := dl_next old_last, dl_prev := old_last_index\<rparr>);
         pool \<leftarrow> elt_update pool old_last_index (\<lambda>old_last. old_last\<lparr>dl_next := new_index\<rparr>);
         elt_update pool head_index (\<lambda>head. head\<lparr>dl_prev := new_index\<rparr>)}
     }
   }"

definition clib_dlist_addhead :: "dlist_elt_t pool \<Rightarrow> u32 \<Rightarrow> u32 \<Rightarrow> dlist_elt_t pool option" where
  "clib_dlist_addhead pool head_index new_index = do {
     head \<leftarrow> elt_at pool head_index;
     if dl_value head \<noteq> - 1 then None
     else do {
       _ \<leftarrow> elt_at pool new_index;
       if dl_next head = - 1
       then do {
         pool \<leftarrow> elt_update pool head_index (\<lambda>head. head\<lparr>dl_next := new_index, dl_prev := new_index\<rparr>);
         elt_update pool new_index (\<lambda>new. new\<lparr>dl_next := head_index, dl_prev := head_index\<rparr>)}
       else do {
         let old_first_index = dl_next head;
         old_first \<leftarrow> elt_at pool old_first_index;
         pool \<leftarrow> elt_update pool new_index (\<lambda>new. new\<lparr>dl_next := old_first_index, dl_prev := dl_prev old_first\<rparr>);
         pool \<leftarrow> elt_update pool old_first_index (\<lambda>old_first. old_first\<lparr>dl_prev := new_index\<rparr>);
         elt_update pool head_index (\<lambda>head. head\<lparr>dl_next := new_index\<rparr>)}
     }
   }"

definition clib_dlist_remove :: "dlist_elt_t pool \<Rightarrow> u32 \<Rightarrow> dlist_elt_t pool option" where
  "clib_dlist_remove pool index = do {
     elt \<leftarrow> elt_at pool index;
     if dl_value elt = - 1 then None
     else do {
       _ \<leftarrow> elt_at pool (dl_next elt);
       _ \<leftarrow> elt_at pool (dl_prev elt);
       pool \<leftarrow> elt_update pool (dl_next elt) (\<lambda>next_elt. next_elt\<lparr>dl_prev := dl_prev elt\<rparr>);
       pool \<leftarrow> elt_update pool (dl_prev elt) (\<lambda>prev_elt. prev_elt\<lparr>dl_next := dl_next elt\<rparr>);
       elt_update pool index (\<lambda>elt. elt\<lparr>dl_prev := - 1, dl_next := - 1\<rparr>)
     }
   }"

definition clib_dlist_remove_head :: "dlist_elt_t pool \<Rightarrow> u32 \<Rightarrow> (dlist_elt_t pool \<times> u32) option" where
  "clib_dlist_remove_head pool head_index = do {
     head \<leftarrow> elt_at pool head_index;
     if dl_value head \<noteq> - 1 then None
     else if dl_next head = - 1 \<or> dl_next head = head_index then Some (pool, - 1)
     else do {
       let rv = dl_next head;
       pool \<leftarrow> clib_dlist_remove pool rv;
       Some (pool, rv)
     }
   }"

definition clib_dlist_remove_tail :: "dlist_elt_t pool \<Rightarrow> u32 \<Rightarrow> (dlist_elt_t pool \<times> u32) option" where
  "clib_dlist_remove_tail pool head_index = do {
     head \<leftarrow> elt_at pool head_index;
     if dl_value head \<noteq> - 1 then None
     else if dl_prev head = - 1 then Some (pool, - 1)
     else do {
       let rv = dl_prev head;
       pool \<leftarrow> clib_dlist_remove pool rv;
       Some (pool, rv)
     }
   }"

section \<open>The contract of a double-ended list\<close>

text \<open>
  \<open>lst p h xs\<close>: the list with head \<open>h\<close> holds the elements \<open>xs\<close>; \<open>elem p i\<close>: \<open>i\<close> can be put on a list.
\<close>

locale index_deque =
  fixes lst :: "'p \<Rightarrow> 'i \<Rightarrow> 'i list \<Rightarrow> bool" and elem :: "'p \<Rightarrow> 'i \<Rightarrow> bool" and none :: 'i
    and addhead :: "'p \<Rightarrow> 'i \<Rightarrow> 'i \<Rightarrow> 'p option" and addtail :: "'p \<Rightarrow> 'i \<Rightarrow> 'i \<Rightarrow> 'p option"
    and remove :: "'p \<Rightarrow> 'i \<Rightarrow> 'p option" and remove_head :: "'p \<Rightarrow> 'i \<Rightarrow> ('p \<times> 'i) option"
  assumes lst_elem: "lst p h xs \<Longrightarrow> distinct (h # xs) \<and> \<not> elem p h \<and> (\<forall>x\<in>set xs. elem p x)"
    and addhead: "lst p h xs \<Longrightarrow> elem p i \<Longrightarrow> i \<notin> set xs \<Longrightarrow>
      \<exists>p'. addhead p h i = Some p' \<and> lst p' h (i # xs) \<and> elem p' = elem p
        \<and> (\<forall>k ys. lst p k ys \<longrightarrow> set (k # ys) \<inter> set (h # i # xs) = {} \<longrightarrow> lst p' k ys)"
    and addtail: "lst p h xs \<Longrightarrow> elem p i \<Longrightarrow> i \<notin> set xs \<Longrightarrow>
      \<exists>p'. addtail p h i = Some p' \<and> lst p' h (xs @ [i]) \<and> elem p' = elem p
        \<and> (\<forall>k ys. lst p k ys \<longrightarrow> set (k # ys) \<inter> set (h # i # xs) = {} \<longrightarrow> lst p' k ys)"
    and remove: "lst p h (us @ i # vs) \<Longrightarrow>
      \<exists>p'. remove p i = Some p' \<and> lst p' h (us @ vs) \<and> elem p' = elem p
        \<and> (\<forall>k ys. lst p k ys \<longrightarrow> set (k # ys) \<inter> set (h # us @ i # vs) = {} \<longrightarrow> lst p' k ys)"
    and remove_head_empty: "lst p h [] \<Longrightarrow> remove_head p h = Some (p, none)"
    and remove_head: "lst p h (x # xs) \<Longrightarrow>
      remove_head p h = (case remove p x of None \<Rightarrow> None | Some p' \<Rightarrow> Some (p', x))"
begin

text \<open>An element that is used moves to the end of its list, the others keep their order.\<close>

lemma touch:
  assumes "lst p h (us @ i # vs)"
  shows "\<exists>p' p''. remove p i = Some p' \<and> addtail p' h i = Some p'' \<and> lst p'' h (us @ vs @ [i])"
proof -
  obtain p' where p': "remove p i = Some p'" "lst p' h (us @ vs)" "elem p' = elem p"
    using remove [OF assms] by blast
  have "elem p' i" "i \<notin> set (us @ vs)" using lst_elem [OF assms] p'(3) by auto
  then show ?thesis using addtail [OF p'(2)] p'(1) by fastforce
qed

fun add_all :: "'p \<Rightarrow> 'i \<Rightarrow> 'i list \<Rightarrow> 'p option" where
  "add_all p h [] = Some p"
| "add_all p h (i # is) = (case addtail p h i of None \<Rightarrow> None | Some p \<Rightarrow> add_all p h is)"

fun take_all :: "'p \<Rightarrow> 'i \<Rightarrow> nat \<Rightarrow> ('p \<times> 'i list) option" where
  "take_all p h 0 = Some (p, [])"
| "take_all p h (Suc n) = (case remove_head p h of None \<Rightarrow> None
     | Some (p, i) \<Rightarrow> (case take_all p h n of None \<Rightarrow> None | Some (p, is) \<Rightarrow> Some (p, i # is)))"

lemma add_all_lst:
  "lst p h xs \<Longrightarrow> distinct (xs @ is) \<Longrightarrow> (\<forall>i\<in>set is. elem p i) \<Longrightarrow>
   \<exists>p'. add_all p h is = Some p' \<and> lst p' h (xs @ is)"
proof (induction "is" arbitrary: p xs)
  case (Cons i "is")
  then obtain p' where p': "addtail p h i = Some p'" "lst p' h (xs @ [i])" "elem p' = elem p"
    using addtail [OF Cons.prems(1), of i] by auto
  then show ?case using Cons.IH [OF p'(2)] Cons.prems by simp
qed simp

lemma take_all_lst:
  "lst p h (is @ xs) \<Longrightarrow> \<exists>p'. take_all p h (length is) = Some (p', is) \<and> lst p' h xs"
proof (induction "is" arbitrary: p)
  case (Cons i "is")
  then obtain p' where p': "remove p i = Some p'" "lst p' h (is @ xs)"
    using remove [of p h "[]" i "is @ xs"] by auto
  then show ?case using Cons.IH [OF p'(2)] remove_head [of p h i "is @ xs"] Cons.prems by auto
qed simp

text \<open>First in, first out, and an emptied list says so.\<close>

lemma fifo:
  assumes "lst p h []" and "distinct is" and "\<forall>i\<in>set is. elem p i"
  shows "\<exists>p' p''. add_all p h is = Some p' \<and> take_all p' h (length is) = Some (p'', is)
    \<and> remove_head p'' h = Some (p'', none)"
proof -
  obtain p' where p': "add_all p h is = Some p'" "lst p' h (is @ [])" using add_all_lst [OF assms(1)] assms by auto
  from take_all_lst [OF p'(2)] show ?thesis using p'(1) remove_head_empty by blast
qed

end

section \<open>The lists of dlist.h keep the contract\<close>

definition dlist_ring :: "dlist_elt_t pool \<Rightarrow> u32 \<Rightarrow> u32 list \<Rightarrow> bool" where
  "dlist_ring p h xs = ring (\<lambda>i. dl_next (cell p i)) (\<lambda>i. dl_prev (cell p i)) h xs"

definition dlist_elem :: "dlist_elt_t pool \<Rightarrow> u32 \<Rightarrow> bool" where
  "dlist_elem p i = (live_cell p i \<and> dl_value (cell p i) \<noteq> - 1 \<and> i \<noteq> - 1)"

text \<open>An empty list is one that was never used or one whose head is linked to itself.\<close>

definition dlist :: "dlist_elt_t pool \<Rightarrow> u32 \<Rightarrow> u32 list \<Rightarrow> bool" where
  "dlist p h xs = (live_cell p h \<and> dl_value (cell p h) = - 1 \<and> h \<noteq> - 1 \<and> list_all (dlist_elem p) xs
     \<and> (dlist_ring p h xs \<or> xs = [] \<and> dl_next (cell p h) = - 1 \<and> dl_prev (cell p h) = - 1))"

lemma dlist_cong:
  assumes "dlist p h xs" and "pool_live p' = pool_live p" and "\<And>i. i \<in> set (h # xs) \<Longrightarrow> cell p' i = cell p i"
  shows "dlist p' h xs"
proof -
  have "dlist_ring p' h xs = dlist_ring p h xs" unfolding dlist_ring_def by (intro ring_cong) (use assms(3) in auto)
  then show ?thesis using assms by (auto simp: dlist_def dlist_elem_def list_all_iff)
qed

lemma dlist_distinct: "dlist p h xs \<Longrightarrow> distinct (h # xs)"
  by (auto simp: dlist_def dlist_ring_def ring_def)

text \<open>What an operation keeps: the values, the elements in use, and the cells away from the list.\<close>

definition dlist_frame :: "dlist_elt_t pool \<Rightarrow> dlist_elt_t pool \<Rightarrow> u32 set \<Rightarrow> bool" where
  "dlist_frame p p' A = (pool_live p' = pool_live p \<and> (\<forall>i. dl_value (cell p' i) = dl_value (cell p i))
     \<and> (\<forall>i. i \<notin> A \<longrightarrow> cell p' i = cell p i))"

lemma dlist_frame_elem: "dlist_frame p p' A \<Longrightarrow> dlist_elem p' = dlist_elem p"
  by (auto simp: dlist_frame_def dlist_elem_def fun_eq_iff)

lemma dlist_frame_list:
  "dlist_frame p p' A \<Longrightarrow> dlist p k ys \<Longrightarrow> set (k # ys) \<inter> A = {} \<Longrightarrow> dlist p' k ys"
  by (rule dlist_cong [of p]) (auto simp: dlist_frame_def)

lemma dlist_ringI:
  assumes "dlist p h xs" and "dlist_frame p p' A" and "\<And>i. i \<in> set ys \<Longrightarrow> dlist_elem p i" and "dlist_ring p' h ys"
  shows "dlist p' h ys"
  using assms dlist_frame_elem [OF assms(2)] by (auto simp: dlist_def list_all_iff dlist_frame_def)


lemma dlist_start_ring:
  assumes "dlist p h []" and "\<not> dlist_ring p h []" and "dlist_elem p i"
  shows "\<exists>p'. do {p \<leftarrow> elt_update p h (\<lambda>e. e\<lparr>dl_next := i, dl_prev := i\<rparr>);
      elt_update p i (\<lambda>e. e\<lparr>dl_next := h, dl_prev := h\<rparr>)} = Some p'
    \<and> dlist_frame p p' {h, i} \<and> dlist_ring p' h [i]"
  using assms
  by (auto simp: dlist_def dlist_elem_def cells dlist_frame_def dlist_ring_def ring_def)

text \<open>The head and the elements are cells in use, and a new element is none of them.\<close>

lemma dlist_cells:
  assumes "dlist p h xs"
  shows "live_cell p h" and "dl_value (cell p h) = - 1" and "h \<noteq> - 1" and "dlist_elem p i \<Longrightarrow> i \<noteq> h"
    and "j \<in> set (h # xs) \<Longrightarrow> live_cell p j \<and> j \<noteq> - 1" and "j \<in> set xs \<Longrightarrow> dlist_elem p j"
  using assms by (auto simp: dlist_def dlist_elem_def list_all_iff)

lemma dlist_addhead:
  assumes l: "dlist p h xs" and e: "dlist_elem p i" and i: "i \<notin> set xs"
  shows "\<exists>p'. clib_dlist_addhead p h i = Some p' \<and> dlist_frame p p' (set (h # i # xs)) \<and> dlist p' h (i # xs)"
proof -
  note h = dlist_cells [OF l]
  have n: "i \<noteq> h" "live_cell p i" using h(4) e by (auto simp: dlist_elem_def)
  have "\<exists>p'. clib_dlist_addhead p h i = Some p' \<and> dlist_frame p p' (set (h # i # xs)) \<and> dlist_ring p' h (i # xs)"
  proof (cases "dlist_ring p h xs")
    case True
    let ?f = "dl_next (cell p h)" and ?nx = "\<lambda>i. dl_next (cell p i)" and ?pv = "\<lambda>i. dl_prev (cell p i)"
    have r: "ring ?nx ?pv h xs" using True by (simp add: dlist_ring_def)
    have f: "?f \<in> set (h # xs)" "dl_prev (cell p ?f) = h" using r by (cases xs; auto simp: ring_def)+
    then have f': "live_cell p ?f" "?f \<noteq> - 1" "?f \<noteq> i" using h(5) [OF f(1)] i n by auto
    define p' where "p' = pool_store (pool_store (pool_store p (unat i) ((cell p i)\<lparr>dl_next := ?f, dl_prev := h\<rparr>))
      (unat ?f) ((cell p ?f)\<lparr>dl_prev := i\<rparr>)) (unat h) ((if ?f = h then (cell p h)\<lparr>dl_prev := i\<rparr> else cell p h)\<lparr>dl_next := i\<rparr>)"
    have "clib_dlist_addhead p h i = Some p'" using h(1-3) n f' f(2)
      by (simp add: clib_dlist_addhead_def cells Let_def p'_def)
    moreover have c: "cell p' = (cell p)(i := (cell p i)\<lparr>dl_next := ?f, dl_prev := h\<rparr>, ?f := (cell p ?f)\<lparr>dl_prev := i\<rparr>,
        h := (if ?f = h then (cell p h)\<lparr>dl_prev := i\<rparr> else cell p h)\<lparr>dl_next := i\<rparr>)" "pool_live p' = pool_live p"
      using h(1) n f' by (simp_all add: cells p'_def)
    moreover have "dlist_frame p p' (set (h # i # xs))" using c f(1) by (auto simp: dlist_frame_def)
    moreover have "dlist_ring p' h (i # xs)"
    proof -
      have "(\<lambda>j. dl_next (cell p' j)) = ?nx(i := ?f, h := i)" "(\<lambda>j. dl_prev (cell p' j)) = ?pv(i := h, ?f := i)"
        unfolding c using n f' by (auto simp: fun_eq_iff)
      then show ?thesis unfolding dlist_ring_def using ring_insert_first [OF r, of i] n i by simp
    qed
    ultimately show ?thesis by blast
  next
    case False
    then have x: "xs = []" "dl_next (cell p h) = - 1" using l by (auto simp: dlist_def)
    then obtain p' where "do {p \<leftarrow> elt_update p h (\<lambda>e. e\<lparr>dl_next := i, dl_prev := i\<rparr>);
      elt_update p i (\<lambda>e. e\<lparr>dl_next := h, dl_prev := h\<rparr>)} = Some p'" "dlist_frame p p' {h, i}" "dlist_ring p' h [i]"
      using dlist_start_ring [of p h i] False l e by auto
    then show ?thesis using x h(1,2) n by (simp add: clib_dlist_addhead_def elt_at_eq)
  qed
  then obtain p' where p': "clib_dlist_addhead p h i = Some p'" "dlist_frame p p' (set (h # i # xs))"
    "dlist_ring p' h (i # xs)" by blast
  have "dlist p' h (i # xs)" by (rule dlist_ringI [OF l p'(2) _ p'(3)]) (use h(6) e in auto)
  then show ?thesis using p' by blast
qed

lemma dlist_addtail:
  assumes l: "dlist p h xs" and e: "dlist_elem p i" and i: "i \<notin> set xs"
  shows "\<exists>p'. clib_dlist_addtail p h i = Some p' \<and> dlist_frame p p' (set (h # i # xs)) \<and> dlist p' h (xs @ [i])"
proof -
  note h = dlist_cells [OF l]
  have n: "i \<noteq> h" "live_cell p i" using h(4) e by (auto simp: dlist_elem_def)
  have "\<exists>p'. clib_dlist_addtail p h i = Some p' \<and> dlist_frame p p' (set (h # i # xs)) \<and> dlist_ring p' h (xs @ [i])"
  proof (cases "dlist_ring p h xs")
    case True
    let ?f = "dl_prev (cell p h)" and ?nx = "\<lambda>i. dl_next (cell p i)" and ?pv = "\<lambda>i. dl_prev (cell p i)"
    have r: "ring ?nx ?pv h xs" using True by (simp add: dlist_ring_def)
    then have "ring ?pv ?nx h (rev xs)" by (simp add: ring_rev [of ?nx])
    then have f: "?f \<in> set (h # xs)" "dl_next (cell p ?f) = h"
      by (cases xs rule: rev_cases; auto simp: ring_def)+
    then have f': "live_cell p ?f" "?f \<noteq> i" using h(5) [OF f(1)] i n by auto
    have hd: "dl_next (cell p h) \<noteq> - 1" using r h(5) by (cases xs) (auto simp: ring_def)
    define p' where "p' = pool_store (pool_store (pool_store p (unat i) ((cell p i)\<lparr>dl_next := h, dl_prev := ?f\<rparr>))
      (unat ?f) ((cell p ?f)\<lparr>dl_next := i\<rparr>)) (unat h) ((if ?f = h then (cell p h)\<lparr>dl_next := i\<rparr> else cell p h)\<lparr>dl_prev := i\<rparr>)"
    have "clib_dlist_addtail p h i = Some p'" using h(1-3) n f' f(2) hd
      by (simp add: clib_dlist_addtail_def cells Let_def p'_def)
    moreover have c: "cell p' = (cell p)(i := (cell p i)\<lparr>dl_next := h, dl_prev := ?f\<rparr>, ?f := (cell p ?f)\<lparr>dl_next := i\<rparr>,
        h := (if ?f = h then (cell p h)\<lparr>dl_next := i\<rparr> else cell p h)\<lparr>dl_prev := i\<rparr>)" "pool_live p' = pool_live p"
      using h(1) n f' by (simp_all add: cells p'_def)
    moreover have "dlist_frame p p' (set (h # i # xs))" using c f(1) by (auto simp: dlist_frame_def)
    moreover have "dlist_ring p' h (xs @ [i])"
    proof -
      have "(\<lambda>j. dl_next (cell p' j)) = ?nx(i := h, ?f := i)" "(\<lambda>j. dl_prev (cell p' j)) = ?pv(i := ?f, h := i)"
        unfolding c using n f' by (auto simp: fun_eq_iff)
      then show ?thesis unfolding dlist_ring_def using ring_insert_last [OF r, of i] n i by simp
    qed
    ultimately show ?thesis by blast
  next
    case False
    then have x: "xs = []" "dl_next (cell p h) = - 1" using l by (auto simp: dlist_def)
    then obtain p' where "do {p \<leftarrow> elt_update p h (\<lambda>e. e\<lparr>dl_next := i, dl_prev := i\<rparr>);
      elt_update p i (\<lambda>e. e\<lparr>dl_next := h, dl_prev := h\<rparr>)} = Some p'" "dlist_frame p p' {h, i}" "dlist_ring p' h [i]"
      using dlist_start_ring [of p h i] False l e by auto
    then show ?thesis using x h(1,2) n by (simp add: clib_dlist_addtail_def elt_at_eq)
  qed
  then obtain p' where p': "clib_dlist_addtail p h i = Some p'" "dlist_frame p p' (set (h # i # xs))"
    "dlist_ring p' h (xs @ [i])" by blast
  have "dlist p' h (xs @ [i])" by (rule dlist_ringI [OF l p'(2) _ p'(3)]) (use h(6) e in auto)
  then show ?thesis using p' by blast
qed

lemma ring_neighbours:
  assumes "ring nx pv h (us @ i # vs)"
  shows "nx i \<in> set (h # us @ vs)" and "pv i \<in> set (h # us @ vs)" and "i \<notin> set (h # us @ vs)"
proof -
  have s: "seg nx pv h us i" "seg nx pv i vs h" "distinct (h # us @ i # vs)" using assms by (auto simp: ring_def seg_append)
  show "nx i \<in> set (h # us @ vs)" using seg_nx [OF s(2)] by (cases vs) auto
  show "pv i \<in> set (h # us @ vs)" using seg_pv [OF s(1)] by (cases us rule: rev_cases) auto
  show "i \<notin> set (h # us @ vs)" using s(3) by auto
qed

lemma dlist_remove:
  assumes l: "dlist p h (us @ i # vs)"
  shows "\<exists>p'. clib_dlist_remove p i = Some p' \<and> dlist_frame p p' (set (h # us @ i # vs)) \<and> dlist p' h (us @ vs)
    \<and> dlist_ring p' h (us @ vs)"
proof -
  note h = dlist_cells [OF l]
  let ?a = "dl_next (cell p i)" and ?b = "dl_prev (cell p i)"
    and ?nx = "\<lambda>i. dl_next (cell p i)" and ?pv = "\<lambda>i. dl_prev (cell p i)"
  have r: "ring ?nx ?pv h (us @ i # vs)" using l by (simp add: dlist_def dlist_ring_def)
  note ab = ring_neighbours [OF r]
  have i: "live_cell p i" "dl_value (cell p i) \<noteq> - 1" using h(6) [of i] by (auto simp: dlist_elem_def)
  have n: "live_cell p ?a" "live_cell p ?b" "?a \<noteq> i" "?b \<noteq> i" using ab h(5) by fastforce+
  let ?cb = "if ?a = ?b then (cell p ?a)\<lparr>dl_prev := ?b\<rparr> else cell p ?b"
  define p' where "p' = pool_store (pool_store (pool_store p (unat ?a) ((cell p ?a)\<lparr>dl_prev := ?b\<rparr>))
    (unat ?b) (?cb\<lparr>dl_next := ?a\<rparr>)) (unat i) ((cell p i)\<lparr>dl_prev := - 1, dl_next := - 1\<rparr>)"
  have 1: "clib_dlist_remove p i = Some p'" using i n by (auto simp: clib_dlist_remove_def cells p'_def)
  have c: "cell p' = (cell p)(?a := (cell p ?a)\<lparr>dl_prev := ?b\<rparr>, ?b := ?cb\<lparr>dl_next := ?a\<rparr>,
      i := (cell p i)\<lparr>dl_prev := - 1, dl_next := - 1\<rparr>)" "pool_live p' = pool_live p"
    using i n by (simp_all add: cells p'_def)
  have 2: "dlist_frame p p' (set (h # us @ i # vs))" using c ab(1,2) by (auto simp: dlist_frame_def)
  have "(\<lambda>j. dl_next (cell p' j)) = ?nx(?b := ?a, i := - 1)" "(\<lambda>j. dl_prev (cell p' j)) = ?pv(?a := ?b, i := - 1)"
    unfolding c using n by (auto simp: fun_eq_iff)
  then have 3: "dlist_ring p' h (us @ vs)" unfolding dlist_ring_def using ring_remove [OF r] by simp
  have "dlist p' h (us @ vs)" by (rule dlist_ringI [OF l 2 _ 3]) (use h(6) in auto)
  then show ?thesis using 1 2 3 by blast
qed

lemma dlist_ends:
  "dlist p h (x # xs) \<Longrightarrow> dl_next (cell p h) = x" "dlist p h (xs @ [x]) \<Longrightarrow> dl_prev (cell p h) = x"
  "dlist p h [] \<Longrightarrow> dl_next (cell p h) = - 1 \<or> dl_next (cell p h) = h"
  unfolding dlist_def dlist_ring_def by (auto dest: ring_nx ring_pv)

lemma dlist_remove_head:
  "dlist p h [] \<Longrightarrow> clib_dlist_remove_head p h = Some (p, - 1)"
  "dlist p h (x # xs) \<Longrightarrow>
    clib_dlist_remove_head p h = (case clib_dlist_remove p x of None \<Rightarrow> None | Some p' \<Rightarrow> Some (p', x))"
proof -
  show "clib_dlist_remove_head p h = Some (p, - 1)" if "dlist p h []"
    using dlist_ends(3) [OF that] dlist_cells(1,2) [OF that] by (simp add: clib_dlist_remove_head_def elt_at_eq)
  assume l: "dlist p h (x # xs)"
  show "clib_dlist_remove_head p h = (case clib_dlist_remove p x of None \<Rightarrow> None | Some p' \<Rightarrow> Some (p', x))"
    using dlist_ends(1) [OF l] dlist_cells [OF l] dlist_distinct [OF l]
    by (simp add: clib_dlist_remove_head_def elt_at_eq split: option.split)
qed

lemma dlist_remove_tail:
  assumes l: "dlist p h (xs @ [x])"
  shows "clib_dlist_remove_tail p h = (case clib_dlist_remove p x of None \<Rightarrow> None | Some p' \<Rightarrow> Some (p', x))"
  using dlist_ends(2) [OF l] dlist_cells [OF l]
  by (simp add: clib_dlist_remove_tail_def elt_at_eq split: option.split)

interpretation dlists: index_deque dlist dlist_elem "- 1" clib_dlist_addhead clib_dlist_addtail clib_dlist_remove
  clib_dlist_remove_head
proof
  fix p h xs i us vs x
  show "distinct (h # xs) \<and> \<not> dlist_elem p h \<and> (\<forall>x\<in>set xs. dlist_elem p x)" if "dlist p h xs"
    using dlist_distinct [OF that] dlist_cells(4) [OF that, of h] dlist_cells(6) [OF that] by blast
  show "\<exists>p'. clib_dlist_addhead p h i = Some p' \<and> dlist p' h (i # xs) \<and> dlist_elem p' = dlist_elem p
      \<and> (\<forall>k ys. dlist p k ys \<longrightarrow> set (k # ys) \<inter> set (h # i # xs) = {} \<longrightarrow> dlist p' k ys)"
    if "dlist p h xs" "dlist_elem p i" "i \<notin> set xs"
    using dlist_addhead [OF that] dlist_frame_elem dlist_frame_list by blast
  show "\<exists>p'. clib_dlist_addtail p h i = Some p' \<and> dlist p' h (xs @ [i]) \<and> dlist_elem p' = dlist_elem p
      \<and> (\<forall>k ys. dlist p k ys \<longrightarrow> set (k # ys) \<inter> set (h # i # xs) = {} \<longrightarrow> dlist p' k ys)"
    if "dlist p h xs" "dlist_elem p i" "i \<notin> set xs"
    using dlist_addtail [OF that] dlist_frame_elem dlist_frame_list by blast
  show "\<exists>p'. clib_dlist_remove p i = Some p' \<and> dlist p' h (us @ vs) \<and> dlist_elem p' = dlist_elem p
      \<and> (\<forall>k ys. dlist p k ys \<longrightarrow> set (k # ys) \<inter> set (h # us @ i # vs) = {} \<longrightarrow> dlist p' k ys)"
    if "dlist p h (us @ i # vs)"
    using dlist_remove [OF that] dlist_frame_elem dlist_frame_list by blast
qed (simp_all add: dlist_remove_head)

section \<open>Properties\<close>

text \<open>
  C31. The lists refine sequences of indices: on a list that holds \<open>xs\<close>, \<open>clib_dlist_addhead\<close> gives
  \<open>i # xs\<close> and \<open>clib_dlist_addtail\<close> gives \<open>xs @ [i]\<close> for an element not on it; removing a first or
  a last element returns it and leaves the rest; an element taken out of the middle and added at the
  tail, as the address translator does with a session that is used, becomes the last one and the
  others keep their order; a list that shares no cell with \<open>xs\<close> and \<open>i\<close> stays as it was.
\<close>

theorem dlist_refines_sequence:
  assumes "dlist p h xs"
  shows "(\<forall>i. dlist_elem p i \<and> i \<notin> set xs \<longrightarrow>
      (\<exists>p'. clib_dlist_addhead p h i = Some p' \<and> dlist p' h (i # xs)
         \<and> (\<forall>k ys. dlist p k ys \<longrightarrow> set (k # ys) \<inter> set (h # i # xs) = {} \<longrightarrow> dlist p' k ys))
      \<and> (\<exists>p'. clib_dlist_addtail p h i = Some p' \<and> dlist p' h (xs @ [i])
         \<and> (\<forall>k ys. dlist p k ys \<longrightarrow> set (k # ys) \<inter> set (h # i # xs) = {} \<longrightarrow> dlist p' k ys)))
    \<and> (xs = [] \<longrightarrow> clib_dlist_remove_head p h = Some (p, - 1))
    \<and> (\<forall>x ys. xs = x # ys \<longrightarrow> (\<exists>p'. clib_dlist_remove_head p h = Some (p', x) \<and> dlist p' h ys))
    \<and> (\<forall>x ys. xs = ys @ [x] \<longrightarrow> (\<exists>p'. clib_dlist_remove_tail p h = Some (p', x) \<and> dlist p' h ys))
    \<and> (\<forall>us x vs. xs = us @ x # vs \<longrightarrow>
         (\<exists>p' p''. clib_dlist_remove p x = Some p' \<and> clib_dlist_addtail p' h x = Some p''
            \<and> dlist p'' h (us @ vs @ [x])))"
proof (intro conjI allI impI)
  show "xs = [] \<Longrightarrow> clib_dlist_remove_head p h = Some (p, - 1)" using assms by (simp add: dlists.remove_head_empty)
  show "\<exists>p' p''. clib_dlist_remove p x = Some p' \<and> clib_dlist_addtail p' h x = Some p'' \<and> dlist p'' h (us @ vs @ [x])"
    if "xs = us @ x # vs" for us x vs
    using assms that dlists.touch by blast
  show "\<exists>p'. clib_dlist_remove_head p h = Some (p', x) \<and> dlist p' h ys" if "xs = x # ys" for x ys
    using dlists.remove [of p h "[]" x ys] dlists.remove_head [of p h x ys] assms that by auto
  show "\<exists>p'. clib_dlist_remove_tail p h = Some (p', x) \<and> dlist p' h ys" if "xs = ys @ [x]" for x ys
    using dlists.remove [of p h ys x "[]"] dlist_remove_tail [of p h ys x] assms that by auto
qed (use assms dlists.addhead dlists.addtail in blast)+

definition sample_dlist :: "dlist_elt_t pool" where
  "sample_dlist = \<lparr>pool_vec = [\<lparr>dl_next = 2, dl_prev = 1, dl_value = - 1\<rparr>, \<lparr>dl_next = 0, dl_prev = 2, dl_value = 7\<rparr>,
      \<lparr>dl_next = 1, dl_prev = 0, dl_value = 8\<rparr>, \<lparr>dl_next = - 1, dl_prev = - 1, dl_value = 9\<rparr>],
    free_bitmap = [], free_indices = []\<rparr>"

lemma sample_dlist_live: "pool_live sample_dlist = {0, 1, 2, 3}"
  by (auto simp: pool_live_iff sample_dlist_def)

lemma sample_dlist_list: "dlist sample_dlist 0 [2, 1]"
  unfolding dlist_def dlist_elem_def list_all_iff sample_dlist_live dlist_ring_def
  by (simp add: cell_def sample_dlist_def ring_def)

theorem dlist_refines_sequence_witness:
  "dlist sample_dlist 0 [2, 1] \<and> dlist_elem sample_dlist 3
   \<and> (\<exists>p'. clib_dlist_addtail sample_dlist 0 3 = Some p' \<and> dlist p' 0 [2, 1, 3])
   \<and> (\<exists>p'. clib_dlist_remove_tail sample_dlist 0 = Some (p', 1) \<and> dlist p' 0 [2])"
proof -
  have e: "dlist_elem sample_dlist 3" unfolding dlist_elem_def sample_dlist_live by (simp add: cell_def sample_dlist_def)
  note r = dlist_refines_sequence [OF sample_dlist_list]
  have "\<exists>p'. clib_dlist_addtail sample_dlist 0 3 = Some p' \<and> dlist p' 0 ([2, 1] @ [3])"
    using r [THEN conjunct1, rule_format, of 3] e by auto
  moreover have "\<exists>p'. clib_dlist_remove_tail sample_dlist 0 = Some (p', 1) \<and> dlist p' 0 [2]"
    using r [THEN conjunct2, THEN conjunct2, THEN conjunct2, THEN conjunct1, rule_format, of "[2]" 1] by simp
  ultimately show ?thesis using sample_dlist_list e by simp
qed

text \<open>
  \<open>clib_dlist_remove_tail\<close> knows only one of the two forms of an empty list: it answers \<open>~0\<close> on a
  list that was never used, but once the last element of a list has been removed it takes the head
  for an element, where \<open>clib_dlist_remove_head\<close> answers \<open>~0\<close>; the assertion on the head fails.
\<close>

theorem dlist_remove_tail_emptied:
  assumes "dlist p h [x]"
  shows "\<exists>p'. clib_dlist_remove_tail p h = Some (p', x) \<and> dlist p' h []
      \<and> clib_dlist_remove_head p' h = Some (p', - 1) \<and> clib_dlist_remove_tail p' h = None
      \<and> (\<forall>q. clib_dlist_init p' h = Some q \<longrightarrow> clib_dlist_remove_tail q h = Some (q, - 1))"
proof -
  obtain p' where p': "clib_dlist_remove p x = Some p'" "dlist p' h []" "dlist_ring p' h []"
    using dlist_remove [of p h "[]" x "[]"] assms by auto
  then have "clib_dlist_remove_tail p h = Some (p', x)" using dlist_remove_tail [of p h "[]" x] assms by simp
  moreover have "clib_dlist_remove_tail p' h = None"
    using p'(3) dlist_cells [OF p'(2)] by (simp add: clib_dlist_remove_tail_def clib_dlist_remove_def elt_at_eq dlist_ring_def Let_def)
  moreover have "\<forall>q. clib_dlist_init p' h = Some q \<longrightarrow> clib_dlist_remove_tail q h = Some (q, - 1)"
    using dlist_cells(1) [OF p'(2)] by (auto simp: clib_dlist_init_def clib_dlist_remove_tail_def cells)
  ultimately show ?thesis using p'(2) dlists.remove_head_empty [OF p'(2)] by blast
qed

definition sample_dlist1 :: "dlist_elt_t pool" where
  "sample_dlist1 = \<lparr>pool_vec = [\<lparr>dl_next = 1, dl_prev = 1, dl_value = - 1\<rparr>, \<lparr>dl_next = 0, dl_prev = 0, dl_value = 7\<rparr>],
    free_bitmap = [], free_indices = []\<rparr>"

theorem dlist_remove_tail_emptied_witness:
  "dlist sample_dlist1 0 [1]
   \<and> (\<exists>p'. clib_dlist_remove_tail sample_dlist1 0 = Some (p', 1) \<and> clib_dlist_remove_tail p' 0 = None)"
proof -
  have l: "pool_live sample_dlist1 = {0, 1}" by (auto simp: pool_live_iff sample_dlist1_def)
  have "dlist sample_dlist1 0 [1]"
    unfolding dlist_def dlist_elem_def list_all_iff l dlist_ring_def by (simp add: cell_def sample_dlist1_def ring_def)
  then show ?thesis using dlist_remove_tail_emptied by blast
qed

end
