(* ===== verification/C_Sf64.thy ===== *)
theory C_Sf64
  imports C_F64
begin

text \<open>
  Signed doubles, with the rounding of \<open>f64_round\<close>: the clock readings of the timer wheels and the
  intervals of BFD. As in \<open>C_F64\<close> a value is a mantissa and a binary exponent, and a conversion that
  C leaves undefined is \<open>None\<close>.
\<close>

section \<open>Definitions\<close>

type_synonym sf64 = "int \<times> int"

definition sf64_round :: "int \<Rightarrow> int \<Rightarrow> sf64" where
  "sf64_round m e = (let r = f64_round (nat \<bar>m\<bar>) False e in (sgn m * int (fst r), snd r))"

definition sf64_add :: "sf64 \<Rightarrow> sf64 \<Rightarrow> sf64" where
  "sf64_add x y =
    (let e = min (snd x) (snd y)
     in sf64_round (fst x * 2 ^ nat (snd x - e) + fst y * 2 ^ nat (snd y - e)) e)"

definition sf64_diff :: "sf64 \<Rightarrow> sf64 \<Rightarrow> sf64" where
  "sf64_diff x y = sf64_add x (- fst y, snd y)"

definition sf64_mult :: "sf64 \<Rightarrow> sf64 \<Rightarrow> sf64" where
  "sf64_mult x y = sf64_round (fst x * fst y) (snd x + snd y)"

definition sf64_inverse :: "sf64 \<Rightarrow> sf64" where
  "sf64_inverse x = (let r = f64_div (f64_of_nat 1) (nat \<bar>fst x\<bar>, snd x) in (sgn (fst x) * int (fst r), snd r))"

definition sf64_less :: "sf64 \<Rightarrow> sf64 \<Rightarrow> bool" where
  "sf64_less x y =
    (let e = min (snd x) (snd y) in fst x * 2 ^ nat (snd x - e) < fst y * 2 ^ nat (snd y - e))"

text \<open>Conversion to \<open>u32\<close> drops the fraction, and is undefined when the rest does not fit.\<close>

definition sf64_to_u32 :: "sf64 \<Rightarrow> u32 option" where
  "sf64_to_u32 x =
    (let t = f64_floor (nat \<bar>fst x\<bar>, snd x)
     in if (fst x < 0 \<longrightarrow> t = 0) \<and> t < 2 ^ 32 then Some (word_of_nat t) else None)"

definition f64_to_u64 :: "f64 \<Rightarrow> u64 option" where
  "f64_to_u64 x = (if f64_floor x < 2 ^ 64 then Some (word_of_nat (f64_floor x)) else None)"

definition sf64_of_u64 :: "u64 \<Rightarrow> sf64" where
  "sf64_of_u64 w = sf64_round (int (unat w)) 0"

definition sf64_to_u64 :: "sf64 \<Rightarrow> u64 option" where
  "sf64_to_u64 x =
    (let t = f64_floor (nat \<bar>fst x\<bar>, snd x)
     in if (fst x < 0 \<longrightarrow> t = 0) \<and> t < 2 ^ 64 then Some (word_of_nat t) else None)"

definition sf64_val :: "sf64 \<Rightarrow> real" where
  "sf64_val x = of_int (fst x) * 2 powi (snd x)"

section \<open>Rounding error\<close>

text \<open>Adding \<open>0 * y\<close> leaves a double of 53 bits at its value.\<close>

lemma sf64_add_zero:
  assumes "\<bar>fst x\<bar> < 2 ^ 53"
  shows "sf64_val (sf64_add x (sf64_mult (sf64_round 0 0) y)) = sf64_val x"
proof -
  have z: "sf64_round 0 e = (0, e)" for e by (simp add: sf64_round_def f64_round_def floorlog_def)
  define e where "e = min (snd x) (snd y)"
  define d where "d = nat (snd x - e)"
  have se: "snd x = e + int d" by (simp add: d_def e_def)
  have "nat \<bar>fst x\<bar> < 2 ^ 53" using assms by (simp add: nat_less_iff)
  note r = f64_round_exact [OF this, of d e]
  have m: "nat \<bar>fst x * 2 ^ d\<bar> = nat \<bar>fst x\<bar> * 2 ^ d" by (simp add: abs_mult nat_mult_distrib nat_power_eq)
  have s: "sf64_add x (sf64_mult (sf64_round 0 0) y) = sf64_round (fst x * 2 ^ d) e"
    by (simp add: sf64_add_def sf64_mult_def z Let_def e_def d_def)
  have "sf64_val (sf64_round (fst x * 2 ^ d) e) = of_int (sgn (fst x)) * f64_val (f64_round (nat \<bar>fst x\<bar> * 2 ^ d) False e)"
    unfolding sf64_round_def m Let_def by (simp add: sf64_val_def f64_val_def sgn_mult)
  also have "\<dots> = of_int (sgn (fst x) * \<bar>fst x\<bar>) * 2 powi (snd x)"
    unfolding r se by (simp add: power_int_add)
  finally show ?thesis unfolding s by (simp add: sf64_val_def sgn_mult_abs)
qed

text \<open>Every operation is the exact one up to one part in \<open>2^53\<close>.\<close>

lemma f64_round_nat_error: "\<bar>f64_val (f64_round n False e) - real n * 2 powi e\<bar> \<le> real n * 2 powi e / 2 ^ 53"
  by (rule f64_round_error) simp_all

lemma f64_of_nat_error: "\<bar>f64_val (f64_of_nat n) - real n\<bar> \<le> real n / 2 ^ 53"
  using f64_round_nat_error [of n 0] by (simp add: f64_of_nat_def)

lemma f64_mult_error: "\<bar>f64_val (f64_mult x y) - f64_val x * f64_val y\<bar> \<le> f64_val x * f64_val y / 2 ^ 53"
proof -
  have "f64_val x * f64_val y = real (fst x * fst y) * 2 powi (snd x + snd y)"
    by (simp add: f64_val_def power_int_add)
  then show ?thesis using f64_round_nat_error [of "fst x * fst y" "snd x + snd y"] by (simp only: f64_mult_def)
qed

lemma sf64_round_error: "\<bar>sf64_val (sf64_round m e) - of_int m * 2 powi e\<bar> \<le> \<bar>of_int m\<bar> * 2 powi e / 2 ^ 53"
proof -
  define v where "v = f64_val (f64_round (nat \<bar>m\<bar>) False e)"
  have a: "of_int m = (of_int (sgn m) * \<bar>of_int m\<bar> :: real)" "real (nat \<bar>m\<bar>) = \<bar>of_int m\<bar>"
    by (simp_all add: mult_sgn_abs of_int_abs flip: of_int_mult of_int_abs)
  have "sf64_val (sf64_round m e) = of_int (sgn m) * v"
    by (simp add: sf64_val_def sf64_round_def Let_def v_def f64_val_def)
  then have "sf64_val (sf64_round m e) - of_int m * 2 powi e = of_int (sgn m) * (v - \<bar>of_int m\<bar> * 2 powi e)"
    by (subst a(1)) (simp add: algebra_simps)
  then have "\<bar>sf64_val (sf64_round m e) - of_int m * 2 powi e\<bar> \<le> \<bar>v - \<bar>of_int m\<bar> * 2 powi e\<bar>"
    by (cases m "0::int" rule: linorder_cases) simp_all
  also have "\<dots> \<le> \<bar>of_int m\<bar> * 2 powi e / 2 ^ 53"
    using f64_round_nat_error [of "nat \<bar>m\<bar>" e] unfolding v_def a(2) .
  finally show ?thesis .
qed

lemma sf64_mult_error:
  "\<bar>sf64_val (sf64_mult x y) - sf64_val x * sf64_val y\<bar> \<le> \<bar>sf64_val x * sf64_val y\<bar> / 2 ^ 53"
  using sf64_round_error [of "fst x * fst y" "snd x + snd y"]
  by (simp add: sf64_mult_def sf64_val_def power_int_add abs_mult mult_ac)

lemma sf64_add_error:
  "\<bar>sf64_val (sf64_add x y) - (sf64_val x + sf64_val y)\<bar> \<le> \<bar>sf64_val x + sf64_val y\<bar> / 2 ^ 53"
proof -
  define e where "e = min (snd x) (snd y)"
  define m where "m = fst x * 2 ^ nat (snd x - e) + fst y * 2 ^ nat (snd y - e)"
  have p: "(2::real) ^ nat (k - e) * 2 powi e = 2 powi k" if "e \<le> k" for k
    using that power_int_add [of "2::real" "k - e" e] by (simp add: power_int_def [of _ "k - e"])
  have "of_int m * 2 powi e = (of_int (fst x) * (2 ^ nat (snd x - e) * 2 powi e)
      + of_int (fst y) * (2 ^ nat (snd y - e) * 2 powi e) :: real)"
    by (simp add: m_def algebra_simps)
  also have "\<dots> = sf64_val x + sf64_val y"
    using p [of "snd x"] p [of "snd y"] by (simp add: e_def sf64_val_def)
  finally have "sf64_val x + sf64_val y = of_int m * 2 powi e" by simp
  then show ?thesis using sf64_round_error [of m e]
    by (simp add: sf64_add_def Let_def e_def m_def abs_mult)
qed

lemma sf64_diff_error:
  "\<bar>sf64_val (sf64_diff x y) - (sf64_val x - sf64_val y)\<bar> \<le> \<bar>sf64_val x - sf64_val y\<bar> / 2 ^ 53"
  using sf64_add_error [of x "(- fst y, snd y)"] by (simp add: sf64_diff_def sf64_val_def)

lemma sf64_of_u64_error: "\<bar>sf64_val (sf64_of_u64 w) - real (unat w)\<bar> \<le> real (unat w) / 2 ^ 53"
proof -
  define n where "n = unat w"
  show ?thesis using sf64_round_error [of "int n" 0] by (simp add: sf64_of_u64_def flip: n_def)
qed

lemma nat_floor_less: "0 \<le> v \<Longrightarrow> v < 2 ^ 64 \<Longrightarrow> nat \<lfloor>v\<rfloor> < 2 ^ 64" for v :: real
  by (simp add: nat_less_iff floor_less_iff)

lemma f64_to_u64_val: "f64_val x < 2 ^ 64 \<Longrightarrow> \<exists>w. f64_to_u64 x = Some w \<and> unat w = nat \<lfloor>f64_val x\<rfloor>"
proof -
  define n where "n = nat \<lfloor>f64_val x\<rfloor>"
  assume "f64_val x < 2 ^ 64"
  then have "n < 2 ^ 64" unfolding n_def by (rule nat_floor_less [OF f64_val_nonneg])
  then show ?thesis by (simp add: f64_to_u64_def f64_floor_eq unat_of_nat flip: n_def)
qed

lemma sf64_to_u64_val:
  assumes "0 \<le> sf64_val x" and "sf64_val x < 2 ^ 64"
  shows "\<exists>w. sf64_to_u64 x = Some w \<and> unat w = nat \<lfloor>sf64_val x\<rfloor>"
proof -
  have "0 \<le> fst x" using assms(1) using zero_less_power_int [of "2::real" "snd x"]
    by (auto simp: sf64_val_def zero_le_mult_iff simp del: zero_less_power_int)
  then have "sf64_val x = f64_val (nat \<bar>fst x\<bar>, snd x)" by (simp add: sf64_val_def f64_val_def)
  then show ?thesis using f64_to_u64_val [of "(nat \<bar>fst x\<bar>, snd x)"] assms(2) \<open>0 \<le> fst x\<close>
    by (simp add: sf64_to_u64_def f64_to_u64_def Let_def)
qed

end
