(* ===== verification/Tw_Timer.thy ===== *)
theory Tw_Timer
  imports Vpp_Dlist C_Sf64
begin

text \<open>
  The timer wheels of \<^verbatim>\<open>vppinfra/tw_timer_template.c\<close>. The macros that the template is compiled
  with are a record, the wheel's geometry. A timer is an element of the wheel's pool, linked into
  the list of a slot; the links and the heads of the slots are 32-bit pool indices. The callback
  that is told of expired timers is an argument, with a state of its own; it may start and stop
  timers. A failed assertion, an index outside an array and a conversion that C leaves undefined
  are \<open>None\<close>. The operations return, besides the wheel, the calls of the callback, each with the
  tick at which it is made.
\<close>

section \<open>Geometry, timers and wheels\<close>

record tw_geometry =
  tw_timer_wheels :: nat
  tw_slots_per_ring :: nat
  tw_ring_shift :: nat
  tw_timers_per_object :: nat
  log2_tw_timers_per_object :: nat

definition tw_ring_mask :: "tw_geometry \<Rightarrow> u32" where
  "tw_ring_mask g = word_of_nat (tw_slots_per_ring g - 1)"

definition geometry_2t_1w_2048sl :: tw_geometry where
  "geometry_2t_1w_2048sl = \<lparr>tw_timer_wheels = 1, tw_slots_per_ring = 2048, tw_ring_shift = 11,
     tw_timers_per_object = 2, log2_tw_timers_per_object = 1\<rparr>"

definition geometry_16t_1w_2048sl :: tw_geometry where
  "geometry_16t_1w_2048sl = \<lparr>tw_timer_wheels = 1, tw_slots_per_ring = 2048, tw_ring_shift = 11,
     tw_timers_per_object = 16, log2_tw_timers_per_object = 4\<rparr>"

definition geometry_16t_2w_512sl :: tw_geometry where
  "geometry_16t_2w_512sl = \<lparr>tw_timer_wheels = 2, tw_slots_per_ring = 512, tw_ring_shift = 9,
     tw_timers_per_object = 16, log2_tw_timers_per_object = 4\<rparr>"

record tw_timer =
  tw_next :: u32
  tw_prev :: u32
  fast_ring_offset :: u16
  user_handle :: u32

abbreviation (input) TW_TIMER_RING_FAST :: nat where "TW_TIMER_RING_FAST \<equiv> 0"
abbreviation (input) TW_TIMER_RING_SLOW :: nat where "TW_TIMER_RING_SLOW \<equiv> 1"

record tw_timer_wheel =
  timers :: "tw_timer pool"
  next_run_time :: sf64
  last_run_time :: sf64
  ticks_per_second :: sf64
  timer_interval :: sf64
  current_tick :: u32
  current_index :: "u32 list"
  wheel_slots :: "u32 list list"
  expired_timer_handles :: "u32 list"
  max_expirations :: u32

text \<open>\<open>tw->w[ring][slot].head_index\<close> and \<open>tw->current_index[ring]\<close>.\<close>

definition slot_head :: "tw_timer_wheel \<Rightarrow> nat \<Rightarrow> nat \<Rightarrow> u32 option" where
  "slot_head tw r s =
    (if r < length (wheel_slots tw) \<and> s < length (wheel_slots tw ! r) then Some (wheel_slots tw ! r ! s) else None)"

definition ring_index :: "tw_timer_wheel \<Rightarrow> nat \<Rightarrow> u32 option" where
  "ring_index tw r = (if r < length (current_index tw) then Some (current_index tw ! r) else None)"

definition make_internal_timer_handle :: "tw_geometry \<Rightarrow> u32 \<Rightarrow> u32 \<Rightarrow> u32 option" where
  "make_internal_timer_handle g pool_index timer_id =
    (if unat timer_id < tw_timers_per_object g \<and> unat pool_index < 2 ^ (32 - log2_tw_timers_per_object g)
     then Some (push_bit (32 - log2_tw_timers_per_object g) timer_id OR pool_index) else None)"

definition timer_addhead :: "tw_timer pool \<Rightarrow> u32 \<Rightarrow> u32 \<Rightarrow> tw_timer pool option" where
  "timer_addhead pool head_index new_index = do {
     head \<leftarrow> elt_at pool head_index;
     _ \<leftarrow> elt_at pool new_index;
     if tw_next head = head_index
     then do {
       pool \<leftarrow> elt_update pool head_index (\<lambda>head. head\<lparr>tw_next := new_index, tw_prev := new_index\<rparr>);
       elt_update pool new_index (\<lambda>new. new\<lparr>tw_next := head_index, tw_prev := head_index\<rparr>)}
     else do {
       let old_first_index = tw_next head;
       old_first \<leftarrow> elt_at pool old_first_index;
       pool \<leftarrow> elt_update pool new_index (\<lambda>new. new\<lparr>tw_next := old_first_index, tw_prev := tw_prev old_first\<rparr>);
       pool \<leftarrow> elt_update pool old_first_index (\<lambda>old_first. old_first\<lparr>tw_prev := new_index\<rparr>);
       elt_update pool head_index (\<lambda>head. head\<lparr>tw_next := new_index\<rparr>)}
   }"

definition timer_remove :: "tw_timer pool \<Rightarrow> u32 \<Rightarrow> tw_timer pool option" where
  "timer_remove pool index = do {
     elt \<leftarrow> elt_at pool index;
     if user_handle elt = - 1 then None
     else do {
       _ \<leftarrow> elt_at pool (tw_next elt);
       _ \<leftarrow> elt_at pool (tw_prev elt);
       pool \<leftarrow> elt_update pool (tw_next elt) (\<lambda>next_elt. next_elt\<lparr>tw_prev := tw_prev elt\<rparr>);
       pool \<leftarrow> elt_update pool (tw_prev elt) (\<lambda>prev_elt. prev_elt\<lparr>tw_next := tw_next elt\<rparr>);
       elt_update pool index (\<lambda>elt. elt\<lparr>tw_prev := - 1, tw_next := - 1\<rparr>)
     }
   }"

section \<open>Starting and stopping timers\<close>

text \<open>The common end of \<open>tw_timer_start\<close>: timer \<open>t\<close> goes to the front of a slot's list.\<close>

definition tw_timer_link :: "tw_timer_wheel \<Rightarrow> tw_timer pool \<Rightarrow> nat \<Rightarrow> nat \<Rightarrow> u32 \<Rightarrow> (tw_timer_wheel \<times> u32) option" where
  "tw_timer_link tw pool r s t = do {
     head_index \<leftarrow> slot_head tw r s;
     pool \<leftarrow> timer_addhead pool head_index t;
     Some (tw\<lparr>timers := pool\<rparr>, t)
   }"

definition tw_timer_start ::
    "tw_geometry \<Rightarrow> tw_timer \<Rightarrow> tw_timer_wheel \<Rightarrow> u32 \<Rightarrow> u32 \<Rightarrow> u32 \<Rightarrow> (tw_timer_wheel \<times> u32) option" where
  "tw_timer_start g memory tw pool_index timer_id interval =
    (if interval = 0 then None
     else let slots = tw_slots_per_ring g; (pool, i) = pool_get memory (timers tw); t = word_of_nat i
     in do {
       pool \<leftarrow> elt_update pool t (\<lambda>t. t\<lparr>tw_next := - 1, tw_prev := - 1\<rparr>);
       pool \<leftarrow> (if 1 < tw_timer_wheels g then elt_update pool t (\<lambda>t. t\<lparr>fast_ring_offset := - 1\<rparr>) else Some pool);
       handle \<leftarrow> make_internal_timer_handle g pool_index timer_id;
       pool \<leftarrow> elt_update pool t (\<lambda>t. t\<lparr>user_handle := handle\<rparr>);
       fast_index \<leftarrow> ring_index tw TW_TIMER_RING_FAST;
       let fast = (ucast (interval AND tw_ring_mask g) + ucast fast_index :: u16);
       if 1 < tw_timer_wheels g
       then do {
         let carry = (if slots \<le> unat fast then 1 else 0 :: u32);
         let fast = fast mod word_of_nat slots;
         let slow = (ucast (drop_bit (tw_ring_shift g) interval + carry) :: u16);
         if \<not> unat slow < slots then None
         else if slow \<noteq> 0
         then do {
           slow_index \<leftarrow> ring_index tw TW_TIMER_RING_SLOW;
           let slow = (slow + ucast slow_index) mod word_of_nat slots;
           pool \<leftarrow> elt_update pool t (\<lambda>t. t\<lparr>fast_ring_offset := fast\<rparr>);
           if \<not> unat fast < slots then None
           else tw_timer_link tw pool TW_TIMER_RING_SLOW (unat slow) t}
         else tw_timer_link tw pool TW_TIMER_RING_FAST (unat fast) t}
       else do {
         let fast = fast mod word_of_nat slots;
         if \<not> unat interval < slots then None
         else tw_timer_link tw pool TW_TIMER_RING_FAST (unat fast) t}
     })"

definition tw_timer_stop :: "tw_timer_wheel \<Rightarrow> u32 \<Rightarrow> tw_timer_wheel option" where
  "tw_timer_stop tw handle = do {
     t \<leftarrow> elt_at (timers tw) handle;
     if user_handle t = - 1 then None
     else do {
       pool \<leftarrow> timer_remove (timers tw) handle;
       pool \<leftarrow> pool_put_index pool (unat handle);
       Some (tw\<lparr>timers := pool\<rparr>)
     }
   }"

section \<open>Initialising and freeing a wheel\<close>

text \<open>\<open>memory\<close> is what the memory of a new element holds before \<open>memset\<close> overwrites it.\<close>

definition init_slot :: "(nat \<Rightarrow> nat \<Rightarrow> tw_timer) \<Rightarrow> nat \<Rightarrow> nat \<Rightarrow> tw_timer_wheel \<Rightarrow> tw_timer_wheel option" where
  "init_slot memory r s tw =
    (let (pool, i) = pool_get (memory r s) (timers tw); t = word_of_nat i
     in do {
       pool \<leftarrow> elt_update pool t (\<lambda>_. \<lparr>tw_next = - 1, tw_prev = - 1, fast_ring_offset = - 1, user_handle = - 1\<rparr>);
       pool \<leftarrow> elt_update pool t (\<lambda>e. e\<lparr>tw_next := t, tw_prev := t\<rparr>);
       _ \<leftarrow> slot_head tw r s;
       Some (tw\<lparr>timers := pool, wheel_slots := (wheel_slots tw)[r := (wheel_slots tw ! r)[s := t]]\<rparr>)
     })"

definition wheel_zero :: "tw_geometry \<Rightarrow> tw_timer_wheel" where
  "wheel_zero g = \<lparr>timers = pool_null, next_run_time = (0, 0), last_run_time = (0, 0), ticks_per_second = (0, 0),
     timer_interval = (0, 0), current_tick = 0, current_index = replicate (tw_timer_wheels g) 0,
     wheel_slots = replicate (tw_timer_wheels g) (replicate (tw_slots_per_ring g) 0),
     expired_timer_handles = [], max_expirations = 0\<rparr>"

definition tw_timer_wheel_init ::
    "tw_geometry \<Rightarrow> (nat \<Rightarrow> nat \<Rightarrow> tw_timer) \<Rightarrow> sf64 \<Rightarrow> u32 \<Rightarrow> tw_timer_wheel option" where
  "tw_timer_wheel_init g memory timer_interval_in_seconds max_exp =
    (if fst timer_interval_in_seconds = 0 then None
     else for_range 0 (tw_timer_wheels g) (\<lambda>r. for_range 0 (tw_slots_per_ring g) (init_slot memory r))
       ((wheel_zero g)\<lparr>max_expirations := max_exp, timer_interval := timer_interval_in_seconds,
          ticks_per_second := sf64_inverse timer_interval_in_seconds\<rparr>))"

partial_function (option) free_slot_timers :: "u32 \<Rightarrow> tw_timer pool \<Rightarrow> u32 \<Rightarrow> tw_timer pool option" where
  "free_slot_timers head_index pool next_index =
    (if next_index = head_index then Some pool
     else do {
       t \<leftarrow> elt_at pool next_index;
       pool \<leftarrow> pool_put_index pool (unat next_index);
       free_slot_timers head_index pool (tw_next t)
     })"

definition free_slot :: "tw_timer_wheel \<Rightarrow> nat \<Rightarrow> nat \<Rightarrow> tw_timer pool \<Rightarrow> tw_timer pool option" where
  "free_slot tw r s pool = do {
     head_index \<leftarrow> slot_head tw r s;
     head \<leftarrow> elt_at pool head_index;
     pool \<leftarrow> free_slot_timers head_index pool (tw_next head);
     pool_put_index pool (unat head_index)
   }"

text \<open>The pool as the loops of \<open>tw_timer_wheel_free\<close> leave it, then the wheel that is zeroed.\<close>

definition free_slots :: "tw_geometry \<Rightarrow> tw_timer_wheel \<Rightarrow> tw_timer pool option" where
  "free_slots g tw =
    for_range 0 (tw_timer_wheels g) (\<lambda>r. for_range 0 (tw_slots_per_ring g) (free_slot tw r)) (timers tw)"

definition tw_timer_wheel_free :: "tw_geometry \<Rightarrow> tw_timer_wheel \<Rightarrow> tw_timer_wheel option" where
  "tw_timer_wheel_free g tw = do {_ \<leftarrow> free_slots g tw; Some (wheel_zero g)}"

declare free_slot_timers.simps [code]

section \<open>Advancing a wheel\<close>

text \<open>The timers of a slow slot are dealt to the slots of the fast ring.\<close>

partial_function (option) deal_timers ::
    "tw_geometry \<Rightarrow> tw_timer_wheel \<Rightarrow> u32 \<Rightarrow> tw_timer pool \<Rightarrow> u32 \<Rightarrow> tw_timer pool option" where
  "deal_timers g tw head_index pool next_index =
    (if next_index = head_index then Some pool
     else do {
       t \<leftarrow> elt_at pool next_index;
       pool \<leftarrow> elt_update pool next_index (\<lambda>t. t\<lparr>tw_next := - 1, tw_prev := - 1\<rparr>);
       if \<not> unat (fast_ring_offset t) < tw_slots_per_ring g then None
       else do {
         fast_head \<leftarrow> slot_head tw TW_TIMER_RING_FAST (unat (fast_ring_offset t));
         pool \<leftarrow> timer_addhead pool fast_head next_index;
         deal_timers g tw head_index pool (tw_next t)
       }
     })"

declare deal_timers.simps [code]

definition empty_slot :: "tw_timer pool \<Rightarrow> u32 \<Rightarrow> (tw_timer pool \<times> u32) option" where
  "empty_slot pool head_index = do {
     head \<leftarrow> elt_at pool head_index;
     pool \<leftarrow> elt_update pool head_index (\<lambda>head. head\<lparr>tw_next := head_index, tw_prev := head_index\<rparr>);
     Some (pool, tw_next head)
   }"

definition process_slow_slot :: "tw_geometry \<Rightarrow> tw_timer_wheel \<Rightarrow> tw_timer_wheel option" where
  "process_slow_slot g tw = do {
     slow_index \<leftarrow> ring_index tw TW_TIMER_RING_SLOW;
     let slow_wheel_index = (slow_index + 1) mod word_of_nat (tw_slots_per_ring g);
     let tw = tw\<lparr>current_index := (current_index tw)[TW_TIMER_RING_SLOW := slow_wheel_index]\<rparr>;
     head_index \<leftarrow> slot_head tw TW_TIMER_RING_SLOW (unat slow_wheel_index);
     (pool, next_index) \<leftarrow> empty_slot (timers tw) head_index;
     pool \<leftarrow> deal_timers g tw head_index pool next_index;
     Some (tw\<lparr>timers := pool\<rparr>)
   }"

definition turn_fast_ring :: "tw_geometry \<Rightarrow> tw_timer_wheel \<Rightarrow> (tw_timer_wheel \<times> u32) option" where
  "turn_fast_ring g tw = do {
     fast_wheel_index \<leftarrow> ring_index tw TW_TIMER_RING_FAST;
     if unat fast_wheel_index = tw_slots_per_ring g
     then do {
       let tw = tw\<lparr>current_index := (current_index tw)[TW_TIMER_RING_FAST := 0]\<rparr>;
       tw \<leftarrow> (if 1 < tw_timer_wheels g then process_slow_slot g tw else Some tw);
       Some (tw, 0)}
     else Some (tw, fast_wheel_index)
   }"

text \<open>The timers of a fast slot go back to the pool; their handles are the expired ones.\<close>

partial_function (option) expire_timers ::
    "u32 \<Rightarrow> tw_timer pool \<Rightarrow> u32 list \<Rightarrow> u32 \<Rightarrow> (tw_timer pool \<times> u32 list) option" where
  "expire_timers head_index pool handles next_index =
    (if next_index = head_index then Some (pool, handles)
     else do {
       t \<leftarrow> elt_at pool next_index;
       pool \<leftarrow> pool_put_index pool (unat next_index);
       expire_timers head_index pool (handles @ [user_handle t]) (tw_next t)
     })"

declare expire_timers.simps [code]

definition expire_fast_slot :: "tw_timer_wheel \<Rightarrow> u32 \<Rightarrow> tw_timer_wheel option" where
  "expire_fast_slot tw fast_wheel_index = do {
     head_index \<leftarrow> slot_head tw TW_TIMER_RING_FAST (unat fast_wheel_index);
     (pool, next_index) \<leftarrow> empty_slot (timers tw) head_index;
     (pool, handles) \<leftarrow> expire_timers head_index pool [] next_index;
     Some (tw\<lparr>timers := pool, expired_timer_handles := handles\<rparr>)
   }"

text \<open>One tick, with the handles that the callback is called with.\<close>

type_synonym 's timer_callback = "u32 list \<Rightarrow> tw_timer_wheel \<Rightarrow> 's \<Rightarrow> (tw_timer_wheel \<times> 's) option"

definition tw_timer_tick ::
    "tw_geometry \<Rightarrow> 's timer_callback \<Rightarrow> tw_timer_wheel \<Rightarrow> 's \<Rightarrow> (tw_timer_wheel \<times> 's \<times> u32 list) option" where
  "tw_timer_tick g callback tw st = do {
     (tw, fast_wheel_index) \<leftarrow> turn_fast_ring g tw;
     tw \<leftarrow> expire_fast_slot tw fast_wheel_index;
     let handles = expired_timer_handles tw;
     (tw, st) \<leftarrow> (if handles \<noteq> [] then callback handles tw st else Some (tw, st));
     fast_index \<leftarrow> ring_index tw TW_TIMER_RING_FAST;
     Some (tw\<lparr>current_index := (current_index tw)[TW_TIMER_RING_FAST := fast_index + 1],
              current_tick := current_tick tw + 1\<rparr>, st, handles)
   }"

type_synonym timer_calls = "(u32 \<times> u32 list) list"

text \<open>The loop over the ticks that have passed; the fourth component is the loop's counter after it.\<close>

definition tw_timer_ticks ::
    "tw_geometry \<Rightarrow> 's timer_callback \<Rightarrow> nat \<Rightarrow> tw_timer_wheel \<Rightarrow> 's
       \<Rightarrow> ((tw_timer_wheel \<times> 's \<times> u32 \<times> nat \<times> timer_calls) \<times> bool) option" where
  "tw_timer_ticks g callback nticks tw st =
    for_until 0 nticks (\<lambda>i (tw, st, total_nexpirations, _, calls). do {
      (tw', st, handles) \<leftarrow> tw_timer_tick g callback tw st;
      let total_nexpirations = total_nexpirations + word_of_nat (length handles);
      let stop = (max_expirations tw' \<le> total_nexpirations);
      Some ((tw', st, total_nexpirations, if stop then i else i + 1,
        if handles = [] then calls else calls @ [(current_tick tw, handles)]), stop)
    }) (tw, st, 0, 0, [])"

definition tw_timer_expire_timers ::
    "tw_geometry \<Rightarrow> 's timer_callback \<Rightarrow> tw_timer_wheel \<Rightarrow> 's \<Rightarrow> sf64
       \<Rightarrow> (tw_timer_wheel \<times> 's \<times> u32 \<times> timer_calls) option" where
  "tw_timer_expire_timers g callback tw st now =
    (if sf64_less now (next_run_time tw) then Some (tw, st, 0, [])
     else do {
       nticks \<leftarrow> sf64_to_u32 (sf64_mult (ticks_per_second tw) (sf64_diff now (last_run_time tw)));
       if nticks = 0 then Some (tw, st, 0, [])
       else do {
         let tw = tw\<lparr>next_run_time := sf64_add now (timer_interval tw)\<rparr>;
         ((tw, st, total_nexpirations, i, calls), _) \<leftarrow> tw_timer_ticks g callback (unat nticks) tw st;
         Some (tw\<lparr>last_run_time :=
             sf64_add (last_run_time tw) (sf64_mult (sf64_round (int i) 0) (timer_interval tw))\<rparr>,
           st, total_nexpirations, calls)
       }
     })"

section \<open>The lists of the slots\<close>

definition timer_ring :: "tw_timer pool \<Rightarrow> u32 \<Rightarrow> u32 list \<Rightarrow> bool" where
  "timer_ring p h xs = ring (\<lambda>i. tw_next (cell p i)) (\<lambda>i. tw_prev (cell p i)) h xs"

text \<open>\<open>tw_rings p H L\<close>: every head in \<open>H\<close> starts the ring \<open>L h\<close>, and the rings share no cell.\<close>

definition tw_rings :: "tw_timer pool \<Rightarrow> u32 set \<Rightarrow> (u32 \<Rightarrow> u32 list) \<Rightarrow> bool" where
  "tw_rings p H L = ((\<forall>h\<in>H. timer_ring p h (L h) \<and> (\<forall>x\<in>set (h # L h). live_cell p x))
     \<and> (\<forall>h\<in>H. \<forall>k\<in>H. h \<noteq> k \<longrightarrow> set (h # L h) \<inter> set (k # L k) = {}))"

text \<open>What linking keeps: the elements in use, and everything but the links.\<close>

definition links_only :: "tw_timer pool \<Rightarrow> tw_timer pool \<Rightarrow> bool" where
  "links_only p p' = (pool_live p' = pool_live p \<and> (pool_ok p \<longrightarrow> pool_ok p') \<and> length (pool_vec p') = length (pool_vec p)
     \<and> (\<forall>i. user_handle (cell p' i) = user_handle (cell p i) \<and> fast_ring_offset (cell p' i) = fast_ring_offset (cell p i)))"

lemma links_only_trans: "links_only p q \<Longrightarrow> links_only q r \<Longrightarrow> links_only p r"
  by (simp add: links_only_def)

lemma timer_ring_cong:
  "(\<And>i. i \<in> set (h # xs) \<Longrightarrow> cell p' i = cell p i) \<Longrightarrow> timer_ring p' h xs \<longleftrightarrow> timer_ring p h xs"
  unfolding timer_ring_def by (intro ring_cong) auto

text \<open>A change of one list whose other cells stay as they were.\<close>

lemma tw_rings_update:
  assumes "tw_rings p H L" and "h \<in> H" and "pool_live p' = pool_live p" and "timer_ring p' h xs"
    and "\<And>x. x \<in> set xs \<Longrightarrow> live_cell p x"
    and "\<And>x k. x \<in> set xs \<Longrightarrow> x \<notin> set (L h) \<Longrightarrow> k \<in> H \<Longrightarrow> x \<notin> set (k # L k)"
    and "\<And>i k. k \<in> H \<Longrightarrow> k \<noteq> h \<Longrightarrow> i \<in> set (k # L k) \<Longrightarrow> cell p' i = cell p i"
  shows "tw_rings p' H (L(h := xs))"
proof -
  have D: "set (k # L k) \<inter> set (j # L j) = {}" if "k \<in> H" "j \<in> H" "k \<noteq> j" for j k
    using assms(1) that unfolding tw_rings_def by blast
  have lv: "live_cell p y" if "k \<in> H" "y \<in> set (k # L k)" for k y
    using assms(1) that unfolding tw_rings_def by blast
  note dis = D [OF assms(2) _ not_sym]
  have x: "set (h # xs) \<inter> set (k # L k) = {}" if "k \<in> H" "k \<noteq> h" for k
    using dis [OF that] assms(6) [OF _ _ that(1)] by fastforce
  have r: "timer_ring p' k (L k)" if "k \<in> H" "k \<noteq> h" for k
    using timer_ring_cong [of k "L k" p' p] assms(7) [OF that] assms(1) that by (auto simp: tw_rings_def)
  show ?thesis unfolding tw_rings_def
  proof (intro conjI ballI impI)
    fix k assume k: "k \<in> H"
    show "timer_ring p' k ((L(h := xs)) k)" using r k assms(4) by auto
    show "live_cell p' y" if "y \<in> set (k # (L(h := xs)) k)" for y
    proof (cases "k = h")
      case True
      then show ?thesis using that assms(5) lv [OF assms(2), of h] assms(3) by auto
    next
      case False
      then show ?thesis using that lv [OF k, of y] assms(3) by simp
    qed
    fix j assume j: "j \<in> H" "k \<noteq> j"
    show "set (k # (L(h := xs)) k) \<inter> set (j # (L(h := xs)) j) = {}"
      using x [OF k] x [OF j(1)] D [OF k j] j(2) by (cases "k = h"; cases "j = h") (simp_all add: Int_commute)
  qed
qed

lemma tw_rings_cells:
  assumes "tw_rings p H L" and "h \<in> H"
  shows "timer_ring p h (L h)" and "x \<in> set (h # L h) \<Longrightarrow> live_cell p x" and "distinct (h # L h)"
    and "k \<in> H \<Longrightarrow> k \<noteq> h \<Longrightarrow> x \<in> set (h # L h) \<Longrightarrow> x \<notin> set (k # L k)"
  using assms unfolding tw_rings_def timer_ring_def ring_def by blast+

lemma timer_addhead_ok:
  assumes R: "tw_rings p H L" and h: "h \<in> H" and i: "live_cell p i" "\<And>k. k \<in> H \<Longrightarrow> i \<notin> set (k # L k)"
  shows "\<exists>p'. timer_addhead p h i = Some p' \<and> links_only p p' \<and> tw_rings p' H (L(h := i # L h))
    \<and> (\<forall>j. j \<notin> insert i (set (h # L h)) \<longrightarrow> cell p' j = cell p j)"
proof -
  note c = tw_rings_cells [OF R h]
  let ?f = "tw_next (cell p h)" and ?nx = "\<lambda>i. tw_next (cell p i)" and ?pv = "\<lambda>i. tw_prev (cell p i)"
  have r: "ring ?nx ?pv h (L h)" using c(1) by (simp add: timer_ring_def)
  have f: "?f \<in> set (h # L h)" "tw_prev (cell p ?f) = h" using r by (cases "L h"; auto simp: ring_def)+
  have n: "i \<noteq> h" "?f \<noteq> i" "live_cell p ?f" "live_cell p h" using i(2) [OF h] f(1) c(2) by auto
  define p' where "p' = (if ?f = h
    then pool_store (pool_store p (unat h) ((cell p h)\<lparr>tw_next := i, tw_prev := i\<rparr>)) (unat i) ((cell p i)\<lparr>tw_next := h, tw_prev := h\<rparr>)
    else pool_store (pool_store (pool_store p (unat i) ((cell p i)\<lparr>tw_next := ?f, tw_prev := h\<rparr>))
      (unat ?f) ((cell p ?f)\<lparr>tw_prev := i\<rparr>)) (unat h) ((cell p h)\<lparr>tw_next := i\<rparr>))"
  have 1: "timer_addhead p h i = Some p'" using n i f(2)
    by (simp add: timer_addhead_def cells Let_def p'_def)
  have c': "cell p' = (cell p)(i := (cell p i)\<lparr>tw_next := ?f, tw_prev := h\<rparr>, ?f := (cell p ?f)\<lparr>tw_prev := i\<rparr>,
      h := (if ?f = h then (cell p h)\<lparr>tw_prev := i\<rparr> else cell p h)\<lparr>tw_next := i\<rparr>)" "pool_live p' = pool_live p"
    using n i by (simp_all add: cells p'_def fun_eq_iff)
  have 2: "links_only p p'" using n by (auto simp: links_only_def c') (auto simp: p'_def)
  have 3: "\<forall>j. j \<notin> insert i (set (h # L h)) \<longrightarrow> cell p' j = cell p j" using c'(1) f(1) by auto
  have "(\<lambda>j. tw_next (cell p' j)) = ?nx(i := ?f, h := i)" "(\<lambda>j. tw_prev (cell p' j)) = ?pv(i := h, ?f := i)"
    unfolding c' using n by (auto simp: fun_eq_iff)
  then have r': "timer_ring p' h (i # L h)" unfolding timer_ring_def using ring_insert_first [OF r, of i] i(2) [OF h] by simp
  have "tw_rings p' H (L(h := i # L h))"
  proof (rule tw_rings_update [OF R h c'(2) r'])
    show "cell p' j = cell p j" if "k \<in> H" "k \<noteq> h" "j \<in> set (k # L k)" for j k
    proof -
      have "j \<notin> insert i (set (h # L h))" using i(2) [OF that(1)] c(4) [OF that(1,2), of j] that(3) by blast
      then show ?thesis using 3 by blast
    qed
  qed (use i c(2) in auto)
  then show ?thesis using 1 2 3 by blast
qed

lemma timer_remove_ok:
  assumes R: "tw_rings p H L" and h: "h \<in> H" and i: "i \<in> set (L h)" "user_handle (cell p i) \<noteq> - 1"
  shows "\<exists>p'. timer_remove p i = Some p' \<and> links_only p p' \<and> tw_rings p' H (L(h := filter (\<lambda>x. x \<noteq> i) (L h)))"
proof -
  note c = tw_rings_cells [OF R h]
  obtain us vs where L: "L h = us @ i # vs" using i(1) by (meson split_list)
  let ?a = "tw_next (cell p i)" and ?b = "tw_prev (cell p i)"
    and ?nx = "\<lambda>i. tw_next (cell p i)" and ?pv = "\<lambda>i. tw_prev (cell p i)"
  have r: "ring ?nx ?pv h (us @ i # vs)" using c(1) by (simp add: timer_ring_def L)
  note ab = ring_neighbours [OF r]
  have fl: "filter (\<lambda>x. x \<noteq> i) (L h) = us @ vs"
    using ab(3) unfolding L by (simp add: filter_id_conv) (metis (mono_tags, lifting) filter_True)
  have n: "live_cell p i" "live_cell p ?a" "live_cell p ?b" "?a \<noteq> i" "?b \<noteq> i" using ab c(2) unfolding L by fastforce+
  let ?cb = "if ?a = ?b then (cell p ?a)\<lparr>tw_prev := ?b\<rparr> else cell p ?b"
  define p' where "p' = pool_store (pool_store (pool_store p (unat ?a) ((cell p ?a)\<lparr>tw_prev := ?b\<rparr>))
    (unat ?b) (?cb\<lparr>tw_next := ?a\<rparr>)) (unat i) ((cell p i)\<lparr>tw_prev := - 1, tw_next := - 1\<rparr>)"
  have 1: "timer_remove p i = Some p'" using i(2) n by (auto simp: timer_remove_def cells p'_def)
  have c': "cell p' = (cell p)(?a := (cell p ?a)\<lparr>tw_prev := ?b\<rparr>, ?b := ?cb\<lparr>tw_next := ?a\<rparr>,
      i := (cell p i)\<lparr>tw_prev := - 1, tw_next := - 1\<rparr>)" "pool_live p' = pool_live p"
    using n by (simp_all add: cells p'_def)
  have 2: "links_only p p'" by (auto simp: links_only_def c') (auto simp: p'_def)
  have 3: "cell p' j = cell p j" if "j \<notin> set (h # L h)" for j using that c'(1) ab(1,2) by (auto simp: L)
  have "(\<lambda>j. tw_next (cell p' j)) = ?nx(?b := ?a, i := - 1)" "(\<lambda>j. tw_prev (cell p' j)) = ?pv(?a := ?b, i := - 1)"
    unfolding c' using n by (auto simp: fun_eq_iff)
  then have r': "timer_ring p' h (us @ vs)" unfolding timer_ring_def using ring_remove [OF r] by simp
  have "tw_rings p' H (L(h := us @ vs))"
  proof (rule tw_rings_update [OF R h c'(2) r'])
    show "cell p' j = cell p j" if "k \<in> H" "k \<noteq> h" "j \<in> set (k # L k)" for j k
      using 3 c(4) [OF that(1,2), of j] that(3) by blast
  qed (use c(2) in \<open>auto simp: L\<close>)
  then show ?thesis using 1 2 fl by auto
qed

text \<open>The walk through a list: the links that the loops over a slot follow.\<close>

fun walk :: "(u32 \<Rightarrow> u32) \<Rightarrow> u32 list \<Rightarrow> u32 \<Rightarrow> bool" where
  "walk nx [] h = True"
| "walk nx (x # xs) h = (nx x = hd (xs @ [h]) \<and> walk nx xs h)"

lemma walk_cong: "(\<And>x. x \<in> set xs \<Longrightarrow> nx x = nx' x) \<Longrightarrow> walk nx xs h = walk nx' xs h"
  by (induction xs) auto

lemma seg_walk: "seg nx pv a xs h \<Longrightarrow> walk nx xs h"
  by (induction xs arbitrary: a) (auto dest: seg_nx)

lemma timer_ring_walk:
  "timer_ring p h xs \<Longrightarrow> tw_next (cell p h) = hd (xs @ [h]) \<and> walk (\<lambda>i. tw_next (cell p i)) xs h"
  unfolding timer_ring_def ring_def by (auto dest: seg_walk seg_nx)

lemma empty_slot_ok:
  assumes R: "tw_rings p H L" and h: "h \<in> H"
  shows "\<exists>p'. empty_slot p h = Some (p', hd (L h @ [h])) \<and> links_only p p' \<and> tw_rings p' H (L(h := []))
    \<and> (\<forall>j. j \<noteq> h \<longrightarrow> cell p' j = cell p j) \<and> walk (\<lambda>i. tw_next (cell p' i)) (L h) h"
proof -
  note c = tw_rings_cells [OF R h]
  have lv: "live_cell p h" using c(2) by simp
  let ?p = "pool_store p (unat h) ((cell p h)\<lparr>tw_next := h, tw_prev := h\<rparr>)"
  have w: "tw_next (cell p h) = hd (L h @ [h])" "walk (\<lambda>i. tw_next (cell p i)) (L h) h"
    using timer_ring_walk [OF c(1)] by auto
  have 1: "empty_slot p h = Some (?p, hd (L h @ [h]))" using lv w(1) by (simp add: empty_slot_def cells)
  have 3: "\<forall>j. j \<noteq> h \<longrightarrow> cell ?p j = cell p j" using lv by (simp add: cells)
  have 2: "links_only p ?p" using lv by (auto simp: links_only_def cells)
  have r: "timer_ring ?p h []" using lv by (simp add: timer_ring_def cells)
  have 4: "tw_rings ?p H (L(h := []))"
  proof (rule tw_rings_update [OF R h _ r])
    show "cell ?p j = cell p j" if "k \<in> H" "k \<noteq> h" "j \<in> set (k # L k)" for j k
      using 3 c(4) [OF that(1,2), of h] that(3) by auto
  qed auto
  have "walk (\<lambda>i. tw_next (cell ?p i)) (L h) h"
    using w(2) c(3) 3 walk_cong [of "L h" "\<lambda>i. tw_next (cell ?p i)" "\<lambda>i. tw_next (cell p i)" h] by fastforce
  then show ?thesis using 1 2 3 4 by blast
qed

lemma pool_put_vec: "pool_put_index p i = Some p' \<Longrightarrow> pool_vec p' = pool_vec p"
  by (auto simp: pool_put_index_def split: if_splits)

text \<open>The loops that give the timers of a list back.\<close>

definition timer_walk :: "tw_timer pool \<Rightarrow> u32 list \<Rightarrow> u32 \<Rightarrow> bool" where
  "timer_walk p xs h = (pool_ok p \<and> distinct xs \<and> h \<notin> set xs \<and> (\<forall>x\<in>set xs. live_cell p x)
     \<and> walk (\<lambda>i. tw_next (cell p i)) xs h)"

lemma timer_walk_put:
  assumes "timer_walk p (x # xs) h"
  shows "\<exists>q. pool_put_index p (unat x) = Some q \<and> timer_walk q xs h \<and> pool_live q = pool_live p - {unat x}
    \<and> pool_vec q = pool_vec p \<and> cell q = cell p"
    and "x \<noteq> h" and "elt_at p x = Some (cell p x)" and "tw_next (cell p x) = hd (xs @ [h])"
proof -
  note w = assms [unfolded timer_walk_def]
  obtain q where q: "pool_put_index p (unat x) = Some q" "pool_ok q" "pool_live q = pool_live p - {unat x}"
    using pool_put_live [of p "unat x"] w by auto
  have v: "pool_vec q = pool_vec p" by (rule pool_put_vec [OF q(1)])
  have cl: "cell q = cell p" by (simp add: fun_eq_iff cell_def v)
  have "\<forall>y\<in>set xs. live_cell q y" using w q(3) by (auto simp: word_unat_eq_iff [symmetric])
  then have "timer_walk q xs h" using w q(2) cl by (simp add: timer_walk_def)
  then show "\<exists>q. pool_put_index p (unat x) = Some q \<and> timer_walk q xs h \<and> pool_live q = pool_live p - {unat x}
    \<and> pool_vec q = pool_vec p \<and> cell q = cell p" using q v cl by blast
  show "x \<noteq> h" "elt_at p x = Some (cell p x)" "tw_next (cell p x) = hd (xs @ [h])" using w by (auto simp: elt_at_eq)
qed

lemma expire_timers_ok:
  "timer_walk p xs h \<Longrightarrow>
   \<exists>p'. expire_timers h p hs (hd (xs @ [h])) = Some (p', hs @ map (\<lambda>i. user_handle (cell p i)) xs)
     \<and> pool_ok p' \<and> pool_live p' = pool_live p - unat ` set xs \<and> pool_vec p' = pool_vec p"
proof (induction xs arbitrary: p hs)
  case Nil
  then show ?case by (subst expire_timers.simps) (simp add: timer_walk_def)
next
  case (Cons x xs)
  note x = timer_walk_put(2-4) [OF Cons.prems]
  obtain q where q: "pool_put_index p (unat x) = Some q" "timer_walk q xs h" "pool_live q = pool_live p - {unat x}"
    "pool_vec q = pool_vec p" "cell q = cell p" using timer_walk_put(1) [OF Cons.prems] by blast
  have "expire_timers h p hs x = expire_timers h q (hs @ [user_handle (cell p x)]) (hd (xs @ [h]))"
    using x q(1) by (subst expire_timers.simps) simp
  then show ?case using Cons.IH [OF q(2), of "hs @ [user_handle (cell p x)]"] q by auto
qed

lemma free_slot_timers_ok:
  "timer_walk p xs h \<Longrightarrow>
   \<exists>p'. free_slot_timers h p (hd (xs @ [h])) = Some p'
     \<and> pool_ok p' \<and> pool_live p' = pool_live p - unat ` set xs \<and> pool_vec p' = pool_vec p"
proof (induction xs arbitrary: p)
  case Nil
  then show ?case by (subst free_slot_timers.simps) (simp add: timer_walk_def)
next
  case (Cons x xs)
  note x = timer_walk_put(2-4) [OF Cons.prems]
  obtain q where q: "pool_put_index p (unat x) = Some q" "timer_walk q xs h" "pool_live q = pool_live p - {unat x}"
    "pool_vec q = pool_vec p" using timer_walk_put(1) [OF Cons.prems] by blast
  have "free_slot_timers h p x = free_slot_timers h q (hd (xs @ [h]))"
    using x q(1) by (subst free_slot_timers.simps) simp
  then show ?case using Cons.IH [OF q(2)] q by auto
qed

text \<open>The loop that deals the timers \<open>xs\<close> of a slow slot to the slots of the fast ring.\<close>

lemma deal_timers_ok:
  assumes "tw_rings p H L" and "walk (\<lambda>i. tw_next (cell p i)) xs h" and "distinct xs" and "h \<notin> set xs"
    and "\<forall>x\<in>set xs. live_cell p x \<and> (\<forall>k\<in>H. x \<notin> set (k # L k)) \<and> unat (fast_ring_offset (cell p x)) < tw_slots_per_ring g
      \<and> slot_head tw 0 (unat (fast_ring_offset (cell p x))) = Some (f x) \<and> f x \<in> H"
  shows "\<exists>p' L'. deal_timers g tw h p (hd (xs @ [h])) = Some p' \<and> links_only p p' \<and> tw_rings p' H L'
    \<and> (\<forall>k\<in>H. set (L' k) = set (L k) \<union> {x \<in> set xs. f x = k})"
  using assms
proof (induction xs arbitrary: p L)
  case Nil
  then show ?case by (subst deal_timers.simps) (auto simp: links_only_def)
next
  case (Cons x xs)
  let ?q = "pool_store p (unat x) ((cell p x)\<lparr>tw_next := - 1, tw_prev := - 1\<rparr>)"
  have x: "live_cell p x" "\<And>k. k \<in> H \<Longrightarrow> x \<notin> set (k # L k)" "unat (fast_ring_offset (cell p x)) < tw_slots_per_ring g"
    "slot_head tw 0 (unat (fast_ring_offset (cell p x))) = Some (f x)" "f x \<in> H" "x \<noteq> h"
    using Cons.prems(4,5) by auto
  have cq: "cell ?q = (cell p)(x := (cell p x)\<lparr>tw_next := - 1, tw_prev := - 1\<rparr>)" using x(1) by (simp add: cells)
  have lq: "links_only p ?q" by (auto simp: links_only_def cq)
  have Rq: "tw_rings ?q H L"
  proof -
    have "timer_ring ?q k (L k) \<longleftrightarrow> timer_ring p k (L k)" if "k \<in> H" for k
      using x(2) [OF that] by (intro timer_ring_cong) (auto simp: cq)
    then show ?thesis using Cons.prems(1) by (simp add: tw_rings_def)
  qed
  obtain r where r: "timer_addhead ?q (f x) x = Some r" "links_only ?q r" "tw_rings r H (L(f x := x # L (f x)))"
    "\<And>j. j \<notin> insert x (set (f x # L (f x))) \<Longrightarrow> cell r j = cell ?q j"
    using timer_addhead_ok [OF Rq x(5), of x] x(1,2) by auto
  let ?L = "L(f x := x # L (f x))"
  have keep: "cell r y = cell p y" if "y \<in> set xs" for y
  proof -
    have "y \<notin> set (f x # L (f x))" "y \<noteq> x" using Cons.prems(3,5) x(5) that by auto
    then show ?thesis using r(4) [of y] by (simp add: cq)
  qed
  have lr: "links_only p r" by (rule links_only_trans [OF lq r(2)])
  have "walk (\<lambda>i. tw_next (cell p i)) xs h" using Cons.prems(2) by simp
  then have w: "walk (\<lambda>i. tw_next (cell r i)) xs h"
    using walk_cong [of xs "\<lambda>i. tw_next (cell r i)" "\<lambda>i. tw_next (cell p i)" h] keep by simp
  have A: "\<forall>y\<in>set xs. live_cell r y \<and> (\<forall>k\<in>H. y \<notin> set (k # ?L k)) \<and> unat (fast_ring_offset (cell r y)) < tw_slots_per_ring g
      \<and> slot_head tw 0 (unat (fast_ring_offset (cell r y))) = Some (f y) \<and> f y \<in> H"
    using Cons.prems(3,5) keep lr by (auto simp: links_only_def)
  have "deal_timers g tw h p x = deal_timers g tw h r (tw_next (cell p x))"
    using x r(1) by (subst deal_timers.simps) (simp add: cells)
  moreover have "tw_next (cell p x) = hd (xs @ [h])" using Cons.prems(2) by simp
  moreover obtain p' L' where p': "deal_timers g tw h r (hd (xs @ [h])) = Some p'" "links_only r p'" "tw_rings p' H L'"
    "\<forall>k\<in>H. set (L' k) = set (?L k) \<union> {x \<in> set xs. f x = k}"
    using Cons.IH [OF r(3) w _ _ A] Cons.prems(3,4) by auto
  moreover have "\<forall>k\<in>H. set (L' k) = set (L k) \<union> {y \<in> set (x # xs). f y = k}" using p'(4) by (auto split: if_splits)
  ultimately show ?case using links_only_trans [OF lr p'(2)] by auto
qed

end
