(* ===== verification/Tw_Wheel.thy ===== *)
theory Tw_Wheel
  imports Tw_Timer
begin

text \<open>
  What a timer wheel promises. The abstract wheel is the number of ticks that have passed and a map
  from the timers to the tick at which each is due and its handle; \<open>tw_rep\<close> relates a wheel to it,
  and the operations of \<open>Tw_Timer\<close> are shown to refine the obvious operations on the map. The
  contract that users of a wheel rely on is the locale \<open>timer_service\<close>.
\<close>

section \<open>The abstract wheel\<close>

type_synonym timer_map = "u32 \<rightharpoonup> nat \<times> u32"

definition geometry_ok :: "tw_geometry \<Rightarrow> bool" where
  "geometry_ok g = (tw_timer_wheels g \<in> {1, 2} \<and> tw_slots_per_ring g = 2 ^ tw_ring_shift g \<and> tw_ring_shift g \<le> 15
     \<and> tw_timers_per_object g \<le> 2 ^ log2_tw_timers_per_object g \<and> 0 < log2_tw_timers_per_object g
     \<and> log2_tw_timers_per_object g < 32)"

lemma geometries_ok: "geometry_ok geometry_2t_1w_2048sl" "geometry_ok geometry_16t_1w_2048sl" "geometry_ok geometry_16t_2w_512sl"
  by (simp_all add: geometry_ok_def geometry_2t_1w_2048sl_def geometry_16t_1w_2048sl_def geometry_16t_2w_512sl_def)

text \<open>Where a timer due at tick \<open>e\<close> is, when the fast ring has been around \<open>A\<close> times.\<close>

definition timer_slot :: "tw_geometry \<Rightarrow> nat \<Rightarrow> nat \<Rightarrow> nat \<times> nat" where
  "timer_slot g A e =
    (if tw_timer_wheels g = 1 \<or> e div tw_slots_per_ring g = A then (0, e mod tw_slots_per_ring g)
     else (1, e div tw_slots_per_ring g mod tw_slots_per_ring g))"

definition heads :: "tw_geometry \<Rightarrow> tw_timer_wheel \<Rightarrow> u32 set" where
  "heads g tw = {wheel_slots tw ! r ! s | r s. r < tw_timer_wheels g \<and> s < tw_slots_per_ring g}"

definition wheel_shape :: "tw_geometry \<Rightarrow> tw_timer_wheel \<Rightarrow> bool" where
  "wheel_shape g tw = (length (wheel_slots tw) = tw_timer_wheels g \<and> length (current_index tw) = tw_timer_wheels g
     \<and> (\<forall>r<tw_timer_wheels g. length (wheel_slots tw ! r) = tw_slots_per_ring g)
     \<and> (\<forall>r<tw_timer_wheels g. \<forall>r'<tw_timer_wheels g. \<forall>s<tw_slots_per_ring g. \<forall>s'<tw_slots_per_ring g.
          wheel_slots tw ! r ! s = wheel_slots tw ! r' ! s' \<longrightarrow> r = r' \<and> s = s'))"

text \<open>The indices of the rings at tick \<open>k\<close>, after \<open>A\<close> turns of the fast ring.\<close>

definition wheel_clock :: "tw_geometry \<Rightarrow> tw_timer_wheel \<Rightarrow> nat \<Rightarrow> nat \<Rightarrow> bool" where
  "wheel_clock g tw k A = (k = A * tw_slots_per_ring g + unat (current_index tw ! 0)
     \<and> unat (current_index tw ! 0) \<le> tw_slots_per_ring g
     \<and> (1 < tw_timer_wheels g \<longrightarrow> unat (current_index tw ! 1) = A mod tw_slots_per_ring g)
     \<and> current_tick tw = word_of_nat k)"

definition timer_due :: "tw_geometry \<Rightarrow> tw_timer pool \<Rightarrow> nat \<Rightarrow> nat \<Rightarrow> u32 \<Rightarrow> nat \<Rightarrow> u32 \<Rightarrow> bool" where
  "timer_due g p k A i e h = (user_handle (cell p i) = h \<and> k \<le> e
     \<and> (tw_timer_wheels g = 1 \<longrightarrow> e < k + tw_slots_per_ring g)
     \<and> (1 < tw_timer_wheels g \<longrightarrow> e div tw_slots_per_ring g < A + tw_slots_per_ring g
          \<and> (e div tw_slots_per_ring g \<noteq> A \<longrightarrow> unat (fast_ring_offset (cell p i)) = e mod tw_slots_per_ring g)))"

text \<open>The wheel after \<open>k\<close> ticks with the timers \<open>T\<close>, the turns \<open>A\<close> and the lists \<open>L\<close> made explicit.\<close>

definition tw_rep_at :: "tw_geometry \<Rightarrow> tw_timer_wheel \<Rightarrow> nat \<Rightarrow> timer_map \<Rightarrow> nat \<Rightarrow> (u32 \<Rightarrow> u32 list) \<Rightarrow> bool" where
  "tw_rep_at g tw k T A L = (geometry_ok g \<and> wheel_shape g tw \<and> pool_ok (timers tw)
     \<and> pool_live (timers tw) = unat ` (heads g tw \<union> dom T) \<and> heads g tw \<inter> dom T = {}
     \<and> (\<forall>h\<in>heads g tw. user_handle (cell (timers tw) h) = - 1)
     \<and> wheel_clock g tw k A \<and> tw_rings (timers tw) (heads g tw) L
     \<and> (\<forall>i e h. T i = Some (e, h) \<longrightarrow> timer_due g (timers tw) k A i e h)
     \<and> (\<forall>r<tw_timer_wheels g. \<forall>s<tw_slots_per_ring g.
          set (L (wheel_slots tw ! r ! s)) = {i. \<exists>e h. T i = Some (e, h) \<and> timer_slot g A e = (r, s)}))"

definition tw_rep :: "tw_geometry \<Rightarrow> tw_timer_wheel \<Rightarrow> nat \<Rightarrow> timer_map \<Rightarrow> bool" where
  "tw_rep g tw k T = (\<exists>A L. tw_rep_at g tw k T A L)"

section \<open>Shape\<close>

lemma geometry_slots:
  "geometry_ok g \<Longrightarrow> 0 < tw_slots_per_ring g" "geometry_ok g \<Longrightarrow> tw_slots_per_ring g \<le> 2 ^ 15"
  "geometry_ok g \<Longrightarrow> tw_timer_wheels g = 1 \<or> tw_timer_wheels g = 2"
  using power_increasing [of "tw_ring_shift g" 15 "2 :: nat"] by (auto simp: geometry_ok_def)

lemma timer_slot_range:
  "geometry_ok g \<Longrightarrow> timer_slot g A e = (r, s) \<Longrightarrow> r < tw_timer_wheels g \<and> s < tw_slots_per_ring g"
  using geometry_slots(1,3) [of g] by (auto simp: timer_slot_def split: if_splits)

lemma slot_head_eq:
  "wheel_shape g tw \<Longrightarrow> r < tw_timer_wheels g \<Longrightarrow> s < tw_slots_per_ring g \<Longrightarrow>
   slot_head tw r s = Some (wheel_slots tw ! r ! s) \<and> wheel_slots tw ! r ! s \<in> heads g tw"
  by (auto simp: slot_head_def wheel_shape_def heads_def)

lemma ring_index_eq: "wheel_shape g tw \<Longrightarrow> r < tw_timer_wheels g \<Longrightarrow> ring_index tw r = Some (current_index tw ! r)"
  by (simp add: ring_index_def wheel_shape_def)

lemma slot_inj:
  "wheel_shape g tw \<Longrightarrow> r < tw_timer_wheels g \<Longrightarrow> s < tw_slots_per_ring g \<Longrightarrow> r' < tw_timer_wheels g \<Longrightarrow>
   s' < tw_slots_per_ring g \<Longrightarrow> wheel_slots tw ! r ! s = wheel_slots tw ! r' ! s' \<longleftrightarrow> r = r' \<and> s = s'"
  by (auto simp: wheel_shape_def)

lemma tw_rings_mono:
  assumes "tw_rings p H L" and "\<And>h x. h \<in> H \<Longrightarrow> x \<in> set (h # L h) \<Longrightarrow> cell p' x = cell p x \<and> live_cell p' x"
  shows "tw_rings p' H L"
proof -
  have "timer_ring p' h (L h) = timer_ring p h (L h)" if "h \<in> H" for h
    using assms(2) [OF that] by (intro timer_ring_cong) blast
  then show ?thesis using assms unfolding tw_rings_def by blast
qed

lemma tw_rep_at_simps:
  assumes "tw_rep_at g tw k T A L"
  shows "geometry_ok g" and "wheel_shape g tw" and "pool_ok (timers tw)"
    and "pool_live (timers tw) = unat ` (heads g tw \<union> dom T)" and "heads g tw \<inter> dom T = {}"
    and "\<And>h. h \<in> heads g tw \<Longrightarrow> user_handle (cell (timers tw) h) = - 1"
    and "wheel_clock g tw k A" and "tw_rings (timers tw) (heads g tw) L"
    and "\<And>i e h. T i = Some (e, h) \<Longrightarrow> timer_due g (timers tw) k A i e h"
    and "\<And>r s. r < tw_timer_wheels g \<Longrightarrow> s < tw_slots_per_ring g \<Longrightarrow>
      set (L (wheel_slots tw ! r ! s)) = {i. \<exists>e h. T i = Some (e, h) \<and> timer_slot g A e = (r, s)}"
  using assms by (simp_all add: tw_rep_at_def)

lemma live_iff:
  assumes "tw_rep_at g tw k T A L"
  shows "live_cell (timers tw) x \<longleftrightarrow> x \<in> heads g tw \<or> x \<in> dom T"
  unfolding tw_rep_at_simps(4) [OF assms] by (auto simp: word_unat_eq_iff [symmetric])

text \<open>The cells of the lists are the heads and the timers.\<close>

lemma ring_cells:
  assumes "tw_rep_at g tw k T A L" and "h \<in> heads g tw" and "x \<in> set (h # L h)"
  shows "x = h \<or> x \<in> dom T"
proof -
  obtain r s where "r < tw_timer_wheels g" "s < tw_slots_per_ring g" "h = wheel_slots tw ! r ! s"
    using assms(2) by (auto simp: heads_def)
  then show ?thesis using tw_rep_at_simps(10) [OF assms(1), of r s] assms(3) by auto
qed

section \<open>Starting a timer\<close>

lemma heads_timers [simp]: "heads g (tw\<lparr>timers := p\<rparr>) = heads g tw"
  by (simp add: heads_def)

lemma wheel_shape_timers [simp]: "wheel_shape g (tw\<lparr>timers := p\<rparr>) = wheel_shape g tw"
  by (simp add: wheel_shape_def)

lemma wheel_clock_timers [simp]: "wheel_clock g (tw\<lparr>timers := p\<rparr>) k A = wheel_clock g tw k A"
  by (simp add: wheel_clock_def)

text \<open>A change of the pool that keeps the timers' data.\<close>

lemma timer_due_cong:
  "user_handle (cell p' i) = user_handle (cell p i) \<Longrightarrow> fast_ring_offset (cell p' i) = fast_ring_offset (cell p i) \<Longrightarrow>
   timer_due g p' k A i e h = timer_due g p k A i e h"
  by (simp add: timer_due_def)

lemma link_ok:
  assumes R: "tw_rep_at g tw k T A L" and t: "\<not> live_cell (timers tw) t"
    and p: "pool_ok p" "pool_live p = insert (unat t) (pool_live (timers tw))"
      "\<And>x. live_cell (timers tw) x \<Longrightarrow> cell p x = cell (timers tw) x"
    and due: "timer_due g p k A t e h" and s: "timer_slot g A e = (r, s)"
  shows "\<exists>p'. tw_timer_link tw p r s t = Some (tw\<lparr>timers := p'\<rparr>, t) \<and> length (pool_vec p') = length (pool_vec p)
    \<and> tw_rep_at g (tw\<lparr>timers := p'\<rparr>) k (T(t \<mapsto> (e, h))) A
         (L(wheel_slots tw ! r ! s := t # L (wheel_slots tw ! r ! s)))"
proof -
  note R' = tw_rep_at_simps [OF R]
  let ?H = "heads g tw" and ?hd = "wheel_slots tw ! r ! s"
  have t': "t \<notin> ?H" "t \<notin> dom T" using t live_iff [OF R] by auto
  have rs: "r < tw_timer_wheels g" "s < tw_slots_per_ring g" using timer_slot_range [OF R'(1) s] by auto
  have hd: "slot_head tw r s = Some ?hd" "?hd \<in> ?H" using slot_head_eq [OF R'(2) rs] by auto
  have rp: "tw_rings p ?H L"
    by (rule tw_rings_mono [OF R'(8)]) (use tw_rings_cells(2) [OF R'(8)] p in auto)
  obtain p' where p': "timer_addhead p ?hd t = Some p'" "links_only p p'" "tw_rings p' ?H (L(?hd := t # L ?hd))"
    using timer_addhead_ok [OF rp hd(2), of t] p(2) t' ring_cells [OF R] by blast
  note lo = p'(2) [unfolded links_only_def]
  have keep: "user_handle (cell p' x) = user_handle (cell (timers tw) x)"
    "fast_ring_offset (cell p' x) = fast_ring_offset (cell (timers tw) x)" if "live_cell (timers tw) x" for x
    using lo p(3) [OF that] by auto
  have "tw_rep_at g (tw\<lparr>timers := p'\<rparr>) k (T(t \<mapsto> (e, h))) A (L(?hd := t # L ?hd))"
    unfolding tw_rep_at_def heads_timers wheel_shape_timers wheel_clock_timers
  proof (intro conjI allI impI ballI)
    show "pool_ok (timers (tw\<lparr>timers := p'\<rparr>))" using lo p(1) by simp
    show "pool_live (timers (tw\<lparr>timers := p'\<rparr>)) = unat ` (?H \<union> dom (T(t \<mapsto> (e, h))))" using lo p(2) R'(4) by auto
    show "?H \<inter> dom (T(t \<mapsto> (e, h))) = {}" using R'(5) t' by auto
    show "user_handle (cell (timers (tw\<lparr>timers := p'\<rparr>)) x) = - 1" if "x \<in> ?H" for x
      using keep [of x] R'(6) [OF that] live_iff [OF R] that by simp
    show "timer_due g (timers (tw\<lparr>timers := p'\<rparr>)) k A i e' h'" if "(T(t \<mapsto> (e, h))) i = Some (e', h')" for i e' h'
    proof (cases "i = t")
      case True
      then show ?thesis using that due lo timer_due_cong [of p' t p] by auto
    next
      case False
      then have "T i = Some (e', h')" using that by simp
      then show ?thesis using R'(9) keep [of i] live_iff [OF R] timer_due_cong [of p' i "timers tw"] by (auto simp: domIff)
    qed
    show "tw_rings (timers (tw\<lparr>timers := p'\<rparr>)) ?H (L(?hd := t # L ?hd))" using p'(3) by simp
    fix r' s' assume b: "r' < tw_timer_wheels g" "s' < tw_slots_per_ring g"
    show "set ((L(?hd := t # L ?hd)) (wheel_slots (tw\<lparr>timers := p'\<rparr>) ! r' ! s'))
      = {i. \<exists>e' h'. (T(t \<mapsto> (e, h))) i = Some (e', h') \<and> timer_slot g A e' = (r', s')}"
      using R'(10) [OF b] slot_inj [OF R'(2) b rs] s t'(2) by (auto simp: domIff)
  qed (use R' in auto)
  then show ?thesis using hd(1) p'(1) lo by (intro exI [of _ p']) (simp add: tw_timer_link_def)
qed

text \<open>The tick \<open>k + n\<close> in turns and slots, as \<open>tw_timer_start\<close> computes it.\<close>

lemma due_arith:
  fixes n A F S :: nat
  assumes "0 < S" and "F \<le> S"
  defines "c \<equiv> if S \<le> n mod S + F then 1 else 0"
  shows "(A * S + F + n) mod S = (n mod S + F) mod S" and "(A * S + F + n) div S = A + (n div S + c)"
proof -
  have "A * S + F + n = A * S + (n div S * S + (n mod S + F))" by simp
  then have e: "A * S + F + n = (A + n div S) * S + (n mod S + F)" by (simp add: algebra_simps del: div_mult_mod_eq mult_div_mod_eq)
  show "(A * S + F + n) mod S = (n mod S + F) mod S" unfolding e by simp
  have "(n mod S + F) div S = c"
  proof (cases "S \<le> n mod S + F")
    case True
    have "n mod S + F < 2 * S" using assms(1,2) mod_less_divisor [OF assms(1), of n] by linarith
    then have "(n mod S + F - S) div S = 0" using True by simp
    then show ?thesis using True assms(1) by (simp add: c_def le_div_geq)
  qed (simp add: c_def)
  then show "(A * S + F + n) div S = A + (n div S + c)" unfolding e using assms(1) by simp
qed

text \<open>The words of \<open>tw_timer_start\<close> as numbers.\<close>

lemma fast_sum:
  assumes "geometry_ok g" and "unat f \<le> tw_slots_per_ring g"
  shows "unat (ucast (interval AND tw_ring_mask g) + ucast (f :: u32) :: u16) = unat interval mod tw_slots_per_ring g + unat f"
proof -
  let ?S = "tw_slots_per_ring g"
  have S: "?S = 2 ^ tw_ring_shift g" "?S \<le> 2 ^ 15" "0 < ?S" using assms(1) geometry_slots [OF assms(1)] by (auto simp: geometry_ok_def)
  have "tw_ring_mask g = mask (tw_ring_shift g)" 
    using S unfolding tw_ring_mask_def mask_eq_exp_minus_1 by simp
  then have m: "interval AND tw_ring_mask g = take_bit (tw_ring_shift g) interval" by (simp add: take_bit_eq_mask)
  have u: "unat (interval AND tw_ring_mask g) = unat interval mod ?S"
    unfolding m S(1) unsigned_take_bit_eq by (simp add: take_bit_eq_mod)
  have "unat interval mod ?S < ?S" using S(3) by simp
  then have "unat interval mod ?S + unat f < 2 ^ 16" using S(2) assms(2) by simp
  then show ?thesis using u by (subst unat_add_lem [THEN iffD1]) (simp_all add: unat_ucast_small)
qed

lemma unat_mod_slots: "geometry_ok g \<Longrightarrow> unat (x mod word_of_nat (tw_slots_per_ring g) :: u16) = unat x mod tw_slots_per_ring g"
  using geometry_slots(1,2) [of g] by (simp add: unat_mod unat_of_nat)

lemma slow_sum:
  assumes "geometry_ok g" and "unat interval div tw_slots_per_ring g + c < tw_slots_per_ring g" and "c \<le> 1"
  shows "unat (ucast (drop_bit (tw_ring_shift g) interval + word_of_nat c :: u32) :: u16) = unat interval div tw_slots_per_ring g + c"
proof -
  let ?S = "tw_slots_per_ring g"
  have S: "?S = 2 ^ tw_ring_shift g" "?S \<le> 2 ^ 15" using assms(1) geometry_slots [OF assms(1)] by (auto simp: geometry_ok_def)
  have "take_bit 32 (unat interval) = unat interval" using unat_u32_lt [of interval] by (simp add: take_bit_nat_eq_self_iff)
  then have "unat (drop_bit (tw_ring_shift g) interval) = unat interval div ?S"
    unfolding S(1) unsigned_drop_bit_eq by (simp add: drop_bit_eq_div)
  moreover have "unat (word_of_nat c :: u32) = c" using assms(3) by (simp add: unat_of_nat)
  ultimately have "unat (drop_bit (tw_ring_shift g) interval + word_of_nat c :: u32) = unat interval div ?S + c"
    using assms(2) S(2) by (subst unat_add_lem [THEN iffD1]) simp_all
  then show ?thesis using assms(2) S(2) by (simp add: unat_ucast_small)
qed


definition interval_ok :: "tw_geometry \<Rightarrow> nat \<Rightarrow> bool" where
  "interval_ok g n = (0 < n \<and> n < (if tw_timer_wheels g = 1 then tw_slots_per_ring g
     else (tw_slots_per_ring g - 1) * tw_slots_per_ring g))"

text \<open>\<open>pool_get\<close> and the stores to the new element.\<close>

lemma fresh_timer:
  assumes "pool_ok p" and "pool_get memory p = (q, i)" and "length (pool_vec p) < 2 ^ 32 - 1"
  shows "unat (word_of_nat i :: u32) = i" and "pool_ok q" and "live_cell q (word_of_nat i)"
    and "\<not> live_cell p (word_of_nat i)" and "pool_live q = insert i (pool_live p)"
    and "\<And>x. live_cell p x \<Longrightarrow> cell q x = cell p x"
proof -
  note g = pool_get_ok [OF assms(1,2)] pool_get_live [OF assms(1,2)]
  have "i \<le> length (pool_vec p)" using assms(1,2)
    by (rule pool_get_cases) (use assms(1) in \<open>auto simp: pool_ok_def\<close>)
  then have "i < 2 ^ 32" using assms(3) by simp
  then show u: "unat (word_of_nat i :: u32) = i" by (simp add: unat_of_nat)
  show "pool_ok q" "live_cell q (word_of_nat i)" "\<not> live_cell p (word_of_nat i)" "pool_live q = insert i (pool_live p)"
    using g u by auto
  show "cell q x = cell p x" if "live_cell p x" for x
    using pool_get_frame [OF assms(1,2) that] g that by (simp add: pool_elt_live cell_def)
qed

lemma pool_store_twice [simp]: "pool_store (pool_store p i x) i y = pool_store p i y"
  by (simp add: pool_store_def)

lemma interval_turns:
  assumes "geometry_ok g" and "interval_ok g n" and "tw_timer_wheels g \<noteq> 1" and "c \<le> 1"
  shows "n div tw_slots_per_ring g + c < tw_slots_per_ring g"
proof -
  let ?S = "tw_slots_per_ring g"
  have "n div ?S < ?S - 1" using assms(2,3) geometry_slots(1) [OF assms(1)] by (simp add: interval_ok_def div_less_iff_less_mult)
  then show ?thesis using assms(4) by linarith
qed

lemma slow_slot:
  assumes "geometry_ok g" and "unat (sl :: u16) < tw_slots_per_ring g" and "unat (s :: u32) = A mod tw_slots_per_ring g"
  shows "unat ((sl + ucast s) mod word_of_nat (tw_slots_per_ring g)) = (A + unat sl) mod tw_slots_per_ring g"
proof -
  let ?S = "tw_slots_per_ring g"
  note S = geometry_slots [OF assms(1)]
  have "A mod ?S < ?S" using S(1) by simp
  then have "unat sl + unat s < 2 * ?S" unfolding assms(3) using assms(2) by linarith
  also have "2 * ?S \<le> 2 ^ 16" using S(2) by simp
  finally have "unat sl + unat s < 2 ^ 16" .
  then have "unat (sl + ucast s) = unat sl + unat s"
    by (subst unat_add_lem [THEN iffD1]) (simp_all add: unat_ucast_small)
  then show ?thesis unfolding unat_mod_slots [OF assms(1)] assms(3) by (simp add: mod_simps add.commute)
qed

text \<open>The slot that \<open>tw_timer_start\<close> links the new element into is that of the tick at which it is due.\<close>

lemma start_eval:
  assumes R: "tw_rep_at g tw k T A L" and n: "interval_ok g (unat interval)"
    and h: "make_internal_timer_handle g pool_index timer_id = Some h"
    and q: "pool_get memory (timers tw) = (q, i)" and i: "unat (word_of_nat i :: u32) = i" "live_cell q (word_of_nat i)"
  shows "\<exists>x r s. tw_timer_start g memory tw pool_index timer_id interval = tw_timer_link tw (pool_store q i x) r s (word_of_nat i)
    \<and> user_handle x = h \<and> timer_slot g A (k + unat interval) = (r, s)
    \<and> (r = 1 \<longrightarrow> unat (fast_ring_offset x) = (k + unat interval) mod tw_slots_per_ring g)
    \<and> (tw_timer_wheels g \<noteq> 1 \<longrightarrow> (k + unat interval) div tw_slots_per_ring g < A + tw_slots_per_ring g)"
proof -
  note R' = tw_rep_at_simps [OF R]
  let ?S = "tw_slots_per_ring g" and ?F = "current_index tw ! 0" and ?n = "unat interval" and ?t = "word_of_nat i :: u32"
  note S = geometry_slots [OF R'(1)]
  have F: "unat ?F \<le> ?S" "k = A * ?S + unat ?F" using R'(7) by (auto simp: wheel_clock_def)
  define c :: nat where "c = (if ?S \<le> ?n mod ?S + unat ?F then 1 else 0)"
  have e: "(k + ?n) mod ?S = (?n mod ?S + unat ?F) mod ?S" "(k + ?n) div ?S = A + (?n div ?S + c)"
    using due_arith [OF S(1) F(1), of A ?n] unfolding F(2) c_def by auto
  let ?f = "ucast (interval AND tw_ring_mask g) + ucast ?F :: u16"
  note fast = fast_sum [OF R'(1) F(1), of interval] unat_mod_slots [OF R'(1)]
  have cs: "cell (pool_store q i x) ?t = x" for x using cell_store [OF i(2), of x] unfolding i(1) by simp
  have n0: "interval \<noteq> 0" using n by (auto simp: interval_ok_def)
  have ix: "ring_index tw 0 = Some ?F" using ring_index_eq [OF R'(2), of 0] S(3) by auto
  show ?thesis
  proof (cases "tw_timer_wheels g = 1")
    case True
    then have "tw_timer_start g memory tw pool_index timer_id interval =
        tw_timer_link tw (pool_store q i ((cell q ?t)\<lparr>tw_next := - 1, tw_prev := - 1, user_handle := h\<rparr>)) 0 ((?n mod ?S + unat ?F) mod ?S) ?t"
      using n n0 i cs q h ix fast by (simp add: tw_timer_start_def cells Let_def interval_ok_def)
    moreover have "timer_slot g A (k + ?n) = (0, (?n mod ?S + unat ?F) mod ?S)" using True e(1) by (simp add: timer_slot_def)
    ultimately show ?thesis using True
      by (intro exI [of _ "(cell q ?t)\<lparr>tw_next := - 1, tw_prev := - 1, user_handle := h\<rparr>"] exI [of _ 0]
        exI [of _ "(?n mod ?S + unat ?F) mod ?S"]) simp
  next
    case False
    then have W: "1 < tw_timer_wheels g" using S(3) by auto
    have carry: "(if ?S \<le> unat ?f then 1 else 0 :: u32) = word_of_nat c" using fast(1) by (simp add: c_def)
    have cl: "c \<le> 1" by (simp add: c_def)
    have tl: "?n div ?S + c < ?S" by (rule interval_turns [OF R'(1) n False cl])
    note sl = slow_sum [OF R'(1) tl cl]
    let ?sl = "ucast (drop_bit (tw_ring_shift g) interval + word_of_nat c :: u32) :: u16"
    let ?X = "(cell q ?t)\<lparr>tw_next := - 1, tw_prev := - 1, fast_ring_offset := - 1, user_handle := h\<rparr>"
    have fl: "unat (?f mod word_of_nat ?S) = (k + ?n) mod ?S" "unat (?f mod word_of_nat ?S) < ?S"
      unfolding fast e(1) using S(1) by simp_all
    have st: "tw_timer_start g memory tw pool_index timer_id interval =
        (if ?sl \<noteq> 0 then do {
           slow_index \<leftarrow> ring_index tw 1;
           tw_timer_link tw (pool_store q i (?X\<lparr>fast_ring_offset := ?f mod word_of_nat ?S\<rparr>)) 1
             (unat ((?sl + ucast slow_index) mod word_of_nat ?S)) ?t}
         else tw_timer_link tw (pool_store q i ?X) 0 (unat (?f mod word_of_nat ?S)) ?t)"
      using n0 i cs q h ix W carry tl sl fl(2) by (simp add: tw_timer_start_def cells Let_def)
    have late: "(k + ?n) div ?S < A + ?S" using e(2) tl by simp
    show ?thesis
    proof (cases "?n div ?S + c = 0")
      case True
      then have "?sl = 0" using sl unat_eq_zero [of ?sl] by simp
      then have "tw_timer_start g memory tw pool_index timer_id interval = tw_timer_link tw (pool_store q i ?X) 0 ((k + ?n) mod ?S) ?t"
        unfolding st fl by simp
      moreover have "timer_slot g A (k + ?n) = (0, (k + ?n) mod ?S)" using True e by (simp add: timer_slot_def)
      ultimately show ?thesis using late by (intro exI [of _ ?X] exI [of _ 0] exI [of _ "(k + ?n) mod ?S"]) simp
    next
      case slow: False
      let ?s = "current_index tw ! 1"
      have s: "ring_index tw 1 = Some ?s" "unat ?s = A mod ?S"
        using W ring_index_eq [OF R'(2), of 1] R'(7) by (auto simp: wheel_clock_def)
      have ss: "unat ((?sl + ucast ?s) mod word_of_nat ?S) = (k + ?n) div ?S mod ?S"
        using slow_slot [OF R'(1) _ s(2), of ?sl] sl tl unfolding e(2) by simp
      have nz: "?sl \<noteq> 0" using sl slow unat_eq_zero [of ?sl] by metis
      have "tw_timer_start g memory tw pool_index timer_id interval =
          tw_timer_link tw (pool_store q i (?X\<lparr>fast_ring_offset := ?f mod word_of_nat ?S\<rparr>)) 1 ((k + ?n) div ?S mod ?S) ?t"
        unfolding st using s(1) ss nz by simp
      moreover have "timer_slot g A (k + ?n) = (1, (k + ?n) div ?S mod ?S)"
        using False slow e(2) unfolding timer_slot_def by simp
      ultimately show ?thesis using late fl(1)
        by (intro exI [of _ "?X\<lparr>fast_ring_offset := ?f mod word_of_nat ?S\<rparr>"] exI [of _ 1] exI [of _ "(k + ?n) div ?S mod ?S"]) simp
    qed
  qed
qed

lemma start_ok:
  assumes R: "tw_rep_at g tw k T A L" and n: "interval_ok g (unat interval)"
    and h: "make_internal_timer_handle g pool_index timer_id = Some h"
    and room: "length (pool_vec (timers tw)) < 2 ^ 32 - 1"
  shows "\<exists>p' t L'. tw_timer_start g memory tw pool_index timer_id interval = Some (tw\<lparr>timers := p'\<rparr>, t)
    \<and> \<not> live_cell (timers tw) t \<and> tw_rep_at g (tw\<lparr>timers := p'\<rparr>) k (T(t \<mapsto> (k + unat interval, h))) A L'"
proof -
  obtain q i where q: "pool_get memory (timers tw) = (q, i)" by fastforce
  note f = fresh_timer [OF tw_rep_at_simps(3) [OF R] q room]
  let ?t = "word_of_nat i :: u32" and ?e = "k + unat interval"
  obtain x r s where x: "tw_timer_start g memory tw pool_index timer_id interval = tw_timer_link tw (pool_store q i x) r s ?t"
    "user_handle x = h" "timer_slot g A ?e = (r, s)" "r = 1 \<longrightarrow> unat (fast_ring_offset x) = ?e mod tw_slots_per_ring g"
    "tw_timer_wheels g \<noteq> 1 \<longrightarrow> ?e div tw_slots_per_ring g < A + tw_slots_per_ring g"
    using start_eval [OF R n h q f(1,3)] by blast
  let ?p = "pool_store q (unat ?t) x"
  have c: "cell ?p = (cell q)(?t := x)" by (rule cell_store [OF f(3)])
  have due: "timer_due g ?p k A ?t ?e h"
    using x(2-5) n by (auto simp: timer_due_def c interval_ok_def timer_slot_def split: if_splits)
  have keep: "cell ?p y = cell (timers tw) y" if "live_cell (timers tw) y" for y using f(4,6) c that by auto
  have p: "pool_ok ?p" "pool_live ?p = insert (unat ?t) (pool_live (timers tw))" using f by simp_all
  have "\<exists>p'. tw_timer_link tw ?p r s ?t = Some (tw\<lparr>timers := p'\<rparr>, ?t) \<and> length (pool_vec p') = length (pool_vec ?p)
      \<and> tw_rep_at g (tw\<lparr>timers := p'\<rparr>) k (T(?t \<mapsto> (?e, h))) A
           (L(wheel_slots tw ! r ! s := ?t # L (wheel_slots tw ! r ! s)))"
    by (rule link_ok [OF R f(4) p keep due x(3)])
  moreover have "tw_timer_start g memory tw pool_index timer_id interval = tw_timer_link tw ?p r s ?t"
    unfolding f(1) by (rule x(1))
  ultimately show ?thesis using f(4) by metis
qed

section \<open>Stopping a timer\<close>

text \<open>Timers \<open>D\<close>, all of the lists that \<open>L\<close> and \<open>L'\<close> differ in, leave the wheel.\<close>

lemma drop_timers:
  assumes R: "tw_rep_at g tw k T A L" and D: "D \<subseteq> dom T"
    and p: "pool_ok p" "pool_live p = pool_live (timers tw) - unat ` D"
      "\<And>x. user_handle (cell p x) = user_handle (cell (timers tw) x)"
      "\<And>x. fast_ring_offset (cell p x) = fast_ring_offset (cell (timers tw) x)"
    and L': "tw_rings p (heads g tw) L'" "\<And>h. h \<in> heads g tw \<Longrightarrow> set (L' h) = set (L h) - D"
  shows "tw_rep_at g (tw\<lparr>timers := p\<rparr>) k (T |` (- D)) A L'"
proof -
  note R' = tw_rep_at_simps [OF R]
  show ?thesis
    unfolding tw_rep_at_def heads_timers wheel_shape_timers wheel_clock_timers
  proof (intro conjI allI impI ballI)
    have "inj_on unat (heads g tw \<union> dom T)" by (simp add: inj_on_def word_unat_eq_iff)
    then have "unat ` (heads g tw \<union> dom T) - unat ` D = unat ` (heads g tw \<union> dom T - D)"
      using D inj_on_image_set_diff [of unat "heads g tw \<union> dom T" "heads g tw \<union> dom T" D] by auto
    moreover have "heads g tw \<union> dom T - D = heads g tw \<union> dom (T |` (- D))" using D R'(5) by auto
    ultimately show "pool_live (timers (tw\<lparr>timers := p\<rparr>)) = unat ` (heads g tw \<union> dom (T |` (- D)))"
      using p(2) R'(4) by simp
    show "timer_due g (timers (tw\<lparr>timers := p\<rparr>)) k A i e h" if "(T |` (- D)) i = Some (e, h)" for i e h
      using R'(9) [of i e h] timer_due_cong [OF p(3,4)] that by (simp add: restrict_map_def split: if_splits)
    show "set (L' (wheel_slots (tw\<lparr>timers := p\<rparr>) ! r ! s)) = {i. \<exists>e h. (T |` (- D)) i = Some (e, h) \<and> timer_slot g A e = (r, s)}"
      if b: "r < tw_timer_wheels g" "s < tw_slots_per_ring g" for r s
      using R'(10) [OF b] L'(2) [OF slot_head_eq [OF R'(2) b, THEN conjunct2]]
      by (auto simp: restrict_map_def split: if_splits)
  qed (use R' p L' in auto)
qed

lemma stop_ok:
  assumes R: "tw_rep_at g tw k T A L" and i: "T i = Some (e, h)" "h \<noteq> - 1"
  shows "\<exists>p' L'. tw_timer_stop tw i = Some (tw\<lparr>timers := p'\<rparr>) \<and> tw_rep_at g (tw\<lparr>timers := p'\<rparr>) k (T(i := None)) A L'
    \<and> length (pool_vec p') = length (pool_vec (timers tw))"
proof -
  note R' = tw_rep_at_simps [OF R]
  obtain r s where rs: "timer_slot g A e = (r, s)" by fastforce
  note b = timer_slot_range [OF R'(1) rs]
  let ?hd = "wheel_slots tw ! r ! s" and ?H = "heads g tw"
  have hd: "?hd \<in> ?H" using slot_head_eq [OF R'(2)] b by blast
  have iL: "i \<in> set (L ?hd)" using R'(10) [of r s] b i(1) rs by auto
  have u: "user_handle (cell (timers tw) i) \<noteq> - 1" using R'(9) [OF i(1)] i(2) by (simp add: timer_due_def)
  let ?L = "L(?hd := filter (\<lambda>x. x \<noteq> i) (L ?hd))"
  obtain q where q: "timer_remove (timers tw) i = Some q" "links_only (timers tw) q" "tw_rings q ?H ?L"
    using timer_remove_ok [OF R'(8) hd iL u] by blast
  note lo = q(2) [unfolded links_only_def]
  have lv: "live_cell (timers tw) i" using live_iff [OF R] i(1) by auto
  obtain p' where p': "pool_put_index q (unat i) = Some p'" "pool_ok p'" "pool_live p' = pool_live q - {unat i}"
    using pool_put_live [of q "unat i"] lo lv R'(3) by auto
  have v: "pool_vec p' = pool_vec q" by (rule pool_put_vec [OF p'(1)])
  then have cl: "cell p' = cell q" by (simp add: fun_eq_iff cell_def)
  have out: "i \<notin> set (h' # ?L h')" if "h' \<in> ?H" for h'
    using tw_rings_cells(4) [OF R'(8) hd that, of i] R'(5) i(1) that iL by (cases "h' = ?hd") auto
  have rp: "tw_rings p' ?H ?L"
  proof (rule tw_rings_mono [OF q(3)])
    fix h' x assume h': "h' \<in> ?H" "x \<in> set (h' # ?L h')"
    then have "x \<noteq> i" using out by blast
    then show "cell p' x = cell q x \<and> live_cell p' x"
      using tw_rings_cells(2) [OF q(3) h'] p'(3) cl by (simp add: word_unat_eq_iff)
  qed
  have "tw_rep_at g (tw\<lparr>timers := p'\<rparr>) k (T |` (- {i})) A ?L"
  proof (rule drop_timers [OF R _ p'(2) _ _ _ rp])
    show "set (?L h') = set (L h') - {i}" if "h' \<in> ?H" for h' using out [OF that] by auto
  qed (use i(1) lo p'(3) cl in auto)
  moreover have "T |` (- {i}) = T(i := None)" by (auto simp: fun_eq_iff restrict_map_def)
  moreover have "tw_timer_stop tw i = Some (tw\<lparr>timers := p'\<rparr>)" using lv u q(1) p'(1) by (simp add: tw_timer_stop_def elt_at_eq)
  ultimately show ?thesis using v lo by auto
qed

lemma stop_dead:
  assumes R: "tw_rep_at g tw k T A L" and "T i = None"
  shows "tw_timer_stop tw i = None"
  using live_iff [OF R, of i] tw_rep_at_simps(6) [OF R, of i] assms(2)
  by (auto simp: tw_timer_stop_def elt_at_eq split: if_splits)

section \<open>Turning the fast ring\<close>

lemma mod_window: "(a :: nat) \<le> d \<Longrightarrow> d < a + S \<Longrightarrow> d mod S = a mod S \<Longrightarrow> d = a"
proof -
  assume a: "a \<le> d" "d < a + S" "d mod S = a mod S"
  then have "S dvd d - a" by (metis mod_eq_dvd_iff_nat)
  moreover have "d - a < S" using a(1,2) by linarith
  ultimately have "d - a = 0" using nat_dvd_not_less [of "d - a" S] by blast
  then show ?thesis using a(1) by simp
qed

text \<open>At the end of a turn every timer is in the slow ring, in the slot of its turn.\<close>

lemma turn_slots:
  assumes R: "tw_rep_at g tw k T A L" and F: "unat (current_index tw ! 0) = tw_slots_per_ring g"
    and W: "1 < tw_timer_wheels g" and T: "T i = Some (e, h)"
  shows "timer_slot g A e = (1, e div tw_slots_per_ring g mod tw_slots_per_ring g)"
    and "timer_slot g (A + 1) e = (if e div tw_slots_per_ring g = A + 1 then (0, e mod tw_slots_per_ring g)
      else (1, e div tw_slots_per_ring g mod tw_slots_per_ring g))"
    and "e div tw_slots_per_ring g mod tw_slots_per_ring g = (A + 1) mod tw_slots_per_ring g \<longleftrightarrow> e div tw_slots_per_ring g = A + 1"
    and "unat (fast_ring_offset (cell (timers tw) i)) = e mod tw_slots_per_ring g"
    and "A + 1 \<le> e div tw_slots_per_ring g" and "e div tw_slots_per_ring g < A + tw_slots_per_ring g"
proof -
  note R' = tw_rep_at_simps [OF R]
  let ?S = "tw_slots_per_ring g" and ?d = "e div tw_slots_per_ring g"
  note due = R'(9) [OF T, unfolded timer_due_def]
  have k: "k = (A + 1) * ?S" using R'(7) F by (simp add: wheel_clock_def)
  have "(A + 1) * ?S \<le> e" using due k by simp
  then show d: "A + 1 \<le> ?d" using geometry_slots(1) [OF R'(1)] by (simp add: less_eq_div_iff_mult_less_eq)
  show d': "?d < A + ?S" using due W by simp
  show "timer_slot g A e = (1, ?d mod ?S)" "unat (fast_ring_offset (cell (timers tw) i)) = e mod ?S"
    "timer_slot g (A + 1) e = (if ?d = A + 1 then (0, e mod ?S) else (1, ?d mod ?S))"
    using d W due by (auto simp: timer_slot_def)
  show "?d mod ?S = (A + 1) mod ?S \<longleftrightarrow> ?d = A + 1" using mod_window [of "A + 1" ?d ?S] d d' by auto
qed

lemma rep_at_handles [simp]: "tw_rep_at g (tw\<lparr>expired_timer_handles := hs\<rparr>) k T A L = tw_rep_at g tw k T A L"
  by (simp add: tw_rep_at_def wheel_shape_def heads_def wheel_clock_def)

lemma slot_head_index [simp]: "slot_head (tw\<lparr>current_index := c\<rparr>) = slot_head tw"
  by (simp add: fun_eq_iff slot_head_def)

lemma dealt_rep:
  assumes R: "tw_rep_at g tw k T A L" and F: "unat (current_index tw ! 0) = tw_slots_per_ring g"
    and W: "1 < tw_timer_wheels g" and us: "unat s = (A + 1) mod tw_slots_per_ring g"
    and p: "links_only (timers tw) p" "tw_rings p (heads g tw) L'"
  defines "q \<equiv> wheel_slots tw ! 1 ! unat s"
  assumes L': "\<And>h. h \<in> heads g tw \<Longrightarrow> set (L' h) = set ((L(q := [])) h)
    \<union> {x \<in> set (L q). wheel_slots tw ! 0 ! unat (fast_ring_offset (cell (timers tw) x)) = h}"
  shows "tw_rep_at g (tw\<lparr>current_index := [0, s], timers := p\<rparr>) k T (A + 1) L'"
proof -
  note R' = tw_rep_at_simps [OF R]
  note lo = p(1) [unfolded links_only_def]
  let ?S = "tw_slots_per_ring g"
  have W2: "tw_timer_wheels g = 2" using W geometry_slots(3) [OF R'(1)] by auto
  have sS: "unat s < ?S" unfolding us using geometry_slots(1) [OF R'(1)] by simp
  note ts = turn_slots [OF R F W]
  have Lhd: "set (L q) = {i. \<exists>e h. T i = Some (e, h) \<and> e div ?S = A + 1}"
    unfolding q_def R'(10) [OF W sS] using ts(1,3) us by auto
  have H: "heads g (tw\<lparr>current_index := [0, s], timers := p\<rparr>) = heads g tw" by (simp add: heads_def)
  show ?thesis
    unfolding tw_rep_at_def H
  proof (intro conjI allI impI ballI)
    show "wheel_shape g (tw\<lparr>current_index := [0, s], timers := p\<rparr>)" using R'(2) W2 by (simp add: wheel_shape_def)
    show "wheel_clock g (tw\<lparr>current_index := [0, s], timers := p\<rparr>) k (A + 1)" using R'(7) F us by (simp add: wheel_clock_def)
    show "timer_due g (timers (tw\<lparr>current_index := [0, s], timers := p\<rparr>)) k (A + 1) i e h" if "T i = Some (e, h)" for i e h
      using R'(9) [OF that] ts(4,5,6) [OF that] lo W2 by (simp add: timer_due_def)
    fix r z assume b: "r < tw_timer_wheels g" "z < ?S"
    let ?h = "wheel_slots tw ! r ! z"
    have hH: "?h \<in> heads g tw" using slot_head_eq [OF R'(2) b] by simp
    have eq: "?h = q \<longleftrightarrow> r = 1 \<and> z = unat s" unfolding q_def by (rule slot_inj [OF R'(2) b W sS])
    have f: "wheel_slots tw ! 0 ! unat (fast_ring_offset (cell (timers tw) i)) = ?h \<longleftrightarrow> r = 0 \<and> e mod ?S = z"
      if "T i = Some (e, h)" for i e h
      unfolding ts(4) [OF that] using slot_inj [OF R'(2) _ _ b, of 0 "e mod ?S"] W2 geometry_slots(1) [OF R'(1)] by auto
    have "i \<in> set (L' ?h) \<longleftrightarrow> (\<exists>e h. T i = Some (e, h) \<and> timer_slot g (A + 1) e = (r, z))" for i
    proof (cases "T i")
      case None
      then show ?thesis unfolding L' [OF hH] using Lhd R'(10) [OF b] by auto
    next
      case (Some eh)
      then obtain e h where T: "T i = Some (e, h)" by (cases eh) auto
      have "i \<in> set (L ?h) \<longleftrightarrow> r = 1 \<and> e div ?S mod ?S = z" using R'(10) [OF b] T ts(1) [OF T] by auto
      moreover have "i \<in> set (L q) \<longleftrightarrow> e div ?S = A + 1" using Lhd T by simp
      ultimately show ?thesis unfolding L' [OF hH] using f [OF T] eq ts(2,3) [OF T] us T b W2 by auto
    qed
    then show "set (L' (wheel_slots (tw\<lparr>current_index := [0, s], timers := p\<rparr>) ! r ! z))
        = {i. \<exists>e h. T i = Some (e, h) \<and> timer_slot g (A + 1) e = (r, z)}" by auto
  qed (use R' lo p in auto)
qed

lemma process_slow_slot_ok:
  assumes R: "tw_rep_at g tw k T A L" and F: "unat (current_index tw ! 0) = tw_slots_per_ring g"
    and W: "1 < tw_timer_wheels g"
  defines "tw0 \<equiv> tw\<lparr>current_index := (current_index tw)[0 := 0]\<rparr>"
  shows "\<exists>p L' s. process_slow_slot g tw0 = Some (tw\<lparr>current_index := [0, s], timers := p\<rparr>)
    \<and> tw_rep_at g (tw\<lparr>current_index := [0, s], timers := p\<rparr>) k T (A + 1) L' \<and> length (pool_vec p) = length (pool_vec (timers tw))"
proof -
  note R' = tw_rep_at_simps [OF R]
  note S = geometry_slots [OF R'(1)]
  let ?S = "tw_slots_per_ring g" and ?H = "heads g tw"
  define s where "s = (current_index tw ! 1 + 1) mod (word_of_nat ?S :: u32)"
  have W2: "tw_timer_wheels g = 2" using W S(3) by auto
  then obtain f0 s0 where ci: "current_index tw = [f0, s0]" using R'(2)
    by (auto simp: wheel_shape_def length_Suc_conv numeral_2_eq_2)
  have "unat s0 = A mod ?S" using R'(7) W by (simp add: wheel_clock_def ci)
  then have s0: "unat (s0 + 1) = A mod ?S + 1" using mod_less_divisor [OF S(1), of A] S(2)
    by (subst unat_add_lem [THEN iffD1]) auto
  have us: "unat s = (A + 1) mod ?S" unfolding s_def using S(1,2) s0 by (simp add: ci unat_mod unat_of_nat mod_simps)
  let ?hd = "wheel_slots tw ! 1 ! unat s"
  have sS: "unat s < ?S" using us S(1) by simp
  have hd: "slot_head tw 1 (unat s) = Some ?hd" "?hd \<in> ?H" using slot_head_eq [OF R'(2) W sS] by auto
  note c = tw_rings_cells [OF R'(8) hd(2)]
  let ?f = "\<lambda>x. wheel_slots tw ! 0 ! unat (fast_ring_offset (cell (timers tw) x))"
  obtain q where q: "empty_slot (timers tw) ?hd = Some (q, hd (L ?hd @ [?hd]))" "links_only (timers tw) q"
    "tw_rings q ?H (L(?hd := []))" "walk (\<lambda>i. tw_next (cell q i)) (L ?hd) ?hd"
    using empty_slot_ok [OF R'(8) hd(2)] by blast
  note lo = q(2) [unfolded links_only_def]
  let ?tw = "tw\<lparr>current_index := [0, s]\<rparr>"
  have "\<forall>x\<in>set (L ?hd). live_cell q x \<and> (\<forall>k\<in>?H. x \<notin> set (k # (L(?hd := [])) k)) \<and> unat (fast_ring_offset (cell q x)) < ?S
      \<and> slot_head ?tw 0 (unat (fast_ring_offset (cell q x))) = Some (?f x) \<and> ?f x \<in> ?H"
  proof
    fix x assume x: "x \<in> set (L ?hd)"
    then obtain e h where T: "T x = Some (e, h)" using R'(10) [OF W sS] by auto
    have o: "unat (fast_ring_offset (cell q x)) = e mod ?S" using turn_slots(4) [OF R F W T] lo by simp
    then have o': "unat (fast_ring_offset (cell q x)) < ?S" using S(1) by simp
    then have "slot_head ?tw 0 (unat (fast_ring_offset (cell q x))) = Some (?f x) \<and> ?f x \<in> ?H"
      using slot_head_eq [OF R'(2), of 0] W lo by auto
    moreover have "\<forall>k\<in>?H. x \<notin> set (k # (L(?hd := [])) k)"
    proof
      fix k assume "k \<in> ?H"
      then show "x \<notin> set (k # (L(?hd := [])) k)" using c(3) c(4) [of k x] x by (cases "k = ?hd") auto
    qed
    ultimately show "live_cell q x \<and> (\<forall>k\<in>?H. x \<notin> set (k # (L(?hd := [])) k)) \<and> unat (fast_ring_offset (cell q x)) < ?S
      \<and> slot_head ?tw 0 (unat (fast_ring_offset (cell q x))) = Some (?f x) \<and> ?f x \<in> ?H"
      using c(2) [of x] x lo o' by simp
  qed
  then obtain p L' where p: "deal_timers g ?tw ?hd q (hd (L ?hd @ [?hd])) = Some p" "links_only q p" "tw_rings p ?H L'"
    "\<And>k. k \<in> ?H \<Longrightarrow> set (L' k) = set ((L(?hd := [])) k) \<union> {x \<in> set (L ?hd). ?f x = k}"
    using deal_timers_ok [OF q(3,4), of g ?tw ?f] c(3) by auto
  have lp: "links_only (timers tw) p" by (rule links_only_trans [OF q(2) p(2)])
  have "process_slow_slot g tw0 = Some (tw\<lparr>current_index := [0, s], timers := p\<rparr>)"
    using hd(1) q(1) p(1) by (simp add: process_slow_slot_def tw0_def ring_index_def ci s_def Let_def)
  moreover have "tw_rep_at g (tw\<lparr>current_index := [0, s], timers := p\<rparr>) k T (A + 1) L'"
    by (rule dealt_rep [OF R F W us lp p(3,4)])
  ultimately show ?thesis using lp by (auto simp: links_only_def)
qed

text \<open>A change of the clock that leaves every timer in its slot.\<close>

lemma rep_at_clock:
  assumes R: "tw_rep_at g tw k T A L" and "timers tw' = timers tw" "wheel_slots tw' = wheel_slots tw"
    "length (current_index tw') = length (current_index tw)" "wheel_clock g tw' k' A'"
    and "\<And>i e h. T i = Some (e, h) \<Longrightarrow> timer_due g (timers tw) k' A' i e h \<and> timer_slot g A' e = timer_slot g A e"
  shows "tw_rep_at g tw' k' T A' L"
proof -
  note R' = tw_rep_at_simps [OF R]
  have H: "heads g tw' = heads g tw" by (simp add: heads_def assms(3))
  have "wheel_shape g tw'" using R'(2) assms(3,4) by (simp add: wheel_shape_def)
  moreover have "set (L (wheel_slots tw' ! r ! s)) = {i. \<exists>e h. T i = Some (e, h) \<and> timer_slot g A' e = (r, s)}"
    if "r < tw_timer_wheels g" "s < tw_slots_per_ring g" for r s
    using R'(10) [OF that] assms(6) unfolding assms(3) by fastforce
  ultimately show ?thesis unfolding tw_rep_at_def H assms(2) using R' assms(5,6) by simp
qed

lemma turn_fast_ring_ok:
  assumes R: "tw_rep_at g tw k T A L"
  shows "\<exists>c p A' L'. turn_fast_ring g tw = Some (tw\<lparr>current_index := c, timers := p\<rparr>, c ! 0)
    \<and> tw_rep_at g (tw\<lparr>current_index := c, timers := p\<rparr>) k T A' L' \<and> unat (c ! 0) < tw_slots_per_ring g
    \<and> length (pool_vec p) = length (pool_vec (timers tw))"
proof -
  note R' = tw_rep_at_simps [OF R]
  note S = geometry_slots [OF R'(1)]
  let ?S = "tw_slots_per_ring g"
  have ix: "ring_index tw 0 = Some (current_index tw ! 0)" using ring_index_eq [OF R'(2), of 0] S(3) by auto
  show ?thesis
  proof (cases "unat (current_index tw ! 0) = ?S")
    case False
    have tw: "tw\<lparr>current_index := current_index tw, timers := timers tw\<rparr> = tw" by simp
    have "unat (current_index tw ! 0) < ?S" using False R'(7) by (simp add: wheel_clock_def)
    moreover have "turn_fast_ring g tw = Some (tw, current_index tw ! 0)" using False ix by (simp add: turn_fast_ring_def)
    ultimately show ?thesis using R tw by metis
  next
    case F: True
    let ?tw = "tw\<lparr>current_index := (current_index tw)[0 := 0]\<rparr>"
    show ?thesis
    proof (cases "1 < tw_timer_wheels g")
      case True
      then obtain p L' s where "process_slow_slot g ?tw = Some (tw\<lparr>current_index := [0, s], timers := p\<rparr>)"
        "tw_rep_at g (tw\<lparr>current_index := [0, s], timers := p\<rparr>) k T (A + 1) L'" "length (pool_vec p) = length (pool_vec (timers tw))"
        using process_slow_slot_ok [OF R F] by blast
      then show ?thesis using F ix True S(1) by (intro exI [of _ "[0, s]"] exI [of _ p]) (auto simp: turn_fast_ring_def)
    next
      case False
      then have W: "tw_timer_wheels g = 1" using S(3) by auto
      then obtain f0 where ci: "current_index tw = [f0]" using R'(2) by (auto simp: wheel_shape_def length_Suc_conv)
      have tw: "?tw = tw\<lparr>current_index := [0], timers := timers tw\<rparr>" by (simp add: ci)
      have "tw_rep_at g ?tw k T (A + 1) L"
      proof (rule rep_at_clock [OF R])
        show "timer_due g (timers tw) k (A + 1) i e h \<and> timer_slot g (A + 1) e = timer_slot g A e" if "T i = Some (e, h)" for i e h
          using R'(9) [OF that] W by (simp add: timer_due_def timer_slot_def)
      qed (use R'(7) F W in \<open>simp_all add: ci wheel_clock_def\<close>)
      moreover have "turn_fast_ring g tw = Some (?tw, 0)" using F ix W by (simp add: turn_fast_ring_def)
      ultimately show ?thesis using S(1) unfolding tw by (intro exI [of _ "[0]"] exI [of _ "timers tw"]) auto
    qed
  qed
qed

section \<open>Expiring a slot\<close>

definition timers_due :: "timer_map \<Rightarrow> nat \<Rightarrow> u32 set" where
  "timers_due T k = {i. \<exists>h. T i = Some (k, h)}"

definition handle_of :: "timer_map \<Rightarrow> u32 \<Rightarrow> u32" where
  "handle_of T i = snd (the (T i))"

text \<open>The slot under the fast index holds the timers that are due, and no others.\<close>

lemma due_slot:
  assumes R: "tw_rep_at g tw k T A L" and F: "unat (current_index tw ! 0) < tw_slots_per_ring g"
  shows "set (L (wheel_slots tw ! 0 ! unat (current_index tw ! 0))) = timers_due T k"
proof -
  note R' = tw_rep_at_simps [OF R]
  note S = geometry_slots [OF R'(1)]
  let ?S = "tw_slots_per_ring g" and ?F = "unat (current_index tw ! 0)"
  have k: "k = A * ?S + ?F" using R'(7) by (simp add: wheel_clock_def)
  have kd: "k div ?S = A" "k mod ?S = ?F" unfolding k using F by simp_all
  have "timer_slot g A e = (0, ?F) \<longleftrightarrow> e = k" if "T i = Some (e, h)" for i e h
  proof
    assume s: "timer_slot g A e = (0, ?F)"
    show "e = k"
    proof (cases "tw_timer_wheels g = 1")
      case True
      then show ?thesis using s R'(9) [OF that] mod_window [of k e ?S] kd by (simp add: timer_slot_def timer_due_def)
    next
      case False
      then have "e div ?S = A" "e mod ?S = ?F" using s by (auto simp: timer_slot_def split: if_splits)
      then show ?thesis using k div_mult_mod_eq [of e ?S] by simp
    qed
  qed (simp add: timer_slot_def kd)
  then show ?thesis using R'(10) [of 0 ?F] S F by (auto simp: timers_due_def)
qed

lemma expire_fast_slot_ok:
  assumes R: "tw_rep_at g tw k T A L" and F: "unat (current_index tw ! 0) < tw_slots_per_ring g"
  shows "\<exists>p xs L'. expire_fast_slot tw (current_index tw ! 0) =
      Some (tw\<lparr>timers := p, expired_timer_handles := map (handle_of T) xs\<rparr>)
    \<and> distinct xs \<and> set xs = timers_due T k \<and> length (pool_vec p) = length (pool_vec (timers tw))
    \<and> tw_rep_at g (tw\<lparr>timers := p, expired_timer_handles := map (handle_of T) xs\<rparr>) k (T |` (- timers_due T k)) A L'"
proof -
  note R' = tw_rep_at_simps [OF R]
  note S = geometry_slots [OF R'(1)]
  let ?hd = "wheel_slots tw ! 0 ! unat (current_index tw ! 0)" and ?H = "heads g tw"
  have hd: "slot_head tw 0 (unat (current_index tw ! 0)) = Some ?hd" "?hd \<in> ?H"
    using slot_head_eq [OF R'(2) _ F, of 0] S(3) by auto
  note c = tw_rings_cells [OF R'(8) hd(2)] and due = due_slot [OF R F]
  obtain q where q: "empty_slot (timers tw) ?hd = Some (q, hd (L ?hd @ [?hd]))" "links_only (timers tw) q"
    "tw_rings q ?H (L(?hd := []))" "walk (\<lambda>i. tw_next (cell q i)) (L ?hd) ?hd"
    using empty_slot_ok [OF R'(8) hd(2)] by blast
  note lo = q(2) [unfolded links_only_def]
  have "timer_walk q (L ?hd) ?hd" using q(4) c(2,3) lo R'(3) by (simp add: timer_walk_def)
  then obtain p where p: "expire_timers ?hd q [] (hd (L ?hd @ [?hd])) = Some (p, map (\<lambda>i. user_handle (cell q i)) (L ?hd))"
    "pool_ok p" "pool_live p = pool_live q - unat ` set (L ?hd)" "pool_vec p = pool_vec q"
    using expire_timers_ok [of q "L ?hd" ?hd "[]"] by auto
  have cl: "cell p = cell q" by (simp add: fun_eq_iff cell_def p(4))
  have hs: "map (\<lambda>i. user_handle (cell q i)) (L ?hd) = map (handle_of T) (L ?hd)"
  proof (rule map_cong [OF refl])
    fix i assume "i \<in> set (L ?hd)"
    then obtain h where "T i = Some (k, h)" using due by (auto simp: timers_due_def)
    then show "user_handle (cell q i) = handle_of T i" using R'(9) lo by (simp add: timer_due_def handle_of_def)
  qed
  have out: "x \<notin> set (L ?hd)" if "h' \<in> ?H" "x \<in> set (h' # (L(?hd := [])) h')" for x h'
    using c(3) c(4) [OF that(1), of x] that by (cases "h' = ?hd") auto
  have rp: "tw_rings p ?H (L(?hd := []))"
  proof (rule tw_rings_mono [OF q(3)])
    fix h' x assume h': "h' \<in> ?H" "x \<in> set (h' # (L(?hd := [])) h')"
    show "cell p x = cell q x \<and> live_cell p x"
      using tw_rings_cells(2) [OF q(3) h'] out [OF h'] p(3) cl by (auto simp: word_unat_eq_iff [symmetric])
  qed
  have "tw_rep_at g (tw\<lparr>timers := p\<rparr>) k (T |` (- timers_due T k)) A (L(?hd := []))"
  proof (rule drop_timers [OF R _ p(2) _ _ _ rp])
    show "set ((L(?hd := [])) h') = set (L h') - timers_due T k" if "h' \<in> ?H" for h'
      using out [OF that] due by auto
    show "pool_live p = pool_live (timers tw) - unat ` timers_due T k" using p(3) due lo by simp
  qed (use lo cl in \<open>auto simp: timers_due_def\<close>)
  then have "tw_rep_at g (tw\<lparr>timers := p, expired_timer_handles := map (handle_of T) (L ?hd)\<rparr>) k (T |` (- timers_due T k)) A (L(?hd := []))"
    by simp
  moreover have "expire_fast_slot tw (current_index tw ! 0) = Some (tw\<lparr>timers := p, expired_timer_handles := map (handle_of T) (L ?hd)\<rparr>)"
    using hd(1) q(1) p(1) hs by (simp add: expire_fast_slot_def)
  moreover have "distinct (L ?hd)" using c(3) by simp
  ultimately show ?thesis using due p(4) lo
    by (intro exI [of _ p] exI [of _ "L ?hd"] exI [of _ "L(?hd := [])"]) simp
qed

text \<open>The end of a tick.\<close>

lemma finish_tick:
  assumes R: "tw_rep_at g tw k T A L" and F: "unat (current_index tw ! 0) < tw_slots_per_ring g"
    and late: "\<And>i e h. T i = Some (e, h) \<Longrightarrow> k < e"
  shows "tw_rep_at g (tw\<lparr>current_index := (current_index tw)[0 := current_index tw ! 0 + 1],
    current_tick := current_tick tw + 1\<rparr>) (k + 1) T A L"
proof -
  note R' = tw_rep_at_simps [OF R]
  note S = geometry_slots [OF R'(1)]
  let ?F = "current_index tw ! 0"
  have F1: "unat (?F + 1) = unat ?F + 1" using F S(2) by (subst unat_add_lem [THEN iffD1]) auto
  have "length (current_index tw) = tw_timer_wheels g" using R'(2) by (simp add: wheel_shape_def)
  then have l: "0 < length (current_index tw)" using S(3) by auto
  show ?thesis
  proof (rule rep_at_clock [OF R])
    show "timer_due g (timers tw) (k + 1) A i e h \<and> timer_slot g A e = timer_slot g A e" if "T i = Some (e, h)" for i e h
      using R'(9) [OF that] late [OF that] by (auto simp: timer_due_def)
  qed (use R'(7) F F1 l in \<open>simp_all add: wheel_clock_def\<close>)
qed

section \<open>A tick\<close>

definition timers_later :: "timer_map \<Rightarrow> nat \<Rightarrow> bool" where
  "timers_later T k = (\<forall>i e h. T i = Some (e, h) \<longrightarrow> k < e)"

text \<open>
  What a wheel asks of the callback: it returns, and what it does to the wheel are starts and stops
  of timers, which take the map \<open>T\<close> to a map \<open>T'\<close> with \<open>Q T T'\<close>.
\<close>

definition callback_ok :: "tw_geometry \<Rightarrow> (timer_map \<Rightarrow> timer_map \<Rightarrow> bool) \<Rightarrow> 's timer_callback \<Rightarrow> bool" where
  "callback_ok g Q cb = (\<forall>handles tw st k T. tw_rep g tw k T \<and> timers_later T k \<longrightarrow>
     (\<exists>tw' st' T'. cb handles tw st = Some (tw', st') \<and> current_index tw' = current_index tw
        \<and> tw_rep g tw' k T' \<and> timers_later T' k \<and> Q T T'))"

text \<open>The list \<open>xs\<close> of the timers due at tick \<open>k\<close>, each once, and their handles.\<close>

definition due_list :: "timer_map \<Rightarrow> nat \<Rightarrow> u32 list \<Rightarrow> bool" where
  "due_list T k handles = (\<exists>xs. distinct xs \<and> set xs = timers_due T k \<and> handles = map (handle_of T) xs)"

lemma due_later:
  assumes "tw_rep_at g tw k T A L"
  shows "timers_later (T |` (- timers_due T k)) k"
  using tw_rep_at_simps(9) [OF assms]
  by (fastforce simp: timers_later_def timers_due_def restrict_map_def timer_due_def split: if_splits)

lemma tick_ok:
  assumes R: "tw_rep g tw k T" and cb: "callback_ok g Q cb" and Q: "\<And>T. Q T T"
  shows "\<exists>tw' st' handles T'. tw_timer_tick g cb tw st = Some (tw', st', handles) \<and> due_list T k handles
    \<and> Q (T |` (- timers_due T k)) T' \<and> tw_rep g tw' (k + 1) T'"
proof -
  obtain A0 L0 where R0: "tw_rep_at g tw k T A0 L0" using R by (auto simp: tw_rep_def)
  obtain c p A1 L1 where 1: "turn_fast_ring g tw = Some (tw\<lparr>current_index := c, timers := p\<rparr>, c ! 0)"
    "tw_rep_at g (tw\<lparr>current_index := c, timers := p\<rparr>) k T A1 L1" "unat (c ! 0) < tw_slots_per_ring g"
    using turn_fast_ring_ok [OF R0] by blast
  let ?tw1 = "tw\<lparr>current_index := c, timers := p\<rparr>" and ?T = "T |` (- timers_due T k)"
  obtain q xs L2 where 2: "expire_fast_slot ?tw1 (c ! 0) =
      Some (?tw1\<lparr>timers := q, expired_timer_handles := map (handle_of T) xs\<rparr>)" "distinct xs" "set xs = timers_due T k"
    "tw_rep_at g (?tw1\<lparr>timers := q, expired_timer_handles := map (handle_of T) xs\<rparr>) k ?T A1 L2"
    using expire_fast_slot_ok [OF 1(2)] 1(3) by auto
  define tw2 where "tw2 = ?tw1\<lparr>timers := q, expired_timer_handles := map (handle_of T) xs\<rparr>"
  let ?hs = "map (handle_of T) xs"
  have R2: "tw_rep g tw2 k ?T" "timers_later ?T k" "current_index tw2 = c"
    using 2(4) due_later [OF R0] by (auto simp: tw_rep_def tw2_def)
  obtain tw3 st3 T3 where 3: "(if ?hs \<noteq> [] then cb ?hs tw2 st else Some (tw2, st)) = Some (tw3, st3)"
    "current_index tw3 = c" "tw_rep g tw3 k T3" "timers_later T3 k" "Q ?T T3"
  proof (cases "?hs = []")
    case False
    then show ?thesis using cb R2 that unfolding callback_ok_def by (metis (no_types, lifting))
  next
    case True
    then show ?thesis using that [of tw2 st ?T] R2 Q by simp
  qed
  let ?tw = "tw3\<lparr>current_index := (current_index tw3)[0 := current_index tw3 ! 0 + 1], current_tick := current_tick tw3 + 1\<rparr>"
  obtain A3 L3 where R3: "tw_rep_at g tw3 k T3 A3 L3" using 3(3) by (auto simp: tw_rep_def)
  have "ring_index tw3 0 = Some (c ! 0)"
    using ring_index_eq [OF tw_rep_at_simps(2) [OF R3], of 0] geometry_slots(3) [OF tw_rep_at_simps(1) [OF R3]] 3(2) by auto
  moreover have "expire_fast_slot ?tw1 (c ! 0) = Some tw2" "expired_timer_handles tw2 = ?hs"
    using 2(1) by (simp_all add: tw2_def)
  ultimately have "tw_timer_tick g cb tw st = Some (?tw, st3, ?hs)"
    by (simp only: tw_timer_tick_def 1(1) Option.bind.bind_lunit prod.case Let_def 3(1,2))
  moreover have "tw_rep g ?tw (k + 1) T3"
    using finish_tick [OF R3] 1(3) 3(2,4) unfolding tw_rep_def timers_later_def by blast
  moreover have "due_list T k ?hs" using 2(2,3) by (auto simp: due_list_def)
  ultimately show ?thesis using 3(5) by blast
qed

section \<open>The abstract wheel as a state machine\<close>

text \<open>
  A run of the abstract wheel: at every tick the timers that are due leave the map, the callback is
  called with their handles when there are any, and it takes the map on by \<open>Q\<close>.
\<close>

inductive timer_run ::
    "(timer_map \<Rightarrow> timer_map \<Rightarrow> bool) \<Rightarrow> nat \<Rightarrow> timer_map \<Rightarrow> (nat \<times> u32 list) list \<Rightarrow> nat \<Rightarrow> timer_map \<Rightarrow> bool"
  for Q k T where
  start: "timer_run Q k T [] k T"
| tick: "timer_run Q k T calls j U \<Longrightarrow> due_list U j handles \<Longrightarrow> Q (U |` (- timers_due U j)) U' \<Longrightarrow>
    timer_run Q k T (if handles = [] then calls else calls @ [(j, handles)]) (j + 1) U'"

lemma due_list_handle: "due_list T k handles \<Longrightarrow> T i = Some (k, h) \<Longrightarrow> h \<in> set handles"
  by (force simp: due_list_def timers_due_def handle_of_def)

lemma timer_run_ticks: "timer_run Q k T calls j U \<Longrightarrow> k \<le> j \<and> (\<forall>(t, hs)\<in>set calls. k \<le> t \<and> t < j \<and> hs \<noteq> [])"
  by (induction rule: timer_run.induct) auto

text \<open>When callbacks stop no timers, a timer is reported at its tick and pending until then.\<close>

lemma timer_run_fires:
  assumes "timer_run (\<subseteq>\<^sub>m) k T calls j U" and "T i = Some (e, h)" and "k \<le> e"
  shows "(e < j \<longrightarrow> (\<exists>hs. (e, hs) \<in> set calls \<and> h \<in> set hs)) \<and> (j \<le> e \<longrightarrow> U i = Some (e, h))"
  using assms(1)
proof (induction rule: timer_run.induct)
  case start
  then show ?case using assms(2,3) by simp
next
  case (tick calls j U handles U')
  consider "e < j" | "e = j" | "j < e" by linarith
  then show ?case
  proof cases
    case 1
    then show ?thesis using tick.IH by auto
  next
    case 2
    then have "h \<in> set handles" using tick.IH due_list_handle [OF tick.hyps(2)] by auto
    then show ?thesis using 2 by (auto split: if_splits)
  next
    case 3
    then have "(U |` (- timers_due U j)) i = Some (e, h)" using tick.IH by (auto simp: timers_due_def)
    then have "U' i = Some (e, h)" using tick.hyps(3) unfolding map_le_def by (metis domI)
    then show ?thesis using 3 by simp
  qed
qed

text \<open>When callbacks leave the wheel alone, the calls are exactly the timers, tick by tick.\<close>

lemma due_list_empty: "due_list T k handles \<Longrightarrow> handles = [] \<longleftrightarrow> timers_due T k = {}"
  by (auto simp: due_list_def)

lemma timer_run_exact:
  assumes "timer_run (=) k T calls j U" and "\<And>i e h. T i = Some (e, h) \<Longrightarrow> k \<le> e"
  shows "map fst calls = filter (\<lambda>t. timers_due T t \<noteq> {}) [k..<j] \<and> (\<forall>(t, hs)\<in>set calls. due_list T t hs)
    \<and> U = T |` {i. \<forall>e h. T i = Some (e, h) \<longrightarrow> j \<le> e}"
  using assms(1)
proof (induction rule: timer_run.induct)
  case start
  have "T |` {i. \<forall>e h. T i = Some (e, h) \<longrightarrow> k \<le> e} = T" using assms(2) by (auto simp: fun_eq_iff restrict_map_def)
  then show ?case by simp
next
  case (tick calls j U handles U')
  have kj: "k \<le> j" using timer_run_ticks [OF tick.hyps(1)] by simp
  have U: "U i = (if \<forall>e h. T i = Some (e, h) \<longrightarrow> j \<le> e then T i else None)" for i
    using tick.IH by (auto simp: restrict_map_def)
  have due: "timers_due U j = timers_due T j" by (auto simp: timers_due_def U)
  have "handle_of U i = handle_of T i" if "i \<in> timers_due T j" for i
    using that by (auto simp: timers_due_def handle_of_def U)
  then have hs: "due_list T j handles"
    using tick.hyps(2) unfolding due_list_def due by (metis (no_types, lifting) map_cong)
  have "U' = T |` {i. \<forall>e h. T i = Some (e, h) \<longrightarrow> j + 1 \<le> e}"
  proof
    fix i
    have "U' i = (if i \<in> timers_due T j then None else U i)" using tick.hyps(3) by (auto simp: due restrict_map_def)
    then show "U' i = (T |` {i. \<forall>e h. T i = Some (e, h) \<longrightarrow> j + 1 \<le> e}) i"
      by (cases "T i") (auto simp: U restrict_map_def timers_due_def)
  qed
  then show ?case using tick.IH hs due_list_empty [OF hs] kj by auto
qed

end
