(* ===== verification/Tw_Service.thy ===== *)
theory Tw_Service
  imports Tw_Wheel
begin

text \<open>
  The timer wheels as a service: the loop over the ticks, initialisation and release, the handles, the
  contract of a timer service as the locale \<open>timer_service\<close> and its interpretation on the wheels, and
  the properties of \<^verbatim>\<open>vppinfra/tw_timer_template.c\<close> that follow.
\<close>

section \<open>The loop over the ticks\<close>

abbreviation calls_of :: "(nat \<times> u32 list) list \<Rightarrow> timer_calls" where
  "calls_of \<equiv> map (\<lambda>(t, hs). (word_of_nat t, hs))"

definition ticks_done :: "tw_geometry \<Rightarrow> (timer_map \<Rightarrow> timer_map \<Rightarrow> bool) \<Rightarrow> nat \<Rightarrow> timer_map
    \<Rightarrow> nat \<Rightarrow> tw_timer_wheel \<times> 's \<times> u32 \<times> nat \<times> timer_calls \<Rightarrow> (nat \<times> u32 list) list \<Rightarrow> timer_map \<Rightarrow> bool" where
  "ticks_done g Q k T m = (\<lambda>(tw, st, total, i, calls) cs U. calls = calls_of cs \<and> timer_run Q k T cs (k + m) U
     \<and> tw_rep g tw (k + m) U \<and> total = word_of_nat (sum_list (map (length \<circ> snd) cs)))"

lemma ticks_ok:
  fixes cb :: "'s timer_callback"
  assumes R: "tw_rep g tw k T" and cb: "callback_ok g Q cb" and Q: "\<And>T. Q T T"
  shows "\<exists>tw' st' total i calls stop m cs U. tw_timer_ticks g cb n tw st = Some ((tw', st', total, i, calls), stop)
    \<and> ticks_done g Q k T m (tw', st', total, i, calls) cs U \<and> m \<le> n
    \<and> (if stop then m = i + 1 \<and> max_expirations tw' \<le> total \<and> (\<forall>j<m. \<exists>s. tw_timer_ticks g cb j tw st = Some (s, False))
       else m = n \<and> i = n \<and> (0 < n \<longrightarrow> total < max_expirations tw'))"
proof -
  let ?body = "\<lambda>i (tw, st, total_nexpirations, _, calls). do {
      (tw', st, handles) \<leftarrow> tw_timer_tick g cb tw st;
      let total_nexpirations = total_nexpirations + word_of_nat (length handles);
      let stop = (max_expirations tw' \<le> total_nexpirations);
      Some ((tw', st, total_nexpirations, if stop then i else i + 1,
        if handles = [] then calls else calls @ [(current_tick tw, handles)]), stop)
    }"
  let ?init = "(tw, st, 0, 0, [])"
  let ?J = "\<lambda>m s. (\<exists>cs U. ticks_done g Q k T m s cs U) \<and> fst (snd (snd (snd s))) = m
    \<and> (0 < m \<longrightarrow> fst (snd (snd s)) < max_expirations (fst s))
    \<and> for_until 0 m ?body ?init = Some (s, False) \<and> (\<forall>j<m. \<exists>s. for_until 0 j ?body ?init = Some (s, False))"
  let ?E = "\<lambda>s. \<exists>m cs U. m \<le> n \<and> ticks_done g Q k T m s cs U \<and> m = fst (snd (snd (snd s))) + 1
    \<and> max_expirations (fst s) \<le> fst (snd (snd s)) \<and> (\<forall>j<m. \<exists>s. for_until 0 j ?body ?init = Some (s, False))"
  have "\<exists>s stop. for_until 0 n ?body (tw, st, 0, 0, []) = Some (s, stop) \<and> (if stop then ?E s else ?J n s)"
  proof (rule for_until_rule [where J = ?J and Q = ?E])
    show "?J 0 ?init" using R by (auto simp: ticks_done_def for_until.simps intro: timer_run.start)
    fix i and s :: "tw_timer_wheel \<times> 's \<times> u32 \<times> nat \<times> timer_calls" assume i: "0 \<le> i" "i < n" and J: "?J i s"
    obtain tw st total ii calls where s: "s = (tw, st, total, ii, calls)" by (cases s) auto
    obtain cs U where d: "calls = calls_of cs" "timer_run Q k T cs (k + i) U" "tw_rep g tw (k + i) U"
      "total = word_of_nat (sum_list (map (length \<circ> snd) cs))" using J by (auto simp: ticks_done_def s)
    obtain tw' st' handles U' where t: "tw_timer_tick g cb tw st = Some (tw', st', handles)" "due_list U (k + i) handles"
      "Q (U |` (- timers_due U (k + i))) U'" "tw_rep g tw' (k + i + 1) U'"
      using tick_ok [OF d(3) cb Q] by blast
    have ct: "current_tick tw = word_of_nat (k + i)" using d(3) by (auto simp: tw_rep_def tw_rep_at_def wheel_clock_def)
    let ?cs = "if handles = [] then cs else cs @ [(k + i, handles)]" and ?total = "total + word_of_nat (length handles)"
      and ?calls = "if handles = [] then calls else calls @ [(current_tick tw, handles)]"
    have r: "timer_run Q k T ?cs (k + Suc i) U'" using timer_run.tick [OF d(2) t(2,3)] by simp
    let ?stop = "max_expirations tw' \<le> ?total"
    let ?s = "(tw', st', ?total, if ?stop then i else i + 1, ?calls)"
    have td: "ticks_done g Q k T (Suc i) ?s ?cs U'"
      using r t(4) ct unfolding ticks_done_def by (simp add: d(1,4))
    have b: "?body i s = Some (?s, ?stop)" using t(1) by (simp add: s Let_def)
    have Ji: "for_until 0 i ?body ?init = Some (s, False)" "\<And>j. j < i \<Longrightarrow> \<exists>s. for_until 0 j ?body ?init = Some (s, False)"
      using J by blast+
    have pre: "\<forall>j<Suc i. \<exists>s. for_until 0 j ?body ?init = Some (s, False)"
    proof (intro allI impI)
      fix j assume "j < Suc i"
      then consider "j = i" | "j < i" by linarith
      then show "\<exists>s. for_until 0 j ?body ?init = Some (s, False)" using Ji by cases blast+
    qed
    have "if ?stop then ?E ?s else ?J (Suc i) ?s"
    proof (cases ?stop)
      case True
      then have "?E ?s" using td i(2) pre by (intro exI [of _ "Suc i"] exI [of _ ?cs] exI [of _ U']) simp
      then show ?thesis using True by simp
    next
      case False
      have stop: "(?stop) = False" using False by blast
      have f: "for_until 0 (Suc i) ?body ?init = Some (?s, False)"
        using for_until_snoc [OF Ji(1) le0 b [unfolded stop]] unfolding stop .
      have c: "fst (snd (snd (snd ?s))) = Suc i" and l: "0 < Suc i \<longrightarrow> fst (snd (snd ?s)) < max_expirations (fst ?s)"
        using False by (simp_all add: not_le)
      from td have d: "\<exists>cs U. ticks_done g Q k T (Suc i) ?s cs U" by blast
      have "?J (Suc i) ?s" by (intro conjI) (fact d c l f pre)+
      then show ?thesis using False by simp
    qed
    then show "\<exists>s' stop. ?body i s = Some (s', stop) \<and> (if stop then ?E s' else ?J (Suc i) s')" using b by blast
  qed simp
  then obtain s stop where s: "tw_timer_ticks g cb n tw st = Some (s, stop)" "if stop then ?E s else ?J n s"
    unfolding tw_timer_ticks_def by blast
  have fold: "for_until 0 j ?body ?init = tw_timer_ticks g cb j tw st" for j by (simp add: tw_timer_ticks_def)
  obtain tw' st' total i calls where t: "s = (tw', st', total, i, calls)" by (cases s) auto
  show ?thesis
  proof (cases stop)
    case True
    then have "?E s" using s(2) by simp
    then obtain m cs U where "m \<le> n" "ticks_done g Q k T m s cs U" "m = i + 1" "max_expirations tw' \<le> total"
      "\<forall>j<m. \<exists>s. tw_timer_ticks g cb j tw st = Some (s, False)" unfolding t fold by auto
    then show ?thesis using s(1) True unfolding t by (metis (full_types))
  next
    case False
    then have "?J n s" using s(2) by simp
    then obtain cs U where "ticks_done g Q k T n s cs U" "i = n" "0 < n \<longrightarrow> total < max_expirations tw'" unfolding t by auto
    then show ?thesis using s(1) False unfolding t by (metis (full_types) order_refl)
  qed
qed

section \<open>Initialising and freeing\<close>

abbreviation (input) head_timer :: "nat \<Rightarrow> tw_timer" where
  "head_timer i \<equiv> \<lparr>tw_next = word_of_nat i, tw_prev = word_of_nat i, fast_ring_offset = - 1, user_handle = - 1\<rparr>"

text \<open>The wheel when the first \<open>n\<close> slots are initialised: their heads are the elements \<open>0 .. n - 1\<close>.\<close>

definition init_state :: "tw_geometry \<Rightarrow> tw_timer_wheel \<Rightarrow> nat \<Rightarrow> tw_timer_wheel" where
  "init_state g tw n = tw\<lparr>timers := \<lparr>pool_vec = map head_timer [0..<n], free_bitmap = [], free_indices = []\<rparr>,
     wheel_slots := map (\<lambda>r. map (\<lambda>s. if r * tw_slots_per_ring g + s < n then word_of_nat (r * tw_slots_per_ring g + s) else 0)
       [0..<tw_slots_per_ring g]) [0..<tw_timer_wheels g]\<rparr>"

lemma slot_number:
  fixes S :: nat
  assumes "s < S" and "s' < S"
  shows "r * S + s = r' * S + s' \<longleftrightarrow> r = r' \<and> s = s'" and "r < r' \<Longrightarrow> r * S + s < r' * S" 
proof -
  have "(r * S + s) div S = r" "(r' * S + s') div S = r'" "(r * S + s) mod S = s" "(r' * S + s') mod S = s'"
    using assms by simp_all
  then show "r * S + s = r' * S + s' \<longleftrightarrow> r = r' \<and> s = s'" by metis
  assume "r < r'"
  then have "(r + 1) * S \<le> r' * S" by (intro mult_le_mono1) simp
  then show "r * S + s < r' * S" using assms(1) by simp
qed

lemma slot_count:
  assumes "geometry_ok g" and "r < tw_timer_wheels g" and "s < tw_slots_per_ring g"
  shows "r * tw_slots_per_ring g + s < tw_timer_wheels g * tw_slots_per_ring g"
    and "r * tw_slots_per_ring g + s < 2 ^ 16"
proof -
  show 1: "r * tw_slots_per_ring g + s < tw_timer_wheels g * tw_slots_per_ring g"
    by (rule slot_number(2) [OF assms(3,3,2)])
  have "tw_timer_wheels g * tw_slots_per_ring g \<le> 2 * 2 ^ 15"
    using geometry_slots(2,3) [OF assms(1)] by (intro mult_le_mono) auto
  then show "r * tw_slots_per_ring g + s < 2 ^ 16" using 1 by simp
qed

lemma init_slot_ok:
  assumes "geometry_ok g" and "r < tw_timer_wheels g" and "s < tw_slots_per_ring g"
  shows "init_slot memory r s (init_state g tw (r * tw_slots_per_ring g + s))
    = Some (init_state g tw (Suc (r * tw_slots_per_ring g + s)))"
proof -
  let ?S = "tw_slots_per_ring g"
  define n where "n = r * ?S + s"
  let ?p = "timers (init_state g tw n)" and ?t = "word_of_nat n :: u32"
  let ?q = "?p\<lparr>pool_vec := pool_vec ?p @ [memory r s]\<rparr>"
  have u: "unat ?t = n" using slot_count(2) [OF assms] by (simp add: unat_of_nat n_def [symmetric])
  have get: "pool_get (memory r s) ?p = (?q, n)" by (simp add: pool_get_def init_state_def)
  have lv: "live_cell ?q ?t" unfolding u by (simp add: pool_live_iff init_state_def)
  have "slot_head (init_state g tw n) r s \<noteq> None" using assms by (simp add: slot_head_def init_state_def)
  moreover have "pool_store ?q (unat ?t) (head_timer n) = timers (init_state g tw (Suc n))"
    unfolding u by (simp add: pool_store_def init_state_def list_update_append)
  moreover have "(wheel_slots (init_state g tw n))[r := (wheel_slots (init_state g tw n) ! r)[s := ?t]]
      = wheel_slots (init_state g tw (Suc n))"
  proof (rule nth_equalityI)
    fix r' assume "r' < length ((wheel_slots (init_state g tw n))[r := (wheel_slots (init_state g tw n) ! r)[s := ?t]])"
    then have r': "r' < tw_timer_wheels g" by (simp add: init_state_def)
    have "wheel_slots (init_state g tw (Suc n)) ! r' ! s' =
        (if r' = r \<and> s' = s then ?t else wheel_slots (init_state g tw n) ! r' ! s')" if "s' < ?S" for s'
      using slot_number(1) [OF that assms(3), of r' r] r' that by (auto simp: init_state_def less_Suc_eq n_def)
    then show "(wheel_slots (init_state g tw n))[r := (wheel_slots (init_state g tw n) ! r)[s := ?t]] ! r'
        = wheel_slots (init_state g tw (Suc n)) ! r'"
      using r' assms(2) by (intro nth_equalityI) (auto simp: init_state_def nth_list_update)
  qed (simp add: init_state_def)
  ultimately show ?thesis using lv unfolding n_def [symmetric]
    by (auto simp: init_slot_def get Let_def cells) (simp add: init_state_def)
qed

lemma init_loop:
  assumes "geometry_ok g"
  shows "for_range 0 (tw_timer_wheels g) (\<lambda>r. for_range 0 (tw_slots_per_ring g) (init_slot memory r)) (init_state g tw 0)
    = Some (init_state g tw (tw_timer_wheels g * tw_slots_per_ring g))"
proof -
  let ?S = "tw_slots_per_ring g"
  have inner: "for_range 0 ?S (init_slot memory r) (init_state g tw (r * ?S)) = Some (init_state g tw (Suc r * ?S))"
    if "r < tw_timer_wheels g" for r
    using for_range_rule [of 0 ?S "\<lambda>i s. s = init_state g tw (r * ?S + i)" "init_state g tw (r * ?S)" "init_slot memory r"]
      init_slot_ok [OF assms that] by (auto simp: add.commute)
  show ?thesis
    using for_range_rule [of 0 "tw_timer_wheels g" "\<lambda>r s. s = init_state g tw (r * ?S)" "init_state g tw 0"
        "\<lambda>r. for_range 0 ?S (init_slot memory r)"] inner by auto
qed

lemma init_rep:
  assumes "geometry_ok g" and "current_index tw = replicate (tw_timer_wheels g) 0" and "current_tick tw = 0"
  shows "tw_rep_at g (init_state g tw (tw_timer_wheels g * tw_slots_per_ring g)) 0 Map.empty 0 (\<lambda>_. [])"
proof -
  let ?S = "tw_slots_per_ring g" and ?W = "tw_timer_wheels g"
  let ?n = "?W * ?S"
  let ?tw = "init_state g tw ?n"
  note S = geometry_slots [OF assms(1)]
  have w: "wheel_slots ?tw ! r ! s = word_of_nat (r * ?S + s)" if "r < ?W" "s < ?S" for r s
    using slot_count(1) [OF assms(1) that] that by (simp add: init_state_def)
  have u: "unat (word_of_nat (r * ?S + s) :: u32) = r * ?S + s" if "r < ?W" "s < ?S" for r s
    using slot_count(2) [OF assms(1) that] unfolding unat_of_nat by simp
  have H: "heads g ?tw = {word_of_nat (r * ?S + s) | r s. r < ?W \<and> s < ?S}"
    unfolding heads_def using w by (intro Collect_cong) metis
  have live: "pool_live (timers ?tw) = {..<?n}" by (auto simp: pool_live_iff init_state_def)
  have "{..<?n} = unat ` heads g ?tw"
  proof (intro equalityI subsetI)
    fix i assume "i \<in> {..<?n}"
    then have d: "i div ?S < ?W" "i mod ?S < ?S" using S(1) by (simp_all add: div_less_iff_less_mult)
    let ?h = "word_of_nat (i div ?S * ?S + i mod ?S) :: u32"
    have "?h \<in> heads g ?tw" unfolding H using d by blast
    moreover have "i = unat ?h" using u [OF d] by simp
    ultimately show "i \<in> unat ` heads g ?tw" by (rule rev_image_eqI)
  next
    fix i assume "i \<in> unat ` heads g ?tw"
    then show "i \<in> {..<?n}" unfolding H using u slot_count(1) [OF assms(1)] by auto
  qed
  then have l: "pool_live (timers ?tw) = unat ` (heads g ?tw \<union> dom Map.empty)" using live by simp
  have cl: "cell (timers ?tw) h = \<lparr>tw_next = h, tw_prev = h, fast_ring_offset = - 1, user_handle = - 1\<rparr>" if "h \<in> heads g ?tw" for h
  proof -
    have "unat h < ?n" using that l live by auto
    then show ?thesis by (simp add: cell_def init_state_def)
  qed
  have shape: "wheel_shape g ?tw"
  proof -
    have "wheel_slots ?tw ! r ! s = wheel_slots ?tw ! r' ! s' \<longrightarrow> r = r' \<and> s = s'"
      if "r < ?W" "r' < ?W" "s < ?S" "s' < ?S" for r r' s s'
      unfolding w [OF that(1,3)] w [OF that(2,4)] using u [OF that(1,3)] u [OF that(2,4)] slot_number(1) [OF that(3,4)] by metis
    then show ?thesis using assms(2) by (simp add: wheel_shape_def init_state_def)
  qed
  have rings: "tw_rings (timers ?tw) (heads g ?tw) (\<lambda>_. [])"
    unfolding tw_rings_def timer_ring_def using cl l by auto
  have clock: "wheel_clock g ?tw 0 0" using assms(2,3) S(3) by (auto simp: wheel_clock_def init_state_def)
  have "pool_ok (timers ?tw)" by (simp add: pool_ok_def init_state_def)
  then show ?thesis using assms(1) shape l cl rings clock unfolding tw_rep_at_def by simp
qed

lemma init_ok:
  assumes "geometry_ok g" and "fst interval \<noteq> 0"
  shows "\<exists>tw. tw_timer_wheel_init g memory interval max_exp = Some tw \<and> tw_rep g tw 0 Map.empty
    \<and> max_expirations tw = max_exp \<and> timer_interval tw = interval \<and> ticks_per_second tw = sf64_inverse interval
    \<and> last_run_time tw = (0, 0) \<and> next_run_time tw = (0, 0)
    \<and> length (pool_vec (timers tw)) = tw_timer_wheels g * tw_slots_per_ring g"
proof -
  let ?tw = "(wheel_zero g)\<lparr>max_expirations := max_exp, timer_interval := interval, ticks_per_second := sf64_inverse interval\<rparr>"
  have "init_state g ?tw 0 = ?tw" by (simp add: init_state_def wheel_zero_def pool_null_def map_replicate_const)
  then have "tw_timer_wheel_init g memory interval max_exp = Some (init_state g ?tw (tw_timer_wheels g * tw_slots_per_ring g))"
    using init_loop [OF assms(1), of memory ?tw] assms(2) by (simp add: tw_timer_wheel_init_def)
  moreover have "tw_rep g (init_state g ?tw (tw_timer_wheels g * tw_slots_per_ring g)) 0 Map.empty"
    using init_rep [OF assms(1), of ?tw] unfolding tw_rep_def by (auto simp: wheel_zero_def)
  ultimately show ?thesis by (simp add: init_state_def wheel_zero_def)
qed

text \<open>The cells of the first \<open>n\<close> slots.\<close>

definition slot_cells :: "tw_geometry \<Rightarrow> tw_timer_wheel \<Rightarrow> (u32 \<Rightarrow> u32 list) \<Rightarrow> nat \<Rightarrow> u32 set" where
  "slot_cells g tw L n = {x. \<exists>r<tw_timer_wheels g. \<exists>s<tw_slots_per_ring g.
     r * tw_slots_per_ring g + s < n \<and> x \<in> set (wheel_slots tw ! r ! s # L (wheel_slots tw ! r ! s))}"

lemma slot_cells_Suc:
  assumes "r < tw_timer_wheels g" and "s < tw_slots_per_ring g"
  shows "slot_cells g tw L (Suc (r * tw_slots_per_ring g + s))
    = slot_cells g tw L (r * tw_slots_per_ring g + s) \<union> set (wheel_slots tw ! r ! s # L (wheel_slots tw ! r ! s))"
    (is "?A = ?B \<union> ?C")
proof (intro equalityI subsetI)
  fix x assume "x \<in> ?A"
  then obtain r' s' where b: "r' < tw_timer_wheels g" "s' < tw_slots_per_ring g"
    "r' * tw_slots_per_ring g + s' < Suc (r * tw_slots_per_ring g + s)"
    "x \<in> set (wheel_slots tw ! r' ! s' # L (wheel_slots tw ! r' ! s'))" unfolding slot_cells_def by blast
  show "x \<in> ?B \<union> ?C"
  proof (cases "r' = r \<and> s' = s")
    case False
    then have "r' * tw_slots_per_ring g + s' < r * tw_slots_per_ring g + s"
      using b(3) slot_number(1) [OF b(2) assms(2), of r' r] by linarith
    then show ?thesis using b unfolding slot_cells_def by blast
  qed (use b(4) in auto)
next
  fix x assume "x \<in> ?B \<union> ?C"
  then show "x \<in> ?A" using assms unfolding slot_cells_def by (blast intro: less_SucI)
qed

lemma free_slot_ok:
  assumes R: "tw_rep_at g tw k T A L" and r: "r < tw_timer_wheels g" and s: "s < tw_slots_per_ring g"
  defines "n \<equiv> r * tw_slots_per_ring g + s"
  assumes p: "pool_ok p" "pool_vec p = pool_vec (timers tw)" "pool_live p = pool_live (timers tw) - unat ` slot_cells g tw L n"
  shows "\<exists>p'. free_slot tw r s p = Some p' \<and> pool_ok p' \<and> pool_vec p' = pool_vec (timers tw)
    \<and> pool_live p' = pool_live (timers tw) - unat ` slot_cells g tw L (Suc n)"
proof -
  note R' = tw_rep_at_simps [OF R]
  let ?h = "wheel_slots tw ! r ! s"
  have hd: "slot_head tw r s = Some ?h" "?h \<in> heads g tw" using slot_head_eq [OF R'(2) r s] by auto
  note c = tw_rings_cells [OF R'(8) hd(2)]
  have out: "x \<notin> slot_cells g tw L n" if x: "x \<in> set (?h # L ?h)" for x
  proof
    assume "x \<in> slot_cells g tw L n"
    then obtain r' s' where b: "r' < tw_timer_wheels g" "s' < tw_slots_per_ring g" "r' * tw_slots_per_ring g + s' < n"
      "x \<in> set (wheel_slots tw ! r' ! s' # L (wheel_slots tw ! r' ! s'))" unfolding slot_cells_def by blast
    have "wheel_slots tw ! r' ! s' \<noteq> ?h" using slot_inj [OF R'(2) b(1,2) r s] b(3) by (auto simp: n_def)
    then show False using c(4) [OF _ _ x] slot_head_eq [OF R'(2) b(1,2)] b(4) by blast
  qed
  have cl: "cell p = cell (timers tw)" by (simp add: fun_eq_iff cell_def p(2))
  have lv: "live_cell p x" if "x \<in> set (?h # L ?h)" for x
    using c(2) [OF that] out [OF that] p(3) by (auto simp: word_unat_eq_iff [symmetric])
  have w: "tw_next (cell p ?h) = hd (L ?h @ [?h])" "timer_walk p (L ?h) ?h"
    using timer_ring_walk [OF c(1)] p(1) c(3) lv by (auto simp: cl timer_walk_def)
  obtain q where q: "free_slot_timers ?h p (hd (L ?h @ [?h])) = Some q" "pool_ok q"
    "pool_live q = pool_live p - unat ` set (L ?h)" "pool_vec q = pool_vec p"
    using free_slot_timers_ok [OF w(2)] by blast
  have lq: "live_cell q ?h" using q(3) lv [of ?h] c(3) by (auto simp: word_unat_eq_iff [symmetric])
  obtain p' where p': "pool_put_index q (unat ?h) = Some p'" "pool_ok p'" "pool_live p' = pool_live q - {unat ?h}"
    using pool_put_live [OF q(2) lq] by blast
  have "pool_live p' = pool_live (timers tw) - unat ` slot_cells g tw L (Suc n)"
    unfolding p'(3) q(3) p(3) n_def slot_cells_Suc [OF r s] by auto
  moreover have "free_slot tw r s p = Some p'"
    using hd(1) lv [of ?h] w(1) q(1) p'(1) by (simp add: free_slot_def elt_at_eq)
  ultimately show ?thesis using p'(2) pool_put_vec [OF p'(1)] q(4) p(2) by auto
qed

lemma free_slots_ok:
  assumes R: "tw_rep_at g tw k T A L"
  shows "\<exists>p. free_slots g tw = Some p \<and> pool_ok p \<and> pool_live p = {}"
proof -
  note R' = tw_rep_at_simps [OF R]
  let ?S = "tw_slots_per_ring g"
  let ?J = "\<lambda>n p. pool_ok p \<and> pool_vec p = pool_vec (timers tw) \<and> pool_live p = pool_live (timers tw) - unat ` slot_cells g tw L n"
  have inner: "\<exists>p'. for_range 0 ?S (free_slot tw r) p = Some p' \<and> ?J (Suc r * ?S) p'"
    if "r < tw_timer_wheels g" "?J (r * ?S) p" for r p
    using for_range_rule [of 0 ?S "\<lambda>i. ?J (r * ?S + i)" p "free_slot tw r"] free_slot_ok [OF R that(1)] that(2)
    by (auto simp: add.commute)
  have "?J 0 (timers tw)" using R'(3) by (auto simp: slot_cells_def)
  then obtain p where p: "free_slots g tw = Some p" "?J (tw_timer_wheels g * ?S) p"
    using for_range_rule [of 0 "tw_timer_wheels g" "\<lambda>r. ?J (r * ?S)" "timers tw" "\<lambda>r. for_range 0 ?S (free_slot tw r)"] inner
    unfolding free_slots_def by auto
  have "heads g tw \<union> dom T \<subseteq> slot_cells g tw L (tw_timer_wheels g * ?S)"
  proof
    fix x assume "x \<in> heads g tw \<union> dom T"
    then consider r s where "r < tw_timer_wheels g" "s < ?S" "x = wheel_slots tw ! r ! s" | e h where "T x = Some (e, h)"
      by (auto simp: heads_def)
    then show "x \<in> slot_cells g tw L (tw_timer_wheels g * ?S)"
    proof cases
      case 1
      then show ?thesis using slot_count(1) [OF R'(1)] unfolding slot_cells_def by (blast intro: list.set_intros)
    next
      case 2
      obtain r s where rs: "timer_slot g A e = (r, s)" by fastforce
      note b = timer_slot_range [OF R'(1) rs]
      have "x \<in> set (L (wheel_slots tw ! r ! s))" using R'(10) [of r s] b 2 rs by auto
      then show ?thesis using slot_count(1) [OF R'(1)] b unfolding slot_cells_def by (blast intro: list.set_intros)
    qed
  qed
  then have "pool_live p = {}" using p(2) R'(4) by auto
  then show ?thesis using p by blast
qed

section \<open>Handles\<close>

lemma unat_mask32: "n \<le> 32 \<Longrightarrow> unat (mask n :: u32) = 2 ^ n - 1"
proof -
  assume "n \<le> 32"
  then have "unat (take_bit n (- 1 :: u32)) = mask n"
    unfolding unsigned_take_bit_eq unsigned_minus_1_eq_mask take_bit_of_mask by (simp add: min_def)
  then show ?thesis by (simp only: mask_eq_take_bit_minus_one [symmetric] mask_eq_exp_minus_1 [where 'a = nat])
qed

text \<open>A handle is \<open>~0\<close>, as the heads of the lists are marked, only for the last timer of the last object.\<close>

lemma handle_bits:
  assumes "geometry_ok g" and "make_internal_timer_handle g pool_index timer_id = Some h"
  shows "drop_bit (32 - log2_tw_timers_per_object g) h = timer_id"
    and "h AND mask (32 - log2_tw_timers_per_object g) = pool_index"
    and "h = - 1 \<longleftrightarrow> unat timer_id = 2 ^ log2_tw_timers_per_object g - 1
      \<and> unat pool_index = 2 ^ (32 - log2_tw_timers_per_object g) - 1"
proof -
  let ?l = "log2_tw_timers_per_object g" and ?m = "32 - log2_tw_timers_per_object g"
  have a: "unat timer_id < 2 ^ ?l" "unat pool_index < 2 ^ ?m" "h = push_bit ?m timer_id OR pool_index" "?l < 32"
    using assms by (auto simp: make_internal_timer_handle_def geometry_ok_def split: if_splits)
  have ti: "take_bit ?l timer_id = timer_id" and pi: "take_bit ?m pool_index = pool_index"
    unfolding word_unat_eq_iff unsigned_take_bit_eq take_bit_nat_eq_self_iff using a(1,2) by blast+
  show d: "drop_bit ?m h = timer_id"
  proof (rule bit_word_eqI)
    fix n assume "n < LENGTH(32)"
    have "bit pool_index (?m + n) = False" by (subst pi [symmetric]) (simp add: bit_take_bit_iff)
    moreover have "bit timer_id n \<longrightarrow> n < ?l" by (subst ti [symmetric]) (simp add: bit_take_bit_iff)
    ultimately show "bit (drop_bit ?m h) n = bit timer_id n"
      using a(4) unfolding a(3) by (auto simp: bit_drop_bit_eq bit_or_iff bit_push_bit_iff)
  qed
  show m: "h AND mask ?m = pool_index"
  proof (rule bit_word_eqI)
    fix n assume "n < LENGTH(32)"
    have "bit pool_index n \<longrightarrow> n < ?m" by (subst pi [symmetric]) (simp add: bit_take_bit_iff)
    then show "bit (h AND mask ?m) n = bit pool_index n"
      unfolding a(3) by (auto simp: bit_and_iff bit_or_iff bit_push_bit_iff bit_mask_iff)
  qed
  have e: "h = push_bit ?m (drop_bit ?m h) OR (h AND mask ?m)" unfolding d m by (rule a(3))
  have "unat timer_id = 2 ^ ?l - 1 \<longleftrightarrow> timer_id = mask ?l" "unat pool_index = 2 ^ ?m - 1 \<longleftrightarrow> pool_index = mask ?m"
    unfolding word_unat_eq_iff using unat_mask32 [of ?l] unat_mask32 [of ?m] a(4) by simp_all
  moreover have "h = - 1 \<longleftrightarrow> timer_id = mask ?l \<and> pool_index = mask ?m"
  proof
    assume h: "h = - 1"
    have "drop_bit ?m (- 1 :: u32) = mask ?l" using a(4) by (intro bit_word_eqI) (auto simp: bit_drop_bit_eq bit_mask_iff)
    then show "timer_id = mask ?l \<and> pool_index = mask ?m" using d m unfolding h by simp
  next
    assume "timer_id = mask ?l \<and> pool_index = mask ?m"
    then have "h = push_bit ?m (mask ?l) OR mask ?m" using e d m by simp
    also have "\<dots> = - 1" using a(4)
      by (intro bit_word_eqI) (auto simp: bit_or_iff bit_push_bit_iff bit_mask_iff)
    finally show "h = - 1" .
  qed
  ultimately show "h = - 1 \<longleftrightarrow> unat timer_id = 2 ^ ?l - 1 \<and> unat pool_index = 2 ^ ?m - 1" by simp
qed

section \<open>The contract of a timer service\<close>

text \<open>
  \<open>ticks c n w\<close> runs up to \<open>n\<close> ticks with the callback \<open>c\<close> and gives the wheel, the calls and the
  number of ticks run; \<open>safe Q c\<close> says that the callback changes the timers only as \<open>Q\<close> allows.
\<close>

locale timer_service =
  fixes rep :: "'w \<Rightarrow> nat \<Rightarrow> timer_map \<Rightarrow> bool" and valid :: "'w \<Rightarrow> nat \<Rightarrow> bool"
    and handle :: "u32 \<Rightarrow> u32 \<Rightarrow> u32 option"
    and start :: "'m \<Rightarrow> 'w \<Rightarrow> u32 \<Rightarrow> u32 \<Rightarrow> u32 \<Rightarrow> ('w \<times> u32) option" and stop :: "'w \<Rightarrow> u32 \<Rightarrow> 'w option"
    and ticks :: "'c \<Rightarrow> nat \<Rightarrow> 'w \<Rightarrow> ('w \<times> timer_calls \<times> nat) option"
    and safe :: "(timer_map \<Rightarrow> timer_map \<Rightarrow> bool) \<Rightarrow> 'c \<Rightarrow> bool"
  assumes start: "rep w k T \<Longrightarrow> valid w (unat n) \<Longrightarrow> handle p t = Some h \<Longrightarrow>
      \<exists>w' i. start m w p t n = Some (w', i) \<and> i \<notin> dom T \<and> rep w' k (T(i \<mapsto> (k + unat n, h)))"
    and stop: "rep w k T \<Longrightarrow> T i = Some (e, h) \<Longrightarrow> h \<noteq> - 1 \<Longrightarrow> \<exists>w'. stop w i = Some w' \<and> rep w' k (T(i := None))"
    and stop_dead: "rep w k T \<Longrightarrow> T i = None \<Longrightarrow> stop w i = None"
    and ticks: "rep w k T \<Longrightarrow> safe Q c \<Longrightarrow> (\<And>T. Q T T) \<Longrightarrow>
      \<exists>w' cs m U. ticks c b w = Some (w', calls_of cs, m) \<and> m \<le> b \<and> timer_run Q k T cs (k + m) U \<and> rep w' (k + m) U"
begin

lemma start_stop:
  assumes "rep w k T" and "valid w (unat n)" and "handle p t = Some h" and "h \<noteq> - 1"
  shows "\<exists>w' i w''. start m w p t n = Some (w', i) \<and> stop w' i = Some w'' \<and> rep w'' k T \<and> stop w'' i = None"
proof -
  obtain w' i where 1: "start m w p t n = Some (w', i)" "i \<notin> dom T" "rep w' k (T(i \<mapsto> (k + unat n, h)))"
    using start [OF assms(1-3)] by blast
  have T: "(T(i \<mapsto> (k + unat n, h)))(i := None) = T" using 1(2) by (auto simp: domIff fun_eq_iff)
  obtain w'' where 2: "stop w' i = Some w''" "rep w'' k ((T(i \<mapsto> (k + unat n, h)))(i := None))"
    using stop [OF 1(3) fun_upd_same assms(4)] by blast
  have "stop w'' i = None" using stop_dead [of w'' k T i] 2(2) 1(2) unfolding T domIff by blast
  then show ?thesis using 1(1) 2 unfolding T by blast
qed

text \<open>A timer that is started expires after its interval, and not before.\<close>

lemma start_expires:
  assumes "rep w k T" and "valid w (unat n)" and "handle p t = Some h"
  shows "\<exists>w' i. start m w p t n = Some (w', i) \<and> (\<forall>b c. safe (\<subseteq>\<^sub>m) c \<longrightarrow>
    (\<exists>w'' calls d. ticks c b w' = Some (w'', calls, d)
      \<and> (unat n < d \<longrightarrow> (\<exists>hs. (word_of_nat (k + unat n), hs) \<in> set calls \<and> h \<in> set hs))
      \<and> (d \<le> unat n \<longrightarrow> (\<exists>U. rep w'' (k + d) U \<and> U i = Some (k + unat n, h)))))"
proof -
  obtain w' i where 1: "start m w p t n = Some (w', i)" "rep w' k (T(i \<mapsto> (k + unat n, h)))"
    using start [OF assms(1-3)] by blast
  have "\<exists>w'' calls d. ticks c b w' = Some (w'', calls, d)
    \<and> (unat n < d \<longrightarrow> (\<exists>hs. (word_of_nat (k + unat n), hs) \<in> set calls \<and> h \<in> set hs))
    \<and> (d \<le> unat n \<longrightarrow> (\<exists>U. rep w'' (k + d) U \<and> U i = Some (k + unat n, h)))" if sc: "safe (\<subseteq>\<^sub>m) c" for b c
  proof -
    obtain w'' cs d U where t: "ticks c b w' = Some (w'', calls_of cs, d)"
      "timer_run (\<subseteq>\<^sub>m) k (T(i \<mapsto> (k + unat n, h))) cs (k + d) U" "rep w'' (k + d) U"
      using ticks [OF 1(2) sc, of b] by auto
    have f: "(k + unat n < k + d \<longrightarrow> (\<exists>hs. (k + unat n, hs) \<in> set cs \<and> h \<in> set hs))
      \<and> (k + d \<le> k + unat n \<longrightarrow> U i = Some (k + unat n, h))"
      by (rule timer_run_fires [OF t(2)]) auto
    have "\<exists>hs. (word_of_nat (k + unat n), hs) \<in> set (calls_of cs) \<and> h \<in> set hs" if d: "unat n < d"
    proof -
      obtain hs where "(k + unat n, hs) \<in> set cs" "h \<in> set hs" using f d by auto
      then show ?thesis by (intro exI [of _ hs]) (force simp del: of_nat_add)
    qed
    then show ?thesis using t(1,3) f by (intro exI [of _ w''] exI [of _ "calls_of cs"] exI [of _ d]) auto
  qed
  then show ?thesis using 1(1) by blast
qed

end

section \<open>The wheels keep the contract\<close>

definition wheel_ticks ::
    "tw_geometry \<Rightarrow> 's timer_callback \<times> 's \<Rightarrow> nat \<Rightarrow> tw_timer_wheel \<Rightarrow> (tw_timer_wheel \<times> timer_calls \<times> nat) option" where
  "wheel_ticks g c n tw =
    map_option (\<lambda>((tw, st, total, i, calls), stop). (tw, calls, if stop then i + 1 else i)) (tw_timer_ticks g (fst c) n tw (snd c))"

definition room :: "tw_timer_wheel \<Rightarrow> bool" where
  "room tw = (length (pool_vec (timers tw)) < 2 ^ 32 - 1)"

lemma wheel_ticks_ok:
  assumes R: "tw_rep g tw k T" and cb: "callback_ok g Q (fst c)" and Q: "\<And>T. Q T T"
  shows "\<exists>w' cs m U. wheel_ticks g c b tw = Some (w', calls_of cs, m) \<and> m \<le> b \<and> timer_run Q k T cs (k + m) U
    \<and> tw_rep g w' (k + m) U"
proof -
  obtain tw' st' total i calls stop m cs U where d: "tw_timer_ticks g (fst c) b tw (snd c) = Some ((tw', st', total, i, calls), stop)"
    "ticks_done g Q k T m (tw', st', total, i, calls) cs U" "m \<le> b"
    "if stop then m = i + 1 else m = b \<and> i = b"
    using ticks_ok [OF R cb Q, of b "snd c"] by (metis (no_types, lifting))
  have "wheel_ticks g c b tw = Some (tw', calls_of cs, m)"
    using d(1,2,4) by (auto simp: wheel_ticks_def ticks_done_def split: if_splits)
  then show ?thesis using d(2,3) by (auto simp: ticks_done_def)
qed

interpretation wheels: timer_service "tw_rep g" "\<lambda>tw n. interval_ok g n \<and> room tw" "make_internal_timer_handle g"
  "tw_timer_start g" tw_timer_stop "wheel_ticks g" "\<lambda>Q c. callback_ok g Q (fst c)"
  for g
proof
  fix tw k T n p t h m
  assume R: "tw_rep g tw k T"
  obtain A L where R': "tw_rep_at g tw k T A L" using R by (auto simp: tw_rep_def)
  show "\<exists>w' i. tw_timer_start g m tw p t n = Some (w', i) \<and> i \<notin> dom T \<and> tw_rep g w' k (T(i \<mapsto> (k + unat n, h)))"
    if "interval_ok g (unat n) \<and> room tw" "make_internal_timer_handle g p t = Some h"
    using start_ok [OF R' _ that(2), of n m] that(1) live_iff [OF R'] unfolding room_def tw_rep_def by blast
  show "\<exists>w'. tw_timer_stop tw i = Some w' \<and> tw_rep g w' k (T(i := None))" if "T i = Some (e, h)" "h \<noteq> - 1" for i e h
    using stop_ok [OF R' that] unfolding tw_rep_def by blast
  show "tw_timer_stop tw i = None" if "T i = None" for i by (rule stop_dead [OF R' that])
qed (rule wheel_ticks_ok)

section \<open>Callbacks\<close>

text \<open>A callback that leaves the wheel alone, and one that starts a timer whenever it is called.\<close>

definition idle_callback :: "'s timer_callback" where
  "idle_callback handles tw st = Some (tw, st)"

definition restart_callback :: "tw_geometry \<Rightarrow> tw_timer \<Rightarrow> u32 \<Rightarrow> u32 \<Rightarrow> u32 \<Rightarrow> 's timer_callback" where
  "restart_callback g memory pool_index timer_id interval handles tw st =
    (if room tw then map_option (\<lambda>(tw, t). (tw, st)) (tw_timer_start g memory tw pool_index timer_id interval)
     else Some (tw, st))"

lemma idle_callback_ok: "(\<And>T. Q T T) \<Longrightarrow> callback_ok g Q idle_callback"
  by (auto simp: callback_ok_def idle_callback_def)

lemma idle_passive: "callback_ok g (=) idle_callback"
  by (rule idle_callback_ok) simp

lemma restart_callback_ok:
  assumes n: "interval_ok g (unat interval)" and h: "make_internal_timer_handle g pool_index timer_id = Some h"
  shows "callback_ok g (\<subseteq>\<^sub>m) (restart_callback g memory pool_index timer_id interval)"
  unfolding callback_ok_def
proof (intro allI impI)
  fix handles tw st k T
  let ?cb = "restart_callback g memory pool_index timer_id interval"
  assume "tw_rep g tw k T \<and> timers_later T k"
  then obtain A L where R: "tw_rep_at g tw k T A L" and l: "timers_later T k" by (auto simp: tw_rep_def)
  show "\<exists>tw' st' T'. ?cb handles tw st = Some (tw', st') \<and> current_index tw' = current_index tw
      \<and> tw_rep g tw' k T' \<and> timers_later T' k \<and> T \<subseteq>\<^sub>m T'"
  proof (cases "room tw")
    case True
    then obtain p t L' where s: "tw_timer_start g memory tw pool_index timer_id interval = Some (tw\<lparr>timers := p\<rparr>, t)"
      "\<not> live_cell (timers tw) t" "tw_rep_at g (tw\<lparr>timers := p\<rparr>) k (T(t \<mapsto> (k + unat interval, h))) A L'"
      using start_ok [OF R n h, of memory] unfolding room_def by blast
    have "T \<subseteq>\<^sub>m T(t \<mapsto> (k + unat interval, h))" using s(2) live_iff [OF R] by (auto simp: map_le_def)
    moreover have "timers_later (T(t \<mapsto> (k + unat interval, h))) k" using l n by (auto simp: timers_later_def interval_ok_def)
    moreover have "?cb handles tw st = Some (tw\<lparr>timers := p\<rparr>, st)" using True s(1) by (simp add: restart_callback_def)
    moreover have "current_index (tw\<lparr>timers := p\<rparr>) = current_index tw" by simp
    ultimately show ?thesis using s(3) unfolding tw_rep_def by blast
  next
    case False
    then have "?cb handles tw st = Some (tw, st)" by (simp add: restart_callback_def)
    then show ?thesis using R l unfolding tw_rep_def by (intro exI [of _ tw] exI [of _ st] exI [of _ T]) auto
  qed
qed

section \<open>Properties\<close>

text \<open>
  C27. A timer expires on time: a timer started on a wheel that has run \<open>k\<close> ticks, with an interval of
  \<open>n\<close> ticks that the wheel can hold, is reported by the callback at tick \<open>k + n\<close>, the
  \<open>current_tick\<close> that the wheel shows then, whatever the position of the rings; until then it stays
  pending. The callback may start other timers.
\<close>

theorem timer_expires_on_time:
  fixes cb :: "'s timer_callback"
  assumes "tw_rep g tw k T" and "interval_ok g (unat interval)" and "room tw"
    and "make_internal_timer_handle g pool_index timer_id = Some h" and "callback_ok g (\<subseteq>\<^sub>m) cb"
  shows "\<exists>tw' t. tw_timer_start g memory tw pool_index timer_id interval = Some (tw', t)
    \<and> (\<forall>b st. \<exists>tw'' calls d. wheel_ticks g (cb, st) b tw' = Some (tw'', calls, d)
      \<and> (unat interval < d \<longrightarrow> (\<exists>hs. (word_of_nat (k + unat interval), hs) \<in> set calls \<and> h \<in> set hs))
      \<and> (d \<le> unat interval \<longrightarrow> (\<exists>U. tw_rep g tw'' (k + d) U \<and> U t = Some (k + unat interval, h))))"
proof -
  have v: "interval_ok g (unat interval) \<and> room tw" using assms(2,3) by simp
  let ?P = "\<lambda>tw' t c b. \<exists>tw'' calls d. wheel_ticks g c b tw' = Some (tw'', calls, d)
      \<and> (unat interval < d \<longrightarrow> (\<exists>hs. (word_of_nat (k + unat interval), hs) \<in> set calls \<and> h \<in> set hs))
      \<and> (d \<le> unat interval \<longrightarrow> (\<exists>U. tw_rep g tw'' (k + d) U \<and> U t = Some (k + unat interval, h)))"
  obtain tw' t where s: "tw_timer_start g memory tw pool_index timer_id interval = Some (tw', t)"
    "\<forall>b (c :: 's timer_callback \<times> 's). callback_ok g (\<subseteq>\<^sub>m) (fst c) \<longrightarrow> ?P tw' t c b"
    using wheels.start_expires [OF assms(1) v assms(4)] by blast
  have "?P tw' t (cb, st) b" for b st using s(2) [rule_format, of "(cb, st)" b] assms(5) by simp
  then show ?thesis using s(1) by blast
qed

definition sample_geometry :: tw_geometry where
  "sample_geometry = \<lparr>tw_timer_wheels = 2, tw_slots_per_ring = 4, tw_ring_shift = 2, tw_timers_per_object = 16,
     log2_tw_timers_per_object = 4\<rparr>"

definition sample_memory :: tw_timer where
  "sample_memory = \<lparr>tw_next = 0, tw_prev = 0, fast_ring_offset = 0, user_handle = 0\<rparr>"

text \<open>A new wheel with 1-second ticks and a limit of one expiration in a run.\<close>

lemma sample_wheel:
  obtains tw where "tw_timer_wheel_init sample_geometry (\<lambda>_ _. sample_memory) (1, 0) 1 = Some tw"
    and "tw_rep sample_geometry tw 0 Map.empty" and "room tw" and "max_expirations tw = 1"
    and "ticks_per_second tw = sf64_inverse (1, 0)" and "last_run_time tw = (0, 0)" and "next_run_time tw = (0, 0)"
proof -
  have "geometry_ok sample_geometry" by (simp add: geometry_ok_def sample_geometry_def)
  then obtain tw where "tw_timer_wheel_init sample_geometry (\<lambda>_ _. sample_memory) (1, 0) 1 = Some tw"
    "tw_rep sample_geometry tw 0 Map.empty" "max_expirations tw = 1"
    "ticks_per_second tw = sf64_inverse (1, 0)" "last_run_time tw = (0, 0)" "next_run_time tw = (0, 0)"
    "length (pool_vec (timers tw)) = tw_timer_wheels sample_geometry * tw_slots_per_ring sample_geometry"
    using init_ok [of sample_geometry "(1, 0)"] by fastforce
  then show ?thesis using that [of tw] by (simp add: room_def sample_geometry_def)
qed

lemma sample_handle: "make_internal_timer_handle sample_geometry 5 3 = Some 0x30000005"
  by (simp add: make_internal_timer_handle_def sample_geometry_def)

lemma sample_interval: "interval_ok sample_geometry (unat (6 :: u32))" "interval_ok sample_geometry (unat (1 :: u32))"
  by (simp_all add: interval_ok_def sample_geometry_def)

theorem timer_expires_on_time_witness:
  "\<exists>tw tw' t. tw_timer_wheel_init sample_geometry (\<lambda>_ _. sample_memory) (1, 0) 1 = Some tw
    \<and> tw_timer_start sample_geometry sample_memory tw 5 3 6 = Some (tw', t)
    \<and> (\<exists>tw'' calls d. wheel_ticks sample_geometry (restart_callback sample_geometry sample_memory 5 3 6, ()) 20 tw' = Some (tw'', calls, d)
         \<and> (6 < d \<longrightarrow> (\<exists>hs. (6, hs) \<in> set calls \<and> 0x30000005 \<in> set hs)))"
proof -
  obtain tw where tw: "tw_timer_wheel_init sample_geometry (\<lambda>_ _. sample_memory) (1, 0) 1 = Some tw"
    "tw_rep sample_geometry tw 0 Map.empty" "room tw" by (rule sample_wheel)
  have cb: "callback_ok sample_geometry (\<subseteq>\<^sub>m) (restart_callback sample_geometry sample_memory 5 3 6)"
    by (rule restart_callback_ok [OF sample_interval(1) sample_handle])
  show ?thesis
    using timer_expires_on_time [OF tw(2) sample_interval(1) tw(3) sample_handle cb, of sample_memory] tw(1) by fastforce
qed

text \<open>
  C28. The calls are exact: with a callback that leaves the wheel alone, the ticks at which the loop of
  \<open>tw_timer_expire_timers\<close> calls it are the ticks at which some timer is due, in order, and each call
  gets the handles of the timers due at that tick, each timer once; the sum of their numbers is what
  is returned, and the timers that are left are those due later. The loop stops after the first tick at
  which the number of expirations has reached the limit: a run that is not stopped stays below it, and
  the run over any smaller number of ticks than a stopped one is not stopped.
\<close>

theorem timer_calls_exact:
  fixes cb :: "'s timer_callback"
  assumes "tw_rep g tw k T" and "callback_ok g (=) cb"
  shows "\<exists>tw' st' total i calls stop m cs. tw_timer_ticks g cb n tw st = Some ((tw', st', total, i, calls), stop)
    \<and> calls = map (\<lambda>(t, hs). (word_of_nat t, hs)) cs
    \<and> map fst cs = filter (\<lambda>t. timers_due T t \<noteq> {}) [k..<k + m]
    \<and> (\<forall>t hs. (t, hs) \<in> set cs \<longrightarrow> (\<exists>xs. distinct xs \<and> set xs = timers_due T t \<and> hs = map (handle_of T) xs))
    \<and> total = word_of_nat (sum_list (map (length \<circ> snd) cs))
    \<and> tw_rep g tw' (k + m) (T |` {i. \<forall>e h. T i = Some (e, h) \<longrightarrow> k + m \<le> e})
    \<and> (if stop then m = i + 1 \<and> m \<le> n \<and> max_expirations tw' \<le> total \<and> (\<forall>j<m. \<exists>s. tw_timer_ticks g cb j tw st = Some (s, False))
       else m = n \<and> i = n \<and> (0 < n \<longrightarrow> total < max_expirations tw'))"
proof -
  obtain tw' st' total i calls stop m cs U where d: "tw_timer_ticks g cb n tw st = Some ((tw', st', total, i, calls), stop)"
    "ticks_done g (=) k T m (tw', st', total, i, calls) cs U" "m \<le> n"
    "if stop then m = i + 1 \<and> max_expirations tw' \<le> total \<and> (\<forall>j<m. \<exists>s. tw_timer_ticks g cb j tw st = Some (s, False))
       else m = n \<and> i = n \<and> (0 < n \<longrightarrow> total < max_expirations tw')"
    using ticks_ok [OF assms, of n st] by blast
  have t: "calls = calls_of cs" "timer_run (=) k T cs (k + m) U" "tw_rep g tw' (k + m) U"
    "total = word_of_nat (sum_list (map (length \<circ> snd) cs))" using d(2) by (simp_all add: ticks_done_def)
  have ge: "k \<le> e" if "T i = Some (e, h)" for i e h
    using assms(1) that unfolding tw_rep_def by (auto dest: tw_rep_at_simps(9) simp: timer_due_def)
  have e: "map fst cs = filter (\<lambda>t. timers_due T t \<noteq> {}) [k..<k + m] \<and> (\<forall>(t, hs)\<in>set cs. due_list T t hs)
    \<and> U = T |` {i. \<forall>e h. T i = Some (e, h) \<longrightarrow> k + m \<le> e}"
    by (rule timer_run_exact [OF t(2) ge])
  have "\<forall>t hs. (t, hs) \<in> set cs \<longrightarrow> (\<exists>xs. distinct xs \<and> set xs = timers_due T t \<and> hs = map (handle_of T) xs)"
    using e unfolding due_list_def by blast
  then show ?thesis using d(1,3,4) t e
    by (intro exI [of _ tw'] exI [of _ st'] exI [of _ total] exI [of _ i] exI [of _ calls] exI [of _ stop] exI [of _ m] exI [of _ cs]) auto
qed

text \<open>The sample wheel with one timer.\<close>

lemma sample_started:
  obtains tw tw' t where "tw_timer_wheel_init sample_geometry (\<lambda>_ _. sample_memory) (1, 0) 1 = Some tw"
    and "tw_timer_start sample_geometry sample_memory tw 5 3 6 = Some (tw', t)"
    and "tw_rep sample_geometry tw' 0 [t \<mapsto> (6, 0x30000005)]"
proof -
  obtain tw where tw: "tw_timer_wheel_init sample_geometry (\<lambda>_ _. sample_memory) (1, 0) 1 = Some tw"
    "tw_rep sample_geometry tw 0 Map.empty" "room tw" by (rule sample_wheel)
  then obtain A L where R: "tw_rep_at sample_geometry tw 0 Map.empty A L" by (auto simp: tw_rep_def)
  obtain p t L' where "tw_timer_start sample_geometry sample_memory tw 5 3 6 = Some (tw\<lparr>timers := p\<rparr>, t)"
    "tw_rep_at sample_geometry (tw\<lparr>timers := p\<rparr>) 0 [t \<mapsto> (0 + unat (6 :: u32), 0x30000005)] A L'"
    using start_ok [OF R sample_interval(1) sample_handle, of sample_memory] tw(3) unfolding room_def by blast
  then show ?thesis using that [of tw "tw\<lparr>timers := p\<rparr>" t] tw(1) by (auto simp: tw_rep_def)
qed

theorem timer_calls_exact_witness:
  "\<exists>tw tw' t. tw_timer_wheel_init sample_geometry (\<lambda>_ _. sample_memory) (1, 0) 1 = Some tw
    \<and> tw_timer_start sample_geometry sample_memory tw 5 3 6 = Some (tw', t)
    \<and> (\<exists>tw'' total i calls stop m cs. tw_timer_ticks sample_geometry idle_callback 20 tw' () = Some ((tw'', (), total, i, calls), stop)
         \<and> calls = map (\<lambda>(t, hs). (word_of_nat t, hs)) cs
         \<and> map fst cs = filter (\<lambda>j. timers_due [t \<mapsto> (6, 0x30000005)] j \<noteq> {}) [0..<m])"
proof -
  obtain tw tw' t where s: "tw_timer_wheel_init sample_geometry (\<lambda>_ _. sample_memory) (1, 0) 1 = Some tw"
    "tw_timer_start sample_geometry sample_memory tw 5 3 6 = Some (tw', t)"
    "tw_rep sample_geometry tw' 0 [t \<mapsto> (6, 0x30000005)]" by (rule sample_started)
  obtain tw'' st' total i calls stop m cs where "tw_timer_ticks sample_geometry idle_callback 20 tw' () = Some ((tw'', st', total, i, calls), stop)"
    "calls = map (\<lambda>(t, hs). (word_of_nat t, hs)) cs"
    "map fst cs = filter (\<lambda>j. timers_due [t \<mapsto> (6, 0x30000005)] j \<noteq> {}) [0..<0 + m]"
    using timer_calls_exact [OF s(3) idle_passive, of 20 "()"] by auto
  then show ?thesis using s(1,2) by auto
qed

text \<open>
  C29. Starting and stopping: on a wheel with room, \<open>tw_timer_start\<close> followed by \<open>tw_timer_stop\<close> of the
  handle it returned gives back a wheel with the same timers; a second stop of that handle, and the
  stop of the head of a list, fail an assertion.
\<close>

theorem timer_start_stop:
  assumes "tw_rep g tw k T" and "interval_ok g (unat interval)" and "room tw"
    and "make_internal_timer_handle g pool_index timer_id = Some h" and "h \<noteq> - 1"
  shows "\<exists>tw' t tw''. tw_timer_start g memory tw pool_index timer_id interval = Some (tw', t)
    \<and> tw_timer_stop tw' t = Some tw'' \<and> tw_rep g tw'' k T \<and> tw_timer_stop tw'' t = None
    \<and> (\<forall>r s hd. slot_head tw r s = Some hd \<longrightarrow> tw_timer_stop tw hd = None)"
proof -
  obtain A L where R: "tw_rep_at g tw k T A L" using assms(1) by (auto simp: tw_rep_def)
  note R' = tw_rep_at_simps [OF R]
  have "tw_timer_stop tw hd = None" if "slot_head tw r s = Some hd" for r s hd
  proof (rule wheels.stop_dead [OF assms(1)])
    have "r < tw_timer_wheels g" "s < tw_slots_per_ring g" "hd = wheel_slots tw ! r ! s"
      using that R'(2) by (auto simp: slot_head_def wheel_shape_def split: if_splits)
    then show "T hd = None" using slot_head_eq [OF R'(2)] R'(5) by blast
  qed
  then show ?thesis using wheels.start_stop [OF assms(1) _ assms(4,5), of interval memory] assms(2,3) by blast
qed

theorem timer_start_stop_witness:
  "\<exists>tw tw' t tw''. tw_timer_wheel_init sample_geometry (\<lambda>_ _. sample_memory) (1, 0) 1 = Some tw
    \<and> tw_timer_start sample_geometry sample_memory tw 5 3 6 = Some (tw', t)
    \<and> tw_timer_stop tw' t = Some tw'' \<and> tw_timer_stop tw'' t = None"
proof -
  obtain tw where tw: "tw_timer_wheel_init sample_geometry (\<lambda>_ _. sample_memory) (1, 0) 1 = Some tw"
    "tw_rep sample_geometry tw 0 Map.empty" "room tw" by (rule sample_wheel)
  show ?thesis
    using timer_start_stop [OF tw(2) sample_interval(1) tw(3) sample_handle, of sample_memory] tw(1) by auto
qed

text \<open>
  \<open>tw_timer_wheel_init\<close> refuses an interval of zero and otherwise gives a wheel with no timers at
  tick zero; \<open>tw_timer_wheel_free\<close> gives every element of the pool back, the timers that are
  pending and the heads of the slots, whatever has happened on the wheel.
\<close>

theorem timer_wheel_init_free:
  assumes "geometry_ok g"
  shows "(fst interval = 0 \<longrightarrow> tw_timer_wheel_init g memory interval max_exp = None)
    \<and> (fst interval \<noteq> 0 \<longrightarrow> (\<exists>tw. tw_timer_wheel_init g memory interval max_exp = Some tw \<and> tw_rep g tw 0 Map.empty))
    \<and> (\<forall>tw k T. tw_rep g tw k T \<longrightarrow>
         (\<exists>p. free_slots g tw = Some p \<and> pool_ok p \<and> pool_live p = {}) \<and> tw_timer_wheel_free g tw = Some (wheel_zero g))"
proof -
  have "(\<exists>p. free_slots g tw = Some p \<and> pool_ok p \<and> pool_live p = {}) \<and> tw_timer_wheel_free g tw = Some (wheel_zero g)"
    if "tw_rep g tw k T" for tw k T
    using free_slots_ok [of g tw k T] that unfolding tw_rep_def tw_timer_wheel_free_def by fastforce
  then show ?thesis using init_ok [OF assms, of interval memory max_exp] by (auto simp: tw_timer_wheel_init_def)
qed

theorem timer_wheel_init_free_witness:
  "geometry_ok geometry_16t_2w_512sl
   \<and> (\<exists>tw. tw_timer_wheel_init geometry_16t_2w_512sl (\<lambda>_ _. sample_memory) (1, 0) 1 = Some tw
         \<and> tw_timer_wheel_free geometry_16t_2w_512sl tw = Some (wheel_zero geometry_16t_2w_512sl))"
proof -
  have i: "fst (1 :: int, 0 :: int) \<noteq> 0" by simp
  show ?thesis using timer_wheel_init_free [OF geometries_ok(3), of "(1, 0)" "\<lambda>_ _. sample_memory" 1] i geometries_ok(3) by blast
qed

text \<open>
  Handles: the user recovers the timer and the object from the two parts of a handle, as the
  callbacks do; and a handle is \<open>~0\<close>, the mark of the heads of the lists, only for the last timer of
  the last object that a handle can name.
\<close>

theorem timer_handle_roundtrip:
  assumes "geometry_ok g" and "make_internal_timer_handle g pool_index timer_id = Some h"
  shows "drop_bit (32 - log2_tw_timers_per_object g) h = timer_id
    \<and> h AND (2 ^ (32 - log2_tw_timers_per_object g) - 1) = pool_index
    \<and> (h = - 1 \<longleftrightarrow> unat timer_id = 2 ^ log2_tw_timers_per_object g - 1
         \<and> unat pool_index = 2 ^ (32 - log2_tw_timers_per_object g) - 1)"
  using handle_bits [OF assms] by (simp add: mask_eq_exp_minus_1)

theorem timer_handle_roundtrip_witness:
  "make_internal_timer_handle geometry_16t_2w_512sl 0x0FFFFFFF 15 = Some (- 1)
   \<and> drop_bit 28 (- 1 :: u32) = 15"
proof -
  have h: "make_internal_timer_handle geometry_16t_2w_512sl 0x0FFFFFFF 15 = Some (- 1)"
    by (simp add: make_internal_timer_handle_def geometry_16t_2w_512sl_def)
  show ?thesis using timer_handle_roundtrip [OF geometries_ok(3) h] h by (simp add: geometry_16t_2w_512sl_def)
qed

lemma idle_tick_fields:
  assumes "tw_timer_tick g idle_callback tw st = Some (tw', st', handles)"
  shows "st' = st \<and> max_expirations tw' = max_expirations tw \<and> last_run_time tw' = last_run_time tw
    \<and> timer_interval tw' = timer_interval tw \<and> next_run_time tw' = next_run_time tw
    \<and> ticks_per_second tw' = ticks_per_second tw"
  using assms
  by (auto simp: tw_timer_tick_def turn_fast_ring_def process_slow_slot_def expire_fast_slot_def idle_callback_def Let_def
    split: Option.bind_splits if_splits prod.splits)

lemma rep_run_time [simp]: "tw_rep g (tw\<lparr>next_run_time := x\<rparr>) = tw_rep g tw" "tw_rep g (tw\<lparr>last_run_time := x\<rparr>) = tw_rep g tw"
  by (simp_all add: fun_eq_iff tw_rep_def tw_rep_at_def wheel_shape_def heads_def wheel_clock_def)

text \<open>
  C30. A run that the limit on expirations ends loses a tick: when the timers due at the first tick of a
  run reach the limit, the wheel has advanced by that tick, but \<open>last_run_time\<close> keeps its value (it is
  moved by \<open>0 * timer_interval\<close>), so that the next run counts the time of the tick again.
\<close>

theorem timer_limit_loses_tick:
  assumes "tw_rep g tw k T" and "timers_due T k \<noteq> {}"
    and "max_expirations tw \<le> word_of_nat (card (timers_due T k))"
    and "\<not> sf64_less now (next_run_time tw)"
    and "sf64_to_u32 (sf64_mult (ticks_per_second tw) (sf64_diff now (last_run_time tw))) = Some nticks" and "nticks \<noteq> 0"
    and "\<bar>fst (last_run_time tw)\<bar> < 2 ^ 53"
  shows "\<exists>tw' U handles. tw_timer_expire_timers g idle_callback tw st now =
      Some (tw', st, word_of_nat (card (timers_due T k)), [(word_of_nat k, handles)])
    \<and> tw_rep g tw' (k + 1) U \<and> current_tick tw' = word_of_nat (k + 1)
    \<and> sf64_val (last_run_time tw') = sf64_val (last_run_time tw)"
proof -
  let ?tw = "tw\<lparr>next_run_time := sf64_add now (timer_interval tw)\<rparr>"
  have R: "tw_rep g ?tw k T" using assms(1) by simp
  obtain tw' st' handles U where t: "tw_timer_tick g idle_callback ?tw st = Some (tw', st', handles)" "due_list T k handles"
    "tw_rep g tw' (k + 1) U" using tick_ok [OF R idle_passive refl, of st] by blast
  note f = idle_tick_fields [OF t(1)]
  have hs: "handles \<noteq> []" using due_list_empty [OF t(2)] assms(2) by simp
  have l: "length handles = card (timers_due T k)" using t(2) by (auto simp: due_list_def dest: distinct_card)
  have ct: "current_tick tw = word_of_nat k" "current_tick tw' = word_of_nat (k + 1)"
    using assms(1) t(3) by (auto simp: tw_rep_def tw_rep_at_def wheel_clock_def)
  have "0 < unat nticks" using assms(6) by (simp add: unat_gt_0)
  then have "tw_timer_ticks g idle_callback (unat nticks) ?tw st =
      Some ((tw', st, word_of_nat (card (timers_due T k)), 0, [(word_of_nat k, handles)]), True)"
    unfolding tw_timer_ticks_def using t(1) f assms(3) hs ct(1) by (subst for_until.simps) (simp add: l Let_def)
  then have "tw_timer_expire_timers g idle_callback tw st now =
      Some (tw'\<lparr>last_run_time := sf64_add (last_run_time tw) (sf64_mult (sf64_round 0 0) (timer_interval tw))\<rparr>, st,
        word_of_nat (card (timers_due T k)), [(word_of_nat k, handles)])"
    using assms(4-6) f by (simp add: tw_timer_expire_timers_def Let_def)
  then show ?thesis using t(3) ct(2) sf64_add_zero [OF assms(7)] by auto
qed

theorem timer_limit_loses_tick_witness:
  "\<exists>tw tw' U. tw_rep sample_geometry tw 1 U \<and> last_run_time tw = (0, 0) \<and> (\<exists>handles.
      tw_timer_expire_timers sample_geometry idle_callback tw () (1, 0) = Some (tw', (), 1, [(1, handles)])
      \<and> current_tick tw' = 2 \<and> sf64_val (last_run_time tw') = 0)"
proof -
  obtain tw where tw: "tw_rep sample_geometry tw 0 Map.empty" "room tw" "max_expirations tw = 1"
    "ticks_per_second tw = sf64_inverse (1, 0)" "last_run_time tw = (0, 0)" "next_run_time tw = (0, 0)" by (rule sample_wheel)
  then obtain A L where R: "tw_rep_at sample_geometry tw 0 Map.empty A L" by (auto simp: tw_rep_def)
  obtain p t L' where "tw_timer_start sample_geometry sample_memory tw 5 3 1 = Some (tw\<lparr>timers := p\<rparr>, t)"
    and s: "tw_rep_at sample_geometry (tw\<lparr>timers := p\<rparr>) 0 [t \<mapsto> (0 + unat (1 :: u32), 0x30000005)] A L'"
    using start_ok [OF R sample_interval(2) sample_handle, of sample_memory] tw(2) unfolding room_def by blast
  let ?tw = "tw\<lparr>timers := p\<rparr>" and ?T = "[t \<mapsto> (1, 0x30000005)] :: timer_map"
  have R1: "tw_rep sample_geometry ?tw 0 ?T" using s by (auto simp: tw_rep_def)
  obtain tw1 st hs where t1: "tw_timer_tick sample_geometry idle_callback ?tw () = Some (tw1, st, hs)"
    "tw_rep sample_geometry tw1 (0 + 1) (?T |` (- timers_due ?T 0))"
    using tick_ok [OF R1 idle_passive refl, of "()"] by blast
  have "?T |` (- timers_due ?T 0) = ?T" by (auto simp: fun_eq_iff restrict_map_def timers_due_def)
  then have R2: "tw_rep sample_geometry tw1 1 ?T" using t1(2) by simp
  have due: "timers_due ?T 1 = {t}" by (auto simp: timers_due_def split: if_splits)
  have f: "max_expirations tw1 = 1" "last_run_time tw1 = (0, 0)" "next_run_time tw1 = (0, 0)" "ticks_per_second tw1 = sf64_inverse (1, 0)"
    using idle_tick_fields [OF t1(1)] tw by auto
  have "sf64_to_u32 (sf64_mult (ticks_per_second tw1) (sf64_diff (1, 0) (last_run_time tw1))) = Some 1"
    unfolding f by (simp add: sf64_inverse_def sf64_diff_def sf64_add_def sf64_mult_def sf64_round_def sf64_to_u32_def f64_eval floorlog_eval)
  moreover have "\<not> sf64_less (1, 0) (next_run_time tw1)" unfolding f by (simp add: sf64_less_def)
  ultimately show ?thesis
    using timer_limit_loses_tick [OF R2, of "(1, 0)" 1 "()"] R2 due f by (auto simp: sf64_val_def)
qed

end
