(* ===== verification/Bfd_Protocol.thy ===== *)
theory Bfd_Protocol
  imports Vpp_Prelude
begin

text \<open>
  The packets of Bidirectional Forwarding Detection, \<^verbatim>\<open>vnet/bfd/bfd_protocol.c\<close> and
  \<^verbatim>\<open>bfd_protocol.h\<close>: the mandatory section with its bit fields, the SHA1 authentication section,
  their bytes in memory, the names of the codes, and the byte order helpers of
  \<^verbatim>\<open>vppinfra/byte_order.h\<close> on a little-endian machine. A field of 32 bits holds what the machine
  loads from the packet, so a number is in network order there. An enumeration that is read from a
  packet keeps its raw value; the two bits of the state are a datatype.
\<close>

section \<open>Byte order\<close>

definition clib_byte_swap_u16 :: "u16 \<Rightarrow> u16" where
  "clib_byte_swap_u16 x = drop_bit 8 x OR push_bit 8 x"

definition clib_byte_swap_u32 :: "u32 \<Rightarrow> u32" where
  "clib_byte_swap_u32 x =
    push_bit 24 x OR push_bit 8 (x AND 0xff00) OR (drop_bit 8 x AND 0xff00) OR drop_bit 24 x"

text \<open>The bytes of a 32-bit value in memory.\<close>

definition u32_bytes :: "u32 \<Rightarrow> u8 list" where
  "u32_bytes x = [ucast x, ucast (drop_bit 8 x), ucast (drop_bit 16 x), ucast (drop_bit 24 x)]"

section \<open>Packets\<close>

datatype bfd_state = BFD_STATE_admin_down | BFD_STATE_down | BFD_STATE_init | BFD_STATE_up

definition bfd_state_code :: "bfd_state \<Rightarrow> u32" where
  "bfd_state_code s =
    (case s of BFD_STATE_admin_down \<Rightarrow> 0 | BFD_STATE_down \<Rightarrow> 1 | BFD_STATE_init \<Rightarrow> 2 | BFD_STATE_up \<Rightarrow> 3)"

text \<open>The state that the two bits of a packet stand for; only the four values occur.\<close>

definition bfd_state_of :: "u8 \<Rightarrow> bfd_state" where
  "bfd_state_of w =
    (if w = 0 then BFD_STATE_admin_down else if w = 1 then BFD_STATE_down
     else if w = 2 then BFD_STATE_init else BFD_STATE_up)"

abbreviation BFD_DIAG_CODE_no_diag :: u8 where "BFD_DIAG_CODE_no_diag \<equiv> 0"
abbreviation BFD_DIAG_CODE_det_time_exp :: u8 where "BFD_DIAG_CODE_det_time_exp \<equiv> 1"
abbreviation BFD_DIAG_CODE_echo_failed :: u8 where "BFD_DIAG_CODE_echo_failed \<equiv> 2"
abbreviation BFD_DIAG_CODE_neighbor_sig_down :: u8 where "BFD_DIAG_CODE_neighbor_sig_down \<equiv> 3"
abbreviation BFD_DIAG_CODE_admin_down :: u8 where "BFD_DIAG_CODE_admin_down \<equiv> 7"

abbreviation BFD_AUTH_TYPE_reserved :: u8 where "BFD_AUTH_TYPE_reserved \<equiv> 0"
abbreviation BFD_AUTH_TYPE_simple_password :: u8 where "BFD_AUTH_TYPE_simple_password \<equiv> 1"
abbreviation BFD_AUTH_TYPE_keyed_md5 :: u8 where "BFD_AUTH_TYPE_keyed_md5 \<equiv> 2"
abbreviation BFD_AUTH_TYPE_meticulous_keyed_md5 :: u8 where "BFD_AUTH_TYPE_meticulous_keyed_md5 \<equiv> 3"
abbreviation BFD_AUTH_TYPE_keyed_sha1 :: u8 where "BFD_AUTH_TYPE_keyed_sha1 \<equiv> 4"
abbreviation BFD_AUTH_TYPE_meticulous_keyed_sha1 :: u8 where "BFD_AUTH_TYPE_meticulous_keyed_sha1 \<equiv> 5"

record bfd_pkt =
  vers_diag :: u8
  sta_flags :: u8
  detect_mult :: u8
  head_length :: u8
  my_disc :: u32
  your_disc :: u32
  des_min_tx :: u32
  req_min_rx :: u32
  req_min_echo_rx :: u32

record bfd_auth_sha1 =
  sha1_type :: u8
  sha1_len :: u8
  sha1_key_id :: u8
  sha1_reserved :: u8
  sha1_seq_num :: u32
  sha1_hash :: "u8 list"

text \<open>
  A packet in its buffer, read through \<open>bfd_pkt_with_sha1_auth_t\<close>. What lies beyond the bytes that
  were received is whatever the buffer holds there; the number of received bytes is kept apart.
\<close>

record bfd_frame =
  frame_pkt :: bfd_pkt
  frame_auth :: bfd_auth_sha1

definition bfd_pkt_zero :: bfd_pkt where
  "bfd_pkt_zero = \<lparr>vers_diag = 0, sta_flags = 0, detect_mult = 0, head_length = 0, my_disc = 0, your_disc = 0,
     des_min_tx = 0, req_min_rx = 0, req_min_echo_rx = 0\<rparr>"

abbreviation sizeof_bfd_pkt :: nat where "sizeof_bfd_pkt \<equiv> 24"
abbreviation sizeof_bfd_pkt_with_common_auth :: nat where "sizeof_bfd_pkt_with_common_auth \<equiv> 26"
abbreviation sizeof_bfd_auth_sha1 :: nat where "sizeof_bfd_auth_sha1 \<equiv> 28"
abbreviation sizeof_bfd_pkt_with_sha1_auth :: nat where "sizeof_bfd_pkt_with_sha1_auth \<equiv> 52"

definition bfd_pkt_bytes :: "bfd_pkt \<Rightarrow> u8 list" where
  "bfd_pkt_bytes p = [vers_diag p, sta_flags p, detect_mult p, head_length p] @ u32_bytes (my_disc p)
    @ u32_bytes (your_disc p) @ u32_bytes (des_min_tx p) @ u32_bytes (req_min_rx p) @ u32_bytes (req_min_echo_rx p)"

definition bfd_auth_sha1_bytes :: "bfd_auth_sha1 \<Rightarrow> u8 list" where
  "bfd_auth_sha1_bytes a =
    [sha1_type a, sha1_len a, sha1_key_id a, sha1_reserved a] @ u32_bytes (sha1_seq_num a) @ sha1_hash a"

definition bfd_frame_bytes :: "bfd_frame \<Rightarrow> u8 list" where
  "bfd_frame_bytes f = bfd_pkt_bytes (frame_pkt f) @ bfd_auth_sha1_bytes (frame_auth f)"

section \<open>Fields of the first word\<close>

definition bfd_pkt_get_version :: "bfd_pkt \<Rightarrow> u8" where
  "bfd_pkt_get_version pkt = drop_bit 5 (vers_diag pkt)"

definition bfd_pkt_set_version :: "u32 \<Rightarrow> bfd_pkt \<Rightarrow> bfd_pkt" where
  "bfd_pkt_set_version version pkt =
    pkt\<lparr>vers_diag := ucast (push_bit 5 version OR (ucast (vers_diag pkt) AND 31))\<rparr>"

definition bfd_pkt_get_diag_code :: "bfd_pkt \<Rightarrow> u8" where
  "bfd_pkt_get_diag_code pkt = vers_diag pkt AND 31"

definition bfd_pkt_set_diag_code :: "u32 \<Rightarrow> bfd_pkt \<Rightarrow> bfd_pkt" where
  "bfd_pkt_set_diag_code value pkt =
    pkt\<lparr>vers_diag := ucast ((ucast (vers_diag pkt) AND NOT 31) OR (value AND 31))\<rparr>"

definition bfd_pkt_get_state :: "bfd_pkt \<Rightarrow> u8" where
  "bfd_pkt_get_state pkt = drop_bit 6 (sta_flags pkt)"

definition bfd_pkt_set_state :: "u32 \<Rightarrow> bfd_pkt \<Rightarrow> bfd_pkt" where
  "bfd_pkt_set_state value pkt =
    pkt\<lparr>sta_flags := ucast (push_bit 6 value OR (ucast (sta_flags pkt) AND 63))\<rparr>"

definition bfd_pkt_get_poll :: "bfd_pkt \<Rightarrow> u8" where
  "bfd_pkt_get_poll pkt = drop_bit 5 (sta_flags pkt) AND 1"

definition bfd_pkt_set_poll :: "bfd_pkt \<Rightarrow> bfd_pkt" where
  "bfd_pkt_set_poll pkt = pkt\<lparr>sta_flags := sta_flags pkt OR push_bit 5 1\<rparr>"

definition bfd_pkt_get_final :: "bfd_pkt \<Rightarrow> u8" where
  "bfd_pkt_get_final pkt = drop_bit 4 (sta_flags pkt) AND 1"

definition bfd_pkt_set_final :: "bfd_pkt \<Rightarrow> bfd_pkt" where
  "bfd_pkt_set_final pkt = pkt\<lparr>sta_flags := sta_flags pkt OR push_bit 4 1\<rparr>"

definition bfd_pkt_get_control_plane_independent :: "bfd_pkt \<Rightarrow> u8" where
  "bfd_pkt_get_control_plane_independent pkt = drop_bit 3 (sta_flags pkt) AND 1"

definition bfd_pkt_get_auth_present :: "bfd_pkt \<Rightarrow> u8" where
  "bfd_pkt_get_auth_present pkt = drop_bit 2 (sta_flags pkt) AND 1"

definition bfd_pkt_set_auth_present :: "bfd_pkt \<Rightarrow> bfd_pkt" where
  "bfd_pkt_set_auth_present pkt = pkt\<lparr>sta_flags := sta_flags pkt OR push_bit 2 1\<rparr>"

definition bfd_pkt_get_demand :: "bfd_pkt \<Rightarrow> u8" where
  "bfd_pkt_get_demand pkt = drop_bit 1 (sta_flags pkt) AND 1"

definition bfd_pkt_get_multipoint :: "bfd_pkt \<Rightarrow> u8" where
  "bfd_pkt_get_multipoint pkt = drop_bit 0 (sta_flags pkt) AND 1"

section \<open>Names and limits of the codes\<close>

definition bfd_max_key_len_for_auth_type :: "u8 \<Rightarrow> u32" where
  "bfd_max_key_len_for_auth_type auth_type =
    (if auth_type = BFD_AUTH_TYPE_reserved then 0
     else if auth_type = BFD_AUTH_TYPE_simple_password then 16
     else if auth_type = BFD_AUTH_TYPE_keyed_md5 then 16
     else if auth_type = BFD_AUTH_TYPE_meticulous_keyed_md5 then 16
     else if auth_type = BFD_AUTH_TYPE_keyed_sha1 then 20
     else if auth_type = BFD_AUTH_TYPE_meticulous_keyed_sha1 then 20 else 0)"

definition bfd_auth_type_str :: "u8 \<Rightarrow> string" where
  "bfd_auth_type_str auth_type =
    (if auth_type = BFD_AUTH_TYPE_reserved then ''Reserved''
     else if auth_type = BFD_AUTH_TYPE_simple_password then ''Simple Password''
     else if auth_type = BFD_AUTH_TYPE_keyed_md5 then ''Keyed MD5''
     else if auth_type = BFD_AUTH_TYPE_meticulous_keyed_md5 then ''Meticulous Keyed MD5''
     else if auth_type = BFD_AUTH_TYPE_keyed_sha1 then ''Keyed SHA1''
     else if auth_type = BFD_AUTH_TYPE_meticulous_keyed_sha1 then ''Meticulous Keyed SHA1'' else ''UNKNOWN'')"

definition bfd_auth_type_is_meticulous :: "u8 \<Rightarrow> bool" where
  "bfd_auth_type_is_meticulous auth_type =
    (BFD_AUTH_TYPE_meticulous_keyed_md5 = auth_type \<or> BFD_AUTH_TYPE_meticulous_keyed_sha1 = auth_type)"

definition bfd_auth_type_supported :: "u8 \<Rightarrow> bool" where
  "bfd_auth_type_supported auth_type =
    (auth_type = BFD_AUTH_TYPE_keyed_sha1 \<or> auth_type = BFD_AUTH_TYPE_meticulous_keyed_sha1)"

section \<open>Checks that do not need a session\<close>

definition bfd_verify_pkt_common :: "bfd_pkt \<Rightarrow> bool" where
  "bfd_verify_pkt_common pkt =
    (if bfd_pkt_get_version pkt \<noteq> 1 then False
     else if unat (head_length pkt) < sizeof_bfd_pkt
          \<or> (bfd_pkt_get_auth_present pkt \<noteq> 0 \<and> unat (head_length pkt) < sizeof_bfd_pkt_with_common_auth) then False
     else if detect_mult pkt = 0 then False
     else if bfd_pkt_get_multipoint pkt \<noteq> 0 then False
     else if my_disc pkt = 0 then False
     else if your_disc pkt = 0
          \<and> bfd_state_of (bfd_pkt_get_state pkt) \<noteq> BFD_STATE_down
          \<and> bfd_state_of (bfd_pkt_get_state pkt) \<noteq> BFD_STATE_admin_down then False
     else True)"

section \<open>Round trips\<close>

lemma bit_byte_swap_u32:
  "bit (clib_byte_swap_u32 x) n \<longleftrightarrow> n < 32 \<and> bit x (if n < 8 then n + 24 else if n < 16 then n + 8 else if n < 24 then n - 8 else n - 24)"
proof -
  have "(0xff00 :: u32) = push_bit 8 (mask 8)" by (simp add: mask_eq_exp_minus_1)
  then have b: "bit (0xff00 :: u32) m \<longleftrightarrow> 8 \<le> m \<and> m < 16" for m
    by (simp only: bit_push_bit_iff bit_mask_iff possible_bit_word) auto
  have l: "bit x m \<Longrightarrow> m < 32" for m using bit_imp_le_length [of x m] by simp
  show ?thesis
    unfolding clib_byte_swap_u32_def bit_or_iff bit_and_iff bit_push_bit_iff bit_drop_bit_eq o_def possible_bit_word b
    using l [of "n + 24"] by (auto simp: not_less add.commute)
qed

lemma clib_byte_swap_u32_involution [simp]: "clib_byte_swap_u32 (clib_byte_swap_u32 x) = x"
  by (rule bit_eqI) (auto simp: bit_byte_swap_u32)

lemma bfd_state_of_code [simp]: "bfd_state_of (ucast (bfd_state_code s)) = s"
  by (cases s) (simp_all add: bfd_state_of_def bfd_state_code_def)

end
