(* ===== verification/Bfd_Session.thy ===== *)
theory Bfd_Session
  imports Bfd_Protocol Pool C_Sf64 "HOL-Library.Monad_Syntax"
begin

text \<open>
  Sessions of Bidirectional Forwarding Detection, \<^verbatim>\<open>vnet/bfd/bfd_main.c\<close> and \<^verbatim>\<open>bfd_main.h\<close>: the
  intervals and timers of a session, its states, the control and echo frames it sends, the packets it
  consumes. An operation on a session works on a pair of the global state and the session that its
  pointer argument refers to; the entry points load it from the pool and store it back. A session
  points to its authentication keys; the pointer is the index in the pool of keys, and a move of the pool
  that would leave a pointer dangling is undefined in \<open>bfd_auth_set_key\<close>.

  \<open>now\<close> is the value of one reading of \<open>clib_cpu_time_now\<close>, so an operation that reads the clock twice
  has two such arguments. Calls out of this file are recorded in order in \<open>bfd_calls\<close>; what the
  calls return is in a record \<open>bfd_env\<close>, as is the digest SHA1. A conversion of a double that C leaves
  undefined, and a failed assertion, is \<open>None\<close>. The build has OpenSSL and SSE4.2.
\<close>

section \<open>Data\<close>

datatype bfd_transport = BFD_TRANSPORT_UDP4 | BFD_TRANSPORT_UDP6

datatype bfd_poll_state = BFD_POLL_NOT_NEEDED | BFD_POLL_NEEDED | BFD_POLL_IN_PROGRESS | BFD_POLL_IN_PROGRESS_AND_QUEUED

datatype bfd_process_event = BFD_EVENT_RESCHEDULE | BFD_EVENT_NEW_SESSION | BFD_EVENT_CONFIG_CHANGED

record bfd_auth_key =
  conf_key_id :: u32
  use_count :: u32
  key_data :: "u8 list"
  key_auth_type :: u8

record bfd_auth =
  curr_key :: "nat option"
  next_key :: "nat option"
  local_seq_number :: u32
  remote_seq_number :: u32
  remote_seq_number_known :: u8
  curr_bfd_key_id :: u8
  next_bfd_key_id :: u8
  is_delayed :: u8

record ip46_address =
  ip46_first :: u64
  ip46_second :: u64

record bfd_udp_key =
  key_sw_if_index :: u32
  local_addr :: ip46_address
  peer_addr :: ip46_address

record bfd_udp_session =
  udp_key :: bfd_udp_key
  adj_index :: u32

record bfd_session =
  bs_idx :: u32
  local_state :: bfd_state
  remote_state :: bfd_state
  local_diag :: u8
  remote_diag :: u8
  local_discr :: u32
  remote_discr :: u32
  config_desired_min_tx_usec :: u32
  config_desired_min_tx_clocks :: u64
  effective_desired_min_tx_clocks :: u64
  config_required_min_rx_usec :: u32
  config_required_min_rx_clocks :: u64
  effective_required_min_rx_clocks :: u64
  remote_min_rx_usec :: u64
  remote_min_rx_clocks :: u64
  remote_min_echo_rx_usec :: u64
  remote_min_echo_rx_clocks :: u64
  remote_desired_min_tx_clocks :: u64
  local_detect_mult :: u8
  remote_demand :: u8
  remote_detect_mult :: u8
  bs_echo :: u8
  wheel_time_clocks :: u64
  transmit_interval_clocks :: u64
  tx_timeout_clocks :: u64
  last_tx_clocks :: u64
  last_rx_clocks :: u64
  echo_transmit_interval_clocks :: u64
  echo_tx_timeout_clocks :: u64
  echo_last_tx_clocks :: u64
  echo_last_rx_clocks :: u64
  echo_secret :: u32
  detection_time_clocks :: u64
  poll_state :: bfd_poll_state
  poll_state_start_or_timeout_clocks :: u64
  bs_auth :: bfd_auth
  bs_transport :: bfd_transport
  bs_udp :: bfd_udp_session

record bfd_echo_pkt =
  echo_discriminator :: u32
  expire_time_clocks :: u64
  echo_pkt_checksum :: u64

text \<open>The calls into the rest of VPP.\<close>

datatype bfd_out_call =
    Timing_Wheel_Insert u64 u32
  | Process_Signal_Event bfd_process_event u32
  | Bfd_Event u32 bfd_state
  | Transmit_Control u32 bfd_frame nat
  | Transmit_Echo u32 bfd_echo_pkt
  | Buffer_Free

record bfd_main =
  sessions :: "bfd_session pool"
  wheel_inaccuracy :: u64
  session_by_disc :: "u32 \<Rightarrow> nat option"
  cpu_cps :: f64
  default_desired_min_tx_clocks :: u64
  min_required_min_rx_while_echo_clocks :: u64
  random_seed :: u32
  auth_keys :: "bfd_auth_key pool"
  auth_key_by_conf_key_id :: "u32 \<Rightarrow> nat option"
  bfd_calls :: "bfd_out_call list"

type_synonym bfd_ctx = "bfd_main \<times> bfd_session"

text \<open>
  Results of calls: whether a buffer is available and what it holds beyond the mandatory section,
  whether the transport took the frame, whether the echo function is available and its headers
  could be built, the digest, and whether the calls of OpenSSL that compute it in pieces succeed.
\<close>

record bfd_env =
  buffer_alloc_ok :: bool
  buffer_memory :: bfd_auth_sha1
  transport_ok :: bool
  echo_available :: "bfd_transport \<Rightarrow> bool"
  echo_transport_layer_ok :: bool
  SHA1 :: "u8 list \<Rightarrow> u8 list"
  SHA1_ok :: bool

definition bfd_call :: "bfd_out_call \<Rightarrow> bfd_main \<Rightarrow> bfd_main" where
  "bfd_call c bm = bm\<lparr>bfd_calls := bfd_calls bm @ [c]\<rparr>"

section \<open>Numbers\<close>

definition random_u32 :: "u32 \<Rightarrow> u32" where
  "random_u32 seed = 1664525 * seed + 1013904223"

definition random_f64 :: "u32 \<Rightarrow> sf64 \<times> u32" where
  "random_f64 seed =
    (let seed = random_u32 seed; r = f64_div (f64_of_nat (unat seed)) (f64_of_nat 0xffffffff)
     in ((int (fst r), snd r), seed))"

definition bfd_usec_to_clocks :: "bfd_main \<Rightarrow> u64 \<Rightarrow> u64 option" where
  "bfd_usec_to_clocks bm us =
    f64_to_u64 (f64_mult (cpu_cps bm) (f64_div (f64_of_nat (unat us)) (f64_of_nat 1000000)))"

definition bfd_clocks_to_usec :: "bfd_main \<Rightarrow> u64 \<Rightarrow> u32 option" where
  "bfd_clocks_to_usec bm clocks =
    f64_to_u32 (f64_mult (f64_div (f64_of_nat (unat clocks)) (cpu_cps bm)) (f64_of_nat 1000000))"

text \<open>One bit of the instruction \<open>crc32\<close>, and the instruction on 64 bits.\<close>

definition crc32_bit :: "u32 \<Rightarrow> u32" where
  "crc32_bit c = (if bit c 0 then drop_bit 1 c XOR 0x82f63b78 else drop_bit 1 c)"

definition mm_crc32_u64 :: "u64 \<Rightarrow> u64 \<Rightarrow> u64" where
  "mm_crc32_u64 crc v =
    ucast (foldl (\<lambda>c i. crc32_bit (c XOR (if bit v i then 1 else 0))) (ucast crc :: u32) [0..<64])"

definition bfd_calc_echo_checksum :: "u32 \<Rightarrow> u64 \<Rightarrow> u32 \<Rightarrow> u64" where
  "bfd_calc_echo_checksum discriminator expire_time secret =
    (let checksum = mm_crc32_u64 0 (ucast discriminator);
         checksum = mm_crc32_u64 checksum expire_time
     in mm_crc32_u64 checksum (ucast secret))"

section \<open>Intervals and timers\<close>

definition bfd_set_defaults :: "bfd_ctx \<Rightarrow> bfd_ctx option" where
  "bfd_set_defaults ctx = (let (bm, bs) = ctx in do {
     rx_clocks \<leftarrow> bfd_usec_to_clocks bm 1;
     let s1 = random_u32 (random_seed bm);
     let s2 = random_u32 s1;
     Some (bm\<lparr>random_seed := s2\<rparr>,
       bs\<lparr>local_state := BFD_STATE_down, local_diag := BFD_DIAG_CODE_no_diag,
          remote_state := BFD_STATE_down, remote_discr := 0,
          config_desired_min_tx_usec := 1000000,
          config_desired_min_tx_clocks := default_desired_min_tx_clocks bm,
          effective_desired_min_tx_clocks := default_desired_min_tx_clocks bm,
          remote_min_rx_usec := 1, remote_min_rx_clocks := rx_clocks,
          remote_min_echo_rx_usec := 0, remote_min_echo_rx_clocks := 0, remote_demand := 0,
          bs_auth := (bs_auth bs)\<lparr>remote_seq_number := 0, remote_seq_number_known := 0, local_seq_number := s1\<rparr>,
          echo_secret := s2\<rparr>)
   })"

definition bfd_set_diag :: "u8 \<Rightarrow> bfd_ctx \<Rightarrow> bfd_ctx" where
  "bfd_set_diag code ctx = (let (bm, bs) = ctx in
     if local_diag bs \<noteq> code then (bm, bs\<lparr>local_diag := code\<rparr>) else (bm, bs))"

definition bfd_set_poll_state :: "bfd_poll_state \<Rightarrow> bfd_ctx \<Rightarrow> bfd_ctx" where
  "bfd_set_poll_state state ctx = (let (bm, bs) = ctx in
     if poll_state bs \<noteq> state then (bm, bs\<lparr>poll_state := state\<rparr>) else (bm, bs))"

definition bfd_recalc_tx_interval :: "bfd_ctx \<Rightarrow> bfd_ctx" where
  "bfd_recalc_tx_interval ctx = (let (bm, bs) = ctx in
     (bm, bs\<lparr>transmit_interval_clocks := max (effective_desired_min_tx_clocks bs) (remote_min_rx_clocks bs)\<rparr>))"

definition bfd_recalc_echo_tx_interval :: "bfd_ctx \<Rightarrow> bfd_ctx" where
  "bfd_recalc_echo_tx_interval ctx = (let (bm, bs) = ctx in
     (bm, bs\<lparr>echo_transmit_interval_clocks := max (effective_desired_min_tx_clocks bs) (remote_min_echo_rx_clocks bs)\<rparr>))"

text \<open>The doubles nearest to .25, .9 and .15.\<close>

definition f64_quarter :: sf64 where "f64_quarter = (1, -2)"

definition f64_0_9 :: sf64 where "f64_0_9 = (8106479329266893, -53)"

definition f64_0_15 :: sf64 where "f64_0_15 = (5404319552844595, -55)"

definition bfd_calc_next_tx :: "u64 \<Rightarrow> bfd_ctx \<Rightarrow> bfd_ctx option" where
  "bfd_calc_next_tx now ctx = (let (bm, bs) = ctx; (r, seed) = random_f64 (random_seed bm) in do {
     let factor = (if 1 < local_detect_mult bs
                   then sf64_diff (1, 0) (sf64_mult f64_quarter r)
                   else sf64_diff f64_0_9 (sf64_mult f64_0_15 r));
     timeout \<leftarrow> sf64_to_u64 (sf64_add (sf64_of_u64 (last_tx_clocks bs))
       (sf64_mult factor (sf64_of_u64 (transmit_interval_clocks bs))));
     Some (bm\<lparr>random_seed := seed\<rparr>, bs\<lparr>tx_timeout_clocks := (if timeout < now then now else timeout)\<rparr>)
   })"

definition bfd_calc_next_echo_tx :: "u64 \<Rightarrow> bfd_ctx \<Rightarrow> bfd_ctx" where
  "bfd_calc_next_echo_tx now ctx = (let (bm, bs) = ctx;
     timeout = echo_last_tx_clocks bs + echo_transmit_interval_clocks bs
     in (bm, bs\<lparr>echo_tx_timeout_clocks := (if timeout < now then now else timeout)\<rparr>))"

definition bfd_recalc_detection_time :: "bfd_ctx \<Rightarrow> bfd_ctx" where
  "bfd_recalc_detection_time ctx = (let (bm, bs) = ctx in
     if local_state bs = BFD_STATE_init \<or> local_state bs = BFD_STATE_up
     then (bm, bs\<lparr>detection_time_clocks :=
       ucast (remote_detect_mult bs) * max (effective_required_min_rx_clocks bs) (remote_desired_min_tx_clocks bs)\<rparr>)
     else (bm, bs))"

text \<open>The moment at which the session has to be looked at next; 0 if there is none.\<close>

definition bfd_next_timeout :: "bfd_session \<Rightarrow> u64" where
  "bfd_next_timeout bs =
    (let rx_timeout = (if BFD_STATE_up = local_state bs then last_rx_clocks bs + detection_time_clocks bs else 0);
         tx_timeout = (if BFD_STATE_up \<noteq> local_state bs \<or> (remote_demand bs = 0 \<and> remote_min_rx_usec bs \<noteq> 0)
                          \<or> BFD_POLL_NOT_NEEDED \<noteq> poll_state bs then tx_timeout_clocks bs else 0);
         next = (if tx_timeout \<noteq> 0 \<and> rx_timeout \<noteq> 0 then min tx_timeout rx_timeout
                 else if tx_timeout \<noteq> 0 then tx_timeout
                 else if rx_timeout \<noteq> 0 then rx_timeout else 0)
     in if bs_echo bs \<noteq> 0 \<and> echo_tx_timeout_clocks bs < next then echo_tx_timeout_clocks bs else next)"

definition bfd_set_timer :: "u64 \<Rightarrow> bool \<Rightarrow> bfd_ctx \<Rightarrow> bfd_ctx" where
  "bfd_set_timer now handling_wakeup ctx = (let (bm, bs) = ctx; next = bfd_next_timeout bs in
     if next \<noteq> 0 \<and> (wheel_time_clocks bs < now + wheel_inaccuracy bm \<or> next < wheel_time_clocks bs
                      \<or> wheel_time_clocks bs = 0)
     then let bs = bs\<lparr>wheel_time_clocks := next\<rparr>;
              bm = bfd_call (Timing_Wheel_Insert next (bs_idx bs)) bm
          in (if \<not> handling_wakeup then bfd_call (Process_Signal_Event BFD_EVENT_RESCHEDULE (bs_idx bs)) bm else bm, bs)
     else (bm, bs))"

definition bfd_set_effective_desired_min_tx :: "u64 \<Rightarrow> u64 \<Rightarrow> bfd_ctx \<Rightarrow> bfd_ctx option" where
  "bfd_set_effective_desired_min_tx now desired_min_tx_clocks ctx = (let (bm, bs) = ctx in
     bfd_calc_next_tx now (bfd_recalc_echo_tx_interval (bfd_recalc_tx_interval (bfd_recalc_detection_time
       (bm, bs\<lparr>effective_desired_min_tx_clocks := desired_min_tx_clocks\<rparr>)))))"

definition bfd_set_effective_required_min_rx :: "u64 \<Rightarrow> bfd_ctx \<Rightarrow> bfd_ctx" where
  "bfd_set_effective_required_min_rx required_min_rx_clocks ctx = (let (bm, bs) = ctx in
     bfd_recalc_detection_time (bm, bs\<lparr>effective_required_min_rx_clocks := required_min_rx_clocks\<rparr>))"

definition bfd_set_remote_required_min_rx :: "u32 \<Rightarrow> bfd_ctx \<Rightarrow> bfd_ctx option" where
  "bfd_set_remote_required_min_rx usec ctx = (let (bm, bs) = ctx in
     if remote_min_rx_usec bs \<noteq> ucast usec
     then do {
       clocks \<leftarrow> bfd_usec_to_clocks bm (ucast usec);
       Some (bfd_recalc_tx_interval (bfd_recalc_detection_time
         (bm, bs\<lparr>remote_min_rx_usec := ucast usec, remote_min_rx_clocks := clocks\<rparr>)))}
     else Some (bm, bs))"

definition bfd_set_remote_required_min_echo_rx :: "u32 \<Rightarrow> bfd_ctx \<Rightarrow> bfd_ctx option" where
  "bfd_set_remote_required_min_echo_rx usec ctx = (let (bm, bs) = ctx in
     if remote_min_echo_rx_usec bs \<noteq> ucast usec
     then do {
       clocks \<leftarrow> bfd_usec_to_clocks bm (ucast usec);
       Some (bfd_recalc_echo_tx_interval
         (bm, bs\<lparr>remote_min_echo_rx_usec := ucast usec, remote_min_echo_rx_clocks := clocks\<rparr>))}
     else Some (bm, bs))"

section \<open>States\<close>

definition bfd_on_state_change :: "u64 \<Rightarrow> bool \<Rightarrow> bfd_ctx \<Rightarrow> bfd_ctx option" where
  "bfd_on_state_change now handling_wakeup ctx = (let (bm, bs) = ctx;
     bm = bfd_call (Bfd_Event (bs_idx bs) (local_state bs)) bm;
     slow = max (config_desired_min_tx_clocks bs) (default_desired_min_tx_clocks bm)
   in case local_state bs of
       BFD_STATE_admin_down \<Rightarrow> do {
         ctx \<leftarrow> bfd_set_effective_desired_min_tx now slow (bm, bs\<lparr>bs_echo := 0\<rparr>);
         Some (bfd_set_timer now handling_wakeup
           (bfd_set_effective_required_min_rx (config_required_min_rx_clocks bs) ctx))}
     | BFD_STATE_down \<Rightarrow> do {
         ctx \<leftarrow> bfd_set_effective_desired_min_tx now slow (bm, bs\<lparr>bs_echo := 0\<rparr>);
         Some (bfd_set_timer now handling_wakeup
           (bfd_set_effective_required_min_rx (config_required_min_rx_clocks bs) ctx))}
     | BFD_STATE_init \<Rightarrow> do {
         ctx \<leftarrow> bfd_set_effective_desired_min_tx now (config_desired_min_tx_clocks bs) (bm, bs\<lparr>bs_echo := 0\<rparr>);
         Some (bfd_set_timer now handling_wakeup ctx)}
     | BFD_STATE_up \<Rightarrow> do {
         ctx \<leftarrow> bfd_set_effective_desired_min_tx now (config_desired_min_tx_clocks bs) (bm, bs);
         let ctx = (if BFD_POLL_NOT_NEEDED = poll_state bs
                    then bfd_set_effective_required_min_rx (config_required_min_rx_clocks bs) ctx else ctx);
         Some (bfd_set_timer now handling_wakeup ctx)})"

definition bfd_set_state :: "u64 \<Rightarrow> bfd_state \<Rightarrow> bool \<Rightarrow> bfd_ctx \<Rightarrow> bfd_ctx option" where
  "bfd_set_state now new_state handling_wakeup ctx = (let (bm, bs) = ctx in
     if local_state bs \<noteq> new_state
     then bfd_on_state_change now handling_wakeup (bm, bs\<lparr>local_state := new_state\<rparr>)
     else Some (bm, bs))"

definition bfd_session_start :: "bfd_ctx \<Rightarrow> bfd_ctx" where
  "bfd_session_start ctx = (let (bm, bs) = ctx;
     (bm, bs) = bfd_recalc_tx_interval (bfd_set_effective_required_min_rx (config_required_min_rx_clocks bs) (bm, bs))
     in (bfd_call (Process_Signal_Event BFD_EVENT_NEW_SESSION (bs_idx bs)) bm, bs))"

text \<open>\<open>now\<close> is read at the beginning, \<open>now'\<close> by the change of the state.\<close>

definition bfd_session_set_flags :: "u64 \<Rightarrow> u64 \<Rightarrow> u8 \<Rightarrow> bfd_ctx \<Rightarrow> bfd_ctx option" where
  "bfd_session_set_flags now now' admin_up_down ctx =
    (if admin_up_down \<noteq> 0
     then do {
       ctx \<leftarrow> bfd_set_state now' BFD_STATE_down False ctx;
       ctx \<leftarrow> bfd_calc_next_tx now (bfd_set_diag BFD_DIAG_CODE_no_diag ctx);
       Some (bfd_set_timer now False ctx)}
     else do {
       ctx \<leftarrow> bfd_set_state now' BFD_STATE_admin_down False (bfd_set_diag BFD_DIAG_CODE_admin_down ctx);
       ctx \<leftarrow> bfd_calc_next_tx now ctx;
       Some (bfd_set_timer now False ctx)})"

definition bfd_on_config_change :: "u64 \<Rightarrow> bfd_ctx \<Rightarrow> bfd_ctx" where
  "bfd_on_config_change now ctx = (let (bm, bs) = ctx;
     bs = (if remote_demand bs \<noteq> 0 \<and> BFD_POLL_NEEDED = poll_state bs \<and> poll_state_start_or_timeout_clocks bs < now
           then bs\<lparr>tx_timeout_clocks := now\<rparr> else bs)
     in bfd_set_timer now False (bfd_recalc_detection_time (bm, bs)))"

definition bfd_session_set_params :: "u32 \<Rightarrow> u32 \<Rightarrow> u8 \<Rightarrow> bfd_ctx \<Rightarrow> bfd_ctx option" where
  "bfd_session_set_params desired_min_tx_usec required_min_rx_usec mult ctx = (let (bm, bs) = ctx;
     changed = (config_desired_min_tx_usec bs \<noteq> desired_min_tx_usec \<or> config_required_min_rx_usec bs \<noteq> required_min_rx_usec)
   in if local_detect_mult bs \<noteq> mult \<or> changed
      then let (bm, bs) = (case poll_state bs of
             BFD_POLL_NOT_NEEDED \<Rightarrow>
               if (BFD_STATE_up = local_state bs \<or> BFD_STATE_init = local_state bs) \<and> changed
               then bfd_set_poll_state BFD_POLL_NEEDED (bm, bs) else (bm, bs)
           | BFD_POLL_NEEDED \<Rightarrow> (bm, bs)
           | BFD_POLL_IN_PROGRESS_AND_QUEUED \<Rightarrow> (bm, bs)
           | BFD_POLL_IN_PROGRESS \<Rightarrow>
               if changed then bfd_set_poll_state BFD_POLL_IN_PROGRESS_AND_QUEUED (bm, bs) else (bm, bs))
      in do {
        tx_clocks \<leftarrow> bfd_usec_to_clocks bm (ucast desired_min_tx_usec);
        rx_clocks \<leftarrow> bfd_usec_to_clocks bm (ucast required_min_rx_usec);
        Some (bfd_call (Process_Signal_Event BFD_EVENT_CONFIG_CHANGED (bs_idx bs)) bm,
          bs\<lparr>local_detect_mult := mult, config_desired_min_tx_usec := desired_min_tx_usec,
             config_desired_min_tx_clocks := tx_clocks, config_required_min_rx_usec := required_min_rx_usec,
             config_required_min_rx_clocks := rx_clocks\<rparr>)}
      else Some (bm, bs))"

end
