(* ===== verification/Bfd_Engine.thy ===== *)
theory Bfd_Engine
  imports Bfd_Session
begin

text \<open>
  What a BFD session does, \<^verbatim>\<open>vnet/bfd/bfd_main.c\<close>: the control and echo frames it builds and sends,
  the detection of a silent peer, the packets it consumes, and the process node that drives the
  sessions.
\<close>

section \<open>Control frames\<close>

definition bfd_init_control_frame :: "bfd_ctx \<Rightarrow> bfd_pkt option" where
  "bfd_init_control_frame ctx = (let (bm, bs) = ctx;
     pkt = bfd_pkt_set_state (bfd_state_code (local_state bs))
             (bfd_pkt_set_diag_code (ucast (local_diag bs)) (bfd_pkt_set_version 1 bfd_pkt_zero))
   in do {
     rx \<leftarrow> (if bs_echo bs \<noteq> 0 then bfd_clocks_to_usec bm (effective_required_min_rx_clocks bs)
             else Some (config_required_min_rx_usec bs));
     Some (pkt\<lparr>detect_mult := local_detect_mult bs, head_length := word_of_nat sizeof_bfd_pkt,
       my_disc := local_discr bs, your_disc := remote_discr bs,
       des_min_tx := clib_byte_swap_u32 (config_desired_min_tx_usec bs),
       req_min_rx := clib_byte_swap_u32 rx, req_min_echo_rx := clib_byte_swap_u32 1\<rparr>)
   })"

text \<open>The authenticated packet while the hash field holds the key.\<close>

definition bfd_sha1_unsigned :: "bfd_auth_key \<Rightarrow> bfd_pkt \<Rightarrow> bfd_session \<Rightarrow> bfd_frame" where
  "bfd_sha1_unsigned key pkt bs =
    \<lparr>frame_pkt = bfd_pkt_set_auth_present (pkt\<lparr>head_length := head_length pkt + word_of_nat sizeof_bfd_auth_sha1\<rparr>),
     frame_auth = \<lparr>sha1_type = key_auth_type key, sha1_len = word_of_nat sizeof_bfd_auth_sha1,
       sha1_key_id = curr_bfd_key_id (bs_auth bs), sha1_reserved = 0,
       sha1_seq_num = clib_byte_swap_u32 (local_seq_number (bs_auth bs)), sha1_hash = key_data key\<rparr>\<rparr>"

definition bfd_add_sha1_auth_section :: "bfd_env \<Rightarrow> bfd_auth_key \<Rightarrow> bfd_pkt \<Rightarrow> bfd_session \<Rightarrow> bfd_frame \<times> bfd_session" where
  "bfd_add_sha1_auth_section env key pkt bs =
    (let bs = bs\<lparr>bs_auth := (bs_auth bs)\<lparr>local_seq_number := local_seq_number (bs_auth bs) + 1\<rparr>\<rparr>;
         f = bfd_sha1_unsigned key pkt bs
     in (f\<lparr>frame_auth := (frame_auth f)\<lparr>sha1_hash := SHA1 env (bfd_frame_bytes f)\<rparr>\<rparr>, bs))"

text \<open>The frame, the length of the packet, and the session, whose sequence number may have advanced.\<close>

definition bfd_add_auth_section :: "bfd_env \<Rightarrow> bfd_pkt \<Rightarrow> bfd_ctx \<Rightarrow> (bfd_frame \<times> nat \<times> bfd_session) option" where
  "bfd_add_auth_section env pkt ctx = (let (bm, bs) = ctx; plain = \<lparr>frame_pkt = pkt, frame_auth = buffer_memory env\<rparr> in
     case curr_key (bs_auth bs) of
       None \<Rightarrow> Some (plain, sizeof_bfd_pkt, bs)
     | Some i \<Rightarrow> do {
         key \<leftarrow> pool_elt_at_index (auth_keys bm) i;
         if key_auth_type key = BFD_AUTH_TYPE_keyed_sha1 \<or> key_auth_type key = BFD_AUTH_TYPE_meticulous_keyed_sha1
         then let (f, bs) = bfd_add_sha1_auth_section env key pkt bs
              in Some (f, sizeof_bfd_pkt_with_sha1_auth, bs)
         else Some (plain, sizeof_bfd_pkt, bs)})"

definition bfd_transport_control_frame :: "bfd_env \<Rightarrow> bfd_frame \<Rightarrow> nat \<Rightarrow> bfd_ctx \<Rightarrow> bfd_ctx" where
  "bfd_transport_control_frame env f len ctx = (let (bm, bs) = ctx;
     bm = bfd_call (Transmit_Control (bs_idx bs) f len) bm
     in (if transport_ok env then bm else bfd_call Buffer_Free bm, bs))"

definition bfd_is_echo_possible :: "bfd_env \<Rightarrow> bfd_session \<Rightarrow> bool" where
  "bfd_is_echo_possible env bs =
    (BFD_STATE_up = local_state bs \<and> BFD_STATE_up = remote_state bs \<and> 0 < remote_min_echo_rx_usec bs
     \<and> echo_available env (bs_transport bs))"

definition bfd_send_echo :: "bfd_env \<Rightarrow> u64 \<Rightarrow> bfd_ctx \<Rightarrow> bfd_ctx" where
  "bfd_send_echo env now ctx = (let (bm, bs) = ctx in
     if \<not> bfd_is_echo_possible env bs then (bm, bs\<lparr>bs_echo := 0\<rparr>)
     else if echo_tx_timeout_clocks bs \<le> now + wheel_inaccuracy bm
     then if \<not> buffer_alloc_ok env then (bm, bs)
     else let expire = now + echo_transmit_interval_clocks bs * ucast (local_detect_mult bs);
              pkt = \<lparr>echo_discriminator = local_discr bs, expire_time_clocks = expire,
                echo_pkt_checksum = bfd_calc_echo_checksum (local_discr bs) expire (echo_secret bs)\<rparr>
     in if \<not> echo_transport_layer_ok env then (bfd_call Buffer_Free bm, bs\<lparr>bs_echo := 0\<rparr>)
     else let bm = bfd_call (Transmit_Echo (bs_idx bs) pkt) bm
     in if \<not> transport_ok env then (bfd_call Buffer_Free bm, bs\<lparr>bs_echo := 0\<rparr>)
     else bfd_calc_next_echo_tx now (bm, bs\<lparr>echo_last_tx_clocks := now\<rparr>)
     else (bm, bs))"

text \<open>The poll bit of a periodic frame, and the state of the poll sequence.\<close>

definition bfd_periodic_poll :: "u64 \<Rightarrow> bfd_pkt \<Rightarrow> bfd_ctx \<Rightarrow> bfd_pkt \<times> bfd_ctx" where
  "bfd_periodic_poll now pkt ctx = (let (bm, bs) = ctx in
     case poll_state bs of
       BFD_POLL_NEEDED \<Rightarrow>
         if now < poll_state_start_or_timeout_clocks bs then (pkt, bm, bs)
         else (bfd_pkt_set_poll pkt,
               bfd_set_poll_state BFD_POLL_IN_PROGRESS (bm, bs\<lparr>poll_state_start_or_timeout_clocks := now\<rparr>))
     | BFD_POLL_IN_PROGRESS \<Rightarrow> (bfd_pkt_set_poll pkt, bm, bs)
     | BFD_POLL_IN_PROGRESS_AND_QUEUED \<Rightarrow> (bfd_pkt_set_poll pkt, bm, bs)
     | BFD_POLL_NOT_NEEDED \<Rightarrow> (pkt, bm, bs))"

definition bfd_send_periodic :: "bfd_env \<Rightarrow> u64 \<Rightarrow> bfd_ctx \<Rightarrow> bfd_ctx option" where
  "bfd_send_periodic env now ctx = (let (bm, bs) = ctx in
     if remote_min_rx_usec bs = 0 \<and> BFD_POLL_NOT_NEEDED = poll_state bs then Some (bm, bs)
     else if BFD_POLL_NOT_NEEDED = poll_state bs \<and> remote_demand bs \<noteq> 0
             \<and> BFD_STATE_up = local_state bs \<and> BFD_STATE_up = remote_state bs then Some (bm, bs)
     else if tx_timeout_clocks bs \<le> now + wheel_inaccuracy bm
     then if \<not> buffer_alloc_ok env then Some (bm, bs)
     else do {
       pkt \<leftarrow> bfd_init_control_frame (bm, bs);
       let (pkt, bm, bs) = bfd_periodic_poll now pkt (bm, bs);
       (f, len, bs) \<leftarrow> bfd_add_auth_section env pkt (bm, bs);
       let (bm, bs) = bfd_transport_control_frame env f len (bm, bs);
       bfd_calc_next_tx now (bm, bs\<lparr>last_tx_clocks := now\<rparr>)}
     else Some (bm, bs))"

text \<open>The answer to a poll: the frame, which the caller sends, and the session.\<close>

definition bfd_init_final_control_frame :: "bfd_env \<Rightarrow> u64 \<Rightarrow> bfd_ctx \<Rightarrow> (bfd_frame \<times> nat \<times> bfd_ctx) option" where
  "bfd_init_final_control_frame env now ctx = (let (bm, bs) = ctx in do {
     pkt \<leftarrow> bfd_init_control_frame (bm, bs);
     (f, len, bs) \<leftarrow> bfd_add_auth_section env (bfd_pkt_set_final pkt) (bm, bs);
     Some (f, len, bfd_set_poll_state BFD_POLL_NOT_NEEDED (bm, bs\<lparr>last_tx_clocks := now\<rparr>))
   })"

section \<open>Timeouts\<close>

definition bfd_check_rx_timeout :: "u64 \<Rightarrow> u64 \<Rightarrow> bool \<Rightarrow> bfd_ctx \<Rightarrow> bfd_ctx option" where
  "bfd_check_rx_timeout now now' handling_wakeup ctx = (let (bm, bs) = ctx in
     if last_rx_clocks bs + detection_time_clocks bs \<le> now + wheel_inaccuracy bm
     then do {
       ctx \<leftarrow> bfd_set_state now' BFD_STATE_down handling_wakeup (bfd_set_diag BFD_DIAG_CODE_det_time_exp (bm, bs));
       bfd_set_remote_required_min_rx 1 ctx}
     else if bs_echo bs \<noteq> 0
             \<and> echo_last_rx_clocks bs + echo_transmit_interval_clocks bs * ucast (local_detect_mult bs)
               \<le> now + wheel_inaccuracy bm
     then bfd_set_state now' BFD_STATE_down handling_wakeup (bfd_set_diag BFD_DIAG_CODE_echo_failed (bm, bs))
     else Some (bm, bs))"

text \<open>The echo function becomes the main means of detection.\<close>

definition bfd_switch_on_echo :: "bfd_env \<Rightarrow> u64 \<Rightarrow> bfd_ctx \<Rightarrow> bfd_ctx" where
  "bfd_switch_on_echo env now ctx = (let (bm, bs) = ctx in
     if BFD_POLL_NOT_NEEDED = poll_state bs \<and> bs_echo bs = 0 \<and> bfd_is_echo_possible env bs
     then bfd_set_poll_state BFD_POLL_NEEDED
       (bfd_set_effective_required_min_rx
         (max (min_required_min_rx_while_echo_clocks bm) (config_required_min_rx_clocks bs))
         (bm, bs\<lparr>bs_echo := 1, echo_last_rx_clocks := now, echo_tx_timeout_clocks := now\<rparr>))
     else (bm, bs))"

definition bfd_on_timeout :: "bfd_env \<Rightarrow> u64 \<Rightarrow> u64 \<Rightarrow> bfd_ctx \<Rightarrow> bfd_ctx option" where
  "bfd_on_timeout env now now' ctx =
    (case local_state (snd ctx) of
       BFD_STATE_admin_down \<Rightarrow> bfd_send_periodic env now ctx
     | BFD_STATE_down \<Rightarrow> bfd_send_periodic env now ctx
     | BFD_STATE_init \<Rightarrow> do {
         ctx \<leftarrow> bfd_check_rx_timeout now now' True ctx;
         bfd_send_periodic env now ctx}
     | BFD_STATE_up \<Rightarrow> do {
         ctx \<leftarrow> bfd_check_rx_timeout now now' True ctx;
         ctx \<leftarrow> bfd_send_periodic env now (bfd_switch_on_echo env now ctx);
         Some (if bs_echo (snd ctx) \<noteq> 0 then bfd_send_echo env now ctx else ctx)})"

section \<open>Consuming packets\<close>

definition bfd_find_session_by_idx :: "bfd_main \<Rightarrow> nat \<Rightarrow> bfd_session option" where
  "bfd_find_session_by_idx bm idx =
    (if \<not> pool_is_free_index (sessions bm) idx then pool_elt_at_index (sessions bm) idx else None)"

definition bfd_find_session_by_disc :: "bfd_main \<Rightarrow> u32 \<Rightarrow> bfd_session option" where
  "bfd_find_session_by_disc bm disc =
    (case session_by_disc bm disc of Some i \<Rightarrow> pool_elt_at_index (sessions bm) i | None \<Rightarrow> None)"

definition bfd_store_session :: "nat \<Rightarrow> bfd_ctx \<Rightarrow> bfd_main" where
  "bfd_store_session i ctx = (let (bm, bs) = ctx in bm\<lparr>sessions := pool_store (sessions bm) i bs\<rparr>)"

text \<open>What the session takes from the packet before its timers are touched.\<close>

definition bfd_learn_remote :: "u64 \<Rightarrow> bfd_frame \<Rightarrow> bfd_session \<Rightarrow> bfd_session" where
  "bfd_learn_remote now f bs =
    (let pkt = frame_pkt f;
         bs = bs\<lparr>remote_discr := my_disc pkt, remote_state := bfd_state_of (bfd_pkt_get_state pkt),
                remote_demand := bfd_pkt_get_demand pkt, remote_diag := bfd_pkt_get_diag_code pkt,
                last_rx_clocks := now\<rparr>
     in if bfd_pkt_get_auth_present pkt \<noteq> 0
           \<and> (sha1_type (frame_auth f) = BFD_AUTH_TYPE_keyed_sha1
              \<or> sha1_type (frame_auth f) = BFD_AUTH_TYPE_meticulous_keyed_sha1)
        then bs\<lparr>bs_auth := (bs_auth bs)\<lparr>remote_seq_number := clib_byte_swap_u32 (sha1_seq_num (frame_auth f)),
                   remote_seq_number_known := 1\<rparr>\<rparr>
        else bs)"

text \<open>The end of a poll sequence, on a packet with the final bit.\<close>

definition bfd_poll_final :: "u64 \<Rightarrow> bfd_ctx \<Rightarrow> bfd_ctx" where
  "bfd_poll_final now ctx = (let (bm, bs) = ctx in
     case poll_state bs of
       BFD_POLL_IN_PROGRESS \<Rightarrow>
         let (bm, bs) = bfd_set_poll_state BFD_POLL_NOT_NEEDED (bm, bs)
         in if BFD_STATE_up = local_state bs
            then bfd_set_effective_required_min_rx
              (max (ucast (bs_echo bs) * min_required_min_rx_while_echo_clocks bm) (config_required_min_rx_clocks bs)) (bm, bs)
            else (bm, bs)
     | BFD_POLL_IN_PROGRESS_AND_QUEUED \<Rightarrow>
         bfd_set_poll_state BFD_POLL_NEEDED
           (bm, bs\<lparr>poll_state_start_or_timeout_clocks := now + (now - poll_state_start_or_timeout_clocks bs)\<rparr>)
     | _ \<Rightarrow> (bm, bs))"

definition bfd_update_session :: "u64 \<Rightarrow> bfd_frame \<Rightarrow> bfd_ctx \<Rightarrow> bfd_ctx option" where
  "bfd_update_session now f ctx = (let (bm, bs) = ctx; pkt = frame_pkt f; bs = bfd_learn_remote now f bs in do {
     tx_clocks \<leftarrow> bfd_usec_to_clocks bm (ucast (clib_byte_swap_u32 (des_min_tx pkt)));
     ctx \<leftarrow> bfd_set_remote_required_min_rx (clib_byte_swap_u32 (req_min_rx pkt))
       (bm, bs\<lparr>remote_desired_min_tx_clocks := tx_clocks, remote_detect_mult := detect_mult pkt\<rparr>);
     ctx \<leftarrow> bfd_set_remote_required_min_echo_rx (clib_byte_swap_u32 (req_min_echo_rx pkt)) ctx;
     let ctx = (if bfd_pkt_get_final pkt \<noteq> 0 then bfd_poll_final now ctx else ctx);
     ctx \<leftarrow> bfd_calc_next_tx now ctx;
     Some (bfd_set_timer now False ctx)
   })"

definition bfd_fsm_step :: "u64 \<Rightarrow> bfd_ctx \<Rightarrow> bfd_ctx option" where
  "bfd_fsm_step now ctx = (let (bm, bs) = ctx in
     if BFD_STATE_admin_down = local_state bs then Some (bm, bs)
     else if BFD_STATE_admin_down = remote_state bs
     then bfd_set_state now BFD_STATE_down False (bfd_set_diag BFD_DIAG_CODE_neighbor_sig_down (bm, bs))
     else if BFD_STATE_down = local_state bs
     then (if BFD_STATE_down = remote_state bs
           then bfd_set_state now BFD_STATE_init False (bfd_set_diag BFD_DIAG_CODE_no_diag (bm, bs))
           else if BFD_STATE_init = remote_state bs
           then bfd_set_state now BFD_STATE_up False (bfd_set_diag BFD_DIAG_CODE_no_diag (bm, bs))
           else Some (bm, bs))
     else if BFD_STATE_init = local_state bs
     then (if BFD_STATE_up = remote_state bs \<or> BFD_STATE_init = remote_state bs
           then bfd_set_state now BFD_STATE_up False (bfd_set_diag BFD_DIAG_CODE_no_diag (bm, bs))
           else Some (bm, bs))
     else (if BFD_STATE_down = remote_state bs
           then bfd_set_state now BFD_STATE_down False (bfd_set_diag BFD_DIAG_CODE_neighbor_sig_down (bm, bs))
           else Some (bm, bs)))"

text \<open>\<open>now\<close> is read when the packet is scanned, \<open>now'\<close> by a change of the state.\<close>

definition bfd_consume_pkt :: "u64 \<Rightarrow> u64 \<Rightarrow> bfd_frame \<Rightarrow> nat \<Rightarrow> bfd_main \<Rightarrow> bfd_main option" where
  "bfd_consume_pkt now now' f idx bm =
    (case bfd_find_session_by_idx bm idx of
       None \<Rightarrow> Some bm
     | Some bs \<Rightarrow>
         if your_disc (frame_pkt f) \<noteq> 0 \<and> your_disc (frame_pkt f) \<noteq> local_discr bs then Some bm
         else do {
           ctx \<leftarrow> bfd_update_session now f (bm, bs);
           ctx \<leftarrow> bfd_fsm_step now' ctx;
           Some (bfd_store_session idx ctx)})"

definition bfd_consume_echo_pkt :: "u64 \<Rightarrow> nat \<Rightarrow> bfd_echo_pkt \<Rightarrow> bfd_main \<Rightarrow> bool \<times> bfd_main" where
  "bfd_consume_echo_pkt now len pkt bm =
    (if len \<noteq> 20 then (False, bm)
     else case bfd_find_session_by_disc bm (echo_discriminator pkt) of
       None \<Rightarrow> (False, bm)
     | Some bs \<Rightarrow>
         if bfd_calc_echo_checksum (local_discr bs) (expire_time_clocks pkt) (echo_secret bs) \<noteq> echo_pkt_checksum pkt
         then (True, bm)
         else if expire_time_clocks pkt < now then (True, bm)
         else case session_by_disc bm (echo_discriminator pkt) of
           Some i \<Rightarrow> (True, bfd_store_session i (bm, bs\<lparr>echo_last_rx_clocks := now\<rparr>))
         | None \<Rightarrow> (True, bm))"

section \<open>The process node\<close>

definition bfd_with_session :: "(bfd_ctx \<Rightarrow> bfd_ctx option) \<Rightarrow> nat \<Rightarrow> bfd_main \<Rightarrow> bfd_main option" where
  "bfd_with_session op idx bm =
    (if pool_is_free_index (sessions bm) idx then Some bm
     else do {
       bs \<leftarrow> pool_elt_at_index (sessions bm) idx;
       ctx \<leftarrow> op (bm, bs);
       Some (bfd_store_session idx ctx)})"

text \<open>An event of the process; \<open>None\<close> when the wait ended by its timeout.\<close>

definition bfd_process_event_step :: "bfd_env \<Rightarrow> u64 \<Rightarrow> (bfd_process_event \<times> nat) option \<Rightarrow> bfd_main \<Rightarrow> bfd_main option" where
  "bfd_process_event_step env now ev bm =
    (case ev of
       None \<Rightarrow> Some bm
     | Some (BFD_EVENT_RESCHEDULE, _) \<Rightarrow> Some bm
     | Some (BFD_EVENT_NEW_SESSION, idx) \<Rightarrow>
         bfd_with_session (\<lambda>ctx. do {ctx \<leftarrow> bfd_send_periodic env now ctx; Some (bfd_set_timer now True ctx)}) idx bm
     | Some (BFD_EVENT_CONFIG_CHANGED, idx) \<Rightarrow> bfd_with_session (\<lambda>ctx. Some (bfd_on_config_change now ctx)) idx bm)"

text \<open>The sessions that the timing wheel found expired, each with the clock reading of its handling.\<close>

fun bfd_process_expired :: "bfd_env \<Rightarrow> u64 \<Rightarrow> (nat \<times> u64) list \<Rightarrow> bfd_main \<Rightarrow> bfd_main option" where
  "bfd_process_expired env now [] bm = Some bm"
| "bfd_process_expired env now ((idx, now') # expired) bm = do {
     bm \<leftarrow> bfd_with_session
       (\<lambda>ctx. do {ctx \<leftarrow> bfd_on_timeout env now now' ctx; Some (bfd_set_timer now True ctx)}) idx bm;
     bfd_process_expired env now expired bm}"

text \<open>One round of the process after the wait: the event that ended it (its type, and the first element of
  \<open>event_data\<close>, the only one the code reads), then the expired elements of the wheel.\<close>

definition bfd_process_round ::
    "bfd_env \<Rightarrow> u64 \<Rightarrow> (bfd_process_event \<times> nat) option \<Rightarrow> (nat \<times> u64) list \<Rightarrow> bfd_main \<Rightarrow> bfd_main option" where
  "bfd_process_round env now ev expired bm = do {
     bm \<leftarrow> bfd_process_event_step env now ev bm;
     bfd_process_expired env now expired bm}"

end
