(* ===== verification/Bfd_Auth.thy ===== *)
theory Bfd_Auth
  imports Bfd_Engine
begin

text \<open>
  Sessions and authentication keys of BFD, \<^verbatim>\<open>vnet/bfd/bfd_main.c\<close>: allocation of sessions and their
  discriminators, the keys with their use counts, activation and the delayed change of a key, and the
  verification of the authentication section of a packet.
\<close>

section \<open>Results of the API\<close>

datatype vnet_api_error =
    API_OK
  | VNET_API_ERROR_INVALID_VALUE
  | VNET_API_ERROR_INVALID_ARGUMENT
  | VNET_API_ERROR_INVALID_SW_IF_INDEX
  | VNET_API_ERROR_ADDRESS_NOT_FOUND_FOR_INTERFACE
  | VNET_API_ERROR_BFD_EAGAIN
  | VNET_API_ERROR_BFD_EEXIST
  | VNET_API_ERROR_BFD_ENOENT
  | VNET_API_ERROR_BFD_EINUSE
  | VNET_API_ERROR_BFD_NOTSUPP

section \<open>Allocation of sessions\<close>

definition bfd_session_zero :: bfd_session where
  "bfd_session_zero = \<lparr>bs_idx = 0, local_state = BFD_STATE_admin_down, remote_state = BFD_STATE_admin_down,
     local_diag = 0, remote_diag = 0, local_discr = 0, remote_discr = 0, config_desired_min_tx_usec = 0,
     config_desired_min_tx_clocks = 0, effective_desired_min_tx_clocks = 0, config_required_min_rx_usec = 0,
     config_required_min_rx_clocks = 0, effective_required_min_rx_clocks = 0, remote_min_rx_usec = 0,
     remote_min_rx_clocks = 0, remote_min_echo_rx_usec = 0, remote_min_echo_rx_clocks = 0,
     remote_desired_min_tx_clocks = 0, local_detect_mult = 0, remote_demand = 0, remote_detect_mult = 0,
     bs_echo = 0, wheel_time_clocks = 0, transmit_interval_clocks = 0, tx_timeout_clocks = 0, last_tx_clocks = 0,
     last_rx_clocks = 0, echo_transmit_interval_clocks = 0, echo_tx_timeout_clocks = 0, echo_last_tx_clocks = 0,
     echo_last_rx_clocks = 0, echo_secret = 0, detection_time_clocks = 0, poll_state = BFD_POLL_NOT_NEEDED,
     poll_state_start_or_timeout_clocks = 0,
     bs_auth = \<lparr>curr_key = None, next_key = None, local_seq_number = 0, remote_seq_number = 0,
       remote_seq_number_known = 0, curr_bfd_key_id = 0, next_bfd_key_id = 0, is_delayed = 0\<rparr>,
     bs_transport = BFD_TRANSPORT_UDP4,
     bs_udp = \<lparr>udp_key = \<lparr>key_sw_if_index = 0, local_addr = \<lparr>ip46_first = 0, ip46_second = 0\<rparr>,
       peer_addr = \<lparr>ip46_first = 0, ip46_second = 0\<rparr>\<rparr>, adj_index = 0\<rparr>\<rparr>"

text \<open>The search for an unused discriminator, with the number of draws that may still collide; the
  second result is the random seed.\<close>

fun bfd_pick_discr :: "nat \<Rightarrow> (u32 \<Rightarrow> nat option) \<Rightarrow> u32 \<Rightarrow> u32 option \<times> u32" where
  "bfd_pick_discr 0 used seed = (None, random_u32 seed)"
| "bfd_pick_discr (Suc n) used seed =
    (let discr = random_u32 seed
     in if used discr \<noteq> None then bfd_pick_discr n used discr else (Some discr, discr))"

text \<open>The index of the new session; \<open>memory\<close> is what an element appended to the pool holds.\<close>

definition bfd_get_session :: "bfd_session \<Rightarrow> bfd_transport \<Rightarrow> bfd_main \<Rightarrow> (nat option \<times> bfd_main) option" where
  "bfd_get_session memory t bm =
    (let (p, i) = pool_get memory (sessions bm);
         bs = bfd_session_zero\<lparr>bs_idx := word_of_nat i, bs_transport := t\<rparr>;
         (discr, seed) = bfd_pick_discr 1001 (session_by_disc bm) (random_seed bm);
         bm = bm\<lparr>sessions := p, random_seed := seed\<rparr>
     in case discr of
       None \<Rightarrow> do {
         p \<leftarrow> pool_put_index (sessions bm) i;
         Some (None, bm\<lparr>sessions := p\<rparr>)}
     | Some d \<Rightarrow> do {
         (bm, bs) \<leftarrow> bfd_set_defaults (bm, bs\<lparr>local_discr := d\<rparr>);
         Some (Some i, bfd_store_session i (bm\<lparr>session_by_disc := (session_by_disc bm)(d \<mapsto> i)\<rparr>, bs))})"

section \<open>Keys\<close>

text \<open>A store through a pointer to a key.\<close>

definition auth_key_update :: "nat \<Rightarrow> (bfd_auth_key \<Rightarrow> bfd_auth_key) \<Rightarrow> bfd_main \<Rightarrow> bfd_main option" where
  "auth_key_update i g bm = do {
     key \<leftarrow> pool_elt_at_index (auth_keys bm) i;
     Some (bm\<lparr>auth_keys := pool_store (auth_keys bm) i (g key)\<rparr>)}"

definition key_release :: "nat option \<Rightarrow> bfd_main \<Rightarrow> bfd_main option" where
  "key_release k bm = (case k of None \<Rightarrow> Some bm | Some i \<Rightarrow> auth_key_update i (\<lambda>key. key\<lparr>use_count := use_count key - 1\<rparr>) bm)"

definition bfd_put_session :: "nat \<Rightarrow> bfd_main \<Rightarrow> bfd_main option" where
  "bfd_put_session i bm = do {
     bs \<leftarrow> pool_elt_at_index (sessions bm) i;
     bm \<leftarrow> key_release (curr_key (bs_auth bs)) bm;
     bm \<leftarrow> key_release (next_key (bs_auth bs)) bm;
     p \<leftarrow> pool_put_index (sessions bm) i;
     Some (bm\<lparr>session_by_disc := (session_by_disc bm)(local_discr bs := None), sessions := p\<rparr>)}"

definition bfd_session_switch_auth_to_next :: "bfd_ctx \<Rightarrow> bfd_ctx option" where
  "bfd_session_switch_auth_to_next ctx = (let (bm, bs) = ctx; a = bs_auth bs in do {
     bm \<leftarrow> key_release (curr_key a) bm;
     Some (bm, bs\<lparr>bs_auth := a\<lparr>is_delayed := 0, curr_key := next_key a, next_key := None,
       curr_bfd_key_id := next_bfd_key_id a\<rparr>\<rparr>)})"

definition bfd_auth_activate :: "u32 \<Rightarrow> u8 \<Rightarrow> u8 \<Rightarrow> bfd_ctx \<Rightarrow> (vnet_api_error \<times> bfd_ctx) option" where
  "bfd_auth_activate conf_id bfd_key_id delayed ctx = (let (bm, bs) = ctx; a = bs_auth bs in
     case auth_key_by_conf_key_id bm conf_id of
       None \<Rightarrow> Some (VNET_API_ERROR_BFD_ENOENT, bm, bs)
     | Some i \<Rightarrow>
         if delayed \<noteq> 0
         then if next_key a = Some i then Some (API_OK, bm, bs)
              else do {
                bm \<leftarrow> auth_key_update i (\<lambda>key. key\<lparr>use_count := use_count key + 1\<rparr>) bm;
                Some (API_OK, bm, bs\<lparr>bs_auth := a\<lparr>next_key := Some i, next_bfd_key_id := bfd_key_id, is_delayed := 1\<rparr>\<rparr>)}
         else if curr_key a = Some i then Some (API_OK, bm, bs)
         else do {
           bm \<leftarrow> key_release (curr_key a) bm;
           bm \<leftarrow> auth_key_update i (\<lambda>key. key\<lparr>use_count := use_count key + 1\<rparr>) bm;
           Some (API_OK, bm, bs\<lparr>bs_auth := a\<lparr>curr_key := Some i, curr_bfd_key_id := bfd_key_id, is_delayed := 0\<rparr>\<rparr>)})"

definition bfd_auth_deactivate :: "u8 \<Rightarrow> bfd_ctx \<Rightarrow> (vnet_api_error \<times> bfd_ctx) option" where
  "bfd_auth_deactivate delayed ctx = (let (bm, bs) = ctx; a = bs_auth bs in do {
     (bm, a) \<leftarrow> (if delayed = 0
       then do {
         bm \<leftarrow> key_release (curr_key a) bm;
         Some (bm, a\<lparr>curr_key := None, is_delayed := 0\<rparr>)}
       else Some (bm, a\<lparr>is_delayed := 1\<rparr>));
     bm \<leftarrow> key_release (next_key a) bm;
     Some (API_OK, bm, bs\<lparr>bs_auth := a\<lparr>next_key := None\<rparr>\<rparr>)})"

text \<open>
  A session points to its keys, which an index stands for as long as the pool of keys does not move.
  \<open>moves\<close> says whether the allocator moves the pool when it grows; when it does while a session points to a
  key, that pointer dangles and its next use is undefined: \<open>None\<close>. \<open>memory\<close> is what a new element holds.
\<close>

definition bfd_keys_referenced :: "bfd_main \<Rightarrow> bool" where
  "bfd_keys_referenced bm = list_ex (\<lambda>i. case pool_elt_at_index (sessions bm) i of
       None \<Rightarrow> False | Some bs \<Rightarrow> curr_key (bs_auth bs) \<noteq> None \<or> next_key (bs_auth bs) \<noteq> None) [0..<length (pool_vec (sessions bm))]"

definition bfd_auth_set_key ::
    "bfd_auth_key \<Rightarrow> bool \<Rightarrow> u32 \<Rightarrow> u8 \<Rightarrow> u8 \<Rightarrow> u8 list \<Rightarrow> bfd_main \<Rightarrow> (vnet_api_error \<times> bfd_main) option" where
  "bfd_auth_set_key memory moves conf_id auth_type key_len data bm =
    (if key_len = 0 \<or> bfd_max_key_len_for_auth_type auth_type < ucast key_len then Some (VNET_API_ERROR_INVALID_VALUE, bm)
     else if \<not> bfd_auth_type_supported auth_type then Some (VNET_API_ERROR_BFD_NOTSUPP, bm)
     else let bytes = take (unat key_len) data @ replicate (20 - unat key_len) 0;
              set = (\<lambda>key. key\<lparr>key_auth_type := auth_type, key_data := bytes\<rparr>)
     in case auth_key_by_conf_key_id bm conf_id of
       Some i \<Rightarrow> do {
         key \<leftarrow> pool_elt_at_index (auth_keys bm) i;
         if 0 < use_count key then Some (VNET_API_ERROR_BFD_EINUSE, bm)
         else do {
           bm \<leftarrow> auth_key_update i set bm;
           Some (API_OK, bm)}}
     | None \<Rightarrow>
         if moves \<and> free_indices (auth_keys bm) = [] \<and> bfd_keys_referenced bm then None
         else let (p, i) = pool_get memory (auth_keys bm)
         in do {
           bm \<leftarrow> auth_key_update i (\<lambda>key. set (key\<lparr>conf_key_id := conf_id\<rparr>))
             (bm\<lparr>auth_keys := p, auth_key_by_conf_key_id := (auth_key_by_conf_key_id bm)(conf_id \<mapsto> i)\<rparr>);
           Some (API_OK, bm)})"

definition bfd_auth_del_key :: "u32 \<Rightarrow> bfd_main \<Rightarrow> (vnet_api_error \<times> bfd_main) option" where
  "bfd_auth_del_key conf_id bm =
    (case auth_key_by_conf_key_id bm conf_id of
       None \<Rightarrow> Some (VNET_API_ERROR_BFD_ENOENT, bm)
     | Some i \<Rightarrow> do {
         key \<leftarrow> pool_elt_at_index (auth_keys bm) i;
         if 0 < use_count key then Some (VNET_API_ERROR_BFD_EINUSE, bm)
         else do {
           bm \<leftarrow> auth_key_update i (\<lambda>_. \<lparr>conf_key_id = 0, use_count = 0, key_data = replicate 20 0, key_auth_type = 0\<rparr>) bm;
           p \<leftarrow> pool_put_index (auth_keys bm) i;
           Some (API_OK, bm\<lparr>auth_keys := p, auth_key_by_conf_key_id := (auth_key_by_conf_key_id bm)(conf_id := None)\<rparr>)}})"

section \<open>Verification\<close>

text \<open>Whether the sequence number is acceptable, and the session, which may have forgotten the last one.\<close>

definition bfd_verify_pkt_auth_seq_num :: "u64 \<Rightarrow> u32 \<Rightarrow> bool \<Rightarrow> bfd_session \<Rightarrow> bool \<times> bfd_session" where
  "bfd_verify_pkt_auth_seq_num now received meticulous bs =
    (let bs = (if detection_time_clocks bs * 2 < now - last_rx_clocks bs
               then bs\<lparr>bs_auth := (bs_auth bs)\<lparr>remote_seq_number_known := 0\<rparr>\<rparr> else bs);
         remote = remote_seq_number (bs_auth bs); m = (if meticulous then 1 else 0 :: u32);
         mult = 3 * (ucast (local_detect_mult bs) :: u32)
     in (if remote_seq_number_known (bs_auth bs) \<noteq> 0
         then if 0xffffffff - mult < remote
              then let z = 0xffffffff - remote; x = mult - z
                   in \<not> (x < received \<and> received < remote + m)
              else \<not> (received < remote + m \<or> remote + mult < received)
         else True, bs))"

definition bfd_verify_pkt_auth_key_sha1 :: "bfd_env \<Rightarrow> bfd_frame \<Rightarrow> nat \<Rightarrow> u8 \<Rightarrow> bfd_auth_key \<Rightarrow> bool" where
  "bfd_verify_pkt_auth_key_sha1 env f pkt_size bfd_key_id key =
    (if pkt_size < sizeof_bfd_pkt_with_common_auth then False
     else if sha1_type (frame_auth f) \<noteq> key_auth_type key then False
     else if pkt_size < sizeof_bfd_pkt_with_sha1_auth \<or> unat (sha1_len (frame_auth f)) < sizeof_bfd_auth_sha1 then False
     else if sha1_key_id (frame_auth f) \<noteq> bfd_key_id then False
     else if \<not> SHA1_ok env then False
     else SHA1 env (take 32 (bfd_frame_bytes f) @ key_data key) = sha1_hash (frame_auth f))"

definition bfd_verify_pkt_auth_key :: "bfd_env \<Rightarrow> u64 \<Rightarrow> bfd_frame \<Rightarrow> nat \<Rightarrow> u8 \<Rightarrow> bfd_auth_key \<Rightarrow> bfd_session \<Rightarrow> bool \<times> bfd_session" where
  "bfd_verify_pkt_auth_key env now f pkt_size bfd_key_id key bs =
    (if key_auth_type key = BFD_AUTH_TYPE_keyed_sha1 \<or> key_auth_type key = BFD_AUTH_TYPE_meticulous_keyed_sha1
     then let (ok, bs) = bfd_verify_pkt_auth_seq_num now (clib_byte_swap_u32 (sha1_seq_num (frame_auth f)))
            (bfd_auth_type_is_meticulous (key_auth_type key)) bs
          in (ok \<and> bfd_verify_pkt_auth_key_sha1 env f pkt_size bfd_key_id key, bs)
     else (False, bs))"

text \<open>\<open>now\<close> and \<open>now'\<close> are the readings for the current and for the next key.\<close>

definition bfd_verify_pkt_auth :: "bfd_env \<Rightarrow> u64 \<Rightarrow> u64 \<Rightarrow> bfd_frame \<Rightarrow> nat \<Rightarrow> bfd_ctx \<Rightarrow> (bool \<times> bfd_ctx) option" where
  "bfd_verify_pkt_auth env now now' f pkt_size ctx = (let (bm, bs) = ctx; a = bs_auth bs;
     try_next = (\<lambda>now bs. case next_key a of
         None \<Rightarrow> Some (False, bm, bs)
       | Some i \<Rightarrow>
         if is_delayed a = 0 then Some (False, bm, bs)
         else do {
           key \<leftarrow> pool_elt_at_index (auth_keys bm) i;
           let (ok, bs) = bfd_verify_pkt_auth_key env now f pkt_size (next_bfd_key_id a) key bs;
           if ok then do {
             ctx \<leftarrow> bfd_session_switch_auth_to_next (bm, bs);
             Some (True, ctx)}
           else Some (False, bm, bs)})
   in if bfd_pkt_get_auth_present (frame_pkt f) \<noteq> 0
      then case curr_key a of
          None \<Rightarrow> try_next now' bs
        | Some i \<Rightarrow> do {
            key \<leftarrow> pool_elt_at_index (auth_keys bm) i;
            let (ok, bs) = bfd_verify_pkt_auth_key env now f pkt_size (curr_bfd_key_id a) key bs;
            if ok then Some (True, bm, bs) else try_next now' bs}
      else if sizeof_bfd_pkt < pkt_size then Some (False, bm, bs)
      else if curr_key a \<noteq> None
      then if is_delayed a \<noteq> 0 \<and> next_key a = None
           then do {
             ctx \<leftarrow> bfd_session_switch_auth_to_next (bm, bs);
             Some (True, ctx)}
           else Some (False, bm, bs)
      else Some (True, bm, bs))"

end
