(* ===== verification/Bfd_Timing.thy ===== *)
theory Bfd_Timing
  imports Bfd_Session
begin

text \<open>
  The arithmetic of BFD's intervals: conversions between microseconds and clocks do not overflow on
  a machine of at most \<open>2^40\<close> clocks per second, and the next transmission lies in the jitter window
  of RFC 5880, up to the rounding of the doubles it is computed with.
\<close>

section \<open>Relative rounding errors\<close>

abbreviation eps :: real where "eps \<equiv> 1 / 2 ^ 53"

lemma rel_error: "\<bar>x - y\<bar> \<le> y / 2 ^ 53 \<Longrightarrow> (1 - eps) * y \<le> x \<and> x \<le> (1 + eps) * y"
proof -
  assume "\<bar>x - y\<bar> \<le> y / 2 ^ 53"
  then have "y - y / 2 ^ 53 \<le> x \<and> x \<le> y + y / 2 ^ 53" by (smt (verit))
  then show ?thesis by (simp add: left_diff_distrib distrib_right)
qed

lemma rel_error_abs: "0 \<le> y \<Longrightarrow> \<bar>x - y\<bar> \<le> \<bar>y\<bar> / 2 ^ 53 \<Longrightarrow> (1 - eps) * y \<le> x \<and> x \<le> (1 + eps) * y"
  by (rule rel_error) simp

lemma eps_powers: "(1 + eps) ^ 5 \<le> 1 + 1 / 2 ^ 50" "1 - 1 / 2 ^ 50 \<le> (1 - eps) ^ 5"
  by (simp_all add: power_numeral_reduce field_simps)

text \<open>A sum \<open>a + f * b\<close> of rounded values, with the factor in a range.\<close>

lemma rounded_sum:
  assumes "(1 - eps) * a \<le> af" "af \<le> (1 + eps) * a" and "(1 - eps) * b \<le> bf" "bf \<le> (1 + eps) * b"
    and "lo \<le> f" "f \<le> hi" "0 \<le> lo" "0 \<le> a" "0 \<le> b"
    and "(1 - eps) * (f * bf) \<le> p" "p \<le> (1 + eps) * (f * bf)"
    and "(1 - eps) * (af + p) \<le> s" "s \<le> (1 + eps) * (af + p)"
  shows "(1 - eps) ^ 3 * (a + lo * b) \<le> s \<and> s \<le> (1 + eps) ^ 3 * (a + hi * b)"
proof
  have e: "0 \<le> 1 - eps" "1 - eps \<le> 1" "1 \<le> 1 + eps" by simp_all
  have bf: "0 \<le> bf" using assms(3,9) e(1) by (meson mult_nonneg_nonneg order_trans)
  have "lo * ((1 - eps) * b) \<le> f * bf" using assms(3,5,7,9) e bf by (intro mult_mono) auto
  then have "(1 - eps) * (lo * ((1 - eps) * b)) \<le> p" using assms(10) e(1) by (meson mult_left_mono order_trans)
  moreover have "(1 - eps) ^ 2 * a \<le> af"
    using mult_right_mono [OF mult_left_le_one_le [OF e(1) e(1) e(2)] assms(8)] assms(1) by (simp add: power2_eq_square)
  ultimately have "(1 - eps) ^ 2 * (a + lo * b) \<le> af + p" by (simp add: power2_eq_square algebra_simps)
  then have "(1 - eps) * ((1 - eps) ^ 2 * (a + lo * b)) \<le> s"
    using assms(12) e(1) by (meson mult_left_mono order_trans)
  then show "(1 - eps) ^ 3 * (a + lo * b) \<le> s" by (simp add: power_numeral_reduce mult.assoc)
  have "f * bf \<le> hi * ((1 + eps) * b)" using assms(4,5,6,7,9) e bf by (intro mult_mono) auto
  then have "p \<le> (1 + eps) * (hi * ((1 + eps) * b))" using assms(11) by (smt (verit) e(3) mult_left_mono)
  moreover have "af \<le> (1 + eps) ^ 2 * a"
  proof -
    have "(1 + eps) * a \<le> (1 + eps) ^ 2 * a" by (intro mult_right_mono assms(8)) (simp add: power2_eq_square)
    then show ?thesis using assms(2) by linarith
  qed
  ultimately have "af + p \<le> (1 + eps) ^ 2 * (a + hi * b)" by (simp add: power2_eq_square algebra_simps)
  then have "s \<le> (1 + eps) * ((1 + eps) ^ 2 * (a + hi * b))"
    using assms(13) by (smt (verit) e(3) mult_left_mono)
  then show "s \<le> (1 + eps) ^ 3 * (a + hi * b)" by (simp add: power_numeral_reduce mult.assoc)
qed

section \<open>Random numbers\<close>

lemma random_f64_range: "0 \<le> sf64_val (fst (random_f64 seed)) \<and> sf64_val (fst (random_f64 seed)) \<le> 1 + eps"
proof -
  define u where "u = unat (random_u32 seed)"
  have u: "u < 2 ^ 32" unfolding u_def using unat_u32_lt by simp
  let ?d = "f64_div (f64_of_nat u) (f64_of_nat 0xffffffff)"
  have e: "f64_of_nat 0xffffffff = (0xffffffff, 0)" "f64_of_nat u = (u, 0)"
    using u by (simp_all add: f64_of_nat_exact)
  have "\<bar>f64_val ?d - real u / 4294967295\<bar> \<le> real u / 4294967295 / 2 ^ 53"
    using f64_div_error [of "f64_of_nat 0xffffffff" "f64_of_nat u"] unfolding e by (simp add: f64_val_def)
  then have "f64_val ?d \<le> (1 + eps) * (real u / 4294967295)" using rel_error by blast
  also have "\<dots> \<le> 1 + eps" using u by (simp add: field_simps)
  finally have "f64_val ?d \<le> 1 + eps" .
  moreover have "sf64_val (fst (random_f64 seed)) = f64_val ?d"
    by (simp add: random_f64_def Let_def sf64_val_def f64_val_def u_def)
  ultimately show ?thesis by simp
qed

section \<open>Conversion of intervals\<close>

text \<open>A clock reading or an interval that leaves room for additions.\<close>

definition clk_ok :: "u64 \<Rightarrow> bool" where
  "clk_ok c \<longleftrightarrow> unat c < 2 ^ 60"

text \<open>A machine of at most \<open>2^40\<close> clocks per second, with the intervals that \<open>bfd_main_init\<close> derives.\<close>

definition bfd_main_ok :: "bfd_main \<Rightarrow> bool" where
  "bfd_main_ok bm \<longleftrightarrow> 0 < fst (cpu_cps bm) \<and> fst (cpu_cps bm) \<le> 2 ^ 53 \<and> f64_val (cpu_cps bm) \<le> 2 ^ 40
    \<and> bfd_usec_to_clocks bm 1000000 = Some (default_desired_min_tx_clocks bm)
    \<and> bfd_usec_to_clocks bm 1000000 = Some (min_required_min_rx_while_echo_clocks bm)"

lemma bfd_main_ok_cong [simp]:
  "bfd_main_ok (bm\<lparr>random_seed := x\<rparr>) = bfd_main_ok bm" "bfd_main_ok (bm\<lparr>bfd_calls := c\<rparr>) = bfd_main_ok bm"
  "bfd_main_ok (bm\<lparr>sessions := p\<rparr>) = bfd_main_ok bm" "bfd_main_ok (bm\<lparr>auth_keys := k\<rparr>) = bfd_main_ok bm"
  "bfd_main_ok (bm\<lparr>session_by_disc := d\<rparr>) = bfd_main_ok bm"
  "bfd_main_ok (bm\<lparr>auth_key_by_conf_key_id := d'\<rparr>) = bfd_main_ok bm" "bfd_main_ok (bfd_call c' bm) = bfd_main_ok bm"
  by (simp_all add: bfd_main_ok_def bfd_usec_to_clocks_def bfd_call_def)

lemma usec_to_clocks_cong [simp]:
  "bfd_usec_to_clocks (bm\<lparr>random_seed := x\<rparr>) = bfd_usec_to_clocks bm"
  "bfd_usec_to_clocks (bm\<lparr>bfd_calls := c\<rparr>) = bfd_usec_to_clocks bm"
  "bfd_usec_to_clocks (bm\<lparr>sessions := p\<rparr>) = bfd_usec_to_clocks bm"
  "bfd_usec_to_clocks (bm\<lparr>auth_keys := k\<rparr>) = bfd_usec_to_clocks bm"
  "bfd_usec_to_clocks (bfd_call c' bm) = bfd_usec_to_clocks bm"
  by (simp_all add: fun_eq_iff bfd_usec_to_clocks_def bfd_call_def)

lemma usec_to_clocks_ok:
  assumes "bfd_main_ok bm" and "unat us < 2 ^ 32"
  shows "\<exists>c. bfd_usec_to_clocks bm us = Some c \<and> clk_ok c"
proof -
  let ?d = "f64_div (f64_of_nat (unat us)) (f64_of_nat 1000000)" and ?cps = "cpu_cps bm"
  let ?v = "f64_mult ?cps ?d"
  have e: "f64_of_nat 1000000 = (1000000, 0)" "f64_of_nat (unat us) = (unat us, 0)"
    using assms(2) by (simp_all add: f64_of_nat_exact)
  have u: "real (unat us) \<le> 2 ^ 32" using assms(2) by (metis less_imp_le of_nat_le_iff of_nat_numeral of_nat_power)
  have "\<bar>f64_val ?d - real (unat us) / 1000000\<bar> \<le> real (unat us) / 1000000 / 2 ^ 53"
    using f64_div_error [of "f64_of_nat 1000000" "f64_of_nat (unat us)"] unfolding e by (simp add: f64_val_def)
  then have "f64_val ?d \<le> (1 + eps) * (real (unat us) / 1000000)" using rel_error by blast
  also have "\<dots> \<le> (1 + eps) * (2 ^ 32 / 1000000)" using u by (intro mult_left_mono divide_right_mono) auto
  also have "\<dots> \<le> 2 ^ 13" by simp
  finally have d: "f64_val ?d \<le> 2 ^ 13" .
  have "f64_val ?v \<le> (1 + eps) * (f64_val ?cps * f64_val ?d)" using rel_error [OF f64_mult_error] by blast
  also have "\<dots> \<le> (1 + eps) * (2 ^ 40 * 2 ^ 13)"
    using d assms(1) by (intro mult_left_mono mult_mono) (auto simp: bfd_main_ok_def)
  also have "\<dots> < 2 ^ 60" by simp
  finally have v: "f64_val ?v < 2 ^ 60" .
  then have "f64_val ?v < 2 ^ 64" by simp
  from f64_to_u64_val [OF this] obtain c where "f64_to_u64 ?v = Some c" "unat c = nat \<lfloor>f64_val ?v\<rfloor>" by blast
  then show ?thesis using v by (simp add: bfd_usec_to_clocks_def clk_ok_def nat_less_iff floor_less_iff)
qed

lemma f64_to_u64_unat: "f64_to_u64 x = Some w \<Longrightarrow> unat w = nat \<lfloor>f64_val x\<rfloor>"
proof -
  define n where "n = nat \<lfloor>f64_val x\<rfloor>"
  assume "f64_to_u64 x = Some w"
  then show ?thesis by (auto simp: f64_to_u64_def f64_floor_eq unat_of_nat simp flip: n_def split: if_splits)
qed

text \<open>Converted back, an interval is still a 32-bit number of microseconds.\<close>

lemma clocks_to_usec_ok:
  assumes "bfd_main_ok bm" and "bfd_usec_to_clocks bm us = Some c" and "unat us < 2 ^ 32"
  shows "\<exists>u. bfd_clocks_to_usec bm c = Some u"
proof -
  let ?cps = "cpu_cps bm"
  define v where "v = f64_val (f64_mult ?cps (f64_div (f64_of_nat (unat us)) (f64_of_nat 1000000)))"
  define n where "n = real (unat us)"
  have cps: "0 < f64_val ?cps" using assms(1) by (simp add: bfd_main_ok_def f64_val_def)
  have n: "0 \<le> n" "n \<le> 2 ^ 32 - 1"
  proof -
    have "unat us \<le> 2 ^ 32 - 1" using assms(3) by simp
    then have "real (unat us) \<le> real (2 ^ 32 - 1)" by (rule iffD2 [OF of_nat_le_iff])
    then show "n \<le> 2 ^ 32 - 1" by (simp add: n_def)
  qed (simp add: n_def del: of_nat_unat)
  have e: "f64_of_nat 1000000 = (1000000, 0)" "f64_of_nat (unat us) = (unat us, 0)"
    using assms(3) by (simp_all add: f64_of_nat_exact)
  have m: "f64_val (1000000, 0) = 1000000" by (simp add: f64_val_def)
  have "\<bar>f64_val (f64_div (f64_of_nat (unat us)) (f64_of_nat 1000000)) - n / 1000000\<bar> \<le> n / 1000000 / 2 ^ 53"
    using f64_div_error [of "f64_of_nat 1000000" "f64_of_nat (unat us)"] unfolding e by (simp add: f64_val_def n_def)
  then have d: "f64_val (f64_div (f64_of_nat (unat us)) (f64_of_nat 1000000)) \<le> (1 + eps) * (n / 1000000)"
    using rel_error by blast
  have "v \<le> (1 + eps) * (f64_val ?cps * f64_val (f64_div (f64_of_nat (unat us)) (f64_of_nat 1000000)))"
    using rel_error [OF f64_mult_error] unfolding v_def by blast
  also have "\<dots> \<le> (1 + eps) * (f64_val ?cps * ((1 + eps) * (n / 1000000)))"
    using d cps by (intro mult_left_mono) simp_all
  finally have v: "v \<le> (1 + eps) ^ 2 * (f64_val ?cps * n / 1000000)" by (simp add: power2_eq_square mult_ac)
  have v0: "0 \<le> v" by (simp add: v_def)
  have "unat c = nat \<lfloor>v\<rfloor>"
    using assms(2) unfolding v_def bfd_usec_to_clocks_def by (rule f64_to_u64_unat)
  then have c: "real (unat c) \<le> v" using v0 by linarith
  let ?f = "f64_of_nat (unat c)" 
  define q where "q = f64_val (f64_div ?f ?cps)"
  have "f64_val ?f \<le> (1 + eps) * real (unat c)" using rel_error [OF f64_of_nat_error] by blast
  then have f: "f64_val ?f \<le> (1 + eps) * v" using c by (smt (verit) mult_left_mono zero_le_divide_1_iff zero_le_power)
  have "q \<le> (1 + eps) * (f64_val ?f / f64_val ?cps)"
    unfolding q_def using rel_error [OF f64_div_error] assms(1) by (simp add: bfd_main_ok_def)
  also have "\<dots> \<le> (1 + eps) * (((1 + eps) * ((1 + eps) ^ 2 * (f64_val ?cps * n / 1000000))) / f64_val ?cps)"
  proof -
    have "f64_val ?f \<le> (1 + eps) * ((1 + eps) ^ 2 * (f64_val ?cps * n / 1000000))"
      by (rule order_trans [OF f mult_left_mono [OF v]]) simp
    then show ?thesis using cps by (intro mult_left_mono divide_right_mono) simp_all
  qed
  also have "\<dots> = (1 + eps) ^ 4 * (n / 1000000)" using cps by (simp add: power_numeral_reduce)
  finally have q: "q \<le> (1 + eps) ^ 4 * (n / 1000000)" .
  define w where "w = f64_val (f64_mult (f64_div ?f ?cps) (f64_of_nat 1000000))"
  have "w \<le> (1 + eps) * (q * 1000000)"
    using rel_error [OF f64_mult_error [of "f64_div ?f ?cps" "f64_of_nat 1000000"]] unfolding w_def q_def e m by blast
  also have "\<dots> \<le> (1 + eps) * ((1 + eps) ^ 4 * (n / 1000000) * 1000000)"
    using q by (intro mult_left_mono mult_right_mono) simp_all
  also have "\<dots> = (1 + eps) ^ 5 * n" by (simp add: power_numeral_reduce)
  also have "\<dots> \<le> (1 + 1 / 2 ^ 50) * n" by (rule mult_right_mono [OF eps_powers(1) n(1)])
  also have "\<dots> < 2 ^ 32" using n by (simp add: field_simps)
  finally have "w < 2 ^ 32" .
  moreover have "0 \<le> w" by (simp add: w_def)
  ultimately have "nat \<lfloor>w\<rfloor> < 2 ^ 32" by (simp add: nat_less_iff floor_less_iff)
  then show ?thesis unfolding bfd_clocks_to_usec_def f64_to_u32_def f64_floor_eq w_def by simp
qed

section \<open>The next transmission\<close>

lemma jittered:
  assumes "0 \<le> r" "r \<le> 1 + eps" and "sf64_val rf = r" and "0 < c"
    and "c * (1 + eps) ^ 2 \<le> sf64_val x" and "(1 - eps) * (3 / 4) \<le> sf64_val x - c * (1 + eps) ^ 2"
    and "sf64_val cf = c"
  shows "(1 - eps) ^ 2 * (3 / 4) \<le> sf64_val (sf64_diff x (sf64_mult cf rf))
    \<and> sf64_val (sf64_diff x (sf64_mult cf rf)) \<le> (1 + eps) * sf64_val x"
proof -
  define q where "q = sf64_val (sf64_mult cf rf)"
  have "0 \<le> c * r" using assms by simp
  then have q1: "(1 - eps) * (c * r) \<le> q" "q \<le> (1 + eps) * (c * r)"
    using rel_error_abs [OF _ sf64_mult_error [of cf rf]] assms(3,7) by (simp_all add: q_def)
  have q0: "0 \<le> q" using q1(1) \<open>0 \<le> c * r\<close> by (smt (verit) mult_nonneg_nonneg divide_le_eq_1_pos one_le_power)
  have "(1 + eps) * (c * r) \<le> (1 + eps) * (c * (1 + eps))" using assms(1,2,4) by (intro mult_left_mono) auto
  then have q: "q \<le> c * (1 + eps) ^ 2" using q1(2) by (simp add: power2_eq_square mult_ac)
  define d where "d = sf64_val (sf64_diff x (sf64_mult cf rf))"
  have "0 \<le> sf64_val x - q" using q assms(5) by linarith
  then have d: "(1 - eps) * (sf64_val x - q) \<le> d" "d \<le> (1 + eps) * (sf64_val x - q)"
    using rel_error_abs [OF _ sf64_diff_error [of x "sf64_mult cf rf"]] by (simp_all add: q_def d_def)
  have "(1 - eps) * ((1 - eps) * (3 / 4)) \<le> (1 - eps) * (sf64_val x - q)"
    using q assms(6) by (intro mult_left_mono) (linarith, simp)
  moreover have "(1 + eps) * (sf64_val x - q) \<le> (1 + eps) * sf64_val x" using q0 by (intro mult_left_mono) auto
  ultimately show ?thesis using d unfolding d_def [symmetric] by (simp add: power2_eq_square)
qed

text \<open>The factors that the transmit interval is multiplied with: 75 to 100 percent, or 75 to 90 percent when
  a single lost packet takes the session down.\<close>

definition jitter_high :: "u8 \<Rightarrow> real" where
  "jitter_high mult = (if 1 < mult then 1 else 9 / 10)"

definition jitter_factor :: "u8 \<Rightarrow> sf64 \<Rightarrow> sf64" where
  "jitter_factor mult r =
    (if 1 < mult then sf64_diff (1, 0) (sf64_mult f64_quarter r) else sf64_diff f64_0_9 (sf64_mult f64_0_15 r))"

lemma jitter_factor_range:
  assumes "rf = fst (random_f64 seed)"
  shows "(1 - eps) ^ 2 * (3 / 4) \<le> sf64_val (jitter_factor mult rf)
    \<and> sf64_val (jitter_factor mult rf) \<le> (1 + eps) ^ 2 * jitter_high mult"
proof -
  have r: "0 \<le> sf64_val rf" "sf64_val rf \<le> 1 + eps" using random_f64_range [of seed] assms by auto
  have c: "sf64_val f64_quarter = 1 / 4" "sf64_val (1, 0) = 1" "sf64_val f64_0_9 = 8106479329266893 / 2 ^ 53"
    "sf64_val f64_0_15 = 5404319552844595 / 2 ^ 55"
    by (simp_all add: sf64_val_def f64_quarter_def f64_0_9_def f64_0_15_def power_int_def field_simps)
  show ?thesis
  proof (cases "1 < mult")
    case True
    have "(1 + eps) * sf64_val (1, 0) \<le> (1 + eps) ^ 2" unfolding c by (simp add: power2_eq_square)
    with jittered [OF r refl, of "1 / 4" "(1, 0)" f64_quarter] True show ?thesis
      unfolding c jitter_factor_def jitter_high_def by (simp add: power2_eq_square)
  next
    case False
    have "(1 + eps) * sf64_val f64_0_9 \<le> (1 + eps) ^ 2 * (9 / 10)" unfolding c by (simp add: power2_eq_square)
    with jittered [OF r refl, of "5404319552844595 / 2 ^ 55" f64_0_9 f64_0_15] False show ?thesis
      unfolding c jitter_factor_def jitter_high_def by (simp add: power2_eq_square)
  qed
qed

text \<open>The computation never overflows, and lands in the window or, when that is past, at \<open>now\<close>.\<close>

lemma calc_next_tx_ok:
  assumes "clk_ok (last_tx_clocks bs)" and "clk_ok (transmit_interval_clocks bs)"
  obtains t where "bfd_calc_next_tx now (bm, bs)
      = Some (bm\<lparr>random_seed := random_u32 (random_seed bm)\<rparr>, bs\<lparr>tx_timeout_clocks := (if t < now then now else t)\<rparr>)"
    and "(real (unat (last_tx_clocks bs)) + 3 / 4 * real (unat (transmit_interval_clocks bs))) * (1 - 1 / 2 ^ 50) - 1
      < real (unat t)"
    and "real (unat t) \<le> (real (unat (last_tx_clocks bs))
      + jitter_high (local_detect_mult bs) * real (unat (transmit_interval_clocks bs))) * (1 + 1 / 2 ^ 50)"
proof -
  obtain r seed where r: "random_f64 (random_seed bm) = (r, seed)" by fastforce
  then have seed: "seed = random_u32 (random_seed bm)" by (simp add: random_f64_def Let_def)
  let ?h = "jitter_high (local_detect_mult bs)"
  define f where "f = jitter_factor (local_detect_mult bs) r"
  define a b where "a = real (unat (last_tx_clocks bs))" and "b = real (unat (transmit_interval_clocks bs))"
  let ?I = "sf64_of_u64 (transmit_interval_clocks bs)" and ?L = "sf64_of_u64 (last_tx_clocks bs)"
  define x where "x = sf64_add ?L (sf64_mult f ?I)"
  have "0 \<le> a" "0 \<le> b" unfolding a_def b_def by (rule of_nat_0_le_iff)+
  moreover have "a < 2 ^ 60" "b < 2 ^ 60"
    using assms by (simp_all add: a_def b_def clk_ok_def flip: of_nat_less_iff [where 'a = real])
  ultimately have ab: "0 \<le> a" "0 \<le> b" "a < 2 ^ 60" "b < 2 ^ 60" by simp_all
  have h: "0 \<le> ?h" "?h \<le> 1" by (simp_all add: jitter_high_def)
  have L: "(1 - eps) * a \<le> sf64_val ?L" "sf64_val ?L \<le> (1 + eps) * a"
    and I: "(1 - eps) * b \<le> sf64_val ?I" "sf64_val ?I \<le> (1 + eps) * b"
    using rel_error [OF sf64_of_u64_error] by (simp_all add: a_def b_def)
  have f: "(1 - eps) ^ 2 * (3 / 4) \<le> sf64_val f" "sf64_val f \<le> (1 + eps) ^ 2 * ?h"
    using jitter_factor_range [of r "random_seed bm"] r by (simp_all add: f_def)
  have nn: "0 \<le> sf64_val ?L" "0 \<le> sf64_val ?I" using L(1) I(1) ab by (smt (verit) mult_nonneg_nonneg divide_le_eq_1_pos one_le_power)+
  have fI: "0 \<le> sf64_val f * sf64_val ?I" by (intro mult_nonneg_nonneg nn(2) order_trans [OF _ f(1)]) simp_all
  define p where "p = sf64_val (sf64_mult f ?I)"
  have p: "(1 - eps) * (sf64_val f * sf64_val ?I) \<le> p" "p \<le> (1 + eps) * (sf64_val f * sf64_val ?I)"
    using rel_error_abs [OF fI sf64_mult_error] by (simp_all add: p_def)
  have "0 \<le> p" using p(1) fI by (smt (verit) mult_nonneg_nonneg divide_le_eq_1_pos one_le_power)
  then have "0 \<le> sf64_val ?L + p" using nn(1) by linarith
  then have s: "(1 - eps) * (sf64_val ?L + p) \<le> sf64_val x" "sf64_val x \<le> (1 + eps) * (sf64_val ?L + p)"
    using rel_error_abs [OF _ sf64_add_error [of ?L "sf64_mult f ?I"]] by (simp_all add: p_def x_def)
  have R: "(1 - eps) ^ 3 * (a + (1 - eps) ^ 2 * (3 / 4) * b) \<le> sf64_val x"
    "sf64_val x \<le> (1 + eps) ^ 3 * (a + (1 + eps) ^ 2 * ?h * b)"
    using rounded_sum [OF L I f _ ab(1,2) p s] by simp_all
  have "(1 - eps) ^ 5 * (a + 3 / 4 * b) \<le> (1 - eps) ^ 3 * (a + (1 - eps) ^ 2 * (3 / 4) * b)"
  proof -
    have "(1 - eps) ^ 5 * a \<le> (1 - eps) ^ 3 * a" by (intro mult_right_mono ab power_decreasing) simp_all
    then show ?thesis by (simp add: algebra_simps power_numeral_reduce)
  qed
  moreover have "(1 - 1 / 2 ^ 50) * (a + 3 / 4 * b) \<le> (1 - eps) ^ 5 * (a + 3 / 4 * b)"
    by (rule mult_right_mono [OF eps_powers(2)]) (use ab in simp)
  ultimately have lo: "(1 - 1 / 2 ^ 50) * (a + 3 / 4 * b) \<le> sf64_val x" using R(1) by linarith
  have "(1 + eps) ^ 3 * (a + (1 + eps) ^ 2 * ?h * b) \<le> (1 + eps) ^ 5 * (a + ?h * b)"
  proof -
    have "(1 + eps) ^ 3 * a \<le> (1 + eps) ^ 5 * a" by (intro mult_right_mono ab power_increasing) simp_all
    then show ?thesis by (simp add: algebra_simps power_numeral_reduce)
  qed
  moreover have "(1 + eps) ^ 5 * (a + ?h * b) \<le> (1 + 1 / 2 ^ 50) * (a + ?h * b)"
    by (rule mult_right_mono [OF eps_powers(1)]) (use ab h in simp)
  ultimately have hi: "sf64_val x \<le> (1 + 1 / 2 ^ 50) * (a + ?h * b)" using R(2) by linarith
  have "?h * b \<le> b" using h ab(2) by (simp add: mult_left_le_one_le)
  then have "(1 + 1 / 2 ^ 50) * (a + ?h * b) \<le> (1 + 1 / 2 ^ 50) * (2 ^ 61 :: real)"
    using ab by (intro mult_left_mono) simp_all
  also have "\<dots> < 2 ^ 64" by simp
  finally have "sf64_val x < 2 ^ 64" using hi by linarith
  moreover have x0: "0 \<le> sf64_val x" by (rule order_trans [OF _ lo]) (use ab in simp)
  ultimately obtain t where t: "sf64_to_u64 x = Some t" "unat t = nat \<lfloor>sf64_val x\<rfloor>"
    using sf64_to_u64_val by blast
  have "real (unat t) = of_int \<lfloor>sf64_val x\<rfloor>" using t(2) x0 by simp
  then have tx: "sf64_val x - 1 < real (unat t)" "real (unat t) \<le> sf64_val x" by linarith+
  show ?thesis
  proof (rule that [of t])
    show "bfd_calc_next_tx now (bm, bs)
      = Some (bm\<lparr>random_seed := random_u32 (random_seed bm)\<rparr>, bs\<lparr>tx_timeout_clocks := (if t < now then now else t)\<rparr>)"
      using t(1) unfolding bfd_calc_next_tx_def Let_def r prod.case seed x_def f_def jitter_factor_def by simp
    have "(a + 3 / 4 * b) * (1 - 1 / 2 ^ 50) \<le> sf64_val x" using lo by (simp only: mult.commute)
    then show "(real (unat (last_tx_clocks bs)) + 3 / 4 * real (unat (transmit_interval_clocks bs))) * (1 - 1 / 2 ^ 50) - 1
      < real (unat t)" using tx(1) unfolding a_def b_def by linarith
    have "sf64_val x \<le> (a + ?h * b) * (1 + 1 / 2 ^ 50)" using hi by (simp only: mult.commute)
    then show "real (unat t) \<le> (real (unat (last_tx_clocks bs))
      + jitter_high (local_detect_mult bs) * real (unat (transmit_interval_clocks bs))) * (1 + 1 / 2 ^ 50)"
      using tx(2) unfolding a_def b_def by linarith
  qed
qed

end
