(* ===== verification/Bfd_Invariant.thy ===== *)
theory Bfd_Invariant
  imports Bfd_Engine Bfd_Timing
begin

text \<open>
  The invariant of a started BFD session, and that every operation on it is defined and keeps it: the
  clock counts of the intervals are the conversions of the microseconds they stand for, the transmit
  interval is the larger of what either side asks for, a session that is down transmits at the slow
  rate, the echo function runs only while the session is up, and the keys it refers to exist.
\<close>

section \<open>Parts that the timers leave alone\<close>

definition bfd_static :: "bfd_session \<Rightarrow> bfd_session" where
  "bfd_static bs = bs\<lparr>effective_desired_min_tx_clocks := 0, effective_required_min_rx_clocks := 0, bs_echo := 0,
     wheel_time_clocks := 0, transmit_interval_clocks := 0, tx_timeout_clocks := 0,
     echo_transmit_interval_clocks := 0, detection_time_clocks := 0\<rparr>"

definition bfd_config :: "bfd_main \<Rightarrow> bfd_main" where
  "bfd_config bm = bm\<lparr>random_seed := 0, bfd_calls := []\<rparr>"

lemma bfd_static_simps [simp]:
  "bfd_static (bs\<lparr>effective_desired_min_tx_clocks := x\<rparr>) = bfd_static bs"
  "bfd_static (bs\<lparr>effective_required_min_rx_clocks := x\<rparr>) = bfd_static bs"
  "bfd_static (bs\<lparr>bs_echo := e\<rparr>) = bfd_static bs" "bfd_static (bs\<lparr>wheel_time_clocks := x\<rparr>) = bfd_static bs"
  "bfd_static (bs\<lparr>transmit_interval_clocks := x\<rparr>) = bfd_static bs" "bfd_static (bs\<lparr>tx_timeout_clocks := x\<rparr>) = bfd_static bs"
  "bfd_static (bs\<lparr>echo_transmit_interval_clocks := x\<rparr>) = bfd_static bs"
  "bfd_static (bs\<lparr>detection_time_clocks := x\<rparr>) = bfd_static bs"
  by (simp_all add: bfd_static_def)

lemma bfd_config_simps [simp]:
  "bfd_config (bm\<lparr>random_seed := s\<rparr>) = bfd_config bm" "bfd_config (bfd_call c bm) = bfd_config bm"
  by (simp_all add: bfd_config_def bfd_call_def)

lemma bfd_call_selectors [simp]:
  "sessions (bfd_call c bm) = sessions bm" "wheel_inaccuracy (bfd_call c bm) = wheel_inaccuracy bm"
  "session_by_disc (bfd_call c bm) = session_by_disc bm" "cpu_cps (bfd_call c bm) = cpu_cps bm"
  "default_desired_min_tx_clocks (bfd_call c bm) = default_desired_min_tx_clocks bm"
  "min_required_min_rx_while_echo_clocks (bfd_call c bm) = min_required_min_rx_while_echo_clocks bm"
  "random_seed (bfd_call c bm) = random_seed bm" "auth_keys (bfd_call c bm) = auth_keys bm"
  "auth_key_by_conf_key_id (bfd_call c bm) = auth_key_by_conf_key_id bm"
  "bfd_calls (bfd_call c bm) = bfd_calls bm @ [c]"
  by (simp_all add: bfd_call_def)

lemma bfd_static_selectors:
  "local_state (bfd_static bs) = local_state bs"
  "remote_state (bfd_static bs) = remote_state bs" "local_diag (bfd_static bs) = local_diag bs"
  "local_discr (bfd_static bs) = local_discr bs" "remote_discr (bfd_static bs) = remote_discr bs"
  "bs_idx (bfd_static bs) = bs_idx bs" "poll_state (bfd_static bs) = poll_state bs"
  "bs_auth (bfd_static bs) = bs_auth bs" "last_tx_clocks (bfd_static bs) = last_tx_clocks bs"
  "last_rx_clocks (bfd_static bs) = last_rx_clocks bs"
  "remote_min_rx_usec (bfd_static bs) = remote_min_rx_usec bs"
  "remote_min_rx_clocks (bfd_static bs) = remote_min_rx_clocks bs"
  "remote_min_echo_rx_usec (bfd_static bs) = remote_min_echo_rx_usec bs"
  "remote_min_echo_rx_clocks (bfd_static bs) = remote_min_echo_rx_clocks bs"
  "config_desired_min_tx_usec (bfd_static bs) = config_desired_min_tx_usec bs"
  "config_desired_min_tx_clocks (bfd_static bs) = config_desired_min_tx_clocks bs"
  "config_required_min_rx_usec (bfd_static bs) = config_required_min_rx_usec bs"
  "config_required_min_rx_clocks (bfd_static bs) = config_required_min_rx_clocks bs"
  "local_detect_mult (bfd_static bs) = local_detect_mult bs" "remote_demand (bfd_static bs) = remote_demand bs"
  "poll_state_start_or_timeout_clocks (bfd_static bs) = poll_state_start_or_timeout_clocks bs"
  "bs_transport (bfd_static bs) = bs_transport bs" "bs_udp (bfd_static bs) = bs_udp bs"
  "echo_secret (bfd_static bs) = echo_secret bs" "remote_detect_mult (bfd_static bs) = remote_detect_mult bs"
  "remote_desired_min_tx_clocks (bfd_static bs) = remote_desired_min_tx_clocks bs"
  "echo_last_rx_clocks (bfd_static bs) = echo_last_rx_clocks bs" "remote_diag (bfd_static bs) = remote_diag bs"
  "echo_tx_timeout_clocks (bfd_static bs) = echo_tx_timeout_clocks bs"
  by (simp_all add: bfd_static_def)

lemma bfd_static_fields:
  assumes "bfd_static bs' = bfd_static bs"
  shows
    "local_state bs' = local_state bs" "remote_state bs' = remote_state bs"
    "local_diag bs' = local_diag bs" "local_discr bs' = local_discr bs" "remote_discr bs' = remote_discr bs"
    "bs_idx bs' = bs_idx bs" "poll_state bs' = poll_state bs" "bs_auth bs' = bs_auth bs"
    "last_tx_clocks bs' = last_tx_clocks bs" "last_rx_clocks bs' = last_rx_clocks bs"
    "remote_min_rx_usec bs' = remote_min_rx_usec bs" "remote_min_rx_clocks bs' = remote_min_rx_clocks bs"
    "remote_min_echo_rx_usec bs' = remote_min_echo_rx_usec bs"
    "remote_min_echo_rx_clocks bs' = remote_min_echo_rx_clocks bs"
    "config_desired_min_tx_usec bs' = config_desired_min_tx_usec bs"
    "config_desired_min_tx_clocks bs' = config_desired_min_tx_clocks bs"
    "config_required_min_rx_usec bs' = config_required_min_rx_usec bs"
    "config_required_min_rx_clocks bs' = config_required_min_rx_clocks bs"
    "local_detect_mult bs' = local_detect_mult bs" "remote_demand bs' = remote_demand bs"
    "poll_state_start_or_timeout_clocks bs' = poll_state_start_or_timeout_clocks bs"
    "bs_transport bs' = bs_transport bs" "bs_udp bs' = bs_udp bs" "echo_secret bs' = echo_secret bs"
    "remote_detect_mult bs' = remote_detect_mult bs"
    "remote_desired_min_tx_clocks bs' = remote_desired_min_tx_clocks bs"
    "echo_last_rx_clocks bs' = echo_last_rx_clocks bs" "remote_diag bs' = remote_diag bs"
    "echo_tx_timeout_clocks bs' = echo_tx_timeout_clocks bs"
  using arg_cong [OF assms, of local_state]
    arg_cong [OF assms, of remote_state]
    arg_cong [OF assms, of local_diag]
    arg_cong [OF assms, of local_discr]
    arg_cong [OF assms, of remote_discr]
    arg_cong [OF assms, of bs_idx]
    arg_cong [OF assms, of poll_state]
    arg_cong [OF assms, of bs_auth]
    arg_cong [OF assms, of last_tx_clocks]
    arg_cong [OF assms, of last_rx_clocks]
    arg_cong [OF assms, of remote_min_rx_usec]
    arg_cong [OF assms, of remote_min_rx_clocks]
    arg_cong [OF assms, of remote_min_echo_rx_usec]
    arg_cong [OF assms, of remote_min_echo_rx_clocks]
    arg_cong [OF assms, of config_desired_min_tx_usec]
    arg_cong [OF assms, of config_desired_min_tx_clocks]
    arg_cong [OF assms, of config_required_min_rx_usec]
    arg_cong [OF assms, of config_required_min_rx_clocks]
    arg_cong [OF assms, of local_detect_mult]
    arg_cong [OF assms, of remote_demand]
    arg_cong [OF assms, of poll_state_start_or_timeout_clocks]
    arg_cong [OF assms, of bs_transport]
    arg_cong [OF assms, of bs_udp]
    arg_cong [OF assms, of echo_secret]
    arg_cong [OF assms, of remote_detect_mult]
    arg_cong [OF assms, of remote_desired_min_tx_clocks]
    arg_cong [OF assms, of echo_last_rx_clocks]
    arg_cong [OF assms, of remote_diag]
    arg_cong [OF assms, of echo_tx_timeout_clocks]
  unfolding bfd_static_selectors by simp_all

lemma bfd_config_fields:
  assumes "bfd_config bm' = bfd_config bm"
  shows "sessions bm' = sessions bm" "wheel_inaccuracy bm' = wheel_inaccuracy bm" "session_by_disc bm' = session_by_disc bm"
    "cpu_cps bm' = cpu_cps bm" "default_desired_min_tx_clocks bm' = default_desired_min_tx_clocks bm"
    "min_required_min_rx_while_echo_clocks bm' = min_required_min_rx_while_echo_clocks bm" "auth_keys bm' = auth_keys bm"
    "auth_key_by_conf_key_id bm' = auth_key_by_conf_key_id bm"
  using arg_cong [OF assms, of sessions] arg_cong [OF assms, of wheel_inaccuracy] arg_cong [OF assms, of session_by_disc]
    arg_cong [OF assms, of cpu_cps] arg_cong [OF assms, of default_desired_min_tx_clocks]
    arg_cong [OF assms, of min_required_min_rx_while_echo_clocks] arg_cong [OF assms, of auth_keys]
    arg_cong [OF assms, of auth_key_by_conf_key_id]
  by (simp_all add: bfd_config_def)

text \<open>A step of the timers: only calls, the random seed and the fields above change.\<close>

definition bfd_moves :: "bfd_ctx \<Rightarrow> bfd_ctx \<Rightarrow> bool" where
  "bfd_moves c c' \<longleftrightarrow> bfd_config (fst c') = bfd_config (fst c) \<and> bfd_static (snd c') = bfd_static (snd c)"

lemma bfd_moves_refl [simp]: "bfd_moves c c"
  by (simp add: bfd_moves_def)

lemma bfd_moves_trans: "bfd_moves c c' \<Longrightarrow> bfd_moves c' c'' \<Longrightarrow> bfd_moves c c''"
  by (simp add: bfd_moves_def)

section \<open>The invariant\<close>

definition usec_pair :: "bfd_main \<Rightarrow> u64 \<Rightarrow> u64 \<Rightarrow> bool" where
  "usec_pair bm us c \<longleftrightarrow> unat us < 2 ^ 32 \<and> bfd_usec_to_clocks bm us = Some c"

definition key_live :: "bfd_main \<Rightarrow> nat option \<Rightarrow> bool" where
  "key_live bm k \<longleftrightarrow> (\<forall>i. k = Some i \<longrightarrow> pool_elt_at_index (auth_keys bm) i \<noteq> None)"

definition bfd_base_ok :: "bfd_main \<Rightarrow> bfd_session \<Rightarrow> bool" where
  "bfd_base_ok bm bs \<longleftrightarrow> bfd_main_ok bm \<and> clk_ok (last_tx_clocks bs)
    \<and> usec_pair bm (ucast (config_desired_min_tx_usec bs)) (config_desired_min_tx_clocks bs)
    \<and> usec_pair bm (ucast (config_required_min_rx_usec bs)) (config_required_min_rx_clocks bs)
    \<and> usec_pair bm (remote_min_rx_usec bs) (remote_min_rx_clocks bs)
    \<and> usec_pair bm (remote_min_echo_rx_usec bs) (remote_min_echo_rx_clocks bs)
    \<and> key_live bm (curr_key (bs_auth bs)) \<and> key_live bm (next_key (bs_auth bs))"

definition bfd_rates_ok :: "bfd_main \<Rightarrow> bfd_session \<Rightarrow> bool" where
  "bfd_rates_ok bm bs \<longleftrightarrow> clk_ok (effective_desired_min_tx_clocks bs)
    \<and> transmit_interval_clocks bs = max (effective_desired_min_tx_clocks bs) (remote_min_rx_clocks bs)
    \<and> (\<exists>us. usec_pair bm us (effective_required_min_rx_clocks bs))
    \<and> (local_state bs = BFD_STATE_up \<longrightarrow>
        echo_transmit_interval_clocks bs = max (effective_desired_min_tx_clocks bs) (remote_min_echo_rx_clocks bs))
    \<and> (bs_echo bs = 0 \<or> bs_echo bs = 1 \<and> local_state bs = BFD_STATE_up)
    \<and> (local_state bs = BFD_STATE_down \<or> local_state bs = BFD_STATE_admin_down \<longrightarrow>
        default_desired_min_tx_clocks bm \<le> effective_desired_min_tx_clocks bs)"

definition bfd_ctx_ok :: "bfd_ctx \<Rightarrow> bool" where
  "bfd_ctx_ok ctx \<longleftrightarrow> bfd_base_ok (fst ctx) (snd ctx) \<and> bfd_rates_ok (fst ctx) (snd ctx)"

lemma usec_pair_cong:
  assumes "bfd_config bm' = bfd_config bm"
  shows "usec_pair bm' = usec_pair bm"
  by (simp add: fun_eq_iff usec_pair_def bfd_usec_to_clocks_def bfd_config_fields [OF assms])

lemma key_live_cong:
  assumes "bfd_config bm' = bfd_config bm"
  shows "key_live bm' = key_live bm"
  by (simp add: fun_eq_iff key_live_def bfd_config_fields(7) [OF assms])

lemma main_ok_cong:
  assumes "bfd_config bm' = bfd_config bm"
  shows "bfd_main_ok bm' = bfd_main_ok bm"
  by (simp add: bfd_main_ok_def bfd_usec_to_clocks_def bfd_config_fields [OF assms])

lemma base_ok_moves: "bfd_moves c c' \<Longrightarrow> bfd_base_ok (fst c') (snd c') = bfd_base_ok (fst c) (snd c)"
proof -
  assume m: "bfd_moves c c'"
  have c: "bfd_config (fst c') = bfd_config (fst c)" and s: "bfd_static (snd c') = bfd_static (snd c)"
    using m by (simp_all add: bfd_moves_def)
  show ?thesis unfolding bfd_base_ok_def
    by (simp only: bfd_static_fields [OF s] usec_pair_cong [OF c] key_live_cong [OF c] main_ok_cong [OF c])
qed

lemma usec_pair_clk: "bfd_main_ok bm \<Longrightarrow> usec_pair bm us c \<Longrightarrow> clk_ok c"
  using usec_to_clocks_ok [of bm us] by (auto simp: usec_pair_def)

lemma usec_pair_ucast: "bfd_main_ok bm \<Longrightarrow> \<exists>c. bfd_usec_to_clocks bm (ucast (us :: u32)) = Some c \<and> usec_pair bm (ucast us) c"
proof -
  assume "bfd_main_ok bm"
  moreover have "unat (ucast us :: u64) < 2 ^ 32" using unat_u32_lt [of us] by (simp add: unat_ucast_up)
  ultimately show ?thesis using usec_to_clocks_ok [of bm "ucast us"] unfolding usec_pair_def by blast
qed

lemma usec_pair_default:
  "bfd_main_ok bm \<Longrightarrow> usec_pair bm 1000000 (default_desired_min_tx_clocks bm)
    \<and> usec_pair bm 1000000 (min_required_min_rx_while_echo_clocks bm)"
  unfolding usec_pair_def bfd_main_ok_def by (elim conjE, intro conjI) simp_all

lemma clk_ok_max [simp]: "clk_ok a \<Longrightarrow> clk_ok b \<Longrightarrow> clk_ok (max a b)"
  by (simp add: max_def)

section \<open>Shapes of the timer operations\<close>

lemma set_timer_moves [simp]: "bfd_moves c (bfd_set_timer now h c)"
  by (cases c) (simp add: bfd_moves_def bfd_set_timer_def Let_def)

lemma set_timer_shape:
  obtains cs w where "bfd_set_timer now h (bm, bs) = (bm\<lparr>bfd_calls := cs\<rparr>, bs\<lparr>wheel_time_clocks := w\<rparr>)"
proof -
  have "\<exists>cs w. bfd_set_timer now h (bm, bs) = (bm\<lparr>bfd_calls := cs\<rparr>, bs\<lparr>wheel_time_clocks := w\<rparr>)"
    unfolding bfd_set_timer_def Let_def prod.case
    by (cases h; force simp: bfd_call_def intro: exI [of _ "bfd_calls bm"] exI [of _ "wheel_time_clocks bs"])
  then show ?thesis using that by blast
qed

lemma recalc_detection_shape:
  obtains d where "bfd_recalc_detection_time (bm, bs) = (bm, bs\<lparr>detection_time_clocks := d\<rparr>)"
proof -
  have "\<exists>d. bfd_recalc_detection_time (bm, bs) = (bm, bs\<lparr>detection_time_clocks := d\<rparr>)"
    unfolding bfd_recalc_detection_time_def Let_def prod.case
    by (force intro: exI [of _ "detection_time_clocks bs"])
  then show ?thesis using that by blast
qed

section \<open>Timer operations keep the invariant\<close>

lemma base_ok_simps [simp]:
  "bfd_base_ok (bm\<lparr>bfd_calls := cs\<rparr>) = bfd_base_ok bm" "bfd_base_ok (bm\<lparr>random_seed := s\<rparr>) = bfd_base_ok bm"
  "bfd_base_ok (bfd_call c bm) = bfd_base_ok bm"
  "bfd_base_ok bm (bs\<lparr>effective_desired_min_tx_clocks := x\<rparr>) = bfd_base_ok bm bs"
  "bfd_base_ok bm (bs\<lparr>effective_required_min_rx_clocks := x\<rparr>) = bfd_base_ok bm bs"
  "bfd_base_ok bm (bs\<lparr>bs_echo := e\<rparr>) = bfd_base_ok bm bs" "bfd_base_ok bm (bs\<lparr>wheel_time_clocks := x\<rparr>) = bfd_base_ok bm bs"
  "bfd_base_ok bm (bs\<lparr>transmit_interval_clocks := x\<rparr>) = bfd_base_ok bm bs"
  "bfd_base_ok bm (bs\<lparr>tx_timeout_clocks := x\<rparr>) = bfd_base_ok bm bs"
  "bfd_base_ok bm (bs\<lparr>echo_transmit_interval_clocks := x\<rparr>) = bfd_base_ok bm bs"
  "bfd_base_ok bm (bs\<lparr>detection_time_clocks := x\<rparr>) = bfd_base_ok bm bs"
  "bfd_base_ok bm (bs\<lparr>local_state := st\<rparr>) = bfd_base_ok bm bs" "bfd_base_ok bm (bs\<lparr>local_diag := g\<rparr>) = bfd_base_ok bm bs"
  "bfd_base_ok bm (bs\<lparr>poll_state := ps\<rparr>) = bfd_base_ok bm bs"
  by (simp_all add: fun_eq_iff bfd_base_ok_def usec_pair_def key_live_def bfd_call_def)

lemma rates_ok_simps [simp]:
  "bfd_rates_ok (bm\<lparr>bfd_calls := cs\<rparr>) = bfd_rates_ok bm" "bfd_rates_ok (bm\<lparr>random_seed := s\<rparr>) = bfd_rates_ok bm"
  "bfd_rates_ok (bfd_call c bm) = bfd_rates_ok bm"
  "bfd_rates_ok bm (bs\<lparr>wheel_time_clocks := x\<rparr>) = bfd_rates_ok bm bs"
  "bfd_rates_ok bm (bs\<lparr>tx_timeout_clocks := x\<rparr>) = bfd_rates_ok bm bs"
  "bfd_rates_ok bm (bs\<lparr>detection_time_clocks := x\<rparr>) = bfd_rates_ok bm bs"
  "bfd_rates_ok bm (bs\<lparr>local_diag := g\<rparr>) = bfd_rates_ok bm bs" "bfd_rates_ok bm (bs\<lparr>poll_state := ps\<rparr>) = bfd_rates_ok bm bs"
  "bfd_rates_ok bm (bs\<lparr>last_tx_clocks := x\<rparr>) = bfd_rates_ok bm bs"
  by (simp_all add: fun_eq_iff bfd_rates_ok_def usec_pair_def bfd_call_def)

lemma transmit_clk: "bfd_base_ok bm bs \<Longrightarrow> bfd_rates_ok bm bs \<Longrightarrow> clk_ok (transmit_interval_clocks bs)"
  unfolding bfd_base_ok_def bfd_rates_ok_def by (metis clk_ok_max usec_pair_clk)

lemma set_timer_ok [simp]: "bfd_ctx_ok (bfd_set_timer now h c) = bfd_ctx_ok c"
proof -
  obtain cs w where "bfd_set_timer now h c = ((fst c)\<lparr>bfd_calls := cs\<rparr>, (snd c)\<lparr>wheel_time_clocks := w\<rparr>)"
    using set_timer_shape [of now h "fst c" "snd c"] by auto
  then show ?thesis by (simp add: bfd_ctx_ok_def)
qed

lemma calc_next_tx_keeps:
  assumes "bfd_ctx_ok c"
  obtains c' where "bfd_calc_next_tx now c = Some c'" "bfd_ctx_ok c'" "bfd_moves c c'"
proof -
  obtain bm bs where c: "c = (bm, bs)" by fastforce
  have "clk_ok (last_tx_clocks bs)" "clk_ok (transmit_interval_clocks bs)"
    using assms transmit_clk [of bm bs] by (simp_all add: c bfd_ctx_ok_def bfd_base_ok_def)
  from calc_next_tx_ok [OF this, of now bm] obtain t where "bfd_calc_next_tx now (bm, bs)
      = Some (bm\<lparr>random_seed := random_u32 (random_seed bm)\<rparr>, bs\<lparr>tx_timeout_clocks := (if t < now then now else t)\<rparr>)" by metis
  then show ?thesis using assms that by (simp add: c bfd_ctx_ok_def bfd_moves_def)
qed

lemma set_required_shape:
  obtains d where "bfd_set_effective_required_min_rx x (bm, bs)
    = (bm, bs\<lparr>effective_required_min_rx_clocks := x, detection_time_clocks := d\<rparr>)"
proof -
  obtain d where "bfd_recalc_detection_time (bm, bs\<lparr>effective_required_min_rx_clocks := x\<rparr>)
      = (bm, bs\<lparr>effective_required_min_rx_clocks := x, detection_time_clocks := d\<rparr>)"
    by (rule recalc_detection_shape)
  then show ?thesis using that unfolding bfd_set_effective_required_min_rx_def Let_def prod.case by blast
qed

lemma set_required_keeps:
  assumes "bfd_ctx_ok c" and "usec_pair (fst c) us x"
  shows "bfd_ctx_ok (bfd_set_effective_required_min_rx x c) \<and> bfd_moves c (bfd_set_effective_required_min_rx x c)"
proof -
  obtain bm bs where c: "c = (bm, bs)" by fastforce
  obtain d where "bfd_set_effective_required_min_rx x (bm, bs)
      = (bm, bs\<lparr>effective_required_min_rx_clocks := x, detection_time_clocks := d\<rparr>)" by (rule set_required_shape)
  then show ?thesis using assms by (auto simp: c bfd_ctx_ok_def bfd_moves_def bfd_rates_ok_def)
qed

text \<open>Setting the desired interval makes the rates right, whatever they were before.\<close>

lemma set_desired_keeps:
  assumes "bfd_base_ok bm bs" and "usec_pair bm us (effective_required_min_rx_clocks bs)" and "clk_ok x"
    and "bs_echo bs = 0 \<or> bs_echo bs = 1 \<and> local_state bs = BFD_STATE_up"
    and "local_state bs = BFD_STATE_down \<or> local_state bs = BFD_STATE_admin_down \<longrightarrow> default_desired_min_tx_clocks bm \<le> x"
  shows "\<exists>c'. bfd_set_effective_desired_min_tx now x (bm, bs) = Some c' \<and> bfd_ctx_ok c' \<and> bfd_moves (bm, bs) c'"
proof -
  obtain d where d: "bfd_recalc_detection_time (bm, bs\<lparr>effective_desired_min_tx_clocks := x\<rparr>)
      = (bm, bs\<lparr>effective_desired_min_tx_clocks := x, detection_time_clocks := d\<rparr>)"
    by (rule recalc_detection_shape)
  let ?bs = "bs\<lparr>effective_desired_min_tx_clocks := x, detection_time_clocks := d,
    transmit_interval_clocks := max x (remote_min_rx_clocks bs), echo_transmit_interval_clocks := max x (remote_min_echo_rx_clocks bs)\<rparr>"
  have e: "bfd_set_effective_desired_min_tx now x (bm, bs) = bfd_calc_next_tx now (bm, ?bs)"
    unfolding bfd_set_effective_desired_min_tx_def Let_def prod.case d
    by (simp add: bfd_recalc_tx_interval_def bfd_recalc_echo_tx_interval_def)
  have "bfd_ctx_ok (bm, ?bs)" using assms by (auto simp: bfd_ctx_ok_def bfd_rates_ok_def)
  then obtain c' where "bfd_calc_next_tx now (bm, ?bs) = Some c'" "bfd_ctx_ok c'" "bfd_moves (bm, ?bs) c'"
    by (rule calc_next_tx_keeps)
  then show ?thesis unfolding e by (simp add: bfd_moves_def)
qed

section \<open>Changes of the state keep the invariant\<close>

lemma on_state_change_keeps:
  assumes "bfd_base_ok bm bs" and "usec_pair bm us (effective_required_min_rx_clocks bs)"
    and "bs_echo bs = 0 \<or> bs_echo bs = 1"
  shows "\<exists>c'. bfd_on_state_change now h (bm, bs) = Some c' \<and> bfd_ctx_ok c' \<and> bfd_moves (bm, bs) c'"
proof -
  let ?bm = "bfd_call (Bfd_Event (bs_idx bs) (local_state bs)) bm"
  let ?slow = "max (config_desired_min_tx_clocks bs) (default_desired_min_tx_clocks bm)"
  have m: "bfd_main_ok bm" using assms(1) by (simp add: bfd_base_ok_def)
  have k: "clk_ok (config_desired_min_tx_clocks bs)" "clk_ok ?slow"
    using assms(1) usec_pair_clk [OF m] usec_pair_default [OF m] by (auto simp: bfd_base_ok_def intro!: clk_ok_max)
  have u: "usec_pair ?bm = usec_pair bm" by (rule usec_pair_cong) simp
  have cfg: "usec_pair bm (ucast (config_required_min_rx_usec bs)) (config_required_min_rx_clocks bs)"
    using assms(1) by (simp add: bfd_base_ok_def)
  have req: "bfd_ctx_ok (bfd_set_effective_required_min_rx (config_required_min_rx_clocks bs) c)
      \<and> bfd_moves (bm, bs) (bfd_set_effective_required_min_rx (config_required_min_rx_clocks bs) c)"
    if "bfd_ctx_ok c" "bfd_moves (bm, bs) c" for c
    using set_required_keeps [OF that(1), of "ucast (config_required_min_rx_usec bs)" "config_required_min_rx_clocks bs"]
      that cfg bfd_moves_trans [OF that(2)] usec_pair_cong [of "fst c" bm] by (simp add: bfd_moves_def)
  note final = bfd_moves_trans [OF _ set_timer_moves]
  show ?thesis
  proof (cases "local_state bs")
    case BFD_STATE_up
    have "\<exists>c. bfd_set_effective_desired_min_tx now (config_desired_min_tx_clocks bs) (?bm, bs) = Some c
        \<and> bfd_ctx_ok c \<and> bfd_moves (?bm, bs) c"
      by (rule set_desired_keeps [of _ _ us]) (use assms k u BFD_STATE_up in auto)
    then obtain c where c: "bfd_set_effective_desired_min_tx now (config_desired_min_tx_clocks bs) (?bm, bs) = Some c"
      "bfd_ctx_ok c" "bfd_moves (bm, bs) c" by (auto simp: bfd_moves_def)
    then show ?thesis using req [of c] BFD_STATE_up by (simp add: bfd_on_state_change_def Let_def final)
  next
    case BFD_STATE_init
    have "\<exists>c. bfd_set_effective_desired_min_tx now (config_desired_min_tx_clocks bs) (?bm, bs\<lparr>bs_echo := 0\<rparr>) = Some c
        \<and> bfd_ctx_ok c \<and> bfd_moves (?bm, bs\<lparr>bs_echo := 0\<rparr>) c"
      by (rule set_desired_keeps [of _ _ us]) (use assms k u BFD_STATE_init in auto)
    then obtain c where c: "bfd_set_effective_desired_min_tx now (config_desired_min_tx_clocks bs) (?bm, bs\<lparr>bs_echo := 0\<rparr>) = Some c"
      "bfd_ctx_ok c" "bfd_moves (bm, bs) c" by (auto simp: bfd_moves_def)
    then show ?thesis using BFD_STATE_init by (simp add: bfd_on_state_change_def Let_def final)
  next
    case BFD_STATE_down
    have "\<exists>c. bfd_set_effective_desired_min_tx now ?slow (?bm, bs\<lparr>bs_echo := 0\<rparr>) = Some c
        \<and> bfd_ctx_ok c \<and> bfd_moves (?bm, bs\<lparr>bs_echo := 0\<rparr>) c"
      by (rule set_desired_keeps [of _ _ us]) (use assms k u BFD_STATE_down in auto)
    then obtain c where c: "bfd_set_effective_desired_min_tx now ?slow (?bm, bs\<lparr>bs_echo := 0\<rparr>) = Some c"
      "bfd_ctx_ok c" "bfd_moves (bm, bs) c" by (auto simp: bfd_moves_def)
    then show ?thesis using req [of c] BFD_STATE_down by (simp add: bfd_on_state_change_def Let_def final)
  next
    case BFD_STATE_admin_down
    have "\<exists>c. bfd_set_effective_desired_min_tx now ?slow (?bm, bs\<lparr>bs_echo := 0\<rparr>) = Some c
        \<and> bfd_ctx_ok c \<and> bfd_moves (?bm, bs\<lparr>bs_echo := 0\<rparr>) c"
      by (rule set_desired_keeps [of _ _ us]) (use assms k u BFD_STATE_admin_down in auto)
    then obtain c where c: "bfd_set_effective_desired_min_tx now ?slow (?bm, bs\<lparr>bs_echo := 0\<rparr>) = Some c"
      "bfd_ctx_ok c" "bfd_moves (bm, bs) c" by (auto simp: bfd_moves_def)
    then show ?thesis using req [of c] BFD_STATE_admin_down by (simp add: bfd_on_state_change_def Let_def final)
  qed
qed

lemma set_diag_eq [simp]: "bfd_set_diag d (bm, bs) = (bm, bs\<lparr>local_diag := d\<rparr>)"
  by (auto simp: bfd_set_diag_def)

lemma set_poll_state_eq [simp]: "bfd_set_poll_state p (bm, bs) = (bm, bs\<lparr>poll_state := p\<rparr>)"
  by (auto simp: bfd_set_poll_state_def)

lemma ctx_ok_simps [simp]:
  "bfd_ctx_ok (bm, bs\<lparr>local_diag := g\<rparr>) = bfd_ctx_ok (bm, bs)" "bfd_ctx_ok (bm, bs\<lparr>poll_state := ps\<rparr>) = bfd_ctx_ok (bm, bs)"
  "bfd_ctx_ok (bm, bs\<lparr>detection_time_clocks := x\<rparr>) = bfd_ctx_ok (bm, bs)"
  "bfd_ctx_ok (bm, bs\<lparr>tx_timeout_clocks := x\<rparr>) = bfd_ctx_ok (bm, bs)"
  "bfd_ctx_ok (bfd_call c bm, bs) = bfd_ctx_ok (bm, bs)"
  by (simp_all add: bfd_ctx_ok_def)

lemma set_state_keeps:
  assumes "bfd_ctx_ok (bm, bs)"
  shows "\<exists>c'. bfd_set_state now st h (bm, bs) = Some c' \<and> bfd_ctx_ok c' \<and> bfd_moves (bm, bs\<lparr>local_state := st\<rparr>) c'"
proof (cases "local_state bs = st")
  case True
  then have e: "bs\<lparr>local_state := st\<rparr> = bs" by auto
  show ?thesis unfolding e using assms True by (simp add: bfd_set_state_def)
next
  case False
  obtain us where "usec_pair bm us (effective_required_min_rx_clocks bs)"
    using assms by (auto simp: bfd_ctx_ok_def bfd_rates_ok_def)
  moreover have "bs_echo bs = 0 \<or> bs_echo bs = 1" using assms by (auto simp: bfd_ctx_ok_def bfd_rates_ok_def)
  ultimately show ?thesis using False assms on_state_change_keeps [of bm "bs\<lparr>local_state := st\<rparr>" us now h]
    by (simp add: bfd_set_state_def bfd_ctx_ok_def)
qed

lemma set_remote_rx_keeps:
  assumes "bfd_ctx_ok (bm, bs)"
  shows "\<exists>c' x. bfd_set_remote_required_min_rx us (bm, bs) = Some c' \<and> bfd_ctx_ok c'
    \<and> bfd_moves (bm, bs\<lparr>remote_min_rx_usec := ucast us, remote_min_rx_clocks := x\<rparr>) c'"
proof (cases "remote_min_rx_usec bs = ucast us")
  case True
  then have e: "bs\<lparr>remote_min_rx_usec := ucast us, remote_min_rx_clocks := remote_min_rx_clocks bs\<rparr> = bs" by simp
  have "bfd_set_remote_required_min_rx us (bm, bs) = Some (bm, bs)" using True by (simp add: bfd_set_remote_required_min_rx_def)
  moreover have "bfd_moves (bm, bs\<lparr>remote_min_rx_usec := ucast us, remote_min_rx_clocks := remote_min_rx_clocks bs\<rparr>) (bm, bs)"
    unfolding e by simp
  ultimately show ?thesis using assms by blast
next
  case False
  obtain x where x: "bfd_usec_to_clocks bm (ucast us) = Some x" "usec_pair bm (ucast us) x"
    using assms usec_pair_ucast [of bm us] by (auto simp: bfd_ctx_ok_def bfd_base_ok_def)
  let ?bs = "bs\<lparr>remote_min_rx_usec := ucast us, remote_min_rx_clocks := x\<rparr>"
  obtain d where d: "bfd_recalc_detection_time (bm, ?bs) = (bm, ?bs\<lparr>detection_time_clocks := d\<rparr>)"
    by (rule recalc_detection_shape)
  have "bfd_set_remote_required_min_rx us (bm, bs) = Some (bm, ?bs\<lparr>detection_time_clocks := d,
      transmit_interval_clocks := max (effective_desired_min_tx_clocks bs) x\<rparr>)"
    using False x(1) by (simp add: bfd_set_remote_required_min_rx_def d bfd_recalc_tx_interval_def)
  moreover have "bfd_ctx_ok (bm, ?bs\<lparr>detection_time_clocks := d,
      transmit_interval_clocks := max (effective_desired_min_tx_clocks bs) x\<rparr>)"
    using assms x(2) by (auto simp: bfd_ctx_ok_def bfd_base_ok_def bfd_rates_ok_def)
  ultimately show ?thesis by (auto simp: bfd_moves_def intro: exI [of _ x])
qed

lemma set_remote_echo_rx_keeps:
  assumes "bfd_ctx_ok (bm, bs)"
  shows "\<exists>c' x. bfd_set_remote_required_min_echo_rx us (bm, bs) = Some c' \<and> bfd_ctx_ok c'
    \<and> bfd_moves (bm, bs\<lparr>remote_min_echo_rx_usec := ucast us, remote_min_echo_rx_clocks := x\<rparr>) c'"
proof (cases "remote_min_echo_rx_usec bs = ucast us")
  case True
  then have e: "bs\<lparr>remote_min_echo_rx_usec := ucast us, remote_min_echo_rx_clocks := remote_min_echo_rx_clocks bs\<rparr> = bs" by simp
  have "bfd_set_remote_required_min_echo_rx us (bm, bs) = Some (bm, bs)" using True by (simp add: bfd_set_remote_required_min_echo_rx_def)
  moreover have "bfd_moves (bm, bs\<lparr>remote_min_echo_rx_usec := ucast us, remote_min_echo_rx_clocks := remote_min_echo_rx_clocks bs\<rparr>) (bm, bs)"
    unfolding e by simp
  ultimately show ?thesis using assms by blast
next
  case False
  obtain x where x: "bfd_usec_to_clocks bm (ucast us) = Some x" "usec_pair bm (ucast us) x"
    using assms usec_pair_ucast [of bm us] by (auto simp: bfd_ctx_ok_def bfd_base_ok_def)
  let ?bs = "bs\<lparr>remote_min_echo_rx_usec := ucast us, remote_min_echo_rx_clocks := x,
    echo_transmit_interval_clocks := max (effective_desired_min_tx_clocks bs) x\<rparr>"
  have "bfd_set_remote_required_min_echo_rx us (bm, bs) = Some (bm, ?bs)"
    using False x(1) by (simp add: bfd_set_remote_required_min_echo_rx_def bfd_recalc_echo_tx_interval_def)
  moreover have "bfd_ctx_ok (bm, ?bs)"
    using assms x(2) by (auto simp: bfd_ctx_ok_def bfd_base_ok_def bfd_rates_ok_def)
  ultimately show ?thesis by (auto simp: bfd_moves_def intro: exI [of _ x])
qed

section \<open>What a packet and a timeout leave alone\<close>

text \<open>The states and the identity of the session, and its keys.\<close>

definition session_refs :: "bfd_session \<Rightarrow> nat option \<times> nat option \<times> bfd_udp_session" where
  "session_refs bs = (curr_key (bs_auth bs), next_key (bs_auth bs), bs_udp bs)"

definition bfd_core :: "bfd_session \<Rightarrow> bfd_state \<times> u8 \<times> bfd_state \<times> u32 \<times> u32 \<times> u32 \<times> nat option \<times> nat option \<times> bfd_udp_session" where
  "bfd_core bs = (local_state bs, local_diag bs, remote_state bs, local_discr bs, remote_discr bs, bs_idx bs, session_refs bs)"

lemma session_refs_cong: "bs_auth bs' = bs_auth bs \<Longrightarrow> bs_udp bs' = bs_udp bs \<Longrightarrow> session_refs bs' = session_refs bs"
  by (simp add: session_refs_def)

lemma moves_core: "bfd_moves c c' \<Longrightarrow> bfd_core (snd c') = bfd_core (snd c)"
  by (simp add: bfd_core_def session_refs_def bfd_moves_def bfd_static_fields [of "snd c'" "snd c"])

lemma usec_pair_max: "usec_pair bm a x \<Longrightarrow> usec_pair bm b y \<Longrightarrow> \<exists>us. usec_pair bm us (max x y)"
  by (auto simp: max_def)

lemma poll_final_keeps:
  assumes "bfd_ctx_ok (bm, bs)"
  shows "bfd_ctx_ok (bfd_poll_final now (bm, bs)) \<and> fst (bfd_poll_final now (bm, bs)) = bm
    \<and> bfd_core (snd (bfd_poll_final now (bm, bs))) = bfd_core bs"
proof -
  have m: "bfd_main_ok bm" and c: "usec_pair bm (ucast (config_required_min_rx_usec bs)) (config_required_min_rx_clocks bs)"
    using assms by (simp_all add: bfd_ctx_ok_def bfd_base_ok_def)
  have "bs_echo bs = 0 \<or> bs_echo bs = 1" using assms by (auto simp: bfd_ctx_ok_def bfd_rates_ok_def)
  then obtain us where us:
      "usec_pair bm us (max (ucast (bs_echo bs) * min_required_min_rx_while_echo_clocks bm) (config_required_min_rx_clocks bs))"
    using usec_pair_max [OF conjunct2 [OF usec_pair_default [OF m]] c] c by auto
  obtain d where d: "bfd_set_effective_required_min_rx
      (max (ucast (bs_echo bs) * min_required_min_rx_while_echo_clocks bm) (config_required_min_rx_clocks bs))
      (bm, bs\<lparr>poll_state := BFD_POLL_NOT_NEEDED\<rparr>) = (bm, bs\<lparr>poll_state := BFD_POLL_NOT_NEEDED, effective_required_min_rx_clocks :=
      max (ucast (bs_echo bs) * min_required_min_rx_while_echo_clocks bm) (config_required_min_rx_clocks bs), detection_time_clocks := d\<rparr>)"
    by (rule set_required_shape)
  show ?thesis using assms us
    by (cases "poll_state bs") (auto simp: bfd_poll_final_def Let_def d bfd_core_def session_refs_def bfd_ctx_ok_def bfd_base_ok_def bfd_rates_ok_def)
qed

lemma learn_remote_ok [simp]: "bfd_ctx_ok (bm, bfd_learn_remote now f bs) = bfd_ctx_ok (bm, bs)"
  by (simp add: bfd_learn_remote_def Let_def bfd_ctx_ok_def bfd_base_ok_def bfd_rates_ok_def)

lemma learn_remote_core:
  "bfd_core (bfd_learn_remote now f bs) = (local_state bs, local_diag bs, bfd_state_of (bfd_pkt_get_state (frame_pkt f)),
    local_discr bs, my_disc (frame_pkt f), bs_idx bs, session_refs bs)"
  by (simp add: bfd_learn_remote_def Let_def bfd_core_def session_refs_def)

lemma core_simps [simp]:
  "bfd_core (bs\<lparr>remote_desired_min_tx_clocks := a\<rparr>) = bfd_core bs" "bfd_core (bs\<lparr>remote_detect_mult := m\<rparr>) = bfd_core bs"
  "bfd_core (bs\<lparr>remote_min_rx_usec := a\<rparr>) = bfd_core bs" "bfd_core (bs\<lparr>remote_min_rx_clocks := a\<rparr>) = bfd_core bs"
  "bfd_core (bs\<lparr>remote_min_echo_rx_usec := a\<rparr>) = bfd_core bs" "bfd_core (bs\<lparr>remote_min_echo_rx_clocks := a\<rparr>) = bfd_core bs"
  by (simp_all add: bfd_core_def session_refs_def)

lemma update_session_keeps:
  assumes "bfd_ctx_ok (bm, bs)"
  shows "\<exists>bm' bs'. bfd_update_session now f (bm, bs) = Some (bm', bs') \<and> bfd_ctx_ok (bm', bs') \<and> bfd_config bm' = bfd_config bm
    \<and> bfd_core bs' = (local_state bs, local_diag bs, bfd_state_of (bfd_pkt_get_state (frame_pkt f)),
        local_discr bs, my_disc (frame_pkt f), bs_idx bs, session_refs bs)"
proof -
  let ?p = "frame_pkt f" and ?bs = "bfd_learn_remote now f bs"
  have "bfd_main_ok bm" using assms by (simp add: bfd_ctx_ok_def bfd_base_ok_def)
  then obtain x where x: "bfd_usec_to_clocks bm (ucast (clib_byte_swap_u32 (des_min_tx ?p))) = Some x"
    using usec_pair_ucast by blast
  let ?bs1 = "?bs\<lparr>remote_desired_min_tx_clocks := x, remote_detect_mult := detect_mult ?p\<rparr>"
  have "bfd_ctx_ok (bm, ?bs1)" using assms learn_remote_ok [of bm now f bs]
    by (simp add: bfd_ctx_ok_def bfd_base_ok_def bfd_rates_ok_def)
  from set_remote_rx_keeps [OF this, of "clib_byte_swap_u32 (req_min_rx ?p)"] obtain bm2 bs2 x2 where
    s2: "bfd_set_remote_required_min_rx (clib_byte_swap_u32 (req_min_rx ?p)) (bm, ?bs1) = Some (bm2, bs2)" "bfd_ctx_ok (bm2, bs2)"
      "bfd_moves (bm, ?bs1\<lparr>remote_min_rx_usec := ucast (clib_byte_swap_u32 (req_min_rx ?p)), remote_min_rx_clocks := x2\<rparr>) (bm2, bs2)"
    by auto
  from set_remote_echo_rx_keeps [OF s2(2), of "clib_byte_swap_u32 (req_min_echo_rx ?p)"] obtain bm3 bs3 x3 where
    s3: "bfd_set_remote_required_min_echo_rx (clib_byte_swap_u32 (req_min_echo_rx ?p)) (bm2, bs2) = Some (bm3, bs3)" "bfd_ctx_ok (bm3, bs3)"
      "bfd_moves (bm2, bs2\<lparr>remote_min_echo_rx_usec := ucast (clib_byte_swap_u32 (req_min_echo_rx ?p)), remote_min_echo_rx_clocks := x3\<rparr>) (bm3, bs3)"
    by auto
  define c4 where "c4 = (if bfd_pkt_get_final ?p \<noteq> 0 then bfd_poll_final now (bm3, bs3) else (bm3, bs3))"
  have s4: "bfd_ctx_ok c4" "fst c4 = bm3" "bfd_core (snd c4) = bfd_core bs3"
    using poll_final_keeps [OF s3(2)] s3(2) by (simp_all add: c4_def)
  obtain c5 where s5: "bfd_calc_next_tx now c4 = Some c5" "bfd_ctx_ok c5" "bfd_moves c4 c5"
    using calc_next_tx_keeps [OF s4(1)] by metis
  define c6 where "c6 = bfd_set_timer now False c5"
  have s6: "bfd_ctx_ok c6" "bfd_moves c4 c6"
    using s5 bfd_moves_trans [OF s5(3) set_timer_moves] by (simp_all add: c6_def)
  have "bfd_update_session now f (bm, bs) = Some c6"
    using x s2(1) s3(1) s5(1) by (simp add: bfd_update_session_def Let_def c4_def c6_def)
  moreover have "bfd_core (snd c6) = bfd_core ?bs"
    using moves_core [OF s6(2)] moves_core [OF s3(3)] moves_core [OF s2(3)] s4(3) by simp
  moreover have "bfd_config (fst c6) = bfd_config bm" using s6(2) s4(2) s3(3) s2(3) by (simp add: bfd_moves_def)
  ultimately show ?thesis using s6(1) by (cases c6) (auto simp: learn_remote_core)
qed

end
