(* ===== verification/Bfd_Progress.thy ===== *)
theory Bfd_Progress
  imports Bfd_Invariant
begin

text \<open>
  The behaviour of a BFD session on packets, timeouts and configuration: the state machine is that of
  RFC 5880, a silent peer is detected, and every entry point is defined on a table of well-formed
  sessions and keeps it so, whatever packets arrive and whatever the calls into the rest of VPP return.
\<close>

section \<open>The state machine of RFC 5880\<close>

fun rfc5880_state :: "bfd_state \<Rightarrow> bfd_state \<Rightarrow> bfd_state" where
  "rfc5880_state BFD_STATE_admin_down _ = BFD_STATE_admin_down"
| "rfc5880_state _ BFD_STATE_admin_down = BFD_STATE_down"
| "rfc5880_state BFD_STATE_down BFD_STATE_down = BFD_STATE_init"
| "rfc5880_state BFD_STATE_down BFD_STATE_init = BFD_STATE_up"
| "rfc5880_state BFD_STATE_down BFD_STATE_up = BFD_STATE_down"
| "rfc5880_state BFD_STATE_init BFD_STATE_down = BFD_STATE_init"
| "rfc5880_state BFD_STATE_init _ = BFD_STATE_up"
| "rfc5880_state BFD_STATE_up BFD_STATE_down = BFD_STATE_down"
| "rfc5880_state BFD_STATE_up _ = BFD_STATE_up"

text \<open>The diagnostic code that goes with the transition. On a peer in AdminDown the code sets it in every
  state of the session; RFC 5880 does not in state Down.\<close>

definition fsm_diag :: "bfd_state \<Rightarrow> bfd_state \<Rightarrow> u8 \<Rightarrow> u8" where
  "fsm_diag l r d =
    (if l = BFD_STATE_admin_down then d
     else if r = BFD_STATE_admin_down \<or> l = BFD_STATE_up \<and> r = BFD_STATE_down then BFD_DIAG_CODE_neighbor_sig_down
     else if rfc5880_state l r \<noteq> l then BFD_DIAG_CODE_no_diag else d)"

lemma fsm_step_keeps:
  assumes "bfd_ctx_ok (bm, bs)"
  shows "\<exists>bm' bs'. bfd_fsm_step now (bm, bs) = Some (bm', bs') \<and> bfd_ctx_ok (bm', bs') \<and> bfd_config bm' = bfd_config bm
    \<and> bfd_core bs' = (rfc5880_state (local_state bs) (remote_state bs),
        fsm_diag (local_state bs) (remote_state bs) (local_diag bs), remote_state bs, local_discr bs, remote_discr bs, bs_idx bs, session_refs bs)"
proof -
  have set: "\<exists>bm' bs'. bfd_set_state now st False (bm, bs\<lparr>local_diag := d\<rparr>) = Some (bm', bs') \<and> bfd_ctx_ok (bm', bs')
      \<and> bfd_config bm' = bfd_config bm
      \<and> bfd_core bs' = (st, d, remote_state bs, local_discr bs, remote_discr bs, bs_idx bs, session_refs bs)" for st d
  proof -
    have "bfd_ctx_ok (bm, bs\<lparr>local_diag := d\<rparr>)" using assms by simp
    then obtain c' where c: "bfd_set_state now st False (bm, bs\<lparr>local_diag := d\<rparr>) = Some c'" "bfd_ctx_ok c'"
      "bfd_moves (bm, bs\<lparr>local_diag := d, local_state := st\<rparr>) c'" using set_state_keeps by blast
    then show ?thesis using moves_core [OF c(3)] by (cases c') (auto simp: bfd_moves_def bfd_core_def session_refs_def)
  qed
  have stay: "\<exists>bm' bs'. Some (bm, bs) = Some (bm', bs') \<and> bfd_ctx_ok (bm', bs') \<and> bfd_config bm' = bfd_config bm
      \<and> bfd_core bs' = (local_state bs, local_diag bs, remote_state bs, local_discr bs, remote_discr bs, bs_idx bs, session_refs bs)"
    using assms by (auto simp: bfd_core_def session_refs_def)
  show ?thesis
    by (cases "local_state bs"; cases "remote_state bs")
       (use set stay in \<open>simp_all add: bfd_fsm_step_def fsm_diag_def\<close>)
qed

text \<open>A packet that is accepted for a session drives it as the state machine says.\<close>

lemma consume_session:
  assumes "bfd_ctx_ok (bm, bs)" and "bfd_find_session_by_idx bm idx = Some bs"
    and "your_disc (frame_pkt f) = 0 \<or> your_disc (frame_pkt f) = local_discr bs"
  shows "\<exists>bm' bs'. bfd_consume_pkt now now' f idx bm = Some (bfd_store_session idx (bm', bs'))
    \<and> bfd_ctx_ok (bm', bs') \<and> bfd_config bm' = bfd_config bm
    \<and> bfd_core bs' = (rfc5880_state (local_state bs) (bfd_state_of (bfd_pkt_get_state (frame_pkt f))),
        fsm_diag (local_state bs) (bfd_state_of (bfd_pkt_get_state (frame_pkt f))) (local_diag bs),
        bfd_state_of (bfd_pkt_get_state (frame_pkt f)), local_discr bs, my_disc (frame_pkt f), bs_idx bs, session_refs bs)"
proof -
  from update_session_keeps [OF assms(1), of now f] obtain bm1 bs1 where
    u: "bfd_update_session now f (bm, bs) = Some (bm1, bs1)" "bfd_ctx_ok (bm1, bs1)" "bfd_config bm1 = bfd_config bm"
      "bfd_core bs1 = (local_state bs, local_diag bs, bfd_state_of (bfd_pkt_get_state (frame_pkt f)),
        local_discr bs, my_disc (frame_pkt f), bs_idx bs, session_refs bs)" by blast
  from fsm_step_keeps [OF u(2), of now'] obtain bm2 bs2 where
    s: "bfd_fsm_step now' (bm1, bs1) = Some (bm2, bs2)" "bfd_ctx_ok (bm2, bs2)" "bfd_config bm2 = bfd_config bm1"
      "bfd_core bs2 = (rfc5880_state (local_state bs1) (remote_state bs1),
        fsm_diag (local_state bs1) (remote_state bs1) (local_diag bs1), remote_state bs1, local_discr bs1, remote_discr bs1, bs_idx bs1, session_refs bs1)"
    by blast
  have "bfd_consume_pkt now now' f idx bm = Some (bfd_store_session idx (bm2, bs2))"
    using assms(2,3) u(1) s(1) by (auto simp: bfd_consume_pkt_def)
  moreover have "bfd_core bs2 = (rfc5880_state (local_state bs) (bfd_state_of (bfd_pkt_get_state (frame_pkt f))),
        fsm_diag (local_state bs) (bfd_state_of (bfd_pkt_get_state (frame_pkt f))) (local_diag bs),
        bfd_state_of (bfd_pkt_get_state (frame_pkt f)), local_discr bs, my_disc (frame_pkt f), bs_idx bs, session_refs bs)"
    using s(4) u(4) by (simp add: bfd_core_def session_refs_def)
  ultimately show ?thesis using s(2,3) u(3) by metis
qed

section \<open>Sending\<close>

lemma control_frame_ok:
  assumes "bfd_ctx_ok (bm, bs)"
  shows "\<exists>pkt. bfd_init_control_frame (bm, bs) = Some pkt"
proof -
  obtain us where "usec_pair bm us (effective_required_min_rx_clocks bs)"
    using assms by (auto simp: bfd_ctx_ok_def bfd_rates_ok_def)
  then have "\<exists>u. bfd_clocks_to_usec bm (effective_required_min_rx_clocks bs) = Some u"
    using assms clocks_to_usec_ok by (auto simp: usec_pair_def bfd_ctx_ok_def bfd_base_ok_def)
  then show ?thesis by (auto simp: bfd_init_control_frame_def Let_def)
qed

lemma ctx_ok_seq [simp]:
  "bfd_ctx_ok (bm, bs\<lparr>bs_auth := (bs_auth bs)\<lparr>local_seq_number := n\<rparr>\<rparr>) = bfd_ctx_ok (bm, bs)"
  "bfd_ctx_ok (bm, bs\<lparr>poll_state_start_or_timeout_clocks := t\<rparr>) = bfd_ctx_ok (bm, bs)"
  "clk_ok t \<Longrightarrow> bfd_ctx_ok (bm, bs\<lparr>last_tx_clocks := t\<rparr>) \<longleftrightarrow> bfd_ctx_ok (bm, bs\<lparr>last_tx_clocks := 0\<rparr>)"
  by (simp_all add: bfd_ctx_ok_def bfd_base_ok_def bfd_rates_ok_def clk_ok_def)

lemma add_auth_keeps:
  assumes "bfd_ctx_ok (bm, bs)"
  shows "\<exists>f len bs'. bfd_add_auth_section env pkt (bm, bs) = Some (f, len, bs')
    \<and> bs' = bs\<lparr>bs_auth := (bs_auth bs)\<lparr>local_seq_number := local_seq_number (bs_auth bs')\<rparr>\<rparr>"
proof (cases "curr_key (bs_auth bs)")
  case (Some i)
  then obtain key where "pool_elt_at_index (auth_keys bm) i = Some key"
    using assms by (auto simp: bfd_ctx_ok_def bfd_base_ok_def key_live_def)
  then show ?thesis using Some by (simp add: bfd_add_auth_section_def bfd_add_sha1_auth_section_def Let_def)
qed (simp add: bfd_add_auth_section_def)

lemma periodic_poll_keeps:
  assumes "bfd_ctx_ok (bm, bs)"
  shows "\<exists>pkt' bs'. bfd_periodic_poll now pkt (bm, bs) = (pkt', bm, bs') \<and> bfd_ctx_ok (bm, bs') \<and> bfd_core bs' = bfd_core bs"
  using assms by (auto simp: bfd_periodic_poll_def bfd_core_def session_refs_def split: bfd_poll_state.splits)

lemma core_sent [simp]:
  "bfd_core (bs\<lparr>last_tx_clocks := t\<rparr>) = bfd_core bs" "bfd_core (bs\<lparr>bs_auth := (bs_auth bs)\<lparr>local_seq_number := n\<rparr>\<rparr>) = bfd_core bs"
  "bfd_core (bs\<lparr>bs_echo := e\<rparr>) = bfd_core bs" "bfd_core (bs\<lparr>echo_last_tx_clocks := t\<rparr>) = bfd_core bs"
  "bfd_core (bs\<lparr>echo_tx_timeout_clocks := t\<rparr>) = bfd_core bs" "bfd_core (bs\<lparr>tx_timeout_clocks := t\<rparr>) = bfd_core bs"
  "bfd_core (bs\<lparr>poll_state := ps\<rparr>) = bfd_core bs" "bfd_core (bs\<lparr>echo_last_rx_clocks := t\<rparr>) = bfd_core bs"
  by (simp_all add: bfd_core_def session_refs_def)

lemma ctx_ok_last_tx: "bfd_ctx_ok (bm, bs) \<Longrightarrow> clk_ok t \<Longrightarrow> bfd_ctx_ok (bm, bs\<lparr>last_tx_clocks := t\<rparr>)"
  by (simp add: bfd_ctx_ok_def bfd_base_ok_def)

text \<open>A session keeps its states while it sends; \<open>keeps\<close> says so of a result.\<close>

definition bfd_sends :: "bfd_ctx \<Rightarrow> bfd_ctx \<Rightarrow> bool" where
  "bfd_sends c c' \<longleftrightarrow> bfd_ctx_ok c' \<and> bfd_config (fst c') = bfd_config (fst c) \<and> bfd_core (snd c') = bfd_core (snd c)"

lemma send_periodic_keeps:
  assumes "bfd_ctx_ok c" and "clk_ok now"
  shows "\<exists>c'. bfd_send_periodic env now c = Some c' \<and> bfd_sends c c'"
proof -
  obtain bm bs where c: "c = (bm, bs)" by fastforce
  obtain pkt where p: "bfd_init_control_frame (bm, bs) = Some pkt" using assms control_frame_ok c by blast
  obtain pkt1 bs1 where p1: "bfd_periodic_poll now pkt (bm, bs) = (pkt1, bm, bs1)" "bfd_ctx_ok (bm, bs1)" "bfd_core bs1 = bfd_core bs"
    using assms periodic_poll_keeps c by blast
  obtain f len bs2 where p2: "bfd_add_auth_section env pkt1 (bm, bs1) = Some (f, len, bs2)"
    "bs2 = bs1\<lparr>bs_auth := (bs_auth bs1)\<lparr>local_seq_number := local_seq_number (bs_auth bs2)\<rparr>\<rparr>"
    using add_auth_keeps [OF p1(2)] by blast
  have ok2: "bfd_ctx_ok (bm, bs2)" and core2: "bfd_core bs2 = bfd_core bs"
    using p1 ctx_ok_seq(1) by (subst p2(2), simp)+
  obtain bm3 where t: "bfd_transport_control_frame env f len (bm, bs2) = (bm3, bs2)" "bfd_config bm3 = bfd_config bm"
    "bfd_ctx_ok (bm3, bs2)"
    using ok2 by (auto simp: bfd_transport_control_frame_def Let_def)
  obtain c4 where n: "bfd_calc_next_tx now (bm3, bs2\<lparr>last_tx_clocks := now\<rparr>) = Some c4" "bfd_ctx_ok c4"
    "bfd_moves (bm3, bs2\<lparr>last_tx_clocks := now\<rparr>) c4"
    using calc_next_tx_keeps [OF ctx_ok_last_tx [OF t(3) assms(2)]] by metis
  have "bfd_sends c c4" using n t(2) core2 moves_core [OF n(3)] by (simp add: bfd_sends_def bfd_moves_def c)
  moreover have "bfd_sends c c" using assms(1) by (simp add: bfd_sends_def)
  moreover have "bfd_send_periodic env now c = Some c \<or> bfd_send_periodic env now c = Some c4"
    by (simp add: bfd_send_periodic_def c p p1(1) p2(1) t(1) n(1) Let_def)
  ultimately show ?thesis by blast
qed

lemma echo_interval_ok [simp]:
  "bfd_ctx_ok (bm, bs\<lparr>echo_last_tx_clocks := t\<rparr>) = bfd_ctx_ok (bm, bs)"
  "bfd_ctx_ok (bm, bs\<lparr>echo_tx_timeout_clocks := t\<rparr>) = bfd_ctx_ok (bm, bs)"
  "bfd_ctx_ok (bm, bs\<lparr>echo_last_rx_clocks := t\<rparr>) = bfd_ctx_ok (bm, bs)"
  by (simp_all add: bfd_ctx_ok_def bfd_base_ok_def bfd_rates_ok_def)

lemma send_echo_keeps:
  assumes "bfd_ctx_ok c"
  shows "bfd_sends c (bfd_send_echo env now c)"
proof -
  obtain bm bs where c: "c = (bm, bs)" by fastforce
  have "bfd_ctx_ok (bm, bs\<lparr>bs_echo := 0\<rparr>)" using assms by (simp add: c bfd_ctx_ok_def bfd_rates_ok_def)
  then show ?thesis using assms by (auto simp: c bfd_send_echo_def bfd_sends_def Let_def bfd_calc_next_echo_tx_def)
qed

lemma switch_on_echo_keeps:
  assumes "bfd_ctx_ok c"
  shows "bfd_sends c (bfd_switch_on_echo env now c)"
proof -
  obtain bm bs where c: "c = (bm, bs)" by fastforce
  let ?x = "max (min_required_min_rx_while_echo_clocks bm) (config_required_min_rx_clocks bs)"
  let ?bs = "bs\<lparr>bs_echo := 1, echo_last_rx_clocks := now, echo_tx_timeout_clocks := now\<rparr>"
  have m: "bfd_main_ok bm" "usec_pair bm (ucast (config_required_min_rx_usec bs)) (config_required_min_rx_clocks bs)"
    using assms by (simp_all add: c bfd_ctx_ok_def bfd_base_ok_def)
  obtain us where us: "usec_pair bm us ?x" using usec_pair_max usec_pair_default m by blast
  show ?thesis
  proof (cases "BFD_POLL_NOT_NEEDED = poll_state bs \<and> bs_echo bs = 0 \<and> bfd_is_echo_possible env bs")
    case True
    have "bfd_ctx_ok (bm, bs\<lparr>bs_echo := 1\<rparr>)" using assms True
      by (simp add: c bfd_is_echo_possible_def bfd_ctx_ok_def bfd_rates_ok_def)
    then have ok: "bfd_ctx_ok (bm, ?bs)" by simp
    obtain d where d: "bfd_set_effective_required_min_rx ?x (bm, ?bs)
        = (bm, ?bs\<lparr>effective_required_min_rx_clocks := ?x, detection_time_clocks := d\<rparr>)" by (rule set_required_shape)
    have "bfd_ctx_ok (bm, ?bs\<lparr>effective_required_min_rx_clocks := ?x, detection_time_clocks := d\<rparr>)"
      using set_required_keeps [OF ok, of us ?x] us d by simp
    then show ?thesis using True by (simp add: c bfd_switch_on_echo_def bfd_sends_def d bfd_core_def session_refs_def)
  qed (use assms in \<open>auto simp: c bfd_switch_on_echo_def bfd_sends_def\<close>)
qed

section \<open>Detection of a silent peer\<close>

lemma sends_trans: "bfd_sends c c' \<Longrightarrow> bfd_sends c' c'' \<Longrightarrow> bfd_sends c c''"
  by (simp add: bfd_sends_def)

definition rx_expired :: "bfd_ctx \<Rightarrow> u64 \<Rightarrow> bool" where
  "rx_expired ctx now \<longleftrightarrow>
    last_rx_clocks (snd ctx) + detection_time_clocks (snd ctx) \<le> now + wheel_inaccuracy (fst ctx)"

definition echo_expired :: "bfd_ctx \<Rightarrow> u64 \<Rightarrow> bool" where
  "echo_expired ctx now \<longleftrightarrow> bs_echo (snd ctx) \<noteq> 0
    \<and> echo_last_rx_clocks (snd ctx) + echo_transmit_interval_clocks (snd ctx) * ucast (local_detect_mult (snd ctx))
      \<le> now + wheel_inaccuracy (fst ctx)"

text \<open>The state and the diagnostic code after the check.\<close>

definition timeout_state :: "bfd_ctx \<Rightarrow> u64 \<Rightarrow> bfd_state \<times> u8" where
  "timeout_state ctx now =
    (if rx_expired ctx now then (BFD_STATE_down, BFD_DIAG_CODE_det_time_exp)
     else if echo_expired ctx now then (BFD_STATE_down, BFD_DIAG_CODE_echo_failed)
     else (local_state (snd ctx), local_diag (snd ctx)))"

lemma check_rx_timeout_keeps:
  assumes "bfd_ctx_ok (bm, bs)"
  shows "\<exists>c'. bfd_check_rx_timeout now now' h (bm, bs) = Some c' \<and> bfd_ctx_ok c' \<and> bfd_config (fst c') = bfd_config bm
    \<and> bfd_core (snd c') = (fst (timeout_state (bm, bs) now), snd (timeout_state (bm, bs) now), remote_state bs,
        local_discr bs, remote_discr bs, bs_idx bs, session_refs bs)
    \<and> (rx_expired (bm, bs) now \<longrightarrow> remote_min_rx_usec (snd c') = 1)"
proof -
  have set: "\<exists>c'. bfd_set_state now' st h (bm, bs\<lparr>local_diag := d\<rparr>) = Some c' \<and> bfd_ctx_ok c'
      \<and> bfd_moves (bm, bs\<lparr>local_diag := d, local_state := st\<rparr>) c'" for st d
    using set_state_keeps [of bm "bs\<lparr>local_diag := d\<rparr>"] assms by simp
  show ?thesis
  proof (cases "rx_expired (bm, bs) now")
    case True
    obtain bm1 bs1 where s: "bfd_set_state now' BFD_STATE_down h (bm, bs\<lparr>local_diag := 1\<rparr>) = Some (bm1, bs1)"
      "bfd_ctx_ok (bm1, bs1)" "bfd_moves (bm, bs\<lparr>local_diag := 1, local_state := BFD_STATE_down\<rparr>) (bm1, bs1)"
      using set [of BFD_STATE_down 1] by auto
    obtain c2 x where r: "bfd_set_remote_required_min_rx 1 (bm1, bs1) = Some c2" "bfd_ctx_ok c2"
      "bfd_moves (bm1, bs1\<lparr>remote_min_rx_usec := ucast (1 :: u32), remote_min_rx_clocks := x\<rparr>) c2"
      using set_remote_rx_keeps [OF s(2), of 1] by blast
    have "bfd_check_rx_timeout now now' h (bm, bs) = Some c2"
      using True s(1) r(1) by (simp add: bfd_check_rx_timeout_def rx_expired_def)
    moreover have "bfd_core (snd c2) = (BFD_STATE_down, 1, remote_state bs, local_discr bs, remote_discr bs, bs_idx bs, session_refs bs)"
      using moves_core [OF r(3)] moves_core [OF s(3)] by (simp add: bfd_core_def session_refs_def)
    moreover have "bfd_static (snd c2) = bfd_static (bs1\<lparr>remote_min_rx_usec := ucast (1 :: u32), remote_min_rx_clocks := x\<rparr>)"
      using r(3) by (simp add: bfd_moves_def)
    note bfd_static_fields(11) [OF this]
    moreover have "bfd_config (fst c2) = bfd_config bm" using r(3) s(3) by (simp add: bfd_moves_def)
    ultimately show ?thesis using r(2) True by (simp add: timeout_state_def)
  next
    case rx: False
    show ?thesis
    proof (cases "echo_expired (bm, bs) now")
      case True
      obtain c1 where s: "bfd_set_state now' BFD_STATE_down h (bm, bs\<lparr>local_diag := 2\<rparr>) = Some c1"
        "bfd_ctx_ok c1" "bfd_moves (bm, bs\<lparr>local_diag := 2, local_state := BFD_STATE_down\<rparr>) c1"
        using set [of BFD_STATE_down 2] by auto
      have "bfd_check_rx_timeout now now' h (bm, bs) = Some c1"
        using True rx s(1) by (simp add: bfd_check_rx_timeout_def rx_expired_def echo_expired_def)
      then show ?thesis using True rx s moves_core [OF s(3)]
        by (simp add: timeout_state_def bfd_core_def session_refs_def bfd_moves_def)
    next
      case False
      then have "bfd_check_rx_timeout now now' h (bm, bs) = Some (bm, bs)"
        using rx by (auto simp: bfd_check_rx_timeout_def rx_expired_def echo_expired_def)
      then show ?thesis using False rx assms by (simp add: timeout_state_def bfd_core_def session_refs_def)
    qed
  qed
qed

lemma on_timeout_keeps:
  assumes "bfd_ctx_ok (bm, bs)" and "clk_ok now"
  shows "\<exists>c'. bfd_on_timeout env now now' (bm, bs) = Some c' \<and> bfd_ctx_ok c' \<and> bfd_config (fst c') = bfd_config bm
    \<and> bfd_core (snd c') =
      (if local_state bs = BFD_STATE_init \<or> local_state bs = BFD_STATE_up
       then (fst (timeout_state (bm, bs) now), snd (timeout_state (bm, bs) now), remote_state bs,
             local_discr bs, remote_discr bs, bs_idx bs, session_refs bs)
       else bfd_core bs)"
proof -
  from check_rx_timeout_keeps [OF assms(1), of now now' True] obtain c1 where
    k: "bfd_check_rx_timeout now now' True (bm, bs) = Some c1" "bfd_ctx_ok c1" "bfd_config (fst c1) = bfd_config bm"
      "bfd_core (snd c1) = (fst (timeout_state (bm, bs) now), snd (timeout_state (bm, bs) now), remote_state bs,
        local_discr bs, remote_discr bs, bs_idx bs, session_refs bs)" by blast
  have plain: "\<exists>c'. bfd_send_periodic env now c = Some c' \<and> bfd_sends c c'" if "bfd_ctx_ok c" for c
    using send_periodic_keeps [OF that assms(2)] .
  show ?thesis
  proof (cases "local_state bs")
    case BFD_STATE_up
    have e: "bfd_sends c1 (bfd_switch_on_echo env now c1)" by (rule switch_on_echo_keeps [OF k(2)])
    then have "bfd_ctx_ok (bfd_switch_on_echo env now c1)" by (simp add: bfd_sends_def)
    from plain [OF this] obtain c2 where s: "bfd_send_periodic env now (bfd_switch_on_echo env now c1) = Some c2"
      "bfd_sends (bfd_switch_on_echo env now c1) c2" by blast
    define c3 where "c3 = (if bs_echo (snd c2) \<noteq> 0 then bfd_send_echo env now c2 else c2)"
    have "bfd_sends c2 c3" using s(2) send_echo_keeps [of c2] by (auto simp: c3_def bfd_sends_def)
    then have "bfd_sends c1 c3" using e s(2) sends_trans by blast
    moreover have "bfd_on_timeout env now now' (bm, bs) = Some c3"
      using BFD_STATE_up k(1) s(1) by (simp add: bfd_on_timeout_def c3_def)
    ultimately show ?thesis using BFD_STATE_up k(3,4) by (auto simp: bfd_sends_def)
  next
    case BFD_STATE_init
    then show ?thesis using plain [OF k(2)] k(1,3,4) by (auto simp: bfd_on_timeout_def bfd_sends_def)
  qed (use plain [OF assms(1)] in \<open>auto simp: bfd_on_timeout_def bfd_sends_def\<close>)
qed

section \<open>Configuration\<close>

lemma set_flags_keeps:
  assumes "bfd_ctx_ok (bm, bs)"
  shows "\<exists>c'. bfd_session_set_flags now now' up (bm, bs) = Some c' \<and> bfd_ctx_ok c' \<and> bfd_config (fst c') = bfd_config bm
    \<and> bfd_core (snd c') = (if up \<noteq> 0 then BFD_STATE_down else BFD_STATE_admin_down,
        if up \<noteq> 0 then BFD_DIAG_CODE_no_diag else BFD_DIAG_CODE_admin_down,
        remote_state bs, local_discr bs, remote_discr bs, bs_idx bs, session_refs bs)"
proof -
  have tail: "\<exists>c2. bfd_calc_next_tx now c = Some c2 \<and> bfd_ctx_ok (bfd_set_timer now False c2)
      \<and> bfd_moves c (bfd_set_timer now False c2)" if "bfd_ctx_ok c" for c
    using calc_next_tx_keeps [OF that, of now] bfd_moves_trans [OF _ set_timer_moves] by (metis set_timer_ok)
  show ?thesis
  proof (cases "up = 0")
    case True
    obtain c1 where s: "bfd_set_state now' BFD_STATE_admin_down False (bm, bs\<lparr>local_diag := 7\<rparr>) = Some c1" "bfd_ctx_ok c1"
      "bfd_moves (bm, bs\<lparr>local_diag := 7, local_state := BFD_STATE_admin_down\<rparr>) c1"
      using set_state_keeps [of bm "bs\<lparr>local_diag := 7\<rparr>" now' BFD_STATE_admin_down False] assms by auto
    obtain c2 where c2: "bfd_calc_next_tx now c1 = Some c2" "bfd_ctx_ok (bfd_set_timer now False c2)"
      "bfd_moves c1 (bfd_set_timer now False c2)" using tail [OF s(2)] by blast
    have m: "bfd_moves (bm, bs\<lparr>local_diag := 7, local_state := BFD_STATE_admin_down\<rparr>) (bfd_set_timer now False c2)"
      using s(3) c2(3) bfd_moves_trans by blast
    show ?thesis using True s(1) c2(1,2) m moves_core [OF m]
      by (simp add: bfd_session_set_flags_def bfd_core_def session_refs_def bfd_moves_def)
  next
    case False
    obtain bm1 bs1 where s: "bfd_set_state now' BFD_STATE_down False (bm, bs) = Some (bm1, bs1)" "bfd_ctx_ok (bm1, bs1)"
      "bfd_moves (bm, bs\<lparr>local_state := BFD_STATE_down\<rparr>) (bm1, bs1)"
      using set_state_keeps [OF assms, of now' BFD_STATE_down False] by auto
    have "bfd_ctx_ok (bm1, bs1\<lparr>local_diag := 0\<rparr>)" using s(2) by simp
    then obtain c2 where c2: "bfd_calc_next_tx now (bm1, bs1\<lparr>local_diag := 0\<rparr>) = Some c2" "bfd_ctx_ok (bfd_set_timer now False c2)"
      "bfd_moves (bm1, bs1\<lparr>local_diag := 0\<rparr>) (bfd_set_timer now False c2)" using tail by blast
    show ?thesis using False s(1,3) c2 moves_core [OF c2(3)] moves_core [OF s(3)]
      by (simp add: bfd_session_set_flags_def bfd_core_def session_refs_def bfd_moves_def)
  qed
qed

lemma recalc_detection_keeps [simp]:
  "bfd_ctx_ok (bfd_recalc_detection_time c) = bfd_ctx_ok c" "bfd_moves c (bfd_recalc_detection_time c)"
  by (cases c; simp add: bfd_recalc_detection_time_def bfd_moves_def)+

lemma on_config_change_keeps:
  assumes "bfd_ctx_ok c"
  shows "bfd_sends c (bfd_on_config_change now c)"
proof -
  obtain bm bs where c: "c = (bm, bs)" by fastforce
  define bs1 where "bs1 = (if remote_demand bs \<noteq> 0 \<and> BFD_POLL_NEEDED = poll_state bs \<and> poll_state_start_or_timeout_clocks bs < now
    then bs\<lparr>tx_timeout_clocks := now\<rparr> else bs)"
  have e: "bfd_on_config_change now c = bfd_set_timer now False (bfd_recalc_detection_time (bm, bs1))"
    by (simp add: bfd_on_config_change_def c bs1_def Let_def)
  have m: "bfd_moves c (bfd_on_config_change now c)" unfolding e
    by (rule bfd_moves_trans [OF _ set_timer_moves], rule bfd_moves_trans [OF _ recalc_detection_keeps(2)])
       (simp add: bfd_moves_def c bs1_def)
  have "bfd_ctx_ok (bfd_on_config_change now c)" unfolding e using assms by (simp add: c bs1_def)
  then show ?thesis using moves_core [OF m] m by (simp add: bfd_sends_def bfd_moves_def)
qed

lemma set_params_keeps:
  assumes "bfd_ctx_ok c"
  shows "\<exists>c'. bfd_session_set_params tx rx mult c = Some c' \<and> bfd_sends c c'
    \<and> config_desired_min_tx_usec (snd c') = tx \<and> config_required_min_rx_usec (snd c') = rx \<and> local_detect_mult (snd c') = mult"
proof -
  obtain bm bs where c: "c = (bm, bs)" by fastforce
  have m: "bfd_main_ok bm" using assms by (simp add: c bfd_ctx_ok_def bfd_base_ok_def)
  obtain t where t: "bfd_usec_to_clocks bm (ucast tx) = Some t" "usec_pair bm (ucast tx) t" using usec_pair_ucast [OF m] by blast
  obtain r where r: "bfd_usec_to_clocks bm (ucast rx) = Some r" "usec_pair bm (ucast rx) r" using usec_pair_ucast [OF m] by blast
  have ok: "bfd_sends c (bfd_call ev bm, bs\<lparr>poll_state := ps, local_detect_mult := mult, config_desired_min_tx_usec := tx,
      config_desired_min_tx_clocks := t, config_required_min_rx_usec := rx, config_required_min_rx_clocks := r\<rparr>)" for ev ps
    using assms t(2) r(2)
    by (auto simp: c bfd_sends_def bfd_core_def session_refs_def bfd_ctx_ok_def bfd_base_ok_def bfd_rates_ok_def usec_pair_def key_live_def)
  define changed where "changed = (config_desired_min_tx_usec bs \<noteq> tx \<or> config_required_min_rx_usec bs \<noteq> rx)"
  define ps where "ps = (case poll_state bs of
      BFD_POLL_NOT_NEEDED \<Rightarrow> if (BFD_STATE_up = local_state bs \<or> BFD_STATE_init = local_state bs) \<and> changed then BFD_POLL_NEEDED
        else poll_state bs
    | BFD_POLL_IN_PROGRESS \<Rightarrow> if changed then BFD_POLL_IN_PROGRESS_AND_QUEUED else poll_state bs | p \<Rightarrow> p)"
  show ?thesis
  proof (cases "local_detect_mult bs \<noteq> mult \<or> changed")
    case True
    have "bfd_session_set_params tx rx mult (bm, bs) = Some (bfd_call (Process_Signal_Event BFD_EVENT_CONFIG_CHANGED (bs_idx bs)) bm,
        bs\<lparr>poll_state := ps, local_detect_mult := mult, config_desired_min_tx_usec := tx,
          config_desired_min_tx_clocks := t, config_required_min_rx_usec := rx, config_required_min_rx_clocks := r\<rparr>)"
      unfolding bfd_session_set_params_def Let_def prod.case changed_def [symmetric] if_P [OF True]
      by (cases "poll_state bs") (simp_all add: ps_def t(1) r(1))
    then show ?thesis using ok unfolding c by simp
  next
    case False
    then have "bfd_session_set_params tx rx mult c = Some c"
      by (simp add: bfd_session_set_params_def Let_def changed_def c)
    then show ?thesis using assms False by (simp add: changed_def bfd_sends_def c)
  qed
qed

lemma final_frame_keeps:
  assumes "bfd_ctx_ok c" and "clk_ok now"
  shows "\<exists>f len c'. bfd_init_final_control_frame env now c = Some (f, len, c') \<and> bfd_sends c c'
    \<and> poll_state (snd c') = BFD_POLL_NOT_NEEDED"
proof -
  obtain bm bs where c: "c = (bm, bs)" by fastforce
  obtain pkt where p: "bfd_init_control_frame (bm, bs) = Some pkt" using assms control_frame_ok c by blast
  obtain f len bs2 where p2: "bfd_add_auth_section env (bfd_pkt_set_final pkt) (bm, bs) = Some (f, len, bs2)"
    "bs2 = bs\<lparr>bs_auth := (bs_auth bs)\<lparr>local_seq_number := local_seq_number (bs_auth bs2)\<rparr>\<rparr>"
    using add_auth_keeps [OF assms(1) [unfolded c]] by blast
  have "bfd_ctx_ok (bm, bs2)" "bfd_core bs2 = bfd_core bs"
    using assms(1) ctx_ok_seq(1) by (subst p2(2), simp add: c)+
  then show ?thesis using ctx_ok_last_tx [OF _ assms(2)]
    by (simp add: bfd_init_final_control_frame_def c p p2(1) bfd_sends_def)
qed

end
