(* ===== verification/Bfd_Auth_Lemmas.thy ===== *)
theory Bfd_Auth_Lemmas
  imports Bfd_Auth Bfd_Progress
begin

text \<open>
  Authentication of BFD packets: exactly which sequence numbers are accepted, on the circle of 32-bit
  numbers, and that a packet signed with a key verifies under the same key.
\<close>

section \<open>The window of sequence numbers\<close>

text \<open>How far \<open>received\<close> is ahead of \<open>remote\<close>, on the circle of 32-bit numbers.\<close>

definition seq_ahead :: "u32 \<Rightarrow> u32 \<Rightarrow> nat" where
  "seq_ahead received remote = unat (received - remote)"

lemma seq_window:
  fixes received remote :: u32 and mult :: u8
  defines "w \<equiv> 3 * (ucast mult :: u32)" and "k \<equiv> 3 * unat mult" and "ahead \<equiv> seq_ahead received remote"
  shows "0xffffffff - w < remote \<Longrightarrow>
      \<not> (w - (0xffffffff - remote) < received \<and> received < remote + (if met then 1 else 0))
      \<longleftrightarrow> (met \<and> remote = 0xffffffff) \<or> ((if met then 1 else 0) \<le> ahead \<and> ahead \<le> k + 1)"
    and "mult \<noteq> 0 \<Longrightarrow> \<not> 0xffffffff - w < remote \<Longrightarrow>
      \<not> (received < remote + (if met then 1 else 0) \<or> remote + w < received)
      \<longleftrightarrow> (if met then 1 else 0) \<le> ahead \<and> ahead \<le> k"
proof -
  have w: "unat w = k" "k \<le> 765"
    using unat_u8_lt [of mult] by (simp_all add: w_def k_def unat_word_ariths unat_ucast_up)
  have m: "unat (0xffffffff :: u32) = 4294967295" by simp
  have b: "unat received < 4294967296" "unat remote < 4294967296" using unat_u32_lt by blast+
  have e: "remote = 0xffffffff \<longleftrightarrow> unat remote = 4294967295" by (metis m word_unat_eq_iff)
  have s: "unat (a - c) = (if unat c \<le> unat a then unat a - unat c else unat a + 4294967296 - unat c)" for a c :: u32
    by (simp add: unat_sub_if_size word_size)
  have p: "unat (a + c) = (if unat a + unat c < 4294967296 then unat a + unat c else unat a + unat c - 4294967296)" for a c :: u32
    by (simp add: unat_plus_if_size word_size)
  show "0xffffffff - w < remote \<Longrightarrow>
      \<not> (w - (0xffffffff - remote) < received \<and> received < remote + (if met then 1 else 0))
      \<longleftrightarrow> (met \<and> remote = 0xffffffff) \<or> ((if met then 1 else 0) \<le> ahead \<and> ahead \<le> k + 1)"
    using w b unfolding ahead_def seq_ahead_def e word_less_nat_alt s p m
    by (auto split: if_splits)
  have "mult \<noteq> 0 \<Longrightarrow> 0 < k" by (simp add: k_def unat_gt_0)
  then show "mult \<noteq> 0 \<Longrightarrow> \<not> 0xffffffff - w < remote \<Longrightarrow>
      \<not> (received < remote + (if met then 1 else 0) \<or> remote + w < received)
      \<longleftrightarrow> (if met then 1 else 0) \<le> ahead \<and> ahead \<le> k"
    using w b unfolding ahead_def seq_ahead_def word_less_nat_alt s p m
    by (auto split: if_splits)
qed

text \<open>Whether the last sequence number is still trusted.\<close>

definition seq_known :: "u64 \<Rightarrow> bfd_session \<Rightarrow> bool" where
  "seq_known now bs \<longleftrightarrow> remote_seq_number_known (bs_auth bs) \<noteq> 0 \<and> \<not> detection_time_clocks bs * 2 < now - last_rx_clocks bs"

lemma verify_seq_num:
  "local_detect_mult bs \<noteq> 0 \<Longrightarrow> fst (bfd_verify_pkt_auth_seq_num now received met bs) \<longleftrightarrow>
    (seq_known now bs \<longrightarrow>
      (let remote = remote_seq_number (bs_auth bs); ahead = seq_ahead received remote;
           k = 3 * unat (local_detect_mult bs)
       in if 0xffffffff - 3 * ucast (local_detect_mult bs) < remote
          then (met \<and> remote = 0xffffffff) \<or> ((if met then 1 else 0) \<le> ahead \<and> ahead \<le> k + 1)
          else (if met then 1 else 0) \<le> ahead \<and> ahead \<le> k))"
  using seq_window [of "local_detect_mult bs" "remote_seq_number (bs_auth bs)" received met]
  by (simp add: bfd_verify_pkt_auth_seq_num_def seq_known_def Let_def)

section \<open>Signed packets verify\<close>

lemma length_bytes [simp]: "length (u32_bytes x) = 4" "length (bfd_pkt_bytes p) = 24"
  by (simp_all add: u32_bytes_def bfd_pkt_bytes_def)

lemma take_frame_bytes:
  "take 32 (bfd_frame_bytes (f\<lparr>frame_auth := (frame_auth f)\<lparr>sha1_hash := h\<rparr>\<rparr>)) @ sha1_hash (frame_auth f) = bfd_frame_bytes f"
  by (simp add: bfd_frame_bytes_def bfd_auth_sha1_bytes_def u32_bytes_def)

lemma signed_verifies:
  assumes "bfd_add_sha1_auth_section env key pkt bs = (f, bs')" and "SHA1_ok env'" and "SHA1 env' = SHA1 env"
    and "key_data key' = key_data key" and "key_auth_type key' = key_auth_type key"
  shows "bfd_verify_pkt_auth_key_sha1 env' f sizeof_bfd_pkt_with_sha1_auth (curr_bfd_key_id (bs_auth bs)) key'"
proof -
  let ?u = "bfd_sha1_unsigned key pkt bs'"
  have f: "f = ?u\<lparr>frame_auth := (frame_auth ?u)\<lparr>sha1_hash := SHA1 env (bfd_frame_bytes ?u)\<rparr>\<rparr>"
    and b: "curr_bfd_key_id (bs_auth bs') = curr_bfd_key_id (bs_auth bs)"
    using assms(1) by (auto simp: bfd_add_sha1_auth_section_def Let_def)
  have "take 32 (bfd_frame_bytes f) @ key_data key = bfd_frame_bytes ?u"
    using take_frame_bytes [where f = ?u] unfolding f by (simp add: bfd_sha1_unsigned_def)
  then show ?thesis using assms(2-5) b
    by (simp add: bfd_verify_pkt_auth_key_sha1_def f bfd_sha1_unsigned_def)
qed

text \<open>Whole frames: the bit that announces the section, and the sequence number through both byte swaps.\<close>

lemma auth_present_set: "bfd_pkt_get_auth_present (bfd_pkt_set_auth_present pkt) \<noteq> 0"
proof -
  have "bit (bfd_pkt_get_auth_present (bfd_pkt_set_auth_present pkt)) 0"
    by (simp add: bfd_pkt_get_auth_present_def bfd_pkt_set_auth_present_def bit_and_iff bit_drop_bit_eq bit_or_iff bit_0)
  then show ?thesis by (metis bit_0_eq bot_apply bot_bool_def)
qed

lemma signed_frame_accepted:
  assumes add: "bfd_add_auth_section env pkt (bm, bs) = Some (f, len, bs1)" and k: "curr_key (bs_auth bs) = Some k"
    and key: "pool_elt_at_index (auth_keys bm) k = Some key" and sup: "bfd_auth_type_supported (key_auth_type key)"
    and k': "curr_key (bs_auth bs') = Some k'" and key': "pool_elt_at_index (auth_keys bm') k' = Some key'"
    and same: "key_data key' = key_data key" "key_auth_type key' = key_auth_type key"
    and kid: "curr_bfd_key_id (bs_auth bs') = curr_bfd_key_id (bs_auth bs)" and sha: "SHA1_ok env'" "SHA1 env' = SHA1 env"
    and seq: "fst (bfd_verify_pkt_auth_seq_num now (local_seq_number (bs_auth bs) + 1) (bfd_auth_type_is_meticulous (key_auth_type key)) bs')"
  shows "\<exists>c'. bfd_verify_pkt_auth env' now now' f len (bm', bs') = Some (True, c')"
proof -
  have ty: "key_auth_type key = BFD_AUTH_TYPE_keyed_sha1 \<or> key_auth_type key = BFD_AUTH_TYPE_meticulous_keyed_sha1"
    using sup by (simp add: bfd_auth_type_supported_def)
  have s: "bfd_add_sha1_auth_section env key pkt bs = (f, bs1)" and len: "len = sizeof_bfd_pkt_with_sha1_auth"
    using add k key ty by (auto simp: bfd_add_auth_section_def split: prod.splits)
  have f: "bfd_pkt_get_auth_present (frame_pkt f) \<noteq> 0"
      "clib_byte_swap_u32 (sha1_seq_num (frame_auth f)) = local_seq_number (bs_auth bs) + 1"
    using s auth_present_set by (auto simp: bfd_add_sha1_auth_section_def bfd_sha1_unsigned_def Let_def)
  have v: "bfd_verify_pkt_auth_key_sha1 env' f len (curr_bfd_key_id (bs_auth bs')) key'"
    unfolding len kid by (rule signed_verifies [OF s sha same])
  obtain ok b where n: "bfd_verify_pkt_auth_seq_num now (local_seq_number (bs_auth bs) + 1)
      (bfd_auth_type_is_meticulous (key_auth_type key')) bs' = (ok, b)" by fastforce
  then have "ok" using seq by (simp add: same)
  then have "bfd_verify_pkt_auth_key env' now f len (curr_bfd_key_id (bs_auth bs')) key' bs' = (True, b)"
    using v n ty by (simp add: bfd_verify_pkt_auth_key_def f(2) same)
  then show ?thesis using f(1) k' key' by (simp add: bfd_verify_pkt_auth_def Let_def)
qed

section \<open>Accepted packets\<close>

text \<open>
  A frame signed with a key: the type and the identifier of the key, lengths that hold the section, and the
  digest of the frame with the key in the place of the hash. An authentic packet is signed with the key
  in use and has an acceptable sequence number, or is signed with the key that is to be used next; or it is not
  signed and has no section, when no key is in use or its removal is pending.
\<close>

definition frame_signed :: "bfd_env \<Rightarrow> bfd_frame \<Rightarrow> nat \<Rightarrow> bfd_auth_key \<Rightarrow> u8 \<Rightarrow> bool" where
  "frame_signed env f len key kid \<longleftrightarrow>
    (key_auth_type key = BFD_AUTH_TYPE_keyed_sha1 \<or> key_auth_type key = BFD_AUTH_TYPE_meticulous_keyed_sha1)
    \<and> sha1_type (frame_auth f) = key_auth_type key \<and> sha1_key_id (frame_auth f) = kid
    \<and> 52 \<le> len \<and> 28 \<le> unat (sha1_len (frame_auth f))
    \<and> sha1_hash (frame_auth f) = SHA1 env (take 32 (bfd_frame_bytes f) @ key_data key)"

definition frame_authentic :: "bfd_env \<Rightarrow> u64 \<Rightarrow> bfd_frame \<Rightarrow> nat \<Rightarrow> bfd_main \<Rightarrow> bfd_session \<Rightarrow> bool" where
  "frame_authentic env now f len bm bs \<longleftrightarrow> (let a = bs_auth bs in
    if bfd_pkt_get_auth_present (frame_pkt f) = 0
    then len \<le> 24 \<and> (curr_key a = None \<or> is_delayed a \<noteq> 0 \<and> next_key a = None)
    else (\<exists>i key. curr_key a = Some i \<and> pool_elt_at_index (auth_keys bm) i = Some key \<and> frame_signed env f len key (curr_bfd_key_id a)
        \<and> fst (bfd_verify_pkt_auth_seq_num now (clib_byte_swap_u32 (sha1_seq_num (frame_auth f)))
            (bfd_auth_type_is_meticulous (key_auth_type key)) bs))
      \<or> (\<exists>i key. is_delayed a \<noteq> 0 \<and> next_key a = Some i \<and> pool_elt_at_index (auth_keys bm) i = Some key
        \<and> frame_signed env f len key (next_bfd_key_id a)))"

lemma verify_key_signed:
  "fst (bfd_verify_pkt_auth_key env now f len kid key bs) \<Longrightarrow> frame_signed env f len key kid
    \<and> fst (bfd_verify_pkt_auth_seq_num now (clib_byte_swap_u32 (sha1_seq_num (frame_auth f)))
        (bfd_auth_type_is_meticulous (key_auth_type key)) bs)"
  by (auto simp: bfd_verify_pkt_auth_key_def bfd_verify_pkt_auth_key_sha1_def frame_signed_def split: if_splits prod.splits)

lemma verify_authentic:
  assumes "bfd_verify_pkt_auth env n1 n2 f len (bm, bs) = Some (True, c)"
  shows "frame_authentic env n1 f len bm bs"
proof (cases "bfd_pkt_get_auth_present (frame_pkt f) = 0")
  case True
  then show ?thesis using assms by (auto simp: bfd_verify_pkt_auth_def frame_authentic_def Let_def split: if_splits)
next
  case False
  let ?a = "bs_auth bs"
  have nx: "\<exists>i key. is_delayed ?a \<noteq> 0 \<and> next_key ?a = Some i \<and> pool_elt_at_index (auth_keys bm) i = Some key
      \<and> frame_signed env f len key (next_bfd_key_id ?a)"
    if h: "(case next_key ?a of None \<Rightarrow> Some (False, bm, bs')
       | Some i \<Rightarrow> if is_delayed ?a = 0 then Some (False, bm, bs')
         else do {
           key \<leftarrow> pool_elt_at_index (auth_keys bm) i;
           let (ok, bs) = bfd_verify_pkt_auth_key env n2 f len (next_bfd_key_id ?a) key bs';
           if ok then do {ctx \<leftarrow> bfd_session_switch_auth_to_next (bm, bs); Some (True, ctx)}
           else Some (False, bm, bs)}) = Some (True, c)" for bs'
  proof -
    obtain i key where "next_key ?a = Some i" "is_delayed ?a \<noteq> 0" "pool_elt_at_index (auth_keys bm) i = Some key"
      "fst (bfd_verify_pkt_auth_key env n2 f len (next_bfd_key_id ?a) key bs')"
      using h by (auto simp: bind_eq_Some_conv Let_def split_beta split: option.splits if_splits)
    then show ?thesis using verify_key_signed by blast
  qed
  show ?thesis
  proof (cases "curr_key ?a")
    case None
    then show ?thesis using assms False nx [of bs] by (simp add: bfd_verify_pkt_auth_def frame_authentic_def Let_def)
  next
    case (Some i)
    then obtain key where key: "pool_elt_at_index (auth_keys bm) i = Some key"
      using assms False by (auto simp: bfd_verify_pkt_auth_def Let_def bind_eq_Some_conv)
    obtain ok bs' where v: "bfd_verify_pkt_auth_key env n1 f len (curr_bfd_key_id ?a) key bs = (ok, bs')" by fastforce
    show ?thesis
    proof (cases ok)
      case True
      then show ?thesis using verify_key_signed [of env n1 f len "curr_bfd_key_id ?a" key bs] v False Some key
        by (simp add: frame_authentic_def Let_def)
    next
      case not_ok: False
      then show ?thesis using assms False Some key v nx [of bs'] by (simp add: bfd_verify_pkt_auth_def frame_authentic_def Let_def)
    qed
  qed
qed

end
