(* ===== verification/Bfd_Table.thy ===== *)
theory Bfd_Table
  imports Bfd_Auth_Lemmas
begin

text \<open>
  The table of BFD sessions and the pool of their authentication keys. A key counts its references: the
  count is never below the number of sessions that refer to the key, so a key in use is neither changed
  nor deleted and no session is left with a dangling key. The discriminators identify the sessions.
\<close>

section \<open>References to keys\<close>

definition refs_of :: "bfd_session \<Rightarrow> nat \<Rightarrow> nat" where
  "refs_of bs i = (if curr_key (bs_auth bs) = Some i then 1 else 0) + (if next_key (bs_auth bs) = Some i then 1 else 0)"

definition table_refs :: "bfd_session pool \<Rightarrow> nat \<Rightarrow> nat" where
  "table_refs p i = (\<Sum>j\<in>pool_live p. refs_of (pool_vec p ! j) i)"

definition key_count :: "bfd_main \<Rightarrow> nat \<Rightarrow> nat" where
  "key_count bm i = (case pool_elt_at_index (auth_keys bm) i of Some key \<Rightarrow> unat (use_count key) | None \<Rightarrow> 0)"

lemma finite_live [simp]: "finite (pool_live p)"
  by (rule finite_subset [of _ "{..<length (pool_vec p)}"]) (auto simp: pool_live_iff)

lemma vec_store [simp]: "pool_vec (pool_store p i x) = (pool_vec p)[i := x]"
  by (simp add: pool_store_def)

lemma put_index_vec: "pool_put_index p i = Some p' \<Longrightarrow> pool_vec p' = pool_vec p"
  by (auto simp: pool_put_index_def split: if_splits)

lemma live_length: "i \<in> pool_live p \<Longrightarrow> i < length (pool_vec p)"
  by (simp add: pool_live_iff)

lemma table_refs_store:
  assumes "i \<in> pool_live p"
  shows "table_refs (pool_store p i bs) k + refs_of (pool_vec p ! i) k = table_refs p k + refs_of bs k"
proof -
  have "(\<Sum>j\<in>pool_live p - {i}. refs_of ((pool_vec p)[i := bs] ! j) k) = (\<Sum>j\<in>pool_live p - {i}. refs_of (pool_vec p ! j) k)"
    by (rule sum.cong) auto
  then show ?thesis using assms live_length [OF assms]
    by (simp add: table_refs_def sum.remove [OF finite_live assms])
qed

lemma refs_le: "i \<in> pool_live p \<Longrightarrow> refs_of (pool_vec p ! i) k \<le> table_refs p k"
  unfolding table_refs_def by (rule member_le_sum) auto

lemma key_count_live: "0 < key_count bm i \<Longrightarrow> i \<in> pool_live (auth_keys bm)"
  by (auto simp: key_count_def pool_elt_live split: option.splits if_splits)

lemma key_update_eq:
  "i \<in> pool_live (auth_keys bm) \<Longrightarrow> auth_key_update i g bm
    = Some (bm\<lparr>auth_keys := pool_store (auth_keys bm) i (g (pool_vec (auth_keys bm) ! i))\<rparr>)"
  by (simp add: auth_key_update_def pool_elt_live)

text \<open>Giving back and taking a reference: only the counts change.\<close>

definition counts_change :: "bfd_auth_key pool \<Rightarrow> bfd_auth_key pool \<Rightarrow> bool" where
  "counts_change p p' \<longleftrightarrow> pool_live p' = pool_live p \<and> pool_ok p' = pool_ok p
    \<and> (\<forall>i \<in> pool_live p. conf_key_id (pool_vec p' ! i) = conf_key_id (pool_vec p ! i))"

lemma counts_change_refl [simp]: "counts_change p p"
  by (simp add: counts_change_def)

lemma counts_change_trans: "counts_change p q \<Longrightarrow> counts_change q r \<Longrightarrow> counts_change p r"
  by (simp add: counts_change_def)

lemma counts_change_store:
  assumes "i \<in> pool_live p"
  shows "counts_change p (pool_store p i ((pool_vec p ! i)\<lparr>use_count := n\<rparr>))"
  using live_length [OF assms] by (auto simp: counts_change_def nth_list_update)

lemma key_count_store:
  assumes "i \<in> pool_live (auth_keys bm)"
  shows "key_count (bm\<lparr>auth_keys := pool_store (auth_keys bm) i ((pool_vec (auth_keys bm) ! i)\<lparr>use_count := n\<rparr>)\<rparr>) j
    = (if j = i then unat n else key_count bm j)"
  using assms live_length [OF assms] by (auto simp: key_count_def pool_elt_live)

lemma key_release_ok:
  assumes "\<And>i. k = Some i \<Longrightarrow> 0 < key_count bm i"
  shows "\<exists>p. key_release k bm = Some (bm\<lparr>auth_keys := p\<rparr>) \<and> counts_change (auth_keys bm) p
    \<and> (\<forall>i. key_count (bm\<lparr>auth_keys := p\<rparr>) i = key_count bm i - (if k = Some i then 1 else 0))"
proof (cases k)
  case None
  then show ?thesis by (intro exI [of _ "auth_keys bm"]) (simp add: key_release_def)
next
  case (Some i)
  let ?k = "pool_vec (auth_keys bm) ! i"
  have l: "i \<in> pool_live (auth_keys bm)" using assms Some key_count_live by blast
  have "0 < unat (use_count ?k)" using assms [OF Some] l by (simp add: key_count_def pool_elt_live)
  then have "unat (use_count ?k - 1) = key_count bm i - 1"
    using l by (simp add: key_count_def pool_elt_live unat_minus_one unat_gt_0)
  then show ?thesis using Some l
    by (intro exI [of _ "pool_store (auth_keys bm) i (?k\<lparr>use_count := use_count ?k - 1\<rparr>)"])
       (simp add: key_release_def key_update_eq [OF l] counts_change_store key_count_store)
qed

lemma key_take_ok:
  assumes "i \<in> pool_live (auth_keys bm)" and "key_count bm i < 2 ^ 32 - 1"
  shows "\<exists>p. auth_key_update i (\<lambda>key. key\<lparr>use_count := use_count key + 1\<rparr>) bm = Some (bm\<lparr>auth_keys := p\<rparr>)
    \<and> counts_change (auth_keys bm) p
    \<and> (\<forall>j. key_count (bm\<lparr>auth_keys := p\<rparr>) j = key_count bm j + (if j = i then 1 else 0))"
proof -
  let ?k = "pool_vec (auth_keys bm) ! i"
  have "unat (use_count ?k + 1) = key_count bm i + 1"
    using assms by (simp add: key_count_def pool_elt_live unat_plus_if_size word_size)
  then show ?thesis using assms(1)
    by (intro exI [of _ "pool_store (auth_keys bm) i (?k\<lparr>use_count := use_count ?k + 1\<rparr>)"])
       (simp add: key_update_eq counts_change_store key_count_store)
qed

section \<open>The invariant of the table\<close>

definition bfd_keys_ok :: "bfd_main \<Rightarrow> bool" where
  "bfd_keys_ok bm \<longleftrightarrow> pool_ok (auth_keys bm) \<and> (\<forall>i. table_refs (sessions bm) i \<le> key_count bm i)
    \<and> (\<forall>c i. auth_key_by_conf_key_id bm c = Some i \<longrightarrow>
        i \<in> pool_live (auth_keys bm) \<and> conf_key_id (pool_vec (auth_keys bm) ! i) = c)"

text \<open>The sessions in \<open>X\<close> are allocated and not started yet.\<close>

definition bfd_table_but :: "nat set \<Rightarrow> bfd_main \<Rightarrow> bool" where
  "bfd_table_but X bm \<longleftrightarrow> bfd_keys_ok bm \<and> bfd_main_ok bm \<and> pool_ok (sessions bm)
    \<and> (\<forall>i \<in> pool_live (sessions bm) - X. bfd_ctx_ok (bm, pool_vec (sessions bm) ! i))
    \<and> (\<forall>i \<in> pool_live (sessions bm). bs_idx (pool_vec (sessions bm) ! i) = word_of_nat i)
    \<and> (\<forall>d i. session_by_disc bm d = Some i \<longleftrightarrow> i \<in> pool_live (sessions bm) \<and> local_discr (pool_vec (sessions bm) ! i) = d)"

abbreviation bfd_table_ok :: "bfd_main \<Rightarrow> bool" where
  "bfd_table_ok \<equiv> bfd_table_but {}"

lemma ctx_ok_main: "bfd_config bm' = bfd_config bm \<Longrightarrow> bfd_ctx_ok (bm', bs) = bfd_ctx_ok (bm, bs)"
proof -
  assume c: "bfd_config bm' = bfd_config bm"
  show ?thesis unfolding bfd_ctx_ok_def bfd_base_ok_def bfd_rates_ok_def fst_conv snd_conv
    by (simp only: usec_pair_cong [OF c] key_live_cong [OF c] main_ok_cong [OF c] bfd_config_fields [OF c])
qed

lemma ctx_ok_keys:
  "bfd_ctx_ok (bm\<lparr>auth_keys := p\<rparr>, bs) \<longleftrightarrow>
    bfd_ctx_ok (bm, bs\<lparr>bs_auth := (bs_auth bs)\<lparr>curr_key := None, next_key := None\<rparr>\<rparr>)
    \<and> key_live (bm\<lparr>auth_keys := p\<rparr>) (curr_key (bs_auth bs)) \<and> key_live (bm\<lparr>auth_keys := p\<rparr>) (next_key (bs_auth bs))"
  by (auto simp: bfd_ctx_ok_def bfd_base_ok_def bfd_rates_ok_def usec_pair_def key_live_def)

lemma ctx_ok_sessions [simp]: "bfd_ctx_ok (bm\<lparr>sessions := p\<rparr>, bs) = bfd_ctx_ok (bm, bs)"
  by (simp add: bfd_ctx_ok_def bfd_base_ok_def bfd_rates_ok_def usec_pair_def key_live_def)

lemma ctx_ok_disc [simp]: "bfd_ctx_ok (bm\<lparr>session_by_disc := d\<rparr>, bs) = bfd_ctx_ok (bm, bs)"
  "bfd_ctx_ok (bm\<lparr>auth_key_by_conf_key_id := d'\<rparr>, bs) = bfd_ctx_ok (bm, bs)"
  by (simp_all add: bfd_ctx_ok_def bfd_base_ok_def bfd_rates_ok_def usec_pair_def key_live_def bfd_usec_to_clocks_def)

text \<open>Every session refers to keys that exist: a reference is counted.\<close>

lemma counted_live: "0 < n \<Longrightarrow> n \<le> key_count bm i \<Longrightarrow> i \<in> pool_live (auth_keys bm)"
  using key_count_live by simp

lemma refs_live:
  assumes "\<And>i. refs_of bs i \<le> key_count bm i"
  shows "key_live bm (curr_key (bs_auth bs)) \<and> key_live bm (next_key (bs_auth bs))"
proof -
  have "i \<in> pool_live (auth_keys bm)" if "curr_key (bs_auth bs) = Some i \<or> next_key (bs_auth bs) = Some i" for i
    using that assms [of i] counted_live [of "refs_of bs i" bm i] by (auto simp: refs_of_def split: if_splits)
  then show ?thesis by (auto simp: key_live_def pool_elt_live)
qed

text \<open>Storing a session back, with keys of which only the counts have changed.\<close>

lemma store_keys_ok:
  assumes T: "bfd_table_but X bm" and i: "i \<in> pool_live (sessions bm)" and X: "X \<subseteq> insert i Y"
    and ctx: "i \<notin> Y \<Longrightarrow> bfd_ctx_ok (bm\<lparr>auth_keys := auth_keys bm'\<rparr>, bs')"
    and cfg: "bfd_config bm' = bfd_config (bm\<lparr>auth_keys := auth_keys bm'\<rparr>)"
    and keys: "counts_change (auth_keys bm) (auth_keys bm')"
    and refs: "\<And>k. table_refs (sessions bm) k + refs_of bs' k \<le> key_count bm' k + refs_of (pool_vec (sessions bm) ! i) k"
    and same: "local_discr bs' = local_discr (pool_vec (sessions bm) ! i)" "bs_idx bs' = bs_idx (pool_vec (sessions bm) ! i)"
  shows "bfd_table_but Y (bfd_store_session i (bm', bs'))"
proof -
  have f: "sessions bm' = sessions bm" "session_by_disc bm' = session_by_disc bm"
    "auth_key_by_conf_key_id bm' = auth_key_by_conf_key_id bm"
    using bfd_config_fields [OF cfg] by simp_all
  let ?S = "sessions bm" and ?bm = "bfd_store_session i (bm', bs')"
  have S: "sessions ?bm = pool_store ?S i bs'" and K: "auth_keys ?bm = auth_keys bm'" and C: "key_count ?bm = key_count bm'"
    by (simp_all add: fun_eq_iff bfd_store_session_def f key_count_def)
  have li: "i < length (pool_vec ?S)" using live_length [OF i] .
  have R: "table_refs (sessions ?bm) k \<le> key_count ?bm k" for k
    using refs [of k] table_refs_store [OF i, of bs' k] by (simp add: S C)
  have ok: "bfd_ctx_ok (?bm, pool_vec (sessions ?bm) ! j)" if j: "j \<in> pool_live ?S - Y" for j
  proof (cases "j = i")
    case True
    then show ?thesis using ctx ctx_ok_main [OF cfg] li j by (simp add: bfd_store_session_def f)
  next
    case False
    then have e: "pool_vec (sessions ?bm) ! j = pool_vec ?S ! j" and jX: "j \<in> pool_live ?S - X" using j X by (auto simp: S)
    have "refs_of (pool_vec ?S ! j) k \<le> key_count ?bm k" for k
      using refs_le [of j "sessions ?bm" k] j R [of k] e by (simp add: S)
    then have "key_live ?bm (curr_key (bs_auth (pool_vec ?S ! j))) \<and> key_live ?bm (next_key (bs_auth (pool_vec ?S ! j)))"
      by (rule refs_live)
    then have "bfd_ctx_ok (bm\<lparr>auth_keys := auth_keys bm'\<rparr>, pool_vec ?S ! j)"
      using T jX by (simp add: ctx_ok_keys bfd_table_but_def key_live_def K)
        (simp add: bfd_ctx_ok_def bfd_base_ok_def bfd_rates_ok_def key_live_def)
    then show ?thesis unfolding e using ctx_ok_main [OF cfg] by (simp add: bfd_store_session_def f)
  qed
  have "bfd_keys_ok ?bm"
    using T keys R unfolding bfd_keys_ok_def bfd_table_but_def counts_change_def K
    by (simp add: bfd_store_session_def f)
  moreover have "bfd_main_ok ?bm" using T by (simp add: bfd_store_session_def bfd_table_but_def main_ok_cong [OF cfg])
  ultimately show ?thesis using T ok same li
    by (auto simp: bfd_table_but_def bfd_store_session_def f nth_list_update)
qed

text \<open>Steps that keep the sessions and what they are attached to.\<close>

definition same_udp :: "bfd_main \<Rightarrow> bfd_main \<Rightarrow> bool" where
  "same_udp bm bm' \<longleftrightarrow> pool_live (sessions bm') = pool_live (sessions bm)
    \<and> length (pool_vec (sessions bm')) = length (pool_vec (sessions bm))
    \<and> (\<forall>i \<in> pool_live (sessions bm). bs_udp (pool_vec (sessions bm') ! i) = bs_udp (pool_vec (sessions bm) ! i))"

lemma same_udp_refl [simp]: "same_udp bm bm"
  by (simp add: same_udp_def)

lemma same_udp_trans: "same_udp a b \<Longrightarrow> same_udp b c \<Longrightarrow> same_udp a c"
  by (simp add: same_udp_def)

lemma same_udp_store:
  assumes "i \<in> pool_live (sessions bm)" and "sessions bm' = sessions bm" and "bs_udp bs' = bs_udp (pool_vec (sessions bm) ! i)"
  shows "same_udp bm (bfd_store_session i (bm', bs'))"
  using assms live_length [OF assms(1)] by (auto simp: same_udp_def bfd_store_session_def nth_list_update)

abbreviation bfd_steps_but :: "nat set \<Rightarrow> bfd_main \<Rightarrow> bfd_main \<Rightarrow> bool" where
  "bfd_steps_but X bm bm' \<equiv> bfd_table_but X bm' \<and> same_udp bm bm'"

abbreviation bfd_steps :: "bfd_main \<Rightarrow> bfd_main \<Rightarrow> bool" where
  "bfd_steps \<equiv> bfd_steps_but {}"

text \<open>Operations that leave the keys alone.\<close>

lemma store_core_table:
  assumes T: "bfd_table_ok bm" and i: "i \<in> pool_live (sessions bm)" and "bfd_ctx_ok (bm', bs')"
    and c: "bfd_config bm' = bfd_config bm" and "local_discr bs' = local_discr (pool_vec (sessions bm) ! i)"
    and "bs_idx bs' = bs_idx (pool_vec (sessions bm) ! i)" and k: "session_refs bs' = session_refs (pool_vec (sessions bm) ! i)"
  shows "bfd_table_ok (bfd_store_session i (bm', bs'))"
proof (rule store_keys_ok [OF T i])
  have a: "auth_keys bm' = auth_keys bm" using bfd_config_fields [OF c] by simp
  then have bm: "bm\<lparr>auth_keys := auth_keys bm'\<rparr> = bm" by simp
  show "bfd_ctx_ok (bm\<lparr>auth_keys := auth_keys bm'\<rparr>, bs')" unfolding bm using assms(3) ctx_ok_main [OF c] by simp
  show "bfd_config bm' = bfd_config (bm\<lparr>auth_keys := auth_keys bm'\<rparr>)" unfolding bm by (rule c)
  show "counts_change (auth_keys bm) (auth_keys bm')" by (simp add: a)
  have "refs_of bs' j = refs_of (pool_vec (sessions bm) ! i) j" "key_count bm' j = key_count bm j" for j
    using k by (simp_all add: refs_of_def session_refs_def key_count_def a)
  then show "table_refs (sessions bm) j + refs_of bs' j \<le> key_count bm' j + refs_of (pool_vec (sessions bm) ! i) j" for j
    using T by (simp add: bfd_table_but_def bfd_keys_ok_def)
qed (use assms in simp_all)

lemma store_core_ok:
  assumes T: "bfd_table_ok bm" and i: "i \<in> pool_live (sessions bm)" and ok: "bfd_ctx_ok (bm', bs')"
    and c: "bfd_config bm' = bfd_config bm" and d: "local_discr bs' = local_discr (pool_vec (sessions bm) ! i)"
    and x: "bs_idx bs' = bs_idx (pool_vec (sessions bm) ! i)" and k: "session_refs bs' = session_refs (pool_vec (sessions bm) ! i)"
  shows "bfd_steps bm (bfd_store_session i (bm', bs'))"
  using store_core_table [OF assms] same_udp_store [OF i] bfd_config_fields [OF c] k by (simp add: session_refs_def)

lemma core_eqD:
  assumes "bfd_core bs' = (l, d, r, ld, rd, ix, k)"
  shows "local_state bs' = l" "local_diag bs' = d" "remote_state bs' = r" "local_discr bs' = ld" "remote_discr bs' = rd"
    "bs_idx bs' = ix" "session_refs bs' = k"
  using assms by (simp_all add: bfd_core_def)

text \<open>Working on a session of the table.\<close>

lemma table_live: "bfd_table_ok bm \<Longrightarrow> i \<in> pool_live (sessions bm) \<Longrightarrow> bfd_ctx_ok (bm, pool_vec (sessions bm) ! i)"
  by (simp add: bfd_table_but_def)

lemma with_session_table:
  assumes T: "bfd_table_ok bm"
    and op: "\<And>bs. bfd_ctx_ok (bm, bs) \<Longrightarrow> \<exists>bm' bs'. op (bm, bs) = Some (bm', bs') \<and> bfd_ctx_ok (bm', bs')
      \<and> bfd_config bm' = bfd_config bm \<and> local_discr bs' = local_discr bs \<and> bs_idx bs' = bs_idx bs \<and> session_refs bs' = session_refs bs"
  shows "\<exists>bm'. bfd_with_session op i bm = Some bm' \<and> bfd_steps bm bm'"
proof (cases "i \<in> pool_live (sessions bm)")
  case True
  from op [OF table_live [OF T True]] obtain bm' bs' where
    "op (bm, pool_vec (sessions bm) ! i) = Some (bm', bs')" "bfd_ctx_ok (bm', bs')" "bfd_config bm' = bfd_config bm"
    "local_discr bs' = local_discr (pool_vec (sessions bm) ! i)" "bs_idx bs' = bs_idx (pool_vec (sessions bm) ! i)"
    "session_refs bs' = session_refs (pool_vec (sessions bm) ! i)" by blast
  then show ?thesis using store_core_ok [OF T True] True
    by (simp add: bfd_with_session_def pool_is_free_iff pool_elt_live)
qed (use T in \<open>simp add: bfd_with_session_def pool_is_free_iff\<close>)

lemma sends_table:
  assumes "bfd_sends (bm, bs) c'"
  shows "\<exists>bm' bs'. Some c' = Some (bm', bs') \<and> bfd_ctx_ok (bm', bs') \<and> bfd_config bm' = bfd_config bm
    \<and> local_discr bs' = local_discr bs \<and> bs_idx bs' = bs_idx bs \<and> session_refs bs' = session_refs bs"
  using assms by (cases c') (simp add: bfd_sends_def bfd_core_def)

lemma sends_timer: "bfd_sends c c' \<Longrightarrow> bfd_sends c (bfd_set_timer now h c')"
  using set_timer_moves [of c' now h] moves_core [of c' "bfd_set_timer now h c'"]
  by (simp add: bfd_sends_def bfd_moves_def)

section \<open>Entry points\<close>

lemma find_live: "bfd_find_session_by_idx bm i = (if i \<in> pool_live (sessions bm) then Some (pool_vec (sessions bm) ! i) else None)"
  by (simp add: bfd_find_session_by_idx_def pool_is_free_iff pool_elt_live)

lemma consume_table:
  assumes T: "bfd_table_ok bm"
  shows "\<exists>bm'. bfd_consume_pkt now now' f i bm = Some bm' \<and> bfd_steps bm bm'"
proof (cases "i \<in> pool_live (sessions bm)
    \<and> (your_disc (frame_pkt f) = 0 \<or> your_disc (frame_pkt f) = local_discr (pool_vec (sessions bm) ! i))")
  case True
  then have i: "i \<in> pool_live (sessions bm)" by simp
  from consume_session [OF table_live [OF T i], of i f now now'] True obtain bm' bs' where
    c: "bfd_consume_pkt now now' f i bm = Some (bfd_store_session i (bm', bs'))" "bfd_ctx_ok (bm', bs')" "bfd_config bm' = bfd_config bm"
    and "\<exists>l d r. bfd_core bs' = (l, d, r, local_discr (pool_vec (sessions bm) ! i), my_disc (frame_pkt f),
      bs_idx (pool_vec (sessions bm) ! i), session_refs (pool_vec (sessions bm) ! i))"
    by (auto simp: find_live)
  then show ?thesis using store_core_ok [OF T i c(2,3)] core_eqD by (metis (no_types, lifting))
qed (use T in \<open>auto simp: bfd_consume_pkt_def find_live\<close>)

lemma echo_table:
  assumes T: "bfd_table_ok bm"
  shows "bfd_steps bm (snd (bfd_consume_echo_pkt now len pkt bm))"
proof (cases "session_by_disc bm (echo_discriminator pkt)")
  case (Some i)
  then have i: "i \<in> pool_live (sessions bm)" using T by (simp add: bfd_table_but_def)
  have "bfd_steps bm (bfd_store_session i (bm, (pool_vec (sessions bm) ! i)\<lparr>echo_last_rx_clocks := now\<rparr>))"
    by (rule store_core_ok [OF T i]) (use table_live [OF T i] in \<open>simp_all add: session_refs_def\<close>)
  then show ?thesis using T Some i
    by (simp add: bfd_consume_echo_pkt_def bfd_find_session_by_disc_def pool_elt_live)
qed (use T in \<open>simp add: bfd_consume_echo_pkt_def bfd_find_session_by_disc_def\<close>)

lemma process_event_table:
  assumes "bfd_table_ok bm" and "clk_ok now"
  shows "\<exists>bm'. bfd_process_event_step env now ev bm = Some bm' \<and> bfd_steps bm bm'"
proof -
  have new: "\<exists>bm'. bfd_with_session (\<lambda>ctx. do {ctx \<leftarrow> bfd_send_periodic env now ctx; Some (bfd_set_timer now True ctx)}) i bm = Some bm'
      \<and> bfd_steps bm bm'" for i
  proof (rule with_session_table [OF assms(1)])
    fix bs assume "bfd_ctx_ok (bm, bs)"
    from send_periodic_keeps [OF this assms(2), of env] obtain c' where
      "bfd_send_periodic env now (bm, bs) = Some c'" "bfd_sends (bm, bs) c'" by blast
    then show "\<exists>bm' bs'. do {ctx \<leftarrow> bfd_send_periodic env now (bm, bs); Some (bfd_set_timer now True ctx)} = Some (bm', bs')
      \<and> bfd_ctx_ok (bm', bs') \<and> bfd_config bm' = bfd_config bm \<and> local_discr bs' = local_discr bs \<and> bs_idx bs' = bs_idx bs
      \<and> session_refs bs' = session_refs bs" using sends_table [OF sends_timer] by simp
  qed
  have cfg: "\<exists>bm'. bfd_with_session (\<lambda>ctx. Some (bfd_on_config_change now ctx)) i bm = Some bm' \<and> bfd_steps bm bm'" for i
    by (rule with_session_table [OF assms(1)]) (rule sends_table [OF on_config_change_keeps])
  show ?thesis using assms(1) new cfg
    by (cases ev) (auto simp: bfd_process_event_step_def split: bfd_process_event.split)
qed

lemma timeout_table:
  assumes "bfd_table_ok bm" and "clk_ok now"
  shows "\<exists>bm'. bfd_with_session (\<lambda>ctx. do {ctx \<leftarrow> bfd_on_timeout env now now' ctx; Some (bfd_set_timer now True ctx)}) i bm
      = Some bm' \<and> bfd_steps bm bm'"
proof (rule with_session_table [OF assms(1)])
  fix bs assume "bfd_ctx_ok (bm, bs)"
  from on_timeout_keeps [OF this assms(2), of env now'] obtain c' where
    c: "bfd_on_timeout env now now' (bm, bs) = Some c'" "bfd_ctx_ok c'" "bfd_config (fst c') = bfd_config bm"
      "\<exists>l d r. bfd_core (snd c') = (l, d, r, local_discr bs, remote_discr bs, bs_idx bs, session_refs bs)"
    by (auto simp: bfd_core_def split: if_splits)
  let ?c = "bfd_set_timer now True c'"
  have m: "bfd_config (fst ?c) = bfd_config (fst c')" "bfd_core (snd ?c) = bfd_core (snd c')"
    using set_timer_moves [of c' now True] moves_core [of c' ?c] by (simp_all add: bfd_moves_def)
  then show "\<exists>bm' bs'. do {ctx \<leftarrow> bfd_on_timeout env now now' (bm, bs); Some (bfd_set_timer now True ctx)} = Some (bm', bs')
    \<and> bfd_ctx_ok (bm', bs') \<and> bfd_config bm' = bfd_config bm \<and> local_discr bs' = local_discr bs \<and> bs_idx bs' = bs_idx bs
    \<and> session_refs bs' = session_refs bs"
    using c set_timer_ok [of now True c'] by (cases ?c) (auto simp: bfd_core_def simp del: set_timer_ok)
qed

lemma process_expired_table:
  "bfd_table_ok bm \<Longrightarrow> clk_ok now \<Longrightarrow> \<exists>bm'. bfd_process_expired env now expired bm = Some bm' \<and> bfd_steps bm bm'"
proof (induction env now expired bm rule: bfd_process_expired.induct)
  case (2 env now idx now' expired bm)
  from timeout_table [OF 2(2,3)] obtain bm' where b:
    "bfd_with_session (\<lambda>ctx. do {ctx \<leftarrow> bfd_on_timeout env now now' ctx; Some (bfd_set_timer now True ctx)}) idx bm = Some bm'"
    "bfd_table_ok bm'" "same_udp bm bm'" by blast
  show ?case using 2(1) [OF b(1,2) 2(3)] b(1) same_udp_trans [OF b(3)] by auto
qed simp

lemma process_round_table:
  assumes "bfd_table_ok bm" and "clk_ok now"
  shows "\<exists>bm'. bfd_process_round env now ev expired bm = Some bm' \<and> bfd_steps bm bm'"
proof -
  from process_event_table [OF assms, of env ev] obtain bm' where
    b: "bfd_process_event_step env now ev bm = Some bm'" "bfd_table_ok bm'" "same_udp bm bm'" by blast
  from process_expired_table [OF b(2) assms(2), of env expired] same_udp_trans [OF b(3)] b(1)
  show ?thesis by (auto simp: bfd_process_round_def)
qed

lemma set_flags_table:
  assumes "bfd_table_ok bm"
  shows "\<exists>bm'. bfd_with_session (bfd_session_set_flags now now' up) i bm = Some bm' \<and> bfd_steps bm bm'"
proof (rule with_session_table [OF assms])
  fix bs assume "bfd_ctx_ok (bm, bs)"
  from set_flags_keeps [OF this, of now now' up]
  show "\<exists>bm' bs'. bfd_session_set_flags now now' up (bm, bs) = Some (bm', bs') \<and> bfd_ctx_ok (bm', bs') \<and> bfd_config bm' = bfd_config bm
    \<and> local_discr bs' = local_discr bs \<and> bs_idx bs' = bs_idx bs \<and> session_refs bs' = session_refs bs"
    by (auto simp: bfd_core_def)
qed

lemma set_params_table:
  assumes "bfd_table_ok bm"
  shows "\<exists>bm'. bfd_with_session (bfd_session_set_params tx rx mult) i bm = Some bm' \<and> bfd_steps bm bm'"
proof (rule with_session_table [OF assms])
  fix bs assume "bfd_ctx_ok (bm, bs)"
  from set_params_keeps [OF this, of tx rx mult]
  show "\<exists>bm' bs'. bfd_session_set_params tx rx mult (bm, bs) = Some (bm', bs') \<and> bfd_ctx_ok (bm', bs') \<and> bfd_config bm' = bfd_config bm
    \<and> local_discr bs' = local_discr bs \<and> bs_idx bs' = bs_idx bs \<and> session_refs bs' = session_refs bs"
    by (auto simp: bfd_sends_def bfd_core_def)
qed

section \<open>Changes of keys\<close>

lemma store_auth_table:
  assumes T: "bfd_table_but X bm" and i: "i \<in> pool_live (sessions bm)" and keys: "counts_change (auth_keys bm) p"
    and refs: "\<And>k. table_refs (sessions bm) k + refs_of (bs\<lparr>bs_auth := a\<rparr>) k \<le> key_count (bm\<lparr>auth_keys := p\<rparr>) k + refs_of bs k"
    and bs: "bs = pool_vec (sessions bm) ! i"
  shows "bfd_table_but X (bfd_store_session i (bm\<lparr>auth_keys := p\<rparr>, bs\<lparr>bs_auth := a\<rparr>))"
proof (rule store_keys_ok [OF T i])
  let ?bm = "bm\<lparr>auth_keys := p\<rparr>"
  have "refs_of (bs\<lparr>bs_auth := a\<rparr>) k \<le> key_count ?bm k" for k
    using refs [of k] refs_le [OF i, of k] by (simp add: bs)
  then have "key_live ?bm (curr_key a) \<and> key_live ?bm (next_key a)" using refs_live [of "bs\<lparr>bs_auth := a\<rparr>" ?bm] by simp
  moreover have "bfd_ctx_ok (bm, bs)" if "i \<notin> X" using T i that by (simp add: bfd_table_but_def bs)
  ultimately show "i \<notin> X \<Longrightarrow> bfd_ctx_ok (bm\<lparr>auth_keys := auth_keys ?bm\<rparr>, bs\<lparr>bs_auth := a\<rparr>)"
    by (simp add: ctx_ok_keys) (simp add: bfd_ctx_ok_def bfd_base_ok_def bfd_rates_ok_def key_live_def)
qed (use keys refs in \<open>auto simp: bs\<close>)

lemma store_auth_ok:
  assumes T: "bfd_table_but X bm" and i: "i \<in> pool_live (sessions bm)" and keys: "counts_change (auth_keys bm) p"
    and refs: "\<And>k. table_refs (sessions bm) k + refs_of (bs\<lparr>bs_auth := a\<rparr>) k \<le> key_count (bm\<lparr>auth_keys := p\<rparr>) k + refs_of bs k"
    and bs: "bs = pool_vec (sessions bm) ! i"
  shows "bfd_steps_but X bm (bfd_store_session i (bm\<lparr>auth_keys := p\<rparr>, bs\<lparr>bs_auth := a\<rparr>))"
  using store_auth_table [OF assms] same_udp_store [OF i, of "bm\<lparr>auth_keys := p\<rparr>" "bs\<lparr>bs_auth := a\<rparr>"] bs by simp

lemma table_counts:
  "bfd_table_but X bm \<Longrightarrow> table_refs (sessions bm) k \<le> key_count bm k"
  by (simp add: bfd_table_but_def bfd_keys_ok_def)

lemma session_counts:
  assumes "bfd_table_but X bm" and "i \<in> pool_live (sessions bm)"
  shows "refs_of (pool_vec (sessions bm) ! i) k \<le> table_refs (sessions bm) k" "table_refs (sessions bm) k \<le> key_count bm k"
  using refs_le [OF assms(2)] table_counts [OF assms(1)] by auto

lemma counted:
  assumes "bfd_table_but X bm" and "i \<in> pool_live (sessions bm)"
    and "curr_key (bs_auth (pool_vec (sessions bm) ! i)) = Some k \<or> next_key (bs_auth (pool_vec (sessions bm) ! i)) = Some k"
  shows "0 < key_count bm k"
  using session_counts [OF assms(1,2), of k] assms(3) by (auto simp: refs_of_def split: if_splits)

lemma switch_table:
  assumes T: "bfd_table_but X bm" and i: "i \<in> pool_live (sessions bm)" and bs: "bs = pool_vec (sessions bm) ! i"
    and a: "bs_auth bs' = (bs_auth bs)\<lparr>remote_seq_number_known := n\<rparr>" "bs' = bs\<lparr>bs_auth := bs_auth bs'\<rparr>"
  shows "\<exists>c'. bfd_session_switch_auth_to_next (bm, bs') = Some c' \<and> bfd_steps_but X bm (bfd_store_session i c')"
proof -
  let ?a = "bs_auth bs"
  let ?a' = "?a\<lparr>remote_seq_number_known := n, is_delayed := 0, curr_key := next_key ?a, next_key := None, curr_bfd_key_id := next_bfd_key_id ?a\<rparr>"
  from key_release_ok [of "curr_key ?a" bm] counted [OF T i] obtain p where
    p: "key_release (curr_key ?a) bm = Some (bm\<lparr>auth_keys := p\<rparr>)" "counts_change (auth_keys bm) p"
      "\<And>k. key_count (bm\<lparr>auth_keys := p\<rparr>) k = key_count bm k - (if curr_key ?a = Some k then 1 else 0)"
    unfolding bs by blast
  have "bfd_session_switch_auth_to_next (bm, bs') = Some (bm\<lparr>auth_keys := p\<rparr>, bs\<lparr>bs_auth := ?a'\<rparr>)"
    using p(1) a(1) by (subst a(2)) (simp add: bfd_session_switch_auth_to_next_def Let_def a(1))
  moreover have "table_refs (sessions bm) k + refs_of (bs\<lparr>bs_auth := ?a'\<rparr>) k \<le> key_count (bm\<lparr>auth_keys := p\<rparr>) k + refs_of bs k" for k
    using session_counts [OF T i, of k] unfolding p(3) bs by (auto simp: refs_of_def)
  ultimately show ?thesis using store_auth_ok [OF T i p(2) _ bs] by blast
qed

text \<open>An activation takes a reference; the count must have room for it.\<close>

lemma activate_table:
  assumes T: "bfd_table_but X bm" and i: "i \<in> pool_live (sessions bm)" and bs: "bs = pool_vec (sessions bm) ! i"
    and room: "\<And>k. auth_key_by_conf_key_id bm conf = Some k \<Longrightarrow> key_count bm k < 2 ^ 32 - 1"
  shows "\<exists>e c'. bfd_auth_activate conf kid delayed (bm, bs) = Some (e, c') \<and> bfd_steps_but X bm (bfd_store_session i c')
    \<and> (e = API_OK \<longleftrightarrow> auth_key_by_conf_key_id bm conf \<noteq> None)"
proof -
  have "bs\<lparr>bs_auth := bs_auth bs\<rparr> = bs" "bm\<lparr>auth_keys := auth_keys bm\<rparr> = bm" by simp_all
  then have same: "bfd_steps_but X bm (bfd_store_session i (bm, bs))"
    using store_auth_ok [OF T i counts_change_refl, where a = "bs_auth bs" and bs = bs, OF _ bs] table_counts [OF T] by simp
  show ?thesis
  proof (cases "auth_key_by_conf_key_id bm conf")
    case None
    then show ?thesis using same by (simp add: bfd_auth_activate_def)
  next
    case (Some k)
    let ?a = "bs_auth bs"
    have k: "k \<in> pool_live (auth_keys bm)" using T Some by (simp add: bfd_table_but_def bfd_keys_ok_def)
    show ?thesis
    proof (cases "delayed = 0")
      case True
      show ?thesis
      proof (cases "curr_key ?a = Some k")
        case False
        from key_release_ok [of "curr_key ?a" bm] counted [OF T i] obtain p where
          p: "key_release (curr_key ?a) bm = Some (bm\<lparr>auth_keys := p\<rparr>)" "counts_change (auth_keys bm) p"
            "\<And>j. key_count (bm\<lparr>auth_keys := p\<rparr>) j = key_count bm j - (if curr_key ?a = Some j then 1 else 0)"
          unfolding bs by blast
        from p(2) k have "k \<in> pool_live (auth_keys (bm\<lparr>auth_keys := p\<rparr>))" by (simp add: counts_change_def)
        moreover have "key_count (bm\<lparr>auth_keys := p\<rparr>) k < 2 ^ 32 - 1" using room [OF Some] p(3) [of k] by auto
        ultimately have "\<exists>q. auth_key_update k (\<lambda>key. key\<lparr>use_count := use_count key + 1\<rparr>) (bm\<lparr>auth_keys := p\<rparr>)
              = Some (bm\<lparr>auth_keys := q\<rparr>) \<and> counts_change p q
            \<and> (\<forall>j. key_count (bm\<lparr>auth_keys := q\<rparr>) j = key_count (bm\<lparr>auth_keys := p\<rparr>) j + (if j = k then 1 else 0))"
          using key_take_ok [of k "bm\<lparr>auth_keys := p\<rparr>"] by simp
        then obtain q where
          q: "auth_key_update k (\<lambda>key. key\<lparr>use_count := use_count key + 1\<rparr>) (bm\<lparr>auth_keys := p\<rparr>) = Some (bm\<lparr>auth_keys := q\<rparr>)"
            "counts_change p q"
            "\<And>j. key_count (bm\<lparr>auth_keys := q\<rparr>) j = key_count (bm\<lparr>auth_keys := p\<rparr>) j + (if j = k then 1 else 0)"
          by blast
        let ?a' = "?a\<lparr>curr_key := Some k, curr_bfd_key_id := kid, is_delayed := 0\<rparr>"
        have "table_refs (sessions bm) j + refs_of (bs\<lparr>bs_auth := ?a'\<rparr>) j \<le> key_count (bm\<lparr>auth_keys := q\<rparr>) j + refs_of bs j" for j
          using session_counts [OF T i, of j] unfolding q(3) p(3) bs by (auto simp: refs_of_def)
        then have "bfd_steps_but X bm (bfd_store_session i (bm\<lparr>auth_keys := q\<rparr>, bs\<lparr>bs_auth := ?a'\<rparr>))"
          using store_auth_ok [OF T i counts_change_trans [OF p(2) q(2)] _ bs] by blast
        then show ?thesis using True False Some p(1) q(1) by (simp add: bfd_auth_activate_def Let_def)
      qed (use same True Some in \<open>simp add: bfd_auth_activate_def Let_def\<close>)
    next
      case False
      show ?thesis
      proof (cases "next_key ?a = Some k")
        case nk: False
        from key_take_ok [OF k room [OF Some]] obtain q where
          q: "auth_key_update k (\<lambda>key. key\<lparr>use_count := use_count key + 1\<rparr>) bm = Some (bm\<lparr>auth_keys := q\<rparr>)"
            "counts_change (auth_keys bm) q" "\<And>j. key_count (bm\<lparr>auth_keys := q\<rparr>) j = key_count bm j + (if j = k then 1 else 0)"
          by blast
        let ?a' = "?a\<lparr>next_key := Some k, next_bfd_key_id := kid, is_delayed := 1\<rparr>"
        have "table_refs (sessions bm) j + refs_of (bs\<lparr>bs_auth := ?a'\<rparr>) j \<le> key_count (bm\<lparr>auth_keys := q\<rparr>) j + refs_of bs j" for j
          using session_counts [OF T i, of j] unfolding q(3) bs by (auto simp: refs_of_def)
        then have "bfd_steps_but X bm (bfd_store_session i (bm\<lparr>auth_keys := q\<rparr>, bs\<lparr>bs_auth := ?a'\<rparr>))"
          using store_auth_ok [OF T i q(2) _ bs] by blast
        then show ?thesis using False nk Some q(1) by (simp add: bfd_auth_activate_def Let_def)
      qed (use same False Some in \<open>simp add: bfd_auth_activate_def Let_def\<close>)
    qed
  qed
qed

lemma deactivate_table:
  assumes T: "bfd_table_but X bm" and i: "i \<in> pool_live (sessions bm)" and bs: "bs = pool_vec (sessions bm) ! i"
  shows "\<exists>c'. bfd_auth_deactivate delayed (bm, bs) = Some (API_OK, c') \<and> bfd_steps_but X bm (bfd_store_session i c')"
proof -
  let ?a = "bs_auth bs"
  define a' where "a' = (if delayed = 0 then ?a\<lparr>curr_key := None, is_delayed := 0\<rparr> else ?a\<lparr>is_delayed := 1\<rparr>)"
  define g where "g = (if delayed = 0 then curr_key ?a else None)"
  from key_release_ok [of g bm] counted [OF T i] obtain p where
    p: "key_release g bm = Some (bm\<lparr>auth_keys := p\<rparr>)" "counts_change (auth_keys bm) p"
      "\<And>k. key_count (bm\<lparr>auth_keys := p\<rparr>) k = key_count bm k - (if g = Some k then 1 else 0)"
    unfolding bs g_def by (metis (no_types, lifting) option.distinct(1))
  have c: "0 < key_count (bm\<lparr>auth_keys := p\<rparr>) k" if "next_key ?a = Some k" for k
    using session_counts [OF T i, of k] that unfolding p(3) bs [symmetric] by (auto simp: refs_of_def g_def split: if_splits)
  from key_release_ok [of "next_key ?a" "bm\<lparr>auth_keys := p\<rparr>"] c obtain q where
    q: "key_release (next_key ?a) (bm\<lparr>auth_keys := p\<rparr>) = Some (bm\<lparr>auth_keys := q\<rparr>)" "counts_change p q"
      "\<And>k. key_count (bm\<lparr>auth_keys := q\<rparr>) k = key_count (bm\<lparr>auth_keys := p\<rparr>) k - (if next_key ?a = Some k then 1 else 0)"
    by auto
  have "table_refs (sessions bm) k + refs_of (bs\<lparr>bs_auth := a'\<lparr>next_key := None\<rparr>\<rparr>) k \<le> key_count (bm\<lparr>auth_keys := q\<rparr>) k + refs_of bs k" for k
    using session_counts [OF T i, of k] unfolding q(3) p(3) bs [symmetric] by (auto simp: refs_of_def g_def a'_def)
  then have "bfd_steps_but X bm (bfd_store_session i (bm\<lparr>auth_keys := q\<rparr>, bs\<lparr>bs_auth := a'\<lparr>next_key := None\<rparr>\<rparr>))"
    using store_auth_ok [OF T i counts_change_trans [OF p(2) q(2)] _ bs] by blast
  moreover have "next_key a' = next_key ?a" by (simp add: a'_def)
  then have "bfd_auth_deactivate delayed (bm, bs) = Some (API_OK, bm\<lparr>auth_keys := q\<rparr>, bs\<lparr>bs_auth := a'\<lparr>next_key := None\<rparr>\<rparr>)"
  proof (cases "delayed = 0")
    case True
    then show ?thesis using p(1) q(1) by (simp add: bfd_auth_deactivate_def Let_def a'_def g_def)
  next
    case False
    then have e: "bm\<lparr>auth_keys := p\<rparr> = bm" using p(1) by (simp add: g_def key_release_def)
    show ?thesis using False q(1) unfolding e by (simp add: bfd_auth_deactivate_def Let_def a'_def)
  qed
  ultimately show ?thesis by blast
qed

text \<open>Verification changes the session only in whether the sequence number is known, unless it switches keys.\<close>

definition seq_only :: "bfd_session \<Rightarrow> bfd_session \<Rightarrow> bool" where
  "seq_only bs bs' \<longleftrightarrow> (\<exists>n. bs' = bs\<lparr>bs_auth := (bs_auth bs)\<lparr>remote_seq_number_known := n\<rparr>\<rparr>)"

lemma seq_only_refl [simp]: "seq_only bs bs"
  unfolding seq_only_def by (intro exI [of _ "remote_seq_number_known (bs_auth bs)"]) simp

lemma seq_only_trans: "seq_only a b \<Longrightarrow> seq_only b c \<Longrightarrow> seq_only a c"
  by (auto simp: seq_only_def)

lemma verify_key_seq: "seq_only bs (snd (bfd_verify_pkt_auth_key env now f len kid key bs))"
proof -
  have "snd (bfd_verify_pkt_auth_key env now f len kid key bs) = bs
      \<or> snd (bfd_verify_pkt_auth_key env now f len kid key bs) = bs\<lparr>bs_auth := (bs_auth bs)\<lparr>remote_seq_number_known := 0\<rparr>\<rparr>"
    by (simp add: bfd_verify_pkt_auth_key_def bfd_verify_pkt_auth_seq_num_def Let_def)
  then show ?thesis by (elim disjE) (simp only: seq_only_refl, unfold seq_only_def, blast)
qed

lemma seq_only_table:
  assumes T: "bfd_table_but X bm" and i: "i \<in> pool_live (sessions bm)" and s: "seq_only (pool_vec (sessions bm) ! i) bs'"
  shows "bfd_steps_but X bm (bfd_store_session i (bm, bs'))"
    and "\<exists>c'. bfd_session_switch_auth_to_next (bm, bs') = Some c' \<and> bfd_steps_but X bm (bfd_store_session i c')"
proof -
  let ?bs = "pool_vec (sessions bm) ! i"
  obtain n where n: "bs' = ?bs\<lparr>bs_auth := (bs_auth ?bs)\<lparr>remote_seq_number_known := n\<rparr>\<rparr>" using s by (auto simp: seq_only_def)
  have "bm\<lparr>auth_keys := auth_keys bm\<rparr> = bm" by simp
  then show "bfd_steps_but X bm (bfd_store_session i (bm, bs'))"
    using store_auth_ok [OF T i counts_change_refl, where a = "(bs_auth ?bs)\<lparr>remote_seq_number_known := n\<rparr>", OF _ refl]
      table_counts [OF T] by (simp add: n refs_of_def)
  show "\<exists>c'. bfd_session_switch_auth_to_next (bm, bs') = Some c' \<and> bfd_steps_but X bm (bfd_store_session i c')"
    by (rule switch_table [OF T i refl, of _ n]) (simp_all add: n)
qed

lemma verify_auth_table:
  assumes T: "bfd_table_ok bm" and i: "i \<in> pool_live (sessions bm)"
  shows "\<exists>ok c'. bfd_verify_pkt_auth env now now' f len (bm, pool_vec (sessions bm) ! i) = Some (ok, c')
    \<and> bfd_steps bm (bfd_store_session i c')"
proof -
  let ?bs = "pool_vec (sessions bm) ! i"
  let ?a = "bs_auth ?bs"
  have live: "\<exists>key. pool_elt_at_index (auth_keys bm) k = Some key" if "curr_key ?a = Some k \<or> next_key ?a = Some k" for k
    using key_count_live [OF counted [OF T i that]] by (simp add: pool_elt_live)
  note keep = seq_only_table [OF T i]
  define alt where "alt = (\<lambda>now bs. case next_key ?a of
      None \<Rightarrow> Some (False, bm, bs)
    | Some i \<Rightarrow>
      if is_delayed ?a = 0 then Some (False, bm, bs)
      else do {
        key \<leftarrow> pool_elt_at_index (auth_keys bm) i;
        let (ok, bs) = bfd_verify_pkt_auth_key env now f len (next_bfd_key_id ?a) key bs;
        if ok then do {ctx \<leftarrow> bfd_session_switch_auth_to_next (bm, bs); Some (True, ctx)}
        else Some (False, bm, bs)})"
  have t: "\<exists>ok c'. alt n bs = Some (ok, c') \<and> bfd_steps bm (bfd_store_session i c')" if s: "seq_only ?bs bs" for n bs
  proof (cases "next_key ?a = None \<or> is_delayed ?a = 0")
    case True
    then show ?thesis using keep(1) [OF s] by (auto simp: alt_def split: option.split)
  next
    case False
    then obtain k where nk: "next_key ?a = Some k" by auto
    then obtain key where k: "next_key ?a = Some k" "pool_elt_at_index (auth_keys bm) k = Some key" using live by blast
    obtain ok bs' where v: "bfd_verify_pkt_auth_key env n f len (next_bfd_key_id ?a) key bs = (ok, bs')" by fastforce
    have s': "seq_only ?bs bs'" using seq_only_trans [OF s verify_key_seq [of bs env n f len "next_bfd_key_id ?a" key]] by (simp add: v)
    then show ?thesis using keep [OF s'] False by (auto simp: alt_def k v)
  qed
  have e: "bfd_verify_pkt_auth env now now' f len (bm, ?bs) =
    (if bfd_pkt_get_auth_present (frame_pkt f) \<noteq> 0
     then case curr_key ?a of
         None \<Rightarrow> alt now' ?bs
       | Some k \<Rightarrow> do {
           key \<leftarrow> pool_elt_at_index (auth_keys bm) k;
           let (ok, bs) = bfd_verify_pkt_auth_key env now f len (curr_bfd_key_id ?a) key ?bs;
           if ok then Some (True, bm, bs) else alt now' bs}
     else if sizeof_bfd_pkt < len then Some (False, bm, ?bs)
     else if curr_key ?a \<noteq> None
     then if is_delayed ?a \<noteq> 0 \<and> next_key ?a = None
          then do {ctx \<leftarrow> bfd_session_switch_auth_to_next (bm, ?bs); Some (True, ctx)}
          else Some (False, bm, ?bs)
     else Some (True, bm, ?bs))"
    unfolding bfd_verify_pkt_auth_def Let_def prod.case alt_def by (rule refl)
  show ?thesis
  proof (cases "bfd_pkt_get_auth_present (frame_pkt f) = 0")
    case True
    then show ?thesis unfolding e using keep [OF seq_only_refl] by auto
  next
    case False
    show ?thesis
    proof (cases "curr_key ?a")
      case None
      then show ?thesis unfolding e using False t [OF seq_only_refl] by simp
    next
      case (Some k)
      then obtain key where k: "pool_elt_at_index (auth_keys bm) k = Some key" using live by blast
      obtain ok bs' where v: "bfd_verify_pkt_auth_key env now f len (curr_bfd_key_id ?a) key ?bs = (ok, bs')" by fastforce
      have s': "seq_only ?bs bs'" using verify_key_seq [of ?bs env now f len "curr_bfd_key_id ?a" key] by (simp add: v)
      show ?thesis unfolding e using False Some k v keep(1) [OF s'] t [OF s'] by (cases ok) auto
    qed
  qed
qed

text \<open>Keys that are in use are neither modified nor deleted.\<close>

lemma set_key_unused:
  assumes T: "bfd_table_ok bm" and "auth_key_by_conf_key_id bm conf = Some k" and "0 < table_refs (sessions bm) k"
  shows "bfd_auth_del_key conf bm = Some (VNET_API_ERROR_BFD_EINUSE, bm)
    \<and> (key_len \<noteq> 0 \<and> ucast key_len \<le> bfd_max_key_len_for_auth_type typ \<and> bfd_auth_type_supported typ \<longrightarrow>
       bfd_auth_set_key memory moves conf typ key_len data bm = Some (VNET_API_ERROR_BFD_EINUSE, bm))"
proof -
  have "0 < key_count bm k" using table_counts [OF T, of k] assms(3) by simp
  then have l: "k \<in> pool_live (auth_keys bm)" by (rule key_count_live)
  then have "0 < unat (use_count (pool_vec (auth_keys bm) ! k))"
    using \<open>0 < key_count bm k\<close> by (simp add: key_count_def pool_elt_live)
  then have u: "0 < use_count (pool_vec (auth_keys bm) ! k)" by (simp add: word_less_nat_alt)
  show ?thesis using assms(2) l u by (auto simp: bfd_auth_del_key_def bfd_auth_set_key_def pool_elt_live not_less)
qed

text \<open>A change of the keys that keeps the counts of the keys in use.\<close>

lemma keys_changed_table:
  assumes T: "bfd_table_ok bm" and K: "bfd_keys_ok (bm\<lparr>auth_keys := p, auth_key_by_conf_key_id := m\<rparr>)"
  shows "bfd_table_ok (bm\<lparr>auth_keys := p, auth_key_by_conf_key_id := m\<rparr>)"
proof -
  let ?bm = "bm\<lparr>auth_keys := p, auth_key_by_conf_key_id := m\<rparr>"
  have "bfd_ctx_ok (?bm, pool_vec (sessions bm) ! i)" if i: "i \<in> pool_live (sessions bm)" for i
  proof -
    have "refs_of (pool_vec (sessions bm) ! i) j \<le> key_count ?bm j" for j
      using refs_le [OF i, of j] K by (simp add: bfd_keys_ok_def) (meson order_trans)
    then have "key_live ?bm (curr_key (bs_auth (pool_vec (sessions bm) ! i))) \<and> key_live ?bm (next_key (bs_auth (pool_vec (sessions bm) ! i)))"
      by (rule refs_live)
    then show ?thesis using table_live [OF T i]
      by (simp add: ctx_ok_keys) (simp add: bfd_ctx_ok_def bfd_base_ok_def bfd_rates_ok_def key_live_def)
  qed
  then show ?thesis using T K by (auto simp: bfd_table_but_def)
qed

lemma del_key_table:
  assumes T: "bfd_table_ok bm"
  shows "\<exists>e bm'. bfd_auth_del_key conf bm = Some (e, bm') \<and> bfd_steps bm bm'"
proof (cases "auth_key_by_conf_key_id bm conf")
  case None
  then show ?thesis using T by (simp add: bfd_auth_del_key_def)
next
  case (Some k)
  let ?A = "auth_keys bm"
  have k: "k \<in> pool_live ?A" "conf_key_id (pool_vec ?A ! k) = conf" "pool_ok ?A"
    using T Some by (auto simp: bfd_table_but_def bfd_keys_ok_def)
  show ?thesis
  proof (cases "0 < use_count (pool_vec ?A ! k)")
    case True
    then show ?thesis using T Some k by (simp add: bfd_auth_del_key_def pool_elt_live)
  next
    case False
    then have z: "key_count bm k = 0" by (simp add: key_count_def pool_elt_live word_less_nat_alt)
    let ?z = "\<lparr>conf_key_id = 0, use_count = 0, key_data = replicate 20 0, key_auth_type = 0\<rparr>"
    from pool_put_live [of "pool_store ?A k ?z" k] k obtain p where
      p: "pool_put_index (pool_store ?A k ?z) k = Some p" "pool_ok p" "pool_live p = pool_live ?A - {k}"
        "pool_vec p = (pool_vec ?A)[k := ?z]" using put_index_vec by fastforce
    let ?bm = "bm\<lparr>auth_keys := p, auth_key_by_conf_key_id := (auth_key_by_conf_key_id bm)(conf := None)\<rparr>"
    have d: "bfd_auth_del_key conf bm = Some (API_OK, ?bm)"
      using Some False k(1) p(1) by (simp add: bfd_auth_del_key_def pool_elt_live key_update_eq)
    have C: "key_count ?bm j = key_count bm j" for j
      using z k(1) by (auto simp: key_count_def pool_elt_live p(3,4))
    have "bfd_keys_ok ?bm"
      using T k p(2) live_length [OF k(1)] unfolding bfd_keys_ok_def bfd_table_but_def C by (auto simp: p(3,4) nth_list_update)
    then have "bfd_table_ok ?bm" by (rule keys_changed_table [OF T])
    then show ?thesis using d by (simp add: same_udp_def)
  qed
qed

lemma set_key_table:
  assumes T: "bfd_table_ok bm" and M: "moves \<longrightarrow> \<not> bfd_keys_referenced bm"
  shows "\<exists>e bm'. bfd_auth_set_key memory moves conf typ key_len data bm = Some (e, bm') \<and> bfd_steps bm bm'"
proof -
  let ?A = "auth_keys bm"
  have A: "pool_ok ?A" and C: "\<And>c i. auth_key_by_conf_key_id bm c = Some i \<Longrightarrow> i \<in> pool_live ?A \<and> conf_key_id (pool_vec ?A ! i) = c"
    and R: "\<And>i. table_refs (sessions bm) i \<le> key_count bm i" using T by (auto simp: bfd_table_but_def bfd_keys_ok_def)
  define g where "g = (\<lambda>key :: bfd_auth_key. key\<lparr>key_auth_type := typ, key_data := take (unat key_len) data @ replicate (20 - unat key_len) 0\<rparr>)"
  have g: "conf_key_id (g key) = conf_key_id key" "use_count (g key) = use_count key" for key by (simp_all add: g_def)
  consider (bad) "key_len = 0 \<or> bfd_max_key_len_for_auth_type typ < ucast key_len" | (unsupported) "\<not> bfd_auth_type_supported typ"
    | (good) "\<not> (key_len = 0 \<or> bfd_max_key_len_for_auth_type typ < ucast key_len)" "bfd_auth_type_supported typ" by blast
  then show ?thesis
  proof cases
    case good
    have m: "\<not> (moves \<and> free_indices ?A = [] \<and> bfd_keys_referenced bm)" using M by blast
    have e: "bfd_auth_set_key memory moves conf typ key_len data bm =
      (case auth_key_by_conf_key_id bm conf of
         Some i \<Rightarrow> do {
           key \<leftarrow> pool_elt_at_index ?A i;
           if 0 < use_count key then Some (VNET_API_ERROR_BFD_EINUSE, bm)
           else do {bm \<leftarrow> auth_key_update i g bm; Some (API_OK, bm)}}
       | None \<Rightarrow> let (p, i) = pool_get memory ?A
           in do {
             bm \<leftarrow> auth_key_update i (\<lambda>key. g (key\<lparr>conf_key_id := conf\<rparr>))
               (bm\<lparr>auth_keys := p, auth_key_by_conf_key_id := (auth_key_by_conf_key_id bm)(conf \<mapsto> i)\<rparr>);
             Some (API_OK, bm)})"
      unfolding bfd_auth_set_key_def Let_def g_def if_not_P [OF good(1)] if_not_P [OF m] using good(2) by simp
    show ?thesis
    proof (cases "auth_key_by_conf_key_id bm conf")
      case (Some i)
      have i: "i \<in> pool_live ?A" using C [OF Some] by simp
      let ?p = "pool_store ?A i (g (pool_vec ?A ! i))"
      have "key_count (bm\<lparr>auth_keys := ?p\<rparr>) j = key_count bm j" for j
        using live_length [OF i] by (simp add: key_count_def pool_elt_live nth_list_update g)
      then have "bfd_keys_ok (bm\<lparr>auth_keys := ?p\<rparr>)"
        using A C R live_length [OF i] by (auto simp: bfd_keys_ok_def nth_list_update g)
      then have "bfd_table_ok (bm\<lparr>auth_keys := ?p\<rparr>)"
        using keys_changed_table [OF T, where p = ?p and m = "auth_key_by_conf_key_id bm"] by simp
      then show ?thesis using Some i T by (simp add: e pool_elt_live key_update_eq same_udp_def)
    next
      case None
      obtain p i where p: "pool_get memory ?A = (p, i)" by fastforce
      have pk: "pool_ok p" "i \<notin> pool_live ?A" "pool_live p = insert i (pool_live ?A)" using pool_get_ok_live [OF A p] by auto
      have old: "pool_vec p ! j = pool_vec ?A ! j" if "j \<in> pool_live ?A" for j
        using pool_get_frame [OF A p that] that pk(3) by (simp add: pool_elt_live)
      let ?q = "pool_store p i (g ((pool_vec p ! i)\<lparr>conf_key_id := conf\<rparr>))"
      let ?bm = "bm\<lparr>auth_keys := ?q, auth_key_by_conf_key_id := (auth_key_by_conf_key_id bm)(conf \<mapsto> i)\<rparr>"
      have ip: "i \<in> pool_live p" using pk(3) by simp
      have cnt: "key_count bm j \<le> key_count ?bm j" for j
        using pk(2) old live_length [OF ip] by (auto simp: key_count_def pool_elt_live pk(3) nth_list_update)
      have "bfd_keys_ok ?bm" unfolding bfd_keys_ok_def
      proof (intro conjI allI impI)
        show "table_refs (sessions ?bm) j \<le> key_count ?bm j" for j using R [of j] cnt [of j] by simp
        show "j \<in> pool_live (auth_keys ?bm)" "conf_key_id (pool_vec (auth_keys ?bm) ! j) = c"
          if "auth_key_by_conf_key_id ?bm c = Some j" for c j
          using that C [of c j] old [of j] pk(2) live_length [OF ip]
          by (auto simp: pk(3) nth_list_update g split: if_splits)
      qed (use pk(1) in simp)
      then have "bfd_table_ok ?bm" by (rule keys_changed_table [OF T])
      moreover have "auth_key_update i (\<lambda>key. g (key\<lparr>conf_key_id := conf\<rparr>))
          (bm\<lparr>auth_keys := p, auth_key_by_conf_key_id := (auth_key_by_conf_key_id bm)(conf \<mapsto> i)\<rparr>) = Some ?bm"
        using ip by (simp add: key_update_eq)
      ultimately show ?thesis unfolding e None by (simp add: same_udp_def p)
    qed
  qed (use T in \<open>auto simp: bfd_auth_set_key_def\<close>)
qed

end
