(* ===== verification/Bfd_Alloc.thy ===== *)
theory Bfd_Alloc
  imports Bfd_Table
begin

text \<open>
  Allocation and release of BFD sessions. The discriminators come from a linear congruential generator of
  full period, so the draws of one search are distinct and a table of at most 1000 sessions always has a
  free one among them. A new session belongs to the table, and is not started yet.
\<close>

section \<open>The generator\<close>

fun lcg_sum :: "nat \<Rightarrow> nat" where
  "lcg_sum 0 = 0"
| "lcg_sum (Suc k) = 1 + 1664525 * lcg_sum k"

lemma random_iterate: "(random_u32 ^^ k) x = x + of_nat (lcg_sum k) * (1664524 * x + 1013904223)"
  by (induction k) (simp_all add: random_u32_def algebra_simps)

lemma lcg_sum_add: "lcg_sum (m + n) = lcg_sum n + 1664525 ^ n * lcg_sum m"
proof (induction n)
  case (Suc n)
  then show ?case by (simp add: algebra_simps)
qed simp

lemma lcg_sum_double: "lcg_sum (2 * m) = (1 + 1664525 ^ m) * lcg_sum m"
  using lcg_sum_add [of m m] by (simp add: mult_2 distrib_right)

lemma lcg_sum_even: "even (lcg_sum k) \<longleftrightarrow> even k"
  by (induction k) simp_all

lemma power_mod_4: "(1664525 :: nat) ^ m mod 4 = 1"
  using power_mod [of "1664525 :: nat" 4 m] by simp

lemma lcg_sum_dvd: "2 ^ j dvd lcg_sum k \<Longrightarrow> 2 ^ j dvd k"
proof (induction j arbitrary: k)
  case (Suc j)
  have "even (lcg_sum k)" using Suc.prems by (rule dvd_trans [rotated]) simp
  then obtain m where k: "k = 2 * m" using lcg_sum_even by (auto elim: evenE)
  have "(1 + 1664525 ^ m) mod 4 = (2 :: nat)" using power_mod_4 [of m] by presburger
  then have "\<exists>q. 1 + 1664525 ^ m = 2 * q \<and> odd (q :: nat)" by presburger
  then obtain q where q: "1 + 1664525 ^ m = 2 * q" and odd: "odd (q :: nat)" by blast
  have "lcg_sum k = 2 * (q * lcg_sum m)" unfolding k lcg_sum_double q by simp
  then have "2 * 2 ^ j dvd 2 * (q * lcg_sum m)" using Suc.prems by simp
  then have "2 ^ j dvd q * lcg_sum m" by simp
  moreover have "coprime (2 ^ j) q" using odd by simp
  ultimately have "2 ^ j dvd lcg_sum m" by (simp add: coprime_dvd_mult_right_iff)
  then show ?case using Suc.IH by (simp add: k)
qed simp

lemma random_period:
  assumes "(random_u32 ^^ k) x = x"
  shows "2 ^ 32 dvd k"
proof (rule lcg_sum_dvd)
  let ?y = "1664524 * x + 1013904223 :: u32"
  have "of_nat (lcg_sum k) * ?y = 0" using assms by (simp add: random_iterate)
  then have "(of_nat (lcg_sum k * unat ?y) :: u32) = 0" by simp
  then have "2 ^ 32 dvd lcg_sum k * unat ?y" by (simp only: word_of_nat_eq_0_iff) simp
  moreover have "bit ?y 0" by (simp add: bit_0)
  then have "odd (unat ?y)" by (simp only: bit_unsigned_iff flip: bit_0) simp
  then have "coprime (2 ^ 32) (unat ?y)" by (simp only: coprime_power_left_iff coprime_left_2_iff_odd) simp
  ultimately show "2 ^ 32 dvd lcg_sum k" by (simp add: coprime_dvd_mult_left_iff)
qed

lemma random_draws_distinct:
  assumes "i < j" and "j \<le> i + 1000"
  shows "(random_u32 ^^ i) x \<noteq> (random_u32 ^^ j) x"
proof
  assume e: "(random_u32 ^^ i) x = (random_u32 ^^ j) x"
  have "(random_u32 ^^ (j - i)) ((random_u32 ^^ i) x) = (random_u32 ^^ j) x"
    using assms by (simp add: funpow_add [symmetric, THEN fun_cong, simplified comp_def])
  then have "2 ^ 32 dvd j - i" using random_period e by metis
  then show False using assms by (auto dest!: dvd_imp_le)
qed

section \<open>The search for a discriminator\<close>

lemma pick_discr_cases:
  "\<exists>d s. bfd_pick_discr n used x = (d, s) \<and>
    (case d of Some d \<Rightarrow> used d = None | None \<Rightarrow> \<forall>k<n. used ((random_u32 ^^ Suc k) x) \<noteq> None)"
proof (induction n arbitrary: x)
  case (Suc n)
  obtain d s where "bfd_pick_discr n used (random_u32 x) = (d, s)"
    "case d of Some d \<Rightarrow> used d = None | None \<Rightarrow> \<forall>k<n. used ((random_u32 ^^ Suc k) (random_u32 x)) \<noteq> None"
    using Suc by blast
  then show ?case
    by (auto simp: Let_def funpow_swap1 less_Suc_eq_0_disj split: option.splits)
qed simp

lemma pick_discr_found:
  assumes "finite (dom used)" and "card (dom used) \<le> 1000"
  shows "\<exists>d s. bfd_pick_discr 1001 used x = (Some d, s) \<and> used d = None"
proof -
  obtain d s where c: "bfd_pick_discr 1001 used x = (d, s)"
    "case d of Some d \<Rightarrow> used d = None | None \<Rightarrow> \<forall>k<1001. used ((random_u32 ^^ Suc k) x) \<noteq> None"
    using pick_discr_cases by blast
  have "d \<noteq> None"
  proof
    assume "d = None"
    then have "(\<lambda>k. (random_u32 ^^ Suc k) x) ` {..<1001} \<subseteq> dom used" using c(2) by auto
    moreover have "inj_on (\<lambda>k. (random_u32 ^^ Suc k) x) {..<1001}"
    proof (rule linorder_inj_onI)
      fix i j :: nat
      assume "i < j" "i \<in> {..<1001}" "j \<in> {..<1001}"
      then show "(random_u32 ^^ Suc i) x \<noteq> (random_u32 ^^ Suc j) x"
        using random_draws_distinct [of "Suc i" "Suc j" x] by simp
    qed (rule linear)
    ultimately have "card {..<1001 :: nat} \<le> card (dom used)" using assms(1) by (intro card_inj_on_le)
    then show False using assms(2) by simp
  qed
  then show ?thesis using c by auto
qed

section \<open>Release of a session\<close>

text \<open>Discriminators identify sessions.\<close>

lemma discr_unique:
  assumes "bfd_table_but X bm" and "i \<in> pool_live (sessions bm)" and "j \<in> pool_live (sessions bm)"
    and "local_discr (pool_vec (sessions bm) ! i) = local_discr (pool_vec (sessions bm) ! j)"
  shows "i = j"
proof -
  have "session_by_disc bm (local_discr (pool_vec (sessions bm) ! i)) = Some i"
    "session_by_disc bm (local_discr (pool_vec (sessions bm) ! j)) = Some j" using assms(1-3) by (simp_all add: bfd_table_but_def)
  then have "Some i = Some j" unfolding assms(4) by (rule trans [OF sym])
  then show ?thesis by simp
qed

lemma put_session_table:
  assumes T: "bfd_table_but X bm" and i: "i \<in> pool_live (sessions bm)"
  shows "\<exists>p q. bfd_put_session i bm = Some (bm\<lparr>auth_keys := q, session_by_disc :=
      (session_by_disc bm)(local_discr (pool_vec (sessions bm) ! i) := None), sessions := p\<rparr>)
    \<and> pool_live p = pool_live (sessions bm) - {i} \<and> pool_vec p = pool_vec (sessions bm) \<and> counts_change (auth_keys bm) q
    \<and> bfd_table_but (X - {i}) (bm\<lparr>auth_keys := q, session_by_disc :=
      (session_by_disc bm)(local_discr (pool_vec (sessions bm) ! i) := None), sessions := p\<rparr>)"
proof -
  let ?bs = "pool_vec (sessions bm) ! i"
  let ?a = "bs_auth ?bs"
  from key_release_ok [of "curr_key ?a" bm] counted [OF T i] obtain p where
    p: "key_release (curr_key ?a) bm = Some (bm\<lparr>auth_keys := p\<rparr>)" "counts_change (auth_keys bm) p"
      "\<And>k. key_count (bm\<lparr>auth_keys := p\<rparr>) k = key_count bm k - (if curr_key ?a = Some k then 1 else 0)"
    by (metis (no_types, lifting))
  have c: "0 < key_count (bm\<lparr>auth_keys := p\<rparr>) k" if "next_key ?a = Some k" for k
    using session_counts [OF T i, of k] that unfolding p(3) by (auto simp: refs_of_def split: if_splits)
  from key_release_ok [of "next_key ?a" "bm\<lparr>auth_keys := p\<rparr>"] c obtain q where
    q: "key_release (next_key ?a) (bm\<lparr>auth_keys := p\<rparr>) = Some (bm\<lparr>auth_keys := q\<rparr>)" "counts_change p q"
      "\<And>k. key_count (bm\<lparr>auth_keys := q\<rparr>) k = key_count (bm\<lparr>auth_keys := p\<rparr>) k - (if next_key ?a = Some k then 1 else 0)"
    by auto
  have S: "pool_ok (sessions bm)" using T by (simp add: bfd_table_but_def)
  from pool_put_live [OF S i] obtain r where r: "pool_put_index (sessions bm) i = Some r" "pool_ok r"
      "pool_live r = pool_live (sessions bm) - {i}" "pool_vec r = pool_vec (sessions bm)" using put_index_vec by fastforce
  let ?bm = "bm\<lparr>auth_keys := q, session_by_disc := (session_by_disc bm)(local_discr ?bs := None), sessions := r\<rparr>"
  have e: "bfd_put_session i bm = Some ?bm" using i p(1) q(1) r(1) by (simp add: bfd_put_session_def pool_elt_live)
  have cc: "counts_change (auth_keys bm) q" using p(2) q(2) by (rule counts_change_trans)
  have R: "table_refs r k + refs_of ?bs k = table_refs (sessions bm) k" for k
    by (simp add: table_refs_def r(3,4) sum.remove [OF finite_live i])
  have K: "key_count ?bm k = key_count (bm\<lparr>auth_keys := q\<rparr>) k" for k by (simp add: key_count_def)
  have refs: "table_refs (sessions ?bm) k \<le> key_count ?bm k" for k
    using session_counts [OF T i, of k] R [of k] unfolding K q(3) p(3) by (auto simp: refs_of_def split: if_splits)
  then have keys: "bfd_keys_ok ?bm" using T cc unfolding bfd_keys_ok_def bfd_table_but_def counts_change_def by auto
  have "bfd_ctx_ok (?bm, pool_vec r ! j)" if j: "j \<in> pool_live r - (X - {i})" for j
  proof -
    have "j \<in> pool_live (sessions bm) - X" using j r(3) by auto
    then have o: "bfd_ctx_ok (bm, pool_vec r ! j)" using T by (simp add: bfd_table_but_def r(4))
    have "refs_of (pool_vec r ! j) k \<le> key_count ?bm k" for k
      using refs [of k] refs_le [of j r k] j by simp
    then have "key_live ?bm (curr_key (bs_auth (pool_vec r ! j))) \<and> key_live ?bm (next_key (bs_auth (pool_vec r ! j)))"
      by (rule refs_live)
    then have "bfd_ctx_ok (bm\<lparr>auth_keys := q\<rparr>, pool_vec r ! j)" using o
      by (simp add: ctx_ok_keys key_live_def) (simp add: bfd_ctx_ok_def bfd_base_ok_def bfd_rates_ok_def key_live_def)
    then show ?thesis by simp
  qed
  moreover have "bfd_main_ok ?bm" using T by (simp add: bfd_table_but_def)
  ultimately have "bfd_table_but (X - {i}) ?bm" using T i r(2) keys discr_unique [OF T _ i]
    by (auto simp: bfd_table_but_def r(3,4))
  then show ?thesis using e r(3,4) cc by blast
qed

section \<open>A new session\<close>

text \<open>A session that is not started has all its parameters but the transmit interval.\<close>

definition bfd_new :: "bfd_main \<Rightarrow> bfd_session \<Rightarrow> bool" where
  "bfd_new bm bs \<longleftrightarrow> clk_ok (last_tx_clocks bs)
    \<and> usec_pair bm (ucast (config_desired_min_tx_usec bs)) (config_desired_min_tx_clocks bs)
    \<and> usec_pair bm (ucast (config_required_min_rx_usec bs)) (config_required_min_rx_clocks bs)
    \<and> usec_pair bm (remote_min_rx_usec bs) (remote_min_rx_clocks bs)
    \<and> usec_pair bm (remote_min_echo_rx_usec bs) (remote_min_echo_rx_clocks bs)
    \<and> clk_ok (effective_desired_min_tx_clocks bs) \<and> default_desired_min_tx_clocks bm \<le> effective_desired_min_tx_clocks bs
    \<and> local_state bs = BFD_STATE_down \<and> bs_echo bs = 0"

lemma zero_clocks: "bfd_usec_to_clocks bm 0 = Some 0"
  by (simp add: bfd_usec_to_clocks_def f64_of_nat_def f64_div_def f64_mult_def f64_round_def floorlog_def f64_to_u64_def f64_floor_def)

lemma store_new:
  assumes "bfd_table_but {i} bm" and "i \<in> pool_live (sessions bm)" and "bfd_config bm' = bfd_config bm"
    and "local_discr bs' = local_discr (pool_vec (sessions bm) ! i)" and "bs_idx bs' = bs_idx (pool_vec (sessions bm) ! i)"
    and "bs_auth bs' = bs_auth (pool_vec (sessions bm) ! i)"
  shows "bfd_table_but {i} (bfd_store_session i (bm', bs'))"
proof (rule store_keys_ok [OF assms(1,2)])
  have a: "auth_keys bm' = auth_keys bm" using bfd_config_fields [OF assms(3)] by simp
  show "bfd_config bm' = bfd_config (bm\<lparr>auth_keys := auth_keys bm'\<rparr>)" by (simp add: a assms(3))
  show "counts_change (auth_keys bm) (auth_keys bm')" by (simp add: a)
  show "table_refs (sessions bm) k + refs_of bs' k \<le> key_count bm' k + refs_of (pool_vec (sessions bm) ! i) k" for k
    using table_counts [OF assms(1), of k] by (simp add: key_count_def a refs_of_def assms(6))
qed (use assms in auto)

lemma set_params_new:
  assumes m: "bfd_main_ok bm" and n: "bfd_new bm bs"
  shows "\<exists>bm' bs'. bfd_session_set_params tx rx mult (bm, bs) = Some (bm', bs') \<and> bfd_config bm' = bfd_config bm
    \<and> bfd_new bm bs' \<and> bs_auth bs' = bs_auth bs \<and> bs_udp bs' = bs_udp bs \<and> bs_idx bs' = bs_idx bs
    \<and> local_discr bs' = local_discr bs \<and> bs_transport bs' = bs_transport bs
    \<and> config_desired_min_tx_usec bs' = tx \<and> config_required_min_rx_usec bs' = rx \<and> local_detect_mult bs' = mult"
proof -
  obtain t where t: "bfd_usec_to_clocks bm (ucast tx) = Some t" "usec_pair bm (ucast tx) t" using usec_pair_ucast [OF m] by blast
  obtain r where r: "bfd_usec_to_clocks bm (ucast rx) = Some r" "usec_pair bm (ucast rx) r" using usec_pair_ucast [OF m] by blast
  have d: "local_state bs = BFD_STATE_down" using n by (simp add: bfd_new_def)
  show ?thesis
  proof (cases "local_detect_mult bs \<noteq> mult \<or> config_desired_min_tx_usec bs \<noteq> tx \<or> config_required_min_rx_usec bs \<noteq> rx")
    case True
    then show ?thesis using n t r
      by (cases "poll_state bs") (auto simp: bfd_session_set_params_def bfd_set_poll_state_def Let_def d bfd_new_def)
  next
    case False
    then show ?thesis using n by (simp add: bfd_session_set_params_def Let_def)
  qed
qed

lemma session_start_table:
  assumes T: "bfd_table_but {i} bm" and i: "i \<in> pool_live (sessions bm)" and n: "bfd_new bm (pool_vec (sessions bm) ! i)"
  shows "bfd_table_ok (bfd_store_session i (bfd_session_start (bm, pool_vec (sessions bm) ! i)))"
proof -
  let ?bs = "pool_vec (sessions bm) ! i"
  let ?bs' = "?bs\<lparr>effective_required_min_rx_clocks := config_required_min_rx_clocks ?bs,
      transmit_interval_clocks := max (effective_desired_min_tx_clocks ?bs) (remote_min_rx_clocks ?bs)\<rparr>"
  let ?bm = "bfd_call (Process_Signal_Event BFD_EVENT_NEW_SESSION (bs_idx ?bs)) bm"
  have e: "bfd_session_start (bm, ?bs) = (?bm, ?bs')"
    using n by (simp add: bfd_session_start_def bfd_set_effective_required_min_rx_def bfd_recalc_detection_time_def
      bfd_recalc_tx_interval_def Let_def bfd_new_def)
  have "key_live bm (curr_key (bs_auth ?bs)) \<and> key_live bm (next_key (bs_auth ?bs))"
    using session_counts [OF T i] by (intro refs_live) (meson order_trans)
  then have ok: "bfd_ctx_ok (bm, ?bs')" using n T
    by (auto simp: bfd_ctx_ok_def bfd_base_ok_def bfd_rates_ok_def bfd_new_def bfd_table_but_def)
  have k: "auth_keys ?bm = auth_keys bm" "key_count ?bm = key_count bm" by (simp_all add: fun_eq_iff bfd_call_def key_count_def)
  show ?thesis unfolding e
  proof (rule store_keys_ok [OF T i])
    show "bfd_ctx_ok (bm\<lparr>auth_keys := auth_keys ?bm\<rparr>, ?bs')" using ok by (simp add: k)
    show "table_refs (sessions bm) j + refs_of ?bs' j \<le> key_count ?bm j + refs_of ?bs j" for j
      using table_counts [OF T, of j] by (simp add: k refs_of_def)
  qed (simp_all add: k bfd_config_def bfd_call_def)
qed

lemma card_discriminators:
  assumes "bfd_table_but X bm"
  shows "finite (dom (session_by_disc bm)) \<and> card (dom (session_by_disc bm)) \<le> card (pool_live (sessions bm))"
proof -
  have "dom (session_by_disc bm) = (\<lambda>i. local_discr (pool_vec (sessions bm) ! i)) ` pool_live (sessions bm)"
    using assms by (force simp: bfd_table_but_def)
  then show ?thesis by (simp add: card_image_le)
qed

lemma pool_get_length:
  assumes "pool_ok p" and "pool_get m p = (p', i)"
  shows "length (pool_vec p') \<le> max (length (pool_vec p)) (card (pool_live p) + 1)"
  using assms
proof (cases rule: pool_get_cases)
  case grow
  then have "pool_live p = {..<length (pool_vec p)}" using assms(1) by (auto simp: pool_ok_def pool_live_iff)
  then show ?thesis by (simp add: grow)
qed simp

lemma get_session_table:
  assumes T: "bfd_table_ok bm" and room: "card (pool_live (sessions bm)) \<le> 1000"
  shows "\<exists>i bm'. bfd_get_session memory t bm = Some (Some i, bm') \<and> i \<notin> pool_live (sessions bm)
    \<and> pool_live (sessions bm') = insert i (pool_live (sessions bm))
    \<and> (\<forall>j \<in> pool_live (sessions bm). pool_vec (sessions bm') ! j = pool_vec (sessions bm) ! j)
    \<and> bfd_table_but {i} bm' \<and> bfd_new bm' (pool_vec (sessions bm') ! i) \<and> refs_of (pool_vec (sessions bm') ! i) = (\<lambda>_. 0)
    \<and> bs_transport (pool_vec (sessions bm') ! i) = t
    \<and> length (pool_vec (sessions bm')) \<le> max (length (pool_vec (sessions bm))) (card (pool_live (sessions bm)) + 1)
    \<and> (\<exists>p d s. bm' = bm\<lparr>sessions := p, session_by_disc := d, random_seed := s\<rparr>)"
proof -
  have S: "pool_ok (sessions bm)" and m: "bfd_main_ok bm" using T by (simp_all add: bfd_table_but_def)
  obtain p i where p: "pool_get memory (sessions bm) = (p, i)" by fastforce
  have pk: "pool_ok p" "i \<notin> pool_live (sessions bm)" "pool_live p = insert i (pool_live (sessions bm))"
    using pool_get_ok_live [OF S p] by auto
  have old: "pool_vec p ! j = pool_vec (sessions bm) ! j" if "j \<in> pool_live (sessions bm)" for j
    using pool_get_frame [OF S p that] that pk(3) by (simp add: pool_elt_live)
  have i: "i \<in> pool_live p" using pk(3) by simp
  obtain d s where d: "bfd_pick_discr 1001 (session_by_disc bm) (random_seed bm) = (Some d, s)" "session_by_disc bm d = None"
    using pick_discr_found [of "session_by_disc bm" "random_seed bm"] card_discriminators [OF T] room by auto
  obtain r where r: "bfd_usec_to_clocks bm 1 = Some r" using usec_to_clocks_ok [OF m, of 1] by auto
  define bs where "bs = bfd_session_zero\<lparr>bs_idx := word_of_nat i, bs_transport := t, local_discr := d,
    local_state := BFD_STATE_down, remote_state := BFD_STATE_down, config_desired_min_tx_usec := 1000000,
    config_desired_min_tx_clocks := default_desired_min_tx_clocks bm,
    effective_desired_min_tx_clocks := default_desired_min_tx_clocks bm, remote_min_rx_usec := 1, remote_min_rx_clocks := r,
    bs_auth := (bs_auth bfd_session_zero)\<lparr>local_seq_number := random_u32 s\<rparr>, echo_secret := random_u32 (random_u32 s)\<rparr>"
  let ?bm = "bm\<lparr>sessions := pool_store p i bs, session_by_disc := (session_by_disc bm)(d \<mapsto> i), random_seed := random_u32 (random_u32 s)\<rparr>"
  have e: "bfd_get_session memory t bm = Some (Some i, ?bm)"
    by (simp add: bfd_get_session_def Let_def p d(1) bfd_set_defaults_def r bfd_store_session_def bs_def bfd_session_zero_def)
  have vec: "pool_vec (sessions ?bm) ! i = bs" "\<And>j. j \<in> pool_live (sessions bm) \<Longrightarrow> pool_vec (sessions ?bm) ! j = pool_vec (sessions bm) ! j"
    using live_length [OF i] pk(2) old by (auto simp: nth_list_update)
  have refs0: "refs_of bs k = 0" for k
    by (simp add: bs_def bfd_session_zero_def refs_of_def)
  have R: "table_refs (sessions ?bm) k = table_refs (sessions bm) k" for k
  proof -
    have "table_refs (sessions ?bm) k = refs_of bs k + (\<Sum>j\<in>pool_live (sessions bm). refs_of (pool_vec (sessions ?bm) ! j) k)"
      using pk(2) vec(1) by (simp add: table_refs_def pk(3))
    also have "(\<Sum>j\<in>pool_live (sessions bm). refs_of (pool_vec (sessions ?bm) ! j) k) = table_refs (sessions bm) k"
      unfolding table_refs_def by (rule sum.cong) (simp_all only: vec(2))
    finally show ?thesis using refs0 by simp
  qed
  have C: "key_count ?bm k = key_count bm k" for k by (simp add: key_count_def)
  have U: "usec_pair ?bm = usec_pair bm" by (simp add: fun_eq_iff usec_pair_def bfd_usec_to_clocks_def)
  have o: "usec_pair bm (ucast (1000000 :: u32)) (default_desired_min_tx_clocks bm)" using m by (simp add: usec_pair_def bfd_main_ok_def)
  obtain c where "bfd_usec_to_clocks bm 1000000 = Some c" "clk_ok c" using usec_to_clocks_ok [OF m, of 1000000] by auto
  then have ck: "clk_ok (default_desired_min_tx_clocks bm)" using m by (simp add: bfd_main_ok_def)
  have new: "bfd_new ?bm bs" unfolding bfd_new_def U using o ck r
    by (simp add: bs_def bfd_session_zero_def clk_ok_def) (simp add: usec_pair_def zero_clocks)
  have "bfd_keys_ok ?bm" using T unfolding bfd_keys_ok_def R C bfd_table_but_def by simp
  moreover have "bfd_main_ok ?bm" using m by simp
  moreover have "bfd_ctx_ok (?bm, pool_vec (sessions ?bm) ! j)" if "j \<in> pool_live (sessions bm)" for j
    using T that ctx_ok_main [of ?bm "bm\<lparr>sessions := pool_store p i bs, session_by_disc := (session_by_disc bm)(d \<mapsto> i)\<rparr>"]
    unfolding vec(2) [OF that] by (simp add: bfd_table_but_def)
  moreover have "bs_idx bs = word_of_nat i" "local_discr bs = d" by (simp_all add: bs_def)
  moreover have "local_discr (pool_vec (sessions bm) ! j) \<noteq> d" if "j \<in> pool_live (sessions bm)" for j
  proof
    assume "local_discr (pool_vec (sessions bm) ! j) = d"
    then have "session_by_disc bm d = Some j" using T that by (simp add: bfd_table_but_def)
    then show False using d(2) by simp
  qed
  ultimately have "bfd_table_but {i} ?bm" using T d(2) pk vec
    by (auto simp: bfd_table_but_def)
  then show ?thesis using e pk vec new refs0 pool_get_length [OF S p]
    by (intro exI [of _ i] exI [of _ ?bm]) (auto simp: bs_def)
qed

end
