(* ===== verification/Bfd_Udp.thy ===== *)
theory Bfd_Udp
  imports Bfd_Auth Ip_Checksum
begin

text \<open>
  BFD over UDP, \<^verbatim>\<open>vnet/bfd/bfd_udp.c\<close>: the table of sessions by interface and addresses, the API that
  adds, changes and deletes sessions, the source of echo packets, the headers of the packets sent and the
  checks of the packets received.

  The software interfaces with their addresses are a function from their index. Which adjacency
  \<open>adj_nbr_add_or_lock\<close> returns, and where an adjacency leads, are functions too; the locks this component
  holds on the adjacencies are counted in its state. The API and the input nodes run in the main thread,
  where the call of \<open>bfd_consume_pkt\<close> is direct. As in \<open>Bfd_Session\<close> an undefined step is \<open>None\<close>.
\<close>

section \<open>Interfaces\<close>

record bfd_interface =
  if_flags :: u32
  ip4_addresses :: "(u32 \<times> nat) list"
  ip6_addresses :: "((u64 \<times> u64) \<times> nat) list"

type_synonym bfd_interfaces = "u32 \<Rightarrow> bfd_interface option"

definition VNET_SW_INTERFACE_FLAG_ADMIN_UP :: u32 where "VNET_SW_INTERFACE_FLAG_ADMIN_UP = 1"

definition VNET_SW_INTERFACE_FLAG_UNNUMBERED :: u32 where "VNET_SW_INTERFACE_FLAG_UNNUMBERED = 8"

text \<open>The addresses that \<open>foreach_ip_interface_address\<close> visits when it does not honour unnumbered interfaces.\<close>

definition visited_addresses :: "(bfd_interface \<Rightarrow> 'a list) \<Rightarrow> bfd_interface \<Rightarrow> 'a list" where
  "visited_addresses addresses sw_if =
    (if if_flags sw_if AND VNET_SW_INTERFACE_FLAG_UNNUMBERED \<noteq> 0 then [] else addresses sw_if)"

text \<open>An IPv4 address is the last four bytes of an address that begins with twelve zero bytes.\<close>

definition ip46_address_is_ip4 :: "ip46_address \<Rightarrow> bool" where
  "ip46_address_is_ip4 a \<longleftrightarrow> ip46_first a = 0 \<and> (ucast (ip46_second a) :: u32) = 0"

definition ip46_ip4 :: "ip46_address \<Rightarrow> u32" where
  "ip46_ip4 a = ucast (drop_bit 32 (ip46_second a))"

definition ip46_of_ip4 :: "u32 \<Rightarrow> ip46_address" where
  "ip46_of_ip4 a = \<lparr>ip46_first = 0, ip46_second = push_bit 32 (ucast a)\<rparr>"

section \<open>State\<close>

record bfd_udp_main =
  bum_bfd_main :: bfd_main
  bfd_session_idx_by_bfd_key :: "bfd_udp_key \<Rightarrow> nat option"
  echo_source_is_set :: bool
  echo_source_sw_if_index :: u32
  adj_locks :: "u32 \<Rightarrow> int"

section \<open>The source of echo packets\<close>

definition bfd_udp_set_echo_source :: "bfd_interfaces \<Rightarrow> u32 \<Rightarrow> bfd_udp_main \<Rightarrow> vnet_api_error \<times> bfd_udp_main" where
  "bfd_udp_set_echo_source ifs sw_if_index bum =
    (case ifs sw_if_index of
       Some sw_if \<Rightarrow> (API_OK, bum\<lparr>echo_source_sw_if_index := sw_if_index, echo_source_is_set := True\<rparr>)
     | None \<Rightarrow> (VNET_API_ERROR_BFD_ENOENT, bum))"

definition bfd_udp_del_echo_source :: "bfd_udp_main \<Rightarrow> vnet_api_error \<times> bfd_udp_main" where
  "bfd_udp_del_echo_source bum = (API_OK, bum\<lparr>echo_source_sw_if_index := - 1, echo_source_is_set := False\<rparr>)"

definition bfd_udp_is_echo_available :: "bfd_interfaces \<Rightarrow> bfd_transport \<Rightarrow> bfd_udp_main \<Rightarrow> bool" where
  "bfd_udp_is_echo_available ifs transport bum =
    (if \<not> echo_source_is_set bum then False
     else case ifs (echo_source_sw_if_index bum) of
       None \<Rightarrow> False
     | Some sw_if \<Rightarrow>
         if if_flags sw_if AND VNET_SW_INTERFACE_FLAG_ADMIN_UP \<noteq> 0
         then case transport of
             BFD_TRANSPORT_UDP4 \<Rightarrow> list_ex (\<lambda>(x, address_length). address_length \<le> 31) (visited_addresses ip4_addresses sw_if)
           | BFD_TRANSPORT_UDP6 \<Rightarrow> list_ex (\<lambda>(x, address_length). address_length \<le> 127) (visited_addresses ip6_addresses sw_if)
         else False)"

text \<open>The address for echo packets, if there is one; the lookup of an interface that is gone is undefined.\<close>

definition bfd_udp_get_echo_src_ip4 :: "bfd_interfaces \<Rightarrow> bfd_udp_main \<Rightarrow> u32 option option" where
  "bfd_udp_get_echo_src_ip4 ifs bum =
    (if \<not> echo_source_is_set bum then Some None
     else do {
       sw_if \<leftarrow> ifs (echo_source_sw_if_index bum);
       Some (map_option (\<lambda>(x, _). clib_byte_swap_u32 (clib_byte_swap_u32 x XOR 1))
         (find (\<lambda>(x, address_length). address_length \<le> 31) (visited_addresses ip4_addresses sw_if)))})"

definition bfd_udp_get_echo_src_ip6 :: "bfd_interfaces \<Rightarrow> bfd_udp_main \<Rightarrow> (u64 \<times> u64) option option" where
  "bfd_udp_get_echo_src_ip6 ifs bum =
    (if \<not> echo_source_is_set bum then Some None
     else do {
       sw_if \<leftarrow> ifs (echo_source_sw_if_index bum);
       Some (map_option (\<lambda>((x0, x1), _). (x0, x1 XOR push_bit 56 1))
         (find (\<lambda>(x, address_length). address_length \<le> 127) (visited_addresses ip6_addresses sw_if)))})"

definition bfd_udp_get_echo_source ::
    "bfd_interfaces \<Rightarrow> bfd_udp_main \<Rightarrow> (u32 \<times> u32 option \<times> (u64 \<times> u64) option) option option" where
  "bfd_udp_get_echo_source ifs bum =
    (if echo_source_is_set bum
     then do {
       ip4 \<leftarrow> bfd_udp_get_echo_src_ip4 ifs bum;
       ip6 \<leftarrow> bfd_udp_get_echo_src_ip6 ifs bum;
       Some (Some (echo_source_sw_if_index bum, ip4, ip6))}
     else Some None)"

section \<open>Packets sent\<close>

definition bfd_udp_bs_idx_to_sport :: "u32 \<Rightarrow> u16" where
  "bfd_udp_bs_idx_to_sport idx = ucast (49152 + idx mod (65535 - 49152 + 1))"

text \<open>The IPv4 and UDP headers in front of \<open>payload\<close> bytes, at the address \<open>addr\<close>; the result is \<open>None\<close>
  for an echo packet that has no source address. 16-bit fields are in network order.\<close>

definition u16_net :: "u16 \<Rightarrow> u8 list" where
  "u16_net w = [ucast (drop_bit 8 w), ucast w]"

definition bfd_udp4_headers :: "u32 \<Rightarrow> u32 \<Rightarrow> u16 \<Rightarrow> u16 \<Rightarrow> u16 \<Rightarrow> u8 list \<times> u8 list" where
  "bfd_udp4_headers src dst src_port dst_port ip_length =
    ([0x45, 0] @ u16_net ip_length @ [0, 0, 0, 0, 255, 17, 0, 0] @ u32_bytes src @ u32_bytes dst,
     u16_net src_port @ u16_net dst_port @ u16_net (ip_length - 20) @ [0, 0])"

definition bfd_add_udp4_transport ::
    "bfd_interfaces \<Rightarrow> bfd_udp_main \<Rightarrow> nat \<Rightarrow> nat \<Rightarrow> bfd_session \<Rightarrow> bool \<Rightarrow> (u8 list \<times> u8 list) option option" where
  "bfd_add_udp4_transport ifs bum addr payload bs is_echo = (let key = udp_key (bs_udp bs) in do {
     addrs \<leftarrow> (if is_echo
       then do {src \<leftarrow> bfd_udp_get_echo_src_ip4 ifs bum; Some (map_option (\<lambda>src. (src, ip46_ip4 (local_addr key), 3785)) src)}
       else Some (Some (ip46_ip4 (local_addr key), ip46_ip4 (peer_addr key), 3784)));
     Some (map_option (\<lambda>(src, dst, dst_port).
       let ip_length = word_of_nat (28 + payload);
           (ip4, udp) = bfd_udp4_headers src dst (bfd_udp_bs_idx_to_sport (bs_idx bs)) dst_port ip_length
       in (ip4_set_checksum (ip4_header_checksum addr ip4) ip4, udp)) addrs)})"

datatype ip_lookup_next = IP_LOOKUP_NEXT_ARP | IP_LOOKUP_NEXT_REWRITE | IP_LOOKUP_NEXT_OTHER

datatype bfd_next_node = Next_Ip4_Arp | Next_Ip6_Ndp | Next_Ip4_Rewrite | Next_Ip6_Rewrite

definition bfd_udp_calc_next_node :: "(u32 \<Rightarrow> ip_lookup_next) \<Rightarrow> bfd_session \<Rightarrow> bfd_next_node option" where
  "bfd_udp_calc_next_node adj_next bs =
    (case adj_next (adj_index (bs_udp bs)) of
       IP_LOOKUP_NEXT_ARP \<Rightarrow>
         (case bs_transport bs of BFD_TRANSPORT_UDP4 \<Rightarrow> Some Next_Ip4_Arp | BFD_TRANSPORT_UDP6 \<Rightarrow> Some Next_Ip6_Ndp)
     | IP_LOOKUP_NEXT_REWRITE \<Rightarrow>
         (case bs_transport bs of BFD_TRANSPORT_UDP4 \<Rightarrow> Some Next_Ip4_Rewrite | BFD_TRANSPORT_UDP6 \<Rightarrow> Some Next_Ip6_Rewrite)
     | IP_LOOKUP_NEXT_OTHER \<Rightarrow> None)"

text \<open>The returned value, true when the buffer was handed over, and the node it went to.\<close>

definition bfd_transport_udp4 :: "(u32 \<Rightarrow> ip_lookup_next) \<Rightarrow> bfd_session \<Rightarrow> bool \<times> bfd_next_node option" where
  "bfd_transport_udp4 adj_next bs = (let n = bfd_udp_calc_next_node adj_next bs in (n \<noteq> None, n))"

definition bfd_transport_udp6 :: "(u32 \<Rightarrow> ip_lookup_next) \<Rightarrow> bfd_session \<Rightarrow> bool \<times> bfd_next_node option" where
  "bfd_transport_udp6 adj_next bs = (True, bfd_udp_calc_next_node adj_next bs)"

section \<open>Sessions\<close>

definition bfd_lookup_session :: "bfd_udp_main \<Rightarrow> bfd_udp_key \<Rightarrow> nat option" where
  "bfd_lookup_session bum key =
    (case bfd_session_idx_by_bfd_key bum key of
       Some i \<Rightarrow> if bfd_find_session_by_idx (bum_bfd_main bum) i \<noteq> None then Some i else None
     | None \<Rightarrow> None)"

definition bfd_udp_key_init :: "u32 \<Rightarrow> ip46_address \<Rightarrow> ip46_address \<Rightarrow> bfd_udp_key" where
  "bfd_udp_key_init sw_if_index l p =
    \<lparr>key_sw_if_index = sw_if_index, local_addr = \<lparr>ip46_first = ip46_first l, ip46_second = ip46_second l\<rparr>,
     peer_addr = \<lparr>ip46_first = ip46_first p, ip46_second = ip46_second p\<rparr>\<rparr>"

definition bfd_udp_add_session_internal ::
    "bfd_session \<Rightarrow> (bfd_transport \<Rightarrow> ip46_address \<Rightarrow> u32 \<Rightarrow> u32) \<Rightarrow> u32 \<Rightarrow> u32 \<Rightarrow> u32 \<Rightarrow> u8 \<Rightarrow> ip46_address \<Rightarrow> ip46_address \<Rightarrow>
     bfd_udp_main \<Rightarrow> (vnet_api_error \<times> nat option \<times> bfd_udp_main) option" where
  "bfd_udp_add_session_internal memory adj_nbr sw_if_index tx rx mult l p bum =
    (let t = (if \<not> ip46_address_is_ip4 l then BFD_TRANSPORT_UDP6 else BFD_TRANSPORT_UDP4) in do {
       (bs, bm) \<leftarrow> bfd_get_session memory t (bum_bfd_main bum);
       case bs of
         None \<Rightarrow> None
       | Some i \<Rightarrow> do {
           bs \<leftarrow> pool_elt_at_index (sessions bm) i;
           let key = bfd_udp_key_init sw_if_index l p;
           let bs = bs\<lparr>bs_udp := \<lparr>udp_key = key, adj_index = 0\<rparr>\<rparr>;
           let bum = bum\<lparr>bum_bfd_main := bfd_store_session i (bm, bs)\<rparr>;
           case bfd_lookup_session bum key of
             Some _ \<Rightarrow> do {
               bm \<leftarrow> bfd_put_session i (bum_bfd_main bum);
               Some (VNET_API_ERROR_BFD_EEXIST, None, bum\<lparr>bum_bfd_main := bm\<rparr>)}
           | None \<Rightarrow>
               let adj = adj_nbr t (peer_addr key) (key_sw_if_index key);
                   bs = bs\<lparr>bs_udp := \<lparr>udp_key = key, adj_index = adj\<rparr>\<rparr>
               in do {
                 ctx \<leftarrow> bfd_session_set_params tx rx mult (bum_bfd_main bum, bs);
                 Some (API_OK, Some i,
                   bum\<lparr>bfd_session_idx_by_bfd_key := (bfd_session_idx_by_bfd_key bum)(key \<mapsto> unat (bs_idx bs)),
                       adj_locks := (adj_locks bum)(adj := adj_locks bum adj + 1),
                       bum_bfd_main := bfd_store_session i ctx\<rparr>)}}})"

definition bfd_udp_validate_api_input :: "bfd_interfaces \<Rightarrow> u32 \<Rightarrow> ip46_address \<Rightarrow> ip46_address \<Rightarrow> vnet_api_error" where
  "bfd_udp_validate_api_input ifs sw_if_index l p =
    (case ifs sw_if_index of
       None \<Rightarrow> VNET_API_ERROR_INVALID_SW_IF_INDEX
     | Some sw_if \<Rightarrow>
         if ip46_address_is_ip4 l \<noteq> ip46_address_is_ip4 p then VNET_API_ERROR_INVALID_ARGUMENT
         else let local_ip_valid =
                (if ip46_address_is_ip4 l
                 then list_ex (\<lambda>(x, _). x = ip46_ip4 l) (visited_addresses ip4_addresses sw_if)
                 else list_ex (\<lambda>((x0, x1), _). ip46_first l = x0 \<and> ip46_second l = x1) (visited_addresses ip6_addresses sw_if))
         in if \<not> local_ip_valid then VNET_API_ERROR_ADDRESS_NOT_FOUND_FOR_INTERFACE else API_OK)"

definition bfd_udp_find_session_by_api_input ::
    "bfd_interfaces \<Rightarrow> u32 \<Rightarrow> ip46_address \<Rightarrow> ip46_address \<Rightarrow> bfd_udp_main \<Rightarrow> vnet_api_error + nat" where
  "bfd_udp_find_session_by_api_input ifs sw_if_index l p bum =
    (let rv = bfd_udp_validate_api_input ifs sw_if_index l p in
     if rv = API_OK
     then case bfd_lookup_session bum (bfd_udp_key_init sw_if_index l p) of
         Some i \<Rightarrow> Inr i
       | None \<Rightarrow> Inl VNET_API_ERROR_BFD_ENOENT
     else Inl rv)"

definition bfd_api_verify_common :: "bfd_interfaces \<Rightarrow> u32 \<Rightarrow> u32 \<Rightarrow> u8 \<Rightarrow> ip46_address \<Rightarrow> ip46_address \<Rightarrow> vnet_api_error" where
  "bfd_api_verify_common ifs sw_if_index tx mult l p =
    (let rv = bfd_udp_validate_api_input ifs sw_if_index l p in
     if rv \<noteq> API_OK then rv
     else if mult < 1 then VNET_API_ERROR_INVALID_ARGUMENT
     else if tx < 1 then VNET_API_ERROR_INVALID_ARGUMENT
     else API_OK)"

definition bfd_udp_del_session_internal :: "nat \<Rightarrow> bfd_udp_main \<Rightarrow> bfd_udp_main option" where
  "bfd_udp_del_session_internal i bum = do {
     bs \<leftarrow> pool_elt_at_index (sessions (bum_bfd_main bum)) i;
     bm \<leftarrow> bfd_put_session i (bum_bfd_main bum);
     let adj = adj_index (bs_udp bs);
     Some (bum\<lparr>bfd_session_idx_by_bfd_key := (bfd_session_idx_by_bfd_key bum)(udp_key (bs_udp bs) := None),
       adj_locks := (adj_locks bum)(adj := adj_locks bum adj - 1), bum_bfd_main := bm\<rparr>)}"

text \<open>An operation on a session of the table that may fail.\<close>

definition bfd_udp_on_session ::
    "(bfd_ctx \<Rightarrow> (vnet_api_error \<times> bfd_ctx) option) \<Rightarrow> nat \<Rightarrow> bfd_udp_main \<Rightarrow> (vnet_api_error \<times> bfd_udp_main) option" where
  "bfd_udp_on_session op i bum = do {
     bs \<leftarrow> pool_elt_at_index (sessions (bum_bfd_main bum)) i;
     (rv, ctx) \<leftarrow> op (bum_bfd_main bum, bs);
     Some (rv, bum\<lparr>bum_bfd_main := bfd_store_session i ctx\<rparr>)}"

definition bfd_udp_add_session ::
    "bfd_session \<Rightarrow> (bfd_transport \<Rightarrow> ip46_address \<Rightarrow> u32 \<Rightarrow> u32) \<Rightarrow> bfd_interfaces \<Rightarrow> u32 \<Rightarrow> ip46_address \<Rightarrow> ip46_address \<Rightarrow>
     u32 \<Rightarrow> u32 \<Rightarrow> u8 \<Rightarrow> u8 \<Rightarrow> u32 \<Rightarrow> u8 \<Rightarrow> bfd_udp_main \<Rightarrow> (vnet_api_error \<times> bfd_udp_main) option" where
  "bfd_udp_add_session memory adj_nbr ifs sw_if_index l p tx rx mult is_authenticated conf_id bfd_key_id bum =
    (let rv = bfd_api_verify_common ifs sw_if_index tx mult l p in
     if rv \<noteq> API_OK then Some (rv, bum)
     else do {
       (rv, bs, bum) \<leftarrow> bfd_udp_add_session_internal memory adj_nbr sw_if_index tx rx mult l p bum;
       case bs of
         None \<Rightarrow> Some (rv, bum)
       | Some i \<Rightarrow> do {
           (rv, bum) \<leftarrow> (if is_authenticated \<noteq> 0
             then do {
               (rv, bum) \<leftarrow> bfd_udp_on_session (bfd_auth_activate conf_id bfd_key_id 0) i bum;
               if rv \<noteq> API_OK then do {bum \<leftarrow> bfd_udp_del_session_internal i bum; Some (rv, bum)} else Some (rv, bum)}
             else Some (API_OK, bum));
           if rv = API_OK then bfd_udp_on_session (\<lambda>ctx. Some (API_OK, bfd_session_start ctx)) i bum
           else Some (rv, bum)}})"

text \<open>The calls that look their session up first.\<close>

definition bfd_udp_with_session ::
    "(nat \<Rightarrow> bfd_udp_main \<Rightarrow> (vnet_api_error \<times> bfd_udp_main) option) \<Rightarrow> bfd_interfaces \<Rightarrow> u32 \<Rightarrow> ip46_address \<Rightarrow> ip46_address \<Rightarrow>
     bfd_udp_main \<Rightarrow> (vnet_api_error \<times> bfd_udp_main) option" where
  "bfd_udp_with_session op ifs sw_if_index l p bum =
    (case bfd_udp_find_session_by_api_input ifs sw_if_index l p bum of
       Inl rv \<Rightarrow> Some (rv, bum)
     | Inr i \<Rightarrow> op i bum)"

definition bfd_udp_mod_session where
  "bfd_udp_mod_session ifs sw_if_index l p tx rx mult bum = bfd_udp_with_session
    (bfd_udp_on_session (\<lambda>ctx. map_option (Pair API_OK) (bfd_session_set_params tx rx mult ctx))) ifs sw_if_index l p bum"

definition bfd_udp_del_session where
  "bfd_udp_del_session ifs sw_if_index l p bum = bfd_udp_with_session
    (\<lambda>i bum. map_option (Pair API_OK) (bfd_udp_del_session_internal i bum)) ifs sw_if_index l p bum"

definition bfd_udp_session_set_flags where
  "bfd_udp_session_set_flags now now' ifs sw_if_index l p admin_up_down bum = bfd_udp_with_session
    (bfd_udp_on_session (\<lambda>ctx. map_option (Pair API_OK) (bfd_session_set_flags now now' admin_up_down ctx))) ifs sw_if_index l p bum"

definition bfd_udp_auth_activate where
  "bfd_udp_auth_activate ifs sw_if_index l p conf_id key_id delayed bum = bfd_udp_with_session
    (bfd_udp_on_session (bfd_auth_activate conf_id key_id delayed)) ifs sw_if_index l p bum"

definition bfd_udp_auth_deactivate where
  "bfd_udp_auth_deactivate ifs sw_if_index l p delayed bum = bfd_udp_with_session
    (bfd_udp_on_session (bfd_auth_deactivate delayed)) ifs sw_if_index l p bum"

section \<open>Packets received\<close>

datatype bfd_udp_error = BFD_UDP_ERROR_NONE | BFD_UDP_ERROR_BAD

datatype bfd_udp_input_next =
  BFD_UDP_INPUT_NEXT_NORMAL | BFD_UDP_INPUT_NEXT_REPLY_ARP | BFD_UDP_INPUT_NEXT_REPLY_REWRITE

text \<open>
  A buffer: the length and the bytes of the data, here a frame, where the data and the IP header start,
  the receiving interface, and the fields of the headers that would be read at a given start.
\<close>

record bfd_udp_header =
  udp_src_port :: u16
  udp_hdr_length :: u16

record bfd_ip4_header =
  ip4_src_address :: u32
  ip4_dst_address :: u32
  ip4_ttl :: u8

record bfd_ip6_header =
  ip6_src_address :: "u64 \<times> u64"
  ip6_dst_address :: "u64 \<times> u64"
  ip6_hop_limit :: u8
  ip6_protocol :: u8

record 'h bfd_buffer =
  current_length :: nat
  current_data :: int
  buffer_frame :: bfd_frame
  start_of_ip_header :: int
  rx_sw_if_index :: u32
  headers_at :: "int \<Rightarrow> 'h \<times> bfd_udp_header"

text \<open>The size of \<open>pre_data\<close> is unsigned, and so is the comparison with it.\<close>

definition bfd_udp_find_headers :: "'h bfd_buffer \<Rightarrow> ('h \<times> bfd_udp_header) option" where
  "bfd_udp_find_headers b = (let start = start_of_ip_header b in
     if start < 0 \<and> (word_of_int start :: u64) < 128 then None
     else if current_data b < start then None
     else Some (headers_at b start))"

definition bfd_udp4_find_headers :: "bfd_ip4_header bfd_buffer \<Rightarrow> (bfd_ip4_header \<times> bfd_udp_header) option" where
  "bfd_udp4_find_headers b = bfd_udp_find_headers b"

definition bfd_udp6_find_headers :: "bfd_ip6_header bfd_buffer \<Rightarrow> (bfd_ip6_header \<times> bfd_udp_header) option" where
  "bfd_udp6_find_headers b = do {
     (ip6, udp) \<leftarrow> bfd_udp_find_headers b;
     if ip6_protocol ip6 \<noteq> 17 then None else Some (ip6, udp)}"

text \<open>A source port out of range is reported and accepted.\<close>

definition bfd_udp4_verify_transport :: "bfd_ip4_header \<Rightarrow> bfd_session \<Rightarrow> bfd_udp_error" where
  "bfd_udp4_verify_transport ip4 bs = (let key = udp_key (bs_udp bs) in
     if ip4_src_address ip4 \<noteq> ip46_ip4 (peer_addr key) then BFD_UDP_ERROR_BAD
     else if ip4_dst_address ip4 \<noteq> ip46_ip4 (local_addr key) then BFD_UDP_ERROR_BAD
     else if ip4_ttl ip4 \<noteq> 255 then BFD_UDP_ERROR_BAD
     else BFD_UDP_ERROR_NONE)"

definition bfd_udp6_verify_transport :: "bfd_ip6_header \<Rightarrow> bfd_session \<Rightarrow> bfd_udp_error" where
  "bfd_udp6_verify_transport ip6 bs = (let key = udp_key (bs_udp bs) in
     if fst (ip6_src_address ip6) \<noteq> ip46_first (peer_addr key)
        \<and> snd (ip6_src_address ip6) \<noteq> ip46_second (peer_addr key) then BFD_UDP_ERROR_BAD
     else if fst (ip6_dst_address ip6) \<noteq> ip46_first (local_addr key)
        \<and> snd (ip6_dst_address ip6) \<noteq> ip46_second (local_addr key) then BFD_UDP_ERROR_BAD
     else if ip6_hop_limit ip6 \<noteq> 255 then BFD_UDP_ERROR_BAD
     else BFD_UDP_ERROR_NONE)"

definition bfd_udp4_pkt_key :: "u32 \<Rightarrow> bfd_ip4_header \<Rightarrow> bfd_udp_key" where
  "bfd_udp4_pkt_key sw_if_index ip4 =
    \<lparr>key_sw_if_index = sw_if_index, local_addr = ip46_of_ip4 (ip4_dst_address ip4), peer_addr = ip46_of_ip4 (ip4_src_address ip4)\<rparr>"

definition bfd_udp6_pkt_key :: "u32 \<Rightarrow> bfd_ip6_header \<Rightarrow> bfd_udp_key" where
  "bfd_udp6_pkt_key sw_if_index ip6 =
    \<lparr>key_sw_if_index = sw_if_index,
     local_addr = \<lparr>ip46_first = fst (ip6_dst_address ip6), ip46_second = snd (ip6_dst_address ip6)\<rparr>,
     peer_addr = \<lparr>ip46_first = fst (ip6_src_address ip6), ip46_second = snd (ip6_src_address ip6)\<rparr>\<rparr>"

text \<open>
  In the main thread the update is a call on a copy of \<open>length\<close> bytes of the packet. The checks ensure that these
  hold the type of the authentication; when they end before the sequence number of a SHA1 section, reading
  it there is out of bounds: \<open>None\<close>.
\<close>

definition bfd_rpc_update_session :: "u64 \<Rightarrow> u64 \<Rightarrow> bfd_frame \<Rightarrow> nat \<Rightarrow> bfd_main \<Rightarrow> bfd_main option" where
  "bfd_rpc_update_session now now' f i bm =
    (if bfd_pkt_get_auth_present (frame_pkt f) \<noteq> 0
        \<and> (sha1_type (frame_auth f) = BFD_AUTH_TYPE_keyed_sha1 \<or> sha1_type (frame_auth f) = BFD_AUTH_TYPE_meticulous_keyed_sha1)
        \<and> head_length (frame_pkt f) < 32
     then None else bfd_consume_pkt now now' f i bm)"

text \<open>
  The four readings of the clock: two by the verification, two by \<open>bfd_consume_pkt\<close>. The two scans
  differ in the headers only.
\<close>

definition bfd_udp_scan ::
    "('h bfd_buffer \<Rightarrow> ('h \<times> bfd_udp_header) option) \<Rightarrow> (u32 \<Rightarrow> 'h \<Rightarrow> bfd_udp_key) \<Rightarrow> ('h \<Rightarrow> bfd_session \<Rightarrow> bfd_udp_error) \<Rightarrow>
     bfd_env \<Rightarrow> u64 \<times> u64 \<times> u64 \<times> u64 \<Rightarrow> 'h bfd_buffer \<Rightarrow> bfd_udp_main \<Rightarrow> (bfd_udp_error \<times> nat option \<times> bfd_udp_main) option" where
  "bfd_udp_scan find_headers pkt_key verify_transport env clk b bum =
    (let (n1, n2, n3, n4) = clk; f = buffer_frame b; pkt = frame_pkt f; bad = Some (BFD_UDP_ERROR_BAD, None, bum) in
     if current_length b < sizeof_bfd_pkt then bad
     else case find_headers b of
       None \<Rightarrow> bad
     | Some (ip, udp) \<Rightarrow>
         let udp_payload_length = (ucast (udp_hdr_length udp) :: u32) - 8
         in if udp_payload_length < ucast (head_length pkt) then bad
         else if \<not> bfd_verify_pkt_common pkt then bad
         else case (if your_disc pkt \<noteq> 0
             then (if bfd_find_session_by_disc (bum_bfd_main bum) (your_disc pkt) \<noteq> None
                   then session_by_disc (bum_bfd_main bum) (your_disc pkt) else None)
             else bfd_lookup_session bum (pkt_key (rx_sw_if_index b) ip)) of
           None \<Rightarrow> bad
         | Some i \<Rightarrow> do {
             bs \<leftarrow> pool_elt_at_index (sessions (bum_bfd_main bum)) i;
             (ok, bm, bs) \<leftarrow> bfd_verify_pkt_auth env n1 n2 f (current_length b) (bum_bfd_main bum, bs);
             let bum = bum\<lparr>bum_bfd_main := bfd_store_session i (bm, bs)\<rparr>;
             if \<not> ok then Some (BFD_UDP_ERROR_BAD, None, bum)
             else if verify_transport ip bs \<noteq> BFD_UDP_ERROR_NONE then Some (verify_transport ip bs, None, bum)
             else do {
               bm \<leftarrow> bfd_rpc_update_session n3 n4 f (unat (bs_idx bs)) (bum_bfd_main bum);
               Some (BFD_UDP_ERROR_NONE, Some i, bum\<lparr>bum_bfd_main := bm\<rparr>)}})"

definition bfd_udp4_scan where
  "bfd_udp4_scan = bfd_udp_scan bfd_udp4_find_headers bfd_udp4_pkt_key bfd_udp4_verify_transport"

definition bfd_udp6_scan where
  "bfd_udp6_scan = bfd_udp_scan bfd_udp6_find_headers bfd_udp6_pkt_key bfd_udp6_verify_transport"

text \<open>One buffer of the input nodes: its error and next node, and the final frame if it answers a poll.\<close>

definition bfd_udp_input1 ::
    "(bfd_env \<Rightarrow> u64 \<times> u64 \<times> u64 \<times> u64 \<Rightarrow> 'h bfd_buffer \<Rightarrow> bfd_udp_main \<Rightarrow> (bfd_udp_error \<times> nat option \<times> bfd_udp_main) option) \<Rightarrow>
     (u32 \<Rightarrow> ip_lookup_next) \<Rightarrow> bfd_env \<Rightarrow> u64 \<times> u64 \<times> u64 \<times> u64 \<Rightarrow> u64 \<Rightarrow> 'h bfd_buffer \<Rightarrow> bfd_udp_main \<Rightarrow>
     ((bfd_udp_error \<times> bfd_udp_input_next \<times> (bfd_frame \<times> nat) option) \<times> bfd_udp_main) option" where
  "bfd_udp_input1 scan adj_next env clk now b bum = do {
     (err, bs, bum) \<leftarrow> scan env clk b bum;
     case bs of
       None \<Rightarrow> Some ((err, BFD_UDP_INPUT_NEXT_NORMAL, None), bum)
     | Some i \<Rightarrow>
         if bfd_pkt_get_poll (frame_pkt (buffer_frame b)) \<noteq> 0
         then do {
           bs \<leftarrow> pool_elt_at_index (sessions (bum_bfd_main bum)) i;
           (f, len, ctx) \<leftarrow> bfd_init_final_control_frame env now (bum_bfd_main bum, bs);
           let nxt = (case adj_next (adj_index (bs_udp bs)) of
                 IP_LOOKUP_NEXT_ARP \<Rightarrow> BFD_UDP_INPUT_NEXT_REPLY_ARP
               | IP_LOOKUP_NEXT_REWRITE \<Rightarrow> BFD_UDP_INPUT_NEXT_REPLY_REWRITE
               | IP_LOOKUP_NEXT_OTHER \<Rightarrow> BFD_UDP_INPUT_NEXT_NORMAL);
           Some ((err, nxt, Some (f, len)), bum\<lparr>bum_bfd_main := bfd_store_session i ctx\<rparr>)}
         else Some ((err, BFD_UDP_INPUT_NEXT_NORMAL, None), bum)}"

definition bfd_udp4_input1 where "bfd_udp4_input1 = bfd_udp_input1 bfd_udp4_scan"

definition bfd_udp6_input1 where "bfd_udp6_input1 = bfd_udp_input1 bfd_udp6_scan"

text \<open>An echo packet that is not from this system is sent back.\<close>

definition bfd_udp_echo_input1 ::
    "u64 \<Rightarrow> nat \<Rightarrow> bfd_echo_pkt \<Rightarrow> bfd_udp_main \<Rightarrow> (bfd_udp_error \<times> bfd_udp_input_next) \<times> bfd_udp_main" where
  "bfd_udp_echo_input1 now len pkt bum =
    (let (consumed, bm) = bfd_consume_echo_pkt now len pkt (bum_bfd_main bum)
     in ((BFD_UDP_ERROR_NONE, if consumed then BFD_UDP_INPUT_NEXT_NORMAL else BFD_UDP_INPUT_NEXT_REPLY_REWRITE),
         bum\<lparr>bum_bfd_main := bm\<rparr>))"

end
