(* ===== verification/Bfd_Udp_Table.thy ===== *)
theory Bfd_Udp_Table
  imports Bfd_Alloc Bfd_Udp
begin

text \<open>
  The sessions of BFD over UDP as a map from their keys, an interface and two addresses. The invariant
  says that the table of keys and the pool of sessions agree and that every session holds one lock on its
  adjacency. Adding, changing and deleting sessions refine the updates of the map.
\<close>

section \<open>The invariant\<close>

definition bfd_udp_but :: "nat set \<Rightarrow> bfd_udp_main \<Rightarrow> bool" where
  "bfd_udp_but X bum \<longleftrightarrow> (let S = sessions (bum_bfd_main bum) in
     bfd_table_but X (bum_bfd_main bum) \<and> length (pool_vec S) \<le> 1001
     \<and> (\<forall>k i. bfd_session_idx_by_bfd_key bum k = Some i \<longleftrightarrow> i \<in> pool_live S \<and> udp_key (bs_udp (pool_vec S ! i)) = k)
     \<and> (\<forall>a. adj_locks bum a = int (card {i \<in> pool_live S. adj_index (bs_udp (pool_vec S ! i)) = a})))"

abbreviation bfd_udp_ok :: "bfd_udp_main \<Rightarrow> bool" where
  "bfd_udp_ok \<equiv> bfd_udp_but {}"

text \<open>The sessions by their keys.\<close>

definition udp_sessions :: "bfd_udp_main \<Rightarrow> bfd_udp_key \<Rightarrow> bfd_session option" where
  "udp_sessions bum k = map_option (\<lambda>i. pool_vec (sessions (bum_bfd_main bum)) ! i) (bfd_session_idx_by_bfd_key bum k)"

lemma udp_table: "bfd_udp_but X bum \<Longrightarrow> bfd_table_but X (bum_bfd_main bum)"
  by (simp add: bfd_udp_but_def Let_def)

lemma udp_idx:
  "bfd_udp_but X bum \<Longrightarrow> bfd_session_idx_by_bfd_key bum k = Some i \<longleftrightarrow>
    i \<in> pool_live (sessions (bum_bfd_main bum)) \<and> udp_key (bs_udp (pool_vec (sessions (bum_bfd_main bum)) ! i)) = k"
  by (simp add: bfd_udp_but_def Let_def)

lemma lookup_idx: "bfd_udp_but X bum \<Longrightarrow> bfd_lookup_session bum k = bfd_session_idx_by_bfd_key bum k"
  using udp_idx [of X bum k "the (bfd_session_idx_by_bfd_key bum k)"]
  by (cases "bfd_session_idx_by_bfd_key bum k") (simp_all add: bfd_lookup_session_def find_live)

lemma udp_sessions_frame:
  assumes "bfd_udp_but X bum"
    and "\<And>j. j \<in> pool_live (sessions (bum_bfd_main bum)) \<Longrightarrow> v ! j = pool_vec (sessions (bum_bfd_main bum)) ! j"
  shows "map_option (\<lambda>j. v ! j) (bfd_session_idx_by_bfd_key bum h) = udp_sessions bum h"
  using udp_idx [OF assms(1), of h "the (bfd_session_idx_by_bfd_key bum h)"] assms(2)
  by (cases "bfd_session_idx_by_bfd_key bum h") (simp_all add: udp_sessions_def)

lemma udp_key_unique:
  assumes "bfd_udp_but X bum" and "i \<in> pool_live (sessions (bum_bfd_main bum))" and "j \<in> pool_live (sessions (bum_bfd_main bum))"
    and "udp_key (bs_udp (pool_vec (sessions (bum_bfd_main bum)) ! i)) = udp_key (bs_udp (pool_vec (sessions (bum_bfd_main bum)) ! j))"
  shows "i = j"
proof -
  let ?k = "udp_key (bs_udp (pool_vec (sessions (bum_bfd_main bum)) ! i))"
  have "bfd_session_idx_by_bfd_key bum ?k = Some i" "bfd_session_idx_by_bfd_key bum ?k = Some j"
    using udp_idx [OF assms(1)] assms(2-4) by auto
  then show ?thesis by simp
qed

lemma udp_steps:
  assumes U: "bfd_udp_but X bum" and T: "bfd_table_but Y bm'" and s: "same_udp (bum_bfd_main bum) bm'"
  shows "bfd_udp_but Y (bum\<lparr>bum_bfd_main := bm'\<rparr>)"
proof -
  have "{i \<in> pool_live (sessions bm'). adj_index (bs_udp (pool_vec (sessions bm') ! i)) = a}
      = {i \<in> pool_live (sessions (bum_bfd_main bum)). adj_index (bs_udp (pool_vec (sessions (bum_bfd_main bum)) ! i)) = a}" for a
    using s by (auto simp: same_udp_def)
  then show ?thesis using assms by (auto simp: bfd_udp_but_def Let_def same_udp_def)
qed

section \<open>Operations on one session\<close>

lemma on_session_ok:
  assumes U: "bfd_udp_but X bum" and i: "i \<in> pool_live (sessions (bum_bfd_main bum))"
    and op: "op (bum_bfd_main bum, pool_vec (sessions (bum_bfd_main bum)) ! i) = Some (e, c')"
    and st: "bfd_steps_but Y (bum_bfd_main bum) (bfd_store_session i c')"
  shows "bfd_udp_on_session op i bum = Some (e, bum\<lparr>bum_bfd_main := bfd_store_session i c'\<rparr>)
    \<and> bfd_udp_but Y (bum\<lparr>bum_bfd_main := bfd_store_session i c'\<rparr>)"
  using op udp_steps [OF U] st i by (simp add: bfd_udp_on_session_def pool_elt_live)

lemma on_op_ok:
  assumes U: "bfd_udp_ok bum" and i: "i \<in> pool_live (sessions (bum_bfd_main bum))"
    and w: "\<exists>bm'. bfd_with_session op i (bum_bfd_main bum) = Some bm' \<and> bfd_steps (bum_bfd_main bum) bm'"
  shows "\<exists>c'. bfd_udp_on_session (\<lambda>ctx. map_option (Pair API_OK) (op ctx)) i bum
      = Some (API_OK, bum\<lparr>bum_bfd_main := bfd_store_session i c'\<rparr>)
    \<and> op (bum_bfd_main bum, pool_vec (sessions (bum_bfd_main bum)) ! i) = Some c'
    \<and> bfd_udp_ok (bum\<lparr>bum_bfd_main := bfd_store_session i c'\<rparr>)"
proof -
  from w i obtain c' where "op (bum_bfd_main bum, pool_vec (sessions (bum_bfd_main bum)) ! i) = Some c'"
    "bfd_steps (bum_bfd_main bum) (bfd_store_session i c')"
    by (auto simp: bfd_with_session_def pool_is_free_iff pool_elt_live split: bind_splits)
  then show ?thesis using on_session_ok [OF U i, of "\<lambda>ctx. map_option (Pair API_OK) (op ctx)" API_OK c' "{}"]
    by (intro exI [of _ c']) simp
qed

lemma with_session_ok:
  assumes U: "bfd_udp_ok bum"
    and op: "\<And>i. i \<in> pool_live (sessions (bum_bfd_main bum)) \<Longrightarrow> \<exists>e bum'. op i bum = Some (e, bum') \<and> bfd_udp_ok bum'"
  shows "\<exists>e bum'. bfd_udp_with_session op ifs sw l p bum = Some (e, bum') \<and> bfd_udp_ok bum'"
  using U op udp_idx [OF U] unfolding bfd_udp_with_session_def bfd_udp_find_session_by_api_input_def Let_def
  by (auto simp: lookup_idx [OF U] split: option.split sum.split)

lemma mod_session_ok:
  assumes "bfd_udp_ok bum"
  shows "\<exists>e bum'. bfd_udp_mod_session ifs sw l p tx rx mult bum = Some (e, bum') \<and> bfd_udp_ok bum'"
  unfolding bfd_udp_mod_session_def
  by (rule with_session_ok [OF assms]) (use on_op_ok [OF assms _ set_params_table [OF udp_table [OF assms]]] in blast)

lemma set_flags_ok:
  assumes "bfd_udp_ok bum"
  shows "\<exists>e bum'. bfd_udp_session_set_flags now now' ifs sw l p up bum = Some (e, bum') \<and> bfd_udp_ok bum'"
  unfolding bfd_udp_session_set_flags_def
  by (rule with_session_ok [OF assms]) (use on_op_ok [OF assms _ set_flags_table [OF udp_table [OF assms]]] in blast)

definition keys_room :: "bfd_main \<Rightarrow> bool" where
  "keys_room bm \<longleftrightarrow> (\<forall>k. key_count bm k < 2 ^ 32 - 1)"

lemma auth_activate_ok:
  assumes "bfd_udp_ok bum" and "keys_room (bum_bfd_main bum)"
  shows "\<exists>e bum'. bfd_udp_auth_activate ifs sw l p conf kid delayed bum = Some (e, bum') \<and> bfd_udp_ok bum'"
  unfolding bfd_udp_auth_activate_def
proof (rule with_session_ok [OF assms(1)])
  fix i assume i: "i \<in> pool_live (sessions (bum_bfd_main bum))"
  from activate_table [OF udp_table [OF assms(1)] i refl, of conf kid delayed] assms(2)
  show "\<exists>e bum'. bfd_udp_on_session (bfd_auth_activate conf kid delayed) i bum = Some (e, bum') \<and> bfd_udp_ok bum'"
    using on_session_ok [OF assms(1) i, of "bfd_auth_activate conf kid delayed"] unfolding keys_room_def by blast
qed

lemma auth_deactivate_ok:
  assumes "bfd_udp_ok bum"
  shows "\<exists>e bum'. bfd_udp_auth_deactivate ifs sw l p delayed bum = Some (e, bum') \<and> bfd_udp_ok bum'"
  unfolding bfd_udp_auth_deactivate_def
proof (rule with_session_ok [OF assms])
  fix i assume i: "i \<in> pool_live (sessions (bum_bfd_main bum))"
  from deactivate_table [OF udp_table [OF assms] i refl, of delayed]
  show "\<exists>e bum'. bfd_udp_on_session (bfd_auth_deactivate delayed) i bum = Some (e, bum') \<and> bfd_udp_ok bum'"
    using on_session_ok [OF assms i, of "bfd_auth_deactivate delayed"] by blast
qed

section \<open>Deletion\<close>

lemma int_card_remove: "finite A \<Longrightarrow> int (card (A - {i})) = int (card A) - (if i \<in> A then 1 else 0)"
  using card.remove [of A i] by (cases "i \<in> A") (simp_all del: card_Diff_insert)

lemma del_internal_ok:
  assumes U: "bfd_udp_but X bum" and i: "i \<in> pool_live (sessions (bum_bfd_main bum))"
  defines "bs \<equiv> pool_vec (sessions (bum_bfd_main bum)) ! i"
  shows "\<exists>bum'. bfd_udp_del_session_internal i bum = Some bum' \<and> bfd_udp_but (X - {i}) bum'
    \<and> pool_live (sessions (bum_bfd_main bum')) = pool_live (sessions (bum_bfd_main bum)) - {i}
    \<and> udp_sessions bum' = (udp_sessions bum)(udp_key (bs_udp bs) := None)"
proof -
  let ?bm = "bum_bfd_main bum" and ?adj = "adj_index (bs_udp bs)"
  from put_session_table [OF udp_table [OF U] i] obtain p q where
    e: "bfd_put_session i ?bm = Some (?bm\<lparr>auth_keys := q, session_by_disc := (session_by_disc ?bm)(local_discr bs := None), sessions := p\<rparr>)"
    and p: "pool_live p = pool_live (sessions ?bm) - {i}" "pool_vec p = pool_vec (sessions ?bm)"
    and T: "bfd_table_but (X - {i}) (?bm\<lparr>auth_keys := q, session_by_disc := (session_by_disc ?bm)(local_discr bs := None), sessions := p\<rparr>)"
    unfolding bs_def by blast
  let ?bum = "bum\<lparr>bfd_session_idx_by_bfd_key := (bfd_session_idx_by_bfd_key bum)(udp_key (bs_udp bs) := None),
    adj_locks := (adj_locks bum)(?adj := adj_locks bum ?adj - 1),
    bum_bfd_main := ?bm\<lparr>auth_keys := q, session_by_disc := (session_by_disc ?bm)(local_discr bs := None), sessions := p\<rparr>\<rparr>"
  have d: "bfd_udp_del_session_internal i bum = Some ?bum"
    using i e by (simp add: bfd_udp_del_session_internal_def pool_elt_live bs_def Let_def)
  let ?A = "\<lambda>a. {j \<in> pool_live (sessions ?bm). adj_index (bs_udp (pool_vec (sessions ?bm) ! j)) = a}"
  have "{j \<in> pool_live p. adj_index (bs_udp (pool_vec (sessions ?bm) ! j)) = a} = ?A a - {i}" for a by (auto simp: p)
  moreover have "int (card (?A a - {i})) = int (card (?A a)) - (if a = ?adj then 1 else 0)" for a
    using i int_card_remove [of "?A a" i] by (simp add: bs_def eq_commute [of a])
  ultimately have L: "adj_locks ?bum a = int (card {j \<in> pool_live p. adj_index (bs_udp (pool_vec (sessions ?bm) ! j)) = a})" for a
    using U by (simp add: bfd_udp_but_def Let_def)
  have "bfd_session_idx_by_bfd_key ?bum k = Some j \<longleftrightarrow> j \<in> pool_live p \<and> udp_key (bs_udp (pool_vec p ! j)) = k" for k j
    using udp_idx [OF U, of k j] udp_key_unique [OF U _ i, of j] udp_idx [OF U, of "udp_key (bs_udp bs)" i] i
    by (auto simp: p bs_def)
  then have "bfd_udp_but (X - {i}) ?bum" using U T L by (simp add: bfd_udp_but_def Let_def p)
  moreover have "udp_sessions ?bum = (udp_sessions bum)(udp_key (bs_udp bs) := None)"
    by (simp add: fun_eq_iff udp_sessions_def p)
  ultimately show ?thesis using d p(1) by (intro exI [of _ ?bum]) simp
qed

lemma del_session_ok:
  assumes "bfd_udp_ok bum"
  shows "\<exists>e bum'. bfd_udp_del_session ifs sw l p bum = Some (e, bum') \<and> bfd_udp_ok bum'"
  unfolding bfd_udp_del_session_def
proof (rule with_session_ok [OF assms])
  fix i assume "i \<in> pool_live (sessions (bum_bfd_main bum))"
  from del_internal_ok [OF assms this]
  show "\<exists>e bum'. map_option (Pair API_OK) (bfd_udp_del_session_internal i bum) = Some (e, bum') \<and> bfd_udp_ok bum'" by auto
qed

section \<open>Addition\<close>

text \<open>A session enters the table of keys with a lock on its adjacency.\<close>

lemma add_key_ok:
  assumes U: "bfd_udp_ok bum" and new: "i \<notin> pool_live (sessions (bum_bfd_main bum))"
    and T: "bfd_table_but {i} bm" and live: "pool_live (sessions bm) = insert i (pool_live (sessions (bum_bfd_main bum)))"
    and old: "\<And>j. j \<in> pool_live (sessions (bum_bfd_main bum)) \<Longrightarrow> pool_vec (sessions bm) ! j = pool_vec (sessions (bum_bfd_main bum)) ! j"
    and len: "length (pool_vec (sessions bm)) \<le> 1001" and k: "bfd_session_idx_by_bfd_key bum k = None"
    and u: "bs_udp (pool_vec (sessions bm) ! i) = \<lparr>udp_key = k, adj_index = adj\<rparr>"
  defines "bum' \<equiv> bum\<lparr>bfd_session_idx_by_bfd_key := (bfd_session_idx_by_bfd_key bum)(k \<mapsto> i),
      adj_locks := (adj_locks bum)(adj := adj_locks bum adj + 1), bum_bfd_main := bm\<rparr>"
  shows "bfd_udp_but {i} bum' \<and> udp_sessions bum' = (udp_sessions bum)(k \<mapsto> pool_vec (sessions bm) ! i)"
proof
  let ?S = "sessions (bum_bfd_main bum)"
  have idx: "bfd_session_idx_by_bfd_key bum' h = Some j \<longleftrightarrow> j \<in> pool_live (sessions bm) \<and> udp_key (bs_udp (pool_vec (sessions bm) ! j)) = h"
    for h j using udp_idx [OF U, of h j] udp_idx [OF U, of k j] k u new old by (auto simp: bum'_def live)
  have "{j \<in> pool_live (sessions bm). adj_index (bs_udp (pool_vec (sessions bm) ! j)) = a}
      = (if a = adj then {i} else {}) \<union> {j \<in> pool_live ?S. adj_index (bs_udp (pool_vec ?S ! j)) = a}" for a
    using old u by (auto simp: live)
  then have "adj_locks bum' a = int (card {j \<in> pool_live (sessions bm). adj_index (bs_udp (pool_vec (sessions bm) ! j)) = a})" for a
    using U new by (simp add: bum'_def bfd_udp_but_def Let_def)
  then show "bfd_udp_but {i} bum'" using idx T len by (simp add: bfd_udp_but_def Let_def bum'_def)
  have "map_option (\<lambda>j. pool_vec (sessions bm) ! j) (bfd_session_idx_by_bfd_key bum h) = udp_sessions bum h" for h
    using udp_sessions_frame [OF U old] .
  then show "udp_sessions bum' = (udp_sessions bum)(k \<mapsto> pool_vec (sessions bm) ! i)"
    by (auto simp: fun_eq_iff bum'_def udp_sessions_def)
qed

lemma store_session_fields:
  assumes "i \<in> pool_live (sessions bm)"
  shows "pool_live (sessions (bfd_store_session i (bm, bs))) = pool_live (sessions bm)"
    "pool_vec (sessions (bfd_store_session i (bm, bs))) ! i = bs"
    "j \<noteq> i \<Longrightarrow> pool_vec (sessions (bfd_store_session i (bm, bs))) ! j = pool_vec (sessions bm) ! j"
    "length (pool_vec (sessions (bfd_store_session i (bm, bs)))) = length (pool_vec (sessions bm))"
  using live_length [OF assms] by (simp_all add: bfd_store_session_def)

lemma usec_pair_store: "usec_pair (bfd_store_session i (bm, bs)) = usec_pair bm"
  by (simp add: fun_eq_iff usec_pair_def bfd_store_session_def)

lemma add_internal_ok:
  assumes U: "bfd_udp_ok bum" and room: "card (pool_live (sessions (bum_bfd_main bum))) \<le> 1000"
    and k_def: "k = bfd_udp_key_init sw l p"
  shows "if bfd_session_idx_by_bfd_key bum k = None
    then \<exists>i bum'. bfd_udp_add_session_internal memory adj_nbr sw tx rx mult l p bum = Some (API_OK, Some i, bum') \<and> bfd_udp_but {i} bum'
      \<and> bfd_session_idx_by_bfd_key bum' k = Some i \<and> bfd_new (bum_bfd_main bum') (pool_vec (sessions (bum_bfd_main bum')) ! i)
      \<and> (\<exists>bs. udp_sessions bum' = (udp_sessions bum)(k \<mapsto> bs) \<and> config_desired_min_tx_usec bs = tx
          \<and> config_required_min_rx_usec bs = rx \<and> local_detect_mult bs = mult)
      \<and> auth_keys (bum_bfd_main bum') = auth_keys (bum_bfd_main bum)
      \<and> auth_key_by_conf_key_id (bum_bfd_main bum') = auth_key_by_conf_key_id (bum_bfd_main bum)
    else \<exists>bum'. bfd_udp_add_session_internal memory adj_nbr sw tx rx mult l p bum = Some (VNET_API_ERROR_BFD_EEXIST, None, bum')
      \<and> bfd_udp_ok bum' \<and> udp_sessions bum' = udp_sessions bum"
proof -
  let ?bm = "bum_bfd_main bum" and ?t = "if \<not> ip46_address_is_ip4 l then BFD_TRANSPORT_UDP6 else BFD_TRANSPORT_UDP4"
  from get_session_table [OF udp_table [OF U] room, of memory ?t] obtain i bm where
    g: "bfd_get_session memory ?t ?bm = Some (Some i, bm)" and new: "i \<notin> pool_live (sessions ?bm)"
    and live: "pool_live (sessions bm) = insert i (pool_live (sessions ?bm))"
    and old: "\<And>j. j \<in> pool_live (sessions ?bm) \<Longrightarrow> pool_vec (sessions bm) ! j = pool_vec (sessions ?bm) ! j"
    and T: "bfd_table_but {i} bm" and n: "bfd_new bm (pool_vec (sessions bm) ! i)"
    and len: "length (pool_vec (sessions bm)) \<le> max (length (pool_vec (sessions ?bm))) (card (pool_live (sessions ?bm)) + 1)"
    and fr: "\<exists>q d s. bm = ?bm\<lparr>sessions := q, session_by_disc := d, random_seed := s\<rparr>" by blast
  have i: "i \<in> pool_live (sessions bm)" by (simp add: live)
  have len1: "length (pool_vec (sessions bm)) \<le> 1001" using len room U by (auto simp: bfd_udp_but_def Let_def)
  let ?bs = "pool_vec (sessions bm) ! i"
  let ?b2 = "?bs\<lparr>bs_udp := \<lparr>udp_key = k, adj_index = 0\<rparr>\<rparr>"
  let ?m2 = "bfd_store_session i (bm, ?b2)"
  note f2 = store_session_fields [OF i, where bs = ?b2]
  have T2: "bfd_table_but {i} ?m2" by (rule store_new [OF T i]) simp_all
  have i2: "i \<in> pool_live (sessions ?m2)" by (simp add: f2 i)
  have lk: "bfd_lookup_session (bum\<lparr>bum_bfd_main := ?m2\<rparr>) k = bfd_session_idx_by_bfd_key bum k"
    using udp_idx [OF U, of k "the (bfd_session_idx_by_bfd_key bum k)"]
    by (cases "bfd_session_idx_by_bfd_key bum k") (simp_all add: bfd_lookup_session_def find_live f2 live)
  show ?thesis
  proof (cases "bfd_session_idx_by_bfd_key bum k")
    case None
    let ?adj = "adj_nbr ?t (peer_addr k) (key_sw_if_index k)"
    let ?b3 = "?b2\<lparr>bs_udp := \<lparr>udp_key = k, adj_index = ?adj\<rparr>\<rparr>"
    have "usec_pair ?m2 = usec_pair bm" by (rule usec_pair_store)
    then have n3: "bfd_new ?m2 ?b3" using n by (simp add: bfd_new_def) (simp add: bfd_store_session_def)
    have m2: "bfd_main_ok ?m2" using T2 by (simp add: bfd_table_but_def)
    from set_params_new [OF m2 n3, of tx rx mult] obtain m4 b4 where
      s: "bfd_session_set_params tx rx mult (?m2, ?b3) = Some (m4, b4)" "bfd_config m4 = bfd_config ?m2" "bfd_new ?m2 b4"
        "bs_auth b4 = bs_auth ?b3" "bs_udp b4 = bs_udp ?b3" "bs_idx b4 = bs_idx ?b3" "local_discr b4 = local_discr ?b3"
        "config_desired_min_tx_usec b4 = tx" "config_required_min_rx_usec b4 = rx" "local_detect_mult b4 = mult" by blast
    let ?m5 = "bfd_store_session i (m4, b4)"
    have S4: "sessions m4 = sessions ?m2" using bfd_config_fields [OF s(2)] by simp
    have i4: "i \<in> pool_live (sessions m4)" using i2 by (simp add: S4)
    note f5 = store_session_fields [OF i4, where bs = b4]
    have T5: "bfd_table_but {i} ?m5" by (rule store_new [OF T2 i2 s(2)]) (simp_all add: s f2)
    let ?bum = "bum\<lparr>bfd_session_idx_by_bfd_key := (bfd_session_idx_by_bfd_key bum)(k \<mapsto> i),
      adj_locks := (adj_locks bum)(?adj := adj_locks bum ?adj + 1), bum_bfd_main := ?m5\<rparr>"
    have A: "bfd_udp_but {i} ?bum \<and> udp_sessions ?bum = (udp_sessions bum)(k \<mapsto> pool_vec (sessions ?m5) ! i)"
    proof (rule add_key_ok [OF U new T5 _ _ _ None])
      show "pool_vec (sessions ?m5) ! j = pool_vec (sessions ?bm) ! j" if "j \<in> pool_live (sessions ?bm)" for j
        using that new f5(3) [of j] f2(3) [of j] old [OF that] by (auto simp: S4)
    qed (simp_all add: f5 S4 f2 live len1 s)
    have "unat (bs_idx ?bs) = i"
      using T i live_length [OF i] len1 by (simp add: bfd_table_but_def unat_of_nat)
    then have e: "bfd_udp_add_session_internal memory adj_nbr sw tx rx mult l p bum = Some (API_OK, Some i, ?bum)"
      using g i lk None s(1) by (simp add: bfd_udp_add_session_internal_def Let_def pool_elt_live flip: k_def)
    have "usec_pair ?m5 = usec_pair ?m2" using usec_pair_store usec_pair_cong [OF s(2)] by (rule trans)
    then have "bfd_new ?m5 b4" using s(3) bfd_config_fields [OF s(2)] by (simp add: bfd_new_def) (simp add: bfd_store_session_def)
    moreover have "auth_keys ?m5 = auth_keys ?bm" "auth_key_by_conf_key_id ?m5 = auth_key_by_conf_key_id ?bm"
      using fr bfd_config_fields [OF s(2)] by (auto simp: bfd_store_session_def)
    ultimately show ?thesis using None A e s f5 by (intro if_P [THEN iffD2] exI [of _ i] exI [of _ ?bum]) auto
  next
    case (Some j)
    from put_session_table [OF T2 i2] obtain q r d where
      e: "bfd_put_session i ?m2 = Some (?m2\<lparr>auth_keys := r, session_by_disc := d, sessions := q\<rparr>)"
      and q: "pool_live q = pool_live (sessions ?m2) - {i}" "pool_vec q = pool_vec (sessions ?m2)"
      and Tq: "bfd_table_ok (?m2\<lparr>auth_keys := r, session_by_disc := d, sessions := q\<rparr>)" by auto
    let ?m = "?m2\<lparr>auth_keys := r, session_by_disc := d, sessions := q\<rparr>"
    have lq: "pool_live q = pool_live (sessions ?bm)" using q(1) new by (simp add: f2 live)
    have vq: "pool_vec q ! h = pool_vec (sessions ?bm) ! h" if "h \<in> pool_live (sessions ?bm)" for h
      using that new old [OF that] f2(3) [of h] by (auto simp: q(2))
    have "{h \<in> pool_live (sessions ?bm). adj_index (bs_udp (pool_vec q ! h)) = a}
        = {h \<in> pool_live (sessions ?bm). adj_index (bs_udp (pool_vec (sessions ?bm) ! h)) = a}" for a using vq by auto
    then have "bfd_udp_ok (bum\<lparr>bum_bfd_main := ?m\<rparr>)"
      using U Tq len1 vq by (auto simp: bfd_udp_but_def Let_def lq q(2) f2)
    moreover have "map_option (\<lambda>j. pool_vec q ! j) (bfd_session_idx_by_bfd_key bum h) = udp_sessions bum h" for h
      using udp_sessions_frame [OF U vq] .
    then have "udp_sessions (bum\<lparr>bum_bfd_main := ?m\<rparr>) = udp_sessions bum" by (simp add: fun_eq_iff udp_sessions_def)
    moreover have "bfd_udp_add_session_internal memory adj_nbr sw tx rx mult l p bum
        = Some (VNET_API_ERROR_BFD_EEXIST, None, bum\<lparr>bum_bfd_main := ?m\<rparr>)"
      using g i lk Some e by (simp add: bfd_udp_add_session_internal_def Let_def pool_elt_live flip: k_def)
    ultimately show ?thesis using Some by auto
  qed
qed

end
