(* ===== verification/Bfd_Udp_Api.thy ===== *)
theory Bfd_Udp_Api
  imports Bfd_Udp_Table
begin

text \<open>
  The API and the input nodes of BFD over UDP. Every call returns, and keeps the invariant of the table;
  the calls that add, change and delete a session update the map of the sessions by their keys.
\<close>

section \<open>The calls\<close>

lemma key_update_shape: "auth_key_update i g bm = Some bm' \<Longrightarrow> bm'\<lparr>auth_keys := p\<rparr> = bm\<lparr>auth_keys := p\<rparr>"
  by (auto simp: auth_key_update_def split: bind_splits)

lemma key_release_shape: "key_release k bm = Some bm' \<Longrightarrow> bm'\<lparr>auth_keys := p\<rparr> = bm\<lparr>auth_keys := p\<rparr>"
  by (cases k) (auto simp: key_release_def key_update_shape)

lemma activate_shape:
  assumes "bfd_auth_activate conf kid delayed (bm, bs) = Some (e, bm', bs')"
  shows "bm' = bm\<lparr>auth_keys := auth_keys bm'\<rparr>" and "bs' = bs\<lparr>bs_auth := bs_auth bs'\<rparr>"
proof -
  have "bm'\<lparr>auth_keys := p\<rparr> = bm\<lparr>auth_keys := p\<rparr> \<and> bs'\<lparr>bs_auth := a\<rparr> = bs\<lparr>bs_auth := a\<rparr>" for p a
    using assms by (auto simp: bfd_auth_activate_def Let_def key_update_shape [where p = p] key_release_shape [where p = p]
      split: option.splits if_splits bind_splits)
  from this [of "auth_keys bm'" "bs_auth bs'"]
  show "bm' = bm\<lparr>auth_keys := auth_keys bm'\<rparr>" "bs' = bs\<lparr>bs_auth := bs_auth bs'\<rparr>" by simp_all
qed

definition interface_has :: "bfd_interface \<Rightarrow> ip46_address \<Rightarrow> bool" where
  "interface_has sw_if a \<longleftrightarrow> if_flags sw_if AND VNET_SW_INTERFACE_FLAG_UNNUMBERED = 0 \<and>
    (if ip46_address_is_ip4 a then \<exists>n. (ip46_ip4 a, n) \<in> set (ip4_addresses sw_if)
     else \<exists>n. ((ip46_first a, ip46_second a), n) \<in> set (ip6_addresses sw_if))"

definition address_result :: "bfd_interfaces \<Rightarrow> u32 \<Rightarrow> ip46_address \<Rightarrow> ip46_address \<Rightarrow> vnet_api_error" where
  "address_result ifs sw l p = (case ifs sw of
     None \<Rightarrow> VNET_API_ERROR_INVALID_SW_IF_INDEX
   | Some sw_if \<Rightarrow>
       if ip46_address_is_ip4 l \<noteq> ip46_address_is_ip4 p then VNET_API_ERROR_INVALID_ARGUMENT
       else if interface_has sw_if l then API_OK else VNET_API_ERROR_ADDRESS_NOT_FOUND_FOR_INTERFACE)"

lemma validate_result: "bfd_udp_validate_api_input ifs sw l p = address_result ifs sw l p"
  by (fastforce simp: bfd_udp_validate_api_input_def address_result_def interface_has_def visited_addresses_def list_ex_iff Let_def
    split: option.split)

definition add_session_result ::
    "bfd_interfaces \<Rightarrow> u32 \<Rightarrow> ip46_address \<Rightarrow> ip46_address \<Rightarrow> u32 \<Rightarrow> u8 \<Rightarrow> u8 \<Rightarrow> u32 \<Rightarrow> bfd_udp_main \<Rightarrow> vnet_api_error" where
  "add_session_result ifs sw l p tx mult auth conf bum =
    (if address_result ifs sw l p \<noteq> API_OK then address_result ifs sw l p
     else if mult = 0 \<or> tx = 0 then VNET_API_ERROR_INVALID_ARGUMENT
     else if udp_sessions bum (bfd_udp_key_init sw l p) \<noteq> None then VNET_API_ERROR_BFD_EEXIST
     else if auth \<noteq> 0 \<and> auth_key_by_conf_key_id (bum_bfd_main bum) conf = None then VNET_API_ERROR_BFD_ENOENT
     else API_OK)"

lemma verify_common_result:
  "bfd_api_verify_common ifs sw tx mult l p =
    (if address_result ifs sw l p \<noteq> API_OK then address_result ifs sw l p
     else if mult = 0 \<or> tx = 0 then VNET_API_ERROR_INVALID_ARGUMENT else API_OK)"
proof -
  have "mult < 1 \<longleftrightarrow> mult = 0" "tx < 1 \<longleftrightarrow> tx = 0" by (simp_all add: word_less_nat_alt unat_eq_0)
  then show ?thesis by (simp add: bfd_api_verify_common_def validate_result Let_def)
qed

lemma add_result_eq:
  "add_session_result ifs sw l p tx mult auth conf bum =
    (let rv = bfd_api_verify_common ifs sw tx mult l p in
     if rv \<noteq> API_OK then rv
     else if udp_sessions bum (bfd_udp_key_init sw l p) \<noteq> None then VNET_API_ERROR_BFD_EEXIST
     else if auth \<noteq> 0 \<and> auth_key_by_conf_key_id (bum_bfd_main bum) conf = None then VNET_API_ERROR_BFD_ENOENT
     else API_OK)"
  by (simp add: add_session_result_def verify_common_result Let_def)

text \<open>The session that a key identifies, updated in place.\<close>

lemma udp_sessions_store:
  assumes U: "bfd_udp_but X bum" and i: "i \<in> pool_live (sessions (bum_bfd_main bum))"
    and s: "sessions bm' = sessions (bum_bfd_main bum)"
  shows "udp_sessions (bum\<lparr>bum_bfd_main := bfd_store_session i (bm', bs')\<rparr>)
    = (udp_sessions bum)(udp_key (bs_udp (pool_vec (sessions (bum_bfd_main bum)) ! i)) \<mapsto> bs')"
proof (rule ext)
  fix h
  show "udp_sessions (bum\<lparr>bum_bfd_main := bfd_store_session i (bm', bs')\<rparr>) h
      = ((udp_sessions bum)(udp_key (bs_udp (pool_vec (sessions (bum_bfd_main bum)) ! i)) \<mapsto> bs')) h"
    using udp_idx [OF U, of h "the (bfd_session_idx_by_bfd_key bum h)"]
      udp_idx [OF U, of "udp_key (bs_udp (pool_vec (sessions (bum_bfd_main bum)) ! i))" i] i live_length [OF i]
    by (cases "bfd_session_idx_by_bfd_key bum h") (auto simp: udp_sessions_def bfd_store_session_def s nth_list_update)
qed

lemma start_session_ok:
  assumes U: "bfd_udp_but {i} bum" and i: "i \<in> pool_live (sessions (bum_bfd_main bum))"
    and n: "bfd_new (bum_bfd_main bum) (pool_vec (sessions (bum_bfd_main bum)) ! i)"
  shows "\<exists>bum'. bfd_udp_on_session (\<lambda>ctx. Some (API_OK, bfd_session_start ctx)) i bum = Some (API_OK, bum') \<and> bfd_udp_ok bum'
    \<and> (\<exists>bs. udp_sessions bum' = (udp_sessions bum)(udp_key (bs_udp (pool_vec (sessions (bum_bfd_main bum)) ! i)) \<mapsto> bs)
      \<and> (config_desired_min_tx_usec bs, config_required_min_rx_usec bs, local_detect_mult bs, local_state bs, bs_auth bs)
        = (let bs = pool_vec (sessions (bum_bfd_main bum)) ! i in
           (config_desired_min_tx_usec bs, config_required_min_rx_usec bs, local_detect_mult bs, local_state bs, bs_auth bs)))"
proof -
  let ?bm = "bum_bfd_main bum"
  let ?bs = "pool_vec (sessions ?bm) ! i"
  obtain bm' bs' where s: "bfd_session_start (?bm, ?bs) = (bm', bs')" by fastforce
  have c: "bs_udp bs' = bs_udp ?bs" "config_desired_min_tx_usec bs' = config_desired_min_tx_usec ?bs"
      "config_required_min_rx_usec bs' = config_required_min_rx_usec ?bs" "local_detect_mult bs' = local_detect_mult ?bs"
      "local_state bs' = local_state ?bs" "bs_auth bs' = bs_auth ?bs" "sessions bm' = sessions ?bm"
    using s by (auto simp: bfd_session_start_def bfd_recalc_tx_interval_def bfd_set_effective_required_min_rx_def
      bfd_recalc_detection_time_def Let_def bfd_call_def split: if_splits)
  have st: "bfd_steps ?bm (bfd_store_session i (bm', bs'))"
    using session_start_table [OF udp_table [OF U] i n] same_udp_store [OF i c(7,1)] by (simp add: s)
  let ?bum = "bum\<lparr>bum_bfd_main := bfd_store_session i (bm', bs')\<rparr>"
  have "bfd_udp_on_session (\<lambda>ctx. Some (API_OK, bfd_session_start ctx)) i bum = Some (API_OK, ?bum) \<and> bfd_udp_ok ?bum"
    by (rule on_session_ok [OF U i]) (simp_all add: s st)
  moreover have "udp_sessions ?bum = (udp_sessions bum)(udp_key (bs_udp ?bs) \<mapsto> bs')" by (rule udp_sessions_store [OF U i c(7)])
  ultimately show ?thesis using c by (intro exI [of _ ?bum]) (auto simp: Let_def)
qed

text \<open>Activation of a key on a session that is not started: it fails exactly when there is no such key.\<close>

lemma activate_new_ok:
  assumes U: "bfd_udp_but {i} bum" and i: "i \<in> pool_live (sessions (bum_bfd_main bum))"
    and bs: "bs = pool_vec (sessions (bum_bfd_main bum)) ! i" and n: "bfd_new (bum_bfd_main bum) bs"
    and room: "\<And>j. key_count (bum_bfd_main bum) j < 2 ^ 32 - 1"
    and r: "r = (if auth_key_by_conf_key_id (bum_bfd_main bum) conf = None then VNET_API_ERROR_BFD_ENOENT else API_OK)"
  shows "\<exists>bum' bs'. bfd_udp_on_session (bfd_auth_activate conf kid 0) i bum = Some (r, bum') \<and> bfd_udp_but {i} bum'
    \<and> i \<in> pool_live (sessions (bum_bfd_main bum')) \<and> pool_vec (sessions (bum_bfd_main bum')) ! i = bs' \<and> bfd_new (bum_bfd_main bum') bs'
    \<and> udp_sessions bum' = (udp_sessions bum)(udp_key (bs_udp bs) \<mapsto> bs') \<and> udp_key (bs_udp bs') = udp_key (bs_udp bs)
    \<and> config_desired_min_tx_usec bs' = config_desired_min_tx_usec bs
    \<and> config_required_min_rx_usec bs' = config_required_min_rx_usec bs \<and> local_detect_mult bs' = local_detect_mult bs"
proof -
  let ?m = "bum_bfd_main bum"
  from activate_table [OF udp_table [OF U] i refl, of conf kid 0] room obtain r' m2 b2 where
    ac: "bfd_auth_activate conf kid 0 (?m, bs) = Some (r', m2, b2)" "bfd_steps_but {i} ?m (bfd_store_session i (m2, b2))"
      "r' = API_OK \<longleftrightarrow> auth_key_by_conf_key_id ?m conf \<noteq> None" unfolding bs by fastforce
  note sh = activate_shape [OF ac(1)]
  have r': "r' = r" using ac(1,3) by (auto simp: r bfd_auth_activate_def)
  have S2: "sessions m2 = sessions ?m" by (subst sh(1)) simp
  let ?b = "bum\<lparr>bum_bfd_main := bfd_store_session i (m2, b2)\<rparr>"
  have on: "bfd_udp_on_session (bfd_auth_activate conf kid 0) i bum = Some (r, ?b)" "bfd_udp_but {i} ?b"
    using on_session_ok [OF U i, of "bfd_auth_activate conf kid 0" r' "(m2, b2)" "{i}"] ac(1,2) unfolding bs r' by auto
  have i2: "i \<in> pool_live (sessions (bum_bfd_main ?b))" using i by (simp add: bfd_store_session_def S2)
  have v2: "pool_vec (sessions (bum_bfd_main ?b)) ! i = b2" using live_length [OF i] by (simp add: bfd_store_session_def S2)
  have "usec_pair (bum_bfd_main ?b) = usec_pair ?m" by (subst sh(1)) (simp add: usec_pair_store fun_eq_iff usec_pair_def)
  moreover have "default_desired_min_tx_clocks (bum_bfd_main ?b) = default_desired_min_tx_clocks ?m"
    by (subst sh(1)) (simp add: bfd_store_session_def)
  ultimately have "bfd_new (bum_bfd_main ?b) b2" using n by (subst sh(2)) (simp add: bfd_new_def)
  moreover have "udp_sessions ?b = (udp_sessions bum)(udp_key (bs_udp bs) \<mapsto> b2)" using udp_sessions_store [OF U i S2] by (simp add: bs)
  moreover have "udp_key (bs_udp b2) = udp_key (bs_udp bs)" "config_desired_min_tx_usec b2 = config_desired_min_tx_usec bs"
    "config_required_min_rx_usec b2 = config_required_min_rx_usec bs" "local_detect_mult b2 = local_detect_mult bs"
    by (subst sh(2); simp)+
  ultimately show ?thesis using on i2 v2 by (intro exI [of _ ?b] exI [of _ b2]) simp
qed

lemma add_session_ok:
  assumes U: "bfd_udp_ok bum" and room: "card (pool_live (sessions (bum_bfd_main bum))) \<le> 1000" and kr: "keys_room (bum_bfd_main bum)"
    and e: "e = add_session_result ifs sw l p tx mult auth conf bum"
  shows "\<exists>bum'. bfd_udp_add_session memory adj_nbr ifs sw l p tx rx mult auth conf kid bum = Some (e, bum') \<and> bfd_udp_ok bum'
    \<and> (if e = API_OK
       then \<exists>bs. udp_sessions bum' = (udp_sessions bum)(bfd_udp_key_init sw l p \<mapsto> bs) \<and> config_desired_min_tx_usec bs = tx
         \<and> config_required_min_rx_usec bs = rx \<and> local_detect_mult bs = mult \<and> local_state bs = BFD_STATE_down
       else udp_sessions bum' = udp_sessions bum)"
proof (cases "bfd_api_verify_common ifs sw tx mult l p = API_OK")
  case False
  then show ?thesis using U by (simp add: e bfd_udp_add_session_def add_result_eq Let_def)
next
  case v: True
  let ?k = "bfd_udp_key_init sw l p"
  note I = add_internal_ok [OF U room refl, where sw = sw and l = l and p = p and tx = tx and rx = rx and mult = mult
    and memory = memory and adj_nbr = adj_nbr]
  show ?thesis
  proof (cases "bfd_session_idx_by_bfd_key bum ?k")
    case (Some j)
    then have "e = VNET_API_ERROR_BFD_EEXIST" by (simp add: e add_result_eq v Let_def udp_sessions_def)
    then show ?thesis using I Some v by (auto simp: bfd_udp_add_session_def Let_def)
  next
    case None
    then obtain i b1 bs where a: "bfd_udp_add_session_internal memory adj_nbr sw tx rx mult l p bum = Some (API_OK, Some i, b1)"
      and U1: "bfd_udp_but {i} b1" and ik: "bfd_session_idx_by_bfd_key b1 ?k = Some i"
      and n: "bfd_new (bum_bfd_main b1) (pool_vec (sessions (bum_bfd_main b1)) ! i)"
      and us: "udp_sessions b1 = (udp_sessions bum)(?k \<mapsto> bs)" "config_desired_min_tx_usec bs = tx"
        "config_required_min_rx_usec bs = rx" "local_detect_mult bs = mult"
      and ak: "auth_keys (bum_bfd_main b1) = auth_keys (bum_bfd_main bum)"
        "auth_key_by_conf_key_id (bum_bfd_main b1) = auth_key_by_conf_key_id (bum_bfd_main bum)"
      using I by auto
    let ?m1 = "bum_bfd_main b1"
    have i: "i \<in> pool_live (sessions ?m1)" and key: "udp_key (bs_udp (pool_vec (sessions ?m1) ! i)) = ?k"
      using udp_idx [OF U1, of ?k i] ik by auto
    have bs: "bs = pool_vec (sessions ?m1) ! i" using fun_cong [OF us(1), of ?k] ik by (simp add: udp_sessions_def)
    have none: "udp_sessions bum ?k = None" using None by (simp add: udp_sessions_def)
    show ?thesis
    proof (cases "auth = 0")
      case True
      then have "e = API_OK" by (simp add: e add_result_eq v none Let_def)
      then show ?thesis using start_session_ok [OF U1 i n] a v True key us n unfolding bs
        by (auto simp: bfd_udp_add_session_def Let_def bfd_new_def)
    next
      case False
      have "key_count ?m1 j < 2 ^ 32 - 1" for j using kr by (simp add: keys_room_def key_count_def ak)
      from activate_new_ok [OF U1 i refl n this refl, of conf kid] obtain b2 bs2 where
        on: "bfd_udp_on_session (bfd_auth_activate conf kid 0) i b1 = Some (e, b2)" and U2: "bfd_udp_but {i} b2"
        and i2: "i \<in> pool_live (sessions (bum_bfd_main b2))" and v2: "pool_vec (sessions (bum_bfd_main b2)) ! i = bs2"
        and n2: "bfd_new (bum_bfd_main b2) bs2" and us2: "udp_sessions b2 = (udp_sessions bum)(?k \<mapsto> bs2)" "udp_key (bs_udp bs2) = ?k"
        and c2: "config_desired_min_tx_usec bs2 = tx" "config_required_min_rx_usec bs2 = rx" "local_detect_mult bs2 = mult"
        using us v none False unfolding bs [symmetric] by (auto simp: e add_result_eq Let_def ak key bs)
      show ?thesis
      proof (cases "e = API_OK")
        case True
        then show ?thesis using start_session_ok [OF U2 i2 n2 [folded v2]] a v on us2 c2 n2 False unfolding v2
          by (auto simp: bfd_udp_add_session_def Let_def bfd_new_def)
      next
        case failed: False
        from del_internal_ok [OF U2 i2] obtain b3 where d: "bfd_udp_del_session_internal i b2 = Some b3" "bfd_udp_ok b3"
          "udp_sessions b3 = (udp_sessions b2)(?k := None)" unfolding v2 us2(2) by auto
        have "udp_sessions b3 = udp_sessions bum" using d(3) none by (auto simp: us2)
        then show ?thesis using a v on failed d(1,2) False by (simp add: bfd_udp_add_session_def Let_def)
      qed
    qed
  qed
qed

definition lookup_result :: "bfd_interfaces \<Rightarrow> u32 \<Rightarrow> ip46_address \<Rightarrow> ip46_address \<Rightarrow> bfd_udp_main \<Rightarrow> vnet_api_error" where
  "lookup_result ifs sw l p bum =
    (if address_result ifs sw l p \<noteq> API_OK then address_result ifs sw l p
     else if udp_sessions bum (bfd_udp_key_init sw l p) = None then VNET_API_ERROR_BFD_ENOENT else API_OK)"

lemma with_session_lookup:
  assumes U: "bfd_udp_ok bum"
  shows "bfd_udp_with_session op ifs sw l p bum =
    (if lookup_result ifs sw l p bum = API_OK then op (the (bfd_session_idx_by_bfd_key bum (bfd_udp_key_init sw l p))) bum
     else Some (lookup_result ifs sw l p bum, bum))"
  by (auto simp: bfd_udp_with_session_def bfd_udp_find_session_by_api_input_def lookup_result_def validate_result Let_def lookup_idx [OF U]
    udp_sessions_def split: option.split)

lemma lookup_found:
  assumes U: "bfd_udp_ok bum" and ok: "lookup_result ifs sw l p bum = API_OK"
  defines "i \<equiv> the (bfd_session_idx_by_bfd_key bum (bfd_udp_key_init sw l p))"
  shows "i \<in> pool_live (sessions (bum_bfd_main bum))"
    "udp_key (bs_udp (pool_vec (sessions (bum_bfd_main bum)) ! i)) = bfd_udp_key_init sw l p"
    "udp_sessions bum (bfd_udp_key_init sw l p) = Some (pool_vec (sessions (bum_bfd_main bum)) ! i)"
proof -
  obtain j where j: "bfd_session_idx_by_bfd_key bum (bfd_udp_key_init sw l p) = Some j"
    using ok by (auto simp: lookup_result_def Let_def udp_sessions_def split: if_splits)
  then show "i \<in> pool_live (sessions (bum_bfd_main bum))"
    "udp_key (bs_udp (pool_vec (sessions (bum_bfd_main bum)) ! i)) = bfd_udp_key_init sw l p"
    "udp_sessions bum (bfd_udp_key_init sw l p) = Some (pool_vec (sessions (bum_bfd_main bum)) ! i)"
    using iffD1 [OF udp_idx [OF U] j] j by (simp_all add: i_def udp_sessions_def)
qed

lemma del_session_refines:
  assumes U: "bfd_udp_ok bum"
  shows "\<exists>bum'. bfd_udp_del_session ifs sw l p bum = Some (lookup_result ifs sw l p bum, bum') \<and> bfd_udp_ok bum'
    \<and> udp_sessions bum' = (if lookup_result ifs sw l p bum = API_OK then (udp_sessions bum)(bfd_udp_key_init sw l p := None)
        else udp_sessions bum)"
proof (cases "lookup_result ifs sw l p bum = API_OK")
  case True
  from del_internal_ok [OF U lookup_found(1) [OF U True]] lookup_found(2) [OF U True] True show ?thesis
    by (auto simp: bfd_udp_del_session_def with_session_lookup [OF U])
qed (use U in \<open>simp add: bfd_udp_del_session_def with_session_lookup [OF U]\<close>)

lemma mod_session_refines:
  assumes U: "bfd_udp_ok bum"
  shows "\<exists>bum'. bfd_udp_mod_session ifs sw l p tx rx mult bum = Some (lookup_result ifs sw l p bum, bum') \<and> bfd_udp_ok bum'
    \<and> (if lookup_result ifs sw l p bum = API_OK
       then \<exists>bs bs'. udp_sessions bum (bfd_udp_key_init sw l p) = Some bs \<and> udp_sessions bum' = (udp_sessions bum)(bfd_udp_key_init sw l p \<mapsto> bs')
         \<and> config_desired_min_tx_usec bs' = tx \<and> config_required_min_rx_usec bs' = rx \<and> local_detect_mult bs' = mult
         \<and> local_state bs' = local_state bs
       else udp_sessions bum' = udp_sessions bum)"
proof (cases "lookup_result ifs sw l p bum = API_OK")
  case True
  let ?i = "the (bfd_session_idx_by_bfd_key bum (bfd_udp_key_init sw l p))" and ?bm = "bum_bfd_main bum"
  let ?bs = "pool_vec (sessions ?bm) ! ?i"
  note f = lookup_found [OF U True]
  from on_op_ok [OF U f(1) set_params_table [OF udp_table [OF U]], of tx rx mult] obtain m b where
    o: "bfd_udp_on_session (\<lambda>ctx. map_option (Pair API_OK) (bfd_session_set_params tx rx mult ctx)) ?i bum
        = Some (API_OK, bum\<lparr>bum_bfd_main := bfd_store_session ?i (m, b)\<rparr>)"
      "bfd_session_set_params tx rx mult (?bm, ?bs) = Some (m, b)" "bfd_udp_ok (bum\<lparr>bum_bfd_main := bfd_store_session ?i (m, b)\<rparr>)"
    by auto
  from set_params_keeps [OF table_live [OF udp_table [OF U] f(1)], of tx rx mult] o(2)
  have b: "config_desired_min_tx_usec b = tx" "config_required_min_rx_usec b = rx" "local_detect_mult b = mult"
    "local_state b = local_state ?bs" and c: "bfd_config m = bfd_config ?bm" by (auto simp: bfd_sends_def bfd_core_def)
  have "sessions m = sessions ?bm" using bfd_config_fields [OF c] by simp
  then have "udp_sessions (bum\<lparr>bum_bfd_main := bfd_store_session ?i (m, b)\<rparr>) = (udp_sessions bum)(bfd_udp_key_init sw l p \<mapsto> b)"
    using udp_sessions_store [OF U f(1), of m b] by (simp add: f(2))
  then show ?thesis using True o b f(3) by (auto simp: bfd_udp_mod_session_def with_session_lookup [OF U])
qed (use U in \<open>simp add: bfd_udp_mod_session_def with_session_lookup [OF U]\<close>)

section \<open>The API as a service\<close>

text \<open>
  The contract of a table of sessions that a client reaches through calls that may fail: a call that fails
  leaves the sessions as they were, one that succeeds updates the session of its key and no other.
\<close>

locale session_service =
  fixes inv :: "'s \<Rightarrow> bool" and fits :: "'s \<Rightarrow> bool" and sess :: "'s \<Rightarrow> 'k \<Rightarrow> 'v option"
    and key :: "'a \<Rightarrow> 'k" and usable :: "'a \<Rightarrow> bool" and holds :: "'c \<Rightarrow> 'v \<Rightarrow> bool" and ok :: 'e
    and add :: "'a \<Rightarrow> 'c \<Rightarrow> 's \<Rightarrow> ('e \<times> 's) option" and change :: "'a \<Rightarrow> 'c \<Rightarrow> 's \<Rightarrow> ('e \<times> 's) option"
    and del :: "'a \<Rightarrow> 's \<Rightarrow> ('e \<times> 's) option"
  assumes add_law: "inv s \<Longrightarrow> fits s \<Longrightarrow> \<exists>e s'. add a c s = Some (e, s') \<and> inv s'
      \<and> (if e = ok then usable a \<and> sess s (key a) = None \<and> (\<exists>v. holds c v \<and> sess s' = (sess s)(key a \<mapsto> v)) else sess s' = sess s)"
    and change_law: "inv s \<Longrightarrow> \<exists>e s'. change a c s = Some (e, s') \<and> inv s' \<and> (e = ok \<longleftrightarrow> usable a \<and> sess s (key a) \<noteq> None)
      \<and> (if e = ok then \<exists>v. holds c v \<and> sess s' = (sess s)(key a \<mapsto> v) else sess s' = sess s)"
    and del_law: "inv s \<Longrightarrow> \<exists>e s'. del a s = Some (e, s') \<and> inv s' \<and> (e = ok \<longleftrightarrow> usable a \<and> sess s (key a) \<noteq> None)
      \<and> sess s' = (if e = ok then (sess s)(key a := None) else sess s)"
begin

lemma added:
  assumes "inv s" and "fits s" and "add a c s = Some (ok, s1)"
  obtains v where "inv s1" and "usable a" and "sess s (key a) = None" and "holds c v" and "sess s1 = (sess s)(key a \<mapsto> v)"
  using add_law [OF assms(1,2), of a c] assms(3) by auto

lemma add_del:
  assumes "inv s" and "fits s" and "add a c s = Some (ok, s1)"
  shows "\<exists>s2. del a s1 = Some (ok, s2) \<and> inv s2 \<and> sess s2 = sess s"
proof -
  obtain v where "inv s1" "usable a" "sess s (key a) = None" "sess s1 = (sess s)(key a \<mapsto> v)" by (rule added [OF assms])
  moreover from this have "(sess s1)(key a := None) = sess s" by auto
  ultimately show ?thesis using del_law [of s1 a] by auto
qed

lemma add_change:
  assumes "inv s" and "fits s" and "add a c s = Some (ok, s1)"
  shows "\<exists>s2 v. change a c' s1 = Some (ok, s2) \<and> inv s2 \<and> holds c' v \<and> sess s2 = (sess s)(key a \<mapsto> v)"
proof -
  obtain v where "inv s1" "usable a" "sess s1 = (sess s)(key a \<mapsto> v)" by (rule added [OF assms])
  then show ?thesis using change_law [of s1 a c'] by auto
qed

lemma add_twice:
  assumes "inv s" and "fits s" and "add a c s = Some (ok, s1)" and "fits s1"
  shows "\<exists>e s2. add a c' s1 = Some (e, s2) \<and> e \<noteq> ok \<and> inv s2 \<and> sess s2 = sess s1"
proof -
  obtain v where "inv s1" "sess s1 = (sess s)(key a \<mapsto> v)" by (rule added [OF assms(1-3)])
  then show ?thesis using add_law [of s1 a c'] assms(4) by (fastforce split: if_splits)
qed

end

definition sessions_fit :: "bfd_udp_main \<Rightarrow> bool" where
  "sessions_fit bum \<longleftrightarrow> card (pool_live (sessions (bum_bfd_main bum))) \<le> 1000 \<and> keys_room (bum_bfd_main bum)"

definition session_params :: "u32 \<times> u32 \<times> u8 \<Rightarrow> bfd_session \<Rightarrow> bool" where
  "session_params c bs \<longleftrightarrow> c = (config_desired_min_tx_usec bs, config_required_min_rx_usec bs, local_detect_mult bs)"

interpretation udp_api: session_service bfd_udp_ok sessions_fit udp_sessions "\<lambda>(sw, l, p). bfd_udp_key_init sw l p"
    "\<lambda>(sw, l, p). address_result ifs sw l p = API_OK" session_params API_OK
    "\<lambda>(sw, l, p) (tx, rx, mult). bfd_udp_add_session memory adj_nbr ifs sw l p tx rx mult auth conf kid"
    "\<lambda>(sw, l, p) (tx, rx, mult). bfd_udp_mod_session ifs sw l p tx rx mult"
    "\<lambda>(sw, l, p). bfd_udp_del_session ifs sw l p"
  for memory adj_nbr ifs auth conf kid
proof (unfold_locales, goal_cases)
  case (1 s a c)
  obtain sw l p tx rx mult where "a = (sw, l, p)" "c = (tx, rx, mult)" by (cases a; cases c) auto
  moreover have "address_result ifs sw l p = API_OK \<and> udp_sessions s (bfd_udp_key_init sw l p) = None"
    if "add_session_result ifs sw l p tx mult auth conf s = API_OK"
    using that by (auto simp: add_session_result_def split: if_splits)
  ultimately show ?case
    using add_session_ok [OF 1(1) _ _ refl, where ifs = ifs and sw = sw and l = l and p = p and tx = tx and mult = mult and auth = auth
        and conf = conf and memory = memory and adj_nbr = adj_nbr and rx = rx and kid = kid] 1(2)
    by (fastforce simp: sessions_fit_def session_params_def)
next
  case (2 s a c)
  obtain sw l p tx rx mult where "a = (sw, l, p)" "c = (tx, rx, mult)" by (cases a; cases c) auto
  then show ?case using mod_session_refines [OF 2, of ifs sw l p tx rx mult]
    by (fastforce simp: lookup_result_def session_params_def split: if_splits)
next
  case (3 s a)
  obtain sw l p where "a = (sw, l, p)" by (cases a) auto
  then show ?case using del_session_refines [OF 3, of ifs sw l p] by (fastforce simp: lookup_result_def split: if_splits)
qed

section \<open>Packets\<close>

lemma udp_bs_idx:
  assumes "bfd_udp_but X bum" and i: "i \<in> pool_live (sessions (bum_bfd_main bum))"
  shows "unat (bs_idx (pool_vec (sessions (bum_bfd_main bum)) ! i)) = i"
proof -
  have "i < 1001" using live_length [OF i] assms(1) by (simp add: bfd_udp_but_def Let_def)
  then show ?thesis using assms by (simp add: bfd_udp_but_def Let_def bfd_table_but_def unat_of_nat)
qed

text \<open>The session that a packet is for.\<close>

definition scan_session :: "(u32 \<Rightarrow> 'h \<Rightarrow> bfd_udp_key) \<Rightarrow> 'h bfd_buffer \<Rightarrow> 'h \<Rightarrow> bfd_udp_main \<Rightarrow> nat option" where
  "scan_session pkt_key b ip bum = (let pkt = frame_pkt (buffer_frame b) in
     if your_disc pkt \<noteq> 0 then session_by_disc (bum_bfd_main bum) (your_disc pkt)
     else bfd_session_idx_by_bfd_key bum (pkt_key (rx_sw_if_index b) ip))"

definition scan_headers :: "('h bfd_buffer \<Rightarrow> ('h \<times> bfd_udp_header) option) \<Rightarrow> 'h bfd_buffer \<Rightarrow> 'h option" where
  "scan_headers find_headers b = (case find_headers b of
     Some (ip, udp) \<Rightarrow>
       if sizeof_bfd_pkt \<le> current_length b
          \<and> (ucast (head_length (frame_pkt (buffer_frame b))) :: u32) \<le> ucast (udp_hdr_length udp) - 8
          \<and> bfd_verify_pkt_common (frame_pkt (buffer_frame b)) then Some ip else None
   | None \<Rightarrow> None)"

lemma scan_session_live:
  assumes U: "bfd_udp_ok bum" and "scan_session pkt_key b ip bum = Some i"
  shows "i \<in> pool_live (sessions (bum_bfd_main bum))"
  using assms(2) udp_idx [OF U] udp_table [OF U]
  by (auto simp: scan_session_def Let_def bfd_table_but_def split: if_splits)

lemma scan_eq:
  assumes U: "bfd_udp_ok bum"
  shows "bfd_udp_scan find_headers pkt_key verify_transport env (n1, n2, n3, n4) b bum =
    (case scan_headers find_headers b of
       None \<Rightarrow> Some (BFD_UDP_ERROR_BAD, None, bum)
     | Some ip \<Rightarrow> (case scan_session pkt_key b ip bum of
         None \<Rightarrow> Some (BFD_UDP_ERROR_BAD, None, bum)
       | Some i \<Rightarrow> do {
           (ok, bm, bs) \<leftarrow> bfd_verify_pkt_auth env n1 n2 (buffer_frame b) (current_length b)
             (bum_bfd_main bum, pool_vec (sessions (bum_bfd_main bum)) ! i);
           let bum = bum\<lparr>bum_bfd_main := bfd_store_session i (bm, bs)\<rparr>;
           if \<not> ok then Some (BFD_UDP_ERROR_BAD, None, bum)
           else if verify_transport ip bs \<noteq> BFD_UDP_ERROR_NONE then Some (verify_transport ip bs, None, bum)
           else do {
             bm \<leftarrow> bfd_rpc_update_session n3 n4 (buffer_frame b) (unat (bs_idx bs)) (bum_bfd_main bum);
             Some (BFD_UDP_ERROR_NONE, Some i, bum\<lparr>bum_bfd_main := bm\<rparr>)}}))"
proof -
  let ?bm = "bum_bfd_main bum" and ?d = "your_disc (frame_pkt (buffer_frame b))"
  have d: "(if ?d \<noteq> 0 then (if bfd_find_session_by_disc ?bm ?d \<noteq> None then session_by_disc ?bm ?d else None)
      else bfd_lookup_session bum (pkt_key (rx_sw_if_index b) ip)) = scan_session pkt_key b ip bum" for ip
    using udp_table [OF U] by (auto simp: scan_session_def Let_def lookup_idx [OF U] bfd_find_session_by_disc_def
      bfd_table_but_def pool_elt_live split: option.split)
  have l: "pool_elt_at_index (sessions ?bm) i = Some (pool_vec (sessions ?bm) ! i)" if "scan_session pkt_key b ip bum = Some i" for ip i
    using scan_session_live [OF U that] by (simp add: pool_elt_live)
  show ?thesis unfolding bfd_udp_scan_def Let_def prod.case d
    by (auto simp: scan_headers_def not_le not_less l split: option.split)
qed

text \<open>Verification touches nothing but the authentication of the session and the counts of the keys.\<close>

lemma verify_shape:
  assumes "bfd_verify_pkt_auth env n1 n2 f len (bm, bs) = Some (ok, bm', bs')"
  shows "bm' = bm\<lparr>auth_keys := auth_keys bm'\<rparr>" and "bs' = bs\<lparr>bs_auth := bs_auth bs'\<rparr>"
proof -
  have sw: "bm2\<lparr>auth_keys := p\<rparr> = bm1\<lparr>auth_keys := p\<rparr> \<and> b2\<lparr>bs_auth := a\<rparr> = b1\<lparr>bs_auth := a\<rparr>"
    if "bfd_session_switch_auth_to_next (bm1, b1) = Some (bm2, b2)" for bm1 b1 bm2 b2 p a
    using that by (auto simp: bfd_session_switch_auth_to_next_def Let_def key_release_shape [where p = p] split: bind_splits)
  have ky: "b2\<lparr>bs_auth := a\<rparr> = b1\<lparr>bs_auth := a\<rparr>" if "bfd_verify_pkt_auth_key env n f len kid key b1 = (v, b2)" for n kid key b1 v b2 a
    using verify_key_seq [of b1 env n f len kid key] that by (auto simp: seq_only_def)
  have "bm'\<lparr>auth_keys := p\<rparr> = bm\<lparr>auth_keys := p\<rparr> \<and> bs'\<lparr>bs_auth := a\<rparr> = bs\<lparr>bs_auth := a\<rparr>" for p a
    using assms by (auto simp: bfd_verify_pkt_auth_def Let_def sw [where p = p and a = a] ky [where a = a]
      split: option.splits if_splits bind_splits prod.splits)
  from this [of "auth_keys bm'" "bs_auth bs'"]
  show "bm' = bm\<lparr>auth_keys := auth_keys bm'\<rparr>" "bs' = bs\<lparr>bs_auth := bs_auth bs'\<rparr>" by simp_all
qed

text \<open>What a session is besides its authentication.\<close>

definition session_view :: "bfd_session \<Rightarrow> bfd_session" where
  "session_view bs = bs\<lparr>bs_auth := bs_auth bfd_session_zero\<rparr>"

definition quiet :: "bfd_udp_main \<Rightarrow> bfd_udp_main \<Rightarrow> bool" where
  "quiet bum bum' \<longleftrightarrow> (\<forall>k. map_option session_view (udp_sessions bum' k) = map_option session_view (udp_sessions bum k))"

text \<open>The length that a signed packet states covers its sequence number.\<close>

definition frame_length_ok :: "bfd_frame \<Rightarrow> bool" where
  "frame_length_ok f \<longleftrightarrow> bfd_pkt_get_auth_present (frame_pkt f) \<noteq> 0 \<longrightarrow> 32 \<le> head_length (frame_pkt f)"

lemma rpc_consume: "frame_length_ok f \<Longrightarrow> bfd_rpc_update_session now now' f i bm = bfd_consume_pkt now now' f i bm"
  by (auto simp: frame_length_ok_def bfd_rpc_update_session_def not_less)

lemma scan_ok:
  assumes U: "bfd_udp_ok bum" and F: "frame_length_ok (buffer_frame b)"
  shows "\<exists>err r bum'. bfd_udp_scan find_headers pkt_key verify_transport env clk b bum = Some (err, r, bum') \<and> bfd_udp_ok bum'
    \<and> (case r of None \<Rightarrow> err = BFD_UDP_ERROR_BAD \<and> quiet bum bum'
      | Some i \<Rightarrow> err = BFD_UDP_ERROR_NONE \<and> i \<in> pool_live (sessions (bum_bfd_main bum'))
          \<and> (\<exists>ip c bs. scan_headers find_headers b = Some ip \<and> scan_session pkt_key b ip bum = Some i
              \<and> bfd_verify_pkt_auth env (fst clk) (fst (snd clk)) (buffer_frame b) (current_length b)
                  (bum_bfd_main bum, pool_vec (sessions (bum_bfd_main bum)) ! i) = Some (True, c)
              \<and> session_view bs = session_view (pool_vec (sessions (bum_bfd_main bum)) ! i)
              \<and> verify_transport ip bs = BFD_UDP_ERROR_NONE))"
proof -
  obtain n1 n2 n3 n4 where clk: "clk = (n1, n2, n3, n4)" by (cases clk)
  let ?bm = "bum_bfd_main bum"
  note e = scan_eq [OF U, where find_headers = find_headers and pkt_key = pkt_key and verify_transport = verify_transport
    and env = env and b = b and ?n1.0 = n1 and ?n2.0 = n2 and ?n3.0 = n3 and ?n4.0 = n4]
  show ?thesis
  proof (cases "\<exists>ip i. scan_headers find_headers b = Some ip \<and> scan_session pkt_key b ip bum = Some i")
    case False
    then show ?thesis using U unfolding clk e by (auto simp: quiet_def split: option.split)
  next
    case True
    then obtain ip i where h: "scan_headers find_headers b = Some ip" "scan_session pkt_key b ip bum = Some i" by blast
    have i: "i \<in> pool_live (sessions ?bm)" using scan_session_live [OF U h(2)] .
    let ?bs = "pool_vec (sessions ?bm) ! i"
    from verify_auth_table [OF udp_table [OF U] i, of env n1 n2 "buffer_frame b" "current_length b"] obtain ok m s where
      v: "bfd_verify_pkt_auth env n1 n2 (buffer_frame b) (current_length b) (?bm, ?bs) = Some (ok, m, s)"
        "bfd_steps ?bm (bfd_store_session i (m, s))" by auto
    note sh = verify_shape [OF v(1)]
    have S: "sessions m = sessions ?bm" by (subst sh(1)) simp
    have w: "session_view s = session_view ?bs" by (subst sh(2)) (simp add: session_view_def)
    let ?u = "bum\<lparr>bum_bfd_main := bfd_store_session i (m, s)\<rparr>"
    have U2: "bfd_udp_ok ?u" using udp_steps [OF U] v(2) by blast
    have "udp_sessions bum (udp_key (bs_udp ?bs)) = Some ?bs"
      using udp_idx [OF U, of "udp_key (bs_udp ?bs)" i] i by (simp add: udp_sessions_def)
    then have q: "quiet bum ?u" using w by (auto simp: quiet_def udp_sessions_store [OF U i S])
    have x: "unat (bs_idx s) = i" using udp_bs_idx [OF U i] by (subst sh(2)) simp
    from consume_table [OF udp_table [OF U2], of n3 n4 "buffer_frame b" i] obtain m' where
      c: "bfd_rpc_update_session n3 n4 (buffer_frame b) i (bfd_store_session i (m, s)) = Some m'" "bfd_steps (bfd_store_session i (m, s)) m'"
      unfolding rpc_consume [OF F] by auto
    have U3: "bfd_udp_ok (?u\<lparr>bum_bfd_main := m'\<rparr>)" using udp_steps [OF U2, of "{}" m'] c(2) by simp
    have "i \<in> pool_live (sessions m')" using c(2) i by (simp add: same_udp_def bfd_store_session_def S)
    then show ?thesis unfolding clk e using h v(1) q U2 U3 x c(1) w
      by (cases ok; cases "verify_transport ip s") auto
  qed
qed

lemma input_ok:
  assumes U: "bfd_udp_ok bum" and now: "clk_ok now" and F: "frame_length_ok (buffer_frame b)"
    and scan: "scan = bfd_udp_scan find_headers pkt_key verify_transport"
  shows "\<exists>out bum'. bfd_udp_input1 scan adj_next env clk now b bum = Some (out, bum') \<and> bfd_udp_ok bum'"
proof -
  from scan_ok [OF U F, where find_headers = find_headers and pkt_key = pkt_key and verify_transport = verify_transport
      and env = env and clk = clk]
  obtain err r b1 where s: "scan env clk b bum = Some (err, r, b1)" "bfd_udp_ok b1"
    and r: "case r of None \<Rightarrow> True | Some i \<Rightarrow> i \<in> pool_live (sessions (bum_bfd_main b1))"
    unfolding scan [symmetric] by (elim exE conjE) (simp split: option.splits)
  show ?thesis
  proof (cases r)
    case None
    then show ?thesis using s by (simp add: bfd_udp_input1_def)
  next
    case (Some i)
    let ?bm = "bum_bfd_main b1"
    have i: "i \<in> pool_live (sessions ?bm)" using r Some by simp
    from final_frame_keeps [OF table_live [OF udp_table [OF s(2)] i] now, of env] obtain f len c' where
      f: "bfd_init_final_control_frame env now (?bm, pool_vec (sessions ?bm) ! i) = Some (f, len, c')" "bfd_sends (?bm, pool_vec (sessions ?bm) ! i) c'"
      by blast
    from sends_table [OF f(2)] obtain m t where c: "c' = (m, t)" "bfd_ctx_ok (m, t)" "bfd_config m = bfd_config ?bm"
      "local_discr t = local_discr (pool_vec (sessions ?bm) ! i)" "bs_idx t = bs_idx (pool_vec (sessions ?bm) ! i)"
      "session_refs t = session_refs (pool_vec (sessions ?bm) ! i)" by auto
    have "bfd_steps ?bm (bfd_store_session i c')" unfolding c(1) by (rule store_core_ok [OF udp_table [OF s(2)] i c(2-6)])
    then have "bfd_udp_ok (b1\<lparr>bum_bfd_main := bfd_store_session i c'\<rparr>)" using udp_steps [OF s(2)] by blast
    then show ?thesis using s Some i f(1) by (simp add: bfd_udp_input1_def pool_elt_live Let_def)
  qed
qed

lemma echo_input_ok:
  assumes "bfd_udp_ok bum"
  shows "bfd_udp_ok (snd (bfd_udp_echo_input1 now len pkt bum))"
  using udp_steps [OF assms] echo_table [OF udp_table [OF assms], of now len pkt]
  by (cases "bfd_consume_echo_pkt now len pkt (bum_bfd_main bum)") (simp add: bfd_udp_echo_input1_def)

end
