(* ===== verification/Bfd_System.thy ===== *)
theory Bfd_System
  imports Bfd_Udp_Api
begin

text \<open>
  The whole of BFD over UDP as a transition system: the calls of the API, the packets received and the
  rounds of the process node, in any order. In every state that can be reached each of them returns, and
  the table of sessions, their discriminators, their keys and their adjacencies stay consistent.
\<close>

section \<open>Events\<close>

datatype bfd_event =
    Add_Session bfd_session "bfd_transport \<Rightarrow> ip46_address \<Rightarrow> u32 \<Rightarrow> u32" bfd_interfaces u32 ip46_address ip46_address u32 u32 u8 u8 u32 u8
  | Mod_Session bfd_interfaces u32 ip46_address ip46_address u32 u32 u8
  | Del_Session bfd_interfaces u32 ip46_address ip46_address
  | Set_Flags u64 u64 bfd_interfaces u32 ip46_address ip46_address u8
  | Auth_Activate bfd_interfaces u32 ip46_address ip46_address u32 u8 u8
  | Auth_Deactivate bfd_interfaces u32 ip46_address ip46_address u8
  | Set_Key bfd_auth_key bool u32 u8 u8 "u8 list"
  | Del_Key u32
  | Set_Echo_Source bfd_interfaces u32
  | Del_Echo_Source
  | Get_Echo_Source bfd_interfaces
  | Input4 "u32 \<Rightarrow> ip_lookup_next" bfd_env "u64 \<times> u64 \<times> u64 \<times> u64" u64 "bfd_ip4_header bfd_buffer"
  | Input6 "u32 \<Rightarrow> ip_lookup_next" bfd_env "u64 \<times> u64 \<times> u64 \<times> u64" u64 "bfd_ip6_header bfd_buffer"
  | Echo_Input u64 nat bfd_echo_pkt
  | Process bfd_env u64 "(bfd_process_event \<times> nat) option" "(nat \<times> u64) list"

definition on_bfd_main :: "(bfd_main \<Rightarrow> ('a \<times> bfd_main) option) \<Rightarrow> bfd_udp_main \<Rightarrow> bfd_udp_main option" where
  "on_bfd_main op bum = map_option (\<lambda>(_, bm). bum\<lparr>bum_bfd_main := bm\<rparr>) (op (bum_bfd_main bum))"

fun bfd_do :: "bfd_event \<Rightarrow> bfd_udp_main \<Rightarrow> bfd_udp_main option" where
  "bfd_do (Add_Session memory adj_nbr ifs sw l p tx rx mult auth conf kid) bum =
    map_option snd (bfd_udp_add_session memory adj_nbr ifs sw l p tx rx mult auth conf kid bum)"
| "bfd_do (Mod_Session ifs sw l p tx rx mult) bum = map_option snd (bfd_udp_mod_session ifs sw l p tx rx mult bum)"
| "bfd_do (Del_Session ifs sw l p) bum = map_option snd (bfd_udp_del_session ifs sw l p bum)"
| "bfd_do (Set_Flags now now' ifs sw l p up) bum = map_option snd (bfd_udp_session_set_flags now now' ifs sw l p up bum)"
| "bfd_do (Auth_Activate ifs sw l p conf kid delayed) bum = map_option snd (bfd_udp_auth_activate ifs sw l p conf kid delayed bum)"
| "bfd_do (Auth_Deactivate ifs sw l p delayed) bum = map_option snd (bfd_udp_auth_deactivate ifs sw l p delayed bum)"
| "bfd_do (Set_Key memory moves conf typ len data) bum = on_bfd_main (bfd_auth_set_key memory moves conf typ len data) bum"
| "bfd_do (Del_Key conf) bum = on_bfd_main (bfd_auth_del_key conf) bum"
| "bfd_do (Set_Echo_Source ifs sw) bum = Some (snd (bfd_udp_set_echo_source ifs sw bum))"
| "bfd_do Del_Echo_Source bum = Some (snd (bfd_udp_del_echo_source bum))"
| "bfd_do (Get_Echo_Source ifs) bum = map_option (\<lambda>_. bum) (bfd_udp_get_echo_source ifs bum)"
| "bfd_do (Input4 adj_next env clk now b) bum = map_option snd (bfd_udp4_input1 adj_next env clk now b bum)"
| "bfd_do (Input6 adj_next env clk now b) bum = map_option snd (bfd_udp6_input1 adj_next env clk now b bum)"
| "bfd_do (Echo_Input now len pkt) bum = Some (snd (bfd_udp_echo_input1 now len pkt bum))"
| "bfd_do (Process env now ev expired) bum =
    on_bfd_main (\<lambda>bm. map_option (Pair ()) (bfd_process_round env now ev expired bm)) bum"

text \<open>
  What the events need: a session is added to at most 1000 others, a count of the references to a key has
  room for one more, the pool of keys does not move while a session refers to a key, the interface of the
  echo source is there when it is asked for, a signed packet states a length that covers its sequence
  number, and the clock has not run for more than \<open>2 ^ 60\<close> cycles.
\<close>

fun bfd_admits :: "bfd_udp_main \<Rightarrow> bfd_event \<Rightarrow> bool" where
  "bfd_admits bum (Add_Session memory adj_nbr ifs sw l p tx rx mult auth conf kid) \<longleftrightarrow>
    card (pool_live (sessions (bum_bfd_main bum))) \<le> 1000 \<and> keys_room (bum_bfd_main bum)"
| "bfd_admits bum (Auth_Activate ifs sw l p conf kid delayed) \<longleftrightarrow> keys_room (bum_bfd_main bum)"
| "bfd_admits bum (Set_Key memory moves conf typ len data) \<longleftrightarrow> (moves \<longrightarrow> \<not> bfd_keys_referenced (bum_bfd_main bum))"
| "bfd_admits bum (Get_Echo_Source ifs) \<longleftrightarrow> (echo_source_is_set bum \<longrightarrow> ifs (echo_source_sw_if_index bum) \<noteq> None)"
| "bfd_admits bum (Input4 adj_next env clk now b) \<longleftrightarrow> clk_ok now \<and> frame_length_ok (buffer_frame b)"
| "bfd_admits bum (Input6 adj_next env clk now b) \<longleftrightarrow> clk_ok now \<and> frame_length_ok (buffer_frame b)"
| "bfd_admits bum (Process env now ev expired) \<longleftrightarrow> clk_ok now"
| "bfd_admits bum _ \<longleftrightarrow> True"

section \<open>Reachable states\<close>

text \<open>
  The state after \<open>bfd_main_init\<close>, for a clock of \<open>cps\<close> cycles per second and a timing wheel with
  \<open>2 ^ lg\<close> cycles per bin; the shift is one of a signed 32-bit integer.
\<close>

definition bfd_main_init :: "nat \<Rightarrow> f64 \<Rightarrow> u32 \<Rightarrow> bfd_main option" where
  "bfd_main_init lg cps seed =
    (let bm = \<lparr>sessions = pool_null, wheel_inaccuracy = 0, session_by_disc = (\<lambda>_. None), cpu_cps = cps,
       default_desired_min_tx_clocks = 0, min_required_min_rx_while_echo_clocks = 0, random_seed = seed,
       auth_keys = pool_null, auth_key_by_conf_key_id = (\<lambda>_. None), bfd_calls = []\<rparr>
     in do {
       tx \<leftarrow> bfd_usec_to_clocks bm 1000000;
       rx \<leftarrow> bfd_usec_to_clocks bm 1000000;
       if 30 \<le> lg then None
       else Some (bm\<lparr>default_desired_min_tx_clocks := tx, min_required_min_rx_while_echo_clocks := rx,
         wheel_inaccuracy := push_bit lg 2\<rparr>)})"

definition bfd_udp_init :: "bfd_main \<Rightarrow> bfd_udp_main" where
  "bfd_udp_init bm = \<lparr>bum_bfd_main = bm, bfd_session_idx_by_bfd_key = (\<lambda>_. None), echo_source_is_set = False,
     echo_source_sw_if_index = 0, adj_locks = (\<lambda>_. 0)\<rparr>"

inductive bfd_reach :: "nat \<Rightarrow> f64 \<Rightarrow> bfd_udp_main \<Rightarrow> bool" for lg cps where
  init: "bfd_main_init lg cps seed = Some bm \<Longrightarrow> bfd_reach lg cps (bfd_udp_init bm)"
| step: "bfd_reach lg cps bum \<Longrightarrow> bfd_admits bum ev \<Longrightarrow> bfd_do ev bum = Some bum' \<Longrightarrow> bfd_reach lg cps bum'"

definition cps_ok :: "f64 \<Rightarrow> bool" where
  "cps_ok cps \<longleftrightarrow> 0 < fst cps \<and> fst cps \<le> 2 ^ 53 \<and> f64_val cps \<le> 2 ^ 40"

lemma usec_clocks_cps: "bfd_usec_to_clocks bm us = bfd_usec_to_clocks bm' us" if "cpu_cps bm = cpu_cps bm'"
  using that by (simp add: bfd_usec_to_clocks_def)

lemma init_main:
  assumes "cps_ok cps" and "bfd_main_init lg cps seed = Some bm"
  shows "bfd_main_ok bm"
proof -
  have "cpu_cps bm = cps" "bfd_usec_to_clocks bm 1000000 = Some (default_desired_min_tx_clocks bm)"
    "bfd_usec_to_clocks bm 1000000 = Some (min_required_min_rx_while_echo_clocks bm)"
    using assms(2) by (auto simp: bfd_main_init_def Let_def bfd_usec_to_clocks_def split: bind_splits if_splits)
  then show ?thesis using assms(1) by (simp add: bfd_main_ok_def cps_ok_def)
qed

lemma init_fields:
  assumes "bfd_main_init lg cps seed = Some bm"
  shows "sessions bm = pool_null" "auth_keys bm = pool_null" "session_by_disc bm = (\<lambda>_. None)" "auth_key_by_conf_key_id bm = (\<lambda>_. None)"
    "wheel_inaccuracy bm = push_bit lg 2"
  using assms by (auto simp: bfd_main_init_def Let_def split: bind_splits if_splits)

lemma udp_init_ok:
  assumes "cps_ok cps" and "bfd_main_init lg cps seed = Some bm"
  shows "bfd_udp_ok (bfd_udp_init bm)"
  using init_main [OF assms] init_fields(1-4) [OF assms(2)]
  by (simp add: bfd_udp_but_def bfd_udp_init_def bfd_table_but_def bfd_keys_ok_def table_refs_def) (simp add: pool_null_def)

lemma on_main_ok:
  assumes U: "bfd_udp_ok bum" and "\<exists>e bm'. op (bum_bfd_main bum) = Some (e, bm') \<and> bfd_steps (bum_bfd_main bum) bm'"
  shows "\<exists>bum'. on_bfd_main op bum = Some bum' \<and> bfd_udp_ok bum'"
  using assms(2) udp_steps [OF U] by (fastforce simp: on_bfd_main_def)

lemma do_ok:
  assumes U: "bfd_udp_ok bum" and a: "bfd_admits bum ev"
  shows "\<exists>bum'. bfd_do ev bum = Some bum' \<and> bfd_udp_ok bum'"
proof -
  note T = udp_table [OF U]
  have snd: "\<exists>bum'. map_option snd r = Some bum' \<and> bfd_udp_ok bum'" if "\<exists>e bum'. r = Some (e, bum') \<and> bfd_udp_ok bum'"
    for r :: "('e \<times> bfd_udp_main) option" using that by auto
  show ?thesis
  proof (cases ev)
    case (Add_Session memory adj_nbr ifs sw l p tx rx mult auth conf kid)
    then show ?thesis using a add_session_ok [OF U _ _ refl, where ifs = ifs and sw = sw and l = l and p = p and tx = tx and mult = mult
      and auth = auth and conf = conf and memory = memory and adj_nbr = adj_nbr and rx = rx and kid = kid] by auto
  next
    case (Mod_Session ifs sw l p tx rx mult)
    then show ?thesis using snd [OF mod_session_ok [OF U]] by simp
  next
    case (Del_Session ifs sw l p)
    then show ?thesis using snd [OF del_session_ok [OF U]] by simp
  next
    case (Set_Flags now now' ifs sw l p up)
    then show ?thesis using snd [OF set_flags_ok [OF U]] by simp
  next
    case (Auth_Activate ifs sw l p conf kid delayed)
    then show ?thesis using a snd [OF auth_activate_ok [OF U]] by simp
  next
    case (Auth_Deactivate ifs sw l p delayed)
    then show ?thesis using snd [OF auth_deactivate_ok [OF U]] by simp
  next
    case (Set_Key memory moves conf kind key_len bytes)
    then show ?thesis
      using a on_main_ok [OF U, of "bfd_auth_set_key memory moves conf kind key_len bytes"] set_key_table [OF T] by simp
  next
    case (Del_Key conf)
    then show ?thesis using on_main_ok [OF U, of "bfd_auth_del_key conf"] del_key_table [OF T] by simp
  next
    case (Set_Echo_Source ifs sw)
    then show ?thesis using U by (auto simp: bfd_udp_set_echo_source_def bfd_udp_but_def Let_def split: option.split)
  next
    case Del_Echo_Source
    then show ?thesis using U by (simp add: bfd_udp_del_echo_source_def bfd_udp_but_def Let_def)
  next
    case (Get_Echo_Source ifs)
    then show ?thesis using U a
      by (auto simp: bfd_udp_get_echo_source_def bfd_udp_get_echo_src_ip4_def bfd_udp_get_echo_src_ip6_def split: option.split)
  next
    case (Input4 adj_next env clk now b)
    then show ?thesis using a snd [OF input_ok [OF U _ _ bfd_udp4_scan_def]] by (simp add: bfd_udp4_input1_def)
  next
    case (Input6 adj_next env clk now b)
    then show ?thesis using a snd [OF input_ok [OF U _ _ bfd_udp6_scan_def]] by (simp add: bfd_udp6_input1_def)
  next
    case (Echo_Input now len pkt)
    then show ?thesis using echo_input_ok [OF U] by simp
  next
    case (Process env now ev' expired)
    then have "clk_ok now" using a by simp
    from process_round_table [OF T this, of env ev' expired]
    have "\<exists>e bm'. map_option (Pair ()) (bfd_process_round env now ev' expired (bum_bfd_main bum)) = Some (e, bm')
        \<and> bfd_steps (bum_bfd_main bum) bm'" by auto
    then show ?thesis using on_main_ok [OF U, of "\<lambda>bm. map_option (Pair ()) (bfd_process_round env now ev' expired bm)"] Process by simp
  qed
qed

lemma reach_ok: "bfd_reach lg cps bum \<Longrightarrow> cps_ok cps \<Longrightarrow> bfd_udp_ok bum"
proof (induction rule: bfd_reach.induct)
  case (step bum ev bum')
  then show ?case using do_ok [of bum ev] by auto
qed (rule udp_init_ok)

end
