(* ===== verification/Bfd_Peers.thy ===== *)
theory Bfd_Peers
  imports Bfd_Table
begin

text \<open>
  Two systems that exchange BFD control packets. The packet that one session builds passes the checks of
  its peer and drives it, so that after three exchanges in both directions the sessions are up, whatever
  states they were in.
\<close>

section \<open>Packets of a session\<close>

lemma control_frame_fields:
  assumes "bfd_init_control_frame (bm, bs) = Some pkt"
  shows "bfd_state_of (bfd_pkt_get_state pkt) = local_state bs" "bfd_pkt_get_version pkt = 1" "bfd_pkt_get_auth_present pkt = 0"
    "bfd_pkt_get_multipoint pkt = 0" "detect_mult pkt = local_detect_mult bs" "head_length pkt = 24"
    "my_disc pkt = local_discr bs" "your_disc pkt = remote_discr bs"
proof -
  let ?w = "ucast ((ucast (32 :: u8) AND NOT 31) OR (ucast (local_diag bs) AND 31)) :: u8"
  have sta: "sta_flags pkt = ucast (push_bit 6 (bfd_state_code (local_state bs)))"
    and ver: "vers_diag pkt = ucast (((ucast (32 :: u8) :: u32) AND NOT 31) OR (ucast (local_diag bs) AND 31))"
    and f: "detect_mult pkt = local_detect_mult bs" "head_length pkt = 24"
      "my_disc pkt = local_discr bs" "your_disc pkt = remote_discr bs"
    using assms by (auto simp: bfd_init_control_frame_def Let_def bfd_pkt_set_state_def bfd_pkt_set_diag_code_def
      bfd_pkt_set_version_def bfd_pkt_zero_def split: bind_splits if_splits)
  show "bfd_state_of (bfd_pkt_get_state pkt) = local_state bs" "bfd_pkt_get_auth_present pkt = 0" "bfd_pkt_get_multipoint pkt = 0"
    unfolding bfd_pkt_get_state_def bfd_pkt_get_auth_present_def bfd_pkt_get_multipoint_def sta
    by (cases "local_state bs"; simp add: bfd_state_code_def bfd_state_of_def)+
  show "bfd_pkt_get_version pkt = 1" unfolding bfd_pkt_get_version_def ver
  proof (rule bit_eqI)
    fix n
    assume "possible_bit TYPE(u8) n"
    then have n: "n < 8" by simp
    have "(31 :: u32) = mask 5" by (simp add: mask_eq_exp_minus_1)
    moreover have "(32 :: u8) = push_bit 5 1" by simp
    ultimately show "bit (drop_bit 5 (ucast (((ucast (32 :: u8) :: u32) AND NOT 31) OR (ucast (local_diag bs) AND 31)) :: u8)) n \<longleftrightarrow> bit (1 :: u8) n"
      using n by (simp only: bit_drop_bit_eq o_def bit_unsigned_iff bit_or_iff bit_and_iff bit_not_iff bit_mask_iff bit_push_bit_iff
        possible_bit_word bit_1_iff) auto
  qed
  show "detect_mult pkt = local_detect_mult bs" "head_length pkt = 24" "my_disc pkt = local_discr bs" "your_disc pkt = remote_discr bs"
    by (fact f)+
qed

text \<open>A packet of a session that can send is accepted by the checks that need no session.\<close>

definition can_send :: "bfd_session \<Rightarrow> bool" where
  "can_send bs \<longleftrightarrow> local_discr bs \<noteq> 0 \<and> local_detect_mult bs \<noteq> 0 \<and> local_state bs \<noteq> BFD_STATE_admin_down
    \<and> curr_key (bs_auth bs) = None \<and> (local_state bs = BFD_STATE_down \<or> remote_discr bs \<noteq> 0)"

lemma control_frame_verifies:
  assumes "bfd_init_control_frame (bm, bs) = Some pkt" and "can_send bs"
  shows "bfd_verify_pkt_common pkt"
  using control_frame_fields [OF assms(1)] assms(2) by (auto simp: bfd_verify_pkt_common_def can_send_def)

text \<open>The detection multiplier is configured, not learnt.\<close>

abbreviation mult_of :: "bfd_ctx \<Rightarrow> u8" where
  "mult_of c \<equiv> local_detect_mult (snd c)"

lemma mult_timers [simp]:
  "mult_of (bfd_set_diag d c) = mult_of c" "mult_of (bfd_set_poll_state p c) = mult_of c"
  "mult_of (bfd_recalc_tx_interval c) = mult_of c" "mult_of (bfd_recalc_echo_tx_interval c) = mult_of c"
  "mult_of (bfd_recalc_detection_time c) = mult_of c" "mult_of (bfd_set_timer now h c) = mult_of c"
  by (cases c, simp add: bfd_set_diag_def bfd_set_poll_state_def bfd_recalc_tx_interval_def bfd_recalc_echo_tx_interval_def
    bfd_recalc_detection_time_def bfd_set_timer_def Let_def)+

lemma mult_required [simp]: "mult_of (bfd_set_effective_required_min_rx r c) = mult_of c"
  by (cases c) (simp add: bfd_set_effective_required_min_rx_def)

lemma mult_next_tx: "bfd_calc_next_tx now c = Some c' \<Longrightarrow> mult_of c' = mult_of c"
  by (cases c) (auto simp: bfd_calc_next_tx_def Let_def split: prod.splits bind_splits)

lemma mult_desired: "bfd_set_effective_desired_min_tx now d c = Some c' \<Longrightarrow> mult_of c' = mult_of c"
  by (cases c) (auto simp: bfd_set_effective_desired_min_tx_def dest!: mult_next_tx)

lemma mult_remote_rx: "bfd_set_remote_required_min_rx us c = Some c' \<Longrightarrow> mult_of c' = mult_of c"
  by (cases c) (auto simp: bfd_set_remote_required_min_rx_def split: if_splits bind_splits)

lemma mult_remote_echo_rx: "bfd_set_remote_required_min_echo_rx us c = Some c' \<Longrightarrow> mult_of c' = mult_of c"
  by (cases c) (auto simp: bfd_set_remote_required_min_echo_rx_def split: if_splits bind_splits)

lemma mult_state_change: "bfd_on_state_change now h c = Some c' \<Longrightarrow> mult_of c' = mult_of c"
  by (cases c) (auto simp: bfd_on_state_change_def Let_def split: bfd_state.splits bind_splits dest!: mult_desired)

lemma mult_set_state: "bfd_set_state now st h c = Some c' \<Longrightarrow> mult_of c' = mult_of c"
  by (cases c) (auto simp: bfd_set_state_def split: if_splits dest!: mult_state_change)

lemma mult_fsm: "bfd_fsm_step now c = Some c' \<Longrightarrow> mult_of c' = mult_of c"
  by (cases c) (auto simp: bfd_fsm_step_def split: if_splits dest!: mult_set_state)

lemma mult_poll_final: "mult_of (bfd_poll_final now c) = mult_of c"
  by (cases c) (auto simp: bfd_poll_final_def Let_def split: bfd_poll_state.split)

lemma mult_update: "bfd_update_session now f c = Some c' \<Longrightarrow> mult_of c' = mult_of c"
  by (cases c) (auto simp: bfd_update_session_def bfd_learn_remote_def Let_def mult_poll_final split: if_splits bind_splits
    dest!: mult_remote_rx mult_remote_echo_rx mult_next_tx)

lemma mult_consume:
  assumes "bfd_consume_pkt now now' f i bm = Some (bfd_store_session i (bm', bs'))" and "i \<in> pool_live (sessions bm)"
    and "your_disc (frame_pkt f) = 0 \<or> your_disc (frame_pkt f) = local_discr (pool_vec (sessions bm) ! i)"
    and "sessions bm' = sessions bm"
  shows "local_detect_mult bs' = local_detect_mult (pool_vec (sessions bm) ! i)"
proof -
  from assms(1-3) obtain c1 c2 where c: "bfd_update_session now f (bm, pool_vec (sessions bm) ! i) = Some c1" "bfd_fsm_step now' c1 = Some c2"
    "bfd_store_session i c2 = bfd_store_session i (bm', bs')"
    by (auto simp: bfd_consume_pkt_def find_live split: bind_splits)
  obtain m2 b2 where c2: "c2 = (m2, b2)" by fastforce
  have "sessions (bfd_store_session i (m2, b2)) = sessions (bfd_store_session i (bm', bs'))" using c(3) by (simp only: c2)
  then have v: "pool_vec (pool_store (sessions m2) i b2) ! i = pool_vec (pool_store (sessions bm) i bs') ! i"
    by (simp add: bfd_store_session_def assms(4))
  have len: "length (pool_vec (sessions m2)) = length (pool_vec (sessions bm))"
    using arg_cong [OF \<open>sessions (bfd_store_session i (m2, b2)) = _\<close>, of "\<lambda>p. length (pool_vec p)"]
    by (simp add: bfd_store_session_def assms(4))
  have "b2 = bs'" using v len live_length [OF assms(2)] by simp
  then show ?thesis using mult_update [OF c(1)] mult_fsm [OF c(2)] by (simp add: c2)
qed

section \<open>Two systems\<close>

text \<open>
  A packet of session \<open>i\<close> of the first system reaches session \<open>j\<close> of the second one: it is built, checked,
  verified and consumed; \<open>memory\<close> is what follows it in the buffer.
\<close>

definition bfd_deliver :: "bfd_env \<Rightarrow> u64 \<times> u64 \<times> u64 \<times> u64 \<Rightarrow> bfd_auth_sha1 \<Rightarrow> bfd_main \<Rightarrow> nat \<Rightarrow> bfd_main \<Rightarrow> nat \<Rightarrow> bfd_main option" where
  "bfd_deliver env clk memory A i B j = (let (n1, n2, n3, n4) = clk in do {
     a \<leftarrow> pool_elt_at_index (sessions A) i;
     pkt \<leftarrow> bfd_init_control_frame (A, a);
     let f = \<lparr>frame_pkt = pkt, frame_auth = memory\<rparr>;
     b \<leftarrow> pool_elt_at_index (sessions B) j;
     if bfd_verify_pkt_common pkt then do {
       (ok, ctx) \<leftarrow> bfd_verify_pkt_auth env n1 n2 f sizeof_bfd_pkt (B, b);
       if ok then bfd_consume_pkt n3 n4 f j (bfd_store_session j ctx) else Some (bfd_store_session j ctx)}
     else Some B})"

fun bfd_exchange :: "bfd_env \<Rightarrow> bfd_auth_sha1 \<Rightarrow> (nat \<Rightarrow> u64 \<times> u64 \<times> u64 \<times> u64) \<Rightarrow> nat \<Rightarrow> nat \<Rightarrow> nat \<Rightarrow> bfd_main \<times> bfd_main \<Rightarrow> (bfd_main \<times> bfd_main) option" where
  "bfd_exchange env memory clk i j 0 AB = Some AB"
| "bfd_exchange env memory clk i j (Suc n) AB = do {
     (A, B) \<leftarrow> bfd_exchange env memory clk i j n AB;
     B \<leftarrow> bfd_deliver env (clk (2 * n)) memory A i B j;
     A \<leftarrow> bfd_deliver env (clk (2 * n + 1)) memory B j A i;
     Some (A, B)}"

text \<open>The sessions are meant for each other: each is unauthenticated, and knows the other or nobody yet.\<close>

definition bfd_knows :: "bfd_main \<Rightarrow> nat \<Rightarrow> bfd_session \<Rightarrow> bool" where
  "bfd_knows A i b \<longleftrightarrow> bfd_table_ok A \<and> i \<in> pool_live (sessions A) \<and> can_send (pool_vec (sessions A) ! i)
    \<and> (remote_discr (pool_vec (sessions A) ! i) = 0 \<or> remote_discr (pool_vec (sessions A) ! i) = local_discr b)"

definition bfd_peers :: "bfd_main \<Rightarrow> nat \<Rightarrow> bfd_main \<Rightarrow> nat \<Rightarrow> bool" where
  "bfd_peers A i B j \<longleftrightarrow> bfd_knows A i (pool_vec (sessions B) ! j) \<and> bfd_knows B j (pool_vec (sessions A) ! i)"

abbreviation state_at :: "bfd_main \<Rightarrow> nat \<Rightarrow> bfd_state" where
  "state_at A i \<equiv> local_state (pool_vec (sessions A) ! i)"

lemma rfc_not_admin: "l \<noteq> BFD_STATE_admin_down \<Longrightarrow> rfc5880_state l r \<noteq> BFD_STATE_admin_down"
  by (cases l; cases r) simp_all

lemma plain_verifies:
  assumes "bfd_pkt_get_auth_present (frame_pkt f) = 0" and "curr_key (bs_auth b) = None"
  shows "bfd_verify_pkt_auth env n1 n2 f sizeof_bfd_pkt (B, b) = Some (True, B, b)"
  using assms by (simp add: bfd_verify_pkt_auth_def Let_def)

lemma store_same: "i < length (pool_vec (sessions B)) \<Longrightarrow> bfd_store_session i (B, pool_vec (sessions B) ! i) = B"
  by (simp add: bfd_store_session_def pool_store_def)

lemma deliver_peers:
  assumes P: "bfd_peers A i B j"
  shows "\<exists>B'. bfd_deliver env clk memory A i B j = Some B' \<and> bfd_peers A i B' j
    \<and> state_at B' j = rfc5880_state (state_at B j) (state_at A i)"
proof -
  obtain n1 n2 n3 n4 where clk: "clk = (n1, n2, n3, n4)" by (cases clk)
  let ?a = "pool_vec (sessions A) ! i" and ?b = "pool_vec (sessions B) ! j"
  have T: "bfd_table_ok A" "bfd_table_ok B" and l: "i \<in> pool_live (sessions A)" "j \<in> pool_live (sessions B)"
    and s: "can_send ?a" "can_send ?b" and r: "remote_discr ?a = 0 \<or> remote_discr ?a = local_discr ?b"
      "remote_discr ?b = 0 \<or> remote_discr ?b = local_discr ?a"
    using P by (auto simp: bfd_peers_def bfd_knows_def)
  obtain pkt where p: "bfd_init_control_frame (A, ?a) = Some pkt" using control_frame_ok [OF table_live [OF T(1) l(1)]] by blast
  note f = control_frame_fields [OF p]
  let ?f = "\<lparr>frame_pkt = pkt, frame_auth = memory\<rparr>"
  have v: "bfd_verify_pkt_auth env n1 n2 ?f sizeof_bfd_pkt (B, ?b) = Some (True, B, ?b)"
    by (rule plain_verifies) (use f s in \<open>simp_all add: can_send_def\<close>)
  from consume_session [OF table_live [OF T(2) l(2)], of j ?f n3 n4] l(2) r(1) f obtain m b' where
    c: "bfd_consume_pkt n3 n4 ?f j B = Some (bfd_store_session j (m, b'))" "bfd_ctx_ok (m, b')" "bfd_config m = bfd_config B"
    and core: "bfd_core b' = (rfc5880_state (local_state ?b) (local_state ?a), fsm_diag (local_state ?b) (local_state ?a) (local_diag ?b),
      local_state ?a, local_discr ?b, local_discr ?a, bs_idx ?b, session_refs ?b)" by (auto simp: find_live)
  note d = core_eqD [OF core]
  have S: "sessions m = sessions B" using bfd_config_fields [OF c(3)] by simp
  have mu: "local_detect_mult b' = local_detect_mult ?b" by (rule mult_consume [OF c(1) l(2) _ S]) (use r(1) f in simp)
  have e: "bfd_deliver env clk memory A i B j = Some (bfd_store_session j (m, b'))"
    using l p v c(1) control_frame_verifies [OF p s(1)] store_same [OF live_length [OF l(2)]]
    by (simp add: clk bfd_deliver_def pool_elt_live)
  have vj: "pool_vec (sessions (bfd_store_session j (m, b'))) ! j = b'" using live_length [OF l(2)] by (simp add: bfd_store_session_def S)
  have "bfd_table_ok (bfd_store_session j (m, b'))" using store_core_ok [OF T(2) l(2) c(2,3) d(4,6,7)] by simp
  moreover have "can_send b'" using s d mu rfc_not_admin [of "local_state ?b" "local_state ?a"]
    by (auto simp: can_send_def session_refs_def)
  ultimately have "bfd_peers A i (bfd_store_session j (m, b')) j"
    using l T s r d unfolding bfd_peers_def bfd_knows_def vj by (simp add: bfd_store_session_def S)
  then show ?thesis using e vj d(1) by auto
qed

lemma peers_sym: "bfd_peers A i B j = bfd_peers B j A i"
  by (auto simp: bfd_peers_def)

fun round_states :: "bfd_state \<times> bfd_state \<Rightarrow> bfd_state \<times> bfd_state" where
  "round_states (a, b) = (rfc5880_state a (rfc5880_state b a), rfc5880_state b a)"

lemma exchange_peers:
  assumes "bfd_peers A i B j"
  shows "\<exists>A' B'. bfd_exchange env memory clk i j n (A, B) = Some (A', B') \<and> bfd_peers A' i B' j
    \<and> (state_at A' i, state_at B' j) = (round_states ^^ n) (state_at A i, state_at B j)"
proof (induction n)
  case (Suc n)
  then obtain A1 B1 where 1: "bfd_exchange env memory clk i j n (A, B) = Some (A1, B1)" "bfd_peers A1 i B1 j"
    "(state_at A1 i, state_at B1 j) = (round_states ^^ n) (state_at A i, state_at B j)" by blast
  from deliver_peers [OF 1(2)] obtain B2 where 2: "bfd_deliver env (clk (2 * n)) memory A1 i B1 j = Some B2" "bfd_peers A1 i B2 j"
    "state_at B2 j = rfc5880_state (state_at B1 j) (state_at A1 i)" by blast
  from deliver_peers [OF 2(2) [unfolded peers_sym [of A1]]] obtain A2 where
    3: "bfd_deliver env (clk (2 * n + 1)) memory B2 j A1 i = Some A2" "bfd_peers B2 j A2 i"
    "state_at A2 i = rfc5880_state (state_at A1 i) (state_at B2 j)" by blast
  have "(state_at A2 i, state_at B2 j) = (round_states ^^ Suc n) (state_at A i, state_at B j)"
    using 2(3) 3(3) by (simp flip: 1(3))
  then show ?case using 1(1) 2(1) 3(1) 3(2) [unfolded peers_sym [of B2]] by simp
qed (use assms in simp)

lemma round_states_up:
  assumes "a \<noteq> BFD_STATE_admin_down" and "b \<noteq> BFD_STATE_admin_down"
  shows "(round_states ^^ (n + 3)) (a, b) = (BFD_STATE_up, BFD_STATE_up)"
proof (induction n)
  case 0
  show ?case using assms by (cases a; cases b) (simp_all add: numeral_3_eq_3)
next
  case (Suc n)
  then show ?case using funpow.simps(2) [of "n + 3" round_states] by simp
qed

end
