(* ===== verification/Bfd_Correctness.thy ===== *)
theory Bfd_Correctness
  imports Bfd_System Bfd_Peers
begin

text \<open>
  The properties of BFD: the system is never stuck and stays consistent, sessions follow the state machine
  of RFC 5880 and come up, silence is detected, transmissions are jittered, authentication accepts what it
  should, and the API over UDP implements a map of sessions. The witnesses use a system with one session.
\<close>

section \<open>A system with one session\<close>

definition sample_cps :: f64 where "sample_cps = (2500000000, 0)"

definition sample_bm :: bfd_main where "sample_bm = the (bfd_main_init 10 sample_cps 1)"

lemma sample_cps_ok: "cps_ok sample_cps"
  by (simp add: cps_ok_def sample_cps_def f64_val_def)

lemma sample_init: "bfd_main_init 10 sample_cps 1 = Some sample_bm"
proof -
  let ?bm = "sample_bm\<lparr>cpu_cps := sample_cps\<rparr>"
  let ?v = "f64_mult sample_cps (f64_div (f64_of_nat 1000000) (f64_of_nat 1000000))"
  have e: "f64_of_nat 1000000 = (1000000, 0)" by (simp add: f64_of_nat_exact)
  have "\<bar>f64_val (f64_div (1000000, 0) (1000000, 0)) - 1\<bar> \<le> 1 / 2 ^ 53"
    using f64_div_error [of "(1000000, 0)" "(1000000, 0)"] by (simp add: f64_val_def)
  also have "(1 :: real) / 2 ^ 53 \<le> 1" by simp
  finally have d: "f64_val (f64_div (1000000, 0) (1000000, 0)) \<le> 2" by (simp add: abs_le_iff)
  have "f64_val ?v \<le> (1 + eps) * (f64_val sample_cps * f64_val (f64_div (1000000, 0) (1000000, 0)))"
    unfolding e using rel_error [OF f64_mult_error] by blast
  also have "\<dots> \<le> (1 + eps) * (2500000000 * 2)"
    using d by (intro mult_left_mono mult_mono) (simp_all add: sample_cps_def f64_val_def)
  also have "\<dots> < 2 ^ 64" by simp
  finally obtain c where "f64_to_u64 ?v = Some c" using f64_to_u64_val by blast
  then have "bfd_main_init 10 sample_cps 1 \<noteq> None"
    by (simp add: bfd_main_init_def Let_def bfd_usec_to_clocks_def)
  then show ?thesis by (auto simp: sample_bm_def)
qed

lemma sample_main: "bfd_main_ok sample_bm"
  using init_main [OF sample_cps_ok sample_init] .

lemmas sample_fields = init_fields [OF sample_init]

abbreviation sample_clocks :: u64 where
  "sample_clocks \<equiv> default_desired_min_tx_clocks sample_bm"

definition sample_session :: "u32 \<Rightarrow> bfd_session" where
  "sample_session d = bfd_session_zero\<lparr>local_state := BFD_STATE_down, remote_state := BFD_STATE_down, local_discr := d,
     config_desired_min_tx_usec := 1000000, config_desired_min_tx_clocks := sample_clocks,
     effective_desired_min_tx_clocks := sample_clocks, config_required_min_rx_usec := 1000000,
     config_required_min_rx_clocks := sample_clocks, effective_required_min_rx_clocks := sample_clocks,
     transmit_interval_clocks := sample_clocks, local_detect_mult := 3\<rparr>"

definition sample_system :: "bfd_session \<Rightarrow> bfd_main" where
  "sample_system bs = sample_bm\<lparr>sessions := \<lparr>pool_vec = [bs], free_bitmap = [], free_indices = []\<rparr>,
     session_by_disc := [local_discr bs \<mapsto> 0]\<rparr>"

lemma sample_live: "pool_live (sessions (sample_system bs)) = {0}" "pool_vec (sessions (sample_system bs)) ! 0 = bs"
  by (auto simp: sample_system_def pool_live_iff)

lemma sample_ctx: "bfd_ctx_ok (sample_system bs, sample_session d)"
proof -
  have m: "bfd_usec_to_clocks sample_bm 1000000 = Some sample_clocks" using sample_main by (simp add: bfd_main_ok_def)
  then have p: "usec_pair (sample_system bs) 1000000 sample_clocks" "usec_pair (sample_system bs) 0 0"
    by (simp_all add: usec_pair_def zero_clocks) (simp add: sample_system_def bfd_usec_to_clocks_def)
  obtain c where "bfd_usec_to_clocks sample_bm 1000000 = Some c" "clk_ok c" using usec_to_clocks_ok [OF sample_main, of 1000000] by auto
  then have ck: "clk_ok sample_clocks" using m by simp
  have "bfd_main_ok (sample_system bs)" using sample_main by (simp add: sample_system_def)
  then show ?thesis using p ck
    by (auto simp: bfd_ctx_ok_def bfd_base_ok_def bfd_rates_ok_def sample_session_def bfd_session_zero_def key_live_def clk_ok_def)
      (simp add: sample_system_def)+
qed

lemma sample_table_of:
  assumes "bfd_ctx_ok (sample_system bs, bs)" and "bs_idx bs = 0" and "\<And>k. refs_of bs k = 0"
  shows "bfd_table_ok (sample_system bs)"
proof -
  have "bfd_keys_ok (sample_system bs)" unfolding bfd_keys_ok_def
    by (simp add: table_refs_def sample_live assms(3)) (simp add: sample_system_def sample_fields)
  moreover have "bfd_main_ok (sample_system bs)" using sample_main by (simp add: sample_system_def)
  moreover have "pool_ok (sessions (sample_system bs))" by (simp add: sample_system_def pool_ok_def)
  ultimately show ?thesis using assms(1,2)
    by (auto simp: bfd_table_but_def sample_live) (auto simp: sample_system_def split: if_splits)
qed

lemma sample_table: "bfd_table_ok (sample_system (sample_session d))"
  by (rule sample_table_of [OF sample_ctx]) (simp_all add: sample_session_def bfd_session_zero_def refs_of_def)

section \<open>The system\<close>

text \<open>
  C13. In every state that BFD over UDP can reach, each call of the API, each packet received and each round
  of the process returns, without undefined behaviour or a failed assertion, and leaves a consistent
  state: the tables by discriminator and by key agree with the pool of sessions, the intervals of every
  session are converted and bounded, no session refers to a key that is gone, the count of a key covers
  its references, and each adjacency is locked once per session. This holds as long as there are at most
  1001 sessions, counts of references fit, the clock stays below \<open>2 ^ 60\<close>, the pool of keys does not move while
  a session points to a key, the interface of the echo source exists when it is asked for, and signed
  packets state a length that covers their sequence number; without the last three the code is undefined.
\<close>

theorem bfd_never_stuck:
  assumes "cps_ok cps" and "bfd_reach lg cps bum" and "bfd_admits bum ev"
  shows "\<exists>bum'. bfd_do ev bum = Some bum' \<and> bfd_udp_ok bum'"
  using do_ok [OF reach_ok [OF assms(2,1)] assms(3)] .

definition sample_ifs :: bfd_interfaces where
  "sample_ifs i = (if i = 1 then Some \<lparr>if_flags = 1, ip4_addresses = [(0x0100000a, 24)], ip6_addresses = []\<rparr> else None)"

definition sample_event :: bfd_event where
  "sample_event = Add_Session bfd_session_zero (\<lambda>_ _ _. 7) sample_ifs 1 (ip46_of_ip4 0x0100000a) (ip46_of_ip4 0x0200000a)
     100000 100000 3 0 0 0"

lemma sample_reach: "bfd_reach 10 sample_cps (bfd_udp_init sample_bm)"
  by (rule bfd_reach.init [OF sample_init])

lemma sample_room: "keys_room sample_bm" "pool_live (sessions sample_bm) = {}"
  by (simp_all add: keys_room_def key_count_def sample_fields pool_elt_live)

theorem bfd_never_stuck_witness:
  "bfd_admits (bfd_udp_init sample_bm) sample_event
    \<and> (\<exists>bum'. bfd_do sample_event (bfd_udp_init sample_bm) = Some bum' \<and> bfd_udp_ok bum')"
proof -
  have a: "bfd_admits (bfd_udp_init sample_bm) sample_event"
    by (simp add: sample_event_def bfd_udp_init_def sample_room)
  then show ?thesis using bfd_never_stuck [OF sample_cps_ok sample_reach a] by simp
qed

section \<open>Sessions\<close>

text \<open>
  C15. A packet that is accepted for a session drives it through the states as the state machine of
  RFC 5880 says. The diagnostic code is that of the transition, and of the RFC except that the code also sets
  it when the session is Down and its peer AdminDown. The session learns the discriminator of its peer, and no
  other session changes.
\<close>

theorem bfd_state_machine:
  assumes "bfd_table_ok bm" and "i \<in> pool_live (sessions bm)"
    and "your_disc (frame_pkt f) = 0 \<or> your_disc (frame_pkt f) = local_discr (pool_vec (sessions bm) ! i)"
  shows "\<exists>bm'. bfd_consume_pkt now now' f i bm = Some bm'
    \<and> state_at bm' i = rfc5880_state (state_at bm i) (bfd_state_of (bfd_pkt_get_state (frame_pkt f)))
    \<and> local_diag (pool_vec (sessions bm') ! i)
      = fsm_diag (state_at bm i) (bfd_state_of (bfd_pkt_get_state (frame_pkt f))) (local_diag (pool_vec (sessions bm) ! i))
    \<and> remote_discr (pool_vec (sessions bm') ! i) = my_disc (frame_pkt f)
    \<and> (\<forall>j. j \<noteq> i \<longrightarrow> pool_vec (sessions bm') ! j = pool_vec (sessions bm) ! j)"
proof -
  let ?b = "pool_vec (sessions bm) ! i" and ?r = "bfd_state_of (bfd_pkt_get_state (frame_pkt f))"
  from consume_session [OF table_live [OF assms(1,2)], of i f now now'] assms(2,3) obtain m b where
    c: "bfd_consume_pkt now now' f i bm = Some (bfd_store_session i (m, b))" "bfd_config m = bfd_config bm"
    and core: "bfd_core b = (rfc5880_state (local_state ?b) ?r, fsm_diag (local_state ?b) ?r (local_diag ?b),
      ?r, local_discr ?b, my_disc (frame_pkt f), bs_idx ?b, session_refs ?b)" by (auto simp: find_live)
  have "sessions m = sessions bm" using bfd_config_fields [OF c(2)] by simp
  then show ?thesis using c(1) core_eqD [OF core] live_length [OF assms(2)] by (simp add: bfd_store_session_def)
qed

definition sample_pkt :: bfd_pkt where
  "sample_pkt = bfd_pkt_zero\<lparr>vers_diag := 32, sta_flags := 64, detect_mult := 3, head_length := 24, my_disc := 9\<rparr>"

definition sample_auth :: bfd_auth_sha1 where
  "sample_auth = \<lparr>sha1_type = 0, sha1_len = 0, sha1_key_id = 0, sha1_reserved = 0, sha1_seq_num = 0, sha1_hash = []\<rparr>"

lemma sample_state [simp]: "state_at (sample_system (sample_session d)) 0 = BFD_STATE_down"
  by (simp add: sample_live sample_session_def)

theorem bfd_state_machine_witness:
  "\<exists>bm'. bfd_consume_pkt 5 5 \<lparr>frame_pkt = sample_pkt, frame_auth = sample_auth\<rparr> 0 (sample_system (sample_session 7)) = Some bm'
    \<and> state_at bm' 0 = BFD_STATE_init \<and> remote_discr (pool_vec (sessions bm') ! 0) = 9"
proof -
  have "bfd_state_of (bfd_pkt_get_state sample_pkt) = BFD_STATE_down"
    by (simp add: sample_pkt_def bfd_pkt_get_state_def bfd_state_of_def)
  then show ?thesis
    using bfd_state_machine [OF sample_table, of 0 7 "\<lparr>frame_pkt = sample_pkt, frame_auth = sample_auth\<rparr>" 5 5]
    by (auto simp: sample_live) (auto simp: sample_session_def sample_pkt_def bfd_pkt_zero_def)
qed

text \<open>
  C14. Two sessions that are meant for each other and exchange control packets are both up after three
  exchanges in each direction, and stay up, from whatever states other than administratively down.
\<close>

theorem bfd_handshake:
  assumes "bfd_peers A i B j" and "3 \<le> n"
  shows "\<exists>A' B'. bfd_exchange env memory clk i j n (A, B) = Some (A', B')
    \<and> state_at A' i = BFD_STATE_up \<and> state_at B' j = BFD_STATE_up"
proof -
  obtain m where n: "n = m + 3" using assms(2) by (metis add.commute le_iff_add)
  have "(round_states ^^ n) (state_at A i, state_at B j) = (BFD_STATE_up, BFD_STATE_up)"
    unfolding n by (rule round_states_up) (use assms(1) in \<open>simp_all add: bfd_peers_def bfd_knows_def can_send_def\<close>)
  then show ?thesis using exchange_peers [OF assms(1), of env memory clk n] by auto
qed

lemma sample_peers: "bfd_peers (sample_system (sample_session 7)) 0 (sample_system (sample_session 9)) 0"
  by (simp add: bfd_peers_def bfd_knows_def sample_table sample_live)
    (simp add: sample_session_def bfd_session_zero_def can_send_def)

definition sample_env :: bfd_env where
  "sample_env = \<lparr>buffer_alloc_ok = True, buffer_memory = sample_auth, transport_ok = True, echo_available = (\<lambda>_. False),
     echo_transport_layer_ok = True, SHA1 = (\<lambda>bytes. take 20 (rev bytes)), SHA1_ok = True\<rparr>"

theorem bfd_handshake_witness:
  "\<exists>A B. bfd_exchange sample_env sample_auth (\<lambda>n. (word_of_nat n, word_of_nat n, word_of_nat n, word_of_nat n)) 0 0 3
      (sample_system (sample_session 7), sample_system (sample_session 9)) = Some (A, B)
    \<and> state_at A 0 = BFD_STATE_up \<and> state_at B 0 = BFD_STATE_up"
  using bfd_handshake [OF sample_peers, of 3] by simp

text \<open>
  C16. When the timing wheel wakes a session, the process takes it down, with the right diagnostic code, if
  and only if nothing was received for the detection time, or no echo for that of the echo function; the
  deadlines are taken early by the inaccuracy of the wheel.
\<close>

theorem bfd_silence_detected:
  assumes "bfd_table_ok bm" and "i \<in> pool_live (sessions bm)" and "clk_ok now"
    and "state_at bm i = BFD_STATE_init \<or> state_at bm i = BFD_STATE_up"
  shows "\<exists>bm'. bfd_process_expired env now [(i, now')] bm = Some bm'
    \<and> (state_at bm' i, local_diag (pool_vec (sessions bm') ! i)) =
      (if rx_expired (bm, pool_vec (sessions bm) ! i) now then (BFD_STATE_down, BFD_DIAG_CODE_det_time_exp)
       else if echo_expired (bm, pool_vec (sessions bm) ! i) now then (BFD_STATE_down, BFD_DIAG_CODE_echo_failed)
       else (state_at bm i, local_diag (pool_vec (sessions bm) ! i)))"
proof -
  let ?b = "pool_vec (sessions bm) ! i"
  from on_timeout_keeps [OF table_live [OF assms(1,2)] assms(3), of env now'] assms(4) obtain c where
    c: "bfd_on_timeout env now now' (bm, ?b) = Some c" "bfd_config (fst c) = bfd_config bm"
      "bfd_core (snd c) = (fst (timeout_state (bm, ?b) now), snd (timeout_state (bm, ?b) now), remote_state ?b,
        local_discr ?b, remote_discr ?b, bs_idx ?b, session_refs ?b)" by auto
  obtain m b where t: "bfd_set_timer now True c = (m, b)" by fastforce
  have m: "bfd_config m = bfd_config bm" "bfd_core b = bfd_core (snd c)"
    using set_timer_moves [of c now True] moves_core [of c "(m, b)"] c(2) by (auto simp: bfd_moves_def t)
  have S: "sessions m = sessions bm" using bfd_config_fields [OF m(1)] by simp
  have "bfd_process_expired env now [(i, now')] bm = Some (bfd_store_session i (m, b))"
    using assms(2) c(1) t by (simp add: bfd_with_session_def pool_is_free_iff pool_elt_live)
  moreover have "pool_vec (sessions (bfd_store_session i (m, b))) ! i = b"
    using live_length [OF assms(2)] by (simp add: bfd_store_session_def S)
  ultimately show ?thesis using core_eqD [OF trans [OF m(2) c(3)]] by (simp add: timeout_state_def)
qed

text \<open>A session that is up, and has heard nothing since its detection time.\<close>

definition sample_up :: bfd_session where
  "sample_up = (sample_session 7)\<lparr>local_state := BFD_STATE_up, remote_state := BFD_STATE_up, remote_discr := 9,
     echo_transmit_interval_clocks := sample_clocks, last_rx_clocks := 10, detection_time_clocks := 20\<rparr>"

lemma sample_up_table: "bfd_table_ok (sample_system sample_up)"
proof (rule sample_table_of)
  show "bfd_ctx_ok (sample_system sample_up, sample_up)" using sample_ctx [of sample_up 7]
    by (simp add: sample_up_def bfd_ctx_ok_def bfd_base_ok_def bfd_rates_ok_def) (simp add: sample_session_def bfd_session_zero_def)
qed (simp_all add: sample_up_def sample_session_def bfd_session_zero_def refs_of_def)

theorem bfd_silence_detected_witness:
  "\<exists>bm'. bfd_process_expired sample_env 1000 [(0, 1000)] (sample_system sample_up) = Some bm'
    \<and> (state_at bm' 0, local_diag (pool_vec (sessions bm') ! 0)) = (BFD_STATE_down, BFD_DIAG_CODE_det_time_exp)"
proof -
  have w: "wheel_inaccuracy (sample_system bs) = 2048" for bs
    by (simp add: sample_system_def sample_fields)
  have "rx_expired (sample_system sample_up, sample_up) 1000" by (simp add: rx_expired_def w) (simp add: sample_up_def)
  then show ?thesis using bfd_silence_detected [OF sample_up_table, of 0 1000 sample_env 1000]
    by (simp add: sample_live clk_ok_def sample_up_def)
qed

text \<open>The elements that calls put into the wheel, and what a session expects of the wheel at the moment
  \<open>now\<close>: its element is there, unless it has none, or is so near that the wheel may have given it back.\<close>

definition wheel_inserts :: "bfd_out_call list \<Rightarrow> (u64 \<times> u32) set" where
  "wheel_inserts calls = {(t, i). Timing_Wheel_Insert t i \<in> set calls}"

definition wheel_expected :: "(u64 \<times> u32) set \<Rightarrow> u64 \<Rightarrow> bfd_main \<Rightarrow> bfd_session \<Rightarrow> bool" where
  "wheel_expected W now bm bs \<longleftrightarrow> wheel_time_clocks bs = 0 \<or> wheel_time_clocks bs < now + wheel_inaccuracy bm
     \<or> (wheel_time_clocks bs, bs_idx bs) \<in> W"

text \<open>
  C23. A session that is up is woken before its detection time is over: when the timer is set, the wheel
  holds an element of the session with a time no later than the moment at which the silence of the peer has
  to be noticed, be it a new one or the one that was there; when the element is new and no wakeup is being
  handled, the process is told to compute its wait again. Whatever elements the wheel then gives back, no
  earlier than it promises, the session's expectation of the wheel holds when the timer is set the next
  time. The echo function must have a deadline when it runs.
\<close>

theorem bfd_wakeup_in_time:
  assumes "local_state bs = BFD_STATE_up" and "last_rx_clocks bs + detection_time_clocks bs \<noteq> 0"
    and "bs_echo bs = 0 \<or> echo_tx_timeout_clocks bs \<noteq> 0" and "wheel_expected W now bm bs"
  shows "\<exists>bm' bs' calls t. bfd_set_timer now handling_wakeup (bm, bs) = (bm', bs') \<and> bfd_calls bm' = bfd_calls bm @ calls
    \<and> (t, bs_idx bs) \<in> W \<union> wheel_inserts calls \<and> t \<le> last_rx_clocks bs + detection_time_clocks bs
    \<and> ((t, bs_idx bs) \<in> W \<or> handling_wakeup \<or> Process_Signal_Event BFD_EVENT_RESCHEDULE (bs_idx bs) \<in> set calls)
    \<and> (\<forall>E now'. (\<forall>(t, i)\<in>E. t < now' + wheel_inaccuracy bm) \<longrightarrow> wheel_expected (W \<union> wheel_inserts calls - E) now' bm' bs')"
proof -
  let ?d = "last_rx_clocks bs + detection_time_clocks bs" and ?n = "bfd_next_timeout bs" and ?i = "bs_idx bs"
  have n: "?n \<noteq> 0" "?n \<le> ?d" using assms(1-3) by (auto simp: bfd_next_timeout_def Let_def min_def)
  show ?thesis
  proof (cases "wheel_time_clocks bs < now + wheel_inaccuracy bm \<or> ?n < wheel_time_clocks bs \<or> wheel_time_clocks bs = 0")
    case True
    let ?calls = "Timing_Wheel_Insert ?n ?i # (if handling_wakeup then [] else [Process_Signal_Event BFD_EVENT_RESCHEDULE ?i])"
    let ?bs = "bs\<lparr>wheel_time_clocks := ?n\<rparr>"
    have s: "bfd_set_timer now handling_wakeup (bm, bs) = (bm\<lparr>bfd_calls := bfd_calls bm @ ?calls\<rparr>, ?bs)"
      using True n(1) by (simp add: bfd_set_timer_def bfd_call_def Let_def)
    have "(?n, ?i) \<in> wheel_inserts ?calls" by (simp add: wheel_inserts_def)
    then show ?thesis using n(2) unfolding s
      by (intro exI [of _ "bm\<lparr>bfd_calls := bfd_calls bm @ ?calls\<rparr>"] exI [of _ ?bs] exI [of _ ?calls] exI [of _ ?n])
        (auto simp: wheel_expected_def)
  next
    case False
    then have s: "bfd_set_timer now handling_wakeup (bm, bs) = (bm, bs)" by (simp add: bfd_set_timer_def Let_def)
    have w: "(wheel_time_clocks bs, ?i) \<in> W" "wheel_time_clocks bs \<le> ?d" using False assms(4) n(2) by (auto simp: wheel_expected_def)
    then show ?thesis unfolding s
      by (intro exI [of _ bm] exI [of _ bs] exI [of _ "[]"] exI [of _ "wheel_time_clocks bs"]) (auto simp: wheel_expected_def)
  qed
qed

theorem bfd_wakeup_in_time_witness:
  "\<exists>bm' bs' calls t. bfd_set_timer 15 False (sample_bm, sample_up) = (bm', bs') \<and> bfd_calls bm' = bfd_calls sample_bm @ calls
    \<and> (t, 0) \<in> wheel_inserts calls \<and> t \<le> 30"
proof -
  have u: "local_state sample_up = BFD_STATE_up" "last_rx_clocks sample_up + detection_time_clocks sample_up = 30"
    "bs_echo sample_up = 0" "wheel_time_clocks sample_up = 0" "bs_idx sample_up = 0"
    by (simp_all add: sample_up_def sample_session_def bfd_session_zero_def)
  from bfd_wakeup_in_time [of sample_up "{}" 15 sample_bm False] show ?thesis by (fastforce simp: u wheel_expected_def)
qed

text \<open>
  C22. The next transmission is due at least three quarters of the transmit interval after the last one,
  and at most the interval, or nine tenths of it when the detection multiplier is one, up to rounding;
  or now, when that moment is past. The computation in doubles never overflows.
\<close>

theorem bfd_transmission_jitter:
  assumes "clk_ok (last_tx_clocks bs)" and "clk_ok (transmit_interval_clocks bs)"
  shows "\<exists>t. bfd_calc_next_tx now (bm, bs)
      = Some (bm\<lparr>random_seed := random_u32 (random_seed bm)\<rparr>, bs\<lparr>tx_timeout_clocks := (if t < now then now else t)\<rparr>)
    \<and> (real (unat (last_tx_clocks bs)) + 3 / 4 * real (unat (transmit_interval_clocks bs))) * (1 - 1 / 2 ^ 50) - 1 < real (unat t)
    \<and> real (unat t) \<le> (real (unat (last_tx_clocks bs))
        + jitter_high (local_detect_mult bs) * real (unat (transmit_interval_clocks bs))) * (1 + 1 / 2 ^ 50)"
  using calc_next_tx_ok [OF assms, of now bm] by metis

theorem bfd_transmission_jitter_witness:
  "\<exists>t. bfd_calc_next_tx 0 (sample_bm, sample_session 7)
      = Some (sample_bm\<lparr>random_seed := random_u32 (random_seed sample_bm)\<rparr>, (sample_session 7)\<lparr>tx_timeout_clocks := t\<rparr>)"
proof -
  have "clk_ok (last_tx_clocks (sample_session 7))" "clk_ok (transmit_interval_clocks (sample_session 7))"
    using sample_ctx [of undefined 7]
    by (simp_all add: bfd_ctx_ok_def bfd_base_ok_def bfd_rates_ok_def) (simp add: sample_session_def bfd_session_zero_def)
  then show ?thesis using bfd_transmission_jitter [of "sample_session 7" 0 sample_bm] by auto
qed

section \<open>Authentication\<close>

text \<open>
  C21. While the last sequence number is trusted, a packet is accepted if its number is ahead of it by no
  more than three times the detection multiplier, and by at least one for meticulous authentication. Near
  the end of the 32-bit range one number too many is accepted, and when the last number was the largest
  one, meticulous authentication accepts every number.
\<close>

theorem bfd_sequence_window:
  assumes "local_detect_mult bs \<noteq> 0"
  shows "fst (bfd_verify_pkt_auth_seq_num now received met bs) \<longleftrightarrow>
    (seq_known now bs \<longrightarrow>
      (let remote = remote_seq_number (bs_auth bs); ahead = seq_ahead received remote;
           k = 3 * unat (local_detect_mult bs)
       in if 0xffffffff - 3 * ucast (local_detect_mult bs) < remote
          then (met \<and> remote = 0xffffffff) \<or> ((if met then 1 else 0) \<le> ahead \<and> ahead \<le> k + 1)
          else (if met then 1 else 0) \<le> ahead \<and> ahead \<le> k))"
  by (rule verify_seq_num [OF assms])

definition sample_known :: bfd_session where
  "sample_known = (sample_session 7)\<lparr>bs_auth := (bs_auth bfd_session_zero)\<lparr>remote_seq_number := 0xffffffff,
     remote_seq_number_known := 1\<rparr>\<rparr>"

theorem bfd_sequence_window_witness: "seq_known 0 sample_known \<and> fst (bfd_verify_pkt_auth_seq_num 0 1234567 True sample_known)"
proof -
  have m: "local_detect_mult sample_known = 3" "remote_seq_number (bs_auth sample_known) = 0xffffffff"
    by (simp_all add: sample_known_def sample_session_def)
  moreover have "seq_known 0 sample_known" by (simp add: seq_known_def sample_known_def sample_session_def bfd_session_zero_def)
  ultimately show ?thesis using bfd_sequence_window [of sample_known 0 1234567 True] by (simp add: Let_def)
qed

text \<open>
  C20. A frame that a session signs with its key is accepted by a session that has the same key under the
  same identifier and accepts the sequence number, whatever the digest function.
\<close>

theorem bfd_signed_frame_accepted:
  assumes "bfd_add_auth_section env pkt (bm, bs) = Some (f, len, bs1)" and "curr_key (bs_auth bs) = Some k"
    and "pool_elt_at_index (auth_keys bm) k = Some key" and "bfd_auth_type_supported (key_auth_type key)"
    and "curr_key (bs_auth bs') = Some k'" and "pool_elt_at_index (auth_keys bm') k' = Some key'"
    and "key_data key' = key_data key" and "key_auth_type key' = key_auth_type key"
    and "curr_bfd_key_id (bs_auth bs') = curr_bfd_key_id (bs_auth bs)" and "SHA1_ok env'" and "SHA1 env' = SHA1 env"
    and "fst (bfd_verify_pkt_auth_seq_num now (local_seq_number (bs_auth bs) + 1) (bfd_auth_type_is_meticulous (key_auth_type key)) bs')"
  shows "\<exists>c'. bfd_verify_pkt_auth env' now now' f len (bm', bs') = Some (True, c')"
  using assms by (rule signed_frame_accepted)

definition sample_key :: bfd_auth_key where
  "sample_key = \<lparr>conf_key_id = 1, use_count = 1, key_data = replicate 20 5, key_auth_type = BFD_AUTH_TYPE_keyed_sha1\<rparr>"

definition sample_keyed_session :: bfd_session where
  "sample_keyed_session = (sample_session 7)\<lparr>bs_auth := (bs_auth bfd_session_zero)\<lparr>curr_key := Some 0, is_delayed := 1\<rparr>\<rparr>"

definition sample_keyed :: bfd_main where
  "sample_keyed = (sample_system sample_keyed_session)\<lparr>auth_keys := \<lparr>pool_vec = [sample_key], free_bitmap = [], free_indices = []\<rparr>,
     auth_key_by_conf_key_id := [1 \<mapsto> 0]\<rparr>"

lemma sample_keyed_key: "pool_live (auth_keys sample_keyed) = {0}" "pool_elt_at_index (auth_keys sample_keyed) 0 = Some sample_key"
  by (auto simp: sample_keyed_def pool_elt_live pool_live_iff)

theorem bfd_signed_frame_accepted_witness:
  "\<exists>f len bs1 c'. bfd_add_auth_section sample_env sample_pkt (sample_keyed, sample_keyed_session) = Some (f, len, bs1)
    \<and> bfd_verify_pkt_auth sample_env 0 0 f len (sample_keyed, sample_keyed_session) = Some (True, c')"
proof -
  have c: "curr_key (bs_auth sample_keyed_session) = Some 0" by (simp add: sample_keyed_session_def)
  have t: "bfd_auth_type_supported (key_auth_type sample_key)" by (simp add: sample_key_def bfd_auth_type_supported_def)
  obtain f len bs1 where a: "bfd_add_auth_section sample_env sample_pkt (sample_keyed, sample_keyed_session) = Some (f, len, bs1)"
    using sample_keyed_key(2) c
    by (cases "bfd_add_sha1_auth_section sample_env sample_key sample_pkt sample_keyed_session")
      (simp add: bfd_add_auth_section_def sample_key_def)
  have "fst (bfd_verify_pkt_auth_seq_num 0 (local_seq_number (bs_auth sample_keyed_session) + 1)
      (bfd_auth_type_is_meticulous (key_auth_type sample_key)) sample_keyed_session)"
    by (simp add: bfd_verify_pkt_auth_seq_num_def Let_def sample_keyed_session_def bfd_session_zero_def)
  from bfd_signed_frame_accepted [OF a c sample_keyed_key(2) t c sample_keyed_key(2) refl refl refl _ refl this, of 0]
  show ?thesis using a by (auto simp: sample_env_def)
qed

text \<open>
  C19. A key that a session uses, now or after a delayed change, is neither deleted nor modified: both calls
  answer that the key is in use and change nothing.
\<close>

theorem bfd_keys_in_use:
  assumes "bfd_table_ok bm" and "auth_key_by_conf_key_id bm conf = Some k" and "j \<in> pool_live (sessions bm)"
    and "curr_key (bs_auth (pool_vec (sessions bm) ! j)) = Some k \<or> next_key (bs_auth (pool_vec (sessions bm) ! j)) = Some k"
    and "key_len \<noteq> 0" and "ucast key_len \<le> bfd_max_key_len_for_auth_type kind" and "bfd_auth_type_supported kind"
  shows "bfd_auth_del_key conf bm = Some (VNET_API_ERROR_BFD_EINUSE, bm)
    \<and> bfd_auth_set_key memory moves conf kind key_len bytes bm = Some (VNET_API_ERROR_BFD_EINUSE, bm)"
proof -
  have "0 < refs_of (pool_vec (sessions bm) ! j) k" using assms(4) by (auto simp: refs_of_def)
  then have "0 < table_refs (sessions bm) k" using refs_le [OF assms(3), of k] by simp
  from set_key_unused [OF assms(1,2) this, of key_len kind memory moves bytes] show ?thesis using assms(5-7) by simp
qed

lemma sample_keyed_table: "bfd_table_ok sample_keyed"
proof -
  have live: "pool_live (sessions sample_keyed) = {0}" "pool_vec (sessions sample_keyed) ! 0 = sample_keyed_session"
    using sample_live by (simp_all add: sample_keyed_def)
  have "table_refs (sessions sample_keyed) k \<le> key_count sample_keyed k" for k
    using sample_keyed_key(2)
    by (simp add: table_refs_def live refs_of_def key_count_def)
      (auto simp: sample_keyed_session_def bfd_session_zero_def sample_key_def)
  then have "bfd_keys_ok sample_keyed" unfolding bfd_keys_ok_def
    by (simp add: sample_keyed_key) (simp add: sample_keyed_def pool_ok_def sample_key_def split: if_splits)
  moreover have "bfd_main_ok sample_keyed" "pool_ok (sessions sample_keyed)"
    using sample_main by (simp_all add: sample_keyed_def sample_system_def pool_ok_def)
  moreover have "bfd_ctx_ok (sample_keyed, sample_keyed_session)"
  proof -
    define S where "S = sample_system sample_keyed_session"
    define a where "a = bs_auth sample_keyed_session"
    have S: "usec_pair sample_keyed = usec_pair S" "default_desired_min_tx_clocks sample_keyed = default_desired_min_tx_clocks S"
      by (simp_all add: sample_keyed_def S_def fun_eq_iff usec_pair_def bfd_usec_to_clocks_def)
    have a: "sample_keyed_session = (sample_session 7)\<lparr>bs_auth := a\<rparr>" "curr_key a = Some 0" "next_key a = None"
      by (simp_all add: a_def sample_keyed_session_def bfd_session_zero_def)
    have o: "bfd_ctx_ok (S, sample_session 7)" unfolding S_def by (rule sample_ctx)
    show ?thesis using o \<open>bfd_main_ok sample_keyed\<close> sample_keyed_key(2) unfolding a(1)
      by (simp add: bfd_ctx_ok_def bfd_base_ok_def bfd_rates_ok_def key_live_def S a(2,3))
  qed
  moreover have "bs_idx sample_keyed_session = 0" "local_discr sample_keyed_session = 7"
    by (simp_all add: sample_keyed_session_def sample_session_def bfd_session_zero_def)
  ultimately show ?thesis
    by (auto simp: bfd_table_but_def live) (auto simp: sample_keyed_def sample_system_def split: if_splits)
qed

theorem bfd_keys_in_use_witness:
  "bfd_auth_del_key 1 sample_keyed = Some (VNET_API_ERROR_BFD_EINUSE, sample_keyed)
    \<and> bfd_auth_set_key sample_key True 1 BFD_AUTH_TYPE_keyed_sha1 20 (replicate 20 6) sample_keyed = Some (VNET_API_ERROR_BFD_EINUSE, sample_keyed)"
  by (rule bfd_keys_in_use [OF sample_keyed_table, where k = 0 and j = 0])
    (simp_all add: sample_keyed_def sample_live sample_keyed_session_def bfd_max_key_len_for_auth_type_def bfd_auth_type_supported_def)

section \<open>The sessions over UDP\<close>

text \<open>
  C17. Adding, changing and deleting a session over UDP are the updates of a map from keys, an interface
  and two addresses, to sessions, as long as there are at most 1000 sessions and counts of references fit.
  A call that fails leaves the map as it was. Adding fails when the interface is unknown, the addresses are
  of different families, the local one is not an address of the interface, the detection multiplier or the
  transmit interval is zero, the session exists, or its authentication key is unknown; changing and deleting
  fail for the same addresses and for an unknown session. Changing does not check the multiplier: zero is
  accepted, though the documentation forbids it. Deleting a session that was added gives the map back.
\<close>

theorem bfd_udp_refines_map:
  assumes "bfd_udp_ok bum" and "card (pool_live (sessions (bum_bfd_main bum))) \<le> 1000" and "keys_room (bum_bfd_main bum)"
    and "k = bfd_udp_key_init sw l p" and "e = add_session_result ifs sw l p tx mult auth conf bum"
    and "r = lookup_result ifs sw l p bum"
  shows "(\<exists>bum'. bfd_udp_add_session memory adj_nbr ifs sw l p tx rx mult auth conf kid bum = Some (e, bum') \<and> bfd_udp_ok bum'
      \<and> (if e = API_OK
         then \<exists>bs. udp_sessions bum' = (udp_sessions bum)(k \<mapsto> bs) \<and> config_desired_min_tx_usec bs = tx
           \<and> config_required_min_rx_usec bs = rx \<and> local_detect_mult bs = mult \<and> local_state bs = BFD_STATE_down
         else udp_sessions bum' = udp_sessions bum))
    \<and> (\<exists>bum'. bfd_udp_mod_session ifs sw l p tx rx mult bum = Some (r, bum') \<and> bfd_udp_ok bum'
      \<and> (if r = API_OK
         then \<exists>bs bs'. udp_sessions bum k = Some bs \<and> udp_sessions bum' = (udp_sessions bum)(k \<mapsto> bs')
           \<and> config_desired_min_tx_usec bs' = tx \<and> config_required_min_rx_usec bs' = rx \<and> local_detect_mult bs' = mult
           \<and> local_state bs' = local_state bs
         else udp_sessions bum' = udp_sessions bum))
    \<and> (\<exists>bum'. bfd_udp_del_session ifs sw l p bum = Some (r, bum') \<and> bfd_udp_ok bum'
      \<and> udp_sessions bum' = (if r = API_OK then (udp_sessions bum)(k := None) else udp_sessions bum))
    \<and> (e = API_OK \<longrightarrow> (\<exists>bum1 bum2. bfd_udp_add_session memory adj_nbr ifs sw l p tx rx mult auth conf kid bum = Some (API_OK, bum1)
        \<and> bfd_udp_del_session ifs sw l p bum1 = Some (API_OK, bum2) \<and> bfd_udp_ok bum2 \<and> udp_sessions bum2 = udp_sessions bum))"
proof -
  have "sessions_fit bum" using assms(2,3) by (simp add: sessions_fit_def)
  note rt = udp_api.add_del [OF assms(1) this, of memory adj_nbr ifs auth conf kid "(sw, l, p)" "(tx, rx, mult)"]
  note add = add_session_ok [OF assms(1-3,5), where memory = memory and adj_nbr = adj_nbr and rx = rx and kid = kid]
  from add rt show ?thesis unfolding assms(4,6)
    by (intro conjI add mod_session_refines [OF assms(1)] del_session_refines [OF assms(1)]) auto
qed

lemma sample_udp_init_ok: "bfd_udp_ok (bfd_udp_init sample_bm)"
  by (rule udp_init_ok [OF sample_cps_ok sample_init])

theorem bfd_udp_refines_map_witness:
  "\<exists>bum'. bfd_udp_add_session bfd_session_zero (\<lambda>_ _ _. 7) sample_ifs 1 (ip46_of_ip4 0x0100000a) (ip46_of_ip4 0x0200000a)
      100000 200000 3 0 0 0 (bfd_udp_init sample_bm) = Some (API_OK, bum')
    \<and> (\<exists>bs. udp_sessions bum' (bfd_udp_key_init 1 (ip46_of_ip4 0x0100000a) (ip46_of_ip4 0x0200000a)) = Some bs
      \<and> config_required_min_rx_usec bs = 200000)"
proof -
  have "ip46_address_is_ip4 (ip46_of_ip4 a)" for a
    by (simp add: ip46_address_is_ip4_def ip46_of_ip4_def) (auto intro!: bit_eqI simp: bit_simps)
  moreover have "ip46_ip4 (ip46_of_ip4 0x0100000a) = 0x0100000a" by (simp add: ip46_ip4_def ip46_of_ip4_def)
  ultimately have e: "add_session_result sample_ifs 1 (ip46_of_ip4 0x0100000a) (ip46_of_ip4 0x0200000a) 100000 3 0 0 (bfd_udp_init sample_bm) = API_OK"
    by (simp add: add_session_result_def address_result_def interface_has_def sample_ifs_def
      VNET_SW_INTERFACE_FLAG_UNNUMBERED_def udp_sessions_def bfd_udp_init_def)
  have r: "card (pool_live (sessions (bum_bfd_main (bfd_udp_init sample_bm)))) \<le> 1000" "keys_room (bum_bfd_main (bfd_udp_init sample_bm))"
    by (simp_all add: bfd_udp_init_def sample_room)
  from bfd_udp_refines_map [OF sample_udp_init_ok r refl e [symmetric] refl, where memory = bfd_session_zero and adj_nbr = "\<lambda>_ _ _. 7"
      and rx = 200000 and kid = 0, THEN conjunct1]
  show ?thesis by auto
qed

text \<open>The header of a control packet that RFC 5880 accepts.\<close>

definition control_header_ok :: "bfd_pkt \<Rightarrow> bool" where
  "control_header_ok pkt \<longleftrightarrow> bfd_pkt_get_version pkt = 1 \<and> (if bfd_pkt_get_auth_present pkt = 0 then 24 else 26) \<le> unat (head_length pkt)
    \<and> detect_mult pkt \<noteq> 0 \<and> bfd_pkt_get_multipoint pkt = 0 \<and> my_disc pkt \<noteq> 0
    \<and> (your_disc pkt = 0 \<longrightarrow> bfd_state_of (bfd_pkt_get_state pkt) \<in> {BFD_STATE_down, BFD_STATE_admin_down})"

lemma verify_common_header: "bfd_verify_pkt_common pkt \<longleftrightarrow> control_header_ok pkt"
  by (auto simp: bfd_verify_pkt_common_def control_header_ok_def split: if_splits)

text \<open>
  C18. A packet that the IPv4 node accepts has passed the checks of its header, came from the address of
  the session's peer to its own address with a TTL of 255, and names the session's discriminator unless it
  names none and the session was found by its addresses. It is authentic: signed with the session's key, with
  an acceptable sequence number, or with the key that is to be used next; or unsigned, when the session has
  no key or its removal is pending. A packet that is rejected changes at most the state of authentication
  of a session. Signed packets are taken to state a length that covers their sequence number.
\<close>

theorem bfd_udp4_input_guards:
  assumes "bfd_udp_ok bum" and "frame_length_ok (buffer_frame b)"
  shows "\<exists>err r bum'. bfd_udp4_scan env clk b bum = Some (err, r, bum') \<and>
    (case r of
       None \<Rightarrow> err = BFD_UDP_ERROR_BAD \<and> quiet bum bum'
     | Some i \<Rightarrow> err = BFD_UDP_ERROR_NONE \<and> (\<exists>ip udp bs pkt. bfd_udp4_find_headers b = Some (ip, udp)
         \<and> bfd_find_session_by_idx (bum_bfd_main bum) i = Some bs \<and> pkt = frame_pkt (buffer_frame b)
         \<and> control_header_ok pkt \<and> ip4_ttl ip = 255
         \<and> ip4_src_address ip = ip46_ip4 (peer_addr (udp_key (bs_udp bs)))
         \<and> ip4_dst_address ip = ip46_ip4 (local_addr (udp_key (bs_udp bs)))
         \<and> (if your_disc pkt = 0 then udp_key (bs_udp bs) = bfd_udp4_pkt_key (rx_sw_if_index b) ip else your_disc pkt = local_discr bs)
         \<and> frame_authentic env (fst clk) (buffer_frame b) (current_length b) (bum_bfd_main bum) bs))"
proof -
  from scan_ok [OF assms, of bfd_udp4_find_headers bfd_udp4_pkt_key bfd_udp4_verify_transport env clk] obtain err r bum' where
    s: "bfd_udp4_scan env clk b bum = Some (err, r, bum')"
    and c: "case r of None \<Rightarrow> err = BFD_UDP_ERROR_BAD \<and> quiet bum bum'
      | Some i \<Rightarrow> err = BFD_UDP_ERROR_NONE \<and> i \<in> pool_live (sessions (bum_bfd_main bum'))
          \<and> (\<exists>ip c bs. scan_headers bfd_udp4_find_headers b = Some ip \<and> scan_session bfd_udp4_pkt_key b ip bum = Some i
              \<and> bfd_verify_pkt_auth env (fst clk) (fst (snd clk)) (buffer_frame b) (current_length b)
                  (bum_bfd_main bum, pool_vec (sessions (bum_bfd_main bum)) ! i) = Some (True, c)
              \<and> session_view bs = session_view (pool_vec (sessions (bum_bfd_main bum)) ! i)
              \<and> bfd_udp4_verify_transport ip bs = BFD_UDP_ERROR_NONE)" unfolding bfd_udp4_scan_def by blast
  show ?thesis
  proof (cases r)
    case (Some i)
    then obtain ip ctx bs where h: "scan_headers bfd_udp4_find_headers b = Some ip" "scan_session bfd_udp4_pkt_key b ip bum = Some i"
      "bfd_verify_pkt_auth env (fst clk) (fst (snd clk)) (buffer_frame b) (current_length b)
        (bum_bfd_main bum, pool_vec (sessions (bum_bfd_main bum)) ! i) = Some (True, ctx)"
      "session_view bs = session_view (pool_vec (sessions (bum_bfd_main bum)) ! i)" "bfd_udp4_verify_transport ip bs = BFD_UDP_ERROR_NONE"
      using c by auto
    let ?b = "pool_vec (sessions (bum_bfd_main bum)) ! i" and ?pkt = "frame_pkt (buffer_frame b)"
    have i: "i \<in> pool_live (sessions (bum_bfd_main bum))" using scan_session_live [OF assms(1) h(2)] .
    have "bs_udp bs = bs_udp ?b" using arg_cong [OF h(4), of bs_udp] by (simp add: session_view_def)
    then have t: "ip4_ttl ip = 255" "ip4_src_address ip = ip46_ip4 (peer_addr (udp_key (bs_udp ?b)))"
      "ip4_dst_address ip = ip46_ip4 (local_addr (udp_key (bs_udp ?b)))"
      using h(5) by (auto simp: bfd_udp4_verify_transport_def Let_def split: if_splits)
    have "if your_disc ?pkt = 0 then udp_key (bs_udp ?b) = bfd_udp4_pkt_key (rx_sw_if_index b) ip else your_disc ?pkt = local_discr ?b"
      using h(2) udp_table [OF assms(1)] udp_idx [OF assms(1), of "bfd_udp4_pkt_key (rx_sw_if_index b) ip" i]
      by (auto simp: scan_session_def bfd_table_but_def Let_def split: if_splits)
    moreover have "frame_authentic env (fst clk) (buffer_frame b) (current_length b) (bum_bfd_main bum) ?b"
      by (rule verify_authentic [OF h(3)])
    moreover have "\<exists>udp. bfd_udp4_find_headers b = Some (ip, udp)" "control_header_ok ?pkt"
      using h(1) by (auto simp: scan_headers_def verify_common_header split: option.splits if_splits)
    ultimately show ?thesis using s c Some t i by (auto simp: find_live)
  qed (use s c in auto)
qed

definition sample_bfd_buffer :: "bfd_ip4_header bfd_buffer" where
  "sample_bfd_buffer = \<lparr>current_length = 24, current_data = 28, buffer_frame = \<lparr>frame_pkt = sample_pkt, frame_auth = sample_auth\<rparr>,
     start_of_ip_header = 0, rx_sw_if_index = 1,
     headers_at = (\<lambda>_. (\<lparr>ip4_src_address = 0x0200000a, ip4_dst_address = 0x0100000a, ip4_ttl = 254\<rparr>,
       \<lparr>udp_src_port = 50000, udp_hdr_length = 8192\<rparr>))\<rparr>"

definition sample_udp :: bfd_udp_main where
  "sample_udp = (bfd_udp_init sample_keyed)\<lparr>bfd_session_idx_by_bfd_key := [udp_key (bs_udp sample_keyed_session) \<mapsto> 0],
     adj_locks := (\<lambda>a. if a = adj_index (bs_udp sample_keyed_session) then 1 else 0)\<rparr>"

lemma sample_udp_ok: "bfd_udp_ok sample_udp"
proof -
  have live: "pool_live (sessions sample_keyed) = {0}" "pool_vec (sessions sample_keyed) = [sample_keyed_session]"
    using sample_live by (simp_all add: sample_keyed_def sample_system_def)
  have "{i. i = 0 \<and> adj_index (bs_udp ([sample_keyed_session] ! i)) = a} = (if a = adj_index (bs_udp sample_keyed_session) then {0} else {})"
    for a by auto
  then show ?thesis using sample_keyed_table
    by (auto simp: bfd_udp_but_def Let_def sample_udp_def bfd_udp_init_def live)
qed

text \<open>An unsigned packet of the peer that the session waits for before it removes its key.\<close>

definition sample_unsigned :: "bfd_ip4_header bfd_buffer" where
  "sample_unsigned = sample_bfd_buffer\<lparr>buffer_frame := \<lparr>frame_pkt = sample_pkt\<lparr>your_disc := 7\<rparr>, frame_auth = sample_auth\<rparr>,
     headers_at := (\<lambda>_. (\<lparr>ip4_src_address = ip46_ip4 (peer_addr (udp_key (bs_udp sample_keyed_session))),
       ip4_dst_address = ip46_ip4 (local_addr (udp_key (bs_udp sample_keyed_session))), ip4_ttl = 255\<rparr>,
       \<lparr>udp_src_port = 50000, udp_hdr_length = 8192\<rparr>))\<rparr>"

lemma sample_udp_session: "pool_vec (sessions (bum_bfd_main sample_udp)) ! 0 = sample_keyed_session"
  by (simp add: sample_udp_def bfd_udp_init_def sample_keyed_def sample_live)

lemma sample_unsigned_scan:
  "scan_headers bfd_udp4_find_headers sample_unsigned = Some (fst (headers_at sample_unsigned 0))"
  "scan_session bfd_udp4_pkt_key sample_unsigned (fst (headers_at sample_unsigned 0)) sample_udp = Some 0"
  "bfd_udp4_verify_transport (fst (headers_at sample_unsigned 0)) bs = BFD_UDP_ERROR_NONE" if "bs_udp bs = bs_udp sample_keyed_session"
proof -
  show "scan_headers bfd_udp4_find_headers sample_unsigned = Some (fst (headers_at sample_unsigned 0))"
    by (simp add: scan_headers_def bfd_udp4_find_headers_def bfd_udp_find_headers_def sample_unsigned_def sample_bfd_buffer_def Let_def
      sample_pkt_def bfd_pkt_zero_def bfd_verify_pkt_common_def bfd_pkt_get_version_def bfd_pkt_get_auth_present_def
      bfd_pkt_get_multipoint_def)
  show "scan_session bfd_udp4_pkt_key sample_unsigned (fst (headers_at sample_unsigned 0)) sample_udp = Some 0"
    by (simp add: scan_session_def sample_unsigned_def Let_def sample_udp_def bfd_udp_init_def)
      (simp add: sample_keyed_def sample_system_def sample_keyed_session_def sample_session_def)
  show "bfd_udp4_verify_transport (fst (headers_at sample_unsigned 0)) bs = BFD_UDP_ERROR_NONE"
    using that by (simp add: bfd_udp4_verify_transport_def sample_unsigned_def Let_def)
qed

theorem bfd_udp4_input_guards_witness:
  "\<exists>bum'. bfd_udp4_scan sample_env (0, 0, 0, 0) sample_unsigned sample_udp = Some (BFD_UDP_ERROR_NONE, Some 0, bum')
    \<and> frame_authentic sample_env 0 (buffer_frame sample_unsigned) 24 (bum_bfd_main sample_udp) sample_keyed_session"
proof -
  let ?bm = "bum_bfd_main sample_udp" and ?f = "buffer_frame sample_unsigned"
  have len: "frame_length_ok ?f" "current_length sample_unsigned = 24" "bfd_pkt_get_auth_present (frame_pkt ?f) = 0"
    by (simp_all add: frame_length_ok_def sample_unsigned_def sample_bfd_buffer_def sample_pkt_def bfd_pkt_zero_def bfd_pkt_get_auth_present_def)
  from bfd_udp4_input_guards [OF sample_udp_ok len(1), of sample_env "(0, 0, 0, 0)"] obtain err r bum' where
    s: "bfd_udp4_scan sample_env (0, 0, 0, 0) sample_unsigned sample_udp = Some (err, r, bum')"
    and c: "case r of None \<Rightarrow> True | Some i \<Rightarrow> \<exists>bs. err = BFD_UDP_ERROR_NONE \<and> bfd_find_session_by_idx ?bm i = Some bs
      \<and> frame_authentic sample_env 0 ?f 24 ?bm bs"
    unfolding len(2) by (auto split: option.splits)
  have i: "0 \<in> pool_live (sessions ?bm)" using scan_session_live [OF sample_udp_ok sample_unsigned_scan(2)] by simp
  from verify_auth_table [OF udp_table [OF sample_udp_ok] i, of sample_env 0 0 ?f 24] obtain ok m b where
    v: "bfd_verify_pkt_auth sample_env 0 0 ?f 24 (?bm, sample_keyed_session) = Some (ok, m, b)" unfolding sample_udp_session by auto
  then have "ok" using len(3) by (auto simp: bfd_verify_pkt_auth_def Let_def bind_eq_Some_conv sample_keyed_session_def bfd_session_zero_def)
  moreover have "bs_udp b = bs_udp sample_keyed_session" by (subst verify_shape(2) [OF v]) simp
  ultimately have "\<exists>x. bfd_udp4_scan sample_env (0, 0, 0, 0) sample_unsigned sample_udp = Some (BFD_UDP_ERROR_NONE, Some 0, x)"
    using s v sample_unsigned_scan [of b] unfolding bfd_udp4_scan_def scan_eq [OF sample_udp_ok]
    by (auto simp: len(2) sample_udp_session bind_eq_Some_conv)
  then show ?thesis using s c i by (auto simp: find_live sample_udp_session)
qed

definition net_u16 :: "u8 list \<Rightarrow> nat \<Rightarrow> nat" where
  "net_u16 xs i = 256 * unat (xs ! i) + unat (xs ! (i + 1))"

lemma u16_net_value: "256 * unat (ucast (drop_bit 8 w) :: u8) + unat (ucast w :: u8) = unat (w :: u16)"
proof -
  have "unat w < 65536" using unsigned_less [of w] by simp
  then have "unat w div 256 mod 256 = unat w div 256" by (simp add: div_less_iff_less_mult)
  then have "256 * (unat w div 256 mod 256) + unat w mod 256 = unat w" by (simp only: mult_div_mod_eq)
  then show ?thesis by (simp add: unsigned_ucast_eq take_bit_eq_mod unsigned_drop_bit_eq drop_bit_eq_div unat_div)
qed

text \<open>
  C25. The IPv4 and UDP headers in front of a control packet have a valid checksum, TTL 255 as the
  receiver demands, lengths that cover the packet, the port of BFD, and a source port in the range that
  RFC 5881 prescribes, different for sessions whose indices differ modulo 16384.
\<close>

theorem bfd_udp4_header_valid:
  assumes "even addr" and "payload \<le> 65507"
  shows "\<exists>ip4 udp. bfd_add_udp4_transport ifs bum addr payload bs False = Some (Some (ip4, udp))
    \<and> ip4_header_checksum_is_valid addr ip4 \<and> rfc1071_sum (take (ip4_header_bytes ip4) ip4) mod 65535 = 0
    \<and> ip4 ! 8 = 255 \<and> net_u16 ip4 2 = 28 + payload \<and> net_u16 udp 4 = 8 + payload
    \<and> net_u16 udp 2 = 3784 \<and> net_u16 udp 0 = 49152 + unat (bs_idx bs) mod 16384"
proof -
  let ?l = "word_of_nat (28 + payload) :: u16" and ?key = "udp_key (bs_udp bs)"
  define h where "h = fst (bfd_udp4_headers (ip46_ip4 (local_addr ?key)) (ip46_ip4 (peer_addr ?key)) (bfd_udp_bs_idx_to_sport (bs_idx bs)) 3784 ?l)"
  define u where "u = snd (bfd_udp4_headers (ip46_ip4 (local_addr ?key)) (ip46_ip4 (peer_addr ?key)) (bfd_udp_bs_idx_to_sport (bs_idx bs)) 3784 ?l)"
  have n: "ip4_header_bytes h = 20" "length h = 20"
    by (simp_all add: h_def bfd_udp4_headers_def ip4_header_bytes_def u16_net_def u32_bytes_def)
  have l: "unat ?l = 28 + payload" "unat (?l - 20) = 8 + payload"
  proof -
    have "?l - 20 = word_of_nat (8 + payload)" by simp
    then show "unat ?l = 28 + payload" "unat (?l - 20) = 8 + payload"
      using assms(2) by (simp_all only: unat_of_nat) simp_all
  qed
  have p: "unat (bfd_udp_bs_idx_to_sport i) = 49152 + unat i mod 16384" for i
    by (simp add: bfd_udp_bs_idx_to_sport_def unsigned_ucast_eq take_bit_eq_mod unat_plus_if_size word_size unat_mod)
  let ?c = "ip4_header_checksum addr h"
  have "bfd_add_udp4_transport ifs bum addr payload bs False = Some (Some (ip4_set_checksum ?c h, u))"
    by (simp add: bfd_add_udp4_transport_def Let_def h_def u_def split: prod.split)
  moreover have "ip4_header_checksum_is_valid addr (ip4_set_checksum ?c h)
      \<and> rfc1071_sum (take (ip4_header_bytes (ip4_set_checksum ?c h)) (ip4_set_checksum ?c h)) mod 65535 = 0"
    by (rule set_checksum_valid) (simp_all add: n assms(1))
  moreover have "ip4_set_checksum ?c h ! 8 = 255" "net_u16 (ip4_set_checksum ?c h) 2 = 28 + payload"
    using u16_net_value [of ?l] l(1)
    by (simp_all add: net_u16_def ip4_set_checksum_def h_def bfd_udp4_headers_def u16_net_def u32_bytes_def)
  moreover have "net_u16 u 4 = 8 + payload" "net_u16 u 2 = 3784" "net_u16 u 0 = 49152 + unat (bs_idx bs) mod 16384"
    using u16_net_value [of "?l - 20"] u16_net_value [of "bfd_udp_bs_idx_to_sport (bs_idx bs)"] l(2) p
    by (simp_all add: net_u16_def u_def bfd_udp4_headers_def u16_net_def u32_bytes_def)
  ultimately show ?thesis by (intro exI [of _ "ip4_set_checksum ?c h"] exI [of _ u]) (elim conjE, intro conjI)
qed

theorem bfd_udp4_header_valid_witness:
  "\<exists>ip4 udp. bfd_add_udp4_transport sample_ifs (bfd_udp_init sample_bm) 64 24 (sample_session 7) False = Some (Some (ip4, udp))
    \<and> ip4_header_checksum_is_valid 64 ip4 \<and> net_u16 udp 4 = 32"
  using bfd_udp4_header_valid [of 64 24 sample_ifs "bfd_udp_init sample_bm" "sample_session 7"] by auto

text \<open>
  C24. The search for a discriminator ends with one that no other session has, within its 1001 draws, as
  long as there are no more than 1000 sessions: the generator has full period, so the draws differ.
\<close>

theorem bfd_discriminator_found:
  assumes "bfd_table_ok bm" and "card (pool_live (sessions bm)) \<le> 1000"
  shows "\<exists>i bm'. bfd_get_session memory t bm = Some (Some i, bm') \<and> pool_live (sessions bm') = insert i (pool_live (sessions bm))
    \<and> (\<forall>j. j \<in> pool_live (sessions bm') \<and> j \<noteq> i \<longrightarrow>
        local_discr (pool_vec (sessions bm') ! j) \<noteq> local_discr (pool_vec (sessions bm') ! i))"
proof -
  from get_session_table [OF assms, of memory t] obtain i bm' where
    "bfd_get_session memory t bm = Some (Some i, bm')" "pool_live (sessions bm') = insert i (pool_live (sessions bm))"
    "bfd_table_but {i} bm'" by blast
  then show ?thesis using discr_unique [of "{i}" bm' _ i] by blast
qed

theorem bfd_discriminator_found_witness:
  "\<exists>i bm'. bfd_get_session bfd_session_zero BFD_TRANSPORT_UDP4 (sample_system (sample_session 7)) = Some (Some i, bm')
    \<and> (\<forall>j. j \<in> pool_live (sessions bm') \<and> j \<noteq> i \<longrightarrow>
        local_discr (pool_vec (sessions bm') ! j) \<noteq> local_discr (pool_vec (sessions bm') ! i))"
  using bfd_discriminator_found [OF sample_table, of 7 bfd_session_zero BFD_TRANSPORT_UDP4] by (auto simp: sample_live)

section \<open>Flaws\<close>

text \<open>
  C26. While the removal of a session's key waits for the peer to stop signing, an unsigned packet that
  names the session removes the key even if the packet is then dropped, for instance because its TTL shows
  that it is not from the link: the key is switched before the addresses and the TTL are checked.
\<close>

theorem bfd_dropped_packet_removes_key:
  assumes "bfd_udp_ok bum" and "scan_headers bfd_udp4_find_headers b = Some ip" and "scan_session bfd_udp4_pkt_key b ip bum = Some i"
    and "bs = pool_vec (sessions (bum_bfd_main bum)) ! i" and "curr_key (bs_auth bs) \<noteq> None" and "is_delayed (bs_auth bs) \<noteq> 0"
    and "next_key (bs_auth bs) = None" and "bfd_pkt_get_auth_present (frame_pkt (buffer_frame b)) = 0"
    and "current_length b = sizeof_bfd_pkt" and "bfd_udp4_verify_transport ip bs = BFD_UDP_ERROR_BAD"
  shows "\<exists>bum'. bfd_udp4_scan env clk b bum = Some (BFD_UDP_ERROR_BAD, None, bum')
    \<and> curr_key (bs_auth (pool_vec (sessions (bum_bfd_main bum')) ! i)) = None"
proof -
  obtain n1 n2 n3 n4 where clk: "clk = (n1, n2, n3, n4)" by (cases clk)
  let ?bm = "bum_bfd_main bum"
  have i: "i \<in> pool_live (sessions ?bm)" using scan_session_live [OF assms(1,3)] .
  have "\<exists>c'. bfd_session_switch_auth_to_next (?bm, bs) = Some c' \<and> bfd_steps_but {} ?bm (bfd_store_session i c')"
    by (rule switch_table [OF udp_table [OF assms(1)] i assms(4), where n = "remote_seq_number_known (bs_auth bs)"]) simp_all
  then obtain m b' where sw: "bfd_session_switch_auth_to_next (?bm, bs) = Some (m, b')" by auto
  have s: "curr_key (bs_auth b') = None" "bs_udp b' = bs_udp bs"
    using sw assms(7) by (auto simp: bfd_session_switch_auth_to_next_def Let_def split: bind_splits)
  have v: "bfd_verify_pkt_auth env n1 n2 (buffer_frame b) (current_length b) (?bm, bs) = Some (True, m, b')"
    using assms(5-9) sw by (simp add: bfd_verify_pkt_auth_def Let_def)
  have S: "sessions m = sessions ?bm" using arg_cong [OF verify_shape(1) [OF v], of sessions] by simp
  have "bfd_udp4_verify_transport ip b' = BFD_UDP_ERROR_BAD" using assms(10) s(2) by (simp add: bfd_udp4_verify_transport_def)
  then have "bfd_udp4_scan env clk b bum = Some (BFD_UDP_ERROR_BAD, None, bum\<lparr>bum_bfd_main := bfd_store_session i (m, b')\<rparr>)"
    using assms(2,3) v unfolding bfd_udp4_scan_def clk scan_eq [OF assms(1)] by (simp add: assms(4))
  then show ?thesis using s(1) live_length [OF i] by (simp add: bfd_store_session_def S)
qed

definition sample_stray :: "bfd_ip4_header bfd_buffer" where
  "sample_stray = sample_bfd_buffer\<lparr>buffer_frame := \<lparr>frame_pkt = sample_pkt\<lparr>your_disc := 7\<rparr>, frame_auth = sample_auth\<rparr>\<rparr>"

theorem bfd_dropped_packet_removes_key_witness:
  "\<exists>bum'. bfd_udp4_scan sample_env (0, 0, 0, 0) sample_stray sample_udp = Some (BFD_UDP_ERROR_BAD, None, bum')
    \<and> curr_key (bs_auth (pool_vec (sessions (bum_bfd_main bum')) ! 0)) = None"
proof (rule bfd_dropped_packet_removes_key [OF sample_udp_ok])
  show "scan_headers bfd_udp4_find_headers sample_stray = Some (fst (headers_at sample_bfd_buffer 0))"
    by (simp add: scan_headers_def bfd_udp4_find_headers_def bfd_udp_find_headers_def sample_stray_def sample_bfd_buffer_def Let_def
      sample_pkt_def bfd_pkt_zero_def bfd_verify_pkt_common_def bfd_pkt_get_version_def bfd_pkt_get_auth_present_def
      bfd_pkt_get_multipoint_def)
  show "scan_session bfd_udp4_pkt_key sample_stray (fst (headers_at sample_bfd_buffer 0)) sample_udp = Some 0"
    by (simp add: scan_session_def sample_stray_def Let_def sample_udp_def bfd_udp_init_def)
      (simp add: sample_keyed_def sample_system_def sample_keyed_session_def sample_session_def)
  show "sample_keyed_session = pool_vec (sessions (bum_bfd_main sample_udp)) ! 0" by (simp add: sample_udp_session)
  show "bfd_udp4_verify_transport (fst (headers_at sample_bfd_buffer 0)) sample_keyed_session = BFD_UDP_ERROR_BAD"
    by (simp add: bfd_udp4_verify_transport_def sample_bfd_buffer_def Let_def)
qed (simp_all add: sample_keyed_session_def bfd_session_zero_def sample_stray_def sample_bfd_buffer_def sample_pkt_def bfd_pkt_zero_def
  bfd_pkt_get_auth_present_def)

end
