(* ===== verification/Spec2Isabelle.thy ===== *)
theory Spec2Isabelle
  imports Policer_Node Svm_Fifo_Ooo Svm_Fifo_Threads Ip4_Fib Tw_Service Bfd_Correctness
begin

text \<open>
  A verification library for the VPP packet processor (\<^verbatim>\<open>src/vpp/src\<close>). VPP moves frames of packets
  through a graph of nodes; its own logic sits in data structures that the nodes share. The library
  models seven groups of them from their C sources, bottom up:

  \<^item> \<^verbatim>\<open>vppinfra\<close>: bit operations, bitmaps, pools and index-linked lists, on which the rest is built;
  \<^item> the timer wheels of \<^verbatim>\<open>vppinfra\<close>, which TCP and the other protocols run their timers on;
  \<^item> the policer: its configuration is translated to token-bucket parameters, stored in a table of
    policers, and applied by a graph node to each packet, which may be marked and re-checksummed;
  \<^item> the Internet checksum that the packet nodes use;
  \<^item> the IPv4 FIB: hash tables of routes and the forwarding trie the lookup nodes walk;
  \<^item> the shared-memory fifo between an application and the TCP stack, with out-of-order segments;
  \<^item> Bidirectional Forwarding Detection: sessions that exchange packets with a peer and notice its
    silence, with authentication, over UDP.

  \<^bold>\<open>Conventions.\<close> Machine integers are words (\<open>u8\<close> to \<open>u64\<close>), so arithmetic wraps as in C; \<open>i32\<close> counters
  that the code asserts to stay in range are integers. C structures are records with the fields of
  the source. A failed \<open>ASSERT\<close>, an access outside an array, a missing pool element and undefined
  behaviour (a shift by the width, a division by zero, a float conversion out of range) are the value
  \<open>None\<close>, and the properties prove that they do not occur. Error codes are values. A pointer into a
  pool is its index, and a store through it is an update of the element. Loops whose end depends on
  the data are \<open>partial_function (option)\<close>, and every use is proved to return under the invariant; no
  fuel is used. The recursion of \<open>set_leaf\<close> and \<open>unset_leaf\<close> counts the plies left, at most four, as
  the assertion on the byte index does.

  \<^bold>\<open>Theories.\<close>

  \<^descr> \<open>Vpp_Prelude\<close>: the integer types, C shifts and conversions, and the lemmas between words and
    numbers.
  \<^descr> \<open>Bitops\<close>: \<open>count_set_bits\<close> of \<^verbatim>\<open>vppinfra/bitops.h\<close> is the population count.
  \<^descr> \<open>Bitmap\<close>: \<^verbatim>\<open>vppinfra/bitmap.h\<close>. Bitmaps as sets of indices: single-bit updates, operations on two
    bitmaps, multi-bit reads and writes, iteration, searches. Locale \<open>index_set\<close>.
  \<^descr> \<open>Pool\<close>: \<^verbatim>\<open>vppinfra/pool.h\<close>. Allocation, release and iteration over the free bitmap and the free
    stack. Locale \<open>allocator\<close>, interpreted on the pool, is what the tables, the fifo and the trie
    rely on.
  \<^descr> \<open>C_Loops\<close>: C's counting loops over a state, and their proof rules.
  \<^descr> \<open>Vpp_Dlist\<close>: \<^verbatim>\<open>vppinfra/dlist.h\<close>. The theory of index-linked rings, and the lists as sequences of
    indices. Locale \<open>index_deque\<close>.
  \<^descr> \<open>Tw_Timer\<close>, \<open>Tw_Wheel\<close>, \<open>Tw_Service\<close>: \<^verbatim>\<open>vppinfra/tw_timer_template.c\<close> for any geometry. The model and the
    lists of the slots; the abstract wheel, a map from timers to the ticks they are due at, the
    relation \<open>tw_rep\<close> to it and its runs as the inductive relation \<open>timer_run\<close>; the loop over the ticks,
    start, stop, initialisation and release as refinements. Locale \<open>timer_service\<close>, interpreted on the
    wheels, has the timers that expire on time.
  \<^descr> \<open>Police\<close>: \<open>vnet_police_packet\<close> of \<^verbatim>\<open>vnet/policer/police.h\<close>. Bounds on the conforming bytes of any
    run of packets, equality with the ideal two-rate three-colour marker, and the wrap of the excess
    bucket.
  \<^descr> \<open>Policer_Xlate\<close>, \<open>C_F64\<close>, \<open>Policer_X86\<close>: \<^verbatim>\<open>vnet/policer/xlate.c\<close>. Validation, rounding, the
    exponent and mantissa search, both translations and their round trips; the \<open>double\<close> arithmetic of
    \<open>compute_policer_params\<close> with rounding to nearest even.
  \<^descr> \<open>Ip_Checksum\<close>: \<^verbatim>\<open>vnet/ip/ip_checksum.c\<close>, \<^verbatim>\<open>ip_packet.h\<close>, \<^verbatim>\<open>ip4_packet.h\<close>. The word-at-a-time sum is the
    one's complement sum of RFC 1071; incremental update; header checksum.
  \<^descr> \<open>Policer_Node\<close>: \<^verbatim>\<open>vnet/policer/policer.c\<close> and \<^verbatim>\<open>node_funcs.c\<close>. The policer tables, marking, and the
    dual and single loops of the node.
  \<^descr> \<open>Svm_Fifo\<close>, \<open>Svm_Fifo_Ooo\<close>, \<open>Svm_Fifo_Threads\<close>: \<^verbatim>\<open>svm/svm_fifo.c\<close> and \<^verbatim>\<open>svm_fifo.h\<close>. The ring as a bounded
    queue (locale \<open>byte_queue\<close>); the linked list of out-of-order segments and reassembly; and a
    producer and a consumer thread, interleaved step by step without locks.
  \<^descr> \<open>Ip4_Mtrie\<close>, \<open>Ip4_Fib\<close>: \<^verbatim>\<open>vnet/ip/ip4_mtrie.c\<close> and \<^verbatim>\<open>vnet/fib/ip4_fib.c\<close>. The pool of plies as a tree;
    what setting and unsetting a leaf does to every address; the lookup of the forwarding nodes is
    the longest prefix match of the hash tables (locale \<open>route_table\<close>).
  \<^descr> \<open>C_Sf64\<close>: signed \<open>double\<close> values, for the clocks of the timer wheels and the intervals of BFD.
  \<^descr> \<open>Bfd_Protocol\<close>, \<open>Bfd_Session\<close>, \<open>Bfd_Engine\<close>, \<open>Bfd_Auth\<close>: \<^verbatim>\<open>vnet/bfd/bfd_protocol.c\<close> and \<^verbatim>\<open>bfd_main.c\<close>. Packets
    and their bytes; sessions with their intervals, timers and poll state; frames, consumption of
    packets, timeouts and the rounds of the process; discriminators, keys and authentication.
  \<^descr> \<open>Bfd_Timing\<close>, \<open>Bfd_Invariant\<close>, \<open>Bfd_Progress\<close>: the double arithmetic of the intervals, the invariant of a
    session, and that every operation on one is defined, keeps it, and follows RFC 5880.
  \<^descr> \<open>Bfd_Auth_Lemmas\<close>, \<open>Bfd_Table\<close>, \<open>Bfd_Alloc\<close>: the window of sequence numbers and what an accepted packet
    proves; the table of sessions with counted keys; the generator of discriminators has full period.
  \<^descr> \<open>Bfd_Udp\<close>, \<open>Bfd_Udp_Table\<close>, \<open>Bfd_Udp_Api\<close>: \<^verbatim>\<open>vnet/bfd/bfd_udp.c\<close>. The table by interface and addresses,
    the API as a map of sessions (locale \<open>session_service\<close>), headers and input nodes.
  \<^descr> \<open>Bfd_System\<close>, \<open>Bfd_Peers\<close>, \<open>Bfd_Correctness\<close>: all of it as a transition system, two peers that come up,
    and the properties of BFD.
  \<^descr> \<open>Spec2Isabelle\<close>: from a policer configuration to the bytes it lets through, and packets that
    bypass it.

  \<^bold>\<open>Parameters.\<close> The clock rate of the policer, the contents of new pool memory, the addresses of
  buffers, and the load-balance index of a FIB entry are arguments of the definitions. So are the
  geometry of a timer wheel and its callback; of the callback the theorems assume that it returns
  and that it changes the wheel only by starting and stopping timers (\<open>callback_ok\<close>), which is shown of
  a callback that starts timers. Of BFD, the digest SHA1 and what calls into the rest of VPP return
  (\<open>bfd_env\<close>), the readings of the clock, the interfaces with their addresses, the adjacencies, the elements
  that the timing wheel gives back and whether a growing pool moves are arguments; the calls themselves
  are recorded in order.

  \<^bold>\<open>Bounds.\<close> The rate bound of the configuration theorem assumes clocks between \<open>2^30\<close> and \<open>2^53\<close> Hz and rates
  up to 100 Gbit/s, where the float conversions are exact enough. The route theorem assumes fewer
  than \<open>2^31\<close> plies, the width of a leaf, which is three plies per route change. Intervals of timers
  are at least one tick and less than the slots of a single wheel, or than \<open>(S - 1) * S\<close> for two rings
  of \<open>S\<close> slots, where the assertion of \<open>tw_timer_start\<close> holds at every position of the rings; a wheel has
  fewer than \<open>2^32 - 1\<close> elements. A policer's scale is below 32, where its shift is defined; statements
  about bytes assume lengths whose scaled value fits 32 bits, and show what happens otherwise. BFD is
  taken on a clock of at most \<open>2^40\<close> Hz that has not counted beyond \<open>2^60\<close>, with at most 1001 sessions, the
  number of draws of the generator, and counts of key references that do not wrap.

  \<^bold>\<open>Not modelled.\<close> Memory layout, alignment, prefetches, tracing, formatting and the command line have
  no effect on the values. The graph scheduler, drivers, message transport and shared memory
  segments are system calls and run-time infrastructure. TCP, the session layer, tunnels, IPv6
  forwarding, the classifier and the plugins are outside this library. The readers of the trie that
  run during an update are not modelled; the fifo is the only component taken between threads. BFD
  runs in the main thread here: calls from workers, the timing wheel below it, the wait of the process
  between its rounds (a round takes the first of the pending events, as the code does), the IPv6 headers
  sent, and the API messages and commands that call it are left out.
\<close>

section \<open>From a configuration to the packets\<close>

lemma implements_budget:
  assumes "policer_implements hz k p" and "pol_current_bucket p = pol_current_limit p"
    and "times_ordered p pkts" and "police_run p pkts = Some (p', rs)" and "lengths_fit p pkts"
  shows "real (sent_bytes {POLICE_CONFORM} pkts rs)
    \<le> real (unat (cfg_cb k))
       + real (unat (pol_last_update_time p') - unat (pol_last_update_time p))
         * (bytes_per_period hz (ucast (cfg_cir k) * 125) * (1 + 1 / 2 ^ 53) + 1 / 2 ^ unat (pol_scale p))"
proof -
  let ?s = "2 ^ unat (pol_scale p) :: real" and ?n = "unat (pol_last_update_time p') - unat (pol_last_update_time p)"
  let ?e = "bytes_per_period hz (ucast (cfg_cir k) * 125)" and ?tok = "unat (pol_cir_tokens_per_period p)"
  have "charged p {POLICE_CONFORM} pkts rs \<le> unat (pol_current_limit p) + ?n * ?tok"
    using conform_budget [OF assms(3,4)] assms(2) by simp
  then have "2 ^ unat (pol_scale p) * sent_bytes {POLICE_CONFORM} pkts rs
      \<le> min (unat (cfg_cb k)) (2 ^ 32 - 1) * 2 ^ unat (pol_scale p) + ?n * ?tok"
    using assms(1) unfolding charged_eq [OF assms(5)] by (simp add: policer_implements_def)
  also have "\<dots> \<le> unat (cfg_cb k) * 2 ^ unat (pol_scale p) + ?n * ?tok" by simp
  finally have "real (2 ^ unat (pol_scale p) * sent_bytes {POLICE_CONFORM} pkts rs)
      \<le> real (unat (cfg_cb k) * 2 ^ unat (pol_scale p) + ?n * ?tok)" by (simp only: of_nat_le_iff)
  then have b: "?s * real (sent_bytes {POLICE_CONFORM} pkts rs) \<le> real (unat (cfg_cb k)) * ?s + real ?n * real ?tok"
    by (simp only: of_nat_add of_nat_mult of_nat_power of_nat_numeral)
  have "\<bar>real ?tok - ?e * ?s\<bar> \<le> 1 + ?e * ?s / 2 ^ 53"
    using assms(1) unfolding policer_implements_def accurate_def by blast
  then have "real ?tok \<le> ?e * ?s + ?e * ?s / 2 ^ 53 + 1" by linarith
  then have "real ?n * real ?tok \<le> real ?n * (?e * ?s + ?e * ?s / 2 ^ 53 + 1)" by (rule mult_left_mono) simp
  with b have "?s * real (sent_bytes {POLICE_CONFORM} pkts rs)
      \<le> real (unat (cfg_cb k)) * ?s + real ?n * (?e * ?s + ?e * ?s / 2 ^ 53 + 1)" by linarith
  also have "\<dots> = ?s * (real (unat (cfg_cb k)) + real ?n * (?e * (1 + 1 / 2 ^ 53) + 1 / ?s))"
    by (simp add: field_simps)
  finally show ?thesis by (simp only: mult_le_cancel_left_pos zero_less_power zero_less_numeral)
qed

text \<open>
  C1. End to end: a policer created from a valid configuration that does not preset its buckets, with
  rates of at most 100 Gbit/s and a clock between \<open>2^30\<close> and \<open>2^53\<close> Hz, passes as conforming, in any run of
  packets with non-decreasing times whose scaled lengths fit 32 bits, at most the configured burst plus
  the configured rate times the elapsed policer periods, up to the rounding of the rate.
\<close>

theorem policer_enforces_configuration:
  assumes "2 ^ 30 \<le> unat hz" and "unat hz < 2 ^ 53" and "pol_kbps_cfg cfg = Some k" and "x86_valid k"
    and "unat (cfg_cir k) \<le> 100000000" and "unat (cfg_eir k) \<le> 100000000" and "cfg_overwrite_bucket cfg = 0"
    and "sse2_pol_logical_2_physical hz (Some cfg) = Some (0, p)"
    and "times_ordered p pkts" and "police_run p pkts = Some (p', rs)" and "lengths_fit p pkts"
  shows "real (sent_bytes {POLICE_CONFORM} pkts rs)
    \<le> real (unat (cfg_cb k))
       + real (unat (pol_last_update_time p') - unat (pol_last_update_time p))
         * (bytes_per_period hz (ucast (cfg_cir k) * 125) * (1 + 1 / 2 ^ 53) + 1 / 2 ^ unat (pol_scale p))"
proof -
  have "policer_implements hz k p" "pol_current_bucket p = pol_current_limit p"
    using logical_2_physical_ok [OF assms(1-6)] assms(7,8) by (auto simp: buckets_def word_unat_eq_iff)
  then show ?thesis using assms(9-11) by (rule implements_budget)
qed

theorem policer_enforces_configuration_witness:
  "\<exists>p p' rs. sse2_pol_logical_2_physical 2000000000 (Some sample_2r3c) = Some (0, p)
     \<and> police_run p [(64, POLICE_CONFORM, 0)] = Some (p', rs) \<and> lengths_fit p [(64, POLICE_CONFORM, 0)]
     \<and> real (sent_bytes {POLICE_CONFORM} [(64, POLICE_CONFORM, 0)] rs) \<le> 100000"
proof -
  obtain p where p: "sse2_pol_logical_2_physical 2000000000 (Some sample_2r3c) = Some (0, p)"
    by (rule sample_2r3c_policer)
  have hz: "2 ^ 30 \<le> unat (2000000000 :: u64)" "unat (2000000000 :: u64) < 2 ^ 53" by simp_all
  have i: "policer_implements 2000000000 sample_2r3c p"
    using logical_2_physical_ok [OF hz sample_2r3c_kbps(1-4)] p by auto
  have z: "pol_last_update_time p = 0" using i by (simp add: policer_implements_def)
  have ord: "times_ordered p [(64, POLICE_CONFORM, 0)]" using z by (simp add: times_ordered_def)
  have lim: "unat (pol_current_limit p) = 100000 * 2 ^ unat (pol_scale p)"
    using i by (simp add: policer_implements_def sample_2r3c_def)
  have f: "lengths_fit p [(64, POLICE_CONFORM, 0)]"
    using lim unat_u32_lt [of "pol_current_limit p"] by (simp add: lengths_fit_def length_fits_def)
  have "unat (pol_scale p) < 32"
    using power_less_imp_less_exp [of "2 :: nat" "unat (pol_scale p)" 32] lim unat_u32_lt [of "pol_current_limit p"] by simp
  then obtain p' r where v: "vnet_police_packet p 64 POLICE_CONFORM 0 = Some (p', r)"
    by (cases "police_outcome p 64 POLICE_CONFORM 0") (simp add: vnet_police_packet_refill word_le_nat_alt)
  then obtain rs where r: "police_run p [(64, POLICE_CONFORM, 0)] = Some (p', rs)" by simp
  have "pol_last_update_time p' = 0" using vnet_police_packet_frame [OF v] by simp
  then have "real (sent_bytes {POLICE_CONFORM} [(64, POLICE_CONFORM, 0)] rs) \<le> 100000"
    using policer_enforces_configuration [OF hz sample_2r3c_kbps(1-5) p ord r f] z by (simp add: sample_2r3c_def)
  then show ?thesis using p r f by blast
qed

text \<open>
  C38. The packet length is shifted by the scale in 32 bits: a packet whose scaled length is a
  multiple of \<open>2^32\<close> conforms to every colour-blind policer at any time and takes no token out of
  either bucket, however long it is and whatever burst is configured.
\<close>

theorem policer_scaled_length_bypass:
  assumes "pol_scale p < 32" and "2 ^ 32 dvd unat (len :: u32) * 2 ^ unat (pol_scale p)" and "pol_color_aware p = 0"
    and "n = t - pol_last_update_time p"
  shows "vnet_police_packet p len col t = Some (p\<lparr>pol_last_update_time := t,
      pol_current_bucket := ucast (refill (pol_current_bucket p) n (pol_cir_tokens_per_period p) (pol_current_limit p)),
      pol_extended_bucket := ucast (refill (pol_extended_bucket p) n
        (if pol_single_rate p \<noteq> 0 then pol_cir_tokens_per_period p else pol_pir_tokens_per_period p) (pol_extended_limit p))\<rparr>,
    POLICE_CONFORM)"
proof -
  have "unat (scaled_length p len) = unat len * 2 ^ unat (pol_scale p) mod 2 ^ 32"
    unfolding scaled_length_def unsigned_push_bit_eq by (simp add: push_bit_eq_mult take_bit_eq_mod)
  then have l: "scaled_length p len = 0" using assms(2) by (simp add: word_unat_eq_iff)
  have "\<not> x < (0 :: u64)" for x by simp
  then show ?thesis
    using assms(1,3,4) unfolding vnet_police_packet_refill police_outcome_def l Let_def by (simp add: not_le)
qed

text \<open>The policer of 64 kbit/s with a burst of 1000 bytes and its 1024-byte packet.\<close>

definition small_burst_policer :: policer_read_response_type_st where
  "small_burst_policer = zero_policer\<lparr>pol_single_rate := 1, pol_scale := 22, pol_current_limit := 4194304000,
     pol_current_bucket := 4194304000, pol_cir_tokens_per_period := 4096000, pol_pir_tokens_per_period := 1\<rparr>"

theorem policer_scaled_length_bypass_witness:
  "x86_pol_fill 1073741824 8000 0 (zero_policer\<lparr>pol_single_rate := 1, pol_current_limit := 1000\<rparr>)
     = Some (0, small_burst_policer)
   \<and> map_option snd (vnet_police_packet small_burst_policer 1024 POLICE_CONFORM 0) = Some POLICE_CONFORM"
proof -
  have "pol_scale small_burst_policer < 32" "2 ^ 32 dvd unat (1024 :: u32) * 2 ^ unat (pol_scale small_burst_policer)"
    "pol_color_aware small_burst_policer = 0"
    by (simp_all add: small_burst_policer_def zero_policer_def)
  from policer_scaled_length_bypass [OF this refl, of POLICE_CONFORM 0]
  show ?thesis using small_burst_params
    by (simp add: x86_pol_fill_def small_burst_policer_def zero_policer_def Let_def)
qed

end
